(* ===== verification/Prelude.thy ===== *)
theory Prelude
  imports "HOL-Library.Word" "HOL-Library.Monad_Syntax"
begin

text \<open>
  Shared vocabulary of the development: the machine types of the C sources, the little-endian
  memory image of integers, the calculus for computations that may be undefined (\<open>None\<close>
  stands for undefined behaviour or divergence of the C code), and generic facts about lists.
\<close>

section \<open>Machine types\<close>

type_synonym byte = "8 word"
type_synonym u32 = "32 word"
type_synonym u64 = "64 word"

text \<open>The bytes of an ASCII literal of the source.\<close>

definition bytes_of :: "string \<Rightarrow> byte list" where
  "bytes_of s = map of_char s"

lemma bytes_of_simps:
  "bytes_of [] = []" "bytes_of (c # s) = of_char c # bytes_of s"
  by (simp_all add: bytes_of_def)

lemma length_bytes_of [simp]: "length (bytes_of s) = length s"
  by (simp add: bytes_of_def)

lemma unat_u32: "n < 2 ^ 32 \<Longrightarrow> unat (of_nat n :: u32) = n"
  by (simp add: unat_of_nat)

lemma unat_u64: "n < 2 ^ 64 \<Longrightarrow> unat (of_nat n :: u64) = n"
  by (simp add: unat_of_nat)

section \<open>Memory images of integers\<close>

text \<open>
  Integers are written to files and sockets as their memory image, which is little-endian on
  the platform of the programs: \<open>le_bytes n v\<close> is the image of \<open>v\<close> in \<open>n\<close>
  bytes and \<open>le_val\<close> reads an image back.
\<close>

fun le_bytes :: "nat \<Rightarrow> nat \<Rightarrow> byte list" where
  "le_bytes 0 v = []"
| "le_bytes (Suc n) v = of_nat v # le_bytes n (v div 256)"

fun le_val :: "byte list \<Rightarrow> nat" where
  "le_val [] = 0"
| "le_val (b # bs) = unat b + 256 * le_val bs"

lemma length_le_bytes [simp]: "length (le_bytes n v) = n"
  by (induction n arbitrary: v) auto

lemma le_val_le_bytes: "le_val (le_bytes n v) = v mod 256 ^ n"
proof (induction n arbitrary: v)
  case 0
  then show ?case by simp
next
  case (Suc n)
  have "v mod 256 + 256 * (v div 256 mod 256 ^ n) = v mod (256 * 256 ^ n)"
    by (simp add: mod_mult2_eq)
  then show ?case using Suc by (simp add: unat_of_nat)
qed

lemma le_val_bound: "le_val bs < 256 ^ length bs"
proof (induction bs)
  case Nil
  then show ?case by simp
next
  case (Cons b bs)
  have "unat b < 256" using unsigned_less [of b] by simp
  moreover have "le_val bs + 1 \<le> 256 ^ length bs" using Cons by simp
  then have "256 * (le_val bs + 1) \<le> 256 * 256 ^ length bs" by (rule mult_le_mono2)
  ultimately show ?case by simp
qed

lemma byte_256: "(256 :: byte) = 0"
  by simp

lemma le_bytes_le_val: "le_bytes (length bs) (le_val bs) = bs"
proof (induction bs)
  case Nil
  then show ?case by simp
next
  case (Cons b bs)
  have "unat b < 256" using unsigned_less [of b] by simp
  then have "(unat b + 256 * le_val bs) div 256 = le_val bs" by simp
  moreover have "(256 :: byte) * of_nat (le_val bs) = 0"
    by (simp only: byte_256 mult_zero_left)
  then have "(of_nat (unat b + 256 * le_val bs) :: byte) = b"
    by simp
  ultimately show ?case using Cons by simp
qed

text \<open>Fixed-width integers over these images.\<close>

definition enc_u32 :: "u32 \<Rightarrow> byte list" where
  "enc_u32 v = le_bytes 4 (unat v)"

definition dec_u32 :: "byte list \<Rightarrow> u32" where
  "dec_u32 bs = of_nat (le_val bs)"

definition enc_u64 :: "u64 \<Rightarrow> byte list" where
  "enc_u64 v = le_bytes 8 (unat v)"

definition dec_u64 :: "byte list \<Rightarrow> u64" where
  "dec_u64 bs = of_nat (le_val bs)"

lemma length_enc_u32 [simp]: "length (enc_u32 v) = 4"
  by (simp add: enc_u32_def)

lemma length_enc_u64 [simp]: "length (enc_u64 v) = 8"
  by (simp add: enc_u64_def)

lemma dec_enc_u32 [simp]: "dec_u32 (enc_u32 v) = v"
proof -
  have "unat v < 256 ^ 4" using unsigned_less [of v] by simp
  then show ?thesis
    unfolding enc_u32_def dec_u32_def le_val_le_bytes by simp
qed

lemma dec_enc_u64 [simp]: "dec_u64 (enc_u64 v) = v"
proof -
  have "unat v < 256 ^ 8" using unsigned_less [of v] by simp
  then show ?thesis
    unfolding enc_u64_def dec_u64_def le_val_le_bytes by simp
qed

section \<open>Computations that may be undefined\<close>

text \<open>
  \<open>wp m Q\<close>: the computation is defined (no undefined behaviour, no divergence) and its
  result satisfies \<open>Q\<close>.
\<close>

definition wp :: "'a option \<Rightarrow> ('a \<Rightarrow> bool) \<Rightarrow> bool" where
  "wp m Q \<longleftrightarrow> (case m of None \<Rightarrow> False | Some x \<Rightarrow> Q x)"

named_theorems wp_simps

lemma wp_Some [simp, wp_simps]: "wp (Some x) Q = Q x"
  by (simp add: wp_def)

lemma wp_None [simp, wp_simps]: "\<not> wp None Q"
  by (simp add: wp_def)

lemma wp_bind [simp, wp_simps]: "wp (Option.bind m f) Q = wp m (\<lambda>x. wp (f x) Q)"
  by (cases m) (simp_all add: wp_def)

lemma wp_prod [wp_simps]: "wp (case p of (a, b) \<Rightarrow> f a b) Q = (case p of (a, b) \<Rightarrow> wp (f a b) Q)"
  by (simp split: prod.split)

lemma wp_mono: "wp m P \<Longrightarrow> (\<And>x. P x \<Longrightarrow> Q x) \<Longrightarrow> wp m Q"
  by (cases m) (simp_all add: wp_def)

lemma wp_conj: "wp m P \<Longrightarrow> wp m Q \<Longrightarrow> wp m (\<lambda>x. P x \<and> Q x)"
  by (cases m) (simp_all add: wp_def)

lemma wpE:
  assumes "wp m Q"
  obtains x where "m = Some x" and "Q x"
  using assms by (cases m) (simp_all add: wp_def)

lemma wpE3:
  assumes "wp m (\<lambda>(a, b, c). Q a b c)"
  obtains a b c where "m = Some (a, b, c)" and "Q a b c"
  using assms by (cases m) (auto simp: wp_def)

lemma wpE4:
  assumes "wp m (\<lambda>(a, b, c, d). Q a b c d)"
  obtains a b c d where "m = Some (a, b, c, d)" and "Q a b c d"
  using assms by (cases m) (auto simp: wp_def)

lemma wpE5:
  assumes "wp m (\<lambda>(a, b, c, d, e). Q a b c d e)"
  obtains a b c d e where "m = Some (a, b, c, d, e)" and "Q a b c d e"
  using assms by (cases m) (auto simp: wp_def)

lemma wpI: "m = Some x \<Longrightarrow> Q x \<Longrightarrow> wp m Q"
  by simp

lemma wp_iff: "wp m Q \<longleftrightarrow> (\<exists>x. m = Some x \<and> Q x)"
  by (cases m) (simp_all add: wp_def)

text \<open>A checked array read.\<close>

definition at :: "'a list \<Rightarrow> nat \<Rightarrow> 'a option" where
  "at xs i = (if i < length xs then Some (xs ! i) else None)"

lemma at_simp [simp]: "i < length xs \<Longrightarrow> at xs i = Some (xs ! i)"
  by (simp add: at_def)

lemma wp_at [wp_simps]: "wp (at xs i) Q \<longleftrightarrow> i < length xs \<and> Q (xs ! i)"
  by (simp add: at_def)

section \<open>Decimal numbers\<close>

fun show_nat :: "nat \<Rightarrow> byte list" where
  "show_nat n = (if n < 10 then [of_char CHR ''0'' + of_nat n]
     else show_nat (n div 10) @ [of_char CHR ''0'' + of_nat (n mod 10)])"

declare show_nat.simps [simp del]

fun read_dec :: "nat \<Rightarrow> byte list \<Rightarrow> nat" where
  "read_dec acc [] = acc"
| "read_dec acc (c # s) = read_dec (10 * acc + unat (c - of_char CHR ''0'')) s"

lemma read_dec_append: "read_dec acc (s @ t) = read_dec (read_dec acc s) t"
  by (induction s arbitrary: acc) auto

lemma unat_digit: "d < 10 \<Longrightarrow> unat (of_nat d :: byte) = d"
  by (simp add: unat_of_nat)

lemma read_dec_show_nat: "read_dec 0 (show_nat n) = n"
proof (induction n rule: show_nat.induct)
  case (1 n)
  then show ?case
    by (subst show_nat.simps) (auto simp: read_dec_append unat_digit)
qed

section \<open>Numbers in text\<close>

text \<open>
  \<open>strtoull\<close> in base 10: white space, an optional sign, digits. It returns the value, the length of what
  it consumed (0 when there are no digits) and whether it set \<open>errno\<close> to \<open>ERANGE\<close>; a minus sign negates
  the value in the unsigned type.
\<close>

definition is_space :: "byte \<Rightarrow> bool" where
  "is_space b \<longleftrightarrow> b = 32 \<or> (9 \<le> b \<and> b \<le> 13)"

definition is_digit :: "byte \<Rightarrow> bool" where
  "is_digit b \<longleftrightarrow> of_char CHR ''0'' \<le> b \<and> b \<le> of_char CHR ''9''"

definition ULLONG_MAX :: nat where "ULLONG_MAX = 2 ^ 64 - 1"

definition strtoull :: "byte list \<Rightarrow> u64 \<times> nat \<times> bool" where
  "strtoull str =
     (let unspaced = dropWhile is_space str;
          negative = (unspaced \<noteq> [] \<and> hd unspaced = of_char CHR ''-'');
          signed = (unspaced \<noteq> [] \<and> (hd unspaced = of_char CHR ''-'' \<or> hd unspaced = of_char CHR ''+''));
          unsigned_part = (if signed then tl unspaced else unspaced);
          digits = takeWhile is_digit unsigned_part;
          v = read_dec 0 digits
      in if digits = [] then (0, 0, False)
         else (if v > ULLONG_MAX then -1 else if negative then - of_nat v else of_nat v,
               length str - length unsigned_part + length digits, v > ULLONG_MAX))"

lemma is_digit_iff: "is_digit b \<longleftrightarrow> (\<exists>d<10. b = of_char CHR ''0'' + of_nat d)"
proof
  assume "is_digit b"
  then have "48 \<le> unat b" "unat b \<le> 57" by (simp_all add: is_digit_def word_le_nat_alt)
  then have "b = of_char CHR ''0'' + of_nat (unat b - 48)" "unat b - 48 < 10"
    by (simp_all add: of_nat_diff)
  then show "\<exists>d<10. b = of_char CHR ''0'' + of_nat d" by blast
next
  assume "\<exists>d<10. b = of_char CHR ''0'' + of_nat d"
  then obtain d where d: "d < 10" "b = of_char CHR ''0'' + of_nat d" by blast
  then have "d \<in> {0, 1, 2, 3, 4, 5, 6, 7, 8, 9}" by auto
  then show "is_digit b" using d(2) by (auto simp: is_digit_def)
qed

lemma show_nat_digits: "show_nat n \<noteq> [] \<and> (\<forall>b\<in>set (show_nat n). is_digit b)"
proof (induction n rule: show_nat.induct)
  case (1 n)
  have "is_digit (of_char CHR ''0'' + of_nat d)" if "d < 10" for d using that is_digit_iff by blast
  then show ?case using 1 by (subst (1 2) show_nat.simps) auto
qed

lemma digit_plain: "is_digit b \<Longrightarrow> \<not> is_space b \<and> b \<noteq> of_char CHR ''-'' \<and> b \<noteq> of_char CHR ''+'' \<and> b \<noteq> 0"
  by (auto simp: is_digit_def is_space_def word_le_nat_alt)

lemma strtoull_show_nat:
  assumes "n \<le> ULLONG_MAX"
  shows "strtoull (show_nat n) = (of_nat n, length (show_nat n), False)"
proof -
  obtain b bs where s: "show_nat n = b # bs" using show_nat_digits [of n] by (cases "show_nat n") auto
  have d: "\<forall>x\<in>set (b # bs). is_digit x" using show_nat_digits [of n] s by simp
  have sp: "dropWhile is_space (b # bs) = b # bs" using d digit_plain [of b] by simp
  have tk: "takeWhile is_digit (b # bs) = b # bs" using d by (simp add: takeWhile_eq_all_conv)
  have tk2: "takeWhile is_digit bs = bs" using d by (simp add: takeWhile_eq_all_conv)
  have rd: "read_dec 0 (b # bs) = n" using read_dec_show_nat [of n] s by simp
  show ?thesis unfolding s strtoull_def sp Let_def
    using d digit_plain [of b] rd assms by (auto simp: tk2)
qed

end
