(* ===== verification/Posix.thy ===== *)
theory Posix
  imports Prelude
begin

text \<open>
  The part of POSIX the programs use, as operations on an explicit world: open file
  descriptions indexed by descriptor, file contents indexed by inode, a directory of names, and
  a plan of what the kernel will do to the next calls. Every call consumes one entry of the plan:
  \<open>Normal\<close> lets it succeed fully, \<open>Eintr\<close> interrupts it (for calls that can be
  interrupted), \<open>Short k\<close> lets a transfer move at most \<open>k\<close> bytes (for reads, only on
  streams: a read of a regular file is not shortened), \<open>Fail\<close> makes it fail for good. After
  the plan is used up every call succeeds. A theorem that holds for every plan therefore holds
  for every finite sequence of interruptions, short transfers and failures.
\<close>

section \<open>The world\<close>

datatype errno = ENONE | EINTR | EIO | EBADF | EINVAL | ENOENT | ENOMEM | ESPIPE | ENAMETOOLONG
  | EISDIR | ENOTDIR | ENOTEMPTY | EBUSY | EPERM | EFAULT

text \<open>
  A name of the directory is one given by the user or one that \<open>mkstemp\<close> made up: its
  template and a serial number. That \<open>mkstemp\<close> returns a name that is not in use is its
  documented promise.
\<close>

datatype path = Named "byte list" | Temp "byte list" nat

datatype fkind = Regular | Stream

record ofd =
  o_ino :: nat
  o_off :: nat
  o_kind :: fkind

datatype outcome = Normal | Eintr | Short nat | Fail

record world =
  w_fds :: "ofd option list"
  w_data :: "nat \<Rightarrow> byte list"
  w_names :: "path \<rightharpoonup> nat"
  w_nino :: nat
  w_ntmp :: nat
  w_errno :: errno
  w_plan :: "outcome list"

definition next_outcome :: "world \<Rightarrow> outcome \<times> world" where
  "next_outcome w = (case w_plan w of [] \<Rightarrow> (Normal, w) | x # xs \<Rightarrow> (x, w\<lparr>w_plan := xs\<rparr>))"

definition clean :: "world \<Rightarrow> bool" where
  "clean w \<longleftrightarrow> Fail \<notin> set (w_plan w)"

definition set_errno :: "errno \<Rightarrow> world \<Rightarrow> world" where
  "set_errno e w = w\<lparr>w_errno := e\<rparr>"

definition fd_of :: "world \<Rightarrow> int \<Rightarrow> ofd option" where
  "fd_of w fd = (if 0 \<le> fd \<and> nat fd < length (w_fds w) then w_fds w ! nat fd else None)"

definition set_fd :: "int \<Rightarrow> ofd option \<Rightarrow> world \<Rightarrow> world" where
  "set_fd fd f w = w\<lparr>w_fds := (w_fds w)[nat fd := f]\<rparr>"

definition content :: "world \<Rightarrow> int \<Rightarrow> byte list" where
  "content w fd = (case fd_of w fd of None \<Rightarrow> [] | Some f \<Rightarrow> w_data w (o_ino f))"

text \<open>New descriptors are the lowest that is free.\<close>

fun first_free :: "'a option list \<Rightarrow> nat" where
  "first_free [] = 0"
| "first_free (None # xs) = 0"
| "first_free (Some x # xs) = Suc (first_free xs)"

definition install_fd :: "ofd \<Rightarrow> world \<Rightarrow> int \<times> world" where
  "install_fd f w =
     (let i = first_free (w_fds w) in
      (int i, w\<lparr>w_fds := (if i < length (w_fds w) then (w_fds w)[i := Some f]
                         else w_fds w @ [Some f])\<rparr>))"

section \<open>System calls\<close>

definition read_limit :: "outcome \<Rightarrow> fkind \<Rightarrow> nat \<Rightarrow> nat" where
  "read_limit x k n =
     (case x of Short m \<Rightarrow> (if k = Stream then min n (max 1 m) else n) | _ \<Rightarrow> n)"

definition sys_read :: "int \<Rightarrow> nat \<Rightarrow> world \<Rightarrow> int \<times> byte list \<times> world" where
  "sys_read fd n w =
     (case next_outcome w of (x, w) \<Rightarrow>
      (case fd_of w fd of
         None \<Rightarrow> (-1, [], set_errno EBADF w)
       | Some f \<Rightarrow>
           if x = Eintr then (-1, [], set_errno EINTR w)
           else if x = Fail then (-1, [], set_errno EIO w)
           else let bs = take (read_limit x (o_kind f) n) (drop (o_off f) (w_data w (o_ino f)))
                in (int (length bs), bs, set_fd fd (Some (f\<lparr>o_off := o_off f + length bs\<rparr>)) w)))"

definition sys_pread :: "int \<Rightarrow> nat \<Rightarrow> nat \<Rightarrow> world \<Rightarrow> int \<times> byte list \<times> world" where
  "sys_pread fd n off w =
     (case next_outcome w of (x, w) \<Rightarrow>
      (case fd_of w fd of
         None \<Rightarrow> (-1, [], set_errno EBADF w)
       | Some f \<Rightarrow>
           if o_kind f = Stream then (-1, [], set_errno ESPIPE w)
           else if x = Eintr then (-1, [], set_errno EINTR w)
           else if x = Fail then (-1, [], set_errno EIO w)
           else let bs = take n (drop off (w_data w (o_ino f)))
                in (int (length bs), bs, w)))"

text \<open>A write at an offset overwrites, and fills a gap with zero bytes; on a stream it appends.\<close>

definition put_at :: "fkind \<Rightarrow> nat \<Rightarrow> byte list \<Rightarrow> byte list \<Rightarrow> byte list" where
  "put_at k off bs d =
     (if k = Stream then d @ bs
      else take off d @ replicate (off - length d) 0 @ bs @ drop (off + length bs) d)"

definition write_limit :: "outcome \<Rightarrow> nat \<Rightarrow> nat" where
  "write_limit x n = (case x of Short m \<Rightarrow> min n (max 1 m) | _ \<Rightarrow> n)"

definition sys_write :: "int \<Rightarrow> byte list \<Rightarrow> world \<Rightarrow> int \<times> world" where
  "sys_write fd bs w =
     (case next_outcome w of (x, w) \<Rightarrow>
      (case fd_of w fd of
         None \<Rightarrow> (-1, set_errno EBADF w)
       | Some f \<Rightarrow>
           if x = Eintr then (-1, set_errno EINTR w)
           else if x = Fail then (-1, set_errno EIO w)
           else let c = take (write_limit x (length bs)) bs;
                    i = o_ino f
                in (int (length c),
                    set_fd fd (Some (f\<lparr>o_off := o_off f + length c\<rparr>))
                      (w\<lparr>w_data := (w_data w)(i := put_at (o_kind f) (o_off f) c (w_data w i))\<rparr>))))"

definition sys_lseek :: "int \<Rightarrow> nat \<Rightarrow> world \<Rightarrow> int \<times> world" where
  \<comment> \<open>\<open>lseek(fd, off, SEEK_SET)\<close>\<close>
  "sys_lseek fd off w =
     (case next_outcome w of (x, w) \<Rightarrow>
      (case fd_of w fd of
         None \<Rightarrow> (-1, set_errno EBADF w)
       | Some f \<Rightarrow>
           if o_kind f = Stream then (-1, set_errno ESPIPE w)
           else if x = Fail then (-1, set_errno EIO w)
           else (int off, set_fd fd (Some (f\<lparr>o_off := off\<rparr>)) w)))"

definition sys_ftruncate :: "int \<Rightarrow> nat \<Rightarrow> world \<Rightarrow> int \<times> world" where
  "sys_ftruncate fd len w =
     (case next_outcome w of (x, w) \<Rightarrow>
      (case fd_of w fd of
         None \<Rightarrow> (-1, set_errno EBADF w)
       | Some f \<Rightarrow>
           if o_kind f = Stream then (-1, set_errno EINVAL w)
           else if x = Fail then (-1, set_errno EIO w)
           else let i = o_ino f; d = w_data w i in
             (0, w\<lparr>w_data := (w_data w)(i := take len d @ replicate (len - length d) 0)\<rparr>)))"

definition sys_open :: "path \<Rightarrow> world \<Rightarrow> int \<times> world" where
  \<comment> \<open>\<open>open(path, O_RDONLY)\<close> of a regular file\<close>
  "sys_open p w =
     (case next_outcome w of (x, w) \<Rightarrow>
      (case w_names w p of
         None \<Rightarrow> (-1, set_errno ENOENT w)
       | Some i \<Rightarrow>
           if x = Fail then (-1, set_errno EIO w)
           else install_fd \<lparr>o_ino = i, o_off = 0, o_kind = Regular\<rparr> w))"

definition sys_close :: "int \<Rightarrow> world \<Rightarrow> int \<times> world" where
  \<comment> \<open>the descriptor is released even when the call reports an error\<close>
  "sys_close fd w =
     (case next_outcome w of (x, w) \<Rightarrow>
      (case fd_of w fd of
         None \<Rightarrow> (-1, set_errno EBADF w)
       | Some f \<Rightarrow>
           if x = Fail then (-1, set_errno EIO (set_fd fd None w)) else (0, set_fd fd None w)))"

definition sys_mkstemp :: "byte list \<Rightarrow> world \<Rightarrow> int \<times> path \<times> world" where
  "sys_mkstemp t w =
     (case next_outcome w of (x, w) \<Rightarrow>
      if x = Fail then (-1, Temp t (w_ntmp w), set_errno EIO w)
      else let p = Temp t (w_ntmp w); i = w_nino w in
        (case install_fd \<lparr>o_ino = i, o_off = 0, o_kind = Regular\<rparr> w of (fd, w) \<Rightarrow>
           (fd, p, w\<lparr>w_names := (w_names w)(p \<mapsto> i), w_data := (w_data w)(i := []),
                     w_nino := Suc i, w_ntmp := Suc (w_ntmp w)\<rparr>)))"

definition sys_unlink :: "path \<Rightarrow> world \<Rightarrow> int \<times> world" where
  "sys_unlink p w =
     (case next_outcome w of (x, w) \<Rightarrow>
      if x = Fail then (-1, set_errno EIO w)
      else if w_names w p = None then (-1, set_errno ENOENT w)
      else (0, w\<lparr>w_names := (w_names w)(p := None)\<rparr>))"

text \<open>\<open>malloc\<close>, \<open>calloc\<close> and \<open>realloc\<close>: only whether the request is granted.\<close>

definition sys_alloc :: "nat \<Rightarrow> world \<Rightarrow> bool \<times> world" where
  "sys_alloc n w =
     (case next_outcome w of (x, w) \<Rightarrow> if x = Fail then (False, set_errno ENOMEM w) else (True, w))"

section \<open>Accessing an updated world\<close>

lemma set_errno_simps [simp]:
  "w_fds (set_errno e w) = w_fds w" "w_data (set_errno e w) = w_data w"
  "w_names (set_errno e w) = w_names w" "w_nino (set_errno e w) = w_nino w"
  "w_ntmp (set_errno e w) = w_ntmp w" "w_plan (set_errno e w) = w_plan w"
  "w_errno (set_errno e w) = e" "fd_of (set_errno e w) fd = fd_of w fd"
  "clean (set_errno e w) = clean w"
  by (simp_all add: set_errno_def fd_of_def clean_def)

lemma set_fd_simps [simp]:
  "w_data (set_fd fd f w) = w_data w" "w_names (set_fd fd f w) = w_names w"
  "w_nino (set_fd fd f w) = w_nino w" "w_ntmp (set_fd fd f w) = w_ntmp w"
  "w_plan (set_fd fd f w) = w_plan w" "w_errno (set_fd fd f w) = w_errno w"
  "clean (set_fd fd f w) = clean w"
  by (simp_all add: set_fd_def clean_def)

lemma fd_of_fields [simp]:
  "fd_of (w\<lparr>w_data := d\<rparr>) fd = fd_of w fd" "fd_of (w\<lparr>w_names := nm\<rparr>) fd = fd_of w fd"
  "fd_of (w\<lparr>w_nino := k\<rparr>) fd = fd_of w fd" "fd_of (w\<lparr>w_ntmp := k\<rparr>) fd = fd_of w fd"
  "fd_of (w\<lparr>w_plan := pl\<rparr>) fd = fd_of w fd" "fd_of (w\<lparr>w_errno := e\<rparr>) fd = fd_of w fd"
  by (simp_all add: fd_of_def)

lemma fd_of_set_fd:
  assumes "fd_of w fd = Some f"
  shows "fd_of (set_fd fd x w) fd' = (if fd' = fd then x else fd_of w fd')"
  using assms by (auto simp: fd_of_def set_fd_def nth_list_update split: if_splits)

lemma first_free_le: "first_free xs \<le> length xs"
  by (induction xs rule: first_free.induct) auto

lemma first_free_None: "first_free xs < length xs \<Longrightarrow> xs ! first_free xs = None"
  by (induction xs rule: first_free.induct) auto

lemma install_fd_spec:
  assumes "install_fd f w = (fd, w')"
  shows "fd_of w fd = None" "0 \<le> fd"
    "fd_of w' x = (if x = fd then Some f else fd_of w x)"
    "w_data w' = w_data w" "w_names w' = w_names w" "w_nino w' = w_nino w"
    "w_ntmp w' = w_ntmp w" "w_plan w' = w_plan w" "w_errno w' = w_errno w"
proof -
  let ?i = "first_free (w_fds w)"
  have fd: "fd = int ?i" and w': "w' = w\<lparr>w_fds := (if ?i < length (w_fds w)
      then (w_fds w)[?i := Some f] else w_fds w @ [Some f])\<rparr>"
    using assms by (simp_all add: install_fd_def Let_def)
  have le: "?i \<le> length (w_fds w)" by (rule first_free_le)
  show "fd_of w fd = None" using first_free_None [of "w_fds w"] by (simp add: fd_of_def fd)
  show "0 \<le> fd" by (simp add: fd)
  show "fd_of w' x = (if x = fd then Some f else fd_of w x)"
    using le by (auto simp: fd_of_def fd w' nth_append nth_list_update)
  show "w_data w' = w_data w" "w_names w' = w_names w" "w_nino w' = w_nino w"
    "w_ntmp w' = w_ntmp w" "w_plan w' = w_plan w" "w_errno w' = w_errno w"
    by (simp_all add: w')
qed

section \<open>Well-formed worlds and frames\<close>

text \<open>
  Well-formed: every descriptor and every name refers to an inode that has been handed out, and
  no name carries a serial number that \<open>mkstemp\<close> has still to use.
\<close>

definition wfw :: "world \<Rightarrow> bool" where
  "wfw w \<longleftrightarrow> (\<forall>fd f. fd_of w fd = Some f \<longrightarrow> o_ino f < w_nino w)
     \<and> (\<forall>p i. w_names w p = Some i \<longrightarrow> i < w_nino w)
     \<and> (\<forall>t k. w_ntmp w \<le> k \<longrightarrow> w_names w (Temp t k) = None)"

definition handle :: "ofd \<Rightarrow> nat \<times> fkind" where
  "handle f = (o_ino f, o_kind f)"

text \<open>
  A frame says what a piece of code leaves alone: names in \<open>P\<close>, descriptors in \<open>D\<close>
  (their offset too, outside \<open>X\<close>), and the contents of all existing inodes outside
  \<open>W\<close>. It also says that the plan was consumed from the front.
\<close>

record scope =
  sc_names :: "path set"
  sc_fds :: "int set"
  sc_move :: "int set"
  sc_write :: "nat set"

definition frame :: "scope \<Rightarrow> world \<Rightarrow> world \<Rightarrow> bool" where
  "frame s w w' \<longleftrightarrow>
     (\<exists>k. w_plan w' = drop k (w_plan w))
   \<and> (\<forall>p\<in>sc_names s. w_names w' p = w_names w p)
   \<and> (\<forall>fd\<in>sc_fds s. map_option handle (fd_of w' fd) = map_option handle (fd_of w fd))
   \<and> (\<forall>fd\<in>sc_fds s - sc_move s. fd_of w' fd = fd_of w fd)
   \<and> (\<forall>i<w_nino w. i \<notin> sc_write s \<longrightarrow> w_data w' i = w_data w i)
   \<and> w_nino w \<le> w_nino w' \<and> w_ntmp w \<le> w_ntmp w'
   \<and> (wfw w \<longrightarrow> wfw w')"

lemma frame_refl [simp, intro]: "frame s w w"
  by (auto simp: frame_def intro: exI [of _ 0])

lemma frame_trans [trans]:
  assumes "frame s w w'" and "frame s w' w''"
  shows "frame s w w''"
proof -
  obtain k k' where "w_plan w' = drop k (w_plan w)" "w_plan w'' = drop k' (w_plan w')"
    using assms by (auto simp: frame_def)
  then have "w_plan w'' = drop (k' + k) (w_plan w)" by simp
  then show ?thesis
    using assms unfolding frame_def by (smt (verit) order.strict_trans2 order_trans)
qed

lemma frame_weaken:
  assumes "frame s w w'" and "sc_names t \<subseteq> sc_names s" and "sc_fds t \<subseteq> sc_fds s"
    and "sc_fds t \<inter> sc_move s \<subseteq> sc_move t" and "\<And>i. i < w_nino w \<Longrightarrow> i \<in> sc_write s \<Longrightarrow> i \<in> sc_write t"
  shows "frame t w w'"
  using assms unfolding frame_def by blast

lemma frame_clean: "frame s w w' \<Longrightarrow> clean w \<Longrightarrow> clean w'"
  by (auto simp: frame_def clean_def dest: in_set_dropD)

lemma frame_wfw: "frame s w w' \<Longrightarrow> wfw w \<Longrightarrow> wfw w'"
  by (simp add: frame_def)

lemma frame_data:
  "frame s w w' \<Longrightarrow> i < w_nino w \<Longrightarrow> i \<notin> sc_write s \<Longrightarrow> w_data w' i = w_data w i"
  by (simp add: frame_def)

lemma frame_names: "frame s w w' \<Longrightarrow> p \<in> sc_names s \<Longrightarrow> w_names w' p = w_names w p"
  by (simp add: frame_def)

lemma frame_fd:
  "frame s w w' \<Longrightarrow> fd \<in> sc_fds s \<Longrightarrow> fd \<notin> sc_move s \<Longrightarrow> fd_of w' fd = fd_of w fd"
  by (simp add: frame_def)

lemma frame_handle:
  assumes "frame s w w'" and "fd \<in> sc_fds s" and "fd_of w fd = Some f"
  obtains f' where "fd_of w' fd = Some f'" and "o_ino f' = o_ino f" and "o_kind f' = o_kind f"
proof -
  have "map_option handle (fd_of w' fd) = map_option handle (fd_of w fd)"
    using assms(1,2) by (simp add: frame_def)
  then show thesis using assms(3) that by (auto simp: handle_def)
qed

lemma frame_content:
  assumes "frame s w w'" and "wfw w" and "fd \<in> sc_fds s" and "fd_of w fd = Some f"
    and "o_ino f \<notin> sc_write s"
  shows "content w' fd = content w fd"
proof -
  obtain f' where f': "fd_of w' fd = Some f'" "o_ino f' = o_ino f"
    using frame_handle [OF assms(1,3,4)] by metis
  have "o_ino f < w_nino w" using assms(2,4) by (auto simp: wfw_def)
  then have "w_data w' (o_ino f) = w_data w (o_ino f)"
    using frame_data [OF assms(1)] assms(5) by blast
  then show ?thesis using f' assms(4) by (simp add: content_def)
qed

text \<open>Two worlds that differ only in the error number and in how much of the plan is left.\<close>

definition quiet :: "world \<Rightarrow> world \<Rightarrow> bool" where
  "quiet w w' \<longleftrightarrow> w_fds w' = w_fds w \<and> w_data w' = w_data w \<and> w_names w' = w_names w
     \<and> w_nino w' = w_nino w \<and> w_ntmp w' = w_ntmp w \<and> (\<exists>k. w_plan w' = drop k (w_plan w))"

lemma quiet_frame: "quiet w w' \<Longrightarrow> frame s w w'"
  by (auto simp: quiet_def frame_def wfw_def fd_of_def)

lemma quiet_fd_of: "quiet w w' \<Longrightarrow> fd_of w' fd = fd_of w fd"
  by (simp add: quiet_def fd_of_def)

lemma quiet_content: "quiet w w' \<Longrightarrow> content w' fd = content w fd"
  using quiet_fd_of [of w w' fd] by (simp add: content_def quiet_def split: option.split)

lemma next_outcome_cases:
  assumes "next_outcome w = (x, w')"
  shows "quiet w w'" and "x \<noteq> Normal \<Longrightarrow> length (w_plan w') < length (w_plan w)"
    and "x = Fail \<Longrightarrow> \<not> clean w" and "w_errno w' = w_errno w"
  using assms
  by (auto simp: next_outcome_def quiet_def clean_def split: list.splits intro: exI [of _ 0] exI [of _ "Suc 0"])

lemma quiet_refl [simp]: "quiet w w"
  by (auto simp: quiet_def intro: exI [of _ 0])

lemma quiet_trans: "quiet w w' \<Longrightarrow> quiet w' w'' \<Longrightarrow> quiet w w''"
  by (auto simp: quiet_def)

lemma quiet_set_errno: "quiet w w' \<Longrightarrow> quiet w (set_errno e w')"
  by (auto simp: quiet_def)

lemma quiet_clean: "quiet w w' \<Longrightarrow> clean w \<Longrightarrow> clean w'"
  using frame_clean quiet_frame by blast

lemma frame_set_fd:
  assumes "fd_of w fd = Some f" and "handle f' = handle f" and "fd \<in> sc_move s \<or> fd \<notin> sc_fds s"
  shows "frame s w (set_fd fd (Some f') w)"
proof -
  have "wfw (set_fd fd (Some f') w)" if "wfw w"
    using that assms(1,2) unfolding wfw_def by (auto simp: fd_of_set_fd [OF assms(1)] handle_def)
  then show ?thesis
    using assms by (auto simp: frame_def fd_of_set_fd [OF assms(1)] intro: exI [of _ 0])
qed

lemma frame_write_data:
  assumes "i \<in> sc_write s \<or> w_nino w \<le> i"
  shows "frame s w (w\<lparr>w_data := (w_data w)(i := d)\<rparr>)"
  using assms by (auto simp: frame_def wfw_def intro: exI [of _ 0])

lemma frame_quiet: "frame s w w' \<Longrightarrow> quiet w' w'' \<Longrightarrow> frame s w w''"
  using frame_trans quiet_frame by blast

section \<open>What the system calls do\<close>

lemma sys_read_spec:
  assumes "sys_read fd n w = (r, bs, w')" and "fd_of w fd = Some f"
  shows "(r = -1 \<and> bs = [] \<and> quiet w w'
           \<and> (w_errno w' = EINTR \<longrightarrow> length (w_plan w') < length (w_plan w))
           \<and> (w_errno w' \<noteq> EINTR \<longrightarrow> \<not> clean w))
       \<or> (\<exists>m w1. r = int (length bs) \<and> bs = take m (drop (o_off f) (w_data w (o_ino f)))
           \<and> (0 < n \<longrightarrow> 0 < m) \<and> m \<le> n \<and> (o_kind f = Regular \<longrightarrow> m = n) \<and> quiet w w1
           \<and> w' = set_fd fd (Some (f\<lparr>o_off := o_off f + length bs\<rparr>)) w1)"
proof -
  obtain x w1 where x: "next_outcome w = (x, w1)" by force
  note nx = next_outcome_cases [OF x]
  have f1: "fd_of w1 fd = Some f" using quiet_fd_of [OF nx(1)] assms(2) by simp
  have d1: "w_data w1 = w_data w" using nx(1) by (simp add: quiet_def)
  have lim: "read_limit x (o_kind f) n \<le> n" "0 < n \<Longrightarrow> 0 < read_limit x (o_kind f) n"
    "o_kind f = Regular \<Longrightarrow> read_limit x (o_kind f) n = n"
    by (auto simp: read_limit_def split: outcome.split)
  show ?thesis
  proof (cases "x = Eintr \<or> x = Fail")
    case True
    then show ?thesis
      using assms nx f1 by (auto simp: sys_read_def x intro: quiet_set_errno)
  next
    case False
    let ?bs = "take (read_limit x (o_kind f) n) (drop (o_off f) (w_data w (o_ino f)))"
    have "r = int (length bs)" "bs = ?bs"
      "w' = set_fd fd (Some (f\<lparr>o_off := o_off f + length bs\<rparr>)) w1"
      using assms False f1 d1 by (auto simp: sys_read_def x Let_def)
    then show ?thesis using lim nx(1) by blast
  qed
qed

lemma sys_pread_spec:
  assumes "sys_pread fd n off w = (r, bs, w')" and "fd_of w fd = Some f" and "o_kind f = Regular"
  shows "quiet w w'"
    and "(r = -1 \<and> bs = [] \<and> (w_errno w' = EINTR \<longrightarrow> length (w_plan w') < length (w_plan w))
           \<and> (w_errno w' \<noteq> EINTR \<longrightarrow> \<not> clean w))
       \<or> (r = int (length bs) \<and> bs = take n (drop off (w_data w (o_ino f))))"
proof -
  obtain x w1 where x: "next_outcome w = (x, w1)" by force
  note nx = next_outcome_cases [OF x]
  have f1: "fd_of w1 fd = Some f" using quiet_fd_of [OF nx(1)] assms(2) by simp
  have d1: "w_data w1 = w_data w" using nx(1) by (simp add: quiet_def)
  show "quiet w w'"
    using assms nx f1 by (auto simp: sys_pread_def x Let_def intro: quiet_set_errno split: if_splits)
  show "(r = -1 \<and> bs = [] \<and> (w_errno w' = EINTR \<longrightarrow> length (w_plan w') < length (w_plan w))
           \<and> (w_errno w' \<noteq> EINTR \<longrightarrow> \<not> clean w))
       \<or> (r = int (length bs) \<and> bs = take n (drop off (w_data w (o_ino f))))"
    using assms nx f1 d1 by (auto simp: sys_pread_def x Let_def split: if_splits)
qed

lemma sys_write_spec:
  assumes "sys_write fd bs w = (r, w')" and "fd_of w fd = Some f"
  shows "(r = -1 \<and> quiet w w' \<and> (w_errno w' = EINTR \<longrightarrow> length (w_plan w') < length (w_plan w))
           \<and> (w_errno w' \<noteq> EINTR \<longrightarrow> \<not> clean w))
       \<or> (\<exists>m w1. r = int m \<and> m \<le> length bs \<and> (bs \<noteq> [] \<longrightarrow> 0 < m) \<and> quiet w w1
           \<and> w' = set_fd fd (Some (f\<lparr>o_off := o_off f + m\<rparr>))
                  (w1\<lparr>w_data := (w_data w)(o_ino f :=
                      put_at (o_kind f) (o_off f) (take m bs) (w_data w (o_ino f)))\<rparr>))"
proof -
  obtain x w1 where x: "next_outcome w = (x, w1)" by force
  note nx = next_outcome_cases [OF x]
  have f1: "fd_of w1 fd = Some f" using quiet_fd_of [OF nx(1)] assms(2) by simp
  have d1: "w_data w1 = w_data w" using nx(1) by (simp add: quiet_def)
  let ?m = "write_limit x (length bs)"
  have lim: "?m \<le> length bs" "bs \<noteq> [] \<Longrightarrow> 0 < ?m"
    by (auto simp: write_limit_def split: outcome.split)
  show ?thesis
  proof (cases "x = Eintr \<or> x = Fail")
    case True
    then show ?thesis
      using assms nx f1 by (auto simp: sys_write_def x intro: quiet_set_errno)
  next
    case False
    then have "r = int ?m" "w' = set_fd fd (Some (f\<lparr>o_off := o_off f + ?m\<rparr>))
        (w1\<lparr>w_data := (w_data w)(o_ino f :=
            put_at (o_kind f) (o_off f) (take ?m bs) (w_data w (o_ino f)))\<rparr>)"
      using assms f1 d1 lim(1) by (simp_all add: sys_write_def x Let_def min_absorb2)
    then show ?thesis using lim nx(1) by blast
  qed
qed

lemma sys_lseek_spec:
  assumes "sys_lseek fd off w = (r, w')" and "fd_of w fd = Some f" and "o_kind f = Regular"
  shows "(r = -1 \<and> quiet w w' \<and> \<not> clean w)
       \<or> (\<exists>w1. r = int off \<and> quiet w w1 \<and> w' = set_fd fd (Some (f\<lparr>o_off := off\<rparr>)) w1)"
proof -
  obtain x w1 where x: "next_outcome w = (x, w1)" by force
  note nx = next_outcome_cases [OF x]
  have f1: "fd_of w1 fd = Some f" using quiet_fd_of [OF nx(1)] assms(2) by simp
  then show ?thesis
    using assms nx by (auto simp: sys_lseek_def x intro: quiet_set_errno split: if_splits)
qed

lemma sys_ftruncate_spec:
  assumes "sys_ftruncate fd len w = (r, w')" and "fd_of w fd = Some f" and "o_kind f = Regular"
  shows "(r = -1 \<and> quiet w w' \<and> \<not> clean w)
       \<or> (\<exists>w1. r = 0 \<and> quiet w w1 \<and> w' = w1\<lparr>w_data := (w_data w)(o_ino f :=
            take len (w_data w (o_ino f)) @ replicate (len - length (w_data w (o_ino f))) 0)\<rparr>)"
proof -
  obtain x w1 where x: "next_outcome w = (x, w1)" by force
  note nx = next_outcome_cases [OF x]
  have f1: "fd_of w1 fd = Some f" using quiet_fd_of [OF nx(1)] assms(2) by simp
  moreover have "w_data w1 = w_data w" using nx(1) by (simp add: quiet_def)
  ultimately show ?thesis
    using assms nx by (auto simp: sys_ftruncate_def x Let_def intro: quiet_set_errno split: if_splits)
qed

lemma sys_open_spec:
  assumes "sys_open p w = (fd, w')" and "w_names w p = Some i"
  shows "(fd = -1 \<and> quiet w w' \<and> \<not> clean w)
       \<or> (\<exists>w1. 0 \<le> fd \<and> fd_of w fd = None \<and> quiet w w1
           \<and> install_fd \<lparr>o_ino = i, o_off = 0, o_kind = Regular\<rparr> w1 = (fd, w'))"
proof -
  obtain x w1 where x: "next_outcome w = (x, w1)" by force
  note nx = next_outcome_cases [OF x]
  have n1: "w_names w1 p = Some i" using nx(1) assms(2) by (simp add: quiet_def)
  show ?thesis
  proof (cases "x = Fail")
    case True
    then show ?thesis using assms nx n1 by (auto simp: sys_open_def x intro: quiet_set_errno)
  next
    case False
    then have "install_fd \<lparr>o_ino = i, o_off = 0, o_kind = Regular\<rparr> w1 = (fd, w')"
      using assms n1 by (simp add: sys_open_def x)
    moreover from install_fd_spec(1,2) [OF this] have "0 \<le> fd" "fd_of w fd = None"
      using quiet_fd_of [OF nx(1)] by simp_all
    ultimately show ?thesis using nx(1) by blast
  qed
qed

lemma sys_close_spec:
  assumes "sys_close fd w = (r, w')" and "fd_of w fd = Some f"
  shows "(r = 0 \<or> r = -1 \<and> \<not> clean w) \<and> (\<exists>w1. quiet w w1 \<and> w' = set_fd fd None w1 \<or>
      quiet w w1 \<and> w' = set_errno EIO (set_fd fd None w1))"
proof -
  obtain x w1 where x: "next_outcome w = (x, w1)" by force
  note nx = next_outcome_cases [OF x]
  have f1: "fd_of w1 fd = Some f" using quiet_fd_of [OF nx(1)] assms(2) by simp
  then show ?thesis
    using assms nx by (auto simp: sys_close_def x split: if_splits)
qed

lemma sys_alloc_spec:
  assumes "sys_alloc n w = (b, w')"
  shows "quiet w w'" and "\<not> b \<Longrightarrow> \<not> clean w"
proof -
  obtain x w1 where x: "next_outcome w = (x, w1)" by force
  note nx = next_outcome_cases [OF x]
  show "quiet w w'" "\<not> b \<Longrightarrow> \<not> clean w"
    using assms nx by (auto simp: sys_alloc_def x intro: quiet_set_errno split: if_splits)
qed

section \<open>Opening and closing under a frame\<close>

text \<open>A scope whose names and descriptors exist: opening anything new cannot disturb it.\<close>

definition covers :: "scope \<Rightarrow> world \<Rightarrow> bool" where
  "covers s w \<longleftrightarrow> (\<forall>p\<in>sc_names s. w_names w p \<noteq> None) \<and> (\<forall>fd\<in>sc_fds s. fd_of w fd \<noteq> None)"

lemma frame_covers: "frame s w w' \<Longrightarrow> covers s w \<Longrightarrow> covers s w'"
  unfolding frame_def covers_def by (metis map_option_is_None)

lemma quiet_covers: "quiet w w' \<Longrightarrow> covers s w \<Longrightarrow> covers s w'"
  using frame_covers quiet_frame by blast

lemma install_frame:
  assumes "install_fd f w = (fd, w')" and "covers s w" and "wfw w \<Longrightarrow> o_ino f < w_nino w"
  shows "frame s w w'"
proof -
  note i = install_fd_spec [OF assms(1)]
  have "fd \<notin> sc_fds s" using i(1) assms(2) by (auto simp: covers_def)
  moreover have "wfw w'" if "wfw w"
    using that assms(3) unfolding wfw_def by (auto simp: i)
  ultimately show ?thesis
    by (auto simp: frame_def i intro: exI [of _ 0])
qed

lemma sys_open_frame:
  assumes "sys_open p w = (fd, w')" and "w_names w p = Some i" and "covers s w"
  shows "frame s w w' \<and> w_data w' = w_data w \<and> w_names w' = w_names w
     \<and> (fd = -1 \<and> \<not> clean w \<or> 0 \<le> fd \<and> fd_of w fd = None \<and>
        (\<forall>x. fd_of w' x = (if x = fd then Some \<lparr>o_ino = i, o_off = 0, o_kind = Regular\<rparr> else fd_of w x)))"
proof -
  from sys_open_spec [OF assms(1,2)] show ?thesis
  proof (elim disjE exE conjE)
    assume "fd = -1" and q: "quiet w w'" and "\<not> clean w"
    then show ?thesis using quiet_frame [OF q] by (auto simp: quiet_def)
  next
    fix w1
    assume a: "0 \<le> fd" "fd_of w fd = None" "quiet w w1"
      "install_fd \<lparr>o_ino = i, o_off = 0, o_kind = Regular\<rparr> w1 = (fd, w')"
    have "i < w_nino w1" if "wfw w1"
      using that a(3) assms(2) unfolding wfw_def by (metis quiet_def)
    then have "frame s w1 w'" using install_frame [OF a(4) quiet_covers [OF a(3) assms(3)]] by simp
    then show ?thesis
      using a install_fd_spec [OF a(4)] frame_trans [OF quiet_frame [OF a(3)]] quiet_fd_of [OF a(3)]
      by (auto simp: quiet_def)
  qed
qed

lemma sys_close_frame:
  assumes "sys_close fd w = (r, w')" and "fd_of w fd = Some f" and "fd \<notin> sc_fds s"
  shows "frame s w w' \<and> w_data w' = w_data w \<and> w_names w' = w_names w
     \<and> (\<forall>x. fd_of w' x = (if x = fd then None else fd_of w x)) \<and> (r = 0 \<or> r = -1 \<and> \<not> clean w)"
proof -
  obtain w1 where q: "quiet w w1" and r: "r = 0 \<or> r = -1 \<and> \<not> clean w" and
    w': "w' = set_fd fd None w1 \<or> w' = set_errno EIO (set_fd fd None w1)"
    using sys_close_spec [OF assms(1,2)] by blast
  have f1: "fd_of w1 fd = Some f" using quiet_fd_of [OF q] assms(2) by simp
  note fo = fd_of_set_fd [OF f1]
  have "wfw (set_fd fd None w1)" if "wfw w1"
    using that unfolding wfw_def by (auto simp: fo split: if_splits)
  then have "frame s w1 (set_fd fd None w1)"
    using assms(3) by (auto simp: frame_def fo intro: exI [of _ 0])
  moreover have "quiet (set_fd fd None w1) w'"
    using w' by (auto simp: quiet_set_errno)
  ultimately have "frame s w w'"
    using quiet_frame [OF q] by (meson frame_quiet frame_trans)
  then show ?thesis using r w' q by (auto simp: fo quiet_fd_of [OF q] quiet_def)
qed

lemma sys_mkstemp_frame:
  assumes "sys_mkstemp t w = (fd, p, w')" and "covers s w" and "wfw w"
  shows "frame s w w' \<and> (fd = -1 \<and> \<not> clean w
     \<or> 0 \<le> fd \<and> fd_of w fd = None \<and> w_names w p = None \<and> w_names w' = (w_names w)(p \<mapsto> w_nino w)
       \<and> w_data w' = (w_data w)(w_nino w := []) \<and> w_nino w' = Suc (w_nino w)
       \<and> (\<forall>x. fd_of w' x = (if x = fd then Some \<lparr>o_ino = w_nino w, o_off = 0, o_kind = Regular\<rparr> else fd_of w x)))"
proof -
  obtain x w1 where x: "next_outcome w = (x, w1)" by force
  note nx = next_outcome_cases [OF x]
  have q: "quiet w w1" by (rule nx(1))
  show ?thesis
  proof (cases "x = Fail")
    case True
    then have "fd = -1" "quiet w w'" using assms(1) nx by (auto simp: sys_mkstemp_def x quiet_set_errno)
    then show ?thesis using nx(3) True quiet_frame by auto
  next
    case False
    obtain fd1 w2 where ins: "install_fd \<lparr>o_ino = w_nino w1, o_off = 0, o_kind = Regular\<rparr> w1 = (fd1, w2)"
      by force
    note i = install_fd_spec [OF ins]
    have eq: "fd = fd1" "p = Temp t (w_ntmp w1)"
      "w' = w2\<lparr>w_names := (w_names w2)(p \<mapsto> w_nino w1), w_data := (w_data w2)(w_nino w1 := []),
               w_nino := Suc (w_nino w1), w_ntmp := Suc (w_ntmp w1)\<rparr>"
      using assms(1) False i(7) by (auto simp: sys_mkstemp_def x ins Let_def)
    have same: "w_nino w1 = w_nino w" "w_ntmp w1 = w_ntmp w" "w_names w1 = w_names w"
      "w_data w1 = w_data w" using q by (simp_all add: quiet_def)
    have fdo: "fd_of w' x = (if x = fd then Some \<lparr>o_ino = w_nino w, o_off = 0, o_kind = Regular\<rparr> else fd_of w x)" for x
      using i(3) [of x] quiet_fd_of [OF q, of x] by (simp add: eq same)
    have p: "w_names w p = None" using assms(3) by (simp add: wfw_def eq same)
    have "wfw w'"
      using assms(3) unfolding wfw_def fdo by (auto simp: eq i same less_Suc_eq)
    moreover have "\<exists>k. w_plan w' = drop k (w_plan w)" using q by (simp add: eq i quiet_def)
    moreover have "fd \<notin> sc_fds s" "p \<notin> sc_names s"
      using i(1) p assms(2) quiet_fd_of [OF q] by (auto simp: covers_def eq same)
    ultimately have "frame s w w'"
      unfolding frame_def using fdo by (auto simp: eq i same)
    then show ?thesis using fdo p i(1,2) quiet_fd_of [OF q] by (auto simp: eq i same)
  qed
qed

lemma sys_unlink_frame:
  assumes "sys_unlink p w = (r, w')" and "p \<notin> sc_names s" and "w_names w p \<noteq> None"
  shows "frame s w w' \<and> w_data w' = w_data w \<and> (\<forall>x. fd_of w' x = fd_of w x) \<and> w_nino w' = w_nino w
     \<and> (r = 0 \<and> w_names w' = (w_names w)(p := None) \<or> r = -1 \<and> \<not> clean w \<and> w_names w' = w_names w)"
proof -
  obtain x w1 where x: "next_outcome w = (x, w1)" by force
  note nx = next_outcome_cases [OF x]
  have q: "quiet w w1" by (rule nx(1))
  have n1: "w_names w1 = w_names w" using q by (simp add: quiet_def)
  show ?thesis
  proof (cases "x = Fail")
    case True
    then have "r = -1" "quiet w w'" using assms(1) nx by (auto simp: sys_unlink_def x quiet_set_errno)
    then show ?thesis using nx(3) True quiet_frame [of w w'] quiet_fd_of [of w w'] by (auto simp: quiet_def)
  next
    case False
    then have r: "r = 0" and w': "w' = w1\<lparr>w_names := (w_names w1)(p := None)\<rparr>"
      using assms(1,3) by (simp_all add: sys_unlink_def x n1)
    have "wfw w'" if "wfw w1" using that by (auto simp: wfw_def w' split: if_splits)
    then have "frame s w1 w'"
      using assms(2) by (auto simp: frame_def w' intro: exI [of _ 0])
    then have "frame s w w'" using frame_trans [OF quiet_frame [OF q]] by simp
    then show ?thesis using r q quiet_fd_of [OF q] by (auto simp: w' quiet_def)
  qed
qed

section \<open>Everything that exists now\<close>

text \<open>
  The scope of all names and descriptors in use: code that respects it may create files and
  descriptors, but of the existing ones it moves only \<open>mv\<close> and writes only \<open>wr\<close>.
\<close>

definition open_scope :: "world \<Rightarrow> int set \<Rightarrow> nat set \<Rightarrow> scope" where
  "open_scope w mv wr = \<lparr>sc_names = dom (w_names w), sc_fds = {fd. fd_of w fd \<noteq> None}, sc_move = mv,
     sc_write = wr \<union> {i. w_nino w \<le> i}\<rparr>"

lemma open_scope_simps [simp]:
  "sc_names (open_scope w mv wr) = dom (w_names w)" "sc_fds (open_scope w mv wr) = {fd. fd_of w fd \<noteq> None}"
  "sc_move (open_scope w mv wr) = mv" "sc_write (open_scope w mv wr) = wr \<union> {i. w_nino w \<le> i}"
  by (simp_all add: open_scope_def)

lemma covers_open [simp]: "covers (open_scope w mv wr) w"
  by (auto simp: covers_def)

lemma frame_open_le:
  assumes "frame s w w1"
  shows "sc_names s \<inter> dom (w_names w) \<subseteq> dom (w_names w1)"
    and "sc_fds s \<inter> {fd. fd_of w fd \<noteq> None} \<subseteq> {fd. fd_of w1 fd \<noteq> None}"
proof -
  show "sc_names s \<inter> dom (w_names w) \<subseteq> dom (w_names w1)"
    using frame_names [OF assms] by (auto simp: dom_def)
  have "map_option handle (fd_of w1 fd) = map_option handle (fd_of w fd)" if "fd \<in> sc_fds s" for fd
    using assms that by (simp add: frame_def)
  then have "fd_of w1 fd \<noteq> None" if "fd \<in> sc_fds s" "fd_of w fd \<noteq> None" for fd
    using that by (metis map_option_is_None)
  then show "sc_fds s \<inter> {fd. fd_of w fd \<noteq> None} \<subseteq> {fd. fd_of w1 fd \<noteq> None}" by blast
qed

lemma frame_handles: "frame s w w' \<Longrightarrow> fd \<in> sc_fds s \<Longrightarrow> map_option handle (fd_of w' fd) = map_option handle (fd_of w fd)"
  by (simp add: frame_def)

lemma frameI:
  assumes "\<exists>k. w_plan w' = drop k (w_plan w)" and "\<And>p. p \<in> sc_names s \<Longrightarrow> w_names w' p = w_names w p"
    and "\<And>fd. fd \<in> sc_fds s \<Longrightarrow> map_option handle (fd_of w' fd) = map_option handle (fd_of w fd)"
    and "\<And>fd. fd \<in> sc_fds s \<Longrightarrow> fd \<notin> sc_move s \<Longrightarrow> fd_of w' fd = fd_of w fd"
    and "\<And>i. i < w_nino w \<Longrightarrow> i \<notin> sc_write s \<Longrightarrow> w_data w' i = w_data w i"
    and "w_nino w \<le> w_nino w'" and "w_ntmp w \<le> w_ntmp w'" and "wfw w \<Longrightarrow> wfw w'"
  shows "frame s w w'"
  using assms by (simp add: frame_def)

lemma open_frame_trans:
  assumes f: "frame (open_scope w mv wr) w w1" and g: "frame (open_scope w1 mv1 wr1) w1 w2"
    and mv: "\<And>fd. fd \<in> mv1 \<Longrightarrow> fd_of w fd \<noteq> None \<Longrightarrow> fd \<in> mv" and wr: "\<And>i. i \<in> wr1 \<Longrightarrow> i < w_nino w \<Longrightarrow> i \<in> wr"
  shows "frame (open_scope w mv wr) w w2"
proof (rule frameI)
  have le: "w_nino w \<le> w_nino w1" "w_ntmp w \<le> w_ntmp w1" "w_nino w1 \<le> w_nino w2" "w_ntmp w1 \<le> w_ntmp w2"
    using f g by (simp_all add: frame_def)
  then show "w_nino w \<le> w_nino w2" "w_ntmp w \<le> w_ntmp w2" by linarith+
  obtain k k' where k: "w_plan w1 = drop k (w_plan w)" "w_plan w2 = drop k' (w_plan w1)"
    using f g by (auto simp: frame_def)
  show "\<exists>k. w_plan w2 = drop k (w_plan w)" by (rule exI [of _ "k' + k"]) (simp add: k)
  show "wfw w2" if "wfw w" using frame_wfw [OF g frame_wfw [OF f that]] .
  show "w_names w2 p = w_names w p" if "p \<in> sc_names (open_scope w mv wr)" for p
    using that frame_open_le(1) [OF f] frame_names [OF f, of p] frame_names [OF g, of p] by auto
  have fd1: "fd_of w1 fd \<noteq> None" if "fd_of w fd \<noteq> None" for fd
    using that frame_open_le(2) [OF f] by auto
  show "map_option handle (fd_of w2 fd) = map_option handle (fd_of w fd)" if "fd \<in> sc_fds (open_scope w mv wr)" for fd
    using that fd1 [of fd] frame_handles [OF f, of fd] frame_handles [OF g, of fd] by simp
  show "fd_of w2 fd = fd_of w fd" if "fd \<in> sc_fds (open_scope w mv wr)" "fd \<notin> sc_move (open_scope w mv wr)" for fd
    using that fd1 [of fd] mv [of fd] frame_fd [OF f, of fd] frame_fd [OF g, of fd] by auto
  show "w_data w2 i = w_data w i" if "i < w_nino w" "i \<notin> sc_write (open_scope w mv wr)" for i
    using that le wr [of i] frame_data [OF f, of i] frame_data [OF g, of i] by auto
qed

lemma frame_open:
  assumes "frame s w w1" and "dom (w_names w) \<subseteq> sc_names s" and "{fd. fd_of w fd \<noteq> None} \<subseteq> sc_fds s"
    and "\<And>fd. fd \<in> sc_move s \<Longrightarrow> fd_of w fd \<noteq> None \<Longrightarrow> fd \<in> mv"
    and "\<And>i. i \<in> sc_write s \<Longrightarrow> i < w_nino w \<Longrightarrow> i \<in> wr"
  shows "frame (open_scope w mv wr) w w1"
  by (rule frame_weaken [OF assms(1)]) (use assms in auto)

end
