(* ===== verification/Pa1_Util.thy ===== *)
theory Pa1_Util
  imports Posix
begin

text \<open>
  \<^verbatim>\<open>PA1/util.c\<close> and the shared types of \<^verbatim>\<open>PA1/pa1.h\<close>: byte
  copying over one memory (so that overlap is visible), ASCII helpers, the hash of the lexicon,
  and the growing arrays. A slice \<open>(data, len)\<close> of the C code is a byte list. An array
  together with its length is the list of its first \<open>len\<close> elements; its capacity is kept.
  Results of type \<open>option\<close> are \<open>None\<close> where the C code would read or write outside its
  array, or would not return.
\<close>

section \<open>Constants\<close>

definition SIZE_MAX :: nat where "SIZE_MAX = 2 ^ 64 - 1"
definition READ_BUF_SIZE :: nat where "READ_BUF_SIZE = 65536"
definition WRITE_BUF_SIZE :: nat where "WRITE_BUF_SIZE = 65536"
definition OCC_BUCKETS :: nat where "OCC_BUCKETS = 256"
definition QUERY_LIMIT :: nat where "QUERY_LIMIT = 4096"
definition LEXICON_SLOTS_INIT :: nat where "LEXICON_SLOTS_INIT = 4096"

lemmas pa1_consts = SIZE_MAX_def READ_BUF_SIZE_def WRITE_BUF_SIZE_def OCC_BUCKETS_def
  QUERY_LIMIT_def LEXICON_SLOTS_INIT_def

definition NEWLINE :: byte where "NEWLINE = 10"
definition QUOTE :: byte where "QUOTE = 34"
definition STAR :: byte where "STAR = 42"

section \<open>Bytes in memory\<close>

text \<open>
  \<open>copy_up mem d s n\<close> is the ascending loop \<open>for (i = 0; i < n; ++i) mem[d+i] = mem[s+i]\<close>,
  \<open>copy_down\<close> the descending one.
\<close>

fun copy_up :: "byte list \<Rightarrow> nat \<Rightarrow> nat \<Rightarrow> nat \<Rightarrow> byte list option" where
  "copy_up mem d s 0 = Some mem"
| "copy_up mem d s (Suc n) =
     (if d < length mem \<and> s < length mem
      then copy_up (mem[d := mem ! s]) (Suc d) (Suc s) n else None)"

fun copy_down :: "byte list \<Rightarrow> nat \<Rightarrow> nat \<Rightarrow> nat \<Rightarrow> byte list option" where
  "copy_down mem d s 0 = Some mem"
| "copy_down mem d s (Suc n) =
     (if d + n < length mem \<and> s + n < length mem
      then copy_down (mem[d + n := mem ! (s + n)]) d s n else None)"

definition copy_bytes :: "byte list \<Rightarrow> nat \<Rightarrow> nat \<Rightarrow> nat \<Rightarrow> byte list option" where
  "copy_bytes mem d s len = copy_up mem d s len"

definition move_bytes :: "byte list \<Rightarrow> nat \<Rightarrow> nat \<Rightarrow> nat \<Rightarrow> byte list option" where
  "move_bytes mem d s len =
     (if d = s \<or> len = 0 then Some mem
      else if d < s then copy_up mem d s len
      else copy_down mem d s len)"

fun cstr_len :: "byte list \<Rightarrow> nat option" where
  "cstr_len [] = None"
| "cstr_len (c # s) = (if c \<noteq> 0 then map_option Suc (cstr_len s) else Some 0)"

text \<open>
  The loop of \<open>slice_equals_cstr\<close> over the slice and the literal; the literal's bytes are
  given without the terminating NUL.
\<close>

fun slice_equals_cstr :: "byte list \<Rightarrow> byte list \<Rightarrow> bool" where
  "slice_equals_cstr (d # data) (l # literal) =
     (if d \<noteq> l then False else slice_equals_cstr data literal)"
| "slice_equals_cstr data literal = (data = [] \<and> literal = [])"

fun contains_char :: "byte list \<Rightarrow> byte \<Rightarrow> bool" where
  "contains_char [] needle = False"
| "contains_char (c # data) needle = (if c = needle then True else contains_char data needle)"

definition ascii_lower :: "byte \<Rightarrow> byte" where
  "ascii_lower c = (if of_char CHR ''A'' \<le> c \<and> c \<le> of_char CHR ''Z''
     then c - of_char CHR ''A'' + of_char CHR ''a'' else c)"

definition is_word_sep :: "byte \<Rightarrow> bool" where
  "is_word_sep c \<longleftrightarrow> c = 32 \<or> c = 9"

fun hash_loop :: "u32 \<Rightarrow> byte list \<Rightarrow> u32" where
  "hash_loop hash [] = hash"
| "hash_loop hash (c # data) = hash_loop (xor hash (ucast (ascii_lower c)) * 16777619) data"

definition hash_lower_bytes :: "byte list \<Rightarrow> u32" where
  "hash_lower_bytes data = hash_loop 2166136261 data"

fun case_equal_bytes :: "byte list \<Rightarrow> byte list \<Rightarrow> nat \<Rightarrow> bool" where
  "case_equal_bytes a b 0 = True"
| "case_equal_bytes (x # a) (y # b) (Suc n) =
     (if ascii_lower x \<noteq> ascii_lower y then False else case_equal_bytes a b n)"
| "case_equal_bytes a b (Suc n) = False"

fun phrase_equal_bytes :: "byte list \<Rightarrow> byte list \<Rightarrow> nat \<Rightarrow> bool" where
  "phrase_equal_bytes line phrase 0 = True"
| "phrase_equal_bytes (x # line) (y # phrase) (Suc n) =
     (if ascii_lower x \<noteq> ascii_lower y then False else phrase_equal_bytes line phrase n)"
| "phrase_equal_bytes line phrase (Suc n) = False"

section \<open>Growing arrays\<close>

record 'a cvec =
  v_items :: "'a list"
  v_cap :: nat

type_synonym bytevec = "byte cvec"

record line_match =
  m_line_no :: u32
  m_start_idx :: u32

type_synonym matchvec = "line_match cvec"
type_synonym u32vec = "u32 cvec"

definition empty_vec :: "'a cvec" where
  "empty_vec = \<lparr>v_items = [], v_cap = 0\<rparr>"

text \<open>The doubling loop; it would not return from a capacity of 0, which the caller replaces.\<close>

partial_function (option) grow_loop :: "nat \<Rightarrow> nat \<Rightarrow> (int \<times> nat) option" where
  "grow_loop next needed =
     (if next < needed
      then if next > SIZE_MAX div 2 then Some (-1, next) else grow_loop (next * 2) needed
      else Some (0, next))"

definition grow_capacity :: "nat \<Rightarrow> nat \<Rightarrow> (int \<times> nat) option" where
  "grow_capacity cap needed = do {
     (r, next) \<leftarrow> grow_loop (if cap = 0 then 64 else cap) needed;
     Some (if r < 0 then (-1, cap) else (0, next)) }"

text \<open>
  The three \<open>_reserve\<close> functions differ in the element size only (1, 8 and 4 bytes); the
  size of the request wraps around as \<open>size_t\<close> does.
\<close>

definition vec_reserve :: "nat \<Rightarrow> 'a cvec \<Rightarrow> nat \<Rightarrow> world \<Rightarrow> (int \<times> 'a cvec \<times> world) option" where
  "vec_reserve elem_size vec needed w =
     (if needed \<le> v_cap vec then Some (0, vec, w)
      else do {
        (r, next_cap) \<leftarrow> grow_capacity (v_cap vec) needed;
        if r < 0 then Some (-1, vec, w)
        else case sys_alloc (next_cap * elem_size mod (SIZE_MAX + 1)) w of (granted, w) \<Rightarrow>
          if \<not> granted then Some (-1, vec, w)
          else Some (0, vec\<lparr>v_cap := next_cap\<rparr>, w) })"

definition bytevec_reserve :: "bytevec \<Rightarrow> nat \<Rightarrow> world \<Rightarrow> (int \<times> bytevec \<times> world) option" where
  "bytevec_reserve = vec_reserve 1"

definition bytevec_append :: "bytevec \<Rightarrow> byte list \<Rightarrow> world \<Rightarrow> (int \<times> bytevec \<times> world) option" where
  "bytevec_append vec data w =
     (if length data = 0 then Some (0, vec, w)
      else do {
        (r, vec, w) \<leftarrow> bytevec_reserve vec (length (v_items vec) + length data) w;
        if r < 0 then Some (-1, vec, w)
        else Some (0, vec\<lparr>v_items := v_items vec @ data\<rparr>, w) })"

definition bytevec_reset :: "bytevec \<Rightarrow> bytevec" where
  "bytevec_reset vec = vec\<lparr>v_items := []\<rparr>"

definition bytevec_free :: "bytevec \<Rightarrow> bytevec" where
  "bytevec_free vec = \<lparr>v_items = [], v_cap = 0\<rparr>"

definition matchvec_reserve :: "matchvec \<Rightarrow> nat \<Rightarrow> world \<Rightarrow> (int \<times> matchvec \<times> world) option" where
  "matchvec_reserve = vec_reserve 8"

definition matchvec_push :: "matchvec \<Rightarrow> u32 \<Rightarrow> u32 \<Rightarrow> world \<Rightarrow> (int \<times> matchvec \<times> world) option" where
  "matchvec_push vec line_no start_idx w = do {
     (r, vec, w) \<leftarrow> matchvec_reserve vec (length (v_items vec) + 1) w;
     if r < 0 then Some (-1, vec, w)
     else Some (0, vec\<lparr>v_items := v_items vec @ [\<lparr>m_line_no = line_no, m_start_idx = start_idx\<rparr>]\<rparr>, w) }"

definition matchvec_reset :: "matchvec \<Rightarrow> matchvec" where
  "matchvec_reset vec = vec\<lparr>v_items := []\<rparr>"

definition matchvec_free :: "matchvec \<Rightarrow> matchvec" where
  "matchvec_free vec = \<lparr>v_items = [], v_cap = 0\<rparr>"

definition u32vec_reserve :: "u32vec \<Rightarrow> nat \<Rightarrow> world \<Rightarrow> (int \<times> u32vec \<times> world) option" where
  "u32vec_reserve = vec_reserve 4"

definition u32vec_push :: "u32vec \<Rightarrow> u32 \<Rightarrow> world \<Rightarrow> (int \<times> u32vec \<times> world) option" where
  "u32vec_push vec value w = do {
     (r, vec, w) \<leftarrow> u32vec_reserve vec (length (v_items vec) + 1) w;
     if r < 0 then Some (-1, vec, w)
     else Some (0, vec\<lparr>v_items := v_items vec @ [value]\<rparr>, w) }"

definition u32vec_reset :: "u32vec \<Rightarrow> u32vec" where
  "u32vec_reset vec = vec\<lparr>v_items := []\<rparr>"

definition u32vec_free :: "u32vec \<Rightarrow> u32vec" where
  "u32vec_free vec = \<lparr>v_items = [], v_cap = 0\<rparr>"

section \<open>Copying\<close>

lemma copy_up_spec:
  assumes "d < s" and "s + n \<le> length mem"
  shows "copy_up mem d s n = Some (take d mem @ take n (drop s mem) @ drop (d + n) mem)"
  using assms
proof (induction n arbitrary: mem d s)
  case 0
  then show ?case by simp
next
  case (Suc n)
  let ?mem = "mem[d := mem ! s]"
  have "copy_up ?mem (Suc d) (Suc s) n
      = Some (take (Suc d) ?mem @ take n (drop (Suc s) ?mem) @ drop (Suc d + n) ?mem)"
    using Suc.prems by (intro Suc.IH) auto
  moreover have "take (Suc d) ?mem = take d mem @ [mem ! s]"
    using Suc.prems by (simp add: take_Suc_conv_app_nth)
  moreover have "drop (Suc s) ?mem = drop (Suc s) mem" "drop (Suc d + n) ?mem = drop (Suc d + n) mem"
    using Suc.prems by simp_all
  moreover have "take (Suc n) (drop s mem) = mem ! s # take n (drop (Suc s) mem)"
    using Suc.prems by (simp add: Cons_nth_drop_Suc [symmetric])
  ultimately show ?case using Suc.prems by simp
qed

lemma copy_down_spec:
  assumes "s < d" and "d + n \<le> length mem"
  shows "copy_down mem d s n = Some (take d mem @ take n (drop s mem) @ drop (d + n) mem)"
  using assms
proof (induction n arbitrary: mem)
  case 0
  then show ?case by simp
next
  case (Suc n)
  let ?mem = "mem[d + n := mem ! (s + n)]"
  have "copy_down ?mem d s n = Some (take d ?mem @ take n (drop s ?mem) @ drop (d + n) ?mem)"
    using Suc.prems by (intro Suc.IH) auto
  moreover have "take d ?mem = take d mem" by simp
  moreover have "take n (drop s ?mem) = take n (drop s mem)"
    using Suc.prems by (intro nth_equalityI) (auto simp: nth_list_update)
  moreover have "drop (d + n) ?mem = mem ! (s + n) # drop (d + Suc n) mem"
    using Suc.prems by (simp add: drop_update_swap Cons_nth_drop_Suc [symmetric])
  moreover have "take (Suc n) (drop s mem) = take n (drop s mem) @ [mem ! (s + n)]"
    using Suc.prems by (simp add: take_Suc_conv_app_nth)
  ultimately show ?case using Suc.prems by simp
qed

lemma move_bytes_spec:
  assumes "s + len \<le> length mem" and "d + len \<le> length mem"
  shows "move_bytes mem d s len = Some (take d mem @ take len (drop s mem) @ drop (d + len) mem)"
proof (cases "d = s \<or> len = 0")
  case True
  then show ?thesis using assms
    by (auto simp: move_bytes_def) (metis append_take_drop_id drop_drop add.commute)
next
  case False
  then show ?thesis using assms
    by (auto simp: move_bytes_def copy_up_spec copy_down_spec)
qed

lemma copy_bytes_spec:
  assumes "s + len \<le> length mem" and "d < s"
  shows "copy_bytes mem d s len = Some (take d mem @ take len (drop s mem) @ drop (d + len) mem)"
  using assms by (simp add: copy_bytes_def copy_up_spec)

section \<open>Comparing and hashing\<close>

definition lower :: "byte list \<Rightarrow> byte list" where
  "lower = map ascii_lower"

lemma lower_simps [simp]:
  "lower [] = []" "lower (c # s) = ascii_lower c # lower s" "lower (s @ t) = lower s @ lower t"
  "length (lower s) = length s" "lower s = [] \<longleftrightarrow> s = []"
  by (simp_all add: lower_def)

lemma ascii_lower_idem [simp]: "ascii_lower (ascii_lower c) = ascii_lower c"
  by (auto simp: ascii_lower_def word_le_nat_alt unat_arith_simps split: if_splits)

lemma lower_lower [simp]: "lower (lower s) = lower s"
  by (induction s) auto

lemma slice_equals_cstr_iff: "slice_equals_cstr data literal \<longleftrightarrow> data = literal"
  by (induction data literal rule: slice_equals_cstr.induct) auto

lemma contains_char_iff: "contains_char data c \<longleftrightarrow> c \<in> set data"
  by (induction data) auto

lemma case_equal_bytes_iff:
  "n \<le> length a \<Longrightarrow> n \<le> length b \<Longrightarrow> case_equal_bytes a b n \<longleftrightarrow> lower (take n a) = lower (take n b)"
  by (induction a b n rule: case_equal_bytes.induct) auto

lemma phrase_equal_bytes_iff:
  "n \<le> length a \<Longrightarrow> n \<le> length b \<Longrightarrow> phrase_equal_bytes a b n \<longleftrightarrow> lower (take n a) = lower (take n b)"
  by (induction a b n rule: phrase_equal_bytes.induct) auto

lemma hash_loop_lower: "hash_loop h (lower s) = hash_loop h s"
  by (induction s arbitrary: h) auto

lemma hash_lower_bytes_cong: "lower s = lower t \<Longrightarrow> hash_lower_bytes s = hash_lower_bytes t"
  by (metis hash_lower_bytes_def hash_loop_lower)

lemma lower_take: "lower (take n s) = take n (lower s)"
  by (simp add: lower_def take_map)

section \<open>Reserving and appending\<close>

lemma grow_loop_spec:
  assumes "0 < next"
  shows "wp (grow_loop next needed) (\<lambda>(r, n).
     (r = 0 \<and> needed \<le> n \<and> next \<le> n \<and> (next \<le> SIZE_MAX \<longrightarrow> n \<le> SIZE_MAX))
     \<or> (r = -1 \<and> SIZE_MAX div 2 < needed))"
  using assms
proof (induction "needed - next" arbitrary: "next" rule: less_induct)
  case less
  show ?case
  proof (cases "next < needed \<and> next \<le> SIZE_MAX div 2")
    case True
    have "wp (grow_loop (next * 2) needed) (\<lambda>(r, n).
       (r = 0 \<and> needed \<le> n \<and> next * 2 \<le> n \<and> (next * 2 \<le> SIZE_MAX \<longrightarrow> n \<le> SIZE_MAX))
       \<or> (r = -1 \<and> SIZE_MAX div 2 < needed))"
      using less.prems True by (intro less.hyps) auto
    then show ?thesis using True
      by (subst grow_loop.simps) (auto elim!: wp_mono)
  next
    case False
    then show ?thesis by (subst grow_loop.simps) auto
  qed
qed

lemma grow_capacity_spec:
  assumes "cap \<le> SIZE_MAX"
  shows "wp (grow_capacity cap needed) (\<lambda>(r, n).
     (r = 0 \<and> needed \<le> n \<and> cap \<le> n \<and> n \<le> SIZE_MAX) \<or> (r = -1 \<and> n = cap \<and> SIZE_MAX div 2 < needed))"
proof -
  have "wp (grow_loop (if cap = 0 then 64 else cap) needed) (\<lambda>(r, n).
     (r = 0 \<and> needed \<le> n \<and> (if cap = 0 then 64 else cap) \<le> n
        \<and> ((if cap = 0 then 64 else cap) \<le> SIZE_MAX \<longrightarrow> n \<le> SIZE_MAX))
     \<or> (r = -1 \<and> SIZE_MAX div 2 < needed))"
    by (rule grow_loop_spec) simp
  then show ?thesis using assms
    by (auto simp: grow_capacity_def SIZE_MAX_def elim!: wp_mono split: if_splits)
qed

lemma vec_reserve_spec:
  assumes "v_cap vec \<le> SIZE_MAX"
  shows "wp (vec_reserve k vec needed w) (\<lambda>(r, vec', w'). quiet w w' \<and> v_items vec' = v_items vec
     \<and> v_cap vec' \<le> SIZE_MAX
     \<and> (r = 0 \<and> needed \<le> v_cap vec' \<or> r = -1 \<and> vec' = vec \<and> (clean w \<longrightarrow> SIZE_MAX div 2 < needed)))"
proof (cases "needed \<le> v_cap vec")
  case True
  then show ?thesis using assms by (simp add: vec_reserve_def)
next
  case False
  obtain r n where g: "grow_capacity (v_cap vec) needed = Some (r, n)" and
    rn: "(r = 0 \<and> needed \<le> n \<and> n \<le> SIZE_MAX) \<or> (r = -1 \<and> SIZE_MAX div 2 < needed)"
    using grow_capacity_spec [OF assms, of needed] by (auto simp: wp_iff)
  obtain b w' where a: "sys_alloc (n * k mod Suc SIZE_MAX) w = (b, w')" by force
  show ?thesis
    using False assms rn sys_alloc_spec [OF a] by (auto simp: vec_reserve_def g a)
qed

text \<open>A byte vector in use: its elements fit its capacity.\<close>

definition vec_ok :: "'a cvec \<Rightarrow> bool" where
  "vec_ok vec \<longleftrightarrow> length (v_items vec) \<le> v_cap vec \<and> v_cap vec \<le> SIZE_MAX"

lemma bytevec_reserve_spec:
  assumes "vec_ok vec"
  shows "wp (bytevec_reserve vec needed w) (\<lambda>(r, vec', w'). quiet w w' \<and> v_items vec' = v_items vec
     \<and> vec_ok vec' \<and> (r = 0 \<and> needed \<le> v_cap vec'
          \<or> r = -1 \<and> vec' = vec \<and> (clean w \<longrightarrow> SIZE_MAX div 2 < needed)))"
proof -
  have "v_cap vec \<le> SIZE_MAX" using assms by (simp add: vec_ok_def)
  from vec_reserve_spec [OF this, of 1 needed w] show ?thesis
    using assms unfolding bytevec_reserve_def vec_ok_def
    by (cases "needed \<le> v_cap vec") (auto elim!: wp_mono simp: vec_reserve_def)
qed

lemma bytevec_append_spec:
  assumes "vec_ok vec" and "length (v_items vec) + length data \<le> SIZE_MAX div 2"
  shows "wp (bytevec_append vec data w) (\<lambda>(r, vec', w'). quiet w w' \<and> vec_ok vec'
     \<and> (r = 0 \<and> v_items vec' = v_items vec @ data \<or> r = -1 \<and> \<not> clean w))"
proof (cases "data = []")
  case True
  then show ?thesis using assms by (simp add: bytevec_append_def)
next
  case False
  show ?thesis
    using bytevec_reserve_spec [OF assms(1), of "length (v_items vec) + length data" w] False assms
    by (auto simp: bytevec_append_def wp_iff vec_ok_def not_less)
qed

end
