(* ===== verification/Pa1_Io.thy ===== *)
theory Pa1_Io
  imports Pa1_Util
begin

text \<open>
  \<^verbatim>\<open>PA1/io.c\<close>: the transfer loops, the buffered line reader, the buffered writer
  and the temporary files. A function that returns an \<open>int\<close> status in C returns it first
  here, then the objects it changes, then the world.
\<close>

section \<open>Transfer loops\<close>

lemma sys_write_progress:
  assumes "sys_write fd data w = (r, w')" and "data \<noteq> []"
  shows "r < 0 \<Longrightarrow> w_errno w' = EINTR \<Longrightarrow> length (w_plan w') < length (w_plan w)"
    and "0 \<le> r \<Longrightarrow> 0 < r \<and> length (w_plan w') \<le> length (w_plan w)"
  using assms
  by (auto simp: sys_write_def next_outcome_def write_limit_def Let_def
      split: list.splits option.splits if_splits outcome.splits)

lemma sys_read_progress:
  assumes "sys_read fd n w = (r, bs, w')"
  shows "r < 0 \<Longrightarrow> w_errno w' = EINTR \<Longrightarrow> length (w_plan w') < length (w_plan w)"
  using assms
  by (auto simp: sys_read_def next_outcome_def Let_def split: list.splits option.splits if_splits)

lemma sys_pread_progress:
  assumes "sys_pread fd n off w = (r, bs, w')"
  shows "r < 0 \<Longrightarrow> w_errno w' = EINTR \<Longrightarrow> length (w_plan w') < length (w_plan w)"
    and "0 < r \<Longrightarrow> r \<le> int n \<and> r = int (length bs) \<and> length (w_plan w') \<le> length (w_plan w)"
  using assms
  by (auto simp: sys_pread_def next_outcome_def Let_def split: list.splits option.splits if_splits)

function write_full :: "int \<Rightarrow> byte list \<Rightarrow> world \<Rightarrow> int \<times> world" where
  "write_full fd data w =
     (if 0 < length data then
        (case sys_write fd data w of (written, w') \<Rightarrow>
           if written < 0 then
             (if w_errno w' = EINTR then write_full fd data w' else (-1, w'))
           else write_full fd (drop (nat written) data) w')
      else (0, w))"
  by pat_completeness auto
termination
proof (relation "measure (\<lambda>(fd, data, w). length data + length (w_plan w))", goal_cases)
  case (2 fd data w written w')
  then show ?case using sys_write_progress(1) [OF 2(2) [symmetric]] by simp
next
  case (3 fd data w written w')
  then have "0 < nat written" "length (w_plan w') \<le> length (w_plan w)"
    using sys_write_progress(2) [OF 3(2) [symmetric]] 3(1,3) by auto
  moreover from this(1) have "length data - nat written < length data"
    using 3(1) by (intro diff_less) auto
  ultimately show ?case by simp
qed simp

declare write_full.simps [simp del]

function pread_full :: "int \<Rightarrow> nat \<Rightarrow> nat \<Rightarrow> world \<Rightarrow> int \<times> byte list \<times> world" where
  "pread_full fd len off w =
     (if 0 < len then
        (case sys_pread fd len off w of (got, bs, w') \<Rightarrow>
           if got < 0 then
             (if w_errno w' = EINTR then pread_full fd len off w' else (-1, [], w'))
           else if got = 0 then (-1, [], w')
           else (case pread_full fd (len - nat got) (off + nat got) w' of (r, rest, w'') \<Rightarrow>
                   (r, bs @ rest, w'')))
      else (0, [], w))"
  by pat_completeness auto
termination
proof (relation "measure (\<lambda>(fd, len, off, w). len + length (w_plan w))", goal_cases)
  case (2 fd len off w got y bs w')
  then show ?case using sys_pread_progress(1) [of fd len off w got bs w'] by simp
next
  case (3 fd len off w got y bs w')
  then have "0 < nat got" "length (w_plan w') \<le> length (w_plan w)"
    using sys_pread_progress(2) [of fd len off w got bs w'] by auto
  with 3(1) show ?case by simp
qed simp

declare pread_full.simps [simp del]

text \<open>The idiom \<open>do got = read(...); while (got < 0 && errno == EINTR)\<close>.\<close>

function read_retry :: "int \<Rightarrow> nat \<Rightarrow> world \<Rightarrow> int \<times> byte list \<times> world" where
  "read_retry fd n w =
     (case sys_read fd n w of (got, bs, w') \<Rightarrow>
        if got < 0 \<and> w_errno w' = EINTR then read_retry fd n w' else (got, bs, w'))"
  by pat_completeness auto
termination
proof (relation "measure (\<lambda>(fd, n, w). length (w_plan w))", goal_cases)
  case (2 fd n w got y bs w')
  then show ?case using sys_read_progress [of fd n w got bs w'] by simp
qed simp

declare read_retry.simps [simp del]

section \<open>Line reader\<close>

record line_reader =
  lr_fd :: int
  lr_buf :: "byte list"
  lr_pos :: nat
  lr_len :: nat

definition line_reader_init :: "int \<Rightarrow> line_reader" where
  "line_reader_init fd = \<lparr>lr_fd = fd, lr_buf = [], lr_pos = 0, lr_len = 0\<rparr>"

function scan_newline :: "byte list \<Rightarrow> nat \<Rightarrow> nat \<Rightarrow> nat option" where
  "scan_newline buf pos len =
     (if pos < len then
        (case at buf pos of
           None \<Rightarrow> None
         | Some c \<Rightarrow> if c \<noteq> NEWLINE then scan_newline buf (pos + 1) len else Some pos)
      else Some pos)"
  by pat_completeness auto
termination
  by (relation "measure (\<lambda>(buf, pos, len). len - pos)") auto

declare scan_newline.simps [simp del]

partial_function (option) read_line_loop ::
  "line_reader \<Rightarrow> bytevec \<Rightarrow> world \<Rightarrow> (int \<times> line_reader \<times> bytevec \<times> bool \<times> world) option" where
  "read_line_loop reader out w =
     (case (if lr_pos reader = lr_len reader then read_retry (lr_fd reader) READ_BUF_SIZE w
            else (1, [], w)) of (got, bs, w') \<Rightarrow>
      if got < 0 then Some (-1, reader, out, False, w')
      else if got = 0 then Some (if 0 < length (v_items out) then 1 else 0, reader, out, False, w')
      else
        (let rd = (if lr_pos reader = lr_len reader
                   then reader\<lparr>lr_buf := bs, lr_pos := 0, lr_len := nat got\<rparr> else reader);
             start = lr_pos rd
         in do {
           pos \<leftarrow> scan_newline (lr_buf rd) start (lr_len rd);
           (r, out', w'') \<leftarrow> bytevec_append out (take (pos - start) (drop start (lr_buf rd))) w';
           if r < 0 then Some (-1, rd\<lparr>lr_pos := pos\<rparr>, out', False, w'')
           else if pos < lr_len rd
           then Some (1, rd\<lparr>lr_pos := pos + 1\<rparr>, out', True, w'')
           else read_line_loop (rd\<lparr>lr_pos := pos\<rparr>) out' w'' }))"

definition line_reader_read_line ::
  "line_reader \<Rightarrow> bytevec \<Rightarrow> world \<Rightarrow> (int \<times> line_reader \<times> bytevec \<times> bool \<times> world) option" where
  "line_reader_read_line reader out w = read_line_loop reader (bytevec_reset out) w"

section \<open>Buffered writer\<close>

record outbuf =
  ob_fd :: int
  ob_buf :: "byte list"

definition outbuf_init :: "int \<Rightarrow> outbuf" where
  "outbuf_init fd = \<lparr>ob_fd = fd, ob_buf = []\<rparr>"

definition outbuf_flush :: "outbuf \<Rightarrow> world \<Rightarrow> int \<times> outbuf \<times> world" where
  "outbuf_flush out w =
     (if length (ob_buf out) = 0 then (0, out, w)
      else case write_full (ob_fd out) (ob_buf out) w of (r, w') \<Rightarrow>
        if r < 0 then (-1, out, w') else (0, out\<lparr>ob_buf := []\<rparr>, w'))"

function outbuf_write_data :: "outbuf \<Rightarrow> byte list \<Rightarrow> world \<Rightarrow> int \<times> outbuf \<times> world" where
  "outbuf_write_data out data w =
     (if 0 < length data then
        (let avail = WRITE_BUF_SIZE - length (ob_buf out) in
         case (if avail = 0 then outbuf_flush out w else (0, out, w)) of (r, out', w') \<Rightarrow>
           if r < 0 then (-1, out', w')
           else
             (let avail' = (if avail = 0 then WRITE_BUF_SIZE else avail);
                  chunk = (if length data > avail' then avail' else length data)
              in outbuf_write_data (out'\<lparr>ob_buf := ob_buf out' @ take chunk data\<rparr>) (drop chunk data) w'))
      else (0, out, w))"
  by pat_completeness auto
termination
  by (relation "measure (\<lambda>(out, data, w). length data)") (auto simp: WRITE_BUF_SIZE_def)

declare outbuf_write_data.simps [simp del]

definition outbuf_write_byte :: "outbuf \<Rightarrow> byte \<Rightarrow> world \<Rightarrow> int \<times> outbuf \<times> world" where
  "outbuf_write_byte out ch w = outbuf_write_data out [ch] w"

text \<open>The digits of a positive value, least significant first, as the loop stores them.\<close>

function u32_digits :: "u32 \<Rightarrow> byte list" where
  "u32_digits value =
     (if 0 < value then (of_char CHR ''0'' + ucast (value mod 10)) # u32_digits (value div 10) else [])"
  by pat_completeness auto
termination
  by (relation "measure unat") (auto simp: unat_div word_greater_zero_iff unat_gt_0)

declare u32_digits.simps [simp del]

fun write_digits :: "outbuf \<Rightarrow> byte list \<Rightarrow> nat \<Rightarrow> world \<Rightarrow> int \<times> outbuf \<times> world" where
  "write_digits out digits 0 w = (0, out, w)"
| "write_digits out digits (Suc len) w =
     (case outbuf_write_byte out (digits ! len) w of (r, out', w') \<Rightarrow>
        if r < 0 then (-1, out', w') else write_digits out' digits len w')"

definition outbuf_write_u32 :: "outbuf \<Rightarrow> u32 \<Rightarrow> world \<Rightarrow> int \<times> outbuf \<times> world" where
  "outbuf_write_u32 out value w =
     (let digits = (if value = 0 then [of_char CHR ''0''] else u32_digits value)
      in write_digits out digits (length digits) w)"

section \<open>Temporary files\<close>

definition build_temp_path :: "byte list \<Rightarrow> nat \<Rightarrow> world \<Rightarrow> int \<times> byte list \<times> world" where
  "build_temp_path tag path_cap w =
     (let prefix = bytes_of ''/tmp/pa1-''; suffix = bytes_of ''-XXXXXX'' in
      if length prefix + length tag + length suffix + 1 > path_cap
      then (-1, [], set_errno ENAMETOOLONG w)
      else (0, prefix @ tag @ suffix, w))"

definition create_named_temp_file :: "byte list \<Rightarrow> nat \<Rightarrow> world \<Rightarrow> int \<times> path \<times> world" where
  "create_named_temp_file tag path_cap w =
     (case build_temp_path tag path_cap w of (r, template, w') \<Rightarrow>
        if r < 0 then (-1, Named [], w') else sys_mkstemp template w')"

definition create_temp_file :: "byte list \<Rightarrow> world \<Rightarrow> int \<times> world" where
  "create_temp_file tag w =
     (case create_named_temp_file tag 64 w of (fd, path, w) \<Rightarrow>
        if fd < 0 then (-1, w)
        else case sys_unlink path w of (r, w) \<Rightarrow>
          if r < 0 then (case sys_close fd w of (_, w) \<Rightarrow> (-1, w)) else (fd, w))"

section \<open>What the transfer loops do\<close>

definition wr_scope :: "int \<Rightarrow> nat \<Rightarrow> scope" where
  "wr_scope fd i = \<lparr>sc_names = UNIV, sc_fds = UNIV, sc_move = {fd}, sc_write = {i}\<rparr>"

definition rd_scope :: "int \<Rightarrow> scope" where
  "rd_scope fd = \<lparr>sc_names = UNIV, sc_fds = UNIV, sc_move = {fd}, sc_write = {}\<rparr>"

lemma scope_simps [simp]:
  "sc_names (wr_scope fd i) = UNIV" "sc_fds (wr_scope fd i) = UNIV"
  "sc_move (wr_scope fd i) = {fd}" "sc_write (wr_scope fd i) = {i}"
  "sc_names (rd_scope fd) = UNIV" "sc_fds (rd_scope fd) = UNIV"
  "sc_move (rd_scope fd) = {fd}" "sc_write (rd_scope fd) = {}"
  by (simp_all add: wr_scope_def rd_scope_def)

text \<open>A descriptor at which a write appends.\<close>

definition appendable :: "world \<Rightarrow> int \<Rightarrow> ofd \<Rightarrow> bool" where
  "appendable w fd f \<longleftrightarrow> fd_of w fd = Some f \<and>
     (o_kind f = Stream \<or> o_off f = length (w_data w (o_ino f)))"

lemma put_at_append: "k = Stream \<or> off = length d \<Longrightarrow> put_at k off bs d = d @ bs"
  by (auto simp: put_at_def)

lemma sys_write_append:
  assumes "sys_write fd bs w = (r, w')" and "appendable w fd f"
  shows "frame (wr_scope fd (o_ino f)) w w' \<and> (\<exists>f' k. appendable w' fd f' \<and> handle f' = handle f
     \<and> content w' fd = content w fd @ take k bs
     \<and> (r = int k \<and> k \<le> length bs \<and> (bs \<noteq> [] \<longrightarrow> 0 < k)
        \<or> k = 0 \<and> r = -1 \<and> (w_errno w' \<noteq> EINTR \<longrightarrow> \<not> clean w)))"
proof -
  have f: "fd_of w fd = Some f" and app: "o_kind f = Stream \<or> o_off f = length (w_data w (o_ino f))"
    using assms(2) by (auto simp: appendable_def)
  from sys_write_spec [OF assms(1) f] show ?thesis
  proof (elim disjE exE conjE)
    assume "r = -1" and q: "quiet w w'" and e: "w_errno w' \<noteq> EINTR \<longrightarrow> \<not> clean w"
    moreover have "appendable w' fd f"
      using q assms(2) by (simp add: appendable_def quiet_fd_of) (simp add: quiet_def)
    ultimately show ?thesis
      by (intro conjI quiet_frame exI [of _ f] exI [of _ 0]) (auto simp: quiet_content)
  next
    fix m w1
    assume r: "r = int m" and m: "m \<le> length bs" "bs \<noteq> [] \<longrightarrow> 0 < m" and q: "quiet w w1"
      and w': "w' = set_fd fd (Some (f\<lparr>o_off := o_off f + m\<rparr>)) (w1\<lparr>w_data := (w_data w)(o_ino f :=
                      put_at (o_kind f) (o_off f) (take m bs) (w_data w (o_ino f)))\<rparr>)"
    let ?d = "w_data w (o_ino f) @ take m bs" and ?f = "f\<lparr>o_off := o_off f + m\<rparr>"
    let ?w2 = "w1\<lparr>w_data := (w_data w1)(o_ino f := ?d)\<rparr>"
    have d1: "w_data w1 = w_data w" using q by (simp add: quiet_def)
    have w'2: "w' = set_fd fd (Some ?f) ?w2" by (simp add: w' put_at_append [OF app] d1)
    have f2: "fd_of ?w2 fd = Some f" using f quiet_fd_of [OF q] by simp
    have "frame (wr_scope fd (o_ino f)) w ?w2"
      by (rule frame_trans [OF quiet_frame [OF q] frame_write_data]) simp
    then have fr: "frame (wr_scope fd (o_ino f)) w w'"
      unfolding w'2 by (rule frame_trans [OF _ frame_set_fd [OF f2]]) (simp_all add: handle_def)
    have f': "fd_of w' fd = Some ?f" by (simp add: w'2 fd_of_set_fd [OF f2])
    have "appendable w' fd ?f" using f' app m(1) by (auto simp: appendable_def w'2)
    moreover have "content w' fd = content w fd @ take m bs"
      using f' f by (simp add: content_def w'2)
    moreover have "handle ?f = handle f" by (simp add: handle_def)
    ultimately show ?thesis using fr r m by blast
  qed
qed

lemma write_full_spec:
  assumes "write_full fd bs w = (r, w')" and "appendable w fd f"
  shows "frame (wr_scope fd (o_ino f)) w w' \<and> (\<exists>f' k. appendable w' fd f' \<and> handle f' = handle f
     \<and> content w' fd = content w fd @ take k bs \<and> (r = 0 \<and> length bs \<le> k \<or> r = -1 \<and> \<not> clean w))"
  using assms
proof (induction fd bs w arbitrary: r w' f rule: write_full.induct)
  case (1 fd bs w)
  show ?case
  proof (cases "bs = []")
    case True
    then show ?thesis using 1(3,4) by (auto simp: write_full.simps)
  next
    case False
    obtain n w1 where wr: "sys_write fd bs w = (n, w1)" by force
    from sys_write_append [OF wr 1(4)] obtain f1 k where
      fr1: "frame (wr_scope fd (o_ino f)) w w1" and f1: "appendable w1 fd f1" "handle f1 = handle f"
      and c1: "content w1 fd = content w fd @ take k bs" and
      nk: "n = int k \<and> k \<le> length bs \<and> 0 < k
        \<or> k = 0 \<and> n = -1 \<and> (w_errno w1 \<noteq> EINTR \<longrightarrow> \<not> clean w)" using False by blast
    have i1: "o_ino f1 = o_ino f" using f1(2) by (simp add: handle_def)
    show ?thesis
    proof (cases "n < 0 \<and> w_errno w1 \<noteq> EINTR")
      case True
      then have "r = -1" "w' = w1" "\<not> clean w"
        using 1(3) False nk by (auto simp: write_full.simps [of fd bs w] wr)
      then show ?thesis using fr1 f1 c1 nk by blast
    next
      case F: False
      have rec: "write_full fd (drop k bs) w1 = (r, w')"
        using 1(3) False F nk by (auto simp: write_full.simps [of fd bs w] wr split: if_splits)
      have IH: "frame (wr_scope fd (o_ino f)) w1 w' \<and> (\<exists>f' j. appendable w' fd f' \<and> handle f' = handle f1
         \<and> content w' fd = content w1 fd @ take j (drop k bs)
         \<and> (r = 0 \<and> length (drop k bs) \<le> j \<or> r = -1 \<and> \<not> clean w1))"
      proof (cases "n < 0")
        case True
        then show ?thesis using 1(1) [OF _ wr [symmetric] _ _ _ f1(1)] False F nk rec i1 by force
      next
        case nn: False
        then have "nat n = k" using nk by simp
        then show ?thesis using 1(2) [OF _ wr [symmetric] nn _ f1(1)] False rec i1 by force
      qed
      then obtain f' j where f': "frame (wr_scope fd (o_ino f)) w1 w'" "appendable w' fd f'"
        "handle f' = handle f1" and c': "content w' fd = content w1 fd @ take j (drop k bs)"
        and r: "r = 0 \<and> length (drop k bs) \<le> j \<or> r = -1 \<and> \<not> clean w1" by blast
      have "content w' fd = content w fd @ take (k + j) bs" using c1 c' by (simp add: take_add)
      moreover have "r = 0 \<and> length bs \<le> k + j \<or> r = -1 \<and> \<not> clean w"
        using r frame_clean [OF fr1] by auto
      ultimately show ?thesis using frame_trans [OF fr1 f'(1)] f'(2,3) f1(2) by metis
    qed
  qed
qed

lemma read_retry_spec:
  assumes "read_retry fd n w = (r, bs, w')" and "fd_of w fd = Some f"
  shows "frame (rd_scope fd) w w' \<and> w_data w' = w_data w \<and> w_names w' = w_names w
     \<and> (r = -1 \<and> bs = [] \<and> \<not> clean w \<and> fd_of w' fd = Some f
      \<or> (\<exists>m. r = int (length bs) \<and> bs = take m (drop (o_off f) (w_data w (o_ino f)))
           \<and> (0 < n \<longrightarrow> 0 < m) \<and> m \<le> n \<and> (o_kind f = Regular \<longrightarrow> m = n)
           \<and> fd_of w' fd = Some (f\<lparr>o_off := o_off f + length bs\<rparr>)))"
  using assms
proof (induction fd n w arbitrary: r bs w' rule: read_retry.induct)
  case (1 fd n w)
  obtain r1 bs1 w1 where rd: "sys_read fd n w = (r1, bs1, w1)" by (metis prod_cases3)
  show ?case
  proof (cases "r1 < 0 \<and> w_errno w1 = EINTR")
    case True
    then have q: "quiet w w1" using sys_read_spec [OF rd 1(3)] by auto
    have f1: "fd_of w1 fd = Some f" using quiet_fd_of [OF q] 1(3) by simp
    have "read_retry fd n w1 = (r, bs, w')"
      using 1(2) True by (simp add: read_retry.simps [of fd n w] rd)
    from 1(1) [OF rd [symmetric] refl True this f1] show ?thesis
      using frame_trans [OF quiet_frame [OF q]] quiet_clean [OF q] q
      by (auto simp: quiet_def)
  next
    case False
    then have e: "r = r1" "bs = bs1" "w' = w1"
      using 1(2) by (auto simp: read_retry.simps [of fd n w] rd split: if_splits)
    from sys_read_spec [OF rd 1(3)] show ?thesis
    proof (elim disjE exE conjE)
      assume "r1 = -1" "bs1 = []" "quiet w w1" "w_errno w1 \<noteq> EINTR \<longrightarrow> \<not> clean w"
      then show ?thesis using False 1(3) e quiet_frame [of w w1] quiet_fd_of [of w w1 fd]
        by (auto simp: quiet_def)
    next
      fix m w2
      assume r1: "r1 = int (length bs1)" "bs1 = take m (drop (o_off f) (w_data w (o_ino f)))"
        "0 < n \<longrightarrow> 0 < m" "m \<le> n" "o_kind f = Regular \<longrightarrow> m = n" and q: "quiet w w2"
        and w1: "w1 = set_fd fd (Some (f\<lparr>o_off := o_off f + length bs1\<rparr>)) w2"
      have f2: "fd_of w2 fd = Some f" using quiet_fd_of [OF q] 1(3) by simp
      have "frame (rd_scope fd) w w1"
        unfolding w1 by (rule frame_trans [OF quiet_frame [OF q] frame_set_fd [OF f2]])
          (simp_all add: handle_def)
      moreover have "fd_of w1 fd = Some (f\<lparr>o_off := o_off f + length bs1\<rparr>)"
        "w_data w1 = w_data w" "w_names w1 = w_names w"
        using q by (simp_all add: w1 fd_of_set_fd [OF f2]) (simp_all add: quiet_def)
      ultimately show ?thesis using r1 e by blast
    qed
  qed
qed

lemma pread_full_spec:
  assumes "pread_full fd n off w = (r, bs, w')" and "fd_of w fd = Some f" and "o_kind f = Regular"
  shows "quiet w w' \<and> (r = 0 \<and> bs = take n (drop off (w_data w (o_ino f))) \<and> length bs = n
     \<or> r = -1 \<and> (clean w \<longrightarrow> length (w_data w (o_ino f)) < off + n))"
  using assms
proof (induction fd n off w arbitrary: r bs w' rule: pread_full.induct)
  case (1 fd n off w)
  show ?case
  proof (cases "n = 0")
    case True
    then show ?thesis using 1(3) by (simp add: pread_full.simps)
  next
    case n0: False
    obtain got bs1 w1 where rd: "sys_pread fd n off w = (got, bs1, w1)" by (metis prod_cases3)
    note sp = sys_pread_spec [OF rd 1(4,5)]
    have f1: "fd_of w1 fd = Some f" using quiet_fd_of [OF sp(1)] 1(4) by simp
    have d1: "w_data w1 = w_data w" using sp(1) by (simp add: quiet_def)
    note unf = pread_full.simps [of fd n off w] rd
    consider (eintr) "got < 0" "w_errno w1 = EINTR" | (fail) "got < 0" "w_errno w1 \<noteq> EINTR"
      | (eof) "got = 0" | (some) "0 < got" by linarith
    then show ?thesis
    proof cases
      case eintr
      have "pread_full fd n off w1 = (r, bs, w')" using 1(3) n0 eintr by (simp add: unf)
      from 1(1) [OF _ rd [symmetric] refl eintr this f1 1(5)] show ?thesis
        using n0 d1 quiet_trans [OF sp(1)] quiet_clean [OF sp(1)] by auto
    next
      case fail
      then show ?thesis using 1(3) n0 sp by (auto simp: unf)
    next
      case eof
      then have "length (w_data w (o_ino f)) \<le> off" using sp(2) n0 by auto
      then show ?thesis using 1(3) n0 sp(1) eof by (auto simp: unf)
    next
      case some
      then have got: "got = int (length bs1)" "bs1 = take n (drop off (w_data w (o_ino f)))"
        using sp(2) by auto
      then have ln: "length bs1 \<le> n" by simp
      obtain r2 bs2 w2 where rec: "pread_full fd (n - nat got) (off + nat got) w1 = (r2, bs2, w2)"
        by (metis prod_cases3)
      have e: "r = r2" "bs = bs1 @ bs2" "w' = w2" using 1(3) n0 some by (auto simp: unf rec)
      have "quiet w1 w2 \<and> (r2 = 0 \<and> bs2 = take (n - nat got) (drop (off + nat got) (w_data w1 (o_ino f)))
           \<and> length bs2 = n - nat got
         \<or> r2 = -1 \<and> (clean w1 \<longrightarrow> length (w_data w1 (o_ino f)) < off + nat got + (n - nat got)))"
        using 1(2) [OF _ rd [symmetric] refl _ _ rec f1 1(5)] n0 some by simp
      moreover have "bs1 = take (length bs1) (drop off (w_data w (o_ino f)))"
        using got(2) by (metis append_eq_conv_conj append_take_drop_id)
      then have "bs1 @ take (n - nat got) (drop (off + nat got) (w_data w (o_ino f)))
          = take n (drop off (w_data w (o_ino f)))"
        using take_add [of "nat got" "n - nat got" "drop off (w_data w (o_ino f))"] got(1) ln
        by (simp add: add.commute)
      ultimately show ?thesis
        using got(1) ln e d1 quiet_trans [OF sp(1)] quiet_clean [OF sp(1)] by auto
    qed
  qed
qed

section \<open>The writer as a sink\<close>

text \<open>
  \<open>sink out w\<close> is everything written so far: what has reached the file and what is still in
  the buffer. \<open>emits\<close> is what every write through the buffer promises: it appends, and a
  failure is due to the kernel.
\<close>

definition sink_ok :: "nat \<Rightarrow> outbuf \<Rightarrow> world \<Rightarrow> bool" where
  "sink_ok i out w \<longleftrightarrow> (\<exists>f. appendable w (ob_fd out) f \<and> o_ino f = i)
     \<and> length (ob_buf out) \<le> WRITE_BUF_SIZE"

definition sink :: "outbuf \<Rightarrow> world \<Rightarrow> byte list" where
  "sink out w = content w (ob_fd out) @ ob_buf out"

definition emits :: "nat \<Rightarrow> outbuf \<Rightarrow> world \<Rightarrow> byte list \<Rightarrow> int \<times> outbuf \<times> world \<Rightarrow> bool" where
  "emits i out w d res = (case res of (r, out', w') \<Rightarrow>
     frame (wr_scope (ob_fd out) i) w w' \<and> ob_fd out' = ob_fd out \<and> sink_ok i out' w'
     \<and> (r = 0 \<and> sink out' w' = sink out w @ d \<or> r = -1 \<and> \<not> clean w))"

lemma emits_nil: "sink_ok i out w \<Longrightarrow> emits i out w [] (0, out, w)"
  by (simp add: emits_def)

lemma emits_append:
  assumes "emits i out w d (0, out1, w1)" and "emits i out1 w1 d' res"
  shows "emits i out w (d @ d') res"
proof -
  obtain r out2 w2 where res: "res = (r, out2, w2)" by (metis prod_cases3)
  have a: "frame (wr_scope (ob_fd out) i) w w1" "ob_fd out1 = ob_fd out"
    "sink out1 w1 = sink out w @ d" using assms(1) by (auto simp: emits_def)
  have b: "frame (wr_scope (ob_fd out) i) w1 w2" "ob_fd out2 = ob_fd out" "sink_ok i out2 w2"
    "r = 0 \<and> sink out2 w2 = sink out1 w1 @ d' \<or> r = -1 \<and> \<not> clean w1"
    using assms(2) a(2) by (auto simp: emits_def res)
  show ?thesis using frame_trans [OF a(1) b(1)] b(2-4) a(3) frame_clean [OF a(1)]
    by (auto simp: emits_def res)
qed

lemma emits_fail:
  assumes "emits i out w d (r, out1, w1)" and "r < 0"
  shows "emits i out w d' (-1, out1, w1)"
  using assms by (auto simp: emits_def)

lemma emits_cases:
  assumes "emits i out w d (r, out', w')"
  obtains (ok) "r = 0" "sink out' w' = sink out w @ d" | (failed) "r = -1" "\<not> clean w"
  using assms by (auto simp: emits_def)

lemma emits_sink_ok: "emits i out w d (r, out', w') \<Longrightarrow> sink_ok i out' w'"
  by (simp add: emits_def)

lemma emits_frame: "emits i out w d (r, out', w') \<Longrightarrow> frame (wr_scope (ob_fd out) i) w w'"
  by (simp add: emits_def)

lemma emits_fd: "emits i out w d (r, out', w') \<Longrightarrow> ob_fd out' = ob_fd out"
  by (simp add: emits_def)

lemma outbuf_flush_emits:
  assumes "outbuf_flush out w = (r, out', w')" and "sink_ok i out w"
  shows "emits i out w [] (r, out', w')" and "r = 0 \<Longrightarrow> ob_buf out' = []"
proof -
  have "emits i out w [] (r, out', w') \<and> (r = 0 \<longrightarrow> ob_buf out' = [])"
  proof (cases "ob_buf out = []")
    case True
    then show ?thesis using assms by (auto simp: outbuf_flush_def emits_nil)
  next
    case False
    obtain r1 w1 where wf: "write_full (ob_fd out) (ob_buf out) w = (r1, w1)" by force
    obtain f where f: "appendable w (ob_fd out) f" "o_ino f = i" and
      len: "length (ob_buf out) \<le> WRITE_BUF_SIZE" using assms(2) by (auto simp: sink_ok_def)
    from write_full_spec [OF wf f(1)] obtain f' k where
      fr: "frame (wr_scope (ob_fd out) i) w w1" and f': "appendable w1 (ob_fd out) f'" "o_ino f' = i" and
      c: "content w1 (ob_fd out) = content w (ob_fd out) @ take k (ob_buf out)" and
      r1: "r1 = 0 \<and> length (ob_buf out) \<le> k \<or> r1 = -1 \<and> \<not> clean w"
      using f(2) by (auto simp: handle_def)
    then show ?thesis
      using assms(1) False len
      by (auto simp: outbuf_flush_def wf emits_def sink_ok_def sink_def split: if_splits)
  qed
  then show "emits i out w [] (r, out', w')" and "r = 0 \<Longrightarrow> ob_buf out' = []" by auto
qed

lemma outbuf_write_data_emits:
  assumes "sink_ok i out w"
  shows "emits i out w data (outbuf_write_data out data w)"
  using assms
proof (induction out data w rule: outbuf_write_data.induct)
  case (1 out data w)
  show ?case
  proof (cases "data = []")
    case True
    then show ?thesis using 1(2) by (simp add: outbuf_write_data.simps emits_nil)
  next
    case False
    let ?avail = "WRITE_BUF_SIZE - length (ob_buf out)"
    let ?av = "if ?avail = 0 then WRITE_BUF_SIZE else ?avail"
    let ?chunk = "if length data > ?av then ?av else length data"
    obtain r1 out1 w1 where fl:
      "(if ?avail = 0 then outbuf_flush out w else (0, out, w)) = (r1, out1, w1)"
      by (metis prod_cases3)
    have e1: "emits i out w [] (r1, out1, w1) \<and> (r1 = 0 \<longrightarrow> ?av = WRITE_BUF_SIZE - length (ob_buf out1))"
    proof (cases "?avail = 0")
      case True
      then show ?thesis using fl outbuf_flush_emits [of out w r1 out1 w1, OF _ 1(2)] by simp
    next
      case False
      then show ?thesis using fl emits_nil [OF 1(2)] by auto
    qed
    have unf: "outbuf_write_data out data w = (if r1 < 0 then (-1, out1, w1)
        else outbuf_write_data (out1\<lparr>ob_buf := ob_buf out1 @ take ?chunk data\<rparr>) (drop ?chunk data) w1)"
      using False by (subst outbuf_write_data.simps)
        (simp only: Let_def fl prod.case length_greater_0_conv not_False_eq_True if_True)
    show ?thesis
    proof (cases "r1 < 0")
      case True
      then show ?thesis using False emits_fail [OF conjunct1 [OF e1]] by (simp add: unf)
    next
      case r1: False
      then have r1: "r1 = 0" using e1 by (auto simp: emits_def)
      let ?out2 = "out1\<lparr>ob_buf := ob_buf out1 @ take ?chunk data\<rparr>"
      have s1: "sink_ok i out1 w1" using e1 emits_sink_ok by blast
      have "length (ob_buf out1) + ?chunk \<le> WRITE_BUF_SIZE"
        using e1 r1 s1 by (auto simp: sink_ok_def split: if_splits)
      then have s2: "sink_ok i ?out2 w1" using s1 by (auto simp: sink_ok_def)
      have "emits i out1 w1 (take ?chunk data) (0, ?out2, w1)"
        using s2 by (simp add: emits_def sink_def)
      then have e2: "emits i out w (take ?chunk data) (0, ?out2, w1)"
        using emits_append [of i out w "[]" out1 w1] e1 r1 by simp
      have "emits i ?out2 w1 (drop ?chunk data) (outbuf_write_data ?out2 (drop ?chunk data) w1)"
        using 1(1) [OF _ refl fl [symmetric] refl _ refl refl s2] False r1 by simp
      from emits_append [OF e2 this] show ?thesis using False r1 by (simp add: unf)
    qed
  qed
qed

lemma outbuf_write_byte_emits:
  "sink_ok i out w \<Longrightarrow> emits i out w [c] (outbuf_write_byte out c w)"
  by (simp add: outbuf_write_byte_def outbuf_write_data_emits)

section \<open>Decimal numbers\<close>

lemma u32_digits_show:
  "0 < v \<Longrightarrow> rev (u32_digits v) = show_nat (unat v)"
proof (induction v rule: u32_digits.induct)
  case (1 v)
  have "unat v mod 10 = unat (v mod 10)" by (simp add: unat_mod)
  then have m: "ucast (v mod 10) = (of_nat (unat v mod 10) :: byte)" by simp
  show ?case
  proof (cases "unat v < 10")
    case True
    then have "v div 10 = 0" by (simp add: word_unat_eq_iff unat_div)
    then show ?thesis using 1(2) True m
      by (simp add: u32_digits.simps [of v] u32_digits.simps [of 0] show_nat.simps [of "unat v"])
  next
    case False
    then have "0 < v div 10" by (simp add: word_less_nat_alt unat_div)
    then show ?thesis using 1 False m
      by (simp add: u32_digits.simps [of v] show_nat.simps [of "unat v"] unat_div)
  qed
qed

lemma write_digits_emits:
  "sink_ok i out w \<Longrightarrow> len \<le> length digits
    \<Longrightarrow> emits i out w (rev (take len digits)) (write_digits out digits len w)"
proof (induction len arbitrary: out w)
  case 0
  then show ?case by (simp add: emits_nil)
next
  case (Suc len)
  obtain r out1 w1 where b: "outbuf_write_byte out (digits ! len) w = (r, out1, w1)"
    by (metis prod_cases3)
  have e: "emits i out w [digits ! len] (r, out1, w1)"
    using outbuf_write_byte_emits [OF Suc.prems(1), of "digits ! len"] b by simp
  have rv: "rev (take (Suc len) digits) = [digits ! len] @ rev (take len digits)"
    using Suc.prems(2) by (simp add: take_Suc_conv_app_nth)
  from e show ?case
  proof (cases rule: emits_cases)
    case ok
    have "emits i out1 w1 (rev (take len digits)) (write_digits out1 digits len w1)"
      using Suc.prems(2) by (intro Suc.IH emits_sink_ok [OF e]) simp
    with e ok(1) have "emits i out w ([digits ! len] @ rev (take len digits)) (write_digits out1 digits len w1)"
      by (intro emits_append) auto
    then show ?thesis using ok rv by (simp add: b)
  next
    case failed
    then show ?thesis using emits_fail [OF e] by (simp add: b)
  qed
qed

lemma outbuf_write_u32_emits:
  "sink_ok i out w \<Longrightarrow> emits i out w (show_nat (unat v)) (outbuf_write_u32 out v w)"
proof -
  assume ok: "sink_ok i out w"
  let ?ds = "if v = 0 then [of_char CHR ''0''] else u32_digits v"
  have "emits i out w (rev (take (length ?ds) ?ds)) (write_digits out ?ds (length ?ds) w)"
    by (rule write_digits_emits [OF ok]) simp
  moreover have "rev (take (length ?ds) ?ds) = show_nat (unat v)"
    using u32_digits_show [of v] by (auto simp: word_gt_0 show_nat.simps [of 0])
  ultimately show ?thesis by (simp only: outbuf_write_u32_def Let_def)
qed

text \<open>At most ten digits are stored in the 16-byte array.\<close>

lemma u32_digits_length: "unat v < 10 ^ k \<Longrightarrow> length (u32_digits v) \<le> k"
proof (induction k arbitrary: v)
  case 0
  then have "v = 0" by (simp add: word_unat_eq_iff)
  then show ?case by (simp add: u32_digits.simps)
next
  case (Suc k)
  have "unat (v div 10) < 10 ^ k" using Suc.prems by (simp add: unat_div) 
  then show ?case using Suc.IH by (subst u32_digits.simps) simp
qed

section \<open>Lines\<close>

definition not_nl :: "byte \<Rightarrow> bool" where
  "not_nl c \<longleftrightarrow> c \<noteq> NEWLINE"

lemma takeWhile_not_nl_Cons [simp]:
  "takeWhile not_nl (c # s) = (if c = NEWLINE then [] else c # takeWhile not_nl s)"
  by (simp add: not_nl_def)

definition lr_ok :: "line_reader \<Rightarrow> world \<Rightarrow> bool" where
  "lr_ok rd w \<longleftrightarrow> fd_of w (lr_fd rd) \<noteq> None \<and> lr_pos rd \<le> lr_len rd \<and> lr_len rd = length (lr_buf rd)"

definition fd_rest :: "world \<Rightarrow> int \<Rightarrow> byte list" where
  "fd_rest w fd = (case fd_of w fd of None \<Rightarrow> [] | Some f \<Rightarrow> drop (o_off f) (w_data w (o_ino f)))"

text \<open>What the reader has still to deliver: the rest of its buffer, then the rest of the file.\<close>

definition lr_rest :: "line_reader \<Rightarrow> world \<Rightarrow> byte list" where
  "lr_rest rd w = drop (lr_pos rd) (lr_buf rd) @ fd_rest w (lr_fd rd)"

lemma scan_newline_spec:
  assumes "pos \<le> len" and "len = length buf"
  shows "scan_newline buf pos len = Some (pos + length (takeWhile not_nl (drop pos buf)))"
  using assms
proof (induction buf pos len rule: scan_newline.induct)
  case (1 buf pos len)
  show ?case
  proof (cases "pos < len \<and> not_nl (buf ! pos)")
    case True
    then show ?thesis using 1
      by (subst scan_newline.simps) (simp add: Cons_nth_drop_Suc [symmetric] not_nl_def [of "buf ! pos"])
  next
    case False
    then show ?thesis using 1(2,3)
      by (subst scan_newline.simps) (auto simp: not_nl_def Cons_nth_drop_Suc [symmetric])
  qed
qed

lemma quiet_fd_rest: "quiet w w' \<Longrightarrow> fd_rest w' fd = fd_rest w fd"
  using quiet_fd_of [of w w' fd] by (simp add: fd_rest_def quiet_def split: option.split)

definition line_step :: "line_reader \<Rightarrow> byte list \<Rightarrow> world \<Rightarrow>
  int \<times> line_reader \<times> bytevec \<times> bool \<times> world \<Rightarrow> bool" where
  "line_step rd acc w = (\<lambda>(r, rd', out', nl, w').
     frame (rd_scope (lr_fd rd)) w w' \<and> w_data w' = w_data w \<and> w_names w' = w_names w
   \<and> lr_fd rd' = lr_fd rd \<and> vec_ok out' \<and>
     (r = -1 \<and> \<not> clean w
    \<or> lr_ok rd' w' \<and> v_items out' = acc @ takeWhile not_nl (lr_rest rd w)
      \<and> nl = (NEWLINE \<in> set (lr_rest rd w)) \<and> lr_rest rd' w' = drop 1 (dropWhile not_nl (lr_rest rd w))
      \<and> r = (if nl \<or> v_items out' \<noteq> [] then 1 else 0)))"

lemma line_step_trans:
  assumes "line_step rd1 (acc @ s) w1 res" and "frame (rd_scope (lr_fd rd)) w w1"
    and "w_data w1 = w_data w" and "w_names w1 = w_names w" and "lr_fd rd1 = lr_fd rd"
    and "lr_rest rd w = s @ lr_rest rd1 w1" and "list_all not_nl s"
  shows "line_step rd acc w res"
proof -
  have "NEWLINE \<notin> set s" using assms(7) by (auto simp: list_all_iff not_nl_def)
  moreover have "takeWhile not_nl (s @ t) = s @ takeWhile not_nl t"
    "dropWhile not_nl (s @ t) = dropWhile not_nl t" for t
    using assms(7) by (auto simp: list_all_iff)
  ultimately show ?thesis
    using assms(1,3-6) frame_trans [OF assms(2)] frame_clean [OF assms(2)]
    unfolding line_step_def by (auto split: prod.splits)
qed

text \<open>The second half of the loop body, and the loop in terms of it.\<close>

definition line_body :: "line_reader \<Rightarrow> bytevec \<Rightarrow> world
    \<Rightarrow> (int \<times> line_reader \<times> bytevec \<times> bool \<times> world) option" where
  "line_body rd out w = do {
     pos \<leftarrow> scan_newline (lr_buf rd) (lr_pos rd) (lr_len rd);
     (r, out', w'') \<leftarrow> bytevec_append out (take (pos - lr_pos rd) (drop (lr_pos rd) (lr_buf rd))) w;
     if r < 0 then Some (-1, rd\<lparr>lr_pos := pos\<rparr>, out', False, w'')
     else if pos < lr_len rd
     then Some (1, rd\<lparr>lr_pos := pos + 1\<rparr>, out', True, w'')
     else read_line_loop (rd\<lparr>lr_pos := pos\<rparr>) out' w'' }"

lemma read_line_loop_buffered:
  "lr_pos rd \<noteq> lr_len rd \<Longrightarrow> read_line_loop rd out w = line_body rd out w"
  by (subst read_line_loop.simps) (simp add: line_body_def Let_def)

lemma read_line_loop_refill:
  assumes "lr_pos rd = lr_len rd" and "read_retry (lr_fd rd) READ_BUF_SIZE w = (got, bs, w')"
  shows "read_line_loop rd out w =
    (if got < 0 then Some (-1, rd, out, False, w')
     else if got = 0 then Some (if 0 < length (v_items out) then 1 else 0, rd, out, False, w')
     else line_body (rd\<lparr>lr_buf := bs, lr_pos := 0, lr_len := nat got\<rparr>) out w')"
  by (subst read_line_loop.simps) (simp add: assms line_body_def Let_def)

lemma line_tail:
  assumes ok: "lr_ok rd w" and vo: "vec_ok out"
    and sz: "length (v_items out) + length (lr_rest rd w) \<le> SIZE_MAX div 2"
    and rec: "\<And>out' w'. vec_ok out' \<Longrightarrow> quiet w w' \<Longrightarrow> v_items out' = v_items out @ drop (lr_pos rd) (lr_buf rd)
      \<Longrightarrow> wp (read_line_loop (rd\<lparr>lr_pos := lr_len rd\<rparr>) out' w')
            (line_step (rd\<lparr>lr_pos := lr_len rd\<rparr>) (v_items out') w')"
  shows "wp (line_body rd out w) (line_step rd (v_items out) w)"
proof -
  let ?seg = "drop (lr_pos rd) (lr_buf rd)"
  let ?tw = "takeWhile not_nl ?seg"
  let ?pos = "lr_pos rd + length ?tw"
  have len: "lr_pos rd \<le> lr_len rd" "lr_len rd = length (lr_buf rd)" using ok by (auto simp: lr_ok_def)
  note sc = scan_newline_spec [OF len] scan_newline_spec [OF len, unfolded len(2)]
  have tk: "take (length ?tw) ?seg = ?tw" by (metis takeWhile_eq_take)
  have "length ?tw \<le> length (lr_rest rd w)"
    using length_takeWhile_le [of not_nl ?seg] by (simp add: lr_rest_def)
  then obtain r out' w' where ap: "bytevec_append out ?tw w = Some (r, out', w')" and
    q: "quiet w w'" and vo': "vec_ok out'" and
    r: "r = 0 \<and> v_items out' = v_items out @ ?tw \<or> r = -1 \<and> \<not> clean w"
    using bytevec_append_spec [OF vo, of ?tw w] sz by (auto simp: wp_iff)
  have fr: "frame (rd_scope (lr_fd rd)) w w'" by (rule quiet_frame [OF q])
  have dn: "w_data w' = w_data w" "w_names w' = w_names w" using q by (simp_all add: quiet_def)
  have rs: "fd_rest w' (lr_fd rd) = fd_rest w (lr_fd rd)" by (rule quiet_fd_rest [OF q])
  show ?thesis
  proof (cases "r < 0")
    case True
    then show ?thesis using r fr dn vo' by (simp add: line_body_def sc tk ap line_step_def)
  next
    case r0: False
    show ?thesis
    proof (cases "?pos < lr_len rd")
      case True
      then have ne: "\<not> (\<forall>c\<in>set ?seg. not_nl c)"
        using len by (metis (no_types, lifting) add_less_cancel_left length_drop less_diff_conv2
            takeWhile_eq_all_conv nat_neq_iff le_add_diff_inverse)
      then have nl: "NEWLINE \<in> set (lr_rest rd w)"
        by (auto simp: lr_rest_def not_nl_def)
      have dw: "drop 1 (dropWhile not_nl (lr_rest rd w)) = drop (Suc ?pos) (lr_buf rd) @ fd_rest w (lr_fd rd)"
      proof -
        obtain c where "c \<in> set ?seg" "\<not> not_nl c" using ne by blast
        then have "dropWhile not_nl (lr_rest rd w) = dropWhile not_nl ?seg @ fd_rest w (lr_fd rd)"
          by (simp add: lr_rest_def dropWhile_append1)
        moreover have "dropWhile not_nl ?seg = drop ?pos (lr_buf rd)"
          by (simp add: dropWhile_eq_drop add.commute)
        ultimately show ?thesis using True len by simp
      qed
      have "takeWhile not_nl (lr_rest rd w) = ?tw"
        using ne by (auto simp: lr_rest_def takeWhile_append1)
      then show ?thesis using r r0 fr dn vo' True nl dw len ok rs quiet_fd_of [OF q]
        by (simp add: line_body_def sc tk ap line_step_def lr_ok_def lr_rest_def)
    next
      case False
      then have all: "?tw = ?seg" "?pos = lr_len rd"
        using len length_takeWhile_le [of not_nl ?seg]
        by (metis add_diff_inverse_nat add_le_cancel_left diff_is_0_eq length_drop not_less
            le_antisym takeWhile_eq_take take_all_iff, simp)
      have "list_all not_nl ?seg" using all(1) by (metis list_all_iff takeWhile_eq_all_conv)
      have st: "line_step rd (v_items out) w res"
        if "line_step (rd\<lparr>lr_pos := lr_len rd\<rparr>) (v_items out') w' res" for res
        using that r r0 all(1) fr dn rs len
        by (intro line_step_trans [of "rd\<lparr>lr_pos := lr_len rd\<rparr>" _ ?seg w' _ rd w])
          (auto simp: lr_rest_def \<open>list_all not_nl ?seg\<close>)
      have "wp (read_line_loop (rd\<lparr>lr_pos := ?pos\<rparr>) out' w') (line_step rd (v_items out) w)"
        unfolding all(2) by (rule wp_mono [OF rec [OF vo' q] st]) (use r r0 all(1) in auto)
      then show ?thesis using r0 False by (simp add: line_body_def sc tk ap)
    qed
  qed
qed

lemma read_line_loop_spec:
  assumes "lr_ok rd w" and "vec_ok out"
    and "length (v_items out) + length (lr_rest rd w) \<le> SIZE_MAX div 2"
  shows "wp (read_line_loop rd out w) (line_step rd (v_items out) w)"
  using assms
proof (induction "2 * length (fd_rest w (lr_fd rd)) + (if lr_pos rd = lr_len rd then 0 else 1)"
    arbitrary: rd out w rule: less_induct)
  case less
  note ok = less.prems(1) and vo = less.prems(2) and sz = less.prems(3)
  obtain f where f: "fd_of w (lr_fd rd) = Some f" and
    len: "lr_pos rd \<le> lr_len rd" "lr_len rd = length (lr_buf rd)" using ok by (auto simp: lr_ok_def)
  show ?case
  proof (cases "lr_pos rd = lr_len rd")
    case False
    have rec: "wp (read_line_loop (rd\<lparr>lr_pos := lr_len rd\<rparr>) out' w')
            (line_step (rd\<lparr>lr_pos := lr_len rd\<rparr>) (v_items out') w')"
      if "vec_ok out'" "quiet w w'" "v_items out' = v_items out @ drop (lr_pos rd) (lr_buf rd)" for out' w'
    proof (rule less.hyps)
      show "2 * length (fd_rest w' (lr_fd (rd\<lparr>lr_pos := lr_len rd\<rparr>)))
          + (if lr_pos (rd\<lparr>lr_pos := lr_len rd\<rparr>) = lr_len (rd\<lparr>lr_pos := lr_len rd\<rparr>) then 0 else 1)
        < 2 * length (fd_rest w (lr_fd rd)) + (if lr_pos rd = lr_len rd then 0 else 1)"
        using False quiet_fd_rest [OF that(2)] by simp
      show "lr_ok (rd\<lparr>lr_pos := lr_len rd\<rparr>) w'"
        using f len quiet_fd_of [OF that(2)] by (simp add: lr_ok_def)
      show "vec_ok out'" by (rule that(1))
      show "length (v_items out') + length (lr_rest (rd\<lparr>lr_pos := lr_len rd\<rparr>) w') \<le> SIZE_MAX div 2"
        using that(3) sz len quiet_fd_rest [OF that(2)] by (simp add: lr_rest_def)
    qed
    have "wp (line_body rd out w) (line_step rd (v_items out) w)"
      by (rule line_tail [OF ok vo sz]) (rule rec)
    then show ?thesis using False by (simp add: read_line_loop_buffered)
  next
    case True
    obtain got bs w1 where rr: "read_retry (lr_fd rd) READ_BUF_SIZE w = (got, bs, w1)"
      by (metis prod_cases3)
    note rs = read_retry_spec [OF rr f]
    have fr: "frame (rd_scope (lr_fd rd)) w w1" and dn: "w_data w1 = w_data w" "w_names w1 = w_names w"
      using rs by auto
    have rest: "lr_rest rd w = drop (o_off f) (w_data w (o_ino f))"
      using f True len by (simp add: lr_rest_def fd_rest_def)
    have f1: "fd_of w1 (lr_fd rd) \<noteq> None" using rs by auto
    have split: "lr_rest rd w = bs @ fd_rest w1 (lr_fd rd)" "bs = [] \<Longrightarrow> lr_rest rd w = []"
      if m: "bs = take m (drop (o_off f) (w_data w (o_ino f)))" "0 < m"
        and g: "fd_of w1 (lr_fd rd) = Some (f\<lparr>o_off := o_off f + length bs\<rparr>)" for m
    proof -
      have "lr_rest rd w = bs @ drop (length bs) (lr_rest rd w)"
        using m(1) unfolding rest by (metis append_eq_conv_conj append_take_drop_id)
      moreover have "fd_rest w1 (lr_fd rd) = drop (length bs) (lr_rest rd w)"
        using g dn(1) by (simp add: fd_rest_def rest add.commute)
      ultimately show "lr_rest rd w = bs @ fd_rest w1 (lr_fd rd)" by simp
      show "bs = [] \<Longrightarrow> lr_rest rd w = []" using m by (simp add: rest)
    qed
    have "0 < READ_BUF_SIZE" by (simp add: READ_BUF_SIZE_def)
    then consider (fail) "got = -1" "\<not> clean w"
      | (eof) "got = 0" "lr_rest rd w = []" "fd_rest w1 (lr_fd rd) = []"
      | (some) "got = int (length bs)" "bs \<noteq> []" "lr_rest rd w = bs @ fd_rest w1 (lr_fd rd)"
      using rs split by (cases "bs = []") auto
    then show ?thesis
    proof cases
      case fail
      then show ?thesis using vo fr dn
        by (simp add: read_line_loop_refill [OF True rr] line_step_def)
    next
      case eof
      then show ?thesis using True vo fr dn len f1
        by (simp add: read_line_loop_refill [OF True rr] line_step_def lr_ok_def) (simp add: lr_rest_def)
    next
      case some
      let ?rd = "rd\<lparr>lr_buf := bs, lr_pos := 0, lr_len := length bs\<rparr>"
      have ok1: "lr_ok ?rd w1" using f1 by (simp add: lr_ok_def)
      have r1: "lr_rest ?rd w1 = lr_rest rd w" using some by (simp add: lr_rest_def)
      have rec: "wp (read_line_loop (?rd\<lparr>lr_pos := lr_len ?rd\<rparr>) out' w')
            (line_step (?rd\<lparr>lr_pos := lr_len ?rd\<rparr>) (v_items out') w')"
        if "vec_ok out'" "quiet w1 w'" "v_items out' = v_items out @ drop (lr_pos ?rd) (lr_buf ?rd)" for out' w'
      proof (rule less.hyps)
        have "fd_rest w (lr_fd rd) = bs @ fd_rest w' (lr_fd rd)"
          using some(3) True len quiet_fd_rest [OF that(2)] by (simp add: lr_rest_def)
        then show "2 * length (fd_rest w' (lr_fd (?rd\<lparr>lr_pos := lr_len ?rd\<rparr>)))
          + (if lr_pos (?rd\<lparr>lr_pos := lr_len ?rd\<rparr>) = lr_len (?rd\<lparr>lr_pos := lr_len ?rd\<rparr>) then 0 else 1)
        < 2 * length (fd_rest w (lr_fd rd)) + (if lr_pos rd = lr_len rd then 0 else 1)"
          using some(2) by simp
        show "lr_ok (?rd\<lparr>lr_pos := lr_len ?rd\<rparr>) w'"
          using f1 quiet_fd_of [OF that(2)] by (simp add: lr_ok_def)
        show "vec_ok out'" by (rule that(1))
        have "length (v_items out) + length (bs @ fd_rest w1 (lr_fd rd)) \<le> SIZE_MAX div 2"
          using sz some(3) by simp
        then show "length (v_items out') + length (lr_rest (?rd\<lparr>lr_pos := lr_len ?rd\<rparr>) w') \<le> SIZE_MAX div 2"
          using that(3) quiet_fd_rest [OF that(2)] by (simp add: lr_rest_def)
      qed
      have sz1: "length (v_items out) + length (lr_rest ?rd w1) \<le> SIZE_MAX div 2" using sz r1 by simp
      have tl: "wp (line_body ?rd out w1) (line_step ?rd (v_items out) w1)"
        by (rule line_tail [OF ok1 vo sz1]) (rule rec)
      have st: "line_step rd (v_items out) w res" if "line_step ?rd (v_items out) w1 res" for res
        using that fr dn r1 by (intro line_step_trans [of ?rd _ "[]" w1 _ rd w]) auto
      have got: "got > 0" "nat got = length bs" using some by auto
      show ?thesis
        using wp_mono [OF tl st] got by (simp add: read_line_loop_refill [OF True rr])
    qed
  qed
qed

lemma line_reader_read_line_spec:
  assumes "lr_ok rd w" and "vec_ok out" and "length (lr_rest rd w) \<le> SIZE_MAX div 2"
  shows "wp (line_reader_read_line rd out w) (line_step rd [] w)"
proof -
  have "vec_ok (bytevec_reset out)" using assms(2) by (simp add: vec_ok_def bytevec_reset_def)
  moreover have "v_items (bytevec_reset out) = []" by (simp add: bytevec_reset_def)
  ultimately show ?thesis
    using read_line_loop_spec [OF assms(1), of "bytevec_reset out"] assms(3)
    by (simp add: line_reader_read_line_def)
qed

section \<open>Temporary files\<close>

definition fresh_file :: "world \<Rightarrow> int \<Rightarrow> world \<Rightarrow> bool" where
  "fresh_file w fd w' \<longleftrightarrow> 0 \<le> fd \<and> fd_of w fd = None \<and>
     (\<exists>i. w_nino w \<le> i \<and> i < w_nino w' \<and> w_data w' i = [] \<and>
       (\<forall>x. fd_of w' x = (if x = fd then Some \<lparr>o_ino = i, o_off = 0, o_kind = Regular\<rparr> else fd_of w x)))"

lemma create_named_temp_file_spec:
  assumes "create_named_temp_file tag cap w = (fd, p, w')" and "covers s w" and "wfw w"
    and "length tag + 17 \<le> cap"
  shows "frame s w w' \<and> (fd = -1 \<and> \<not> clean w
     \<or> fresh_file w fd w' \<and> w_names w p = None \<and> w_names w' = (w_names w)(p \<mapsto> w_nino w)
       \<and> w_nino w' = Suc (w_nino w)
       \<and> fd_of w' fd = Some \<lparr>o_ino = w_nino w, o_off = 0, o_kind = Regular\<rparr>)"
proof -
  have "sys_mkstemp (bytes_of ''/tmp/pa1-'' @ tag @ bytes_of ''-XXXXXX'') w = (fd, p, w')"
    using assms(1,4) by (simp add: create_named_temp_file_def build_temp_path_def)
  from sys_mkstemp_frame [OF this assms(2,3)] show ?thesis
    by (auto simp: fresh_file_def)
qed

lemma create_temp_file_spec:
  assumes "create_temp_file tag w = (fd, w')" and "covers s w" and "wfw w" and "length tag \<le> 47"
  shows "frame s w w' \<and> (fd = -1 \<and> \<not> clean w \<or> fresh_file w fd w' \<and> w_names w' = w_names w)"
proof -
  obtain fd1 p w1 where c: "create_named_temp_file tag 64 w = (fd1, p, w1)" by (metis prod_cases3)
  obtain r2 w2 where u: "sys_unlink p w1 = (r2, w2)" by force
  obtain r3 w3 where cl: "sys_close fd1 w2 = (r3, w3)" by force
  note cs = create_named_temp_file_spec [OF c assms(2,3)]
  show ?thesis
  proof (cases "fd1 < 0")
    case True
    then show ?thesis using assms(1,4) cs by (auto simp: create_temp_file_def c fresh_file_def)
  next
    case False
    then have fr: "frame s w w1" and ff: "fresh_file w fd1 w1" and p: "w_names w p = None"
      "w_names w1 = (w_names w)(p \<mapsto> w_nino w)" using cs assms(4) by auto
    have "p \<notin> sc_names s" using p(1) assms(2) by (auto simp: covers_def)
    then have u': "frame s w1 w2 \<and> w_data w2 = w_data w1 \<and> (\<forall>x. fd_of w2 x = fd_of w1 x)
        \<and> w_nino w2 = w_nino w1
        \<and> (r2 = 0 \<and> w_names w2 = w_names w \<or> r2 = -1 \<and> \<not> clean w1)"
      using sys_unlink_frame [OF u, of s] p by (auto simp: fun_upd_idem)
    have ff2: "fresh_file w fd1 w2" using ff u' by (auto simp: fresh_file_def)
    show ?thesis
    proof (cases "r2 < 0")
      case True
      obtain f where f: "fd_of w2 fd1 = Some f" using ff2 by (auto simp: fresh_file_def)
      have "fd1 \<notin> sc_fds s" using ff assms(2) by (auto simp: fresh_file_def covers_def)
      from sys_close_frame [OF cl f this] show ?thesis
        using assms(1) True False u' frame_trans [OF fr] frame_clean [OF fr]
        by (auto simp: create_temp_file_def c u cl intro: frame_trans)
    next
      case rge: False
      then show ?thesis
        using assms(1) False u' frame_trans [OF fr] ff2 by (auto simp: create_temp_file_def c u)
    qed
  qed
qed

end
