(* ===== verification/Pa1_Lexicon.thy ===== *)
theory Pa1_Lexicon
  imports Pa1_Io
begin

text \<open>
  The lexicon of \<^verbatim>\<open>PA1/index.c\<close>: an array of entries with a chained hash table
  over it. A slot and the \<open>next\<close> field of an entry hold one more than an entry's index, 0
  ends a chain. The number of entries is the length of the list.
\<close>

section \<open>Data and operations\<close>

record lexentry =
  le_text :: "byte list"
  le_len :: u32
  le_id :: u32
  le_hash :: u32
  le_bucket :: u32
  le_cache_path :: "path option"
  le_cache_count :: u32
  le_next :: u32

record lexicon =
  lx_entries :: "lexentry list"
  lx_cap :: nat
  lx_slots :: "u32 list"
  lx_slot_count :: nat

function rehash_loop :: "lexentry list \<Rightarrow> u32 list \<Rightarrow> nat \<Rightarrow> nat \<Rightarrow> lexentry list \<times> u32 list" where
  "rehash_loop entries slots next_slots i =
     (if i < length entries then
        (let entry = entries ! i;
             slot_index = unat (le_hash entry) mod next_slots
         in rehash_loop (entries[i := entry\<lparr>le_next := slots ! slot_index\<rparr>])
              (slots[slot_index := of_nat (i + 1)]) next_slots (i + 1))
      else (entries, slots))"
  by pat_completeness auto
termination
  by (relation "measure (\<lambda>(entries, slots, next_slots, i). length entries - i)") auto

declare rehash_loop.simps [simp del]

definition lexicon_rehash :: "lexicon \<Rightarrow> nat \<Rightarrow> world \<Rightarrow> int \<times> lexicon \<times> world" where
  "lexicon_rehash lexicon next_slots w =
     (case sys_alloc (next_slots * 4) w of (granted, w') \<Rightarrow>
        if \<not> granted then (-1, lexicon, w')
        else case rehash_loop (lx_entries lexicon) (replicate next_slots 0) next_slots 0 of
          (entries, slots) \<Rightarrow>
            (0, lexicon\<lparr>lx_entries := entries, lx_slots := slots, lx_slot_count := next_slots\<rparr>, w'))"

definition lexicon_init :: "world \<Rightarrow> int \<times> lexicon \<times> world" where
  "lexicon_init w =
     (case sys_alloc (LEXICON_SLOTS_INIT * 4) w of (granted, w') \<Rightarrow>
        (if granted then 0 else -1,
         \<lparr>lx_entries = [], lx_cap = 0,
          lx_slots = (if granted then replicate LEXICON_SLOTS_INIT 0 else []),
          lx_slot_count = LEXICON_SLOTS_INIT\<rparr>, w'))"

fun unlink_caches :: "lexentry list \<Rightarrow> world \<Rightarrow> world" where
  "unlink_caches [] w = w"
| "unlink_caches (e # es) w =
     (case le_cache_path e of
        None \<Rightarrow> unlink_caches es w
      | Some path \<Rightarrow> (case sys_unlink path w of (_, w') \<Rightarrow> unlink_caches es w'))"

definition lexicon_free :: "lexicon \<Rightarrow> world \<Rightarrow> lexicon \<times> world" where
  "lexicon_free lexicon w =
     (\<lparr>lx_entries = [], lx_cap = 0, lx_slots = [], lx_slot_count = 0\<rparr>,
      unlink_caches (lx_entries lexicon) w)"

definition lexicon_reserve_entries :: "lexicon \<Rightarrow> nat \<Rightarrow> world \<Rightarrow> (int \<times> lexicon \<times> world) option" where
  "lexicon_reserve_entries lexicon needed w =
     (if needed \<le> lx_cap lexicon then Some (0, lexicon, w)
      else do {
        (r, next_cap) \<leftarrow> grow_loop (if lx_cap lexicon = 0 then 256 else lx_cap lexicon) needed;
        if r < 0 then Some (-1, lexicon, w)
        else case sys_alloc (next_cap * 40) w of (granted, w') \<Rightarrow>
          if \<not> granted then Some (-1, lexicon, w')
          else Some (0, lexicon\<lparr>lx_cap := next_cap\<rparr>, w') })"

partial_function (option) lexicon_chain ::
  "lexentry list \<Rightarrow> byte list \<Rightarrow> u32 \<Rightarrow> u32 \<Rightarrow> u32 option option" where
  "lexicon_chain entries data hash index =
     (if index = 0 then Some None
      else do {
        entry \<leftarrow> at entries (unat index - 1);
        if le_hash entry = hash \<and> unat (le_len entry) = length data
           \<and> case_equal_bytes (le_text entry) data (length data)
        then Some (Some (index - 1))
        else lexicon_chain entries data hash (le_next entry) })"

definition lexicon_lookup :: "lexicon \<Rightarrow> byte list \<Rightarrow> u32 \<Rightarrow> u32 option option" where
  "lexicon_lookup lexicon data hash = do {
     index \<leftarrow> at (lx_slots lexicon) (unat hash mod lx_slot_count lexicon);
     lexicon_chain (lx_entries lexicon) data hash index }"

text \<open>The result is the status, the word id and the bucket (both 0 where the code sets none).\<close>

definition lexicon_find_or_add ::
  "lexicon \<Rightarrow> byte list \<Rightarrow> world \<Rightarrow> (int \<times> u32 \<times> u32 \<times> lexicon \<times> world) option" where
  "lexicon_find_or_add lexicon data w =
     (let hash = hash_lower_bytes data in do {
        found \<leftarrow> lexicon_lookup lexicon data hash;
        case found of
          Some entry_index \<Rightarrow> do {
            entry \<leftarrow> at (lx_entries lexicon) (unat entry_index);
            Some (0, le_id entry, le_bucket entry, lexicon, w) }
        | None \<Rightarrow>
           (case (if (length (lx_entries lexicon) + 1) * 4 \<ge> lx_slot_count lexicon * 3
                  then lexicon_rehash lexicon (lx_slot_count lexicon * 2) w
                  else (0, lexicon, w)) of (r, lexicon, w) \<Rightarrow>
            if r < 0 then Some (-1, 0, 0, lexicon, w)
            else do {
              (r, lexicon, w) \<leftarrow> lexicon_reserve_entries lexicon (length (lx_entries lexicon) + 1) w;
              if r < 0 then Some (-1, 0, 0, lexicon, w)
              else case sys_alloc (length data + 1) w of (granted, w) \<Rightarrow>
                if \<not> granted then Some (-1, 0, 0, lexicon, w)
                else (let count = length (lx_entries lexicon);
                          slot_index = unat hash mod lx_slot_count lexicon in do {
                  head \<leftarrow> at (lx_slots lexicon) slot_index;
                  let entry = \<lparr>le_text = map ascii_lower data, le_len = of_nat (length data),
                               le_id = of_nat count, le_hash = hash,
                               le_bucket = hash mod of_nat OCC_BUCKETS,
                               le_cache_path = None, le_cache_count = 0, le_next = head\<rparr>
                  in Some (0, le_id entry, le_bucket entry,
                       lexicon\<lparr>lx_entries := lx_entries lexicon @ [entry],
                               lx_slots := (lx_slots lexicon)[slot_index := of_nat (count + 1)]\<rparr>, w) }) }) })"

definition lexicon_find_existing :: "lexicon \<Rightarrow> byte list \<Rightarrow> (bool \<times> u32 \<times> u32) option" where
  "lexicon_find_existing lexicon data = do {
     found \<leftarrow> lexicon_lookup lexicon data (hash_lower_bytes data);
     case found of
       None \<Rightarrow> Some (False, 0, 0)
     | Some entry_index \<Rightarrow> do {
         entry \<leftarrow> at (lx_entries lexicon) (unat entry_index);
         Some (True, le_id entry, le_bucket entry) } }"

section \<open>Well-formedness\<close>

text \<open>
  \<open>last_idx hs n k m\<close> is one more than the greatest index below \<open>m\<close> whose hash falls in
  slot \<open>k\<close> of \<open>n\<close>, or 0. The chain of slot \<open>k\<close> visits these indices downwards.
\<close>

fun last_idx :: "u32 list \<Rightarrow> nat \<Rightarrow> nat \<Rightarrow> nat \<Rightarrow> nat" where
  "last_idx hs n k 0 = 0"
| "last_idx hs n k (Suc m) = (if unat (hs ! m) mod n = k then Suc m else last_idx hs n k m)"

definition chains_ok :: "lexentry list \<Rightarrow> u32 list \<Rightarrow> nat \<Rightarrow> bool" where
  "chains_ok es slots n \<longleftrightarrow>
     (\<forall>k<n. slots ! k = of_nat (last_idx (map le_hash es) n k (length es)))
   \<and> (\<forall>i<length es. le_next (es ! i)
        = of_nat (last_idx (map le_hash es) n (unat (le_hash (es ! i)) mod n) i))"

definition entry_ok :: "nat \<Rightarrow> lexentry \<Rightarrow> bool" where
  "entry_ok i e \<longleftrightarrow> le_id e = of_nat i \<and> le_hash e = hash_lower_bytes (le_text e)
     \<and> le_bucket e = le_hash e mod of_nat OCC_BUCKETS \<and> lower (le_text e) = le_text e
     \<and> length (le_text e) < 2 ^ 32 \<and> unat (le_len e) = length (le_text e)"

definition lex_words :: "lexicon \<Rightarrow> byte list list" where
  "lex_words lx = map le_text (lx_entries lx)"

definition lex_caches :: "lexicon \<Rightarrow> (path option \<times> u32) list" where
  "lex_caches lx = map (\<lambda>e. (le_cache_path e, le_cache_count e)) (lx_entries lx)"

definition lex_ok :: "lexicon \<Rightarrow> bool" where
  "lex_ok lx \<longleftrightarrow> 2 \<le> lx_slot_count lx \<and> length (lx_slots lx) = lx_slot_count lx
     \<and> length (lx_entries lx) < 2 ^ 32 \<and> length (lx_entries lx) \<le> lx_cap lx
     \<and> lx_cap lx \<le> SIZE_MAX
     \<and> 4 * length (lx_entries lx) < 3 * lx_slot_count lx
     \<and> chains_ok (lx_entries lx) (lx_slots lx) (lx_slot_count lx)
     \<and> (\<forall>i<length (lx_entries lx). entry_ok i (lx_entries lx ! i))
     \<and> distinct (lex_words lx)"

lemma last_idx_le: "last_idx hs n k m \<le> m"
  by (induction m) auto

lemma last_idx_cong: "(\<And>i. i < m \<Longrightarrow> hs ! i = hs' ! i) \<Longrightarrow> last_idx hs n k m = last_idx hs' n k m"
  by (induction m) auto

lemma last_idx_0: "last_idx hs n k m = 0 \<Longrightarrow> i < m \<Longrightarrow> unat (hs ! i) mod n \<noteq> k"
  by (induction m) (auto simp: less_Suc_eq split: if_splits)

lemma last_idx_Suc:
  assumes "last_idx hs n k m = Suc j"
  shows "unat (hs ! j) mod n = k" and "j < m" and "j < i \<Longrightarrow> i < m \<Longrightarrow> unat (hs ! i) mod n \<noteq> k"
  using assms by (induction m) (auto simp: less_Suc_eq split: if_splits)

text \<open>The position of a word.\<close>

fun pos_of :: "'a \<Rightarrow> 'a list \<Rightarrow> nat option" where
  "pos_of x [] = None"
| "pos_of x (y # ys) = (if x = y then Some 0 else map_option Suc (pos_of x ys))"

lemma pos_of_None: "pos_of x xs = None \<longleftrightarrow> x \<notin> set xs"
  by (induction xs) auto

lemma pos_of_Some: "pos_of x xs = Some i \<Longrightarrow> i < length xs \<and> xs ! i = x"
  by (induction xs arbitrary: i) (auto split: if_splits)

lemma pos_of_nth: "distinct xs \<Longrightarrow> i < length xs \<Longrightarrow> pos_of (xs ! i) xs = Some i"
  by (induction xs arbitrary: i) (auto simp: nth_Cons split: nat.splits)

lemma pos_of_append:
  "pos_of x (xs @ ys) = (case pos_of x xs of None \<Rightarrow> map_option (\<lambda>i. i + length xs) (pos_of x ys)
     | Some i \<Rightarrow> Some i)"
  by (induction xs) (auto simp: option.map_comp comp_def option.map_ident split: option.splits)

section \<open>Looking up\<close>

lemma lexicon_chain_spec:
  assumes ok: "lex_ok lx" and h: "hash = hash_lower_bytes data" and len: "length data < 2 ^ 32"
    and m: "m \<le> length (lx_entries lx)"
    and idx: "index = of_nat (last_idx (map le_hash (lx_entries lx)) (lx_slot_count lx)
                 (unat hash mod lx_slot_count lx) m)"
    and later: "\<And>i. m \<le> i \<Longrightarrow> i < length (lx_entries lx) \<Longrightarrow> lex_words lx ! i \<noteq> lower data"
  shows "lexicon_chain (lx_entries lx) data hash index
    = Some (map_option of_nat (pos_of (lower data) (lex_words lx)))"
  using m idx later
proof (induction m arbitrary: index rule: less_induct)
  case (less m)
  let ?es = "lx_entries lx" and ?n = "lx_slot_count lx"
  let ?k = "unat hash mod ?n"
  let ?l = "last_idx (map le_hash ?es) ?n ?k m"
  have lm: "?l \<le> m" by (rule last_idx_le)
  have small: "length ?es < 2 ^ 32" using ok by (simp add: lex_ok_def)
  have ul: "unat index = ?l" using less.prems(1,2) lm small by (simp add: unat_u32)
  have hash_of: "le_hash (?es ! i) = hash" if "i < length ?es" "lex_words lx ! i = lower data" for i
    using that ok hash_lower_bytes_cong [of "le_text (?es ! i)" data] h
    by (auto simp: lex_ok_def entry_ok_def lex_words_def)
  show ?case
  proof (cases ?l)
    case 0
    have "lower data \<notin> set (lex_words lx)"
    proof
      assume "lower data \<in> set (lex_words lx)"
      then obtain i where i: "i < length ?es" "lex_words lx ! i = lower data"
        by (auto simp: in_set_conv_nth lex_words_def)
      then have "i < m" using less.prems(3) by (meson not_less)
      then show False using last_idx_0 [OF 0, of i] hash_of [OF i] i(1) by simp
    qed
    then have "pos_of (lower data) (lex_words lx) = None" by (simp add: pos_of_None)
    then show ?thesis using 0 ul by (subst lexicon_chain.simps) (simp add: unat_eq_0)
  next
    case (Suc j)
    note lj = last_idx_Suc [OF Suc]
    have jn: "j < length ?es" using lj(2) less.prems(1) by simp
    let ?e = "?es ! j"
    have e: "entry_ok j ?e" using ok jn by (simp add: lex_ok_def)
    have i0: "index \<noteq> 0" using ul Suc by auto
    have at: "at ?es (unat index - 1) = Some ?e" using ul Suc jn by simp
    have w: "lex_words lx ! j = le_text ?e" using jn by (simp add: lex_words_def)
    have match: "(le_hash ?e = hash \<and> unat (le_len ?e) = length data
           \<and> case_equal_bytes (le_text ?e) data (length data)) \<longleftrightarrow> lex_words lx ! j = lower data"
    proof
      assume "le_hash ?e = hash \<and> unat (le_len ?e) = length data
           \<and> case_equal_bytes (le_text ?e) data (length data)"
      then show "lex_words lx ! j = lower data"
        using e w by (auto simp: entry_ok_def case_equal_bytes_iff)
    next
      assume a: "lex_words lx ! j = lower data"
      then have "length (le_text ?e) = length data" using w by (metis lower_simps(4))
      then show "le_hash ?e = hash \<and> unat (le_len ?e) = length data
           \<and> case_equal_bytes (le_text ?e) data (length data)"
        using a e w hash_of [OF jn a] by (auto simp: entry_ok_def case_equal_bytes_iff)
    qed
    show ?thesis
    proof (cases "lex_words lx ! j = lower data")
      case True
      have "pos_of (lower data) (lex_words lx) = Some j"
        using pos_of_nth [of "lex_words lx" j] ok jn True by (simp add: lex_ok_def lex_words_def)
      moreover have "index - 1 = of_nat j" using ul Suc less.prems(2) by simp
      ultimately show ?thesis using i0 at match True by (subst lexicon_chain.simps) simp
    next
      case False
      have "lexicon_chain ?es data hash (le_next ?e)
          = Some (map_option of_nat (pos_of (lower data) (lex_words lx)))"
      proof (rule less.IH [OF lj(2)])
        show "j \<le> length ?es" using jn by simp
        have "unat (le_hash ?e) mod ?n = ?k" using lj(1) jn by simp
        then show "le_next ?e = of_nat (last_idx (map le_hash ?es) ?n ?k j)"
          using ok jn by (auto simp: lex_ok_def chains_ok_def)
        fix i assume i: "j \<le> i" "i < length ?es"
        show "lex_words lx ! i \<noteq> lower data"
        proof
          assume a: "lex_words lx ! i = lower data"
          have "i < m" using less.prems(3) [OF _ i(2)] a by (meson not_less)
          moreover have "j < i" using i(1) a False by (metis le_neq_implies_less)
          ultimately show False using lj(3) [of i] hash_of [OF i(2) a] i(2) by simp
        qed
      qed
      then show ?thesis using i0 at match False by (subst lexicon_chain.simps) auto
    qed
  qed
qed

lemma lexicon_lookup_spec:
  assumes "lex_ok lx" and "length data < 2 ^ 32"
  shows "lexicon_lookup lx data (hash_lower_bytes data)
    = Some (map_option of_nat (pos_of (lower data) (lex_words lx)))"
proof -
  let ?n = "lx_slot_count lx" and ?h = "hash_lower_bytes data"
  have k: "unat ?h mod ?n < length (lx_slots lx)" using assms(1) by (simp add: lex_ok_def)
  then have "lx_slots lx ! (unat ?h mod ?n) = of_nat (last_idx (map le_hash (lx_entries lx)) ?n
      (unat ?h mod ?n) (length (lx_entries lx)))"
    using assms(1) by (simp add: lex_ok_def chains_ok_def)
  then show ?thesis
    using k lexicon_chain_spec [OF assms(1) refl assms(2) le_refl, of "lx_slots lx ! (unat ?h mod ?n)"]
    by (simp add: lexicon_lookup_def)
qed

text \<open>What a lookup promises without adding anything.\<close>

lemma lexicon_find_existing_spec:
  assumes "lex_ok lx" and "length data < 2 ^ 32"
  shows "lexicon_find_existing lx data = Some (case pos_of (lower data) (lex_words lx) of
     None \<Rightarrow> (False, 0, 0)
   | Some i \<Rightarrow> (True, of_nat i, hash_lower_bytes data mod of_nat OCC_BUCKETS))"
proof (cases "pos_of (lower data) (lex_words lx)")
  case None
  then show ?thesis by (simp add: lexicon_find_existing_def lexicon_lookup_spec [OF assms])
next
  case (Some i)
  then have i: "i < length (lx_entries lx)" "le_text (lx_entries lx ! i) = lower data"
    using pos_of_Some [OF Some] by (auto simp: lex_words_def)
  then have "entry_ok i (lx_entries lx ! i)" "length (lx_entries lx) < 2 ^ 32"
    using assms(1) by (auto simp: lex_ok_def)
  moreover have "hash_lower_bytes (lower data) = hash_lower_bytes data"
    by (rule hash_lower_bytes_cong) simp
  ultimately show ?thesis using Some i
    by (simp add: lexicon_find_existing_def lexicon_lookup_spec [OF assms] unat_u32 entry_ok_def)
qed

section \<open>Adding words\<close>

text \<open>An entry without its link, the part that rehashing keeps.\<close>

definition unlinked :: "lexentry \<Rightarrow> lexentry" where
  "unlinked e = e\<lparr>le_next := 0\<rparr>"

lemma unlinked_next [simp]: "unlinked (e\<lparr>le_next := n\<rparr>) = unlinked e"
  by (simp add: unlinked_def)

lemma unlinked_fields:
  assumes "unlinked e = unlinked e'"
  shows "le_text e = le_text e'" "le_len e = le_len e'" "le_id e = le_id e'" "le_hash e = le_hash e'"
    "le_bucket e = le_bucket e'" "le_cache_path e = le_cache_path e'" "le_cache_count e = le_cache_count e'"
  using assms by (cases e; cases e'; simp add: unlinked_def)+

lemma map_set_next:
  assumes "i < length es"
  shows "map unlinked (es[i := (es ! i)\<lparr>le_next := n\<rparr>]) = map unlinked es"
    and "map le_hash (es[i := (es ! i)\<lparr>le_next := n\<rparr>]) = map le_hash es"
  using assms by (auto simp: list_eq_iff_nth_eq nth_list_update)

lemma rehash_loop_spec:
  assumes "rehash_loop es slots n i = (es', slots')" and "0 < n" and "length slots = n"
    and "i \<le> length es"
    and "\<forall>k<n. slots ! k = of_nat (last_idx (map le_hash es) n k i)"
    and "\<forall>j<i. le_next (es ! j) = of_nat (last_idx (map le_hash es) n (unat (le_hash (es ! j)) mod n) j)"
  shows "chains_ok es' slots' n \<and> length slots' = n \<and> map unlinked es' = map unlinked es"
  using assms
proof (induction es slots n i rule: rehash_loop.induct)
  case (1 es slots n i)
  show ?case
  proof (cases "i < length es")
    case False
    have "es' = es" "slots' = slots"
      using 1(2) False by (simp_all add: rehash_loop.simps [of es slots n i])
    moreover have "i = length es" using False 1(5) by simp
    ultimately show ?thesis using 1(4,6,7) by (simp add: chains_ok_def)
  next
    case True
    let ?k = "unat (le_hash (es ! i)) mod n"
    let ?es = "es[i := (es ! i)\<lparr>le_next := slots ! ?k\<rparr>]" and ?slots = "slots[?k := of_nat (i + 1)]"
    have k: "?k < n" using 1(3) by simp
    note keep = map_set_next [OF True, of "slots ! ?k"]
    have hash_at: "le_hash (?es ! j) = le_hash (es ! j)" for j
      by (cases "j = i") (simp_all add: nth_list_update True)
    have "chains_ok es' slots' n \<and> length slots' = n \<and> map unlinked es' = map unlinked ?es"
    proof (rule 1(1) [OF True refl refl])
      show "rehash_loop ?es ?slots n (i + 1) = (es', slots')"
        using 1(2) True by (simp add: rehash_loop.simps [of es slots n i] Let_def)
      show "\<forall>j<n. ?slots ! j = of_nat (last_idx (map le_hash ?es) n j (i + 1))"
        unfolding keep(2) using 1(4,6) True by (simp add: nth_list_update)
      show "\<forall>j<i + 1. le_next (?es ! j)
          = of_nat (last_idx (map le_hash ?es) n (unat (le_hash (?es ! j)) mod n) j)"
        unfolding keep(2) hash_at using 1(6,7) True k by (simp add: nth_list_update less_Suc_eq)
      show "0 < n" "length ?slots = n" "i + 1 \<le> length ?es" using 1(3,4) True by simp_all
    qed
    then show ?thesis using keep(1) by simp
  qed
qed

lemma last_idx_append: "m \<le> length hs \<Longrightarrow> last_idx (hs @ hs') n k m = last_idx hs n k m"
  by (rule last_idx_cong) (simp add: nth_append)

text \<open>What stays the same when the table is rebuilt.\<close>

lemma lex_ok_relink:
  assumes ok: "lex_ok lx" and un: "map unlinked es = map unlinked (lx_entries lx)"
    and ch: "chains_ok es slots n" and len: "length slots = n" "lx_slot_count lx \<le> n"
  shows "lex_ok (lx\<lparr>lx_entries := es, lx_slots := slots, lx_slot_count := n\<rparr>)"
    and "map le_text es = map le_text (lx_entries lx)"
    and "map (\<lambda>e. (le_cache_path e, le_cache_count e)) es
         = map (\<lambda>e. (le_cache_path e, le_cache_count e)) (lx_entries lx)"
proof -
  have l: "length es = length (lx_entries lx)" using un by (metis length_map)
  have e: "unlinked (es ! i) = unlinked (lx_entries lx ! i)" if "i < length es" for i
    using un that l by (metis nth_map)
  show tx: "map le_text es = map le_text (lx_entries lx)"
    using unlinked_fields [OF e] l by (auto simp: list_eq_iff_nth_eq)
  show "map (\<lambda>e. (le_cache_path e, le_cache_count e)) es
         = map (\<lambda>e. (le_cache_path e, le_cache_count e)) (lx_entries lx)"
    using unlinked_fields [OF e] l by (auto simp: list_eq_iff_nth_eq)
  have "entry_ok i (es ! i)" if "i < length es" for i
    using ok that l unlinked_fields [OF e [OF that]] by (simp add: lex_ok_def entry_ok_def)
  then show "lex_ok (lx\<lparr>lx_entries := es, lx_slots := slots, lx_slot_count := n\<rparr>)"
    using ok ch len l tx by (simp add: lex_ok_def lex_words_def)
qed

lemma lexicon_rehash_spec:
  assumes "lexicon_rehash lx n w = (r, lx', w')" and "lex_ok lx" and "lx_slot_count lx \<le> n"
  shows "quiet w w' \<and> lex_ok lx' \<and> lex_words lx' = lex_words lx \<and> lex_caches lx' = lex_caches lx
     \<and> lx_cap lx' = lx_cap lx \<and> (r = 0 \<and> lx_slot_count lx' = n \<or> r = -1 \<and> \<not> clean w)"
proof -
  obtain g w1 where a: "sys_alloc (n * 4) w = (g, w1)" by force
  obtain es slots where l: "rehash_loop (lx_entries lx) (replicate n 0) n 0 = (es, slots)" by force
  have "0 < n" using assms(2,3) by (simp add: lex_ok_def)
  then have r: "chains_ok es slots n" "length slots = n" "map unlinked es = map unlinked (lx_entries lx)"
    using rehash_loop_spec [OF l] by simp_all
  show ?thesis
    using assms(1) lex_ok_relink [OF assms(2) r(3,1,2) assms(3)] sys_alloc_spec [OF a] assms(2)
    by (auto simp: lexicon_rehash_def a l lex_words_def lex_caches_def split: if_splits)
qed

lemma lexicon_reserve_entries_spec:
  assumes "lx_cap lx \<le> SIZE_MAX" and "needed \<le> SIZE_MAX div 2"
  shows "wp (lexicon_reserve_entries lx needed w) (\<lambda>(r, lx', w'). quiet w w' \<and>
     (\<exists>c. lx' = lx\<lparr>lx_cap := c\<rparr> \<and> lx_cap lx \<le> c \<and> c \<le> SIZE_MAX) \<and> (r = 0 \<and> needed \<le> lx_cap lx' \<or> r = -1 \<and> \<not> clean w))"
proof (cases "needed \<le> lx_cap lx")
  case True
  then show ?thesis using assms(1) by (auto simp: lexicon_reserve_entries_def intro!: exI [of _ "lx_cap lx"])
next
  case False
  let ?c = "if lx_cap lx = 0 then 256 else lx_cap lx"
  have c: "0 < ?c" "?c \<le> SIZE_MAX" using assms(1) by (auto simp: SIZE_MAX_def)
  show ?thesis
    unfolding lexicon_reserve_entries_def if_not_P [OF False] wp_bind
  proof (rule wp_mono [OF grow_loop_spec [OF c(1), of needed]], clarify)
    fix r :: int and n
    assume g: "r = 0 \<and> needed \<le> n \<and> ?c \<le> n \<and> (?c \<le> SIZE_MAX \<longrightarrow> n \<le> SIZE_MAX)
      \<or> r = -1 \<and> SIZE_MAX div 2 < needed"
    obtain granted w1 where a: "sys_alloc (n * 40) w = (granted, w1)" by force
    have g': "r = 0 \<and> needed \<le> n \<and> lx_cap lx \<le> n \<and> n \<le> SIZE_MAX" using g assms c(2) by (auto split: if_splits)
    show "wp (if r < 0 then Some (- 1, lx, w) else case sys_alloc (n * 40) w of (granted, w') \<Rightarrow>
        if \<not> granted then Some (- 1, lx, w') else Some (0, lx\<lparr>lx_cap := n\<rparr>, w'))
      (\<lambda>(r, lx', w'). quiet w w' \<and> (\<exists>c. lx' = lx\<lparr>lx_cap := c\<rparr> \<and> lx_cap lx \<le> c \<and> c \<le> SIZE_MAX)
        \<and> (r = 0 \<and> needed \<le> lx_cap lx' \<or> r = -1 \<and> \<not> clean w))"
      using g' sys_alloc_spec [OF a] assms(1)
      by (cases granted) (auto simp: a intro: exI [of _ "lx_cap lx"] exI [of _ n])
  qed
qed

text \<open>The entry that the code appends, and the table with it.\<close>

definition new_entry :: "lexicon \<Rightarrow> byte list \<Rightarrow> u32 \<Rightarrow> lexentry" where
  "new_entry lx data head = \<lparr>le_text = map ascii_lower data, le_len = of_nat (length data),
     le_id = of_nat (length (lx_entries lx)), le_hash = hash_lower_bytes data,
     le_bucket = hash_lower_bytes data mod of_nat OCC_BUCKETS,
     le_cache_path = None, le_cache_count = 0, le_next = head\<rparr>"

definition with_entry :: "lexicon \<Rightarrow> byte list \<Rightarrow> lexicon" where
  "with_entry lx data =
     (let k = unat (hash_lower_bytes data) mod lx_slot_count lx in
      lx\<lparr>lx_entries := lx_entries lx @ [new_entry lx data (lx_slots lx ! k)],
         lx_slots := (lx_slots lx)[k := of_nat (length (lx_entries lx) + 1)]\<rparr>)"

lemma chains_ok_add:
  assumes ok: "chains_ok es slots n" and n: "0 < n" "length slots = n"
    and k: "k = unat (le_hash e) mod n" and e: "le_next e = slots ! k"
  shows "chains_ok (es @ [e]) (slots[k := of_nat (length es + 1)]) n"
proof -
  have kn: "k < n" using n(1) k by simp
  have li: "last_idx (map le_hash es @ [le_hash e]) n j m = last_idx (map le_hash es) n j m"
    if "m \<le> length es" for j m using that by (simp add: last_idx_append)
  have hd: "(map le_hash es @ [le_hash e]) ! length es = le_hash e" by (simp add: nth_append)
  show ?thesis
    unfolding chains_ok_def
  proof (intro conjI allI impI)
    fix j assume "j < n"
    then show "slots[k := of_nat (length es + 1)] ! j
        = of_nat (last_idx (map le_hash (es @ [e])) n j (length (es @ [e])))"
      using ok n(2) k hd by (simp add: chains_ok_def li nth_list_update)
  next
    fix i assume i: "i < length (es @ [e])"
    show "le_next ((es @ [e]) ! i) = of_nat
        (last_idx (map le_hash (es @ [e])) n (unat (le_hash ((es @ [e]) ! i)) mod n) i)"
    proof (cases "i = length es")
      case True
      then show ?thesis using ok e kn by (simp add: chains_ok_def li k [symmetric])
    next
      case False
      then have "i < length es" using i by simp
      then show ?thesis using ok by (simp add: chains_ok_def li nth_append)
    qed
  qed
qed

lemma lex_ok_add:
  assumes ok: "lex_ok lx" and new: "lower data \<notin> set (lex_words lx)"
    and len: "length data < 2 ^ 32" and cnt: "length (lx_entries lx) + 1 < 2 ^ 32"
    and cap: "length (lx_entries lx) + 1 \<le> lx_cap lx"
    and load: "(length (lx_entries lx) + 1) * 4 < lx_slot_count lx * 3"
  shows "lex_ok (with_entry lx data)" and "lex_words (with_entry lx data) = lex_words lx @ [lower data]"
    and "lex_caches (with_entry lx data) = lex_caches lx @ [(None, 0)]"
proof -
  let ?k = "unat (hash_lower_bytes data) mod lx_slot_count lx"
  let ?e = "new_entry lx data (lx_slots lx ! ?k)"
  have h: "hash_lower_bytes (map ascii_lower data) = hash_lower_bytes data"
    using hash_lower_bytes_cong [of "lower data" data] by (simp add: lower_def)
  have e: "entry_ok (length (lx_entries lx)) ?e"
    using len h by (simp add: entry_ok_def new_entry_def unat_u32) (simp add: lower_def)
  have "entry_ok i ((lx_entries lx @ [?e]) ! i)" if "i < length (lx_entries lx) + 1" for i
    using that ok e by (cases "i = length (lx_entries lx)") (auto simp: nth_append lex_ok_def)
  moreover have "chains_ok (lx_entries lx @ [?e]) ((lx_slots lx)[?k := of_nat (length (lx_entries lx) + 1)])
      (lx_slot_count lx)"
    using ok by (intro chains_ok_add) (auto simp: lex_ok_def new_entry_def)
  moreover show w: "lex_words (with_entry lx data) = lex_words lx @ [lower data]"
    by (simp add: lex_words_def with_entry_def Let_def new_entry_def lower_def)
  ultimately show "lex_ok (with_entry lx data)"
    using ok new cnt cap load unfolding lex_ok_def w by (simp add: with_entry_def Let_def)
  show "lex_caches (with_entry lx data) = lex_caches lx @ [(None, 0)]"
    by (simp add: lex_caches_def with_entry_def Let_def new_entry_def)
qed

definition add_word :: "'a \<Rightarrow> 'a list \<Rightarrow> 'a list" where
  "add_word x words = (if x \<in> set words then words else words @ [x])"

definition added :: "lexicon \<Rightarrow> byte list \<Rightarrow> world \<Rightarrow> int \<times> u32 \<times> u32 \<times> lexicon \<times> world \<Rightarrow> bool" where
  "added lx data w = (\<lambda>(r, word_id, bucket, lx', w'). quiet w w' \<and> lex_ok lx' \<and>
     (r = 0 \<and> lex_words lx' = add_word (lower data) (lex_words lx)
        \<and> pos_of (lower data) (lex_words lx') = Some (unat word_id)
        \<and> bucket = hash_lower_bytes data mod of_nat OCC_BUCKETS
        \<and> lex_caches lx' = lex_caches lx @ replicate (length (lex_words lx') - length (lex_words lx)) (None, 0)
      \<or> r = -1 \<and> \<not> clean w))"

lemma lexicon_find_or_add_hit:
  assumes ok: "lex_ok lx" and len: "length data < 2 ^ 32" and hit: "pos_of (lower data) (lex_words lx) = Some i"
  shows "wp (lexicon_find_or_add lx data w) (added lx data w)"
proof -
  have i: "i < length (lx_entries lx)" "le_text (lx_entries lx ! i) = lower data" "lower data \<in> set (lex_words lx)"
    using pos_of_Some [OF hit] nth_mem [of i "lex_words lx"] by (auto simp: lex_words_def)
  then have "entry_ok i (lx_entries lx ! i)" "length (lx_entries lx) < 2 ^ 32"
    using ok by (auto simp: lex_ok_def)
  moreover have "hash_lower_bytes (lower data) = hash_lower_bytes data"
    by (rule hash_lower_bytes_cong) simp
  ultimately show ?thesis using i hit ok
    by (simp add: lexicon_find_or_add_def Let_def lexicon_lookup_spec [OF ok len] unat_u32 entry_ok_def
        added_def add_word_def)
qed

lemma lexicon_find_or_add_miss:
  assumes "lexicon_lookup lx data (hash_lower_bytes data) = Some None"
    and "(if (length (lx_entries lx) + 1) * 4 \<ge> lx_slot_count lx * 3
      then lexicon_rehash lx (lx_slot_count lx * 2) w else (0, lx, w)) = (r1, lx1, w1)"
  shows "lexicon_find_or_add lx data w = (if r1 < 0 then Some (-1, 0, 0, lx1, w1) else do {
              (r, lexicon, w) \<leftarrow> lexicon_reserve_entries lx1 (length (lx_entries lx1) + 1) w1;
              if r < 0 then Some (-1, 0, 0, lexicon, w)
              else case sys_alloc (length data + 1) w of (granted, w) \<Rightarrow>
                if \<not> granted then Some (-1, 0, 0, lexicon, w)
                else do {
                  head \<leftarrow> at (lx_slots lexicon) (unat (hash_lower_bytes data) mod lx_slot_count lexicon);
                  Some (0, le_id (new_entry lexicon data head), le_bucket (new_entry lexicon data head),
                    lexicon\<lparr>lx_entries := lx_entries lexicon @ [new_entry lexicon data head],
                      lx_slots := (lx_slots lexicon)[unat (hash_lower_bytes data) mod lx_slot_count lexicon
                        := of_nat (length (lx_entries lexicon) + 1)]\<rparr>, w) } })"
  unfolding lexicon_find_or_add_def Let_def assms option.case bind.bind_lunit new_entry_def prod.case
  by simp

lemma lexicon_find_or_add_spec:
  assumes ok: "lex_ok lx" and len: "length data < 2 ^ 32" and cnt: "length (lx_entries lx) + 1 < 2 ^ 32"
  shows "wp (lexicon_find_or_add lx data w) (added lx data w)"
proof (cases "pos_of (lower data) (lex_words lx)")
  case (Some i)
  then show ?thesis using lexicon_find_or_add_hit [OF ok len] by simp
next
  case None
  then have new: "lower data \<notin> set (lex_words lx)" by (simp add: pos_of_None)
  have look: "lexicon_lookup lx data (hash_lower_bytes data) = Some None"
    by (simp add: lexicon_lookup_spec [OF ok len] None)
  obtain r1 lx1 w1 where re: "(if (length (lx_entries lx) + 1) * 4 \<ge> lx_slot_count lx * 3
      then lexicon_rehash lx (lx_slot_count lx * 2) w else (0, lx, w)) = (r1, lx1, w1)"
    by (metis prod_cases3)
  have re': "quiet w w1" "lex_ok lx1" "lex_words lx1 = lex_words lx" "lex_caches lx1 = lex_caches lx"
    "r1 = 0 \<and> (length (lx_entries lx) + 1) * 4 < lx_slot_count lx1 * 3 \<or> r1 = -1 \<and> \<not> clean w"
    using lexicon_rehash_spec [of lx "lx_slot_count lx * 2" w r1 lx1 w1] re ok
    by (auto simp: lex_ok_def split: if_splits)
  have n1: "length (lx_entries lx1) = length (lx_entries lx)"
    using re'(3) by (metis length_map lex_words_def)
  show ?thesis
  proof (cases "r1 = 0")
    case False
    then show ?thesis using re' by (simp add: lexicon_find_or_add_miss [OF look re] added_def)
  next
    case True
    have cap1: "lx_cap lx1 \<le> SIZE_MAX" using re'(2) by (simp add: lex_ok_def)
    have need: "length (lx_entries lx1) + 1 \<le> SIZE_MAX div 2" using cnt by (simp add: n1 SIZE_MAX_def)
    have "wp (do {
              (r, lexicon, w) \<leftarrow> lexicon_reserve_entries lx1 (length (lx_entries lx1) + 1) w1;
              if r < 0 then Some (-1, 0, 0, lexicon, w)
              else case sys_alloc (length data + 1) w of (granted, w) \<Rightarrow>
                if \<not> granted then Some (-1, 0, 0, lexicon, w)
                else do {
                  head \<leftarrow> at (lx_slots lexicon) (unat (hash_lower_bytes data) mod lx_slot_count lexicon);
                  Some (0, le_id (new_entry lexicon data head), le_bucket (new_entry lexicon data head),
                    lexicon\<lparr>lx_entries := lx_entries lexicon @ [new_entry lexicon data head],
                      lx_slots := (lx_slots lexicon)[unat (hash_lower_bytes data) mod lx_slot_count lexicon
                        := of_nat (length (lx_entries lexicon) + 1)]\<rparr>, w) } }) (added lx data w)"
      unfolding wp_bind
    proof (rule wp_mono [OF lexicon_reserve_entries_spec [OF cap1 need]], clarify)
      fix r :: int and lx2 w2 c
      assume q: "quiet w1 w2" and c: "lx_cap lx1 \<le> c" "c \<le> SIZE_MAX"
        and r: "r = 0 \<and> length (lx_entries lx1) + 1 \<le> lx_cap (lx1\<lparr>lx_cap := c\<rparr>) \<or> r = -1 \<and> \<not> clean w1"
      let ?lx = "lx1\<lparr>lx_cap := c\<rparr>"
      have okc: "lex_ok ?lx" "lex_words ?lx = lex_words lx" "lex_caches ?lx = lex_caches lx"
        using re'(2,3,4) c by (simp_all add: lex_ok_def lex_words_def lex_caches_def)
      have cl: "clean w \<Longrightarrow> clean w1" "clean w1 \<Longrightarrow> clean w2" using re'(1) q quiet_clean by blast+
      obtain g w3 where a: "sys_alloc (length data + 1) w2 = (g, w3)" by force
      have q3: "quiet w w3" using re'(1) q sys_alloc_spec(1) [OF a] quiet_trans by blast
      have k: "unat (hash_lower_bytes data) mod lx_slot_count ?lx < length (lx_slots ?lx)"
        using okc(1) by (simp add: lex_ok_def)
      show "wp (if r < 0 then Some (-1, 0, 0, ?lx, w2)
              else case sys_alloc (length data + 1) w2 of (granted, w) \<Rightarrow>
                if \<not> granted then Some (-1, 0, 0, ?lx, w)
                else do {
                  head \<leftarrow> at (lx_slots ?lx) (unat (hash_lower_bytes data) mod lx_slot_count ?lx);
                  Some (0, le_id (new_entry ?lx data head), le_bucket (new_entry ?lx data head),
                    ?lx\<lparr>lx_entries := lx_entries ?lx @ [new_entry ?lx data head],
                      lx_slots := (lx_slots ?lx)[unat (hash_lower_bytes data) mod lx_slot_count ?lx
                        := of_nat (length (lx_entries ?lx) + 1)]\<rparr>, w) }) (added lx data w)"
      proof (cases "r < 0 \<or> \<not> g")
        case True
        then show ?thesis
          using r a cl okc re'(1) q q3 sys_alloc_spec(2) [OF a] quiet_trans [OF re'(1) q]
          by (auto simp: added_def)
      next
        case False
        then have g: "g" "r = 0" "length (lx_entries lx1) + 1 \<le> c" using r by auto
        have new': "lower data \<notin> set (lex_words ?lx)" using new okc by simp
        have add: "lex_ok (with_entry ?lx data)" "lex_words (with_entry ?lx data) = lex_words lx @ [lower data]"
          "lex_caches (with_entry ?lx data) = lex_caches lx @ [(None, 0)]"
          using lex_ok_add [OF okc(1) new' len] okc cnt g(3) True re'(5) by (simp_all add: n1)
        have "unat (of_nat (length (lx_entries lx)) :: u32) = length (lx_entries lx)"
          using cnt by (simp add: unat_u32)
        then have "pos_of (lower data) (lex_words lx @ [lower data])
            = Some (unat (le_id (new_entry ?lx data h)))" for h
          using None by (simp add: pos_of_append new_entry_def n1 lex_words_def)
        then show ?thesis
          using g k add new q3 a
          by (simp add: added_def add_word_def with_entry_def Let_def new_entry_def)
      qed
    qed
    then show ?thesis unfolding lexicon_find_or_add_miss [OF look re] using True by simp
  qed
qed

lemma lexicon_init_spec:
  assumes "lexicon_init w = (r, lx, w')"
  shows "quiet w w' \<and> (r = 0 \<and> lex_ok lx \<and> lx_entries lx = [] \<or> r = -1 \<and> \<not> clean w)"
proof -
  obtain g w1 where a: "sys_alloc (LEXICON_SLOTS_INIT * 4) w = (g, w1)" by force
  show ?thesis
    using assms sys_alloc_spec [OF a] unfolding lexicon_init_def a
    by (auto simp: lex_ok_def chains_ok_def lex_words_def pa1_consts split: if_splits)
qed

section \<open>Properties\<close>

text \<open>C13: Adding a word never leaves the lexicon ill-formed (chains, load factor below 3/4, stored
  words in lower case and distinct). A call that succeeds adds the word in lower case exactly
  when it is not there yet, returns its position as the id and its hash modulo 256 as the bucket,
  and keeps the caches of all words; a call fails only when the kernel fails.\<close>

theorem lexicon_find_or_add_correct:
  assumes "lex_ok lx" and "length data < 2 ^ 32" and "length (lx_entries lx) + 1 < 2 ^ 32"
  shows "\<exists>r word_id bucket lx' w'. lexicon_find_or_add lx data w = Some (r, word_id, bucket, lx', w')
     \<and> lex_ok lx' \<and> quiet w w'
     \<and> (r = 0 \<and> lex_words lx' = add_word (lower data) (lex_words lx)
          \<and> pos_of (lower data) (lex_words lx') = Some (unat word_id)
          \<and> bucket = hash_lower_bytes data mod of_nat OCC_BUCKETS
          \<and> take (length (lex_caches lx)) (lex_caches lx') = lex_caches lx
        \<or> r = -1 \<and> \<not> clean w)"
  using lexicon_find_or_add_spec [OF assms, of w] by (auto simp: wp_iff added_def)

definition small_lexicon :: lexicon where
  "small_lexicon = \<lparr>lx_entries = [], lx_cap = 0, lx_slots = replicate 4 0, lx_slot_count = 4\<rparr>"

definition idle_world :: world where
  "idle_world = \<lparr>w_fds = [], w_data = (\<lambda>i. []), w_names = (\<lambda>p. None), w_nino = 0, w_ntmp = 0,
     w_errno = ENONE, w_plan = []\<rparr>"

lemma small_lexicon_ok: "lex_ok small_lexicon"
  by (simp add: small_lexicon_def lex_ok_def chains_ok_def lex_words_def)

theorem lexicon_find_or_add_witness:
  "\<exists>r word_id bucket lx' w'. lexicon_find_or_add small_lexicon (bytes_of ''Word'') idle_world
       = Some (r, word_id, bucket, lx', w') \<and> r = 0 \<and> lex_words lx' = [bytes_of ''word''] \<and> word_id = 0"
proof -
  have "lower (bytes_of ''Word'') = bytes_of ''word''"
    by (simp add: bytes_of_simps ascii_lower_def)
  then have low: "lower (bytes_of ''Word'') = bytes_of ''word''" .
  have e: "lex_words small_lexicon = []" "clean idle_world" "lx_entries small_lexicon = []"
    by (simp_all add: small_lexicon_def lex_words_def clean_def idle_world_def)
  have l: "length (bytes_of ''Word'') < 2 ^ 32" "length (lx_entries small_lexicon) + 1 < 2 ^ 32"
    by (simp_all add: e)
  have a: "add_word (bytes_of ''word'') [] = [bytes_of ''word'']" by (simp add: add_word_def)
  obtain r word_id bucket lx' w' where
    f: "lexicon_find_or_add small_lexicon (bytes_of ''Word'') idle_world = Some (r, word_id, bucket, lx', w')"
      "r = 0" "lex_words lx' = [bytes_of ''word'']" "pos_of (bytes_of ''word'') (lex_words lx') = Some (unat word_id)"
    using lexicon_find_or_add_correct [OF small_lexicon_ok l, of idle_world] e(2) unfolding e(1) low a by blast
  then have "unat word_id = 0" by simp
  then show ?thesis using f by (metis unat_eq_0)
qed

text \<open>A lookup never changes anything and decides membership case-insensitively: it returns 1
  with the word's position and bucket exactly when the word in lower case is in the lexicon.\<close>

theorem lexicon_find_existing_correct:
  assumes "lex_ok lx" and "length data < 2 ^ 32"
  shows "lexicon_find_existing lx data = Some (case pos_of (lower data) (lex_words lx) of
     None \<Rightarrow> (False, 0, 0)
   | Some i \<Rightarrow> (True, of_nat i, hash_lower_bytes data mod of_nat OCC_BUCKETS))"
  using lexicon_find_existing_spec [OF assms] .

theorem lexicon_find_existing_witness:
  "lexicon_find_existing small_lexicon (bytes_of ''word'') = Some (False, 0, 0)"
  using lexicon_find_existing_correct [OF small_lexicon_ok, of "bytes_of ''word''"]
  by (simp add: small_lexicon_def lex_words_def)

end
