(* ===== verification/Pa1_Index.thy ===== *)
theory Pa1_Index
  imports Pa1_Lexicon
begin

text \<open>
  The index of \<^verbatim>\<open>PA1/index.c\<close>: one pass over the input that writes the table of
  line offsets and, for each of the 256 buckets of words, the file of occurrence records; and
  reading a line back. \<open>occ_out\<close> and \<open>occ_fds\<close> are lists of length \<open>OCC_BUCKETS\<close>.
\<close>

section \<open>Data\<close>

record occ_record =
  oc_word :: u32
  oc_line :: u32
  oc_start :: u32

definition enc_occ :: "occ_record \<Rightarrow> byte list" where
  "enc_occ rc = enc_u32 (oc_word rc) @ enc_u32 (oc_line rc) @ enc_u32 (oc_start rc)"

definition dec_occ :: "byte list \<Rightarrow> occ_record" where
  "dec_occ bs = \<lparr>oc_word = dec_u32 (take 4 bs), oc_line = dec_u32 (take 4 (drop 4 bs)),
     oc_start = dec_u32 (take 4 (drop 8 bs))\<rparr>"

definition OCC_SIZE :: nat where "OCC_SIZE = 12"

record index =
  ix_input_fd :: int
  ix_line_fd :: int
  ix_occ_fds :: "int list"
  ix_line_out :: outbuf
  ix_occ_out :: "outbuf list"
  ix_lexicon :: lexicon
  ix_line_count :: u32

section \<open>Building\<close>

text \<open>The two scanning loops of the tokenizers.\<close>

function skip_seps :: "byte list \<Rightarrow> nat \<Rightarrow> nat" where
  "skip_seps line start =
     (if start < length line \<and> is_word_sep (line ! start) then skip_seps line (start + 1) else start)"
  by pat_completeness auto
termination by (relation "measure (\<lambda>(line, start). length line - start)") auto
declare skip_seps.simps [simp del]

function word_end :: "byte list \<Rightarrow> nat \<Rightarrow> nat" where
  "word_end line e =
     (if e < length line \<and> \<not> is_word_sep (line ! e) then word_end line (e + 1) else e)"
  by pat_completeness auto
termination by (relation "measure (\<lambda>(line, e). length line - e)") auto
declare word_end.simps [simp del]

partial_function (option) process_line_from ::
  "index \<Rightarrow> byte list \<Rightarrow> u32 \<Rightarrow> nat \<Rightarrow> world \<Rightarrow> (int \<times> index \<times> world) option" where
  "process_line_from index line line_no pos w =
     (if pos < length line then
        (let start = skip_seps line pos in
         if start \<ge> length line then Some (0, index, w)
         else let e = word_end line start in do {
           (r, word_id, bucket, lexicon, w) \<leftarrow>
             lexicon_find_or_add (ix_lexicon index) (take (e - start) (drop start line)) w;
           if r < 0 then Some (-1, index\<lparr>ix_lexicon := lexicon\<rparr>, w)
           else do {
             out \<leftarrow> at (ix_occ_out index) (unat bucket);
             case outbuf_write_data out
                 (enc_occ \<lparr>oc_word = word_id, oc_line = line_no, oc_start = of_nat start\<rparr>) w of (r, out, w) \<Rightarrow>
               let index = index\<lparr>ix_lexicon := lexicon, ix_occ_out := (ix_occ_out index)[unat bucket := out]\<rparr> in
               if r < 0 then Some (-1, index, w)
               else process_line_from index line line_no e w } })
      else Some (0, index, w))"

definition process_line :: "index \<Rightarrow> byte list \<Rightarrow> u32 \<Rightarrow> world \<Rightarrow> (int \<times> index \<times> world) option" where
  "process_line index line line_no w = process_line_from index line line_no 0 w"

text \<open>The loop of \<open>index_build\<close>; the status is that of the last \<open>line_reader_read_line\<close>, or -2 where the
  body returns -1.\<close>

partial_function (option) index_build_loop ::
  "index \<Rightarrow> line_reader \<Rightarrow> bytevec \<Rightarrow> u64 \<Rightarrow> world \<Rightarrow> (int \<times> index \<times> world) option" where
  "index_build_loop index input_reader line_buffer next_line_offset w = do {
     (line_status, input_reader, line_buffer, had_newline, w) \<leftarrow>
       line_reader_read_line input_reader line_buffer w;
     if line_status \<le> 0 then Some (line_status, index, w)
     else let next_line_offset = next_line_offset
                + (of_nat (length (v_items line_buffer)) + (if had_newline then 1 else 0));
              index = index\<lparr>ix_line_count := ix_line_count index + 1\<rparr> in do {
       (r, index, w) \<leftarrow> process_line index (v_items line_buffer) (ix_line_count index) w;
       if r < 0 then Some (-2, index, w)
       else case outbuf_write_data (ix_line_out index) (enc_u64 next_line_offset) w of (r, out, w) \<Rightarrow>
         let index = index\<lparr>ix_line_out := out\<rparr> in
         if r < 0 then Some (-2, index, w)
         else index_build_loop index input_reader line_buffer next_line_offset w } }"

text \<open>Flushing a list of writers in order, up to the first failure.\<close>

fun flush_outs :: "outbuf list \<Rightarrow> world \<Rightarrow> int \<times> outbuf list \<times> world" where
  "flush_outs [] w = (0, [], w)"
| "flush_outs (out # outs) w =
     (case outbuf_flush out w of (r, out, w) \<Rightarrow>
        if r < 0 then (-1, out # outs, w)
        else case flush_outs outs w of (r, outs, w) \<Rightarrow> (r, out # outs, w))"

definition index_build :: "index \<Rightarrow> world \<Rightarrow> (int \<times> index \<times> world) option" where
  "index_build index w = do {
     (line_status, index, w) \<leftarrow>
       index_build_loop index (line_reader_init (ix_input_fd index)) empty_vec 0 w;
     if line_status < 0 then Some (-1, index, w)
     else case outbuf_flush (ix_line_out index) w of (r, out, w) \<Rightarrow>
       let index = index\<lparr>ix_line_out := out\<rparr> in
       if r < 0 then Some (-1, index, w)
       else case flush_outs (ix_occ_out index) w of (r, outs, w) \<Rightarrow>
         Some (if r < 0 then -1 else 0, index\<lparr>ix_occ_out := outs\<rparr>, w) }"

section \<open>Opening and releasing\<close>

fun close_all :: "int list \<Rightarrow> world \<Rightarrow> world" where
  "close_all [] w = w"
| "close_all (fd # fds) w = (case sys_close fd w of (_, w) \<Rightarrow> close_all fds w)"

text \<open>The loop of \<open>index_free\<close> over the buckets: flush the writer, close the descriptor.\<close>

fun free_buckets :: "int list \<Rightarrow> outbuf list \<Rightarrow> world \<Rightarrow> int list \<times> outbuf list \<times> world" where
  "free_buckets (fd # fds) (out # outs) w =
     (case outbuf_flush out w of (_, out, w) \<Rightarrow>
      case (if fd \<ge> 0 then (case sys_close fd w of (_, w) \<Rightarrow> (-1, w)) else (fd, w)) of (fd, w) \<Rightarrow>
      case free_buckets fds outs w of (fds, outs, w) \<Rightarrow> (fd # fds, out # outs, w))"
| "free_buckets fds outs w = (fds, outs, w)"

definition index_free :: "index \<Rightarrow> world \<Rightarrow> index \<times> world" where
  "index_free index w =
     (case outbuf_flush (ix_line_out index) w of (_, line_out, w) \<Rightarrow>
      case (if ix_line_fd index \<ge> 0 then (case sys_close (ix_line_fd index) w of (_, w) \<Rightarrow> (-1, w))
            else (ix_line_fd index, w)) of (line_fd, w) \<Rightarrow>
      case free_buckets (ix_occ_fds index) (ix_occ_out index) w of (fds, outs, w) \<Rightarrow>
      case (if ix_input_fd index \<ge> 0 then (case sys_close (ix_input_fd index) w of (_, w) \<Rightarrow> (-1, w))
            else (ix_input_fd index, w)) of (input_fd, w) \<Rightarrow>
      case lexicon_free (ix_lexicon index) w of (lexicon, w) \<Rightarrow>
        (index\<lparr>ix_input_fd := input_fd, ix_line_fd := line_fd, ix_occ_fds := fds, ix_line_out := line_out,
               ix_occ_out := outs, ix_lexicon := lexicon\<rparr>, w))"

fun init_buckets :: "nat \<Rightarrow> index \<Rightarrow> world \<Rightarrow> int \<times> index \<times> world" where
  "init_buckets 0 index w = (0, index, w)"
| "init_buckets (Suc n) index w =
     (case create_temp_file (bytes_of ''occ'') w of (fd, w) \<Rightarrow>
        if fd < 0 then
          (let w = close_all (rev (ix_occ_fds index)) w in
           case sys_close (ix_line_fd index) w of (_, w) \<Rightarrow>
           case lexicon_free (ix_lexicon index) w of (lexicon, w) \<Rightarrow>
             (-1, index\<lparr>ix_lexicon := lexicon\<rparr>, w))
        else init_buckets n (index\<lparr>ix_occ_fds := ix_occ_fds index @ [fd],
                                   ix_occ_out := ix_occ_out index @ [outbuf_init fd]\<rparr>) w)"

definition index_init :: "int \<Rightarrow> world \<Rightarrow> int \<times> index \<times> world" where
  "index_init input_fd w =
     (case lexicon_init w of (r, lexicon, w) \<Rightarrow>
      let index = \<lparr>ix_input_fd = input_fd, ix_line_fd = -1, ix_occ_fds = [], ix_line_out = outbuf_init (-1),
                   ix_occ_out = [], ix_lexicon = lexicon, ix_line_count = 0\<rparr> in
      if r < 0 then (-1, index, w)
      else case create_temp_file (bytes_of ''lines'') w of (line_fd, w) \<Rightarrow>
        let index = index\<lparr>ix_line_fd := line_fd\<rparr> in
        if line_fd < 0 then (case lexicon_free lexicon w of (lexicon, w) \<Rightarrow>
          (-1, index\<lparr>ix_lexicon := lexicon\<rparr>, w))
        else case init_buckets OCC_BUCKETS (index\<lparr>ix_line_out := outbuf_init line_fd\<rparr>) w of (r, index, w) \<Rightarrow>
          if r < 0 then (-1, index, w)
          else case outbuf_write_data (ix_line_out index) (enc_u64 0) w of (r, out, w) \<Rightarrow>
            let index = index\<lparr>ix_line_out := out\<rparr> in
            if r < 0 then (case index_free index w of (index, w) \<Rightarrow> (-1, index, w))
            else (0, index, w))"

section \<open>Reading a line back\<close>

definition read_line_offset :: "index \<Rightarrow> u32 \<Rightarrow> world \<Rightarrow> int \<times> u64 \<times> world" where
  "read_line_offset index offset_index w =
     (case pread_full (ix_line_fd index) 8 (unat offset_index * 8) w of (r, bs, w) \<Rightarrow>
        (r, if r < 0 then 0 else dec_u64 bs, w))"

definition index_read_line :: "index \<Rightarrow> u32 \<Rightarrow> bytevec \<Rightarrow> world \<Rightarrow> (int \<times> bytevec \<times> world) option" where
  "index_read_line index line_no line w =
     (if line_no = 0 \<or> line_no > ix_line_count index then Some (-1, line, w)
      else case read_line_offset index (line_no - 1) w of (r, start, w) \<Rightarrow>
        if r < 0 then Some (-1, line, w)
        else case read_line_offset index line_no w of (r, e, w) \<Rightarrow>
          if r < 0 then Some (-1, line, w)
          else if e < start then Some (-1, line, w)
          else let size = unat (e - start); line = bytevec_reset line in
            if size = 0 then Some (0, line, w)
            else do {
              (r, line, w) \<leftarrow> bytevec_reserve line size w;
              if r < 0 then Some (-1, line, w)
              else case pread_full (ix_input_fd index) size (unat start) w of (r, bs, w) \<Rightarrow>
                if r < 0 then Some (-1, line, w)
                else let line = line\<lparr>v_items := bs\<rparr> in
                  if length bs > 0 \<and> last bs = NEWLINE
                  then Some (0, line\<lparr>v_items := butlast bs\<rparr>, w) else Some (0, line, w) })"

section \<open>What an index should hold\<close>

lemma word_nonempty:
  assumes "dropWhile is_word_sep s \<noteq> []"
  shows "takeWhile (\<lambda>c. \<not> is_word_sep c) (dropWhile is_word_sep s) \<noteq> []"
  using hd_dropWhile [OF assms] assms by (cases "dropWhile is_word_sep s") auto

function word_spans :: "nat \<Rightarrow> byte list \<Rightarrow> (nat \<times> byte list) list" where
  "word_spans off s =
     (let t = dropWhile is_word_sep s; k = off + (length s - length t);
          x = takeWhile (\<lambda>c. \<not> is_word_sep c) t in
      if t = [] then [] else (k, x) # word_spans (k + length x) (drop (length x) t))"
  by pat_completeness auto
termination
proof (relation "measure (\<lambda>(off, s). length s)", goal_cases)
  case (2 off s t k x)
  have "0 < length x" using word_nonempty [of s] 2 by simp
  moreover have "length t \<le> length s" "t \<noteq> []" using 2 by (simp_all add: length_dropWhile_le)
  then have "0 < length t" "length t \<le> length s" by simp_all
  ultimately have "length t - length x < length s" by linarith
  then show ?case by simp
qed simp
declare word_spans.simps [simp del]

type_synonym occ = "byte list \<times> nat \<times> nat"

text \<open>The occurrences of a line, of a list of lines numbered from \<open>k\<close>, and the words in order.\<close>

definition line_occs :: "nat \<Rightarrow> byte list \<Rightarrow> occ list" where
  "line_occs k line = map (\<lambda>(s, x). (lower x, k, s)) (word_spans 0 line)"

fun occs_from :: "nat \<Rightarrow> byte list list \<Rightarrow> occ list" where
  "occs_from k [] = []"
| "occs_from k (l # ls) = line_occs k l @ occs_from (Suc k) ls"

definition words_of :: "occ list \<Rightarrow> byte list list" where
  "words_of occs = foldl (\<lambda>ws oc. add_word (fst oc) ws) [] occs"

definition bucket_of :: "byte list \<Rightarrow> nat" where
  "bucket_of x = unat (hash_lower_bytes x) mod OCC_BUCKETS"

definition record_of :: "byte list list \<Rightarrow> occ \<Rightarrow> occ_record" where
  "record_of ws oc = \<lparr>oc_word = of_nat (the (pos_of (fst oc) ws)), oc_line = of_nat (fst (snd oc)),
     oc_start = of_nat (snd (snd oc))\<rparr>"

definition bucket_recs :: "occ list \<Rightarrow> nat \<Rightarrow> occ_record list" where
  "bucket_recs occs b = map (record_of (words_of occs)) (filter (\<lambda>oc. bucket_of (fst oc) = b) occs)"

definition bucket_bytes :: "occ list \<Rightarrow> nat \<Rightarrow> byte list" where
  "bucket_bytes occs b = concat (map enc_occ (bucket_recs occs b))"

lemma words_of_snoc: "words_of (occs @ [oc]) = add_word (fst oc) (words_of occs)"
  by (simp add: words_of_def)

lemma set_words_of: "set (words_of occs) = fst ` set occs"
  by (induction occs rule: rev_induct) (auto simp: words_of_def add_word_def)

lemma length_words_of: "length (words_of occs) \<le> length occs"
  by (induction occs rule: rev_induct) (auto simp: words_of_def add_word_def)

lemma words_of_append_le: "length (words_of (occs @ occs')) \<le> length (words_of occs) + length occs'"
  by (induction occs' rule: rev_induct) (auto simp: words_of_def add_word_def)

lemma distinct_words_of: "distinct (words_of occs)"
  by (induction occs rule: rev_induct) (auto simp: words_of_def add_word_def)

lemma pos_of_add_word: "x \<in> set ws \<Longrightarrow> pos_of x (add_word y ws) = pos_of x ws"
  using pos_of_None [of x ws] by (auto simp: add_word_def pos_of_append split: option.split)

lemma record_of_stable:
  "fst oc \<in> set ws \<Longrightarrow> record_of (add_word y ws) oc = record_of ws oc"
  by (simp add: record_of_def pos_of_add_word)

lemma bucket_recs_snoc:
  "bucket_recs (occs @ [oc]) b = bucket_recs occs b
     @ (if bucket_of (fst oc) = b then [record_of (words_of (occs @ [oc])) oc] else [])"
proof -
  have "map (record_of (words_of (occs @ [oc]))) (filter P occs) = map (record_of (words_of occs)) (filter P occs)" for P
    by (auto simp: words_of_snoc set_words_of intro!: record_of_stable imageI rev_image_eqI)
  then show ?thesis by (simp add: bucket_recs_def)
qed

lemma bucket_bytes_snoc:
  "bucket_bytes (occs @ [oc]) b = bucket_bytes occs b
     @ (if bucket_of (fst oc) = b then enc_occ (record_of (words_of (occs @ [oc])) oc) else [])"
  by (simp add: bucket_bytes_def bucket_recs_snoc)

lemma skip_seps_eq:
  "p \<le> length line \<Longrightarrow> skip_seps line p = p + length (takeWhile is_word_sep (drop p line))"
proof (induction line p rule: skip_seps.induct)
  case (1 line p)
  show ?case
  proof (cases "p < length line")
    case True
    then have "drop p line = line ! p # drop (Suc p) line" by (simp add: Cons_nth_drop_Suc)
    then show ?thesis using 1 True by (subst skip_seps.simps) simp
  next
    case False
    then show ?thesis using 1(2) by (subst skip_seps.simps) simp
  qed
qed

lemma word_end_eq:
  "p \<le> length line \<Longrightarrow> word_end line p = p + length (takeWhile (\<lambda>c. \<not> is_word_sep c) (drop p line))"
proof (induction line p rule: word_end.induct)
  case (1 line p)
  show ?case
  proof (cases "p < length line")
    case True
    then have "drop p line = line ! p # drop (Suc p) line" by (simp add: Cons_nth_drop_Suc)
    then show ?thesis using 1 True by (subst word_end.simps) simp
  next
    case False
    then show ?thesis using 1(2) by (subst word_end.simps) simp
  qed
qed

text \<open>One step of a tokenizer loop, as \<open>word_spans\<close> sees it.\<close>

lemma tokenize_step:
  assumes "pos \<le> length line" and "start = skip_seps line pos" and "e = word_end line start"
  shows "word_spans pos (drop pos line) = (if start \<ge> length line then []
     else (start, take (e - start) (drop start line)) # word_spans e (drop e line))"
    and "pos \<le> start" and "start < length line \<Longrightarrow> start < e \<and> e \<le> length line" and "start \<le> length line"
proof -
  let ?s = "drop pos line"
  let ?t = "dropWhile is_word_sep ?s" and ?k = "length (takeWhile is_word_sep ?s)"
  have st: "start = pos + ?k" using assms skip_seps_eq by simp
  have split: "length ?s = ?k + length ?t" by (metis length_append takeWhile_dropWhile_id)
  then have k: "?k \<le> length line - pos" by simp
  show "pos \<le> start" using st by simp
  show sl: "start \<le> length line" using st k assms(1) by simp
  have t: "drop start line = ?t"
    using st by (simp add: dropWhile_eq_drop add.commute)
  let ?x = "takeWhile (\<lambda>c. \<not> is_word_sep c) ?t"
  have e: "e = start + length ?x" using assms(3) word_end_eq [OF sl] t by simp
  have lx: "length ?x \<le> length ?t" by (rule length_takeWhile_le)
  have tl: "length ?t = length line - start" using t by (metis length_drop)
  show "start < e \<and> e \<le> length line" if "start < length line"
  proof -
    have "0 < length ?t" using that tl by simp
    then have "?t \<noteq> []" by (metis length_greater_0_conv)
    then have "?x \<noteq> []" by (rule word_nonempty)
    then show ?thesis using e lx tl that by simp
  qed
  have k': "pos + (length ?s - length ?t) = start" using split st by linarith
  have ws: "word_spans pos ?s = (if ?t = [] then []
      else (start, ?x) # word_spans (start + length ?x) (drop (length ?x) ?t))"
    unfolding word_spans.simps [of pos ?s] Let_def k' ..
  have nil: "?t = [] \<longleftrightarrow> start \<ge> length line"
    using tl by (metis diff_is_0_eq length_0_conv)
  have rest: "drop (length ?x) ?t = drop e line"
    unfolding e t [symmetric] drop_drop by (simp only: add.commute)
  have word: "take (e - start) (drop start line) = ?x"
    unfolding t e by (simp only: diff_add_inverse takeWhile_eq_take [symmetric])
  show "word_spans pos ?s = (if start \<ge> length line then []
     else (start, take (e - start) (drop start line)) # word_spans e (drop e line))"
    unfolding ws nil rest word e [symmetric] ..
qed

lemma length_word_spans: "length (word_spans off s) \<le> length s"
proof (induction off s rule: word_spans.induct)
  case (1 off s)
  let ?t = "dropWhile is_word_sep s" and ?k = "off + (length s - length (dropWhile is_word_sep s))"
  let ?x = "takeWhile (\<lambda>c. \<not> is_word_sep c) ?t"
  show ?case
  proof (cases "?t = []")
    case True
    then show ?thesis by (subst word_spans.simps) simp
  next
    case False
    then have x: "?x \<noteq> []" by (rule word_nonempty)
    have "length (word_spans (?k + length ?x) (drop (length ?x) ?t)) \<le> length (drop (length ?x) ?t)"
      using 1 [OF refl refl refl False] .
    moreover have "length ?t \<le> length s" by (rule length_dropWhile_le)
    moreover have "0 < length ?x" "length ?x \<le> length ?t" using x length_takeWhile_le by auto
    moreover have "length (word_spans off s) = Suc (length (word_spans (?k + length ?x) (drop (length ?x) ?t)))"
      using False by (subst word_spans.simps) (simp add: Let_def)
    ultimately show ?thesis unfolding length_drop by linarith
  qed
qed

lemma length_line_occs: "length (line_occs k line) \<le> length line"
  using length_word_spans [of 0 line] by (simp add: line_occs_def)

section \<open>Several writers\<close>

text \<open>
  Writers on pairwise different files, at distinct descriptors: \<open>is\<close> are the inodes and
  \<open>ds\<close> what has been written to each.
\<close>

definition sinks :: "nat list \<Rightarrow> outbuf list \<Rightarrow> world \<Rightarrow> byte list list \<Rightarrow> bool" where
  "sinks is outs w ds \<longleftrightarrow> length is = length outs \<and> length ds = length outs \<and> distinct is
     \<and> distinct (map ob_fd outs) \<and> (\<forall>k<length outs. sink_ok (is ! k) (outs ! k) w \<and> sink (outs ! k) w = ds ! k)"

definition outs_scope :: "nat list \<Rightarrow> int list \<Rightarrow> scope" where
  "outs_scope is fds = \<lparr>sc_names = UNIV, sc_fds = UNIV, sc_move = set fds, sc_write = set is\<rparr>"

lemma outs_scope_simps [simp]:
  "sc_names (outs_scope is fds) = UNIV" "sc_fds (outs_scope is fds) = UNIV"
  "sc_move (outs_scope is fds) = set fds" "sc_write (outs_scope is fds) = set is"
  by (simp_all add: outs_scope_def)

lemma sink_ok_frame:
  assumes "sink_ok i out w" and "frame s w w'" and "wfw w" and "ob_fd out \<in> sc_fds s" and "ob_fd out \<notin> sc_move s"
    and "i \<notin> sc_write s"
  shows "sink_ok i out w'" and "sink out w' = sink out w"
proof -
  obtain f where f: "appendable w (ob_fd out) f" "o_ino f = i" using assms(1) by (auto simp: sink_ok_def)
  have fd: "fd_of w' (ob_fd out) = Some f" "fd_of w (ob_fd out) = Some f"
    using frame_fd [OF assms(2,4,5)] f by (simp_all add: appendable_def)
  moreover have "w_data w' i = w_data w i"
    using frame_data [OF assms(2)] assms(3,6) fd(2) f(2) by (auto simp: wfw_def)
  ultimately show "sink_ok i out w'" "sink out w' = sink out w"
    using assms(1) f by (auto simp: sink_ok_def appendable_def sink_def content_def)
qed

lemma sinks_frame:
  assumes "sinks is outs w ds" and "frame s w w'" and "wfw w" and "set (map ob_fd outs) \<subseteq> sc_fds s - sc_move s"
    and "set is \<inter> sc_write s = {}"
  shows "sinks is outs w' ds"
proof -
  have "sink_ok (is ! k) (outs ! k) w' \<and> sink (outs ! k) w' = ds ! k" if "k < length outs" for k
  proof -
    have "ob_fd (outs ! k) \<in> sc_fds s" "ob_fd (outs ! k) \<notin> sc_move s"
      using assms(4) that by (auto simp: subset_eq)
    moreover have "is ! k \<in> set is" using assms(1) that by (simp add: sinks_def)
    then have "is ! k \<notin> sc_write s" using assms(5) by blast
    ultimately show ?thesis
      using sink_ok_frame [of "is ! k" "outs ! k" w s w'] assms that by (simp add: sinks_def)
  qed
  then show ?thesis using assms(1) by (simp add: sinks_def)
qed

lemma sinks_emit:
  assumes s: "sinks is outs w ds" and wf: "wfw w" and k: "k < length outs"
    and e: "emits (is ! k) (outs ! k) w d (r, out', w')" and r: "0 \<le> r"
  shows "sinks is (outs[k := out']) w' (ds[k := ds ! k @ d])"
    and "map ob_fd (outs[k := out']) = map ob_fd outs"
    and "frame (outs_scope is (map ob_fd outs)) w w'"
proof -
  have r0: "r = 0" "sink out' w' = ds ! k @ d" "ob_fd out' = ob_fd (outs ! k)" "sink_ok (is ! k) out' w'"
    using e r s k by (auto simp: emits_def sinks_def)
  have fr: "frame (wr_scope (ob_fd (outs ! k)) (is ! k)) w w'" using e by (simp add: emits_def)
  show fds: "map ob_fd (outs[k := out']) = map ob_fd outs"
    using r0(3) k by (auto simp: list_eq_iff_nth_eq nth_list_update)
  show "frame (outs_scope is (map ob_fd outs)) w w'"
    by (rule frame_weaken [OF fr]) (use s k in \<open>auto simp: sinks_def\<close>)
  have "sink_ok (is ! j) (outs[k := out'] ! j) w' \<and> sink (outs[k := out'] ! j) w' = ds[k := ds ! k @ d] ! j"
    if j: "j < length outs" for j
  proof (cases "j = k")
    case True
    then show ?thesis using r0 k s by (simp add: sinks_def)
  next
    case False
    have "ob_fd (outs ! j) \<noteq> ob_fd (outs ! k)" "is ! j \<noteq> is ! k"
      using False j k s nth_eq_iff_index_eq [of "map ob_fd outs" j k] nth_eq_iff_index_eq [of "is" j k]
      by (auto simp: sinks_def)
    then show ?thesis
      using sink_ok_frame [of "is ! j" "outs ! j" w _ w'] fr wf s False j by (fastforce simp: sinks_def)
  qed
  then show "sinks is (outs[k := out']) w' (ds[k := ds ! k @ d])"
    using s fds by (simp add: sinks_def)
qed

section \<open>One line\<close>

definition ix_outs :: "index \<Rightarrow> outbuf list" where
  "ix_outs ix = ix_line_out ix # ix_occ_out ix"

text \<open>What the writers of an index have been given: the line offsets and the records per bucket.\<close>

definition ix_data :: "nat list \<Rightarrow> occ list \<Rightarrow> byte list list" where
  "ix_data offs occs = concat (map (le_bytes 8) offs) # map (bucket_bytes occs) [0..<OCC_BUCKETS]"

definition built :: "nat list \<Rightarrow> index \<Rightarrow> world \<Rightarrow> nat list \<Rightarrow> occ list \<Rightarrow> bool" where
  "built is ix w offs occs \<longleftrightarrow> wfw w \<and> lex_ok (ix_lexicon ix) \<and> lex_words (ix_lexicon ix) = words_of occs
     \<and> lex_caches (ix_lexicon ix) = replicate (length (words_of occs)) (None, 0)
     \<and> length (ix_occ_out ix) = OCC_BUCKETS \<and> sinks is (ix_outs ix) w (ix_data offs occs)"

text \<open>The descriptors of an index do not change while it is built.\<close>

definition same_fds :: "index \<Rightarrow> index \<Rightarrow> bool" where
  "same_fds ix ix' \<longleftrightarrow> ix_input_fd ix' = ix_input_fd ix \<and> ix_line_fd ix' = ix_line_fd ix
     \<and> ix_occ_fds ix' = ix_occ_fds ix \<and> map ob_fd (ix_outs ix') = map ob_fd (ix_outs ix)"

lemma same_fds_trans: "same_fds a b \<Longrightarrow> same_fds b c \<Longrightarrow> same_fds a c"
  by (simp add: same_fds_def)

definition build_step :: "nat list \<Rightarrow> index \<Rightarrow> world \<Rightarrow> nat list \<Rightarrow> occ list \<Rightarrow> int \<times> index \<times> world \<Rightarrow> bool" where
  "build_step is ix w offs occs = (\<lambda>(r, ix', w').
     r = 0 \<and> frame (outs_scope is (map ob_fd (ix_outs ix))) w w' \<and> same_fds ix ix'
       \<and> ix_line_count ix' = ix_line_count ix \<and> built is ix' w' offs occs
   \<or> r < 0 \<and> \<not> clean w)"

lemma build_step_trans:
  assumes "build_step is ix1 w1 offs occs res" and "frame (outs_scope is (map ob_fd (ix_outs ix))) w w1"
    and "same_fds ix ix1" and "ix_line_count ix1 = ix_line_count ix"
  shows "build_step is ix w offs occs res"
proof -
  have "map ob_fd (ix_outs ix1) = map ob_fd (ix_outs ix)" using assms(3) by (simp add: same_fds_def)
  then show ?thesis
    using assms frame_trans [OF assms(2)] same_fds_trans [OF assms(3)] frame_clean [OF assms(2)]
    by (auto simp: build_step_def split: prod.splits)
qed

lemma ix_data_snoc:
  "ix_data offs (occs @ [oc]) = (ix_data offs occs)[Suc (bucket_of (fst oc)) :=
     ix_data offs occs ! Suc (bucket_of (fst oc)) @ enc_occ (record_of (words_of (occs @ [oc])) oc)]"
proof -
  have "bucket_of (fst oc) < OCC_BUCKETS" by (simp add: bucket_of_def pa1_consts)
  then have "map (bucket_bytes (occs @ [oc])) [0..<OCC_BUCKETS] = (map (bucket_bytes occs) [0..<OCC_BUCKETS])
      [bucket_of (fst oc) := bucket_bytes occs (bucket_of (fst oc)) @ enc_occ (record_of (words_of (occs @ [oc])) oc)]"
    by (intro nth_equalityI) (simp_all add: nth_list_update bucket_bytes_snoc)
  then show ?thesis using \<open>bucket_of (fst oc) < OCC_BUCKETS\<close> by (simp add: ix_data_def)
qed

lemma unat_mod_buckets: "unat (h mod of_nat OCC_BUCKETS :: u32) = unat h mod OCC_BUCKETS"
  by (simp add: pa1_consts unat_mod)

lemma emit_record:
  assumes b: "built is ix w offs occs" and a: "added (ix_lexicon ix) data w (r, word_id, bucket, lx, w1)"
    and r: "0 \<le> r"
    and o: "outbuf_write_data (ix_occ_out ix ! unat bucket)
              (enc_occ \<lparr>oc_word = word_id, oc_line = of_nat k, oc_start = of_nat start\<rparr>) w1 = (r2, out, w2)"
  shows "build_step is ix w offs (occs @ [(lower data, k, start)])
    (r2, ix\<lparr>ix_lexicon := lx, ix_occ_out := (ix_occ_out ix)[unat bucket := out]\<rparr>, w2)"
    and "unat bucket < length (ix_occ_out ix)"
proof -
  let ?oc = "(lower data, k, start)" and ?j = "Suc (bucket_of (lower data))"
  let ?ix = "ix\<lparr>ix_lexicon := lx, ix_occ_out := (ix_occ_out ix)[unat bucket := out]\<rparr>"
  have q: "quiet w w1" and lx: "lex_ok lx" "lex_words lx = words_of (occs @ [?oc])"
    and id: "pos_of (lower data) (words_of (occs @ [?oc])) = Some (unat word_id)"
    and bk: "bucket = hash_lower_bytes data mod of_nat OCC_BUCKETS"
    and ca: "lex_caches lx = replicate (length (words_of (occs @ [?oc]))) (None, 0)"
    using a b r by (auto simp: added_def built_def words_of_snoc add_word_def replicate_add [symmetric])
  have "hash_lower_bytes (lower data) = hash_lower_bytes data" by (rule hash_lower_bytes_cong) simp
  then have ub: "unat bucket = bucket_of (lower data)" by (simp add: bk bucket_of_def unat_mod_buckets)
  have lt: "bucket_of (lower data) < OCC_BUCKETS" by (simp add: bucket_of_def pa1_consts)
  show ul: "unat bucket < length (ix_occ_out ix)" using ub lt b by (simp add: built_def)
  have wf1: "wfw w1" using b frame_wfw [OF quiet_frame [OF q]] by (simp add: built_def)
  have s1: "sinks is (ix_outs ix) w1 (ix_data offs occs)"
    using sinks_frame [OF _ quiet_frame [OF q], of "is" "ix_outs ix" _ "outs_scope [] []"] b
    by (simp add: built_def)
  have rec: "\<lparr>oc_word = word_id, oc_line = of_nat k, oc_start = of_nat start\<rparr> = record_of (words_of (occs @ [?oc])) ?oc"
    by (simp add: record_of_def id)
  have j: "?j < length (ix_outs ix)" using ul ub by (simp add: ix_outs_def)
  have e: "emits (is ! ?j) (ix_outs ix ! ?j) w1 (enc_occ (record_of (words_of (occs @ [?oc])) ?oc)) (r2, out, w2)"
  proof -
    have "sink_ok (is ! ?j) (ix_outs ix ! ?j) w1" using s1 j by (simp add: sinks_def)
    moreover have "ix_outs ix ! ?j = ix_occ_out ix ! bucket_of (lower data)" by (simp add: ix_outs_def)
    ultimately show ?thesis using outbuf_write_data_emits o [unfolded rec ub] by metis
  qed
  have upd: "ix_outs ?ix = (ix_outs ix)[?j := out]" by (simp add: ix_outs_def ub)
  show "build_step is ix w offs (occs @ [?oc]) (r2, ?ix, w2)"
  proof (cases "0 \<le> r2")
    case True
    note n = sinks_emit [OF s1 wf1 j e True]
    have "frame (outs_scope is (map ob_fd (ix_outs ix))) w w2"
      using frame_trans [OF quiet_frame [OF q] n(3)] .
    moreover have "wfw w2" using frame_wfw [OF n(3) wf1] .
    moreover have "r2 = 0" using e True by (auto simp: emits_def)
    moreover have "map ob_fd (ix_outs ?ix) = map ob_fd (ix_outs ix)" using n(2) upd by simp
    moreover have "sinks is (ix_outs ?ix) w2 (ix_data offs (occs @ [?oc]))"
      using n(1) upd ix_data_snoc [of offs occs ?oc] by simp
    ultimately show ?thesis
      using b lx ca by (simp add: build_step_def same_fds_def built_def)
  next
    case False
    then show ?thesis using e quiet_clean [OF q] by (auto simp: build_step_def emits_def)
  qed
qed

lemma process_line_from_spec:
  assumes b: "built is ix w offs occs" and len: "length line < 2 ^ 32" and pos: "pos \<le> length line"
    and cnt: "length (words_of occs) + (length line - pos) < 2 ^ 32"
  shows "wp (process_line_from ix line (of_nat k) pos w)
    (build_step is ix w offs (occs @ map (\<lambda>(s, x). (lower x, k, s)) (word_spans pos (drop pos line))))"
  using b pos cnt
proof (induction "length line - pos" arbitrary: ix w occs pos rule: less_induct)
  case less
  let ?start = "skip_seps line pos"
  let ?e = "word_end line ?start"
  let ?data = "take (?e - ?start) (drop ?start line)"
  note ts = tokenize_step [OF less.prems(2) refl refl]
  show ?case
  proof (cases "?start \<ge> length line")
    case True
    then show ?thesis using less.prems(1) ts(1)
      by (subst process_line_from.simps) (auto simp: build_step_def same_fds_def Let_def word_spans.simps [of _ "[]"])
  next
    case False
    then have se: "?start < ?e" "?e \<le> length line" "pos \<le> ?start" using ts by auto
    have d: "length ?data < 2 ^ 32" "length ?data = ?e - ?start" using len se by auto
    have w: "length (lx_entries (ix_lexicon ix)) + 1 < 2 ^ 32" "lex_ok (ix_lexicon ix)"
      using less.prems(1,3) False se by (auto simp: built_def lex_words_def dest: arg_cong [of _ _ length])
    have "wp (lexicon_find_or_add (ix_lexicon ix) ?data w) (added (ix_lexicon ix) ?data w)"
      by (rule lexicon_find_or_add_spec [OF w(2) d(1) w(1)])
    then obtain r word_id bucket lx w1 where
      fa: "lexicon_find_or_add (ix_lexicon ix) ?data w = Some (r, word_id, bucket, lx, w1)" and
      a: "added (ix_lexicon ix) ?data w (r, word_id, bucket, lx, w1)" by (auto simp: wp_iff)
    show ?thesis
    proof (cases "r < 0")
      case True
      moreover have "pos < length line" using False se by linarith
      ultimately show ?thesis using fa a False
        by (subst process_line_from.simps) (simp add: Let_def added_def build_step_def)
    next
      case r0: False
      obtain r2 out w2 where o: "outbuf_write_data (ix_occ_out ix ! unat bucket)
          (enc_occ \<lparr>oc_word = word_id, oc_line = of_nat k, oc_start = of_nat ?start\<rparr>) w1 = (r2, out, w2)"
        using prod_cases3 by blast
      let ?ix = "ix\<lparr>ix_lexicon := lx, ix_occ_out := (ix_occ_out ix)[unat bucket := out]\<rparr>"
      let ?occs = "occs @ [(lower ?data, k, ?start)]"
      have st: "build_step is ix w offs ?occs (r2, ?ix, w2)" and ub: "unat bucket < length (ix_occ_out ix)"
        using emit_record [OF less.prems(1) a _ o] r0 by auto
      have unf: "process_line_from ix line (of_nat k) pos w
          = (if r2 < 0 then Some (-1, ?ix, w2) else process_line_from ?ix line (of_nat k) ?e w2)"
        using fa r0 o ub False se by (subst process_line_from.simps) (simp add: Let_def)
      show ?thesis
      proof (cases "r2 < 0")
        case True
        then show ?thesis using st unfolding unf by (simp add: build_step_def)
      next
        case False
        then have b2: "built is ?ix w2 offs ?occs" "frame (outs_scope is (map ob_fd (ix_outs ix))) w w2"
          "same_fds ix ?ix" using st by (auto simp: build_step_def)
        have "length (words_of ?occs) \<le> Suc (length (words_of occs))"
          by (simp add: words_of_snoc add_word_def)
        then have c2: "length (words_of ?occs) + (length line - ?e) < 2 ^ 32"
          using less.prems(3) se by linarith
        have "wp (process_line_from ?ix line (of_nat k) ?e w2) (build_step is ?ix w2 offs
            (?occs @ map (\<lambda>(s, x). (lower x, k, s)) (word_spans ?e (drop ?e line))))"
          by (rule less.hyps [OF _ b2(1) se(2) c2]) (use se in linarith)
        moreover have "?occs @ map (\<lambda>(s, x). (lower x, k, s)) (word_spans ?e (drop ?e line))
            = occs @ map (\<lambda>(s, x). (lower x, k, s)) (word_spans pos (drop pos line))"
          using ts(1) se by simp
        ultimately show ?thesis
          using build_step_trans [OF _ b2(2,3)] False unfolding unf by (auto elim!: wp_mono)
      qed
    qed
  qed
qed

lemma process_line_spec:
  assumes "built is ix w offs occs" and "length line < 2 ^ 32"
    and "length (words_of occs) + length line < 2 ^ 32"
  shows "wp (process_line ix line (of_nat k) w) (build_step is ix w offs (occs @ line_occs k line))"
  using process_line_from_spec [OF assms(1,2), of 0 k] assms(3) by (simp add: process_line_def line_occs_def)

section \<open>The whole input\<close>

text \<open>The lines of a file, and the offset at which each of them ends, its newline included.\<close>

function lines_of :: "byte list \<Rightarrow> byte list list" where
  "lines_of s = (if s = [] then []
     else takeWhile not_nl s # lines_of (drop 1 (dropWhile not_nl s)))"
  by pat_completeness auto
termination
proof (relation "measure length", goal_cases)
  case (2 s)
  have "length (dropWhile not_nl s) \<le> length s" by (rule length_dropWhile_le)
  moreover have "0 < length s" using 2 by simp
  ultimately have "length (dropWhile not_nl s) - 1 < length s" by linarith
  then show ?case by simp
qed simp
declare lines_of.simps [simp del]

definition line_size :: "byte list \<Rightarrow> nat" where
  "line_size s = length (takeWhile not_nl s) + (if NEWLINE \<in> set s then 1 else 0)"

lemma line_size_rest:
  "drop 1 (dropWhile not_nl s) = drop (line_size s) s" "line_size s \<le> length s" "s \<noteq> [] \<Longrightarrow> 0 < line_size s"
proof -
  have "drop 1 (dropWhile not_nl s) = drop (line_size s) s \<and> line_size s \<le> length s \<and> (s \<noteq> [] \<longrightarrow> 0 < line_size s)"
    by (induction s) (auto simp: line_size_def not_nl_def)
  then show "drop 1 (dropWhile not_nl s) = drop (line_size s) s" "line_size s \<le> length s" "s \<noteq> [] \<Longrightarrow> 0 < line_size s"
    by simp_all
qed

function line_ends :: "nat \<Rightarrow> byte list \<Rightarrow> nat list" where
  "line_ends off s = (if s = [] then []
     else (off + line_size s) # line_ends (off + line_size s) (drop (line_size s) s))"
  by pat_completeness auto
termination
proof (relation "measure (\<lambda>(off, s). length s)", goal_cases)
  case (2 off s)
  have "0 < length s" "0 < line_size s" using 2 line_size_rest(3) by simp_all
  then have "length s - line_size s < length s" by linarith
  then show ?case by simp
qed simp
declare line_ends.simps [simp del]

definition line_offsets :: "byte list \<Rightarrow> nat list" where
  "line_offsets s = 0 # line_ends 0 s"

lemma lr_rest_frame:
  assumes "frame s w w'" and "wfw w" and "fd_of w (lr_fd rd) = Some f" and "lr_fd rd \<in> sc_fds s - sc_move s"
    and "o_ino f \<notin> sc_write s"
  shows "lr_rest rd w' = lr_rest rd w" and "lr_ok rd w' = lr_ok rd w"
proof -
  have "fd_of w' (lr_fd rd) = fd_of w (lr_fd rd)" using frame_fd [OF assms(1)] assms(4) by blast
  moreover have "w_data w' (o_ino f) = w_data w (o_ino f)"
    using frame_data [OF assms(1)] assms(2,3,5) by (auto simp: wfw_def)
  ultimately show "lr_rest rd w' = lr_rest rd w" "lr_ok rd w' = lr_ok rd w"
    using assms(3) by (simp_all add: lr_rest_def fd_rest_def lr_ok_def)
qed

definition build_scope :: "nat list \<Rightarrow> index \<Rightarrow> scope" where
  "build_scope is ix = \<lparr>sc_names = UNIV, sc_fds = UNIV,
     sc_move = insert (ix_input_fd ix) (set (map ob_fd (ix_outs ix))), sc_write = set is\<rparr>"

lemma build_scope_simps [simp]:
  "sc_names (build_scope is ix) = UNIV" "sc_fds (build_scope is ix) = UNIV" "sc_write (build_scope is ix) = set is"
  "sc_move (build_scope is ix) = insert (ix_input_fd ix) (set (map ob_fd (ix_outs ix)))"
  by (simp_all add: build_scope_def)

lemma outs_build_frame: "frame (outs_scope is (map ob_fd (ix_outs ix))) w w' \<Longrightarrow> frame (build_scope is ix) w w'"
  by (erule frame_weaken) auto

lemma rd_build_frame: "frame (rd_scope (ix_input_fd ix)) w w' \<Longrightarrow> frame (build_scope is ix) w w'"
  by (erule frame_weaken) auto

text \<open>The reader of the input reads a file that is none of the files being written.\<close>

definition reading :: "nat list \<Rightarrow> index \<Rightarrow> line_reader \<Rightarrow> world \<Rightarrow> byte list \<Rightarrow> bool" where
  "reading is ix rd w s \<longleftrightarrow> lr_fd rd = ix_input_fd ix \<and> lr_ok rd w \<and> lr_rest rd w = s
     \<and> ix_input_fd ix \<notin> set (map ob_fd (ix_outs ix))
     \<and> (\<exists>f. fd_of w (ix_input_fd ix) = Some f \<and> o_ino f \<notin> set is)"

lemma reading_outs:
  assumes r: "reading is ix rd w s" and f: "frame (outs_scope is (map ob_fd (ix_outs ix))) w w'"
    and sm: "same_fds ix ix'" and wf: "wfw w"
  shows "reading is ix' rd w' s"
proof -
  obtain f where ff: "fd_of w (ix_input_fd ix) = Some f" "o_ino f \<notin> set is"
    using r by (auto simp: reading_def)
  have nm: "ix_input_fd ix \<notin> set (map ob_fd (ix_outs ix))" using r by (simp add: reading_def)
  have "fd_of w' (ix_input_fd ix) = Some f" using frame_fd [OF f] nm ff by simp
  then show ?thesis
    using lr_rest_frame [OF f wf, of rd f] r sm ff nm by (simp add: reading_def same_fds_def)
qed

lemma read_build_line:
  assumes st: "line_step rd [] w (r, rd', buf, nl, w1)" and rd: "reading is ix rd w s"
    and b: "built is ix w offs occs"
  shows "r < 0 \<and> \<not> clean w \<or> r = (if s = [] then 0 else 1) \<and> frame (build_scope is ix) w w1 \<and> built is ix w1 offs occs
     \<and> vec_ok buf \<and> v_items buf = takeWhile not_nl s \<and> nl = (NEWLINE \<in> set s)
     \<and> reading is ix rd' w1 (drop (line_size s) s)"
proof -
  have fr: "frame (rd_scope (ix_input_fd ix)) w w1" and d: "w_data w1 = w_data w" "lr_fd rd' = ix_input_fd ix" "vec_ok buf"
    and alt: "r = -1 \<and> \<not> clean w \<or> lr_ok rd' w1 \<and> v_items buf = takeWhile not_nl s \<and> nl = (NEWLINE \<in> set s)
      \<and> lr_rest rd' w1 = drop 1 (dropWhile not_nl s) \<and> r = (if nl \<or> v_items buf \<noteq> [] then 1 else 0)"
    using st rd by (auto simp: line_step_def reading_def)
  have wf: "wfw w" using b by (simp add: built_def)
  have "built is ix w1 offs occs"
    using sinks_frame [OF _ fr wf, of "is" "ix_outs ix"] frame_wfw [OF fr wf] b rd
    by (auto simp: built_def reading_def)
  moreover obtain f where "fd_of w (ix_input_fd ix) = Some f" "o_ino f \<notin> set is"
    using rd by (auto simp: reading_def)
  then have "\<exists>f. fd_of w1 (ix_input_fd ix) = Some f \<and> o_ino f \<notin> set is"
    using frame_handle [OF fr, of "ix_input_fd ix" f] by (metis UNIV_I scope_simps(6))
  moreover have "(NEWLINE \<in> set s \<or> takeWhile not_nl s \<noteq> []) = (s \<noteq> [])"
    by (cases s) (auto simp: not_nl_def)
  ultimately show ?thesis
    using alt [unfolded line_size_rest(1)] d fr rd rd_build_frame [OF fr] by (auto simp: reading_def)
qed

definition built_all :: "nat list \<Rightarrow> index \<Rightarrow> world \<Rightarrow> nat \<Rightarrow> nat list \<Rightarrow> occ list \<Rightarrow> int \<times> index \<times> world \<Rightarrow> bool" where
  "built_all is ix w n offs occs = (\<lambda>(r, ix', w').
     r = 0 \<and> frame (build_scope is ix) w w' \<and> same_fds ix ix' \<and> ix_line_count ix' = of_nat n \<and> built is ix' w' offs occs
   \<or> r < 0 \<and> \<not> clean w)"

lemma emit_offset:
  assumes b: "built is ix w offs occs" and o: "outbuf_write_data (ix_line_out ix) (enc_u64 v) w = (r, out, w1)"
  shows "build_step is ix w (offs @ [unat v]) occs (r, ix\<lparr>ix_line_out := out\<rparr>, w1)"
proof -
  have s: "sinks is (ix_outs ix) w (ix_data offs occs)" and wf: "wfw w" using b by (simp_all add: built_def)
  have z: "0 < length (ix_outs ix)" by (simp add: ix_outs_def)
  have "sink_ok (is ! 0) (ix_outs ix ! 0) w" using s z by (simp add: sinks_def)
  then have e: "emits (is ! 0) (ix_outs ix ! 0) w (enc_u64 v) (r, out, w1)"
    using outbuf_write_data_emits o by (metis ix_outs_def nth_Cons_0)
  have u: "ix_outs (ix\<lparr>ix_line_out := out\<rparr>) = (ix_outs ix)[0 := out]" by (simp add: ix_outs_def)
  have dt: "ix_data (offs @ [unat v]) occs = (ix_data offs occs)[0 := ix_data offs occs ! 0 @ enc_u64 v]"
    by (simp add: ix_data_def enc_u64_def)
  show ?thesis
  proof (cases "0 \<le> r")
    case True
    note n = sinks_emit [OF s wf z e True]
    have "r = 0" using e True by (auto simp: emits_def)
    then show ?thesis using n b frame_wfw [OF n(3) wf] u
      by (simp add: build_step_def same_fds_def built_def dt)
  next
    case False
    then show ?thesis using e by (auto simp: build_step_def emits_def)
  qed
qed

lemma built_all_step:
  assumes "built_all is ix1 w1 n offs occs res" and "frame (build_scope is ix) w w1"
    and "same_fds ix ix1"
  shows "built_all is ix w n offs occs res"
proof -
  have "build_scope is ix1 = build_scope is ix" using assms(3) by (simp add: build_scope_def same_fds_def)
  then show ?thesis
    using assms frame_trans [OF assms(2)] same_fds_trans [OF assms(3)] frame_clean [OF assms(2)]
    by (auto simp: built_all_def split: prod.splits)
qed

lemma index_build_loop_spec:
  assumes "built is ix w offs occs" and "reading is ix rd w s" and "vec_ok buf"
    and "ix_line_count ix = of_nat k" and "off + length s < 2 ^ 32" and "length (words_of occs) \<le> off"
  shows "wp (index_build_loop ix rd buf (of_nat off) w) (built_all is ix w (k + length (lines_of s))
     (offs @ line_ends off s) (occs @ occs_from (Suc k) (lines_of s)))"
  using assms
proof (induction "length s" arbitrary: ix w offs occs rd s buf k off rule: less_induct)
  case less
  have lr: "lr_ok rd w" "lr_rest rd w = s" using less.prems(2) by (simp_all add: reading_def)
  have "length (lr_rest rd w) \<le> SIZE_MAX div 2" using less.prems(5) lr by (simp add: SIZE_MAX_def)
  from line_reader_read_line_spec [OF lr(1) less.prems(3) this]
  obtain r rd1 buf1 nl w1 where rl: "line_reader_read_line rd buf w = Some (r, rd1, buf1, nl, w1)"
    and st: "line_step rd [] w (r, rd1, buf1, nl, w1)" by (auto simp: wp_iff)
  note rb = read_build_line [OF st less.prems(2,1)]
  show ?case
  proof (cases "r \<le> 0")
    case True
    have "built_all is ix w (k + length (lines_of s)) (offs @ line_ends off s) (occs @ occs_from (Suc k) (lines_of s))
      (r, ix, w1)"
    proof (cases "r < 0")
      case True
      then have "\<not> clean w" using rb by (auto split: if_splits)
      then show ?thesis using True by (simp add: built_all_def)
    next
      case False
      then have "r = 0" using \<open>r \<le> 0\<close> by simp
      then have "s = []" "frame (build_scope is ix) w w1" "built is ix w1 offs occs" using rb by (auto split: if_splits)
      then show ?thesis using \<open>r = 0\<close> less.prems(4)
        by (simp add: built_all_def same_fds_def lines_of.simps [of "[]"] line_ends.simps [of off "[]"])
    qed
    then show ?thesis using True by (subst index_build_loop.simps) (simp add: rl)
  next
    case False
    then have s: "s \<noteq> []" and f1: "frame (build_scope is ix) w w1" and b1: "built is ix w1 offs occs"
      and buf1: "vec_ok buf1" "v_items buf1 = takeWhile not_nl s" and nl: "nl = (NEWLINE \<in> set s)"
      and rd1: "reading is ix rd1 w1 (drop (line_size s) s)" using rb by (auto split: if_splits)
    let ?l = "takeWhile not_nl s" and ?rest = "drop (line_size s) s"
    let ?ix = "ix\<lparr>ix_line_count := ix_line_count ix + 1\<rparr>"
    have sz: "length ?l \<le> line_size s" "line_size s \<le> length s" "0 < line_size s" "length ?l \<le> length s"
      using line_size_rest [of s] s length_takeWhile_le [of not_nl s] by (simp_all add: line_size_def)
    have fds: "same_fds ix ?ix" "ix_outs ?ix = ix_outs ix" by (simp_all add: same_fds_def ix_outs_def)
    have b1': "built is ?ix w1 offs occs" using b1 fds by (simp add: built_def)
    have cnt: "ix_line_count ?ix = of_nat (Suc k)" using less.prems(4) by simp
    have "wp (process_line ?ix ?l (of_nat (Suc k)) w1) (build_step is ?ix w1 offs (occs @ line_occs (Suc k) ?l))"
      by (rule process_line_spec [OF b1']) (use less.prems(5,6) sz in linarith)+
    then obtain r2 ix2 w2 where pl: "process_line ?ix ?l (of_nat (Suc k)) w1 = Some (r2, ix2, w2)"
      and s2: "build_step is ?ix w1 offs (occs @ line_occs (Suc k) ?l) (r2, ix2, w2)" by (auto simp: wp_iff)
    obtain r3 out w3 where o: "outbuf_write_data (ix_line_out ix2) (enc_u64 (of_nat (off + line_size s))) w2 = (r3, out, w3)"
      using prod_cases3 by blast
    let ?ix3 = "ix2\<lparr>ix_line_out := out\<rparr>"
    have offs: "(of_nat off + (of_nat (length ?l) + (if nl then 1 else 0)) :: u64) = of_nat (off + line_size s)"
      using nl by (simp add: line_size_def)
    have unf: "index_build_loop ix rd buf (of_nat off) w = (if r2 < 0 then Some (-2, ix2, w2)
        else if r3 < 0 then Some (-2, ?ix3, w3) else index_build_loop ?ix3 rd1 buf1 (of_nat (off + line_size s)) w3)"
      unfolding index_build_loop.simps [of ix rd buf "of_nat off"] rl bind.bind_lunit prod.case if_not_P [OF False]
        Let_def buf1(2) offs cnt pl o by (simp only: prod.case bind.bind_lunit o split: if_split)
    have fw: "built_all is ix w n os cs (-2, ix', w')" if "\<not> clean w1" for n os cs ix' w'
      using that frame_clean [OF f1] by (auto simp: built_all_def)
    show ?thesis
    proof (cases "r2 < 0")
      case True
      then have "\<not> clean w1" using s2 by (auto simp: build_step_def)
      then show ?thesis unfolding unf using True fw by simp
    next
      case r2: False
      then have f2: "frame (outs_scope is (map ob_fd (ix_outs ix))) w1 w2" and m2: "same_fds ?ix ix2"
        and c2: "ix_line_count ix2 = of_nat (Suc k)" and b2: "built is ix2 w2 offs (occs @ line_occs (Suc k) ?l)"
        using s2 fds cnt by (auto simp: build_step_def)
      have m2': "same_fds ix ix2" using same_fds_trans [OF fds(1) m2] .
      have "unat (of_nat (off + line_size s) :: u64) = off + line_size s"
        using less.prems(5) sz by (intro unat_u64) simp
      then have s3: "build_step is ix2 w2 (offs @ [off + line_size s]) (occs @ line_occs (Suc k) ?l) (r3, ?ix3, w3)"
        using emit_offset [OF b2 o] by simp
      have wf1: "wfw w1" "wfw w2" using b1 b2 by (simp_all add: built_def)
      show ?thesis
      proof (cases "r3 < 0")
        case True
        then have "\<not> clean w2" using s3 by (auto simp: build_step_def)
        then have "\<not> clean w1" using frame_clean [OF f2] by blast
        then show ?thesis unfolding unf using True r2 fw by simp
      next
        case False
        then have f3: "frame (outs_scope is (map ob_fd (ix_outs ix2))) w2 w3" and m3: "same_fds ix2 ?ix3"
          and c3: "ix_line_count ?ix3 = of_nat (Suc k)"
          and b3: "built is ?ix3 w3 (offs @ [off + line_size s]) (occs @ line_occs (Suc k) ?l)"
          using s3 c2 by (auto simp: build_step_def)
        have f3': "frame (outs_scope is (map ob_fd (ix_outs ix))) w2 w3"
          using f3 m2' by (simp add: same_fds_def)
        have f123: "frame (build_scope is ix) w w3"
          using frame_trans [OF f1 outs_build_frame [OF frame_trans [OF f2 f3']]] .
        have m3': "same_fds ix ?ix3" using same_fds_trans [OF m2' m3] .
        have rd3: "reading is ?ix3 rd1 w3 ?rest"
          using reading_outs [OF rd1 frame_trans [OF f2 f3'] m3' wf1(1)] .
        have "length (words_of (occs @ line_occs (Suc k) ?l)) \<le> length (words_of occs) + length ?l"
          using words_of_append_le [of occs "line_occs (Suc k) ?l"] length_line_occs [of "Suc k" ?l] by linarith
        then have w3: "length (words_of (occs @ line_occs (Suc k) ?l)) \<le> off + line_size s"
          using less.prems(6) sz by linarith
        have "wp (index_build_loop ?ix3 rd1 buf1 (of_nat (off + line_size s)) w3)
          (built_all is ?ix3 w3 (Suc k + length (lines_of ?rest)) ((offs @ [off + line_size s]) @ line_ends (off + line_size s) ?rest)
            ((occs @ line_occs (Suc k) ?l) @ occs_from (Suc (Suc k)) (lines_of ?rest)))"
          by (rule less.hyps [OF _ b3 rd3 buf1(1) c3 _ w3]) (use sz less.prems(5) in simp_all)
        moreover have "lines_of s = ?l # lines_of ?rest"
          using s line_size_rest(1) [of s] by (subst lines_of.simps) simp
        moreover have "line_ends off s = (off + line_size s) # line_ends (off + line_size s) ?rest"
          using s by (subst line_ends.simps) simp
        ultimately show ?thesis
          unfolding unf using r2 False built_all_step [OF _ f123 m3'] by (auto elim!: wp_mono)
      qed
    qed
  qed
qed

section \<open>Flushing\<close>

lemma flush_outs_spec:
  assumes "flush_outs outs w = (r, outs', w')" and "sinks is (pre @ outs) w ds" and "wfw w"
  shows "r = 0 \<and> sinks is (pre @ outs') w' ds \<and> frame (outs_scope is (map ob_fd (pre @ outs))) w w'
       \<and> map ob_fd outs' = map ob_fd outs \<and> (\<forall>out\<in>set outs'. ob_buf out = []) \<or> r < 0 \<and> \<not> clean w"
  using assms
proof (induction outs arbitrary: pre w r outs' w')
  case Nil
  then show ?case by simp
next
  case (Cons out outs)
  let ?k = "length pre"
  obtain r1 out1 w1 where f: "outbuf_flush out w = (r1, out1, w1)" using prod_cases3 by blast
  have k: "?k < length (pre @ out # outs)" by simp
  have nth: "(pre @ out # outs) ! ?k = out" by (simp add: nth_append)
  have "sink_ok (is ! ?k) out w" using Cons.prems(2) k nth by (metis sinks_def)
  note e = outbuf_flush_emits [OF f this]
  show ?case
  proof (cases "r1 < 0")
    case True
    then have "\<not> clean w" using e(1) by (auto simp: emits_def)
    then show ?thesis using Cons.prems(1) f True by auto
  next
    case False
    have e': "emits (is ! ?k) ((pre @ out # outs) ! ?k) w [] (r1, out1, w1)" using e(1) nth by simp
    note n = sinks_emit [OF Cons.prems(2,3) k e']
    have upd: "(pre @ out # outs)[?k := out1] = (pre @ [out1]) @ outs" by simp
    have s1: "sinks is ((pre @ [out1]) @ outs) w1 ds" using n(1) False unfolding upd by simp
    have fr1: "frame (outs_scope is (map ob_fd (pre @ out # outs))) w w1" using n(3) False by simp
    have fd1: "ob_fd out1 = ob_fd out" using e(1) by (simp add: emits_def)
    obtain r2 outs2 w2 where f2: "flush_outs outs w1 = (r2, outs2, w2)" using prod_cases3 by blast
    have res: "r = r2" "outs' = out1 # outs2" "w' = w2" using Cons.prems(1) f f2 False by auto
    have b: "ob_buf out1 = []" using e False by (auto simp: emits_def)
    show ?thesis
      using Cons.IH [OF f2 s1 frame_wfw [OF fr1 Cons.prems(3)]] frame_trans [OF fr1] frame_clean [OF fr1] fd1 b
      by (auto simp: res)
  qed
qed

definition index_finished :: "index \<Rightarrow> bool" where
  "index_finished ix \<longleftrightarrow> (\<forall>out\<in>set (ix_outs ix). ob_buf out = [])"

lemma index_build_spec:
  assumes b: "built is ix w [0] []" and rd: "reading is ix (line_reader_init (ix_input_fd ix)) w T"
    and len: "length T < 2 ^ 32" and z: "ix_line_count ix = 0"
  shows "wp (index_build ix w) (\<lambda>res. built_all is ix w (length (lines_of T)) (line_offsets T)
     (occs_from 1 (lines_of T)) res \<and> (fst res = 0 \<longrightarrow> index_finished (fst (snd res))))"
proof -
  let ?offs = "line_offsets T" and ?occs = "occs_from 1 (lines_of T)"
  have "wp (index_build_loop ix (line_reader_init (ix_input_fd ix)) empty_vec (of_nat 0) w)
      (built_all is ix w (0 + length (lines_of T)) ([0] @ line_ends 0 T) ([] @ occs_from (Suc 0) (lines_of T)))"
    by (rule index_build_loop_spec [OF b rd]) (use len z in \<open>simp_all add: vec_ok_def empty_vec_def words_of_def\<close>)
  then obtain r ix1 w1 where l: "index_build_loop ix (line_reader_init (ix_input_fd ix)) empty_vec 0 w = Some (r, ix1, w1)"
    and a: "built_all is ix w (length (lines_of T)) ?offs ?occs (r, ix1, w1)"
    by (auto simp: wp_iff line_offsets_def)
  show ?thesis
  proof (cases "r < 0")
    case True
    then show ?thesis using a by (simp add: index_build_def l built_all_def)
  next
    case r0: False
    then have f1: "frame (build_scope is ix) w w1" and m1: "same_fds ix ix1" and b1: "built is ix1 w1 ?offs ?occs"
      and c1: "ix_line_count ix1 = of_nat (length (lines_of T))" using a by (auto simp: built_all_def)
    obtain r2 out w2 where f: "outbuf_flush (ix_line_out ix1) w1 = (r2, out, w2)" using prod_cases3 by blast
    obtain r3 outs w3 where g: "flush_outs (ix_occ_out ix1) w2 = (r3, outs, w3)" using prod_cases3 by blast
    have fl: "flush_outs (ix_outs ix1) w1 = (if r2 < 0 then (-1, out # ix_occ_out ix1, w2) else (r3, out # outs, w3))"
      by (simp add: ix_outs_def f g)
    have res: "index_build ix w = Some (if r2 < 0 then (-1, ix1\<lparr>ix_line_out := out\<rparr>, w2)
        else (if r3 < 0 then -1 else 0, ix1\<lparr>ix_line_out := out, ix_occ_out := outs\<rparr>, w3))"
      using r0 by (simp add: index_build_def l f g Let_def)
    obtain r4 outs4 w4 where fl4: "flush_outs (ix_outs ix1) w1 = (r4, outs4, w4)" using prod_cases3 by blast
    have sp: "r4 = 0 \<and> sinks is outs4 w4 (ix_data ?offs ?occs) \<and> frame (outs_scope is (map ob_fd (ix_outs ix1))) w1 w4
       \<and> map ob_fd outs4 = map ob_fd (ix_outs ix1) \<and> (\<forall>out\<in>set outs4. ob_buf out = []) \<or> r4 < 0 \<and> \<not> clean w1"
      using flush_outs_spec [OF fl4, of "is" "[]"] b1 by (simp add: built_def)
    show ?thesis
    proof (cases "r4 < 0")
      case True
      then have "\<not> clean w" using sp frame_clean [OF f1] by auto
      then show ?thesis using True fl fl4 by (auto simp: res built_all_def split: if_splits)
    next
      case False
      let ?ix = "ix1\<lparr>ix_line_out := out, ix_occ_out := outs\<rparr>"
      have e: "\<not> r2 < 0" "r3 = 0" "outs4 = ix_outs ?ix" "w4 = w3" "r4 = 0"
        using False fl fl4 sp by (auto simp: ix_outs_def split: if_splits)
      have s3: "sinks is (ix_outs ?ix) w3 (ix_data ?offs ?occs)"
        and f3: "frame (outs_scope is (map ob_fd (ix_outs ix))) w1 w3"
        and fds: "map ob_fd (ix_outs ?ix) = map ob_fd (ix_outs ix1)" and fin: "index_finished ?ix"
        using sp False e m1 by (auto simp: same_fds_def index_finished_def)
      have "length outs = length (ix_occ_out ix1)" using arg_cong [OF fds, of length] by (simp add: ix_outs_def)
      then have "built is ?ix w3 ?offs ?occs"
        using b1 s3 frame_wfw [OF f3] by (simp add: built_def)
      moreover have "same_fds ix ?ix" using m1 fds by (simp add: same_fds_def)
      moreover have "frame (build_scope is ix) w w3" using frame_trans [OF f1 outs_build_frame [OF f3]] .
      ultimately show ?thesis using e c1 fin by (simp add: res built_all_def)
    qed
  qed
qed

section \<open>Opening an index\<close>

text \<open>What an index owns: its files and descriptors are new, nothing else has been touched.\<close>

definition ix_fds :: "index \<Rightarrow> int list" where
  "ix_fds ix = ix_line_fd ix # ix_occ_fds ix"

definition regular_fd :: "world \<Rightarrow> int \<Rightarrow> bool" where
  "regular_fd w fd \<longleftrightarrow> (\<exists>f. fd_of w fd = Some f \<and> o_kind f = Regular)"

lemma regular_frame: "frame s w w' \<Longrightarrow> fd \<in> sc_fds s \<Longrightarrow> regular_fd w fd \<Longrightarrow> regular_fd w' fd"
  unfolding regular_fd_def by (metis frame_handle)

definition owns :: "nat list \<Rightarrow> index \<Rightarrow> int set \<Rightarrow> world \<Rightarrow> world \<Rightarrow> bool" where
  "owns is ix mv w0 w \<longleftrightarrow> frame (open_scope w0 mv {}) w0 w \<and> w_names w = w_names w0 \<and> (\<forall>i\<in>set is. w_nino w0 \<le> i)
     \<and> map ob_fd (ix_outs ix) = ix_fds ix \<and> (\<forall>fd\<in>set (ix_fds ix). 0 \<le> fd \<and> fd_of w0 fd = None)
     \<and> (\<forall>fd\<in>set (ix_fds ix). regular_fd w fd)
     \<and> (\<forall>fd. fd_of w fd \<noteq> None \<longrightarrow> fd_of w0 fd \<noteq> None \<or> fd \<in> set (ix_fds ix))"

lemma same_fds_ix_fds: "same_fds ix ix' \<Longrightarrow> ix_fds ix' = ix_fds ix"
  by (simp add: same_fds_def ix_fds_def)

lemma owns_step:
  assumes o: "owns is ix mv w0 w" and f: "frame s w w'" and m: "same_fds ix ix'"
    and s: "sc_names s = UNIV" "sc_fds s = UNIV" "sc_move s \<subseteq> mv \<union> set (ix_fds ix)" "sc_write s \<subseteq> set is"
  shows "owns is ix' mv w0 w'"
proof -
  have fr: "frame (open_scope w (mv \<union> set (ix_fds ix)) (set is)) w w'"
    by (rule frame_open [OF f]) (use s in auto)
  have "frame (open_scope w0 mv {}) w0 w" using o by (simp add: owns_def)
  then have fr0: "frame (open_scope w0 mv {}) w0 w'"
  proof (rule open_frame_trans [OF _ fr])
    show "fd \<in> mv" if "fd \<in> mv \<union> set (ix_fds ix)" "fd_of w0 fd \<noteq> None" for fd
      using that o by (auto simp: owns_def simp del: set_map)
    show "i \<in> {}" if "i \<in> set is" "i < w_nino w0" for i
      using that o by (auto simp: owns_def not_le [symmetric])
  qed
  have nm: "w_names w' = w_names w" using frame_names [OF f] s(1) by auto
  have cl: "fd_of w fd \<noteq> None" if "fd_of w' fd \<noteq> None" for fd
    using that frame_handles [OF f, of fd] s(2) by (metis UNIV_I map_option_is_None)
  have "\<forall>fd. fd_of w' fd \<noteq> None \<longrightarrow> fd_of w0 fd \<noteq> None \<or> fd \<in> set (ix_fds ix)"
    using o cl by (simp add: owns_def)
  moreover have "\<forall>fd\<in>set (ix_fds ix). regular_fd w' fd"
    using o regular_frame [OF f] s(2) by (simp add: owns_def)
  ultimately show ?thesis using o m fr0 nm same_fds_ix_fds [OF m] by (simp add: owns_def same_fds_def)
qed

definition init_inv :: "nat list \<Rightarrow> index \<Rightarrow> world \<Rightarrow> world \<Rightarrow> bool" where
  "init_inv is ix w0 w \<longleftrightarrow> wfw w \<and> owns is ix {} w0 w
     \<and> sinks is (ix_outs ix) w (replicate (length (ix_outs ix)) [])"

lemma fresh_sink:
  assumes "fresh_file w fd w'"
  shows "\<exists>i. w_nino w \<le> i \<and> sink_ok i (outbuf_init fd) w' \<and> sink (outbuf_init fd) w' = []"
  using assms by (auto simp: fresh_file_def sink_ok_def appendable_def sink_def content_def outbuf_init_def)

lemma sinks_add:
  assumes s: "sinks is outs w ds" and f: "frame (open_scope w {} {}) w w'" and wf: "wfw w"
    and i: "w_nino w \<le> i" and k: "sink_ok i out w'" "sink out w' = d" and new: "fd_of w (ob_fd out) = None"
  shows "sinks (is @ [i]) (outs @ [out]) w' (ds @ [d])"
proof -
  have ok: "\<exists>f. fd_of w (ob_fd (outs ! k)) = Some f \<and> o_ino f = is ! k" if "k < length outs" for k
    using s that by (fastforce simp: sinks_def sink_ok_def appendable_def)
  have "set (map ob_fd outs) \<subseteq> {fd. fd_of w fd \<noteq> None}"
    using ok by (fastforce simp: in_set_conv_nth)
  moreover have old: "j < w_nino w" if "j \<in> set is" for j
    using that ok s wf by (fastforce simp: in_set_conv_nth sinks_def wfw_def)
  then have "set is \<inter> {i. w_nino w \<le> i} = {}" by (auto simp: not_le [symmetric])
  ultimately have s': "sinks is outs w' ds" and nf: "ob_fd out \<notin> set (map ob_fd outs)"
    using sinks_frame [OF s f wf] new by auto
  have "i \<notin> set is" using i old by fastforce
  then show ?thesis using s' nf k by (auto simp: sinks_def nth_append less_Suc_eq)
qed

lemma init_buckets_spec:
  assumes "init_buckets n ix w = (r, ix', w')" and "init_inv is ix w0 w"
  shows "r = 0 \<and> (\<exists>is'. init_inv is' ix' w0 w') \<and> length (ix_occ_out ix') = length (ix_occ_out ix) + n
       \<and> ix_lexicon ix' = ix_lexicon ix \<and> ix_input_fd ix' = ix_input_fd ix \<and> ix_line_count ix' = ix_line_count ix
     \<or> r < 0 \<and> \<not> clean w"
  using assms
proof (induction n arbitrary: ix w "is")
  case 0
  then show ?case by auto
next
  case (Suc n)
  obtain fd w1 where c: "create_temp_file (bytes_of ''occ'') w = (fd, w1)" by force
  have o: "wfw w" "owns is ix {} w0 w" "sinks is (ix_outs ix) w (replicate (length (ix_outs ix)) [])"
    using Suc.prems(2) by (simp_all add: init_inv_def)
  have sp: "frame (open_scope w {} {}) w w1" "fd = -1 \<and> \<not> clean w \<or> fresh_file w fd w1 \<and> w_names w1 = w_names w"
    using create_temp_file_spec [OF c covers_open o(1), of "{}" "{}"] by simp_all
  show ?case
  proof (cases "fd < 0")
    case True
    then have "\<not> clean w" using sp(2) by (auto simp: fresh_file_def)
    then show ?thesis using Suc.prems(1) True c by (auto simp: Let_def split: prod.splits)
  next
    case False
    let ?ix = "ix\<lparr>ix_occ_fds := ix_occ_fds ix @ [fd], ix_occ_out := ix_occ_out ix @ [outbuf_init fd]\<rparr>"
    have ff: "fresh_file w fd w1" and nm: "w_names w1 = w_names w" using sp(2) False by auto
    obtain i where i: "w_nino w \<le> i" "sink_ok i (outbuf_init fd) w1" "sink (outbuf_init fd) w1 = []"
      using fresh_sink [OF ff] by blast
    have nf: "fd_of w fd = None" "0 \<le> fd"
      and op: "\<And>x. fd_of w1 x \<noteq> None \<Longrightarrow> x = fd \<or> fd_of w x \<noteq> None" using ff by (auto simp: fresh_file_def split: if_splits)
    have outs: "ix_outs ?ix = ix_outs ix @ [outbuf_init fd]" by (simp add: ix_outs_def)
    have reg1: "regular_fd w1 fd" using ff by (auto simp: fresh_file_def regular_fd_def)
    have "regular_fd w1 x" if "x \<in> set (ix_fds ix)" for x
      using that o(2) regular_frame [OF sp(1), of x] by (auto simp: owns_def regular_fd_def)
    then have reg: "\<forall>x\<in>set (ix_fds ix). regular_fd w1 x" by blast
    have own1: "\<forall>x. fd_of w1 x \<noteq> None \<longrightarrow> fd_of w0 x \<noteq> None \<or> x \<in> set (ix_fds ix @ [fd])"
      using o(2) op unfolding owns_def by (metis Un_iff list.set_intros(1) set_append)
    have s1: "sinks (is @ [i]) (ix_outs ?ix) w1 (replicate (length (ix_outs ?ix)) [])"
      unfolding outs using sinks_add [OF o(3) sp(1) o(1) i(1,2,3)] nf(1)
      by (simp add: outbuf_init_def replicate_append_same)
    have fr: "frame (open_scope w0 {} {}) w0 w1"
      using o(2) open_frame_trans [OF _ sp(1)] by (simp add: owns_def)
    have "fd_of w0 fd = None" using frame_open_le(2) [of "open_scope w0 {} {}" w0 w] o(2) nf(1) by (auto simp: owns_def)
    moreover have "w_nino w0 \<le> i" using o(2) i(1) by (auto simp: owns_def frame_def)
    moreover have "ix_fds ?ix = ix_fds ix @ [fd]" by (simp add: ix_fds_def)
    moreover have "map ob_fd (ix_outs ?ix) = map ob_fd (ix_outs ix) @ [fd]"
      unfolding outs by (simp add: outbuf_init_def)
    ultimately have "owns (is @ [i]) ?ix {} w0 w1"
      using o(2) fr nm nf own1 reg reg1 unfolding owns_def by auto
    then have "init_inv (is @ [i]) ?ix w0 w1"
      using s1 frame_wfw [OF sp(1) o(1)] by (simp add: init_inv_def)
    moreover have "init_buckets n ?ix w1 = (r, ix', w')" using Suc.prems(1) False c by simp
    ultimately show ?thesis using Suc.IH [of ?ix w1 "is @ [i]"] frame_clean [OF sp(1)] by auto
  qed
qed

lemma outs_owns: "owns is ix mv w0 w \<Longrightarrow> frame (outs_scope is (map ob_fd (ix_outs ix))) w w' \<Longrightarrow> same_fds ix ix'
    \<Longrightarrow> owns is ix' mv w0 w'"
  by (rule owns_step [of "is" ix mv w0 w "outs_scope is (map ob_fd (ix_outs ix))"])
    (simp_all add: owns_def del: set_map)

lemma ix_data_empty: "ix_data [] [] = replicate (Suc OCC_BUCKETS) []"
  by (simp add: ix_data_def bucket_bytes_def bucket_recs_def list_eq_iff_nth_eq nth_Cons split: nat.split)

lemma index_init_spec:
  assumes i: "index_init input_fd w = (r, ix, w')" and wf: "wfw w"
  shows "r = 0 \<and> ix_input_fd ix = input_fd \<and> ix_line_count ix = 0
       \<and> (\<exists>is. built is ix w' [0] [] \<and> owns is ix {} w w') \<or> r < 0 \<and> \<not> clean w"
proof -
  obtain r1 lx w1 where l: "lexicon_init w = (r1, lx, w1)" using prod_cases3 by blast
  note ls = lexicon_init_spec [OF l]
  have q1: "quiet w w1" and wf1: "wfw w1" using ls frame_wfw [OF quiet_frame wf] by auto
  show ?thesis
  proof (cases "r1 < 0")
    case True
    then show ?thesis using i ls by (auto simp: index_init_def l Let_def)
  next
    case r1: False
    then have lx: "lex_ok lx" "lx_entries lx = []" using ls by auto
    obtain fd w2 where c: "create_temp_file (bytes_of ''lines'') w1 = (fd, w2)" by force
    have sp: "frame (open_scope w1 {} {}) w1 w2" "fd = -1 \<and> \<not> clean w1 \<or> fresh_file w1 fd w2 \<and> w_names w2 = w_names w1"
      using create_temp_file_spec [OF c covers_open wf1, of "{}" "{}"] by simp_all
    show ?thesis
    proof (cases "fd < 0")
      case True
      then have "\<not> clean w" using sp(2) quiet_clean [OF q1] by (auto simp: fresh_file_def)
      then show ?thesis using i r1 True by (auto simp: index_init_def l c Let_def split: prod.splits)
    next
      case fd: False
      then have ff: "fresh_file w1 fd w2" and nm: "w_names w2 = w_names w1" using sp(2) by auto
      let ?ix = "\<lparr>ix_input_fd = input_fd, ix_line_fd = fd, ix_occ_fds = [], ix_line_out = outbuf_init fd,
                   ix_occ_out = [], ix_lexicon = lx, ix_line_count = 0\<rparr>"
      obtain j where j: "w_nino w1 \<le> j" "sink_ok j (outbuf_init fd) w2" "sink (outbuf_init fd) w2 = []"
        using fresh_sink [OF ff] by blast
      have outs: "ix_outs ?ix = [outbuf_init fd]" "ix_fds ?ix = [fd]" by (simp_all add: ix_outs_def ix_fds_def)
      have s1: "sinks [j] (ix_outs ?ix) w2 (replicate (length (ix_outs ?ix)) [])"
        using j by (simp add: outs sinks_def)
      have "frame (open_scope w {} {}) w w2" 
        using open_frame_trans [OF quiet_frame [OF q1] sp(1), of "{}" "{}"] by simp
      then have "owns [j] ?ix {} w w2"
        using ff nm q1 j(1) quiet_fd_of [OF q1] unfolding owns_def outs
        by (auto simp: fresh_file_def quiet_def outbuf_init_def regular_fd_def)
      then have op: "init_inv [j] ?ix w w2" using s1 frame_wfw [OF sp(1) wf1] by (simp add: init_inv_def)
      obtain r3 ix3 w3 where b: "init_buckets OCC_BUCKETS ?ix w2 = (r3, ix3, w3)" using prod_cases3 by blast
      note bs = init_buckets_spec [OF b op]
      have cl2: "clean w \<Longrightarrow> clean w2" using frame_clean [OF sp(1)] quiet_clean [OF q1] by blast
      show ?thesis
      proof (cases "r3 < 0")
        case True
        then have "\<not> clean w" using bs cl2 by auto
        then show ?thesis using i r1 fd b True by (auto simp: index_init_def l c Let_def)
      next
        case r3: False
        then obtain is3 where o3: "init_inv is3 ix3 w w3" and k3: "length (ix_occ_out ix3) = OCC_BUCKETS"
          "ix_lexicon ix3 = lx" "ix_input_fd ix3 = input_fd" "ix_line_count ix3 = 0" using bs by auto
        have b3: "built is3 ix3 w3 [] []"
          using o3 k3 lx by (simp add: built_def init_inv_def ix_data_empty ix_outs_def lex_words_def lex_caches_def words_of_def)
        have ow3: "owns is3 ix3 {} w w3" using o3 by (simp add: init_inv_def)
        have f23: "frame (open_scope w2 {} {}) w2 w3 \<Longrightarrow> clean w2 \<Longrightarrow> clean w3" by (rule frame_clean)
        obtain r4 out w4 where o4: "outbuf_write_data (ix_line_out ix3) (enc_u64 0) w3 = (r4, out, w4)"
          using prod_cases3 by blast
        have st: "build_step is3 ix3 w3 [0] [] (r4, ix3\<lparr>ix_line_out := out\<rparr>, w4)"
          using emit_offset [OF b3 o4] by simp
        have cl3: "clean w \<Longrightarrow> clean w3" using ow3 frame_clean by (auto simp: owns_def)
        show ?thesis
        proof (cases "r4 < 0")
          case True
          then have "\<not> clean w" using st cl3 by (auto simp: build_step_def)
          then show ?thesis using i r1 fd b r3 o4 True by (auto simp: index_init_def l c Let_def split: prod.splits)
        next
          case False
          then have s4: "frame (outs_scope is3 (map ob_fd (ix_outs ix3))) w3 w4" "same_fds ix3 (ix3\<lparr>ix_line_out := out\<rparr>)"
            "built is3 (ix3\<lparr>ix_line_out := out\<rparr>) w4 [0] []" using st by (auto simp: build_step_def)
          have res: "r = 0" "ix = ix3\<lparr>ix_line_out := out\<rparr>" "w' = w4"
            using i r1 fd b r3 o4 False by (simp_all add: index_init_def l c Let_def)
          show ?thesis using s4(3) outs_owns [OF ow3 s4(1,2)] k3 by (auto simp: res)
        qed
      qed
    qed
  qed
qed

end
