(* ===== verification/Pa1_Store.thy ===== *)
theory Pa1_Store
  imports Pa1_Index
begin

text \<open>
  A finished index as the queries see it: which file holds what, which words have been
  materialized into cache files, and which names exist because of it. \<open>index_read_line\<close> and
  \<open>index_free\<close> are specified here.
\<close>

section \<open>Where the lines are\<close>

definition occs_of :: "byte list \<Rightarrow> occ list" where
  "occs_of T = occs_from 1 (lines_of T)"

lemma take_line_size:
  "take (line_size s) s = takeWhile not_nl s @ (if NEWLINE \<in> set s then [NEWLINE] else [])"
proof (induction s)
  case Nil
  then show ?case by (simp add: line_size_def)
next
  case (Cons c s)
  show ?case
  proof (cases "c = NEWLINE")
    case True
    then show ?thesis by (simp add: line_size_def not_nl_def)
  next
    case False
    have "line_size (c # s) = Suc (line_size s)" using False by (auto simp: line_size_def not_nl_def)
    then show ?thesis using Cons False by (simp add: not_nl_def)
  qed
qed

lemma lines_of_Cons: "s \<noteq> [] \<Longrightarrow> lines_of s = takeWhile not_nl s # lines_of (drop (line_size s) s)"
  using line_size_rest(1) [of s] by (subst lines_of.simps) simp

lemma lines_of_Nil [simp]: "lines_of [] = []"
  by (subst lines_of.simps) simp

lemma line_ends_Nil [simp]: "line_ends off [] = []"
  by (subst line_ends.simps) simp

lemma line_ends_Cons: "s \<noteq> [] \<Longrightarrow> line_ends off s = (off + line_size s) # line_ends (off + line_size s) (drop (line_size s) s)"
  by (subst line_ends.simps) simp

lemma length_line_ends: "length (line_ends off s) = length (lines_of s)"
  by (induction off s rule: line_ends.induct) (metis length_Cons line_ends_Cons line_ends_Nil lines_of_Cons lines_of_Nil list.size(3))

lemma length_lines_of: "length (lines_of s) \<le> length s"
proof (induction "length s" arbitrary: s rule: less_induct)
  case less
  show ?case
  proof (cases "s = []")
    case False
    then have "0 < line_size s" "line_size s \<le> length s" using line_size_rest by simp_all
    moreover have "length (lines_of (drop (line_size s) s)) \<le> length (drop (line_size s) s)"
      by (rule less) (use False calculation in simp)
    ultimately show ?thesis by (simp add: lines_of_Cons [OF False])
  qed simp
qed

text \<open>Line \<open>k\<close> starts at offset \<open>k\<close> of the table and ends at the next one.\<close>

lemma line_ends_nth:
  assumes "k < length (lines_of s)"
  shows "off \<le> (off # line_ends off s) ! k
     \<and> line_ends off s ! k = (off # line_ends off s) ! k + line_size (drop ((off # line_ends off s) ! k - off) s)
     \<and> (off # line_ends off s) ! k - off < length s
     \<and> lines_of s ! k = takeWhile not_nl (drop ((off # line_ends off s) ! k - off) s)"
  using assms
proof (induction k arbitrary: off s)
  case 0
  then have "s \<noteq> []" by auto
  then show ?case by (simp add: line_ends_Cons lines_of_Cons)
next
  case (Suc k)
  then have s: "s \<noteq> []" by auto
  let ?n = "line_size s" and ?t = "drop (line_size s) s"
  have k: "k < length (lines_of ?t)" using Suc.prems by (simp add: lines_of_Cons [OF s])
  let ?o = "((off + ?n) # line_ends (off + ?n) ?t) ! k"
  note ih = Suc.IH [OF k, of "off + ?n"]
  have "?o - (off + ?n) + ?n = ?o - off" using ih by simp
  moreover have "?o - off < length s"
  proof -
    have "off + ?n \<le> ?o" "?o - (off + ?n) < length ?t" using ih by blast+
    then show ?thesis using line_size_rest(2) [of s] unfolding length_drop by linarith
  qed
  ultimately show ?case using ih by (simp add: line_ends_Cons [OF s] lines_of_Cons [OF s] add.commute)
qed

lemma line_offsets_nth:
  assumes "k < length (lines_of s)"
  shows "line_offsets s ! Suc k = line_offsets s ! k + line_size (drop (line_offsets s ! k) s)"
    and "line_offsets s ! k < length s" and "line_offsets s ! Suc k \<le> length s"
    and "lines_of s ! k = takeWhile not_nl (drop (line_offsets s ! k) s)"
proof -
  note a = line_ends_nth [OF assms, of 0]
  show e: "line_offsets s ! Suc k = line_offsets s ! k + line_size (drop (line_offsets s ! k) s)"
    and l: "line_offsets s ! k < length s"
    and "lines_of s ! k = takeWhile not_nl (drop (line_offsets s ! k) s)"
    using a by (simp_all add: line_offsets_def)
  show "line_offsets s ! Suc k \<le> length s"
    using e l line_size_rest(2) [of "drop (line_offsets s ! k) s"] by simp
qed

lemma take_offset:
  "k < length offs \<Longrightarrow> take 8 (drop (k * 8) (concat (map (le_bytes 8) offs))) = le_bytes 8 (offs ! k)"
proof (induction offs arbitrary: k)
  case (Cons v offs)
  then show ?case by (cases k) simp_all
qed simp

lemma length_offsets [simp]: "length (concat (map (le_bytes 8) offs)) = 8 * length offs"
  by (induction offs) simp_all

section \<open>Files and caches\<close>

definition file_at :: "nat \<Rightarrow> world \<Rightarrow> int \<Rightarrow> byte list \<Rightarrow> bool" where
  "file_at x w fd d \<longleftrightarrow> (\<exists>f. fd_of w fd = Some f \<and> o_kind f = Regular \<and> o_ino f \<noteq> x \<and> w_data w (o_ino f) = d)"

lemma file_at_frame:
  assumes "file_at x w fd d" and "frame s w w'" and "wfw w" and "fd \<in> sc_fds s"
    and "\<And>i. i < w_nino w \<Longrightarrow> i \<in> sc_write s \<Longrightarrow> i = x"
  shows "file_at x w' fd d"
proof -
  obtain f where f: "fd_of w fd = Some f" "o_kind f = Regular" "o_ino f \<noteq> x" "w_data w (o_ino f) = d"
    using assms(1) by (auto simp: file_at_def)
  have "o_ino f < w_nino w" using assms(3) f(1) by (auto simp: wfw_def)
  then have "w_data w' (o_ino f) = d" using frame_data [OF assms(2)] assms(5) f(3,4) by metis
  then show ?thesis
    using frame_handle [OF assms(2,4) f(1)] f by (metis file_at_def)
qed

lemma file_at_open: "file_at x w fd d \<Longrightarrow> fd_of w fd \<noteq> None"
  by (auto simp: file_at_def)

text \<open>The records of the word with a given id, in the order of the input.\<close>

definition word_recs :: "byte list \<Rightarrow> nat \<Rightarrow> occ_record list" where
  "word_recs T k = map (record_of (words_of (occs_of T)))
     (filter (\<lambda>oc. fst oc = words_of (occs_of T) ! k) (occs_of T))"

definition recs_bytes :: "occ_record list \<Rightarrow> byte list" where
  "recs_bytes rs = concat (map enc_occ rs)"

definition cache_ok :: "nat \<Rightarrow> byte list \<Rightarrow> world \<Rightarrow> nat \<Rightarrow> lexentry \<Rightarrow> bool" where
  "cache_ok x T w k e \<longleftrightarrow> (\<forall>p. le_cache_path e = Some p \<longrightarrow>
     (\<exists>i. w_names w p = Some i \<and> i \<noteq> x \<and> w_data w i = recs_bytes (word_recs T k))
     \<and> unat (le_cache_count e) = length (word_recs T k))"

definition cache_paths :: "lexicon \<Rightarrow> path list" where
  "cache_paths lx = concat (map (\<lambda>e. case le_cache_path e of None \<Rightarrow> [] | Some p \<Rightarrow> [p]) (lx_entries lx))"

text \<open>
  \<open>N\<close> are the names that existed before the program ran and \<open>x\<close> is the file the output goes to,
  which is none of the files of the index.
\<close>

definition caches_ok :: "nat \<Rightarrow> byte list \<Rightarrow> (path \<rightharpoonup> nat) \<Rightarrow> lexicon \<Rightarrow> world \<Rightarrow> bool" where
  "caches_ok x T N lx w \<longleftrightarrow> (\<forall>k<length (lx_entries lx). cache_ok x T w k (lx_entries lx ! k))
     \<and> distinct (cache_paths lx) \<and> (\<forall>p\<in>set (cache_paths lx). N p = None \<and> w_names w p \<noteq> None)
     \<and> (\<forall>p. p \<notin> set (cache_paths lx) \<longrightarrow> w_names w p = N p)"

definition ix_static :: "byte list \<Rightarrow> index \<Rightarrow> bool" where
  "ix_static T ix \<longleftrightarrow> length T < 2 ^ 32 \<and> lex_ok (ix_lexicon ix) \<and> lex_words (ix_lexicon ix) = words_of (occs_of T)
     \<and> ix_line_count ix = of_nat (length (lines_of T)) \<and> length (ix_occ_fds ix) = OCC_BUCKETS
     \<and> index_finished ix \<and> map ob_fd (ix_outs ix) = ix_fds ix
     \<and> distinct (ix_input_fd ix # ix_fds ix) \<and> (\<forall>fd\<in>set (ix_input_fd ix # ix_fds ix). 0 \<le> fd)"

definition ix_files :: "nat \<Rightarrow> byte list \<Rightarrow> index \<Rightarrow> world \<Rightarrow> bool" where
  "ix_files x T ix w \<longleftrightarrow> file_at x w (ix_input_fd ix) T
     \<and> file_at x w (ix_line_fd ix) (concat (map (le_bytes 8) (line_offsets T)))
     \<and> (\<forall>b<OCC_BUCKETS. file_at x w (ix_occ_fds ix ! b) (bucket_bytes (occs_of T) b))"

definition indexed :: "nat \<Rightarrow> byte list \<Rightarrow> (path \<rightharpoonup> nat) \<Rightarrow> index \<Rightarrow> world \<Rightarrow> bool" where
  "indexed x T N ix w \<longleftrightarrow> wfw w \<and> x < w_nino w \<and> ix_static T ix \<and> ix_files x T ix w \<and> caches_ok x T N (ix_lexicon ix) w"

lemma frame_nino: "frame s w w' \<Longrightarrow> w_nino w \<le> w_nino w'"
  by (simp add: frame_def)

lemma ix_files_frame:
  assumes "ix_files x T ix w" and "frame (open_scope w mv wr) w w'" and "wfw w"
    and "\<And>i. i < w_nino w \<Longrightarrow> i \<in> wr \<Longrightarrow> i = x"
  shows "ix_files x T ix w'"
proof -
  have k: "file_at x w' fd d" if "file_at x w fd d" for fd d
    by (rule file_at_frame [OF that assms(2,3)]) (use file_at_open [OF that] assms(4) in auto)
  then show ?thesis using assms(1) by (simp add: ix_files_def)
qed

lemma caches_ok_frame:
  assumes c: "caches_ok x T N lx w" and f: "frame (open_scope w mv wr) w w'" and wf: "wfw w"
    and wr: "\<And>i. i < w_nino w \<Longrightarrow> i \<in> wr \<Longrightarrow> i = x" and n: "w_names w' = w_names w"
  shows "caches_ok x T N lx w'"
proof -
  have "w_data w' i = w_data w i" if "w_names w p = Some i" "i \<noteq> x" for p i
  proof -
    have "i < w_nino w" using that wf by (auto simp: wfw_def)
    then have "i \<notin> wr" using wr that(2) by blast
    then show ?thesis using frame_data [OF f \<open>i < w_nino w\<close>] \<open>i < w_nino w\<close> by simp
  qed
  then have "cache_ok x T w' k e" if "cache_ok x T w k e" for k e
    using that n unfolding cache_ok_def by metis
  then show ?thesis using c n by (simp add: caches_ok_def)
qed

lemma indexed_frame:
  assumes "indexed x T N ix w" and "frame (open_scope w mv wr) w w'" and "w_names w' = w_names w"
    and "\<And>i. i < w_nino w \<Longrightarrow> i \<in> wr \<Longrightarrow> i = x"
  shows "indexed x T N ix w'"
  using assms ix_files_frame [of x T ix w mv wr w'] caches_ok_frame [of x T N "ix_lexicon ix" w mv wr w']
    frame_wfw [OF assms(2)] frame_nino [OF assms(2)]
  by (auto simp: indexed_def)

lemma quiet_indexed: "indexed x T N ix w \<Longrightarrow> quiet w w' \<Longrightarrow> indexed x T N ix w'"
  by (rule indexed_frame [of x T N ix w "{}" "{}"]) (auto simp: quiet_def quiet_frame)

section \<open>Reading a line back\<close>

lemma read_line_offset_spec:
  assumes ok: "indexed x T N ix w" and i: "unat i \<le> length (lines_of T)"
    and r: "read_line_offset ix i w = (r, v, w')"
  shows "quiet w w' \<and> (r = 0 \<and> unat v = line_offsets T ! unat i \<or> r = -1 \<and> \<not> clean w)"
proof -
  obtain f where f: "fd_of w (ix_line_fd ix) = Some f" "o_kind f = Regular"
    "w_data w (o_ino f) = concat (map (le_bytes 8) (line_offsets T))"
    using ok by (auto simp: indexed_def ix_files_def file_at_def)
  have n: "unat i < length (line_offsets T)" using i by (simp add: line_offsets_def length_line_ends)
  obtain r1 bs w1 where p: "pread_full (ix_line_fd ix) 8 (unat i * 8) w = (r1, bs, w1)" using prod_cases3 by blast
  have "length (w_data w (o_ino f)) \<ge> unat i * 8 + 8" using n by (simp add: f(3))
  then have sp: "quiet w w1" "r1 = 0 \<and> bs = le_bytes 8 (line_offsets T ! unat i) \<or> r1 = -1 \<and> \<not> clean w"
    using pread_full_spec [OF p f(1,2)] take_offset [OF n] by (auto simp: f(3))
  have "line_offsets T ! unat i \<le> length T"
  proof (cases "unat i")
    case 0
    then show ?thesis by (simp add: line_offsets_def)
  next
    case (Suc k)
    then show ?thesis using line_offsets_nth(3) [of k T] i by simp
  qed
  moreover have "length T < 2 ^ 32" using ok by (simp add: indexed_def ix_static_def)
  ultimately have "line_offsets T ! unat i < 2 ^ 64" by simp
  then have "unat (dec_u64 (le_bytes 8 (line_offsets T ! unat i))) = line_offsets T ! unat i"
    by (simp add: dec_u64_def le_val_le_bytes unat_u64)
  then show ?thesis using r sp by (auto simp: read_line_offset_def p)
qed

lemma index_read_line_spec:
  assumes ok: "indexed x T N ix w" and vo: "vec_ok line" and k: "k < length (lines_of T)"
  shows "wp (index_read_line ix (of_nat (Suc k)) line w) (\<lambda>(r, line', w'). quiet w w' \<and> vec_ok line'
     \<and> (r = 0 \<and> v_items line' = lines_of T ! k \<or> r = -1 \<and> \<not> clean w))"
proof -
  let ?n = "of_nat (Suc k) :: u32"
  have T: "length T < 2 ^ 32" using ok by (simp add: indexed_def ix_static_def)
  then have kn: "Suc k < 2 ^ 32" "length (lines_of T) < 2 ^ 32" using k length_lines_of [of T] by simp_all
  have un: "unat ?n = Suc k" by (rule unat_u32 [OF kn(1)])
  have um: "unat (?n - 1) = k" using kn(1) by (simp add: unat_u32)
  have rng: "\<not> (?n = 0 \<or> ?n > ix_line_count ix)"
    using ok un k kn by (auto simp: indexed_def ix_static_def word_less_nat_alt unat_u32)
  obtain r1 st w1 where a: "read_line_offset ix (?n - 1) w = (r1, st, w1)" using prod_cases3 by blast
  have sa: "quiet w w1" "r1 = 0 \<and> unat st = line_offsets T ! k \<or> r1 = -1 \<and> \<not> clean w"
    using read_line_offset_spec [OF ok _ a] um k by simp_all
  have ok1: "indexed x T N ix w1" by (rule quiet_indexed [OF ok sa(1)])
  obtain r2 en w2 where b: "read_line_offset ix ?n w1 = (r2, en, w2)" using prod_cases3 by blast
  have sb: "quiet w1 w2" "r2 = 0 \<and> unat en = line_offsets T ! Suc k \<or> r2 = -1 \<and> \<not> clean w1"
    using read_line_offset_spec [OF ok1 _ b] un k by simp_all
  have q2: "quiet w w2" using sa(1) sb(1) quiet_trans by blast
  have cl: "clean w \<Longrightarrow> clean w1" "clean w \<Longrightarrow> clean w2" using sa(1) q2 quiet_clean by blast+
  show ?thesis
  proof (cases "r1 < 0 \<or> r2 < 0")
    case True
    then show ?thesis unfolding index_read_line_def if_not_P [OF rng] a b prod.case
      using sa sb q2 cl vo by (auto simp: b)
  next
    case False
    let ?s = "drop (line_offsets T ! k) T"
    have st: "unat st = line_offsets T ! k" and en: "unat en = unat st + line_size ?s"
      using False sa sb line_offsets_nth(1) [OF k] by auto
    have le: "\<not> en < st" using en by (simp add: word_less_nat_alt)
    have sz: "unat (en - st) = line_size ?s" using en by (simp add: unat_sub_if')
    have ne: "?s \<noteq> []" using line_offsets_nth(2) [OF k] by simp
    then have pos: "0 < line_size ?s" "line_size ?s \<le> length ?s"
      using line_size_rest(3) [OF ne] line_size_rest(2) [of ?s] by blast+
    have ok2: "indexed x T N ix w2" by (rule quiet_indexed [OF ok q2])
    obtain f where f: "fd_of w2 (ix_input_fd ix) = Some f" "o_kind f = Regular" "w_data w2 (o_ino f) = T"
      using ok2 by (auto simp: indexed_def ix_files_def file_at_def)
    have vr: "vec_ok (bytevec_reset line)" using vo by (simp add: vec_ok_def bytevec_reset_def)
    have small: "line_size ?s \<le> SIZE_MAX div 2" using T pos by (simp add: SIZE_MAX_def)
    obtain r3 line3 w3 where rs: "bytevec_reserve (bytevec_reset line) (line_size ?s) w2 = Some (r3, line3, w3)"
      and s3: "quiet w2 w3" "v_items line3 = []" "vec_ok line3" "r3 = 0 \<and> line_size ?s \<le> v_cap line3 \<or> r3 = -1 \<and> \<not> clean w2"
      using bytevec_reserve_spec [OF vr, of "line_size ?s" w2] small by (auto simp: wp_iff bytevec_reset_def)
    have q3: "quiet w w3" using q2 s3(1) quiet_trans by blast
    have f3: "fd_of w3 (ix_input_fd ix) = Some f" "w_data w3 (o_ino f) = T"
      using f s3(1) quiet_fd_of [OF s3(1)] by (simp_all add: quiet_def)
    obtain r4 bs w4 where p: "pread_full (ix_input_fd ix) (line_size ?s) (unat st) w3 = (r4, bs, w4)"
      using prod_cases3 by blast
    have s4: "quiet w3 w4" "r4 = 0 \<and> bs = take (line_size ?s) ?s \<and> length bs = line_size ?s \<or> r4 = -1 \<and> \<not> clean w3"
      using pread_full_spec [OF p f3(1) f(2)] line_offsets_nth(1,3) [OF k] st by (auto simp: f3(2))
    have q4: "quiet w w4" using q3 s4(1) quiet_trans by blast
    have cl3: "clean w \<Longrightarrow> clean w3" using q3 quiet_clean by blast
    have last: "length bs > 0 \<and> last bs = NEWLINE \<longleftrightarrow> NEWLINE \<in> set ?s"
      and cut: "takeWhile not_nl ?s = (if NEWLINE \<in> set ?s then butlast bs else bs)" if "bs = take (line_size ?s) ?s"
    proof -
      have bs: "bs = takeWhile not_nl ?s @ (if NEWLINE \<in> set ?s then [NEWLINE] else [])"
        using that take_line_size [of ?s] by simp
      have "last (takeWhile not_nl ?s) \<noteq> NEWLINE" if "takeWhile not_nl ?s \<noteq> []"
        using last_in_set [OF that] set_takeWhileD [of _ not_nl ?s] by (auto simp: not_nl_def)
      then show "length bs > 0 \<and> last bs = NEWLINE \<longleftrightarrow> NEWLINE \<in> set ?s"
        "takeWhile not_nl ?s = (if NEWLINE \<in> set ?s then butlast bs else bs)" by (auto simp: bs)
    qed
    have unf: "index_read_line ix ?n line w = (if r3 < 0 then Some (-1, line3, w3)
        else if r4 < 0 then Some (-1, line3, w4)
        else if length bs > 0 \<and> last bs = NEWLINE then Some (0, line3\<lparr>v_items := butlast bs\<rparr>, w4)
        else Some (0, line3\<lparr>v_items := bs\<rparr>, w4))"
      unfolding index_read_line_def if_not_P [OF rng] a b prod.case sz Let_def
      using False le pos(1) by (simp add: rs p del: of_nat_Suc)
    show ?thesis
    proof (cases "r3 < 0 \<or> r4 < 0")
      case True
      then show ?thesis unfolding unf using s3 s4 q3 q4 cl cl3 by auto
    next
      case ok34: False
      then have bs: "bs = take (line_size ?s) ?s" and lb: "length bs = line_size ?s" and cap: "line_size ?s \<le> v_cap line3"
        using s3 s4 by auto
      have "lines_of T ! k = takeWhile not_nl ?s" by (rule line_offsets_nth(4) [OF k])
      then show ?thesis unfolding unf last [OF bs] using ok34 cut [OF bs] q4 lb cap s3(3)
        by (auto simp: vec_ok_def)
    qed
  qed
qed

section \<open>From a built index to a finished one\<close>

lemma ix_data_nth: "b < OCC_BUCKETS \<Longrightarrow> ix_data offs occs ! Suc b = bucket_bytes occs b"
  by (simp add: ix_data_def)

lemma sink_file:
  assumes s: "sinks is outs w ds" and k: "k < length outs" and b: "ob_buf (outs ! k) = []"
    and r: "regular_fd w (ob_fd (outs ! k))" and x: "x \<noteq> is ! k"
  shows "file_at x w (ob_fd (outs ! k)) (ds ! k)"
  using assms by (fastforce simp: sinks_def sink_ok_def sink_def content_def appendable_def regular_fd_def file_at_def)

lemma indexed_start:
  assumes o: "owns is ix {ix_input_fd ix} w0 w" and b: "built is ix w (line_offsets T) (occs_of T)"
    and fin: "index_finished ix" and cnt: "ix_line_count ix = of_nat (length (lines_of T))"
    and inp: "file_at x w0 (ix_input_fd ix) T" "0 \<le> ix_input_fd ix" and wf: "wfw w0"
    and len: "length T < 2 ^ 32" and x: "x < w_nino w0"
  shows "indexed x T (w_names w0) ix w"
proof -
  have fds: "map ob_fd (ix_outs ix) = ix_fds ix" and fr: "frame (open_scope w0 {ix_input_fd ix} {}) w0 w"
    using o by (simp_all add: owns_def)
  have s: "sinks is (ix_outs ix) w (ix_data (line_offsets T) (occs_of T))" using b by (simp add: built_def)
  have lo: "length (ix_outs ix) = Suc OCC_BUCKETS" using b by (simp add: built_def ix_outs_def)
  have lf: "length (ix_occ_fds ix) = OCC_BUCKETS" using arg_cong [OF fds, of length] lo by (simp add: ix_fds_def)
  have nth: "ob_fd (ix_outs ix ! k) = ix_fds ix ! k" if "k < length (ix_outs ix)" for k
    using that fds by (metis nth_map)
  have fa: "file_at x w (ix_fds ix ! k) (ix_data (line_offsets T) (occs_of T) ! k)" if k: "k < length (ix_outs ix)" for k
  proof -
    have "length (ix_fds ix) = length (ix_outs ix)" using lo lf by (simp add: ix_fds_def)
    then have "ix_fds ix ! k \<in> set (ix_fds ix)" using k by (metis nth_mem)
    then have "regular_fd w (ob_fd (ix_outs ix ! k))" using o nth [OF k] by (simp add: owns_def)
    moreover have "is ! k \<in> set is" using s k by (simp add: sinks_def)
    then have "x \<noteq> is ! k" using o x by (force simp: owns_def)
    moreover have "ob_buf (ix_outs ix ! k) = []" using fin k by (simp add: index_finished_def)
    ultimately show ?thesis using sink_file [OF s k] nth [OF k] by simp
  qed
  have "file_at x w (ix_input_fd ix) T"
    by (rule file_at_frame [OF inp(1) fr wf]) (use file_at_open [OF inp(1)] in auto)
  moreover have "file_at x w (ix_line_fd ix) (concat (map (le_bytes 8) (line_offsets T)))"
    using fa [of 0] lo by (simp add: ix_fds_def ix_data_def)
  moreover have "file_at x w (ix_occ_fds ix ! j) (bucket_bytes (occs_of T) j)" if "j < OCC_BUCKETS" for j
    using fa [of "Suc j"] that lo by (simp add: ix_fds_def ix_data_nth)
  ultimately have files: "ix_files x T ix w" by (simp add: ix_files_def)
  have "distinct (ix_fds ix)" using s fds by (metis sinks_def)
  moreover have "ix_input_fd ix \<notin> set (ix_fds ix)"
    using o file_at_open [OF inp(1)] by (auto simp: owns_def)
  moreover have "\<forall>fd\<in>set (ix_fds ix). 0 \<le> fd" using o by (simp add: owns_def)
  ultimately have st: "ix_static T ix"
    using b fin cnt len fds lf inp(2) by (simp add: ix_static_def built_def)
  have nocache: "le_cache_path e = None" if "e \<in> set (lx_entries (ix_lexicon ix))" for e
  proof -
    have "(le_cache_path e, le_cache_count e) \<in> set (lex_caches (ix_lexicon ix))"
      using that by (auto simp: lex_caches_def)
    then show ?thesis using b by (auto simp: built_def)
  qed
  have "cache_paths (ix_lexicon ix) = []" using nocache by (simp add: cache_paths_def)
  moreover have "cache_ok x T w k (lx_entries (ix_lexicon ix) ! k)" if "k < length (lx_entries (ix_lexicon ix))" for k
    using nocache [OF nth_mem [OF that]] by (simp add: cache_ok_def)
  ultimately have "caches_ok x T (w_names w0) (ix_lexicon ix) w"
    using o by (simp add: caches_ok_def owns_def)
  then show ?thesis using st files b x frame_nino [OF fr] by (simp add: indexed_def built_def)
qed

section \<open>Releasing the index\<close>

definition closes :: "int set \<Rightarrow> world \<Rightarrow> world \<Rightarrow> bool" where
  "closes F w w' \<longleftrightarrow> (\<forall>fd. fd_of w' fd = (if fd \<in> F then None else fd_of w fd)) \<and> w_data w' = w_data w
     \<and> w_names w' = w_names w \<and> (clean w \<longrightarrow> clean w')"

lemma closes_refl [simp]: "closes {} w w"
  by (simp add: closes_def)

lemma closes_trans: "closes F w w1 \<Longrightarrow> closes G w1 w2 \<Longrightarrow> closes (F \<union> G) w w2"
  by (auto simp: closes_def)

lemma sys_close_closes:
  assumes "sys_close fd w = (r, w')" and "fd_of w fd \<noteq> None"
  shows "closes {fd} w w'" and "r = 0 \<or> r = -1 \<and> \<not> clean w"
proof -
  obtain f where f: "fd_of w fd = Some f" using assms(2) by auto
  note c = sys_close_frame [OF assms(1) f, of "\<lparr>sc_names = {}, sc_fds = {}, sc_move = {}, sc_write = {}\<rparr>"]
  show "closes {fd} w w'" using c frame_clean by (auto simp: closes_def)
  show "r = 0 \<or> r = -1 \<and> \<not> clean w" using c by auto
qed

lemma outbuf_flush_empty: "ob_buf out = [] \<Longrightarrow> outbuf_flush out w = (0, out, w)"
  by (simp add: outbuf_flush_def)

lemma free_buckets_closes:
  assumes "free_buckets fds outs w = (fds', outs', w')" and "length fds = length outs" and "distinct fds"
    and "\<forall>out\<in>set outs. ob_buf out = []" and "\<forall>fd\<in>set fds. 0 \<le> fd \<and> fd_of w fd \<noteq> None"
  shows "closes (set fds) w w'"
  using assms
proof (induction fds arbitrary: outs w fds' outs' w')
  case Nil
  then show ?case by simp
next
  case (Cons fd fds)
  then obtain out outs2 where outs: "outs = out # outs2" by (cases outs) auto
  obtain r w1 where c: "sys_close fd w = (r, w1)" by force
  obtain fds2 outs3 w2 where g: "free_buckets fds outs2 w1 = (fds2, outs3, w2)" using prod_cases3 by blast
  have cl: "closes {fd} w w1" using sys_close_closes [OF c] Cons.prems(5) by simp
  have "closes (set fds) w1 w2"
  proof (rule Cons.IH [OF g])
    show "\<forall>fd\<in>set fds. 0 \<le> fd \<and> fd_of w1 fd \<noteq> None" using Cons.prems(3,5) cl by (auto simp: closes_def)
  qed (use Cons.prems outs in auto)
  moreover have "w' = w2" using Cons.prems c g outs by (simp add: outbuf_flush_empty)
  ultimately show ?case using closes_trans [OF cl] by simp
qed

lemma unlink_caches_spec:
  assumes "clean w" and "distinct (concat (map (\<lambda>e. case le_cache_path e of None \<Rightarrow> [] | Some p \<Rightarrow> [p]) es))"
    and "\<forall>p\<in>set (concat (map (\<lambda>e. case le_cache_path e of None \<Rightarrow> [] | Some p \<Rightarrow> [p]) es)). w_names w p \<noteq> None"
  shows "clean (unlink_caches es w) \<and> w_data (unlink_caches es w) = w_data w \<and> (\<forall>fd. fd_of (unlink_caches es w) fd = fd_of w fd)
    \<and> w_names (unlink_caches es w) = (\<lambda>p. if p \<in> set (concat (map (\<lambda>e. case le_cache_path e of None \<Rightarrow> [] | Some p \<Rightarrow> [p]) es))
        then None else w_names w p)"
  using assms
proof (induction es arbitrary: w)
  case Nil
  then show ?case by simp
next
  case (Cons e es)
  show ?case
  proof (cases "le_cache_path e")
    case None
    then show ?thesis using Cons by simp
  next
    case (Some p)
    obtain r w1 where u: "sys_unlink p w = (r, w1)" by force
    have "w_names w p \<noteq> None" using Cons.prems(3) Some by simp
    from sys_unlink_frame [OF u _ this, of "\<lparr>sc_names = {}, sc_fds = {}, sc_move = {}, sc_write = {}\<rparr>"]
    have s: "clean w1" "w_data w1 = w_data w" "\<forall>fd. fd_of w1 fd = fd_of w fd" "w_names w1 = (w_names w)(p := None)"
      using Cons.prems(1) frame_clean by auto
    have np: "\<And>e. e \<in> set es \<Longrightarrow> le_cache_path e \<noteq> Some p" using Cons.prems(2) Some by auto
    have "clean (unlink_caches es w1) \<and> w_data (unlink_caches es w1) = w_data w1
      \<and> (\<forall>fd. fd_of (unlink_caches es w1) fd = fd_of w1 fd)
      \<and> w_names (unlink_caches es w1) = (\<lambda>p. if p \<in> set (concat (map (\<lambda>e. case le_cache_path e of None \<Rightarrow> [] | Some p \<Rightarrow> [p]) es))
          then None else w_names w1 p)"
    proof (rule Cons.IH [OF s(1)])
      show "\<forall>q\<in>set (concat (map (\<lambda>e. case le_cache_path e of None \<Rightarrow> [] | Some p \<Rightarrow> [p]) es)). w_names w1 q \<noteq> None"
        using Cons.prems(2,3) Some s(4) by auto
    qed (use Cons.prems(2) Some in simp)
    then show ?thesis using Some u s by (auto simp: fun_eq_iff)
  qed
qed

lemma unlink_caches_data:
  "w_data (unlink_caches es w) = w_data w \<and> fd_of (unlink_caches es w) fd = fd_of w fd"
proof (induction es arbitrary: w)
  case Nil
  then show ?case by simp
next
  case (Cons e es)
  have "w_data w1 = w_data w \<and> fd_of w1 fd = fd_of w fd" if "sys_unlink p w = (r, w1)" for p r w1
    using that by (auto simp: sys_unlink_def next_outcome_def split: list.splits if_splits)
  then show ?case using Cons by (auto split: option.split prod.split)
qed

lemma index_free_closes:
  assumes ok: "indexed x T N ix w" and f: "index_free ix w = (ix', w')"
  obtains w3 where "closes (set (ix_input_fd ix # ix_fds ix)) w w3" and "w' = unlink_caches (lx_entries (ix_lexicon ix)) w3"
proof -
  have st: "ix_static T ix" and fl: "ix_files x T ix w"
    using ok by (simp_all add: indexed_def)
  have e: "outbuf_flush (ix_line_out ix) w = (0, ix_line_out ix, w)"
    using st by (simp add: ix_static_def index_finished_def ix_outs_def outbuf_flush_empty)
  obtain r1 w1 where c1: "sys_close (ix_line_fd ix) w = (r1, w1)" by force
  obtain fds outs w2 where fb: "free_buckets (ix_occ_fds ix) (ix_occ_out ix) w1 = (fds, outs, w2)" using prod_cases3 by blast
  obtain r3 w3 where c3: "sys_close (ix_input_fd ix) w2 = (r3, w3)" by force
  have op: "fd_of w fd \<noteq> None" if "fd \<in> set (ix_input_fd ix # ix_fds ix)" for fd
  proof -
    have "\<exists>d. file_at x w fd d" using that fl st
      by (auto simp: ix_files_def ix_fds_def ix_static_def in_set_conv_nth)
    then show ?thesis using file_at_open by blast
  qed
  have pos: "0 \<le> ix_line_fd ix" "0 \<le> ix_input_fd ix" "\<forall>fd\<in>set (ix_occ_fds ix). 0 \<le> fd"
    and dist: "distinct (ix_occ_fds ix)" "ix_line_fd ix \<notin> set (ix_occ_fds ix)" "ix_input_fd ix \<noteq> ix_line_fd ix"
    "ix_input_fd ix \<notin> set (ix_occ_fds ix)" using st by (auto simp: ix_static_def ix_fds_def)
  have k1: "closes {ix_line_fd ix} w w1" using sys_close_closes(1) [OF c1] op by (simp add: ix_fds_def)
  have op1: "fd_of w1 fd \<noteq> None" if "fd \<in> set (ix_input_fd ix # ix_occ_fds ix)" for fd
    using that op [of fd] k1 dist by (auto simp: closes_def ix_fds_def)
  have "length (ix_occ_fds ix) = length (ix_occ_out ix)" "\<forall>out\<in>set (ix_occ_out ix). ob_buf out = []"
    using st arg_cong [of "map ob_fd (ix_outs ix)" "ix_fds ix" length]
    by (auto simp: ix_static_def ix_outs_def ix_fds_def index_finished_def dest: arg_cong [of _ _ length])
  then have k2: "closes (set (ix_occ_fds ix)) w1 w2"
    using free_buckets_closes [OF fb] dist(1) pos(3) op1 by simp
  have "fd_of w2 (ix_input_fd ix) \<noteq> None" using op1 [of "ix_input_fd ix"] k2 dist by (simp add: closes_def)
  then have k3: "closes {ix_input_fd ix} w2 w3" using sys_close_closes(1) [OF c3] by simp
  have k: "closes (set (ix_input_fd ix # ix_fds ix)) w w3"
    using closes_trans [OF closes_trans [OF k1 k2] k3] by (simp add: ix_fds_def insert_commute)
  have w': "w' = unlink_caches (lx_entries (ix_lexicon ix)) w3"
    using f e c1 fb c3 pos by (auto simp: index_free_def lexicon_free_def)
  from that [OF k w'] show thesis .
qed

lemma index_free_spec:
  assumes ok: "indexed x T N ix w" and f: "index_free ix w = (ix', w')" and cl: "clean w"
  shows "w_names w' = N \<and> w_data w' = w_data w
    \<and> (\<forall>fd. fd_of w' fd = (if fd \<in> set (ix_input_fd ix # ix_fds ix) then None else fd_of w fd))"
proof -
  obtain w3 where k: "closes (set (ix_input_fd ix # ix_fds ix)) w w3" and w': "w' = unlink_caches (lx_entries (ix_lexicon ix)) w3"
    using index_free_closes [OF ok f] .
  have ca: "caches_ok x T N (ix_lexicon ix) w" using ok by (simp add: indexed_def)
  have un: "\<forall>p\<in>set (cache_paths (ix_lexicon ix)). w_names w3 p \<noteq> None" "distinct (cache_paths (ix_lexicon ix))"
    using ca k by (simp_all add: caches_ok_def closes_def)
  have "clean w3" using k cl by (simp add: closes_def)
  note u = unlink_caches_spec [OF this un(2,1) [unfolded cache_paths_def], folded cache_paths_def]
  have "(\<lambda>p. if p \<in> set (cache_paths (ix_lexicon ix)) then None else w_names w3 p) = N"
    using ca k by (auto simp: caches_ok_def closes_def fun_eq_iff)
  then show ?thesis using u k by (simp add: w' closes_def)
qed

lemma index_free_data:
  assumes "indexed x T N ix w" and "index_free ix w = (ix', w')"
  shows "w_data w' = w_data w \<and> (\<forall>fd. fd_of w' fd = (if fd \<in> set (ix_input_fd ix # ix_fds ix) then None else fd_of w fd))"
proof -
  obtain w3 where k: "closes (set (ix_input_fd ix # ix_fds ix)) w w3" and w': "w' = unlink_caches (lx_entries (ix_lexicon ix)) w3"
    using index_free_closes [OF assms] .
  show ?thesis using k unlink_caches_data by (simp add: w' closes_def)
qed

end
