(* ===== verification/Pa1_Readers.thy ===== *)
theory Pa1_Readers
  imports Pa1_Store
begin

text \<open>
  The first half of \<^verbatim>\<open>PA1/query.c\<close>: scanning a bucket file, materializing the postings of a
  word into a cache file, the two record readers and the source of line numbers over them.
\<close>

section \<open>Scanning a file of records\<close>

text \<open>
  \<open>chunk\<close> is the memory of the union of the C code. A read stores at offset \<open>carry\<close>; the
  complete records are handed to the consumer, the rest is moved to the front.
\<close>

definition CHUNK_SIZE :: nat where "CHUNK_SIZE = 1024 * OCC_SIZE"

definition store_at :: "byte list \<Rightarrow> nat \<Rightarrow> byte list \<Rightarrow> byte list" where
  "store_at mem d bs = take d mem @ bs @ drop (d + length bs) mem"

definition chunk_record :: "byte list \<Rightarrow> nat \<Rightarrow> occ_record" where
  "chunk_record chunk i = dec_occ (take OCC_SIZE (drop (OCC_SIZE * i) chunk))"

type_synonym 'a consumer = "occ_record \<Rightarrow> 'a \<Rightarrow> world \<Rightarrow> (int \<times> 'a \<times> world) option"

fun scan_records :: "(occ_record \<Rightarrow> bool) \<Rightarrow> 'a consumer \<Rightarrow> occ_record list \<Rightarrow> 'a \<Rightarrow> world \<Rightarrow> (int \<times> 'a \<times> world) option" where
  "scan_records sel fn [] arg w = Some (0, arg, w)"
| "scan_records sel fn (rc # rs) arg w =
     (if sel rc then do {
        (r, arg, w) \<leftarrow> fn rc arg w;
        if r < 0 then Some (-1, arg, w) else scan_records sel fn rs arg w }
      else scan_records sel fn rs arg w)"

text \<open>The read loop: the result is the status, the bytes carried at the end of the file, and the state.\<close>

partial_function (option) scan_loop ::
  "(occ_record \<Rightarrow> bool) \<Rightarrow> 'a consumer \<Rightarrow> int \<Rightarrow> byte list \<Rightarrow> nat \<Rightarrow> 'a \<Rightarrow> world \<Rightarrow> (int \<times> nat \<times> 'a \<times> world) option" where
  "scan_loop sel fn fd chunk carry arg w =
     (case read_retry fd (CHUNK_SIZE - carry) w of (got, bs, w) \<Rightarrow>
        if got < 0 then Some (-1, carry, arg, w)
        else if got = 0 then Some (0, carry, arg, w)
        else let chunk = store_at chunk carry bs;
                 total = carry + nat got;
                 usable = (total div OCC_SIZE) * OCC_SIZE;
                 count = usable div OCC_SIZE in do {
          (r, arg, w) \<leftarrow> scan_records sel fn (map (chunk_record chunk) [0..<count]) arg w;
          if r < 0 then Some (-1, carry, arg, w)
          else let carry = total - usable in do {
            chunk \<leftarrow> (if carry > 0 then move_bytes chunk 0 usable carry else Some chunk);
            scan_loop sel fn fd chunk carry arg w } })"

definition scan_bucket_for_word ::
  "index \<Rightarrow> u32 \<Rightarrow> u32 \<Rightarrow> 'a consumer \<Rightarrow> 'a \<Rightarrow> world \<Rightarrow> (int \<times> 'a \<times> world) option" where
  "scan_bucket_for_word index bucket word_id fn arg w = do {
     fd \<leftarrow> at (ix_occ_fds index) (unat bucket);
     case sys_lseek fd 0 w of (r, w) \<Rightarrow>
       if r < 0 then Some (-1, arg, w)
       else do {
         (r, carry, arg, w) \<leftarrow>
           scan_loop (\<lambda>rc. oc_word rc = word_id) fn fd (replicate CHUNK_SIZE 0) 0 arg w;
         if r < 0 then Some (-1, arg, w)
         else Some (if carry = 0 then 0 else -1, arg, w) } }"

section \<open>Caches\<close>

record cache_writer =
  cw_out :: outbuf
  cw_count :: u32

definition cache_record_consumer :: "cache_writer consumer" where
  "cache_record_consumer rc writer w =
     (case outbuf_write_data (cw_out writer) (enc_occ rc) w of (r, out, w) \<Rightarrow>
        Some (r, writer\<lparr>cw_count := cw_count writer + 1, cw_out := out\<rparr>, w))"

fun path_len :: "path \<Rightarrow> nat" where
  "path_len (Named s) = length s"
| "path_len (Temp t k) = length t"

definition set_entry :: "index \<Rightarrow> nat \<Rightarrow> lexentry \<Rightarrow> index" where
  "set_entry index k entry =
     index\<lparr>ix_lexicon := (ix_lexicon index)\<lparr>lx_entries := (lx_entries (ix_lexicon index))[k := entry]\<rparr>\<rparr>"

definition ensure_word_cache :: "index \<Rightarrow> u32 \<Rightarrow> u32 \<Rightarrow> world \<Rightarrow> (int \<times> index \<times> world) option" where
  "ensure_word_cache index word_id bucket w = do {
     entry \<leftarrow> at (lx_entries (ix_lexicon index)) (unat word_id);
     if le_cache_path entry \<noteq> None then Some (0, index, w)
     else case create_named_temp_file (bytes_of ''wcache'') 64 w of (fd, path, w) \<Rightarrow>
       if fd < 0 then Some (-1, index, w)
       else do {
         (r, writer, w) \<leftarrow> scan_bucket_for_word index bucket word_id cache_record_consumer
           \<lparr>cw_out = outbuf_init fd, cw_count = 0\<rparr> w;
         case (if r < 0 then (r, cw_out writer, w) else outbuf_flush (cw_out writer) w) of (r, out, w) \<Rightarrow>
           if r < 0 then (case sys_unlink path w of (_, w) \<Rightarrow> case sys_close fd w of (_, w) \<Rightarrow> Some (-1, index, w))
           else case sys_close fd w of (r, w) \<Rightarrow>
             if r < 0 then (case sys_unlink path w of (_, w) \<Rightarrow> Some (-1, index, w))
             else case sys_alloc (path_len path + 1) w of (granted, w) \<Rightarrow>
               if \<not> granted then (case sys_unlink path w of (_, w) \<Rightarrow> Some (-1, index, w))
               else Some (0, set_entry index (unat word_id)
                 (entry\<lparr>le_cache_path := Some path, le_cache_count := cw_count writer\<rparr>), w) } }"

definition scan_cached_word :: "index \<Rightarrow> u32 \<Rightarrow> 'a consumer \<Rightarrow> 'a \<Rightarrow> world \<Rightarrow> (int \<times> 'a \<times> world) option" where
  "scan_cached_word index word_id fn arg w = do {
     entry \<leftarrow> at (lx_entries (ix_lexicon index)) (unat word_id);
     case le_cache_path entry of
       None \<Rightarrow> Some (-1, arg, w)
     | Some path \<Rightarrow> (case sys_open path w of (fd, w) \<Rightarrow>
         if fd < 0 then Some (-1, arg, w)
         else do {
           (status, carry, arg, w) \<leftarrow> scan_loop (\<lambda>rc. True) fn fd (replicate CHUNK_SIZE 0) 0 arg w;
           let status = (if status = 0 \<and> carry \<noteq> 0 then -1 else status) in
           case sys_close fd w of (r, w) \<Rightarrow>
             Some (if r < 0 then -1 else status, arg, w) }) }"

section \<open>Record readers\<close>

text \<open>
  \<open>OccurrenceReader\<close> and \<open>LineNumberReader\<close> have the same shape: an array that a read refills, a
  position in it, and the current element.
\<close>

record 'a reader =
  rr_fd :: int
  rr_items :: "'a list"
  rr_pos :: nat
  rr_len :: nat
  rr_current :: 'a
  rr_has :: bool

type_synonym occurrence_reader = "occ_record reader"
type_synonym line_number_reader = "u32 reader"

text \<open>The elements of an array of bytes, each of \<open>sz\<close> bytes.\<close>

definition elements :: "nat \<Rightarrow> (byte list \<Rightarrow> 'a) \<Rightarrow> byte list \<Rightarrow> 'a list" where
  "elements sz dec bs = map (\<lambda>i. dec (take sz (drop (sz * i) bs))) [0..<length bs div sz]"

definition reader_next ::
  "nat \<Rightarrow> nat \<Rightarrow> (byte list \<Rightarrow> 'a) \<Rightarrow> 'a reader \<Rightarrow> world \<Rightarrow> (int \<times> 'a reader \<times> world) option" where
  "reader_next sz n dec rd w =
     (let step = (\<lambda>rd w. do {
            current \<leftarrow> at (rr_items rd) (rr_pos rd);
            Some (1, rd\<lparr>rr_current := current, rr_pos := rr_pos rd + 1, rr_has := True\<rparr>, w) }) in
      if rr_pos rd = rr_len rd then
        (case read_retry (rr_fd rd) (sz * n) w of (got, bs, w) \<Rightarrow>
           if got < 0 then Some (-1, rd, w)
           else if got = 0 then Some (0, rd\<lparr>rr_has := False\<rparr>, w)
           else if nat got mod sz \<noteq> 0 then Some (-1, rd\<lparr>rr_has := False\<rparr>, set_errno EINVAL w)
           else step (rd\<lparr>rr_items := elements sz dec bs, rr_pos := 0, rr_len := nat got div sz\<rparr>) w)
      else step rd w)"

definition occurrence_reader_open_path :: "path \<Rightarrow> world \<Rightarrow> int \<times> occurrence_reader \<times> world" where
  "occurrence_reader_open_path path w =
     (case sys_open path w of (fd, w) \<Rightarrow>
        (if fd < 0 then -1 else 0,
         \<lparr>rr_fd = fd, rr_items = [], rr_pos = 0, rr_len = 0, rr_current = \<lparr>oc_word = 0, oc_line = 0, oc_start = 0\<rparr>,
          rr_has = False\<rparr>, w))"

definition occurrence_reader_next :: "occurrence_reader \<Rightarrow> world \<Rightarrow> (int \<times> occurrence_reader \<times> world) option" where
  "occurrence_reader_next = reader_next OCC_SIZE 1024 dec_occ"

definition occurrence_reader_close :: "occurrence_reader \<Rightarrow> world \<Rightarrow> int \<times> occurrence_reader \<times> world" where
  "occurrence_reader_close rd w =
     (case (if rr_fd rd \<ge> 0 then (case sys_close (rr_fd rd) w of (r, w) \<Rightarrow> (if r < 0 then -1 else 0, w))
            else (0, w)) of (status, w) \<Rightarrow>
        (status, rd\<lparr>rr_fd := -1, rr_pos := 0, rr_len := 0, rr_has := False\<rparr>, w))"

definition line_number_reader_open_fd :: "int \<Rightarrow> world \<Rightarrow> int \<times> line_number_reader \<times> world" where
  "line_number_reader_open_fd fd w =
     (case sys_lseek fd 0 w of (r, w) \<Rightarrow>
        (if r < 0 then -1 else 0,
         \<lparr>rr_fd = fd, rr_items = [], rr_pos = 0, rr_len = 0, rr_current = 0, rr_has = False\<rparr>, w))"

definition line_number_reader_next :: "line_number_reader \<Rightarrow> world \<Rightarrow> (int \<times> line_number_reader \<times> world) option" where
  "line_number_reader_next = reader_next 4 2048 dec_u32"

section \<open>Sources of line numbers\<close>

text \<open>The tagged struct: the kind says which of the two readers is in use.\<close>

datatype line_reader_kind = WordCache occurrence_reader | LineFile line_number_reader

record line_number_source =
  ls_reader :: line_reader_kind
  ls_current :: u32
  ls_has :: bool

definition line_number_source_open_word ::
  "index \<Rightarrow> u32 \<Rightarrow> u32 \<Rightarrow> world \<Rightarrow> (int \<times> index \<times> line_number_source option \<times> world) option" where
  "line_number_source_open_word index word_id bucket w = do {
     (r, index, w) \<leftarrow> ensure_word_cache index word_id bucket w;
     if r < 0 then Some (-1, index, None, w)
     else do {
       entry \<leftarrow> at (lx_entries (ix_lexicon index)) (unat word_id);
       case le_cache_path entry of
         None \<Rightarrow> Some (-1, index, None, w)
       | Some path \<Rightarrow> (case occurrence_reader_open_path path w of (r, rd, w) \<Rightarrow>
           if r < 0 then Some (-1, index, None, w)
           else Some (0, index, Some \<lparr>ls_reader = WordCache rd, ls_current = 0, ls_has = False\<rparr>, w)) } }"

definition line_number_source_open_file :: "int \<Rightarrow> world \<Rightarrow> int \<times> line_number_source option \<times> world" where
  "line_number_source_open_file fd w =
     (case line_number_reader_open_fd fd w of (r, rd, w) \<Rightarrow>
        if r < 0 then (-1, None, w)
        else (0, Some \<lparr>ls_reader = LineFile rd, ls_current = 0, ls_has = False\<rparr>, w))"

text \<open>The inner loop of the word case: skip the other records of the line.\<close>

partial_function (option) skip_same_line ::
  "occurrence_reader \<Rightarrow> u32 \<Rightarrow> world \<Rightarrow> (int \<times> occurrence_reader \<times> world) option" where
  "skip_same_line rd line_no w = do {
     (status, rd, w) \<leftarrow> occurrence_reader_next rd w;
     if status < 0 then Some (-1, rd, w)
     else if status = 0 then Some (0, rd, w)
     else if oc_line (rr_current rd) \<noteq> line_no then Some (0, rd, w)
     else skip_same_line rd line_no w }"

definition line_number_source_next :: "line_number_source \<Rightarrow> world \<Rightarrow> (int \<times> line_number_source \<times> world) option" where
  "line_number_source_next source w =
     (case ls_reader source of
        WordCache rd \<Rightarrow> do {
          (status, rd, w) \<leftarrow> (if \<not> rr_has rd then occurrence_reader_next rd w else Some (1, rd, w));
          if status \<le> 0 then Some (status, source\<lparr>ls_reader := WordCache rd, ls_has := False\<rparr>, w)
          else let line_no = oc_line (rr_current rd) in do {
            (r, rd, w) \<leftarrow> skip_same_line rd line_no w;
            Some (if r < 0 then -1 else 1,
                  source\<lparr>ls_reader := WordCache rd, ls_current := line_no, ls_has := True\<rparr>, w) } }
      | LineFile rd \<Rightarrow> do {
          (status, rd, w) \<leftarrow> line_number_reader_next rd w;
          if status \<le> 0 then Some (status, source\<lparr>ls_reader := LineFile rd, ls_has := False\<rparr>, w)
          else Some (1, source\<lparr>ls_reader := LineFile rd, ls_current := rr_current rd, ls_has := True\<rparr>, w) })"

definition line_number_source_close :: "line_number_source \<Rightarrow> world \<Rightarrow> int \<times> line_number_source \<times> world" where
  "line_number_source_close source w =
     (case ls_reader source of
        WordCache rd \<Rightarrow> (case occurrence_reader_close rd w of (r, rd, w) \<Rightarrow>
          (r, source\<lparr>ls_reader := WordCache rd\<rparr>, w))
      | LineFile rd \<Rightarrow>
          (0, source\<lparr>ls_reader := LineFile (rd\<lparr>rr_fd := -1, rr_pos := 0, rr_len := 0, rr_has := False\<rparr>),
                     ls_has := False\<rparr>, w))"

section \<open>Fixed-size codecs\<close>

text \<open>What the buffered readers need of their element type.\<close>

locale codec =
  fixes sz :: nat and enc :: "'a \<Rightarrow> byte list" and dec :: "byte list \<Rightarrow> 'a"
  assumes sz_pos: "0 < sz" and length_enc: "length (enc v) = sz" and dec_enc: "dec (enc v) = v"

context codec
begin

lemma length_encs: "length (concat (map enc xs)) = sz * length xs"
  by (induction xs) (simp_all add: length_enc)

lemma drop_encs: "drop (sz * n) (concat (map enc xs)) = concat (map enc (drop n xs))"
proof (induction n arbitrary: xs)
  case (Suc n)
  then show ?case by (cases xs) (simp_all add: length_enc)
qed simp

lemma take_encs: "take (sz * n) (concat (map enc xs)) = concat (map enc (take n xs))"
proof (induction n arbitrary: xs)
  case (Suc n)
  then show ?case by (cases xs) (simp_all add: length_enc)
qed simp

lemma elements_encs: "elements sz dec (concat (map enc xs)) = xs"
proof (rule nth_equalityI)
  show l: "length (elements sz dec (concat (map enc xs))) = length xs"
    using sz_pos by (simp add: elements_def length_encs)
  fix k assume "k < length (elements sz dec (concat (map enc xs)))"
  then have k: "k < length xs" using l by simp
  have "take sz (drop (sz * k) (concat (map enc xs))) = enc (xs ! k)"
    using k take_encs [of 1 "drop k xs"] by (simp add: drop_encs take_Suc hd_drop_conv_nth)
  then show "elements sz dec (concat (map enc xs)) ! k = xs ! k"
    using k sz_pos by (simp add: elements_def length_encs dec_enc)
qed

end

interpretation occ_codec: codec OCC_SIZE enc_occ dec_occ
  by unfold_locales (simp_all add: OCC_SIZE_def enc_occ_def dec_occ_def)

interpretation u32_codec: codec 4 enc_u32 dec_u32
  by unfold_locales simp_all

section \<open>Advancing a reader\<close>

text \<open>\<open>reader_at enc i rd w xs\<close>: the reader of inode \<open>i\<close> will deliver \<open>xs\<close>.\<close>

definition reader_at :: "('a \<Rightarrow> byte list) \<Rightarrow> nat \<Rightarrow> 'a reader \<Rightarrow> world \<Rightarrow> 'a list \<Rightarrow> bool" where
  "reader_at enc i rd w xs \<longleftrightarrow> (\<exists>f rest. fd_of w (rr_fd rd) = Some f \<and> o_kind f = Regular \<and> o_ino f = i
     \<and> rr_pos rd \<le> rr_len rd \<and> rr_len rd = length (rr_items rd)
     \<and> drop (o_off f) (w_data w i) = concat (map enc rest) \<and> xs = drop (rr_pos rd) (rr_items rd) @ rest)"

lemma reader_at_frame:
  assumes "reader_at enc i rd w xs" and "frame s w w'" and "wfw w" and "rr_fd rd \<in> sc_fds s" and "rr_fd rd \<notin> sc_move s"
    and "i \<notin> sc_write s"
  shows "reader_at enc i rd w' xs"
proof -
  obtain f rest where f: "fd_of w (rr_fd rd) = Some f" "o_kind f = Regular" "o_ino f = i"
    "rr_pos rd \<le> rr_len rd" "rr_len rd = length (rr_items rd)"
    "drop (o_off f) (w_data w i) = concat (map enc rest)" "xs = drop (rr_pos rd) (rr_items rd) @ rest"
    using assms(1) unfolding reader_at_def by blast
  have "fd_of w' (rr_fd rd) = Some f" using frame_fd [OF assms(2,4,5)] f(1) by simp
  moreover have "w_data w' i = w_data w i"
    using frame_data [OF assms(2)] assms(3,6) f(1,3) by (auto simp: wfw_def)
  ultimately show ?thesis using f unfolding reader_at_def by metis
qed

definition next_step :: "('a \<Rightarrow> byte list) \<Rightarrow> nat \<Rightarrow> 'a reader \<Rightarrow> world \<Rightarrow> 'a list \<Rightarrow> int \<times> 'a reader \<times> world \<Rightarrow> bool" where
  "next_step enc i rd w xs = (\<lambda>(r, rd', w'). frame (rd_scope (rr_fd rd)) w w' \<and> w_data w' = w_data w
     \<and> rr_fd rd' = rr_fd rd \<and> (r = -1 \<and> \<not> clean w
      \<or> r = 0 \<and> xs = [] \<and> \<not> rr_has rd' \<and> reader_at enc i rd' w' []
      \<or> r = 1 \<and> xs \<noteq> [] \<and> rr_has rd' \<and> rr_current rd' = hd xs \<and> reader_at enc i rd' w' (tl xs)))"

context codec
begin

lemma reader_next_spec:
  assumes r: "reader_at enc i rd w xs" and n: "0 < n"
  shows "wp (reader_next sz n dec rd w) (next_step enc i rd w xs)"
proof -
  obtain f rest where f: "fd_of w (rr_fd rd) = Some f" "o_kind f = Regular" "o_ino f = i"
    "rr_pos rd \<le> rr_len rd" "rr_len rd = length (rr_items rd)"
    "drop (o_off f) (w_data w i) = concat (map enc rest)" "xs = drop (rr_pos rd) (rr_items rd) @ rest"
    using r unfolding reader_at_def by blast
  show ?thesis
  proof (cases "rr_pos rd = rr_len rd")
    case False
    then have lt: "rr_pos rd < length (rr_items rd)" using f(4,5) by simp
    let ?rd = "rd\<lparr>rr_current := rr_items rd ! rr_pos rd, rr_pos := rr_pos rd + 1, rr_has := True\<rparr>"
    have "xs = rr_items rd ! rr_pos rd # drop (Suc (rr_pos rd)) (rr_items rd) @ rest"
      using f(7) lt by (simp add: Cons_nth_drop_Suc [symmetric])
    moreover have "reader_at enc i ?rd w (drop (Suc (rr_pos rd)) (rr_items rd) @ rest)"
      unfolding reader_at_def by (rule exI [of _ f], rule exI [of _ rest]) (use f lt in simp)
    ultimately show ?thesis using False lt by (simp add: reader_next_def Let_def next_step_def)
  next
    case True
    then have xs: "xs = rest" using f(4,5,7) by simp
    obtain got bs w1 where g: "read_retry (rr_fd rd) (sz * n) w = (got, bs, w1)" using prod_cases3 by blast
    note rs = read_retry_spec [OF g f(1)]
    show ?thesis
    proof (cases "got < 0")
      case True
      then show ?thesis using \<open>rr_pos rd = rr_len rd\<close> rs by (auto simp: reader_next_def g next_step_def)
    next
      case False
      then have bs: "got = int (length bs)" "bs = concat (map enc (take n rest))"
        and w1: "fd_of w1 (rr_fd rd) = Some (f\<lparr>o_off := o_off f + length bs\<rparr>)" "w_data w1 = w_data w"
        "frame (rd_scope (rr_fd rd)) w w1"
        using rs f(2,3,6) by (auto simp: take_encs [symmetric])
      have lb: "length bs = sz * length (take n rest)" using bs(2) length_encs by simp
      have rest: "drop (o_off f + length bs) (w_data w1 i) = concat (map enc (drop n rest))"
      proof -
        have "drop (o_off f + length bs) (w_data w1 i) = drop (length bs) (concat (map enc rest))"
          using f(6) w1(2) by (metis add.commute drop_drop)
        also have "\<dots> = concat (map enc (drop (length (take n rest)) rest))" by (simp only: lb drop_encs)
        finally show ?thesis by (cases "n \<le> length rest") (simp_all add: min_def)
      qed
      show ?thesis
      proof (cases "rest = []")
        case True
        then have "bs = []" using bs(2) by simp
        moreover have "reader_at enc i (rd\<lparr>rr_has := False\<rparr>) w1 []"
          unfolding reader_at_def
          by (rule exI [of _ "f\<lparr>o_off := o_off f + length bs\<rparr>"], rule exI [of _ "[]"])
            (use w1 f \<open>rr_pos rd = rr_len rd\<close> rest True in simp)
        ultimately show ?thesis using \<open>rr_pos rd = rr_len rd\<close> g bs w1 xs True
          by (simp add: reader_next_def next_step_def)
      next
        case ne: False
        then have pos: "0 < length bs" using lb sz_pos n by simp
        have el: "elements sz dec bs = take n rest" unfolding bs(2) by (rule elements_encs)
        have dv: "length bs mod sz = 0" "length bs div sz = length (take n rest)" using lb sz_pos by simp_all
        let ?rd = "rd\<lparr>rr_items := take n rest, rr_len := length (take n rest),
            rr_current := hd rest, rr_pos := 1, rr_has := True\<rparr>"
        have n0: "take n rest ! 0 = hd rest" "0 < length (take n rest)"
          using ne n by (simp_all add: hd_conv_nth)
        have tl: "tl rest = drop 1 (take n rest) @ drop n rest"
          using ne n by (cases rest; cases n) auto
        have one: "Suc 0 \<le> length rest" using ne by (cases rest) simp_all
        have "reader_at enc i ?rd w1 (tl rest)"
          unfolding reader_at_def
          by (rule exI [of _ "f\<lparr>o_off := o_off f + length bs\<rparr>"], rule exI [of _ "drop n rest"])
            (use w1 f rest tl n0(2) one in simp)
        then show ?thesis using \<open>rr_pos rd = rr_len rd\<close> g bs(1) pos dv el n0 w1 xs ne
          by (simp add: reader_next_def next_step_def nat_int Let_def)
      qed
    qed
  qed
qed

end

lemma occurrence_reader_next_spec:
  "reader_at enc_occ i rd w xs \<Longrightarrow> wp (occurrence_reader_next rd w) (next_step enc_occ i rd w xs)"
  unfolding occurrence_reader_next_def by (rule occ_codec.reader_next_spec) simp_all

lemma line_number_reader_next_spec:
  "reader_at enc_u32 i rd w xs \<Longrightarrow> wp (line_number_reader_next rd w) (next_step enc_u32 i rd w xs)"
  unfolding line_number_reader_next_def by (rule u32_codec.reader_next_spec) simp_all

section \<open>What a scan delivers\<close>

text \<open>
  The contract of the callbacks of the two scanning functions: \<open>inv rs arg w\<close> says that the
  records \<open>rs\<close> have been consumed. A callback may only fail because of the kernel, and must
  leave alone the file \<open>i\<close> that is being scanned at descriptor \<open>fd\<close>.
\<close>

definition same_file :: "int \<Rightarrow> nat \<Rightarrow> world \<Rightarrow> world \<Rightarrow> bool" where
  "same_file fd i w w' \<longleftrightarrow> fd_of w' fd = fd_of w fd \<and> w_data w' i = w_data w i"

lemma same_file_trans: "same_file fd i a b \<Longrightarrow> same_file fd i b c \<Longrightarrow> same_file fd i a c"
  by (simp add: same_file_def)

locale record_consumer =
  fixes fn :: "'a consumer" and good :: "occ_record \<Rightarrow> bool"
    and inv :: "occ_record list \<Rightarrow> 'a \<Rightarrow> world \<Rightarrow> bool" and fd :: int and i :: nat and start :: world
  assumes inv_read: "inv rs arg w \<Longrightarrow> frame (rd_scope fd) w w' \<Longrightarrow> w_data w' = w_data w \<Longrightarrow> inv rs arg w'"
    and inv_clean: "inv rs arg w \<Longrightarrow> clean start \<Longrightarrow> clean w"
    and consume: "inv rs arg w \<Longrightarrow> good rc \<Longrightarrow> wp (fn rc arg w) (\<lambda>(r, arg', w').
      0 \<le> r \<and> inv (rs @ [rc]) arg' w' \<and> same_file fd i w w' \<or> r < 0 \<and> \<not> clean start)"

context record_consumer
begin

lemma scan_records_spec:
  assumes "inv done arg w" and "list_all good (filter sel rs)"
  shows "wp (scan_records sel fn rs arg w) (\<lambda>(r, arg', w').
     r = 0 \<and> inv (done @ filter sel rs) arg' w' \<and> same_file fd i w w' \<or> r < 0 \<and> \<not> clean start)"
  using assms
proof (induction rs arbitrary: "done" arg w)
  case Nil
  then show ?case by (simp add: same_file_def)
next
  case (Cons rc rs)
  show ?case
  proof (cases "sel rc")
    case False
    then show ?thesis using Cons by simp
  next
    case True
    then have "good rc" using Cons.prems(2) by simp
    from consume [OF Cons.prems(1) this] obtain r arg1 w1 where f: "fn rc arg w = Some (r, arg1, w1)"
      and c: "0 \<le> r \<and> inv (done @ [rc]) arg1 w1 \<and> same_file fd i w w1 \<or> r < 0 \<and> \<not> clean start"
      by (auto simp: wp_iff)
    show ?thesis
    proof (cases "r < 0")
      case True
      then show ?thesis using \<open>sel rc\<close> f c by simp
    next
      case False
      then have i1: "inv (done @ [rc]) arg1 w1" "same_file fd i w w1" using c by simp_all
      have "wp (scan_records sel fn rs arg1 w1) (\<lambda>(r, arg', w').
          r = 0 \<and> inv ((done @ [rc]) @ filter sel rs) arg' w' \<and> same_file fd i w1 w' \<or> r < 0 \<and> \<not> clean start)"
        by (rule Cons.IH [OF i1(1)]) (use Cons.prems(2) \<open>sel rc\<close> in simp)
      then show ?thesis using \<open>sel rc\<close> f False same_file_trans [OF i1(2)] by (auto elim!: wp_mono)
    qed
  qed
qed

lemma chunk_records:
  assumes "bs = recs_bytes rs"
  shows "map (chunk_record (store_at chunk 0 bs)) [0..<length bs div OCC_SIZE] = rs"
proof -
  have l: "length bs = OCC_SIZE * length rs" using occ_codec.length_encs by (simp add: assms recs_bytes_def)
  have "chunk_record (store_at chunk 0 bs) k = dec_occ (take OCC_SIZE (drop (OCC_SIZE * k) bs))"
    if k: "k < length rs" for k
  proof -
    have "OCC_SIZE * Suc k \<le> length bs" unfolding l using k by (intro mult_le_mono2) simp
    then show ?thesis by (simp add: chunk_record_def store_at_def OCC_SIZE_def)
  qed
  moreover have "length bs div OCC_SIZE = length rs" using l by (simp add: OCC_SIZE_def)
  ultimately have "map (chunk_record (store_at chunk 0 bs)) [0..<length bs div OCC_SIZE] = elements OCC_SIZE dec_occ bs"
    by (simp add: elements_def)
  then show ?thesis using occ_codec.elements_encs by (simp add: assms recs_bytes_def)
qed

lemma scan_loop_spec:
  assumes "fd_of w fd = Some f" and "o_kind f = Regular" and "o_ino f = i"
    and "drop (o_off f) (w_data w i) = recs_bytes rs" and "inv done arg w" and "list_all good (filter sel rs)"
  shows "wp (scan_loop sel fn fd chunk 0 arg w) (\<lambda>(r, carry, arg', w').
     r = 0 \<and> carry = 0 \<and> inv (done @ filter sel rs) arg' w' \<or> r < 0 \<and> \<not> clean start)"
  using assms
proof (induction "length rs" arbitrary: rs f "done" arg w chunk rule: less_induct)
  case less
  obtain got bs w1 where g: "read_retry fd CHUNK_SIZE w = (got, bs, w1)" using prod_cases3 by blast
  note rs = read_retry_spec [OF g less.prems(1)]
  have cl: "\<not> clean w \<Longrightarrow> \<not> clean start" using inv_clean [OF less.prems(5)] by blast
  have ch: "CHUNK_SIZE = OCC_SIZE * 1024" by (simp add: CHUNK_SIZE_def)
  show ?case
  proof (cases "got < 0")
    case True
    then show ?thesis using rs cl by (subst scan_loop.simps) (auto simp: g)
  next
    case False
    have bs: "got = int (length bs)" "bs = recs_bytes (take 1024 rs)"
      using False rs less.prems(2,3,4) occ_codec.take_encs [of 1024] by (auto simp: ch recs_bytes_def)
    have w1: "fd_of w1 fd = Some (f\<lparr>o_off := o_off f + length bs\<rparr>)" "w_data w1 = w_data w"
      "frame (rd_scope fd) w w1" using False rs by auto
    have i1: "inv done arg w1" by (rule inv_read [OF less.prems(5) w1(3,2)])
    have lb: "length bs = OCC_SIZE * length (take 1024 rs)"
      using bs(2) occ_codec.length_encs by (simp add: recs_bytes_def)
    show ?thesis
    proof (cases "rs = []")
      case True
      then show ?thesis using bs i1 False by (subst scan_loop.simps) (simp add: g recs_bytes_def)
    next
      case ne: False
      then have pos: "0 < length bs" using lb by (simp add: OCC_SIZE_def)
      let ?ch = "store_at chunk 0 bs" and ?us = "length bs div OCC_SIZE * OCC_SIZE"
      have us: "?us = length bs" using lb by (simp add: OCC_SIZE_def)
      have take: "map (chunk_record ?ch) [0..<length bs div OCC_SIZE] = take 1024 rs" by (rule chunk_records [OF bs(2)])
      have good1: "list_all good (filter sel (take 1024 rs))" "list_all good (filter sel (drop 1024 rs))"
        using less.prems(6) filter_append [of sel "take 1024 rs" "drop 1024 rs"] by (simp_all add: list_all_append)
      from scan_records_spec [OF i1 good1(1)] obtain r arg2 w2 where
        sr: "scan_records sel fn (take 1024 rs) arg w1 = Some (r, arg2, w2)" and
        c: "r = 0 \<and> inv (done @ filter sel (take 1024 rs)) arg2 w2 \<and> same_file fd i w1 w2 \<or> r < 0 \<and> \<not> clean start"
        by (auto simp: wp_iff)
      have unf: "scan_loop sel fn fd chunk 0 arg w = (if r < 0 then Some (-1, 0, arg2, w2)
          else scan_loop sel fn fd ?ch 0 arg2 w2)"
        using bs(1) pos us take sr occ_codec.sz_pos by (subst scan_loop.simps) (simp add: g Let_def)
      show ?thesis
      proof (cases "r < 0")
        case True
        then show ?thesis unfolding unf using c by simp
      next
        case r0: False
        then have i2: "inv (done @ filter sel (take 1024 rs)) arg2 w2" "same_file fd i w1 w2" using c by simp_all
        have "drop (o_off f + length bs) (w_data w2 i) = drop (length bs) (recs_bytes rs)"
          using less.prems(4) w1(2) i2(2) by (metis add.commute drop_drop same_file_def)
        also have "\<dots> = recs_bytes (drop (length (take 1024 rs)) rs)"
          unfolding lb recs_bytes_def by (rule occ_codec.drop_encs)
        finally have rest: "drop (o_off f + length bs) (w_data w2 i) = recs_bytes (drop 1024 rs)"
          by (cases "1024 \<le> length rs") (simp_all add: min_def)
        have "wp (scan_loop sel fn fd ?ch 0 arg2 w2) (\<lambda>(r, carry, arg', w').
            r = 0 \<and> carry = 0 \<and> inv ((done @ filter sel (take 1024 rs)) @ filter sel (drop 1024 rs)) arg' w'
            \<or> r < 0 \<and> \<not> clean start)"
        proof (rule less.hyps [OF _ _ _ _ _ i2(1) good1(2)])
          show "fd_of w2 fd = Some (f\<lparr>o_off := o_off f + length bs\<rparr>)" using w1(1) i2(2) by (simp add: same_file_def)
        qed (use ne less.prems(2,3) rest in simp_all)
        moreover have "(done @ filter sel (take 1024 rs)) @ filter sel (drop 1024 rs) = done @ filter sel rs"
          by (simp add: filter_append [symmetric])
        ultimately show ?thesis unfolding unf using r0 by simp
      qed
    qed
  qed
qed

end

section \<open>Consumers that write\<close>

text \<open>
  What is known while a writer is in use: \<open>S\<close> bounds what has been touched since
  \<open>start\<close>, \<open>d\<close> has been written, and the only descriptors opened since are those in \<open>F\<close>.
\<close>

definition writing :: "scope \<Rightarrow> int set \<Rightarrow> int \<Rightarrow> nat \<Rightarrow> world \<Rightarrow> byte list \<Rightarrow> outbuf \<Rightarrow> world \<Rightarrow> bool" where
  "writing S F ofd oi start d out w \<longleftrightarrow> frame S start w \<and> wfw w \<and> ob_fd out = ofd \<and> sink_ok oi out w
     \<and> sink out w = d \<and> (ofd \<in> sc_fds S \<longrightarrow> ofd \<in> sc_move S) \<and> oi \<in> sc_write S
     \<and> (\<forall>y. fd_of w y \<noteq> None \<longrightarrow> y \<in> F \<or> fd_of start y \<noteq> None)"

lemma writing_clean: "writing S F ofd oi start d out w \<Longrightarrow> clean start \<Longrightarrow> clean w"
  unfolding writing_def using frame_clean by blast

lemma frame_UNIV_fds: "frame s w w' \<Longrightarrow> sc_fds s = UNIV \<Longrightarrow> fd_of w' y \<noteq> None \<Longrightarrow> fd_of w y \<noteq> None"
  using frame_handles [of s w w' y] by (metis UNIV_I map_option_is_None)

lemma writing_read:
  assumes f: "writing S F ofd oi start d out w" and r: "frame (rd_scope fd) w w'"
    and fd: "fd \<noteq> ofd" "fd \<in> sc_fds S \<longrightarrow> fd \<in> sc_move S"
  shows "writing S F ofd oi start d out w'"
proof -
  have "frame S w w'" by (rule frame_weaken [OF r]) (use fd in auto)
  then have "frame S start w'" using f frame_trans by (auto simp: writing_def)
  moreover have "sink_ok oi out w' \<and> sink out w' = sink out w"
    using sink_ok_frame [OF _ r, of oi out] f fd by (simp add: writing_def)
  moreover have "\<forall>y. fd_of w' y \<noteq> None \<longrightarrow> y \<in> F \<or> fd_of start y \<noteq> None"
    using f frame_UNIV_fds [OF r] by (simp add: writing_def)
  ultimately show ?thesis using f frame_wfw [OF r] by (simp add: writing_def)
qed

text \<open>Everything but the written file stays.\<close>

definition rest_same :: "int \<Rightarrow> nat \<Rightarrow> world \<Rightarrow> world \<Rightarrow> bool" where
  "rest_same ofd oi w w' \<longleftrightarrow> frame (wr_scope ofd oi) w w'"

lemma writing_emits:
  assumes f: "writing S F ofd oi start d out w" and e: "emits oi out w d' (r, out', w')"
  shows "r = 0 \<and> writing S F ofd oi start (d @ d') out' w' \<and> rest_same ofd oi w w' \<or> r < 0 \<and> \<not> clean start"
proof (cases "r < 0")
  case True
  then show ?thesis using e writing_clean [OF f] by (auto simp: emits_def)
next
  case False
  have fr: "frame (wr_scope ofd oi) w w'" using e f by (simp add: emits_def writing_def)
  have "frame S w w'" by (rule frame_weaken [OF fr]) (use f in \<open>auto simp: writing_def\<close>)
  then have "frame S start w'" using f frame_trans by (auto simp: writing_def)
  moreover have "\<forall>y. fd_of w' y \<noteq> None \<longrightarrow> y \<in> F \<or> fd_of start y \<noteq> None"
    using f frame_UNIV_fds [OF fr] by (simp add: writing_def)
  ultimately show ?thesis using False f e fr frame_wfw [OF fr] by (auto simp: writing_def emits_def rest_same_def)
qed

text \<open>A writer fed from the file \<open>i\<close> that is being scanned at \<open>fd\<close>.\<close>

definition feeding :: "scope \<Rightarrow> int \<Rightarrow> nat \<Rightarrow> int \<Rightarrow> nat \<Rightarrow> world \<Rightarrow> byte list \<Rightarrow> outbuf \<Rightarrow> world \<Rightarrow> bool" where
  "feeding S fd i ofd oi start d out w \<longleftrightarrow> writing S {fd} ofd oi start d out w
     \<and> fd \<noteq> ofd \<and> i \<noteq> oi \<and> (\<exists>f. fd_of w fd = Some f \<and> o_ino f = i) \<and> (fd \<in> sc_fds S \<longrightarrow> fd \<in> sc_move S)"

lemma feeding_clean: "feeding S fd i ofd oi start d out w \<Longrightarrow> clean start \<Longrightarrow> clean w"
  unfolding feeding_def using writing_clean by blast

lemma feeding_read:
  assumes f: "feeding S fd i ofd oi start d out w" and r: "frame (rd_scope fd) w w'"
  shows "feeding S fd i ofd oi start d out w'"
proof -
  have "\<exists>f. fd_of w' fd = Some f \<and> o_ino f = i"
    using f frame_handle [OF r, of fd] by (auto simp: feeding_def)
  then show ?thesis using f writing_read [OF _ r] by (simp add: feeding_def)
qed

lemma feeding_emits:
  assumes f: "feeding S fd i ofd oi start d out w" and e: "emits oi out w d' (r, out', w')"
  shows "0 \<le> r \<and> r = 0 \<and> feeding S fd i ofd oi start (d @ d') out' w' \<and> same_file fd i w w' \<or> r < 0 \<and> \<not> clean start"
proof -
  obtain g where g: "fd_of w fd = Some g" "o_ino g = i" and ne: "fd \<noteq> ofd" "i \<noteq> oi"
    and w: "writing S {fd} ofd oi start d out w" using f by (auto simp: feeding_def)
  have "fd_of w' fd = fd_of w fd \<and> w_data w' i = w_data w i" if "rest_same ofd oi w w'"
    using that frame_fd [of "wr_scope ofd oi" w w' fd] frame_data [of "wr_scope ofd oi" w w' i] ne g w
    by (auto simp: rest_same_def writing_def wfw_def)
  then show ?thesis using writing_emits [OF w e] f g by (auto simp: feeding_def same_file_def)
qed

definition cache_inv ::
  "scope \<Rightarrow> int \<Rightarrow> nat \<Rightarrow> int \<Rightarrow> nat \<Rightarrow> world \<Rightarrow> occ_record list \<Rightarrow> cache_writer \<Rightarrow> world \<Rightarrow> bool" where
  "cache_inv S fd i ofd oi start rs cw w \<longleftrightarrow> feeding S fd i ofd oi start (recs_bytes rs) (cw_out cw) w
     \<and> cw_count cw = of_nat (length rs)"

interpretation cache_consumer: record_consumer cache_record_consumer "\<lambda>rc. True"
    "cache_inv S fd i ofd oi start" fd i start for S fd i ofd oi start
proof unfold_locales
  fix rs and cw :: cache_writer and w w' rc
  show "cache_inv S fd i ofd oi start rs cw w'"
    if "cache_inv S fd i ofd oi start rs cw w" "frame (rd_scope fd) w w'" "w_data w' = w_data w"
    using that feeding_read by (auto simp: cache_inv_def)
  show "clean w" if "cache_inv S fd i ofd oi start rs cw w" "clean start"
    using that feeding_clean by (auto simp: cache_inv_def)
  show "wp (cache_record_consumer rc cw w) (\<lambda>(r, arg', w').
      0 \<le> r \<and> cache_inv S fd i ofd oi start (rs @ [rc]) arg' w' \<and> same_file fd i w w' \<or> r < 0 \<and> \<not> clean start)"
    if c: "cache_inv S fd i ofd oi start rs cw w"
  proof -
    have f: "feeding S fd i ofd oi start (recs_bytes rs) (cw_out cw) w" using c by (simp add: cache_inv_def)
    obtain r out w1 where o: "outbuf_write_data (cw_out cw) (enc_occ rc) w = (r, out, w1)" using prod_cases3 by blast
    have "emits oi (cw_out cw) w (enc_occ rc) (r, out, w1)"
      using outbuf_write_data_emits [of oi "cw_out cw" w "enc_occ rc"] f o by (simp add: feeding_def writing_def)
    from feeding_emits [OF f this] show ?thesis
      using c by (auto simp: cache_record_consumer_def o cache_inv_def recs_bytes_def)
  qed
qed

end
