(* ===== verification/Pa1_Cache.thy ===== *)
theory Pa1_Cache
  imports Pa1_Readers
begin

text \<open>
  What the cache files and the sources of line numbers of \<^verbatim>\<open>PA1/query.c\<close> deliver:
  \<open>ensure_word_cache\<close> materializes exactly the occurrences of a word, and a source yields each
  line that contains the word once, in order.
\<close>

section \<open>Occurrences and words\<close>

lemma length_occs_from: "length (occs_from k (lines_of s)) \<le> length s"
proof (induction "length s" arbitrary: k s rule: less_induct)
  case less
  show ?case
  proof (cases "s = []")
    case False
    let ?n = "line_size s"
    have n: "0 < ?n" "?n \<le> length s" "length (takeWhile not_nl s) \<le> ?n"
      using line_size_rest(3) [OF False] line_size_rest(2) [of s] by (simp_all add: line_size_def)
    have "length (occs_from (Suc k) (lines_of (drop ?n s))) \<le> length (drop ?n s)"
      by (rule less) (use n False in simp)
    moreover have "length (line_occs k (takeWhile not_nl s)) \<le> ?n"
      using length_line_occs [of k "takeWhile not_nl s"] n(3) by simp
    ultimately show ?thesis using n by (simp add: lines_of_Cons [OF False])
  qed simp
qed

lemma length_occs_of: "length (occs_of T) \<le> length T"
  by (simp add: occs_of_def length_occs_from)

lemma word_recs_filter:
  assumes k: "k < length (words_of (occs_of T))" and len: "length T < 2 ^ 32"
  shows "filter (\<lambda>rc. oc_word rc = of_nat k) (bucket_recs (occs_of T) (bucket_of (words_of (occs_of T) ! k)))
    = word_recs T k"
proof -
  let ?ws = "words_of (occs_of T)"
  have small: "length ?ws < 2 ^ 32"
    using length_words_of [of "occs_of T"] length_occs_of [of T] len by simp
  have iff: "oc_word (record_of ?ws oc) = of_nat k \<longleftrightarrow> fst oc = ?ws ! k" if "oc \<in> set (occs_of T)" for oc
  proof -
    have "fst oc \<in> set ?ws" using that by (simp add: set_words_of)
    then obtain j where j: "pos_of (fst oc) ?ws = Some j" by (metis not_None_eq pos_of_None)
    note jl = pos_of_Some [OF j, THEN conjunct1] pos_of_Some [OF j, THEN conjunct2]
    have "unat (of_nat j :: u32) = j" "unat (of_nat k :: u32) = k"
      using unat_u32 [OF order.strict_trans [OF jl(1) small]] unat_u32 [OF order.strict_trans [OF k small]] .
    then have "(of_nat j :: u32) = of_nat k \<longleftrightarrow> j = k" by metis
    moreover have "j = k \<longleftrightarrow> fst oc = ?ws ! k"
      using jl k distinct_words_of nth_eq_iff_index_eq by metis
    ultimately show ?thesis by (simp add: record_of_def j)
  qed
  have "filter (\<lambda>rc. oc_word rc = of_nat k) (map (record_of ?ws) (filter P (occs_of T)))
      = map (record_of ?ws) (filter (\<lambda>oc. fst oc = ?ws ! k) (filter P (occs_of T)))" for P
    unfolding filter_map comp_def by (rule arg_cong [of _ _ "map _"], rule filter_cong) (auto simp: iff)
  moreover have "filter (\<lambda>oc. fst oc = ?ws ! k) (filter (\<lambda>oc. bucket_of (fst oc) = bucket_of (?ws ! k)) (occs_of T))
      = filter (\<lambda>oc. fst oc = ?ws ! k) (occs_of T)"
    unfolding filter_filter by (rule filter_cong) auto
  ultimately show ?thesis by (simp add: bucket_recs_def word_recs_def)
qed

lemma length_word_recs: "length (word_recs T k) \<le> length T"
  using length_filter_le [of "\<lambda>oc. fst oc = words_of (occs_of T) ! k" "occs_of T"] length_occs_of [of T]
  unfolding word_recs_def length_map by linarith

section \<open>Recording a cache\<close>

lemma lex_ok_set_cache:
  assumes ok: "lex_ok lx" and k: "k < length (lx_entries lx)"
  shows "lex_ok (lx\<lparr>lx_entries := (lx_entries lx)[k := (lx_entries lx ! k)\<lparr>le_cache_path := p, le_cache_count := c\<rparr>]\<rparr>)"
    and "lex_words (lx\<lparr>lx_entries := (lx_entries lx)[k := (lx_entries lx ! k)\<lparr>le_cache_path := p, le_cache_count := c\<rparr>]\<rparr>)
      = lex_words lx"
proof -
  let ?es = "(lx_entries lx)[k := (lx_entries lx ! k)\<lparr>le_cache_path := p, le_cache_count := c\<rparr>]"
  have same: "map le_text ?es = map le_text (lx_entries lx)" "map le_hash ?es = map le_hash (lx_entries lx)"
    "map le_next ?es = map le_next (lx_entries lx)"
    using k by (auto simp: list_eq_iff_nth_eq nth_list_update)
  have nth: "le_hash (?es ! j) = le_hash (lx_entries lx ! j)" "le_next (?es ! j) = le_next (lx_entries lx ! j)" for j
    using k by (cases "j = k"; simp)+
  have "entry_ok j (?es ! j)" if "j < length (lx_entries lx)" for j
    using that ok k by (cases "j = k") (auto simp: lex_ok_def entry_ok_def)
  moreover have "chains_ok ?es (lx_slots lx) (lx_slot_count lx)"
    using ok unfolding chains_ok_def nth same by (simp add: lex_ok_def chains_ok_def)
  ultimately show "lex_ok (lx\<lparr>lx_entries := ?es\<rparr>)" using ok same by (simp add: lex_ok_def lex_words_def)
  show "lex_words (lx\<lparr>lx_entries := ?es\<rparr>) = lex_words lx" using same by (simp add: lex_words_def)
qed

definition cached :: "index \<Rightarrow> nat \<Rightarrow> bool" where
  "cached ix k \<longleftrightarrow> k < length (lx_entries (ix_lexicon ix)) \<and> le_cache_path (lx_entries (ix_lexicon ix) ! k) \<noteq> None"

text \<open>The index of a later moment: more words may have a cache, the rest is the same.\<close>

definition grown :: "index \<Rightarrow> index \<Rightarrow> bool" where
  "grown ix ix' \<longleftrightarrow> (\<exists>lx. ix' = ix\<lparr>ix_lexicon := lx\<rparr>) \<and> (\<forall>k. cached ix k \<longrightarrow> cached ix' k)"

lemma grown_refl [simp]: "grown ix ix"
  by (auto simp: grown_def intro: exI [of _ "ix_lexicon ix"])

lemma grown_trans: "grown a b \<Longrightarrow> grown b c \<Longrightarrow> grown a c"
  by (auto simp: grown_def)

lemma grown_fds: "grown ix ix' \<Longrightarrow> ix_occ_fds ix' = ix_occ_fds ix \<and> ix_input_fd ix' = ix_input_fd ix"
  by (auto simp: grown_def)

lemma cache_paths_set:
  assumes "k < length es" and "le_cache_path (es ! k) = None"
  shows "\<exists>A B. concat (map (\<lambda>e. case le_cache_path e of None \<Rightarrow> [] | Some p \<Rightarrow> [p]) es) = A @ B
    \<and> concat (map (\<lambda>e. case le_cache_path e of None \<Rightarrow> [] | Some p \<Rightarrow> [p])
        (es[k := (es ! k)\<lparr>le_cache_path := Some p, le_cache_count := c\<rparr>])) = A @ p # B"
proof -
  let ?f = "\<lambda>e. case le_cache_path e of None \<Rightarrow> [] | Some p \<Rightarrow> [p]"
  have "concat (map ?f es) = concat (map ?f (take k es @ es ! k # drop (Suc k) es))"
    by (simp only: id_take_nth_drop [OF assms(1), symmetric])
  then have "concat (map ?f es) = concat (map ?f (take k es)) @ ?f (es ! k) @ concat (map ?f (drop (Suc k) es))"
    by (simp only: map_append concat_append list.map concat.simps)
  moreover have "concat (map ?f (es[k := (es ! k)\<lparr>le_cache_path := Some p, le_cache_count := c\<rparr>]))
      = concat (map ?f (take k es)) @ [p] @ concat (map ?f (drop (Suc k) es))"
    using assms(1) by (simp add: upd_conv_take_nth_drop)
  ultimately show ?thesis using assms(2) by auto
qed

lemma indexed_set_cache:
  assumes ix: "indexed x T N ix w" and k: "k < length (lx_entries (ix_lexicon ix))"
    and none: "le_cache_path (lx_entries (ix_lexicon ix) ! k) = None"
    and fr: "frame (open_scope w mv {}) w w'" and p: "w_names w p = None"
    and nm: "w_names w' = (w_names w)(p \<mapsto> i)" and i: "i \<noteq> x" "w_data w' i = recs_bytes (word_recs T k)"
  defines "ix' \<equiv> set_entry ix k ((lx_entries (ix_lexicon ix) ! k)\<lparr>le_cache_path := Some p,
      le_cache_count := of_nat (length (word_recs T k))\<rparr>)"
  shows "indexed x T N ix' w'" and "grown ix ix'" and "cached ix' k"
proof -
  let ?lx = "ix_lexicon ix" and ?n = "of_nat (length (word_recs T k)) :: u32"
  let ?e = "(lx_entries ?lx ! k)\<lparr>le_cache_path := Some p, le_cache_count := ?n\<rparr>"
  let ?es = "(lx_entries ?lx)[k := ?e]"
  have T: "length T < 2 ^ 32" "lex_ok ?lx" and wf: "wfw w" and ca: "caches_ok x T N ?lx w"
    using ix by (simp_all add: indexed_def ix_static_def)
  have cnt: "unat ?n = length (word_recs T k)"
    using length_word_recs [of T k] T by (simp add: unat_u32)
  note ok = lex_ok_set_cache [OF T(2) k, where p = "Some p" and c = ?n]
  have st: "ix_static T ix'"
    using ix ok by (simp add: indexed_def ix_static_def ix'_def set_entry_def index_finished_def ix_outs_def ix_fds_def)
  have fl: "ix_files x T ix' w'"
    using ix_files_frame [OF _ fr wf, of x T ix] ix by (auto simp: indexed_def ix'_def set_entry_def ix_files_def)
  have old: "cache_ok x T w' j e" if "cache_ok x T w j e" for j e
  proof -
    have "w_names w' q = Some m \<and> w_data w' m = w_data w m" if q: "w_names w q = Some m" for q m
    proof -
      have "m < w_nino w" using q wf by (auto simp: wfw_def)
      then show ?thesis using frame_data [OF fr, of m] q p nm by auto
    qed
    then show ?thesis using that unfolding cache_ok_def by metis
  qed
  have all: "cache_ok x T w' j (?es ! j)" if "j < length (lx_entries ?lx)" for j
  proof (cases "j = k")
    case True
    then show ?thesis using k i nm cnt by (simp add: cache_ok_def)
  next
    case False
    then show ?thesis using that ca old by (simp add: caches_ok_def)
  qed
  obtain A B where ab: "cache_paths ?lx = A @ B" "cache_paths (?lx\<lparr>lx_entries := ?es\<rparr>) = A @ p # B"
    using cache_paths_set [OF k none, where p = p and c = ?n] by (auto simp: cache_paths_def)
  have "\<forall>q\<in>set (A @ B). w_names w q \<noteq> None" using ca ab(1) by (simp add: caches_ok_def)
  then have np: "p \<notin> set (A @ B)" using p by blast
  have "caches_ok x T N (?lx\<lparr>lx_entries := ?es\<rparr>) w'"
    unfolding caches_ok_def ab(2)
  proof (intro conjI allI impI)
    show "cache_ok x T w' j (lx_entries (?lx\<lparr>lx_entries := ?es\<rparr>) ! j)"
      if "j < length (lx_entries (?lx\<lparr>lx_entries := ?es\<rparr>))" for j using that all by simp
    show "distinct (A @ p # B)" using ca np ab(1) by (auto simp: caches_ok_def)
    show "\<forall>q\<in>set (A @ p # B). N q = None \<and> w_names w' q \<noteq> None"
      using ca np ab(1) nm p by (auto simp: caches_ok_def)
    show "w_names w' q = N q" if "q \<notin> set (A @ p # B)" for q
      using that ca ab(1) nm by (auto simp: caches_ok_def)
  qed
  then have ca': "caches_ok x T N (ix_lexicon ix') w'" by (simp add: ix'_def set_entry_def)
  then show "indexed x T N ix' w'"
    using st fl ix frame_wfw [OF fr wf] frame_nino [OF fr] by (simp add: indexed_def)
  show ck: "cached ix' k" using k by (simp add: cached_def ix'_def set_entry_def)
  have "cached ix' j" if "cached ix j" for j
    using that k by (cases "j = k") (auto simp: cached_def ix'_def set_entry_def)
  then show "grown ix ix'" by (auto simp: grown_def ix'_def set_entry_def)
qed

section \<open>Materializing a cache\<close>

text \<open>Every descriptor that is open afterwards was open before.\<close>

definition tidy :: "world \<Rightarrow> world \<Rightarrow> bool" where
  "tidy w w' \<longleftrightarrow> (\<forall>fd. fd_of w' fd \<noteq> None \<longrightarrow> fd_of w fd \<noteq> None)"

lemma tidy_refl [simp]: "tidy w w"
  by (simp add: tidy_def)

lemma tidy_trans: "tidy a b \<Longrightarrow> tidy b c \<Longrightarrow> tidy a c"
  by (simp add: tidy_def)

lemma seek_start:
  assumes "sys_lseek fd 0 w = (r, w')" and "fd_of w fd = Some f" and "o_kind f = Regular"
  shows "r = -1 \<and> \<not> clean w \<or> r = 0 \<and> frame (rd_scope fd) w w' \<and> w_data w' = w_data w
     \<and> fd_of w' fd = Some (f\<lparr>o_off := 0\<rparr>)"
  using sys_lseek_spec [OF assms]
proof (elim disjE exE conjE)
  fix w1 assume a: "r = int 0" "quiet w w1" "w' = set_fd fd (Some (f\<lparr>o_off := 0\<rparr>)) w1"
  have f1: "fd_of w1 fd = Some f" using quiet_fd_of [OF a(2)] assms(2) by simp
  have "frame (rd_scope fd) w1 w'"
    unfolding a(3) by (rule frame_set_fd [OF f1]) (simp_all add: handle_def)
  then show ?thesis
    using a frame_trans [OF quiet_frame [OF a(2)]] fd_of_set_fd [OF f1] by (auto simp: quiet_def)
qed simp

lemma scan_bucket_cache:
  assumes b: "b < OCC_BUCKETS" "unat bucket = b" and ix: "ix_files x T ix w" "ix_static T ix" and wf: "wfw w"
    and out: "fd_of w fd = Some \<lparr>o_ino = oi, o_off = 0, o_kind = Regular\<rparr>" "w_data w oi = []"
    and new: "\<forall>j. fd_of w (ix_occ_fds ix ! b) = Some j \<longrightarrow> o_ino j \<noteq> oi" "fd \<noteq> ix_occ_fds ix ! b"
  defines "S \<equiv> \<lparr>sc_names = UNIV, sc_fds = UNIV, sc_move = {ix_occ_fds ix ! b, fd}, sc_write = {oi}\<rparr>"
  shows "wp (scan_bucket_for_word ix bucket word_id cache_record_consumer \<lparr>cw_out = outbuf_init fd, cw_count = 0\<rparr> w)
    (\<lambda>(r, cw, w'). r = 0 \<and> frame S w w' \<and> sink_ok oi (cw_out cw) w' \<and> ob_fd (cw_out cw) = fd
        \<and> sink (cw_out cw) w' = recs_bytes (filter (\<lambda>rc. oc_word rc = word_id) (bucket_recs (occs_of T) b))
        \<and> cw_count cw = of_nat (length (filter (\<lambda>rc. oc_word rc = word_id) (bucket_recs (occs_of T) b)))
      \<or> r < 0 \<and> \<not> clean w)"
proof -
  let ?bfd = "ix_occ_fds ix ! b" and ?rs = "bucket_recs (occs_of T) b" and ?sel = "\<lambda>rc. oc_word rc = word_id"
  have lb: "b < length (ix_occ_fds ix)" using b ix(2) by (simp add: ix_static_def)
  obtain f where f: "fd_of w ?bfd = Some f" "o_kind f = Regular" "w_data w (o_ino f) = recs_bytes ?rs"
    using ix(1) b(1) by (auto simp: ix_files_def file_at_def bucket_bytes_def recs_bytes_def)
  obtain r1 w1 where l: "sys_lseek ?bfd 0 w = (r1, w1)" by force
  note ls = seek_start [OF l f(1,2)]
  show ?thesis
  proof (cases "r1 < 0")
    case True
    then show ?thesis using ls lb b(2) by (simp add: scan_bucket_for_word_def l)
  next
    case False
    then have w1: "frame (rd_scope ?bfd) w w1" "w_data w1 = w_data w" "fd_of w1 ?bfd = Some (f\<lparr>o_off := 0\<rparr>)"
      using ls by auto
    have fS: "frame S w w1" by (rule frame_weaken [OF w1(1)]) (simp_all add: S_def)
    have "fd_of w1 fd = Some \<lparr>o_ino = oi, o_off = 0, o_kind = Regular\<rparr>"
      using frame_fd [OF w1(1), of fd] out(1) new(2) by simp
    then have "sink_ok oi (outbuf_init fd) w1" "sink (outbuf_init fd) w1 = []"
      using out(2) w1(2) by (simp_all add: sink_ok_def appendable_def sink_def content_def outbuf_init_def)
    moreover have "\<forall>y. fd_of w1 y \<noteq> None \<longrightarrow> fd_of w y \<noteq> None" using frame_UNIV_fds [OF w1(1)] by simp
    ultimately have fe: "feeding S ?bfd (o_ino f) fd oi w [] (outbuf_init fd) w1"
      using fS frame_wfw [OF fS wf] new w1(3) f(1)
      by (auto simp: feeding_def writing_def S_def outbuf_init_def)
    have inv: "cache_inv S ?bfd (o_ino f) fd oi w [] \<lparr>cw_out = outbuf_init fd, cw_count = 0\<rparr> w1"
      using fe by (simp add: cache_inv_def recs_bytes_def)
    have "wp (scan_loop ?sel cache_record_consumer ?bfd (replicate CHUNK_SIZE 0) 0
          \<lparr>cw_out = outbuf_init fd, cw_count = 0\<rparr> w1)
        (\<lambda>(r, carry, cw, w'). r = 0 \<and> carry = 0 \<and> cache_inv S ?bfd (o_ino f) fd oi w ([] @ filter ?sel ?rs) cw w'
           \<or> r < 0 \<and> \<not> clean w)"
      by (rule cache_consumer.scan_loop_spec [OF w1(3) _ _ _ inv]) (use f w1(2) in \<open>simp_all add: list_all_iff\<close>)
    then show ?thesis using False lb b(2)
      by (auto simp: scan_bucket_for_word_def l wp_iff cache_inv_def feeding_def writing_def)
  qed
qed

definition ensured :: "nat \<Rightarrow> byte list \<Rightarrow> (path \<rightharpoonup> nat) \<Rightarrow> index \<Rightarrow> nat \<Rightarrow> world \<Rightarrow> int \<times> index \<times> world \<Rightarrow> bool" where
  "ensured x T N ix k w = (\<lambda>(r, ix', w').
     r = 0 \<and> indexed x T N ix' w' \<and> grown ix ix' \<and> cached ix' k
       \<and> frame (open_scope w (set (ix_occ_fds ix)) {}) w w' \<and> tidy w w'
   \<or> r = -1 \<and> \<not> clean w)"

lemma sys_alloc_quiet: "sys_alloc n w = (g, w') \<Longrightarrow> quiet w w' \<and> (g \<or> \<not> clean w)"
  using sys_alloc_spec by blast

lemma ensure_word_cache_spec:
  assumes ok: "indexed x T N ix w" and k: "k < length (words_of (occs_of T))"
    and id: "unat word_id = k" and bk: "unat bucket = bucket_of (words_of (occs_of T) ! k)"
  shows "wp (ensure_word_cache ix word_id bucket w) (ensured x T N ix k w)"
proof -
  let ?e = "lx_entries (ix_lexicon ix) ! k" and ?b = "bucket_of (words_of (occs_of T) ! k)"
  let ?mv = "set (ix_occ_fds ix)"
  have st: "ix_static T ix" and fl: "ix_files x T ix w" and wf: "wfw w" and xn: "x < w_nino w"
    using ok by (simp_all add: indexed_def)
  have kl: "k < length (lx_entries (ix_lexicon ix))"
  proof -
    have "lex_words (ix_lexicon ix) = words_of (occs_of T)" using st by (simp add: ix_static_def)
    then have "length (lx_entries (ix_lexicon ix)) = length (words_of (occs_of T))"
      by (metis length_map lex_words_def)
    then show ?thesis using k by simp
  qed
  have b: "?b < OCC_BUCKETS" by (simp add: bucket_of_def pa1_consts)
  have at: "at (lx_entries (ix_lexicon ix)) (unat word_id) = Some ?e" using kl id by simp
  have word_id: "word_id = of_nat k" by (simp flip: id)
  show ?thesis
  proof (cases "le_cache_path ?e")
    case (Some p)
    then show ?thesis using ok kl at by (auto simp: ensure_word_cache_def ensured_def cached_def)
  next
    case None
    obtain fd p w1 where c: "create_named_temp_file (bytes_of ''wcache'') 64 w = (fd, p, w1)" using prod_cases3 by blast
    have cs: "frame (open_scope w ?mv {}) w w1" "fd = -1 \<and> \<not> clean w
       \<or> fresh_file w fd w1 \<and> w_names w p = None \<and> w_names w1 = (w_names w)(p \<mapsto> w_nino w)
         \<and> w_nino w1 = Suc (w_nino w) \<and> fd_of w1 fd = Some \<lparr>o_ino = w_nino w, o_off = 0, o_kind = Regular\<rparr>"
      using create_named_temp_file_spec [OF c covers_open wf, of ?mv "{}"] by simp_all
    show ?thesis
    proof (cases "fd < 0")
      case True
      then have "\<not> clean w" using cs(2) by (auto simp: fresh_file_def)
      then show ?thesis using True None at c by (simp add: ensure_word_cache_def ensured_def)
    next
      case fd: False
      let ?oi = "w_nino w" and ?bfd = "ix_occ_fds ix ! ?b"
      have ff: "fresh_file w fd w1" and p: "w_names w p = None" "w_names w1 = (w_names w)(p \<mapsto> ?oi)"
        and fd1: "fd_of w1 fd = Some \<lparr>o_ino = ?oi, o_off = 0, o_kind = Regular\<rparr>" using cs(2) fd by auto
      have nf: "fd_of w fd = None" and d1: "w_data w1 ?oi = []"
        and op1: "\<And>y. fd_of w1 y \<noteq> None \<Longrightarrow> y = fd \<or> fd_of w y \<noteq> None"
        using ff fd1 by (auto simp: fresh_file_def split: if_splits)
      obtain fb where fb: "fd_of w ?bfd = Some fb" using fl b by (auto simp: ix_files_def file_at_def)
      have bmem: "?bfd \<in> ?mv" using st b by (simp add: ix_static_def)
      have ne: "fd \<noteq> ?bfd" using nf fb by auto
      have fb1: "fd_of w1 ?bfd = Some fb" using ff fb ne by (auto simp: fresh_file_def)
      have fbi: "o_ino fb < w_nino w" using wf fb by (auto simp: wfw_def)
      define S where "S = \<lparr>sc_names = UNIV, sc_fds = UNIV, sc_move = {?bfd, fd}, sc_write = {?oi}\<rparr>"
      have fl1: "ix_files x T ix w1" by (rule ix_files_frame [OF fl cs(1) wf]) simp
      have "wp (scan_bucket_for_word ix bucket word_id cache_record_consumer \<lparr>cw_out = outbuf_init fd, cw_count = 0\<rparr> w1)
        (\<lambda>(r, cw, w'). r = 0 \<and> frame S w1 w' \<and> sink_ok ?oi (cw_out cw) w' \<and> ob_fd (cw_out cw) = fd
          \<and> sink (cw_out cw) w' = recs_bytes (word_recs T k) \<and> cw_count cw = of_nat (length (word_recs T k))
          \<or> r < 0 \<and> \<not> clean w1)"
        unfolding S_def word_recs_filter [OF k, symmetric] word_id
        using scan_bucket_cache [OF b bk fl1 st frame_wfw [OF cs(1) wf] fd1 d1] fb1 fbi ne st
        by (auto simp: ix_static_def word_recs_filter [OF k, symmetric])
      then obtain r2 cw w2 where sc: "scan_bucket_for_word ix bucket word_id cache_record_consumer
            \<lparr>cw_out = outbuf_init fd, cw_count = 0\<rparr> w1 = Some (r2, cw, w2)"
        and s2: "r2 = 0 \<and> frame S w1 w2 \<and> sink_ok ?oi (cw_out cw) w2 \<and> ob_fd (cw_out cw) = fd
          \<and> sink (cw_out cw) w2 = recs_bytes (word_recs T k) \<and> cw_count cw = of_nat (length (word_recs T k))
          \<or> r2 < 0 \<and> \<not> clean w1" by (auto simp: wp_iff)
      have cl1: "clean w \<Longrightarrow> clean w1" using frame_clean [OF cs(1)] .
      have fail: "wp (Some (-1, ix, w')) (ensured x T N ix k w)" if "\<not> clean w" for w'
        using that by (simp add: ensured_def)
      note unf = ensure_word_cache_def at bind.bind_lunit None c prod.case sc
      show ?thesis
      proof (cases "r2 < 0")
        case True
        then have "\<not> clean w" using s2 cl1 by auto
        then show ?thesis unfolding unf using True fd fail by (simp split: prod.split)
      next
        case r2: False
        obtain r3 out w3 where fo: "outbuf_flush (cw_out cw) w2 = (r3, out, w3)" using prod_cases3 by blast
        have k2: "frame S w1 w2" "sink_ok ?oi (cw_out cw) w2" "ob_fd (cw_out cw) = fd"
          "sink (cw_out cw) w2 = recs_bytes (word_recs T k)" "cw_count cw = of_nat (length (word_recs T k))"
          using s2 r2 by auto
        note em = outbuf_flush_emits [OF fo k2(2)]
        have cl2: "clean w \<Longrightarrow> clean w2" using cl1 frame_clean [OF k2(1)] by blast
        show ?thesis
        proof (cases "r3 < 0")
          case True
          then have "\<not> clean w" using em(1) cl2 by (auto simp: emits_def)
          then show ?thesis unfolding unf using True r2 fd fo fail by (simp split: prod.split)
        next
          case r3: False
          have fr23: "frame (wr_scope fd ?oi) w2 w3" using em(1) k2(3) by (simp add: emits_def)
          have "frame S w2 w3" by (rule frame_weaken [OF fr23]) (simp_all add: S_def)
          then have f13: "frame S w1 w3" using frame_trans [OF k2(1)] by blast
          have content3: "content w3 fd = recs_bytes (word_recs T k)" "sink_ok ?oi out w3" "ob_fd out = fd"
            using em r3 k2(3,4) by (auto simp: emits_def sink_def)
          obtain g where g: "fd_of w3 fd = Some g" "o_ino g = ?oi"
            using content3(2,3) by (auto simp: sink_ok_def appendable_def)
          have d3: "w_data w3 ?oi = recs_bytes (word_recs T k)" using content3(1) g by (simp add: content_def)
          obtain r4 w4 where cl: "sys_close fd w3 = (r4, w4)" by force
          have nin: "fd \<notin> sc_fds (open_scope w ?mv {})" using nf by simp
          note cf = sys_close_frame [OF cl g(1) nin]
          have f13': "frame (open_scope w ?mv {}) w1 w3"
            by (rule frame_weaken [OF f13]) (use bmem nf in \<open>auto simp: S_def\<close>)
          have f04: "frame (open_scope w ?mv {}) w w4" using frame_trans [OF frame_trans [OF cs(1) f13']] cf by blast
          have cl3: "clean w \<Longrightarrow> clean w3" using frame_clean [OF frame_trans [OF cs(1) f13']] .
          show ?thesis
          proof (cases "r4 < 0")
            case True
            then have "\<not> clean w" using cf cl3 by auto
            then show ?thesis unfolding unf using True r2 r3 fd fo cl fail by (simp split: prod.split)
          next
            case r4: False
            obtain gr w5 where al: "sys_alloc (path_len p + 1) w4 = (gr, w5)" by force
            note q = sys_alloc_quiet [OF al]
            show ?thesis
            proof (cases gr)
              case False
              then have "\<not> clean w" using q frame_clean [OF f04] by blast
              then show ?thesis unfolding unf using False r2 r3 r4 fd fo cl al fail by (simp split: prod.split)
            next
              case True
              have f05: "frame (open_scope w ?mv {}) w w5" using frame_quiet [OF f04] q by blast
              have "w_names w3 = w_names w1" using frame_names [OF f13] by (auto simp: S_def)
              then have nm5: "w_names w5 = (w_names w)(p \<mapsto> ?oi)" using cf q p(2) by (simp add: quiet_def)
              have d5: "w_data w5 ?oi = recs_bytes (word_recs T k)" using d3 cf q by (simp add: quiet_def)
              have "tidy w w5"
              proof -
                have "fd_of w y \<noteq> None" if y: "fd_of w5 y \<noteq> None" for y
                proof -
                  have "y \<noteq> fd" "fd_of w3 y \<noteq> None" using y cf q quiet_fd_of [of w4 w5] by (auto split: if_splits)
                  then have "fd_of w1 y \<noteq> None" using frame_handles [OF f13, of y]
                    by (metis S_def UNIV_I map_option_is_None scope.select_convs(2))
                  then show ?thesis using op1 \<open>y \<noteq> fd\<close> by blast
                qed
                then show ?thesis by (simp add: tidy_def)
              qed
              moreover have "?oi \<noteq> x" using xn by simp
              note isc = indexed_set_cache [OF ok kl None f05 p(1) nm5 this d5]
              ultimately have "ensured x T N ix k w (0, set_entry ix k (?e\<lparr>le_cache_path := Some p,
                  le_cache_count := of_nat (length (word_recs T k))\<rparr>), w5)"
                using f05 by (simp add: ensured_def)
              then show ?thesis unfolding unf using True r2 r3 r4 fd fo cl al k2(5) id by simp
            qed
          qed
        qed
      qed
    qed
  qed
qed

section \<open>Opening a cache\<close>

text \<open>A file that was just opened, since the world \<open>w\<close>, and holds the given records.\<close>

definition opened :: "scope \<Rightarrow> nat \<Rightarrow> world \<Rightarrow> int \<Rightarrow> nat \<Rightarrow> world \<Rightarrow> occ_record list \<Rightarrow> bool" where
  "opened S x w fd i w1 rs \<longleftrightarrow> frame S w w1 \<and> w_data w1 = w_data w \<and> w_names w1 = w_names w \<and> 0 \<le> fd
     \<and> fd_of w fd = None \<and> i \<noteq> x \<and> i < w_nino w \<and> w_data w1 i = recs_bytes rs
     \<and> (\<forall>y. fd_of w1 y = (if y = fd then Some \<lparr>o_ino = i, o_off = 0, o_kind = Regular\<rparr> else fd_of w y))"

lemma open_cache:
  assumes ok: "indexed x T N ix w" and c: "cached ix k"
    and p: "le_cache_path (lx_entries (ix_lexicon ix) ! k) = Some p" and o: "sys_open p w = (fd, w1)" and S: "covers S w"
  shows "fd = -1 \<and> \<not> clean w \<or> (\<exists>i. opened S x w fd i w1 (word_recs T k))"
proof -
  have k: "k < length (lx_entries (ix_lexicon ix))" using c by (simp add: cached_def)
  then have "cache_ok x T w k (lx_entries (ix_lexicon ix) ! k)" using ok by (simp add: indexed_def caches_ok_def)
  then obtain i where i: "w_names w p = Some i" "i \<noteq> x" "w_data w i = recs_bytes (word_recs T k)"
    using p by (auto simp: cache_ok_def)
  have "i < w_nino w" using ok i(1) by (auto simp: indexed_def wfw_def)
  then show ?thesis using sys_open_frame [OF o i(1) S] i by (auto simp: opened_def)
qed

text \<open>Scanning a cached word with a consumer: \<open>R\<close> is what the consumer establishes.\<close>

lemma scan_cached_word_spec:
  assumes ok: "indexed x T N ix w" and c: "cached ix k" and id: "unat word_id = k" and S: "covers S w"
    and run: "\<And>fd i w1. opened S x w fd i w1 (word_recs T k) \<Longrightarrow>
      wp (scan_loop (\<lambda>rc. True) fn fd (replicate CHUNK_SIZE 0) 0 arg w1) (\<lambda>(r, carry, arg', w').
        r = 0 \<and> carry = 0 \<and> R fd arg' w' \<or> r < 0 \<and> \<not> clean w)"
    and R: "\<And>fd arg w'. R fd arg w' \<Longrightarrow> fd_of w' fd \<noteq> None \<and> (clean w \<longrightarrow> clean w')"
  shows "wp (scan_cached_word ix word_id fn arg w) (\<lambda>(r, arg', w').
     r = 0 \<and> (\<exists>fd w2 c. fd_of w fd = None \<and> R fd arg' w2 \<and> sys_close fd w2 = (c, w')) \<or> r < 0 \<and> \<not> clean w)"
proof -
  have k: "k < length (lx_entries (ix_lexicon ix))" using c by (simp add: cached_def)
  obtain p where p: "le_cache_path (lx_entries (ix_lexicon ix) ! k) = Some p" using c by (auto simp: cached_def)
  obtain fd w1 where o: "sys_open p w = (fd, w1)" by force
  note op = open_cache [OF ok c p o S]
  note unf = scan_cached_word_def id at_simp [OF k] bind.bind_lunit p option.case o prod.case
  show ?thesis
  proof (cases "fd < 0")
    case True
    then have "\<not> clean w" using op by (auto simp: opened_def)
    then show ?thesis unfolding unf using True by simp
  next
    case False
    then obtain i where i: "opened S x w fd i w1 (word_recs T k)" using op by auto
    obtain r carry arg' w2 where l: "scan_loop (\<lambda>rc. True) fn fd (replicate CHUNK_SIZE 0) 0 arg w1 = Some (r, carry, arg', w2)"
      and s: "r = 0 \<and> carry = 0 \<and> R fd arg' w2 \<or> r < 0 \<and> \<not> clean w"
      using run [OF i] by (auto simp: wp_iff)
    obtain cr w3 where cl: "sys_close fd w2 = (cr, w3)" by force
    have res: "scan_cached_word ix word_id fn arg w = Some (if cr < 0 then -1 else if r = 0 \<and> carry \<noteq> 0 then -1 else r, arg', w3)"
      unfolding unf using False by (simp add: l cl Let_def)
    have nf: "fd_of w fd = None" using i by (simp add: opened_def)
    show ?thesis
    proof (cases "r < 0")
      case True
      then show ?thesis unfolding res using s by simp
    next
      case False
      then have r: "r = 0" "carry = 0" "R fd arg' w2" using s by auto
      have "cr = 0 \<or> cr = -1 \<and> \<not> clean w" using sys_close_closes(2) [OF cl] R [OF r(3)] by auto
      then show ?thesis unfolding res using r nf cl by auto
    qed
  qed
qed

section \<open>Sources of line numbers\<close>

definition line_groups :: "occ_record list \<Rightarrow> u32 list" where
  "line_groups rs = remdups_adj (map oc_line rs)"

text \<open>\<open>src_at i fd s w L\<close>: the source \<open>s\<close>, reading inode \<open>i\<close> at \<open>fd\<close>, will deliver \<open>L\<close>.\<close>

definition src_at :: "nat \<Rightarrow> int \<Rightarrow> line_number_source \<Rightarrow> world \<Rightarrow> u32 list \<Rightarrow> bool" where
  "src_at i fd s w L \<longleftrightarrow> (case ls_reader s of
     WordCache rd \<Rightarrow> rr_fd rd = fd \<and> (\<exists>xs. reader_at enc_occ i rd w xs
       \<and> L = line_groups ((if rr_has rd then [rr_current rd] else []) @ xs))
   | LineFile rd \<Rightarrow> rr_fd rd = fd \<and> reader_at enc_u32 i rd w L)"

lemma src_at_frame:
  assumes "src_at i fd s w L" and "frame sc w w'" and "wfw w" and "fd \<in> sc_fds sc" and "fd \<notin> sc_move sc"
    and "i \<notin> sc_write sc"
  shows "src_at i fd s w' L"
proof (cases "ls_reader s")
  case (WordCache rd)
  then obtain xs where "rr_fd rd = fd" "reader_at enc_occ i rd w xs"
    and L: "L = line_groups ((if rr_has rd then [rr_current rd] else []) @ xs)" using assms(1) by (auto simp: src_at_def)
  moreover from this have "reader_at enc_occ i rd w' xs"
    using reader_at_frame [OF _ assms(2,3)] assms(4,5,6) by blast
  ultimately show ?thesis using WordCache by (auto simp: src_at_def)
next
  case (LineFile rd)
  then have rd: "rr_fd rd = fd" "reader_at enc_u32 i rd w L" using assms(1) by (simp_all add: src_at_def)
  have "reader_at enc_u32 i rd w' L"
    using reader_at_frame [OF rd(2) assms(2,3)] rd(1) assms(4,5,6) by simp
  then show ?thesis using LineFile rd(1) by (simp add: src_at_def)
qed

definition src_step :: "nat \<Rightarrow> int \<Rightarrow> line_number_source \<Rightarrow> world \<Rightarrow> u32 list \<Rightarrow> int \<times> line_number_source \<times> world \<Rightarrow> bool" where
  "src_step i fd s w L = (\<lambda>(r, s', w'). frame (rd_scope fd) w w' \<and> w_data w' = w_data w
     \<and> (r = -1 \<and> \<not> clean w
      \<or> r = 0 \<and> L = [] \<and> src_at i fd s' w' []
      \<or> r = 1 \<and> L \<noteq> [] \<and> ls_current s' = hd L \<and> src_at i fd s' w' (tl L)))"

lemma skip_same_line_spec:
  assumes "reader_at enc_occ i rd w xs"
  shows "wp (skip_same_line rd l w) (\<lambda>(r, rd', w'). frame (rd_scope (rr_fd rd)) w w' \<and> w_data w' = w_data w
     \<and> rr_fd rd' = rr_fd rd \<and> (r = -1 \<and> \<not> clean w \<or> r = 0 \<and> (\<exists>ys. reader_at enc_occ i rd' w' ys
        \<and> remdups_adj (l # map oc_line xs) = l # line_groups ((if rr_has rd' then [rr_current rd'] else []) @ ys))))"
  using assms
proof (induction xs arbitrary: rd w)
  case Nil
  from occurrence_reader_next_spec [OF Nil] obtain r rd1 w1 where
    n: "occurrence_reader_next rd w = Some (r, rd1, w1)" and s: "next_step enc_occ i rd w [] (r, rd1, w1)"
    by (auto simp: wp_iff)
  then show ?case
    by (subst skip_same_line.simps) (auto simp: next_step_def line_groups_def)
next
  case (Cons x xs)
  from occurrence_reader_next_spec [OF Cons.prems] obtain r rd1 w1 where
    n: "occurrence_reader_next rd w = Some (r, rd1, w1)" and s: "next_step enc_occ i rd w (x # xs) (r, rd1, w1)"
    by (auto simp: wp_iff)
  have fr: "frame (rd_scope (rr_fd rd)) w w1" "w_data w1 = w_data w" "rr_fd rd1 = rr_fd rd"
    using s by (simp_all add: next_step_def)
  show ?case
  proof (cases "r < 0")
    case True
    then show ?thesis using n s by (subst skip_same_line.simps) (auto simp: next_step_def)
  next
    case False
    then have r: "r = 1" "rr_has rd1" "rr_current rd1 = x" "reader_at enc_occ i rd1 w1 xs"
      using s by (auto simp: next_step_def)
    show ?thesis
    proof (cases "oc_line x = l")
      case False
      then show ?thesis using n r fr by (subst skip_same_line.simps) (auto simp: line_groups_def intro!: exI [of _ xs])
    next
      case True
      have unf: "skip_same_line rd l w = skip_same_line rd1 l w1"
        using n r True by (subst skip_same_line.simps) simp
      show ?thesis unfolding unf
        by (rule wp_mono [OF Cons.IH [OF r(4)]])
          (use fr frame_trans [OF fr(1)] frame_clean [OF fr(1)] True in auto)
    qed
  qed
qed

lemma line_number_source_next_spec:
  assumes s: "src_at i fd s w L"
  shows "wp (line_number_source_next s w) (src_step i fd s w L)"
proof (cases "ls_reader s")
  case (LineFile rd)
  then have rd: "rr_fd rd = fd" "reader_at enc_u32 i rd w L" using s by (simp_all add: src_at_def)
  from line_number_reader_next_spec [OF rd(2)] obtain r rd1 w1 where
    n: "line_number_reader_next rd w = Some (r, rd1, w1)" and st: "next_step enc_u32 i rd w L (r, rd1, w1)"
    by (auto simp: wp_iff)
  then show ?thesis using LineFile rd
    by (auto simp: line_number_source_next_def next_step_def src_step_def src_at_def)
next
  case (WordCache rd)
  then obtain xs where fd: "rr_fd rd = fd" and xs: "reader_at enc_occ i rd w xs"
    and L: "L = line_groups ((if rr_has rd then [rr_current rd] else []) @ xs)"
    using s by (auto simp: src_at_def)
  have tail: "wp (do { (r, rd', w') \<leftarrow> skip_same_line rd1 (oc_line (rr_current rd1)) w1;
        Some (if r < 0 then -1 else 1, s\<lparr>ls_reader := WordCache rd', ls_current := oc_line (rr_current rd1), ls_has := True\<rparr>, w') })
      (src_step i fd s w L)"
    if r1: "rr_fd rd1 = fd" "reader_at enc_occ i rd1 w1 ys" "L = line_groups (rr_current rd1 # ys)"
      and f: "frame (rd_scope fd) w w1" "w_data w1 = w_data w" for rd1 w1 ys
  proof -
    have L': "L = remdups_adj (oc_line (rr_current rd1) # map oc_line ys)" using r1(3) by (simp add: line_groups_def)
    from skip_same_line_spec [OF r1(2), of "oc_line (rr_current rd1)"] obtain r2 rd2 w2 where
      k: "skip_same_line rd1 (oc_line (rr_current rd1)) w1 = Some (r2, rd2, w2)" and
      k': "frame (rd_scope fd) w1 w2" "w_data w2 = w_data w1" "rr_fd rd2 = fd" and
      k'': "r2 = -1 \<and> \<not> clean w1 \<or> r2 = 0 \<and> (\<exists>zs. reader_at enc_occ i rd2 w2 zs
        \<and> L = oc_line (rr_current rd1) # line_groups ((if rr_has rd2 then [rr_current rd2] else []) @ zs))"
      unfolding r1(1) L' by (auto simp: wp_iff)
    show ?thesis using k k' k'' frame_trans [OF f(1) k'(1)] f(2) frame_clean [OF f(1)]
      by (auto simp: src_step_def src_at_def)
  qed
  show ?thesis
  proof (cases "rr_has rd")
    case True
    have "wp (do { (r, rd', w') \<leftarrow> skip_same_line rd (oc_line (rr_current rd)) w;
        Some (if r < 0 then -1 else 1, s\<lparr>ls_reader := WordCache rd', ls_current := oc_line (rr_current rd), ls_has := True\<rparr>, w') })
      (src_step i fd s w L)"
      by (rule tail [OF fd xs]) (use L True in simp_all)
    then show ?thesis using True WordCache by (simp add: line_number_source_next_def Let_def)
  next
    case False
    from occurrence_reader_next_spec [OF xs] obtain r rd1 w1 where
      n: "occurrence_reader_next rd w = Some (r, rd1, w1)" and st: "next_step enc_occ i rd w xs (r, rd1, w1)"
      by (auto simp: wp_iff)
    show ?thesis
    proof (cases "r \<le> 0")
      case True
      then show ?thesis using n st WordCache False fd L
        by (auto simp: line_number_source_next_def next_step_def src_step_def src_at_def line_groups_def)
    next
      case rpos: False
      then have r: "r = 1" "xs \<noteq> []" "rr_current rd1 = hd xs" "reader_at enc_occ i rd1 w1 (tl xs)" "rr_fd rd1 = fd"
        "frame (rd_scope fd) w w1" "w_data w1 = w_data w" using st fd by (auto simp: next_step_def)
      have "wp (do { (r, rd', w') \<leftarrow> skip_same_line rd1 (oc_line (rr_current rd1)) w1;
          Some (if r < 0 then -1 else 1, s\<lparr>ls_reader := WordCache rd', ls_current := oc_line (rr_current rd1), ls_has := True\<rparr>, w') })
        (src_step i fd s w L)"
        by (rule tail [OF r(5,4) _ r(6,7)]) (use L False r(2,3) in simp)
      then show ?thesis using n rpos False WordCache by (simp add: line_number_source_next_def Let_def)
    qed
  qed
qed

end
