(* ===== verification/Pa1_Query.thy ===== *)
theory Pa1_Query
  imports Pa1_Cache
begin

text \<open>
  The second half of \<^verbatim>\<open>PA1/query.c\<close>: the output helpers, the four query modes and their
  dispatch. A handler returns its status, the index (whose lexicon may have more caches), the
  output buffer and the world.
\<close>

section \<open>Output\<close>

definition emit_blank_line :: "outbuf \<Rightarrow> world \<Rightarrow> int \<times> outbuf \<times> world" where
  "emit_blank_line out w = outbuf_write_byte out NEWLINE w"

definition emit_line_ref :: "outbuf \<Rightarrow> u32 \<Rightarrow> u32 \<Rightarrow> world \<Rightarrow> int \<times> outbuf \<times> world" where
  "emit_line_ref out line_no start_idx w =
     (case outbuf_write_u32 out line_no w of (r, out, w) \<Rightarrow>
      if r < 0 then (-1, out, w)
      else case outbuf_write_byte out (of_char CHR '':'') w of (r, out, w) \<Rightarrow>
      if r < 0 then (-1, out, w)
      else case outbuf_write_u32 out start_idx w of (r, out, w) \<Rightarrow>
      if r < 0 then (-1, out, w)
      else outbuf_write_byte out (of_char CHR '' '') w)"

definition emit_line_no :: "outbuf \<Rightarrow> u32 \<Rightarrow> world \<Rightarrow> int \<times> outbuf \<times> world" where
  "emit_line_no out line_no w =
     (case outbuf_write_u32 out line_no w of (r, out, w) \<Rightarrow>
      if r < 0 then (-1, out, w) else outbuf_write_byte out (of_char CHR '' '') w)"

section \<open>Consumers\<close>

definition stream_word_consumer :: "outbuf consumer" where
  "stream_word_consumer rc out w = Some (emit_line_ref out (oc_line rc) (oc_start rc) w)"

definition phrase_has_valid_end :: "byte list \<Rightarrow> nat \<Rightarrow> nat \<Rightarrow> bool option" where
  "phrase_has_valid_end line start phrase_len =
     (let e = start + phrase_len in
      if e = length line then Some True else map_option is_word_sep (at line e))"

record phrase_match =
  pm_out :: outbuf
  pm_line_buf :: bytevec
  pm_cached_line_no :: u32

definition phrase_consumer :: "index \<Rightarrow> byte list \<Rightarrow> phrase_match consumer" where
  "phrase_consumer index phrase rc pm w = do {
     (r, pm, w) \<leftarrow>
       (if pm_cached_line_no pm \<noteq> oc_line rc then do {
          (r, line, w) \<leftarrow> index_read_line index (oc_line rc) (pm_line_buf pm) w;
          Some (if r < 0 then (-1::int, pm\<lparr>pm_line_buf := line\<rparr>, w)
                else (0, pm\<lparr>pm_line_buf := line, pm_cached_line_no := oc_line rc\<rparr>, w)) }
        else Some (0, pm, w));
     if r < 0 then Some (-1, pm, w)
     else let line = v_items (pm_line_buf pm); start = unat (oc_start rc) in
       if start + length phrase > length line then Some (0, pm, w)
       else if \<not> phrase_equal_bytes (drop start line) phrase (length phrase) then Some (0, pm, w)
       else do {
         valid \<leftarrow> phrase_has_valid_end line start (length phrase);
         if \<not> valid then Some (0, pm, w)
         else case emit_line_ref (pm_out pm) (oc_line rc) (oc_start rc) w of (r, out, w) \<Rightarrow>
           Some (r, pm\<lparr>pm_out := out\<rparr>, w) } }"

section \<open>Scratch buffers\<close>

record query_scratch =
  qs_line_buf :: bytevec
  qs_matches_a :: matchvec
  qs_matches_b :: matchvec
  qs_lines_a :: u32vec
  qs_lines_b :: u32vec
  qs_lines_tmp :: u32vec

definition query_scratch_init :: query_scratch where
  "query_scratch_init = \<lparr>qs_line_buf = empty_vec, qs_matches_a = empty_vec, qs_matches_b = empty_vec,
     qs_lines_a = empty_vec, qs_lines_b = empty_vec, qs_lines_tmp = empty_vec\<rparr>"

definition query_scratch_reset :: "query_scratch \<Rightarrow> query_scratch" where
  "query_scratch_reset scratch = scratch\<lparr>
     qs_line_buf := (if v_cap (qs_line_buf scratch) > 2 ^ 20 then bytevec_free (qs_line_buf scratch)
                     else bytevec_reset (qs_line_buf scratch)),
     qs_matches_a := matchvec_reset (qs_matches_a scratch), qs_matches_b := matchvec_reset (qs_matches_b scratch),
     qs_lines_a := u32vec_reset (qs_lines_a scratch), qs_lines_b := u32vec_reset (qs_lines_b scratch),
     qs_lines_tmp := u32vec_reset (qs_lines_tmp scratch)\<rparr>"

definition query_scratch_free :: "query_scratch \<Rightarrow> query_scratch" where
  "query_scratch_free scratch = scratch\<lparr>
     qs_line_buf := bytevec_free (qs_line_buf scratch),
     qs_matches_a := matchvec_free (qs_matches_a scratch), qs_matches_b := matchvec_free (qs_matches_b scratch),
     qs_lines_a := u32vec_free (qs_lines_a scratch), qs_lines_b := u32vec_free (qs_lines_b scratch),
     qs_lines_tmp := u32vec_free (qs_lines_tmp scratch)\<rparr>"

section \<open>Merging sources of line numbers\<close>

partial_function (option) output_line_source ::
  "line_number_source \<Rightarrow> outbuf \<Rightarrow> world \<Rightarrow> (int \<times> line_number_source \<times> outbuf \<times> world) option" where
  "output_line_source src out w = do {
     (status, src, w) \<leftarrow> line_number_source_next src w;
     if status < 0 then Some (-1, src, out, w)
     else if status = 0 then (case emit_blank_line out w of (r, out, w) \<Rightarrow> Some (r, src, out, w))
     else case emit_line_no out (ls_current src) w of (r, out, w) \<Rightarrow>
       if r < 0 then Some (-1, src, out, w) else output_line_source src out w }"

text \<open>
  The loop of the two intersections, which differ in how a common line is written: the status is
  -1 where the C code returns -1 from the loop.
\<close>

type_synonym emitter = "outbuf \<Rightarrow> u32 \<Rightarrow> world \<Rightarrow> int \<times> outbuf \<times> world"
type_synonym merge_result =
  "(int \<times> line_number_source \<times> line_number_source \<times> outbuf \<times> u32 \<times> world) option"

partial_function (option) intersect_loop ::
  "emitter \<Rightarrow> int \<Rightarrow> int \<Rightarrow> line_number_source \<Rightarrow> line_number_source \<Rightarrow> outbuf \<Rightarrow> u32 \<Rightarrow> world \<Rightarrow> merge_result" where
  "intersect_loop emit left_status right_status left right out match_count w =
     (if left_status > 0 \<and> right_status > 0 then
        if ls_current left = ls_current right then
          (case emit out (ls_current left) w of (r, out, w) \<Rightarrow>
             if r < 0 then Some (-1, left, right, out, match_count, w)
             else let match_count = match_count + 1 in do {
               (left_status, left, w) \<leftarrow> line_number_source_next left w;
               if left_status < 0 then Some (-1, left, right, out, match_count, w)
               else do {
                 (right_status, right, w) \<leftarrow> line_number_source_next right w;
                 if right_status < 0 then Some (-1, left, right, out, match_count, w)
                 else intersect_loop emit left_status right_status left right out match_count w } })
        else if ls_current left < ls_current right then do {
          (left_status, left, w) \<leftarrow> line_number_source_next left w;
          if left_status < 0 then Some (-1, left, right, out, match_count, w)
          else intersect_loop emit left_status right_status left right out match_count w }
        else do {
          (right_status, right, w) \<leftarrow> line_number_source_next right w;
          if right_status < 0 then Some (-1, left, right, out, match_count, w)
          else intersect_loop emit left_status right_status left right out match_count w }
      else Some (0, left, right, out, match_count, w))"

definition intersect_start ::
  "emitter \<Rightarrow> line_number_source \<Rightarrow> line_number_source \<Rightarrow> outbuf \<Rightarrow> world \<Rightarrow> merge_result" where
  "intersect_start emit left right out w = do {
     (left_status, left, w) \<leftarrow> line_number_source_next left w;
     if left_status < 0 then Some (-1, left, right, out, 0, w)
     else do {
       (right_status, right, w) \<leftarrow> line_number_source_next right w;
       if right_status < 0 then Some (-1, left, right, out, 0, w)
       else intersect_loop emit left_status right_status left right out 0 w } }"

definition emit_raw :: emitter where
  "emit_raw out v w = outbuf_write_data out (enc_u32 v) w"

definition intersect_line_sources_to_file ::
  "line_number_source \<Rightarrow> line_number_source \<Rightarrow> int \<Rightarrow> world \<Rightarrow> merge_result" where
  "intersect_line_sources_to_file left right output_fd w =
     (case sys_ftruncate output_fd 0 w of (r, w) \<Rightarrow>
      if r < 0 then Some (-1, left, right, outbuf_init output_fd, 0, w)
      else case sys_lseek output_fd 0 w of (r, w) \<Rightarrow>
      if r < 0 then Some (-1, left, right, outbuf_init output_fd, 0, w)
      else do {
        (r, left, right, out, match_count, w) \<leftarrow> intersect_start emit_raw left right (outbuf_init output_fd) w;
        if r < 0 then Some (-1, left, right, out, match_count, w)
        else case outbuf_flush out w of (r, out, w) \<Rightarrow> Some (r, left, right, out, match_count, w) })"

definition intersect_line_sources_to_output ::
  "line_number_source \<Rightarrow> line_number_source \<Rightarrow> outbuf \<Rightarrow> world \<Rightarrow> merge_result" where
  "intersect_line_sources_to_output left right out w = do {
     (r, left, right, out, match_count, w) \<leftarrow> intersect_start emit_line_no left right out w;
     if r < 0 then Some (-1, left, right, out, match_count, w)
     else case emit_blank_line out w of (r, out, w) \<Rightarrow> Some (r, left, right, out, match_count, w) }"

section \<open>Ordering the words of a query\<close>

definition cache_count_of :: "index \<Rightarrow> u32 \<Rightarrow> u32 option" where
  "cache_count_of index word_id = map_option le_cache_count (at (lx_entries (ix_lexicon index)) (unat word_id))"

text \<open>The inner loop: move larger predecessors one place up; the result is the place that is free.\<close>

fun sort_shift :: "index \<Rightarrow> u32 \<Rightarrow> u32 list \<Rightarrow> u32 list \<Rightarrow> nat \<Rightarrow> (u32 list \<times> u32 list \<times> nat) option" where
  "sort_shift index posting_count word_ids buckets 0 = Some (word_ids, buckets, 0)"
| "sort_shift index posting_count word_ids buckets (Suc j) = do {
     prev_count \<leftarrow> cache_count_of index (word_ids ! j);
     if prev_count \<le> posting_count then Some (word_ids, buckets, Suc j)
     else sort_shift index posting_count (word_ids[Suc j := word_ids ! j]) (buckets[Suc j := buckets ! j]) j }"

fun sort_outer :: "index \<Rightarrow> u32 list \<Rightarrow> u32 list \<Rightarrow> nat \<Rightarrow> nat \<Rightarrow> (u32 list \<times> u32 list) option" where
  "sort_outer index word_ids buckets i 0 = Some (word_ids, buckets)"
| "sort_outer index word_ids buckets i (Suc n) = do {
     posting_count \<leftarrow> cache_count_of index (word_ids ! i);
     (ids, bs, j) \<leftarrow> sort_shift index posting_count word_ids buckets i;
     sort_outer index (ids[j := word_ids ! i]) (bs[j := buckets ! i]) (i + 1) n }"

definition sort_query_words_by_cache_size :: "index \<Rightarrow> u32 list \<Rightarrow> u32 list \<Rightarrow> (u32 list \<times> u32 list) option" where
  "sort_query_words_by_cache_size index word_ids buckets =
     sort_outer index word_ids buckets 1 (length word_ids - 1)"

section \<open>The query modes\<close>

type_synonym query_result = "(int \<times> index \<times> outbuf \<times> world) option"

definition blank :: "index \<Rightarrow> outbuf \<Rightarrow> world \<Rightarrow> query_result" where
  "blank index out w = (case emit_blank_line out w of (r, out, w) \<Rightarrow> Some (r, index, out, w))"

definition handle_single :: "index \<Rightarrow> byte list \<Rightarrow> outbuf \<Rightarrow> world \<Rightarrow> query_result" where
  "handle_single index query out w =
     (if length query = 0 then blank index out w
      else do {
        (found, word_id, bucket) \<leftarrow> lexicon_find_existing (ix_lexicon index) query;
        if \<not> found then blank index out w
        else do {
          (r, index, w) \<leftarrow> ensure_word_cache index word_id bucket w;
          if r < 0 then Some (-1, index, out, w)
          else do {
            (r, out, w) \<leftarrow> scan_cached_word index word_id stream_word_consumer out w;
            if r < 0 then Some (-1, index, out, w) else blank index out w } } })"

definition handle_phrase ::
  "index \<Rightarrow> byte list \<Rightarrow> outbuf \<Rightarrow> query_scratch \<Rightarrow> world \<Rightarrow> (int \<times> index \<times> outbuf \<times> query_scratch \<times> world) option" where
  "handle_phrase index query out scratch w =
     (let give_blank = (\<lambda>index out w. case emit_blank_line out w of (r, out, w) \<Rightarrow> Some (r, index, out, scratch, w)) in
      if length query < 2 \<or> query ! 0 \<noteq> QUOTE \<or> query ! (length query - 1) \<noteq> QUOTE then give_blank index out w
      else let phrase = take (length query - 2) (drop 1 query) in
        if length phrase = 0 \<or> is_word_sep (phrase ! 0) \<or> is_word_sep (phrase ! (length phrase - 1))
           \<or> contains_char phrase QUOTE
        then give_blank index out w
        else let we = word_end phrase 0 in
          if we = 0 then give_blank index out w
          else do {
            (found, word_id, bucket) \<leftarrow> lexicon_find_existing (ix_lexicon index) (take we phrase);
            if \<not> found then give_blank index out w
            else do {
              (r, index, w) \<leftarrow> ensure_word_cache index word_id bucket w;
              if r < 0 then Some (-1, index, out, scratch, w)
              else do {
                (r, pm, w) \<leftarrow> scan_cached_word index word_id (phrase_consumer index phrase)
                   \<lparr>pm_out = out, pm_line_buf = qs_line_buf scratch, pm_cached_line_no = 0\<rparr> w;
                let scratch = scratch\<lparr>qs_line_buf := pm_line_buf pm\<rparr> in
                if r < 0 then Some (-1, index, pm_out pm, scratch, w)
                else case emit_blank_line (pm_out pm) w of (r, out, w) \<Rightarrow>
                  Some (r, index, out, scratch, w) } } })"

text \<open>The arrays of \<open>handle_multi\<close> have \<open>QUERY_LIMIT / 2 + 1\<close> places; writing past them is undefined.\<close>

partial_function (option) collect_query_words_from ::
  "lexicon \<Rightarrow> byte list \<Rightarrow> u32 list \<Rightarrow> u32 list \<Rightarrow> nat \<Rightarrow> (bool \<times> u32 list \<times> u32 list) option" where
  "collect_query_words_from lexicon query word_ids buckets pos =
     (if pos < length query then
        (let start = skip_seps query pos in
         if start \<ge> length query then Some (True, word_ids, buckets)
         else let e = word_end query start in do {
           (found, word_id, bucket) \<leftarrow> lexicon_find_existing lexicon (take (e - start) (drop start query));
           if \<not> found then Some (False, word_ids, buckets)
           else if word_id \<in> set word_ids then collect_query_words_from lexicon query word_ids buckets e
           else if length word_ids \<ge> QUERY_LIMIT div 2 + 1 then None
           else collect_query_words_from lexicon query (word_ids @ [word_id]) (buckets @ [bucket]) e })
      else Some (True, word_ids, buckets))"

definition collect_query_words :: "index \<Rightarrow> byte list \<Rightarrow> (bool \<times> u32 list \<times> u32 list) option" where
  "collect_query_words index query = collect_query_words_from (ix_lexicon index) query [] [] 0"

fun ensure_all :: "index \<Rightarrow> (u32 \<times> u32) list \<Rightarrow> world \<Rightarrow> (int \<times> index \<times> world) option" where
  "ensure_all index [] w = Some (0, index, w)"
| "ensure_all index ((word_id, bucket) # ws) w = do {
     (r, index, w) \<leftarrow> ensure_word_cache index word_id bucket w;
     if r < 0 then Some (-1, index, w) else ensure_all index ws w }"

text \<open>Closing both sources: the second is left open when closing the first fails.\<close>

definition close_sources :: "line_number_source \<Rightarrow> line_number_source \<Rightarrow> world \<Rightarrow> int \<times> world" where
  "close_sources left right w =
     (case line_number_source_close left w of (r, left, w) \<Rightarrow>
      if r < 0 then (-1, w)
      else case line_number_source_close right w of (r, right, w) \<Rightarrow> (if r < 0 then -1 else 0, w))"

definition multi_one :: "index \<Rightarrow> u32 \<Rightarrow> u32 \<Rightarrow> outbuf \<Rightarrow> world \<Rightarrow> query_result" where
  "multi_one index word_id bucket out w = do {
     (r, index, src, w) \<leftarrow> line_number_source_open_word index word_id bucket w;
     case src of None \<Rightarrow> Some (-1, index, out, w)
     | Some src \<Rightarrow> do {
         (status, src, out, w) \<leftarrow> output_line_source src out w;
         case line_number_source_close src w of (r, src, w) \<Rightarrow>
           if r < 0 then Some (-1, index, out, w) else Some (status, index, out, w) } }"

text \<open>Opening two words; when the second fails, the first is closed.\<close>

definition open_pair ::
  "index \<Rightarrow> u32 \<times> u32 \<Rightarrow> u32 \<times> u32 \<Rightarrow> world \<Rightarrow> ((line_number_source \<times> line_number_source) option \<times> index \<times> world) option" where
  "open_pair index a b w = do {
     (r, index, left, w) \<leftarrow> line_number_source_open_word index (fst a) (snd a) w;
     case left of None \<Rightarrow> Some (None, index, w)
     | Some left \<Rightarrow> do {
         (r, index, right, w) \<leftarrow> line_number_source_open_word index (fst b) (snd b) w;
         case right of
           None \<Rightarrow> (case line_number_source_close left w of (_, _, w) \<Rightarrow> Some (None, index, w))
         | Some right \<Rightarrow> Some (Some (left, right), index, w) } }"

definition multi_two :: "index \<Rightarrow> u32 \<times> u32 \<Rightarrow> u32 \<times> u32 \<Rightarrow> outbuf \<Rightarrow> world \<Rightarrow> query_result" where
  "multi_two index a b out w = do {
     (srcs, index, w) \<leftarrow> open_pair index a b w;
     case srcs of None \<Rightarrow> Some (-1, index, out, w)
     | Some (left, right) \<Rightarrow> do {
         (status, left, right, out, match_count, w) \<leftarrow> intersect_line_sources_to_output left right out w;
         case close_sources left right w of (r, w) \<Rightarrow>
           if r < 0 then Some (-1, index, out, w) else Some (status, index, out, w) } }"

definition close_quietly :: "int \<Rightarrow> world \<Rightarrow> world" where
  "close_quietly fd w = snd (sys_close fd w)"

text \<open>
  The stages of three and more words: \<open>current_fd\<close> holds the lines common to the words before
  the current one.
\<close>

fun multi_stages :: "index \<Rightarrow> (u32 \<times> u32) list \<Rightarrow> int \<Rightarrow> outbuf \<Rightarrow> world \<Rightarrow> query_result" where
  "multi_stages index [] current_fd out w = Some (0, index, out, close_quietly current_fd w)"
| "multi_stages index (a # rest) current_fd out w =
     (case line_number_source_open_file current_fd w of (r, left, w) \<Rightarrow>
      case left of None \<Rightarrow> Some (-1, index, out, close_quietly current_fd w)
      | Some left \<Rightarrow> do {
          (r, index, right, w) \<leftarrow> line_number_source_open_word index (fst a) (snd a) w;
          case right of
            None \<Rightarrow> (case line_number_source_close left w of (_, _, w) \<Rightarrow>
              Some (-1, index, out, close_quietly current_fd w))
          | Some right \<Rightarrow>
              if rest = [] then do {
                (status, left, right, out, match_count, w) \<leftarrow> intersect_line_sources_to_output left right out w;
                case close_sources left right w of (r, w) \<Rightarrow>
                  let w = close_quietly current_fd w in
                  if r < 0 then Some (-1, index, out, w)
                  else if status < 0 then Some (-1, index, out, w)
                  else Some (0, index, out, w) }
              else (case create_temp_file (bytes_of ''lineset'') w of (next_fd, w) \<Rightarrow>
                if next_fd < 0 then
                  (case line_number_source_close left w of (_, _, w) \<Rightarrow>
                   case line_number_source_close right w of (_, _, w) \<Rightarrow>
                     Some (-1, index, out, close_quietly current_fd w))
                else do {
                  (status, left, right, file_out, match_count, w) \<leftarrow>
                    intersect_line_sources_to_file left right next_fd w;
                  let w = close_quietly (if status = 0 then current_fd else next_fd) w;
                      current_fd = (if status = 0 then next_fd else current_fd) in
                  case close_sources left right w of (r, w) \<Rightarrow>
                    if r < 0 then Some (-1, index, out, close_quietly current_fd w)
                    else if status < 0 then Some (-1, index, out, close_quietly current_fd w)
                    else if match_count = 0 then blank index out (close_quietly current_fd w)
                    else multi_stages index rest current_fd out w }) })"

definition multi_many :: "index \<Rightarrow> u32 \<times> u32 \<Rightarrow> u32 \<times> u32 \<Rightarrow> (u32 \<times> u32) list \<Rightarrow> outbuf \<Rightarrow> world \<Rightarrow> query_result" where
  "multi_many index a b rest out w =
     (case create_temp_file (bytes_of ''lineset'') w of (current_fd, w) \<Rightarrow>
      if current_fd < 0 then Some (-1, index, out, w)
      else do {
        (srcs, index, w) \<leftarrow> open_pair index a b w;
        case srcs of None \<Rightarrow> Some (-1, index, out, close_quietly current_fd w)
        | Some (left, right) \<Rightarrow> do {
            (status, left, right, file_out, match_count, w) \<leftarrow>
              intersect_line_sources_to_file left right current_fd w;
            case close_sources left right w of (r, w) \<Rightarrow>
              if r < 0 then Some (-1, index, out, close_quietly current_fd w)
              else if status < 0 then Some (-1, index, out, close_quietly current_fd w)
              else if match_count = 0 then blank index out (close_quietly current_fd w)
              else multi_stages index rest current_fd out w } })"

definition handle_multi :: "index \<Rightarrow> byte list \<Rightarrow> outbuf \<Rightarrow> world \<Rightarrow> query_result" where
  "handle_multi index query out w = do {
     (found, word_ids, buckets) \<leftarrow> collect_query_words index query;
     if \<not> found then blank index out w
     else if length word_ids = 0 then blank index out w
     else do {
       (r, index, w) \<leftarrow> ensure_all index (zip word_ids buckets) w;
       if r < 0 then Some (-1, index, out, w)
       else do {
         (word_ids, buckets) \<leftarrow> sort_query_words_by_cache_size index word_ids buckets;
         case zip word_ids buckets of
           [a] \<Rightarrow> multi_one index (fst a) (snd a) out w
         | [a, b] \<Rightarrow> multi_two index a b out w
         | a # b # rest \<Rightarrow> multi_many index a b rest out w
         | [] \<Rightarrow> None } } }"

fun has_space_or_tab :: "byte list \<Rightarrow> bool" where
  "has_space_or_tab [] = False"
| "has_space_or_tab (c # data) = (if is_word_sep c then True else has_space_or_tab data)"

text \<open>Advance while the current record is on the given line; the last start index seen is kept.\<close>

partial_function (option) skip_line_group ::
  "occurrence_reader \<Rightarrow> u32 \<Rightarrow> u32 \<Rightarrow> world \<Rightarrow> (int \<times> occurrence_reader \<times> u32 \<times> world) option" where
  "skip_line_group rd line_no last_start w =
     (if rr_has rd \<and> oc_line (rr_current rd) = line_no then do {
        (status, rd', w) \<leftarrow> occurrence_reader_next rd w;
        if status < 0 then Some (-1, rd', oc_start (rr_current rd), w)
        else if status = 0 then Some (0, rd', oc_start (rr_current rd), w)
        else skip_line_group rd' line_no (oc_start (rr_current rd)) w }
      else Some (0, rd, last_start, w))"

definition skip_occurrence_line_group ::
  "occurrence_reader \<Rightarrow> world \<Rightarrow> (int \<times> occurrence_reader \<times> world) option" where
  "skip_occurrence_line_group rd w =
     (if \<not> rr_has rd then Some (0, rd, w)
      else do { (r, rd, last_start, w) \<leftarrow> skip_line_group rd (oc_line (rr_current rd)) 0 w; Some (r, rd, w) })"

partial_function (option) pattern_loop ::
  "occurrence_reader \<Rightarrow> occurrence_reader \<Rightarrow> outbuf \<Rightarrow> world
     \<Rightarrow> (int \<times> occurrence_reader \<times> occurrence_reader \<times> outbuf \<times> world) option" where
  "pattern_loop left right out w =
     (if rr_has left \<and> rr_has right then
        if oc_line (rr_current left) < oc_line (rr_current right) then do {
          (r, left, w) \<leftarrow> skip_occurrence_line_group left w;
          if r < 0 then Some (-1, left, right, out, w) else pattern_loop left right out w }
        else if oc_line (rr_current left) > oc_line (rr_current right) then do {
          (r, right, w) \<leftarrow> skip_occurrence_line_group right w;
          if r < 0 then Some (-1, left, right, out, w) else pattern_loop left right out w }
        else
          let line_no = oc_line (rr_current left); first_left = oc_start (rr_current left) in do {
            (r, left, last_start, w) \<leftarrow> skip_line_group left line_no 0 w;
            if r < 0 then Some (-1, left, right, out, w)
            else do {
              (r, right, last_right, w) \<leftarrow> skip_line_group right line_no (oc_start (rr_current right)) w;
              if r < 0 then Some (-1, left, right, out, w)
              else case (if first_left < last_right then emit_line_no out line_no w else (0, out, w)) of (r, out, w) \<Rightarrow>
                if r < 0 then Some (-1, left, right, out, w) else pattern_loop left right out w } }
      else Some (0, left, right, out, w))"

fun index_of_char :: "byte list \<Rightarrow> byte \<Rightarrow> nat" where
  "index_of_char [] c = 0"
| "index_of_char (x # s) c = (if x \<noteq> c then Suc (index_of_char s c) else 0)"

text \<open>From the opening of the readers to the end; \<open>path_of\<close> is the cache of a word.\<close>

definition close_readers :: "occurrence_reader \<Rightarrow> occurrence_reader \<Rightarrow> world \<Rightarrow> int \<times> world" where
  "close_readers left right w =
     (case occurrence_reader_close left w of (r, left, w) \<Rightarrow>
      if r < 0 then (-1, w)
      else case occurrence_reader_close right w of (r, right, w) \<Rightarrow> (if r < 0 then -1 else 0, w))"

definition abandon_readers :: "occurrence_reader \<Rightarrow> occurrence_reader \<Rightarrow> world \<Rightarrow> world" where
  "abandon_readers left right w =
     (case occurrence_reader_close left w of (_, _, w) \<Rightarrow>
      case occurrence_reader_close right w of (_, _, w) \<Rightarrow> w)"

definition pattern_scan :: "path \<Rightarrow> path \<Rightarrow> index \<Rightarrow> outbuf \<Rightarrow> world \<Rightarrow> query_result" where
  "pattern_scan lp rp index out w =
     (case occurrence_reader_open_path lp w of (r, left, w) \<Rightarrow>
      if r < 0 then Some (-1, index, out, w)
      else case occurrence_reader_open_path rp w of (r, right, w) \<Rightarrow>
      if r < 0 then (case occurrence_reader_close left w of (_, _, w) \<Rightarrow> Some (-1, index, out, w))
      else do {
        (left_status, left, w) \<leftarrow> occurrence_reader_next left w;
        if left_status < 0 then Some (-1, index, out, abandon_readers left right w)
        else do {
          (right_status, right, w) \<leftarrow> occurrence_reader_next right w;
          if right_status < 0 then Some (-1, index, out, abandon_readers left right w)
          else do {
            (result, left, right, out, w) \<leftarrow> pattern_loop left right out w;
            case close_readers left right w of (r, w) \<Rightarrow>
              if r < 0 then Some (-1, index, out, w)
              else if result < 0 then Some (-1, index, out, w)
              else blank index out w } } })"

definition handle_pattern :: "index \<Rightarrow> byte list \<Rightarrow> outbuf \<Rightarrow> world \<Rightarrow> query_result" where
  "handle_pattern index query out w =
     (let star = index_of_char query STAR in
      if star = 0 \<or> star + 1 \<ge> length query \<or> star = length query \<or> contains_char (drop (star + 1) query) STAR
      then blank index out w
      else if has_space_or_tab query then blank index out w
      else do {
        (found, left_id, left_bucket) \<leftarrow> lexicon_find_existing (ix_lexicon index) (take star query);
        if \<not> found then blank index out w
        else do {
          (found, right_id, right_bucket) \<leftarrow> lexicon_find_existing (ix_lexicon index) (drop (star + 1) query);
          if \<not> found then blank index out w
          else do {
            (r, index, w) \<leftarrow> ensure_word_cache index left_id left_bucket w;
            if r < 0 then Some (-1, index, out, w)
            else do {
              (r, index, w) \<leftarrow> ensure_word_cache index right_id right_bucket w;
              if r < 0 then Some (-1, index, out, w)
              else do {
                le \<leftarrow> at (lx_entries (ix_lexicon index)) (unat left_id);
                re \<leftarrow> at (lx_entries (ix_lexicon index)) (unat right_id);
                lp \<leftarrow> le_cache_path le;
                rp \<leftarrow> le_cache_path re;
                pattern_scan lp rp index out w } } } } })"

text \<open>The number of words, and start and length of the first.\<close>

function count_query_words_from :: "byte list \<Rightarrow> nat \<Rightarrow> nat \<Rightarrow> nat \<times> nat \<Rightarrow> nat \<times> nat \<times> nat" where
  "count_query_words_from query pos count first =
     (if pos < length query then
        (let start = skip_seps query pos in
         if start \<ge> length query then (count, first)
         else let e = word_end query start in
           count_query_words_from query e (count + 1) (if count = 0 then (start, e - start) else first))
      else (count, first))"
  by pat_completeness auto
termination
proof (relation "measure (\<lambda>(query, pos, count, first). length query - pos)", goal_cases)
  case (2 query pos count first start e)
  then have p: "pos \<le> length query" by simp
  show ?case using tokenize_step(2,3) [OF p 2(2,4)] 2(1,3) by auto
qed simp
declare count_query_words_from.simps [simp del]

definition count_query_words :: "byte list \<Rightarrow> nat \<times> nat \<times> nat" where
  "count_query_words query = count_query_words_from query 0 0 (0, 0)"

definition handle_query ::
  "index \<Rightarrow> byte list \<Rightarrow> outbuf \<Rightarrow> query_scratch \<Rightarrow> world \<Rightarrow> (int \<times> index \<times> outbuf \<times> query_scratch \<times> world) option" where
  "handle_query index query out scratch w =
     (let scratch = query_scratch_reset scratch;
          keep = map_option (\<lambda>(r, index, out, w). (r, index, out, scratch, w)) in
      if contains_char query QUOTE then handle_phrase index query out scratch w
      else if contains_char query STAR then keep (handle_pattern index query out w)
      else case count_query_words query of (word_count, single_start, single_len) \<Rightarrow>
        if word_count = 0 then keep (blank index out w)
        else if word_count = 1 then keep (handle_single index (take single_len (drop single_start query)) out w)
        else keep (handle_multi index query out w))"

end
