(* ===== verification/Pa1_Merge.thy ===== *)
theory Pa1_Merge
  imports Pa1_Query
begin

text \<open>
  The merge loops of \<^verbatim>\<open>PA1/query.c\<close>. Both intersections run the same loop with a different
  way of writing a line; what they need of it is the locale \<open>line_emitter\<close>, interpreted for
  the decimal output and for the raw line-set file. The loop is shown to write exactly the common
  elements of two strictly ascending sequences.
\<close>

section \<open>Common elements of ascending lists\<close>

definition common :: "u32 list \<Rightarrow> u32 list \<Rightarrow> u32 list" where
  "common L R = filter (\<lambda>v. v \<in> set R) L"

lemma common_Nil [simp]: "common [] R = []" "common L [] = []"
  by (simp_all add: common_def)

lemma set_common: "set (common L R) = set L \<inter> set R"
  by (auto simp: common_def)

lemma sorted_common: "sorted_wrt (<) L \<Longrightarrow> sorted_wrt (<) (common L R)"
  by (simp add: common_def sorted_wrt_filter)

lemma common_step:
  assumes "sorted_wrt (<) (x # L)" and "sorted_wrt (<) (y # R)"
  shows "x = y \<Longrightarrow> common (x # L) (y # R) = x # common L R"
    and "x < y \<Longrightarrow> common (x # L) (y # R) = common L (y # R)"
    and "y < x \<Longrightarrow> common (x # L) (y # R) = common (x # L) R"
proof -
  have x: "x < v" if "v \<in> set L" for v using assms(1) that by simp
  have y: "y < v" if "v \<in> set R" for v using assms(2) that by simp
  show "common (x # L) (y # R) = x # common L R" if "x = y"
    using that x by (auto simp: common_def intro!: filter_cong)
  show "common (x # L) (y # R) = common L (y # R)" if "x < y"
  proof -
    have "x \<notin> set (y # R)" using that y less_asym by fastforce
    then show ?thesis by (simp add: common_def)
  qed
  show "common (x # L) (y # R) = common (x # L) R" if "y < x"
  proof -
    have "y \<notin> set (x # L)" using that x less_asym by fastforce
    then show ?thesis unfolding common_def by (intro filter_cong) auto
  qed
qed

section \<open>Sources in use\<close>

definition is_cache :: "line_number_source \<Rightarrow> bool" where
  "is_cache s \<longleftrightarrow> (\<exists>rd. ls_reader s = WordCache rd)"

definition source_at :: "bool \<Rightarrow> nat \<Rightarrow> int \<Rightarrow> line_number_source \<Rightarrow> world \<Rightarrow> u32 list \<Rightarrow> bool" where
  "source_at c i fd s w L \<longleftrightarrow> src_at i fd s w L \<and> is_cache s = c"

text \<open>After a call of \<open>line_number_source_next\<close> with the given status: \<open>L\<close> is what was left before.\<close>

definition pending :: "bool \<Rightarrow> nat \<Rightarrow> int \<Rightarrow> int \<Rightarrow> line_number_source \<Rightarrow> world \<Rightarrow> u32 list \<Rightarrow> bool" where
  "pending c i fd st s w L \<longleftrightarrow> st = 1 \<and> L \<noteq> [] \<and> ls_current s = hd L \<and> source_at c i fd s w (tl L)
     \<or> st = 0 \<and> L = [] \<and> source_at c i fd s w []"

lemma pending_source: "pending c i fd st s w L \<Longrightarrow> \<exists>L'. source_at c i fd s w L'"
  by (auto simp: pending_def)

lemma pending_frame:
  assumes "pending c i fd st s w L" and "frame sc w w'" and "wfw w" and "fd \<in> sc_fds sc" and "fd \<notin> sc_move sc"
    and "i \<notin> sc_write sc"
  shows "pending c i fd st s w' L"
  using assms(1) src_at_frame [OF _ assms(2-6)] by (auto simp: pending_def source_at_def)

lemma next_kind: "line_number_source_next s w = Some (r, s', w') \<Longrightarrow> is_cache s' = is_cache s"
  by (auto simp: line_number_source_next_def is_cache_def Let_def bind_eq_Some_conv
      split: line_reader_kind.splits prod.splits if_splits)

lemma source_next:
  assumes "source_at c i fd s w L"
  obtains r s' w' where "line_number_source_next s w = Some (r, s', w')" and "frame (rd_scope fd) w w'"
    and "w_data w' = w_data w" and "r = -1 \<and> \<not> clean w \<or> pending c i fd r s' w' L"
  using line_number_source_next_spec [of i fd s w L] assms next_kind [of s w]
  by (fastforce simp: source_at_def wp_iff src_step_def pending_def)

section \<open>The merge loop\<close>

locale line_emitter =
  fixes emit :: emitter and enc :: "u32 \<Rightarrow> byte list"
  assumes emit_emits: "sink_ok i out w \<Longrightarrow> emits i out w (enc v) (emit out v w)"

text \<open>Two sources at \<open>fl\<close> and \<open>fr\<close> and a writer at \<open>ofd\<close> that do not interfere.\<close>

definition merge_scope :: "int \<Rightarrow> int \<Rightarrow> int \<Rightarrow> nat \<Rightarrow> scope" where
  "merge_scope fl fr ofd oi = \<lparr>sc_names = UNIV, sc_fds = UNIV, sc_move = {fl, fr, ofd}, sc_write = {oi}\<rparr>"

lemma merge_scope_simps [simp]:
  "sc_names (merge_scope fl fr ofd oi) = UNIV" "sc_fds (merge_scope fl fr ofd oi) = UNIV"
  "sc_move (merge_scope fl fr ofd oi) = {fl, fr, ofd}" "sc_write (merge_scope fl fr ofd oi) = {oi}"
  by (simp_all add: merge_scope_def)

definition merging :: "int \<Rightarrow> nat \<Rightarrow> int \<Rightarrow> nat \<Rightarrow> int \<Rightarrow> nat \<Rightarrow> world \<Rightarrow> byte list \<Rightarrow> outbuf \<Rightarrow> world \<Rightarrow> bool" where
  "merging fl il fr ir ofd oi w0 d out w \<longleftrightarrow> writing (merge_scope fl fr ofd oi) {} ofd oi w0 d out w
     \<and> fl \<noteq> fr \<and> fl \<noteq> ofd \<and> fr \<noteq> ofd \<and> il \<noteq> oi \<and> ir \<noteq> oi"

lemma merging_read:
  assumes "merging fl il fr ir ofd oi w0 d out w" and "frame (rd_scope fd) w w'" and "fd = fl \<or> fd = fr"
  shows "merging fl il fr ir ofd oi w0 d out w'"
  using assms writing_read [OF _ assms(2)] by (auto simp: merging_def)

lemma merging_clean: "merging fl il fr ir ofd oi w0 d out w \<Longrightarrow> clean w0 \<Longrightarrow> clean w"
  by (auto simp: merging_def dest: writing_clean)

lemma merging_wfw: "merging fl il fr ir ofd oi w0 d out w \<Longrightarrow> wfw w"
  by (simp add: merging_def writing_def)

definition merged ::
  "bool \<Rightarrow> int \<Rightarrow> nat \<Rightarrow> bool \<Rightarrow> int \<Rightarrow> nat \<Rightarrow> int \<Rightarrow> nat \<Rightarrow> world \<Rightarrow> byte list
     \<Rightarrow> line_number_source \<Rightarrow> line_number_source \<Rightarrow> outbuf \<Rightarrow> world \<Rightarrow> bool" where
  "merged cl fl il cr fr ir ofd oi w0 d left right out w \<longleftrightarrow> merging fl il fr ir ofd oi w0 d out w
     \<and> (\<exists>L. source_at cl il fl left w L) \<and> (\<exists>R. source_at cr ir fr right w R)"

text \<open>Advancing one of the two sources keeps the other one and the writer.\<close>

lemma advance_left:
  assumes m: "merging fl il fr ir ofd oi w0 d out w" and s: "source_at cl il fl left w L"
    and p: "pending cr ir fr rs right w R"
  obtains ls left' w' where "line_number_source_next left w = Some (ls, left', w')"
    and "ls = -1 \<and> \<not> clean w0 \<or> merging fl il fr ir ofd oi w0 d out w' \<and> pending cl il fl ls left' w' L
      \<and> pending cr ir fr rs right w' R"
proof -
  obtain ls left' w' where n: "line_number_source_next left w = Some (ls, left', w')" "frame (rd_scope fl) w w'"
    "ls = -1 \<and> \<not> clean w \<or> pending cl il fl ls left' w' L" by (rule source_next [OF s])
  have "pending cr ir fr rs right w' R"
    by (rule pending_frame [OF p n(2) merging_wfw [OF m]]) (use m in \<open>simp_all add: merging_def\<close>)
  then show ?thesis using that [OF n(1)] n(3) merging_read [OF m n(2)] merging_clean [OF m] by auto
qed

lemma advance_right:
  assumes m: "merging fl il fr ir ofd oi w0 d out w" and s: "source_at cr ir fr right w R"
    and p: "pending cl il fl ls left w L"
  obtains rs right' w' where "line_number_source_next right w = Some (rs, right', w')"
    and "rs = -1 \<and> \<not> clean w0 \<or> merging fl il fr ir ofd oi w0 d out w' \<and> pending cr ir fr rs right' w' R
      \<and> pending cl il fl ls left w' L"
proof -
  obtain rs right' w' where n: "line_number_source_next right w = Some (rs, right', w')" "frame (rd_scope fr) w w'"
    "rs = -1 \<and> \<not> clean w \<or> pending cr ir fr rs right' w' R" by (rule source_next [OF s])
  have "pending cl il fl ls left w' L"
    by (rule pending_frame [OF p n(2) merging_wfw [OF m]]) (use m in \<open>simp_all add: merging_def\<close>)
  then show ?thesis using that [OF n(1)] n(3) merging_read [OF m n(2)] merging_clean [OF m] by auto
qed

lemma merging_emits:
  assumes m: "merging fl il fr ir ofd oi w0 d out w" and e: "emits oi out w d' (r, out', w')"
  shows "r = 0 \<and> merging fl il fr ir ofd oi w0 (d @ d') out' w' \<and> frame (wr_scope ofd oi) w w' \<or> r < 0 \<and> \<not> clean w0"
  using writing_emits [of "merge_scope fl fr ofd oi" "{}" ofd oi w0 d out w d' r out' w'] assms
  by (auto simp: merging_def rest_same_def)

context line_emitter
begin

lemma loop_result:
  assumes "merging fl il fr ir ofd oi w0 d out w" and "pending cl il fl ls left w L" and "pending cr ir fr rs right w R"
    and "\<not> (ls > 0 \<and> rs > 0)"
  shows "merged cl fl il cr fr ir ofd oi w0 d left right out w" and "common L R = []"
  using assms pending_source [OF assms(2)] pending_source [OF assms(3)]
  by (auto simp: merged_def pending_def)

definition loop_post where
  "loop_post cl fl il cr fr ir ofd oi w0 d n L R = (\<lambda>(r :: int, left, right, out, n', w).
     r = 0 \<and> merged cl fl il cr fr ir ofd oi w0 (d @ concat (map enc (common L R))) left right out w
       \<and> n' = (n :: u32) + of_nat (length (common L R))
     \<or> r < 0 \<and> \<not> clean w0)"

lemma intersect_loop_spec:
  assumes "merging fl il fr ir ofd oi w0 d out w" and "pending cl il fl ls left w L" and "pending cr ir fr rs right w R"
    and "sorted_wrt (<) L" and "sorted_wrt (<) R"
  shows "wp (intersect_loop emit ls rs left right out n w) (loop_post cl fl il cr fr ir ofd oi w0 d n L R)"
  using assms
proof (induction "length L + length R" arbitrary: L R ls rs left right out n d w rule: less_induct)
  case less
  note m = less.prems(1) and pl = less.prems(2) and pr = less.prems(3) and sL = less.prems(4) and sR = less.prems(5)
  show ?case
  proof (cases "ls > 0 \<and> rs > 0")
    case False
    then have "intersect_loop emit ls rs left right out n w = Some (0, left, right, out, n, w)"
      by (subst intersect_loop.simps) (simp only: if_False)
    then show ?thesis using loop_result [OF m pl pr False] by (simp add: loop_post_def)
  next
    case True
    then obtain x L' y R' where L: "L = x # L'" and R: "R = y # R'"
      and x: "ls_current left = x" and y: "ls_current right = y"
      and l: "source_at cl il fl left w L'" and r: "source_at cr ir fr right w R'"
      using pl pr by (cases L; cases R) (auto simp: pending_def)
    note st = common_step [OF sL [unfolded L] sR [unfolded R]]
    have sL': "sorted_wrt (<) L'" and sR': "sorted_wrt (<) R'" using sL sR L R by simp_all
    consider "x = y" | "x < y" | "y < x" by (metis less_linear)
    then show ?thesis
    proof cases
      case 1
      obtain er out1 w1 where e: "emit out (ls_current right) w = (er, out1, w1)" using prod_cases3 by blast
      have eq: "ls_current left = ls_current right" using 1 x y by simp
      have em: "emits oi out w (enc x) (er, out1, w1)"
        using emit_emits [of oi out w x] m e unfolding y 1 [symmetric] by (simp add: merging_def writing_def)
      show ?thesis
      proof (cases "er < 0")
        case er: True
        then show ?thesis using merging_emits [OF m em] True eq
          by (subst intersect_loop.simps) (simp add: e loop_post_def)
      next
        case er: False
        then have m1: "merging fl il fr ir ofd oi w0 (d @ enc x) out1 w1" and f1: "frame (wr_scope ofd oi) w w1"
          using merging_emits [OF m em] by auto
        have l1: "source_at cl il fl left w1 L'" and r1: "pending cr ir fr rs right w1 R"
          using src_at_frame [OF _ f1 merging_wfw [OF m]] pending_frame [OF pr f1 merging_wfw [OF m]] l m
          by (auto simp: source_at_def merging_def)
        obtain ls2 left2 w2 where n2: "line_number_source_next left w1 = Some (ls2, left2, w2)"
          and a2: "ls2 = -1 \<and> \<not> clean w0 \<or> merging fl il fr ir ofd oi w0 (d @ enc x) out1 w2
            \<and> pending cl il fl ls2 left2 w2 L' \<and> pending cr ir fr rs right w2 R"
          by (rule advance_left [OF m1 l1 r1])
        show ?thesis
        proof (cases "ls2 < 0")
          case ls2: True
          have "\<not> pending cl il fl ls2 left2 w2 L'" using ls2 by (auto simp: pending_def)
          then show ?thesis using a2 True eq er ls2
            by (subst intersect_loop.simps) (simp add: e n2 loop_post_def)
        next
          case ls2: False
          then have m2: "merging fl il fr ir ofd oi w0 (d @ enc x) out1 w2" and p2: "pending cl il fl ls2 left2 w2 L'"
            and q2: "source_at cr ir fr right w2 R'" using a2 True R by (auto simp: pending_def)
          obtain rs3 right3 w3 where n3: "line_number_source_next right w2 = Some (rs3, right3, w3)"
            and a3: "rs3 = -1 \<and> \<not> clean w0 \<or> merging fl il fr ir ofd oi w0 (d @ enc x) out1 w3
              \<and> pending cr ir fr rs3 right3 w3 R' \<and> pending cl il fl ls2 left2 w3 L'"
            by (rule advance_right [OF m2 q2 p2])
          show ?thesis
          proof (cases "rs3 < 0")
            case rs3: True
            have "\<not> pending cr ir fr rs3 right3 w3 R'" using rs3 by (auto simp: pending_def)
            then show ?thesis using a3 True eq er ls2 rs3
              by (subst intersect_loop.simps) (simp add: e n2 n3 loop_post_def)
          next
            case rs3: False
            then have m3: "merging fl il fr ir ofd oi w0 (d @ enc x) out1 w3"
              and p3: "pending cl il fl ls2 left2 w3 L'" and q3: "pending cr ir fr rs3 right3 w3 R'" using a3 by auto
            have "length L' + length R' < length L + length R" by (simp add: L R)
            note ih = less.hyps [OF this m3 p3 q3 sL' sR', of "n + 1"]
            have "intersect_loop emit ls rs left right out n w = intersect_loop emit ls2 rs3 left2 right3 out1 (n + 1) w3"
              using True eq er ls2 rs3 by (subst intersect_loop.simps) (simp add: e n2 n3)
            then show ?thesis using ih st(1) [OF 1]
              by (auto simp: L R loop_post_def algebra_simps elim!: wp_mono)
          qed
        qed
      qed
    next
      case 2
      obtain ls2 left2 w2 where n2: "line_number_source_next left w = Some (ls2, left2, w2)"
        and a2: "ls2 = -1 \<and> \<not> clean w0 \<or> merging fl il fr ir ofd oi w0 d out w2
          \<and> pending cl il fl ls2 left2 w2 L' \<and> pending cr ir fr rs right w2 R"
        by (rule advance_left [OF m l pr])
      have ne: "ls_current left \<noteq> ls_current right" "ls_current left < ls_current right" using 2 x y by auto
      show ?thesis
      proof (cases "ls2 < 0")
        case ls2: True
        have "\<not> pending cl il fl ls2 left2 w2 L'" using ls2 by (auto simp: pending_def)
        then show ?thesis using a2 True ne ls2 by (subst intersect_loop.simps) (simp add: n2 loop_post_def)
      next
        case ls2: False
        then have m2: "merging fl il fr ir ofd oi w0 d out w2" and p2: "pending cl il fl ls2 left2 w2 L'"
          and q2: "pending cr ir fr rs right w2 R" using a2 by auto
        have "length L' + length R < length L + length R" by (simp add: L)
        note ih = less.hyps [OF this m2 p2 q2 sL' sR, of n]
        have "intersect_loop emit ls rs left right out n w = intersect_loop emit ls2 rs left2 right out n w2"
          using True ne ls2 by (subst intersect_loop.simps) (simp add: n2)
        then show ?thesis using ih st(2) [OF 2] by (simp add: L R loop_post_def)
      qed
    next
      case 3
      obtain rs2 right2 w2 where n2: "line_number_source_next right w = Some (rs2, right2, w2)"
        and a2: "rs2 = -1 \<and> \<not> clean w0 \<or> merging fl il fr ir ofd oi w0 d out w2
          \<and> pending cr ir fr rs2 right2 w2 R' \<and> pending cl il fl ls left w2 L"
        by (rule advance_right [OF m r pl])
      have ne: "ls_current left \<noteq> ls_current right" "\<not> ls_current left < ls_current right" using 3 x y by auto
      show ?thesis
      proof (cases "rs2 < 0")
        case rs2: True
        have "\<not> pending cr ir fr rs2 right2 w2 R'" using rs2 by (auto simp: pending_def)
        then show ?thesis using a2 True ne rs2 by (subst intersect_loop.simps) (simp add: n2 loop_post_def)
      next
        case rs2: False
        then have m2: "merging fl il fr ir ofd oi w0 d out w2" and p2: "pending cl il fl ls left w2 L"
          and q2: "pending cr ir fr rs2 right2 w2 R'" using a2 by auto
        have "length L + length R' < length L + length R" by (simp add: R)
        note ih = less.hyps [OF this m2 p2 q2 sL sR', of n]
        have "intersect_loop emit ls rs left right out n w = intersect_loop emit ls rs2 left right2 out n w2"
          using True ne rs2 by (subst intersect_loop.simps) (simp add: n2)
        then show ?thesis using ih st(3) [OF 3] by (simp add: L R loop_post_def)
      qed
    qed
  qed
qed

lemma intersect_start_spec:
  assumes m: "merging fl il fr ir ofd oi w0 d out w" and l: "source_at cl il fl left w L"
    and r: "source_at cr ir fr right w R" and s: "sorted_wrt (<) L" "sorted_wrt (<) R"
  shows "wp (intersect_start emit left right out w) (loop_post cl fl il cr fr ir ofd oi w0 d 0 L R)"
proof -
  have wf: "wfw w" by (rule merging_wfw [OF m])
  obtain ls left1 w1 where n1: "line_number_source_next left w = Some (ls, left1, w1)" and f1: "frame (rd_scope fl) w w1"
    and a1: "ls = -1 \<and> \<not> clean w \<or> pending cl il fl ls left1 w1 L" by (rule source_next [OF l])
  have m1: "merging fl il fr ir ofd oi w0 d out w1" using merging_read [OF m f1] by simp
  have r1: "source_at cr ir fr right w1 R"
    using src_at_frame [OF _ f1 wf] r m by (auto simp: source_at_def merging_def)
  show ?thesis
  proof (cases "ls < 0")
    case True
    then have "\<not> clean w0" using a1 merging_clean [OF m] by (auto simp: pending_def)
    then show ?thesis using True by (simp add: intersect_start_def n1 loop_post_def)
  next
    case ls: False
    then have p1: "pending cl il fl ls left1 w1 L" using a1 by auto
    obtain rs right2 w2 where n2: "line_number_source_next right w1 = Some (rs, right2, w2)"
      and a2: "rs = -1 \<and> \<not> clean w0 \<or> merging fl il fr ir ofd oi w0 d out w2 \<and> pending cr ir fr rs right2 w2 R
        \<and> pending cl il fl ls left1 w2 L" by (rule advance_right [OF m1 r1 p1])
    show ?thesis
    proof (cases "rs < 0")
      case True
      then have "\<not> clean w0" using a2 by (auto simp: pending_def)
      then show ?thesis using True ls by (simp add: intersect_start_def n1 n2 loop_post_def)
    next
      case rs: False
      then have "merging fl il fr ir ofd oi w0 d out w2" "pending cl il fl ls left1 w2 L" "pending cr ir fr rs right2 w2 R"
        using a2 by auto
      from intersect_loop_spec [OF this s, of 0] show ?thesis using ls rs by (simp add: intersect_start_def n1 n2)
    qed
  qed
qed

end
end
