(* ===== verification/Pa1_Answer.thy ===== *)
theory Pa1_Answer
  imports Pa1_Cache
begin

text \<open>
  The abstract specification of the queries: the text that each query must produce, as a function
  of the input file and the query alone, and the facts on occurrences that connect it to the
  records in the cache files.
\<close>

section \<open>The answers\<close>

definition hit_text :: "occ \<Rightarrow> byte list" where
  "hit_text oc = show_nat (fst (snd oc)) @ [of_char CHR '':''] @ show_nat (snd (snd oc)) @ [of_char CHR '' '']"

definition line_text :: "nat \<Rightarrow> byte list" where
  "line_text k = show_nat k @ [of_char CHR '' '']"

definition word_answer :: "byte list \<Rightarrow> byte list \<Rightarrow> byte list" where
  "word_answer T q = concat (map hit_text (filter (\<lambda>oc. fst oc = lower q) (occs_of T)))"

text \<open>A phrase at a position: equal up to case, and up to a separator or the end of the line.\<close>

definition phrase_at :: "byte list \<Rightarrow> byte list \<Rightarrow> nat \<Rightarrow> bool" where
  "phrase_at phrase line s \<longleftrightarrow> s + length phrase \<le> length line
     \<and> lower (take (length phrase) (drop s line)) = lower phrase
     \<and> (s + length phrase = length line \<or> is_word_sep (line ! (s + length phrase)))"

definition phrase_answer :: "byte list \<Rightarrow> byte list \<Rightarrow> byte list" where
  "phrase_answer T phrase = concat (map hit_text
     (filter (\<lambda>oc. phrase_at phrase (lines_of T ! (fst (snd oc) - 1)) (snd (snd oc))) (occs_of T)))"

definition has_word :: "byte list \<Rightarrow> byte list \<Rightarrow> nat \<Rightarrow> bool" where
  "has_word T q k \<longleftrightarrow> list_ex (\<lambda>oc. fst oc = q \<and> fst (snd oc) = k) (occs_of T)"

definition in_order :: "byte list \<Rightarrow> byte list \<Rightarrow> byte list \<Rightarrow> nat \<Rightarrow> bool" where
  "in_order T l r k \<longleftrightarrow> list_ex (\<lambda>a. fst a = l \<and> fst (snd a) = k
     \<and> list_ex (\<lambda>b. fst b = r \<and> fst (snd b) = k \<and> snd (snd a) < snd (snd b)) (occs_of T)) (occs_of T)"

definition lines_where :: "byte list \<Rightarrow> (nat \<Rightarrow> bool) \<Rightarrow> nat list" where
  "lines_where T P = filter P [1..<Suc (length (lines_of T))]"

definition multi_answer :: "byte list \<Rightarrow> byte list list \<Rightarrow> byte list" where
  "multi_answer T qs = concat (map line_text (lines_where T (\<lambda>k. \<forall>q\<in>set qs. has_word T (lower q) k)))"

definition pattern_answer :: "byte list \<Rightarrow> byte list \<Rightarrow> byte list \<Rightarrow> byte list" where
  "pattern_answer T l r = concat (map line_text (lines_where T (in_order T (lower l) (lower r))))"

definition query_words :: "byte list \<Rightarrow> byte list list" where
  "query_words q = map snd (word_spans 0 q)"

definition quoted :: "byte list \<Rightarrow> byte list" where
  "quoted q = butlast (tl q)"

definition valid_phrase :: "byte list \<Rightarrow> bool" where
  "valid_phrase q \<longleftrightarrow> 2 \<le> length q \<and> hd q = QUOTE \<and> last q = QUOTE
     \<and> (let p = quoted q in p \<noteq> [] \<and> \<not> is_word_sep (hd p) \<and> \<not> is_word_sep (last p) \<and> QUOTE \<notin> set p)"

definition pattern_left :: "byte list \<Rightarrow> byte list" where
  "pattern_left q = takeWhile (\<lambda>c. c \<noteq> STAR) q"

definition pattern_right :: "byte list \<Rightarrow> byte list" where
  "pattern_right q = tl (dropWhile (\<lambda>c. c \<noteq> STAR) q)"

definition valid_pattern :: "byte list \<Rightarrow> bool" where
  "valid_pattern q \<longleftrightarrow> pattern_left q \<noteq> [] \<and> pattern_right q \<noteq> [] \<and> STAR \<notin> set (pattern_right q)
     \<and> (\<forall>c\<in>set q. \<not> is_word_sep c)"

definition answer :: "byte list \<Rightarrow> byte list \<Rightarrow> byte list" where
  "answer T q =
     (if QUOTE \<in> set q then (if valid_phrase q then phrase_answer T (quoted q) else [])
      else if STAR \<in> set q then
        (if valid_pattern q then pattern_answer T (pattern_left q) (pattern_right q) else [])
      else (case query_words q of
          [] \<Rightarrow> []
        | [v] \<Rightarrow> word_answer T v
        | vs \<Rightarrow> multi_answer T vs)) @ [NEWLINE]"

section \<open>Spans of words\<close>

lemma word_spans_nth:
  "(s, v) \<in> set (word_spans off t) \<Longrightarrow> off \<le> s \<and> s - off < length t \<and> v \<noteq> []
     \<and> v = takeWhile (\<lambda>c. \<not> is_word_sep c) (drop (s - off) t)"
proof (induction off t rule: word_spans.induct)
  case (1 off t)
  let ?t = "dropWhile is_word_sep t"
  let ?k = "off + (length t - length ?t)" and ?x = "takeWhile (\<lambda>c. \<not> is_word_sep c) ?t"
  have ws: "word_spans off t = (if ?t = [] then [] else (?k, ?x) # word_spans (?k + length ?x) (drop (length ?x) ?t))"
    unfolding word_spans.simps [of off t] Let_def ..
  have ne: "?t \<noteq> []"
  proof
    assume "?t = []"
    then have "word_spans off t = []" unfolding ws by simp
    then show False using 1(2) by simp
  qed
  have le: "length ?t \<le> length t" by (rule length_dropWhile_le)
  have dt: "drop (length t - length ?t) t = ?t"
    by (metis append_eq_conv_conj diff_add_inverse2 length_append takeWhile_dropWhile_id)
  have pos: "0 < length ?t" using ne by simp
  consider "s = ?k" "v = ?x" | "(s, v) \<in> set (word_spans (?k + length ?x) (drop (length ?x) ?t))"
    using 1(2) unfolding ws if_not_P [OF ne] by (auto simp del: dropWhile_eq_Nil_conv)
  then show ?case
  proof cases
    case 1
    then have "s - off = length t - length ?t" by simp
    moreover have "?x \<noteq> []" using word_nonempty [OF ne] .
    moreover have "length t - length ?t < length t" using pos le by linarith
    ultimately show ?thesis using 1 dt by simp
  next
    case 2
    from 1(1) [OF refl refl refl ne 2] have ih: "?k + length ?x \<le> s" "s - (?k + length ?x) < length (drop (length ?x) ?t)"
      "v \<noteq> []" "v = takeWhile (\<lambda>c. \<not> is_word_sep c) (drop (s - (?k + length ?x)) (drop (length ?x) ?t))" by blast+
    have "drop (s - (?k + length ?x)) (drop (length ?x) ?t) = drop (s - ?k) ?t" using ih(1) by (simp add: add.commute)
    also have "\<dots> = drop (s - ?k) (drop (length t - length ?t) t)" by (simp only: dt)
    also have "\<dots> = drop (s - off) t" using ih(1) by (simp add: add.commute)
    finally have "drop (s - (?k + length ?x)) (drop (length ?x) ?t) = drop (s - off) t" .
    moreover have "s - off < length t" using ih(1,2) le by simp
    ultimately show ?thesis using ih by simp
  qed
qed

section \<open>Where occurrences are\<close>

lemma set_line_occs: "(q, j, s) \<in> set (line_occs k l) \<longleftrightarrow> j = k \<and> (\<exists>v. (s, v) \<in> set (word_spans 0 l) \<and> q = lower v)"
  by (auto simp: line_occs_def)

lemma set_occs_from:
  "(q, k, s) \<in> set (occs_from n ls) \<longleftrightarrow> n \<le> k \<and> k < n + length ls
     \<and> (\<exists>v. (s, v) \<in> set (word_spans 0 (ls ! (k - n))) \<and> q = lower v)"
proof (induction ls arbitrary: n)
  case (Cons l ls)
  show ?case
  proof (cases "k = n")
    case True
    then show ?thesis using Cons [of "Suc n"] by (simp add: set_line_occs)
  next
    case False
    then have "n \<le> k \<longleftrightarrow> Suc n \<le> k" by presburger
    moreover have "Suc n \<le> k \<Longrightarrow> (l # ls) ! (k - n) = ls ! (k - Suc n)" by (simp add: nth_Cons' diff_Suc)
    ultimately show ?thesis using Cons [of "Suc n"] False by (auto simp: set_line_occs)
  qed
qed simp

lemma set_occs_of:
  "(q, k, s) \<in> set (occs_of T) \<longleftrightarrow> 1 \<le> k \<and> k \<le> length (lines_of T)
     \<and> (\<exists>v. (s, v) \<in> set (word_spans 0 (lines_of T ! (k - 1))) \<and> q = lower v)"
  using set_occs_from [of q k s 1 "lines_of T"] by (auto simp: occs_of_def)

lemma sorted_occs_from: "sorted (map (\<lambda>oc. fst (snd oc)) (occs_from n ls))"
proof (induction ls arbitrary: n)
  case (Cons l ls)
  have "map (\<lambda>oc. fst (snd oc)) (line_occs n l) = replicate (length (word_spans 0 l)) n"
    by (simp add: line_occs_def comp_def case_prod_beta map_replicate_const)
  moreover have "n \<le> fst (snd oc)" if "oc \<in> set (occs_from (Suc n) ls)" for oc
    using that set_occs_from [of "fst oc" "fst (snd oc)" "snd (snd oc)" "Suc n" ls] by simp
  ultimately show ?case using Cons by (auto simp: sorted_append)
qed simp

lemma sorted_occs_of: "sorted (map (\<lambda>oc. fst (snd oc)) (occs_of T))"
  unfolding occs_of_def by (rule sorted_occs_from)

lemma line_size_le_length: "k < length (lines_of T) \<Longrightarrow> length (lines_of T ! k) \<le> length T"
  using line_offsets_nth(4) [of k T] length_takeWhile_le [of not_nl "drop (line_offsets T ! k) T"] by simp

lemma occ_small:
  assumes "oc \<in> set (occs_of T)" and "length T < 2 ^ 32"
  shows "1 \<le> fst (snd oc)" and "fst (snd oc) \<le> length (lines_of T)" and "fst (snd oc) < 2 ^ 32"
    and "snd (snd oc) < length (lines_of T ! (fst (snd oc) - 1))" and "snd (snd oc) < 2 ^ 32"
proof -
  obtain q k s where oc: "oc = (q, k, s)" by (cases oc)
  then have k: "1 \<le> k" "k \<le> length (lines_of T)" using assms(1) by (auto simp: set_occs_of)
  obtain v where "(s, v) \<in> set (word_spans 0 (lines_of T ! (k - 1)))" using assms(1) oc by (auto simp: set_occs_of)
  then have s: "s < length (lines_of T ! (k - 1))" using word_spans_nth by fastforce
  have "length (lines_of T ! (k - 1)) \<le> length T" by (rule line_size_le_length) (use k in simp)
  then show "1 \<le> fst (snd oc)" "fst (snd oc) \<le> length (lines_of T)" "fst (snd oc) < 2 ^ 32"
    "snd (snd oc) < length (lines_of T ! (fst (snd oc) - 1))" "snd (snd oc) < 2 ^ 32"
    using k s assms(2) length_lines_of [of T] by (simp_all add: oc)
qed

section \<open>The lines of a word\<close>

lemma u32_le: "a < 2 ^ 32 \<Longrightarrow> b < 2 ^ 32 \<Longrightarrow> (of_nat a :: u32) \<le> of_nat b \<longleftrightarrow> a \<le> b"
  by (simp add: word_le_nat_alt unat_u32)

lemma u32_eq: "a < 2 ^ 32 \<Longrightarrow> b < 2 ^ 32 \<Longrightarrow> (of_nat a :: u32) = of_nat b \<longleftrightarrow> a = b"
  using unat_u32 [of a] unat_u32 [of b] by metis

lemma strict_remdups_adj: "sorted xs \<Longrightarrow> sorted_wrt (<) (remdups_adj xs)" for xs :: "'a :: linorder list"
proof (induction xs rule: remdups_adj.induct)
  case (3 x y xs)
  show ?case
  proof (cases "x = y")
    case False
    then have "\<forall>z\<in>set (y # xs). x < z" using 3(3) by auto
    then show ?thesis using 3(2) [OF False] 3(3) False by simp
  qed (use 3 in simp)
qed simp_all

definition word_lines :: "byte list \<Rightarrow> nat \<Rightarrow> u32 list" where
  "word_lines T k = line_groups (word_recs T k)"

lemma lines_where_small: "k \<in> set (lines_where T P) \<Longrightarrow> length T < 2 ^ 32 \<Longrightarrow> k < 2 ^ 32"
  using length_lines_of [of T] by (auto simp: lines_where_def)

lemma strict_lines_where:
  assumes "length T < 2 ^ 32"
  shows "sorted_wrt (<) (map of_nat (lines_where T P) :: u32 list)"
proof -
  have "sorted_wrt (<) (lines_where T P)"
    unfolding lines_where_def by (rule sorted_wrt_filter) (simp del: upt_Suc)
  then have "sorted_wrt (\<lambda>a b. (of_nat a :: u32) < of_nat b) (lines_where T P)"
  proof (rule sorted_wrt_mono_rel [rotated])
    fix a b assume "a \<in> set (lines_where T P)" "b \<in> set (lines_where T P)" "a < b"
    then show "(of_nat a :: u32) < of_nat b"
      using lines_where_small [OF _ assms] by (simp add: word_less_nat_alt unat_u32)
  qed
  then show ?thesis by (simp add: sorted_wrt_map)
qed

lemma has_word_iff: "has_word T q k \<longleftrightarrow> (\<exists>s. (q, k, s) \<in> set (occs_of T))"
  by (force simp: has_word_def list_ex_iff)

lemma word_lines_eq:
  assumes T: "length T < 2 ^ 32"
  shows "word_lines T k = map of_nat (lines_where T (has_word T (words_of (occs_of T) ! k)))"
    and "sorted_wrt (<) (word_lines T k)"
proof -
  let ?q = "words_of (occs_of T) ! k"
  let ?ocs = "filter (\<lambda>oc. fst oc = ?q) (occs_of T)"
  have m: "map oc_line (word_recs T k) = map (\<lambda>oc. of_nat (fst (snd oc))) ?ocs"
    by (simp add: word_recs_def record_of_def)
  have "sorted (map (\<lambda>oc. fst (snd oc)) ?ocs)" by (rule sorted_filter [OF sorted_occs_of])
  then have "sorted_wrt (\<lambda>a b. (of_nat (fst (snd a)) :: u32) \<le> of_nat (fst (snd b))) ?ocs"
    unfolding sorted_map
  proof (rule sorted_wrt_mono_rel [rotated])
    fix a b assume "a \<in> set ?ocs" "b \<in> set ?ocs" "fst (snd a) \<le> fst (snd b)"
    then show "(of_nat (fst (snd a)) :: u32) \<le> of_nat (fst (snd b))"
      using occ_small(3) [OF _ T] by (simp add: u32_le)
  qed
  then have "sorted (map oc_line (word_recs T k))" unfolding m by (simp add: sorted_map)
  then show s: "sorted_wrt (<) (word_lines T k)"
    unfolding word_lines_def line_groups_def by (rule strict_remdups_adj)
  have "set (word_lines T k) = (\<lambda>oc. of_nat (fst (snd oc))) ` set ?ocs"
    unfolding word_lines_def line_groups_def remdups_adj_set m set_map ..
  also have "\<dots> = of_nat ` set (lines_where T (has_word T ?q))"
    using occ_small(1,2) [OF _ T] by (fastforce simp: lines_where_def has_word_iff image_iff)
  finally show "word_lines T k = map of_nat (lines_where T (has_word T ?q))"
    using strict_sorted_equal [OF s strict_lines_where [OF T]] by simp
qed

lemma filter_lines_where: "filter P (lines_where T Q) = lines_where T (\<lambda>k. Q k \<and> P k)"
  by (simp add: lines_where_def conj_commute)

lemma line_texts:
  assumes "\<And>k. k \<in> set ks \<Longrightarrow> k < 2 ^ 32"
  shows "concat (map (\<lambda>v. show_nat (unat v) @ [of_char CHR '' '']) (map of_nat ks :: u32 list)) = concat (map line_text ks)"
  using assms by (induction ks) (simp_all add: line_text_def unat_u32)
end
