(* ===== verification/Pa1_Serve.thy ===== *)
theory Pa1_Serve
  imports Pa1_Merge Pa1_Answer
begin

text \<open>
  The state of the program while it answers a query: the index stays what \<open>indexed\<close> says (more
  words may get a cache), the output grows, and nothing that existed when the query started is
  touched except the output and the offsets of the bucket files. One lemma per kind of step keeps
  this invariant, and the sources are opened, merged and closed under it.
\<close>

section \<open>The invariant\<close>

text \<open>
  \<open>ix0\<close>, \<open>w0\<close>: index and world when the query started; \<open>F\<close>: the descriptors opened since; \<open>d\<close>: all
  that was written to the output, whose descriptor is \<open>ofd\<close> and whose inode is \<open>x\<close>.
\<close>

definition serving ::
  "nat \<Rightarrow> byte list \<Rightarrow> (path \<rightharpoonup> nat) \<Rightarrow> int \<Rightarrow> index \<Rightarrow> world \<Rightarrow> int set \<Rightarrow> byte list \<Rightarrow> index \<Rightarrow> outbuf \<Rightarrow> world \<Rightarrow> bool" where
  "serving x T N ofd ix0 w0 F d ix out w \<longleftrightarrow> indexed x T N ix0 w0 \<and> indexed x T N ix w \<and> grown ix0 ix
     \<and> ob_fd out = ofd \<and> sink_ok x out w \<and> sink out w = d \<and> fd_of w0 ofd \<noteq> None
     \<and> frame (open_scope w0 (insert ofd (set (ix_occ_fds ix0))) {x}) w0 w
     \<and> (\<forall>fd\<in>F. fd_of w0 fd = None) \<and> (\<forall>fd. fd_of w fd \<noteq> None \<longrightarrow> fd \<in> F \<or> fd_of w0 fd \<noteq> None)"

lemma sink_ok_open: "sink_ok i out w \<Longrightarrow> fd_of w (ob_fd out) \<noteq> None"
  by (auto simp: sink_ok_def appendable_def)

lemma serving_start:
  "indexed x T N ix w \<Longrightarrow> sink_ok x out w \<Longrightarrow> serving x T N (ob_fd out) ix w {} (sink out w) ix out w"
  using sink_ok_open [of x out w] by (simp add: serving_def)

lemma serving_clean: "serving x T N ofd ix0 w0 F d ix out w \<Longrightarrow> clean w0 \<Longrightarrow> clean w"
  unfolding serving_def using frame_clean by blast

lemma serving_wfw: "serving x T N ofd ix0 w0 F d ix out w \<Longrightarrow> wfw w"
  by (simp add: serving_def indexed_def)

lemma serving_indexed: "serving x T N ofd ix0 w0 F d ix out w \<Longrightarrow> indexed x T N ix w"
  by (simp add: serving_def)

lemma serving_new: "serving x T N ofd ix0 w0 F d ix out w \<Longrightarrow> fd \<in> F \<Longrightarrow> fd \<noteq> ofd"
  by (auto simp: serving_def)

lemma serving_open0:
  assumes "serving x T N ofd ix0 w0 F d ix out w" and "fd_of w0 y \<noteq> None"
  shows "fd_of w y \<noteq> None"
proof -
  have "map_option handle (fd_of w y) = map_option handle (fd_of w0 y)"
    by (rule frame_handles [of "open_scope w0 (insert ofd (set (ix_occ_fds ix0))) {x}"])
      (use assms in \<open>auto simp: serving_def\<close>)
  then show ?thesis using assms(2) by auto
qed

lemma indexed_fds_open:
  assumes "indexed x T N ix w" and "fd \<in> set (ix_input_fd ix # ix_fds ix)"
  shows "fd_of w fd \<noteq> None"
proof -
  have "length (ix_occ_fds ix) = OCC_BUCKETS" "ix_files x T ix w" using assms(1) by (simp_all add: indexed_def ix_static_def)
  then show ?thesis using assms(2)
    by (auto simp: ix_fds_def ix_files_def file_at_def in_set_conv_nth)
qed

lemma grown_ix_fds: "grown ix ix' \<Longrightarrow> ix_fds ix' = ix_fds ix \<and> ix_line_fd ix' = ix_line_fd ix"
  by (auto simp: grown_def ix_fds_def)

lemma frame_all_names: "frame s w w' \<Longrightarrow> w_names w' = w_names w \<Longrightarrow> frame (s\<lparr>sc_names := UNIV\<rparr>) w w'"
  by (simp add: frame_def)

text \<open>Writing to files that are none of the files of the index.\<close>

lemma indexed_apart:
  assumes ix: "indexed x T N ix w" and fr: "frame s w w'" and nm: "w_names w' = w_names w"
    and fds: "set (ix_input_fd ix # ix_fds ix) \<subseteq> sc_fds s"
    and wr: "\<And>j. j \<in> sc_write s \<Longrightarrow> j < w_nino w \<Longrightarrow> j = x \<or> indexed j T N ix w"
  shows "indexed x T N ix w'"
proof -
  have wf: "wfw w" and st: "ix_static T ix" using ix by (simp_all add: indexed_def)
  have keep: "file_at x w' fd d"
    if fd: "fd \<in> sc_fds s" and fx: "file_at x w fd d" and fj: "\<And>j. indexed j T N ix w \<Longrightarrow> file_at j w fd d" for fd d
  proof -
    obtain f where f: "fd_of w fd = Some f" "o_kind f = Regular" "o_ino f \<noteq> x" "w_data w (o_ino f) = d"
      using fx by (auto simp: file_at_def)
    have i: "o_ino f < w_nino w" using wf f(1) by (auto simp: wfw_def)
    have "\<not> indexed (o_ino f) T N ix w" using fj [of "o_ino f"] f(1) by (auto simp: file_at_def)
    then have "o_ino f \<notin> sc_write s" using wr [OF _ i] f(3) by blast
    then have "w_data w' (o_ino f) = d" using frame_data [OF fr i] f(4) by simp
    then show ?thesis using frame_handle [OF fr fd f(1)] f by (metis file_at_def)
  qed
  have fl: "ix_files x T ix w'"
    unfolding ix_files_def
  proof (intro conjI allI impI)
    show "file_at x w' (ix_input_fd ix) T"
      by (rule keep) (use ix fds in \<open>simp_all add: indexed_def ix_files_def\<close>)
    show "file_at x w' (ix_line_fd ix) (concat (map (le_bytes 8) (line_offsets T)))"
      by (rule keep) (use ix fds in \<open>simp_all add: indexed_def ix_files_def ix_fds_def\<close>)
    show "file_at x w' (ix_occ_fds ix ! b) (bucket_bytes (occs_of T) b)" if b: "b < OCC_BUCKETS" for b
    proof (rule keep)
      show "ix_occ_fds ix ! b \<in> sc_fds s" using fds st b by (auto simp: ix_static_def ix_fds_def)
    qed (use ix b in \<open>simp_all add: indexed_def ix_files_def\<close>)
  qed
  have "cache_ok x T w' k (lx_entries (ix_lexicon ix) ! k)" if k: "k < length (lx_entries (ix_lexicon ix))" for k
    unfolding cache_ok_def
  proof (intro allI impI)
    fix p assume p: "le_cache_path (lx_entries (ix_lexicon ix) ! k) = Some p"
    have c: "cache_ok j T w k (lx_entries (ix_lexicon ix) ! k)" if "indexed j T N ix w" for j
      using that k by (simp add: indexed_def caches_ok_def)
    obtain i where i: "w_names w p = Some i" "i \<noteq> x" "w_data w i = recs_bytes (word_recs T k)"
      using c [OF ix] p by (auto simp: cache_ok_def)
    have n: "i < w_nino w" using wf i(1) by (auto simp: wfw_def)
    have "\<not> indexed i T N ix w" using c [of i] p i(1) by (auto simp: cache_ok_def)
    then have "i \<notin> sc_write s" using wr [OF _ n] i(2) by blast
    then show "(\<exists>i. w_names w' p = Some i \<and> i \<noteq> x \<and> w_data w' i = recs_bytes (word_recs T k))
        \<and> unat (le_cache_count (lx_entries (ix_lexicon ix) ! k)) = length (word_recs T k)"
      using frame_data [OF fr n] i nm c [OF ix] p by (auto simp: cache_ok_def)
  qed
  then have "caches_ok x T N (ix_lexicon ix) w'" using ix nm by (simp add: indexed_def caches_ok_def)
  then show ?thesis using ix fl frame_wfw [OF fr wf] frame_nino [OF fr] by (simp add: indexed_def)
qed

text \<open>A file that is created now is none of the files of the index.\<close>

lemma indexed_fresh:
  assumes "indexed x T N ix w" and "frame (open_scope w {} {}) w w'" and "w_names w' = w_names w"
    and "w_nino w \<le> i" and "i < w_nino w'"
  shows "indexed i T N ix w'"
proof -
  have x: "indexed x T N ix w'" by (rule indexed_frame [OF assms(1,2,3)]) simp
  have wf: "wfw w" using assms(1) by (simp add: indexed_def)
  have "file_at i w' fd d" if a: "file_at x w fd d" and b: "file_at x w' fd d" for fd d
  proof -
    obtain f where f: "fd_of w fd = Some f" using a by (auto simp: file_at_def)
    then have "o_ino f < w_nino w" using wf by (auto simp: wfw_def)
    moreover obtain g where "fd_of w' fd = Some g" "handle g = handle f"
      using frame_handle [OF assms(2) _ f] f by (auto simp: handle_def)
    ultimately show ?thesis using b assms(4) by (auto simp: file_at_def handle_def)
  qed
  then have "ix_files i T ix w'" using assms(1) x by (simp add: indexed_def ix_files_def)
  moreover have "cache_ok i T w' k e" if "cache_ok x T w' k e" for k e
  proof -
    have "j \<noteq> i" if "w_names w p = Some j" for p j
    proof -
      have "j < w_nino w" using that wf by (simp add: wfw_def)
      then show ?thesis using assms(4) by simp
    qed
    then show ?thesis using that unfolding cache_ok_def assms(3) by metis
  qed
  then have "caches_ok i T N (ix_lexicon ix) w'" using x by (simp add: indexed_def caches_ok_def)
  ultimately show ?thesis using x assms(5) by (simp add: indexed_def)
qed

section \<open>Steps that keep it\<close>

lemma serving_frame:
  assumes s: "serving x T N ofd ix0 w0 F d ix out w"
    and fr: "frame s w w'" and nm: "w_names w' = w_names w" and fds: "{fd. fd_of w0 fd \<noteq> None} \<subseteq> sc_fds s"
    and mv: "\<And>fd. fd \<in> sc_move s \<Longrightarrow> fd_of w0 fd \<noteq> None \<Longrightarrow> fd = ofd \<or> fd \<in> set (ix_occ_fds ix0)"
    and wr: "\<And>j. j \<in> sc_write s \<Longrightarrow> j < w_nino w \<Longrightarrow> j = x \<or> w_nino w0 \<le> j \<and> indexed j T N ix w"
    and out: "ob_fd out' = ofd" "sink_ok x out' w'" "sink out' w' = d'"
    and F: "\<And>fd. fd_of w' fd \<noteq> None \<Longrightarrow> fd \<in> F' \<or> fd_of w0 fd \<noteq> None" "\<And>fd. fd \<in> F' \<Longrightarrow> fd_of w0 fd = None"
  shows "serving x T N ofd ix0 w0 F' d' ix out' w'"
proof -
  have i0: "indexed x T N ix0 w0" and g: "grown ix0 ix" and ix: "indexed x T N ix w" using s by (simp_all add: serving_def)
  have "set (ix_input_fd ix # ix_fds ix) \<subseteq> sc_fds s"
    using indexed_fds_open [OF i0] fds grown_fds [OF g] grown_ix_fds [OF g] by auto
  then have "indexed x T N ix w'" using indexed_apart [OF ix fr nm] wr by blast
  moreover have "frame (open_scope w0 (insert ofd (set (ix_occ_fds ix0))) {x}) w w'"
  proof (rule frame_weaken [OF frame_all_names [OF fr nm]])
    show "i \<in> sc_write (open_scope w0 (insert ofd (set (ix_occ_fds ix0))) {x})"
      if "i < w_nino w" "i \<in> sc_write (s\<lparr>sc_names := UNIV\<rparr>)" for i
      using wr [of i] that by auto
  qed (use fds mv in auto)
  ultimately show ?thesis using s out F frame_trans by (auto simp: serving_def)
qed

lemma serving_keep:
  assumes s: "serving x T N ofd ix0 w0 F d ix out w"
    and fr: "frame s w w'" and nm: "w_names w' = w_names w" and fds: "{fd. fd_of w0 fd \<noteq> None} \<subseteq> sc_fds s"
    and mv: "\<And>fd. fd \<in> sc_move s \<Longrightarrow> fd_of w0 fd = None"
    and wr: "\<And>j. j \<in> sc_write s \<Longrightarrow> j < w_nino w \<Longrightarrow> w_nino w0 \<le> j \<and> indexed j T N ix w"
    and F: "\<And>fd. fd_of w' fd \<noteq> None \<Longrightarrow> fd \<in> F' \<or> fd_of w0 fd \<noteq> None" "\<And>fd. fd \<in> F' \<Longrightarrow> fd_of w0 fd = None"
  shows "serving x T N ofd ix0 w0 F' d ix out w'"
proof (rule serving_frame [OF s fr nm fds])
  have o: "ob_fd out = ofd" "sink_ok x out w" "sink out w = d" "fd_of w0 ofd \<noteq> None" "x < w_nino w0" "x < w_nino w"
    using s by (simp_all add: serving_def indexed_def)
  have "x \<notin> sc_write s" using wr o(5,6) by fastforce
  moreover have "ob_fd out \<in> sc_fds s" "ob_fd out \<notin> sc_move s" using o(1,4) fds mv by auto
  ultimately show "sink_ok x out w'" "sink out w' = d" "ob_fd out = ofd"
    using sink_ok_frame [OF o(2) fr serving_wfw [OF s]] o(1,3) by auto
  show "fd = ofd \<or> fd \<in> set (ix_occ_fds ix0)" if "fd \<in> sc_move s" "fd_of w0 fd \<noteq> None" for fd
    using mv [OF that(1)] that(2) by simp
  show "j = x \<or> w_nino w0 \<le> j \<and> indexed j T N ix w" if "j \<in> sc_write s" "j < w_nino w" for j
    using wr [OF that] by simp
  show "fd \<in> F' \<or> fd_of w0 fd \<noteq> None" if "fd_of w' fd \<noteq> None" for fd by (rule F(1) [OF that])
  show "fd_of w0 fd = None" if "fd \<in> F'" for fd by (rule F(2) [OF that])
qed

lemma serving_read:
  assumes s: "serving x T N ofd ix0 w0 F d ix out w" and "frame (rd_scope fd) w w'" and "fd \<in> F"
  shows "serving x T N ofd ix0 w0 F d ix out w'"
proof (rule serving_keep [OF s assms(2)])
  show "w_names w' = w_names w" using frame_names [OF assms(2)] by (simp add: fun_eq_iff)
  show "y \<in> F \<or> fd_of w0 y \<noteq> None" if "fd_of w' y \<noteq> None" for y
    using frame_UNIV_fds [OF assms(2), of y] that s by (simp add: serving_def)
qed (use s assms(3) in \<open>auto simp: serving_def\<close>)

lemma serving_emits:
  assumes s: "serving x T N ofd ix0 w0 F d ix out w" and e: "emits x out w d' (r, out', w')"
  shows "r = 0 \<and> serving x T N ofd ix0 w0 F (d @ d') ix out' w' \<and> frame (wr_scope ofd x) w w' \<or> r = -1 \<and> \<not> clean w0"
proof (cases "r = 0")
  case False
  then show ?thesis using e serving_clean [OF s] by (auto simp: emits_def)
next
  case True
  have fr: "frame (wr_scope ofd x) w w'" using e s by (simp add: emits_def serving_def)
  have "serving x T N ofd ix0 w0 F (d @ d') ix out' w'"
  proof (rule serving_frame [OF s fr])
    show "w_names w' = w_names w" using frame_names [OF fr] by (simp add: fun_eq_iff)
    show "y \<in> F \<or> fd_of w0 y \<noteq> None" if "fd_of w' y \<noteq> None" for y
      using frame_UNIV_fds [OF fr, of y] that s by (simp add: serving_def)
  qed (use s e True in \<open>auto simp: serving_def emits_def\<close>)
  then show ?thesis using True fr by simp
qed

lemma sys_close_drop:
  assumes "sys_close fd w = (r, w')" and "fd_of w fd \<noteq> None"
  shows "frame \<lparr>sc_names = UNIV, sc_fds = UNIV - {fd}, sc_move = {}, sc_write = {}\<rparr> w w'" and "w_names w' = w_names w"
    and "w_data w' = w_data w" and "\<And>y. fd_of w' y = (if y = fd then None else fd_of w y)" and "r = 0 \<or> r = -1 \<and> \<not> clean w"
proof -
  obtain f where f: "fd_of w fd = Some f" using assms(2) by auto
  note c = sys_close_frame [OF assms(1) f, of "\<lparr>sc_names = UNIV, sc_fds = UNIV - {fd}, sc_move = {}, sc_write = {}\<rparr>"]
  show fr: "frame \<lparr>sc_names = UNIV, sc_fds = UNIV - {fd}, sc_move = {}, sc_write = {}\<rparr> w w'" using c by simp
  show "w_names w' = w_names w" using frame_names [OF fr] by (simp add: fun_eq_iff)
  show "w_data w' = w_data w" "\<And>y. fd_of w' y = (if y = fd then None else fd_of w y)" "r = 0 \<or> r = -1 \<and> \<not> clean w"
    using c by simp_all
qed

lemma serving_close:
  assumes s: "serving x T N ofd ix0 w0 F d ix out w" and c: "sys_close fd w = (r, w')" and fd: "fd \<in> F" "fd_of w fd \<noteq> None"
  shows "serving x T N ofd ix0 w0 (F - {fd}) d ix out w'" and "r = 0 \<or> r = -1 \<and> \<not> clean w0"
proof -
  note cl = sys_close_drop [OF c fd(2)]
  show "serving x T N ofd ix0 w0 (F - {fd}) d ix out w'"
    by (rule serving_keep [OF s cl(1,2)]) (use s fd cl(4) in \<open>auto simp: serving_def split: if_splits\<close>)
  show "r = 0 \<or> r = -1 \<and> \<not> clean w0" using cl(5) serving_clean [OF s] by blast
qed

lemma serving_ensure:
  assumes s: "serving x T N ofd ix0 w0 F d ix out w" and k: "k < length (words_of (occs_of T))"
    and id: "unat word_id = k" and bk: "unat bucket = bucket_of (words_of (occs_of T) ! k)"
  shows "wp (ensure_word_cache ix word_id bucket w) (\<lambda>(r, ix', w').
     r = 0 \<and> serving x T N ofd ix0 w0 F d ix' out w' \<and> cached ix' k \<and> grown ix ix' \<or> r < 0 \<and> \<not> clean w0)"
proof -
  from ensure_word_cache_spec [OF serving_indexed [OF s] k id bk] obtain r ix' w' where
    eq: "ensure_word_cache ix word_id bucket w = Some (r, ix', w')" and e: "ensured x T N ix k w (r, ix', w')"
    by (auto simp: wp_iff)
  have "r = 0 \<and> serving x T N ofd ix0 w0 F d ix' out w' \<and> cached ix' k \<and> grown ix ix' \<or> r < 0 \<and> \<not> clean w0"
  proof (cases "r = 0")
    case False
    then show ?thesis using e serving_clean [OF s] by (auto simp: ensured_def)
  next
    case True
    then have i: "indexed x T N ix' w'" "grown ix ix'" "cached ix' k" and t: "tidy w w'"
      and fr: "frame (open_scope w (set (ix_occ_fds ix)) {}) w w'" using e by (auto simp: ensured_def)
    have g: "ix_occ_fds ix = ix_occ_fds ix0" and wf: "wfw w" and ix: "indexed x T N ix w"
      and o: "ob_fd out = ofd" "sink_ok x out w" "sink out w = d" "x < w_nino w"
      using s grown_fds [of ix0 ix] by (simp_all add: serving_def indexed_def)
    obtain f where f: "fd_of w ofd = Some f" "o_ino f = x" using o by (auto simp: sink_ok_def appendable_def)
    have "ofd \<notin> set (ix_occ_fds ix)"
    proof
      assume "ofd \<in> set (ix_occ_fds ix)"
      then obtain b where "b < OCC_BUCKETS" "ix_occ_fds ix ! b = ofd"
        using ix by (auto simp: in_set_conv_nth indexed_def ix_static_def)
      then have "file_at x w ofd (bucket_bytes (occs_of T) b)" using ix by (auto simp: indexed_def ix_files_def)
      then show False using f by (simp add: file_at_def)
    qed
    then have "sink_ok x out w'" "sink out w' = d" using sink_ok_frame [OF o(2) fr wf] f o by auto
    moreover have "frame (open_scope w0 (insert ofd (set (ix_occ_fds ix0))) {x}) w0 w'"
      by (rule open_frame_trans [OF _ fr]) (use s g in \<open>auto simp: serving_def\<close>)
    ultimately show ?thesis using True i s t grown_trans o(1) by (auto simp: serving_def tidy_def)
  qed
  then show ?thesis by (simp add: eq)
qed

lemma ensure_cached:
  assumes "cached ix k" and "unat word_id = k"
  shows "ensure_word_cache ix word_id bucket w = Some (0, ix, w)"
  using assms by (auto simp: cached_def ensure_word_cache_def)

text \<open>A temporary file.\<close>

lemma serving_temp:
  assumes s: "serving x T N ofd ix0 w0 F d ix out w" and c: "create_temp_file (bytes_of ''lineset'') w = (fd, w')"
  shows "fd = -1 \<and> \<not> clean w0 \<or> fresh_file w fd w' \<and> fd_of w0 fd = None \<and> serving x T N ofd ix0 w0 (insert fd F) d ix out w'
    \<and> (\<exists>i. fd_of w' fd = Some \<lparr>o_ino = i, o_off = 0, o_kind = Regular\<rparr> \<and> w_data w' i = [] \<and> w_nino w0 \<le> i \<and> w_nino w \<le> i
        \<and> indexed i T N ix w') \<and> frame (open_scope w {} {}) w w'"
proof -
  have wf: "wfw w" and ix: "indexed x T N ix w" using serving_wfw [OF s] serving_indexed [OF s] .
  have cs: "frame (open_scope w {} {}) w w'" "fd = -1 \<and> \<not> clean w \<or> fresh_file w fd w' \<and> w_names w' = w_names w"
    using create_temp_file_spec [OF c covers_open wf, of "{}" "{}"] by simp_all
  show ?thesis
  proof (cases "fd = -1")
    case True
    then show ?thesis using cs(2) serving_clean [OF s] by (auto simp: fresh_file_def)
  next
    case False
    then have ff: "fresh_file w fd w'" and nm: "w_names w' = w_names w" using cs(2) by auto
    obtain i where i: "w_nino w \<le> i" "i < w_nino w'" "w_data w' i = []"
      "\<And>y. fd_of w' y = (if y = fd then Some \<lparr>o_ino = i, o_off = 0, o_kind = Regular\<rparr> else fd_of w y)"
      using ff by (auto simp: fresh_file_def)
    note open0 = serving_open0 [OF s]
    have fd0: "fd_of w0 fd = None"
    proof (rule ccontr)
      assume "fd_of w0 fd \<noteq> None"
      from open0 [OF this] show False using ff by (simp add: fresh_file_def)
    qed
    have n0: "w_nino w0 \<le> w_nino w" using s frame_nino by (auto simp: serving_def)
    have "serving x T N ofd ix0 w0 (insert fd F) d ix out w'"
      by (rule serving_keep [OF s cs(1) nm]) (use open0 fd0 i(4) s in \<open>auto simp: serving_def split: if_splits\<close>)
    moreover have "indexed i T N ix w'" by (rule indexed_fresh [OF ix cs(1) nm i(1,2)])
    ultimately show ?thesis using i n0 cs(1) ff fd0 by auto
  qed
qed
end
