(* ===== verification/Pa1_Sources.thy ===== *)
theory Pa1_Sources
  imports Pa1_Serve
begin

text \<open>
  Opening, merging and closing the sources of line numbers while a query is served: the
  intersection of two words goes to the output in decimal or to a temporary line-set file as raw
  integers, and a line-set file is read back as a source.
\<close>

section \<open>Emitters\<close>

lemma emit_blank_line_emits: "sink_ok i out w \<Longrightarrow> emits i out w [NEWLINE] (emit_blank_line out w)"
  unfolding emit_blank_line_def by (rule outbuf_write_byte_emits)

lemma emit_line_no_emits:
  assumes "sink_ok i out w"
  shows "emits i out w (show_nat (unat v) @ [of_char CHR '' '']) (emit_line_no out v w)"
proof -
  obtain r out1 w1 where a: "outbuf_write_u32 out v w = (r, out1, w1)" using prod_cases3 by blast
  have e: "emits i out w (show_nat (unat v)) (r, out1, w1)" using outbuf_write_u32_emits [OF assms, of v] a by simp
  from e show ?thesis
  proof (cases rule: emits_cases)
    case ok
    then show ?thesis using emits_append [of i out w _ out1 w1] e outbuf_write_byte_emits [OF emits_sink_ok [OF e]]
      by (simp add: emit_line_no_def a)
  next
    case failed
    then show ?thesis using emits_fail [OF e] by (simp add: emit_line_no_def a)
  qed
qed

lemma emit_line_ref_emits:
  assumes "sink_ok i out w"
  shows "emits i out w (show_nat (unat k) @ [of_char CHR '':''] @ show_nat (unat s) @ [of_char CHR '' '']) (emit_line_ref out k s w)"
proof -
  obtain r out1 w1 where a: "outbuf_write_u32 out k w = (r, out1, w1)" using prod_cases3 by blast
  have e: "emits i out w (show_nat (unat k)) (r, out1, w1)" using outbuf_write_u32_emits [OF assms, of k] a by simp
  from e show ?thesis
  proof (cases rule: emits_cases)
    case failed
    then show ?thesis using emits_fail [OF e] by (simp add: emit_line_ref_def a)
  next
    case ok
    obtain r2 out2 w2 where b: "outbuf_write_byte out1 (of_char CHR '':'') w1 = (r2, out2, w2)" using prod_cases3 by blast
    have e2: "emits i out w (show_nat (unat k) @ [of_char CHR '':'']) (r2, out2, w2)"
      using emits_append [of i out w _ out1 w1] e ok(1) outbuf_write_byte_emits [OF emits_sink_ok [OF e], of "of_char CHR '':''"] b
      by simp
    from e2 show ?thesis
    proof (cases rule: emits_cases)
      case failed
      then show ?thesis using emits_fail [OF e2] ok(1) b by (simp add: emit_line_ref_def a)
    next
      case ok2: ok
      have "emits i out w ((show_nat (unat k) @ [of_char CHR '':'']) @ (show_nat (unat s) @ [of_char CHR '' '']))
          (emit_line_no out2 s w2)"
        by (rule emits_append [OF e2 [unfolded ok2(1)]]) (rule emit_line_no_emits [OF emits_sink_ok [OF e2]])
      then show ?thesis using ok(1) ok2(1) b by (simp add: emit_line_ref_def emit_line_no_def a)
    qed
  qed
qed

interpretation decimal: line_emitter emit_line_no "\<lambda>v. show_nat (unat v) @ [of_char CHR '' '']"
  by unfold_locales (rule emit_line_no_emits)

interpretation raw: line_emitter emit_raw enc_u32
  by unfold_locales (simp add: emit_raw_def outbuf_write_data_emits)

section \<open>Opening the lines of a word\<close>

lemma src_at_open: "src_at i fd s w L \<Longrightarrow> \<exists>f. fd_of w fd = Some f \<and> o_ino f = i"
  by (auto simp: src_at_def reader_at_def split: line_reader_kind.splits)

lemma source_at_open: "source_at c i fd s w L \<Longrightarrow> \<exists>f. fd_of w fd = Some f \<and> o_ino f = i"
  unfolding source_at_def using src_at_open by blast

lemma source_at_frame:
  assumes "source_at c i fd s w L" and "frame sc w w'" and "wfw w" and "fd \<in> sc_fds sc" and "fd \<notin> sc_move sc"
    and "i \<notin> sc_write sc"
  shows "source_at c i fd s w' L"
  using assms(1) src_at_frame [OF _ assms(2-6)] by (auto simp: source_at_def)

text \<open>Opening something new does not disturb a source.\<close>

lemma source_at_opening:
  assumes "source_at c i fd s w L" and "frame (open_scope w {} {}) w w'" and "wfw w"
  shows "source_at c i fd s w' L"
proof -
  obtain f where f: "fd_of w fd = Some f" "o_ino f = i" using source_at_open [OF assms(1)] by blast
  then have "i < w_nino w" using assms(3) by (auto simp: wfw_def)
  then show ?thesis using f by (intro source_at_frame [OF assms]) auto
qed

text \<open>A reader of the cache of a word, at the start of its file.\<close>

definition path_opened where
  "path_opened x T N ofd ix0 w0 F d ix out w k rd w' \<longleftrightarrow> (\<exists>i. fd_of w (rr_fd rd) = None \<and> fd_of w0 (rr_fd rd) = None
     \<and> serving x T N ofd ix0 w0 (insert (rr_fd rd) F) d ix out w' \<and> \<not> rr_has rd \<and> reader_at enc_occ i rd w' (word_recs T k)
     \<and> (\<forall>j. indexed j T N ix w \<longrightarrow> i \<noteq> j) \<and> frame (open_scope w {} {}) w w' \<and> w_names w' = w_names w)"

lemma serving_open_path:
  assumes s: "serving x T N ofd ix0 w0 F d ix out w" and c: "cached ix k"
    and p: "le_cache_path (lx_entries (ix_lexicon ix) ! k) = Some p" and o: "occurrence_reader_open_path p w = (r, rd, w')"
  shows "r = -1 \<and> \<not> clean w0 \<or> r = 0 \<and> path_opened x T N ofd ix0 w0 F d ix out w k rd w'"
proof -
  have ix: "indexed x T N ix w" and wf: "wfw w" using serving_indexed [OF s] serving_wfw [OF s] .
  obtain fd w1 where so: "sys_open p w = (fd, w1)" by force
  note op = open_cache [OF _ c p so covers_open [of w "{}" "{}"]]
  let ?rd = "\<lparr>rr_fd = fd, rr_items = [], rr_pos = 0, rr_len = 0,
      rr_current = \<lparr>oc_word = 0, oc_line = 0, oc_start = 0\<rparr>, rr_has = False\<rparr> :: occurrence_reader"
  have res: "r = (if fd < 0 then -1 else 0)" "rd = ?rd" "w' = w1" using o by (auto simp: occurrence_reader_open_path_def so)
  show ?thesis
  proof (cases "fd < 0")
    case True
    then have "\<not> clean w0" using op [OF ix] serving_clean [OF s] by (auto simp: opened_def)
    then show ?thesis using True res by simp
  next
    case False
    then obtain i where i: "opened (open_scope w {} {}) x w fd i w1 (word_recs T k)" using op [OF ix] by auto
    then have f1: "fd_of w1 fd = Some \<lparr>o_ino = i, o_off = 0, o_kind = Regular\<rparr>" and fr: "frame (open_scope w {} {}) w w1"
      and nm: "w_names w1 = w_names w" and nf: "fd_of w fd = None" and d: "w_data w1 i = recs_bytes (word_recs T k)"
      and fds: "\<And>y. fd_of w1 y = (if y = fd then Some \<lparr>o_ino = i, o_off = 0, o_kind = Regular\<rparr> else fd_of w y)"
      by (auto simp: opened_def)
    have other: "i \<noteq> j" if "indexed j T N ix w" for j
      using op [OF that] False f1 by (auto simp: opened_def)
    note open0 = serving_open0 [OF s]
    have fd0: "fd_of w0 fd = None"
    proof (rule ccontr)
      assume "fd_of w0 fd \<noteq> None"
      from open0 [OF this] show False using nf by simp
    qed
    have "serving x T N ofd ix0 w0 (insert fd F) d ix out w1"
    proof (rule serving_keep [OF s fr nm])
      show "{fd. fd_of w0 fd \<noteq> None} \<subseteq> sc_fds (open_scope w {} {})" using open0 by auto
      show "y \<in> insert fd F \<or> fd_of w0 y \<noteq> None" if "fd_of w1 y \<noteq> None" for y
        using that fds [of y] s by (auto simp: serving_def split: if_splits)
      show "fd_of w0 y = None" if "y \<in> insert fd F" for y using that fd0 s by (auto simp: serving_def)
    qed simp_all
    moreover have "reader_at enc_occ i ?rd w1 (word_recs T k)" using f1 d by (simp add: reader_at_def recs_bytes_def)
    ultimately have "path_opened x T N ofd ix0 w0 F d ix out w k ?rd w1"
      unfolding path_opened_def by (intro exI [of _ i]) (use other nf fd0 fr nm in simp)
    then show ?thesis using res False by simp
  qed
qed

definition word_opened where
  "word_opened x T N ofd ix0 w0 F d ix out w k = (\<lambda>(r :: int, ix', src, w'). ix' = ix \<and> (case src of None \<Rightarrow> \<not> clean w0
    | Some s \<Rightarrow> \<exists>fd i. fd_of w fd = None \<and> fd_of w0 fd = None \<and> serving x T N ofd ix0 w0 (insert fd F) d ix out w'
        \<and> source_at True i fd s w' (word_lines T k) \<and> (\<forall>j. indexed j T N ix w \<longrightarrow> i \<noteq> j)
        \<and> frame (open_scope w {} {}) w w' \<and> w_names w' = w_names w))"

lemma serving_open_word:
  assumes s: "serving x T N ofd ix0 w0 F d ix out w" and c: "cached ix k" and id: "unat word_id = k"
  shows "wp (line_number_source_open_word ix word_id bucket w) (word_opened x T N ofd ix0 w0 F d ix out w k)"
proof -
  have k: "k < length (lx_entries (ix_lexicon ix))" using c by (simp add: cached_def)
  obtain p where p: "le_cache_path (lx_entries (ix_lexicon ix) ! k) = Some p" using c by (auto simp: cached_def)
  obtain r rd w1 where o: "occurrence_reader_open_path p w = (r, rd, w1)" using prod_cases3 by blast
  note op = serving_open_path [OF s c p o]
  note unf = line_number_source_open_word_def ensure_cached [OF c id] bind.bind_lunit prod.case id at_simp [OF k] p option.case o
  show ?thesis
  proof (cases "r < 0")
    case True
    then show ?thesis unfolding unf using op by (auto simp: word_opened_def)
  next
    case False
    then obtain i where i: "fd_of w (rr_fd rd) = None" "fd_of w0 (rr_fd rd) = None"
      "serving x T N ofd ix0 w0 (insert (rr_fd rd) F) d ix out w1" "\<not> rr_has rd" "reader_at enc_occ i rd w1 (word_recs T k)"
      "\<And>j. indexed j T N ix w \<Longrightarrow> i \<noteq> j" "frame (open_scope w {} {}) w w1" "w_names w1 = w_names w"
      using op by (auto simp: path_opened_def)
    have "source_at True i (rr_fd rd) \<lparr>ls_reader = WordCache rd, ls_current = 0, ls_has = False\<rparr> w1 (word_lines T k)"
      using i(4,5) by (auto simp: source_at_def src_at_def is_cache_def word_lines_def)
    then show ?thesis unfolding unf using False i by (auto simp: word_opened_def)
  qed
qed

section \<open>Merging while serving\<close>

definition texts :: "u32 list \<Rightarrow> byte list" where
  "texts vs = concat (map (\<lambda>v. show_nat (unat v) @ [of_char CHR '' '']) vs)"

lemma merging_start:
  "wfw w \<Longrightarrow> sink_ok oi out w \<Longrightarrow> fl \<noteq> fr \<Longrightarrow> fl \<noteq> ob_fd out \<Longrightarrow> fr \<noteq> ob_fd out \<Longrightarrow> il \<noteq> oi \<Longrightarrow> ir \<noteq> oi
     \<Longrightarrow> merging fl il fr ir (ob_fd out) oi w (sink out w) out w"
  by (simp add: merging_def writing_def)

lemma serving_merged:
  assumes s: "serving x T N ofd ix0 w0 F d ix out w" and m: "merging fl il fr ir ofd x w d' out' w'"
    and "fl \<in> F" and "fr \<in> F"
  shows "serving x T N ofd ix0 w0 F d' ix out' w'"
proof -
  have fr: "frame (merge_scope fl fr ofd x) w w'" using m by (simp add: merging_def writing_def)
  show ?thesis
  proof (rule serving_frame [OF s fr])
    show "w_names w' = w_names w" using frame_names [OF fr] by (simp add: fun_eq_iff)
    show "y \<in> F \<or> fd_of w0 y \<noteq> None" if "fd_of w' y \<noteq> None" for y
      using frame_UNIV_fds [OF fr, of y] that s by (simp add: serving_def)
  qed (use s m assms(3,4) in \<open>auto simp: serving_def merging_def writing_def\<close>)
qed

text \<open>Two open sources and the descriptors they use.\<close>

definition both_at where
  "both_at cl fl il left cr fr ir right w \<longleftrightarrow> (\<exists>L. source_at cl il fl left w L) \<and> (\<exists>R. source_at cr ir fr right w R)"

lemma both_at_frame:
  assumes "both_at cl fl il left cr fr ir right w" and "frame sc w w'" and "wfw w" and "sc_fds sc = UNIV"
    and "fl \<notin> sc_move sc" and "fr \<notin> sc_move sc" and "il \<notin> sc_write sc" and "ir \<notin> sc_write sc"
  shows "both_at cl fl il left cr fr ir right w'"
  using assms(1) source_at_frame [OF _ assms(2,3)] assms(4-8) unfolding both_at_def by (metis UNIV_I)

lemma serving_to_output:
  assumes s: "serving x T N ofd ix0 w0 F d ix out w" and l: "source_at cl il fl left w L" and r: "source_at cr ir fr right w R"
    and F: "fl \<in> F" "fr \<in> F" "fl \<noteq> fr" and i: "il \<noteq> x" "ir \<noteq> x" and so: "sorted_wrt (<) L" "sorted_wrt (<) R"
  shows "wp (intersect_line_sources_to_output left right out w) (\<lambda>(r, left', right', out', n, w').
     r = 0 \<and> serving x T N ofd ix0 w0 F (d @ texts (common L R) @ [NEWLINE]) ix out' w'
       \<and> both_at cl fl il left' cr fr ir right' w' \<and> n = of_nat (length (common L R))
     \<or> r < 0 \<and> \<not> clean w0)"
proof -
  have out: "ob_fd out = ofd" "sink_ok x out w" "sink out w = d" using s by (simp_all add: serving_def)
  have ne: "fl \<noteq> ofd" "fr \<noteq> ofd" using serving_new [OF s] F by auto
  have m: "merging fl il fr ir ofd x w d out w"
    using merging_start [OF serving_wfw [OF s] out(2), of fl fr il ir] out ne F(3) i by simp
  from decimal.intersect_start_spec [OF m l r so] obtain r1 left1 right1 out1 n w1 where
    eq: "intersect_start emit_line_no left right out w = Some (r1, left1, right1, out1, n, w1)"
    and p: "decimal.loop_post cl fl il cr fr ir ofd x w d 0 L R (r1, left1, right1, out1, n, w1)" by (auto simp: wp_iff)
  note p = p [unfolded decimal.loop_post_def]
  show ?thesis
  proof (cases "r1 < 0")
    case True
    then have "\<not> clean w0" using p serving_clean [OF s] by auto
    then show ?thesis using True by (simp add: intersect_line_sources_to_output_def eq)
  next
    case False
    then have m1: "merging fl il fr ir ofd x w (d @ texts (common L R)) out1 w1"
      and b: "both_at cl fl il left1 cr fr ir right1 w1" and n: "n = of_nat (length (common L R))"
      using p by (auto simp: merged_def both_at_def texts_def)
    have s1: "serving x T N ofd ix0 w0 F (d @ texts (common L R)) ix out1 w1" by (rule serving_merged [OF s m1 F(1,2)])
    obtain r2 out2 w2 where bl: "emit_blank_line out1 w1 = (r2, out2, w2)" using prod_cases3 by blast
    have "sink_ok x out1 w1" using s1 by (simp add: serving_def)
    then have "emits x out1 w1 [NEWLINE] (r2, out2, w2)" using emit_blank_line_emits bl by metis
    note e = serving_emits [OF s1 this]
    have "both_at cl fl il left1 cr fr ir right1 w2" if "frame (wr_scope ofd x) w1 w2"
      by (rule both_at_frame [OF b that serving_wfw [OF s1]]) (use ne i in simp_all)
    then show ?thesis using e False n by (auto simp: intersect_line_sources_to_output_def eq bl)
  qed
qed

lemma serving_output_source:
  assumes "serving x T N ofd ix0 w0 F d ix out w" and "source_at c i fd src w L" and "fd \<in> F" and "i \<noteq> x"
  shows "wp (output_line_source src out w) (\<lambda>(r, src', out', w').
     r = 0 \<and> serving x T N ofd ix0 w0 F (d @ texts L @ [NEWLINE]) ix out' w' \<and> (\<exists>L'. source_at c i fd src' w' L')
     \<or> r < 0 \<and> \<not> clean w0)"
  using assms
proof (induction L arbitrary: d src out w)
  case (Nil d src out w)
  note s = Nil.prems(1) and ne = serving_new [OF Nil.prems(1,3)]
  obtain st src1 w1 where n: "line_number_source_next src w = Some (st, src1, w1)" "frame (rd_scope fd) w w1"
    and a: "st = -1 \<and> \<not> clean w \<or> pending c i fd st src1 w1 []" by (rule source_next [OF Nil.prems(2)])
  have s1: "serving x T N ofd ix0 w0 F d ix out w1" by (rule serving_read [OF s n(2) Nil.prems(3)])
  show ?case
  proof (cases "st < 0")
    case True
    then have "\<not> clean w0" using a serving_clean [OF s] by (auto simp: pending_def)
    then show ?thesis using True n(1) by (subst output_line_source.simps) simp
  next
    case False
    then have st: "st = 0" "source_at c i fd src1 w1 []" using a by (auto simp: pending_def)
    obtain r2 out2 w2 where bl: "emit_blank_line out w1 = (r2, out2, w2)" using prod_cases3 by blast
    have "sink_ok x out w1" using s1 by (simp add: serving_def)
    then have "emits x out w1 [NEWLINE] (r2, out2, w2)" using emit_blank_line_emits bl by metis
    note e = serving_emits [OF s1 this]
    have "source_at c i fd src1 w2 []" if "frame (wr_scope ofd x) w1 w2"
      by (rule source_at_frame [OF st(2) that serving_wfw [OF s1]]) (use ne Nil.prems(4) in simp_all)
    then show ?thesis using e n(1) st(1) bl by (subst output_line_source.simps) (auto simp: texts_def)
  qed
next
  case (Cons v L d src out w)
  note s = Cons.prems(1) and ne = serving_new [OF Cons.prems(1,3)]
  obtain st src1 w1 where n: "line_number_source_next src w = Some (st, src1, w1)" "frame (rd_scope fd) w w1"
    and a: "st = -1 \<and> \<not> clean w \<or> pending c i fd st src1 w1 (v # L)" by (rule source_next [OF Cons.prems(2)])
  have s1: "serving x T N ofd ix0 w0 F d ix out w1" by (rule serving_read [OF s n(2) Cons.prems(3)])
  show ?case
  proof (cases "st < 0")
    case True
    then have "\<not> clean w0" using a serving_clean [OF s] by (auto simp: pending_def)
    then show ?thesis using True n(1) by (subst output_line_source.simps) simp
  next
    case False
    then have st: "st = 1" "ls_current src1 = v" "source_at c i fd src1 w1 L" using a by (auto simp: pending_def)
    obtain r2 out2 w2 where em: "emit_line_no out v w1 = (r2, out2, w2)" using prod_cases3 by blast
    have "sink_ok x out w1" using s1 by (simp add: serving_def)
    then have "emits x out w1 (show_nat (unat v) @ [of_char CHR '' '']) (r2, out2, w2)" using emit_line_no_emits em by metis
    note e = serving_emits [OF s1 this]
    show ?thesis
    proof (cases "r2 < 0")
      case True
      then show ?thesis using e n(1) st em by (subst output_line_source.simps) auto
    next
      case r2: False
      then have s2: "serving x T N ofd ix0 w0 F (d @ show_nat (unat v) @ [of_char CHR '' '']) ix out2 w2"
        and fr: "frame (wr_scope ofd x) w1 w2" using e by auto
      have src2: "source_at c i fd src1 w2 L"
        by (rule source_at_frame [OF st(3) fr serving_wfw [OF s1]]) (use ne Cons.prems(4) in simp_all)
      have unf: "output_line_source src out w = output_line_source src1 out2 w2"
        using n(1) st em r2 by (subst output_line_source.simps) simp
      show ?thesis unfolding unf
        by (rule wp_mono [OF Cons.IH [OF s2 src2 Cons.prems(3,4)]]) (auto simp: texts_def)
    qed
  qed
qed

section \<open>Closing\<close>

lemma reader_at_same:
  "fd_of w' (rr_fd rd) = fd_of w (rr_fd rd) \<Longrightarrow> w_data w' = w_data w \<Longrightarrow> reader_at enc i rd w' xs = reader_at enc i rd w xs"
  by (simp add: reader_at_def)

lemma source_at_same:
  assumes "source_at c i fd s w L" and "fd_of w' fd = fd_of w fd" and "w_data w' = w_data w"
  shows "source_at c i fd s w' L"
proof (cases "ls_reader s")
  case (WordCache rd)
  then obtain xs where rd: "rr_fd rd = fd" "reader_at enc_occ i rd w xs"
    and L: "L = line_groups ((if rr_has rd then [rr_current rd] else []) @ xs)" using assms(1) by (auto simp: source_at_def src_at_def)
  have "reader_at enc_occ i rd w' xs" using reader_at_same [of w' rd w] rd assms(2,3) by simp
  then show ?thesis using WordCache assms(1) rd(1) L by (auto simp: source_at_def src_at_def)
next
  case (LineFile rd)
  then show ?thesis using assms reader_at_same [of w' rd w] by (auto simp: source_at_def src_at_def)
qed

lemma serving_source_close:
  assumes s: "serving x T N ofd ix0 w0 F d ix out w" and a: "source_at c i fd src w L" and F: "c \<Longrightarrow> fd \<in> F"
    and cl: "line_number_source_close src w = (r, src', w')"
  shows "r = 0 \<or> r = -1 \<and> \<not> clean w0" and "serving x T N ofd ix0 w0 (F - (if c then {fd} else {})) d ix out w'"
    and "w_data w' = w_data w" and "\<And>y. fd_of w' y = (if c \<and> y = fd then None else fd_of w y)"
proof -
  obtain f where f: "fd_of w fd = Some f" using source_at_open [OF a] by blast
  have all: "(r = 0 \<or> r = -1 \<and> \<not> clean w0) \<and> serving x T N ofd ix0 w0 (F - (if c then {fd} else {})) d ix out w'
      \<and> w_data w' = w_data w \<and> (\<forall>y. fd_of w' y = (if c \<and> y = fd then None else fd_of w y))"
  proof (cases "ls_reader src")
    case (LineFile rd)
    then have "\<not> c" using a by (auto simp: source_at_def is_cache_def)
    then show ?thesis using LineFile cl s by (simp add: line_number_source_close_def)
  next
    case (WordCache rd)
    then have c: c and rd: "rr_fd rd = fd" using a by (auto simp: source_at_def is_cache_def src_at_def)
    obtain r1 w1 where k: "sys_close fd w = (r1, w1)" by force
    have "0 \<le> fd" using f by (auto simp: fd_of_def split: if_splits)
    then have res: "r = (if r1 < 0 then -1 else 0) \<and> w' = w1"
      using cl WordCache by (auto simp: line_number_source_close_def occurrence_reader_close_def rd k)
    have "fd_of w fd \<noteq> None" using f by simp
    note sc = serving_close [OF s k F [OF c] this] and dr = sys_close_drop [OF k this]
    show ?thesis using sc dr c res by auto
  qed
  show "r = 0 \<or> r = -1 \<and> \<not> clean w0" "serving x T N ofd ix0 w0 (F - (if c then {fd} else {})) d ix out w'"
    "w_data w' = w_data w" "\<And>y. fd_of w' y = (if c \<and> y = fd then None else fd_of w y)" using all by auto
qed

lemma serving_close_sources:
  assumes s: "serving x T N ofd ix0 w0 F d ix out w" and b: "both_at cl fl il left True fr ir right w"
    and F: "cl \<Longrightarrow> fl \<in> F" "fr \<in> F" "fl \<noteq> fr" and k: "close_sources left right w = (r, w')"
  shows "r = 0 \<and> serving x T N ofd ix0 w0 (F - (if cl then {fl} else {}) - {fr}) d ix out w' \<and> w_data w' = w_data w
      \<and> (\<forall>y. fd_of w' y = (if cl \<and> y = fl \<or> y = fr then None else fd_of w y))
    \<or> r < 0 \<and> \<not> clean w0"
proof -
  obtain L R where l: "source_at cl il fl left w L" and rr: "source_at True ir fr right w R"
    using b by (auto simp: both_at_def)
  obtain r1 left1 w1 where k1: "line_number_source_close left w = (r1, left1, w1)" using prod_cases3 by blast
  note c1 = serving_source_close [OF s l F(1) k1]
  have "source_at True ir fr right w1 R" by (rule source_at_same [OF rr]) (use c1(3,4) F(3) in auto)
  moreover obtain r2 right2 w2 where k2: "line_number_source_close right w1 = (r2, right2, w2)" using prod_cases3 by blast
  moreover have "fr \<in> F - (if cl then {fl} else {})" using F by auto
  ultimately have c2: "r2 = 0 \<or> r2 = -1 \<and> \<not> clean w0"
    "serving x T N ofd ix0 w0 (F - (if cl then {fl} else {}) - {fr}) d ix out w2" "w_data w2 = w_data w1"
    "\<And>y. fd_of w2 y = (if y = fr then None else fd_of w1 y)"
    using serving_source_close [OF c1(2), of True ir fr right R r2 right2 w2] by simp_all
  show ?thesis
  proof (cases "r1 < 0")
    case True
    then show ?thesis using k c1(1) by (auto simp: close_sources_def k1)
  next
    case r1: False
    show ?thesis
    proof (cases "r2 < 0")
      case True
      then show ?thesis using k c2(1) r1 by (auto simp: close_sources_def k1 k2)
    next
      case False
      then have res: "r = 0" "w' = w2" using k r1 by (auto simp: close_sources_def k1 k2)
      show ?thesis unfolding res using c2(2,3,4) c1(3,4) by auto
    qed
  qed
qed

section \<open>Opening two words, and line-set files\<close>

definition pair_opened where
  "pair_opened x T N ofd ix0 w0 F d ix out w ka kb = (\<lambda>(srcs, ix', w'). ix' = ix \<and> (case srcs of None \<Rightarrow> \<not> clean w0
    | Some (left, right) \<Rightarrow> \<exists>fl il fr ir. fl \<noteq> fr \<and> fd_of w fl = None \<and> fd_of w fr = None
        \<and> fd_of w0 fl = None \<and> fd_of w0 fr = None
        \<and> serving x T N ofd ix0 w0 (insert fr (insert fl F)) d ix out w'
        \<and> source_at True il fl left w' (word_lines T ka) \<and> source_at True ir fr right w' (word_lines T kb)
        \<and> (\<forall>j. indexed j T N ix w \<longrightarrow> il \<noteq> j \<and> ir \<noteq> j) \<and> frame (open_scope w {} {}) w w'
        \<and> w_names w' = w_names w))"

lemma indexed_opening: "indexed x T N ix w \<Longrightarrow> frame (open_scope w {} {}) w w' \<Longrightarrow> w_names w' = w_names w \<Longrightarrow> indexed x T N ix w'"
  by (rule indexed_frame) auto

lemma opening_trans:
  "frame (open_scope w {} {}) w w1 \<Longrightarrow> frame (open_scope w1 {} {}) w1 w2 \<Longrightarrow> frame (open_scope w {} {}) w w2"
  by (rule open_frame_trans) auto

lemma serving_open_pair:
  assumes s: "serving x T N ofd ix0 w0 F d ix out w" and a: "cached ix ka" "unat (fst a) = ka" and b: "cached ix kb" "unat (fst b) = kb"
  shows "wp (open_pair ix a b w) (pair_opened x T N ofd ix0 w0 F d ix out w ka kb)"
proof -
  from serving_open_word [OF s a, of "snd a"] obtain r1 ix1 l w1 where
    e1: "line_number_source_open_word ix (fst a) (snd a) w = Some (r1, ix1, l, w1)"
    and o1: "word_opened x T N ofd ix0 w0 F d ix out w ka (r1, ix1, l, w1)" by (auto simp: wp_iff)
  have ix1: "ix1 = ix" using o1 by (simp add: word_opened_def)
  show ?thesis
  proof (cases l)
    case None
    then show ?thesis using o1 by (simp add: open_pair_def e1 word_opened_def pair_opened_def)
  next
    case l: (Some left)
    then obtain fl il where l1: "fd_of w fl = None" "fd_of w0 fl = None" "serving x T N ofd ix0 w0 (insert fl F) d ix out w1"
      "source_at True il fl left w1 (word_lines T ka)" "\<And>j. indexed j T N ix w \<Longrightarrow> il \<noteq> j"
      "frame (open_scope w {} {}) w w1" "w_names w1 = w_names w"
      using o1 by (auto simp: word_opened_def)
    from serving_open_word [OF l1(3) b, of "snd b"] obtain r2 ix2 rt w2 where
      e2: "line_number_source_open_word ix (fst b) (snd b) w1 = Some (r2, ix2, rt, w2)"
      and o2: "word_opened x T N ofd ix0 w0 (insert fl F) d ix out w1 kb (r2, ix2, rt, w2)" by (auto simp: wp_iff)
    have ix2: "ix2 = ix" using o2 by (simp add: word_opened_def)
    show ?thesis
    proof (cases rt)
      case None
      then have "\<not> clean w0" using o2 by (simp add: word_opened_def)
      then show ?thesis using None
        by (auto simp: open_pair_def e1 e2 l ix1 ix2 pair_opened_def split: prod.split)
    next
      case (Some right)
      then obtain fr ir where r2: "fd_of w1 fr = None" "fd_of w0 fr = None"
        "serving x T N ofd ix0 w0 (insert fr (insert fl F)) d ix out w2"
        "source_at True ir fr right w2 (word_lines T kb)" "\<And>j. indexed j T N ix w1 \<Longrightarrow> ir \<noteq> j"
        "frame (open_scope w1 {} {}) w1 w2" "w_names w2 = w_names w1"
        using o2 by (auto simp: word_opened_def)
      have "fl \<noteq> fr" using source_at_open [OF l1(4)] r2(1) by auto
      moreover have "fd_of w fr = None"
      proof (rule ccontr)
        assume "fd_of w fr \<noteq> None"
        then show False using frame_handles [OF l1(6), of fr] r2(1) by simp
      qed
      moreover have "source_at True il fl left w2 (word_lines T ka)"
        by (rule source_at_opening [OF l1(4) r2(6) serving_wfw [OF l1(3)]])
      moreover have "ir \<noteq> j" if "indexed j T N ix w" for j
        using r2(5) indexed_opening [OF that l1(6,7)] by blast
      ultimately have "pair_opened x T N ofd ix0 w0 F d ix out w ka kb (Some (left, right), ix, w2)"
        unfolding pair_opened_def prod.case option.case
        by (intro conjI refl, rule_tac exI [of _ fl], rule_tac exI [of _ il], rule_tac exI [of _ fr], rule_tac exI [of _ ir])
          (use l1 r2 opening_trans [OF l1(6) r2(6)] in simp)
      then show ?thesis by (simp add: open_pair_def e1 e2 l ix1 ix2 Some)
    qed
  qed
qed

lemma serving_open_file:
  assumes s: "serving x T N ofd ix0 w0 F d ix out w" and F: "fd \<in> F"
    and f: "fd_of w fd = Some f" "o_kind f = Regular" "o_ino f = i" "w_data w i = concat (map enc_u32 L)"
    and o: "line_number_source_open_file fd w = (r, src, w')"
  shows "case src of None \<Rightarrow> \<not> clean w0
    | Some s' \<Rightarrow> serving x T N ofd ix0 w0 F d ix out w' \<and> source_at False i fd s' w' L \<and> w_names w' = w_names w"
proof -
  obtain r1 w1 where l: "sys_lseek fd 0 w = (r1, w1)" by force
  note ls = seek_start [OF l f(1,2)]
  show ?thesis
  proof (cases "r1 < 0")
    case True
    then have "\<not> clean w0" using ls serving_clean [OF s] by auto
    then show ?thesis using True o by (auto simp: line_number_source_open_file_def line_number_reader_open_fd_def l)
  next
    case False
    then have w1: "frame (rd_scope fd) w w1" "w_data w1 = w_data w" "fd_of w1 fd = Some (f\<lparr>o_off := 0\<rparr>)" using ls by auto
    have "w_names w1 = w_names w" using frame_names [OF w1(1)] by (simp add: fun_eq_iff)
    moreover have "reader_at enc_u32 i \<lparr>rr_fd = fd, rr_items = [], rr_pos = 0, rr_len = 0, rr_current = 0, rr_has = False\<rparr> w1 L"
      using w1(2,3) f by (simp add: reader_at_def)
    ultimately show ?thesis using False o serving_read [OF s w1(1) F]
      by (auto simp: line_number_source_open_file_def line_number_reader_open_fd_def l source_at_def src_at_def is_cache_def)
  qed
qed

lemma quiet_rd: "quiet w w' \<Longrightarrow> frame (rd_scope fd) w w'"
  by (rule quiet_frame)

lemma serving_to_file:
  assumes s: "serving x T N ofd ix0 w0 F d ix out w" and l: "source_at cl il fl left w L" and r: "source_at cr ir fr right w R"
    and F: "fl \<in> F" "fr \<in> F" "tfd \<in> F" "fl \<noteq> fr" "fl \<noteq> tfd" "fr \<noteq> tfd" and i: "il \<noteq> ti" "ir \<noteq> ti"
    and so: "sorted_wrt (<) L" "sorted_wrt (<) R"
    and tf: "fd_of w tfd = Some \<lparr>o_ino = ti, o_off = 0, o_kind = Regular\<rparr>" "w_data w ti = []"
    and ti: "indexed ti T N ix w" "w_nino w0 \<le> ti"
  shows "wp (intersect_line_sources_to_file left right tfd w) (\<lambda>(r, left', right', out', n, w').
     r = 0 \<and> serving x T N ofd ix0 w0 F d ix out w' \<and> both_at cl fl il left' cr fr ir right' w'
       \<and> n = of_nat (length (common L R)) \<and> w_data w' ti = concat (map enc_u32 (common L R))
       \<and> (\<exists>f. fd_of w' tfd = Some f \<and> o_kind f = Regular \<and> o_ino f = ti) \<and> frame (merge_scope fl fr tfd ti) w w'
     \<or> r < 0 \<and> \<not> clean w0)"
proof -
  have wf: "wfw w" by (rule serving_wfw [OF s])
  obtain r1 w1 where t: "sys_ftruncate tfd 0 w = (r1, w1)" by force
  have t1: "r1 = -1 \<and> \<not> clean w \<or> r1 = 0 \<and> quiet w w1"
    using sys_ftruncate_spec [OF t tf(1)] tf(2)
    by (auto simp: quiet_def fun_upd_idem)
  obtain r2 w2 where k: "sys_lseek tfd 0 w1 = (r2, w2)" by force
  show ?thesis
  proof (cases "r1 < 0 \<or> r2 < 0")
    case True
    have "\<not> clean w0"
    proof (cases "r1 < 0")
      case False
      then have q: "quiet w w1" using t1 by auto
      have "fd_of w1 tfd = Some \<lparr>o_ino = ti, o_off = 0, o_kind = Regular\<rparr>" using quiet_fd_of [OF q] tf(1) by simp
      from seek_start [OF k this] show ?thesis using True False quiet_clean [OF q] serving_clean [OF s] by auto
    qed (use t1 serving_clean [OF s] in auto)
    then show ?thesis using True by (auto simp: intersect_line_sources_to_file_def t k)
  next
    case False
    then have q: "quiet w w1" using t1 by auto
    have "fd_of w1 tfd = Some \<lparr>o_ino = ti, o_off = 0, o_kind = Regular\<rparr>" using quiet_fd_of [OF q] tf(1) by simp
    from seek_start [OF k this] have w2: "frame (rd_scope tfd) w1 w2" "w_data w2 = w_data w"
      "fd_of w2 tfd = Some \<lparr>o_ino = ti, o_off = 0, o_kind = Regular\<rparr>" using False q by (auto simp: quiet_def)
    have f02: "frame (rd_scope tfd) w w2" using frame_trans [OF quiet_rd [OF q] w2(1)] .
    have wf2: "wfw w2" by (rule frame_wfw [OF f02 wf])
    have l2: "source_at cl il fl left w2 L" by (rule source_at_frame [OF l f02 wf]) (use F in auto)
    have r2: "source_at cr ir fr right w2 R" by (rule source_at_frame [OF r f02 wf]) (use F in auto)
    have so2: "sink_ok ti (outbuf_init tfd) w2" "sink (outbuf_init tfd) w2 = []"
      using w2 tf(2) by (simp_all add: sink_ok_def appendable_def sink_def content_def outbuf_init_def)
    have m: "merging fl il fr ir tfd ti w2 [] (outbuf_init tfd) w2"
      using merging_start [OF wf2 so2(1), of fl fr il ir] so2(2) F i by (simp add: outbuf_init_def)
    have cl2: "clean w0 \<Longrightarrow> clean w2" using frame_clean [OF f02] serving_clean [OF s] by blast
    from raw.intersect_start_spec [OF m l2 r2 so] obtain r3 left3 right3 out3 n w3 where
      eq: "intersect_start emit_raw left right (outbuf_init tfd) w2 = Some (r3, left3, right3, out3, n, w3)"
      and p: "raw.loop_post cl fl il cr fr ir tfd ti w2 [] 0 L R (r3, left3, right3, out3, n, w3)" by (auto simp: wp_iff)
    show ?thesis
    proof (cases "r3 < 0")
      case True
      then show ?thesis using p cl2 False by (auto simp: raw.loop_post_def intersect_line_sources_to_file_def t k eq)
    next
      case r3: False
      then have m3: "merging fl il fr ir tfd ti w2 (concat (map enc_u32 (common L R))) out3 w3"
        and b3: "both_at cl fl il left3 cr fr ir right3 w3" and n: "n = of_nat (length (common L R))"
        using p by (auto simp: raw.loop_post_def merged_def both_at_def)
      have out3: "sink_ok ti out3 w3" "ob_fd out3 = tfd" "sink out3 w3 = concat (map enc_u32 (common L R))"
        and f23: "frame (merge_scope fl fr tfd ti) w2 w3" and wf3: "wfw w3"
        using m3 by (simp_all add: merging_def writing_def)
      obtain r4 out4 w4 where fl: "outbuf_flush out3 w3 = (r4, out4, w4)" using prod_cases3 by blast
      note em = outbuf_flush_emits [OF fl out3(1)]
      show ?thesis
      proof (cases "r4 < 0")
        case True
        then have "\<not> clean w0" using em(1) merging_clean [OF m3] cl2 by (auto simp: emits_def)
        then show ?thesis using True False r3 by (simp add: intersect_line_sources_to_file_def t k eq fl)
      next
        case r4: False
        then have f34: "frame (wr_scope tfd ti) w3 w4" and o4: "sink_ok ti out4 w4" "ob_fd out4 = tfd" "ob_buf out4 = []"
          "sink out4 w4 = concat (map enc_u32 (common L R))" "r4 = 0"
          using em out3 by (auto simp: emits_def)
        obtain g where g: "fd_of w4 tfd = Some g" "o_ino g = ti" using o4(1,2) by (auto simp: sink_ok_def appendable_def)
        have data: "w_data w4 ti = concat (map enc_u32 (common L R))"
          using o4 g by (simp add: sink_def content_def)
        have fr02: "frame (merge_scope fl fr tfd ti) w w2" by (rule frame_weaken [OF f02]) auto
        have fr34: "frame (merge_scope fl fr tfd ti) w3 w4" by (rule frame_weaken [OF f34]) auto
        have fr04: "frame (merge_scope fl fr tfd ti) w w4"
          using frame_trans [OF frame_trans [OF fr02 f23] fr34] .
        have reg: "o_kind g = Regular"
          using frame_handle [OF fr04 _ tf(1)] g by (auto simp: handle_def)
        have "serving x T N ofd ix0 w0 F d ix out w4"
        proof (rule serving_keep [OF s fr04])
          show "w_names w4 = w_names w" using frame_names [OF fr04] by (simp add: fun_eq_iff)
          show "y \<in> F \<or> fd_of w0 y \<noteq> None" if "fd_of w4 y \<noteq> None" for y
            using frame_UNIV_fds [OF fr04, of y] that s by (simp add: serving_def)
        qed (use s F ti in \<open>auto simp: serving_def\<close>)
        moreover have "both_at cl fl il left3 cr fr ir right3 w4"
          by (rule both_at_frame [OF b3 f34 wf3]) (use F i in simp_all)
        ultimately show ?thesis using False r3 r4 n data g(1,2) reg fr04 o4(5)
          by (auto simp: intersect_line_sources_to_file_def t k eq fl)
      qed
    qed
  qed
qed

end
