(* ===== verification/Pa1_Modes.thy ===== *)
theory Pa1_Modes
  imports Pa1_Sources
begin

text \<open>
  The query handlers refine \<open>answer\<close>: each of them appends exactly the specified text to the
  output, keeps the index and everything else that existed, closes what it opened, and fails only
  when the kernel fails.
\<close>

section \<open>Shared steps\<close>

definition answered where
  "answered x T N ix out w t = (\<lambda>(r :: int, ix', out', w').
     r = 0 \<and> serving x T N (ob_fd out) ix w {} (sink out w @ t) ix' out' w' \<or> r < 0 \<and> \<not> clean w)"

lemma serving_trans:
  assumes a: "serving x T N ofd ix0 w0 {} d ix out w" and b: "serving x T N ofd ix w F d' ix' out' w'"
  shows "serving x T N ofd ix0 w0 F d' ix' out' w'"
proof -
  have g: "grown ix0 ix" "ix_occ_fds ix = ix_occ_fds ix0" using a grown_fds by (auto simp: serving_def)
  have "frame (open_scope w0 (insert ofd (set (ix_occ_fds ix0))) {x}) w0 w'"
    by (rule open_frame_trans [of _ _ _ w "insert ofd (set (ix_occ_fds ix))" "{x}"]) (use a b g in \<open>auto simp: serving_def\<close>)
  moreover have "fd_of w0 fd = None" if "fd \<in> F" for fd
  proof (rule ccontr)
    assume "fd_of w0 fd \<noteq> None"
    from serving_open0 [OF a this] show False using b that by (auto simp: serving_def)
  qed
  ultimately show ?thesis using a b grown_trans [OF g(1)] by (auto simp: serving_def)
qed

lemma answered_trans:
  assumes s: "serving x T N (ob_fd out) ix w {} (sink out w @ t) ix1 out1 w1"
    and "wp m (answered x T N ix1 out1 w1 t')"
  shows "wp m (answered x T N ix out w (t @ t'))"
proof (rule wp_mono [OF assms(2)])
  have o: "ob_fd out1 = ob_fd out" "sink out1 w1 = sink out w @ t" using s by (simp_all add: serving_def)
  fix y assume y: "answered x T N ix1 out1 w1 t' y"
  obtain r ix2 out2 w2 where yy: "y = (r, ix2, out2, w2)" by (cases y)
  show "answered x T N ix out w (t @ t') y"
    using y serving_trans [OF s, of "{}" _ ix2 out2 w2] serving_clean [OF s] o by (auto simp: answered_def yy)
qed

lemma blank_answered:
  assumes "indexed x T N ix w" and "sink_ok x out w"
  shows "wp (blank ix out w) (answered x T N ix out w [NEWLINE])"
proof -
  obtain r out1 w1 where b: "emit_blank_line out w = (r, out1, w1)" using prod_cases3 by blast
  have e: "emits x out w [NEWLINE] (r, out1, w1)" using emit_blank_line_emits [OF assms(2)] b by simp
  show ?thesis using serving_emits [OF serving_start [OF assms] e] by (auto simp: blank_def b answered_def)
qed

lemma serving_sink: "serving x T N ofd ix0 w0 F d ix out w \<Longrightarrow> sink_ok x out w"
  by (simp add: serving_def)

lemma blank_after:
  assumes s: "serving x T N (ob_fd out) ix w {} (sink out w @ t) ix1 out1 w1"
  shows "wp (blank ix1 out1 w1) (answered x T N ix out w (t @ [NEWLINE]))"
  by (rule answered_trans [OF s]) (rule blank_answered [OF serving_indexed [OF s] serving_sink [OF s]])

text \<open>Looking a word up in a finished index.\<close>

definition found_at where
  "found_at T q k word_id bucket \<longleftrightarrow> k < length (words_of (occs_of T)) \<and> words_of (occs_of T) ! k = lower q
     \<and> unat (word_id :: u32) = k \<and> unat (bucket :: u32) = bucket_of (lower q)"

lemma lookup:
  assumes ix: "indexed x T N ix w" and len: "length q < 2 ^ 32"
  shows "lexicon_find_existing (ix_lexicon ix) q = Some (False, 0, 0) \<and> lower q \<notin> fst ` set (occs_of T)
    \<or> (\<exists>k word_id bucket. lexicon_find_existing (ix_lexicon ix) q = Some (True, word_id, bucket) \<and> found_at T q k word_id bucket)"
proof -
  let ?W = "words_of (occs_of T)"
  have lx: "lex_ok (ix_lexicon ix)" "lex_words (ix_lexicon ix) = ?W" and T: "length T < 2 ^ 32"
    using ix by (simp_all add: indexed_def ix_static_def)
  note f = lexicon_find_existing_spec [OF lx(1) len, unfolded lx(2)]
  show ?thesis
  proof (cases "pos_of (lower q) ?W")
    case None
    then have "lower q \<notin> fst ` set (occs_of T)" by (simp add: pos_of_None set_words_of)
    then show ?thesis using f unfolding None option.case by blast
  next
    case (Some k)
    then have k: "k < length ?W" "?W ! k = lower q" using pos_of_Some [OF Some] by auto
    have "k < 2 ^ 32" using k(1) length_words_of [of "occs_of T"] length_occs_of [of T] T by simp
    then have "unat (of_nat k :: u32) = k" by (rule unat_u32)
    moreover have "unat (hash_lower_bytes q mod of_nat OCC_BUCKETS) = bucket_of (lower q)"
      using hash_lower_bytes_cong [of "lower q" q] by (simp add: bucket_of_def unat_mod pa1_consts)
    ultimately show ?thesis using f Some k unfolding found_at_def by auto
  qed
qed

lemma serving_found:
  assumes s: "serving x T N ofd ix0 w0 F d ix out w" and f: "found_at T q k word_id bucket"
  shows "wp (ensure_word_cache ix word_id bucket w) (\<lambda>(r, ix', w').
     r = 0 \<and> serving x T N ofd ix0 w0 F d ix' out w' \<and> cached ix' k \<and> grown ix ix' \<or> r < 0 \<and> \<not> clean w0)"
  by (rule serving_ensure [OF s]) (use f in \<open>simp_all add: found_at_def\<close>)

section \<open>Scanning while serving\<close>

definition scanning where
  "scanning x T N ofd ix w0 fd i d out w \<longleftrightarrow> serving x T N ofd ix w0 {fd} d ix out w \<and> i \<noteq> x
     \<and> (\<exists>f. fd_of w fd = Some f \<and> o_ino f = i)"

lemma scanning_read:
  assumes s: "scanning x T N ofd ix w0 fd i d out w" and r: "frame (rd_scope fd) w w'"
  shows "scanning x T N ofd ix w0 fd i d out w'"
proof -
  have "\<exists>f. fd_of w' fd = Some f \<and> o_ino f = i"
    using s frame_handle [OF r, of fd] by (auto simp: scanning_def)
  then show ?thesis using s serving_read [OF _ r] by (auto simp: scanning_def)
qed

lemma scanning_clean: "scanning x T N ofd ix w0 fd i d out w \<Longrightarrow> clean w0 \<Longrightarrow> clean w"
  by (auto simp: scanning_def dest: serving_clean)

lemma scanning_emits:
  assumes s: "scanning x T N ofd ix w0 fd i d out w" and e: "emits x out w d' (r, out', w')"
  shows "r = 0 \<and> scanning x T N ofd ix w0 fd i (d @ d') out' w' \<and> same_file fd i w w' \<or> r < 0 \<and> \<not> clean w0"
proof -
  have sv: "serving x T N ofd ix w0 {fd} d ix out w" and i: "i \<noteq> x" using s by (simp_all add: scanning_def)
  obtain f where f: "fd_of w fd = Some f" "o_ino f = i" using s by (auto simp: scanning_def)
  have ne: "fd \<noteq> ofd" using serving_new [OF sv] by simp
  have "i < w_nino w" using f serving_wfw [OF sv] by (auto simp: wfw_def)
  then have "same_file fd i w w'" if "frame (wr_scope ofd x) w w'"
    using frame_fd [OF that, of fd] frame_data [OF that] ne i by (simp add: same_file_def)
  moreover note e = serving_emits [OF sv e]
  ultimately show ?thesis using i f by (auto simp: scanning_def same_file_def)
qed

lemma scan_served:
  assumes ix: "indexed x T N ix w" and c: "cached ix k" and id: "unat word_id = k" and so: "sink_ok x out w"
    and run: "\<And>fd i w1. scanning x T N (ob_fd out) ix w fd i (sink out w) out w1
      \<Longrightarrow> fd_of w1 fd = Some \<lparr>o_ino = i, o_off = 0, o_kind = Regular\<rparr> \<Longrightarrow> w_data w1 i = recs_bytes (word_recs T k)
      \<Longrightarrow> wp (scan_loop (\<lambda>rc. True) fn fd (replicate CHUNK_SIZE 0) 0 arg w1) (\<lambda>(r, carry, arg', w').
        r = 0 \<and> carry = 0 \<and> scanning x T N (ob_fd out) ix w fd i (sink out w @ t) (get arg') w' \<and> P arg' \<or> r < 0 \<and> \<not> clean w)"
  shows "wp (scan_cached_word ix word_id fn arg w) (\<lambda>(r, arg', w').
     r = 0 \<and> serving x T N (ob_fd out) ix w {} (sink out w @ t) ix (get arg') w' \<and> P arg' \<or> r < 0 \<and> \<not> clean w)"
proof -
  define R where "R fd arg' w' \<longleftrightarrow> (\<exists>i. scanning x T N (ob_fd out) ix w fd i (sink out w @ t) (get arg') w' \<and> P arg')"
    for fd arg' w'
  have s0: "serving x T N (ob_fd out) ix w {} (sink out w) ix out w" by (rule serving_start [OF ix so])
  have "wp (scan_cached_word ix word_id fn arg w) (\<lambda>(r, arg', w').
     r = 0 \<and> (\<exists>fd w2 c. fd_of w fd = None \<and> R fd arg' w2 \<and> sys_close fd w2 = (c, w')) \<or> r < 0 \<and> \<not> clean w)"
  proof (rule scan_cached_word_spec [OF ix c id covers_open [of w "{}" "{}"]])
    fix fd i w1 assume o: "opened (open_scope w {} {}) x w fd i w1 (word_recs T k)"
    then have op: "frame (open_scope w {} {}) w w1" "w_names w1 = w_names w" "fd_of w fd = None" "i \<noteq> x"
      "w_data w1 i = recs_bytes (word_recs T k)"
      "\<And>y. fd_of w1 y = (if y = fd then Some \<lparr>o_ino = i, o_off = 0, o_kind = Regular\<rparr> else fd_of w y)"
      by (auto simp: opened_def)
    have "serving x T N (ob_fd out) ix w {fd} (sink out w) ix out w1"
      by (rule serving_keep [OF s0 op(1,2)]) (use op(3,6) in \<open>auto split: if_splits\<close>)
    then have sc: "scanning x T N (ob_fd out) ix w fd i (sink out w) out w1" using op(4,6) by (simp add: scanning_def)
    show "wp (scan_loop (\<lambda>rc. True) fn fd (replicate CHUNK_SIZE 0) 0 arg w1) (\<lambda>(r, carry, arg', w').
        r = 0 \<and> carry = 0 \<and> R fd arg' w' \<or> r < 0 \<and> \<not> clean w)"
      by (rule wp_mono [OF run [OF sc _ op(5)]]) (use op(6) in \<open>auto simp: R_def\<close>)
  next
    fix fd arg' w' assume "R fd arg' w'"
    then show "fd_of w' fd \<noteq> None \<and> (clean w \<longrightarrow> clean w')"
      using scanning_clean [of x T N "ob_fd out" ix w fd] by (auto simp: R_def scanning_def)
  qed
  then obtain r arg' w' where eq: "scan_cached_word ix word_id fn arg w = Some (r, arg', w')"
    and a: "r = 0 \<and> (\<exists>fd w2 c. fd_of w fd = None \<and> R fd arg' w2 \<and> sys_close fd w2 = (c, w')) \<or> r < 0 \<and> \<not> clean w"
    by (rule wpE3)
  have "serving x T N (ob_fd out) ix w {} (sink out w @ t) ix (get arg') w'"
    if "scanning x T N (ob_fd out) ix w fd i (sink out w @ t) (get arg') w2" "sys_close fd w2 = (cr, w')" for fd i w2 cr
    using that serving_close(1) [of x T N "ob_fd out" ix w "{fd}" _ ix "get arg'" w2 fd cr w'] by (auto simp: scanning_def)
  then show ?thesis using a by (auto simp: eq R_def)
qed

section \<open>Single words\<close>

definition rec_text :: "occ_record \<Rightarrow> byte list" where
  "rec_text rc = show_nat (unat (oc_line rc)) @ [of_char CHR '':''] @ show_nat (unat (oc_start rc)) @ [of_char CHR '' '']"

interpretation stream_consumer: record_consumer stream_word_consumer "\<lambda>rc. True"
    "\<lambda>rs out w. scanning x T N ofd ix w0 fd i (d @ concat (map rec_text rs)) out w" fd i w0 for x T N ofd ix w0 fd i d
proof unfold_locales
  fix rs out w w' rc
  show "scanning x T N ofd ix w0 fd i (d @ concat (map rec_text rs)) out w'"
    if "scanning x T N ofd ix w0 fd i (d @ concat (map rec_text rs)) out w" "frame (rd_scope fd) w w'"
    using scanning_read [OF that] .
  show "clean w" if "scanning x T N ofd ix w0 fd i (d @ concat (map rec_text rs)) out w" "clean w0"
    using scanning_clean [OF that] .
  show "wp (stream_word_consumer rc out w) (\<lambda>(r, arg', w').
      0 \<le> r \<and> scanning x T N ofd ix w0 fd i (d @ concat (map rec_text (rs @ [rc]))) arg' w' \<and> same_file fd i w w'
      \<or> r < 0 \<and> \<not> clean w0)"
    if s: "scanning x T N ofd ix w0 fd i (d @ concat (map rec_text rs)) out w"
  proof -
    obtain r out1 w1 where e: "emit_line_ref out (oc_line rc) (oc_start rc) w = (r, out1, w1)" using prod_cases3 by blast
    have "sink_ok x out w" using s by (simp add: scanning_def serving_def)
    then have "emits x out w (rec_text rc) (r, out1, w1)" using emit_line_ref_emits e unfolding rec_text_def by metis
    from scanning_emits [OF s this] show ?thesis by (auto simp: stream_word_consumer_def e)
  qed
qed

lemma rec_text_hit:
  assumes "oc \<in> set (occs_of T)" and "length T < 2 ^ 32"
  shows "rec_text (record_of W oc) = hit_text oc"
  using occ_small [OF assms] by (simp add: rec_text_def hit_text_def record_of_def unat_u32)

lemma word_recs_text:
  assumes "words_of (occs_of T) ! k = lower q" and "length T < 2 ^ 32"
  shows "concat (map rec_text (word_recs T k)) = word_answer T q"
proof -
  have "map (\<lambda>oc. rec_text (record_of (words_of (occs_of T)) oc)) (filter (\<lambda>oc. fst oc = lower q) (occs_of T))
      = map hit_text (filter (\<lambda>oc. fst oc = lower q) (occs_of T))"
    by (rule map_cong) (simp_all add: rec_text_hit [OF _ assms(2)])
  then show ?thesis unfolding word_recs_def word_answer_def assms(1) map_map comp_def by (rule arg_cong)
qed

lemma word_answer_none: "lower q \<notin> fst ` set (occs_of T) \<Longrightarrow> word_answer T q = []"
  by (force simp: word_answer_def filter_empty_conv)

lemma indexed_small: "indexed x T N ix w \<Longrightarrow> length T < 2 ^ 32"
  by (simp add: indexed_def ix_static_def)

lemma handle_single_spec:
  assumes ix: "indexed x T N ix w" and so: "sink_ok x out w" and q: "q \<noteq> []" "length q < 2 ^ 32"
  shows "wp (handle_single ix q out w) (answered x T N ix out w (word_answer T q @ [NEWLINE]))"
  using lookup [OF ix q(2)]
proof (elim disjE exE conjE)
  assume f: "lexicon_find_existing (ix_lexicon ix) q = Some (False, 0, 0)" and no: "lower q \<notin> fst ` set (occs_of T)"
  then show ?thesis using blank_answered [OF ix so] q by (simp add: handle_single_def word_answer_none)
next
  fix k word_id bucket
  assume f: "lexicon_find_existing (ix_lexicon ix) q = Some (True, word_id, bucket)" and fo: "found_at T q k word_id bucket"
  have id: "unat word_id = k" and W: "words_of (occs_of T) ! k = lower q" using fo by (simp_all add: found_at_def)
  obtain r1 ix1 w1 where e: "ensure_word_cache ix word_id bucket w = Some (r1, ix1, w1)"
    and e': "r1 = 0 \<and> serving x T N (ob_fd out) ix w {} (sink out w) ix1 out w1 \<and> cached ix1 k \<and> grown ix ix1 \<or> r1 < 0 \<and> \<not> clean w"
    using serving_found [OF serving_start [OF ix so] fo] by (rule wpE3)
  note unf = handle_single_def f e bind.bind_lunit prod.case
  show ?thesis
  proof (cases "r1 < 0")
    case True
    then show ?thesis unfolding unf using q(1) e' by (auto simp: answered_def)
  next
    case False
    then have s1: "serving x T N (ob_fd out) ix w {} (sink out w) ix1 out w1" and c: "cached ix1 k" using e' by auto
    have ix1: "indexed x T N ix1 w1" and so1: "sink_ok x out w1" and sk: "sink out w1 = sink out w"
      using s1 by (simp_all add: serving_def)
    have "wp (scan_cached_word ix1 word_id stream_word_consumer out w1) (\<lambda>(r, out', w').
        r = 0 \<and> serving x T N (ob_fd out) ix1 w1 {} (sink out w1 @ concat (map rec_text (word_recs T k))) ix1 (id out') w' \<and> True
        \<or> r < 0 \<and> \<not> clean w1)"
    proof (rule scan_served [OF ix1 c id so1])
      fix fd i w2
      assume "scanning x T N (ob_fd out) ix1 w1 fd i (sink out w1) out w2"
        and f2: "fd_of w2 fd = Some \<lparr>o_ino = i, o_off = 0, o_kind = Regular\<rparr>" and d2: "w_data w2 i = recs_bytes (word_recs T k)"
      then have "scanning x T N (ob_fd out) ix1 w1 fd i (sink out w1 @ concat (map rec_text [])) out w2" by simp
      from stream_consumer.scan_loop_spec [OF f2 _ _ _ this, of "word_recs T k" "\<lambda>rc. True" "replicate CHUNK_SIZE 0"] d2
      show "wp (scan_loop (\<lambda>rc. True) stream_word_consumer fd (replicate CHUNK_SIZE 0) 0 out w2) (\<lambda>(r, carry, out', w').
          r = 0 \<and> carry = 0 \<and> scanning x T N (ob_fd out) ix1 w1 fd i (sink out w1 @ concat (map rec_text (word_recs T k))) (id out') w'
            \<and> True \<or> r < 0 \<and> \<not> clean w1)"
        by (simp add: list_all_iff)
    qed
    then obtain r2 out2 w2 where sc: "scan_cached_word ix1 word_id stream_word_consumer out w1 = Some (r2, out2, w2)"
      and a: "r2 = 0 \<and> serving x T N (ob_fd out) ix1 w1 {} (sink out w1 @ concat (map rec_text (word_recs T k))) ix1 (id out2) w2 \<and> True
        \<or> r2 < 0 \<and> \<not> clean w1" by (rule wpE3)
    show ?thesis
    proof (cases "r2 < 0")
      case True
      then show ?thesis unfolding unf using q(1) False a sc serving_clean [OF s1] by (auto simp: answered_def)
    next
      case r2: False
      then have "serving x T N (ob_fd out) ix w {} (sink out w @ word_answer T q) ix1 out2 w2"
        using a serving_trans [OF s1] sk word_recs_text [OF W indexed_small [OF ix]] by auto
      from blank_after [OF this] show ?thesis unfolding unf using q(1) False r2 sc by simp
    qed
  qed
qed

section \<open>Phrases\<close>

definition rec_hit :: "byte list \<Rightarrow> byte list \<Rightarrow> occ_record \<Rightarrow> bool" where
  "rec_hit T phrase rc \<longleftrightarrow> phrase_at phrase (lines_of T ! (unat (oc_line rc) - 1)) (unat (oc_start rc))"

definition line_known :: "byte list \<Rightarrow> u32 \<Rightarrow> byte list \<Rightarrow> bool" where
  "line_known T n line \<longleftrightarrow> (\<exists>k<length (lines_of T). n = of_nat (Suc k) \<and> line = lines_of T ! k)"

definition phrase_inv where
  "phrase_inv x T N ofd ix w0 fd i d phrase rs pm w \<longleftrightarrow>
     scanning x T N ofd ix w0 fd i (d @ concat (map rec_text (filter (rec_hit T phrase) rs))) (pm_out pm) w
     \<and> vec_ok (pm_line_buf pm)
     \<and> (pm_cached_line_no pm = 0 \<or> line_known T (pm_cached_line_no pm) (v_items (pm_line_buf pm)))"

definition line_exists :: "byte list \<Rightarrow> occ_record \<Rightarrow> bool" where
  "line_exists T rc \<longleftrightarrow> (\<exists>k<length (lines_of T). oc_line rc = of_nat (Suc k))"

lemma line_number_small: "k < length (lines_of T) \<Longrightarrow> length T < 2 ^ 32 \<Longrightarrow> unat (of_nat (Suc k) :: u32) = Suc k"
  using length_lines_of [of T] by (intro unat_u32) simp

lemma line_known_line:
  assumes "line_known T n line" and "length T < 2 ^ 32"
  shows "line = lines_of T ! (unat n - 1)"
  using assms line_number_small [OF _ assms(2)] by (auto simp: line_known_def simp del: of_nat_Suc)

text \<open>The part of the consumer that runs with the right line in the buffer.\<close>

lemma phrase_tail:
  assumes l: "line = lines_of T ! (unat (oc_line rc) - 1)" and pm: "v_items (pm_line_buf pm) = line"
    and s: "scanning x T N ofd ix w0 fd i d (pm_out pm) w" and st: "start = unat (oc_start rc)"
  shows "wp (if start + length phrase > length line then Some (0, pm, w)
       else if \<not> phrase_equal_bytes (drop start line) phrase (length phrase) then Some (0, pm, w)
       else do {
         valid \<leftarrow> phrase_has_valid_end line start (length phrase);
         if \<not> valid then Some (0, pm, w)
         else case emit_line_ref (pm_out pm) (oc_line rc) (oc_start rc) w of (r, out, w) \<Rightarrow>
           Some (r, pm\<lparr>pm_out := out\<rparr>, w) })
    (\<lambda>(r, pm', w'). r = 0 \<and> scanning x T N ofd ix w0 fd i (d @ (if rec_hit T phrase rc then rec_text rc else [])) (pm_out pm') w'
       \<and> pm_line_buf pm' = pm_line_buf pm \<and> pm_cached_line_no pm' = pm_cached_line_no pm \<and> same_file fd i w w'
     \<or> r < 0 \<and> \<not> clean w0)"
proof (cases "start + length phrase > length line")
  case True
  then have "\<not> rec_hit T phrase rc" using l st by (simp add: rec_hit_def phrase_at_def)
  then show ?thesis using True s by (simp add: same_file_def)
next
  case False
  then have eq: "phrase_equal_bytes (drop start line) phrase (length phrase)
      \<longleftrightarrow> lower (take (length phrase) (drop start line)) = lower phrase"
    by (simp add: phrase_equal_bytes_iff)
  have hit: "rec_hit T phrase rc \<longleftrightarrow> phrase_equal_bytes (drop start line) phrase (length phrase)
      \<and> (start + length phrase = length line \<or> is_word_sep (line ! (start + length phrase)))"
    using False l st eq by (simp add: rec_hit_def phrase_at_def)
  have valid: "phrase_has_valid_end line start (length phrase)
      = Some (start + length phrase = length line \<or> is_word_sep (line ! (start + length phrase)))"
    using False by (auto simp: phrase_has_valid_end_def Let_def at_def)
  obtain r out1 w1 where e: "emit_line_ref (pm_out pm) (oc_line rc) (oc_start rc) w = (r, out1, w1)" using prod_cases3 by blast
  have "sink_ok x (pm_out pm) w" using s by (simp add: scanning_def serving_def)
  then have "emits x (pm_out pm) w (rec_text rc) (r, out1, w1)" using emit_line_ref_emits e unfolding rec_text_def by metis
  note em = scanning_emits [OF s this]
  show ?thesis using False s em hit by (auto simp: valid e same_file_def)
qed

interpretation phrase_scan: record_consumer "phrase_consumer ix phrase" "line_exists T"
    "phrase_inv x T N ofd ix w0 fd i d phrase" fd i w0 for x T N ofd ix w0 fd i d phrase
proof unfold_locales
  fix rs and pm :: phrase_match and w w' rc
  show "phrase_inv x T N ofd ix w0 fd i d phrase rs pm w'"
    if "phrase_inv x T N ofd ix w0 fd i d phrase rs pm w" "frame (rd_scope fd) w w'"
    using that scanning_read [OF _ that(2)] by (auto simp: phrase_inv_def)
  show "clean w" if "phrase_inv x T N ofd ix w0 fd i d phrase rs pm w" "clean w0"
    using that scanning_clean by (auto simp: phrase_inv_def)
  show "wp (phrase_consumer ix phrase rc pm w) (\<lambda>(r, pm', w').
      0 \<le> r \<and> phrase_inv x T N ofd ix w0 fd i d phrase (rs @ [rc]) pm' w' \<and> same_file fd i w w' \<or> r < 0 \<and> \<not> clean w0)"
    if p: "phrase_inv x T N ofd ix w0 fd i d phrase rs pm w" and g: "line_exists T rc"
  proof -
    let ?d = "d @ concat (map rec_text (filter (rec_hit T phrase) rs))"
    have sc: "scanning x T N ofd ix w0 fd i ?d (pm_out pm) w" and vo: "vec_ok (pm_line_buf pm)"
      and ca: "pm_cached_line_no pm = 0 \<or> line_known T (pm_cached_line_no pm) (v_items (pm_line_buf pm))"
      using p by (simp_all add: phrase_inv_def)
    have ixw: "indexed x T N ix w" using sc by (simp add: scanning_def serving_def)
    note T = indexed_small [OF ixw]
    obtain k where k: "k < length (lines_of T)" "oc_line rc = of_nat (Suc k)" using g by (auto simp: line_exists_def)
    have uk: "unat (oc_line rc) = Suc k" using line_number_small [OF k(1) T] k(2) by simp
    define load where "load = (if pm_cached_line_no pm \<noteq> oc_line rc then do {
          (r, line, w) \<leftarrow> index_read_line ix (oc_line rc) (pm_line_buf pm) w;
          Some (if r < 0 then (-1::int, pm\<lparr>pm_line_buf := line\<rparr>, w)
                else (0, pm\<lparr>pm_line_buf := line, pm_cached_line_no := oc_line rc\<rparr>, w)) }
        else Some (0, pm, w))"
    have "wp load (\<lambda>(r, pm', w'). quiet w w' \<and> (r = 0 \<and> pm_out pm' = pm_out pm \<and> vec_ok (pm_line_buf pm')
        \<and> pm_cached_line_no pm' = oc_line rc \<and> v_items (pm_line_buf pm') = lines_of T ! k \<or> r = -1 \<and> \<not> clean w))"
    proof (cases "pm_cached_line_no pm = oc_line rc")
      case True
      moreover have "oc_line rc \<noteq> 0" using uk by auto
      ultimately show ?thesis using ca vo line_known_line [OF _ T, of "oc_line rc"] uk by (auto simp: load_def)
    next
      case False
      obtain r line' w1 where "index_read_line ix (oc_line rc) (pm_line_buf pm) w = Some (r, line', w1)"
        and "quiet w w1 \<and> vec_ok line' \<and> (r = 0 \<and> v_items line' = lines_of T ! k \<or> r = -1 \<and> \<not> clean w)"
        using index_read_line_spec [OF ixw vo k(1)] unfolding k(2) [symmetric] by (rule wpE3)
      then show ?thesis using False by (auto simp: load_def)
    qed
    then obtain r1 pm1 w1 where ld: "load = Some (r1, pm1, w1)" and l: "quiet w w1 \<and> (r1 = 0 \<and> pm_out pm1 = pm_out pm
        \<and> vec_ok (pm_line_buf pm1) \<and> pm_cached_line_no pm1 = oc_line rc \<and> v_items (pm_line_buf pm1) = lines_of T ! k
        \<or> r1 = -1 \<and> \<not> clean w)" by (rule wpE3)
    note unf = phrase_consumer_def [of ix phrase rc pm w, folded load_def] ld bind.bind_lunit prod.case Let_def
    show ?thesis
    proof (cases "r1 < 0")
      case True
      then show ?thesis unfolding unf using l scanning_clean [OF sc] by auto
    next
      case False
      then have l1: "quiet w w1" "pm_out pm1 = pm_out pm" "vec_ok (pm_line_buf pm1)" "pm_cached_line_no pm1 = oc_line rc"
        "v_items (pm_line_buf pm1) = lines_of T ! k" using l by auto
      have sc1: "scanning x T N ofd ix w0 fd i ?d (pm_out pm1) w1"
        using scanning_read [OF sc quiet_rd [OF l1(1)]] l1(2) by simp
      have sf: "same_file fd i w w1" using l1(1) quiet_fd_of [OF l1(1)] by (simp add: same_file_def quiet_def)
      have kn: "line_known T (oc_line rc) (lines_of T ! k)" using k by (auto simp: line_known_def)
      show ?thesis unfolding unf if_not_P [OF False]
      proof (rule wp_mono [OF phrase_tail [OF _ refl sc1 refl]])
        show "v_items (pm_line_buf pm1) = lines_of T ! (unat (oc_line rc) - 1)" using l1(5) uk by simp
      qed (use l1 kn same_file_trans [OF sf] in \<open>auto simp: phrase_inv_def\<close>)
    qed
  qed
qed

lemma sep_lower: "is_word_sep (ascii_lower c) = is_word_sep c"
proof (cases "of_char CHR ''A'' \<le> c \<and> c \<le> of_char CHR ''Z''")
  case True
  then have u: "65 \<le> unat c" "unat c \<le> 90" by (simp_all add: word_le_nat_alt)
  then have "unat (ascii_lower c) = unat c + 32" using True by (simp add: ascii_lower_def unat_word_ariths)
  then have "unat (ascii_lower c) > 32" "unat c > 32" using u by simp_all
  then have "ascii_lower c \<noteq> 32 \<and> ascii_lower c \<noteq> 9 \<and> c \<noteq> 32 \<and> c \<noteq> 9" by auto
  then show ?thesis by (simp add: is_word_sep_def)
next
  case False
  then have "ascii_lower c = c" unfolding ascii_lower_def by (rule if_not_P)
  then show ?thesis by simp
qed

lemma takeWhile_lower: "takeWhile (\<lambda>c. \<not> is_word_sep c) (lower s) = lower (takeWhile (\<lambda>c. \<not> is_word_sep c) s)"
  by (induction s) (simp_all add: sep_lower)

text \<open>A phrase can only match where its first word stands.\<close>

lemma phrase_first_word:
  assumes "(s, v) \<in> set (word_spans 0 line)" and p: "phrase_at phrase line s"
  shows "lower v = lower (takeWhile (\<lambda>c. \<not> is_word_sep c) phrase)"
proof -
  let ?ns = "\<lambda>c. \<not> is_word_sep c" and ?X = "drop s line" and ?n = "length phrase"
  have v: "v = takeWhile ?ns ?X" using word_spans_nth [OF assms(1)] by simp
  have n: "?n \<le> length ?X" "lower (take ?n ?X) = lower phrase" using p by (auto simp: phrase_at_def)
  have e: "drop ?n ?X = [] \<or> is_word_sep (hd (drop ?n ?X))"
  proof (cases "s + ?n = length line")
    case False
    then have "s + ?n < length line" "is_word_sep (line ! (s + ?n))" using p by (auto simp: phrase_at_def)
    then show ?thesis by (simp add: hd_drop_conv_nth add.commute)
  qed simp
  have "takeWhile ?ns ?X = takeWhile ?ns (take ?n ?X @ drop ?n ?X)" by (simp only: append_take_drop_id)
  also have "\<dots> = takeWhile ?ns (take ?n ?X)"
  proof (cases "\<forall>c\<in>set (take ?n ?X). ?ns c")
    case True
    have "takeWhile ?ns (drop ?n ?X) = []" using e by (cases "drop ?n ?X") auto
    then show ?thesis using True by (metis append_Nil2 takeWhile_append2 takeWhile_eq_all_conv)
  next
    case False
    then show ?thesis by (metis takeWhile_append1)
  qed
  finally have "lower v = takeWhile ?ns (lower (take ?n ?X))" by (simp add: v takeWhile_lower)
  then show ?thesis by (simp add: n(2) takeWhile_lower)
qed

lemma phrase_occ:
  assumes oc: "oc \<in> set (occs_of T)" and p: "phrase_at phrase (lines_of T ! (fst (snd oc) - 1)) (snd (snd oc))"
  shows "fst oc = lower (takeWhile (\<lambda>c. \<not> is_word_sep c) phrase)"
proof -
  obtain q k s where o: "oc = (q, k, s)" by (cases oc)
  then obtain v where "(s, v) \<in> set (word_spans 0 (lines_of T ! (k - 1)))" "q = lower v" using oc by (auto simp: set_occs_of)
  then show ?thesis using phrase_first_word p o by auto
qed

lemma phrase_recs_text:
  assumes W: "words_of (occs_of T) ! k = lower (takeWhile (\<lambda>c. \<not> is_word_sep c) phrase)" and T: "length T < 2 ^ 32"
  shows "concat (map rec_text (filter (rec_hit T phrase) (word_recs T k))) = phrase_answer T phrase"
proof -
  let ?W = "words_of (occs_of T)"
  let ?P = "\<lambda>oc. phrase_at phrase (lines_of T ! (fst (snd oc) - 1)) (snd (snd oc))"
  have h: "rec_hit T phrase (record_of ?W oc) = ?P oc" if "oc \<in> set (occs_of T)" for oc
    using occ_small [OF that T] by (simp add: rec_hit_def record_of_def unat_u32)
  have "filter (\<lambda>oc. rec_hit T phrase (record_of ?W oc)) (filter (\<lambda>oc. fst oc = ?W ! k) (occs_of T)) = filter ?P (occs_of T)"
    unfolding filter_filter by (rule filter_cong) (use h phrase_occ W in auto)
  then have "filter (rec_hit T phrase) (word_recs T k) = map (record_of ?W) (filter ?P (occs_of T))"
    by (simp add: word_recs_def filter_map comp_def)
  moreover have "map (\<lambda>oc. rec_text (record_of ?W oc)) (filter ?P (occs_of T)) = map hit_text (filter ?P (occs_of T))"
    by (rule map_cong) (simp_all add: rec_text_hit [OF _ T])
  ultimately show ?thesis by (simp only: phrase_answer_def map_map comp_def)
qed

lemma phrase_answer_none:
  assumes "lower (takeWhile (\<lambda>c. \<not> is_word_sep c) phrase) \<notin> fst ` set (occs_of T)"
  shows "phrase_answer T phrase = []"
  using assms phrase_occ by (force simp: phrase_answer_def filter_empty_conv)

lemma word_recs_exist:
  assumes "length T < 2 ^ 32"
  shows "list_all (line_exists T) (word_recs T k)"
proof -
  have "line_exists T (record_of W oc)" if "oc \<in> set (occs_of T)" for W oc
    using occ_small(1,2) [OF that assms] unfolding line_exists_def
    by (intro exI [of _ "fst (snd oc) - 1"]) (simp add: record_of_def)
  then show ?thesis by (auto simp: word_recs_def list_all_iff)
qed

text \<open>The handler with a scratch line buffer.\<close>

definition answered_scratch where
  "answered_scratch x T N ix out w t = (\<lambda>(r, ix', out', scratch', w').
     answered x T N ix out w t (r, ix', out', w') \<and> (0 \<le> r \<longrightarrow> vec_ok (qs_line_buf scratch')))"

lemma answered_keep:
  assumes "wp m (answered x T N ix out w t)" and "vec_ok (qs_line_buf scratch)"
  shows "wp (map_option (\<lambda>(r, ix', out', w'). (r, ix', out', scratch, w')) m) (answered_scratch x T N ix out w t)"
  using assms by (cases m) (auto simp: answered_scratch_def)

lemma give_blank:
  assumes s: "serving x T N (ob_fd out) ix w {} (sink out w @ t) ix1 out1 w1" and vo: "vec_ok (qs_line_buf scratch)"
  shows "wp (case emit_blank_line out1 w1 of (r, out', w') \<Rightarrow> Some (r, ix1, out', scratch, w'))
     (answered_scratch x T N ix out w (t @ [NEWLINE]))"
proof -
  obtain r out2 w2 where b: "emit_blank_line out1 w1 = (r, out2, w2)" using prod_cases3 by blast
  show ?thesis using blank_after [OF s] vo by (simp add: blank_def b answered_scratch_def)
qed

lemma phrase_query_valid:
  assumes "2 \<le> length q" and "p = take (length q - 2) (drop 1 q)"
  shows "p = quoted q"
  using assms by (cases q) (simp_all add: quoted_def butlast_conv_take)

lemma valid_phrase_iff:
  assumes "2 \<le> length q" and "p = quoted q"
  shows "valid_phrase q \<longleftrightarrow> q ! 0 = QUOTE \<and> q ! (length q - 1) = QUOTE \<and> length p \<noteq> 0 \<and> \<not> is_word_sep (p ! 0)
     \<and> \<not> is_word_sep (p ! (length p - 1)) \<and> \<not> contains_char p QUOTE"
proof -
  have "q \<noteq> []" using assms(1) by auto
  then show ?thesis using assms
    by (cases "p = []") (auto simp: valid_phrase_def contains_char_iff hd_conv_nth last_conv_nth Let_def)
qed

definition phrase_text :: "byte list \<Rightarrow> byte list \<Rightarrow> byte list" where
  "phrase_text T q = (if valid_phrase q then phrase_answer T (quoted q) else [])"

lemma handle_phrase_spec:
  assumes ix: "indexed x T N ix w" and so: "sink_ok x out w" and len: "length q < 2 ^ 32" and vo: "vec_ok (qs_line_buf scratch)"
  shows "wp (handle_phrase ix q out scratch w) (answered_scratch x T N ix out w (phrase_text T q @ [NEWLINE]))"
proof -
  have s0: "serving x T N (ob_fd out) ix w {} (sink out w @ []) ix out w" using serving_start [OF ix so] by simp
  note T = indexed_small [OF ix]
  define gb where "gb = (\<lambda>(index :: index) out w. case emit_blank_line out w of (r, out, w) \<Rightarrow> Some (r, index, out, scratch, w))"
  have gb0: "wp (gb ix out w) (answered_scratch x T N ix out w (phrase_text T q @ [NEWLINE]))" if "phrase_text T q = []"
    using give_blank [OF s0 vo] that by (simp add: gb_def)
  note unf0 = handle_phrase_def [of ix q out scratch w, folded gb_def]
  define p where "p = take (length q - 2) (drop 1 q)"
  show ?thesis
  proof (cases "valid_phrase q")
    case False
    have "handle_phrase ix q out scratch w = gb ix out w"
    proof (cases "2 \<le> length q")
      case True
      have pq: "p = quoted q" by (rule phrase_query_valid [OF True p_def])
      show ?thesis unfolding unf0 gb_def [symmetric] Let_def p_def [symmetric]
        using False valid_phrase_iff [OF True pq] by auto
    qed (simp add: unf0 gb_def Let_def)
    then show ?thesis using gb0 False by (simp add: phrase_text_def)
  next
    case v: True
    then have l2: "2 \<le> length q" by (simp add: valid_phrase_def)
    have pq: "p = quoted q" by (rule phrase_query_valid [OF l2 p_def])
    note vi = valid_phrase_iff [OF l2 pq, THEN iffD1, OF v]
    let ?u = "takeWhile (\<lambda>c. \<not> is_word_sep c) p"
    have we: "word_end p 0 = length ?u" using word_end_eq [of 0 p] by simp
    have ne: "?u \<noteq> []" using vi by (cases p) auto
    have tu: "take (length ?u) p = ?u" by (metis takeWhile_eq_take)
    have "length p \<le> length q" by (simp add: p_def)
    then have lu: "length ?u < 2 ^ 32" using len length_takeWhile_le [of "\<lambda>c. \<not> is_word_sep c" p] by linarith
    have unf: "handle_phrase ix q out scratch w = do {
            (found, word_id, bucket) \<leftarrow> lexicon_find_existing (ix_lexicon ix) ?u;
            if \<not> found then gb ix out w
            else do {
              (r, index, w) \<leftarrow> ensure_word_cache ix word_id bucket w;
              if r < 0 then Some (-1, index, out, scratch, w)
              else do {
                (r, pm, w) \<leftarrow> scan_cached_word index word_id (phrase_consumer index p)
                   \<lparr>pm_out = out, pm_line_buf = qs_line_buf scratch, pm_cached_line_no = 0\<rparr> w;
                let scratch = scratch\<lparr>qs_line_buf := pm_line_buf pm\<rparr> in
                if r < 0 then Some (-1, index, pm_out pm, scratch, w)
                else case emit_blank_line (pm_out pm) w of (r, out, w) \<Rightarrow>
                  Some (r, index, out, scratch, w) } } }"
      unfolding unf0 Let_def p_def [symmetric] we tu using vi ne l2 by (auto simp: gb_def)
    from lookup [OF ix lu] show ?thesis
    proof (elim disjE exE conjE)
      assume f: "lexicon_find_existing (ix_lexicon ix) ?u = Some (False, 0, 0)" and no: "lower ?u \<notin> fst ` set (occs_of T)"
      show ?thesis unfolding unf f bind.bind_lunit prod.case
        using gb0 phrase_answer_none [OF no] by (simp add: phrase_text_def v pq)
    next
      fix k word_id bucket
      assume f: "lexicon_find_existing (ix_lexicon ix) ?u = Some (True, word_id, bucket)" and fo: "found_at T ?u k word_id bucket"
      have id: "unat word_id = k" and W: "words_of (occs_of T) ! k = lower ?u" using fo by (simp_all add: found_at_def)
      obtain r1 ix1 w1 where e: "ensure_word_cache ix word_id bucket w = Some (r1, ix1, w1)"
        and e': "r1 = 0 \<and> serving x T N (ob_fd out) ix w {} (sink out w) ix1 out w1 \<and> cached ix1 k \<and> grown ix ix1 \<or> r1 < 0 \<and> \<not> clean w"
        using serving_found [OF serving_start [OF ix so] fo] by (rule wpE3)
      show ?thesis
      proof (cases "r1 < 0")
        case True
        then show ?thesis unfolding unf f e bind.bind_lunit prod.case using e' by (auto simp: answered_scratch_def answered_def)
      next
        case False
        then have s1: "serving x T N (ob_fd out) ix w {} (sink out w) ix1 out w1" and c: "cached ix1 k" using e' by auto
        have ix1: "indexed x T N ix1 w1" and so1: "sink_ok x out w1" and sk: "sink out w1 = sink out w"
          using s1 by (simp_all add: serving_def)
        let ?pm = "\<lparr>pm_out = out, pm_line_buf = qs_line_buf scratch, pm_cached_line_no = 0\<rparr> :: phrase_match"
        let ?t = "concat (map rec_text (filter (rec_hit T p) (word_recs T k)))"
        have "wp (scan_cached_word ix1 word_id (phrase_consumer ix1 p) ?pm w1) (\<lambda>(r, pm', w').
            r = 0 \<and> serving x T N (ob_fd out) ix1 w1 {} (sink out w1 @ ?t) ix1 (pm_out pm') w' \<and> vec_ok (pm_line_buf pm')
            \<or> r < 0 \<and> \<not> clean w1)"
        proof (rule scan_served [OF ix1 c id so1])
          fix fd i w2
          assume sc: "scanning x T N (ob_fd out) ix1 w1 fd i (sink out w1) out w2"
            and f2: "fd_of w2 fd = Some \<lparr>o_ino = i, o_off = 0, o_kind = Regular\<rparr>" and d2: "w_data w2 i = recs_bytes (word_recs T k)"
          then have inv: "phrase_inv x T N (ob_fd out) ix1 w1 fd i (sink out w1) p [] ?pm w2"
            using vo by (simp add: phrase_inv_def)
          have "wp (scan_loop (\<lambda>rc. True) (phrase_consumer ix1 p) fd (replicate CHUNK_SIZE 0) 0 ?pm w2) (\<lambda>(r, carry, pm', w').
              r = 0 \<and> carry = 0 \<and> phrase_inv x T N (ob_fd out) ix1 w1 fd i (sink out w1) p ([] @ filter (\<lambda>rc. True) (word_recs T k)) pm' w'
              \<or> r < 0 \<and> \<not> clean w1)"
            by (rule phrase_scan.scan_loop_spec [OF f2 _ _ _ inv]) (use d2 word_recs_exist [OF T] in simp_all)
          then show "wp (scan_loop (\<lambda>rc. True) (phrase_consumer ix1 p) fd (replicate CHUNK_SIZE 0) 0 ?pm w2) (\<lambda>(r, carry, pm', w').
              r = 0 \<and> carry = 0 \<and> scanning x T N (ob_fd out) ix1 w1 fd i (sink out w1 @ ?t) (pm_out pm') w' \<and> vec_ok (pm_line_buf pm')
              \<or> r < 0 \<and> \<not> clean w1)"
            by (rule wp_mono) (auto simp: phrase_inv_def)
        qed
        then obtain r2 pm2 w2 where sc: "scan_cached_word ix1 word_id (phrase_consumer ix1 p) ?pm w1 = Some (r2, pm2, w2)"
          and a: "r2 = 0 \<and> serving x T N (ob_fd out) ix1 w1 {} (sink out w1 @ ?t) ix1 (pm_out pm2) w2 \<and> vec_ok (pm_line_buf pm2)
            \<or> r2 < 0 \<and> \<not> clean w1" by (rule wpE3)
        note un = unf f e bind.bind_lunit prod.case simp_thms if_False sc Let_def
        show ?thesis
        proof (cases "r2 < 0")
          case True
          then show ?thesis unfolding un using False a serving_clean [OF s1] by (auto simp: answered_scratch_def answered_def)
        next
          case r2: False
          then have s2: "serving x T N (ob_fd out) ix w {} (sink out w @ phrase_text T q) ix1 (pm_out pm2) w2"
            and vo2: "vec_ok (qs_line_buf (scratch\<lparr>qs_line_buf := pm_line_buf pm2\<rparr>))"
            using a serving_trans [OF s1] sk phrase_recs_text [OF W T] v pq by (auto simp: phrase_text_def)
          show ?thesis unfolding un if_not_P [OF False] if_not_P [OF r2] by (rule give_blank [OF s2 vo2])
        qed
      qed
    qed
  qed
qed

end
