(* ===== verification/Pa1_Select.thy ===== *)
theory Pa1_Select
  imports Pa1_Modes "HOL-Library.Multiset"
begin

text \<open>
  How \<open>handle_multi\<close> chooses its words: \<open>collect_query_words\<close> finds each word of the query once and
  never overruns its arrays, and the insertion sort orders ids and buckets together by the number
  of occurrences.
\<close>

section \<open>Insertion sort of two parallel arrays\<close>

definition count_of :: "index \<Rightarrow> u32 \<Rightarrow> u32" where
  "count_of ix i = the (cache_count_of ix i)"

text \<open>Moving the element at \<open>j\<close> down to \<open>p\<close>.\<close>

definition moved :: "'a list \<Rightarrow> nat \<Rightarrow> nat \<Rightarrow> 'a list" where
  "moved xs j p = take p xs @ xs ! j # drop p (take j xs) @ drop (Suc j) xs"

lemma length_moved: "j < length xs \<Longrightarrow> p \<le> j \<Longrightarrow> length (moved xs j p) = length xs"
  by (simp add: moved_def)

lemma moved_self: "j < length xs \<Longrightarrow> moved xs j j = xs"
  by (simp add: moved_def id_take_nth_drop [symmetric])

lemma mset_moved:
  assumes "j < length xs" and "p \<le> j"
  shows "mset (moved xs j p) = mset xs"
proof -
  have "take j xs = take p xs @ drop p (take j xs)"
    using assms(2) append_take_drop_id [of p "take j xs"] by (simp add: min_def)
  then have "xs = (take p xs @ drop p (take j xs)) @ xs ! j # drop (Suc j) xs"
    using id_take_nth_drop [OF assms(1)] by simp
  then have "mset xs = mset ((take p xs @ drop p (take j xs)) @ xs ! j # drop (Suc j) xs)" by (rule arg_cong)
  then show ?thesis by (simp add: moved_def)
qed

lemma zip_moved:
  assumes "j < length xs" and "length ys = length xs" and "p \<le> j"
  shows "zip (moved xs j p) (moved ys j p) = moved (zip xs ys) j p"
  using assms by (simp add: moved_def zip_append take_zip drop_zip min_def)

lemma sort_shift_spec:
  assumes "j < length ids" and "length bs = length ids" and "\<And>i. i < j \<Longrightarrow> cache_count_of ix (ids ! i) \<noteq> None"
  shows "\<exists>ids' bs' p. sort_shift ix c ids bs j = Some (ids', bs', p) \<and> p \<le> j
     \<and> (\<forall>v. ids'[p := v] = take p ids @ v # drop p (take j ids) @ drop (Suc j) ids)
     \<and> (\<forall>v. bs'[p := v] = take p bs @ v # drop p (take j bs) @ drop (Suc j) bs)
     \<and> (0 < p \<longrightarrow> count_of ix (ids ! (p - 1)) \<le> c) \<and> (\<forall>i. p \<le> i \<and> i < j \<longrightarrow> c < count_of ix (ids ! i))"
  using assms
proof (induction j arbitrary: ids bs)
  case 0
  then show ?case by (auto simp: list_update_append upd_conv_take_nth_drop)
next
  case (Suc j)
  obtain n where n: "cache_count_of ix (ids ! j) = Some n" using Suc.prems(3) [of j] by auto
  show ?case
  proof (cases "n \<le> c")
    case True
    then show ?thesis using n Suc.prems(1,2) by (auto simp: upd_conv_take_nth_drop count_of_def)
  next
    case False
    let ?ids = "ids[Suc j := ids ! j]" and ?bs = "bs[Suc j := bs ! j]"
    have "\<exists>ids' bs' p. sort_shift ix c ?ids ?bs j = Some (ids', bs', p) \<and> p \<le> j
       \<and> (\<forall>v. ids'[p := v] = take p ?ids @ v # drop p (take j ?ids) @ drop (Suc j) ?ids)
       \<and> (\<forall>v. bs'[p := v] = take p ?bs @ v # drop p (take j ?bs) @ drop (Suc j) ?bs)
       \<and> (0 < p \<longrightarrow> count_of ix (?ids ! (p - 1)) \<le> c) \<and> (\<forall>i. p \<le> i \<and> i < j \<longrightarrow> c < count_of ix (?ids ! i))"
      by (rule Suc.IH) (use Suc.prems in auto)
    then obtain ids' bs' p where s: "sort_shift ix c ?ids ?bs j = Some (ids', bs', p)" "p \<le> j"
      and l: "\<And>v. ids'[p := v] = take p ?ids @ v # drop p (take j ?ids) @ drop (Suc j) ?ids"
      and b: "\<And>v. bs'[p := v] = take p ?bs @ v # drop p (take j ?bs) @ drop (Suc j) ?bs"
      and lo: "0 < p \<longrightarrow> count_of ix (?ids ! (p - 1)) \<le> c" and hi: "\<And>i. p \<le> i \<Longrightarrow> i < j \<Longrightarrow> c < count_of ix (?ids ! i)" by blast
    have upd: "take p (xs[Suc j := xs ! j]) @ v # drop p (take j (xs[Suc j := xs ! j])) @ drop (Suc j) (xs[Suc j := xs ! j])
        = take p xs @ v # drop p (take (Suc j) xs) @ drop (Suc (Suc j)) xs" if "Suc j < length xs" for xs :: "u32 list" and v
    proof -
      have "drop (Suc j) (xs[Suc j := xs ! j]) = xs ! j # drop (Suc (Suc j)) xs"
        using that by (simp add: drop_update_swap Cons_nth_drop_Suc [symmetric])
      moreover have "drop p (take (Suc j) xs) = drop p (take j xs) @ [xs ! j]"
        using that s(2) by (simp add: take_Suc_conv_app_nth)
      ultimately show ?thesis using s(2) that by simp
    qed
    have le: "Suc j < length bs" using Suc.prems by simp
    have "sort_shift ix c ids bs (Suc j) = Some (ids', bs', p)" using n False s(1) by simp
    moreover have "c < count_of ix (ids ! i)" if "p \<le> i" "i < Suc j" for i
    proof (cases "i = j")
      case True
      then show ?thesis using n False by (simp add: count_of_def)
    next
      case i: False
      then show ?thesis using hi [of i] that by simp
    qed
    moreover have "0 < p \<longrightarrow> count_of ix (ids ! (p - 1)) \<le> c" using lo s(2) by (cases p) simp_all
    ultimately show ?thesis using s(2) l b upd [OF Suc.prems(1)] upd [OF le] by auto
  qed
qed

lemma take_moved: "i < length xs \<Longrightarrow> p \<le> i \<Longrightarrow> take (Suc i) (moved xs i p) = take p xs @ xs ! i # drop p (take i xs)"
  by (simp add: moved_def Suc_diff_le)

lemma sort_outer_spec:
  assumes "length bs = length ids" and "i + n \<le> length ids" and "\<And>v. v \<in> set ids \<Longrightarrow> cache_count_of ix v \<noteq> None"
    and "sorted (map (count_of ix) (take i ids))"
  shows "\<exists>ids' bs'. sort_outer ix ids bs i n = Some (ids', bs') \<and> length ids' = length ids \<and> length bs' = length ids
     \<and> mset (zip ids' bs') = mset (zip ids bs) \<and> sorted (map (count_of ix) (take (i + n) ids'))"
  using assms
proof (induction n arbitrary: i ids bs)
  case 0
  then show ?case by simp
next
  case (Suc n)
  have i: "i < length ids" "length bs = length ids" using Suc.prems by simp_all
  let ?c = "count_of ix (ids ! i)"
  have c: "cache_count_of ix (ids ! i) = Some ?c" using Suc.prems(3) [of "ids ! i"] i by (auto simp: count_of_def)
  have "\<And>k. k < i \<Longrightarrow> cache_count_of ix (ids ! k) \<noteq> None" using Suc.prems(3) i by simp
  from sort_shift_spec [OF i this, where c = ?c] obtain ids1 bs1 p where s: "sort_shift ix ?c ids bs i = Some (ids1, bs1, p)" "p \<le> i"
    and m: "ids1[p := ids ! i] = moved ids i p" "bs1[p := bs ! i] = moved bs i p"
    and lo: "0 < p \<longrightarrow> count_of ix (ids ! (p - 1)) \<le> ?c" and hi: "\<forall>k. p \<le> k \<and> k < i \<longrightarrow> ?c < count_of ix (ids ! k)"
    unfolding moved_def by auto
  have unf: "sort_outer ix ids bs i (Suc n) = sort_outer ix (moved ids i p) (moved bs i p) (Suc i) n"
    using c s(1) m by simp
  have set: "set (moved ids i p) = set ids" using mset_moved [OF i(1) s(2)] mset_eq_setD by blast
  have so: "sorted (map (count_of ix) (take (Suc i) (moved ids i p)))"
  proof -
    have sp: "take i ids = take p ids @ drop p (take i ids)" using s(2) by (metis append_take_drop_id min.absorb1 take_take)
    have "count_of ix v \<le> ?c" if v: "v \<in> set (take p ids)" for v
    proof -
      obtain k where k: "k < p" "v = ids ! k" using v i s(2) by (auto simp: in_set_conv_nth)
      have "count_of ix (ids ! k) \<le> count_of ix (ids ! (p - 1))"
        using sorted_nth_mono [OF Suc.prems(4), of k "p - 1"] k s(2) i by simp
      then show ?thesis using lo k by auto
    qed
    moreover have "?c \<le> count_of ix v" if v: "v \<in> set (drop p (take i ids))" for v
    proof -
      obtain k where k: "k < i - p" "v = ids ! (p + k)" using v i s(2) by (auto simp: in_set_conv_nth)
      have "?c < count_of ix (ids ! (p + k))" using hi k(1) by simp
      then show ?thesis using k(2) by simp
    qed
    moreover have "sorted (map (count_of ix) (take p ids @ drop p (take i ids)))" using Suc.prems(4) sp by simp
    ultimately show ?thesis unfolding take_moved [OF i(1) s(2)]
      by (fastforce simp: sorted_append)
  qed
  have "\<exists>ids' bs'. sort_outer ix (moved ids i p) (moved bs i p) (Suc i) n = Some (ids', bs')
      \<and> length ids' = length (moved ids i p) \<and> length bs' = length (moved ids i p)
      \<and> mset (zip ids' bs') = mset (zip (moved ids i p) (moved bs i p)) \<and> sorted (map (count_of ix) (take (Suc i + n) ids'))"
  proof (rule Suc.IH)
    show "cache_count_of ix v \<noteq> None" if "v \<in> set (moved ids i p)" for v using that set Suc.prems(3) by simp
  qed (use so Suc.prems i s(2) in \<open>simp_all add: length_moved\<close>)
  then show ?case unfolding unf using mset_moved [of i "zip ids bs" p] i s(2) by (simp add: zip_moved length_moved)
qed

lemma sort_query_words_spec:
  assumes "length bs = length ids" and "\<And>v. v \<in> set ids \<Longrightarrow> cache_count_of ix v \<noteq> None"
  obtains ids' bs' where "sort_query_words_by_cache_size ix ids bs = Some (ids', bs')"
    and "length ids' = length ids" and "length bs' = length ids" and "mset (zip ids' bs') = mset (zip ids bs)"
    and "sorted (map (count_of ix) ids')"
proof (cases "ids = []")
  case True
  then show ?thesis using assms(1) that by (simp add: sort_query_words_by_cache_size_def)
next
  case False
  then have l: "1 + (length ids - 1) = length ids" by (cases ids) simp_all
  have "sorted (map (count_of ix) (take 1 ids))" by (cases ids) simp_all
  from sort_outer_spec [OF assms(1) _ assms(2) this, of "length ids - 1"] show ?thesis
    using that l by (auto simp: sort_query_words_by_cache_size_def)
qed

section \<open>The words of a query\<close>

text \<open>The entries chosen for the words \<open>qs\<close>: every word has one, every one has a word.\<close>

definition chosen :: "byte list \<Rightarrow> byte list list \<Rightarrow> u32 list \<Rightarrow> u32 list \<Rightarrow> bool" where
  "chosen T qs ids bs \<longleftrightarrow> length bs = length ids \<and> distinct ids
     \<and> (\<forall>(i, b)\<in>set (zip ids bs). \<exists>q\<in>set qs. found_at T q (unat i) i b)
     \<and> (\<forall>q\<in>set qs. \<exists>(i, b)\<in>set (zip ids bs). found_at T q (unat i) i b)"

lemma chosen_more:
  assumes c: "chosen T qs ids bs" and f: "found_at T q k word_id bucket"
  shows "word_id \<in> set ids \<Longrightarrow> chosen T (qs @ [q]) ids bs"
    and "word_id \<notin> set ids \<Longrightarrow> chosen T (qs @ [q]) (ids @ [word_id]) (bs @ [bucket])"
proof -
  have l: "length bs = length ids" using c by (simp add: chosen_def)
  have k: "k = unat word_id" using f by (simp add: found_at_def)
  show "chosen T (qs @ [q]) ids bs" if w: "word_id \<in> set ids"
  proof -
    obtain b where wb: "(word_id, b) \<in> set (zip ids bs)" using w l by (metis in_set_impl_in_set_zip1)
    then obtain q' where "found_at T q' k word_id b" using c k by (fastforce simp: chosen_def)
    then have "found_at T q k word_id b" using f by (simp add: found_at_def)
    then show ?thesis using c wb k by (fastforce simp: chosen_def)
  qed
  show "chosen T (qs @ [q]) (ids @ [word_id]) (bs @ [bucket])" if "word_id \<notin> set ids"
    using that c f k l by (fastforce simp: chosen_def)
qed

lemma word_spans_step:
  assumes "pos \<le> length q" and "start = skip_seps q pos" and "e = word_end q start" and "start < length q"
  shows "word_spans pos (drop pos q) = (start, take (e - start) (drop start q)) # word_spans e (drop e q)"
    and "pos \<le> start" and "start < e" and "e \<le> length q" and "e = length q \<or> is_word_sep (q ! e)"
proof -
  show "word_spans pos (drop pos q) = (start, take (e - start) (drop start q)) # word_spans e (drop e q)"
    using tokenize_step(1) [OF assms(1-3)] assms(4) by simp
  show "pos \<le> start" using skip_seps_eq [OF assms(1)] assms(2) by simp
  have e: "e = start + length (takeWhile (\<lambda>c. \<not> is_word_sep c) (drop start q))"
    using word_end_eq [of start q] assms(3,4) by simp
  have "start = pos + length (takeWhile is_word_sep (drop pos q))" using skip_seps_eq [OF assms(1)] assms(2) by simp
  then have "\<not> is_word_sep (q ! start)"
    using assms(4) nth_length_takeWhile [of is_word_sep "drop pos q"] by simp
  then have "takeWhile (\<lambda>c. \<not> is_word_sep c) (drop start q) \<noteq> []"
    using assms(4) by (simp add: Cons_nth_drop_Suc [symmetric])
  then show "start < e" using e by simp
  have "length (takeWhile (\<lambda>c. \<not> is_word_sep c) (drop start q)) \<le> length (drop start q)" by (rule length_takeWhile_le)
  then show el: "e \<le> length q" using e assms(4) by simp
  show "e = length q \<or> is_word_sep (q ! e)"
  proof (cases "e = length q")
    case False
    then have "length (takeWhile (\<lambda>c. \<not> is_word_sep c) (drop start q)) < length (drop start q)" using e el by simp
    from nth_length_takeWhile [OF this] show ?thesis using e assms(4) by simp
  qed simp
qed

lemma collect_from_spec:
  assumes ix: "indexed x T N ix w" and len: "length q \<le> QUERY_LIMIT"
  shows "pos \<le> length q \<Longrightarrow> chosen T qs ids bs
    \<Longrightarrow> pos = 0 \<and> ids = [] \<or> 0 < pos \<and> 2 * length ids \<le> pos + 1 \<and> (pos = length q \<or> is_word_sep (q ! pos))
    \<Longrightarrow> \<exists>r ids' bs'. collect_query_words_from (ix_lexicon ix) q ids bs pos = Some (r, ids', bs')
      \<and> (r \<and> chosen T (qs @ map snd (word_spans pos (drop pos q))) ids' bs'
        \<or> \<not> r \<and> (\<exists>v\<in>set (map snd (word_spans pos (drop pos q))). lower v \<notin> fst ` set (occs_of T)))"
proof (induction "length q - pos" arbitrary: pos qs ids bs rule: less_induct)
  case less
  note pos = less.prems(1) and ch = less.prems(2) and room = less.prems(3)
  define start where "start = skip_seps q pos"
  define e where "e = word_end q start"
  show ?case
  proof (cases "pos < length q \<and> start < length q")
    case False
    have "word_spans pos (drop pos q) = []"
    proof (cases "pos < length q")
      case True
      then show ?thesis using False tokenize_step(1) [OF pos start_def e_def] by simp
    next
      case False
      then show ?thesis by (simp add: word_spans.simps [of pos "[]"])
    qed
    moreover have "collect_query_words_from (ix_lexicon ix) q ids bs pos = Some (True, ids, bs)"
      using False by (subst collect_query_words_from.simps) (auto simp: start_def [symmetric] Let_def)
    ultimately show ?thesis using ch by (auto intro: exI [of _ True])
  next
    case True
    then have p: "pos < length q" and st: "start < length q" by simp_all
    note ws = word_spans_step [OF pos start_def e_def st]
    let ?v = "take (e - start) (drop start q)"
    have small: "length ?v < 2 ^ 32" using len by (simp add: pa1_consts)
    have unf: "collect_query_words_from (ix_lexicon ix) q ids bs pos = do {
           (found, word_id, bucket) \<leftarrow> lexicon_find_existing (ix_lexicon ix) ?v;
           if \<not> found then Some (False, ids, bs)
           else if word_id \<in> set ids then collect_query_words_from (ix_lexicon ix) q ids bs e
           else if length ids \<ge> QUERY_LIMIT div 2 + 1 then None
           else collect_query_words_from (ix_lexicon ix) q (ids @ [word_id]) (bs @ [bucket]) e }"
      using p st by (subst collect_query_words_from.simps) (simp add: start_def [symmetric] e_def [symmetric] Let_def)
    from lookup [OF ix small] show ?thesis
    proof (elim disjE exE conjE)
      assume "lexicon_find_existing (ix_lexicon ix) ?v = Some (False, 0, 0)" "lower ?v \<notin> fst ` set (occs_of T)"
      then show ?thesis unfolding unf ws(1) by (auto intro: exI [of _ False])
    next
      fix k word_id bucket
      assume f: "lexicon_find_existing (ix_lexicon ix) ?v = Some (True, word_id, bucket)" and fo: "found_at T ?v k word_id bucket"
      note more = chosen_more [OF ch fo]
      have dec: "length q - e < length q - pos" using ws(2,3,4) p by simp
      have two: "2 * (length ids + 1) \<le> e + 1"
      proof (cases "pos = 0")
        case True
        then show ?thesis using room ws(3) by simp
      next
        case False
        then have "is_word_sep (q ! pos)" "2 * length ids \<le> pos + 1" using room p by auto
        then have "pos < start" using p by (simp add: start_def skip_seps.simps [of q pos])
          (metis skip_seps_eq Suc_leI add_leD1 less_eq_Suc_le p le_add1)
        then show ?thesis using ws(3) \<open>2 * length ids \<le> pos + 1\<close> by simp
      qed
      show ?thesis
      proof (cases "word_id \<in> set ids")
        case True
        have "\<exists>r ids' bs'. collect_query_words_from (ix_lexicon ix) q ids bs e = Some (r, ids', bs')
          \<and> (r \<and> chosen T ((qs @ [?v]) @ map snd (word_spans e (drop e q))) ids' bs'
            \<or> \<not> r \<and> (\<exists>v\<in>set (map snd (word_spans e (drop e q))). lower v \<notin> fst ` set (occs_of T)))"
          by (rule less.hyps [OF dec ws(4) more(1) [OF True]]) (use two ws in auto)
        then show ?thesis unfolding unf ws(1) using f True by auto
      next
        case False
        have "\<not> length ids \<ge> QUERY_LIMIT div 2 + 1" using two ws(4) len by (simp add: pa1_consts)
        moreover have "\<exists>r ids' bs'. collect_query_words_from (ix_lexicon ix) q (ids @ [word_id]) (bs @ [bucket]) e = Some (r, ids', bs')
          \<and> (r \<and> chosen T ((qs @ [?v]) @ map snd (word_spans e (drop e q))) ids' bs'
            \<or> \<not> r \<and> (\<exists>v\<in>set (map snd (word_spans e (drop e q))). lower v \<notin> fst ` set (occs_of T)))"
          by (rule less.hyps [OF dec ws(4) more(2) [OF False]]) (use two ws in auto)
        ultimately show ?thesis unfolding unf ws(1) using f False by auto
      qed
    qed
  qed
qed

lemma collect_query_words_spec:
  assumes "indexed x T N ix w" and "length q \<le> QUERY_LIMIT"
  obtains (all) ids bs where "collect_query_words ix q = Some (True, ids, bs)" and "chosen T (query_words q) ids bs"
  | (missing) ids bs v where "collect_query_words ix q = Some (False, ids, bs)" and "v \<in> set (query_words q)"
      and "lower v \<notin> fst ` set (occs_of T)"
proof -
  have "chosen T [] [] []" by (simp add: chosen_def)
  from collect_from_spec [OF assms, of 0, OF _ this] obtain r ids bs where
    c: "collect_query_words ix q = Some (r, ids, bs)"
    and a: "r \<and> chosen T (query_words q) ids bs
      \<or> \<not> r \<and> (\<exists>v\<in>set (query_words q). lower v \<notin> fst ` set (occs_of T))"
    by (auto simp: collect_query_words_def query_words_def)
  show ?thesis
  proof (cases r)
    case True
    then show ?thesis using c a that(1) by simp
  next
    case False
    then obtain v where "v \<in> set (query_words q)" "lower v \<notin> fst ` set (occs_of T)" using a by auto
    then show ?thesis using c False that(2) by simp
  qed
qed

end
