(* ===== verification/Pa1_Multi.thy ===== *)
theory Pa1_Multi
  imports Pa1_Select
begin

text \<open>
  \<open>handle_multi\<close>: one word is listed, two are intersected into the output, more go through a chain
  of temporary line-set files of which at most two are open at a time. Whatever the order of the
  words, the output is the list of the lines that contain all of them.
\<close>

section \<open>Lines that contain all of some words\<close>

definition lines_all :: "byte list \<Rightarrow> nat list \<Rightarrow> u32 list" where
  "lines_all T ks = map of_nat (lines_where T (\<lambda>n. \<forall>k\<in>set ks. has_word T (words_of (occs_of T) ! k) n))"

lemma word_lines_all: "length T < 2 ^ 32 \<Longrightarrow> word_lines T k = lines_all T [k]"
  using word_lines_eq(1) by (simp add: lines_all_def)

lemma sorted_lines_all: "length T < 2 ^ 32 \<Longrightarrow> sorted_wrt (<) (lines_all T ks)"
  unfolding lines_all_def by (rule strict_lines_where)

lemma length_lines_all: "length (lines_all T ks) \<le> length T"
  using length_lines_of [of T] length_filter_le [of _ "[1..<Suc (length (lines_of T))]"]
  by (simp add: lines_all_def lines_where_def del: upt_Suc) (meson le_trans)

lemma common_lines_all:
  assumes T: "length T < 2 ^ 32"
  shows "common (lines_all T ks) (word_lines T k) = lines_all T (ks @ [k])"
proof -
  have inj: "inj_on (of_nat :: nat \<Rightarrow> u32) (set (lines_where T (\<lambda>n. True)))"
    using u32_eq lines_where_small [OF _ T] by (intro inj_onI) metis
  have sub: "set (lines_where T P) \<subseteq> set (lines_where T (\<lambda>n. True))" for P by (auto simp: lines_where_def)
  have "set (common (lines_all T ks) (word_lines T k))
      = of_nat ` (set (lines_where T (\<lambda>n. \<forall>k\<in>set ks. has_word T (words_of (occs_of T) ! k) n))
          \<inter> set (lines_where T (\<lambda>n. \<forall>k\<in>set [k]. has_word T (words_of (occs_of T) ! k) n)))"
    unfolding set_common word_lines_all [OF T] lines_all_def set_map by (rule inj_on_image_Int [OF inj sub sub, symmetric])
  then have "set (common (lines_all T ks) (word_lines T k)) = set (lines_all T (ks @ [k]))"
    by (auto simp: lines_all_def lines_where_def image_iff)
  then show ?thesis
    by (rule strict_sorted_equal [OF sorted_lines_all [OF T] sorted_common [OF sorted_lines_all [OF T]]])
qed

lemma texts_lines_all:
  assumes "length T < 2 ^ 32"
  shows "texts (lines_all T ks) = concat (map line_text (lines_where T (\<lambda>n. \<forall>k\<in>set ks. has_word T (words_of (occs_of T) ! k) n)))"
  unfolding texts_def lines_all_def by (rule line_texts) (rule lines_where_small [OF _ assms])

lemma lines_all_more: "lines_all T ks = [] \<Longrightarrow> lines_all T (ks @ ks') = []"
  by (auto simp: lines_all_def lines_where_def filter_empty_conv)

lemma count_zero:
  assumes "length T < 2 ^ 32"
  shows "(of_nat (length (lines_all T ks)) :: u32) = 0 \<longleftrightarrow> lines_all T ks = []"
proof -
  have "length (lines_all T ks) < 2 ^ 32" using length_lines_all [of T ks] assms by simp
  from u32_eq [OF this, of 0] show ?thesis by simp
qed

lemma multi_answer_chosen:
  assumes c: "chosen T qs ids bs" and T: "length T < 2 ^ 32" and m: "set ps = set (zip ids bs)"
  shows "multi_answer T qs = texts (lines_all T (map (\<lambda>p. unat (fst p)) ps))"
proof -
  have "(\<forall>k\<in>set (map (\<lambda>p. unat (fst p)) ps). has_word T (words_of (occs_of T) ! k) n) \<longleftrightarrow> (\<forall>q\<in>set qs. has_word T (lower q) n)" for n
  proof
    assume a: "\<forall>k\<in>set (map (\<lambda>p. unat (fst p)) ps). has_word T (words_of (occs_of T) ! k) n"
    show "\<forall>q\<in>set qs. has_word T (lower q) n"
    proof
      fix q assume "q \<in> set qs"
      then obtain i b where "(i, b) \<in> set (zip ids bs)" "found_at T q (unat i) i b" using c by (auto simp: chosen_def)
      then show "has_word T (lower q) n" using a m by (force simp: found_at_def)
    qed
  next
    assume a: "\<forall>q\<in>set qs. has_word T (lower q) n"
    show "\<forall>k\<in>set (map (\<lambda>p. unat (fst p)) ps). has_word T (words_of (occs_of T) ! k) n"
    proof
      fix k assume "k \<in> set (map (\<lambda>p. unat (fst p)) ps)"
      then obtain i b where "(i, b) \<in> set (zip ids bs)" "k = unat i" using m by auto
      then obtain q where "q \<in> set qs" "found_at T q k i b" using c by (fastforce simp: chosen_def)
      then show "has_word T (words_of (occs_of T) ! k) n" using a by (simp add: found_at_def)
    qed
  qed
  then show ?thesis unfolding texts_lines_all [OF T] multi_answer_def by simp
qed

lemma multi_answer_missing:
  assumes "v \<in> set qs" and "lower v \<notin> fst ` set (occs_of T)"
  shows "multi_answer T qs = []"
proof -
  have "\<not> has_word T (lower v) n" for n using assms(2) by (force simp: has_word_iff)
  then show ?thesis using assms(1) by (auto simp: multi_answer_def lines_where_def filter_empty_conv)
qed

section \<open>Materializing all words\<close>

definition entry_found :: "byte list \<Rightarrow> u32 \<times> u32 \<Rightarrow> bool" where
  "entry_found T p \<longleftrightarrow> (\<exists>q. found_at T q (unat (fst p)) (fst p) (snd p))"

lemma ensure_all_spec:
  assumes "serving x T N ofd ix0 w0 {} d ix out w" and "\<forall>p\<in>set ps. entry_found T p"
  shows "wp (ensure_all ix ps w) (\<lambda>(r, ix', w'). r = 0 \<and> serving x T N ofd ix0 w0 {} d ix' out w' \<and> grown ix ix'
     \<and> (\<forall>p\<in>set ps. cached ix' (unat (fst p))) \<or> r < 0 \<and> \<not> clean w0)"
  using assms
proof (induction ps arbitrary: ix w)
  case (Cons p ps)
  obtain i b where p: "p = (i, b)" by (cases p)
  obtain q where f: "found_at T q (unat i) i b" using Cons.prems(2) p by (auto simp: entry_found_def)
  obtain r1 ix1 w1 where e: "ensure_word_cache ix i b w = Some (r1, ix1, w1)"
    and e': "r1 = 0 \<and> serving x T N ofd ix0 w0 {} d ix1 out w1 \<and> cached ix1 (unat i) \<and> grown ix ix1 \<or> r1 < 0 \<and> \<not> clean w0"
    using serving_found [OF Cons.prems(1) f] by (rule wpE3)
  show ?case
  proof (cases "r1 < 0")
    case True
    then show ?thesis using e e' p by auto
  next
    case False
    then have s1: "serving x T N ofd ix0 w0 {} d ix1 out w1" "cached ix1 (unat i)" "grown ix ix1" using e' by auto
    have "\<forall>p\<in>set ps. entry_found T p" using Cons.prems(2) by simp
    from Cons.IH [OF s1(1) this] have "wp (ensure_all ix1 ps w1) (\<lambda>(r, ix', w').
        r = 0 \<and> serving x T N ofd ix0 w0 {} d ix' out w' \<and> grown ix ix'
        \<and> (\<forall>p\<in>set ((i, b) # ps). cached ix' (unat (fst p))) \<or> r < 0 \<and> \<not> clean w0)"
      by (rule wp_mono) (use s1 grown_trans [OF s1(3)] in \<open>auto simp: grown_def\<close>)
    then show ?thesis using e False p by simp
  qed
qed simp

lemma cached_count: "cached ix (unat i) \<Longrightarrow> cache_count_of ix i \<noteq> None"
  by (simp add: cached_def cache_count_of_def)

section \<open>One and two words\<close>

definition multi_done where
  "multi_done x T N ofd ix0 w0 d = (\<lambda>(r :: int, ix', out', w').
     r = 0 \<and> serving x T N ofd ix0 w0 {} d ix' out' w' \<or> r < 0 \<and> \<not> clean w0)"

lemma multi_one_spec:
  assumes s: "serving x T N ofd ix0 w0 {} d ix out w" and c: "cached ix (unat i)"
  shows "wp (multi_one ix i b out w) (multi_done x T N ofd ix0 w0 (d @ texts (lines_all T [unat i]) @ [NEWLINE]))"
proof -
  note T = indexed_small [OF serving_indexed [OF s]]
  obtain r1 ix1 src w1 where o: "line_number_source_open_word ix i b w = Some (r1, ix1, src, w1)"
    and o': "word_opened x T N ofd ix0 w0 {} d ix out w (unat i) (r1, ix1, src, w1)"
    using serving_open_word [OF s c refl, of b] by (auto simp: wp_iff)
  have ix1: "ix1 = ix" using o' by (simp add: word_opened_def)
  show ?thesis
  proof (cases src)
    case None
    then show ?thesis using o o' by (simp add: multi_one_def word_opened_def multi_done_def)
  next
    case (Some sr)
    then obtain fd ino where s1: "serving x T N ofd ix0 w0 {fd} d ix out w1" and a1: "source_at True ino fd sr w1 (word_lines T (unat i))"
      and ne: "ino \<noteq> x" using o' serving_indexed [OF s] by (fastforce simp: word_opened_def)
    obtain r2 sr2 out2 w2 where u: "output_line_source sr out w1 = Some (r2, sr2, out2, w2)"
      and u': "r2 = 0 \<and> serving x T N ofd ix0 w0 {fd} (d @ texts (word_lines T (unat i)) @ [NEWLINE]) ix out2 w2
          \<and> (\<exists>L'. source_at True ino fd sr2 w2 L') \<or> r2 < 0 \<and> \<not> clean w0"
      using serving_output_source [OF s1 a1 _ ne] by (rule wpE4) simp_all
    obtain r3 sr3 w3 where k: "line_number_source_close sr2 w2 = (r3, sr3, w3)" using prod_cases3 by blast
    note unf = multi_one_def o bind.bind_lunit prod.case Some option.case u k ix1
    show ?thesis
    proof (cases "r2 < 0")
      case True
      then show ?thesis unfolding unf using u' by (auto simp: multi_done_def)
    next
      case False
      then obtain L' where s2: "serving x T N ofd ix0 w0 {fd} (d @ texts (word_lines T (unat i)) @ [NEWLINE]) ix out2 w2"
        and a2: "source_at True ino fd sr2 w2 L'" and r2: "r2 = 0" using u' by auto
      note cl = serving_source_close [OF s2 a2 _ k]
      show ?thesis unfolding unf using cl(1,2) r2 word_lines_all [OF T] by (auto simp: multi_done_def)
    qed
  qed
qed

lemma multi_two_spec:
  assumes s: "serving x T N ofd ix0 w0 {} d ix out w" and c: "cached ix (unat (fst a))" "cached ix (unat (fst b))"
  shows "wp (multi_two ix a b out w)
     (multi_done x T N ofd ix0 w0 (d @ texts (lines_all T [unat (fst a), unat (fst b)]) @ [NEWLINE]))"
proof -
  note T = indexed_small [OF serving_indexed [OF s]]
  obtain srcs ix1 w1 where o: "open_pair ix a b w = Some (srcs, ix1, w1)"
    and o': "pair_opened x T N ofd ix0 w0 {} d ix out w (unat (fst a)) (unat (fst b)) (srcs, ix1, w1)"
    using serving_open_pair [OF s c(1) refl c(2) refl] by (auto simp: wp_iff)
  have ix1: "ix1 = ix" using o' by (simp add: pair_opened_def)
  show ?thesis
  proof (cases srcs)
    case None
    then show ?thesis using o o' by (simp add: multi_two_def pair_opened_def multi_done_def)
  next
    case (Some lr)
    obtain left right where lr: "lr = (left, right)" by (cases lr)
    then obtain fl il fr ir where ne: "fl \<noteq> fr" and s1: "serving x T N ofd ix0 w0 {fr, fl} d ix out w1"
      and l: "source_at True il fl left w1 (word_lines T (unat (fst a)))"
      and r: "source_at True ir fr right w1 (word_lines T (unat (fst b)))" and i: "il \<noteq> x" "ir \<noteq> x"
      using o' Some serving_indexed [OF s] by (fastforce simp: pair_opened_def)
    note srt = word_lines_eq(2) [OF T]
    have "wp (intersect_line_sources_to_output left right out w1) (\<lambda>(r, left', right', out', n, w').
       r = 0 \<and> serving x T N ofd ix0 w0 {fr, fl} (d @ texts (lines_all T [unat (fst a), unat (fst b)]) @ [NEWLINE]) ix out' w'
         \<and> both_at True fl il left' True fr ir right' w' \<or> r < 0 \<and> \<not> clean w0)"
      by (rule wp_mono [OF serving_to_output [OF s1 l r _ _ ne i srt srt]])
        (use common_lines_all [OF T, of "[unat (fst a)]" "unat (fst b)"] word_lines_all [OF T] in auto)
    then obtain r2 left2 right2 out2 n w2 where u: "intersect_line_sources_to_output left right out w1 = Some (r2, left2, right2, out2, n, w2)"
      and u': "r2 = 0 \<and> serving x T N ofd ix0 w0 {fr, fl} (d @ texts (lines_all T [unat (fst a), unat (fst b)]) @ [NEWLINE]) ix out2 w2
         \<and> both_at True fl il left2 True fr ir right2 w2 \<or> r2 < 0 \<and> \<not> clean w0"
      by (auto simp: wp_iff)
    obtain r3 w3 where k: "close_sources left2 right2 w2 = (r3, w3)" by force
    note unf = multi_two_def o bind.bind_lunit prod.case Some lr option.case u k ix1
    show ?thesis
    proof (cases "r2 < 0")
      case True
      then show ?thesis unfolding unf using u' by (auto simp: multi_done_def)
    next
      case False
      then have s2: "serving x T N ofd ix0 w0 {fr, fl} (d @ texts (lines_all T [unat (fst a), unat (fst b)]) @ [NEWLINE]) ix out2 w2"
        and b2: "both_at True fl il left2 True fr ir right2 w2" and r2: "r2 = 0" using u' by auto
      have F: "{fr, fl} - (if True then {fl} else {}) - {fr} = {}" by auto
      show ?thesis unfolding unf using serving_close_sources [OF s2 b2 _ _ ne k, unfolded F] r2 by (auto simp: multi_done_def)
    qed
  qed
qed

section \<open>Three words and more\<close>

lemma blank_serving:
  assumes s: "serving x T N ofd ix0 w0 {} d ix out w"
  shows "wp (blank ix out w) (multi_done x T N ofd ix0 w0 (d @ [NEWLINE]))"
proof -
  obtain r out1 w1 where b: "emit_blank_line out w = (r, out1, w1)" using prod_cases3 by blast
  have e: "emits x out w [NEWLINE] (r, out1, w1)" using emit_blank_line_emits [OF serving_sink [OF s]] b by simp
  show ?thesis using serving_emits [OF s e] by (auto simp: blank_def b multi_done_def)
qed

lemma close_quietly_spec:
  assumes s: "serving x T N ofd ix0 w0 F d ix out w" and fd: "fd \<in> F" "fd_of w fd \<noteq> None"
  shows "serving x T N ofd ix0 w0 (F - {fd}) d ix out (close_quietly fd w)"
    and "w_data (close_quietly fd w) = w_data w"
    and "\<And>y. fd_of (close_quietly fd w) y = (if y = fd then None else fd_of w y)"
proof -
  obtain r w' where k: "sys_close fd w = (r, w')" by force
  then have w': "close_quietly fd w = w'" by (simp add: close_quietly_def)
  show "serving x T N ofd ix0 w0 (F - {fd}) d ix out (close_quietly fd w)"
    unfolding w' by (rule serving_close(1) [OF s k fd])
  show "w_data (close_quietly fd w) = w_data w"
    "\<And>y. fd_of (close_quietly fd w) y = (if y = fd then None else fd_of w y)"
    unfolding w' using sys_close_drop(3,4) [OF k fd(2)] by blast+
qed

text \<open>Closing a pair whose first source is a line-set file.\<close>

lemma close_file_pair:
  assumes s: "serving x T N ofd ix0 w0 F d ix out w" and l: "\<not> is_cache left" and r: "source_at True ir fr right w R"
    and F: "fr \<in> F" and k: "close_sources left right w = (rc, w')"
  shows "rc = 0 \<and> serving x T N ofd ix0 w0 (F - {fr}) d ix out w' \<and> w_data w' = w_data w
      \<and> (\<forall>y. fd_of w' y = (if y = fr then None else fd_of w y)) \<or> rc < 0 \<and> \<not> clean w0"
proof -
  obtain rd where rd: "ls_reader left = LineFile rd"
    using l by (cases "ls_reader left") (auto simp: is_cache_def)
  then obtain left' where k1: "line_number_source_close left w = (0, left', w)" by (auto simp: line_number_source_close_def)
  obtain r2 right2 w2 where k2: "line_number_source_close right w = (r2, right2, w2)" using prod_cases3 by blast
  note c = serving_source_close [OF s r _ k2]
  have res: "rc = (if r2 < 0 then -1 else 0) \<and> w' = w2" using k by (auto simp: close_sources_def k1 k2 split: if_splits)
  show ?thesis using c F res by auto
qed

text \<open>A line-set file holds the lines common to some words.\<close>

definition line_set :: "nat \<Rightarrow> byte list \<Rightarrow> world \<Rightarrow> int \<Rightarrow> nat list \<Rightarrow> bool" where
  "line_set x T w fd ks \<longleftrightarrow> (\<exists>f. fd_of w fd = Some f \<and> o_kind f = Regular \<and> o_ino f \<noteq> x
     \<and> w_data w (o_ino f) = concat (map enc_u32 (lines_all T ks)))"

lemma multi_stages_spec:
  assumes "serving x T N ofd ix0 w0 {cur} d ix out w" and "line_set x T w cur ks" and "ps \<noteq> []"
    and "\<forall>p\<in>set ps. cached ix (unat (fst p))"
  shows "wp (multi_stages ix ps cur out w)
     (multi_done x T N ofd ix0 w0 (d @ texts (lines_all T (ks @ map (\<lambda>p. unat (fst p)) ps)) @ [NEWLINE]))"
  using assms
proof (induction ps arbitrary: cur ks w)
  case (Cons a ps cur ks w)
  note s = Cons.prems(1)
  note T = indexed_small [OF serving_indexed [OF s]]
  let ?k = "unat (fst a)"
  obtain f where f: "fd_of w cur = Some f" "o_kind f = Regular" "o_ino f \<noteq> x"
    "w_data w (o_ino f) = concat (map enc_u32 (lines_all T ks))" using Cons.prems(2) by (auto simp: line_set_def)
  let ?i = "o_ino f"
  have c: "cached ix ?k" using Cons.prems(4) by simp
  have fail: "wp (Some (-1, ix', out', w')) (multi_done x T N ofd ix0 w0 d')" if "\<not> clean w0" for ix' out' w' d'
    using that by (simp add: multi_done_def)
  obtain r1 src w1 where o: "line_number_source_open_file cur w = (r1, src, w1)" using prod_cases3 by blast
  note o' = serving_open_file [OF s _ f(1,2) refl f(4) o]
  note unf = multi_stages.simps(2) o prod.case
  show ?case
  proof (cases src)
    case None
    then show ?thesis unfolding unf using o' fail by simp
  next
    case (Some left)
    then have s1: "serving x T N ofd ix0 w0 {cur} d ix out w1" and l1: "source_at False ?i cur left w1 (lines_all T ks)"
      using o' by simp_all
    obtain r2 ix2 rsrc w2 where p: "line_number_source_open_word ix (fst a) (snd a) w1 = Some (r2, ix2, rsrc, w2)"
      and p': "word_opened x T N ofd ix0 w0 {cur} d ix out w1 ?k (r2, ix2, rsrc, w2)"
      using serving_open_word [OF s1 c refl, of "snd a"] by (auto simp: wp_iff)
    have ix2: "ix2 = ix" using p' by (simp add: word_opened_def)
    note unf = unf Some option.case p bind.bind_lunit ix2
    show ?thesis
    proof (cases rsrc)
      case None
      then show ?thesis unfolding unf using p' fail by (simp add: word_opened_def split: prod.split)
    next
      case rs: (Some right)
      then obtain fr ir where fr: "fd_of w1 fr = None" and s2: "serving x T N ofd ix0 w0 {fr, cur} d ix out w2"
        and r2: "source_at True ir fr right w2 (word_lines T ?k)" and ir: "\<And>j. indexed j T N ix w1 \<Longrightarrow> ir \<noteq> j"
        and fo: "frame (open_scope w1 {} {}) w1 w2" using p' by (auto simp: word_opened_def)
      have irx: "ir \<noteq> x" using ir serving_indexed [OF s1] by blast
      have l2: "source_at False ?i cur left w2 (lines_all T ks)" by (rule source_at_opening [OF l1 fo serving_wfw [OF s1]])
      have ne: "cur \<noteq> fr" using source_at_open [OF l1] fr by auto
      note srt = sorted_lines_all [OF T] word_lines_eq(2) [OF T]
      note unf = unf rs
      show ?thesis
      proof (cases "ps = []")
        case True
        have "wp (intersect_line_sources_to_output left right out w2) (\<lambda>(r, left', right', out', n, w').
           r = 0 \<and> serving x T N ofd ix0 w0 {fr, cur} (d @ texts (lines_all T (ks @ [?k])) @ [NEWLINE]) ix out' w'
             \<and> both_at False cur ?i left' True fr ir right' w' \<or> r < 0 \<and> \<not> clean w0)"
          by (rule wp_mono [OF serving_to_output [OF s2 l2 r2 _ _ ne f(3) irx srt]]) (use common_lines_all [OF T] in auto)
        then obtain r3 left3 right3 out3 n w3 where u: "intersect_line_sources_to_output left right out w2 = Some (r3, left3, right3, out3, n, w3)"
          and u': "r3 = 0 \<and> serving x T N ofd ix0 w0 {fr, cur} (d @ texts (lines_all T (ks @ [?k])) @ [NEWLINE]) ix out3 w3
             \<and> both_at False cur ?i left3 True fr ir right3 w3 \<or> r3 < 0 \<and> \<not> clean w0" by (auto simp: wp_iff)
        obtain r4 w4 where k: "close_sources left3 right3 w3 = (r4, w4)" by force
        note unf = unf if_P [OF True] u k Let_def
        show ?thesis
        proof (cases "r3 < 0")
          case True
          then show ?thesis unfolding unf using u' fail by auto
        next
          case False
          then have s3: "serving x T N ofd ix0 w0 {fr, cur} (d @ texts (lines_all T (ks @ [?k])) @ [NEWLINE]) ix out3 w3"
            and b3: "both_at False cur ?i left3 True fr ir right3 w3" using u' by auto
          obtain L3 R3 where l3: "source_at False ?i cur left3 w3 L3" and rr3: "source_at True ir fr right3 w3 R3"
            using b3 by (auto simp: both_at_def)
          have nc: "\<not> is_cache left3" using l3 by (simp add: source_at_def)
          note cl = close_file_pair [OF s3 nc rr3 _ k]
          show ?thesis
          proof (cases "r4 < 0")
            case True
            then show ?thesis unfolding unf using cl fail by auto
          next
            case r4: False
            have F: "{fr, cur} - {fr} = {cur}" "{cur} - {cur} = {}" using ne by auto
            have s4: "serving x T N ofd ix0 w0 {cur} (d @ texts (lines_all T (ks @ [?k])) @ [NEWLINE]) ix out3 w4"
              and o4: "fd_of w4 cur \<noteq> None" using cl r4 ne source_at_open [OF l3] by (auto simp: F)
            show ?thesis unfolding unf using close_quietly_spec(1) [OF s4 _ o4] r4 False True by (simp add: F multi_done_def)
          qed
        qed
      next
        case ps: False
        obtain nfd w3 where t: "create_temp_file (bytes_of ''lineset'') w2 = (nfd, w3)" by force
        note t' = serving_temp [OF s2 t]
        note unf = unf if_not_P [OF ps] t
        show ?thesis
        proof (cases "nfd < 0")
          case True
          then have "\<not> clean w0" using t' by (auto simp: fresh_file_def)
          then show ?thesis unfolding unf using True fail by (simp split: prod.split)
        next
          case nfd: False
          then obtain ti where tf: "fd_of w3 nfd = Some \<lparr>o_ino = ti, o_off = 0, o_kind = Regular\<rparr>" "w_data w3 ti = []"
            and ti: "indexed ti T N ix w3" "w_nino w0 \<le> ti" "w_nino w2 \<le> ti" and s3: "serving x T N ofd ix0 w0 {nfd, fr, cur} d ix out w3"
            and fo3: "frame (open_scope w2 {} {}) w2 w3" and nf: "fd_of w2 nfd = None" using t' by (auto simp: fresh_file_def)
          have l3: "source_at False ?i cur left w3 (lines_all T ks)" by (rule source_at_opening [OF l2 fo3 serving_wfw [OF s2]])
          have r3: "source_at True ir fr right w3 (word_lines T ?k)" by (rule source_at_opening [OF r2 fo3 serving_wfw [OF s2]])
          have nn: "cur \<noteq> nfd" "fr \<noteq> nfd" using nf source_at_open [OF l2] source_at_open [OF r2] by auto
          have ii: "?i \<noteq> ti" "ir \<noteq> ti"
            using source_at_open [OF l2] source_at_open [OF r2] serving_wfw [OF s2] ti(3) by (fastforce simp: wfw_def)+
          have tx: "ti \<noteq> x" using ti(2) serving_indexed [OF s] s by (auto simp: serving_def indexed_def)
          have "wp (intersect_line_sources_to_file left right nfd w3) (\<lambda>(r, left', right', out', n, w').
             r = 0 \<and> serving x T N ofd ix0 w0 {nfd, fr, cur} d ix out w' \<and> both_at False cur ?i left' True fr ir right' w'
               \<and> n = of_nat (length (lines_all T (ks @ [?k]))) \<and> line_set x T w' nfd (ks @ [?k]) \<or> r < 0 \<and> \<not> clean w0)"
            by (rule wp_mono [OF serving_to_file [OF s3 l3 r3 _ _ _ ne nn ii srt tf ti(1,2)]])
              (use common_lines_all [OF T] tx in \<open>auto simp: line_set_def\<close>)
          then obtain r4 left4 right4 out4 n w4 where u: "intersect_line_sources_to_file left right nfd w3 = Some (r4, left4, right4, out4, n, w4)"
            and u': "r4 = 0 \<and> serving x T N ofd ix0 w0 {nfd, fr, cur} d ix out w4 \<and> both_at False cur ?i left4 True fr ir right4 w4
               \<and> n = of_nat (length (lines_all T (ks @ [?k]))) \<and> line_set x T w4 nfd (ks @ [?k]) \<or> r4 < 0 \<and> \<not> clean w0"
            by (auto simp: wp_iff)
          show ?thesis
          proof (cases "r4 < 0")
            case True
            then show ?thesis unfolding unf using nfd u u' fail by (simp add: Let_def split: prod.split)
          next
            case False
            then have r40: "r4 = 0" and s4: "serving x T N ofd ix0 w0 {nfd, fr, cur} d ix out w4"
              and b4: "both_at False cur ?i left4 True fr ir right4 w4" and n: "n = of_nat (length (lines_all T (ks @ [?k])))"
              and ls4: "line_set x T w4 nfd (ks @ [?k])" using u' by auto
            obtain L4 R4 where l4: "source_at False ?i cur left4 w4 L4" and rr4: "source_at True ir fr right4 w4 R4"
              using b4 by (auto simp: both_at_def)
            have nc: "\<not> is_cache left4" using l4 by (simp add: source_at_def)
            have oc: "fd_of w4 cur \<noteq> None" using source_at_open [OF l4] by auto
            let ?w5 = "close_quietly cur w4"
            have F: "{nfd, fr, cur} - {cur} = {nfd, fr}" "{nfd, fr} - {fr} = {nfd}" "{nfd} - {nfd} = {}" using ne nn by auto
            note q = close_quietly_spec [OF s4 _ oc, unfolded F]
            have s5: "serving x T N ofd ix0 w0 {nfd, fr} d ix out ?w5" by (rule q(1)) simp
            have rr5: "source_at True ir fr right4 ?w5 R4" by (rule source_at_same [OF rr4]) (use q(2,3) ne in simp_all)
            obtain r6 w6 where k: "close_sources left4 right4 ?w5 = (r6, w6)" by force
            note cl = close_file_pair [OF s5 nc rr5 _ k, unfolded F]
            note unf = unf if_not_P [OF nfd] u bind.bind_lunit prod.case Let_def if_P [OF r40] k
            show ?thesis
            proof (cases "r6 < 0")
              case True
              then show ?thesis unfolding unf using cl fail by auto
            next
              case r6: False
              then have s6: "serving x T N ofd ix0 w0 {nfd} d ix out w6" and d6: "w_data w6 = w_data w4"
                and f6: "fd_of w6 nfd = fd_of w4 nfd" using cl q(2,3) nn by auto
              have ls6: "line_set x T w6 nfd (ks @ [?k])" using ls4 d6 f6 by (simp add: line_set_def)
              have on: "fd_of w6 nfd \<noteq> None" using ls6 by (auto simp: line_set_def)
              show ?thesis
              proof (cases "n = 0")
                case True
                then have em: "lines_all T (ks @ [?k]) = []" using n count_zero [OF T] by simp
                then have "lines_all T (ks @ map (\<lambda>p. unat (fst p)) (a # ps)) = []"
                  using lines_all_more [OF em, of "map (\<lambda>p. unat (fst p)) ps"] by simp
                then have tx0: "d @ texts (lines_all T (ks @ map (\<lambda>p. unat (fst p)) (a # ps))) @ [NEWLINE] = d @ [NEWLINE]"
                  by (simp add: texts_def)
                have "serving x T N ofd ix0 w0 {} d ix out (close_quietly nfd w6)"
                  using close_quietly_spec(1) [OF s6 _ on] by (simp add: F)
                from blank_serving [OF this] show ?thesis
                  unfolding unf tx0 using r6 r40 True by simp
              next
                case n0: False
                have "wp (multi_stages ix ps nfd out w6) (multi_done x T N ofd ix0 w0
                   (d @ texts (lines_all T ((ks @ [?k]) @ map (\<lambda>p. unat (fst p)) ps)) @ [NEWLINE]))"
                  by (rule Cons.IH [OF s6 ls6 ps]) (use Cons.prems(4) in simp)
                then show ?thesis unfolding unf using r6 r40 n0 by simp
              qed
            qed
          qed
        qed
      qed
    qed
  qed
qed simp

lemma multi_many_spec:
  assumes s: "serving x T N ofd ix0 w0 {} d ix out w" and c: "cached ix (unat (fst a))" "cached ix (unat (fst b))"
    and ps: "ps \<noteq> []" "\<forall>p\<in>set ps. cached ix (unat (fst p))"
  shows "wp (multi_many ix a b ps out w)
     (multi_done x T N ofd ix0 w0 (d @ texts (lines_all T (map (\<lambda>p. unat (fst p)) (a # b # ps))) @ [NEWLINE]))"
proof -
  note T = indexed_small [OF serving_indexed [OF s]]
  let ?ka = "unat (fst a)" and ?kb = "unat (fst b)"
  have fail: "wp (Some (-1, ix', out', w')) (multi_done x T N ofd ix0 w0 d')" if "\<not> clean w0" for ix' out' w' d'
    using that by (simp add: multi_done_def)
  obtain cur w1 where t: "create_temp_file (bytes_of ''lineset'') w = (cur, w1)" by force
  note t' = serving_temp [OF s t]
  show ?thesis
  proof (cases "cur < 0")
    case True
    then have "\<not> clean w0" using t' by (auto simp: fresh_file_def)
    then show ?thesis using True fail by (simp add: multi_many_def t)
  next
    case cur: False
    then obtain ti where tf: "fd_of w1 cur = Some \<lparr>o_ino = ti, o_off = 0, o_kind = Regular\<rparr>" "w_data w1 ti = []"
      and ti: "indexed ti T N ix w1" "w_nino w0 \<le> ti" and s1: "serving x T N ofd ix0 w0 {cur} d ix out w1"
      using t' by (auto simp: fresh_file_def)
    have tx: "ti \<noteq> x" using ti(2) s by (auto simp: serving_def indexed_def)
    obtain srcs ix2 w2 where o: "open_pair ix a b w1 = Some (srcs, ix2, w2)"
      and o': "pair_opened x T N ofd ix0 w0 {cur} d ix out w1 ?ka ?kb (srcs, ix2, w2)"
      using serving_open_pair [OF s1 c(1) refl c(2) refl] by (auto simp: wp_iff)
    have ix2: "ix2 = ix" using o' by (simp add: pair_opened_def)
    note unf = multi_many_def t prod.case if_not_P [OF cur] o bind.bind_lunit ix2
    show ?thesis
    proof (cases srcs)
      case None
      then show ?thesis unfolding unf using o' fail by (simp add: pair_opened_def)
    next
      case (Some lr)
      obtain left right where lr: "lr = (left, right)" by (cases lr)
      then obtain fl il fr ir where ne: "fl \<noteq> fr" and nf: "fd_of w1 fl = None" "fd_of w1 fr = None"
        and s2: "serving x T N ofd ix0 w0 {fr, fl, cur} d ix out w2"
        and l2: "source_at True il fl left w2 (word_lines T ?ka)" and r2: "source_at True ir fr right w2 (word_lines T ?kb)"
        and i: "\<And>j. indexed j T N ix w1 \<Longrightarrow> il \<noteq> j \<and> ir \<noteq> j" and fo: "frame (open_scope w1 {} {}) w1 w2" and nm: "w_names w2 = w_names w1"
        using o' Some by (auto simp: pair_opened_def)
      have nc: "fl \<noteq> cur" "fr \<noteq> cur" using nf tf(1) by auto
      have ii: "il \<noteq> ti" "ir \<noteq> ti" using i [OF ti(1)] by auto
      have f2: "fd_of w2 cur = Some \<lparr>o_ino = ti, o_off = 0, o_kind = Regular\<rparr>"
        using frame_fd [OF fo, of cur] tf(1) by simp
      have "ti < w_nino w1" using serving_wfw [OF s1] tf(1) by (fastforce simp: wfw_def)
      then have d2: "w_data w2 ti = []" using frame_data [OF fo, of ti] tf(2) by simp
      have ti2: "indexed ti T N ix w2" by (rule indexed_opening [OF ti(1) fo nm])
      note srt = word_lines_eq(2) [OF T]
      have "wp (intersect_line_sources_to_file left right cur w2) (\<lambda>(r, left', right', out', n, w').
         r = 0 \<and> serving x T N ofd ix0 w0 {fr, fl, cur} d ix out w' \<and> both_at True fl il left' True fr ir right' w'
           \<and> n = of_nat (length (lines_all T [?ka, ?kb])) \<and> line_set x T w' cur [?ka, ?kb] \<or> r < 0 \<and> \<not> clean w0)"
        by (rule wp_mono [OF serving_to_file [OF s2 l2 r2 _ _ _ ne nc ii srt srt f2 d2 ti2 ti(2)]])
          (use common_lines_all [OF T, of "[?ka]" ?kb] word_lines_all [OF T] tx in \<open>auto simp: line_set_def\<close>)
      then obtain r3 left3 right3 out3 n w3 where u: "intersect_line_sources_to_file left right cur w2 = Some (r3, left3, right3, out3, n, w3)"
        and u': "r3 = 0 \<and> serving x T N ofd ix0 w0 {fr, fl, cur} d ix out w3 \<and> both_at True fl il left3 True fr ir right3 w3
           \<and> n = of_nat (length (lines_all T [?ka, ?kb])) \<and> line_set x T w3 cur [?ka, ?kb] \<or> r3 < 0 \<and> \<not> clean w0"
        by (auto simp: wp_iff)
      obtain r4 w4 where k: "close_sources left3 right3 w3 = (r4, w4)" by force
      note unf = unf Some lr option.case u k
      show ?thesis
      proof (cases "r3 < 0")
        case True
        then show ?thesis unfolding unf using u' fail by auto
      next
        case r3: False
        then have s3: "serving x T N ofd ix0 w0 {fr, fl, cur} d ix out w3" and b3: "both_at True fl il left3 True fr ir right3 w3"
          and n: "n = of_nat (length (lines_all T [?ka, ?kb]))" and ls3: "line_set x T w3 cur [?ka, ?kb]" using u' by auto
        have F: "{fr, fl, cur} - (if True then {fl} else {}) - {fr} = {cur}" "{cur} - {cur} = {}" using ne nc by auto
        note cl = serving_close_sources [OF s3 b3 _ _ ne k, unfolded F]
        show ?thesis
        proof (cases "r4 < 0")
          case True
          then show ?thesis unfolding unf using cl fail by auto
        next
          case r4: False
          then have s4: "serving x T N ofd ix0 w0 {cur} d ix out w4" and ls4: "line_set x T w4 cur [?ka, ?kb]"
            using cl ls3 nc by (auto simp: line_set_def)
          have oc: "fd_of w4 cur \<noteq> None" using ls4 by (auto simp: line_set_def)
          show ?thesis
          proof (cases "n = 0")
            case True
            then have em: "lines_all T [?ka, ?kb] = []" using n count_zero [OF T] by simp
            then have "lines_all T (map (\<lambda>p. unat (fst p)) (a # b # ps)) = []"
              using lines_all_more [OF em, of "map (\<lambda>p. unat (fst p)) ps"] by simp
            then have tx0: "d @ texts (lines_all T (map (\<lambda>p. unat (fst p)) (a # b # ps))) @ [NEWLINE] = d @ [NEWLINE]"
              by (simp add: texts_def)
            have "serving x T N ofd ix0 w0 {} d ix out (close_quietly cur w4)"
              using close_quietly_spec(1) [OF s4 _ oc] by (simp add: F)
            from blank_serving [OF this] show ?thesis unfolding unf tx0 using r3 r4 True u' by auto
          next
            case n0: False
            have "wp (multi_stages ix ps cur out w4) (multi_done x T N ofd ix0 w0
               (d @ texts (lines_all T ([?ka, ?kb] @ map (\<lambda>p. unat (fst p)) ps)) @ [NEWLINE]))"
              by (rule multi_stages_spec [OF s4 ls4 ps])
            then show ?thesis unfolding unf using r3 r4 n0 u' by auto
          qed
        qed
      qed
    qed
  qed
qed

section \<open>The handler\<close>

definition multi_text :: "byte list \<Rightarrow> byte list list \<Rightarrow> byte list" where
  "multi_text T qs = (if qs = [] then [] else multi_answer T qs)"

lemma answered_multi: "multi_done x T N (ob_fd out) ix w (sink out w @ t) res = answered x T N ix out w t res"
  by (cases res) (simp add: multi_done_def answered_def)

lemma handle_multi_spec:
  assumes ix: "indexed x T N ix w" and so: "sink_ok x out w" and len: "length q \<le> QUERY_LIMIT"
  shows "wp (handle_multi ix q out w) (answered x T N ix out w (multi_text T (query_words q) @ [NEWLINE]))"
  using ix len
proof (cases rule: collect_query_words_spec)
  case (missing ids bs v)
  then have "multi_text T (query_words q) = []" by (simp add: multi_text_def multi_answer_missing)
  then show ?thesis using missing(1) blank_answered [OF ix so] by (simp add: handle_multi_def)
next
  case (all ids bs)
  note T = indexed_small [OF ix] and s0 = serving_start [OF ix so]
  have l: "length bs = length ids" using all(2) by (simp add: chosen_def)
  show ?thesis
  proof (cases "ids = []")
    case True
    then have "query_words q = []" using all(2) by (cases "query_words q") (auto simp: chosen_def)
    then show ?thesis using all(1) True blank_answered [OF ix so] by (simp add: handle_multi_def multi_text_def)
  next
    case False
    then have qs: "query_words q \<noteq> []" using all(2) l by (cases ids; cases bs) (auto simp: chosen_def)
    have ef: "\<forall>p\<in>set (zip ids bs). entry_found T p" using all(2) by (fastforce simp: chosen_def entry_found_def)
    obtain r1 ix1 w1 where e: "ensure_all ix (zip ids bs) w = Some (r1, ix1, w1)"
      and e': "r1 = 0 \<and> serving x T N (ob_fd out) ix w {} (sink out w) ix1 out w1 \<and> grown ix ix1
        \<and> (\<forall>p\<in>set (zip ids bs). cached ix1 (unat (fst p))) \<or> r1 < 0 \<and> \<not> clean w"
      using ensure_all_spec [OF s0 ef] by (rule wpE3)
    show ?thesis
    proof (cases "r1 < 0")
      case True
      then show ?thesis using e e' all(1) False by (auto simp: handle_multi_def answered_def)
    next
      case r1: False
      then have s1: "serving x T N (ob_fd out) ix w {} (sink out w) ix1 out w1"
        and ca: "\<And>p. p \<in> set (zip ids bs) \<Longrightarrow> cached ix1 (unat (fst p))" using e' by auto
      have "cache_count_of ix1 v \<noteq> None" if v: "v \<in> set ids" for v
      proof -
        obtain b where "(v, b) \<in> set (zip ids bs)" using v l by (metis in_set_impl_in_set_zip1)
        then show ?thesis using ca cached_count by fastforce
      qed
      from sort_query_words_spec [OF l this] obtain ids' bs' where so': "sort_query_words_by_cache_size ix1 ids bs = Some (ids', bs')"
        and le: "length ids' = length ids" "length bs' = length ids" and m: "mset (zip ids' bs') = mset (zip ids bs)" by blast
      have sz: "set (zip ids' bs') = set (zip ids bs)" using m by (rule mset_eq_setD)
      then have ca': "\<And>p. p \<in> set (zip ids' bs') \<Longrightarrow> cached ix1 (unat (fst p))" using ca by simp
      have tx0: "multi_text T (query_words q) = texts (lines_all T (map (\<lambda>p. unat (fst p)) (zip ids' bs')))"
        using multi_answer_chosen [OF all(2) T sz] qs by (simp add: multi_text_def)
      have unf: "handle_multi ix q out w = (case zip ids' bs' of
           [a] \<Rightarrow> multi_one ix1 (fst a) (snd a) out w1
         | [a, b] \<Rightarrow> multi_two ix1 a b out w1
         | a # b # rest \<Rightarrow> multi_many ix1 a b rest out w1
         | [] \<Rightarrow> None)"
        using all(1) False e r1 so' by (simp add: handle_multi_def)
      have ne: "zip ids' bs' \<noteq> []" using le False l by (cases ids'; cases bs') auto
      have "wp (handle_multi ix q out w) (multi_done x T N (ob_fd out) ix w
          (sink out w @ texts (lines_all T (map (\<lambda>p. unat (fst p)) (zip ids' bs'))) @ [NEWLINE]))"
      proof (cases "zip ids' bs'")
        case (Cons a rest)
        note za = Cons
        show ?thesis
        proof (cases rest)
          case Nil
          then show ?thesis unfolding unf using multi_one_spec [OF s1, of "fst a" "snd a"] ca' za by simp
        next
          case (Cons b ps)
          show ?thesis
          proof (cases "ps = []")
            case True
            then show ?thesis unfolding unf using multi_two_spec [OF s1, of a b] ca' za Cons by simp
          next
            case False
            then obtain p ps' where ps: "ps = p # ps'" by (cases ps) simp_all
            then show ?thesis unfolding unf using multi_many_spec [OF s1, of a b ps] ca' za Cons False by simp
          qed
        qed
      qed (use ne in simp)
      then show ?thesis unfolding tx0 answered_multi [symmetric] by simp
    qed
  qed
qed

end
