(* ===== verification/Pa1_Pattern.thy ===== *)
theory Pa1_Pattern
  imports Pa1_Multi
begin

text \<open>
  \<open>handle_pattern\<close>: two readers run in parallel over the occurrences of the two words, one line
  group at a time; a line is printed when the first occurrence of the left word lies before the
  last occurrence of the right word. This is shown to be the list of lines that contain both
  words in this order.
\<close>

section \<open>The order of the records of a word\<close>

definition before :: "occ_record \<Rightarrow> occ_record \<Rightarrow> bool" where
  "before a b \<longleftrightarrow> oc_line a < oc_line b \<or> oc_line a = oc_line b \<and> oc_start a < oc_start b"

lemma sorted_word_spans:
  "sorted_wrt (<) (map fst (word_spans off s))"
proof (induction off s rule: word_spans.induct)
  case (1 off s)
  let ?t = "dropWhile is_word_sep s"
  let ?k = "off + (length s - length ?t)" and ?x = "takeWhile (\<lambda>c. \<not> is_word_sep c) ?t"
  have ws: "word_spans off s = (if ?t = [] then [] else (?k, ?x) # word_spans (?k + length ?x) (drop (length ?x) ?t))"
    unfolding word_spans.simps [of off s] Let_def ..
  show ?case
  proof (cases "?t = []")
    case True
    then show ?thesis unfolding ws by simp
  next
    case False
    have "?k < n" if "n \<in> set (map fst (word_spans (?k + length ?x) (drop (length ?x) ?t)))" for n
    proof -
      have "0 < length ?x" using word_nonempty [OF False] by simp
      moreover have "?k + length ?x \<le> n" using that word_spans_nth by fastforce
      ultimately show ?thesis by linarith
    qed
    then show ?thesis unfolding ws if_not_P [OF False] using 1 [OF refl refl refl False] by simp
  qed
qed

lemma sorted_occs_pos:
  "sorted_wrt (\<lambda>a b. fst (snd a) < fst (snd b) \<or> fst (snd a) = fst (snd b) \<and> snd (snd a) < snd (snd b)) (occs_from n ls)"
proof (induction ls arbitrary: n)
  case (Cons l ls)
  have "sorted_wrt (\<lambda>a b. fst a < fst b) (word_spans 0 l)" using sorted_word_spans by (simp add: sorted_wrt_map)
  then have "sorted_wrt (\<lambda>a b. fst (snd a) < fst (snd b) \<or> fst (snd a) = fst (snd b) \<and> snd (snd a) < snd (snd b)) (line_occs n l)"
    by (simp add: line_occs_def sorted_wrt_map case_prod_beta)
  moreover have "Suc n \<le> fst (snd oc)" if "oc \<in> set (occs_from (Suc n) ls)" for oc
    using that set_occs_from [of "fst oc" "fst (snd oc)" "snd (snd oc)" "Suc n" ls] by simp
  moreover have "fst (snd oc) = n" if "oc \<in> set (line_occs n l)" for oc
    using that set_line_occs [of "fst oc" "fst (snd oc)" "snd (snd oc)" n l] by simp
  ultimately show ?case using Cons by (fastforce simp: sorted_wrt_append)
qed simp

lemma sorted_word_recs:
  assumes T: "length T < 2 ^ 32"
  shows "sorted_wrt before (word_recs T k)"
proof -
  let ?R = "\<lambda>a b. fst (snd a) < fst (snd b) \<or> fst (snd a) = fst (snd b) \<and> snd (snd a) < snd (snd b)"
  let ?ocs = "filter (\<lambda>oc. fst oc = words_of (occs_of T) ! k) (occs_of T)"
  have "sorted_wrt ?R ?ocs" unfolding occs_of_def by (rule sorted_wrt_filter [OF sorted_occs_pos])
  then have "sorted_wrt (\<lambda>a b. before (record_of (words_of (occs_of T)) a) (record_of (words_of (occs_of T)) b)) ?ocs"
  proof (rule sorted_wrt_mono_rel [rotated])
    fix a b assume ab: "a \<in> set ?ocs" "b \<in> set ?ocs" "?R a b"
    then have "a \<in> set (occs_of T)" "b \<in> set (occs_of T)" by simp_all
    note sm = occ_small [OF this(1) T] occ_small [OF this(2) T]
    show "before (record_of (words_of (occs_of T)) a) (record_of (words_of (occs_of T)) b)"
      using ab(3) sm by (auto simp: before_def record_of_def word_less_nat_alt unat_u32)
  qed
  then show ?thesis by (simp add: word_recs_def sorted_wrt_map)
qed

section \<open>The merge of two groups of records\<close>

definition same_line :: "u32 \<Rightarrow> occ_record \<Rightarrow> bool" where
  "same_line n rc \<longleftrightarrow> oc_line rc = n"

lemma length_drop_line: "length (dropWhile (same_line (oc_line a)) (a # xs)) < length (a # xs)"
  using length_dropWhile_le [of "same_line (oc_line a)" xs] by (simp add: same_line_def)

function pattern_lines :: "occ_record list \<Rightarrow> occ_record list \<Rightarrow> u32 list" where
  "pattern_lines (a # xs) (b # ys) =
     (if oc_line a < oc_line b then pattern_lines (dropWhile (same_line (oc_line a)) (a # xs)) (b # ys)
      else if oc_line b < oc_line a then pattern_lines (a # xs) (dropWhile (same_line (oc_line b)) (b # ys))
      else (if oc_start a < oc_start (last (takeWhile (same_line (oc_line b)) (b # ys))) then [oc_line a] else [])
        @ pattern_lines (dropWhile (same_line (oc_line a)) (a # xs)) (dropWhile (same_line (oc_line b)) (b # ys)))"
| "pattern_lines [] ys = []"
| "pattern_lines xs [] = []"
  by pat_completeness auto

termination
proof (relation "measure (\<lambda>(xs, ys). length xs + length ys)", goal_cases)
  case (2 a xs b ys)
  show ?case unfolding in_measure prod.case using length_drop_line [of a xs] by linarith
next
  case (3 a xs b ys)
  show ?case unfolding in_measure prod.case using length_drop_line [of b ys] by linarith
next
  case (4 a xs b ys)
  show ?case unfolding in_measure prod.case using length_drop_line [of a xs] length_drop_line [of b ys] by linarith
qed simp

declare pattern_lines.simps(1) [simp del]

text \<open>In an ordered list the records of the first line come first, the rest lie on later lines.\<close>

lemma line_group:
  assumes s: "sorted_wrt before (a # xs)"
  shows "\<And>r. r \<in> set (takeWhile (same_line (oc_line a)) (a # xs)) \<longleftrightarrow> r \<in> set (a # xs) \<and> oc_line r = oc_line a"
    and "\<And>r. r \<in> set (dropWhile (same_line (oc_line a)) (a # xs)) \<longleftrightarrow> r \<in> set (a # xs) \<and> oc_line a < oc_line r"
    and "sorted_wrt before (dropWhile (same_line (oc_line a)) (a # xs))"
    and "\<And>r. r \<in> set (takeWhile (same_line (oc_line a)) (a # xs)) \<Longrightarrow> oc_start a \<le> oc_start r"
    and "\<And>r. r \<in> set (takeWhile (same_line (oc_line a)) (a # xs))
      \<Longrightarrow> oc_start r \<le> oc_start (last (takeWhile (same_line (oc_line a)) (a # xs)))"
proof -
  let ?P = "same_line (oc_line a)"
  let ?A = "takeWhile ?P (a # xs)" and ?B = "dropWhile ?P (a # xs)"
  have ab: "a # xs = ?A @ ?B" by (rule takeWhile_dropWhile_id [symmetric])
  have sAB: "sorted_wrt before (?A @ ?B)" using s by (simp only: takeWhile_dropWhile_id)
  then have sA: "sorted_wrt before ?A" and sB: "sorted_wrt before ?B" by (simp_all only: sorted_wrt_append)
  have A: "oc_line r = oc_line a" if "r \<in> set ?A" for r using set_takeWhileD [OF that] by (simp add: same_line_def)
  have ge: "oc_line a \<le> oc_line r" if "r \<in> set (a # xs)" for r
    using s that by (auto simp: before_def)
  have B: "oc_line a < oc_line r" if r: "r \<in> set ?B" for r
  proof -
    obtain b bs where b: "?B = b # bs" using r by (cases ?B) simp_all
    have "\<not> ?P b" using hd_dropWhile [of ?P "a # xs"] b by simp
    moreover have "b \<in> set ?B" using b by simp
    then have "b \<in> set (a # xs)" by (rule set_dropWhileD)
    ultimately have "oc_line a < oc_line b" using ge by (simp add: same_line_def order.strict_iff_order eq_commute)
    moreover have "oc_line b \<le> oc_line r" using r sB unfolding b by (auto simp: before_def)
    ultimately show ?thesis by simp
  qed
  show "r \<in> set ?A \<longleftrightarrow> r \<in> set (a # xs) \<and> oc_line r = oc_line a" for r
    using A B ab by (metis Un_iff less_irrefl set_append)
  show "r \<in> set ?B \<longleftrightarrow> r \<in> set (a # xs) \<and> oc_line a < oc_line r" for r
    using A B ab by (metis Un_iff less_irrefl set_append)
  show "sorted_wrt before ?B" by (rule sB)
  show "oc_start a \<le> oc_start r" if "r \<in> set ?A" for r
  proof -
    have "r \<in> set (a # xs)" "oc_line r = oc_line a" using A [OF that] set_takeWhileD [OF that] by blast+
    then show ?thesis using s by (auto simp: before_def)
  qed
  show "oc_start r \<le> oc_start (last ?A)" if r: "r \<in> set ?A" for r
  proof -
    have ne: "?A \<noteq> []" using r by force
    then have "?A = butlast ?A @ [last ?A]" by simp
    then have "r = last ?A \<or> r \<in> set (butlast ?A)" using r by (metis UnE append.right_neutral empty_iff insert_iff list.set set_append)
    moreover have "before r (last ?A)" if "r \<in> set (butlast ?A)"
    proof -
      have "sorted_wrt before (butlast ?A @ [last ?A])" using sA unfolding append_butlast_last_id [OF ne] .
      then show ?thesis using that by (simp add: sorted_wrt_append)
    qed
    moreover have "oc_line r = oc_line (last ?A)" using A [OF r] A [OF last_in_set [OF ne]] by simp
    ultimately show ?thesis by (auto simp: before_def)
  qed
qed

lemma guarded_mem: "v \<notin> set P \<Longrightarrow> v \<in> set ((if c then [v] else []) @ P) \<longleftrightarrow> c"
  by simp

lemma pattern_lines_spec:
  assumes "sorted_wrt before xs" and "sorted_wrt before ys"
  shows "sorted_wrt (<) (pattern_lines xs ys) \<and> set (pattern_lines xs ys)
    = {n. \<exists>a\<in>set xs. \<exists>b\<in>set ys. oc_line a = n \<and> oc_line b = n \<and> oc_start a < oc_start b}"
  using assms
proof (induction xs ys rule: pattern_lines.induct)
  case (1 a xs b ys)
  note sx = 1(4) and sy = 1(5)
  note gx = line_group [OF sx] and gy = line_group [OF sy]
  let ?A = "dropWhile (same_line (oc_line a)) (a # xs)" and ?B = "dropWhile (same_line (oc_line b)) (b # ys)"
  have lx: "r \<in> set (a # xs) \<Longrightarrow> oc_line a \<le> oc_line r" for r using sx by (auto simp: before_def)
  have ly: "r \<in> set (b # ys) \<Longrightarrow> oc_line b \<le> oc_line r" for r using sy by (auto simp: before_def)
  consider "oc_line a < oc_line b" | "oc_line b < oc_line a" | "oc_line a = oc_line b" by (metis less_linear)
  then show ?case
  proof cases
    case c: 1
    then have unf: "pattern_lines (a # xs) (b # ys) = pattern_lines ?A (b # ys)" by (simp add: pattern_lines.simps(1) [of a xs b ys])
    have "(\<exists>r\<in>set (a # xs). \<exists>s\<in>set (b # ys). oc_line r = n \<and> oc_line s = n \<and> oc_start r < oc_start s)
        \<longleftrightarrow> (\<exists>r\<in>set ?A. \<exists>s\<in>set (b # ys). oc_line r = n \<and> oc_line s = n \<and> oc_start r < oc_start s)" for n
      unfolding gx(2) Bex_def using c ly lx by (metis less_le_trans)
    then show ?thesis unfolding unf using 1(1) [OF c gx(3) sy] by simp
  next
    case c: 2
    then have nc: "\<not> oc_line a < oc_line b" by simp
    then have unf: "pattern_lines (a # xs) (b # ys) = pattern_lines (a # xs) ?B" using c by (simp add: pattern_lines.simps(1) [of a xs b ys])
    have "(\<exists>r\<in>set (a # xs). \<exists>s\<in>set (b # ys). oc_line r = n \<and> oc_line s = n \<and> oc_start r < oc_start s)
        \<longleftrightarrow> (\<exists>r\<in>set (a # xs). \<exists>s\<in>set ?B. oc_line r = n \<and> oc_line s = n \<and> oc_start r < oc_start s)" for n
      unfolding gy(2) Bex_def using c ly lx by (metis less_le_trans)
    then show ?thesis unfolding unf using 1(2) [OF nc c sx gy(3)] by simp
  next
    case c: 3
    let ?l = "last (takeWhile (same_line (oc_line b)) (b # ys))"
    have unf: "pattern_lines (a # xs) (b # ys) = (if oc_start a < oc_start ?l then [oc_line a] else []) @ pattern_lines ?A ?B"
      using c by (simp add: pattern_lines.simps(1) [of a xs b ys])
    have nc: "\<not> oc_line a < oc_line b" "\<not> oc_line b < oc_line a" using c by simp_all
    note ih = 1(3) [OF nc gx(3) gy(3)]
    have l: "?l \<in> set (takeWhile (same_line (oc_line b)) (b # ys))" by (rule last_in_set) (simp add: same_line_def)
    have first: "(\<exists>r\<in>set (a # xs). \<exists>s\<in>set (b # ys). oc_line r = oc_line a \<and> oc_line s = oc_line a \<and> oc_start r < oc_start s)
        \<longleftrightarrow> oc_start a < oc_start ?l"
    proof
      assume "\<exists>r\<in>set (a # xs). \<exists>s\<in>set (b # ys). oc_line r = oc_line a \<and> oc_line s = oc_line a \<and> oc_start r < oc_start s"
      then obtain r s where "r \<in> set (takeWhile (same_line (oc_line a)) (a # xs))" "s \<in> set (takeWhile (same_line (oc_line b)) (b # ys))"
        "oc_start r < oc_start s" using gx(1) gy(1) c by metis
      then show "oc_start a < oc_start ?l" using gx(4) gy(5) by (meson le_less_trans less_le_trans)
    next
      assume "oc_start a < oc_start ?l"
      moreover have "?l \<in> set (b # ys)" "oc_line ?l = oc_line a" using gy(1) l c by metis+
      ultimately show "\<exists>r\<in>set (a # xs). \<exists>s\<in>set (b # ys). oc_line r = oc_line a \<and> oc_line s = oc_line a \<and> oc_start r < oc_start s"
        by (metis list.set_intros(1))
    qed
    have other: "(\<exists>r\<in>set (a # xs). \<exists>s\<in>set (b # ys). oc_line r = n \<and> oc_line s = n \<and> oc_start r < oc_start s)
        \<longleftrightarrow> (\<exists>r\<in>set ?A. \<exists>s\<in>set ?B. oc_line r = n \<and> oc_line s = n \<and> oc_start r < oc_start s)" if "n \<noteq> oc_line a" for n
      unfolding gx(2) gy(2) Bex_def using that c lx ly by (metis order.not_eq_order_implies_strict)
    have later: "oc_line a < n" if "n \<in> set (pattern_lines ?A ?B)" for n
      using that ih gx(2) by auto
    have "set (pattern_lines (a # xs) (b # ys))
        = {n. \<exists>r\<in>set (a # xs). \<exists>s\<in>set (b # ys). oc_line r = n \<and> oc_line s = n \<and> oc_start r < oc_start s}"
    proof (rule set_eqI)
      fix n
      show "n \<in> set (pattern_lines (a # xs) (b # ys)) \<longleftrightarrow> n \<in> {n. \<exists>r\<in>set (a # xs). \<exists>s\<in>set (b # ys).
          oc_line r = n \<and> oc_line s = n \<and> oc_start r < oc_start s}"
      proof (cases "n = oc_line a")
        case True
        have "oc_line a \<notin> set (pattern_lines ?A ?B)" using later by (metis less_irrefl)
        then have "oc_line a \<in> set (pattern_lines (a # xs) (b # ys)) \<longleftrightarrow> oc_start a < oc_start ?l"
          unfolding unf by (rule guarded_mem)
        then show ?thesis unfolding mem_Collect_eq True first .
      next
        case False
        then have "n \<in> set (pattern_lines (a # xs) (b # ys)) \<longleftrightarrow> n \<in> set (pattern_lines ?A ?B)" unfolding unf by simp
        then show ?thesis unfolding mem_Collect_eq other [OF False] using ih by auto
      qed
    qed
    moreover have "sorted_wrt (<) (pattern_lines (a # xs) (b # ys))" unfolding unf using ih later by (simp add: sorted_wrt_append)
    ultimately show ?thesis by simp
  qed
qed simp_all

lemma pattern_lines_words:
  assumes T: "length T < 2 ^ 32"
  shows "pattern_lines (word_recs T ka) (word_recs T kb)
    = map of_nat (lines_where T (in_order T (words_of (occs_of T) ! ka) (words_of (occs_of T) ! kb)))"
proof -
  let ?W = "words_of (occs_of T)"
  note p = pattern_lines_spec [OF sorted_word_recs [OF T] sorted_word_recs [OF T], of ka kb]
  have rec: "rc \<in> set (word_recs T k) \<longleftrightarrow> (\<exists>n s. (?W ! k, n, s) \<in> set (occs_of T) \<and> rc = record_of ?W (?W ! k, n, s))" for rc k
    unfolding word_recs_def set_map set_filter image_iff by (metis (mono_tags, lifting) fst_conv mem_Collect_eq prod.exhaust)
  have line: "oc_line (record_of ?W (q, n, s)) = of_nat n" and start: "oc_start (record_of ?W (q, n, s)) = of_nat s" for q n s
    by (simp_all add: record_of_def)
  have ord: "in_order T l r n \<longleftrightarrow> (\<exists>s t. (l, n, s) \<in> set (occs_of T) \<and> (r, n, t) \<in> set (occs_of T) \<and> s < t)" for l r n
    by (force simp: in_order_def list_ex_iff)
  have lt: "(of_nat s :: u32) < of_nat t \<longleftrightarrow> s < t"
    if "(q, n, s) \<in> set (occs_of T)" "(q', n', t) \<in> set (occs_of T)" for q n s q' n' t
    using occ_small(5) [OF that(1) T] occ_small(5) [OF that(2) T] by (simp add: word_less_nat_alt unat_u32)
  have eq: "(of_nat n :: u32) = of_nat n' \<longleftrightarrow> n = n'"
    if "(q, n, s) \<in> set (occs_of T)" "(q', n', t) \<in> set (occs_of T)" for q n s q' n' t
    using occ_small(3) [OF that(1) T] occ_small(3) [OF that(2) T] by (simp add: u32_eq)
  have "set (pattern_lines (word_recs T ka) (word_recs T kb)) = of_nat ` set (lines_where T (in_order T (?W ! ka) (?W ! kb)))"
  proof (intro set_eqI iffI)
    fix v assume "v \<in> set (pattern_lines (word_recs T ka) (word_recs T kb))"
    then obtain a b where ab: "a \<in> set (word_recs T ka)" "b \<in> set (word_recs T kb)" "oc_line a = v" "oc_line b = v" "oc_start a < oc_start b"
      using p by auto
    then obtain n s n' t where o: "(?W ! ka, n, s) \<in> set (occs_of T)" "a = record_of ?W (?W ! ka, n, s)"
      "(?W ! kb, n', t) \<in> set (occs_of T)" "b = record_of ?W (?W ! kb, n', t)" unfolding rec by blast
    have v: "v = of_nat n" "n' = n" "s < t"
      using ab(3-5) eq [OF o(1,3)] lt [OF o(1,3)] unfolding o(2,4) line start by metis+
    have "n \<in> set (lines_where T (in_order T (?W ! ka) (?W ! kb)))"
      using occ_small(1,2) [OF o(1) T] o(1,3) v ord by (auto simp: lines_where_def simp del: upt_Suc)
    then show "v \<in> of_nat ` set (lines_where T (in_order T (?W ! ka) (?W ! kb)))" using v(1) by blast
  next
    fix v :: u32 assume "v \<in> of_nat ` set (lines_where T (in_order T (?W ! ka) (?W ! kb)))"
    then obtain n s t where v: "v = of_nat n" and o: "(?W ! ka, n, s) \<in> set (occs_of T)" "(?W ! kb, n, t) \<in> set (occs_of T)" and st: "s < t"
      by (auto simp: lines_where_def ord)
    have "record_of ?W (?W ! ka, n, s) \<in> set (word_recs T ka)" "record_of ?W (?W ! kb, n, t) \<in> set (word_recs T kb)"
      using o unfolding rec by blast+
    moreover have "oc_start (record_of ?W (?W ! ka, n, s)) < oc_start (record_of ?W (?W ! kb, n, t))"
      unfolding start using lt [OF o] st by simp
    ultimately show "v \<in> set (pattern_lines (word_recs T ka) (word_recs T kb))" using p v line by blast
  qed
  then show ?thesis using strict_sorted_equal [OF conjunct1 [OF p] strict_lines_where [OF T]] by simp
qed

section \<open>Readers in use\<close>

definition held :: "int \<Rightarrow> nat \<Rightarrow> occurrence_reader \<Rightarrow> world \<Rightarrow> occ_record list \<Rightarrow> bool" where
  "held fd i rd w xs \<longleftrightarrow> rr_fd rd = fd \<and> (rr_has rd \<and> (\<exists>ys. xs = rr_current rd # ys \<and> reader_at enc_occ i rd w ys)
     \<or> \<not> rr_has rd \<and> xs = [] \<and> reader_at enc_occ i rd w [])"

lemma held_reader: "held fd i rd w xs \<Longrightarrow> rr_fd rd = fd \<and> (\<exists>ys. reader_at enc_occ i rd w ys)"
  by (auto simp: held_def)

lemma held_frame:
  assumes "held fd i rd w xs" and "frame s w w'" and "wfw w" and "fd \<in> sc_fds s" and "fd \<notin> sc_move s" and "i \<notin> sc_write s"
  shows "held fd i rd w' xs"
  using assms(1) reader_at_frame [OF _ assms(2,3), of enc_occ i rd] assms(4-6) by (auto simp: held_def)

lemma skip_line_group_spec:
  assumes "held fd i rd w xs"
  shows "wp (skip_line_group rd n l w) (\<lambda>(r, rd', l', w'). frame (rd_scope fd) w w'
     \<and> (r = 0 \<and> held fd i rd' w' (dropWhile (same_line n) xs)
          \<and> l' = (if takeWhile (same_line n) xs = [] then l else oc_start (last (takeWhile (same_line n) xs)))
        \<or> r = -1 \<and> \<not> clean w))"
  using assms
proof (induction xs arbitrary: rd w l)
  case Nil
  then show ?case by (subst skip_line_group.simps) (auto simp: held_def)
next
  case (Cons x xs)
  have h: "rr_has rd" "rr_current rd = x" "reader_at enc_occ i rd w xs" "rr_fd rd = fd" using Cons.prems by (auto simp: held_def)
  show ?case
  proof (cases "oc_line x = n")
    case False
    then show ?thesis using h Cons.prems by (subst skip_line_group.simps) (simp add: same_line_def)
  next
    case True
    obtain st rd1 w1 where n: "occurrence_reader_next rd w = Some (st, rd1, w1)" and s: "next_step enc_occ i rd w xs (st, rd1, w1)"
      using occurrence_reader_next_spec [OF h(3)] by (auto simp: wp_iff)
    have fr: "frame (rd_scope fd) w w1" and fd1: "rr_fd rd1 = fd" using s h(4) by (simp_all add: next_step_def)
    show ?thesis
    proof (cases "st \<le> 0")
      case st: True
      then show ?thesis using h True n s fr fd1
        by (subst skip_line_group.simps) (auto simp: next_step_def held_def same_line_def)
    next
      case st: False
      then have h1: "held fd i rd1 w1 xs" using s fd1 by (auto simp: next_step_def held_def neq_Nil_conv)
      have unf: "skip_line_group rd n l w = skip_line_group rd1 n (oc_start x) w1"
        using h True n st by (subst skip_line_group.simps) simp
      have sx: "same_line n x" using True by (simp add: same_line_def)
      show ?thesis unfolding unf
        by (rule wp_mono [OF Cons.IH [OF h1]])
          (use sx frame_trans [OF fr] frame_clean [OF fr] in auto)
    qed
  qed
qed

lemma skip_group:
  assumes h: "held fd i rd w (x # xs)"
  obtains r rd' w' where "skip_occurrence_line_group rd w = Some (r, rd', w')" and "frame (rd_scope fd) w w'"
    and "r = 0 \<and> held fd i rd' w' (dropWhile (same_line (oc_line x)) (x # xs)) \<or> r = -1 \<and> \<not> clean w"
proof -
  have c: "rr_has rd" "rr_current rd = x" using h by (auto simp: held_def)
  obtain r rd' l' w' where "skip_line_group rd (oc_line x) 0 w = Some (r, rd', l', w')" and "frame (rd_scope fd) w w'
      \<and> (r = 0 \<and> held fd i rd' w' (dropWhile (same_line (oc_line x)) (x # xs))
          \<and> l' = (if takeWhile (same_line (oc_line x)) (x # xs) = [] then 0
              else oc_start (last (takeWhile (same_line (oc_line x)) (x # xs)))) \<or> r = -1 \<and> \<not> clean w)"
    using skip_line_group_spec [OF h, of "oc_line x" 0] by (rule wpE4)
  then show ?thesis using that c by (auto simp: skip_occurrence_line_group_def)
qed

text \<open>The two readers of a pattern while it is answered.\<close>

definition matching where
  "matching x T N ofd ix0 w0 ix fl il fr ir d left xs right ys out w \<longleftrightarrow>
     serving x T N ofd ix0 w0 {fr, fl} d ix out w \<and> held fl il left w xs \<and> held fr ir right w ys
     \<and> fl \<noteq> fr \<and> il \<noteq> x \<and> ir \<noteq> x"

lemma matching_wfw: "matching x T N ofd ix0 w0 ix fl il fr ir d left xs right ys out w \<Longrightarrow> wfw w"
  by (auto simp: matching_def dest: serving_wfw)

lemma matching_clean: "matching x T N ofd ix0 w0 ix fl il fr ir d left xs right ys out w \<Longrightarrow> clean w0 \<Longrightarrow> clean w"
  by (auto simp: matching_def dest: serving_clean)

lemma matching_left:
  assumes m: "matching x T N ofd ix0 w0 ix fl il fr ir d left xs right ys out w" and f: "frame (rd_scope fl) w w'"
    and h: "held fl il left' w' xs'"
  shows "matching x T N ofd ix0 w0 ix fl il fr ir d left' xs' right ys out w'"
proof -
  have "held fr ir right w' ys"
    by (rule held_frame [OF _ f matching_wfw [OF m]]) (use m in \<open>auto simp: matching_def\<close>)
  then show ?thesis using m h serving_read [OF _ f, of x T N ofd ix0 w0 "{fr, fl}" d ix out] by (simp add: matching_def)
qed

lemma matching_right:
  assumes m: "matching x T N ofd ix0 w0 ix fl il fr ir d left xs right ys out w" and f: "frame (rd_scope fr) w w'"
    and h: "held fr ir right' w' ys'"
  shows "matching x T N ofd ix0 w0 ix fl il fr ir d left xs right' ys' out w'"
proof -
  have "held fl il left w' xs"
    by (rule held_frame [OF _ f matching_wfw [OF m]]) (use m in \<open>auto simp: matching_def\<close>)
  then show ?thesis using m h serving_read [OF _ f, of x T N ofd ix0 w0 "{fr, fl}" d ix out] by (simp add: matching_def)
qed

lemma matching_emits:
  assumes m: "matching x T N ofd ix0 w0 ix fl il fr ir d left xs right ys out w" and e: "emits x out w d' (r, out', w')"
  shows "r = 0 \<and> matching x T N ofd ix0 w0 ix fl il fr ir (d @ d') left xs right ys out' w' \<or> r = -1 \<and> \<not> clean w0"
proof -
  have s: "serving x T N ofd ix0 w0 {fr, fl} d ix out w" using m by (simp add: matching_def)
  have ne: "fl \<noteq> ofd" "fr \<noteq> ofd" using serving_new [OF s] by auto
  have "held fl il left w' xs \<and> held fr ir right w' ys" if f: "frame (wr_scope ofd x) w w'"
    using held_frame [OF _ f matching_wfw [OF m]] m ne by (simp add: matching_def)
  then show ?thesis using serving_emits [OF s e] m by (auto simp: matching_def)
qed

lemma pattern_loop_spec:
  assumes "matching x T N ofd ix0 w0 ix fl il fr ir d left xs right ys out w"
  shows "wp (pattern_loop left right out w) (\<lambda>(r, left', right', out', w').
     r = 0 \<and> (\<exists>xs' ys'. matching x T N ofd ix0 w0 ix fl il fr ir (d @ texts (pattern_lines xs ys)) left' xs' right' ys' out' w')
     \<or> r = -1 \<and> \<not> clean w0)"
  using assms
proof (induction xs ys arbitrary: left right out d w rule: pattern_lines.induct)
  case (2 ys)
  then have "\<not> rr_has left" by (auto simp: matching_def held_def)
  then show ?case using 2 by (subst pattern_loop.simps) (auto simp: texts_def)
next
  case (3 a xs)
  then have "\<not> rr_has right" by (auto simp: matching_def held_def)
  then show ?case using 3 by (subst pattern_loop.simps) (auto simp: texts_def)
next
  case (1 a xs b ys left right out d w)
  note m = 1(4)
  let ?A = "dropWhile (same_line (oc_line a)) (a # xs)" and ?B = "dropWhile (same_line (oc_line b)) (b # ys)"
  have has: "rr_has left" "rr_has right" and cur: "rr_current left = a" "rr_current right = b"
    using m by (auto simp: matching_def held_def)
  have hl: "held fl il left w (a # xs)" and hr: "held fr ir right w (b # ys)" using m by (simp_all add: matching_def)
  consider "oc_line a < oc_line b" | "oc_line b < oc_line a" | "oc_line a = oc_line b" by (metis less_linear)
  then show ?case
  proof cases
    case c: 1
    obtain r rd1 w1 where k: "skip_occurrence_line_group left w = Some (r, rd1, w1)" and f: "frame (rd_scope fl) w w1"
      and k': "r = 0 \<and> held fl il rd1 w1 ?A \<or> r = -1 \<and> \<not> clean w" by (rule skip_group [OF hl])
    show ?thesis
    proof (cases "r < 0")
      case True
      then show ?thesis using k k' has cur c matching_clean [OF m] by (subst pattern_loop.simps) auto
    next
      case False
      then have m1: "matching x T N ofd ix0 w0 ix fl il fr ir d rd1 ?A right (b # ys) out w1"
        using matching_left [OF m f] k' by auto
      have unf: "pattern_loop left right out w = pattern_loop rd1 right out w1"
        using k False has cur c by (subst pattern_loop.simps) simp
      have pl: "pattern_lines (a # xs) (b # ys) = pattern_lines ?A (b # ys)" using c by (simp add: pattern_lines.simps(1) [of a xs b ys])
      show ?thesis unfolding unf pl by (rule 1(1) [OF c m1])
    qed
  next
    case c: 2
    then have nc: "\<not> oc_line a < oc_line b" by simp
    obtain r rd1 w1 where k: "skip_occurrence_line_group right w = Some (r, rd1, w1)" and f: "frame (rd_scope fr) w w1"
      and k': "r = 0 \<and> held fr ir rd1 w1 ?B \<or> r = -1 \<and> \<not> clean w" by (rule skip_group [OF hr])
    show ?thesis
    proof (cases "r < 0")
      case True
      then show ?thesis using k k' has cur c nc matching_clean [OF m] by (subst pattern_loop.simps) auto
    next
      case False
      then have m1: "matching x T N ofd ix0 w0 ix fl il fr ir d left (a # xs) rd1 ?B out w1"
        using matching_right [OF m f] k' by auto
      have unf: "pattern_loop left right out w = pattern_loop left rd1 out w1"
        using k False has cur c nc by (subst pattern_loop.simps) simp
      have pl: "pattern_lines (a # xs) (b # ys) = pattern_lines (a # xs) ?B" using c nc by (simp add: pattern_lines.simps(1) [of a xs b ys])
      show ?thesis unfolding unf pl by (rule 1(2) [OF nc c m1])
    qed
  next
    case c: 3
    let ?l = "oc_start (last (takeWhile (same_line (oc_line b)) (b # ys)))"
    have nc: "\<not> oc_line a < oc_line b" "\<not> oc_line b < oc_line a" using c by simp_all
    have ne: "takeWhile (same_line (oc_line b)) (b # ys) \<noteq> []" by (simp add: same_line_def)
    obtain r1 left1 l1 w1 where k1: "skip_line_group left (oc_line a) 0 w = Some (r1, left1, l1, w1)" and k1': "frame (rd_scope fl) w w1
        \<and> (r1 = 0 \<and> held fl il left1 w1 ?A \<and> l1 = (if takeWhile (same_line (oc_line a)) (a # xs) = [] then 0
            else oc_start (last (takeWhile (same_line (oc_line a)) (a # xs)))) \<or> r1 = -1 \<and> \<not> clean w)"
      using skip_line_group_spec [OF hl, of "oc_line a" 0] by (rule wpE4)
    have start: "pattern_loop left right out w = do {
        (r, left, last_start, w) \<leftarrow> skip_line_group left (oc_line a) 0 w;
        if r < 0 then Some (-1, left, right, out, w)
        else do {
          (r, right, last_right, w) \<leftarrow> skip_line_group right (oc_line a) (oc_start b) w;
          if r < 0 then Some (-1, left, right, out, w)
          else case (if oc_start a < last_right then emit_line_no out (oc_line a) w else (0, out, w)) of (r, out, w) \<Rightarrow>
            if r < 0 then Some (-1, left, right, out, w) else pattern_loop left right out w } }"
      using has cur nc c by (subst pattern_loop.simps) (simp add: Let_def cong: if_cong)
    show ?thesis
    proof (cases "r1 < 0")
      case True
      then show ?thesis using k1 k1' matching_clean [OF m] unfolding start by auto
    next
      case r1: False
      then have m1: "matching x T N ofd ix0 w0 ix fl il fr ir d left1 ?A right (b # ys) out w1"
        using matching_left [OF m] k1' by auto
      then have hr1: "held fr ir right w1 (b # ys)" by (simp add: matching_def)
      obtain r2 right2 l2 w2 where k2: "skip_line_group right (oc_line a) (oc_start b) w1 = Some (r2, right2, l2, w2)" and k2': "frame (rd_scope fr) w1 w2
          \<and> (r2 = 0 \<and> held fr ir right2 w2 ?B \<and> l2 = (if takeWhile (same_line (oc_line b)) (b # ys) = [] then oc_start b else ?l)
            \<or> r2 = -1 \<and> \<not> clean w1)"
        using skip_line_group_spec [OF hr1, of "oc_line b" "oc_start b"] unfolding c by (rule wpE4)
      show ?thesis
      proof (cases "r2 < 0")
        case True
        then show ?thesis using k1 k2 r1 k2' matching_clean [OF m1] unfolding start by auto
      next
        case r2: False
        then have m2: "matching x T N ofd ix0 w0 ix fl il fr ir d left1 ?A right2 ?B out w2" and l2: "l2 = ?l"
          using matching_right [OF m1] k2' ne by auto
        have pl: "pattern_lines (a # xs) (b # ys) = (if oc_start a < ?l then [oc_line a] else []) @ pattern_lines ?A ?B"
          using c by (simp add: pattern_lines.simps(1) [of a xs b ys])
        obtain r3 out3 w3 where e: "(if oc_start a < l2 then emit_line_no out (oc_line a) w2 else (0, out, w2)) = (r3, out3, w3)"
          using prod_cases3 by blast
        let ?t = "texts (if oc_start a < ?l then [oc_line a] else [])"
        have so: "sink_ok x out w2" using m2 by (simp add: matching_def serving_def)
        have "emits x out w2 ?t (r3, out3, w3)"
        proof (cases "oc_start a < l2")
          case True
          then show ?thesis using e emit_line_no_emits [OF so, of "oc_line a"] unfolding l2 by (simp add: texts_def)
        next
          case False
          then show ?thesis using e emits_nil [OF so] unfolding l2 by (simp add: texts_def)
        qed
        note em = matching_emits [OF m2 this]
        show ?thesis
        proof (cases "r3 < 0")
          case True
          then show ?thesis using k1 k2 r1 r2 e em unfolding start by auto
        next
          case False
          then have m3: "matching x T N ofd ix0 w0 ix fl il fr ir (d @ ?t) left1 ?A right2 ?B out3 w3" using em by auto
          have unf: "pattern_loop left right out w = pattern_loop left1 right2 out3 w3"
            using k1 k2 r1 r2 e False unfolding start by simp
          have "d @ texts (pattern_lines (a # xs) (b # ys)) = (d @ ?t) @ texts (pattern_lines ?A ?B)"
            unfolding pl by (simp add: texts_def)
          then show ?thesis unfolding unf using 1(3) [OF nc m3] by (simp only: append_assoc)
        qed
      qed
    qed
  qed
qed

section \<open>Opening, scanning, closing\<close>

lemma reader_open: "reader_at enc i rd w xs \<Longrightarrow> \<exists>f. fd_of w (rr_fd rd) = Some f \<and> o_ino f = i"
  by (auto simp: reader_at_def)

lemma serving_reader_close:
  assumes s: "serving x T N ofd ix0 w0 F d ix out w" and a: "reader_at enc_occ i rd w xs" and F: "rr_fd rd \<in> F"
    and k: "occurrence_reader_close rd w = (r, rd', w')"
  shows "r = 0 \<or> r = -1 \<and> \<not> clean w0" and "serving x T N ofd ix0 w0 (F - {rr_fd rd}) d ix out w'"
    and "w_data w' = w_data w" and "\<And>y. fd_of w' y = (if y = rr_fd rd then None else fd_of w y)"
proof -
  obtain f where f: "fd_of w (rr_fd rd) = Some f" using reader_open [OF a] by blast
  obtain r1 w1 where c: "sys_close (rr_fd rd) w = (r1, w1)" by force
  have "0 \<le> rr_fd rd" using f by (auto simp: fd_of_def split: if_splits)
  then have res: "r = (if r1 < 0 then -1 else 0)" "w' = w1"
    using k by (auto simp: occurrence_reader_close_def c)
  have o: "fd_of w (rr_fd rd) \<noteq> None" using f by simp
  note sc = serving_close [OF s c F o] and dr = sys_close_drop [OF c o]
  show "r = 0 \<or> r = -1 \<and> \<not> clean w0" "serving x T N ofd ix0 w0 (F - {rr_fd rd}) d ix out w'"
    "w_data w' = w_data w" "\<And>y. fd_of w' y = (if y = rr_fd rd then None else fd_of w y)"
    using sc dr res by auto
qed

lemma close_readers_spec:
  assumes m: "matching x T N ofd ix0 w0 ix fl il fr ir d left xs right ys out w" and k: "close_readers left right w = (r, w')"
  shows "r = 0 \<and> serving x T N ofd ix0 w0 {} d ix out w' \<or> r < 0 \<and> \<not> clean w0"
proof -
  have s: "serving x T N ofd ix0 w0 {fr, fl} d ix out w" and ne: "fl \<noteq> fr" using m by (simp_all add: matching_def)
  obtain L R where l: "rr_fd left = fl" "reader_at enc_occ il left w L" and r: "rr_fd right = fr" "reader_at enc_occ ir right w R"
    using m held_reader unfolding matching_def by metis
  obtain r1 left1 w1 where k1: "occurrence_reader_close left w = (r1, left1, w1)" using prod_cases3 by blast
  have "rr_fd left \<in> {fr, fl}" using l(1) by simp
  note c1 = serving_reader_close [OF s l(2) this k1]
  have F: "{fr, fl} - {rr_fd left} = {fr}" "{fr} - {rr_fd right} = {}" using l(1) r(1) ne by auto
  have rr: "reader_at enc_occ ir right w1 R"
    using reader_at_same [of w1 right w enc_occ ir R] c1(3,4) r l(1) ne by simp
  obtain r2 right2 w2 where k2: "occurrence_reader_close right w1 = (r2, right2, w2)" using prod_cases3 by blast
  have "rr_fd right \<in> {fr}" using r(1) by simp
  note c2 = serving_reader_close [OF c1(2) [unfolded F(1)] rr this k2, unfolded F(2)]
  have res: "if r1 < 0 then r = -1 \<and> w' = w1 else r = (if r2 < 0 then -1 else 0) \<and> w' = w2"
    using k by (auto simp: close_readers_def k1 k2)
  show ?thesis
  proof (cases "r1 < 0")
    case True
    then show ?thesis using res c1(1) by simp
  next
    case False
    then show ?thesis using res c2(1,2) by auto
  qed
qed

text \<open>The first record of a reader.\<close>

lemma first_record:
  assumes a: "reader_at enc_occ i rd w xs" and h: "\<not> rr_has rd"
  obtains r rd' w' where "occurrence_reader_next rd w = Some (r, rd', w')" and "frame (rd_scope (rr_fd rd)) w w'"
    and "r = -1 \<and> \<not> clean w \<or> 0 \<le> r \<and> held (rr_fd rd) i rd' w' xs"
proof -
  obtain r rd' w' where n: "occurrence_reader_next rd w = Some (r, rd', w')" and s: "next_step enc_occ i rd w xs (r, rd', w')"
    using occurrence_reader_next_spec [OF a] by (auto simp: wp_iff)
  have "r = -1 \<and> \<not> clean w \<or> 0 \<le> r \<and> held (rr_fd rd) i rd' w' xs"
    using s by (auto simp: next_step_def held_def neq_Nil_conv)
  then show ?thesis using that [OF n] s by (auto simp: next_step_def)
qed

lemma pattern_scan_spec:
  assumes s: "serving x T N ofd ix0 w0 {} d ix out w" and ca: "cached ix ka" "cached ix kb"
    and lp: "le_cache_path (lx_entries (ix_lexicon ix) ! ka) = Some lp" and rp: "le_cache_path (lx_entries (ix_lexicon ix) ! kb) = Some rp"
  shows "wp (pattern_scan lp rp ix out w) (multi_done x T N ofd ix0 w0
     (d @ texts (pattern_lines (word_recs T ka) (word_recs T kb)) @ [NEWLINE]))"
proof -
  have fail: "wp (Some (-1, ix', out', w')) (multi_done x T N ofd ix0 w0 d')" if "\<not> clean w0" for ix' out' w' d'
    using that by (simp add: multi_done_def)
  obtain r1 left w1 where o1: "occurrence_reader_open_path lp w = (r1, left, w1)" using prod_cases3 by blast
  note p1 = serving_open_path [OF s ca(1) lp o1]
  show ?thesis
  proof (cases "r1 < 0")
    case True
    then show ?thesis using p1 fail by (auto simp: pattern_scan_def o1)
  next
    case r1: False
    let ?fl = "rr_fd left"
    obtain il where s1: "serving x T N ofd ix0 w0 {?fl} d ix out w1" and l1: "\<not> rr_has left" "reader_at enc_occ il left w1 (word_recs T ka)"
      and il: "\<And>j. indexed j T N ix w \<Longrightarrow> il \<noteq> j" using p1 r1 by (auto simp: path_opened_def)
    have ilx: "il \<noteq> x" using il serving_indexed [OF s] by blast
    obtain r2 right w2 where o2: "occurrence_reader_open_path rp w1 = (r2, right, w2)" using prod_cases3 by blast
    note p2 = serving_open_path [OF s1 ca(2) rp o2]
    show ?thesis
    proof (cases "r2 < 0")
      case True
      then show ?thesis using p2 fail r1 by (auto simp: pattern_scan_def o1 o2 split: prod.split)
    next
      case r2: False
      let ?fr = "rr_fd right"
      obtain ir where s2: "serving x T N ofd ix0 w0 {?fr, ?fl} d ix out w2" and rr2: "\<not> rr_has right" "reader_at enc_occ ir right w2 (word_recs T kb)"
        and ir: "\<And>j. indexed j T N ix w1 \<Longrightarrow> ir \<noteq> j" and fo: "frame (open_scope w1 {} {}) w1 w2" and nf: "fd_of w1 ?fr = None"
        using p2 r2 by (auto simp: path_opened_def)
      have irx: "ir \<noteq> x" using ir serving_indexed [OF s1] by blast
      obtain g where g: "fd_of w1 ?fl = Some g" "o_ino g = il" using reader_open [OF l1(2)] by blast
      have ne: "?fl \<noteq> ?fr" using g nf by auto
      have "il < w_nino w1" using g serving_wfw [OF s1] by (auto simp: wfw_def)
      then have l2: "reader_at enc_occ il left w2 (word_recs T ka)"
        using reader_at_frame [OF l1(2) fo serving_wfw [OF s1]] g by simp
      obtain ls left3 w3 where n3: "occurrence_reader_next left w2 = Some (ls, left3, w3)" and f3: "frame (rd_scope ?fl) w2 w3"
        and a3: "ls = -1 \<and> \<not> clean w2 \<or> 0 \<le> ls \<and> held ?fl il left3 w3 (word_recs T ka)" by (rule first_record [OF l2 l1(1)])
      show ?thesis
      proof (cases "ls < 0")
        case True
        then have "\<not> clean w0" using a3 serving_clean [OF s2] by auto
        then show ?thesis using True fail r1 r2 n3 by (simp add: pattern_scan_def o1 o2)
      next
        case ls: False
        then have h3: "held ?fl il left3 w3 (word_recs T ka)" using a3 by simp
        have s3: "serving x T N ofd ix0 w0 {?fr, ?fl} d ix out w3" by (rule serving_read [OF s2 f3]) simp
        have rr3: "reader_at enc_occ ir right w3 (word_recs T kb)"
          using reader_at_frame [OF rr2(2) f3 serving_wfw [OF s2]] ne by simp
        obtain rs right4 w4 where n4: "occurrence_reader_next right w3 = Some (rs, right4, w4)" and f4: "frame (rd_scope ?fr) w3 w4"
          and a4: "rs = -1 \<and> \<not> clean w3 \<or> 0 \<le> rs \<and> held ?fr ir right4 w4 (word_recs T kb)" by (rule first_record [OF rr3 rr2(1)])
        show ?thesis
        proof (cases "rs < 0")
          case True
          then have "\<not> clean w0" using a4 serving_clean [OF s3] by auto
          then show ?thesis using True fail r1 r2 ls n3 n4 by (simp add: pattern_scan_def o1 o2)
        next
          case rs: False
          then have h4: "held ?fr ir right4 w4 (word_recs T kb)" using a4 by simp
          have "held ?fl il left3 w4 (word_recs T ka)" using held_frame [OF h3 f4 serving_wfw [OF s3]] ne by simp
          moreover have "serving x T N ofd ix0 w0 {?fr, ?fl} d ix out w4" by (rule serving_read [OF s3 f4]) simp
          ultimately have m: "matching x T N ofd ix0 w0 ix ?fl il ?fr ir d left3 (word_recs T ka) right4 (word_recs T kb) out w4"
            using h4 ne ilx irx by (simp add: matching_def)
          obtain r5 left5 right5 out5 w5 where
            k5: "pattern_loop left3 right4 out w4 = Some (r5, left5, right5, out5, w5)"
            and a5: "r5 = 0 \<and> (\<exists>xs' ys'. matching x T N ofd ix0 w0 ix ?fl il ?fr ir
                (d @ texts (pattern_lines (word_recs T ka) (word_recs T kb))) left5 xs' right5 ys' out5 w5) \<or> r5 = -1 \<and> \<not> clean w0"
            using pattern_loop_spec [OF m] by (rule wpE5)
          obtain r6 w6 where k6: "close_readers left5 right5 w5 = (r6, w6)" by force
          have unf: "pattern_scan lp rp ix out w = (if r6 < 0 then Some (-1, ix, out5, w6)
              else if r5 < 0 then Some (-1, ix, out5, w6) else blank ix out5 w6)"
            using r1 r2 ls rs n3 n4 k5 by (simp add: pattern_scan_def o1 o2 k6)
          show ?thesis
          proof (cases "r5 < 0")
            case True
            then show ?thesis unfolding unf using a5 fail by auto
          next
            case False
            then obtain xs' ys' where m5: "matching x T N ofd ix0 w0 ix ?fl il ?fr ir
                (d @ texts (pattern_lines (word_recs T ka) (word_recs T kb))) left5 xs' right5 ys' out5 w5" using a5 by auto
            note cl = close_readers_spec [OF m5 k6]
            show ?thesis
            proof (cases "r6 < 0")
              case True
              then show ?thesis unfolding unf using cl fail by simp
            next
              case r6: False
              then have "serving x T N ofd ix0 w0 {} (d @ texts (pattern_lines (word_recs T ka) (word_recs T kb))) ix out5 w6"
                using cl by simp
              from blank_serving [OF this] show ?thesis unfolding unf using r6 False by simp
            qed
          qed
        qed
      qed
    qed
  qed
qed

section \<open>The handler\<close>

lemma index_of_char_eq: "index_of_char q c = length (takeWhile (\<lambda>d. d \<noteq> c) q)"
  by (induction q) simp_all

lemma has_space_or_tab_iff: "has_space_or_tab q \<longleftrightarrow> (\<exists>c\<in>set q. is_word_sep c)"
  by (induction q) simp_all

lemma pattern_parts:
  "take (index_of_char q STAR) q = pattern_left q" "drop (index_of_char q STAR + 1) q = pattern_right q"
  "index_of_char q STAR = length (pattern_left q)"
proof -
  show l: "index_of_char q STAR = length (pattern_left q)" by (simp add: index_of_char_eq pattern_left_def)
  show "take (index_of_char q STAR) q = pattern_left q"
    unfolding l by (simp add: pattern_left_def takeWhile_eq_take [symmetric])
  show "drop (index_of_char q STAR + 1) q = pattern_right q"
    unfolding l by (simp add: pattern_left_def pattern_right_def dropWhile_eq_drop drop_Suc tl_drop)
qed

definition pattern_text :: "byte list \<Rightarrow> byte list \<Rightarrow> byte list" where
  "pattern_text T q = (if valid_pattern q then pattern_answer T (pattern_left q) (pattern_right q) else [])"

lemma pattern_answer_missing:
  assumes "lower l \<notin> fst ` set (occs_of T) \<or> lower r \<notin> fst ` set (occs_of T)"
  shows "pattern_answer T l r = []"
proof -
  have "\<not> in_order T (lower l) (lower r) n" for n using assms by (force simp: in_order_def list_ex_iff)
  then show ?thesis by (simp add: pattern_answer_def lines_where_def filter_empty_conv)
qed

lemma handle_pattern_spec:
  assumes ix: "indexed x T N ix w" and so: "sink_ok x out w" and len: "length q < 2 ^ 32"
  shows "wp (handle_pattern ix q out w) (answered x T N ix out w (pattern_text T q @ [NEWLINE]))"
proof -
  note T = indexed_small [OF ix] and s0 = serving_start [OF ix so] and pp = pattern_parts [of q]
  have bl: "wp (blank ix out w) (answered x T N ix out w (pattern_text T q @ [NEWLINE]))" if "pattern_text T q = []"
    using blank_answered [OF ix so] that by simp
  have valid: "valid_pattern q \<longleftrightarrow> \<not> (index_of_char q STAR = 0 \<or> index_of_char q STAR + 1 \<ge> length q
      \<or> index_of_char q STAR = length q \<or> contains_char (drop (index_of_char q STAR + 1) q) STAR) \<and> \<not> has_space_or_tab q"
  proof -
    have "pattern_right q \<noteq> [] \<longleftrightarrow> index_of_char q STAR + 1 < length q" unfolding pp(2) [symmetric] by auto
    then show ?thesis unfolding pp(2) pp(3) [symmetric]
      by (auto simp: valid_pattern_def contains_char_iff has_space_or_tab_iff pp(3))
  qed
  show ?thesis
  proof (cases "valid_pattern q")
    case False
    then have "handle_pattern ix q out w = blank ix out w" unfolding valid by (auto simp: handle_pattern_def Let_def)
    then show ?thesis using bl False by (simp add: pattern_text_def)
  next
    case True
    let ?l = "pattern_left q" and ?r = "pattern_right q"
    have tx0: "pattern_text T q = pattern_answer T ?l ?r" using True by (simp add: pattern_text_def)
    have unf: "handle_pattern ix q out w = do {
        (found, left_id, left_bucket) \<leftarrow> lexicon_find_existing (ix_lexicon ix) ?l;
        if \<not> found then blank ix out w
        else do {
          (found, right_id, right_bucket) \<leftarrow> lexicon_find_existing (ix_lexicon ix) ?r;
          if \<not> found then blank ix out w
          else do {
            (r, index, w) \<leftarrow> ensure_word_cache ix left_id left_bucket w;
            if r < 0 then Some (-1, index, out, w)
            else do {
              (r, index, w) \<leftarrow> ensure_word_cache index right_id right_bucket w;
              if r < 0 then Some (-1, index, out, w)
              else do {
                le \<leftarrow> at (lx_entries (ix_lexicon index)) (unat left_id);
                re \<leftarrow> at (lx_entries (ix_lexicon index)) (unat right_id);
                lp \<leftarrow> le_cache_path le;
                rp \<leftarrow> le_cache_path re;
                pattern_scan lp rp index out w } } } } }"
      using True unfolding valid handle_pattern_def Let_def pp(1,2) by (metis (no_types, lifting))
    have ll: "length ?l < 2 ^ 32" "length ?r < 2 ^ 32" using len unfolding pp(1,2) [symmetric] by simp_all
    from lookup [OF ix ll(1)] show ?thesis
    proof (elim disjE exE conjE)
      assume f: "lexicon_find_existing (ix_lexicon ix) ?l = Some (False, 0, 0)" and no: "lower ?l \<notin> fst ` set (occs_of T)"
      then show ?thesis unfolding unf f bind.bind_lunit prod.case using bl tx0 pattern_answer_missing by simp
    next
      fix ka ida ba
      assume fa: "lexicon_find_existing (ix_lexicon ix) ?l = Some (True, ida, ba)" and foa: "found_at T ?l ka ida ba"
      from lookup [OF ix ll(2)] show ?thesis
      proof (elim disjE exE conjE)
        assume f: "lexicon_find_existing (ix_lexicon ix) ?r = Some (False, 0, 0)" and no: "lower ?r \<notin> fst ` set (occs_of T)"
        then show ?thesis unfolding unf fa f bind.bind_lunit prod.case using bl tx0 pattern_answer_missing by simp
      next
        fix kb idb bb
        assume fb: "lexicon_find_existing (ix_lexicon ix) ?r = Some (True, idb, bb)" and fob: "found_at T ?r kb idb bb"
        obtain r1 ix1 w1 where e1: "ensure_word_cache ix ida ba w = Some (r1, ix1, w1)"
          and a1: "r1 = 0 \<and> serving x T N (ob_fd out) ix w {} (sink out w) ix1 out w1 \<and> cached ix1 ka \<and> grown ix ix1 \<or> r1 < 0 \<and> \<not> clean w"
          using serving_found [OF s0 foa] by (rule wpE3)
        note unf = unf fa fb bind.bind_lunit prod.case simp_thms if_False e1
        show ?thesis
        proof (cases "r1 < 0")
          case True
          then show ?thesis unfolding unf using a1 by (auto simp: answered_def)
        next
          case r1: False
          then have s1: "serving x T N (ob_fd out) ix w {} (sink out w) ix1 out w1" and c1: "cached ix1 ka" using a1 by auto
          obtain r2 ix2 w2 where e2: "ensure_word_cache ix1 idb bb w1 = Some (r2, ix2, w2)"
            and a2: "r2 = 0 \<and> serving x T N (ob_fd out) ix w {} (sink out w) ix2 out w2 \<and> cached ix2 kb \<and> grown ix1 ix2 \<or> r2 < 0 \<and> \<not> clean w"
            using serving_found [OF s1 fob] by (rule wpE3)
          note unf = unf if_not_P [OF r1] e2
          show ?thesis
          proof (cases "r2 < 0")
            case True
            then show ?thesis unfolding unf using a2 by (auto simp: answered_def)
          next
            case r2: False
            then have s2: "serving x T N (ob_fd out) ix w {} (sink out w) ix2 out w2" and c2: "cached ix2 ka" "cached ix2 kb"
              using a2 c1 by (auto simp: grown_def)
            obtain lp rp where lp: "le_cache_path (lx_entries (ix_lexicon ix2) ! ka) = Some lp"
              and rp: "le_cache_path (lx_entries (ix_lexicon ix2) ! kb) = Some rp" using c2 by (auto simp: cached_def)
            have W: "unat ida = ka" "unat idb = kb" "words_of (occs_of T) ! ka = lower ?l" "words_of (occs_of T) ! kb = lower ?r"
              using foa fob by (simp_all add: found_at_def)
            have kk: "ka < length (lx_entries (ix_lexicon ix2))" "kb < length (lx_entries (ix_lexicon ix2))" using c2 by (simp_all add: cached_def)
            have "pattern_answer T ?l ?r = texts (pattern_lines (word_recs T ka) (word_recs T kb))"
              unfolding pattern_lines_words [OF T] W pattern_answer_def texts_def by (rule line_texts [symmetric]) (rule lines_where_small [OF _ T])
            then show ?thesis unfolding unf if_not_P [OF r2] tx0 W at_simp [OF kk(1)] at_simp [OF kk(2)] lp rp answered_multi [symmetric]
              using pattern_scan_spec [OF s2 c2 lp rp] by simp
          qed
        qed
      qed
    qed
  qed
qed

end
