(* ===== verification/Pa1_Main.thy ===== *)
theory Pa1_Main
  imports Pa1_Pattern
begin

text \<open>
  \<^verbatim>\<open>PA1/main.c\<close>: the whole program over the POSIX world. The section on sessions states what
  a run must do, as a function of the text file and the queries on standard input; the program is
  shown to do it, for every finite sequence of interruptions, short transfers and failures.
\<close>

section \<open>The program\<close>

definition write_stderr :: "string \<Rightarrow> world \<Rightarrow> int \<times> world" where
  "write_stderr message w = write_full 2 (bytes_of message) w"

text \<open>The size of the \<open>Index\<close> struct: two descriptors, the bucket descriptors, 257 writers, the lexicon
  and the line count, with padding.\<close>

definition sizeof_index :: nat where
  "sizeof_index = 8 + 4 * OCC_BUCKETS + (OCC_BUCKETS + 1) * (WRITE_BUF_SIZE + 16) + 40 + 8"

text \<open>
  The tail of every failure inside the query loop: a message, a flush of what was answered, and the
  release of all resources. Releasing the query buffer and the scratch buffers is not visible in
  the world.
\<close>

definition give_up :: "string \<Rightarrow> bool \<Rightarrow> index \<Rightarrow> outbuf \<Rightarrow> world \<Rightarrow> int \<times> world" where
  "give_up message flush index out w =
     (case write_stderr message w of (_, w) \<Rightarrow>
      case (if flush then outbuf_flush out w else (0, out, w)) of (_, out, w) \<Rightarrow>
      case index_free index w of (index, w) \<Rightarrow> (1, w))"

definition finish :: "index \<Rightarrow> outbuf \<Rightarrow> world \<Rightarrow> int \<times> world" where
  "finish index out w =
     (case outbuf_flush out w of (_, out, w) \<Rightarrow> case index_free index w of (index, w) \<Rightarrow> (0, w))"

partial_function (option) main_loop ::
  "index \<Rightarrow> line_reader \<Rightarrow> bytevec \<Rightarrow> outbuf \<Rightarrow> query_scratch \<Rightarrow> world \<Rightarrow> (int \<times> world) option" where
  "main_loop index query_reader query_buf out query_state w = do {
     (query_status, query_reader, query_buf, query_had_newline, w) \<leftarrow> line_reader_read_line query_reader query_buf w;
     if query_status < 0 then Some (give_up ''failed to read query\<newline>'' True index out w)
     else if query_status = 0 then Some (finish index out w)
     else if length (v_items query_buf) > QUERY_LIMIT then Some (give_up ''query is too long\<newline>'' True index out w)
     else if slice_equals_cstr (v_items query_buf) (bytes_of ''PA1EXIT'') then Some (finish index out w)
     else do {
       (r, index, out, query_state, w) \<leftarrow> handle_query index (v_items query_buf) out query_state w;
       if r < 0 then Some (give_up ''failed to execute query\<newline>'' True index out w)
       else case outbuf_flush out w of (r, out, w) \<Rightarrow>
         if r < 0 then Some (give_up ''failed to flush stdout\<newline>'' False index out w)
         else main_loop index query_reader query_buf out query_state w } }"

definition pa1_main :: "byte list list \<Rightarrow> world \<Rightarrow> (int \<times> world) option" where
  "pa1_main argv w =
     (if length argv \<noteq> 2 then (case write_stderr ''usage: ./pa1 <input-file>\<newline>'' w of (_, w) \<Rightarrow> Some (1, w))
      else case sys_open (Named (argv ! 1)) w of (input_fd, w) \<Rightarrow>
        if input_fd < 0 then (case write_stderr ''failed to open input file\<newline>'' w of (_, w) \<Rightarrow> Some (1, w))
        else case sys_alloc sizeof_index w of (granted, w) \<Rightarrow>
        if \<not> granted then
          (case write_stderr ''failed to allocate index\<newline>'' w of (_, w) \<Rightarrow>
           case sys_close input_fd w of (_, w) \<Rightarrow> Some (1, w))
        else case index_init input_fd w of (r, index, w) \<Rightarrow>
        if r < 0 then
          (case write_stderr ''failed to initialize index\<newline>'' w of (_, w) \<Rightarrow>
           case sys_close input_fd w of (_, w) \<Rightarrow> Some (1, w))
        else do {
          (r, index, w) \<leftarrow> index_build index w;
          if r < 0 then
            (case write_stderr ''failed to build index\<newline>'' w of (_, w) \<Rightarrow>
             case index_free index w of (index, w) \<Rightarrow> Some (1, w))
          else main_loop index (line_reader_init 0) empty_vec (outbuf_init 1) query_scratch_init w })"

section \<open>Sessions\<close>

text \<open>
  The exit status and the output for a list of queries: a query that is too long ends the program
  with status 1, the line \<open>PA1EXIT\<close> ends it, every other line is answered.
\<close>

fun session :: "byte list \<Rightarrow> byte list list \<Rightarrow> int \<times> byte list" where
  "session T [] = (0, [])"
| "session T (q # qs) =
     (if length q > QUERY_LIMIT then (1, [])
      else if q = bytes_of ''PA1EXIT'' then (0, [])
      else case session T qs of (status, text) \<Rightarrow> (status, answer T q @ text))"

section \<open>Dispatch\<close>

lemma count_query_words_from_eq:
  "pos \<le> length q \<Longrightarrow> count_query_words_from q pos n first =
     (n + length (word_spans pos (drop pos q)),
      if n = 0 \<and> word_spans pos (drop pos q) \<noteq> [] then
        (fst (hd (word_spans pos (drop pos q))), length (snd (hd (word_spans pos (drop pos q))))) else first)"
proof (induction q pos n first rule: count_query_words_from.induct)
  case (1 q pos n first)
  define start where "start = skip_seps q pos"
  define e where "e = word_end q start"
  show ?case
  proof (cases "pos < length q \<and> start < length q")
    case False
    have "word_spans pos (drop pos q) = []"
    proof (cases "pos < length q")
      case True
      then show ?thesis using False tokenize_step(1) [OF 1(2) start_def e_def] by simp
    next
      case False
      then show ?thesis by (simp add: word_spans.simps [of pos "[]"])
    qed
    moreover have "count_query_words_from q pos n first = (n, first)"
      using False by (subst count_query_words_from.simps) (auto simp: start_def [symmetric] Let_def)
    ultimately show ?thesis by simp
  next
    case True
    then have p: "pos < length q" and st: "start < length q" by simp_all
    note ws = word_spans_step [OF 1(2) start_def e_def st]
    have unf: "count_query_words_from q pos n first = count_query_words_from q e (n + 1) (if n = 0 then (start, e - start) else first)"
      using p st by (subst count_query_words_from.simps) (simp add: start_def [symmetric] e_def [symmetric] Let_def)
    have "\<not> length q \<le> start" using st by simp
    from 1(1) [OF p start_def this e_def ws(4)] show ?thesis unfolding unf ws(1) using ws(3,4) by simp
  qed
qed

lemma count_query_words_eq:
  "count_query_words q = (length (query_words q),
     if query_words q = [] then (0, 0) else (fst (hd (word_spans 0 q)), length (hd (query_words q))))"
  by (simp add: count_query_words_def count_query_words_from_eq query_words_def hd_map)

lemma single_word:
  assumes "query_words q = [v]" and "count_query_words q = (n, start, len)"
  shows "take len (drop start q) = v" and "v \<noteq> []"
proof -
  obtain s where s: "word_spans 0 q = [(s, v)]" using assms(1) by (auto simp: query_words_def map_eq_Cons_conv)
  then have "(s, v) \<in> set (word_spans 0 (drop 0 q))" by simp
  from word_spans_nth [OF this] have v: "v \<noteq> []" "v = takeWhile (\<lambda>c. \<not> is_word_sep c) (drop s q)" by auto
  have "start = s" "len = length v" using assms s by (simp_all add: count_query_words_eq)
  then show "take len (drop start q) = v" using v(2) by (metis takeWhile_eq_take)
  show "v \<noteq> []" by (rule v(1))
qed

lemma vec_ok_scratch: "vec_ok (qs_line_buf s) \<Longrightarrow> vec_ok (qs_line_buf (query_scratch_reset s))"
  by (simp add: query_scratch_reset_def vec_ok_def bytevec_free_def bytevec_reset_def empty_vec_def)

lemma handle_query_spec:
  assumes ix: "indexed x T N ix w" and so: "sink_ok x out w" and len: "length q \<le> QUERY_LIMIT" and vo: "vec_ok (qs_line_buf scratch)"
  shows "wp (handle_query ix q out scratch w) (answered_scratch x T N ix out w (answer T q))"
proof -
  have small: "length q < 2 ^ 32" using len by (simp add: pa1_consts)
  let ?s = "query_scratch_reset scratch"
  have vo': "vec_ok (qs_line_buf ?s)" by (rule vec_ok_scratch [OF vo])
  note keep = answered_keep [OF _ vo']
  show ?thesis
  proof (cases "QUOTE \<in> set q")
    case True
    then show ?thesis using handle_phrase_spec [OF ix so small vo']
      by (simp add: handle_query_def contains_char_iff Let_def answer_def phrase_text_def)
  next
    case nq: False
    show ?thesis
    proof (cases "STAR \<in> set q")
      case True
      then show ?thesis using keep [OF handle_pattern_spec [OF ix so small]] nq
        by (simp add: handle_query_def contains_char_iff Let_def answer_def pattern_text_def)
    next
      case ns: False
      obtain n start ln where c: "count_query_words q = (n, start, ln)" using prod_cases3 by blast
      then have n: "n = length (query_words q)" by (simp add: count_query_words_eq)
      consider "query_words q = []" | v where "query_words q = [v]" | v v' vs where "query_words q = v # v' # vs"
        by (metis list.exhaust)
      then show ?thesis
      proof cases
        case 1
        then show ?thesis using keep [OF blank_answered [OF ix so]] nq ns n c
          by (simp add: handle_query_def contains_char_iff Let_def answer_def)
      next
        case (2 v)
        note sw = single_word [OF 2 c]
        have "length v \<le> length q" using sw(1) by auto
        then have "length v < 2 ^ 32" using small by simp
        from keep [OF handle_single_spec [OF ix so sw(2) this]] show ?thesis using nq ns n c 2 sw(1)
          by (simp add: handle_query_def contains_char_iff Let_def answer_def)
      next
        case (3 v v' vs)
        then show ?thesis using keep [OF handle_multi_spec [OF ix so len]] nq ns n c
          by (simp add: handle_query_def contains_char_iff Let_def answer_def multi_text_def)
      qed
    qed
  qed
qed

section \<open>The query loop\<close>

text \<open>
  Between two queries: the index is intact, the output buffer is empty, and the reader of standard
  input has still to deliver \<open>s\<close>.
\<close>

definition ready :: "nat \<Rightarrow> byte list \<Rightarrow> (path \<rightharpoonup> nat) \<Rightarrow> index \<Rightarrow> line_reader \<Rightarrow> outbuf \<Rightarrow> query_scratch \<Rightarrow> byte list \<Rightarrow> world \<Rightarrow> bool" where
  "ready x T N ix rd out qs s w \<longleftrightarrow> indexed x T N ix w \<and> sink_ok x out w \<and> ob_fd out = 1 \<and> ob_buf out = []
     \<and> lr_fd rd = 0 \<and> lr_ok rd w \<and> lr_rest rd w = s \<and> vec_ok (qs_line_buf qs)
     \<and> 0 \<notin> set (ix_occ_fds ix) \<and> (\<exists>f. fd_of w 0 = Some f \<and> o_ino f \<noteq> x)"

text \<open>What a stretch of the run did: \<open>t\<close> was printed and no descriptor was left open.\<close>

definition printed :: "byte list \<Rightarrow> world \<Rightarrow> world \<Rightarrow> bool" where
  "printed t w w' \<longleftrightarrow> content w' 1 = content w 1 @ t \<and> (\<forall>fd. fd_of w' fd \<noteq> None \<longrightarrow> fd_of w fd \<noteq> None)
     \<and> (clean w \<longrightarrow> clean w')"

lemma printed_trans: "printed t w w1 \<Longrightarrow> printed t' w1 w2 \<Longrightarrow> printed (t @ t') w w2"
  by (auto simp: printed_def)

lemma ready_read:
  assumes r: "ready x T N ix rd out qs s w" and vo: "vec_ok buf" and len: "length s \<le> SIZE_MAX div 2"
  shows "wp (line_reader_read_line rd buf w) (\<lambda>(r, rd', buf', nl, w1). r < 0 \<and> \<not> clean w
     \<or> r = (if s = [] then 0 else 1) \<and> v_items buf' = takeWhile not_nl s \<and> vec_ok buf'
        \<and> ready x T N ix rd' out qs (drop 1 (dropWhile not_nl s)) w1 \<and> printed [] w w1)"
proof -
  have lr: "lr_ok rd w" "lr_fd rd = 0" "lr_rest rd w = s" and ix: "indexed x T N ix w" and so: "sink_ok x out w" "ob_fd out = 1"
    using r by (simp_all add: ready_def)
  have "wp (line_reader_read_line rd buf w) (line_step rd [] w)"
    by (rule line_reader_read_line_spec) (use lr vo len in simp_all)
  then obtain r1 rd' buf' nl w1 where l: "line_reader_read_line rd buf w = Some (r1, rd', buf', nl, w1)"
    and st: "line_step rd [] w (r1, rd', buf', nl, w1)" by (auto simp: wp_iff)
  have fr: "frame (rd_scope 0) w w1" and d: "w_data w1 = w_data w" "w_names w1 = w_names w" "lr_fd rd' = 0" "vec_ok buf'"
    and alt: "r1 = -1 \<and> \<not> clean w \<or> lr_ok rd' w1 \<and> v_items buf' = takeWhile not_nl s \<and> nl = (NEWLINE \<in> set s)
      \<and> lr_rest rd' w1 = drop 1 (dropWhile not_nl s) \<and> r1 = (if nl \<or> v_items buf' \<noteq> [] then 1 else 0)"
    using st lr by (simp_all add: line_step_def)
  have fo: "frame (open_scope w {0} {}) w w1" by (rule frame_open [OF fr]) auto
  have ix1: "indexed x T N ix w1" by (rule indexed_frame [OF ix fo d(2)]) auto
  have "fd_of w1 1 = fd_of w 1" using frame_fd [OF fr, of 1] by simp
  then have so1: "sink_ok x out w1" "content w1 1 = content w 1"
    using so d(1) by (auto simp: sink_ok_def appendable_def content_def)
  obtain f where "fd_of w 0 = Some f" "o_ino f \<noteq> x" using r by (auto simp: ready_def)
  then have f1: "\<exists>f. fd_of w1 0 = Some f \<and> o_ino f \<noteq> x" using frame_handle [OF fr, of 0 f] by (metis UNIV_I scope_simps(6))
  have op: "fd_of w fd \<noteq> None" if "fd_of w1 fd \<noteq> None" for fd
    using that frame_handles [OF fr, of fd] by (metis UNIV_I map_option_is_None scope_simps(6))
  have ne: "(NEWLINE \<in> set s \<or> takeWhile not_nl s \<noteq> []) = (s \<noteq> [])"
    by (cases s) (auto simp: not_nl_def)
  have pr: "printed [] w w1" using so1(2) op frame_clean [OF fr] by (simp add: printed_def)
  show ?thesis
  proof (cases "r1 < 0")
    case True
    then show ?thesis using alt by (auto simp: l split: if_splits)
  next
    case False
    then have a: "lr_ok rd' w1" "v_items buf' = takeWhile not_nl s" "lr_rest rd' w1 = drop 1 (dropWhile not_nl s)"
      "r1 = (if s = [] then 0 else 1)" using alt ne by (auto split: if_splits)
    have "ready x T N ix rd' out qs (drop 1 (dropWhile not_nl s)) w1"
      using r ix1 so1(1) f1 d(3) a(1,3) by (simp add: ready_def)
    then show ?thesis using a pr d(4) by (simp add: l)
  qed
qed

lemma ready_query:
  assumes r: "ready x T N ix rd out qs s w" and len: "length q \<le> QUERY_LIMIT"
  shows "wp (handle_query ix q out qs w) (\<lambda>(r, ix1, out1, qs1, w1). r < 0 \<and> \<not> clean w
     \<or> r = 0 \<and> (case outbuf_flush out1 w1 of (r2, out2, w2) \<Rightarrow> r2 < 0 \<and> \<not> clean w
        \<or> r2 = 0 \<and> ready x T N ix1 rd out2 qs1 s w2 \<and> printed (answer T q) w w2 \<and> grown ix ix1))"
proof -
  have ix: "indexed x T N ix w" and so: "sink_ok x out w" and ob: "ob_fd out = 1" "ob_buf out = []" and vo: "vec_ok (qs_line_buf qs)"
    using r by (simp_all add: ready_def)
  obtain r1 ix1 out1 qs1 w1 where h: "handle_query ix q out qs w = Some (r1, ix1, out1, qs1, w1)"
    and a: "answered_scratch x T N ix out w (answer T q) (r1, ix1, out1, qs1, w1)"
    using handle_query_spec [OF ix so len vo] by (auto simp: wp_iff)
  show ?thesis
  proof (cases "r1 < 0")
    case True
    then show ?thesis using a by (auto simp: h answered_scratch_def answered_def)
  next
    case False
    then have r1: "r1 = 0" and v1: "vec_ok (qs_line_buf qs1)"
      and sv: "serving x T N 1 ix w {} (sink out w @ answer T q) ix1 out1 w1"
      using a ob by (auto simp: answered_scratch_def answered_def)
    have so1: "sink_ok x out1 w1" using serving_sink [OF sv] .
    obtain r2 out2 w2 where f: "outbuf_flush out1 w1 = (r2, out2, w2)" using prod_cases3 by blast
    note e = outbuf_flush_emits [OF f so1]
    show ?thesis
    proof (cases "r2 = 0")
      case False
      then have "r2 < 0" "\<not> clean w1" using e(1) by (auto simp: emits_def)
      then show ?thesis using serving_clean [OF sv] r1 by (auto simp: h f)
    next
      case r2: True
      have s2: "serving x T N 1 ix w {} (sink out w @ answer T q) ix1 out2 w2"
        using serving_emits [OF sv e(1)] r2 by simp
      have fr: "frame (open_scope w (insert 1 (set (ix_occ_fds ix))) {x}) w w2" and g: "grown ix ix1"
        using s2 by (simp_all add: serving_def)
      obtain fz where fz: "fd_of w 0 = Some fz" "o_ino fz \<noteq> x" and z: "0 \<notin> set (ix_occ_fds ix)" and lf: "lr_fd rd = 0"
        using r by (auto simp: ready_def)
      have i: "o_ino fz < w_nino w" using ix fz(1) by (auto simp: indexed_def wfw_def)
      have f0: "fd_of w2 0 = Some fz" using frame_fd [OF fr, of 0] fz(1) z by simp
      have "w_data w2 (o_ino fz) = w_data w (o_ino fz)" using frame_data [OF fr i] fz(2) i by simp
      then have lr: "lr_rest rd w2 = lr_rest rd w" "lr_ok rd w2 = lr_ok rd w"
        using f0 fz(1) lf by (simp_all add: lr_rest_def fd_rest_def lr_ok_def)
      have "set (ix_occ_fds ix1) = set (ix_occ_fds ix)" using grown_ix_fds [OF g] by (simp add: ix_fds_def)
      then have rdy: "ready x T N ix1 rd out2 qs1 s w2"
        using r s2 e(2) r2 lr f0 fz(2) v1 by (simp add: ready_def serving_def)
      have "sink out2 w2 = content w2 1" "sink out w = content w 1"
        using s2 e(2) r2 ob by (simp_all add: sink_def serving_def)
      then have "printed (answer T q) w w2"
        using s2 serving_clean [OF s2] by (simp add: printed_def serving_def)
      then show ?thesis using rdy r1 r2 g by (simp add: h f)
    qed
  qed
qed

text \<open>
  How a run may end: with status 0, everything printed, the descriptors in \<open>S\<close> closed and, if no call
  failed, exactly the names \<open>N\<close>; or with status 1, for a failed call or a query that is too long.
\<close>

definition run_ends :: "byte list \<Rightarrow> (path \<rightharpoonup> nat) \<Rightarrow> int set \<Rightarrow> byte list list \<Rightarrow> world \<Rightarrow> int \<times> world \<Rightarrow> bool" where
  "run_ends T N S qs w = (\<lambda>(status, w').
     status = 0 \<and> fst (session T qs) = 0 \<and> content w' 1 = content w 1 @ snd (session T qs)
       \<and> (clean w \<longrightarrow> w_names w' = N) \<and> (\<forall>fd. fd_of w' fd \<noteq> None \<longrightarrow> fd_of w fd \<noteq> None \<and> fd \<notin> S)
   \<or> status = 1 \<and> (\<not> clean w \<or> fst (session T qs) = 1))"

lemma run_ends_step:
  assumes "run_ends T N S qs w1 res" and "printed t w w1" and "session T qs' = (fst (session T qs), t @ snd (session T qs))"
  shows "run_ends T N S qs' w res"
  using assms by (auto simp: run_ends_def printed_def)

lemma give_up_ends:
  assumes "\<not> clean w \<or> fst (session T qs) = 1"
  shows "run_ends T N S qs w (give_up m fl ix out w')"
  using assms by (auto simp: run_ends_def give_up_def split: prod.split)

lemma finish_ends:
  assumes r: "ready x T N ix rd out qs s w" and e: "session T lines = (0, [])"
  shows "run_ends T N (set (ix_input_fd ix # ix_fds ix)) lines w (finish ix out w)"
proof -
  have ix: "indexed x T N ix w" and so: "sink_ok x out w" and ob: "ob_fd out = 1" "ob_buf out = []"
    using r by (simp_all add: ready_def)
  obtain ix' w' where f: "index_free ix w = (ix', w')" by force
  note d = index_free_data [OF ix f]
  obtain g where g: "fd_of w 1 = Some g" "o_ino g = x" using so ob by (auto simp: sink_ok_def appendable_def)
  have apart: "\<not> file_at x w 1 d" for d using g by (simp add: file_at_def)
  have "length (ix_occ_fds ix) = OCC_BUCKETS" "ix_files x T ix w" using ix by (simp_all add: indexed_def ix_static_def)
  then have "1 \<notin> set (ix_input_fd ix # ix_fds ix)"
    using apart by (auto simp: ix_fds_def ix_files_def in_set_conv_nth)
  then have "content w' 1 = content w 1" using d by (simp add: content_def split: option.split)
  moreover have "clean w \<Longrightarrow> w_names w' = N" using index_free_spec [OF ix f] by simp
  ultimately show ?thesis using d e
    by (auto simp: run_ends_def finish_def f ob outbuf_flush_empty)
qed

lemma main_loop_spec:
  assumes "ready x T N ix rd out qs s w" and "vec_ok buf" and "length s \<le> SIZE_MAX div 2"
  shows "wp (main_loop ix rd buf out qs w) (run_ends T N (set (ix_input_fd ix # ix_fds ix)) (lines_of s) w)"
  using assms
proof (induction "length s" arbitrary: ix rd buf out qs w s rule: less_induct)
  case less
  obtain r rd1 buf1 nl w1 where l: "line_reader_read_line rd buf w = Some (r, rd1, buf1, nl, w1)"
    and a: "r < 0 \<and> \<not> clean w \<or> r = (if s = [] then 0 else 1) \<and> v_items buf1 = takeWhile not_nl s \<and> vec_ok buf1
        \<and> ready x T N ix rd1 out qs (drop 1 (dropWhile not_nl s)) w1 \<and> printed [] w w1"
    using ready_read [OF less.prems] by (rule wpE5)
  show ?case
  proof (cases "r < 0")
    case True
    then have "\<not> clean w" using a by (auto split: if_splits)
    then show ?thesis using True by (subst main_loop.simps) (simp add: l give_up_ends)
  next
    case r0: False
    let ?q = "takeWhile not_nl s" and ?s = "drop 1 (dropWhile not_nl s)"
    have r: "r = (if s = [] then 0 else 1)" and q: "v_items buf1 = ?q" and vo: "vec_ok buf1"
      and rdy: "ready x T N ix rd1 out qs ?s w1" and pr: "printed [] w w1" using a r0 by auto
    have cl: "\<not> clean w1 \<Longrightarrow> \<not> clean w" using pr by (auto simp: printed_def)
    let ?R = "run_ends T N (set (ix_input_fd ix # ix_fds ix)) (lines_of s)"
    have lift: "?R w res" if "?R w1 res" for res by (rule run_ends_step [OF that pr]) simp
    show ?thesis
    proof (cases "s = []")
      case True
      then have "session T (lines_of s) = (0, [])" by (simp add: lines_of.simps)
      from lift [OF finish_ends [OF rdy this]] show ?thesis using r True by (subst main_loop.simps) (simp add: l)
    next
      case ne: False
      then have r1: "r = 1" using r by simp
      have ls: "lines_of s = ?q # lines_of ?s" using ne by (simp add: lines_of.simps [of s])
      consider (long) "length ?q > QUERY_LIMIT" | (exit) "length ?q \<le> QUERY_LIMIT" "?q = bytes_of ''PA1EXIT''"
        | (go) "length ?q \<le> QUERY_LIMIT" "?q \<noteq> bytes_of ''PA1EXIT''" by linarith
      then show ?thesis
      proof cases
        case long
        then have "fst (session T (lines_of s)) = 1" by (simp add: ls)
        then show ?thesis using long r1 by (subst main_loop.simps) (simp add: l q give_up_ends)
      next
        case exit
        then have "session T (lines_of s) = (0, [])" by (simp add: ls)
        from lift [OF finish_ends [OF rdy this]] show ?thesis using exit r1
          by (subst main_loop.simps) (simp add: l q slice_equals_cstr_iff)
      next
        case go
        obtain r2 ix2 out2 qs2 w2 where h: "handle_query ix ?q out qs w1 = Some (r2, ix2, out2, qs2, w2)"
          and b: "r2 < 0 \<and> \<not> clean w1 \<or> r2 = 0 \<and> (case outbuf_flush out2 w2 of (r3, out3, w3) \<Rightarrow> r3 < 0 \<and> \<not> clean w1
            \<or> r3 = 0 \<and> ready x T N ix2 rd1 out3 qs2 ?s w3 \<and> printed (answer T ?q) w1 w3 \<and> grown ix ix2)"
          using ready_query [OF rdy go(1)] by (rule wpE5)
        obtain r3 out3 w3 where f: "outbuf_flush out2 w2 = (r3, out3, w3)" using prod_cases3 by blast
        have unf: "main_loop ix rd buf out qs w = (if r2 < 0 then Some (give_up ''failed to execute query\<newline>'' True ix2 out2 w2)
            else if r3 < 0 then Some (give_up ''failed to flush stdout\<newline>'' False ix2 out3 w3)
            else main_loop ix2 rd1 buf1 out3 qs2 w3)"
          using go r1 by (subst main_loop.simps) (simp add: l q h f slice_equals_cstr_iff)
        show ?thesis
        proof (cases "r2 < 0 \<or> r3 < 0")
          case True
          then have "\<not> clean w" using b f cl by auto
          then show ?thesis using True unfolding unf by (auto simp: give_up_ends)
        next
          case False
          then have rdy3: "ready x T N ix2 rd1 out3 qs2 ?s w3" and pr3: "printed (answer T ?q) w1 w3" and g: "grown ix ix2"
            using b f by auto
          have sh: "length ?s < length s" using ne line_size_rest [of s] by (cases s) (simp_all add: not_nl_def)
          have S: "set (ix_input_fd ix2 # ix_fds ix2) = set (ix_input_fd ix # ix_fds ix)"
            using g grown_ix_fds [OF g] by (auto simp: grown_def)
          have "wp (main_loop ix2 rd1 buf1 out3 qs2 w3) (run_ends T N (set (ix_input_fd ix # ix_fds ix)) (lines_of ?s) w3)"
            using less.hyps [OF sh rdy3 vo] less.prems(3) sh unfolding S by simp
          moreover have "?R w res" if "run_ends T N (set (ix_input_fd ix # ix_fds ix)) (lines_of ?s) w3 res" for res
            by (rule run_ends_step [OF that printed_trans [OF pr pr3]]) (use go in \<open>simp add: ls split: prod.split\<close>)
          ultimately show ?thesis using False unfolding unf by (auto elim: wp_mono)
        qed
      qed
    qed
  qed
qed

section \<open>From the start of the program\<close>

text \<open>
  The world a run starts in: the named file holds \<open>T\<close>, standard output appends to a file or stream of
  its own, and standard input delivers the lines \<open>qs\<close> from yet another one.
\<close>

definition start_world :: "byte list \<Rightarrow> byte list \<Rightarrow> byte list list \<Rightarrow> world \<Rightarrow> bool" where
  "start_world name T qs w \<longleftrightarrow> wfw w \<and> length T < 2 ^ 32
     \<and> (\<exists>i f0 f1. w_names w (Named name) = Some i \<and> w_data w i = T \<and> fd_of w 0 = Some f0 \<and> appendable w 1 f1
          \<and> i \<noteq> o_ino f1 \<and> o_ino f0 \<noteq> o_ino f1)
     \<and> lines_of (fd_rest w 0) = qs \<and> length (fd_rest w 0) \<le> SIZE_MAX div 2"

lemma lr_init: "fd_of w fd \<noteq> None \<Longrightarrow> lr_ok (line_reader_init fd) w \<and> lr_rest (line_reader_init fd) w = fd_rest w fd"
  by (simp add: lr_ok_def lr_rest_def line_reader_init_def)

lemma index_build_indexed:
  assumes i: "index_init fd w = (r, ix, w1)" and r: "\<not> r < 0" and wf: "wfw w" and len: "length T < 2 ^ 32"
    and f: "fd_of w fd = Some \<lparr>o_ino = i, o_off = 0, o_kind = Regular\<rparr>" "0 \<le> fd" "w_data w i = T" "i \<noteq> x" and x: "x < w_nino w"
  shows "wp (index_build ix w1) (\<lambda>(r, ix2, w2). r < 0 \<and> \<not> clean w \<or> r = 0 \<and> indexed x T (w_names w) ix2 w2 \<and> ix_input_fd ix2 = fd
     \<and> (\<exists>is. owns is ix2 {fd} w w2))"
proof -
  from index_init_spec [OF i wf] r obtain "is" where b: "built is ix w1 [0] []" and o: "owns is ix {} w w1"
    and ixf: "ix_input_fd ix = fd" "ix_line_count ix = 0" by auto
  have fr: "frame (open_scope w {} {}) w w1" using o by (simp add: owns_def)
  have f1: "fd_of w1 fd = Some \<lparr>o_ino = i, o_off = 0, o_kind = Regular\<rparr>" using frame_fd [OF fr, of fd] f(1) by simp
  have iw: "i < w_nino w" using wf f(1) by (fastforce simp: wfw_def)
  then have d1: "w_data w1 i = T" using frame_data [OF fr iw] f(3) by simp
  have outs: "map ob_fd (ix_outs ix) = ix_fds ix" using o by (simp add: owns_def)
  have nin: "fd \<notin> set (ix_fds ix)" using o f(1) by (auto simp: owns_def)
  have nis: "i \<notin> set is" using o iw by (force simp: owns_def)
  have rd: "reading is ix (line_reader_init (ix_input_fd ix)) w1 T"
    using lr_init [of w1 fd] f1 d1 nin nis ixf outs by (simp add: reading_def fd_rest_def line_reader_init_def del: set_map)
  obtain r2 ix2 w2 where bd: "index_build ix w1 = Some (r2, ix2, w2)"
    and a: "built_all is ix w1 (length (lines_of T)) (line_offsets T) (occs_from 1 (lines_of T)) (r2, ix2, w2)"
    and fin: "r2 = 0 \<longrightarrow> index_finished ix2"
    using index_build_spec [OF b rd len ixf(2)] by (auto simp: wp_iff)
  show ?thesis
  proof (cases "r2 < 0")
    case True
    then show ?thesis using a frame_clean [OF fr] by (auto simp: bd built_all_def)
  next
    case False
    then have r2: "r2 = 0" and f2: "frame (build_scope is ix) w1 w2" and sm: "same_fds ix ix2"
      and cnt: "ix_line_count ix2 = of_nat (length (lines_of T))" and b2: "built is ix2 w2 (line_offsets T) (occs_of T)"
      using a by (auto simp: built_all_def occs_of_def)
    have ix2: "ix_input_fd ix2 = fd" using sm ixf by (simp add: same_fds_def)
    have "owns is ix {fd} w w1"
      using o frame_weaken [OF fr, of "open_scope w {fd} {}"] by (auto simp: owns_def)
    then have o2: "owns is ix2 {ix_input_fd ix2} w w2"
      unfolding ix2 by (rule owns_step [OF _ f2 sm]) (use outs ixf in \<open>auto simp del: set_map\<close>)
    have "file_at x w (ix_input_fd ix2) T" using f ix2 by (simp add: file_at_def)
    then have "indexed x T (w_names w) ix2 w2"
      by (intro indexed_start [OF o2 b2 _ cnt _ _ wf len x]) (use fin r2 ix2 f(2) in simp_all)
    then show ?thesis using r2 ix2 o2 by (auto simp: bd)
  qed
qed

lemma session_status: "fst (session T qs) = 0 \<or> fst (session T qs) = 1"
  by (induction qs) (auto split: prod.split)

lemma pa1_main_spec:
  assumes st: "start_world name T qs w"
  shows "wp (pa1_main [prog, name] w) (run_ends T (w_names w) {} qs w)"
proof -
  obtain i f0 f1 where wf: "wfw w" and len: "length T < 2 ^ 32" and nm: "w_names w (Named name) = Some i" "w_data w i = T"
    and f0: "fd_of w 0 = Some f0" and f1: "appendable w 1 f1" and apart: "i \<noteq> o_ino f1" "o_ino f0 \<noteq> o_ino f1"
    and qs: "lines_of (fd_rest w 0) = qs" "length (fd_rest w 0) \<le> SIZE_MAX div 2"
    using st by (auto simp: start_world_def)
  let ?x = "o_ino f1"
  have f1': "fd_of w 1 = Some f1" using f1 by (simp add: appendable_def)
  have x: "?x < w_nino w" using wf f1' by (auto simp: wfw_def)
  obtain fd w1 where op: "sys_open (Named name) w = (fd, w1)" by force
  have o1: "frame (open_scope w {} {}) w w1" "w_data w1 = w_data w" "w_names w1 = w_names w"
    "fd = -1 \<and> \<not> clean w \<or> 0 \<le> fd \<and> fd_of w fd = None \<and>
      (\<forall>y. fd_of w1 y = (if y = fd then Some \<lparr>o_ino = i, o_off = 0, o_kind = Regular\<rparr> else fd_of w y))"
    using sys_open_frame [OF op nm(1) covers_open, of "{}" "{}"] by auto
  obtain gr w2 where al: "sys_alloc sizeof_index w1 = (gr, w2)" by force
  note a2 = sys_alloc_spec [OF al]
  obtain r3 ix w3 where ini: "index_init fd w2 = (r3, ix, w3)" using prod_cases3 by blast
  have fail: "run_ends T (w_names w) {} qs w (1, w')" if "\<not> clean w" for w' using that by (simp add: run_ends_def)
  have cl1: "\<not> clean w1 \<Longrightarrow> \<not> clean w" using frame_clean [OF o1(1)] by blast
  have cl2: "\<not> clean w2 \<Longrightarrow> \<not> clean w" using quiet_clean [OF a2(1)] cl1 by blast
  consider "fd < 0" | "0 \<le> fd" "\<not> gr" | "0 \<le> fd" "gr" "r3 < 0" | (go) "0 \<le> fd" "gr" "\<not> r3 < 0" by linarith
  then show ?thesis
  proof cases
    case 1
    then have "\<not> clean w" using o1(4) by auto
    then show ?thesis using 1 by (simp add: pa1_main_def op fail split: prod.split)
  next
    case 2
    then have "\<not> clean w" using a2(2) cl1 by blast
    then show ?thesis using 2 by (simp add: pa1_main_def op al fail split: prod.split)
  next
    case 3
    have "wfw w2" using frame_wfw [OF quiet_frame [OF a2(1)] frame_wfw [OF o1(1) wf]] .
    then have "\<not> clean w2" using index_init_spec [OF ini] 3 by auto
    then show ?thesis using 3 cl2 by (simp add: pa1_main_def op al ini fail split: prod.split)
  next
    case go
    have wf2: "wfw w2" using frame_wfw [OF quiet_frame [OF a2(1)] frame_wfw [OF o1(1) wf]] .
    have fd2: "fd_of w2 y = (if y = fd then Some \<lparr>o_ino = i, o_off = 0, o_kind = Regular\<rparr> else fd_of w y)" for y
      using o1(4) go quiet_fd_of [OF a2(1)] by auto
    have d2: "w_data w2 = w_data w" "w_names w2 = w_names w" using a2(1) o1(2,3) by (simp_all add: quiet_def)
    have x2: "?x < w_nino w2" using x frame_nino [OF o1(1)] a2(1) by (simp add: quiet_def)
    have ne: "fd \<noteq> 0" "fd \<noteq> 1" using o1(4) go f0 f1' by auto
    have "wp (index_build ix w3) (\<lambda>(r, ix2, w4). r < 0 \<and> \<not> clean w2 \<or> r = 0 \<and> indexed ?x T (w_names w2) ix2 w4 \<and> ix_input_fd ix2 = fd
       \<and> (\<exists>is. owns is ix2 {fd} w2 w4))"
      by (rule index_build_indexed [OF ini go(3) wf2 len]) (use fd2 go d2 nm apart x2 in simp_all)
    then obtain r4 ix4 w4 where bd: "index_build ix w3 = Some (r4, ix4, w4)"
      and a4: "r4 < 0 \<and> \<not> clean w2 \<or> r4 = 0 \<and> indexed ?x T (w_names w2) ix4 w4 \<and> ix_input_fd ix4 = fd
       \<and> (\<exists>is. owns is ix4 {fd} w2 w4)" by (rule wpE3)
    show ?thesis
    proof (cases "r4 < 0")
      case True
      then show ?thesis using go a4 cl2 by (auto simp: pa1_main_def op al ini bd fail split: prod.split)
    next
      case r4: False
      then obtain "is" where ix4: "indexed ?x T (w_names w) ix4 w4" "ix_input_fd ix4 = fd" and o4: "owns is ix4 {fd} w2 w4"
        using a4 d2 by auto
      have fr: "frame (open_scope w2 {fd} {}) w2 w4" using o4 by (simp add: owns_def)
      have same: "fd_of w4 0 = Some f0" "fd_of w4 1 = Some f1"
        using frame_fd [OF fr, of 0] frame_fd [OF fr, of 1] fd2 ne f0 f1' by simp_all
      have dt: "w_data w4 j = w_data w j" if "j < w_nino w2" for j using frame_data [OF fr that] that d2 by simp
      have i0: "o_ino f0 < w_nino w2" using wf2 fd2 [of 0] ne f0 by (auto simp: wfw_def)
      have so: "sink_ok ?x (outbuf_init 1) w4" using same f1 dt [OF x2] by (simp add: sink_ok_def appendable_def outbuf_init_def)
      have rest: "fd_rest w4 0 = fd_rest w 0" using same f0 dt [OF i0] by (simp add: fd_rest_def)
      have z: "0 \<notin> set (ix_occ_fds ix4)" using o4 fd2 [of 0] ne f0 by (auto simp: owns_def ix_fds_def)
      have "ready ?x T (w_names w) ix4 (line_reader_init 0) (outbuf_init 1) query_scratch_init (fd_rest w 0) w4"
        using ix4 so lr_init [of w4 0] same rest z apart
        by (simp add: ready_def outbuf_init_def line_reader_init_def query_scratch_init_def vec_ok_def empty_vec_def)
      from main_loop_spec [OF this _ qs(2), of empty_vec]
      have m: "wp (main_loop ix4 (line_reader_init 0) empty_vec (outbuf_init 1) query_scratch_init w4)
          (run_ends T (w_names w) (set (fd # ix_fds ix4)) qs w4)"
        by (simp add: ix4(2) qs(1) vec_ok_def empty_vec_def)
      have c4: "content w4 1 = content w 1" using same f1' dt [OF x2] by (simp add: content_def)
      have "clean w \<Longrightarrow> clean w4" using frame_clean [OF fr] quiet_clean [OF a2(1)] frame_clean [OF o1(1)] by blast
      moreover have "fd_of w y \<noteq> None" if "fd_of w4 y \<noteq> None" "y \<notin> set (fd # ix_fds ix4)" for y
      proof -
        have "fd_of w2 y \<noteq> None" using o4 that unfolding owns_def by (metis set_ConsD list.set_intros(2))
        then show ?thesis using fd2 [of y] that(2) by simp
      qed
      ultimately have "run_ends T (w_names w) {} qs w res" if "run_ends T (w_names w) (set (fd # ix_fds ix4)) qs w4 res" for res
        using that c4 by (fastforce simp: run_ends_def)
      from wp_mono [OF m this] show ?thesis using go r4 by (simp add: pa1_main_def op al ini bd)
    qed
  qed
qed

end
