(* ===== verification/Pa1_Properties.thy ===== *)
theory Pa1_Properties
  imports Pa1_Main
begin

text \<open>
  The properties of \<^verbatim>\<open>PA1\<close>, one theorem each, over the facts the component theories prove,
  with a run of each on a small concrete world.
\<close>

section \<open>A small world\<close>

text \<open>
  The file \<open>f\<close> holds a text (inode 0); descriptor 0 is a stream with the queries (inode 1), 1 and 2 are the
  streams of the output and the messages (inodes 2 and 3).
\<close>

definition demo_world :: "byte list \<Rightarrow> byte list \<Rightarrow> outcome list \<Rightarrow> world" where
  "demo_world text_bytes queries plan =
     \<lparr>w_fds = map (\<lambda>i. Some \<lparr>o_ino = i, o_off = 0, o_kind = Stream\<rparr>) [1, 2, 3],
      w_data = (\<lambda>_. [])(0 := text_bytes, 1 := queries), w_names = [Named (bytes_of ''f'') \<mapsto> 0],
      w_nino = 4, w_ntmp = 0, w_errno = ENONE, w_plan = plan\<rparr>"

definition demo_text :: "byte list" where
  "demo_text = bytes_of ''ab cd\<newline>Ef aB\<newline>''"

lemma demo_fds:
  "fd_of (demo_world t q pl) fd = (if fd = 0 then Some \<lparr>o_ino = 1, o_off = 0, o_kind = Stream\<rparr>
     else if fd = 1 then Some \<lparr>o_ino = 2, o_off = 0, o_kind = Stream\<rparr>
     else if fd = 2 then Some \<lparr>o_ino = 3, o_off = 0, o_kind = Stream\<rparr> else None)"
proof -
  consider "fd < 0" | "fd = 0" | "fd = 1" | "fd = 2" | "3 \<le> fd" by linarith
  then show ?thesis by cases (auto simp: fd_of_def demo_world_def numeral_2_eq_2)
qed

lemma demo_simps [simp]:
  "w_data (demo_world t q pl) = (\<lambda>_. [])(0 := t, 1 := q)" "w_names (demo_world t q pl) = [Named (bytes_of ''f'') \<mapsto> 0]"
  "w_nino (demo_world t q pl) = 4" "w_plan (demo_world t q pl) = pl"
  by (simp_all add: demo_world_def)

lemma demo_wfw: "wfw (demo_world t q pl)"
  by (auto simp: wfw_def demo_fds split: if_splits)

lemma demo_start:
  assumes "length t < 2 ^ 32" and "length q \<le> SIZE_MAX div 2" and "lines_of q = qs"
  shows "start_world (bytes_of ''f'') t qs (demo_world t q pl)"
  using assms demo_wfw by (simp add: start_world_def demo_fds appendable_def fd_rest_def)

lemma demo_content: "content (demo_world t q pl) 1 = []"
  by (simp add: content_def demo_fds)

text \<open>The index that the program builds for the text, with the input file open at descriptor 3.\<close>

definition demo_open :: world where
  "demo_open = snd (sys_open (Named (bytes_of ''f'')) (demo_world demo_text [] []))"

lemma demo_open:
  "wfw demo_open" "fd_of demo_open 3 = Some \<lparr>o_ino = 0, o_off = 0, o_kind = Regular\<rparr>" "w_data demo_open 0 = demo_text"
  "fd_of demo_open 1 = Some \<lparr>o_ino = 2, o_off = 0, o_kind = Stream\<rparr>" "w_nino demo_open = 4" "w_plan demo_open = []"
  "w_data demo_open 2 = []"
proof -
  let ?w = "demo_world demo_text [] []"
  obtain fd w1 where o: "sys_open (Named (bytes_of ''f'')) ?w = (fd, w1)" by force
  have "fd = 3" and w1: "w1 = ?w\<lparr>w_fds := w_fds ?w @ [Some \<lparr>o_ino = 0, o_off = 0, o_kind = Regular\<rparr>]\<rparr>"
    using o by (simp_all add: sys_open_def next_outcome_def install_fd_def Let_def) (simp_all add: demo_world_def)
  then show "fd_of demo_open 3 = Some \<lparr>o_ino = 0, o_off = 0, o_kind = Regular\<rparr>" "w_data demo_open 0 = demo_text"
    "fd_of demo_open 1 = Some \<lparr>o_ino = 2, o_off = 0, o_kind = Stream\<rparr>" "w_nino demo_open = 4" "w_plan demo_open = []"
    "w_data demo_open 2 = []"
    by (simp_all add: demo_open_def o fd_of_def nth_append) (simp_all add: demo_world_def)
  have "frame (open_scope ?w {} {}) ?w w1"
    using sys_open_frame [OF o _ covers_open, of 0 "{}" "{}"] by simp
  from frame_wfw [OF this demo_wfw] show "wfw demo_open" by (simp add: demo_open_def o)
qed

lemma demo_small: "length demo_text < 2 ^ 32"
  by (simp add: demo_text_def bytes_of_def)

lemma demo_indexed:
  obtains ix w where "indexed 2 demo_text (w_names demo_open) ix w" and "sink_ok 2 (outbuf_init 1) w"
    and "sink (outbuf_init 1) w = []" and "clean w"
proof -
  have cl: "clean demo_open" by (simp add: clean_def demo_open(6))
  obtain r ix w1 where i: "index_init 3 demo_open = (r, ix, w1)" using prod_cases3 by blast
  have r: "\<not> r < 0" using index_init_spec [OF i demo_open(1)] cl by auto
  have "wp (index_build ix w1) (\<lambda>(r, ix2, w2). r < 0 \<and> \<not> clean demo_open \<or> r = 0 \<and> indexed 2 demo_text (w_names demo_open) ix2 w2
     \<and> ix_input_fd ix2 = 3 \<and> (\<exists>is. owns is ix2 {3} demo_open w2))"
    by (rule index_build_indexed [OF i r demo_open(1) demo_small demo_open(2) _ demo_open(3)]) (simp_all add: demo_open)
  then obtain r2 ix2 w2 where "indexed 2 demo_text (w_names demo_open) ix2 w2" "\<exists>is. owns is ix2 {3} demo_open w2"
    using cl by (auto simp: wp_iff)
  note a = this
  have fr: "frame (open_scope demo_open {3} {}) demo_open w2" using a(2) by (auto simp: owns_def)
  have f1: "fd_of w2 1 = Some \<lparr>o_ino = 2, o_off = 0, o_kind = Stream\<rparr>"
    using frame_fd [OF fr, of 1] demo_open(4) by simp
  have d: "w_data w2 2 = []" using frame_data [OF fr, of 2] demo_open by simp
  show thesis
    by (rule that [OF a(1)]) (use f1 d frame_clean [OF fr cl] in
      \<open>simp_all add: sink_ok_def appendable_def outbuf_init_def sink_def content_def\<close>)
qed

section \<open>The whole program\<close>

text \<open>
  C1: On a file, and standard input with the lines \<open>qs\<close>, the program always comes to an end. With status 0
  it has printed exactly the answers of the specification to the queries before the end of the
  session; with status 1 some call has failed or the session has a query that is too long.
\<close>

theorem pa1_main_answers:
  assumes "start_world name T qs w"
  shows "\<exists>status w'. pa1_main [prog, name] w = Some (status, w') \<and>
     (status = 0 \<and> fst (session T qs) = 0 \<and> content w' 1 = content w 1 @ snd (session T qs)
    \<or> status = 1 \<and> (\<not> clean w \<or> fst (session T qs) = 1))"
  using pa1_main_spec [OF assms, of prog] by (auto simp: wp_iff run_ends_def split: prod.splits)

lemma pa1_main_answers_witness:
  "\<exists>w'. pa1_main [[], bytes_of ''f''] (demo_world demo_text (bytes_of ''AB\<newline>ef*ab\<newline>PA1EXIT\<newline>'') []) = Some (0, w')
     \<and> content w' 1 = bytes_of ''1:0 2:3 \<newline>2 \<newline>''"
proof -
  let ?q = "bytes_of ''AB\<newline>ef*ab\<newline>PA1EXIT\<newline>''"
  have st: "start_world (bytes_of ''f'') demo_text (lines_of ?q) (demo_world demo_text ?q [])"
    by (rule demo_start) (simp_all add: demo_text_def bytes_of_def SIZE_MAX_def)
  have "session demo_text (lines_of ?q) = (0, bytes_of ''1:0 2:3 \<newline>2 \<newline>'')" by code_simp
  then show ?thesis using pa1_main_answers [OF st, of "[]"] by (auto simp: clean_def demo_content)
qed

text \<open>
  C2: If no call fails for good and no query is too long, the program ends with status 0 and has
  printed every answer, whatever interruptions and short transfers there are.
\<close>

theorem pa1_main_succeeds:
  assumes "start_world name T qs w" and "clean w" and "\<And>q. q \<in> set qs \<Longrightarrow> length q \<le> QUERY_LIMIT"
  shows "\<exists>w'. pa1_main [prog, name] w = Some (0, w') \<and> content w' 1 = content w 1 @ snd (session T qs)"
proof -
  have "fst (session T qs) = 0" using assms(3) by (induction qs) (auto simp: not_le [symmetric] split: prod.split)
  then show ?thesis using pa1_main_spec [OF assms(1), of prog] assms(2) by (auto simp: wp_iff run_ends_def)
qed

lemma pa1_main_succeeds_witness:
  "\<exists>w'. pa1_main [[], bytes_of ''f''] (demo_world demo_text (bytes_of ''AB cd\<newline>'') [Eintr, Short 1, Short 3, Eintr]) = Some (0, w')
     \<and> content w' 1 = bytes_of ''1 \<newline>''"
proof -
  let ?q = "bytes_of ''AB cd\<newline>''"
  have st: "start_world (bytes_of ''f'') demo_text (lines_of ?q) (demo_world demo_text ?q [Eintr, Short 1, Short 3, Eintr])"
    by (rule demo_start) (simp_all add: demo_text_def bytes_of_def SIZE_MAX_def)
  have l: "lines_of ?q = [bytes_of ''AB cd'']" by code_simp
  have "snd (session demo_text [bytes_of ''AB cd'']) = bytes_of ''1 \<newline>''" by code_simp
  then show ?thesis using pa1_main_succeeds [OF st, of "[]"] unfolding l
    by (simp add: clean_def demo_content bytes_of_def QUERY_LIMIT_def)
qed

text \<open>
  C3: A run that ends with status 0 leaves no descriptor open that was not open before, and, if no
  call failed, no temporary file: the directory is what it was.
\<close>

theorem pa1_main_leaves_nothing:
  assumes "start_world name T qs w" and "pa1_main [prog, name] w = Some (0, w')"
  shows "(\<forall>fd. fd_of w' fd \<noteq> None \<longrightarrow> fd_of w fd \<noteq> None) \<and> (clean w \<longrightarrow> w_names w' = w_names w)"
  using pa1_main_spec [OF assms(1), of prog] assms(2) by (auto simp: run_ends_def)

lemma pa1_main_leaves_nothing_witness:
  "\<exists>w'. pa1_main [[], bytes_of ''f''] (demo_world demo_text [] []) = Some (0, w') \<and> fd_of w' 3 = None
     \<and> w_names w' = [Named (bytes_of ''f'') \<mapsto> 0]"
proof -
  have st: "start_world (bytes_of ''f'') demo_text [] (demo_world demo_text [] [])"
    by (rule demo_start) (simp_all add: demo_text_def bytes_of_def SIZE_MAX_def)
  obtain w' where m: "pa1_main [[], bytes_of ''f''] (demo_world demo_text [] []) = Some (0, w')"
    using pa1_main_spec [OF st, of "[]"] by (auto simp: wp_iff run_ends_def clean_def)
  show ?thesis using m pa1_main_leaves_nothing [OF st m]
    by (auto simp: clean_def demo_fds)
qed

text \<open>
  C11: A query of more than \<open>QUERY_LIMIT\<close> bytes that comes before the end of the session makes the
  program fail with status 1.
\<close>

theorem pa1_main_long_query:
  assumes "start_world name T (pre @ q # rest) w" and "bytes_of ''PA1EXIT'' \<notin> set pre" and "length q > QUERY_LIMIT"
  shows "\<exists>w'. pa1_main [prog, name] w = Some (1, w')"
proof -
  have "fst (session T (pre @ q # rest)) = 1" using assms(2,3) by (induction pre) (auto split: prod.split)
  then show ?thesis using pa1_main_spec [OF assms(1), of prog] by (auto simp: wp_iff run_ends_def)
qed

lemma pa1_main_long_query_witness:
  "\<exists>w'. pa1_main [[], bytes_of ''f''] (demo_world demo_text (replicate 4097 65) []) = Some (1, w')"
proof -
  let ?q = "replicate 4097 65 :: byte list"
  have n: "takeWhile not_nl ?q = ?q" "dropWhile not_nl ?q = []" by (simp_all add: not_nl_def NEWLINE_def)
  have "lines_of ?q = [] @ ?q # []" by (subst lines_of.simps) (simp only: n, simp)
  then have "start_world (bytes_of ''f'') demo_text ([] @ ?q # []) (demo_world demo_text ?q [])"
    by (intro demo_start) (simp_all add: demo_text_def bytes_of_def SIZE_MAX_def)
  from pa1_main_long_query [OF this, of "[]"] show ?thesis by (simp add: QUERY_LIMIT_def)
qed


section \<open>Queries\<close>

text \<open>
  C4: A query of admissible length is answered as the specification says, whichever of the four kinds of
  query it is; the index stays intact and the temporary files of the query are gone afterwards.
\<close>

theorem handle_query_answers:
  assumes "indexed x T N ix w" and "sink_ok x out w" and "length q \<le> QUERY_LIMIT" and "vec_ok (qs_line_buf scratch)"
  shows "\<exists>r ix' out' scratch' w'. handle_query ix q out scratch w = Some (r, ix', out', scratch', w')
     \<and> (r = 0 \<and> indexed x T N ix' w' \<and> sink out' w' = sink out w @ answer T q
           \<and> (\<forall>fd. fd_of w' fd \<noteq> None \<longrightarrow> fd_of w fd \<noteq> None)
        \<or> r < 0 \<and> \<not> clean w)"
  using handle_query_spec [OF assms] by (auto simp: wp_iff answered_scratch_def answered_def serving_def)

lemma handle_query_answers_witness:
  "\<exists>ix w ix' out' scratch' w'. indexed 2 demo_text (w_names demo_open) ix w
     \<and> handle_query ix (bytes_of ''\"B CD\" '') (outbuf_init 1) query_scratch_init w = Some (0, ix', out', scratch', w')
     \<and> sink out' w' = bytes_of ''\<newline>''"
proof -
  obtain ix w where d: "indexed 2 demo_text (w_names demo_open) ix w" "sink_ok 2 (outbuf_init 1) w"
    "sink (outbuf_init 1) w = []" "clean w" by (rule demo_indexed)
  have l: "length (bytes_of ''\"B CD\" '') \<le> QUERY_LIMIT" by (simp add: bytes_of_def QUERY_LIMIT_def)
  have v: "vec_ok (qs_line_buf query_scratch_init)" by (simp add: query_scratch_init_def vec_ok_def empty_vec_def)
  have "answer demo_text (bytes_of ''\"B CD\" '') = bytes_of ''\<newline>''" by code_simp
  then show ?thesis using handle_query_answers [OF d(1,2) l v] d by fastforce
qed

text \<open>
  C6: A phrase query prints the position of every word at which the line continues with the phrase, up to
  case and up to a separator or the end of the line; a query that is no valid phrase prints an empty line.
\<close>

theorem handle_phrase_answers:
  assumes "indexed x T N ix w" and "sink_ok x out w" and "length q < 2 ^ 32" and "vec_ok (qs_line_buf scratch)"
  shows "\<exists>r ix' out' scratch' w'. handle_phrase ix q out scratch w = Some (r, ix', out', scratch', w')
     \<and> (r = 0 \<and> sink out' w' = sink out w @ (if valid_phrase q then phrase_answer T (quoted q) else []) @ [NEWLINE]
        \<or> r < 0 \<and> \<not> clean w)"
  using handle_phrase_spec [OF assms]
  by (auto simp: wp_iff answered_scratch_def answered_def serving_def phrase_text_def)

lemma handle_phrase_answers_witness:
  "\<exists>ix w ix' out' scratch' w'. indexed 2 demo_text (w_names demo_open) ix w
     \<and> handle_phrase ix (bytes_of ''\"EF ab\"'') (outbuf_init 1) query_scratch_init w = Some (0, ix', out', scratch', w')
     \<and> sink out' w' = bytes_of ''2:0 \<newline>''"
proof -
  obtain ix w where d: "indexed 2 demo_text (w_names demo_open) ix w" "sink_ok 2 (outbuf_init 1) w"
    "sink (outbuf_init 1) w = []" "clean w" by (rule demo_indexed)
  have l: "length (bytes_of ''\"EF ab\"'') < 2 ^ 32" by (simp add: bytes_of_def)
  have v: "vec_ok (qs_line_buf query_scratch_init)" by (simp add: query_scratch_init_def vec_ok_def empty_vec_def)
  have "(if valid_phrase (bytes_of ''\"EF ab\"'') then phrase_answer demo_text (quoted (bytes_of ''\"EF ab\"'')) else []) @ [NEWLINE]
      = bytes_of ''2:0 \<newline>''" by code_simp
  then show ?thesis using handle_phrase_answers [OF d(1,2) l v] d by fastforce
qed

text \<open>
  C5: A query of several words prints, in ascending order and once each, the numbers of exactly the lines
  that contain all the words: merging the caches in the order of their sizes, through temporary files
  from the third word on, amounts to the intersection of the line sets.
\<close>

theorem handle_multi_answers:
  assumes "indexed x T N ix w" and "sink_ok x out w" and "length q \<le> QUERY_LIMIT" and "query_words q \<noteq> []"
  shows "\<exists>r ix' out' w'. handle_multi ix q out w = Some (r, ix', out', w')
     \<and> (r = 0 \<and> sink out' w' = sink out w @ concat (map line_text
            (filter (\<lambda>k. \<forall>v\<in>set (query_words q). has_word T (lower v) k) [1..<Suc (length (lines_of T))])) @ [NEWLINE]
        \<or> r < 0 \<and> \<not> clean w)"
  using handle_multi_spec [OF assms(1-3)] assms(4)
  by (auto simp: wp_iff answered_def serving_def multi_text_def multi_answer_def lines_where_def simp del: upt_Suc)

lemma handle_multi_answers_witness:
  "\<exists>ix w ix' out' w'. indexed 2 demo_text (w_names demo_open) ix w
     \<and> handle_multi ix (bytes_of ''CD ab ab cd'') (outbuf_init 1) w = Some (0, ix', out', w') \<and> sink out' w' = bytes_of ''1 \<newline>''"
proof -
  obtain ix w where d: "indexed 2 demo_text (w_names demo_open) ix w" "sink_ok 2 (outbuf_init 1) w"
    "sink (outbuf_init 1) w = []" "clean w" by (rule demo_indexed)
  let ?q = "bytes_of ''CD ab ab cd''"
  have l: "length ?q \<le> QUERY_LIMIT" by (simp add: bytes_of_def QUERY_LIMIT_def)
  have n: "query_words ?q \<noteq> []" by code_simp
  have "concat (map line_text (filter (\<lambda>k. \<forall>v\<in>set (query_words ?q). has_word demo_text (lower v) k)
      [1..<Suc (length (lines_of demo_text))])) @ [NEWLINE] = bytes_of ''1 \<newline>''" by code_simp
  then show ?thesis using handle_multi_answers [OF d(1,2) l n] d by fastforce
qed

text \<open>
  C7: A pattern query \<open>l*r\<close> prints the numbers of exactly the lines in which some occurrence of \<open>l\<close> comes
  before some occurrence of \<open>r\<close>.
\<close>

theorem handle_pattern_answers:
  assumes "indexed x T N ix w" and "sink_ok x out w" and "length q < 2 ^ 32"
  shows "\<exists>r ix' out' w'. handle_pattern ix q out w = Some (r, ix', out', w')
     \<and> (r = 0 \<and> sink out' w' = sink out w
            @ (if valid_pattern q then pattern_answer T (pattern_left q) (pattern_right q) else []) @ [NEWLINE]
        \<or> r < 0 \<and> \<not> clean w)"
  using handle_pattern_spec [OF assms] by (auto simp: wp_iff answered_def serving_def pattern_text_def)

lemma handle_pattern_answers_witness:
  "\<exists>ix w ix' out' w'. indexed 2 demo_text (w_names demo_open) ix w
     \<and> handle_pattern ix (bytes_of ''ab*cd'') (outbuf_init 1) w = Some (0, ix', out', w') \<and> sink out' w' = bytes_of ''1 \<newline>''"
proof -
  obtain ix w where d: "indexed 2 demo_text (w_names demo_open) ix w" "sink_ok 2 (outbuf_init 1) w"
    "sink (outbuf_init 1) w = []" "clean w" by (rule demo_indexed)
  let ?q = "bytes_of ''ab*cd''"
  have l: "length ?q < 2 ^ 32" by (simp add: bytes_of_def)
  have "(if valid_pattern ?q then pattern_answer demo_text (pattern_left ?q) (pattern_right ?q) else []) @ [NEWLINE]
      = bytes_of ''1 \<newline>''" by code_simp
  then show ?thesis using handle_pattern_answers [OF d(1,2) l] d by fastforce
qed

section \<open>The index\<close>

text \<open>
  C8: Building the index of a text leaves it complete: the bucket files hold every occurrence of every word,
  the offset table every line, the lexicon the words in the order of their first occurrence.
\<close>

theorem index_build_complete:
  assumes "index_init fd w = (0, ix, w1)" and "wfw w" and "length T < 2 ^ 32" and "0 \<le> fd" and "x < w_nino w"
    and "fd_of w fd = Some \<lparr>o_ino = i, o_off = 0, o_kind = Regular\<rparr>" and "w_data w i = T" and "i \<noteq> x"
  shows "\<exists>r ix2 w2. index_build ix w1 = Some (r, ix2, w2) \<and> (r = 0 \<and> indexed x T (w_names w) ix2 w2 \<or> r < 0 \<and> \<not> clean w)"
  using index_build_indexed [OF assms(1) _ assms(2,3,6,4,7,8,5)] by (auto simp: wp_iff)

lemma index_build_complete_witness:
  "\<exists>ix w1 ix2 w2. index_init 3 demo_open = (0, ix, w1) \<and> index_build ix w1 = Some (0, ix2, w2)
     \<and> indexed 2 demo_text (w_names demo_open) ix2 w2"
proof -
  have cl: "clean demo_open" by (simp add: clean_def demo_open(6))
  obtain r ix w1 where i: "index_init 3 demo_open = (r, ix, w1)" using prod_cases3 by blast
  then have i0: "index_init 3 demo_open = (0, ix, w1)" using index_init_spec [OF i demo_open(1)] cl by auto
  show ?thesis
    using index_build_complete [OF i0 demo_open(1) demo_small _ _ demo_open(2,3), of 2] i0 cl by (auto simp: demo_open)
qed

text \<open>
  C9: What was indexed is read back: \<open>index_read_line\<close> returns line \<open>k + 1\<close> of the text, without its newline.
\<close>

theorem index_read_line_back:
  assumes "indexed x T N ix w" and "vec_ok line" and "k < length (lines_of T)"
  shows "\<exists>r line' w'. index_read_line ix (of_nat (Suc k)) line w = Some (r, line', w') \<and> w_data w' = w_data w
     \<and> (r = 0 \<and> v_items line' = lines_of T ! k \<or> r = -1 \<and> \<not> clean w)"
  using index_read_line_spec [OF assms] by (auto simp: wp_iff quiet_def)

lemma index_read_line_back_witness:
  "\<exists>ix w line' w'. indexed 2 demo_text (w_names demo_open) ix w
     \<and> index_read_line ix 2 empty_vec w = Some (0, line', w') \<and> v_items line' = bytes_of ''Ef aB''"
proof -
  obtain ix w where d: "indexed 2 demo_text (w_names demo_open) ix w" "clean w" by (rule demo_indexed)
  have l: "lines_of demo_text = [bytes_of ''ab cd'', bytes_of ''Ef aB'']" by code_simp
  have v: "vec_ok empty_vec" by (simp add: vec_ok_def empty_vec_def)
  have "1 < length (lines_of demo_text)" by (simp add: l)
  from index_read_line_back [OF d(1) v this] show ?thesis using d by (fastforce simp: l)
qed

section \<open>Caches and the choice of words\<close>

lemma bucket_small: "bucket_of q < 256"
  by (simp add: bucket_of_def pa1_consts)

text \<open>
  C10: Materialising the cache of a word keeps the index intact and every cache there is; afterwards the cache
  of the word names a file that holds exactly the records of the word, in the order of the text, and its
  count is their number.
\<close>

theorem ensure_word_cache_fills:
  assumes "indexed x T N ix w" and "k < length (words_of (occs_of T))"
    and "unat word_id = k" and "unat bucket = bucket_of (words_of (occs_of T) ! k)"
  shows "\<exists>r ix' w'. ensure_word_cache ix word_id bucket w = Some (r, ix', w') \<and> (r = -1 \<and> \<not> clean w
     \<or> r = 0 \<and> indexed x T N ix' w' \<and> grown ix ix'
       \<and> (\<exists>p i. le_cache_path (lx_entries (ix_lexicon ix') ! k) = Some p \<and> w_names w' p = Some i
            \<and> w_data w' i = recs_bytes (word_recs T k)
            \<and> unat (le_cache_count (lx_entries (ix_lexicon ix') ! k)) = length (word_recs T k)))"
proof -
  obtain r ix' w' where e: "ensure_word_cache ix word_id bucket w = Some (r, ix', w')" "ensured x T N ix k w (r, ix', w')"
    using ensure_word_cache_spec [OF assms] by (auto simp: wp_iff)
  show ?thesis
  proof (cases "r = 0")
    case True
    then have a: "indexed x T N ix' w'" "grown ix ix'" "cached ix' k" using e(2) by (auto simp: ensured_def)
    then obtain p where p: "k < length (lx_entries (ix_lexicon ix'))" "le_cache_path (lx_entries (ix_lexicon ix') ! k) = Some p"
      by (auto simp: cached_def)
    then have "cache_ok x T w' k (lx_entries (ix_lexicon ix') ! k)" using a(1) by (simp add: indexed_def caches_ok_def)
    then show ?thesis using e(1) True a p by (auto simp: cache_ok_def)
  next
    case False
    then show ?thesis using e by (auto simp: ensured_def)
  qed
qed

lemma ensure_word_cache_fills_witness:
  "\<exists>ix w ix' w' p i. indexed 2 demo_text (w_names demo_open) ix w
     \<and> ensure_word_cache ix 0 (of_nat (bucket_of (bytes_of ''ab''))) w = Some (0, ix', w')
     \<and> le_cache_path (lx_entries (ix_lexicon ix') ! 0) = Some p \<and> w_names w' p = Some i
     \<and> w_data w' i = recs_bytes [\<lparr>oc_word = 0, oc_line = 1, oc_start = 0\<rparr>, \<lparr>oc_word = 0, oc_line = 2, oc_start = 3\<rparr>]"
proof -
  obtain ix w where d: "indexed 2 demo_text (w_names demo_open) ix w" "clean w" by (rule demo_indexed)
  have wo: "words_of (occs_of demo_text) = [bytes_of ''ab'', bytes_of ''cd'', bytes_of ''ef'']" by code_simp
  have b: "unat (of_nat (bucket_of (bytes_of ''ab'')) :: u32) = bucket_of (words_of (occs_of demo_text) ! 0)"
    using bucket_small [of "bytes_of ''ab''"] by (simp add: wo lower_def bytes_of_def unat_u32)
  have r: "word_recs demo_text 0 = [\<lparr>oc_word = 0, oc_line = 1, oc_start = 0\<rparr>, \<lparr>oc_word = 0, oc_line = 2, oc_start = 3\<rparr>]"
    by code_simp
  have "0 < length (words_of (occs_of demo_text))" by (simp add: wo)
  from ensure_word_cache_fills [OF d(1) this _ b, of 0] d(2) obtain ix' w' p i where
    "ensure_word_cache ix 0 (of_nat (bucket_of (bytes_of ''ab''))) w = Some (0, ix', w')"
    "le_cache_path (lx_entries (ix_lexicon ix') ! 0) = Some p" "w_names w' p = Some i"
    "w_data w' i = recs_bytes (word_recs demo_text 0)" by auto
  then show ?thesis using d(1) unfolding r by blast
qed

text \<open>
  Sorting the words of a query permutes the pairs of word and bucket, and puts the words in ascending
  order of the sizes of their caches.
\<close>

theorem sort_query_words_sorts:
  assumes "length bs = length ids" and "\<forall>v\<in>set ids. cache_count_of ix v \<noteq> None"
  shows "\<exists>ids' bs'. sort_query_words_by_cache_size ix ids bs = Some (ids', bs') \<and> length bs' = length ids'
     \<and> mset (zip ids' bs') = mset (zip ids bs) \<and> sorted (map (\<lambda>v. the (cache_count_of ix v)) ids')"
proof -
  have c: "count_of ix = (\<lambda>v. the (cache_count_of ix v))" by (simp add: count_of_def fun_eq_iff)
  show ?thesis
    by (rule sort_query_words_spec [OF assms(1), of ix]) (use assms(2) in \<open>auto simp: c\<close>)
qed

definition demo_entry :: "u32 \<Rightarrow> lexentry" where
  "demo_entry n = \<lparr>le_text = [], le_len = 0, le_id = 0, le_hash = 0, le_bucket = 0, le_cache_path = None,
     le_cache_count = n, le_next = 0\<rparr>"

lemma sort_query_words_sorts_witness:
  "\<exists>ix ids' bs'. map le_cache_count (lx_entries (ix_lexicon ix)) = [9, 4, 7]
     \<and> sort_query_words_by_cache_size ix [0, 1, 2] [30, 31, 32] = Some (ids', bs')
     \<and> mset (zip ids' bs') = {#(0, 30), (1, 31), (2, 32)#} \<and> sorted (map (\<lambda>v. the (cache_count_of ix v)) ids')"
proof -
  obtain ix w where d: "indexed 2 demo_text (w_names demo_open) ix w" by (rule demo_indexed)
  define ix' where "ix' = ix\<lparr>ix_lexicon := (ix_lexicon ix)\<lparr>lx_entries := map demo_entry [9, 4, 7]\<rparr>\<rparr>"
  have c: "\<forall>v\<in>set [0, 1, 2]. cache_count_of ix' v \<noteq> None" by (simp add: ix'_def cache_count_of_def at_def)
  have "map le_cache_count (lx_entries (ix_lexicon ix')) = [9, 4, 7]" by (simp add: ix'_def demo_entry_def)
  then show ?thesis using sort_query_words_sorts [OF _ c, of "[30, 31, 32]"] by (intro exI [of _ ix']) auto
qed

text \<open>
  Choosing the words of a query never needs more than the \<open>QUERY_LIMIT / 2 + 1\<close> places of the arrays, and
  is defined: the words chosen are the different words of the query in the text, or some word of the query is missing in it.
\<close>

theorem collect_query_words_fits:
  assumes "indexed x T N ix w" and "length q \<le> QUERY_LIMIT"
  shows "\<exists>found ids bs. collect_query_words ix q = Some (found, ids, bs)
     \<and> (found \<and> distinct ids \<and> length bs = length ids
          \<and> (\<lambda>v. words_of (occs_of T) ! unat v) ` set ids = lower ` set (query_words q)
        \<or> \<not> found \<and> (\<exists>v\<in>set (query_words q). lower v \<notin> fst ` set (occs_of T)))"
proof (cases rule: collect_query_words_spec [OF assms])
  case (1 ids bs)
  have l: "length bs = length ids" and d: "distinct ids" and ex: "(i, b) \<in> set (zip ids bs) \<Longrightarrow> \<exists>q\<in>set (query_words q). found_at T q (unat i) i b"
    and all: "v \<in> set (query_words q) \<Longrightarrow> \<exists>(i, b)\<in>set (zip ids bs). found_at T v (unat i) i b" for i b v
    using 1(2) by (auto simp: chosen_def)
  have "(\<lambda>v. words_of (occs_of T) ! unat v) ` set ids = lower ` set (query_words q)"
  proof (intro equalityI subsetI)
    fix y assume "y \<in> (\<lambda>v. words_of (occs_of T) ! unat v) ` set ids"
    then obtain j where j: "j < length ids" "y = words_of (occs_of T) ! unat (ids ! j)" by (auto simp: in_set_conv_nth)
    then have "(ids ! j, bs ! j) \<in> set (zip ids bs)" using l by (auto simp: in_set_zip)
    from ex [OF this] show "y \<in> lower ` set (query_words q)" using j(2) by (auto simp: found_at_def)
  next
    fix y assume "y \<in> lower ` set (query_words q)"
    then obtain v where v: "v \<in> set (query_words q)" "y = lower v" by blast
    from all [OF v(1)] show "y \<in> (\<lambda>v. words_of (occs_of T) ! unat v) ` set ids"
      using v(2) by (force simp: found_at_def dest: set_zip_leftD)
  qed
  then show ?thesis using 1(1) l d by blast
next
  case (2 ids bs v)
  then show ?thesis by auto
qed


lemma collect_query_words_fits_witness:
  "\<exists>ix w ids bs. indexed 2 demo_text (w_names demo_open) ix w
     \<and> collect_query_words ix (bytes_of ''CD ab ab'') = Some (True, ids, bs) \<and> distinct ids"
proof -
  obtain ix w where d: "indexed 2 demo_text (w_names demo_open) ix w" "clean w" by (rule demo_indexed)
  let ?q = "bytes_of ''CD ab ab''"
  have l: "length ?q \<le> QUERY_LIMIT" by (simp add: bytes_of_def QUERY_LIMIT_def)
  have "\<forall>v\<in>set (query_words ?q). lower v \<in> fst ` set (occs_of demo_text)" by code_simp
  moreover obtain found ids bs where "collect_query_words ix ?q = Some (found, ids, bs)"
    "found \<and> distinct ids \<or> \<not> found \<and> (\<exists>v\<in>set (query_words ?q). lower v \<notin> fst ` set (occs_of demo_text))"
    using collect_query_words_fits [OF d(1) l] by blast
  ultimately show ?thesis using d(1) by (cases found) auto
qed

section \<open>Reading and writing\<close>

text \<open>
  C12: The line reader returns the next line of the input without its newline and keeps the rest for the
  next call, however the reads are interrupted and shortened; at the end of the input it returns 0.
\<close>

theorem line_reader_reads_lines:
  assumes "lr_ok rd w" and "vec_ok out" and "length (lr_rest rd w) \<le> SIZE_MAX div 2"
  shows "\<exists>r rd' out' nl w'. line_reader_read_line rd out w = Some (r, rd', out', nl, w')
     \<and> (r = -1 \<and> \<not> clean w
      \<or> r = (if lr_rest rd w = [] then 0 else 1)
        \<and> (lr_rest rd w \<noteq> [] \<longrightarrow> lines_of (lr_rest rd w) = v_items out' # lines_of (lr_rest rd' w')))"
proof -
  obtain r rd' out' nl w' where l: "line_reader_read_line rd out w = Some (r, rd', out', nl, w')"
    and st: "line_step rd [] w (r, rd', out', nl, w')"
    using line_reader_read_line_spec [OF assms] by (auto simp: wp_iff)
  let ?s = "lr_rest rd w"
  have ne: "(NEWLINE \<in> set ?s \<or> takeWhile not_nl ?s \<noteq> []) = (?s \<noteq> [])" by (cases ?s) (auto simp: not_nl_def)
  show ?thesis using l st ne lines_of.simps [of ?s] by (auto simp: line_step_def split: if_splits)
qed

lemma line_reader_reads_lines_witness:
  "\<exists>rd' out' nl w'. line_reader_read_line (line_reader_init 0) empty_vec
       (demo_world [] (bytes_of ''a b\<newline>c'') [Short 1, Eintr, Short 1]) = Some (1, rd', out', nl, w')
     \<and> v_items out' = bytes_of ''a b'' \<and> lines_of (lr_rest rd' w') = [bytes_of ''c'']"
proof -
  let ?w = "demo_world [] (bytes_of ''a b\<newline>c'') [Short 1, Eintr, Short 1]"
  have i: "lr_ok (line_reader_init 0) ?w" "lr_rest (line_reader_init 0) ?w = bytes_of ''a b\<newline>c''"
    using lr_init [of ?w 0] by (simp_all add: demo_fds fd_rest_def)
  have l: "lines_of (bytes_of ''a b\<newline>c'') = [bytes_of ''a b'', bytes_of ''c'']" by code_simp
  have v: "vec_ok empty_vec" by (simp add: vec_ok_def empty_vec_def)
  have s: "length (lr_rest (line_reader_init 0) ?w) \<le> SIZE_MAX div 2" unfolding i(2) by (simp add: bytes_of_def SIZE_MAX_def)
  have ne: "bytes_of ''a b\<newline>c'' \<noteq> []" by (simp add: bytes_of_def)
  show ?thesis using line_reader_reads_lines [OF i(1) v s] ne unfolding i(2) l by (auto simp: clean_def)
qed

text \<open>
  A full write appends all the bytes, however it is interrupted and shortened; when it reports an error,
  some call has failed and a prefix of the bytes is there.
\<close>

theorem write_full_writes_all:
  assumes "write_full fd bs w = (r, w')" and "appendable w fd f"
  shows "r = 0 \<and> content w' fd = content w fd @ bs \<or> r = -1 \<and> \<not> clean w \<and> (\<exists>k. content w' fd = content w fd @ take k bs)"
  using write_full_spec [OF assms] by auto

lemma write_full_writes_all_witness:
  "\<exists>w'. write_full 1 (bytes_of ''hello'') (demo_world [] [] [Eintr, Short 2, Short 1]) = (0, w') \<and> content w' 1 = bytes_of ''hello''"
proof -
  let ?w = "demo_world [] [] [Eintr, Short 2, Short 1]"
  obtain r w' where r: "write_full 1 (bytes_of ''hello'') ?w = (r, w')" by force
  have "appendable ?w 1 \<lparr>o_ino = 2, o_off = 0, o_kind = Stream\<rparr>" by (simp add: appendable_def demo_fds)
  from write_full_writes_all [OF r this] show ?thesis using r by (simp add: clean_def demo_content)
qed

text \<open>
  A number that is written in decimal reads back as itself, and needs at most the ten places that the
  code has for its digits.
\<close>

theorem outbuf_write_u32_reads_back:
  assumes "sink_ok i out w" and "outbuf_write_u32 out v w = (r, out', w')"
  shows "r = 0 \<and> (\<exists>digits. sink out' w' = sink out w @ digits \<and> read_dec 0 digits = unat v \<and> length (u32_digits v) \<le> 10)
     \<or> r = -1 \<and> \<not> clean w"
proof -
  have "unat v < 2 ^ 32" using unsigned_less [where ?'a = nat, of v] by simp
  then have "unat v < 10 ^ 10" by simp
  then have "length (u32_digits v) \<le> 10" by (rule u32_digits_length)
  then show ?thesis using outbuf_write_u32_emits [OF assms(1), of v] assms(2) read_dec_show_nat
    by (auto simp: emits_def)
qed

lemma outbuf_write_u32_reads_back_witness:
  "\<exists>out' w' digits. outbuf_write_u32 (outbuf_init 1) 4294967295 (demo_world [] [] []) = (0, out', w')
     \<and> sink out' w' = digits \<and> read_dec 0 digits = 4294967295"
proof -
  let ?w = "demo_world [] [] []"
  obtain r out' w' where r: "outbuf_write_u32 (outbuf_init 1) 4294967295 ?w = (r, out', w')" using prod_cases3 by blast
  have s: "sink_ok 2 (outbuf_init 1) ?w" "sink (outbuf_init 1) ?w = []"
    by (simp_all add: sink_ok_def appendable_def demo_fds outbuf_init_def sink_def content_def)
  show ?thesis using outbuf_write_u32_reads_back [OF s(1) r] r s(2) by (auto simp: clean_def)
qed

text \<open>
  A temporary file without a name is created under a new descriptor, empty, and its name is gone from
  the directory.
\<close>

theorem create_temp_file_unnamed:
  assumes "create_temp_file tag w = (fd, w')" and "wfw w" and "length tag \<le> 47"
  shows "0 \<le> fd \<and> fd_of w fd = None \<and> content w' fd = [] \<and> fd_of w' fd \<noteq> None \<and> w_names w' = w_names w \<or> fd = -1 \<and> \<not> clean w"
  using create_temp_file_spec [OF assms(1) covers_open assms(2,3), of "{}" "{}"] by (auto simp: fresh_file_def content_def)

lemma create_temp_file_unnamed_witness:
  "\<exists>fd w'. create_temp_file (bytes_of ''occ'') (demo_world [] [] []) = (fd, w') \<and> 3 \<le> fd \<and> content w' fd = []
     \<and> w_names w' = w_names (demo_world [] [] [])"
proof -
  obtain fd w' where c: "create_temp_file (bytes_of ''occ'') (demo_world [] [] []) = (fd, w')" by force
  have "length (bytes_of ''occ'') \<le> 47" by (simp add: bytes_of_def)
  from create_temp_file_unnamed [OF c demo_wfw this] c show ?thesis
    by (fastforce simp: clean_def demo_fds split: if_splits)
qed

section \<open>Memory\<close>

text \<open>
  Moving bytes inside one memory is right for overlapping ranges too: the destination gets what the
  source held before, everything else stays, and no access leaves the memory.
\<close>

theorem move_bytes_overlapping:
  assumes "s + n \<le> length mem" and "d + n \<le> length mem"
  shows "\<exists>mem'. move_bytes mem d s n = Some mem' \<and> length mem' = length mem
     \<and> (\<forall>i<length mem. mem' ! i = (if d \<le> i \<and> i < d + n then mem ! (s + (i - d)) else mem ! i))"
  unfolding move_bytes_spec [OF assms]
proof (intro exI conjI)
  let ?m = "take d mem @ take n (drop s mem) @ drop (d + n) mem"
  show "Some ?m = Some ?m" ..
  show "length ?m = length mem" using assms by simp
  show "\<forall>i<length mem. ?m ! i = (if d \<le> i \<and> i < d + n then mem ! (s + (i - d)) else mem ! i)"
  proof (intro allI impI)
    fix i assume i: "i < length mem"
    have m: "min n (length mem - s) = n" "min (length mem) d = d" using assms by simp_all
    show "?m ! i = (if d \<le> i \<and> i < d + n then mem ! (s + (i - d)) else mem ! i)"
      using i assms by (simp add: nth_append m) (auto simp: not_less)
  qed
qed

lemma move_bytes_overlapping_witness:
  "\<exists>mem'. move_bytes (bytes_of ''abcdef'') 2 0 4 = Some mem' \<and> mem' ! 2 = of_char CHR ''a'' \<and> mem' ! 5 = of_char CHR ''d''"
  using move_bytes_overlapping [of 0 4 "bytes_of ''abcdef''" 2] by (auto simp: bytes_of_def)

text \<open>
  Growing a capacity ends, never shrinks it, stays within \<open>size_t\<close>, and is refused only when doubling
  would overflow.
\<close>

theorem grow_capacity_bounds:
  assumes "cap \<le> SIZE_MAX"
  shows "\<exists>r n. grow_capacity cap needed = Some (r, n)
     \<and> (r = 0 \<and> needed \<le> n \<and> cap \<le> n \<and> n \<le> SIZE_MAX \<or> r = -1 \<and> n = cap \<and> SIZE_MAX div 2 < needed)"
  using grow_capacity_spec [OF assms, of needed] by (auto simp: wp_iff)

lemma grow_capacity_bounds_witness:
  "\<exists>n. grow_capacity 16 1000 = Some (0, n) \<and> 1000 \<le> n"
  using grow_capacity_bounds [of 16 1000] by (auto simp: SIZE_MAX_def)

text \<open>
  Appending to a byte array keeps length within capacity, and appends all of the data or none of it.
\<close>

theorem bytevec_append_ok:
  assumes "vec_ok vec" and "length (v_items vec) + length data \<le> SIZE_MAX div 2"
  shows "\<exists>r vec' w'. bytevec_append vec data w = Some (r, vec', w') \<and> vec_ok vec'
     \<and> (r = 0 \<and> v_items vec' = v_items vec @ data \<or> r = -1 \<and> \<not> clean w)"
  using bytevec_append_spec [OF assms, of w] by (auto simp: wp_iff)

lemma bytevec_append_ok_witness:
  "\<exists>vec' w'. bytevec_append empty_vec (bytes_of ''xyz'') (demo_world [] [] []) = Some (0, vec', w')
     \<and> v_items vec' = bytes_of ''xyz'' \<and> 3 \<le> v_cap vec'"
proof -
  have v: "vec_ok empty_vec" "v_items empty_vec = []" by (simp_all add: vec_ok_def empty_vec_def)
  have l: "length (v_items empty_vec) + length (bytes_of ''xyz'') \<le> SIZE_MAX div 2"
    by (simp add: v bytes_of_def SIZE_MAX_def)
  show ?thesis using bytevec_append_ok [OF v(1) l, of "demo_world [] [] []"] v(2)
    by (auto simp: clean_def vec_ok_def bytes_of_def)
qed

end
