(* ===== verification/Pa2_Parser.thy ===== *)
theory Pa2_Parser
  imports Prelude
begin

text \<open>
  \<^verbatim>\<open>PA2/shell_src/parser.c\<close>: the lexer and the parser of the shell. A line is a C string, \<open>None\<close> is
  undefined behaviour. The source does not look at the results of its allocations: they are taken to
  succeed. Warnings on the error stream are not part of the results.
\<close>

section \<open>Characters and tokens\<close>

abbreviation chr :: "char \<Rightarrow> byte" where
  "chr c \<equiv> of_char c"

definition NL :: byte where "NL = 10"

definition SQUOTE :: byte where "SQUOTE = 39"

definition DQUOTE :: byte where "DQUOTE = 34"

definition white :: "byte \<Rightarrow> bool" where
  "white b \<longleftrightarrow> b = 32 \<or> (9 \<le> b \<and> b \<le> 13)"

definition is_special_char :: "byte \<Rightarrow> bool" where
  "is_special_char c \<longleftrightarrow> c \<in> {chr CHR ''<'', chr CHR ''>'', chr CHR ''|'', SQUOTE, DQUOTE, chr CHR ''&'', chr CHR '';'', NL, 0, chr CHR '' ''}"

datatype TokenType = TOKEN_COMMAND | TOKEN_ARGUMENT | TOKEN_VARIABLE | TOKEN_PIPE | TOKEN_REDIRECT_IN
  | TOKEN_REDIRECT_OUT | TOKEN_REDIRECT_APPEND | TOKEN_BACKGROUND | TOKEN_SEP | TOKEN_END

record token =
  tk_type :: TokenType
  tk_data :: "byte list"

definition mk_token :: "TokenType \<Rightarrow> byte list \<Rightarrow> token" where
  "mk_token ty data = \<lparr>tk_type = ty, tk_data = data\<rparr>"

text \<open>The data of the last token is a null pointer that is never used.\<close>

definition END_TOKEN :: token where "END_TOKEN = mk_token TOKEN_END []"

definition MAX_TOKENS :: nat where "MAX_TOKENS = 1000"

definition is_separator :: "token \<Rightarrow> bool" where "is_separator t \<longleftrightarrow> tk_type t = TOKEN_SEP"

definition is_background :: "token \<Rightarrow> bool" where "is_background t \<longleftrightarrow> tk_type t = TOKEN_BACKGROUND"

definition is_pipe :: "token \<Rightarrow> bool" where "is_pipe t \<longleftrightarrow> tk_type t = TOKEN_PIPE"

definition is_redirection :: "token \<Rightarrow> bool" where
  "is_redirection t \<longleftrightarrow> tk_type t = TOKEN_REDIRECT_IN \<or> tk_type t = TOKEN_REDIRECT_OUT \<or> tk_type t = TOKEN_REDIRECT_APPEND"

definition is_end :: "token \<Rightarrow> bool" where "is_end t \<longleftrightarrow> tk_type t = TOKEN_END"

definition is_command :: "token \<Rightarrow> bool" where "is_command t \<longleftrightarrow> tk_type t = TOKEN_COMMAND"

definition is_argument :: "token \<Rightarrow> bool" where "is_argument t \<longleftrightarrow> tk_type t = TOKEN_ARGUMENT"

definition is_variable :: "token \<Rightarrow> bool" where "is_variable t \<longleftrightarrow> tk_type t = TOKEN_VARIABLE"

definition is_builtin_command :: "token \<Rightarrow> bool" where
  "is_builtin_command t \<longleftrightarrow> tk_data t \<in> set (map bytes_of [''cd'', ''exit'', ''pwd'', ''jobs'', ''fg'', ''bg''])"

definition is_implemented_command :: "token \<Rightarrow> bool" where
  "is_implemented_command t \<longleftrightarrow> tk_data t \<in> set (map bytes_of
     [''pa2'', ''pa2_head'', ''pa2_tail'', ''pa2_cat'', ''pa2_cp'', ''pa2_mv'', ''pa2_rm'', ''pa2_echo''])"

section \<open>The lexer\<close>

definition plain :: "byte \<Rightarrow> bool" where "plain c \<longleftrightarrow> \<not> is_special_char c"

text \<open>
  The end of the line. With no token at all, the type of the token before the first is looked at.
\<close>

definition lex_end :: "token list \<Rightarrow> (int \<times> token list) option" where
  "lex_end tokens =
     (if tokens = [] then None
      else Some (if is_pipe (last tokens) \<or> is_redirection (last tokens) then 1 else 0, tokens @ [END_TOKEN]))"

text \<open>
  The switch on a character: the tokens it makes, none or one, and the rest of the line. A quote that is
  not closed makes the loop step over the terminator of the line.
\<close>

definition next_token :: "token list \<Rightarrow> byte \<Rightarrow> byte list \<Rightarrow> (token list \<times> byte list) option" where
  "next_token tokens c s =
     (if c = chr CHR ''#'' then Some ([], dropWhile (\<lambda>c. c \<noteq> NL \<and> c \<noteq> chr CHR '';'') s)
      else if c = chr CHR ''$'' then Some ([mk_token TOKEN_VARIABLE (takeWhile plain s)], dropWhile plain s)
      else if c = chr CHR ''~'' then Some ([mk_token TOKEN_VARIABLE (bytes_of ''HOME'')], s)
      else if c = chr CHR '';'' \<or> c = NL then Some ([mk_token TOKEN_SEP [c]], s)
      else if c = chr CHR ''|'' then Some ([mk_token TOKEN_PIPE [c]], s)
      else if c = chr CHR ''<'' then Some ([mk_token TOKEN_REDIRECT_IN [c]], s)
      else if c = chr CHR ''>'' then
        (if s \<noteq> [] \<and> hd s = chr CHR ''>'' then Some ([mk_token TOKEN_REDIRECT_APPEND [c, c]], tl s)
         else Some ([mk_token TOKEN_REDIRECT_OUT [c]], s))
      else if c = chr CHR ''&'' then Some ([mk_token TOKEN_BACKGROUND [c]], s)
      else if c = SQUOTE \<or> c = DQUOTE then
        (if c \<in> set s then Some ([mk_token TOKEN_ARGUMENT (takeWhile (\<lambda>x. x \<noteq> c) s)], drop 1 (dropWhile (\<lambda>x. x \<noteq> c) s))
         else None)
      else
        Some ([mk_token (if tokens = [] \<or> is_pipe (last tokens) \<or> is_separator (last tokens) then TOKEN_COMMAND
                      else TOKEN_ARGUMENT) (c # takeWhile plain s)], dropWhile plain s))"

lemma next_token_rest: "next_token tokens c s = Some (ts, s') \<Longrightarrow> length s' \<le> length s"
  by (auto simp: next_token_def length_dropWhile_le split: if_splits
    intro: order_trans [OF diff_le_self length_dropWhile_le])

text \<open>The loop over the characters, with the tokens so far.\<close>

function lex_from :: "token list \<Rightarrow> byte list \<Rightarrow> (int \<times> token list) option" where
  "lex_from tokens [] = lex_end tokens"
| "lex_from tokens (c # s) =
     (if white c \<and> c \<noteq> NL then lex_from tokens s
      else if length tokens \<ge> MAX_TOKENS - 1 then Some (2, tokens @ [END_TOKEN])
      else case next_token tokens c s of
        None \<Rightarrow> None
      | Some (ts, s') \<Rightarrow> lex_from (tokens @ ts) s')"
  by pat_completeness auto
termination
  by (relation "measure (\<lambda>(tokens, s). length s)") (auto simp: less_Suc_eq_le dest!: next_token_rest)

definition lex_cmd :: "byte list \<Rightarrow> (int \<times> token list) option" where
  "lex_cmd cmd = lex_from [] cmd"

section \<open>Commands\<close>

datatype CommandType = COMMAND_NULL | COMMAND_BUILTIN | COMMAND_IMPLEMENTED | COMMAND_OTHER

text \<open>The lists stand for the arrays and the linked lists; the number of arguments is the length.\<close>

record command =
  cm_args :: "byte list list"
  cm_stdin :: "byte list option"
  cm_stdout :: "byte list option"
  cm_append :: bool
  cm_type :: CommandType

definition default_command :: command where
  "default_command = \<lparr>cm_args = [], cm_stdin = None, cm_stdout = None, cm_append = False, cm_type = COMMAND_NULL\<rparr>"

record pipeline =
  pl_background :: bool
  pl_commands :: "command list"
  pl_num_commands :: nat

definition default_pipeline :: pipeline where
  "default_pipeline = \<lparr>pl_background = False, pl_commands = [default_command], pl_num_commands = 0\<rparr>"

definition pipeline_is_empty :: "pipeline \<Rightarrow> bool" where
  "pipeline_is_empty p \<longleftrightarrow> pl_num_commands p = 0
     \<or> (pl_num_commands p = 1 \<and> 1 \<le> length (cm_args (hd (pl_commands p)))
        \<and> (let w = hd (cm_args (hd (pl_commands p))) in w \<noteq> [] \<and> hd w = chr CHR ''#''))"

definition is_single_builtin_command :: "pipeline \<Rightarrow> bool" where
  "is_single_builtin_command p \<longleftrightarrow> pl_num_commands p = 1 \<and> cm_type (hd (pl_commands p)) = COMMAND_BUILTIN"

text \<open>
  The environment is an argument. The buffer for a status has room for twelve bytes: the value of
  \<open>ceil (32 * 302.0 / 1000) + 2\<close>.
\<close>

definition show_status :: "int \<Rightarrow> byte list" where
  "show_status i = (if i < 0 then chr CHR ''-'' # show_nat (nat (- i)) else show_nat (nat i))"

definition max_digits :: nat where "max_digits = 12"

definition dereference_variable :: "(byte list \<Rightarrow> byte list option) \<Rightarrow> byte list \<Rightarrow> int \<Rightarrow> byte list" where
  "dereference_variable getenv var_name last_status =
     (if (var_name \<noteq> [] \<and> hd var_name = chr CHR ''?'') \<or> var_name = bytes_of ''status''
      then take (max_digits - 1) (show_status last_status)
      else case getenv var_name of None \<Rightarrow> [] | Some v \<Rightarrow> v)"

definition to_argument :: "(byte list \<Rightarrow> byte list option) \<Rightarrow> token \<Rightarrow> int \<Rightarrow> byte list" where
  "to_argument getenv t last_status = (if is_variable t then dereference_variable getenv (tk_data t) last_status else tk_data t)"

section \<open>The parser\<close>

text \<open>
  The state of the loop: the pipelines before the current one, the flags of the current one, its commands
  before the current one, and the current command.
\<close>

record parse_state =
  ps_done :: "pipeline list"
  ps_background :: bool
  ps_num_commands :: nat
  ps_commands :: "command list"
  ps_current :: command

definition parse_start :: parse_state where
  "parse_start = \<lparr>ps_done = [], ps_background = False, ps_num_commands = 0, ps_commands = [], ps_current = default_command\<rparr>"

definition current_pipeline :: "parse_state \<Rightarrow> pipeline" where
  "current_pipeline st = \<lparr>pl_background = ps_background st, pl_commands = ps_commands st @ [ps_current st],
     pl_num_commands = ps_num_commands st\<rparr>"

definition parsed :: "parse_state \<Rightarrow> pipeline list" where
  "parsed st = ps_done st @ [current_pipeline st]"

text \<open>One round of the loop on the token \<open>t\<close> with the tokens behind it: \<open>None\<close> reports an error to the user.\<close>

definition add_argument :: "(byte list \<Rightarrow> byte list option) \<Rightarrow> int \<Rightarrow> token \<Rightarrow> parse_state \<Rightarrow> parse_state option" where
  "add_argument getenv last_status t st =
     (let c = ps_current st; arg = to_argument getenv t last_status in
      if cm_args c = [] then
        (if \<not> is_command t then None
         else Some (st\<lparr>ps_num_commands := ps_num_commands st + 1,
                ps_current := c\<lparr>cm_args := [arg], cm_type :=
                  (if is_builtin_command t then COMMAND_BUILTIN
                   else if is_implemented_command t then COMMAND_IMPLEMENTED else COMMAND_OTHER)\<rparr>\<rparr>))
      else Some (st\<lparr>ps_current := c\<lparr>cm_args := cm_args c @ [arg]\<rparr>\<rparr>))"

definition next_pipeline :: "parse_state \<Rightarrow> parse_state" where
  "next_pipeline st =
     (if \<not> (ps_num_commands st = 0 \<or> (ps_num_commands st = 1 \<and> cm_args (ps_current st) = []))
      then parse_start\<lparr>ps_done := parsed st\<rparr> else st)"

definition next_command :: "token \<Rightarrow> parse_state \<Rightarrow> parse_state option" where
  "next_command following st =
     (if cm_args (ps_current st) = [] \<or> \<not> is_command following then None
      else Some (st\<lparr>ps_commands := ps_commands st @ [ps_current st], ps_current := default_command\<rparr>))"

definition redirect :: "(byte list \<Rightarrow> byte list option) \<Rightarrow> int \<Rightarrow> TokenType \<Rightarrow> token \<Rightarrow> parse_state \<Rightarrow> parse_state option" where
  "redirect getenv last_status ty file st =
     (if \<not> (is_argument file \<or> is_variable file) then None
      else let c = ps_current st; name = to_argument getenv file last_status in
        Some (st\<lparr>ps_current :=
          (if ty = TOKEN_REDIRECT_IN then c\<lparr>cm_stdin := Some name\<rparr>
           else if ty = TOKEN_REDIRECT_APPEND then c\<lparr>cm_append := True, cm_stdout := Some name\<rparr>
           else c\<lparr>cm_stdout := Some name\<rparr>)\<rparr>))"

text \<open>
  The loop on the tokens that are left; it stops in front of the last one. The outer \<open>None\<close> is the access
  to a token behind the last one; an error frees the input and has status 1.
\<close>

fun parse_loop :: "(byte list \<Rightarrow> byte list option) \<Rightarrow> int \<Rightarrow> token list \<Rightarrow> parse_state \<Rightarrow> (int \<times> pipeline list) option" where
  "parse_loop getenv last_status [] st = None"
| "parse_loop getenv last_status (t # []) st =
     (if is_pipe t then (if cm_args (ps_current st) = [] then Some (1, []) else None)
      else if is_redirection t \<or> is_background t \<or> is_separator t \<or> is_end t then None
      else case add_argument getenv last_status t st of None \<Rightarrow> Some (1, []) | Some _ \<Rightarrow> None)"
| "parse_loop getenv last_status (t # t' # ts) st =
     (if is_redirection t then
        (case redirect getenv last_status (tk_type t) t' st of
           None \<Rightarrow> Some (1, [])
         | Some st \<Rightarrow>
             (case ts of
                [] \<Rightarrow> None
              | t'' # us \<Rightarrow> if is_end t'' then Some (0, parsed st) else parse_loop getenv last_status ts st))
      else
        (case (if is_pipe t then next_command t' st
               else if is_background t then Some (st\<lparr>ps_background := True\<rparr>)
               else if is_separator t then Some (next_pipeline st)
               else if is_end t then Some st
               else add_argument getenv last_status t st) of
           None \<Rightarrow> Some (1, [])
         | Some st' \<Rightarrow> if is_end t \<or> is_end t' then Some (0, parsed st') else parse_loop getenv last_status (t' # ts) st'))"

definition parse :: "(byte list \<Rightarrow> byte list option) \<Rightarrow> token list \<Rightarrow> int \<Rightarrow> (int \<times> pipeline list) option" where
  "parse getenv tokens last_status = parse_loop getenv last_status tokens parse_start"

end
