(* ===== verification/Pa2_Jobs.thy ===== *)
theory Pa2_Jobs
  imports Pa2_Parser
begin

text \<open>
  \<^verbatim>\<open>PA2/shell_src/job.c\<close> and \<^verbatim>\<open>PA2/shell_src/jobs.c\<close>: processes, jobs and the table of jobs. Jobs live
  in a heap and the table holds their addresses: two slots can name one job, and a job that was freed is
  no longer there. \<open>Fault\<close> and \<open>None\<close> are undefined behaviour: a null or dangling pointer, or an index
  outside the table. What the kernel reports is a script: the answers of \<^verbatim>\<open>waitid\<close> and the signals that
  end \<^verbatim>\<open>sigsuspend\<close>.
\<close>

section \<open>Processes and jobs\<close>

datatype si_code = SI_NONE | CLD_EXITED | CLD_KILLED | CLD_DUMPED | CLD_STOPPED | CLD_CONTINUED

text \<open>The list of the processes of a job stands for their links.\<close>

record process =
  pr_pid :: int
  pr_code :: si_code
  pr_status :: int
  pr_running :: bool
  pr_command :: "command option"
  pr_stdin_fd :: int
  pr_stdout_fd :: int

definition default_process :: process where
  "default_process = \<lparr>pr_pid = -1, pr_code = SI_NONE, pr_status = 0, pr_running = False, pr_command = None,
     pr_stdin_fd = -1, pr_stdout_fd = -1\<rparr>"

datatype JobState = JOB_NULL | JOB_FOREGROUND | JOB_BACKGROUND | JOB_STOPPED | JOB_DONE

record job =
  jb_state :: JobState
  jb_id :: nat
  jb_num_processes :: nat
  jb_pgid :: int
  jb_processes :: "process list"
  jb_command :: "byte list option"

definition default_job :: job where
  "default_job = \<lparr>jb_state = JOB_NULL, jb_id = 0, jb_num_processes = 0, jb_pgid = -1, jb_processes = [], jb_command = None\<rparr>"

definition has_proceses_terminated :: "process \<Rightarrow> bool" where
  "has_proceses_terminated p \<longleftrightarrow> pr_code p = CLD_EXITED \<or> pr_code p = CLD_KILLED \<or> pr_code p = CLD_DUMPED"

text \<open>The result and the job afterwards.\<close>

definition has_completed :: "job \<Rightarrow> bool \<times> job" where
  "has_completed j =
     (if jb_state j = JOB_DONE then (True, j)
      else if \<exists>p\<in>set (jb_processes j). pr_running p \<or> \<not> has_proceses_terminated p then (False, j)
      else (True, j\<lparr>jb_state := JOB_DONE\<rparr>))"

definition has_stopped :: "job \<Rightarrow> bool" where
  "has_stopped j \<longleftrightarrow> jb_state j = JOB_STOPPED"

definition set_job_process_state :: "bool \<Rightarrow> job \<Rightarrow> job" where
  "set_job_process_state running j = j\<lparr>jb_processes := map (\<lambda>p. p\<lparr>pr_running := running\<rparr>) (jb_processes j)\<rparr>"

text \<open>\<open>get_process\<close> finds the first process with the identifier; the report is stored in it.\<close>

fun get_process :: "process list \<Rightarrow> int \<Rightarrow> process option" where
  "get_process [] pid = None"
| "get_process (p # ps) pid = (if pr_pid p = pid then Some p else get_process ps pid)"

fun report_process :: "process list \<Rightarrow> int \<Rightarrow> si_code \<Rightarrow> int \<Rightarrow> process list" where
  "report_process [] pid code status = []"
| "report_process (p # ps) pid code status =
     (if pr_pid p = pid then p\<lparr>pr_running := False, pr_code := code, pr_status := status\<rparr> # ps
      else p # report_process ps pid code status)"

definition set_job_state :: "job \<Rightarrow> si_code \<Rightarrow> job" where
  "set_job_state j code =
     (case has_completed j of
        (True, j') \<Rightarrow> j'
      | (False, j') \<Rightarrow>
          if code = CLD_STOPPED then j'\<lparr>jb_state := JOB_STOPPED\<rparr>
          else if code = CLD_CONTINUED \<and> jb_state j' \<noteq> JOB_FOREGROUND then j'\<lparr>jb_state := JOB_BACKGROUND\<rparr>
          else j')"

section \<open>The shell\<close>

datatype fd_object = Terminal | Pipe_Read nat | Pipe_Write nat | Read_File "byte list" | Write_File "byte list" bool

type_synonym fds = "fd_object option list"

text \<open>A child: its group, its descriptors, and whether it runs its command or exits with a status.\<close>

datatype child_end = Child_Exit int | Child_Run command

record child =
  ch_pid :: int
  ch_pgid :: int
  ch_foreground :: bool
  ch_fds :: fds
  ch_end :: child_end

text \<open>
  The state: the heap with the next address, the table, its two counters, the pending flag; the script of the
  kernel: answers of \<^verbatim>\<open>waitid\<close> (nothing, or a report), each with whether \<^verbatim>\<open>SIGCHLD\<close> has arrived by then, wakes of
  \<^verbatim>\<open>sigsuspend\<close> (by \<^verbatim>\<open>SIGCHLD\<close> or by another signal) and results of \<^verbatim>\<open>fork\<close>; the descriptors, the next pipe, the
  environment, the working directory, the children, the signals sent and the standard output.
\<close>

type_synonym wait_answer = "(int \<times> si_code \<times> int) option \<times> bool"

record shell =
  sh_heap :: "nat \<Rightarrow> job option"
  sh_next :: nat
  sh_table :: "nat option list"
  sh_num_jobs :: u64
  sh_highest :: nat
  sh_pending :: bool
  sh_waits :: "wait_answer list"
  sh_wakes :: "bool list"
  sh_forks :: "int list"
  sh_fds :: fds
  sh_pipe :: nat
  sh_env :: "byte list \<Rightarrow> byte list option"
  sh_cwd :: "byte list option"
  sh_children :: "child list"
  sh_kills :: "(int \<times> nat) list"
  sh_out :: "byte list"

datatype 'a step_result = Return 'a shell | Exits int shell | Asleep shell | Fault

definition MAX_JOBS :: nat where "MAX_JOBS = 8192"

definition say :: "byte list \<Rightarrow> shell \<Rightarrow> shell" where
  "say line s = s\<lparr>sh_out := sh_out s @ line\<rparr>"

definition put_job :: "nat \<Rightarrow> job \<Rightarrow> shell \<Rightarrow> shell" where
  "put_job a j s = s\<lparr>sh_heap := (sh_heap s)(a := Some j)\<rparr>"

definition new_job :: "job \<Rightarrow> shell \<Rightarrow> nat \<times> shell" where
  "new_job j s = (sh_next s, s\<lparr>sh_heap := (sh_heap s)(sh_next s := Some j), sh_next := sh_next s + 1\<rparr>)"

text \<open>To free a null pointer does nothing, to free an address twice is undefined.\<close>

definition free_job :: "nat option \<Rightarrow> shell \<Rightarrow> shell option" where
  "free_job ptr s = (case ptr of None \<Rightarrow> Some s
     | Some a \<Rightarrow> (case sh_heap s a of None \<Rightarrow> None | Some _ \<Rightarrow> Some (s\<lparr>sh_heap := (sh_heap s)(a := None)\<rparr>)))"

definition set_slot :: "nat \<Rightarrow> nat option \<Rightarrow> shell \<Rightarrow> shell option" where
  "set_slot i ptr s = (if i < length (sh_table s) then Some (s\<lparr>sh_table := (sh_table s)[i := ptr]\<rparr>) else None)"

definition get_slot :: "nat \<Rightarrow> shell \<Rightarrow> nat option option" where
  "get_slot i s = at (sh_table s) i"

section \<open>The table of jobs\<close>

text \<open>The highest slot at or below \<open>i\<close> whose job runs in the background or is stopped, or 0.\<close>

fun update_highest_from :: "shell \<Rightarrow> nat \<Rightarrow> nat option" where
  "update_highest_from s 0 = Some 0"
| "update_highest_from s (Suc i) =
     Option.bind (get_slot (Suc i) s) (\<lambda>ptr.
       case ptr of
         None \<Rightarrow> update_highest_from s i
       | Some a \<Rightarrow> Option.bind (sh_heap s a) (\<lambda>j.
           if jb_state j = JOB_BACKGROUND \<or> jb_state j = JOB_STOPPED then Some (Suc i) else update_highest_from s i))"

definition update_highest_job_id :: "shell \<Rightarrow> shell option" where
  "update_highest_job_id s = Option.bind (update_highest_from s (sh_highest s)) (\<lambda>h. Some (s\<lparr>sh_highest := h\<rparr>))"

definition set_foreground_job :: "nat \<Rightarrow> shell \<Rightarrow> shell option" where
  "set_foreground_job a s =
     Option.bind (sh_heap s a) (\<lambda>j.
     Option.bind (set_slot (jb_id j) None s) (\<lambda>s.
     Option.bind (if jb_state j \<noteq> JOB_FOREGROUND \<and> jb_id j \<noteq> 0
                  then update_highest_job_id (s\<lparr>sh_num_jobs := sh_num_jobs s - 1\<rparr>) else Some s) (\<lambda>s.
     set_slot 0 (Some a) (put_job a (set_job_process_state True (j\<lparr>jb_state := JOB_FOREGROUND, jb_id := 0\<rparr>)) s))))"

definition remove_foreground_job :: "bool \<Rightarrow> shell \<Rightarrow> shell option" where
  "remove_foreground_job should_free s =
     Option.bind (if should_free then Option.bind (get_slot 0 s) (\<lambda>ptr. free_job ptr s) else Some s) (\<lambda>s.
     set_slot 0 None s)"

definition add_job_to_table :: "nat \<Rightarrow> shell \<Rightarrow> shell option" where
  "add_job_to_table a s =
     Option.bind (sh_heap s a) (\<lambda>j. let i = sh_highest s + 1 in
     Option.bind (set_slot i (Some a) (put_job a (j\<lparr>jb_id := i\<rparr>) (s\<lparr>sh_highest := i\<rparr>))) (\<lambda>s.
     Some (s\<lparr>sh_num_jobs := sh_num_jobs s + 1\<rparr>)))"

definition remove_job_from_table :: "nat \<Rightarrow> shell \<Rightarrow> shell option" where
  "remove_job_from_table a s =
     Option.bind (sh_heap s a) (\<lambda>j.
     Option.bind (set_slot (jb_id j) None s) (\<lambda>s.
     update_highest_job_id (if jb_id j > 0 then s\<lparr>sh_num_jobs := sh_num_jobs s - 1\<rparr> else s)))"

definition is_job_table_empty :: "shell \<Rightarrow> bool" where
  "is_job_table_empty s \<longleftrightarrow> sh_num_jobs s = 0"

text \<open>The loop does not look for empty slots: an empty slot on its way is a null pointer.\<close>

fun highest_stopped_from :: "shell \<Rightarrow> nat \<Rightarrow> nat option" where
  "highest_stopped_from s 0 = Some 0"
| "highest_stopped_from s (Suc i) =
     Option.bind (get_slot (Suc i) s) (\<lambda>ptr.
     Option.bind ptr (\<lambda>a.
     Option.bind (sh_heap s a) (\<lambda>j.
     if jb_state j = JOB_STOPPED then Some (Suc i) else highest_stopped_from s i)))"

definition get_highest_stopped_job_id :: "shell \<Rightarrow> nat option" where
  "get_highest_stopped_job_id s = highest_stopped_from s (sh_highest s)"

text \<open>The first job of the slots that has a process with the identifier.\<close>

fun find_job_in :: "(nat \<Rightarrow> job option) \<Rightarrow> nat option list \<Rightarrow> int \<Rightarrow> nat option option" where
  "find_job_in heap [] pid = Some None"
| "find_job_in heap (None # slots) pid = find_job_in heap slots pid"
| "find_job_in heap (Some a # slots) pid =
     Option.bind (heap a) (\<lambda>j.
     if \<exists>p\<in>set (jb_processes j). pr_pid p = pid then Some (Some a) else find_job_in heap slots pid)"

text \<open>The last slot is not searched.\<close>

definition find_job_by_pid :: "int \<Rightarrow> shell \<Rightarrow> nat option option" where
  "find_job_by_pid pid s = find_job_in (sh_heap s) (take MAX_JOBS (sh_table s)) pid"

definition find_job_by_id :: "nat \<Rightarrow> shell \<Rightarrow> nat option option" where
  "find_job_by_id i s = (if i = 0 \<or> i > MAX_JOBS then Some None else get_slot i s)"

section \<open>Reports of the kernel\<close>

text \<open>The next answer of \<^verbatim>\<open>waitid\<close>; with no script left nothing changes any more.\<close>

definition waitid :: "shell \<Rightarrow> (int \<times> si_code \<times> int) option \<times> shell" where
  "waitid s = (case sh_waits s of [] \<Rightarrow> (None, s)
     | (answer, signal) # ws \<Rightarrow> (answer, s\<lparr>sh_waits := ws, sh_pending := sh_pending s \<or> signal\<rparr>))"

text \<open>The job of the process that was reported and the code of the report; \<open>None\<close> ends the loop of the caller.\<close>

definition wait_for_any_process :: "shell \<Rightarrow> ((nat \<times> si_code) option \<times> shell) option" where
  "wait_for_any_process s =
     (case waitid s of
        (None, s) \<Rightarrow> Some (None, s)
      | (Some (pid, code, status), s) \<Rightarrow>
          Option.bind (find_job_by_pid pid s) (\<lambda>ptr.
          case ptr of
            None \<Rightarrow> Some (None, s)
          | Some a \<Rightarrow>
              Option.bind (sh_heap s a) (\<lambda>j.
              Some (Some (a, code),
                put_job a (set_job_state (j\<lparr>jb_processes := report_process (jb_processes j) pid code status\<rparr>) code) s))))"

definition bell :: "job \<Rightarrow> byte list" where
  "bell j = bytes_of ''pa2: Job '' @ show_nat (jb_id j) @ bytes_of '', '' @ [SQUOTE] @
     (case jb_command j of None \<Rightarrow> bytes_of ''(null)'' | Some c \<Rightarrow> c) @ [SQUOTE] @ bytes_of '' has ended'' @ [NL]"

text \<open>The part of the loop behind a report.\<close>

definition reported :: "nat \<Rightarrow> si_code \<Rightarrow> shell \<Rightarrow> shell option" where
  "reported a code s =
     Option.bind (sh_heap s a) (\<lambda>j0. let j = set_job_state j0 code; s = put_job a j s in
     if jb_id j0 > 0 \<and> fst (has_completed j)
     then Option.bind (remove_job_from_table a (say (bell j) (put_job a (snd (has_completed j)) s))) (free_job (Some a))
     else Some (if jb_id j0 > 0 then put_job a (snd (has_completed j)) s else s))"

lemma waitid_waits:
  "length (sh_waits (snd (waitid s))) = length (sh_waits s) - 1" "sh_waits s = [] \<Longrightarrow> waitid s = (None, s)"
  by (auto simp: waitid_def split: list.split)

lemma wait_for_any_process_waits:
  assumes "wait_for_any_process s = Some (r, s')"
  shows "length (sh_waits s') = length (sh_waits s) - 1" "r \<noteq> None \<Longrightarrow> sh_waits s \<noteq> []"
  using assms
  by (auto simp: wait_for_any_process_def waitid_def put_job_def bind_eq_Some_conv split: option.splits list.splits prod.splits)

lemma reported_waits: "reported a code s = Some s' \<Longrightarrow> sh_waits s' = sh_waits s"
  by (auto simp: reported_def Let_def put_job_def bind_eq_Some_conv remove_job_from_table_def update_highest_job_id_def
      set_slot_def free_job_def say_def split: if_splits option.splits)

text \<open>
  Both loops of the handler. The pending flag is cleared before every round of the outer loop; the inner loop
  ends when there is no report, or the report is of an unknown process.
\<close>

function handle_events :: "shell \<Rightarrow> shell option" where
  "handle_events s =
     (case wait_for_any_process s of
        None \<Rightarrow> None
      | Some (None, s) \<Rightarrow> if sh_pending s then handle_events (s\<lparr>sh_pending := False\<rparr>) else Some s
      | Some (Some (a, code), s) \<Rightarrow>
          (case reported a code s of None \<Rightarrow> None | Some s \<Rightarrow> handle_events s))"
  by pat_completeness auto
termination
proof (relation "measure (\<lambda>s. 2 * length (sh_waits s) + (if sh_pending s then 1 else 0))", goal_cases)
  case (2 s p r s')
  then have "wait_for_any_process s = Some (None, s')" by simp
  from wait_for_any_process_waits(1) [OF this] 2 show ?case
    by (cases "sh_waits s") (auto simp: wait_for_any_process_def waitid_waits(2))
next
  case (3 s p r s1 q a code s')
  then have step: "wait_for_any_process s = Some (Some (a, code), s1)" by simp
  from wait_for_any_process_waits [OF step] reported_waits [OF 3(5)] show ?case
    by (cases "sh_waits s") auto
qed simp

declare handle_events.simps [simp del]

definition handle_pending_sigchld :: "shell \<Rightarrow> shell option" where
  "handle_pending_sigchld s = handle_events (s\<lparr>sh_pending := False\<rparr>)"

section \<open>Waiting for a job\<close>

text \<open>The loop of \<^verbatim>\<open>wait_for_processes\<close> on the slot \<open>i\<close>; every wake ends one \<^verbatim>\<open>sigsuspend\<close>.\<close>

fun wait_loop :: "nat \<Rightarrow> bool list \<Rightarrow> shell \<Rightarrow> JobState step_result" where
  "wait_loop i wakes s =
     (case (if sh_pending s then handle_pending_sigchld s else Some s) of
        None \<Rightarrow> Fault
      | Some s \<Rightarrow>
          (case get_slot i s of
             None \<Rightarrow> Fault
           | Some None \<Rightarrow> Return JOB_DONE (s\<lparr>sh_wakes := wakes\<rparr>)
           | Some (Some a) \<Rightarrow>
               (case sh_heap s a of
                  None \<Rightarrow> Fault
                | Some j \<Rightarrow>
                    (let (completed, j) = has_completed j; s = put_job a j s in
                     if completed \<or> has_stopped j then Return (jb_state j) (s\<lparr>sh_wakes := wakes\<rparr>)
                     else case wakes of
                       [] \<Rightarrow> Asleep (s\<lparr>sh_wakes := []\<rparr>)
                     | w # ws \<Rightarrow> wait_loop i ws (s\<lparr>sh_pending := sh_pending s \<or> w\<rparr>)))))"

declare wait_loop.simps [simp del]

definition wait_for_processes :: "nat \<Rightarrow> shell \<Rightarrow> JobState step_result" where
  "wait_for_processes a s =
     (case sh_heap s a of None \<Rightarrow> Fault | Some j \<Rightarrow> wait_loop (jb_id j) (sh_wakes s) s)"

text \<open>A step that can only fail, and the rest of a function behind one that can also end or sleep.\<close>

definition attempt :: "'a option \<Rightarrow> ('a \<Rightarrow> 'b step_result) \<Rightarrow> 'b step_result" where
  "attempt m f = (case m of None \<Rightarrow> Fault | Some x \<Rightarrow> f x)"

definition and_then :: "'a step_result \<Rightarrow> ('a \<Rightarrow> shell \<Rightarrow> 'b step_result) \<Rightarrow> 'b step_result" where
  "and_then m f = (case m of Return x s \<Rightarrow> f x s | Exits code s \<Rightarrow> Exits code s | Asleep s \<Rightarrow> Asleep s | Fault \<Rightarrow> Fault)"

text \<open>The status of a job is the one of its last process: a process that was killed has 128 and the signal.\<close>

definition last_status_of :: "job \<Rightarrow> int option" where
  "last_status_of j =
     (if jb_processes j = [] then None
      else let p = last (jb_processes j) in
        Some (if pr_code p = CLD_KILLED \<or> pr_code p = CLD_DUMPED then 128 + pr_status p else pr_status p))"

text \<open>The foreground job after the wait: a stopped job goes to the table, a job that is done is freed.\<close>

definition leave_foreground :: "nat \<Rightarrow> shell \<Rightarrow> int step_result" where
  "leave_foreground a s =
     attempt (sh_heap s a) (\<lambda>j.
     attempt (if jb_state j = JOB_STOPPED
          then Option.bind (add_job_to_table a s) (\<lambda>s. Some (say (bytes_of ''pa2: Job '' @ show_nat (sh_highest s) @
                 bytes_of '' has stopped'' @ [NL]) s))
          else Some s) (\<lambda>s.
     attempt (last_status_of j) (\<lambda>status.
     attempt (remove_foreground_job (jb_state j = JOB_DONE) s) (Return status))))"

definition handle_job :: "nat \<Rightarrow> shell \<Rightarrow> int step_result" where
  "handle_job a s =
     attempt (sh_heap s a) (\<lambda>j.
     case jb_state j of
       JOB_FOREGROUND \<Rightarrow> and_then (wait_for_processes a s) (\<lambda>_ s. leave_foreground a s)
     | JOB_BACKGROUND \<Rightarrow> attempt (add_job_to_table a s) (Return 0)
     | _ \<Rightarrow> Return 1 s)"

end
