(* ===== verification/Pa2_Table.thy ===== *)
theory Pa2_Table
  imports Pa2_Jobs
begin

text \<open>
  The invariant of the table of jobs. Every used slot holds a job that knows its place, has processes
  and runs in the background or is stopped, the counters agree with the slots, and every job of the heap is in one slot or
  belongs to whoever is at work on it.
\<close>

section \<open>The invariant\<close>

definition slot :: "shell \<Rightarrow> nat \<Rightarrow> nat option" where
  "slot s i = (if i < length (sh_table s) then sh_table s ! i else None)"

definition used :: "shell \<Rightarrow> nat set" where
  "used s = {i. 0 < i \<and> slot s i \<noteq> None}"

definition listed :: "job \<Rightarrow> bool" where
  "listed j \<longleftrightarrow> (jb_state j = JOB_BACKGROUND \<or> jb_state j = JOB_STOPPED) \<and> jb_processes j \<noteq> []"

text \<open>The jobs at \<open>X\<close> can be in another state for a moment; the jobs at \<open>H\<close> are in no slot.\<close>

definition jobs_placed :: "nat set \<Rightarrow> shell \<Rightarrow> bool" where
  "jobs_placed X s \<longleftrightarrow> (\<forall>i a. slot s i = Some a \<longrightarrow> (\<exists>j. sh_heap s a = Some j \<and> jb_id j = i \<and> (0 < i \<longrightarrow> a \<notin> X \<longrightarrow> listed j)))"

definition jobs_owned :: "nat set \<Rightarrow> shell \<Rightarrow> bool" where
  "jobs_owned H s \<longleftrightarrow> dom (sh_heap s) = {a. \<exists>i. slot s i = Some a} \<union> H \<and> (\<forall>i. \<forall>a\<in>H. slot s i \<noteq> Some a) \<and>
     (\<forall>a\<in>dom (sh_heap s). a < sh_next s)"

definition jobs_counted :: "shell \<Rightarrow> bool" where
  "jobs_counted s \<longleftrightarrow> length (sh_table s) = MAX_JOBS + 1 \<and> sh_num_jobs s = of_nat (card (used s)) \<and>
     sh_highest s \<le> MAX_JOBS \<and> (\<forall>i. sh_highest s < i \<longrightarrow> slot s i = None) \<and>
     (0 < sh_highest s \<longrightarrow> slot s (sh_highest s) \<noteq> None)"

definition table_ok :: "nat set \<Rightarrow> nat set \<Rightarrow> shell \<Rightarrow> bool" where
  "table_ok X H s \<longleftrightarrow> jobs_placed X s \<and> jobs_owned H s \<and> jobs_counted s"

lemma table_okI [intro?]: "jobs_placed X s \<Longrightarrow> jobs_owned H s \<Longrightarrow> jobs_counted s \<Longrightarrow> table_ok X H s"
  by (simp add: table_ok_def)

lemma placedD: "jobs_placed X s \<Longrightarrow> slot s i = Some a \<Longrightarrow>
    \<exists>j. sh_heap s a = Some j \<and> jb_id j = i \<and> (0 < i \<longrightarrow> a \<notin> X \<longrightarrow> listed j)"
  by (simp add: jobs_placed_def)

lemma slot_unique: "jobs_placed X s \<Longrightarrow> slot s i = Some a \<Longrightarrow> slot s i' = Some a \<Longrightarrow> i = i'"
  using placedD [of X s i a] placedD [of X s i' a] by auto

lemma get_slot_slot: "i < length (sh_table s) \<Longrightarrow> get_slot i s = Some (slot s i)"
  by (simp add: get_slot_def slot_def)

lemma slot_less: "slot s i = Some a \<Longrightarrow> i < length (sh_table s)"
  by (auto simp: slot_def split: if_splits)

lemma used_finite: "finite (used s)"
  by (rule finite_subset [of _ "{..<length (sh_table s)}"]) (auto simp: used_def dest: slot_less)

lemma slot_update: "i < length (sh_table s) \<Longrightarrow> sh_table s' = (sh_table s)[i := ptr] \<Longrightarrow> slot s' = (slot s)(i := ptr)"
  by (auto simp: slot_def fun_eq_iff)

lemma slot_simps [simp]:
  "slot (s\<lparr>sh_heap := x_heap\<rparr>) = slot s"
  "slot (s\<lparr>sh_next := x_next\<rparr>) = slot s"
  "slot (s\<lparr>sh_num_jobs := x_num_jobs\<rparr>) = slot s"
  "slot (s\<lparr>sh_highest := x_highest\<rparr>) = slot s"
  "slot (s\<lparr>sh_pending := x_pending\<rparr>) = slot s"
  "slot (s\<lparr>sh_waits := x_waits\<rparr>) = slot s"
  "slot (s\<lparr>sh_wakes := x_wakes\<rparr>) = slot s"
  "slot (s\<lparr>sh_forks := x_forks\<rparr>) = slot s"
  "slot (s\<lparr>sh_fds := x_fds\<rparr>) = slot s"
  "slot (s\<lparr>sh_pipe := x_pipe\<rparr>) = slot s"
  "slot (s\<lparr>sh_env := x_env\<rparr>) = slot s"
  "slot (s\<lparr>sh_cwd := x_cwd\<rparr>) = slot s"
  "slot (s\<lparr>sh_children := x_children\<rparr>) = slot s"
  "slot (s\<lparr>sh_kills := x_kills\<rparr>) = slot s"
  "slot (s\<lparr>sh_out := x_out\<rparr>) = slot s"
  by (simp_all add: slot_def fun_eq_iff)

lemma used_simps [simp]:
  "used (s\<lparr>sh_heap := x_heap\<rparr>) = used s"
  "used (s\<lparr>sh_next := x_next\<rparr>) = used s"
  "used (s\<lparr>sh_num_jobs := x_num_jobs\<rparr>) = used s"
  "used (s\<lparr>sh_highest := x_highest\<rparr>) = used s"
  "used (s\<lparr>sh_pending := x_pending\<rparr>) = used s"
  "used (s\<lparr>sh_waits := x_waits\<rparr>) = used s"
  "used (s\<lparr>sh_wakes := x_wakes\<rparr>) = used s"
  "used (s\<lparr>sh_forks := x_forks\<rparr>) = used s"
  "used (s\<lparr>sh_fds := x_fds\<rparr>) = used s"
  "used (s\<lparr>sh_pipe := x_pipe\<rparr>) = used s"
  "used (s\<lparr>sh_env := x_env\<rparr>) = used s"
  "used (s\<lparr>sh_cwd := x_cwd\<rparr>) = used s"
  "used (s\<lparr>sh_children := x_children\<rparr>) = used s"
  "used (s\<lparr>sh_kills := x_kills\<rparr>) = used s"
  "used (s\<lparr>sh_out := x_out\<rparr>) = used s"
  by (simp_all add: used_def)

text \<open>Only the heap, its next address, the table and the counters matter.\<close>

lemma table_ok_cong:
  assumes "sh_heap s' = sh_heap s" "sh_next s' = sh_next s" "sh_table s' = sh_table s" "sh_num_jobs s' = sh_num_jobs s"
    "sh_highest s' = sh_highest s"
  shows "table_ok X H s' = table_ok X H s"
proof -
  have "slot s' = slot s" using assms(3) by (simp add: slot_def fun_eq_iff)
  then have "used s' = used s" by (simp add: used_def)
  show ?thesis
    unfolding table_ok_def jobs_placed_def jobs_owned_def jobs_counted_def assms \<open>slot s' = slot s\<close> \<open>used s' = used s\<close> ..
qed

section \<open>The counter of the highest slot\<close>

lemma update_highest_from_ok:
  assumes "jobs_placed {} s" "i < length (sh_table s)"
  obtains h where "update_highest_from s i = Some h" "h \<le> i" "\<And>k. h < k \<Longrightarrow> k \<le> i \<Longrightarrow> slot s k = None"
    "0 < h \<Longrightarrow> slot s h \<noteq> None"
  using assms(2)
proof (induction i arbitrary: thesis)
  case 0
  then show ?case by simp
next
  case (Suc i)
  show ?case
  proof (cases "slot s (Suc i)")
    case None
    from Suc.IH Suc.prems(2) obtain h where h: "update_highest_from s i = Some h" "h \<le> i"
      "\<And>k. h < k \<Longrightarrow> k \<le> i \<Longrightarrow> slot s k = None" "0 < h \<Longrightarrow> slot s h \<noteq> None" by auto
    show ?thesis
    proof (rule Suc.prems(1) [of h])
      show "update_highest_from s (Suc i) = Some h" using h Suc.prems(2) None by (simp add: get_slot_slot)
      show "slot s k = None" if "h < k" "k \<le> Suc i" for k using h(3) None that by (cases "k = Suc i") auto
    qed (use h in auto)
  next
    case (Some a)
    with placedD [OF assms(1) Some] Suc.prems(2) have "update_highest_from s (Suc i) = Some (Suc i)"
      by (auto simp: get_slot_slot listed_def)
    with Some show ?thesis by (intro Suc.prems(1) [of "Suc i"]) auto
  qed
qed

lemma update_highest_job_id_ok:
  assumes "jobs_placed {} s" "length (sh_table s) = MAX_JOBS + 1" "sh_num_jobs s = of_nat (card (used s))"
    "sh_highest s \<le> MAX_JOBS" "\<And>i. sh_highest s < i \<Longrightarrow> slot s i = None"
  obtains h where "update_highest_job_id s = Some (s\<lparr>sh_highest := h\<rparr>)" "h \<le> sh_highest s"
    "jobs_counted (s\<lparr>sh_highest := h\<rparr>)"
proof -
  have "sh_highest s < length (sh_table s)" using assms by simp
  from update_highest_from_ok [OF assms(1) this] obtain h where h: "update_highest_from s (sh_highest s) = Some h"
    "h \<le> sh_highest s" "\<And>k. h < k \<Longrightarrow> k \<le> sh_highest s \<Longrightarrow> slot s k = None" "0 < h \<Longrightarrow> slot s h \<noteq> None" by metis
  have "slot s k = None" if "h < k" for k using h(3) assms(5) that by (cases "k \<le> sh_highest s") auto
  then have "jobs_counted (s\<lparr>sh_highest := h\<rparr>)"
    using assms(2-4) h(2,4) by (simp add: jobs_counted_def)
  with h(1,2) that show ?thesis by (simp add: update_highest_job_id_def)
qed

section \<open>A job leaves its slot\<close>

lemma card_used_remove:
  assumes "slot s i \<noteq> None" "0 < i" "sh_table s' = (sh_table s)[i := None]"
  shows "card (used s) = Suc (card (used s'))"
proof -
  have i: "i < length (sh_table s)" using assms(1) by (auto dest: slot_less)
  have "used s' = used s - {i}" using slot_update [OF i assms(3)] by (auto simp: used_def)
  moreover have "i \<in> used s" using assms by (simp add: used_def)
  ultimately show ?thesis using card_Suc_Diff1 [OF used_finite] by simp
qed

lemma jobs_owned_remove:
  assumes "jobs_owned H s" "slot s i = Some a" "\<And>k. slot s k = Some a \<Longrightarrow> k = i" "slot s' = (slot s)(i := None)"
    "sh_heap s' = sh_heap s" "sh_next s' = sh_next s"
  shows "jobs_owned (insert a H) s'"
proof -
  have "{b. \<exists>k. slot s' k = Some b} = {b. \<exists>k. slot s k = Some b} - {a}"
    using assms(3) by (auto simp: assms(4) split: if_split_asm) (metis assms(2) option.inject)
  moreover have "a \<in> {b. \<exists>k. slot s k = Some b}" using assms(2) by blast
  moreover have "slot s' k \<noteq> Some b" if "b \<in> insert a H" for k b
    using that assms(1,3) by (cases "k = i") (auto simp: assms(4) jobs_owned_def)
  ultimately show ?thesis using assms(1,5,6) by (auto simp: jobs_owned_def)
qed

lemma vacate:
  assumes ok: "table_ok X H s" and "slot s i = Some a" "0 < i" "X \<subseteq> {a}"
  obtains h where "update_highest_job_id (s\<lparr>sh_table := (sh_table s)[i := None], sh_num_jobs := sh_num_jobs s - 1\<rparr>) =
      Some (s\<lparr>sh_table := (sh_table s)[i := None], sh_num_jobs := sh_num_jobs s - 1, sh_highest := h\<rparr>)"
    "h \<le> sh_highest s"
    "table_ok {} (insert a H) (s\<lparr>sh_table := (sh_table s)[i := None], sh_num_jobs := sh_num_jobs s - 1, sh_highest := h\<rparr>)"
proof -
  define s' where "s' = s\<lparr>sh_table := (sh_table s)[i := None], sh_num_jobs := sh_num_jobs s - 1\<rparr>"
  have parts: "jobs_placed X s" "jobs_owned H s" "jobs_counted s" using ok by (simp_all add: table_ok_def)
  have i: "i < length (sh_table s)" using assms(2) by (rule slot_less)
  have slots: "slot s' = (slot s)(i := None)" by (rule slot_update [OF i]) (simp add: s'_def)
  have only: "k = i" if "slot s k = Some a" for k using slot_unique [OF parts(1) assms(2) that] by simp
  have "\<exists>j. sh_heap s b = Some j \<and> jb_id j = k \<and> (0 < k \<longrightarrow> listed j)" if "slot s' k = Some b" for k b
  proof -
    from that have "k \<noteq> i" "slot s k = Some b" by (simp_all add: slots split: if_splits)
    with only assms(4) have "b \<notin> X" by auto
    with placedD [OF parts(1) \<open>slot s k = Some b\<close>] show ?thesis by simp
  qed
  then have placed: "jobs_placed {} s'" by (simp add: jobs_placed_def) (simp add: s'_def)
  have "card (used s) = Suc (card (used s'))"
    by (rule card_used_remove [OF _ assms(3)]) (simp_all add: assms(2) s'_def)
  then have num: "sh_num_jobs s' = of_nat (card (used s'))"
    using parts(3) by (simp add: jobs_counted_def s'_def)
  have len: "length (sh_table s') = MAX_JOBS + 1" and bound: "sh_highest s' \<le> MAX_JOBS"
    using parts(3) by (simp_all add: jobs_counted_def s'_def)
  have empty: "slot s' k = None" if "sh_highest s' < k" for k
  proof -
    from that have "sh_highest s < k" by (simp add: s'_def)
    with parts(3) show ?thesis by (simp add: slots jobs_counted_def)
  qed
  obtain h where h: "update_highest_job_id s' = Some (s'\<lparr>sh_highest := h\<rparr>)" "h \<le> sh_highest s'"
    "jobs_counted (s'\<lparr>sh_highest := h\<rparr>)"
    by (rule update_highest_job_id_ok [OF placed len num bound empty])
  have "jobs_placed {} (s'\<lparr>sh_highest := h\<rparr>)" using placed by (simp add: jobs_placed_def slots)
  moreover have "jobs_owned (insert a H) (s'\<lparr>sh_highest := h\<rparr>)"
    by (rule jobs_owned_remove [OF parts(2) assms(2) only]) (simp_all only: slot_simps slots, simp_all add: s'_def)
  ultimately have "table_ok {} (insert a H) (s'\<lparr>sh_highest := h\<rparr>)" using h(3) by (simp add: table_ok_def)
  with h that show ?thesis by (simp add: s'_def)
qed

section \<open>A job changes, comes and goes\<close>

lemma put_job_simps [simp]:
  "sh_heap (put_job a j s) = (sh_heap s)(a := Some j)" "sh_next (put_job a j s) = sh_next s"
  "sh_table (put_job a j s) = sh_table s" "sh_num_jobs (put_job a j s) = sh_num_jobs s"
  "sh_highest (put_job a j s) = sh_highest s" "slot (put_job a j s) = slot s" "used (put_job a j s) = used s"
  by (simp_all add: put_job_def)

lemma table_parts:
  assumes "table_ok X H s"
  shows "jobs_placed X s" "jobs_owned H s" "jobs_counted s"
  using assms by (simp_all add: table_ok_def)

lemma slot_job:
  assumes "table_ok X H s" "slot s i = Some a"
  obtains j where "sh_heap s a = Some j" "jb_id j = i" "0 < i \<Longrightarrow> a \<notin> X \<Longrightarrow> listed j"
proof -
  from placedD [OF table_parts(1) [OF assms(1)] assms(2)] obtain j
    where "sh_heap s a = Some j" "jb_id j = i" "0 < i \<longrightarrow> a \<notin> X \<longrightarrow> listed j" by (elim exE conjE)
  then show ?thesis by (intro that) simp_all
qed

lemma owned_next: "jobs_owned H s \<Longrightarrow> sh_heap s a = Some j \<Longrightarrow> a < sh_next s"
  unfolding jobs_owned_def by blast

lemma held_job:
  assumes "table_ok X H s" "a \<in> H"
  obtains j where "sh_heap s a = Some j" "\<And>i. slot s i \<noteq> Some a"
  using table_parts(2) [OF assms(1)] assms(2) unfolding jobs_owned_def by blast

lemma table_length: "table_ok X H s \<Longrightarrow> length (sh_table s) = MAX_JOBS + 1"
  by (simp add: table_ok_def jobs_counted_def)

lemma get_slot_ok: "table_ok X H s \<Longrightarrow> i \<le> MAX_JOBS \<Longrightarrow> get_slot i s = Some (slot s i)"
  by (simp add: get_slot_slot table_length)

lemma put_job_ok:
  assumes ok: "table_ok X H s" and j: "sh_heap s a = Some j" "jb_id j' = jb_id j"
    and state: "a \<in> X' \<or> a \<in> H \<or> jb_id j = 0 \<or> listed j'" and X: "X \<subseteq> insert a X'"
  shows "table_ok X' H (put_job a j' s)"
proof
  show "jobs_placed X' (put_job a j' s)"
    unfolding jobs_placed_def
  proof (intro allI impI)
    fix i b
    assume "slot (put_job a j' s) i = Some b"
    then have b: "slot s i = Some b" by simp
    then have "b \<notin> H" using table_parts(2) [OF ok] unfolding jobs_owned_def by blast
    from placedD [OF table_parts(1) [OF ok] b] \<open>b \<notin> H\<close> j state X
    show "\<exists>j. sh_heap (put_job a j' s) b = Some j \<and> jb_id j = i \<and> (0 < i \<longrightarrow> b \<notin> X' \<longrightarrow> listed j)"
      by (cases "b = a") auto
  qed
  show "jobs_owned H (put_job a j' s)"
  proof -
    have "dom ((sh_heap s)(a := Some j')) = dom (sh_heap s)" using j(1) by auto
    with table_parts(2) [OF ok] show ?thesis unfolding jobs_owned_def put_job_simps by simp
  qed
  show "jobs_counted (put_job a j' s)" using table_parts(3) [OF ok] by (simp add: jobs_counted_def)
qed

lemma free_job_ok:
  assumes ok: "table_ok X (insert a H) s" and "a \<notin> H"
  shows "free_job (Some a) s = Some (s\<lparr>sh_heap := (sh_heap s)(a := None)\<rparr>)"
    "table_ok X H (s\<lparr>sh_heap := (sh_heap s)(a := None)\<rparr>)"
proof -
  obtain j where j: "sh_heap s a = Some j" "\<And>i. slot s i \<noteq> Some a" using held_job [OF ok, of a] by blast
  then show "free_job (Some a) s = Some (s\<lparr>sh_heap := (sh_heap s)(a := None)\<rparr>)" by (simp add: free_job_def)
  show "table_ok X H (s\<lparr>sh_heap := (sh_heap s)(a := None)\<rparr>)"
  proof
    show "jobs_placed X (s\<lparr>sh_heap := (sh_heap s)(a := None)\<rparr>)"
      unfolding jobs_placed_def
    proof (intro allI impI)
      fix i b
      assume "slot (s\<lparr>sh_heap := (sh_heap s)(a := None)\<rparr>) i = Some b"
      then have b: "slot s i = Some b" by simp
      with j(2) have "b \<noteq> a" by auto
      with placedD [OF table_parts(1) [OF ok] b]
      show "\<exists>j. sh_heap (s\<lparr>sh_heap := (sh_heap s)(a := None)\<rparr>) b = Some j \<and> jb_id j = i \<and> (0 < i \<longrightarrow> b \<notin> X \<longrightarrow> listed j)"
        by simp
    qed
    have "dom ((sh_heap s)(a := None)) = {b. \<exists>i. slot s i = Some b} \<union> H"
      using table_parts(2) [OF ok] j(2) assms(2) unfolding jobs_owned_def by auto
    then show "jobs_owned H (s\<lparr>sh_heap := (sh_heap s)(a := None)\<rparr>)"
      using table_parts(2) [OF ok] unfolding jobs_owned_def by simp
    show "jobs_counted (s\<lparr>sh_heap := (sh_heap s)(a := None)\<rparr>)" using table_parts(3) [OF ok] by (simp add: jobs_counted_def)
  qed
qed

lemma new_job_ok:
  assumes ok: "table_ok X H s" and new: "new_job j s = (a, s')"
  shows "table_ok X (insert a H) s'" "a \<notin> H" "a = sh_next s" "s' = s\<lparr>sh_heap := (sh_heap s)(a := Some j), sh_next := a + 1\<rparr>"
    "\<And>i. slot s i \<noteq> Some a"
proof -
  from new show a: "a = sh_next s" and s': "s' = s\<lparr>sh_heap := (sh_heap s)(a := Some j), sh_next := a + 1\<rparr>"
    by (auto simp: new_job_def)
  have fresh: "a \<notin> dom (sh_heap s)" using owned_next [OF table_parts(2) [OF ok], of a] by (auto simp: a)
  then show "a \<notin> H" using table_parts(2) [OF ok] unfolding jobs_owned_def by blast
  show no_slot: "slot s i \<noteq> Some a" for i
    using fresh table_parts(2) [OF ok] unfolding jobs_owned_def by blast
  show "table_ok X (insert a H) s'"
  proof
    show "jobs_placed X s'"
      unfolding jobs_placed_def
    proof (intro allI impI)
      fix i b
      assume "slot s' i = Some b"
      then have b: "slot s i = Some b" by (simp add: s')
      with no_slot have "b \<noteq> a" by auto
      with placedD [OF table_parts(1) [OF ok] b]
      show "\<exists>j. sh_heap s' b = Some j \<and> jb_id j = i \<and> (0 < i \<longrightarrow> b \<notin> X \<longrightarrow> listed j)" by (simp add: s')
    qed
    show "jobs_owned (insert a H) s'"
      using table_parts(2) [OF ok] no_slot a unfolding jobs_owned_def
      by (simp add: s') (auto simp: less_Suc_eq)
    show "jobs_counted s'" using table_parts(3) [OF ok] by (simp add: jobs_counted_def s')
  qed
qed

text \<open>A job that is held goes to an empty slot.\<close>

lemma fill_slot:
  assumes ok: "table_ok X (insert a H) s" and "a \<notin> H" "slot s i = None" "i < length (sh_table s)"
    and s': "sh_table s' = (sh_table s)[i := Some a]" "sh_heap s' = (sh_heap s)(a := Some j)" "sh_next s' = sh_next s"
    and j: "jb_id j = i" "0 < i \<Longrightarrow> a \<notin> X \<Longrightarrow> listed j"
  shows "jobs_placed X s'" "jobs_owned H s'" "slot s' = (slot s)(i := Some a)"
proof -
  show slots: "slot s' = (slot s)(i := Some a)" by (rule slot_update [OF assms(4) s'(1)])
  have free: "slot s k \<noteq> Some a" for k using held_job [OF ok, of a] by blast
  show "jobs_placed X s'"
    unfolding jobs_placed_def
  proof (intro allI impI)
    fix k b
    assume b: "slot s' k = Some b"
    show "\<exists>j. sh_heap s' b = Some j \<and> jb_id j = k \<and> (0 < k \<longrightarrow> b \<notin> X \<longrightarrow> listed j)"
    proof (cases "k = i")
      case True
      with b j show ?thesis by (auto simp: slots s'(2))
    next
      case False
      with b have "slot s k = Some b" by (simp add: slots)
      with placedD [OF table_parts(1) [OF ok] this] free show ?thesis by (auto simp: s'(2))
    qed
  qed
  have "{b. \<exists>k. slot s' k = Some b} = insert a {b. \<exists>k. slot s k = Some b}"
    using assms(3) by (auto simp: slots split: if_split_asm) (metis option.distinct(1))
  moreover have "dom (sh_heap s') = insert a (dom (sh_heap s))" by (simp add: s'(2))
  moreover have "a < sh_next s" using held_job [OF ok, of a] owned_next [OF table_parts(2) [OF ok], of a] by blast
  moreover have "slot s' k \<noteq> Some b" if "b \<in> H" for k b
    using that assms(2) table_parts(2) [OF ok] by (cases "k = i") (auto simp: slots jobs_owned_def)
  ultimately show "jobs_owned H s'"
    using table_parts(2) [OF ok] by (auto simp: jobs_owned_def s'(3))
qed

section \<open>The operations on the table\<close>

lemma set_slot_ok: "i < length (sh_table s) \<Longrightarrow> set_slot i ptr s = Some (s\<lparr>sh_table := (sh_table s)[i := ptr]\<rparr>)"
  by (simp add: set_slot_def)

lemma set_slot_same: "slot s i = None \<Longrightarrow> i < length (sh_table s) \<Longrightarrow> set_slot i None s = Some s"
  using list_update_id [of "sh_table s" i] by (simp add: set_slot_def slot_def)

lemma clear_foreground:
  assumes ok: "table_ok X H s" and "slot s 0 = Some a"
  shows "table_ok X (insert a H) (s\<lparr>sh_table := (sh_table s)[0 := None]\<rparr>)"
proof -
  define s' where "s' = s\<lparr>sh_table := (sh_table s)[0 := None]\<rparr>"
  have slots: "slot s' = (slot s)(0 := None)" by (rule slot_update) (use assms(2) slot_less in \<open>auto simp: s'_def\<close>)
  have used: "used s' = used s" by (auto simp: used_def slots)
  have "table_ok X (insert a H) s'"
  proof
    show "jobs_placed X s'"
      using table_parts(1) [OF ok] unfolding jobs_placed_def slots by (auto simp: s'_def)
    show "jobs_owned (insert a H) s'"
      by (rule jobs_owned_remove [OF table_parts(2) [OF ok] assms(2) _ slots])
        (use slot_unique [OF table_parts(1) [OF ok] _ assms(2)] in \<open>simp_all add: s'_def\<close>)
    show "jobs_counted s'"
      using table_parts(3) [OF ok] unfolding jobs_counted_def slots used by (simp add: s'_def)
  qed
  then show ?thesis by (simp add: s'_def)
qed

lemma remove_foreground_keep:
  assumes ok: "table_ok X H s" and "slot s 0 = Some a"
  obtains s' where "remove_foreground_job False s = Some s'" "table_ok X (insert a H) s'" "slot s' = (slot s)(0 := None)"
    "s' = s\<lparr>sh_table := (sh_table s)[0 := None]\<rparr>"
proof -
  have len: "0 < length (sh_table s)" using assms(2) by (rule slot_less)
  show ?thesis
    by (rule that [OF _ clear_foreground [OF assms] slot_update [OF len] refl])
      (use len in \<open>simp_all add: remove_foreground_job_def set_slot_ok\<close>)
qed

lemma remove_foreground_free:
  assumes ok: "table_ok X H s"
  obtains s' where "remove_foreground_job True s = Some s'" "table_ok X H s'" "slot s' = (slot s)(0 := None)"
    "sh_fds s' = sh_fds s" "sh_highest s' = sh_highest s"
proof (cases "slot s 0")
  case None
  have "(slot s)(0 := None) = slot s" using None by auto
  then show ?thesis
    using that [of s] None ok
    by (simp add: remove_foreground_job_def get_slot_ok free_job_def set_slot_same table_length)
next
  case (Some a)
  have len: "0 < length (sh_table s)" using Some by (rule slot_less)
  obtain j where j: "sh_heap s a = Some j" using slot_job [OF ok Some] by blast
  have "a \<notin> H" using table_parts(2) [OF ok] Some unfolding jobs_owned_def by blast
  define s' where "s' = s\<lparr>sh_table := (sh_table s)[0 := None]\<rparr>"
  have "remove_foreground_job True s = Some (s'\<lparr>sh_heap := (sh_heap s')(a := None)\<rparr>)"
    using len j Some by (simp add: remove_foreground_job_def get_slot_ok [OF ok] free_job_def set_slot_ok s'_def)
  moreover have "table_ok X H (s'\<lparr>sh_heap := (sh_heap s')(a := None)\<rparr>)"
    unfolding s'_def by (rule free_job_ok(2) [OF clear_foreground [OF ok Some] \<open>a \<notin> H\<close>])
  moreover have "slot s' = (slot s)(0 := None)" by (rule slot_update [OF len]) (simp add: s'_def)
  ultimately show ?thesis using that by (simp add: s'_def)
qed

lemma set_foreground_new:
  assumes ok: "table_ok X (insert a H) s" and "a \<notin> H" "slot s 0 = None" and j: "sh_heap s a = Some j" "jb_id j = 0"
  obtains s' where "set_foreground_job a s = Some s'" "table_ok X H s'" "slot s' = (slot s)(0 := Some a)"
    "s' = s\<lparr>sh_table := (sh_table s)[0 := Some a],
       sh_heap := (sh_heap s)(a := Some (set_job_process_state True (j\<lparr>jb_state := JOB_FOREGROUND, jb_id := 0\<rparr>)))\<rparr>"
proof -
  define j' where "j' = set_job_process_state True (j\<lparr>jb_state := JOB_FOREGROUND, jb_id := 0\<rparr>)"
  define s' where "s' = s\<lparr>sh_table := (sh_table s)[0 := Some a], sh_heap := (sh_heap s)(a := Some j')\<rparr>"
  have len: "0 < length (sh_table s)" using table_length [OF ok] by simp
  have id: "jb_id j' = 0" by (simp add: j'_def set_job_process_state_def)
  have "set_foreground_job a s = Some s'"
    using j len assms(3) by (simp add: set_foreground_job_def set_slot_same set_slot_ok s'_def j'_def put_job_def)
  moreover have "table_ok X H s'"
  proof -
    have fill: "jobs_placed X s'" "jobs_owned H s'" "slot s' = (slot s)(0 := Some a)"
      using fill_slot [OF ok assms(2,3) len, of s' j'] id by (simp_all add: s'_def)
    have "used s' = used s" by (auto simp: used_def fill(3))
    with table_parts(3) [OF ok] have "jobs_counted s'" unfolding jobs_counted_def fill(3) by (simp add: s'_def)
    with fill show ?thesis by (simp add: table_ok_def)
  qed
  moreover have "slot s' = (slot s)(0 := Some a)" by (rule slot_update [OF len]) (simp add: s'_def)
  ultimately show ?thesis using that by (simp add: s'_def j'_def)
qed

lemma set_foreground_listed:
  assumes ok: "table_ok {} H s" and "slot s 0 = None" "slot s i = Some a" "0 < i" and j: "sh_heap s a = Some j"
  obtains s' where "set_foreground_job a s = Some s'" "table_ok {} H s'" "slot s' 0 = Some a" "sh_fds s' = sh_fds s"
    "sh_highest s' \<le> sh_highest s"
    "sh_heap s' a = Some (set_job_process_state True (j\<lparr>jb_state := JOB_FOREGROUND, jb_id := 0\<rparr>))"
proof -
  define j' where "j' = set_job_process_state True (j\<lparr>jb_state := JOB_FOREGROUND, jb_id := 0\<rparr>)"
  have id: "jb_id j = i" "listed j" using slot_job [OF ok assms(3)] assms(4) j by auto
  have "a \<notin> H" using table_parts(2) [OF ok] assms(3) unfolding jobs_owned_def by blast
  obtain h where h: "update_highest_job_id (s\<lparr>sh_table := (sh_table s)[i := None], sh_num_jobs := sh_num_jobs s - 1\<rparr>) =
      Some (s\<lparr>sh_table := (sh_table s)[i := None], sh_num_jobs := sh_num_jobs s - 1, sh_highest := h\<rparr>)"
    "h \<le> sh_highest s"
    "table_ok {} (insert a H) (s\<lparr>sh_table := (sh_table s)[i := None], sh_num_jobs := sh_num_jobs s - 1, sh_highest := h\<rparr>)"
    by (rule vacate [OF ok assms(3,4)]) simp
  define s1 where "s1 = s\<lparr>sh_table := (sh_table s)[i := None], sh_num_jobs := sh_num_jobs s - 1, sh_highest := h\<rparr>"
  have s1: "table_ok {} (insert a H) s1" using h(3) by (simp add: s1_def)
  have same: "sh_heap s1 = sh_heap s" "sh_next s1 = sh_next s" "sh_fds s1 = sh_fds s" "sh_highest s1 = h"
    by (simp_all add: s1_def)
  have i: "i < length (sh_table s)" using assms(3) by (rule slot_less)
  have slots1: "slot s1 = (slot s)(i := None)" by (rule slot_update [OF i]) (simp add: s1_def)
  then have zero: "slot s1 0 = None" using assms(2) by simp
  have len: "0 < length (sh_table s1)" using table_length [OF s1] by simp
  define s' where "s' = s1\<lparr>sh_table := (sh_table s1)[0 := Some a], sh_heap := (sh_heap s1)(a := Some j')\<rparr>"
  have "jb_state j \<noteq> JOB_FOREGROUND" using id(2) by (auto simp: listed_def)
  then have "set_foreground_job a s = Some s'"
    using j id i h(1) len assms(4)
    by (simp add: set_foreground_job_def set_slot_ok s'_def s1_def j'_def put_job_def)
  moreover have fill: "jobs_placed {} s'" "jobs_owned H s'" "slot s' = (slot s1)(0 := Some a)"
    using fill_slot [OF s1 \<open>a \<notin> H\<close> zero len, of s' j']
    by (simp_all add: s'_def j'_def set_job_process_state_def)
  moreover have "jobs_counted s'"
  proof -
    have "used s' = used s1" by (auto simp: used_def fill(3))
    with table_parts(3) [OF s1] show ?thesis unfolding jobs_counted_def fill(3) by (simp add: s'_def)
  qed
  ultimately show ?thesis using that h(2) by (simp add: table_ok_def s'_def same j'_def)
qed

lemma add_job_to_table_ok:
  assumes ok: "table_ok {} (insert a H) s" and "a \<notin> H" and j: "sh_heap s a = Some j" "listed j"
    and room: "sh_highest s < MAX_JOBS"
  obtains s' where "add_job_to_table a s = Some s'" "table_ok {} H s'" "sh_highest s' = sh_highest s + 1"
    "sh_fds s' = sh_fds s" "slot s' = (slot s)(sh_highest s + 1 := Some a)"
proof -
  define i where "i = sh_highest s + 1"
  define s' where "s' = s\<lparr>sh_table := (sh_table s)[i := Some a], sh_heap := (sh_heap s)(a := Some (j\<lparr>jb_id := i\<rparr>)),
    sh_highest := i, sh_num_jobs := sh_num_jobs s + 1\<rparr>"
  have i: "i < length (sh_table s)" using table_length [OF ok] room by (simp add: i_def)
  have empty: "slot s i = None" using table_parts(3) [OF ok] by (simp add: jobs_counted_def i_def)
  have "add_job_to_table a s = Some s'"
    using j i by (simp add: add_job_to_table_def set_slot_ok s'_def i_def put_job_def)
  moreover have fill: "jobs_placed {} s'" "jobs_owned H s'" "slot s' = (slot s)(i := Some a)"
    using fill_slot [OF ok assms(2) empty i, of s' "j\<lparr>jb_id := i\<rparr>"] j(2) by (simp_all add: s'_def listed_def)
  moreover have "jobs_counted s'"
  proof -
    have "used s' = insert i (used s)" "i \<notin> used s" using empty by (auto simp: used_def fill(3) i_def)
    then have "card (used s') = Suc (card (used s))" by (simp add: used_finite)
    with table_parts(3) [OF ok] room show ?thesis unfolding jobs_counted_def fill(3) by (auto simp: s'_def i_def)
  qed
  ultimately show ?thesis using that by (simp add: table_ok_def s'_def i_def)
qed

lemma remove_job_from_table_ok:
  assumes ok: "table_ok X H s" and "X \<subseteq> {a}" "slot s i = Some a" "0 < i"
  obtains s' where "remove_job_from_table a s = Some s'" "table_ok {} (insert a H) s'" "sh_highest s' \<le> sh_highest s"
    "slot s' = (slot s)(i := None)" "sh_heap s' = sh_heap s" "sh_fds s' = sh_fds s" "sh_next s' = sh_next s"
proof -
  obtain j where j: "sh_heap s a = Some j" "jb_id j = i" using slot_job [OF ok assms(3)] by blast
  have i: "i < length (sh_table s)" using assms(3) by (rule slot_less)
  obtain h where h: "update_highest_job_id (s\<lparr>sh_table := (sh_table s)[i := None], sh_num_jobs := sh_num_jobs s - 1\<rparr>) =
      Some (s\<lparr>sh_table := (sh_table s)[i := None], sh_num_jobs := sh_num_jobs s - 1, sh_highest := h\<rparr>)"
    "h \<le> sh_highest s"
    "table_ok {} (insert a H) (s\<lparr>sh_table := (sh_table s)[i := None], sh_num_jobs := sh_num_jobs s - 1, sh_highest := h\<rparr>)"
    (is "table_ok {} _ ?s1")
    by (rule vacate [OF ok assms(3,4,2)])
  have "remove_job_from_table a s = Some ?s1"
    using j i h(1) assms(4) by (simp add: remove_job_from_table_def set_slot_ok)
  moreover have "slot ?s1 = (slot s)(i := None)" by (rule slot_update [OF i]) simp
  ultimately show ?thesis using that [of ?s1] h by simp
qed

end
