(* ===== verification/Pa2_Events.thy ===== *)
theory Pa2_Events
  imports Pa2_Table
begin

text \<open>
  The handler of \<^verbatim>\<open>SIGCHLD\<close> and the wait for a job keep the table of jobs: no report makes the shell touch a job
  that was freed, and a job leaves the heap when and only when it leaves the table.
\<close>

section \<open>One job\<close>

lemma report_process_length [simp]: "length (report_process ps pid code status) = length ps"
  by (induction ps) auto

lemma report_process_empty [simp]: "report_process ps pid code status = [] \<longleftrightarrow> ps = []"
  by (cases ps) auto

lemma set_job_state_simps [simp]:
  "jb_id (set_job_state j code) = jb_id j" "jb_processes (set_job_state j code) = jb_processes j"
  "jb_command (set_job_state j code) = jb_command j" "jb_pgid (set_job_state j code) = jb_pgid j"
  by (auto simp: set_job_state_def has_completed_def split: prod.splits)

lemma has_completed_simps [simp]:
  "jb_id (snd (has_completed j)) = jb_id j" "jb_processes (snd (has_completed j)) = jb_processes j"
  "jb_pgid (snd (has_completed j)) = jb_pgid j"
  by (auto simp: has_completed_def)

lemma has_completed_state:
  "fst (has_completed j) \<Longrightarrow> jb_state (snd (has_completed j)) = JOB_DONE"
  "\<not> fst (has_completed j) \<Longrightarrow> snd (has_completed j) = j \<and> jb_state j \<noteq> JOB_DONE"
  by (auto simp: has_completed_def split: if_splits)

lemma set_job_state_listed:
  "listed j \<or> jb_state j = JOB_DONE \<Longrightarrow> listed (set_job_state j code) \<or> jb_state (set_job_state j code) = JOB_DONE"
  using set_job_state_simps(2) [of j code]
  by (auto simp: set_job_state_def has_completed_def listed_def split: prod.splits if_splits)

section \<open>What waiting leaves alone\<close>

definition undisturbed :: "shell \<Rightarrow> shell \<Rightarrow> bool" where
  "undisturbed s s' \<longleftrightarrow> slot s' 0 = slot s 0 \<and> sh_highest s' \<le> sh_highest s \<and> sh_fds s' = sh_fds s \<and>
     sh_children s' = sh_children s \<and>
     (\<forall>a j. slot s 0 = Some a \<longrightarrow> sh_heap s a = Some j \<longrightarrow>
        (\<exists>j'. sh_heap s' a = Some j' \<and> length (jb_processes j') = length (jb_processes j)))"

lemma undisturbedI:
  assumes "slot s' 0 = slot s 0" "sh_highest s' \<le> sh_highest s" "sh_fds s' = sh_fds s" "sh_children s' = sh_children s"
    "\<And>a j. slot s 0 = Some a \<Longrightarrow> sh_heap s a = Some j \<Longrightarrow>
      \<exists>j'. sh_heap s' a = Some j' \<and> length (jb_processes j') = length (jb_processes j)"
  shows "undisturbed s s'"
  using assms by (simp add: undisturbed_def)

lemma undisturbed_refl [simp]: "undisturbed s s"
  by (simp add: undisturbed_def)

lemma undisturbed_trans [trans]: "undisturbed s s' \<Longrightarrow> undisturbed s' s'' \<Longrightarrow> undisturbed s s''"
  unfolding undisturbed_def by (metis le_trans)

lemma undisturbed_put:
  "sh_heap s a = Some j \<Longrightarrow> length (jb_processes j') = length (jb_processes j) \<Longrightarrow> undisturbed s (put_job a j' s)"
  by (rule undisturbedI) (auto simp: put_job_def)

lemma undisturbed_same:
  assumes "sh_heap s' = sh_heap s" "sh_table s' = sh_table s" "sh_highest s' = sh_highest s" "sh_fds s' = sh_fds s"
    "sh_children s' = sh_children s"
  shows "undisturbed s s'"
  using assms by (simp add: undisturbed_def slot_def)

section \<open>The reports\<close>

lemma find_job_in_ok:
  "\<forall>a. Some a \<in> set slots \<longrightarrow> heap a \<noteq> None \<Longrightarrow>
    \<exists>r. find_job_in heap slots pid = Some r \<and> (\<forall>a. r = Some a \<longrightarrow> Some a \<in> set slots)"
proof (induction heap slots pid rule: find_job_in.induct)
  case (3 heap a slots pid)
  then obtain j where "heap a = Some j" by auto
  with 3 show ?case by auto
qed auto

lemma find_job_by_pid_ok:
  assumes "table_ok X H s"
  obtains r where "find_job_by_pid pid s = Some r" "\<And>a. r = Some a \<Longrightarrow> \<exists>i. slot s i = Some a"
proof -
  have entry: "\<exists>i. slot s i = Some a" if "Some a \<in> set (take MAX_JOBS (sh_table s))" for a
  proof -
    from that have "Some a \<in> set (sh_table s)" by (meson in_set_takeD)
    then obtain i where "i < length (sh_table s)" "sh_table s ! i = Some a" by (metis in_set_conv_nth)
    then show ?thesis by (auto simp: slot_def)
  qed
  have "\<forall>a. Some a \<in> set (take MAX_JOBS (sh_table s)) \<longrightarrow> sh_heap s a \<noteq> None"
    using entry slot_job [OF assms] by (metis option.distinct(1))
  from find_job_in_ok [OF this, of pid] entry that show ?thesis unfolding find_job_by_pid_def by blast
qed

lemma waitid_ok:
  assumes "table_ok X H s" "waitid s = (answer, s')"
  shows "table_ok X H s'" "undisturbed s s'" "sh_heap s' = sh_heap s" "slot s' = slot s"
proof -
  have same: "sh_heap s' = sh_heap s" "sh_next s' = sh_next s" "sh_table s' = sh_table s" "sh_num_jobs s' = sh_num_jobs s"
    "sh_highest s' = sh_highest s" "sh_fds s' = sh_fds s" "sh_children s' = sh_children s"
    using assms(2) by (auto simp: waitid_def split: list.splits prod.splits)
  show "table_ok X H s'" using table_ok_cong [OF same(1-5)] assms(1) by simp
  show "undisturbed s s'" by (rule undisturbed_same) (simp_all add: same)
  show "sh_heap s' = sh_heap s" "slot s' = slot s" using same by (simp_all add: slot_def fun_eq_iff)
qed

lemma wait_for_any_process_ok:
  assumes ok: "table_ok {} H s"
  obtains s' where "wait_for_any_process s = Some (None, s')" "table_ok {} H s'" "undisturbed s s'"
  | a code s' i j where "wait_for_any_process s = Some (Some (a, code), s')" "table_ok {a} H s'" "undisturbed s s'"
    "slot s' i = Some a" "sh_heap s' a = Some j" "0 < i \<Longrightarrow> listed j \<or> jb_state j = JOB_DONE"
proof -
  obtain answer s1 where wait: "waitid s = (answer, s1)" by (cases "waitid s")
  note s1 = waitid_ok [OF ok wait]
  show ?thesis
  proof (cases answer)
    case None
    with wait s1 that(1) show ?thesis by (simp add: wait_for_any_process_def)
  next
    case (Some report)
    then obtain pid code status where report: "answer = Some (pid, code, status)" by (cases report) auto
    obtain r where r: "find_job_by_pid pid s1 = Some r" "\<And>a. r = Some a \<Longrightarrow> \<exists>i. slot s1 i = Some a"
      using find_job_by_pid_ok [OF s1(1)] by metis
    show ?thesis
    proof (cases r)
      case None
      with wait report r(1) s1 that(1) show ?thesis by (simp add: wait_for_any_process_def)
    next
      case (Some a)
      with r(2) obtain i where i: "slot s1 i = Some a" by blast
      obtain j where j: "sh_heap s1 a = Some j" "jb_id j = i" "0 < i \<Longrightarrow> listed j" using slot_job [OF s1(1) i] by auto
      define j' where "j' = set_job_state (j\<lparr>jb_processes := report_process (jb_processes j) pid code status\<rparr>) code"
      have j': "jb_id j' = jb_id j" "length (jb_processes j') = length (jb_processes j)" by (simp_all add: j'_def)
      have state: "0 < i \<Longrightarrow> listed j' \<or> jb_state j' = JOB_DONE"
        unfolding j'_def by (rule set_job_state_listed) (use j(3) in \<open>auto simp: listed_def\<close>)
      show ?thesis
      proof (rule that(2) [of a code "put_job a j' s1" i j'])
        show "wait_for_any_process s = Some (Some (a, code), put_job a j' s1)"
          using wait report r(1) Some j(1) by (simp add: wait_for_any_process_def j'_def)
        show "table_ok {a} H (put_job a j' s1)" by (rule put_job_ok [OF s1(1) j(1) j'(1)]) simp_all
        show "undisturbed s (put_job a j' s1)" by (rule undisturbed_trans [OF s1(2) undisturbed_put [OF j(1) j'(2)]])
      qed (use i state in simp_all)
    qed
  qed
qed

lemma reported_ok:
  assumes ok: "table_ok {a} H s" and i: "slot s i = Some a" and j: "sh_heap s a = Some j"
    and state: "0 < i \<Longrightarrow> listed j \<or> jb_state j = JOB_DONE"
  obtains s' where "reported a code s = Some s'" "table_ok {} H s'" "undisturbed s s'"
proof -
  define j1 where "j1 = set_job_state j code"
  have id: "jb_id j = i" using slot_job [OF ok i] j by auto
  have j1: "jb_id j1 = i" "length (jb_processes j1) = length (jb_processes j)" by (simp_all add: j1_def id)
  have put: "table_ok {a} H (put_job a j1 s)" by (rule put_job_ok [OF ok j]) (simp_all add: j1 id)
  show ?thesis
  proof (cases "0 < i \<and> fst (has_completed j1)")
    case False
    have "table_ok {} H (put_job a j1 s)"
    proof (rule put_job_ok [OF ok j])
      show "a \<in> {} \<or> a \<in> H \<or> jb_id j = 0 \<or> listed j1"
        using False state set_job_state_listed [of j code] has_completed_state(2) [of j1] by (auto simp: id j1_def)
    qed (simp_all add: j1 id)
    moreover have "reported a code s = Some (put_job a j1 s)"
      using False j has_completed_state(2) [of j1] by (auto simp: reported_def Let_def id j1_def put_job_def)
    ultimately show ?thesis using that undisturbed_put [OF j j1(2)] by blast
  next
    case True
    define j2 where "j2 = snd (has_completed j1)"
    define s2 where "s2 = say (bell j1) (put_job a j2 (put_job a j1 s))"
    have heap2: "sh_heap s2 a = Some j2" by (simp add: s2_def say_def)
    have "table_ok {a} H (put_job a j2 (put_job a j1 s))"
      by (rule put_job_ok [OF put, of a j1]) (simp_all add: j2_def)
    then have ok2: "table_ok {a} H s2" by (simp add: s2_def say_def table_ok_cong [of "_\<lparr>sh_out := _\<rparr>" "put_job a j2 (put_job a j1 s)"])
    have slot2: "slot s2 = slot s" by (simp add: s2_def say_def)
    then have "slot s2 i = Some a" using i by simp
    then obtain s3 where s3: "remove_job_from_table a s2 = Some s3" "table_ok {} (insert a H) s3"
      "sh_highest s3 \<le> sh_highest s2" "slot s3 = (slot s2)(i := None)" "sh_heap s3 = sh_heap s2" "sh_fds s3 = sh_fds s2"
      "sh_next s3 = sh_next s2"
      using remove_job_from_table_ok [OF ok2 subset_refl] True by blast
    have "a \<notin> H" using table_parts(2) [OF ok] i unfolding jobs_owned_def by blast
    note free = free_job_ok [OF s3(2) this]
    have children: "sh_children s3 = sh_children s2"
      using s3(1) by (auto simp: remove_job_from_table_def update_highest_job_id_def set_slot_def bind_eq_Some_conv split: if_splits)
    have "reported a code s = Some (s3\<lparr>sh_heap := (sh_heap s3)(a := None)\<rparr>)"
      using True j s3(1) free(1) by (simp add: reported_def Let_def id j1_def [symmetric] s2_def j2_def)
    moreover have "undisturbed s (s3\<lparr>sh_heap := (sh_heap s3)(a := None)\<rparr>)"
    proof (rule undisturbedI)
      fix b k
      assume b: "slot s 0 = Some b" "sh_heap s b = Some k"
      have "b \<noteq> a" using slot_unique [OF table_parts(1) [OF ok] i, of 0] b(1) True by auto
      with b(2) show "\<exists>j'. sh_heap (s3\<lparr>sh_heap := (sh_heap s3)(a := None)\<rparr>) b = Some j' \<and>
          length (jb_processes j') = length (jb_processes k)"
        by (simp add: s3(5) s2_def say_def)
    qed (use True s3(3,4,6) in \<open>simp_all add: children s2_def say_def put_job_def slot2 [unfolded s2_def]\<close>)
    ultimately show ?thesis using that free(2) by blast
  qed
qed

section \<open>The handler\<close>

lemma handle_events_ok:
  assumes "table_ok {} H s"
  shows "\<exists>s'. handle_events s = Some s' \<and> table_ok {} H s' \<and> undisturbed s s'"
  using assms
proof (induction s rule: handle_events.induct)
  case (1 s)
  show ?case
  proof (rule wait_for_any_process_ok [OF "1.prems"], goal_cases)
    case (1 s')
    note step = this
    show ?thesis
    proof (cases "sh_pending s'")
      case False
      with step show ?thesis by (simp add: handle_events.simps [of s])
    next
      case True
      have "table_ok {} H (s'\<lparr>sh_pending := False\<rparr>)"
        using step(2) by (simp add: table_ok_cong [of "s'\<lparr>sh_pending := False\<rparr>" s'])
      with "1.IH"(1) [OF step(1) refl refl True] obtain s'' where
        "handle_events (s'\<lparr>sh_pending := False\<rparr>) = Some s''" "table_ok {} H s''" "undisturbed (s'\<lparr>sh_pending := False\<rparr>) s''"
        by auto
      moreover have "undisturbed s' (s'\<lparr>sh_pending := False\<rparr>)" by (rule undisturbed_same) simp_all
      ultimately show ?thesis
        using step True by (auto simp: handle_events.simps [of s] intro: undisturbed_trans)
    qed
  next
    case (2 a code s1 i j)
    note step = this
    obtain s2 where s2: "reported a code s1 = Some s2" "table_ok {} H s2" "undisturbed s1 s2"
      by (rule reported_ok [OF step(2,4,5) step(6)])
    from "1.IH"(2) [OF step(1) refl refl refl s2(1,2)] obtain s' where
      "handle_events s2 = Some s'" "table_ok {} H s'" "undisturbed s2 s'" by auto
    then show ?thesis
      using step(1,3) s2 by (auto simp: handle_events.simps [of s] intro: undisturbed_trans)
  qed
qed

lemma handle_pending_sigchld_ok:
  assumes "table_ok {} H s"
  obtains s' where "handle_pending_sigchld s = Some s'" "table_ok {} H s'" "undisturbed s s'"
proof -
  have "table_ok {} H (s\<lparr>sh_pending := False\<rparr>)"
    using assms by (simp add: table_ok_cong [of "s\<lparr>sh_pending := False\<rparr>" s])
  from handle_events_ok [OF this] obtain s' where
    "handle_pending_sigchld s = Some s'" "table_ok {} H s'" "undisturbed (s\<lparr>sh_pending := False\<rparr>) s'"
    by (auto simp: handle_pending_sigchld_def)
  moreover have "undisturbed s (s\<lparr>sh_pending := False\<rparr>)" by (rule undisturbed_same) simp_all
  ultimately show ?thesis using that by (blast intro: undisturbed_trans)
qed

section \<open>Waiting\<close>

definition ends_in :: "('a \<Rightarrow> shell \<Rightarrow> bool) \<Rightarrow> 'a step_result \<Rightarrow> bool" where
  "ends_in P r = (case r of Return x s \<Rightarrow> P x s | Exits _ _ \<Rightarrow> True | Asleep _ \<Rightarrow> True | Fault \<Rightarrow> False)"

lemma ends_in_simps [simp]:
  "ends_in P (Return x s) = P x s" "ends_in P (Exits c s)" "ends_in P (Asleep s)" "\<not> ends_in P Fault"
  by (simp_all add: ends_in_def)

lemma ends_in_and_then: "ends_in P (and_then m f) \<longleftrightarrow> ends_in (\<lambda>x s. ends_in P (f x s)) m"
  by (cases m) (simp_all add: and_then_def)

lemma ends_in_mono: "ends_in P r \<Longrightarrow> (\<And>x s. P x s \<Longrightarrow> Q x s) \<Longrightarrow> ends_in Q r"
  by (cases r) simp_all

lemma attempt_Some [simp]: "attempt (Some x) f = f x" and attempt_None [simp]: "attempt None f = Fault"
  by (simp_all add: attempt_def)

text \<open>The wait for the job in slot 0 ends with the job done or stopped.\<close>

definition waited :: "nat set \<Rightarrow> nat \<Rightarrow> shell \<Rightarrow> JobState \<Rightarrow> shell \<Rightarrow> bool" where
  "waited H a s st s' \<longleftrightarrow> table_ok {} H s' \<and> undisturbed s s' \<and>
     (\<exists>j. sh_heap s' a = Some j \<and> jb_state j = st \<and> (st = JOB_DONE \<or> st = JOB_STOPPED))"

lemma wait_loop_step:
  assumes "(if sh_pending s then handle_pending_sigchld s else Some s) = Some s1" "get_slot i s1 = Some (Some a)"
    "sh_heap s1 a = Some j"
  shows "wait_loop i wakes s =
    (let j = has_completed j; s = put_job a (snd j) s1 in
     if fst j \<or> has_stopped (snd j) then Return (jb_state (snd j)) (s\<lparr>sh_wakes := wakes\<rparr>)
     else case wakes of [] \<Rightarrow> Asleep (s\<lparr>sh_wakes := []\<rparr>)
       | w # ws \<Rightarrow> wait_loop i ws (s\<lparr>sh_pending := sh_pending s \<or> w\<rparr>))"
  by (subst wait_loop.simps) (simp only: assms option.case Let_def split_def)

lemma wait_loop_ok:
  assumes "table_ok {} H s" "slot s 0 = Some a"
  shows "ends_in (waited H a s) (wait_loop 0 wakes s)"
  using assms
proof (induction wakes arbitrary: s)
  have round: "\<exists>s1 j. (if sh_pending s then handle_pending_sigchld s else Some s) = Some s1 \<and> table_ok {} H s1 \<and>
      undisturbed s s1 \<and> slot s1 0 = Some a \<and> get_slot 0 s1 = Some (Some a) \<and> sh_heap s1 a = Some j \<and>
      table_ok {} H (put_job a (snd (has_completed j)) s1) \<and> undisturbed s (put_job a (snd (has_completed j)) s1)"
    if s: "table_ok {} H s" "slot s 0 = Some a" for s
  proof -
    obtain s1 where s1: "(if sh_pending s then handle_pending_sigchld s else Some s) = Some s1" "table_ok {} H s1" "undisturbed s s1"
      using handle_pending_sigchld_ok [OF s(1)] s(1) by (metis undisturbed_refl)
    then have slot: "slot s1 0 = Some a" using s(2) by (simp add: undisturbed_def)
    obtain j where j: "sh_heap s1 a = Some j" "jb_id j = 0" using slot_job [OF s1(2) slot] by auto
    have "table_ok {} H (put_job a (snd (has_completed j)) s1)"
      by (rule put_job_ok [OF s1(2) j(1)]) (simp_all add: j(2))
    moreover have "undisturbed s (put_job a (snd (has_completed j)) s1)"
      by (rule undisturbed_trans [OF s1(3) undisturbed_put [OF j(1)]]) simp
    ultimately show ?thesis using s1 slot j(1) by (auto simp: get_slot_ok)
  qed
  {
    case Nil
    from round [OF Nil] obtain s1 j where
      r: "(if sh_pending s then handle_pending_sigchld s else Some s) = Some s1" "get_slot 0 s1 = Some (Some a)"
      "sh_heap s1 a = Some j" "table_ok {} H (put_job a (snd (has_completed j)) s1)"
      "undisturbed s (put_job a (snd (has_completed j)) s1)"
      by blast
    let ?s2 = "put_job a (snd (has_completed j)) s1"
    have "table_ok {} H (?s2\<lparr>sh_wakes := []\<rparr>)" using r(4) by (simp add: table_ok_cong [of "?s2\<lparr>sh_wakes := []\<rparr>" ?s2])
    moreover have "undisturbed s (?s2\<lparr>sh_wakes := []\<rparr>)" by (rule undisturbed_trans [OF r(5) undisturbed_same]) simp_all
    ultimately show ?case
      using has_completed_state(1) [of j]
      by (auto simp: wait_loop_step [OF r(1-3)] Let_def waited_def has_stopped_def)
  next
    case (Cons w wakes)
    from round [OF Cons.prems] obtain s1 j where
      r: "(if sh_pending s then handle_pending_sigchld s else Some s) = Some s1" "get_slot 0 s1 = Some (Some a)"
      "sh_heap s1 a = Some j" "table_ok {} H (put_job a (snd (has_completed j)) s1)"
      "undisturbed s (put_job a (snd (has_completed j)) s1)" "slot s1 0 = Some a"
      by blast
    let ?s2 = "put_job a (snd (has_completed j)) s1"
    let ?s3 = "?s2\<lparr>sh_pending := sh_pending ?s2 \<or> w\<rparr>"
    have "table_ok {} H (?s2\<lparr>sh_wakes := w # wakes\<rparr>)" "table_ok {} H ?s3"
      using r(4) by (simp_all add: table_ok_cong [of "?s2\<lparr>sh_wakes := w # wakes\<rparr>" ?s2] table_ok_cong [of ?s3 ?s2])
    moreover have "undisturbed s (?s2\<lparr>sh_wakes := w # wakes\<rparr>)" "undisturbed s ?s3"
      by (rule undisturbed_trans [OF r(5) undisturbed_same]; simp)+
    moreover have "ends_in (waited H a ?s3) (wait_loop 0 wakes ?s3)"
      using calculation(2) r(6) by (intro Cons.IH) simp_all
    then have "ends_in (waited H a s) (wait_loop 0 wakes ?s3)"
      by (rule ends_in_mono) (use calculation(4) in \<open>auto simp: waited_def intro: undisturbed_trans\<close>)
    ultimately show ?case
      using has_completed_state(1) [of j]
      by (cases "fst (has_completed j) \<or> has_stopped (snd (has_completed j))")
        (auto simp: wait_loop_step [OF r(1-3)] Let_def has_stopped_def waited_def [of H a s "jb_state (snd (has_completed j))"])
  }
qed

lemma wait_for_processes_ok:
  assumes "table_ok {} H s" "slot s 0 = Some a"
  shows "ends_in (waited H a s) (wait_for_processes a s)"
proof -
  obtain j where "sh_heap s a = Some j" "jb_id j = 0" using slot_job [OF assms] by auto
  with wait_loop_ok [OF assms] show ?thesis by (simp add: wait_for_processes_def)
qed

section \<open>A job in the foreground or in the background\<close>

lemma say_simps [simp]:
  "sh_heap (say b s) = sh_heap s" "sh_table (say b s) = sh_table s" "sh_highest (say b s) = sh_highest s"
  "sh_fds (say b s) = sh_fds s" "slot (say b s) = slot s" "table_ok X H (say b s) = table_ok X H s"
  "sh_children (say b s) = sh_children s" "sh_num_jobs (say b s) = sh_num_jobs s"
  by (simp_all add: say_def table_ok_cong [of "s\<lparr>sh_out := _\<rparr>" s])

text \<open>The table gets the job before slot 0 loses it; the other order gives the same.\<close>

lemma add_then_remove:
  assumes "add_job_to_table a s = Some s1" "0 < length (sh_table s)"
  shows "remove_foreground_job False (say b s1) =
    map_option (say b) (Option.bind (remove_foreground_job False s) (add_job_to_table a))"
proof -
  have "0 < length (sh_table s1)" "sh_highest s + 1 \<noteq> 0"
    using assms by (auto simp: add_job_to_table_def Let_def bind_eq_Some_conv set_slot_def put_job_def split: if_splits)
  with assms show ?thesis
    by (auto simp: add_job_to_table_def remove_foreground_job_def set_slot_def Let_def bind_eq_Some_conv put_job_def say_def
        list_update_swap split: if_splits)
qed

lemma handle_foreground_ok:
  assumes ok: "table_ok {} H s" and "slot s 0 = Some a" and j: "sh_heap s a = Some j" "jb_state j = JOB_FOREGROUND"
    "jb_processes j \<noteq> []" and room: "sh_highest s < MAX_JOBS"
  shows "ends_in (\<lambda>_ s'. table_ok {} H s' \<and> slot s' 0 = None \<and> sh_fds s' = sh_fds s \<and> sh_children s' = sh_children s \<and>
    sh_highest s' \<le> sh_highest s + 1) (handle_job a s)"
proof -
  have "a \<notin> H" using table_parts(2) [OF ok] assms(2) unfolding jobs_owned_def by blast
  have "ends_in (\<lambda>_ s'. table_ok {} H s' \<and> slot s' 0 = None \<and> sh_fds s' = sh_fds s \<and> sh_children s' = sh_children s \<and>
      sh_highest s' \<le> sh_highest s + 1)
    (leave_foreground a s1)" (is "ends_in ?P _")
    if w: "waited H a s st s1" for st s1
  proof -
    from w obtain j1 where s1: "table_ok {} H s1" "undisturbed s s1" "sh_heap s1 a = Some j1"
      "jb_state j1 = JOB_DONE \<or> jb_state j1 = JOB_STOPPED"
      by (auto simp: waited_def)
    from s1(2) assms(2) j s1(3) have same: "slot s1 0 = Some a" "sh_highest s1 \<le> sh_highest s" "sh_fds s1 = sh_fds s"
      "sh_children s1 = sh_children s" "jb_processes j1 \<noteq> []"
      by (auto simp: undisturbed_def simp flip: length_greater_0_conv)
    then obtain status where status: "last_status_of j1 = Some status" by (simp add: last_status_of_def Let_def)
    show ?thesis
    proof (cases "jb_state j1 = JOB_DONE")
      case True
      obtain s2 where s2: "remove_foreground_job True s1 = Some s2" "table_ok {} H s2" "slot s2 = (slot s1)(0 := None)"
        "sh_fds s2 = sh_fds s1" "sh_highest s2 = sh_highest s1"
        by (rule remove_foreground_free [OF s1(1)])
      have "sh_children s2 = sh_children s1"
        using s2(1) by (auto simp: remove_foreground_job_def bind_eq_Some_conv free_job_def set_slot_def split: if_splits option.splits)
      with True s1(3) status s2 same show ?thesis by (simp add: leave_foreground_def)
    next
      case False
      obtain s2 where s2: "remove_foreground_job False s1 = Some s2" "table_ok {} (insert a H) s2"
        "slot s2 = (slot s1)(0 := None)" "s2 = s1\<lparr>sh_table := (sh_table s1)[0 := None]\<rparr>"
        by (rule remove_foreground_keep [OF s1(1) same(1)])
      have "listed j1" using False s1(4) same(5) by (simp add: listed_def)
      then obtain s3 where s3: "add_job_to_table a s2 = Some s3" "table_ok {} H s3" "sh_highest s3 = sh_highest s2 + 1"
        "sh_fds s3 = sh_fds s2" "slot s3 = (slot s2)(sh_highest s2 + 1 := Some a)"
        using add_job_to_table_ok [OF s2(2) \<open>a \<notin> H\<close>, of j1] s1(3) s2(4) same(2) room by auto
      have children: "sh_children s3 = sh_children s2"
        using s3(1) by (auto simp: add_job_to_table_def Let_def bind_eq_Some_conv set_slot_def put_job_def split: if_splits)
      have "sh_highest s1 + 1 < length (sh_table s1)" using table_length [OF s1(1)] same(2) room by simp
      then obtain s1' where add: "add_job_to_table a s1 = Some s1'"
        using s1(3) by (auto simp: add_job_to_table_def Let_def set_slot_def put_job_def)
      have len: "0 < length (sh_table s1)" using table_length [OF s1(1)] by simp
      show ?thesis
        using False s1(3,4) status add add_then_remove [OF add len] s2 s3 same children
        by (simp add: leave_foreground_def)
    qed
  qed
  then have "ends_in (\<lambda>st s1. ends_in ?P (leave_foreground a s1)) (wait_for_processes a s)"
    by (rule ends_in_mono [OF wait_for_processes_ok [OF ok assms(2)]])
  then show ?thesis by (simp add: handle_job_def j(1,2) ends_in_and_then)
qed

end
