(* ===== verification/Pa2_Builtins.thy ===== *)
theory Pa2_Builtins
  imports Pa2_Jobs
begin

text \<open>
  \<^verbatim>\<open>PA2/shell_src/builtin_commands.c\<close> and the built-in commands of \<^verbatim>\<open>PA2/shell_src/pa2.c\<close>. What the system
  answers is a parameter. Messages on the error stream are not part of the results.
\<close>

section \<open>The system around the shell\<close>

text \<open>
  Changing the directory (with what \<^verbatim>\<open>getcwd\<close> says then), the home directory, the directory of the program,
  opening for reading and for writing (with the append flag), and executing a file (directly or along the
  search path).
\<close>

datatype exec_result = Exec_Runs | Exec_Missing | Exec_Fails

record kernel =
  k_chdir :: "byte list option \<Rightarrow> byte list \<Rightarrow> byte list option option"
  k_home :: "byte list option"
  k_bin_dir :: "byte list option"
  k_open_read :: "byte list \<Rightarrow> bool"
  k_open_write :: "byte list \<Rightarrow> bool \<Rightarrow> bool"
  k_exec :: "byte list \<Rightarrow> bool \<Rightarrow> exec_result"

section \<open>Numbers\<close>

definition digit :: "byte \<Rightarrow> bool" where
  "digit b \<longleftrightarrow> 48 \<le> b \<and> b \<le> 57"

definition LONG_MAX :: int where "LONG_MAX = 2 ^ 63 - 1"

definition LONG_MIN :: int where "LONG_MIN = - (2 ^ 63)"

text \<open>
  \<^verbatim>\<open>strtol\<close> and \<^verbatim>\<open>strtoll\<close> in base ten: the value, the text behind it, whether there was a number, and whether it
  was out of range.
\<close>

definition strtoll :: "byte list \<Rightarrow> int \<times> byte list \<times> bool \<times> bool" where
  "strtoll s =
     (let t = dropWhile white s;
          negative = (t \<noteq> [] \<and> hd t = chr CHR ''-'');
          u = (if t \<noteq> [] \<and> (hd t = chr CHR ''-'' \<or> hd t = chr CHR ''+'') then tl t else t);
          v = (if negative then - int (read_dec 0 (takeWhile digit u)) else int (read_dec 0 (takeWhile digit u)))
      in if takeWhile digit u = [] then (0, s, False, False)
         else if v > LONG_MAX then (LONG_MAX, dropWhile digit u, True, True)
         else if v < LONG_MIN then (LONG_MIN, dropWhile digit u, True, True)
         else (v, dropWhile digit u, True, False))"

section \<open>Jobs\<close>

definition job_line :: "job \<Rightarrow> byte list" where
  "job_line j = show_nat (jb_id j) @ [9] @ show_status (jb_pgid j) @ [9] @
     bytes_of (if jb_state j = JOB_BACKGROUND then ''running'' else ''stopped'') @ [9] @
     (case jb_command j of None \<Rightarrow> bytes_of ''(null)'' | Some c \<Rightarrow> c) @ [NL]"

fun list_jobs :: "nat \<Rightarrow> shell \<Rightarrow> int step_result" where
  "list_jobs 0 s = Return 0 s"
| "list_jobs (Suc i) s =
     attempt (get_slot (Suc i) s) (\<lambda>ptr.
       case ptr of
         None \<Rightarrow> list_jobs i s
       | Some a \<Rightarrow> attempt (sh_heap s a) (\<lambda>j.
           if jb_state j \<noteq> JOB_NULL then list_jobs i (say (job_line j) s) else Return 1 s))"

definition run_jobs :: "shell \<Rightarrow> int step_result" where
  "run_jobs s =
     (if is_job_table_empty s then Return 1 s
      else list_jobs (sh_highest s)
        (say (bytes_of ''Job'' @ [9] @ bytes_of ''Group'' @ [9] @ bytes_of ''State'' @ [9] @ bytes_of ''First command'' @ [NL]) s))"

text \<open>A process identifier has 32 bits. The result is the address of the job, or a null pointer.\<close>

definition to_pid :: "int \<Rightarrow> int" where
  "to_pid v = sint (word_of_int v :: 32 word)"

definition get_job_to_move :: "command \<Rightarrow> nat \<Rightarrow> shell \<Rightarrow> nat option option" where
  "get_job_to_move c else_value s =
     (if length (cm_args c) > 1 then
        (let w = cm_args c ! 1 in
         if w = [] \<or> hd w \<noteq> chr CHR ''%'' then
           (case strtoll w of (v, rest, number, _) \<Rightarrow>
              if rest \<noteq> [] \<or> \<not> number then Some None else find_job_by_pid (to_pid v) s)
         else
           (case strtoll (tl w) of (v, rest, number, _) \<Rightarrow>
              if rest \<noteq> [] \<or> \<not> number then Some None
              else if v > 0 then find_job_by_id (nat v) s else Some None))
      else find_job_by_id else_value s)"

definition SIGCONT :: nat where "SIGCONT = 18"

definition SIGTERM :: nat where "SIGTERM = 15"

definition kill :: "int \<Rightarrow> nat \<Rightarrow> shell \<Rightarrow> shell" where
  "kill pid signal s = s\<lparr>sh_kills := sh_kills s @ [(pid, signal)]\<rparr>"

definition moving_line :: "job \<Rightarrow> string \<Rightarrow> byte list" where
  "moving_line j place = bytes_of ''Send job '' @ show_nat (jb_id j) @ bytes_of '' ('' @
     (case jb_command j of None \<Rightarrow> bytes_of ''(null)'' | Some c \<Rightarrow> c) @ bytes_of '') to '' @ bytes_of place @ [NL]"

definition run_fg :: "command \<Rightarrow> shell \<Rightarrow> int step_result" where
  "run_fg c s =
     attempt (remove_foreground_job True s) (\<lambda>s.
     if is_job_table_empty s then Return 2 s
     else attempt (get_job_to_move c (sh_highest s) s) (\<lambda>ptr.
       case ptr of
         None \<Rightarrow> Return 2 s
       | Some a \<Rightarrow>
           attempt (sh_heap s a) (\<lambda>j.
           attempt (set_foreground_job a (say (moving_line j ''foreground'') s)) (\<lambda>s.
           handle_job a (kill (- jb_pgid j) SIGCONT s)))))"

definition run_bg :: "command \<Rightarrow> shell \<Rightarrow> int step_result" where
  "run_bg c s =
     attempt (remove_foreground_job True s) (\<lambda>s.
     attempt (get_highest_stopped_job_id s) (\<lambda>i.
     attempt (get_job_to_move c i s) (\<lambda>ptr.
       case ptr of
         None \<Rightarrow> Return (if is_job_table_empty s then 1 else 2) s
       | Some a \<Rightarrow>
           attempt (sh_heap s a) (\<lambda>j.
           Return 0 (kill (- jb_pgid j) SIGCONT
             (put_job a ((set_job_process_state True j)\<lparr>jb_state := JOB_BACKGROUND\<rparr>) (say (moving_line j ''background'') s)))))))"

section \<open>The other built-in commands\<close>

definition run_exit :: "command \<Rightarrow> int \<Rightarrow> shell \<Rightarrow> int step_result" where
  "run_exit c last_status s =
     (if length (cm_args c) > 2 then Return 1 s
      else if length (cm_args c) = 1 then Exits last_status s
      else attempt (at (cm_args c) 1) (\<lambda>w.
        case strtoll w of (code, rest, _, huge) \<Rightarrow>
          if huge \<or> w = [] \<or> rest \<noteq> [] then Return 1 s
          else if code < 0 \<or> code > 255 then Exits 255 s
          else Exits code s))"

definition run_cd :: "kernel \<Rightarrow> command \<Rightarrow> shell \<Rightarrow> int step_result" where
  "run_cd k c s =
     attempt (if length (cm_args c) = 1 then Some (k_home k)
          else map_option (\<lambda>w. if w = [chr CHR ''~''] then k_home k else Some w) (at (cm_args c) 1)) (\<lambda>target.
     case target of
       None \<Rightarrow> Return 1 s
     | Some directory \<Rightarrow>
         (case k_chdir k (sh_cwd s) directory of
            None \<Rightarrow> Return 1 s
          | Some None \<Rightarrow> Return 0 (s\<lparr>sh_cwd := None\<rparr>)
          | Some (Some cwd) \<Rightarrow>
              Return 0 (s\<lparr>sh_cwd := Some cwd, sh_env := (sh_env s)(bytes_of ''PWD'' := Some cwd)\<rparr>)))"

definition is_physical :: "byte list list \<Rightarrow> bool" where
  "is_physical ws = foldl (\<lambda>physical w. if w = bytes_of ''-P'' then True else if w = bytes_of ''-L'' then False else physical)
     False ws"

definition run_pwd :: "command \<Rightarrow> shell \<Rightarrow> int step_result" where
  "run_pwd c s =
     (let logical = sh_env s (bytes_of ''PWD'') in
      if \<not> is_physical (tl (cm_args c)) \<and> logical \<noteq> None \<and> the logical \<noteq> []
      then Return 0 (say (the logical @ [NL]) s)
      else case sh_cwd s of None \<Rightarrow> Return 1 s | Some cwd \<Rightarrow> Return 0 (say (cwd @ [NL]) s))"

definition run_builtin_command :: "kernel \<Rightarrow> command \<Rightarrow> int \<Rightarrow> shell \<Rightarrow> int step_result" where
  "run_builtin_command k c last_status s =
     attempt (at (cm_args c) 0) (\<lambda>w.
     if w = bytes_of ''exit'' then run_exit c last_status s
     else if w = bytes_of ''cd'' then run_cd k c s
     else if w = bytes_of ''pwd'' then run_pwd c s
     else if w = bytes_of ''jobs'' then run_jobs s
     else if w = bytes_of ''fg'' then run_fg c s
     else if w = bytes_of ''bg'' then run_bg c s
     else Return 1 s)"

end
