(* ===== verification/Pa2_Shell.thy ===== *)
theory Pa2_Shell
  imports Pa2_Builtins
begin

text \<open>
  The rest of \<^verbatim>\<open>PA2/shell_src/pa2.c\<close> and \<^verbatim>\<open>PA2/shell_src/helper.c\<close>: descriptors, pipelines, the evaluation of a
  line and the loop over a script.
\<close>

section \<open>Descriptors\<close>

fun lowest_free :: "fds \<Rightarrow> nat option" where
  "lowest_free [] = None"
| "lowest_free (None # fds) = Some 0"
| "lowest_free (Some _ # fds) = map_option Suc (lowest_free fds)"

definition open_fd :: "fd_object \<Rightarrow> fds \<Rightarrow> (nat \<times> fds) option" where
  "open_fd obj fds = map_option (\<lambda>i. (i, fds[i := Some obj])) (lowest_free fds)"

definition fd_close :: "int \<Rightarrow> fds \<Rightarrow> fds" where
  "fd_close fd fds = (if fd < 0 then fds else fds[nat fd := None])"

definition fd_entry :: "int \<Rightarrow> fds \<Rightarrow> fd_object option" where
  "fd_entry fd fds = (if fd < 0 \<or> nat fd \<ge> length fds then None else fds ! nat fd)"

definition dup_fd :: "int \<Rightarrow> fds \<Rightarrow> (nat \<times> fds) option" where
  "dup_fd fd fds = Option.bind (fd_entry fd fds) (\<lambda>obj. open_fd obj fds)"

definition dup2_fd :: "int \<Rightarrow> nat \<Rightarrow> fds \<Rightarrow> fds option" where
  "dup2_fd old new fds = map_option (\<lambda>obj. fds[new := Some obj]) (fd_entry old fds)"

text \<open>The pipe for two processes and its end for writing; \<open>None\<close> is status 1.\<close>

definition setup_pipe :: "process \<Rightarrow> process \<Rightarrow> shell \<Rightarrow> (process \<times> process \<times> int \<times> shell) option" where
  "setup_pipe p next_process s =
     Option.bind (open_fd (Pipe_Read (sh_pipe s)) (sh_fds s)) (\<lambda>(r, fds).
     Option.bind (open_fd (Pipe_Write (sh_pipe s)) fds) (\<lambda>(w, fds).
     Some (p\<lparr>pr_stdout_fd := int w\<rparr>, next_process\<lparr>pr_stdin_fd := int r\<rparr>, int w, s\<lparr>sh_fds := fds, sh_pipe := sh_pipe s + 1\<rparr>)))"

definition redirect_stdin :: "kernel \<Rightarrow> command \<Rightarrow> process \<Rightarrow> fds \<Rightarrow> (process \<times> fds) option" where
  "redirect_stdin k c p fds =
     (case cm_stdin c of
        None \<Rightarrow> Some (p, fds)
      | Some file \<Rightarrow>
          Option.bind (if k_open_read k file then open_fd (Read_File file) fds else None) (\<lambda>(fd, fds).
          Some (p\<lparr>pr_stdin_fd := int fd\<rparr>, if pr_stdin_fd p \<noteq> -1 then fd_close (pr_stdin_fd p) fds else fds)))"

definition redirect_stdout :: "kernel \<Rightarrow> command \<Rightarrow> process \<Rightarrow> fds \<Rightarrow> (process \<times> fds) option" where
  "redirect_stdout k c p fds =
     (case cm_stdout c of
        None \<Rightarrow> Some (p, fds)
      | Some file \<Rightarrow>
          Option.bind (if k_open_write k file (cm_append c) then open_fd (Write_File file (cm_append c)) fds else None) (\<lambda>(fd, fds).
          Some (p\<lparr>pr_stdout_fd := int fd\<rparr>, if pr_stdout_fd p \<noteq> -1 then fd_close (pr_stdout_fd p) fds else fds)))"

text \<open>The status with the process and the descriptors: what was opened before a failure stays open.\<close>

definition setup_redirection :: "kernel \<Rightarrow> command \<Rightarrow> process \<Rightarrow> fds \<Rightarrow> int \<times> process \<times> fds" where
  "setup_redirection k c p fds =
     (case redirect_stdin k c p fds of
        None \<Rightarrow> (1, p, fds)
      | Some (p, fds) \<Rightarrow>
          (case redirect_stdout k c p fds of
             None \<Rightarrow> (1, p, fds)
           | Some (p, fds) \<Rightarrow> (0, p, fds)))"

definition dup2_stdin :: "process \<Rightarrow> fds \<Rightarrow> (process \<times> fds) option" where
  "dup2_stdin p fds =
     (if pr_stdin_fd p \<noteq> -1 then
        map_option (\<lambda>fds. (p\<lparr>pr_stdin_fd := -1\<rparr>, fd_close (pr_stdin_fd p) fds)) (dup2_fd (pr_stdin_fd p) 0 fds)
      else Some (p, fds))"

definition dup2_stdout :: "process \<Rightarrow> fds \<Rightarrow> (process \<times> fds) option" where
  "dup2_stdout p fds =
     (if pr_stdout_fd p \<noteq> -1 then
        map_option (\<lambda>fds. (p\<lparr>pr_stdout_fd := -1\<rparr>, fd_close (pr_stdout_fd p) fds)) (dup2_fd (pr_stdout_fd p) 1 fds)
      else Some (p, fds))"

definition dup2_stdio :: "process \<Rightarrow> fds \<Rightarrow> int \<times> process \<times> fds" where
  "dup2_stdio p fds =
     (case dup2_stdin p fds of
        None \<Rightarrow> (1, p, fds)
      | Some (p, fds) \<Rightarrow>
          (case dup2_stdout p fds of
             None \<Rightarrow> (1, p, fds)
           | Some (p, fds) \<Rightarrow> (0, p, fds)))"

section \<open>Running a command\<close>

text \<open>A command runs a program in its place (along the search path or not), or it ends with a status.\<close>

datatype program_end = Runs_Program "byte list" bool "byte list list" | Ends "int step_result"

definition run_path :: "kernel \<Rightarrow> command \<Rightarrow> shell \<Rightarrow> byte list \<Rightarrow> program_end" where
  "run_path k c s w =
     (case k_exec k w True of
        Exec_Runs \<Rightarrow> Runs_Program w True (cm_args c)
      | Exec_Missing \<Rightarrow> Ends (Return 127 s)
      | Exec_Fails \<Rightarrow> Ends (Return 1 s))"

definition run_command :: "kernel \<Rightarrow> command \<Rightarrow> int \<Rightarrow> shell \<Rightarrow> program_end" where
  "run_command k c last_status s =
     (case cm_type c of
        COMMAND_BUILTIN \<Rightarrow> Ends (run_builtin_command k c last_status s)
      | COMMAND_IMPLEMENTED \<Rightarrow>
          (case at (cm_args c) 0 of
             None \<Rightarrow> Ends Fault
           | Some w \<Rightarrow>
               (case k_bin_dir k of
                  None \<Rightarrow> run_path k c s w
                | Some dir \<Rightarrow>
                    (let path = dir @ [chr CHR ''/''] @ w in
                     case k_exec k path False of
                       Exec_Runs \<Rightarrow> Runs_Program path False (cm_args c)
                     | Exec_Missing \<Rightarrow> run_path k c s w
                     | Exec_Fails \<Rightarrow> Ends (Return 1 s))))
      | _ \<Rightarrow> (case at (cm_args c) 0 of None \<Rightarrow> Ends Fault | Some w \<Rightarrow> run_path k c s w))"

text \<open>
  A built-in command of its own runs in the shell: with a job of its own in slot 0, with its redirections, and
  with copies of the standard descriptors that are put back.
\<close>

definition restore_stdio :: "int option \<Rightarrow> int option \<Rightarrow> int \<Rightarrow> fds \<Rightarrow> int \<times> fds" where
  "restore_stdio backup_in backup_out status fds =
     (case dup2_fd (case backup_in of None \<Rightarrow> -1 | Some b \<Rightarrow> b) 0 fds of
        None \<Rightarrow> (case dup2_fd (case backup_out of None \<Rightarrow> -1 | Some b \<Rightarrow> b) 1 fds of
            None \<Rightarrow> (1, fds) | Some fds \<Rightarrow> (1, fds))
      | Some fds \<Rightarrow> (case dup2_fd (case backup_out of None \<Rightarrow> -1 | Some b \<Rightarrow> b) 1 fds of
            None \<Rightarrow> (1, fds) | Some fds \<Rightarrow> (status, fds)))"

definition backup :: "int \<Rightarrow> fds \<Rightarrow> int option \<times> fds" where
  "backup fd fds = (case dup_fd fd fds of None \<Rightarrow> (None, fds) | Some (i, fds) \<Rightarrow> (Some (int i), fds))"

definition close_backup :: "int option \<Rightarrow> fds \<Rightarrow> fds" where
  "close_backup b fds = (case b of None \<Rightarrow> fds | Some fd \<Rightarrow> fd_close fd fds)"

definition leave_builtin :: "nat \<Rightarrow> int option \<Rightarrow> int option \<Rightarrow> int \<Rightarrow> shell \<Rightarrow> int step_result" where
  "leave_builtin a backup_in backup_out status s =
     (let s = s\<lparr>sh_fds := close_backup backup_out (close_backup backup_in (sh_fds s))\<rparr> in
      attempt (get_slot 0 s) (\<lambda>ptr.
      attempt (if ptr = Some a then remove_foreground_job True s else Some s) (Return status)))"

definition run_single_builtin_command :: "kernel \<Rightarrow> command \<Rightarrow> int \<Rightarrow> shell \<Rightarrow> int step_result" where
  "run_single_builtin_command k c last_status s =
     attempt (at (cm_args c) 0) (\<lambda>w.
     if w = bytes_of ''exit'' \<and> \<not> is_job_table_empty s then Return 1 s
     else
       (let (backup_in, fds) = backup 0 (sh_fds s); (backup_out, fds) = backup 1 fds;
            (a, s) = new_job default_job (s\<lparr>sh_fds := fds\<rparr>) in
        attempt (set_foreground_job a s) (\<lambda>s.
        if backup_in = None \<or> backup_out = None then leave_builtin a backup_in backup_out 1 s
        else
          (let (status, p, fds) = setup_redirection k c default_process (sh_fds s);
               (status, p, fds) = (if status = 0 then dup2_stdio p fds else (status, p, fds)) in
           and_then (if status = 0 then run_builtin_command k c last_status (s\<lparr>sh_fds := fds\<rparr>)
                      else Return status (s\<lparr>sh_fds := fds\<rparr>)) (\<lambda>status s.
           let (status, fds) = restore_stdio backup_in backup_out status (sh_fds s) in
           leave_builtin a backup_in backup_out status (s\<lparr>sh_fds := fds\<rparr>))))))"

section \<open>Pipelines\<close>

text \<open>
  The child of a process, from the fork to its command: it leaves the end for reading of the next pipe, sets
  up its redirections and takes its descriptors.
\<close>

definition pipeline_child :: "kernel \<Rightarrow> command \<Rightarrow> process \<Rightarrow> process option \<Rightarrow> int \<Rightarrow> bool \<Rightarrow> fds \<Rightarrow> child" where
  "pipeline_child k c p next_process pgid foreground fds =
     (let fds = (case next_process of None \<Rightarrow> fds
          | Some q \<Rightarrow> if pr_stdin_fd q \<noteq> -1 then fd_close (pr_stdin_fd q) fds else fds);
          (status, p1, fds) = setup_redirection k c p fds;
          (status, p2, fds) = (if status = 0 then dup2_stdio p1 fds else (status, p1, fds)) in
      \<lparr>ch_pid = pr_pid p, ch_pgid = (if pgid = -1 then pr_pid p else pgid), ch_foreground = foreground, ch_fds = fds,
       ch_end = (if status = 0 then Child_Run c else Child_Exit status)\<rparr>)"

text \<open>The end of the child: a built-in command runs on a copy of the shell that no signal reaches.\<close>

definition finish_child :: "kernel \<Rightarrow> int \<Rightarrow> child \<Rightarrow> shell \<Rightarrow> program_end" where
  "finish_child k last_status ch s =
     (let s = s\<lparr>sh_fds := ch_fds ch, sh_waits := [], sh_wakes := []\<rparr> in
      case ch_end ch of
        Child_Exit status \<Rightarrow> Ends (Exits status s)
      | Child_Run c \<Rightarrow>
          (case run_command k c last_status s of
             Runs_Program path search args \<Rightarrow> Runs_Program path search args
           | Ends r \<Rightarrow> Ends (and_then r Exits)))"

definition fork :: "shell \<Rightarrow> int \<times> shell" where
  "fork s = (case sh_forks s of [] \<Rightarrow> (-1, s) | pid # pids \<Rightarrow> (pid, s\<lparr>sh_forks := pids\<rparr>))"

text \<open>
  One round of the loop, from a command with its process and the commands behind it. \<open>Inl\<close> is the status of
  a pipe that could not be made: the children so far are ended and the job is freed.
\<close>

definition abandon :: "nat \<Rightarrow> int \<Rightarrow> shell \<Rightarrow> int step_result" where
  "abandon a status s =
     attempt (sh_heap s a) (\<lambda>j.
     attempt (free_job (Some a) (if jb_pgid j > 0 then kill (- jb_pgid j) SIGTERM s else s)) (Return status))"

definition start_process :: "kernel \<Rightarrow> nat \<Rightarrow> command \<Rightarrow> process \<Rightarrow> (process \<times> int) option \<Rightarrow> bool \<Rightarrow> shell \<Rightarrow> unit step_result" where
  "start_process k a c p following first s =
     (case fork s of (pid, s) \<Rightarrow>
      if pid = -1 then Exits 1 s
      else attempt (sh_heap s a) (\<lambda>j.
        let p = p\<lparr>pr_pid := pid\<rparr>;
            ch = pipeline_child k c p (map_option fst following) (jb_pgid j) (jb_state j = JOB_FOREGROUND) (sh_fds s);
            j = j\<lparr>jb_processes := jb_processes j @ [p\<lparr>pr_running := True\<rparr>],
                  jb_num_processes := jb_num_processes j + 1,
                  jb_pgid := (if jb_pgid j = -1 then pid else jb_pgid j)\<rparr>;
            fds = (if first then sh_fds s else fd_close (pr_stdin_fd p) (sh_fds s));
            fds = (case following of None \<Rightarrow> fds | Some (_, w) \<Rightarrow> fd_close w fds) in
        Return () (put_job a j (s\<lparr>sh_fds := fds, sh_children := sh_children s @ [ch]\<rparr>))))"

fun pipeline_loop :: "kernel \<Rightarrow> nat \<Rightarrow> command list \<Rightarrow> process \<Rightarrow> bool \<Rightarrow> shell \<Rightarrow> int step_result" where
  "pipeline_loop k a [] p first s = handle_job a s"
| "pipeline_loop k a [c] p first s =
     and_then (start_process k a c (p\<lparr>pr_command := Some c\<rparr>) None first s) (\<lambda>_ s. handle_job a s)"
| "pipeline_loop k a (c # c' # cs) p first s =
     (case setup_pipe (p\<lparr>pr_command := Some c\<rparr>) default_process s of
        None \<Rightarrow> abandon a 1 s
      | Some (p, q, w, s) \<Rightarrow>
          and_then (start_process k a c p (Some (q, w)) first s) (\<lambda>_ s. pipeline_loop k a (c' # cs) q False s))"

definition run_pipeline :: "kernel \<Rightarrow> pipeline \<Rightarrow> byte list \<Rightarrow> shell \<Rightarrow> int step_result" where
  "run_pipeline k p cmd s =
     (case new_job (default_job\<lparr>jb_command := Some cmd, jb_state := (if pl_background p then JOB_BACKGROUND else JOB_NULL)\<rparr>) s of
        (a, s) \<Rightarrow>
          attempt (if pl_background p then Some s else set_foreground_job a s)
            (pipeline_loop k a (pl_commands p) default_process True))"

section \<open>Lines\<close>

definition interpret_pipeline :: "kernel \<Rightarrow> pipeline \<Rightarrow> byte list \<Rightarrow> int \<Rightarrow> shell \<Rightarrow> int step_result" where
  "interpret_pipeline k p cmd last_status s =
     (if pl_num_commands p = 0 then Return 0 s
      else if is_single_builtin_command p then run_single_builtin_command k (hd (pl_commands p)) last_status s
      else run_pipeline k p cmd s)"

fun interpret_all :: "kernel \<Rightarrow> pipeline list \<Rightarrow> byte list \<Rightarrow> int \<Rightarrow> shell \<Rightarrow> int step_result" where
  "interpret_all k [] cmd last_status s = Return last_status s"
| "interpret_all k (p # ps) cmd last_status s =
     (if pipeline_is_empty p then interpret_all k ps cmd last_status s
      else and_then (interpret_pipeline k p cmd last_status s) (\<lambda>status s. interpret_all k ps cmd status s))"

definition evaluate_line :: "kernel \<Rightarrow> byte list \<Rightarrow> int \<Rightarrow> shell \<Rightarrow> int step_result" where
  "evaluate_line k cmd last_status s =
     attempt (lex_cmd cmd) (\<lambda>(status, tokens).
     if status \<noteq> 0 then Return last_status s
     else attempt (parse (sh_env s) tokens last_status) (\<lambda>(status, ps).
       if status \<noteq> 0 then Return last_status s
       else interpret_all k ps cmd last_status s))"

definition is_blank_line :: "byte list \<Rightarrow> bool" where
  "is_blank_line line \<longleftrightarrow> (\<forall>c\<in>set line. white c)"

section \<open>The main loops\<close>

definition check_sigchld :: "shell \<Rightarrow> shell option" where
  "check_sigchld s = (if sh_pending s then handle_pending_sigchld s else Some s)"

definition handle_pending_sigint :: "shell \<Rightarrow> int \<times> shell" where
  "handle_pending_sigint s = (130, say [NL] s)"

text \<open>
  One line of a script or of the console. A line of a script is not evaluated when an interrupt is pending.
\<close>

definition run_line :: "kernel \<Rightarrow> byte list \<Rightarrow> int \<Rightarrow> shell \<Rightarrow> int step_result" where
  "run_line k line last_status s =
     and_then (if is_blank_line line then Return last_status s else evaluate_line k line last_status s) (\<lambda>status s.
     attempt (check_sigchld s) (Return status))"

text \<open>
  The text of a script that is left at the cursor. The search for the end of the line stops at a zero byte,
  where the cursor stays: the loop does not end. Each round has the signals that have arrived by then,
  \<^verbatim>\<open>SIGINT\<close> and \<^verbatim>\<open>SIGCHLD\<close>.
\<close>

definition line_end :: "byte \<Rightarrow> bool" where
  "line_end c \<longleftrightarrow> c = NL \<or> c = 0"

definition script_line :: "byte list \<Rightarrow> byte list" where
  "script_line script = takeWhile (\<lambda>c. \<not> line_end c) script"

definition after_line :: "byte list \<Rightarrow> byte list" where
  "after_line script = (let rest = dropWhile (\<lambda>c. \<not> line_end c) script in
     if rest \<noteq> [] \<and> hd rest = NL then tl rest else rest)"

lemma after_line_shorter: "script \<noteq> [] \<Longrightarrow> hd script \<noteq> 0 \<Longrightarrow> length (after_line script) < length script"
  by (cases script) (auto simp: after_line_def Let_def line_end_def less_Suc_eq_le length_dropWhile_le
      intro: order_trans [OF diff_le_self length_dropWhile_le])

definition arrived :: "(bool \<times> bool) list \<Rightarrow> bool \<times> bool" where
  "arrived signals = (if signals = [] then (False, False) else hd signals)"

function script_loop :: "kernel \<Rightarrow> (bool \<times> bool) list \<Rightarrow> byte list \<Rightarrow> int \<Rightarrow> shell \<Rightarrow> int step_result" where
  "script_loop k signals script last_status s =
     (if script = [] then attempt (check_sigchld s) (Return last_status)
      else if hd script = 0 then Asleep s
      else attempt (check_sigchld (s\<lparr>sh_pending := sh_pending s \<or> snd (arrived signals)\<rparr>)) (\<lambda>s.
        if fst (arrived signals) then
          script_loop k (tl signals) (after_line script) (fst (handle_pending_sigint s)) (snd (handle_pending_sigint s))
        else and_then (run_line k (script_line script) last_status s)
          (script_loop k (tl signals) (after_line script))))"
  by pat_completeness auto
termination
  by (relation "measure (\<lambda>(k, signals, script, last_status, s). length script)") (simp_all add: after_line_shorter)

declare script_loop.simps [simp del]

text \<open>The console: a line, an interrupt, or the end of the input when the list ends.\<close>

datatype console_event = Console_Line "byte list" | Console_Interrupt

fun console_loop :: "kernel \<Rightarrow> console_event list \<Rightarrow> int \<Rightarrow> shell \<Rightarrow> int step_result" where
  "console_loop k [] last_status s = attempt (check_sigchld s) (Return last_status)"
| "console_loop k (Console_Interrupt # es) last_status s =
     attempt (check_sigchld s) (\<lambda>s. console_loop k es (fst (handle_pending_sigint s)) (snd (handle_pending_sigint s)))"
| "console_loop k (Console_Line line # es) last_status s =
     attempt (check_sigchld s) (\<lambda>s. and_then (run_line k line last_status s) (console_loop k es))"

text \<open>The jobs that are left at the end are ended and freed.\<close>

definition end_job :: "nat \<Rightarrow> shell \<Rightarrow> shell option" where
  "end_job i s =
     Option.bind (get_slot i s) (\<lambda>ptr.
       case ptr of
         None \<Rightarrow> Some s
       | Some a \<Rightarrow>
           Option.bind (sh_heap s a) (\<lambda>j.
           Option.bind (free_job (Some a)
              (if jb_pgid j > 0 then kill (- jb_pgid j) SIGTERM (kill (- jb_pgid j) SIGCONT s) else s)) (set_slot i None)))"

fun end_jobs :: "nat list \<Rightarrow> shell \<Rightarrow> shell option" where
  "end_jobs [] s = Some s"
| "end_jobs (i # is') s = Option.bind (end_job i s) (end_jobs is')"

definition shut_down :: "int step_result \<Rightarrow> int step_result" where
  "shut_down r = and_then r (\<lambda>last_status s. attempt (end_jobs [0..<Suc (sh_highest s)] s) (Exits last_status))"

definition script_main :: "kernel \<Rightarrow> (bool \<times> bool) list \<Rightarrow> byte list \<Rightarrow> shell \<Rightarrow> int step_result" where
  "script_main k signals script s = shut_down (script_loop k signals script 0 s)"

definition console_main :: "kernel \<Rightarrow> console_event list \<Rightarrow> shell \<Rightarrow> int step_result" where
  "console_main k events s = shut_down (console_loop k events 0 s)"

end
