(* ===== verification/Pa2_Run.thy ===== *)
theory Pa2_Run
  imports Pa2_Events Pa2_Shell
begin

text \<open>
  Every built-in command keeps the table of jobs, except that \<^verbatim>\<open>bg\<close> can follow a null pointer: exactly when
  there is an empty slot above the highest stopped job.
\<close>

section \<open>Moving jobs\<close>

definition kept :: "nat \<Rightarrow> shell \<Rightarrow> shell \<Rightarrow> bool" where
  "kept n s s' \<longleftrightarrow> table_ok {} {} s' \<and> sh_fds s' = sh_fds s \<and> sh_children s' = sh_children s \<and>
     sh_highest s' \<le> sh_highest s + n \<and> (slot s' 0 = None \<or> slot s' 0 = slot s 0)"

lemma kill_simps [simp]:
  "sh_heap (kill p g s) = sh_heap s" "sh_table (kill p g s) = sh_table s" "sh_highest (kill p g s) = sh_highest s"
  "sh_fds (kill p g s) = sh_fds s" "slot (kill p g s) = slot s" "table_ok X H (kill p g s) = table_ok X H s"
  "sh_children (kill p g s) = sh_children s"
  by (simp_all add: kill_def table_ok_cong [of "s\<lparr>sh_kills := _\<rparr>" s])

lemma find_job_by_id_ok:
  assumes "table_ok X H s"
  shows "\<exists>r. find_job_by_id i s = Some r \<and> (\<forall>a. r = Some a \<longrightarrow> 0 < i \<and> slot s i = Some a)"
  by (cases "i = 0 \<or> i > MAX_JOBS") (auto simp: find_job_by_id_def get_slot_ok [OF assms])

lemma get_job_to_move_ok:
  assumes "table_ok X H s" "slot s 0 = None"
  obtains r where "get_job_to_move c i s = Some r" "\<And>a. r = Some a \<Longrightarrow> \<exists>k>0. slot s k = Some a"
proof -
  obtain r1 where r1: "find_job_by_id i s = Some r1" "\<And>a. r1 = Some a \<Longrightarrow> 0 < i \<and> slot s i = Some a"
    using find_job_by_id_ok [OF assms(1), of i] by blast
  define v where "v = nat (fst (strtoll (tl (cm_args c ! 1))))"
  obtain r2 where r2: "find_job_by_id v s = Some r2" "\<And>a. r2 = Some a \<Longrightarrow> 0 < v \<and> slot s v = Some a"
    using find_job_by_id_ok [OF assms(1), of v] by blast
  obtain r3 where r3: "find_job_by_pid (to_pid (fst (strtoll (cm_args c ! 1)))) s = Some r3"
    "\<And>a. r3 = Some a \<Longrightarrow> \<exists>i. slot s i = Some a"
    by (rule find_job_by_pid_ok [OF assms(1), of "to_pid (fst (strtoll (cm_args c ! 1)))"]) blast
  have r3': "\<exists>k>0. slot s k = Some a" if r: "r3 = Some a" for a
  proof -
    from r3(2) [OF r] obtain k where "slot s k = Some a" by blast
    moreover from this assms(2) have "0 < k" by (cases "k = 0") auto
    ultimately show ?thesis by blast
  qed
  define good where "good x \<longleftrightarrow> (\<exists>r. x = Some r \<and> (\<forall>a. r = Some a \<longrightarrow> (\<exists>k>0. slot s k = Some a)))" for x
  have good: "good (Some None)" "good (find_job_by_id i s)" "good (find_job_by_id v s)"
    "good (find_job_by_pid (to_pid (fst (strtoll (cm_args c ! 1)))) s)"
    using r1 r2 r3(1) r3' unfolding good_def by auto
  obtain x1 rest1 num1 h1 where 1: "strtoll (cm_args c ! 1) = (x1, rest1, num1, h1)" by (cases "strtoll (cm_args c ! 1)")
  obtain x2 rest2 num2 h2 where 2: "strtoll (tl (cm_args c ! 1)) = (x2, rest2, num2, h2)"
    by (cases "strtoll (tl (cm_args c ! 1))")
  from good 1 2 have "good (get_job_to_move c i s)"
    by (cases "length (cm_args c) > 1"; cases "cm_args c ! 1 = [] \<or> hd (cm_args c ! 1) \<noteq> chr CHR ''%''")
      (simp_all add: get_job_to_move_def v_def)
  with that show ?thesis unfolding good_def by blast
qed

lemma run_fg_ok:
  assumes ok: "table_ok {} {} s" and room: "sh_highest s < MAX_JOBS"
  shows "ends_in (\<lambda>_ s'. kept 1 s s' \<and> slot s' 0 = None) (run_fg c s)"
proof -
  obtain s1 where s1: "remove_foreground_job True s = Some s1" "table_ok {} {} s1" "slot s1 = (slot s)(0 := None)"
    "sh_fds s1 = sh_fds s" "sh_highest s1 = sh_highest s"
    by (rule remove_foreground_free [OF ok])
  have children1: "sh_children s1 = sh_children s"
    using s1(1) by (auto simp: remove_foreground_job_def bind_eq_Some_conv free_job_def set_slot_def split: if_splits option.splits)
  have empty: "slot s1 0 = None" by (simp add: s1(3))
  have same: "kept 1 s s1" using s1 children1 empty by (simp add: kept_def)
  obtain r where r: "get_job_to_move c (sh_highest s1) s1 = Some r" "\<And>a. r = Some a \<Longrightarrow> \<exists>k>0. slot s1 k = Some a"
    by (rule get_job_to_move_ok [OF s1(2) empty]) blast
  show ?thesis
  proof (cases "is_job_table_empty s1 \<or> r = None")
    case True
    with s1(1) r(1) same empty show ?thesis by (auto simp: run_fg_def)
  next
    case False
    then obtain a where a: "r = Some a" by auto
    with r(2) obtain k where k: "0 < k" "slot s1 k = Some a" by blast
    obtain j where j: "sh_heap s1 a = Some j" "listed j" using slot_job [OF s1(2) k(2)] k(1) by auto
    define s2 where "s2 = say (moving_line j ''foreground'') s1"
    have s2: "table_ok {} {} s2" "slot s2 0 = None" "slot s2 k = Some a" "sh_heap s2 a = Some j"
      using s1(2) empty k(2) j(1) by (simp_all add: s2_def)
    obtain s3 where s3: "set_foreground_job a s2 = Some s3" "table_ok {} {} s3" "slot s3 0 = Some a" "sh_fds s3 = sh_fds s2"
      "sh_highest s3 \<le> sh_highest s2"
      "sh_heap s3 a = Some (set_job_process_state True (j\<lparr>jb_state := JOB_FOREGROUND, jb_id := 0\<rparr>))"
      by (rule set_foreground_listed [OF s2(1,2,3) k(1) s2(4)])
    have children3: "sh_children s3 = sh_children s2"
      using s3(1) by (auto simp: set_foreground_job_def bind_eq_Some_conv set_slot_def put_job_def update_highest_job_id_def
          split: if_splits)
    define s4 where "s4 = kill (- jb_pgid j) SIGCONT s3"
    have "ends_in (\<lambda>_ s'. table_ok {} {} s' \<and> slot s' 0 = None \<and> sh_fds s' = sh_fds s4 \<and> sh_children s' = sh_children s4 \<and>
        sh_highest s' \<le> sh_highest s4 + 1) (handle_job a s4)"
    proof (rule handle_foreground_ok)
      show "sh_heap s4 a = Some (set_job_process_state True (j\<lparr>jb_state := JOB_FOREGROUND, jb_id := 0\<rparr>))"
        using s3(6) by (simp add: s4_def)
      show "sh_highest s4 < MAX_JOBS" using s3(5) s1(5) room by (simp add: s4_def s2_def)
    qed (use s3(2,3) j(2) in \<open>simp_all add: s4_def set_job_process_state_def listed_def\<close>)
    then have "ends_in (\<lambda>_ s'. kept 1 s s' \<and> slot s' 0 = None) (handle_job a s4)"
      by (rule ends_in_mono) (use s3(4,5) s1(4,5) children1 children3 in \<open>auto simp: kept_def s4_def s2_def\<close>)
    with s1(1) r(1) a False j(1) s3(1) show ?thesis by (simp add: run_fg_def s2_def s4_def)
  qed
qed

section \<open>The null pointer of bg\<close>

text \<open>A stopped job at or below \<open>i\<close> with no empty slot above it, or no stopped job and no empty slot at all.\<close>

definition stopped_at :: "shell \<Rightarrow> nat \<Rightarrow> bool" where
  "stopped_at s i \<longleftrightarrow> (\<exists>a j. slot s i = Some a \<and> sh_heap s a = Some j \<and> jb_state j = JOB_STOPPED)"

definition null_on_the_way :: "shell \<Rightarrow> nat \<Rightarrow> bool" where
  "null_on_the_way s n \<longleftrightarrow> (\<exists>i. 0 < i \<and> i \<le> n \<and> slot s i = None \<and> (\<forall>k. i < k \<longrightarrow> k \<le> n \<longrightarrow> \<not> stopped_at s k))"

lemma null_on_the_way_Suc:
  "null_on_the_way s (Suc n) \<longleftrightarrow> slot s (Suc n) = None \<or> (\<not> stopped_at s (Suc n) \<and> null_on_the_way s n)"
proof
  assume "null_on_the_way s (Suc n)"
  then obtain i where i: "0 < i" "i \<le> Suc n" "slot s i = None" "\<forall>k. i < k \<longrightarrow> k \<le> Suc n \<longrightarrow> \<not> stopped_at s k"
    by (auto simp: null_on_the_way_def)
  show "slot s (Suc n) = None \<or> (\<not> stopped_at s (Suc n) \<and> null_on_the_way s n)"
  proof (cases "i = Suc n")
    case False
    with i show ?thesis by (auto simp: null_on_the_way_def intro!: exI [of _ i])
  qed (use i in simp)
next
  assume "slot s (Suc n) = None \<or> (\<not> stopped_at s (Suc n) \<and> null_on_the_way s n)"
  then show "null_on_the_way s (Suc n)"
  proof
    assume "slot s (Suc n) = None"
    then show ?thesis by (auto simp: null_on_the_way_def intro!: exI [of _ "Suc n"])
  next
    assume r: "\<not> stopped_at s (Suc n) \<and> null_on_the_way s n"
    then obtain i where "0 < i" "i \<le> n" "slot s i = None" "\<forall>k. i < k \<longrightarrow> k \<le> n \<longrightarrow> \<not> stopped_at s k"
      by (auto simp: null_on_the_way_def)
    with r show ?thesis by (auto simp: null_on_the_way_def le_Suc_eq intro!: exI [of _ i])
  qed
qed

lemma highest_stopped_from_None:
  assumes "table_ok X H s" "n \<le> MAX_JOBS"
  shows "highest_stopped_from s n = None \<longleftrightarrow> null_on_the_way s n"
  using assms(2)
proof (induction n)
  case 0
  then show ?case by (simp add: null_on_the_way_def)
next
  case (Suc n)
  show ?case
  proof (cases "slot s (Suc n)")
    case None
    with Suc.prems show ?thesis by (simp add: get_slot_ok [OF assms(1)] null_on_the_way_Suc)
  next
    case (Some a)
    with slot_job [OF assms(1) Some] obtain j where "sh_heap s a = Some j" by blast
    with Some Suc show ?thesis by (auto simp: get_slot_ok [OF assms(1)] null_on_the_way_Suc stopped_at_def)
  qed
qed

lemma run_bg_ok:
  assumes ok: "table_ok {} {} s"
  shows "if null_on_the_way s (sh_highest s) then run_bg c s = Fault
    else ends_in (\<lambda>_ s'. kept 0 s s' \<and> slot s' 0 = None) (run_bg c s)"
proof -
  obtain s1 where s1: "remove_foreground_job True s = Some s1" "table_ok {} {} s1" "slot s1 = (slot s)(0 := None)"
    "sh_fds s1 = sh_fds s" "sh_highest s1 = sh_highest s"
    by (rule remove_foreground_free [OF ok])
  have children1: "sh_children s1 = sh_children s"
    using s1(1) by (auto simp: remove_foreground_job_def bind_eq_Some_conv free_job_def set_slot_def split: if_splits option.splits)
  have empty: "slot s1 0 = None" by (simp add: s1(3))
  have heap1: "sh_heap s1 a = sh_heap s a" if "slot s k = Some a" "0 < k" for a k
  proof -
    have "slot s 0 \<noteq> Some a" using slot_unique [OF table_parts(1) [OF ok] that(1), of 0] that(2) by auto
    then show ?thesis
      using s1(1) get_slot_ok [OF ok, of 0]
      by (auto simp: remove_foreground_job_def bind_eq_Some_conv free_job_def set_slot_def split: if_splits option.splits)
  qed
  have stopped: "stopped_at s1 k = stopped_at s k" if "0 < k" for k
    using that heap1 by (auto simp: stopped_at_def s1(3))
  have null: "null_on_the_way s1 (sh_highest s1) \<longleftrightarrow> null_on_the_way s (sh_highest s)"
  proof -
    have "0 < i \<and> i \<le> n \<and> slot s1 i = None \<and> (\<forall>k. i < k \<longrightarrow> k \<le> n \<longrightarrow> \<not> stopped_at s1 k) \<longleftrightarrow>
        0 < i \<and> i \<le> n \<and> slot s i = None \<and> (\<forall>k. i < k \<longrightarrow> k \<le> n \<longrightarrow> \<not> stopped_at s k)" for i n
      using stopped by (cases "0 < i") (auto simp: s1(3))
    then show ?thesis by (simp add: null_on_the_way_def s1(5))
  qed
  have bound: "sh_highest s1 \<le> MAX_JOBS" using table_parts(3) [OF s1(2)] by (simp add: jobs_counted_def)
  show ?thesis
  proof (cases "null_on_the_way s (sh_highest s)")
    case True
    with null highest_stopped_from_None [OF s1(2) bound] have "get_highest_stopped_job_id s1 = None"
      by (simp add: get_highest_stopped_job_id_def)
    with True s1(1) show ?thesis by (simp add: run_bg_def)
  next
    case False
    with null highest_stopped_from_None [OF s1(2) bound] obtain i where i: "get_highest_stopped_job_id s1 = Some i"
      by (auto simp: get_highest_stopped_job_id_def)
    obtain r where r: "get_job_to_move c i s1 = Some r" "\<And>a. r = Some a \<Longrightarrow> \<exists>k>0. slot s1 k = Some a"
      by (rule get_job_to_move_ok [OF s1(2) empty]) blast
    show ?thesis
    proof (cases r)
      case None
      with False s1 i r(1) children1 empty show ?thesis by (simp add: run_bg_def kept_def)
    next
      case (Some a)
      with r(2) obtain k where k: "0 < k" "slot s1 k = Some a" by blast
      obtain j where j: "sh_heap s1 a = Some j" "listed j" using slot_job [OF s1(2) k(2)] k(1) by auto
      define j' where "j' = (set_job_process_state True j)\<lparr>jb_state := JOB_BACKGROUND\<rparr>"
      define s2 where "s2 = kill (- jb_pgid j) SIGCONT (put_job a j' (say (moving_line j ''background'') s1))"
      have "table_ok {} {} (put_job a j' (say (moving_line j ''background'') s1))"
        by (rule put_job_ok [of "{}" "{}" "say (moving_line j ''background'') s1" a j])
          (use s1(2) j in \<open>simp_all add: j'_def set_job_process_state_def listed_def\<close>)
      then have "kept 0 s s2" "slot s2 0 = None"
        using s1(4,5) children1 empty by (simp_all add: kept_def s2_def put_job_def)
      with False s1(1) i r(1) Some j(1) show ?thesis by (simp add: run_bg_def s2_def j'_def)
    qed
  qed
qed

section \<open>The other built-in commands\<close>

lemma kept_same:
  assumes "table_ok {} {} s" "sh_heap s' = sh_heap s" "sh_next s' = sh_next s" "sh_table s' = sh_table s"
    "sh_num_jobs s' = sh_num_jobs s" "sh_highest s' = sh_highest s" "sh_fds s' = sh_fds s" "sh_children s' = sh_children s"
  shows "kept n s s'"
  using assms by (simp add: kept_def table_ok_cong [of s' s] slot_def)

lemma list_jobs_ok:
  assumes "table_ok {} {} s" "i \<le> MAX_JOBS"
  shows "ends_in (\<lambda>_ s'. \<exists>out. s' = s\<lparr>sh_out := out\<rparr>) (list_jobs i s)"
  using assms
proof (induction i arbitrary: s)
  case 0
  have "s = s\<lparr>sh_out := sh_out s\<rparr>" by simp
  then show ?case unfolding list_jobs.simps ends_in_simps by blast
next
  case (Suc i)
  show ?case
  proof (cases "slot s (Suc i)")
    case None
    with Suc show ?thesis by (simp add: get_slot_ok)
  next
    case (Some a)
    with slot_job [OF Suc.prems(1) Some] obtain j where j: "sh_heap s a = Some j" "listed j" by auto
    have "ends_in (\<lambda>_ s'. \<exists>out. s' = say (job_line j) s\<lparr>sh_out := out\<rparr>) (list_jobs i (say (job_line j) s))"
      using Suc.IH Suc.prems by simp
    then have "ends_in (\<lambda>_ s'. \<exists>out. s' = s\<lparr>sh_out := out\<rparr>) (list_jobs i (say (job_line j) s))"
      by (rule ends_in_mono) (auto simp: say_def)
    with j Some Suc.prems show ?thesis by (auto simp: get_slot_ok listed_def)
  qed
qed

lemma run_jobs_ok: "table_ok {} {} s \<Longrightarrow> ends_in (\<lambda>_. kept 1 s) (run_jobs s)"
proof -
  assume ok: "table_ok {} {} s"
  have bound: "sh_highest s \<le> MAX_JOBS" using table_parts(3) [OF ok] by (simp add: jobs_counted_def)
  have list: "ends_in (\<lambda>_. kept 1 s) (list_jobs (sh_highest s) (say b s))" for b
  proof (rule ends_in_mono)
    show "ends_in (\<lambda>_ s'. \<exists>out. s' = say b s\<lparr>sh_out := out\<rparr>) (list_jobs (sh_highest s) (say b s))"
      using ok bound by (intro list_jobs_ok) simp_all
  qed (use ok in \<open>auto simp: say_def intro!: kept_same\<close>)
  have "kept 1 s s" by (rule kept_same [OF ok]) simp_all
  with list show ?thesis by (simp add: run_jobs_def)
qed

lemma run_exit_ok: "table_ok {} {} s \<Longrightarrow> cm_args c \<noteq> [] \<Longrightarrow> ends_in (\<lambda>_. kept 1 s) (run_exit c code s)"
  by (cases "cm_args c"; cases "tl (cm_args c)")
    (auto simp: run_exit_def at_def intro!: kept_same split: prod.split)

lemma run_cd_ok: "table_ok {} {} s \<Longrightarrow> cm_args c \<noteq> [] \<Longrightarrow> ends_in (\<lambda>_. kept 1 s) (run_cd k c s)"
  by (cases "cm_args c"; cases "tl (cm_args c)")
    (auto simp: run_cd_def at_def intro!: kept_same split: option.split)

lemma run_pwd_ok: "table_ok {} {} s \<Longrightarrow> ends_in (\<lambda>_. kept 1 s) (run_pwd c s)"
  by (auto simp: run_pwd_def Let_def say_def intro!: kept_same split: option.split)

lemma run_builtin_ok:
  assumes ok: "table_ok {} {} s" and room: "sh_highest s < MAX_JOBS" and "cm_args c \<noteq> []"
    and bg: "hd (cm_args c) = bytes_of ''bg'' \<Longrightarrow> \<not> null_on_the_way s (sh_highest s)"
  shows "ends_in (\<lambda>_. kept 1 s) (run_builtin_command k c code s)"
proof -
  obtain w ws where w: "cm_args c = w # ws" using assms(3) by (cases "cm_args c") auto
  have fg: "ends_in (\<lambda>_. kept 1 s) (run_fg c s)" by (rule ends_in_mono [OF run_fg_ok [OF ok room]]) simp
  have bg: "ends_in (\<lambda>_. kept 1 s) (run_bg c s)" if "w = bytes_of ''bg''"
    using run_bg_ok [OF ok, of c] bg that w by (auto simp: kept_def elim!: ends_in_mono)
  have "kept 1 s s" by (rule kept_same [OF ok]) simp_all
  with fg bg run_jobs_ok [OF ok] run_exit_ok [OF ok assms(3)] run_cd_ok [OF ok assms(3)] run_pwd_ok [OF ok] show ?thesis
    by (simp add: run_builtin_command_def w at_def)
qed

section \<open>A built-in command on its own\<close>

text \<open>The state between two commands.\<close>

definition resting :: "shell \<Rightarrow> bool" where
  "resting s \<longleftrightarrow> table_ok {} {} s \<and> slot s 0 = None"

lemma leave_builtin_ok:
  assumes "table_ok {} {} s" "slot s 0 = None \<or> slot s 0 = Some a"
  shows "ends_in (\<lambda>_ s'. resting s' \<and> sh_highest s' = sh_highest s \<and>
    sh_fds s' = close_backup b2 (close_backup b1 (sh_fds s))) (leave_builtin a b1 b2 status s)"
proof -
  define s1 where "s1 = s\<lparr>sh_fds := close_backup b2 (close_backup b1 (sh_fds s))\<rparr>"
  have s1: "table_ok {} {} s1" "slot s1 = slot s" "sh_highest s1 = sh_highest s"
    "sh_fds s1 = close_backup b2 (close_backup b1 (sh_fds s))"
    using assms(1) by (simp_all add: s1_def table_ok_cong [of "s\<lparr>sh_fds := _\<rparr>" s])
  obtain s2 where "remove_foreground_job True s1 = Some s2" "table_ok {} {} s2" "slot s2 = (slot s1)(0 := None)"
    "sh_fds s2 = sh_fds s1" "sh_highest s2 = sh_highest s1"
    by (rule remove_foreground_free [OF s1(1)])
  with s1 assms(2) show ?thesis
    by (auto simp: leave_builtin_def Let_def s1_def [symmetric] get_slot_ok resting_def)
qed

text \<open>The descriptors behind a built-in command, whatever it does.\<close>

definition redirected :: "kernel \<Rightarrow> command \<Rightarrow> fds \<Rightarrow> int \<times> process \<times> fds" where
  "redirected k c fds = (case setup_redirection k c default_process fds of (status, p, fds) \<Rightarrow>
     if status = 0 then dup2_stdio p fds else (status, p, fds))"

definition builtin_fds :: "kernel \<Rightarrow> command \<Rightarrow> fds \<Rightarrow> fds" where
  "builtin_fds k c fds =
     (case backup 0 fds of (b1, fds) \<Rightarrow> case backup 1 fds of (b2, fds) \<Rightarrow>
      close_backup b2 (close_backup b1 (if b1 = None \<or> b2 = None then fds
        else snd (restore_stdio b1 b2 0 (snd (snd (redirected k c fds)))))))"

lemma restore_stdio_fds: "snd (restore_stdio b1 b2 st fds) = snd (restore_stdio b1 b2 0 fds)"
  by (simp add: restore_stdio_def split: option.split)

lemma run_single_builtin_ok:
  assumes rest: "resting s" and room: "sh_highest s < MAX_JOBS" and "cm_args c \<noteq> []"
    and bg: "hd (cm_args c) = bytes_of ''bg'' \<Longrightarrow> \<not> null_on_the_way s (sh_highest s)"
  shows "ends_in (\<lambda>_ s'. resting s' \<and> sh_highest s' \<le> sh_highest s + 1 \<and>
    (sh_fds s' = sh_fds s \<or> sh_fds s' = builtin_fds k c (sh_fds s))) (run_single_builtin_command k c code s)"
proof (cases "hd (cm_args c) = bytes_of ''exit'' \<and> \<not> is_job_table_empty s")
  case True
  with assms(1,3) show ?thesis by (cases "cm_args c") (simp_all add: run_single_builtin_command_def at_def)
next
  case False
  obtain b1 fds1 where b1: "backup 0 (sh_fds s) = (b1, fds1)" by (cases "backup 0 (sh_fds s)")
  obtain b2 fds2 where b2: "backup 1 fds1 = (b2, fds2)" by (cases "backup 1 fds1")
  define s1 where "s1 = s\<lparr>sh_fds := fds2\<rparr>"
  have s1: "table_ok {} {} s1" "slot s1 = slot s" "sh_highest s1 = sh_highest s" "sh_heap s1 = sh_heap s"
    using rest by (simp_all add: s1_def resting_def table_ok_cong [of "s\<lparr>sh_fds := _\<rparr>" s])
  obtain a s2 where new: "new_job default_job s1 = (a, s2)" by (cases "new_job default_job s1")
  note s2 = new_job_ok [OF s1(1) new]
  have slot2: "slot s2 = slot s" using s1(2) s2(4) by simp
  have "sh_heap s2 a = Some default_job" using s2(4) by simp
  with s2(1,2) slot2 rest obtain s3 where s3: "set_foreground_job a s2 = Some s3" "table_ok {} {} s3"
    "slot s3 = (slot s2)(0 := Some a)"
    "s3 = s2\<lparr>sh_table := (sh_table s2)[0 := Some a],
       sh_heap := (sh_heap s2)(a := Some (set_job_process_state True (default_job\<lparr>jb_state := JOB_FOREGROUND, jb_id := 0\<rparr>)))\<rparr>"
    using set_foreground_new [of "{}" a "{}" s2 default_job] by (auto simp: resting_def default_job_def)
  have high: "sh_highest s3 = sh_highest s" using s3(4) s2(4) s1(3) by simp
  have stopped: "stopped_at s3 i = stopped_at s i" if "0 < i" for i
  proof -
    have other: "slot s i \<noteq> Some a" using s2(5) s1(2) by simp
    have slot3: "slot s3 i = slot s i" using that by (simp only: s3(3) slot2 fun_upd_apply) simp
    have heap3: "sh_heap s3 b = sh_heap s b" if "b \<noteq> a" for b using that s1(4) by (simp add: s3(4) s2(4))
    show ?thesis unfolding stopped_at_def slot3 using other heap3 by (metis option.inject)
  qed
  have null: "null_on_the_way s3 n = null_on_the_way s n" for n
  proof -
    have "0 < i \<and> i \<le> n \<and> slot s3 i = None \<and> (\<forall>k. i < k \<longrightarrow> k \<le> n \<longrightarrow> \<not> stopped_at s3 k) \<longleftrightarrow>
        0 < i \<and> i \<le> n \<and> slot s i = None \<and> (\<forall>k. i < k \<longrightarrow> k \<le> n \<longrightarrow> \<not> stopped_at s k)" for i
      using stopped by (cases "0 < i") (auto simp: s3(3) slot2)
    then show ?thesis by (simp add: null_on_the_way_def)
  qed
  obtain status p fds where red: "redirected k c fds2 = (status, p, fds)" by (cases "redirected k c fds2")
  have fds3: "sh_fds s3 = fds2" by (simp add: s3(4) s2(4) s1_def)
  define s4 where "s4 = s3\<lparr>sh_fds := fds\<rparr>"
  have s4: "table_ok {} {} s4" "sh_highest s4 = sh_highest s" "slot s4 = slot s3" "sh_fds s4 = fds"
    using s3(2) high by (simp_all add: s4_def table_ok_cong [of "s3\<lparr>sh_fds := _\<rparr>" s3])
  have null4: "null_on_the_way s4 n = null_on_the_way s n" for n
    using null by (simp add: null_on_the_way_def stopped_at_def s4_def)
  let ?P = "\<lambda>s'. resting s' \<and> sh_highest s' \<le> sh_highest s + 1 \<and> (sh_fds s' = sh_fds s \<or> sh_fds s' = builtin_fds k c (sh_fds s))"
  have "ends_in (\<lambda>_. kept 1 s4) (if status = 0 then run_builtin_command k c code s4 else Return status s4)"
    using run_builtin_ok [OF s4(1) _ assms(3), of k code] bg room s4(2) null4 kept_same [OF s4(1), of s4] by simp
  then have run: "ends_in (\<lambda>status s. ends_in (\<lambda>_. ?P)
      (let (status, fds) = restore_stdio b1 b2 status (sh_fds s) in leave_builtin a b1 b2 status (s\<lparr>sh_fds := fds\<rparr>)))
      (if status = 0 then run_builtin_command k c code s4 else Return status s4)" if b: "b1 \<noteq> None" "b2 \<noteq> None"
  proof (rule ends_in_mono)
    fix st t
    assume t: "kept 1 s4 t"
    obtain st' fds' where r: "restore_stdio b1 b2 st (sh_fds t) = (st', fds')" by (cases "restore_stdio b1 b2 st (sh_fds t)")
    have "table_ok {} {} (t\<lparr>sh_fds := fds'\<rparr>)" "slot (t\<lparr>sh_fds := fds'\<rparr>) 0 = None \<or> slot (t\<lparr>sh_fds := fds'\<rparr>) 0 = Some a"
      "sh_highest (t\<lparr>sh_fds := fds'\<rparr>) \<le> sh_highest s + 1"
      using t s4 by (auto simp: kept_def table_ok_cong [of "t\<lparr>sh_fds := fds'\<rparr>" t] s3(3))
    moreover have "close_backup b2 (close_backup b1 fds') = builtin_fds k c (sh_fds s)"
      using b r t s4(4) restore_stdio_fds [of b1 b2 st "sh_fds t"]
      by (auto simp: builtin_fds_def b1 b2 red kept_def)
    ultimately show "ends_in (\<lambda>_. ?P)
      (let (status, fds) = restore_stdio b1 b2 st (sh_fds t) in leave_builtin a b1 b2 status (t\<lparr>sh_fds := fds\<rparr>))"
      unfolding r by (auto elim!: ends_in_mono [OF leave_builtin_ok])
  qed
  have leave: "ends_in (\<lambda>_. ?P) (leave_builtin a b1 b2 1 s3)" if "b1 = None \<or> b2 = None"
    using s3(2,3) that high fds3 by (auto simp: builtin_fds_def b1 b2 elim!: ends_in_mono [OF leave_builtin_ok])
  have shape: "run_single_builtin_command k c code s =
    (if b1 = None \<or> b2 = None then leave_builtin a b1 b2 1 s3
     else and_then (if status = 0 then run_builtin_command k c code s4 else Return status s4) (\<lambda>status s.
       let (status, fds) = restore_stdio b1 b2 status (sh_fds s) in leave_builtin a b1 b2 status (s\<lparr>sh_fds := fds\<rparr>)))"
    using False assms(3) red b1 b2 new s3(1) fds3
    by (cases "cm_args c") (auto simp: run_single_builtin_command_def redirected_def at_def Let_def s1_def s4_def split: prod.splits)
  show ?thesis unfolding shape using leave run by (simp add: ends_in_and_then)
qed

end
