(* ===== verification/Pa2_Pipes.thy ===== *)
theory Pa2_Pipes
  imports Pa2_Run
begin

text \<open>
  The descriptors of a pipeline: what every child has when it runs its command, and that the shell has closed
  all ends of the pipes in the end.
\<close>

section \<open>Descriptors on top of a table\<close>

definition vacant :: "fds \<Rightarrow> nat set" where
  "vacant base = {i. i < length base \<and> base ! i = None}"

text \<open>The table \<open>fds\<close> is \<open>base\<close> with the entries \<open>m\<close> in places that are vacant in \<open>base\<close>.\<close>

definition holding :: "fds \<Rightarrow> (nat \<Rightarrow> fd_object option) \<Rightarrow> fds \<Rightarrow> bool" where
  "holding base m fds \<longleftrightarrow> length fds = length base \<and> dom m \<subseteq> vacant base \<and>
     (\<forall>i<length base. fds ! i = (if m i = None then base ! i else m i))"

lemma vacant_finite [simp]: "finite (vacant base)"
  by (simp add: vacant_def)

lemma holding_base [simp]: "holding base Map.empty base"
  by (simp add: holding_def)

lemma holding_empty: "holding base Map.empty fds \<Longrightarrow> fds = base"
  by (simp add: holding_def nth_equalityI)

lemma lowest_free_Some: "lowest_free fds = Some i \<Longrightarrow> i < length fds \<and> fds ! i = None"
  by (induction fds arbitrary: i rule: lowest_free.induct) auto

lemma lowest_free_None: "lowest_free fds = None \<Longrightarrow> i < length fds \<Longrightarrow> fds ! i \<noteq> None"
  by (induction fds arbitrary: i rule: lowest_free.induct) (auto simp: nth_Cons split: nat.splits)

lemma open_holding:
  assumes h: "holding base m fds" and room: "card (dom m) < card (vacant base)"
  obtains i fds' where "open_fd obj fds = Some (i, fds')" "holding base (m(i := Some obj)) fds'" "m i = None" "i \<in> vacant base"
proof (cases "lowest_free fds")
  case None
  have "vacant base \<subseteq> dom m"
  proof
    fix i
    assume i: "i \<in> vacant base"
    with h lowest_free_None [OF None, of i] show "i \<in> dom m" by (auto simp: vacant_def holding_def split: if_splits)
  qed
  with h have "dom m = vacant base" by (auto simp: holding_def)
  with room show ?thesis by simp
next
  case (Some i)
  from lowest_free_Some [OF this] have i: "i < length fds" "fds ! i = None" by simp_all
  with h have none: "m i = None" "i \<in> vacant base" by (auto simp: holding_def vacant_def split: if_splits)
  have "holding base (m(i := Some obj)) (fds[i := Some obj])"
    using h none i(1) by (auto simp: holding_def nth_list_update)
  with Some none that show ?thesis by (simp add: open_fd_def)
qed

lemma close_holding:
  assumes "holding base m fds" "m i \<noteq> None"
  shows "holding base (m(i := None)) (fd_close (int i) fds)"
proof -
  have "i \<in> vacant base" using assms by (auto simp: holding_def)
  with assms(1) show ?thesis by (auto simp: holding_def fd_close_def nth_list_update vacant_def)
qed

lemma vacant_update: "base ! n \<noteq> None \<Longrightarrow> vacant (base[n := Some obj]) = vacant base"
proof -
  assume n: "base ! n \<noteq> None"
  have "base[n := Some obj] ! x = None \<longleftrightarrow> base ! x = None" if "x < length base" for x
    using n that by (cases "x = n") auto
  then show ?thesis by (auto simp: vacant_def)
qed

lemma dup2_holding:
  assumes "holding base m fds" "m i = Some obj" "n < length base" "base ! n \<noteq> None"
  shows "dup2_fd (int i) n fds = Some (fds[n := Some obj])" "holding (base[n := Some obj]) m (fds[n := Some obj])"
proof -
  have "i \<in> vacant base" using assms by (auto simp: holding_def)
  with assms(1,2) show "dup2_fd (int i) n fds = Some (fds[n := Some obj])"
    by (simp add: dup2_fd_def fd_entry_def holding_def vacant_def)
  have "m n = None" using assms(1,4) by (auto simp: holding_def vacant_def)
  with assms(1,3,4) show "holding (base[n := Some obj]) m (fds[n := Some obj])"
    by (auto simp: holding_def nth_list_update vacant_update)
qed

section \<open>The two ends of a process\<close>

type_synonym fd_end = "(nat \<times> fd_object) option"

definition end_fd :: "fd_end \<Rightarrow> int" where
  "end_fd x = (case x of None \<Rightarrow> -1 | Some (i, _) \<Rightarrow> int i)"

definition end_object :: "fd_end \<Rightarrow> fd_object option \<Rightarrow> fd_object option" where
  "end_object x otherwise = (case x of None \<Rightarrow> otherwise | Some (_, obj) \<Rightarrow> Some obj)"

definition end_map :: "fd_end \<Rightarrow> nat \<Rightarrow> fd_object option" where
  "end_map x = (case x of None \<Rightarrow> Map.empty | Some (i, obj) \<Rightarrow> [i \<mapsto> obj])"

definition apart :: "fd_end \<Rightarrow> fd_end \<Rightarrow> bool" where
  "apart x y \<longleftrightarrow> dom (end_map x) \<inter> dom (end_map y) = {}"

lemma end_simps [simp]:
  "end_fd None = -1" "end_fd (Some (i, obj)) = int i" "end_object None obj' = obj'" "end_object (Some (i, obj)) obj' = Some obj"
  "end_map None = Map.empty" "end_map (Some (i, obj)) = [i \<mapsto> obj]" "end_fd x = -1 \<longleftrightarrow> x = None"
  by (auto simp: end_fd_def end_object_def end_map_def split: option.split prod.split)

lemma card_ends: "card (dom (end_map x ++ end_map y)) \<le> 2"
proof -
  have "card (dom (end_map x)) \<le> 1" for x by (cases x) auto
  from this [of x] this [of y] card_Un_le [of "dom (end_map y)" "dom (end_map x)"] show ?thesis by simp
qed

definition in_object :: "command \<Rightarrow> fd_object option \<Rightarrow> fd_object option" where
  "in_object c obj = (case cm_stdin c of None \<Rightarrow> obj | Some file \<Rightarrow> Some (Read_File file))"

definition out_object :: "command \<Rightarrow> fd_object option \<Rightarrow> fd_object option" where
  "out_object c obj = (case cm_stdout c of None \<Rightarrow> obj | Some file \<Rightarrow> Some (Write_File file (cm_append c)))"

text \<open>The files of a command can be opened.\<close>

definition opens :: "kernel \<Rightarrow> command \<Rightarrow> bool" where
  "opens k c \<longleftrightarrow> (\<forall>f. cm_stdin c = Some f \<longrightarrow> k_open_read k f) \<and>
     (\<forall>f. cm_stdout c = Some f \<longrightarrow> k_open_write k f (cm_append c))"

text \<open>A file takes the place of an end.\<close>

lemma replace_end:
  assumes "holding base (end_map x ++ end_map y) fds" "apart x y" "2 < card (vacant base)"
  obtains i fds' where "open_fd obj fds = Some (i, fds')" "apart (Some (i, obj)) y"
    "holding base (end_map (Some (i, obj)) ++ end_map y) (if x \<noteq> None then fd_close (end_fd x) fds' else fds')"
proof -
  have "card (dom (end_map x ++ end_map y)) < card (vacant base)" using card_ends [of x y] assms(3) by simp
  then obtain i fds1 where i: "open_fd obj fds = Some (i, fds1)"
    "holding base ((end_map x ++ end_map y)(i := Some obj)) fds1" "(end_map x ++ end_map y) i = None"
    by (rule open_holding [OF assms(1)])
  have apart: "apart (Some (i, obj)) y" using i(3) by (auto simp: apart_def)
  show ?thesis
  proof (cases x)
    case None
    then have "(end_map x ++ end_map y)(i := Some obj) = end_map (Some (i, obj)) ++ end_map y"
      using i(3) by (auto simp: map_add_def fun_eq_iff split: option.split)
    with i None that [OF i(1) apart] show ?thesis by simp
  next
    case (Some a)
    obtain r obj' where x: "x = Some (r, obj')" using Some by (cases a) auto
    have "((end_map x ++ end_map y)(i := Some obj))(r := None) = end_map (Some (i, obj)) ++ end_map y"
      using i(3) x assms(2) by (auto simp: map_add_def fun_eq_iff apart_def split: option.splits)
    moreover have "holding base (((end_map x ++ end_map y)(i := Some obj))(r := None)) (fd_close (int r) fds1)"
      by (rule close_holding [OF i(2)]) (simp add: x map_add_def split: option.split)
    ultimately show ?thesis using x that [OF i(1) apart] by simp
  qed
qed

lemma redirect_stdin_ok:
  assumes "opens k c" "holding base (end_map x ++ end_map y) fds" "apart x y" "pr_stdin_fd p = end_fd x" "2 < card (vacant base)"
  obtains x' fds' where "redirect_stdin k c p fds = Some (p\<lparr>pr_stdin_fd := end_fd x'\<rparr>, fds')"
    "holding base (end_map x' ++ end_map y) fds'" "apart x' y" "\<And>obj. end_object x' obj = in_object c (end_object x obj)"
proof (cases "cm_stdin c")
  case None
  have "p\<lparr>pr_stdin_fd := end_fd x\<rparr> = p" using assms(4) by simp
  with None assms that [of x fds] show ?thesis by (simp add: redirect_stdin_def in_object_def)
next
  case (Some f)
  obtain i fds1 where i: "open_fd (Read_File f) fds = Some (i, fds1)" "apart (Some (i, Read_File f)) y"
    "holding base (end_map (Some (i, Read_File f)) ++ end_map y) (if x \<noteq> None then fd_close (end_fd x) fds1 else fds1)"
    by (rule replace_end [OF assms(2,3,5)])
  from i(1) Some assms(1,4)
  have "redirect_stdin k c p fds = Some (p\<lparr>pr_stdin_fd := end_fd (Some (i, Read_File f))\<rparr>,
      if x \<noteq> None then fd_close (end_fd x) fds1 else fds1)"
    by (simp add: redirect_stdin_def opens_def)
  from that [OF this i(3,2)] Some show ?thesis by (simp add: in_object_def)
qed

lemma ends_swap: "apart x y \<Longrightarrow> end_map x ++ end_map y = end_map y ++ end_map x"
  unfolding apart_def by (rule map_add_comm)

lemma apart_swap: "apart x y \<Longrightarrow> apart y x"
  by (auto simp: apart_def)

lemma redirect_stdout_ok:
  assumes "opens k c" "holding base (end_map x ++ end_map y) fds" "apart x y" "pr_stdout_fd p = end_fd y" "2 < card (vacant base)"
  obtains y' fds' where "redirect_stdout k c p fds = Some (p\<lparr>pr_stdout_fd := end_fd y'\<rparr>, fds')"
    "holding base (end_map x ++ end_map y') fds'" "apart x y'" "\<And>obj. end_object y' obj = out_object c (end_object y obj)"
proof (cases "cm_stdout c")
  case None
  have "p\<lparr>pr_stdout_fd := end_fd y\<rparr> = p" using assms(4) by simp
  with None assms that [of y fds] show ?thesis by (simp add: redirect_stdout_def out_object_def)
next
  case (Some f)
  define obj where "obj = Write_File f (cm_append c)"
  have "holding base (end_map y ++ end_map x) fds" using assms(2) unfolding ends_swap [OF assms(3)] .
  then obtain i fds1 where i: "open_fd obj fds = Some (i, fds1)" "apart (Some (i, obj)) x"
    "holding base (end_map (Some (i, obj)) ++ end_map x) (if y \<noteq> None then fd_close (end_fd y) fds1 else fds1)"
    by (rule replace_end [OF _ apart_swap [OF assms(3)] assms(5)])
  have "redirect_stdout k c p fds = Some (p\<lparr>pr_stdout_fd := end_fd (Some (i, obj))\<rparr>,
      if y \<noteq> None then fd_close (end_fd y) fds1 else fds1)"
    using i(1) Some assms(1,4) by (simp add: redirect_stdout_def opens_def obj_def)
  moreover have "holding base (end_map x ++ end_map (Some (i, obj))) (if y \<noteq> None then fd_close (end_fd y) fds1 else fds1)"
    using i(3) unfolding ends_swap [OF i(2)] .
  moreover note apart_swap [OF i(2)]
  moreover have "end_object (Some (i, obj)) obj' = out_object c (end_object y obj')" for obj'
    using Some by (simp add: out_object_def obj_def)
  ultimately show ?thesis by (rule that)
qed

lemma setup_redirection_ok:
  assumes "opens k c" "holding base (end_map x ++ end_map y) fds" "apart x y" "pr_stdin_fd p = end_fd x"
    "pr_stdout_fd p = end_fd y" "2 < card (vacant base)"
  obtains x' y' p' fds' where "setup_redirection k c p fds = (0, p', fds')" "holding base (end_map x' ++ end_map y') fds'"
    "apart x' y'" "pr_stdin_fd p' = end_fd x'" "pr_stdout_fd p' = end_fd y'"
    "\<And>obj. end_object x' obj = in_object c (end_object x obj)" "\<And>obj. end_object y' obj = out_object c (end_object y obj)"
proof -
  obtain x' fds1 where x': "redirect_stdin k c p fds = Some (p\<lparr>pr_stdin_fd := end_fd x'\<rparr>, fds1)"
    "holding base (end_map x' ++ end_map y) fds1" "apart x' y" "\<And>obj. end_object x' obj = in_object c (end_object x obj)"
    by (rule redirect_stdin_ok [OF assms(1-4,6)]) blast
  define p1 where "p1 = p\<lparr>pr_stdin_fd := end_fd x'\<rparr>"
  have "pr_stdout_fd p1 = end_fd y" using assms(5) by (simp add: p1_def)
  then obtain y' fds2 where y': "redirect_stdout k c p1 fds1 = Some (p1\<lparr>pr_stdout_fd := end_fd y'\<rparr>, fds2)"
    "holding base (end_map x' ++ end_map y') fds2" "apart x' y'" "\<And>obj. end_object y' obj = out_object c (end_object y obj)"
    by (rule redirect_stdout_ok [OF assms(1) x'(2,3) _ assms(6)]) blast
  show ?thesis
    by (rule that [OF _ y'(2,3) _ _ x'(4) y'(4), of "p1\<lparr>pr_stdout_fd := end_fd y'\<rparr>"])
      (use x'(1) y'(1) in \<open>simp_all add: setup_redirection_def p1_def\<close>)
qed

text \<open>The ends become the standard input and output.\<close>

lemma dup2_stdin_ok:
  assumes "holding base (end_map x ++ end_map y) fds" "apart x y" "pr_stdin_fd p = end_fd x" "0 < length base" "base ! 0 \<noteq> None"
  obtains p' fds' where "dup2_stdin p fds = Some (p', fds')" "holding (base[0 := end_object x (base ! 0)]) (end_map y) fds'"
    "pr_stdout_fd p' = pr_stdout_fd p"
proof (cases x)
  case None
  with assms that show ?thesis by (simp add: dup2_stdin_def)
next
  case (Some a)
  obtain i obj where x: "x = Some (i, obj)" using Some by (cases a) auto
  have "(end_map x ++ end_map y) i = Some obj" using assms(2) by (auto simp: x apart_def map_add_def split: option.split)
  note dup = dup2_holding [OF assms(1) this assms(4,5)]
  have "holding (base[0 := Some obj]) ((end_map x ++ end_map y)(i := None)) (fd_close (int i) (fds[0 := Some obj]))"
    by (rule close_holding [OF dup(2)]) (use assms(2) in \<open>auto simp: x map_add_def split: option.split\<close>)
  moreover have "(end_map x ++ end_map y)(i := None) = end_map y"
    using assms(2) by (auto simp: x fun_eq_iff apart_def map_add_def split: option.split)
  ultimately show ?thesis using that dup(1) assms(3) by (simp add: dup2_stdin_def x)
qed

lemma dup2_stdout_ok:
  assumes "holding base (end_map y) fds" "pr_stdout_fd p = end_fd y" "1 < length base" "base ! 1 \<noteq> None"
  obtains p' where "dup2_stdout p fds = Some (p', base[1 := end_object y (base ! 1)])"
proof (cases y)
  case None
  then have "fds = base" using assms(1) by (simp add: holding_empty)
  with None assms that show ?thesis by (simp add: dup2_stdout_def)
next
  case (Some a)
  obtain i obj where y: "y = Some (i, obj)" using Some by (cases a) auto
  have "end_map y i = Some obj" by (simp add: y)
  note dup = dup2_holding [OF assms(1) this assms(3,4)]
  have "holding (base[1 := Some obj]) ((end_map y)(i := None)) (fd_close (int i) (fds[1 := Some obj]))"
    by (rule close_holding [OF dup(2)]) (simp add: y)
  moreover have "(end_map y)(i := None) = Map.empty" by (simp add: y)
  ultimately have "fd_close (int i) (fds[1 := Some obj]) = base[1 := Some obj]" by (simp add: holding_empty)
  with that dup(1) assms(2) show ?thesis by (simp add: dup2_stdout_def y)
qed

lemma dup2_stdio_ok:
  assumes "holding base (end_map x ++ end_map y) fds" "apart x y" "pr_stdin_fd p = end_fd x" "pr_stdout_fd p = end_fd y"
    "1 < length base" "base ! 0 \<noteq> None" "base ! 1 \<noteq> None"
  obtains p' where "dup2_stdio p fds = (0, p', base[0 := end_object x (base ! 0), 1 := end_object y (base ! 1)])"
proof -
  have len: "0 < length base" using assms(5) by (cases base) simp_all
  obtain p1 fds1 where 1: "dup2_stdin p fds = Some (p1, fds1)" "holding (base[0 := end_object x (base ! 0)]) (end_map y) fds1"
    "pr_stdout_fd p1 = pr_stdout_fd p"
    by (rule dup2_stdin_ok [OF assms(1-3) len assms(6)])
  obtain p2 where "dup2_stdout p1 fds1 = Some (p2, base[0 := end_object x (base ! 0), 1 := end_object y (base ! 1)])"
    using dup2_stdout_ok [OF 1(2), of p1] 1(3) assms(4,5,7) by auto
  with 1(1) that show ?thesis by (simp add: dup2_stdio_def)
qed

text \<open>A child whose files can be opened runs its command with these descriptors, any other exits with status 1.\<close>

definition child_wired :: "kernel \<Rightarrow> fds \<Rightarrow> command \<Rightarrow> child \<Rightarrow> bool" where
  "child_wired k fds c ch \<longleftrightarrow> (if opens k c then ch_fds ch = fds \<and> ch_end ch = Child_Run c else ch_end ch = Child_Exit 1)"

lemma pipeline_child_ok:
  assumes "apart x y" "pr_stdin_fd p = end_fd x" "pr_stdout_fd p = end_fd y" "2 < card (vacant base)"
    "1 < length base" "base ! 0 \<noteq> None" "base ! 1 \<noteq> None"
    "holding base (end_map x ++ end_map y) (case q of None \<Rightarrow> fds | Some q \<Rightarrow>
       if pr_stdin_fd q \<noteq> -1 then fd_close (pr_stdin_fd q) fds else fds)"
  shows "child_wired k (base[0 := in_object c (end_object x (base ! 0)), 1 := out_object c (end_object y (base ! 1))]) c
    (pipeline_child k c p q pgid fg fds)"
proof (cases "opens k c")
  case False
  define table where "table = (case q of None \<Rightarrow> fds | Some q \<Rightarrow> if pr_stdin_fd q \<noteq> -1 then fd_close (pr_stdin_fd q) fds else fds)"
  from False have "fst (setup_redirection k c p table) = 1"
    by (auto simp: setup_redirection_def redirect_stdin_def redirect_stdout_def opens_def split: option.split)
  then obtain p1 fds1 where "setup_redirection k c p table = (1, p1, fds1)" by (cases "setup_redirection k c p table") auto
  with False show ?thesis by (simp add: child_wired_def pipeline_child_def Let_def flip: table_def)
next
  case True
  obtain x' y' p' fds' where r: "setup_redirection k c p (case q of None \<Rightarrow> fds | Some q \<Rightarrow>
       if pr_stdin_fd q \<noteq> -1 then fd_close (pr_stdin_fd q) fds else fds) = (0, p', fds')"
    "holding base (end_map x' ++ end_map y') fds'"
    "apart x' y'" "pr_stdin_fd p' = end_fd x'" "pr_stdout_fd p' = end_fd y'"
    "\<And>obj. end_object x' obj = in_object c (end_object x obj)" "\<And>obj. end_object y' obj = out_object c (end_object y obj)"
    by (rule setup_redirection_ok [OF True assms(8,1-4)]) blast
  obtain p'' where "dup2_stdio p' fds' = (0, p'', base[0 := end_object x' (base ! 0), 1 := end_object y' (base ! 1)])"
    by (rule dup2_stdio_ok [OF r(2-5) assms(5-7)])
  with r(1) show ?thesis by (simp add: True child_wired_def pipeline_child_def Let_def r(6,7))
qed

lemma pipeline_child_simps [simp]:
  "ch_pid (pipeline_child k c p q pgid fg fds) = pr_pid p"
  "ch_pgid (pipeline_child k c p q pgid fg fds) = (if pgid = -1 then pr_pid p else pgid)"
  "ch_foreground (pipeline_child k c p q pgid fg fds) = fg"
  by (simp_all add: pipeline_child_def Let_def split: prod.split)


section \<open>The loop over the commands\<close>

text \<open>The job that is being started: in slot 0, or in no slot when it is for the background.\<close>

definition launching :: "nat \<Rightarrow> bool \<Rightarrow> job \<Rightarrow> shell \<Rightarrow> bool" where
  "launching a background j s \<longleftrightarrow> sh_heap s a = Some j \<and> jb_id j = 0 \<and>
     (if background then table_ok {} {a} s \<and> slot s 0 = None \<and> jb_state j = JOB_BACKGROUND
      else table_ok {} {} s \<and> slot s 0 = Some a \<and> jb_state j = JOB_FOREGROUND)"

lemma launched:
  assumes l: "launching a background j s" and "jb_processes j \<noteq> []" and room: "sh_highest s < MAX_JOBS"
  shows "ends_in (\<lambda>_ s'. resting s' \<and> sh_fds s' = sh_fds s \<and> sh_children s' = sh_children s \<and> sh_highest s' \<le> sh_highest s + 1)
    (handle_job a s)"
proof (cases background)
  case False
  with l have "table_ok {} {} s" "slot s 0 = Some a" "sh_heap s a = Some j" "jb_state j = JOB_FOREGROUND"
    by (simp_all add: launching_def)
  from handle_foreground_ok [OF this assms(2) room] show ?thesis by (rule ends_in_mono) (simp add: resting_def)
next
  case True
  with l have ok: "table_ok {} (insert a {}) s" "slot s 0 = None" and j: "sh_heap s a = Some j" "jb_state j = JOB_BACKGROUND"
    by (simp_all add: launching_def)
  have "listed j" using j(2) assms(2) by (simp add: listed_def)
  then obtain s' where s': "add_job_to_table a s = Some s'" "table_ok {} {} s'" "sh_highest s' = sh_highest s + 1"
    "sh_fds s' = sh_fds s" "slot s' = (slot s)(sh_highest s + 1 := Some a)"
    using add_job_to_table_ok [OF ok(1) _ j(1) _ room] by blast
  have "sh_children s' = sh_children s"
    using s'(1) by (auto simp: add_job_to_table_def Let_def bind_eq_Some_conv set_slot_def put_job_def split: if_splits)
  with s' ok(2) j show ?thesis by (simp add: handle_job_def resting_def)
qed

lemma launching_put:
  assumes l: "launching a background j s" and "jb_id j' = 0" "jb_state j' = jb_state j"
    and s': "sh_heap s' = sh_heap s" "sh_next s' = sh_next s" "sh_table s' = sh_table s" "sh_num_jobs s' = sh_num_jobs s"
      "sh_highest s' = sh_highest s"
  shows "launching a background j' (put_job a j' s')"
proof -
  have slots: "slot s' = slot s" using s'(3) by (simp add: slot_def fun_eq_iff)
  have j: "sh_heap s' a = Some j" using l s'(1) by (simp add: launching_def)
  have put: "table_ok {} H (put_job a j' s')" if "table_ok {} H s" for H
    by (rule put_job_ok [of "{}" H s' a j])
      (use that j l assms(2) in \<open>simp_all add: table_ok_cong [OF s'] launching_def split: if_splits\<close>)
  with l assms(2,3) show ?thesis by (simp add: launching_def slots split: if_splits)
qed

text \<open>What every child has: the files of its redirections, or the neighbouring pipes, or what the shell has.\<close>

fun wired :: "fds \<Rightarrow> nat \<Rightarrow> fd_object option \<Rightarrow> command list \<Rightarrow> fds list" where
  "wired base n input [] = []"
| "wired base n input [c] = [base[0 := in_object c input, 1 := out_object c (base ! 1)]]"
| "wired base n input (c # c' # cs) =
     base[0 := in_object c input, 1 := out_object c (Some (Pipe_Write n))] # wired base (n + 1) (Some (Pipe_Read n)) (c' # cs)"

definition started :: "kernel \<Rightarrow> fds \<Rightarrow> nat \<Rightarrow> fd_object option \<Rightarrow> int \<Rightarrow> bool \<Rightarrow> command list \<Rightarrow> child list \<Rightarrow> bool" where
  "started k base n input pgid foreground cs new \<longleftrightarrow> length new = length cs \<and>
     (\<forall>i<length cs. child_wired k (wired base n input cs ! i) (cs ! i) (new ! i)) \<and>
     (\<forall>ch\<in>set new. ch_pgid ch = (if pgid = -1 then ch_pid (hd new) else pgid) \<and> ch_foreground ch = foreground)"

definition standing :: "fds \<Rightarrow> bool" where
  "standing base \<longleftrightarrow> 1 < length base \<and> base ! 0 \<noteq> None \<and> base ! 1 \<noteq> None \<and> 2 < card (vacant base)"

lemma setup_pipe_ok:
  assumes "holding base (end_map x) (sh_fds s)" "standing base"
  obtains r w fds where
    "setup_pipe p q s = Some (p\<lparr>pr_stdout_fd := int w\<rparr>, q\<lparr>pr_stdin_fd := int r\<rparr>, int w, s\<lparr>sh_fds := fds, sh_pipe := sh_pipe s + 1\<rparr>)"
    "holding base ((end_map x)(r := Some (Pipe_Read (sh_pipe s)), w := Some (Pipe_Write (sh_pipe s)))) fds"
    "end_map x r = None" "end_map x w = None" "r \<noteq> w"
proof -
  have one: "card (dom (end_map x)) \<le> 1" by (cases x) auto
  have "card (dom (end_map x)) < card (vacant base)" using one assms(2) by (simp add: standing_def)
  then obtain r fds1 where r: "open_fd (Pipe_Read (sh_pipe s)) (sh_fds s) = Some (r, fds1)"
    "holding base ((end_map x)(r := Some (Pipe_Read (sh_pipe s)))) fds1" "end_map x r = None"
    by (rule open_holding [OF assms(1)])
  have "card (dom ((end_map x)(r := Some (Pipe_Read (sh_pipe s))))) \<le> Suc (card (dom (end_map x)))"
    by (simp add: card_insert_le_m1 card_insert_if)
  then have "card (dom ((end_map x)(r := Some (Pipe_Read (sh_pipe s))))) < card (vacant base)"
    using one assms(2) by (simp add: standing_def)
  then obtain w fds2 where w: "open_fd (Pipe_Write (sh_pipe s)) fds1 = Some (w, fds2)"
    "holding base ((end_map x)(r := Some (Pipe_Read (sh_pipe s)), w := Some (Pipe_Write (sh_pipe s)))) fds2"
    "((end_map x)(r := Some (Pipe_Read (sh_pipe s)))) w = None"
    by (rule open_holding [OF r(2)])
  have w': "end_map x w = None" "r \<noteq> w" using w(3) by (auto split: if_splits)
  show ?thesis by (rule that [OF _ w(2) r(3) w']) (simp add: setup_pipe_def r(1) w(1))
qed

lemma start_process_ok:
  assumes l: "launching a background j s"
    and parent: "(if first then sh_fds s else fd_close (pr_stdin_fd p) (sh_fds s)) = fds"
      "(case following of None \<Rightarrow> fds | Some (q, w) \<Rightarrow> fd_close w fds) = fds'"
  shows "ends_in (\<lambda>_ s'. \<exists>pid j'. launching a background j' s' \<and> jb_processes j' \<noteq> [] \<and> sh_fds s' = fds' \<and>
      sh_highest s' = sh_highest s \<and> sh_pipe s' = sh_pipe s \<and> jb_pgid j' = (if jb_pgid j = -1 then pid else jb_pgid j) \<and> pid \<noteq> -1 \<and>
      sh_children s' = sh_children s @ [pipeline_child k c (p\<lparr>pr_pid := pid\<rparr>) (map_option fst following)
        (jb_pgid j) (\<not> background) (sh_fds s)]) (start_process k a c p following first s)"
proof -
  obtain pid s1 where fork: "fork s = (pid, s1)" by (cases "fork s")
  have s1: "sh_heap s1 = sh_heap s" "sh_next s1 = sh_next s" "sh_table s1 = sh_table s" "sh_num_jobs s1 = sh_num_jobs s"
    "sh_highest s1 = sh_highest s" "sh_fds s1 = sh_fds s" "sh_children s1 = sh_children s" "sh_pipe s1 = sh_pipe s"
    using fork by (auto simp: fork_def split: list.splits)
  show ?thesis
  proof (cases "pid = -1")
    case True
    with fork show ?thesis by (simp add: start_process_def)
  next
    case False
    have j: "sh_heap s1 a = Some j" "jb_id j = 0" "(jb_state j = JOB_FOREGROUND) = (\<not> background)"
      using l s1(1) by (auto simp: launching_def split: if_splits)
    define j' where "j' = j\<lparr>jb_processes := jb_processes j @ [p\<lparr>pr_pid := pid, pr_running := True\<rparr>],
                  jb_num_processes := jb_num_processes j + 1, jb_pgid := (if jb_pgid j = -1 then pid else jb_pgid j)\<rparr>"
    define ch where "ch = pipeline_child k c (p\<lparr>pr_pid := pid\<rparr>) (map_option fst following) (jb_pgid j) (\<not> background) (sh_fds s)"
    define s2 where "s2 = s1\<lparr>sh_fds := fds', sh_children := sh_children s @ [ch]\<rparr>"
    have "launching a background j' (put_job a j' s2)"
      by (rule launching_put [OF l]) (simp_all add: j'_def s2_def s1 j(2))
    moreover have "start_process k a c p following first s = Return () (put_job a j' s2)"
      using False j parent
      by (cases first; cases following) (simp_all add: start_process_def fork Let_def j'_def s2_def s1 split_def ch_def)
    ultimately have "ends_in (\<lambda>_ s'. s' = put_job a j' s2 \<and> launching a background j' s') (start_process k a c p following first s)"
      by simp
    then show ?thesis
    proof (rule ends_in_mono, elim conjE)
      fix u s'
      assume s': "s' = put_job a j' s2" "launching a background j' s'"
      show "\<exists>pid j'. launching a background j' s' \<and> jb_processes j' \<noteq> [] \<and> sh_fds s' = fds' \<and>
        sh_highest s' = sh_highest s \<and> sh_pipe s' = sh_pipe s \<and> jb_pgid j' = (if jb_pgid j = -1 then pid else jb_pgid j) \<and>
        pid \<noteq> -1 \<and> sh_children s' = sh_children s @ [pipeline_child k c (p\<lparr>pr_pid := pid\<rparr>) (map_option fst following)
          (jb_pgid j) (\<not> background) (sh_fds s)]"
        by (rule exI [of _ pid], rule exI [of _ j'], intro conjI s'(2) False)
          (simp_all add: s'(1) j'_def s2_def put_job_def s1 ch_def)
    qed
  qed
qed

lemma started_cons:
  assumes new: "started k base (n + 1) (Some (Pipe_Read n)) pgid' foreground (c' # cs) new"
    and "pgid' = (if pgid = -1 then pid else pgid)" "pid \<noteq> -1"
    and ch: "child_wired k (base[0 := in_object c input, 1 := out_object c (Some (Pipe_Write n))]) c ch"
      "ch_pid ch = pid" "ch_pgid ch = pgid'" "ch_foreground ch = foreground"
  shows "started k base n input pgid foreground (c # c' # cs) (ch # new)"
proof -
  have "child_wired k (wired base n input (c # c' # cs) ! i) ((c # c' # cs) ! i) ((ch # new) ! i)"
    if "i < length (c # c' # cs)" for i
    using that new ch(1) by (cases i) (auto simp: started_def)
  with new assms(2,3) ch(2-4) show ?thesis by (auto simp: started_def)
qed

lemma pipeline_loop_ok:
  assumes "cs \<noteq> []" "launching a background j s" "standing base" "holding base (end_map x) (sh_fds s)"
    "pr_stdin_fd p = end_fd x" "pr_stdout_fd p = -1" "first \<longleftrightarrow> x = None" "sh_highest s < MAX_JOBS"
  shows "ends_in (\<lambda>_ s'. resting s' \<and> sh_fds s' = base \<and> sh_highest s' \<le> sh_highest s + 1 \<and>
      (\<exists>new. sh_children s' = sh_children s @ new \<and>
        started k base (sh_pipe s) (end_object x (base ! 0)) (jb_pgid j) (\<not> background) cs new)) (pipeline_loop k a cs p first s)"
  using assms
proof (induction cs arbitrary: p first s x j rule: induct_list012)
  case (2 c)
  have base: "2 < card (vacant base)" "1 < length base" "base ! 0 \<noteq> None" "base ! 1 \<noteq> None"
    using "2.prems"(3) by (simp_all add: standing_def)
  define p1 where "p1 = p\<lparr>pr_command := Some c\<rparr>"
  have p1: "pr_stdin_fd p1 = end_fd x" "pr_stdout_fd p1 = -1" using "2.prems"(5,6) by (simp_all add: p1_def)
  define ch where "ch pid = pipeline_child k c (p1\<lparr>pr_pid := pid\<rparr>) (map_option fst (None :: (process \<times> int) option))
      (jb_pgid j) (\<not> background) (sh_fds s)" for pid
  have child: "child_wired k (base[0 := in_object c (end_object x (base ! 0)), 1 := out_object c (base ! 1)]) c (ch pid)" for pid
    unfolding ch_def
    using pipeline_child_ok [of x None "p1\<lparr>pr_pid := pid\<rparr>" base "sh_fds s" None k c "jb_pgid j" "\<not> background"] base p1 "2.prems"(4)
    by (simp add: apart_def)
  have closed: "(if first then sh_fds s else fd_close (pr_stdin_fd p1) (sh_fds s)) = base"
  proof (cases x)
    case None
    with "2.prems"(4,7) show ?thesis by (simp add: holding_empty)
  next
    case (Some y)
    then obtain r obj where x: "x = Some (r, obj)" by (cases y) auto
    have gone: "(end_map x)(r := None) = Map.empty" by (simp add: x fun_eq_iff)
    have "end_map x r \<noteq> None" by (simp add: x)
    from close_holding [OF "2.prems"(4) this] have "fd_close (int r) (sh_fds s) = base"
      unfolding gone by (rule holding_empty)
    with p1(1) "2.prems"(7) show ?thesis by (simp add: x)
  qed
  have "ends_in (\<lambda>_ s1. ends_in (\<lambda>_ s'. resting s' \<and> sh_fds s' = base \<and> sh_highest s' \<le> sh_highest s + 1 \<and>
      (\<exists>new. sh_children s' = sh_children s @ new \<and>
        started k base (sh_pipe s) (end_object x (base ! 0)) (jb_pgid j) (\<not> background) [c] new)) (handle_job a s1))
    (start_process k a c p1 None first s)"
  proof (rule ends_in_mono [OF start_process_ok [OF "2.prems"(2) closed refl]], elim exE conjE)
    fix u s1 pid j1
    assume s1: "launching a background j1 s1" "jb_processes j1 \<noteq> []" "sh_highest s1 = sh_highest s"
      "sh_fds s1 = (case None of None \<Rightarrow> base | Some (q :: process, w) \<Rightarrow> fd_close w base)"
      "sh_children s1 = sh_children s @ [pipeline_child k c (p1\<lparr>pr_pid := pid\<rparr>) (map_option fst None)
        (jb_pgid j) (\<not> background) (sh_fds s)]"
    have new: "started k base (sh_pipe s) (end_object x (base ! 0)) (jb_pgid j) (\<not> background) [c] [ch pid]"
      using child [of pid] by (simp add: started_def) (simp add: ch_def)
    have "sh_highest s1 < MAX_JOBS" using s1(3) "2.prems"(8) by simp
    from launched [OF s1(1,2) this]
    show "ends_in (\<lambda>_ s'. resting s' \<and> sh_fds s' = base \<and> sh_highest s' \<le> sh_highest s + 1 \<and>
      (\<exists>new. sh_children s' = sh_children s @ new \<and>
        started k base (sh_pipe s) (end_object x (base ! 0)) (jb_pgid j) (\<not> background) [c] new)) (handle_job a s1)"
      by (rule ends_in_mono) (use s1(3-5) new in \<open>simp add: ch_def\<close>)
  qed
  then show ?case by (simp add: ends_in_and_then p1_def)
next
  case (3 c c' cs)
  have base: "2 < card (vacant base)" "1 < length base" "base ! 0 \<noteq> None" "base ! 1 \<noteq> None"
    using "3.prems"(3) by (simp_all add: standing_def)
  define n where "n = sh_pipe s"
  obtain r w fds where pipe: "setup_pipe (p\<lparr>pr_command := Some c\<rparr>) default_process s =
      Some (p\<lparr>pr_command := Some c, pr_stdout_fd := int w\<rparr>, default_process\<lparr>pr_stdin_fd := int r\<rparr>, int w,
        s\<lparr>sh_fds := fds, sh_pipe := sh_pipe s + 1\<rparr>)"
    and h: "holding base ((end_map x)(r := Some (Pipe_Read n), w := Some (Pipe_Write n))) fds"
    and rw: "end_map x r = None" "end_map x w = None" "r \<noteq> w"
    unfolding n_def by (rule setup_pipe_ok [OF "3.prems"(4,3)]) blast
  define p1 where "p1 = p\<lparr>pr_command := Some c, pr_stdout_fd := int w\<rparr>"
  have p1: "pr_stdin_fd p1 = end_fd x" using "3.prems"(5) by (simp add: p1_def)
  define q where "q = default_process\<lparr>pr_stdin_fd := int r\<rparr>"
  define s1 where "s1 = s\<lparr>sh_fds := fds, sh_pipe := n + 1\<rparr>"
  have l1: "launching a background j s1"
    using "3.prems"(2) by (simp add: launching_def s1_def table_ok_cong [of "s\<lparr>sh_fds := _, sh_pipe := _\<rparr>" s])
  have apart: "apart x (Some (w, Pipe_Write n))" using rw by (auto simp: apart_def)
  have m: "(end_map x)(r := Some (Pipe_Read n), w := Some (Pipe_Write n), r := None) = end_map x ++ end_map (Some (w, Pipe_Write n))"
    using rw by (auto simp: fun_eq_iff)
  have left: "holding base (end_map x ++ end_map (Some (w, Pipe_Write n))) (fd_close (int r) fds)"
    using close_holding [OF h, of r] rw(3) unfolding m by simp
  define ch where "ch pid = pipeline_child k c (p1\<lparr>pr_pid := pid\<rparr>) (map_option fst (Some (q, int w))) (jb_pgid j)
      (\<not> background) (sh_fds s1)" for pid
  have child: "child_wired k (base[0 := in_object c (end_object x (base ! 0)), 1 := out_object c (Some (Pipe_Write n))]) c (ch pid)"
    for pid
    unfolding ch_def
    using pipeline_child_ok [OF apart, of "p1\<lparr>pr_pid := pid\<rparr>" base fds "Some q" k c "jb_pgid j" "\<not> background"] base p1 left
    by (simp add: p1_def q_def s1_def)
  define fds1 where "fds1 = (if first then fds else fd_close (pr_stdin_fd p1) fds)"
  have after: "(if first then sh_fds s1 else fd_close (pr_stdin_fd p1) (sh_fds s1)) = fds1" by (simp add: fds1_def s1_def)
  have h1: "holding base (end_map (Some (r, Pipe_Read n))) (fd_close (int w) fds1)"
  proof -
    have step: "holding base ([r \<mapsto> Pipe_Read n, w \<mapsto> Pipe_Write n]) fds1"
    proof (cases x)
      case None
      with h "3.prems"(7) show ?thesis by (simp add: fds1_def)
    next
      case (Some y)
      then obtain i obj where x: "x = Some (i, obj)" by (cases y) auto
      have "(end_map x)(r := Some (Pipe_Read n), w := Some (Pipe_Write n), i := None) = [r \<mapsto> Pipe_Read n, w \<mapsto> Pipe_Write n]"
        using rw by (auto simp: x fun_eq_iff split: if_splits)
      with close_holding [OF h, of i] x p1 "3.prems"(7) show ?thesis by (simp add: fds1_def)
    qed
    have "[r \<mapsto> Pipe_Read n, w \<mapsto> Pipe_Write n](w := None) = [r \<mapsto> Pipe_Read n]"
      using rw(3) by (auto simp: fun_eq_iff)
    with close_holding [OF step, of w] show ?thesis by simp
  qed
  have "ends_in (\<lambda>_ s2. ends_in (\<lambda>_ s'. resting s' \<and> sh_fds s' = base \<and> sh_highest s' \<le> sh_highest s + 1 \<and>
      (\<exists>new. sh_children s' = sh_children s @ new \<and>
        started k base n (end_object x (base ! 0)) (jb_pgid j) (\<not> background) (c # c' # cs) new))
      (pipeline_loop k a (c' # cs) q False s2)) (start_process k a c p1 (Some (q, int w)) first s1)"
  proof (rule ends_in_mono [OF start_process_ok [OF l1 after refl]], elim exE conjE)
    fix u s2 pid j2
    assume s2: "launching a background j2 s2" "sh_highest s2 = sh_highest s1" "sh_pipe s2 = sh_pipe s1" "pid \<noteq> -1"
      "jb_pgid j2 = (if jb_pgid j = -1 then pid else jb_pgid j)"
      "sh_fds s2 = (case Some (q, int w) of None \<Rightarrow> fds1 | Some (q, w) \<Rightarrow> fd_close w fds1)"
      "sh_children s2 = sh_children s1 @ [pipeline_child k c (p1\<lparr>pr_pid := pid\<rparr>) (map_option fst (Some (q, int w)))
        (jb_pgid j) (\<not> background) (sh_fds s1)]"
    have fds2: "sh_fds s2 = fd_close (int w) fds1" using s2(6) by simp
    have "ends_in (\<lambda>_ s'. resting s' \<and> sh_fds s' = base \<and> sh_highest s' \<le> sh_highest s2 + 1 \<and>
      (\<exists>new. sh_children s' = sh_children s2 @ new \<and>
        started k base (sh_pipe s2) (end_object (Some (r, Pipe_Read n)) (base ! 0)) (jb_pgid j2) (\<not> background) (c' # cs) new))
      (pipeline_loop k a (c' # cs) q False s2)"
    proof (rule "3.IH"(2))
      show "holding base (end_map (Some (r, Pipe_Read n))) (sh_fds s2)" unfolding fds2 by (rule h1)
    qed (use "3.prems" s2 in \<open>simp_all add: q_def default_process_def s1_def\<close>)
    then show "ends_in (\<lambda>_ s'. resting s' \<and> sh_fds s' = base \<and> sh_highest s' \<le> sh_highest s + 1 \<and>
      (\<exists>new. sh_children s' = sh_children s @ new \<and>
        started k base n (end_object x (base ! 0)) (jb_pgid j) (\<not> background) (c # c' # cs) new))
      (pipeline_loop k a (c' # cs) q False s2)"
    proof (rule ends_in_mono, elim conjE exE)
      fix st s' new
      assume r: "resting s'" "sh_fds s' = base" "sh_highest s' \<le> sh_highest s2 + 1" "sh_children s' = sh_children s2 @ new"
        "started k base (sh_pipe s2) (end_object (Some (r, Pipe_Read n)) (base ! 0)) (jb_pgid j2) (\<not> background) (c' # cs) new"
      have "started k base (n + 1) (Some (Pipe_Read n)) (jb_pgid j2) (\<not> background) (c' # cs) new"
        using r(5) s2(3) by (simp add: s1_def)
      from started_cons [OF this s2(5,4) child, of pid]
      have "started k base n (end_object x (base ! 0)) (jb_pgid j) (\<not> background) (c # c' # cs) (ch pid # new)"
        by (simp add: ch_def s2(5))
      with r(1-4) s2 show "resting s' \<and> sh_fds s' = base \<and> sh_highest s' \<le> sh_highest s + 1 \<and>
        (\<exists>new. sh_children s' = sh_children s @ new \<and>
          started k base n (end_object x (base ! 0)) (jb_pgid j) (\<not> background) (c # c' # cs) new)"
        by (auto simp: s1_def ch_def)
    qed
  qed
  then show ?case by (simp add: ends_in_and_then pipe p1_def q_def s1_def n_def)
qed simp

lemma run_pipeline_ok:
  assumes rest: "resting s" and base: "standing (sh_fds s)" and "pl_commands p \<noteq> []" and room: "sh_highest s < MAX_JOBS"
  shows "ends_in (\<lambda>_ s'. resting s' \<and> sh_fds s' = sh_fds s \<and> sh_highest s' \<le> sh_highest s + 1 \<and>
      (\<exists>new. sh_children s' = sh_children s @ new \<and>
        started k (sh_fds s) (sh_pipe s) (sh_fds s ! 0) (-1) (\<not> pl_background p) (pl_commands p) new)) (run_pipeline k p cmd s)"
proof -
  define j where "j = default_job\<lparr>jb_command := Some cmd, jb_state := (if pl_background p then JOB_BACKGROUND else JOB_NULL)\<rparr>"
  have ok: "table_ok {} {} s" and zero: "slot s 0 = None" using rest by (simp_all add: resting_def)
  obtain a s1 where new: "new_job j s = (a, s1)" by (cases "new_job j s")
  note s1 = new_job_ok [OF ok new]
  have heap: "sh_heap s1 a = Some j" "jb_id j = 0" using s1(4) by (simp_all add: j_def default_job_def)
  have zero1: "slot s1 0 = None" using s1(4) zero by simp
  have "\<exists>s2 j2. (if pl_background p then Some s1 else set_foreground_job a s1) = Some s2 \<and>
      launching a (pl_background p) j2 s2 \<and> jb_pgid j2 = -1 \<and> sh_fds s2 = sh_fds s \<and> sh_highest s2 = sh_highest s \<and>
      sh_pipe s2 = sh_pipe s \<and> sh_children s2 = sh_children s"
  proof (cases "pl_background p")
    case True
    with s1 heap zero1 show ?thesis by (auto simp: launching_def j_def default_job_def intro!: exI [of _ j])
  next
    case False
    obtain s2 where s2: "set_foreground_job a s1 = Some s2" "table_ok {} {} s2" "slot s2 = (slot s1)(0 := Some a)"
      "s2 = s1\<lparr>sh_table := (sh_table s1)[0 := Some a],
       sh_heap := (sh_heap s1)(a := Some (set_job_process_state True (j\<lparr>jb_state := JOB_FOREGROUND, jb_id := 0\<rparr>)))\<rparr>"
      by (rule set_foreground_new [OF s1(1,2) zero1 heap])
    have "launching a False (set_job_process_state True (j\<lparr>jb_state := JOB_FOREGROUND, jb_id := 0\<rparr>)) s2"
      unfolding launching_def using s2(2) by (simp add: s2(3)) (simp add: s2(4) set_job_process_state_def)
    moreover have "jb_pgid (set_job_process_state True (j\<lparr>jb_state := JOB_FOREGROUND, jb_id := 0\<rparr>)) = -1"
      by (simp add: set_job_process_state_def j_def default_job_def)
    moreover have "sh_fds s2 = sh_fds s" "sh_highest s2 = sh_highest s" "sh_pipe s2 = sh_pipe s" "sh_children s2 = sh_children s"
      by (simp_all add: s2(4) s1(4))
    ultimately show ?thesis using False s2(1) by auto
  qed
  then obtain s2 j2 where s2: "(if pl_background p then Some s1 else set_foreground_job a s1) = Some s2"
    "launching a (pl_background p) j2 s2" "jb_pgid j2 = -1" "sh_fds s2 = sh_fds s" "sh_highest s2 = sh_highest s"
    "sh_pipe s2 = sh_pipe s" "sh_children s2 = sh_children s"
    by blast
  have "holding (sh_fds s) (end_map None) (sh_fds s2)" by (simp add: s2(4))
  from pipeline_loop_ok [OF assms(3) s2(2) base this, of default_process True k] room s2(3-7) new s2(1)
  show ?thesis by (simp add: run_pipeline_def j_def default_process_def)
qed

end
