(* ===== verification/Pa2_Grammar.thy ===== *)
theory Pa2_Grammar
  imports Pa2_Parser
begin

text \<open>
  The tokens of a line fit the array of the lexer and end with the end token; the parser never leaves them
  and builds well-formed pipelines; every pipeline whose words can be quoted is the meaning of some line.
\<close>

section \<open>What the lexer returns\<close>

lemmas token_kinds = is_end_def is_pipe_def is_separator_def is_background_def is_redirection_def is_command_def
  is_argument_def is_variable_def END_TOKEN_def

lemma token_simps [simp]: "tk_type (mk_token ty d) = ty" "tk_data (mk_token ty d) = d"
  by (simp_all add: mk_token_def)

lemma is_end_END [simp]: "is_end END_TOKEN" and not_command_END [simp]: "\<not> is_command END_TOKEN"
  by (simp_all add: token_kinds)

definition sound_tokens :: "token list \<Rightarrow> bool" where
  "sound_tokens ts \<longleftrightarrow> length ts < MAX_TOKENS \<and> (\<forall>t\<in>set ts. \<not> is_end t)"

lemma sound_tokens_snoc: "sound_tokens ts \<Longrightarrow> \<not> length ts \<ge> MAX_TOKENS - 1 \<Longrightarrow> \<not> is_end t \<Longrightarrow> sound_tokens (ts @ [t])"
  by (auto simp: sound_tokens_def)

lemma lex_end_sound:
  assumes "lex_end ts = Some (r, us)" "sound_tokens ts"
  shows "ts \<noteq> [] \<and> us = ts @ [END_TOKEN] \<and> (r = 1 \<longleftrightarrow> is_pipe (last ts) \<or> is_redirection (last ts)) \<and> r \<in> {0, 1}"
  using assms by (auto simp: lex_end_def split: if_splits)

definition lexed :: "int \<Rightarrow> token list \<Rightarrow> bool" where
  "lexed r us \<longleftrightarrow> (\<exists>ts. us = ts @ [END_TOKEN] \<and> sound_tokens ts \<and> ts \<noteq> [] \<and>
     (r = 2 \<and> length ts = MAX_TOKENS - 1 \<or> r = (if is_pipe (last ts) \<or> is_redirection (last ts) then 1 else 0)))"

lemma next_token_sound:
  assumes "next_token tokens c s = Some (ts, s')"
  shows "ts = [] \<or> (\<exists>t. ts = [t] \<and> \<not> is_end t)"
  using assms by (auto simp: next_token_def is_end_def split: if_splits)

lemma lex_from_sound: "lex_from ts s = Some (r, us) \<Longrightarrow> sound_tokens ts \<Longrightarrow> lexed r us"
proof (induction ts s rule: lex_from.induct)
  case (1 ts)
  then show ?case by (auto simp: lex_end_def lexed_def split: if_splits)
next
  case (2 ts c s)
  consider (white) "white c" "c \<noteq> NL" | (full) "\<not> (white c \<and> c \<noteq> NL)" "length ts \<ge> MAX_TOKENS - 1"
    | (more) "\<not> (white c \<and> c \<noteq> NL)" "\<not> length ts \<ge> MAX_TOKENS - 1"
    by blast
  then show ?case
  proof cases
    case white
    with 2 show ?thesis by simp
  next
    case full
    with "2.prems" show ?thesis by (auto simp: lexed_def sound_tokens_def MAX_TOKENS_def)
  next
    case more
    with "2.prems"(1) obtain new s' where step: "next_token ts c s = Some (new, s')"
      and rest: "lex_from (ts @ new) s' = Some (r, us)"
      by (auto split: option.splits if_splits)
    have "sound_tokens (ts @ new)"
      using next_token_sound [OF step] sound_tokens_snoc [OF "2.prems"(2) more(2)] "2.prems"(2) by auto
    from "2.IH"(2) [OF more step refl rest this] show ?thesis .
  qed
qed

lemma lex_cmd_sound: "lex_cmd cmd = Some (r, us) \<Longrightarrow> lexed r us"
  using lex_from_sound [of "[]" cmd r us] by (simp add: lex_cmd_def sound_tokens_def MAX_TOKENS_def)

section \<open>One round of the parser\<close>

text \<open>The loop from the check of its condition on.\<close>

definition resume :: "(byte list \<Rightarrow> byte list option) \<Rightarrow> int \<Rightarrow> token list \<Rightarrow> parse_state \<Rightarrow> (int \<times> pipeline list) option" where
  "resume getenv code ts st = (if is_end (hd ts) then Some (0, parsed st) else parse_loop getenv code ts st)"

definition separating :: "token \<Rightarrow> bool" where
  "separating t \<longleftrightarrow> is_pipe t \<or> is_redirection t \<or> is_background t \<or> is_separator t \<or> is_end t"

lemma resume_end: "resume getenv code (END_TOKEN # ts) st = Some (0, parsed st)"
  by (simp add: resume_def token_kinds)

lemma resume_cons:
  assumes "\<not> is_end t" "\<not> is_redirection t"
  shows "resume getenv code (t # t' # ts) st =
     (case (if is_pipe t then next_command t' st
            else if is_background t then Some (st\<lparr>ps_background := True\<rparr>)
            else if is_separator t then Some (next_pipeline st)
            else add_argument getenv code t st) of
        None \<Rightarrow> Some (1, [])
      | Some st' \<Rightarrow> resume getenv code (t' # ts) st')"
  using assms by (simp add: resume_def split: option.split)

lemma resume_redirection:
  assumes "\<not> is_end t" "is_redirection t"
  shows "resume getenv code (t # f # t' # ts) st =
     (case redirect getenv code (tk_type t) f st of
        None \<Rightarrow> Some (1, [])
      | Some st' \<Rightarrow> resume getenv code (t' # ts) st')"
  using assms by (simp add: resume_def split: option.split)

lemma resume_redirection_end:
  assumes "\<not> is_end t" "is_redirection t" "is_end f"
  shows "resume getenv code (t # f # ts) st = Some (1, [])"
  using assms by (simp add: resume_def redirect_def token_kinds)

lemma parse_resume: "ts = [] \<or> \<not> is_end (hd ts) \<Longrightarrow> ts \<noteq> [] \<Longrightarrow> parse getenv ts code = resume getenv code ts parse_start"
  by (simp add: parse_def resume_def)

section \<open>The pipelines that come out\<close>

definition proper_command :: "nat \<Rightarrow> command \<Rightarrow> bool" where
  "proper_command n c \<longleftrightarrow> cm_args c \<noteq> [] \<and> length (cm_args c) \<le> n \<and> cm_type c \<noteq> COMMAND_NULL"

definition proper_pipeline :: "nat \<Rightarrow> pipeline \<Rightarrow> bool" where
  "proper_pipeline n p \<longleftrightarrow> pl_commands p \<noteq> [] \<and> pl_num_commands p = length (pl_commands p) \<and>
     (\<forall>c\<in>set (pl_commands p). proper_command n c)"

definition blank_pipeline :: "pipeline \<Rightarrow> bool" where
  "blank_pipeline p \<longleftrightarrow> pl_num_commands p = 0 \<and>
     (\<exists>c. pl_commands p = [c] \<and> cm_args c = [] \<and> cm_type c = COMMAND_NULL)"

text \<open>A line has at least one pipeline and only its last one can be blank.\<close>

definition proper_input :: "nat \<Rightarrow> pipeline list \<Rightarrow> bool" where
  "proper_input n ps \<longleftrightarrow> ps \<noteq> [] \<and> (\<forall>p\<in>set (butlast ps). proper_pipeline n p) \<and>
     (proper_pipeline n (last ps) \<or> blank_pipeline (last ps))"

text \<open>
  The states of the parser in front of the tokens \<open>ts\<close>: no word yet in the pipeline; inside a command; or
  behind a pipe, in front of the name of a command.
\<close>

definition parsing :: "nat \<Rightarrow> token list \<Rightarrow> parse_state \<Rightarrow> bool" where
  "parsing n ts st \<longleftrightarrow> (\<forall>p\<in>set (ps_done st). proper_pipeline n p) \<and> (\<forall>c\<in>set (ps_commands st). proper_command n c) \<and>
     length (cm_args (ps_current st)) + length ts \<le> n + 1 \<and>
     (if cm_args (ps_current st) \<noteq> [] then
        cm_type (ps_current st) \<noteq> COMMAND_NULL \<and> ps_num_commands st = Suc (length (ps_commands st))
      else ps_num_commands st = length (ps_commands st) \<and>
        (ps_commands st = [] \<and> cm_type (ps_current st) = COMMAND_NULL \<or> ps_commands st \<noteq> [] \<and> is_command (hd ts)))"

lemma parsing_current:
  assumes "parsing n ts st" "ts \<noteq> []" "cm_args (ps_current st) \<noteq> []"
  shows "proper_pipeline n (current_pipeline st)"
proof -
  have "length (cm_args (ps_current st)) \<le> n" using assms(1,2) by (cases ts) (auto simp: parsing_def)
  with assms(1,3) show ?thesis
    by (simp add: parsing_def current_pipeline_def proper_pipeline_def proper_command_def)
qed

lemma parsing_done:
  assumes "parsing n ts st" "\<not> is_command (hd ts)" "ts \<noteq> []"
  shows "proper_input n (parsed st)"
proof (cases "cm_args (ps_current st) = []")
  case True
  with assms(1,2) have "blank_pipeline (current_pipeline st)"
    by (simp add: parsing_def current_pipeline_def blank_pipeline_def)
  with assms(1) show ?thesis by (simp add: proper_input_def parsed_def parsing_def)
next
  case False
  with assms show ?thesis by (simp add: parsing_current proper_input_def parsed_def) (simp add: parsing_def)
qed

lemma parsing_next_command:
  assumes "parsing n (t # t' # ts) st" "next_command t' st = Some st'"
  shows "parsing n (t' # ts) st'"
proof -
  from assms(2) have words: "cm_args (ps_current st) \<noteq> []" and "is_command t'"
    and st': "st' = st\<lparr>ps_commands := ps_commands st @ [ps_current st], ps_current := default_command\<rparr>"
    by (simp_all add: next_command_def split: if_splits)
  from assms(1) words have "proper_command n (ps_current st)" "Suc (length ts) \<le> n"
    by (simp_all add: parsing_def proper_command_def)
  with assms(1) words \<open>is_command t'\<close> show ?thesis
    by (simp add: parsing_def st' default_command_def)
qed

lemma parsing_background:
  "parsing n (t # t' # ts) st \<Longrightarrow> is_background t \<Longrightarrow> parsing n (t' # ts) (st\<lparr>ps_background := True\<rparr>)"
  by (auto simp: parsing_def token_kinds)

lemma parsing_next_pipeline:
  assumes "parsing n (t # t' # ts) st" "is_separator t"
  shows "parsing n (t' # ts) (next_pipeline st)"
proof (cases "cm_args (ps_current st) = []")
  case True
  with assms have "next_pipeline st = st" by (auto simp: parsing_def next_pipeline_def token_kinds)
  with assms True show ?thesis by (auto simp: parsing_def token_kinds)
next
  case False
  with assms have "next_pipeline st = parse_start\<lparr>ps_done := parsed st\<rparr>"
    by (simp add: parsing_def next_pipeline_def)
  with parsing_current [OF assms(1) _ False] assms(1) show ?thesis
    by (simp add: parsing_def parse_start_def parsed_def default_command_def)
qed

lemma parsing_add_argument:
  assumes "parsing n (t # t' # ts) st" "add_argument getenv code t st = Some st'"
  shows "parsing n (t' # ts) st'"
proof (cases "cm_args (ps_current st) = []")
  case True
  define ty where "ty = (if is_builtin_command t then COMMAND_BUILTIN
    else if is_implemented_command t then COMMAND_IMPLEMENTED else COMMAND_OTHER)"
  have "ty \<noteq> COMMAND_NULL" by (simp add: ty_def)
  moreover from True assms(2) have "st' = st\<lparr>ps_num_commands := ps_num_commands st + 1,
      ps_current := (ps_current st)\<lparr>cm_args := [to_argument getenv t code], cm_type := ty\<rparr>\<rparr>"
    by (simp add: add_argument_def Let_def ty_def split: if_split_asm)
  ultimately show ?thesis using assms(1) True by (simp add: parsing_def)
next
  case False
  with assms(2) have "st' = st\<lparr>ps_current := (ps_current st)\<lparr>cm_args := cm_args (ps_current st) @ [to_argument getenv t code]\<rparr>\<rparr>"
    by (simp add: add_argument_def Let_def)
  with assms(1) False show ?thesis by (simp add: parsing_def)
qed

lemma redirect_args:
  assumes "redirect getenv code ty f st = Some st'"
  shows "ps_done st' = ps_done st" "ps_commands st' = ps_commands st" "ps_num_commands st' = ps_num_commands st"
    "cm_args (ps_current st') = cm_args (ps_current st)" "cm_type (ps_current st') = cm_type (ps_current st)"
  using assms by (auto simp: redirect_def Let_def split: if_split_asm)

lemma parsing_redirect:
  assumes "parsing n (t # f # t' # ts) st" "is_redirection t" "redirect getenv code ty f st = Some st'"
  shows "parsing n (t' # ts) st'"
proof -
  have "\<not> is_command t" using assms(2) by (auto simp: token_kinds)
  with assms(1) redirect_args [OF assms(3)] show ?thesis by (simp add: parsing_def split: if_split_asm)
qed

text \<open>The parser stays inside the tokens, and what it accepts is well formed.\<close>

definition proper_result :: "nat \<Rightarrow> (int \<times> pipeline list) option \<Rightarrow> bool" where
  "proper_result n res \<longleftrightarrow> (case res of None \<Rightarrow> False
     | Some (r, ps) \<Rightarrow> if r = 0 then proper_input n ps else r = 1 \<and> ps = [])"

lemma proper_result_simps [simp]: "proper_result n (Some (1, []))" "proper_result n (Some (0, ps)) = proper_input n ps"
  by (simp_all add: proper_result_def)

lemma resume_proper:
  assumes "parsing n (ts @ [END_TOKEN]) st" "\<forall>t\<in>set ts. \<not> is_end t"
  shows "proper_result n (resume getenv code (ts @ [END_TOKEN]) st)"
  using assms
proof (induction ts arbitrary: st rule: length_induct)
  case (1 ts)
  note ih = "1.IH" [rule_format]
  show ?case
  proof (cases ts)
    case Nil
    with parsing_done [OF "1.prems"(1)] show ?thesis by (auto simp: resume_end)
  next
    case (Cons t us)
    note t = this
    obtain t' rest where next_tokens: "us @ [END_TOKEN] = t' # rest" by (cases us) auto
    have not_end: "\<not> is_end t" "\<forall>t\<in>set us. \<not> is_end t" using "1.prems"(2) t by simp_all
    show ?thesis
    proof (cases "is_redirection t")
      case False
      define move where "move = (if is_pipe t then next_command t' st
            else if is_background t then Some (st\<lparr>ps_background := True\<rparr>)
            else if is_separator t then Some (next_pipeline st)
            else add_argument getenv code t st)"
      have "parsing n (us @ [END_TOKEN]) st'" if "move = Some st'" for st'
        using that "1.prems"(1) t next_tokens unfolding move_def
        by (auto split: if_split_asm
            intro: parsing_next_command parsing_background parsing_next_pipeline parsing_add_argument)
      then have "proper_result n (resume getenv code (t' # rest) st')" if "move = Some st'" for st'
        using that ih [of us st'] not_end t next_tokens by simp
      with resume_cons [OF not_end(1) False, of getenv code t' rest st, folded move_def] t next_tokens
      show ?thesis by (cases move) simp_all
    next
      case True
      show ?thesis
      proof (cases us)
        case Nil
        with t True not_end show ?thesis by (simp add: resume_redirection_end)
      next
        case (Cons f vs)
        obtain t'' rest' where rest: "vs @ [END_TOKEN] = t'' # rest'" by (cases vs) auto
        have "parsing n (vs @ [END_TOKEN]) st'" if "redirect getenv code (tk_type t) f st = Some st'" for st'
          using parsing_redirect [OF _ True that] "1.prems"(1) t Cons rest by auto
        then have "proper_result n (resume getenv code (t'' # rest') st')"
          if "redirect getenv code (tk_type t) f st = Some st'" for st'
          using that ih [of vs st'] not_end t Cons rest by simp
        with resume_redirection [OF not_end(1) True, of getenv code f t'' rest' st] t Cons rest
        show ?thesis by (cases "redirect getenv code (tk_type t) f st") simp_all
      qed
    qed
  qed
qed

lemma parse_proper:
  assumes "ts \<noteq> []" "\<forall>t\<in>set ts. \<not> is_end t"
  shows "proper_result (length ts) (parse getenv (ts @ [END_TOKEN]) code)"
proof -
  have "parsing (length ts) (ts @ [END_TOKEN]) parse_start"
    by (simp add: parsing_def parse_start_def default_command_def)
  from resume_proper [OF this assms(2)] assms show ?thesis by (simp add: parse_resume)
qed

section \<open>Lines that are read back\<close>

text \<open>A token as it is typed, followed by a blank: arguments stand between quotes.\<close>

definition type_token :: "token \<Rightarrow> byte list" where
  "type_token t =
     (if is_argument t then SQUOTE # tk_data t @ [SQUOTE]
      else if is_variable t then chr CHR ''$'' # tk_data t
      else tk_data t)"

definition type_line :: "token list \<Rightarrow> byte list" where
  "type_line ts = concat (map (\<lambda>t. type_token t @ [chr CHR '' '']) ts)"

text \<open>The name of a command is made of ordinary characters.\<close>

definition command_name :: "byte list \<Rightarrow> bool" where
  "command_name w \<longleftrightarrow> w \<noteq> [] \<and> (\<forall>c\<in>set w. plain c) \<and> \<not> white (hd w) \<and>
     hd w \<notin> {chr CHR ''#'', chr CHR ''$'', chr CHR ''~''}"

definition command_position :: "token list \<Rightarrow> bool" where
  "command_position ts \<longleftrightarrow> ts = [] \<or> is_pipe (last ts) \<or> is_separator (last ts)"

definition typeable :: "token list \<Rightarrow> token \<Rightarrow> bool" where
  "typeable ts t = (case tk_type t of
     TOKEN_COMMAND \<Rightarrow> command_name (tk_data t) \<and> command_position ts
   | TOKEN_ARGUMENT \<Rightarrow> SQUOTE \<notin> set (tk_data t)
   | TOKEN_VARIABLE \<Rightarrow> (\<forall>c\<in>set (tk_data t). plain c)
   | TOKEN_PIPE \<Rightarrow> tk_data t = [chr CHR ''|'']
   | TOKEN_REDIRECT_IN \<Rightarrow> tk_data t = [chr CHR ''<'']
   | TOKEN_REDIRECT_OUT \<Rightarrow> tk_data t = [chr CHR ''>'']
   | TOKEN_REDIRECT_APPEND \<Rightarrow> tk_data t = [chr CHR ''>'', chr CHR ''>'']
   | TOKEN_BACKGROUND \<Rightarrow> tk_data t = [chr CHR ''&'']
   | TOKEN_SEP \<Rightarrow> tk_data t = [chr CHR '';''] \<or> tk_data t = [NL]
   | TOKEN_END \<Rightarrow> False)"

fun typeable_from :: "token list \<Rightarrow> token list \<Rightarrow> bool" where
  "typeable_from ts [] \<longleftrightarrow> True"
| "typeable_from ts (u # us) \<longleftrightarrow> typeable ts u \<and> typeable_from (ts @ [u]) us"

lemma plain_blank [simp]: "\<not> plain 32"
  by (simp add: plain_def is_special_char_def)

lemma takeWhile_plain: "\<forall>c\<in>set w. plain c \<Longrightarrow> takeWhile plain (w @ 32 # s) = w"
  and dropWhile_plain: "\<forall>c\<in>set w. plain c \<Longrightarrow> dropWhile plain (w @ 32 # s) = 32 # s"
  by (simp_all add: takeWhile_append2 dropWhile_append2)

lemma until_quote:
  assumes "q \<notin> set w"
  shows "takeWhile (\<lambda>x. x \<noteq> q) (w @ q # s) = w" "drop 1 (dropWhile (\<lambda>x. x \<noteq> q) (w @ q # s)) = s"
proof -
  have "\<forall>x\<in>set w. x \<noteq> q" using assms by auto
  then show "takeWhile (\<lambda>x. x \<noteq> q) (w @ q # s) = w" "drop 1 (dropWhile (\<lambda>x. x \<noteq> q) (w @ q # s)) = s"
    by (simp_all add: takeWhile_append2 dropWhile_append2)
qed

text \<open>One token.\<close>

lemma type_token_next:
  assumes "typeable ts t"
  obtains c s' where "type_token t @ 32 # s = c # s'" "\<not> (white c \<and> c \<noteq> NL)"
    "next_token ts c s' = Some ([t], 32 # s)"
proof -
  have eq: "u = t" if "tk_type u = tk_type t" "tk_data u = tk_data t" for u using that by simp
  show ?thesis
  proof (cases "tk_type t")
    case TOKEN_COMMAND
    with assms obtain c w where data: "tk_data t = c # w" and c: "plain c" "\<not> white c" "c \<notin> {35, 36, 126}"
      and w: "\<forall>c\<in>set w. plain c" and pos: "command_position ts"
      by (cases "tk_data t") (auto simp: typeable_def command_name_def)
    have "next_token ts c (w @ 32 # s) = Some ([mk_token TOKEN_COMMAND (c # w)], 32 # s)"
      using c pos w
      by (simp add: next_token_def takeWhile_plain dropWhile_plain command_position_def plain_def is_special_char_def)
    moreover have "mk_token TOKEN_COMMAND (c # w) = t" by (rule eq) (simp_all add: TOKEN_COMMAND data)
    ultimately show ?thesis
      using TOKEN_COMMAND c data by (intro that [of c "w @ 32 # s"]) (simp_all add: type_token_def token_kinds)
  next
    case TOKEN_ARGUMENT
    with assms have q: "SQUOTE \<notin> set (tk_data t)" by (simp add: typeable_def)
    have "next_token ts SQUOTE (tk_data t @ SQUOTE # 32 # s) = Some ([mk_token TOKEN_ARGUMENT (tk_data t)], 32 # s)"
      using until_quote [OF q, of "32 # s"] by (simp add: next_token_def SQUOTE_def NL_def DQUOTE_def)
    moreover have "mk_token TOKEN_ARGUMENT (tk_data t) = t" by (rule eq) (simp_all add: TOKEN_ARGUMENT)
    ultimately show ?thesis
      using TOKEN_ARGUMENT
      by (intro that [of SQUOTE "tk_data t @ SQUOTE # 32 # s"]) (simp_all add: type_token_def token_kinds SQUOTE_def white_def)
  next
    case TOKEN_VARIABLE
    with assms have w: "\<forall>c\<in>set (tk_data t). plain c" by (simp add: typeable_def)
    have "mk_token TOKEN_VARIABLE (tk_data t) = t" by (rule eq) (simp_all add: TOKEN_VARIABLE)
    with TOKEN_VARIABLE w show ?thesis
      by (intro that [of 36 "tk_data t @ 32 # s"])
        (simp_all add: type_token_def token_kinds white_def next_token_def takeWhile_plain dropWhile_plain)
  qed (use assms in \<open>auto simp: typeable_def type_token_def token_kinds next_token_def white_def NL_def SQUOTE_def
      DQUOTE_def intro!: that eq\<close>)
qed

text \<open>A line of tokens is read back token by token.\<close>

lemma lex_from_typed:
  "typeable_from ts us \<Longrightarrow> length ts + length us < MAX_TOKENS \<Longrightarrow> lex_from ts (type_line us) = lex_end (ts @ us)"
proof (induction us arbitrary: ts)
  case Nil
  then show ?case by (simp add: type_line_def)
next
  case (Cons u us)
  from Cons.prems(1) obtain c s' where char: "type_token u @ 32 # type_line us = c # s'"
    "\<not> (white c \<and> c \<noteq> NL)" "next_token ts c s' = Some ([u], 32 # type_line us)"
    using type_token_next [of ts u "type_line us"] by auto
  have "type_line (u # us) = c # s'" using char(1) by (simp add: type_line_def)
  with char(2,3) Cons.prems(2) have "lex_from ts (type_line (u # us)) = lex_from (ts @ [u]) (32 # type_line us)"
    by (auto simp: MAX_TOKENS_def)
  also have "\<dots> = lex_from (ts @ [u]) (type_line us)" by (simp add: white_def NL_def)
  also have "\<dots> = lex_end (ts @ u # us)" using Cons.IH [of "ts @ [u]"] Cons.prems by simp
  finally show ?case .
qed

section \<open>Pipelines that are read back\<close>

definition command_tokens :: "command \<Rightarrow> token list" where
  "command_tokens c = mk_token TOKEN_COMMAND (hd (cm_args c)) # map (mk_token TOKEN_ARGUMENT) (tl (cm_args c)) @
     (case cm_stdin c of None \<Rightarrow> []
      | Some f \<Rightarrow> [mk_token TOKEN_REDIRECT_IN [chr CHR ''<''], mk_token TOKEN_ARGUMENT f]) @
     (case cm_stdout c of None \<Rightarrow> []
      | Some f \<Rightarrow> [if cm_append c then mk_token TOKEN_REDIRECT_APPEND [chr CHR ''>'', chr CHR ''>'']
                  else mk_token TOKEN_REDIRECT_OUT [chr CHR ''>''], mk_token TOKEN_ARGUMENT f])"

fun commands_tokens :: "command list \<Rightarrow> token list" where
  "commands_tokens [] = []"
| "commands_tokens [c] = command_tokens c"
| "commands_tokens (c # cs) = command_tokens c @ mk_token TOKEN_PIPE [chr CHR ''|''] # commands_tokens cs"

definition pipeline_tokens :: "pipeline \<Rightarrow> token list" where
  "pipeline_tokens p = commands_tokens (pl_commands p) @
     (if pl_background p then [mk_token TOKEN_BACKGROUND [chr CHR ''&'']] else [])"

fun input_tokens :: "pipeline list \<Rightarrow> token list" where
  "input_tokens [] = []"
| "input_tokens [p] = pipeline_tokens p"
| "input_tokens (p # ps) = pipeline_tokens p @ mk_token TOKEN_SEP [chr CHR '';''] # input_tokens ps"

definition command_class :: "byte list \<Rightarrow> CommandType" where
  "command_class w =
     (if is_builtin_command (mk_token TOKEN_COMMAND w) then COMMAND_BUILTIN
      else if is_implemented_command (mk_token TOKEN_COMMAND w) then COMMAND_IMPLEMENTED else COMMAND_OTHER)"

text \<open>The commands that can be typed.\<close>

definition quotable :: "byte list \<Rightarrow> bool" where
  "quotable w \<longleftrightarrow> SQUOTE \<notin> set w \<and> 0 \<notin> set w"

definition plain_command :: "command \<Rightarrow> bool" where
  "plain_command c \<longleftrightarrow> cm_args c \<noteq> [] \<and> command_name (hd (cm_args c)) \<and> (\<forall>w\<in>set (tl (cm_args c)). quotable w) \<and>
     (\<forall>f. cm_stdin c = Some f \<longrightarrow> quotable f) \<and> (\<forall>f. cm_stdout c = Some f \<longrightarrow> quotable f) \<and>
     (cm_append c \<longrightarrow> cm_stdout c \<noteq> None) \<and> cm_type c = command_class (hd (cm_args c))"

definition plain_pipeline :: "pipeline \<Rightarrow> bool" where
  "plain_pipeline p \<longleftrightarrow> pl_commands p \<noteq> [] \<and> pl_num_commands p = length (pl_commands p) \<and>
     (\<forall>c\<in>set (pl_commands p). plain_command c)"

subsection \<open>The lexer on the typed tokens\<close>

lemma typeable_from_append: "typeable_from ts (us @ vs) \<longleftrightarrow> typeable_from ts us \<and> typeable_from (ts @ us) vs"
  by (induction us arbitrary: ts) auto

lemma typeable_arguments: "\<forall>w\<in>set ws. quotable w \<Longrightarrow> typeable_from ts (map (mk_token TOKEN_ARGUMENT) ws)"
  by (induction ws arbitrary: ts) (auto simp: typeable_def quotable_def)

lemma typeable_command: "plain_command c \<Longrightarrow> command_position ts \<Longrightarrow> typeable_from ts (command_tokens c)"
  by (auto simp: plain_command_def command_tokens_def typeable_from_append typeable_arguments typeable_def quotable_def
      split: option.split)

lemma typeable_commands:
  "\<forall>c\<in>set cs. plain_command c \<Longrightarrow> command_position ts \<Longrightarrow> typeable_from ts (commands_tokens cs)"
  by (induction cs arbitrary: ts rule: commands_tokens.induct)
    (auto simp: typeable_from_append typeable_command typeable_def command_position_def token_kinds)

lemma typeable_pipeline: "plain_pipeline p \<Longrightarrow> command_position ts \<Longrightarrow> typeable_from ts (pipeline_tokens p)"
  by (auto simp: plain_pipeline_def pipeline_tokens_def typeable_from_append typeable_commands typeable_def)

lemma typeable_input:
  "\<forall>p\<in>set ps. plain_pipeline p \<Longrightarrow> command_position ts \<Longrightarrow> typeable_from ts (input_tokens ps)"
  by (induction ps arbitrary: ts rule: input_tokens.induct)
    (auto simp: typeable_from_append typeable_pipeline typeable_def command_position_def token_kinds)

subsection \<open>The parser on the typed tokens\<close>

lemma resume_arguments:
  assumes "rest \<noteq> []" "cm_args (ps_current st) \<noteq> []"
  shows "resume getenv code (map (mk_token TOKEN_ARGUMENT) ws @ rest) st =
    resume getenv code rest (st\<lparr>ps_current := (ps_current st)\<lparr>cm_args := cm_args (ps_current st) @ ws\<rparr>\<rparr>)"
  using assms(2)
proof (induction ws arbitrary: st)
  case Nil
  then show ?case by simp
next
  case (Cons w ws)
  obtain t ts where rest: "map (mk_token TOKEN_ARGUMENT) ws @ rest = t # ts"
    using assms(1) by (cases "map (mk_token TOKEN_ARGUMENT) ws @ rest") auto
  show ?case
    using Cons.IH [of "st\<lparr>ps_current := (ps_current st)\<lparr>cm_args := cm_args (ps_current st) @ [w]\<rparr>\<rparr>"] Cons.prems
    by (simp add: rest resume_cons token_kinds add_argument_def to_argument_def Let_def)
qed

lemma resume_file:
  assumes "rest \<noteq> []" "ty \<in> {TOKEN_REDIRECT_IN, TOKEN_REDIRECT_OUT, TOKEN_REDIRECT_APPEND}"
  shows "resume getenv code (mk_token ty d # mk_token TOKEN_ARGUMENT f # rest) st =
    resume getenv code rest (st\<lparr>ps_current :=
      (if ty = TOKEN_REDIRECT_IN then (ps_current st)\<lparr>cm_stdin := Some f\<rparr>
       else if ty = TOKEN_REDIRECT_APPEND then (ps_current st)\<lparr>cm_append := True, cm_stdout := Some f\<rparr>
       else (ps_current st)\<lparr>cm_stdout := Some f\<rparr>)\<rparr>)"
proof -
  obtain t ts where "rest = t # ts" using assms(1) by (cases rest) auto
  then show ?thesis
    using assms(2) by (elim insertE) (simp_all add: resume_redirection token_kinds redirect_def to_argument_def Let_def)
qed

lemma resume_name:
  assumes "rest \<noteq> []" "ps_current st = default_command"
  shows "resume getenv code (mk_token TOKEN_COMMAND w # rest) st =
    resume getenv code rest (st\<lparr>ps_num_commands := ps_num_commands st + 1,
      ps_current := default_command\<lparr>cm_args := [w], cm_type := command_class w\<rparr>\<rparr>)"
proof -
  obtain t ts where "rest = t # ts" using assms(1) by (cases rest) auto
  then show ?thesis
    using assms(2)
    by (simp add: resume_cons token_kinds add_argument_def to_argument_def Let_def default_command_def command_class_def)
qed

lemma resume_command:
  assumes "rest \<noteq> []" "ps_current st = default_command" "plain_command c"
  shows "resume getenv code (command_tokens c @ rest) st =
    resume getenv code rest (st\<lparr>ps_num_commands := ps_num_commands st + 1, ps_current := c\<rparr>)"
proof -
  obtain w ws where words: "cm_args c = w # ws" using assms(3) by (cases "cm_args c") (auto simp: plain_command_def)
  have kind: "cm_type c = command_class w" using assms(3) words by (simp add: plain_command_def)
  have no_append: "cm_stdout c = None \<Longrightarrow> \<not> cm_append c" using assms(3) by (simp add: plain_command_def)
  define named where "named = st\<lparr>ps_num_commands := ps_num_commands st + 1,
      ps_current := default_command\<lparr>cm_args := w # ws, cm_type := command_class w\<rparr>\<rparr>"
  define files where "files = (case cm_stdin c of None \<Rightarrow> []
      | Some f \<Rightarrow> [mk_token TOKEN_REDIRECT_IN [chr CHR ''<''], mk_token TOKEN_ARGUMENT f]) @
     (case cm_stdout c of None \<Rightarrow> []
      | Some f \<Rightarrow> [if cm_append c then mk_token TOKEN_REDIRECT_APPEND [chr CHR ''>'', chr CHR ''>'']
                  else mk_token TOKEN_REDIRECT_OUT [chr CHR ''>''], mk_token TOKEN_ARGUMENT f])"
  have tokens: "command_tokens c = mk_token TOKEN_COMMAND w # map (mk_token TOKEN_ARGUMENT) ws @ files"
    by (simp add: command_tokens_def words files_def)
  have "resume getenv code (command_tokens c @ rest) st = resume getenv code (files @ rest) named"
    using assms(1,2) by (simp add: tokens resume_name resume_arguments named_def default_command_def)
  also have "\<dots> = resume getenv code rest (st\<lparr>ps_num_commands := ps_num_commands st + 1, ps_current := c\<rparr>)"
    using assms(1) no_append words kind
    by (cases c; cases "cm_stdin c"; cases "cm_stdout c"; cases "cm_append c")
      (simp_all add: files_def resume_file named_def default_command_def)
  finally show ?thesis .
qed

lemma resume_pipe:
  assumes "cm_args (ps_current st) \<noteq> []" "is_command t"
  shows "resume getenv code (mk_token TOKEN_PIPE d # t # ts) st = resume getenv code (t # ts)
    (st\<lparr>ps_commands := ps_commands st @ [ps_current st], ps_current := default_command\<rparr>)"
  using assms by (simp add: resume_cons token_kinds next_command_def)

lemma commands_tokens_hd: "cs \<noteq> [] \<Longrightarrow> \<exists>w ts. commands_tokens cs = mk_token TOKEN_COMMAND w # ts"
  by (induction cs rule: commands_tokens.induct) (auto simp: command_tokens_def)

lemma resume_commands:
  assumes "rest \<noteq> []" "cs \<noteq> []" "\<forall>c\<in>set cs. plain_command c" "ps_current st = default_command"
  shows "resume getenv code (commands_tokens cs @ rest) st =
    resume getenv code rest (st\<lparr>ps_num_commands := ps_num_commands st + length cs,
      ps_commands := ps_commands st @ butlast cs, ps_current := List.last cs\<rparr>)"
  using assms(2-)
proof (induction cs arbitrary: st rule: commands_tokens.induct)
  case (2 c)
  then show ?case using assms(1) by (simp add: resume_command)
next
  case (3 c c' cs)
  obtain w ts where hd: "commands_tokens (c' # cs) = mk_token TOKEN_COMMAND w # ts"
    using commands_tokens_hd [of "c' # cs"] by auto
  define st1 where "st1 = st\<lparr>ps_num_commands := ps_num_commands st + 1, ps_current := c\<rparr>"
  define st2 where "st2 = st1\<lparr>ps_commands := ps_commands st1 @ [ps_current st1], ps_current := default_command\<rparr>"
  have "resume getenv code (commands_tokens (c # c' # cs) @ rest) st =
      resume getenv code (mk_token TOKEN_PIPE [chr CHR ''|''] # commands_tokens (c' # cs) @ rest) st1"
    using "3.prems" by (simp add: resume_command st1_def)
  also have "\<dots> = resume getenv code (commands_tokens (c' # cs) @ rest) st2"
    using "3.prems" unfolding hd st2_def by (simp add: resume_pipe st1_def token_kinds plain_command_def)
  also have "\<dots> = resume getenv code rest (st2\<lparr>ps_num_commands := ps_num_commands st2 + length (c' # cs),
      ps_commands := ps_commands st2 @ butlast (c' # cs), ps_current := List.last (c' # cs)\<rparr>)"
    using "3.prems" by (intro "3.IH") (simp_all add: st2_def)
  finally show ?case by (simp add: st1_def st2_def)
qed simp

text \<open>The state behind a pipeline: the pipeline is the current one.\<close>

definition at_pipeline :: "pipeline list \<Rightarrow> pipeline \<Rightarrow> parse_state" where
  "at_pipeline qs p = \<lparr>ps_done = qs, ps_background = pl_background p, ps_num_commands = pl_num_commands p,
     ps_commands = butlast (pl_commands p), ps_current = List.last (pl_commands p)\<rparr>"

lemma parsed_at_pipeline: "plain_pipeline p \<Longrightarrow> parsed (at_pipeline qs p) = qs @ [p]"
  by (cases p) (simp add: parsed_def at_pipeline_def current_pipeline_def plain_pipeline_def)

lemma resume_pipeline:
  assumes "rest \<noteq> []" "plain_pipeline p"
  shows "resume getenv code (pipeline_tokens p @ rest) (parse_start\<lparr>ps_done := qs\<rparr>) =
    resume getenv code rest (at_pipeline qs p)"
proof -
  obtain t ts where rest: "rest = t # ts" using assms(1) by (cases rest) auto
  have background: "resume getenv code (mk_token TOKEN_BACKGROUND d # rest) st = resume getenv code rest (st\<lparr>ps_background := True\<rparr>)"
    for d st by (simp add: rest resume_cons token_kinds)
  show ?thesis
    using assms
    by (simp add: pipeline_tokens_def plain_pipeline_def resume_commands parse_start_def background at_pipeline_def)
qed

lemma resume_input:
  assumes "ps \<noteq> []" "\<forall>p\<in>set ps. plain_pipeline p"
  shows "resume getenv code (input_tokens ps @ [END_TOKEN]) (parse_start\<lparr>ps_done := qs\<rparr>) = Some (0, qs @ ps)"
  using assms
proof (induction ps arbitrary: qs rule: input_tokens.induct)
  case (2 p)
  then show ?case by (simp add: resume_pipeline resume_end parsed_at_pipeline)
next
  case (3 p p' ps)
  obtain t ts where rest: "input_tokens (p' # ps) @ [END_TOKEN] = t # ts"
    by (cases "input_tokens (p' # ps) @ [END_TOKEN]") auto
  have "plain_command (List.last (pl_commands p))" and "pl_num_commands p \<noteq> 0"
    using "3.prems"(2) by (auto simp: plain_pipeline_def)
  then have "next_pipeline (at_pipeline qs p) = parse_start\<lparr>ps_done := parsed (at_pipeline qs p)\<rparr>"
    by (simp add: next_pipeline_def at_pipeline_def plain_command_def)
  then have "resume getenv code (mk_token TOKEN_SEP [chr CHR '';''] # input_tokens (p' # ps) @ [END_TOKEN]) (at_pipeline qs p) =
      resume getenv code (input_tokens (p' # ps) @ [END_TOKEN]) (parse_start\<lparr>ps_done := qs @ [p]\<rparr>)"
    using "3.prems" unfolding rest by (simp add: resume_cons token_kinds parsed_at_pipeline)
  with "3.IH" [of "qs @ [p]"] "3.prems" show ?case by (simp add: resume_pipeline)
qed simp

text \<open>The line of some pipelines, and the pipelines of the line.\<close>

definition type_input :: "pipeline list \<Rightarrow> byte list" where
  "type_input ps = type_line (input_tokens ps)"

lemma input_tokens_nonempty: "ps \<noteq> [] \<Longrightarrow> \<forall>p\<in>set ps. plain_pipeline p \<Longrightarrow>
    \<exists>w ts. input_tokens ps = mk_token TOKEN_COMMAND w # ts"
  by (induction ps rule: input_tokens.induct)
    (auto simp: pipeline_tokens_def plain_pipeline_def dest!: commands_tokens_hd)

lemma command_tokens_last: "\<not> is_pipe (last (command_tokens c))" "\<not> is_redirection (last (command_tokens c))"
  by (simp_all add: command_tokens_def token_kinds last_map split: option.split)

lemma commands_tokens_last:
  "cs \<noteq> [] \<Longrightarrow> \<not> is_pipe (last (commands_tokens cs)) \<and> \<not> is_redirection (last (commands_tokens cs))"
proof (induction cs rule: commands_tokens.induct)
  case (3 c c' cs)
  obtain w ts where "commands_tokens (c' # cs) = mk_token TOKEN_COMMAND w # ts"
    using commands_tokens_hd [of "c' # cs"] by auto
  with 3 show ?case by simp
qed (simp_all add: command_tokens_last)

lemma input_tokens_last:
  "ps \<noteq> [] \<Longrightarrow> \<forall>p\<in>set ps. plain_pipeline p \<Longrightarrow>
    \<not> is_pipe (last (input_tokens ps)) \<and> \<not> is_redirection (last (input_tokens ps))"
proof (induction ps rule: input_tokens.induct)
  case (2 p)
  then have "pl_commands p \<noteq> []" by (simp add: plain_pipeline_def)
  with commands_tokens_last [OF this] commands_tokens_hd [OF this] show ?case
    by (auto simp: pipeline_tokens_def token_kinds)
next
  case (3 p p' ps)
  obtain w ts where "input_tokens (p' # ps) = mk_token TOKEN_COMMAND w # ts"
    using input_tokens_nonempty [of "p' # ps"] "3.prems"(2) by auto
  with 3 show ?case by simp
qed simp

lemma lex_type_input:
  assumes "ps \<noteq> []" "\<forall>p\<in>set ps. plain_pipeline p" "length (input_tokens ps) < MAX_TOKENS"
  shows "lex_cmd (type_input ps) = Some (0, input_tokens ps @ [END_TOKEN])"
proof -
  have "typeable_from [] (input_tokens ps)" using assms(2) by (simp add: typeable_input command_position_def)
  then have "lex_cmd (type_input ps) = lex_end (input_tokens ps)"
    using lex_from_typed [of "[]" "input_tokens ps"] assms(3) by (simp add: lex_cmd_def type_input_def)
  with input_tokens_last [OF assms(1,2)] input_tokens_nonempty [OF assms(1,2)] show ?thesis
    by (auto simp: lex_end_def)
qed

lemma parse_type_input:
  assumes "ps \<noteq> []" "\<forall>p\<in>set ps. plain_pipeline p"
  shows "parse getenv (input_tokens ps @ [END_TOKEN]) code = Some (0, ps)"
proof -
  have start: "parse_start\<lparr>ps_done := []\<rparr> = parse_start" by (simp add: parse_start_def)
  from input_tokens_nonempty [OF assms] have "parse getenv (input_tokens ps @ [END_TOKEN]) code =
      resume getenv code (input_tokens ps @ [END_TOKEN]) parse_start"
    by (auto simp: parse_resume token_kinds)
  with resume_input [OF assms, of getenv code "[]"] show ?thesis by (simp add: start)
qed

text \<open>A status fits the buffer for it.\<close>

lemma length_show_nat: "n < 10 ^ k \<Longrightarrow> 0 < k \<Longrightarrow> length (show_nat n) \<le> k"
proof (induction n arbitrary: k rule: show_nat.induct)
  case (1 n)
  show ?case
  proof (cases "n < 10")
    case True
    then show ?thesis using "1.prems" by (simp add: Suc_leI show_nat.simps [of n])
  next
    case False
    then obtain j where k: "k = Suc j" and j: "0 < j" using "1.prems" by (cases k; cases "k - 1") auto
    have "n div 10 < 10 ^ j" using "1.prems"(1) k by (simp add: less_mult_imp_div_less mult.commute)
    from "1.IH" [OF False this j] False k show ?thesis by (simp add: show_nat.simps [of n])
  qed
qed

lemma show_status_fits:
  assumes "- (2 ^ 31) \<le> i" "i < 2 ^ 31"
  shows "length (show_status i) < max_digits"
proof -
  have "nat \<bar>i\<bar> < 10 ^ 10" using assms by simp
  from length_show_nat [OF this] show ?thesis by (cases "i < 0") (simp_all add: show_status_def max_digits_def)
qed

end
