(* ===== verification/Pa2_Evaluate.thy ===== *)
theory Pa2_Evaluate
  imports Pa2_Pipes Pa2_Grammar
begin

text \<open>
  A line of commands: the table of jobs and the descriptors of the shell are in order again behind every
  pipeline. A built-in command whose output file cannot be opened leaves its input file open.
\<close>

section \<open>The descriptors of a built-in command\<close>

lemma open_holding_any:
  assumes "holding base m fds" "open_fd obj fds = Some (i, fds')"
  shows "holding base (m(i := Some obj)) fds'" "m i = None" "i \<in> vacant base"
proof -
  from assms(2) have i: "lowest_free fds = Some i" "fds' = fds[i := Some obj]" by (auto simp: open_fd_def)
  from lowest_free_Some [OF i(1)] assms(1) show none: "m i = None" "i \<in> vacant base"
    by (auto simp: holding_def vacant_def split: if_splits)
  from assms(1) none i(2) lowest_free_Some [OF i(1)] show "holding base (m(i := Some obj)) fds'"
    by (auto simp: holding_def nth_list_update)
qed

text \<open>With or without a failure, at most the input file is on top of the table.\<close>

definition one_more :: "fds \<Rightarrow> fds \<Rightarrow> bool" where
  "one_more base fds \<longleftrightarrow> (\<exists>x. holding base (end_map x) fds)"

lemma one_more_base [simp]: "one_more base base"
  unfolding one_more_def by (rule exI [of _ None]) simp

lemma builtin_redirection:
  assumes base: "1 < length base" "base ! 0 \<noteq> None" "base ! 1 \<noteq> None"
    and r: "redirected k c base = (status, p, fds)"
  shows "one_more base fds \<or> (\<exists>i obj. fds = base[0 := i, 1 := obj] \<and> i \<noteq> None \<and> obj \<noteq> None)"
proof (cases "redirect_stdin k c default_process base")
  case None
  with r show ?thesis by (auto simp: redirected_def setup_redirection_def)
next
  case (Some a)
  then obtain p1 fds1 where 1: "redirect_stdin k c default_process base = Some (p1, fds1)" by (cases a) auto
  have "\<exists>x. holding base (end_map x) fds1 \<and> pr_stdin_fd p1 = end_fd x \<and> pr_stdout_fd p1 = -1"
  proof (cases "cm_stdin c")
    case None
    with 1 show ?thesis by (intro exI [of _ None]) (auto simp: redirect_stdin_def default_process_def)
  next
    case (Some f)
    with 1 obtain i where "open_fd (Read_File f) base = Some (i, fds1)" "p1 = default_process\<lparr>pr_stdin_fd := int i\<rparr>"
      by (auto simp: redirect_stdin_def bind_eq_Some_conv default_process_def split: if_splits)
    with open_holding_any [OF holding_base this(1)] show ?thesis
      by (intro exI [of _ "Some (i, Read_File f)"]) (simp add: default_process_def)
  qed
  then obtain x where x: "holding base (end_map x) fds1" "pr_stdin_fd p1 = end_fd x" "pr_stdout_fd p1 = -1" by blast
  show ?thesis
  proof (cases "redirect_stdout k c p1 fds1")
    case None
    with r 1 x(1) show ?thesis by (auto simp: redirected_def setup_redirection_def one_more_def)
  next
    case (Some b)
    then obtain p2 fds2 where 2: "redirect_stdout k c p1 fds1 = Some (p2, fds2)" by (cases b) auto
    have "\<exists>y. holding base (end_map x ++ end_map y) fds2 \<and> pr_stdin_fd p2 = end_fd x \<and> pr_stdout_fd p2 = end_fd y \<and> apart x y"
    proof (cases "cm_stdout c")
      case None
      with 2 x show ?thesis by (intro exI [of _ None]) (auto simp: redirect_stdout_def apart_def)
    next
      case (Some f)
      with 2 x(3) obtain i where i: "open_fd (Write_File f (cm_append c)) fds1 = Some (i, fds2)" "p2 = p1\<lparr>pr_stdout_fd := int i\<rparr>"
        by (auto simp: redirect_stdout_def bind_eq_Some_conv split: if_splits)
      note opened = open_holding_any [OF x(1) i(1)]
      define y where "y = Some (i, Write_File f (cm_append c))"
      have "(end_map x)(i := Some (Write_File f (cm_append c))) = end_map x ++ end_map y"
        by (auto simp: fun_eq_iff map_add_def y_def)
      then have "holding base (end_map x ++ end_map y) fds2" using opened(1) by (simp only:)
      moreover have "apart x y" using opened(2) by (auto simp: apart_def y_def)
      moreover have "pr_stdin_fd p2 = end_fd x" "pr_stdout_fd p2 = end_fd y" using x(2) i(2) by (simp_all add: y_def)
      ultimately show ?thesis by blast
    qed
    then obtain y where y: "holding base (end_map x ++ end_map y) fds2" "pr_stdin_fd p2 = end_fd x"
      "pr_stdout_fd p2 = end_fd y" "apart x y" by blast
    obtain p3 where "dup2_stdio p2 fds2 = (0, p3, base[0 := end_object x (base ! 0), 1 := end_object y (base ! 1)])"
      by (rule dup2_stdio_ok [OF y(1,4,2,3) base])
    moreover have "end_object z obj \<noteq> None" if "obj \<noteq> None" for z obj using that by (cases z) auto
    ultimately have "fds = base[0 := end_object x (base ! 0), 1 := end_object y (base ! 1)]" "end_object x (base ! 0) \<noteq> None"
      "end_object y (base ! 1) \<noteq> None"
      using r 1 2 base(2,3) by (simp_all add: redirected_def setup_redirection_def del: not_None_eq)
    then show ?thesis by blast
  qed
qed

lemma holding_trans: "holding base m fds \<Longrightarrow> holding fds m' fds' \<Longrightarrow> holding base (m ++ m') fds'"
proof -
  assume 1: "holding base m fds" and 2: "holding fds m' fds'"
  have "vacant fds \<subseteq> vacant base" using 1 by (auto simp: holding_def vacant_def split: if_splits)
  with 1 2 have "dom (m ++ m') \<subseteq> vacant base" by (auto simp: holding_def)
  with 1 2 show ?thesis by (auto simp: holding_def map_add_def split: option.split)
qed

lemma vacant_far:
  assumes "n \<in> vacant base" "base ! 0 \<noteq> None" "base ! 1 \<noteq> None"
  shows "n \<noteq> 0" "n \<noteq> 1" "n < length base"
  using assms by (cases "n = 0"; cases "n = 1"; simp add: vacant_def)+

lemma holding_entry: "holding base m fds \<Longrightarrow> i < length base \<Longrightarrow> base ! i \<noteq> None \<Longrightarrow> fds ! i = base ! i"
  by (auto simp: holding_def vacant_def)

lemma backup_cases:
  assumes "holding base m fds" "n < length base" "base ! n \<noteq> None"
  obtains "backup (int n) fds = (None, fds)"
  | i fds' where "backup (int n) fds = (Some (int i), fds')" "holding base (m(i := base ! n)) fds'" "m i = None" "i \<in> vacant base"
proof (cases "open_fd (the (base ! n)) fds")
  case None
  with assms that(1) holding_entry [OF assms] show ?thesis
    by (auto simp: backup_def dup_fd_def fd_entry_def holding_def)
next
  case (Some a)
  then obtain i fds' where i: "open_fd (the (base ! n)) fds = Some (i, fds')" by (cases a) auto
  note opened = open_holding_any [OF assms(1) i]
  have "backup (int n) fds = (Some (int i), fds')"
    using i assms holding_entry [OF assms] by (auto simp: backup_def dup_fd_def fd_entry_def holding_def)
  with that(2) opened assms(3) show ?thesis by auto
qed

text \<open>The copies put the standard descriptors back.\<close>

lemma restore_ok:
  assumes base: "1 < length base" "base ! 0 = Some o0" "base ! 1 = Some o1"
    and i: "i \<in> vacant base'" "j \<in> vacant base'" "base ! i = Some o0" "base ! j = Some o1" "1 < length base'"
      "length base = length base'" "base' ! 0 \<noteq> None" "base' ! 1 \<noteq> None"
    and fds: "one_more base fds \<or> (\<exists>x y. fds = base[0 := x, 1 := y] \<and> x \<noteq> None \<and> y \<noteq> None)"
  shows "one_more base (snd (restore_stdio (Some (int i)) (Some (int j)) st fds))"
proof -
  note far = vacant_far [OF i(1,7,8)] vacant_far [OF i(2,7,8)]
  from fds have entries: "fds ! i = Some o0" "fds ! j = Some o1" "length fds = length base"
    using far i(3,4,6) holding_entry [of base _ fds i] holding_entry [of base _ fds j]
    by (auto simp: one_more_def holding_def)
  have result: "snd (restore_stdio (Some (int i)) (Some (int j)) st fds) = fds[0 := Some o0, 1 := Some o1]"
    using entries far i(6) by (simp add: restore_stdio_def dup2_fd_def fd_entry_def)
  from fds show ?thesis
  proof
    assume "one_more base fds"
    then obtain x where x: "holding base (end_map x) fds" by (auto simp: one_more_def)
    have "fds ! 0 = Some o0" "fds ! 1 = Some o1"
      using holding_entry [OF x, of 0] holding_entry [OF x, of 1] base by (cases base; auto)+
    then have "fds[0 := Some o0, 1 := Some o1] = fds" by (metis list_update_id)
    with x result show ?thesis by (auto simp: one_more_def)
  next
    assume "\<exists>x y. fds = base[0 := x, 1 := y] \<and> x \<noteq> None \<and> y \<noteq> None"
    then obtain x y where "fds = base[0 := x, 1 := y]" by blast
    then have "fds[0 := Some o0, 1 := Some o1] = base[0 := Some o0, 1 := Some o1]"
      by (simp add: list_update_swap)
    also have "\<dots> = base" using base(2,3) by (metis list_update_id)
    finally show ?thesis using result by simp
  qed
qed

lemma builtin_fds_ok:
  assumes base: "1 < length base" "base ! 0 \<noteq> None" "base ! 1 \<noteq> None"
  shows "one_more base (builtin_fds k c base)"
proof -
  have len: "0 < length base" using base(1) by (cases base) simp_all
  obtain o0 o1 where o: "base ! 0 = Some o0" "base ! 1 = Some o1" using base by auto
  show ?thesis
  proof (rule backup_cases [OF holding_base len base(2)], goal_cases)
    case 1
    show ?thesis
    proof (rule backup_cases [OF holding_base base(1,3)], goal_cases)
      case 1
      with \<open>backup (int 0) base = (None, base)\<close> show ?thesis by (simp add: builtin_fds_def close_backup_def)
    next
      case (2 j fds2)
      then have "holding base Map.empty (fd_close (int j) fds2)"
        using close_holding [OF 2(2), of j] o by simp
      from holding_empty [OF this] 1 2(1) show ?thesis by (simp add: builtin_fds_def close_backup_def)
    qed
  next
    case (2 i fds1)
    show ?thesis
    proof (rule backup_cases [OF 2(2) base(1,3)], goal_cases)
      case 1
      have "holding base Map.empty (fd_close (int i) fds1)" using close_holding [OF 2(2), of i] o by simp
      from holding_empty [OF this] 1 2(1) show ?thesis by (simp add: builtin_fds_def close_backup_def)
    next
      case (2 j fds2)
      note first = \<open>backup (int 0) base = (Some (int i), fds1)\<close> and i = \<open>i \<in> vacant base\<close>
      have ij: "i \<noteq> j" using 2(3) o by (auto split: if_splits)
      have at: "fds2 ! 0 = Some o0" "fds2 ! 1 = Some o1" "fds2 ! i = Some o0" "fds2 ! j = Some o1" "length fds2 = length base"
        using 2(2,4) i ij o len base(1) unfolding holding_def vacant_def by auto
      obtain status p fds where r: "redirected k c fds2 = (status, p, fds)" by (cases "redirected k c fds2")
      have "one_more fds2 fds \<or> (\<exists>x y. fds = fds2[0 := x, 1 := y] \<and> x \<noteq> None \<and> y \<noteq> None)"
        by (rule builtin_redirection [OF _ _ _ r]) (use at base(1) in simp_all)
      then have "one_more fds2 (snd (restore_stdio (Some (int i)) (Some (int j)) 0 fds))"
        using at base by (intro restore_ok [OF _ at(1,2) i 2(4)]) simp_all
      then obtain x where "holding fds2 (end_map x) (snd (restore_stdio (Some (int i)) (Some (int j)) 0 fds))"
        (is "holding _ _ ?F") by (auto simp: one_more_def)
      note h = holding_trans [OF 2(2) this]
      have out: "end_map x i = None" "end_map x j = None"
      proof -
        have "dom (end_map x) \<subseteq> vacant fds2" using \<open>holding fds2 (end_map x) ?F\<close> by (simp add: holding_def)
        then show "end_map x i = None" "end_map x j = None" using at by (auto simp: vacant_def)
      qed
      have "holding base (((Map.empty(i := base ! 0, j := base ! 1)) ++ end_map x)(i := None, j := None))
          (fd_close (int j) (fd_close (int i) ?F))"
        by (rule close_holding, rule close_holding, rule h) (use ij o out in \<open>simp_all add: map_add_def\<close>)
      moreover have "((Map.empty(i := base ! 0, j := base ! 1)) ++ end_map x)(i := None, j := None) = end_map x"
        using out by (auto simp: fun_eq_iff map_add_def split: option.split)
      ultimately have "one_more base (fd_close (int j) (fd_close (int i) ?F))" by (auto simp: one_more_def)
      with first 2(1) r show ?thesis by (simp add: builtin_fds_def close_backup_def)
    qed
  qed
qed

section \<open>Pipelines one after another\<close>

text \<open>Between two pipelines, with room for the jobs and descriptors of \<open>n\<close> more.\<close>

definition roomy :: "nat \<Rightarrow> shell \<Rightarrow> bool" where
  "roomy n s \<longleftrightarrow> resting s \<and> sh_highest s + n \<le> MAX_JOBS \<and> 1 < length (sh_fds s) \<and> sh_fds s ! 0 \<noteq> None \<and>
     sh_fds s ! 1 \<noteq> None \<and> n + 2 \<le> card (vacant (sh_fds s))"

text \<open>The pipeline is the built-in command \<^verbatim>\<open>bg\<close>.\<close>

definition is_bg :: "pipeline \<Rightarrow> bool" where
  "is_bg p \<longleftrightarrow> is_single_builtin_command p \<and> hd (cm_args (hd (pl_commands p))) = bytes_of ''bg''"

lemma one_more_room:
  assumes "one_more base fds" "1 < length base" "base ! 0 \<noteq> None" "base ! 1 \<noteq> None"
  shows "1 < length fds" "fds ! 0 \<noteq> None" "fds ! 1 \<noteq> None" "card (vacant base) \<le> card (vacant fds) + 1"
proof -
  obtain x where x: "holding base (end_map x) fds" using assms(1) by (auto simp: one_more_def)
  have len: "0 < length base" using assms(2) by (cases base) simp_all
  show "1 < length fds" using x assms(2) by (simp add: holding_def)
  show "fds ! 0 \<noteq> None" using holding_entry [OF x len assms(3)] assms(3) by simp
  show "fds ! 1 \<noteq> None" using holding_entry [OF x assms(2,4)] assms(4) by simp
  have "vacant base \<subseteq> vacant fds \<union> dom (end_map x)" using x by (auto simp: vacant_def holding_def)
  then have "card (vacant base) \<le> card (vacant fds \<union> dom (end_map x))" by (intro card_mono) (cases x; auto)+
  also have "\<dots> \<le> card (vacant fds) + card (dom (end_map x))" by (rule card_Un_le)
  also have "card (dom (end_map x)) \<le> 1" by (cases x) auto
  finally show "card (vacant base) \<le> card (vacant fds) + 1" by simp
qed

lemma interpret_pipeline_ok:
  assumes roomy: "roomy (Suc n) s" and p: "proper_pipeline m p" and bg: "\<not> is_bg p"
  shows "ends_in (\<lambda>_. roomy n) (interpret_pipeline k p cmd code s)"
proof -
  have s: "resting s" "sh_highest s + Suc n \<le> MAX_JOBS" "1 < length (sh_fds s)" "sh_fds s ! 0 \<noteq> None" "sh_fds s ! 1 \<noteq> None"
    "Suc n + 2 \<le> card (vacant (sh_fds s))"
    using roomy by (simp_all add: roomy_def)
  have room: "sh_highest s < MAX_JOBS" using s(2) by simp
  have commands: "pl_commands p \<noteq> []" "pl_num_commands p \<noteq> 0" "cm_args (hd (pl_commands p)) \<noteq> []"
    using p by (auto simp: proper_pipeline_def proper_command_def)
  show ?thesis
  proof (cases "is_single_builtin_command p")
    case True
    with bg have "hd (cm_args (hd (pl_commands p))) \<noteq> bytes_of ''bg''" by (simp add: is_bg_def)
    with run_single_builtin_ok [OF s(1) room commands(3), of k code]
    have "ends_in (\<lambda>_ s'. resting s' \<and> sh_highest s' \<le> sh_highest s + 1 \<and>
        (sh_fds s' = sh_fds s \<or> sh_fds s' = builtin_fds k (hd (pl_commands p)) (sh_fds s)))
      (run_single_builtin_command k (hd (pl_commands p)) code s)" by simp
    then have "ends_in (\<lambda>_. roomy n) (run_single_builtin_command k (hd (pl_commands p)) code s)"
    proof (rule ends_in_mono)
      fix st s'
      assume s': "resting s' \<and> sh_highest s' \<le> sh_highest s + 1 \<and>
        (sh_fds s' = sh_fds s \<or> sh_fds s' = builtin_fds k (hd (pl_commands p)) (sh_fds s))"
      then have "one_more (sh_fds s) (sh_fds s')" using builtin_fds_ok [OF s(3-5)] by auto
      from one_more_room [OF this s(3-5)] s' s(2,6) show "roomy n s'" by (simp add: roomy_def)
    qed
    with True commands(2) show ?thesis by (simp add: interpret_pipeline_def)
  next
    case False
    have "standing (sh_fds s)" using s by (simp add: standing_def)
    from run_pipeline_ok [OF s(1) this commands(1) room, of k cmd]
    have "ends_in (\<lambda>_. roomy n) (run_pipeline k p cmd s)"
      by (rule ends_in_mono) (use s in \<open>auto simp: roomy_def\<close>)
    with False commands(2) show ?thesis by (simp add: interpret_pipeline_def)
  qed
qed

lemma interpret_all_ok:
  "roomy (length ps + n) s \<Longrightarrow> \<forall>p\<in>set ps. (proper_pipeline m p \<or> blank_pipeline p) \<and> \<not> is_bg p \<Longrightarrow>
    ends_in (\<lambda>_. roomy n) (interpret_all k ps cmd code s)"
proof (induction ps arbitrary: s code)
  case Nil
  then show ?case by simp
next
  case (Cons p ps)
  have less: "roomy (length ps + n) s" using Cons.prems(1) by (simp add: roomy_def)
  show ?case
  proof (cases "pipeline_is_empty p")
    case True
    with Cons less show ?thesis by simp
  next
    case False
    then have "proper_pipeline m p" using Cons.prems(2) by (auto simp: blank_pipeline_def pipeline_is_empty_def)
    then have "ends_in (\<lambda>_. roomy (length ps + n)) (interpret_pipeline k p cmd code s)"
      using Cons.prems by (intro interpret_pipeline_ok) simp_all
    then have "ends_in (\<lambda>code s. ends_in (\<lambda>_. roomy n) (interpret_all k ps cmd code s)) (interpret_pipeline k p cmd code s)"
      by (rule ends_in_mono) (use Cons in simp)
    with False show ?thesis by (simp add: ends_in_and_then)
  qed
qed

lemma evaluate_line_ok:
  assumes "lex_cmd line = Some (r, ts)" "roomy n s"
    and "\<And>ps. r = 0 \<Longrightarrow> parse (sh_env s) ts code = Some (0, ps) \<Longrightarrow> roomy (length ps) s \<and> (\<forall>p\<in>set ps. \<not> is_bg p)"
  shows "ends_in (\<lambda>_. roomy 0) (evaluate_line k line code s)"
proof -
  have less: "roomy 0 s" using assms(2) by (simp add: roomy_def)
  obtain us where us: "ts = us @ [END_TOKEN]" "us \<noteq> []" "sound_tokens us"
    using lex_cmd_sound [OF assms(1)] by (auto simp: lexed_def)
  then have "proper_result (length us) (parse (sh_env s) ts code)"
    using parse_proper [of us] by (simp add: sound_tokens_def)
  then obtain st ps where parse: "parse (sh_env s) ts code = Some (st, ps)" "st = 0 \<Longrightarrow> proper_input (length us) ps"
    by (auto simp: proper_result_def split: option.splits if_splits)
  show ?thesis
  proof (cases "r = 0 \<and> st = 0")
    case False
    with assms(1) parse(1) less show ?thesis by (auto simp: evaluate_line_def)
  next
    case True
    with parse(2) have proper: "proper_input (length us) ps" by simp
    then obtain init p where "ps = init @ [p]" by (cases ps rule: rev_cases) (auto simp: proper_input_def)
    with proper have "\<forall>p\<in>set ps. proper_pipeline (length us) p \<or> blank_pipeline p"
      by (auto simp: proper_input_def)
    with True parse(1) assms(3) interpret_all_ok [of ps 0 s "length us" k line code]
    show ?thesis by (simp add: evaluate_line_def assms(1))
  qed
qed

end
