(* ===== verification/Pa2_Stuck.thy ===== *)
theory Pa2_Stuck
  imports Pa2_Run
begin

text \<open>
  \<^verbatim>\<open>fg\<close> marks all processes of a job as running. A process that had ended before is never reported again, and
  the shell waits for it for ever.
\<close>

section \<open>The job in the foreground\<close>

definition awaits :: "nat \<Rightarrow> int \<Rightarrow> int list \<Rightarrow> shell \<Rightarrow> bool" where
  "awaits a pid pids s \<longleftrightarrow> slot s 0 = Some a \<and> (\<exists>j. sh_heap s a = Some j \<and> jb_state j = JOB_FOREGROUND \<and>
     map pr_pid (jb_processes j) = pids \<and> (\<exists>p\<in>set (jb_processes j). pr_pid p = pid \<and> pr_running p))"

text \<open>No report of the process, and no report that a process of the job has stopped.\<close>

definition silent :: "int \<Rightarrow> int list \<Rightarrow> shell \<Rightarrow> bool" where
  "silent pid pids s \<longleftrightarrow> (\<forall>q code status signal. (Some (q, code, status), signal) \<in> set (sh_waits s) \<longrightarrow>
     q \<noteq> pid \<and> (code = CLD_STOPPED \<longrightarrow> q \<notin> set pids))"

lemma running_not_completed: "p \<in> set (jb_processes j) \<Longrightarrow> pr_running p \<Longrightarrow> jb_state j \<noteq> JOB_DONE \<Longrightarrow> has_completed j = (False, j)"
  by (auto simp: has_completed_def)

lemma report_other:
  "q \<noteq> pid \<Longrightarrow> p \<in> set ps \<Longrightarrow> pr_pid p = pid \<Longrightarrow> p \<in> set (report_process ps q code status)"
  by (induction ps) auto

lemma report_pids [simp]: "map pr_pid (report_process ps q code status) = map pr_pid ps"
  by (induction ps) auto

lemma find_job_in_pid:
  "find_job_in heap slots pid = Some (Some a) \<Longrightarrow> \<exists>j. heap a = Some j \<and> pid \<in> set (map pr_pid (jb_processes j))"
proof (induction heap slots pid rule: find_job_in.induct)
  case (3 heap c slots pid)
  then obtain k where k: "heap c = Some k" by (auto simp: bind_eq_Some_conv)
  show ?case
  proof (cases "\<exists>p\<in>set (jb_processes k). pr_pid p = pid")
    case True
    with 3 k show ?thesis by auto
  next
    case False
    with 3 k show ?thesis by simp
  qed
qed simp_all

text \<open>A report that is not about the process changes the job at most in other processes.\<close>

lemma keeps_foreground:
  assumes "jb_state j = JOB_FOREGROUND" "p \<in> set (jb_processes j)" "pr_running p" "code \<noteq> CLD_STOPPED"
  shows "set_job_state j code = j"
  using running_not_completed [OF assms(2,3)] assms(1,4) by (simp add: set_job_state_def)

lemma wait_for_any_process_awaits:
  assumes w: "wait_for_any_process s = Some (r, s')" and a: "awaits a pid pids s" "silent pid pids s"
  shows "awaits a pid pids s' \<and> silent pid pids s' \<and> (\<forall>code. r = Some (a, code) \<longrightarrow> code \<noteq> CLD_STOPPED)"
proof -
  obtain answer s1 where wait: "waitid s = (answer, s1)" by (cases "waitid s")
  have s1: "sh_heap s1 = sh_heap s" "slot s1 = slot s" "sh_table s1 = sh_table s"
    using wait by (auto simp: waitid_def slot_def fun_eq_iff split: list.splits prod.splits)
  have "set (sh_waits s1) \<subseteq> set (sh_waits s)" using wait by (auto simp: waitid_def split: list.splits)
  then have silent: "silent pid pids s1" using a(2) unfolding silent_def by blast
  have quiet: "q \<noteq> pid \<and> (code = CLD_STOPPED \<longrightarrow> q \<notin> set pids)" if "answer = Some (q, code, status)" for q code status
  proof -
    from wait that obtain signal where "(Some (q, code, status), signal) \<in> set (sh_waits s)"
      by (auto simp: waitid_def split: list.splits)
    with a(2) show ?thesis unfolding silent_def by blast
  qed
  have await1: "awaits a pid pids s1" using a(1) s1 by (simp add: awaits_def)
  show ?thesis
  proof (cases answer)
    case None
    with w wait await1 silent show ?thesis by (auto simp: wait_for_any_process_def)
  next
    case (Some report)
    obtain q code status where report: "answer = Some (q, code, status)" using Some by (cases report) auto
    note q = quiet [OF report]
    from w wait report obtain b where b: "find_job_by_pid q s1 = Some b"
      by (auto simp: wait_for_any_process_def bind_eq_Some_conv)
    show ?thesis
    proof (cases b)
      case None
      with w wait report b await1 silent show ?thesis by (auto simp: wait_for_any_process_def)
    next
      case (Some c)
      with b obtain k where k: "sh_heap s1 c = Some k" "q \<in> set (map pr_pid (jb_processes k))"
        using find_job_in_pid unfolding find_job_by_pid_def by metis
      define k' where "k' = set_job_state (k\<lparr>jb_processes := report_process (jb_processes k) q code status\<rparr>) code"
      have r: "r = Some (c, code)" "s' = put_job c k' s1"
        using w wait report b Some k(1) by (auto simp: wait_for_any_process_def k'_def)
      have same: "silent pid pids s'" using silent by (simp add: r(2) silent_def put_job_def)
      show ?thesis
      proof (cases "c = a")
        case False
        then have "awaits a pid pids s'" using await1 by (simp add: awaits_def r(2))
        with same r(1) False show ?thesis by simp
      next
        case True
        from await1 obtain p where p: "jb_state k = JOB_FOREGROUND" "map pr_pid (jb_processes k) = pids"
          "p \<in> set (jb_processes k)" "pr_pid p = pid" "pr_running p"
          using k(1) True by (auto simp: awaits_def)
        have code: "code \<noteq> CLD_STOPPED" using q k(2) p(2) by auto
        have "p \<in> set (report_process (jb_processes k) q code status)" using report_other q p(3,4) by blast
        moreover from this have "k' = k\<lparr>jb_processes := report_process (jb_processes k) q code status\<rparr>"
          unfolding k'_def by (intro keeps_foreground [of _ p]) (use p code in simp_all)
        ultimately have "awaits a pid pids s'"
          using await1 p True by (auto simp: awaits_def r(2))
        with same r(1) code show ?thesis by simp
      qed
    qed
  qed
qed

lemma reported_awaits:
  assumes r: "reported b code s = Some s'" and ok: "table_ok X H s" and a: "awaits a pid pids s" "silent pid pids s"
    and code: "b = a \<Longrightarrow> code \<noteq> CLD_STOPPED"
  shows "awaits a pid pids s' \<and> silent pid pids s'"
proof -
  obtain j where j: "sh_heap s b = Some j" using r by (auto simp: reported_def bind_eq_Some_conv)
  have silent: "silent pid pids s'" using a(2) reported_waits [OF r] by (simp add: silent_def)
  obtain k where k: "slot s 0 = Some a" "sh_heap s a = Some k" using a(1) by (auto simp: awaits_def)
  have id: "jb_id k = 0" using slot_job [OF ok k(1)] k(2) by auto
  show ?thesis
  proof (cases "b = a")
    case True
    with a(1) j k(2) obtain p where "jb_state j = JOB_FOREGROUND" "p \<in> set (jb_processes j)" "pr_running p"
      by (auto simp: awaits_def)
    with code True have "set_job_state j code = j" by (simp add: keeps_foreground)
    moreover have "put_job a j s = s" using j True by (simp add: put_job_def fun_upd_idem)
    ultimately have "s' = s" using r j True id k(2) by (simp add: reported_def Let_def)
    with a show ?thesis by simp
  next
    case False
    have "sh_heap s' a = sh_heap s a" "slot s' 0 = slot s 0"
      using r j False
      by (auto simp: reported_def Let_def put_job_def bind_eq_Some_conv remove_job_from_table_def update_highest_job_id_def
          set_slot_def free_job_def say_def slot_def split: if_splits option.splits)
    with a(1) silent show ?thesis by (simp add: awaits_def)
  qed
qed

lemma handle_events_awaits:
  "handle_events s = Some s' \<Longrightarrow> table_ok {} H s \<Longrightarrow> awaits a pid pids s \<Longrightarrow> silent pid pids s \<Longrightarrow>
    awaits a pid pids s' \<and> silent pid pids s'"
proof (induction s rule: handle_events.induct)
  case (1 s)
  note ev = handle_events.simps [of s]
  show ?case
  proof (rule wait_for_any_process_ok [OF "1.prems"(2)], goal_cases)
    case (1 s1)
    note step = this
    note kept = wait_for_any_process_awaits [OF step(1) "1.prems"(3,4)]
    show ?thesis
    proof (cases "sh_pending s1")
      case False
      with step(1) "1.prems"(1) ev kept show ?thesis by simp
    next
      case True
      have "table_ok {} H (s1\<lparr>sh_pending := False\<rparr>)"
        using step(2) by (simp add: table_ok_cong [of "s1\<lparr>sh_pending := False\<rparr>" s1])
      moreover have "awaits a pid pids (s1\<lparr>sh_pending := False\<rparr>)" "silent pid pids (s1\<lparr>sh_pending := False\<rparr>)"
        using kept by (simp_all add: awaits_def silent_def)
      moreover have "handle_events (s1\<lparr>sh_pending := False\<rparr>) = Some s'" using ev step(1) True "1.prems"(1) by simp
      ultimately show ?thesis using "1.IH"(1) [OF step(1) refl refl True] by blast
    qed
  next
    case (2 b code s1 i j)
    note step = this
    note kept = wait_for_any_process_awaits [OF step(1) "1.prems"(3,4)]
    obtain s2 where s2: "reported b code s1 = Some s2" "table_ok {} H s2" "undisturbed s1 s2"
      by (rule reported_ok [OF step(2,4,5) step(6)])
    have "awaits a pid pids s2 \<and> silent pid pids s2"
      by (rule reported_awaits [OF s2(1) step(2)]) (use kept in auto)
    moreover have "handle_events s2 = Some s'" using ev step(1) s2(1) "1.prems"(1) by simp
    ultimately show ?thesis using "1.IH"(2) [OF step(1) refl refl refl s2(1)] s2(2) by blast
  qed
qed

text \<open>The shell sleeps whatever wakes it.\<close>

lemma wait_loop_awaits:
  "table_ok {} H s \<Longrightarrow> awaits a pid pids s \<Longrightarrow> silent pid pids s \<Longrightarrow> \<exists>s'. wait_loop 0 wakes s = Asleep s'"
proof (induction wakes arbitrary: s)
  have round: "\<exists>s1 j. (if sh_pending s then handle_pending_sigchld s else Some s) = Some s1 \<and> table_ok {} H s1 \<and>
      awaits a pid pids s1 \<and> silent pid pids s1 \<and> get_slot 0 s1 = Some (Some a) \<and> sh_heap s1 a = Some j \<and>
      has_completed j = (False, j) \<and> \<not> has_stopped j \<and> put_job a j s1 = s1"
    if s: "table_ok {} H s" "awaits a pid pids s" "silent pid pids s" for s
  proof -
    have s0: "table_ok {} H (s\<lparr>sh_pending := False\<rparr>)" "awaits a pid pids (s\<lparr>sh_pending := False\<rparr>)"
      "silent pid pids (s\<lparr>sh_pending := False\<rparr>)"
      using s by (simp_all add: table_ok_cong [of "s\<lparr>sh_pending := False\<rparr>" s] awaits_def silent_def)
    from handle_events_ok [OF s0(1)] obtain s' where s': "handle_events (s\<lparr>sh_pending := False\<rparr>) = Some s'" "table_ok {} H s'"
      by blast
    note handled = handle_events_awaits [OF s'(1) s0]
    obtain s1 where s1: "(if sh_pending s then handle_pending_sigchld s else Some s) = Some s1" "table_ok {} H s1"
      "awaits a pid pids s1" "silent pid pids s1"
      using s s' handled by (cases "sh_pending s") (auto simp: handle_pending_sigchld_def)
    then obtain j p where j: "slot s1 0 = Some a" "sh_heap s1 a = Some j" "jb_state j = JOB_FOREGROUND"
      "p \<in> set (jb_processes j)" "pr_running p"
      by (auto simp: awaits_def)
    have "has_completed j = (False, j)" by (rule running_not_completed [OF j(4,5)]) (simp add: j(3))
    moreover have "put_job a j s1 = s1" using j(2) by (simp add: put_job_def fun_upd_idem)
    ultimately show ?thesis using s1 j by (auto simp: get_slot_ok has_stopped_def)
  qed
  {
    case Nil
    from round [OF Nil] obtain s1 j where r: "(if sh_pending s then handle_pending_sigchld s else Some s) = Some s1"
      "get_slot 0 s1 = Some (Some a)" "sh_heap s1 a = Some j" "has_completed j = (False, j)" "\<not> has_stopped j"
      by blast
    then show ?case by (simp add: wait_loop_step [OF r(1-3)] Let_def)
  next
    case (Cons w wakes)
    from round [OF Cons.prems] obtain s1 j where r: "(if sh_pending s then handle_pending_sigchld s else Some s) = Some s1"
      "get_slot 0 s1 = Some (Some a)" "sh_heap s1 a = Some j" "has_completed j = (False, j)" "\<not> has_stopped j"
      "table_ok {} H s1" "awaits a pid pids s1" "silent pid pids s1" "put_job a j s1 = s1"
      by blast
    have "\<exists>s'. wait_loop 0 wakes (s1\<lparr>sh_pending := sh_pending s1 \<or> w\<rparr>) = Asleep s'"
      by (rule Cons.IH) (use r in \<open>simp_all add: table_ok_cong [of "s1\<lparr>sh_pending := _\<rparr>" s1] awaits_def silent_def\<close>)
    with r(4,5,9) show ?case by (simp add: wait_loop_step [OF r(1-3)] Let_def)
  }
qed

section \<open>fg\<close>

lemma card_used: "length (sh_table s) = MAX_JOBS + 1 \<Longrightarrow> card (used s) \<le> MAX_JOBS + 1"
proof -
  assume len: "length (sh_table s) = MAX_JOBS + 1"
  have "used s \<subseteq> {..<MAX_JOBS + 1}" using len by (auto simp: used_def dest!: slot_less)
  from card_mono [OF _ this] show ?thesis by simp
qed

lemma table_not_empty:
  assumes "table_ok X H s" "slot s i = Some a" "0 < i"
  shows "\<not> is_job_table_empty s"
proof -
  have "used s \<noteq> {}" using assms(2,3) by (auto simp: used_def)
  then have "0 < card (used s)" using used_finite by (simp add: card_gt_0_iff)
  moreover have "card (used s) < 2 ^ 64" using card_used [OF table_length [OF assms(1)]] by (simp add: MAX_JOBS_def)
  ultimately have "(of_nat (card (used s)) :: u64) \<noteq> 0" by (metis unat_u64 less_numeral_extra(3) unat_0)
  with table_parts(3) [OF assms(1)] show ?thesis by (simp add: is_job_table_empty_def jobs_counted_def)
qed

lemma run_fg_sleeps:
  assumes ok: "table_ok {} {} s" and c: "length (cm_args c) = 1" and high: "0 < sh_highest s" "slot s (sh_highest s) = Some a"
    and j: "sh_heap s a = Some j" "p \<in> set (jb_processes j)"
    and silent: "silent (pr_pid p) (map pr_pid (jb_processes j)) s"
  shows "\<exists>s'. run_fg c s = Asleep s'"
proof -
  obtain s1 where s1: "remove_foreground_job True s = Some s1" "table_ok {} {} s1" "slot s1 = (slot s)(0 := None)"
    "sh_fds s1 = sh_fds s" "sh_highest s1 = sh_highest s"
    by (rule remove_foreground_free [OF ok])
  have waits1: "sh_waits s1 = sh_waits s"
    using s1(1) by (auto simp: remove_foreground_job_def bind_eq_Some_conv free_job_def set_slot_def split: if_splits option.splits)
  have high1: "slot s1 (sh_highest s1) = Some a" using high s1(3,5) by simp
  have "slot s 0 \<noteq> Some a" using slot_unique [OF table_parts(1) [OF ok] high(2), of 0] high(1) by auto
  then have j1: "sh_heap s1 a = Some j"
    using s1(1) get_slot_ok [OF ok, of 0] j(1)
    by (auto simp: remove_foreground_job_def bind_eq_Some_conv free_job_def set_slot_def split: if_splits option.splits)
  have bound: "sh_highest s1 \<le> MAX_JOBS" using table_parts(3) [OF s1(2)] by (simp add: jobs_counted_def)
  have found: "get_job_to_move c (sh_highest s1) s1 = Some (Some a)"
    using c high high1 s1(5) bound by (simp add: get_job_to_move_def find_job_by_id_def get_slot_ok [OF s1(2)])
  have not_empty: "\<not> is_job_table_empty s1" using table_not_empty [OF s1(2) high1] high(1) s1(5) by simp
  define s2 where "s2 = say (moving_line j ''foreground'') s1"
  have s2: "table_ok {} {} s2" "slot s2 0 = None" "slot s2 (sh_highest s) = Some a" "sh_heap s2 a = Some j"
    using s1(2,3,5) high1 j1 by (simp_all add: s2_def)
  obtain s3 where s3: "set_foreground_job a s2 = Some s3" "table_ok {} {} s3" "slot s3 0 = Some a" "sh_fds s3 = sh_fds s2"
    "sh_highest s3 \<le> sh_highest s2"
    "sh_heap s3 a = Some (set_job_process_state True (j\<lparr>jb_state := JOB_FOREGROUND, jb_id := 0\<rparr>))"
    by (rule set_foreground_listed [OF s2(1,2,3) high(1) s2(4)])
  have waits3: "sh_waits s3 = sh_waits s"
    using s3(1) waits1 by (auto simp: set_foreground_job_def bind_eq_Some_conv set_slot_def put_job_def update_highest_job_id_def
        s2_def say_def split: if_splits)
  define s4 where "s4 = kill (- jb_pgid j) SIGCONT s3"
  have s4: "table_ok {} {} s4" "slot s4 0 = Some a" "sh_heap s4 a = Some (set_job_process_state True (j\<lparr>jb_state := JOB_FOREGROUND, jb_id := 0\<rparr>))"
    using s3 by (simp_all add: s4_def)
  have "silent (pr_pid p) (map pr_pid (jb_processes j)) s4"
    using silent waits3 by (simp add: silent_def s4_def kill_def)
  moreover have "awaits a (pr_pid p) (map pr_pid (jb_processes j)) s4"
    using s4(2,3) j(2) by (auto simp: awaits_def set_job_process_state_def)
  ultimately have "\<exists>s'. wait_for_processes a s4 = Asleep s'"
    using wait_loop_awaits [OF s4(1)] s4(3) by (simp add: wait_for_processes_def set_job_process_state_def)
  then have "\<exists>s'. handle_job a s4 = Asleep s'"
    using s4(3) by (auto simp: handle_job_def set_job_process_state_def and_then_def)
  then show ?thesis
    using s1(1) not_empty found j1 s3(1) by (simp add: run_fg_def s2_def s4_def)
qed

end
