(* ===== verification/Pa2_Properties.thy ===== *)
theory Pa2_Properties
  imports Pa2_Evaluate Pa2_Stuck
begin

text \<open>
  The properties of the shell, each with a witness on a shell that has just started, or that has one job.
\<close>

section \<open>Shells to try the properties on\<close>

definition empty_table :: "nat option list" where
  "empty_table = replicate (MAX_JOBS + 1) None"

lemma empty_table_simps [simp]: "length empty_table = Suc MAX_JOBS" "i \<le> MAX_JOBS \<Longrightarrow> empty_table ! i = None"
  "empty_table \<noteq> []"
  by (simp_all add: empty_table_def nth_replicate del: replicate_Suc)

definition start_shell :: shell where
  "start_shell = \<lparr>sh_heap = Map.empty, sh_next = 0, sh_table = empty_table, sh_num_jobs = 0, sh_highest = 0,
     sh_pending = False, sh_waits = [], sh_wakes = [], sh_forks = [100, 101],
     sh_fds = [Some Terminal, Some Terminal, Some Terminal, None, None, None, None, None], sh_pipe = 0,
     sh_env = (\<lambda>name. None), sh_cwd = Some (bytes_of ''/''), sh_children = [], sh_kills = [], sh_out = []\<rparr>"

text \<open>One job in the slot \<open>i\<close>.\<close>

definition with_job :: "nat \<Rightarrow> job \<Rightarrow> shell" where
  "with_job i j = start_shell\<lparr>sh_heap := [0 \<mapsto> j], sh_next := 1, sh_table := empty_table[i := Some 0],
     sh_num_jobs := 1, sh_highest := i\<rparr>"

definition ended_process :: process where
  "ended_process = default_process\<lparr>pr_pid := 100, pr_code := CLD_EXITED\<rparr>"

definition stopped_process :: process where
  "stopped_process = default_process\<lparr>pr_pid := 101, pr_code := CLD_STOPPED\<rparr>"

definition some_job :: "JobState \<Rightarrow> nat \<Rightarrow> job" where
  "some_job state i = default_job\<lparr>jb_state := state, jb_id := i, jb_num_processes := 2, jb_pgid := 100,
     jb_processes := [ended_process, stopped_process]\<rparr>"

definition plain_system :: kernel where
  "plain_system = \<lparr>k_chdir = (\<lambda>cwd path. None), k_home = None, k_bin_dir = None, k_open_read = (\<lambda>path. True),
     k_open_write = (\<lambda>path append. True), k_exec = (\<lambda>path search. Exec_Missing)\<rparr>"

lemma start_slot: "slot start_shell i = None"
  by (simp add: slot_def start_shell_def)

lemma start_ok: "resting start_shell"
  by (simp add: resting_def table_ok_def jobs_placed_def jobs_owned_def jobs_counted_def used_def start_slot)
    (simp add: start_shell_def)

lemma start_vacant: "vacant (sh_fds start_shell) = {3, 4, 5, 6, 7}"
  by (auto simp: vacant_def start_shell_def less_Suc_eq numeral_eq_Suc)

lemma start_roomy: "roomy 1 start_shell"
  using start_ok start_vacant by (simp add: roomy_def) (simp add: start_shell_def MAX_JOBS_def)

lemma with_job_slot: "i \<le> MAX_JOBS \<Longrightarrow> slot (with_job i j) k = (if k = i then Some 0 else None)"
  by (simp add: slot_def with_job_def nth_list_update)

lemma with_job_ok:
  assumes "0 < i" "i \<le> MAX_JOBS" "listed j" "jb_id j = i"
  shows "table_ok {} {} (with_job i j)"
proof
  note slots = with_job_slot [OF assms(2), of j]
  show "jobs_placed {} (with_job i j)" using assms by (simp add: jobs_placed_def slots) (simp add: with_job_def)
  show "jobs_owned {} (with_job i j)" by (auto simp: jobs_owned_def slots) (auto simp: with_job_def split: if_splits)
  have "used (with_job i j) = {i}" using assms(1) by (auto simp: used_def slots)
  with assms show "jobs_counted (with_job i j)" by (simp add: jobs_counted_def slots) (simp add: with_job_def start_shell_def)
qed

lemma some_job_listed: "state = JOB_BACKGROUND \<or> state = JOB_STOPPED \<Longrightarrow> listed (some_job state i)"
  by (auto simp: listed_def some_job_def)

section \<open>Lines\<close>

text \<open>
  C25: every list of pipelines whose command names are ordinary words and whose other words have no single
  quote is the meaning of a line: the lexer and the parser read the typed line back exactly, with every
  argument, redirection, pipe, separator and background mark.
\<close>

theorem pa2_line_roundtrip:
  assumes "ps \<noteq> []" "\<forall>p\<in>set ps. plain_pipeline p" "length (input_tokens ps) < MAX_TOKENS"
  shows "\<exists>ts. lex_cmd (type_input ps) = Some (0, ts) \<and> parse getenv ts code = Some (0, ps)"
  using lex_type_input [OF assms] parse_type_input [OF assms(1,2)] by blast

definition demo_command :: command where
  "demo_command = default_command\<lparr>cm_args := [[99, 100], [97, 32, 98]], cm_stdin := Some [120], cm_stdout := Some [121],
     cm_append := True, cm_type := COMMAND_BUILTIN\<rparr>"

definition demo_pipeline :: pipeline where
  "demo_pipeline = \<lparr>pl_background = True, pl_commands = [demo_command, demo_command], pl_num_commands = 2\<rparr>"

lemma demo_plain: "plain_pipeline demo_pipeline"
  by (simp add: plain_pipeline_def demo_pipeline_def plain_command_def demo_command_def default_command_def command_name_def
      plain_def is_special_char_def white_def quotable_def SQUOTE_def DQUOTE_def NL_def command_class_def is_builtin_command_def
      bytes_of_simps)

theorem pa2_line_roundtrip_witness:
  "\<exists>ts. lex_cmd (type_input [demo_pipeline, demo_pipeline]) = Some (0, ts) \<and>
    parse (\<lambda>name. None) ts 0 = Some (0, [demo_pipeline, demo_pipeline])"
proof (rule pa2_line_roundtrip)
  show "\<forall>p\<in>set [demo_pipeline, demo_pipeline]. plain_pipeline p" by (simp add: demo_plain)
  show "length (input_tokens [demo_pipeline, demo_pipeline]) < MAX_TOKENS"
    by (simp add: pipeline_tokens_def demo_pipeline_def command_tokens_def demo_command_def MAX_TOKENS_def default_command_def)
qed simp

text \<open>
  C26: what the lexer returns fits its array and ends with the end token, and the parser stays inside it:
  it reports an error, or all pipelines of the line are well formed (every command has a name, at most as
  many words as the line has tokens, a class, and the count is the number of commands) except that the last
  one can be blank.
\<close>

theorem pa2_parse_well_formed:
  assumes "lex_cmd cmd = Some (r, ts)"
  shows "length ts \<le> MAX_TOKENS \<and> last ts = END_TOKEN \<and> proper_result (length ts - 1) (parse getenv ts code)"
proof -
  obtain us where us: "ts = us @ [END_TOKEN]" "sound_tokens us" "us \<noteq> []"
    using lex_cmd_sound [OF assms] by (auto simp: lexed_def)
  with parse_proper [of us getenv code] show ?thesis by (auto simp: sound_tokens_def)
qed

lemma ls_tokens: "lex_cmd [108, 115] = Some (0, [mk_token TOKEN_COMMAND [108, 115], END_TOKEN])"
  by (simp add: lex_cmd_def next_token_def lex_end_def white_def NL_def SQUOTE_def DQUOTE_def MAX_TOKENS_def plain_def
      is_special_char_def is_pipe_def is_redirection_def)

theorem pa2_parse_well_formed_witness:
  "proper_result 1 (parse (\<lambda>name. None) [mk_token TOKEN_COMMAND [108, 115], END_TOKEN] 0)"
  using pa2_parse_well_formed [OF ls_tokens, of "\<lambda>name. None" 0] by simp

section \<open>Pipelines\<close>

text \<open>
  C27: with three free descriptors and a free slot for the job, a pipeline starts one child for every
  command. The child whose files can be opened runs its command with the file of its redirection, or the pipe of its neighbour, or what the shell has, as standard input
  and output, and with no other end of a pipe; all children are in the group of the first. Behind the
  pipeline the shell has the descriptors it had before, and no job is lost or left in slot 0.
\<close>

theorem pa2_pipeline_wiring:
  assumes "resting s" "standing (sh_fds s)" "pl_commands p \<noteq> []" "sh_highest s < MAX_JOBS"
  shows "ends_in (\<lambda>_ s'. resting s' \<and> sh_fds s' = sh_fds s \<and>
    (\<exists>new. sh_children s' = sh_children s @ new \<and>
      started k (sh_fds s) (sh_pipe s) (sh_fds s ! 0) (-1) (\<not> pl_background p) (pl_commands p) new)) (run_pipeline k p cmd s)"
  by (rule ends_in_mono [OF run_pipeline_ok [OF assms]]) blast

theorem pa2_pipeline_wiring_witness:
  "ends_in (\<lambda>_ s'. resting s' \<and> sh_fds s' = sh_fds start_shell \<and>
    (\<exists>new. sh_children s' = sh_children start_shell @ new \<and>
      started plain_system (sh_fds start_shell) (sh_pipe start_shell) (sh_fds start_shell ! 0) (-1) (\<not> pl_background demo_pipeline)
        (pl_commands demo_pipeline) new))
    (run_pipeline plain_system demo_pipeline [] start_shell)"
proof (rule pa2_pipeline_wiring [OF start_ok])
  show "standing (sh_fds start_shell)" using start_vacant by (simp add: standing_def) (simp add: start_shell_def)
qed (simp_all add: demo_pipeline_def start_shell_def MAX_JOBS_def)

text \<open>
  C28: a line without the command \<^verbatim>\<open>bg\<close>, with room for its jobs in the table and for its pipes among the
  descriptors, keeps the table of jobs and the heap in order: every slot in use holds its own job, in the background or stopped, the counters agree with the slots, and no job is lost,
  freed twice or used after it was freed, whatever the children do meanwhile.
\<close>

theorem pa2_jobs_kept:
  assumes "lex_cmd line = Some (r, ts)" "roomy n s"
    and "\<And>ps. r = 0 \<Longrightarrow> parse (sh_env s) ts code = Some (0, ps) \<Longrightarrow> roomy (length ps) s \<and> (\<forall>p\<in>set ps. \<not> is_bg p)"
  shows "ends_in (\<lambda>_ s'. table_ok {} {} s' \<and> slot s' 0 = None) (evaluate_line k line code s)"
  by (rule ends_in_mono [OF evaluate_line_ok [OF assms]]) (simp_all add: roomy_def resting_def)

theorem pa2_jobs_kept_witness:
  "ends_in (\<lambda>_ s'. table_ok {} {} s' \<and> slot s' 0 = None) (evaluate_line plain_system [108, 115] 0 start_shell)"
proof (rule pa2_jobs_kept [OF ls_tokens start_roomy])
  fix ps
  assume "parse (sh_env start_shell) [mk_token TOKEN_COMMAND [108, 115], END_TOKEN] 0 = Some (0, ps)"
  then have ps: "ps = [\<lparr>pl_background = False, pl_commands = [\<lparr>cm_args = [[108, 115]], cm_stdin = None, cm_stdout = None,
      cm_append = False, cm_type = COMMAND_OTHER\<rparr>], pl_num_commands = 1\<rparr>]"
    by (simp add: parse_def parse_start_def token_kinds add_argument_def to_argument_def parsed_def current_pipeline_def
        default_command_def is_builtin_command_def is_implemented_command_def bytes_of_simps Let_def)
  then have "\<forall>p\<in>set ps. \<not> is_bg p" by (simp add: is_bg_def is_single_builtin_command_def)
  with start_roomy ps show "roomy (length ps) start_shell \<and> (\<forall>p\<in>set ps. \<not> is_bg p)" by simp
qed

section \<open>Jobs\<close>

text \<open>
  C29: \<^verbatim>\<open>bg\<close> follows a null pointer exactly when, on the way down from the highest job, there is an empty
  slot before the first stopped job: a job in the background whose number is lower has ended, and no job
  above it is stopped. This holds whatever its argument is.
\<close>

theorem pa2_bg_null_pointer:
  assumes "table_ok {} {} s"
  shows "run_bg c s = Fault \<longleftrightarrow> null_on_the_way s (sh_highest s)"
  using run_bg_ok [OF assms, of c] by (auto split: if_splits)

theorem pa2_bg_null_pointer_witness: "run_bg (default_command\<lparr>cm_args := [bytes_of ''bg'']\<rparr>) (with_job 2 (some_job JOB_BACKGROUND 2)) = Fault"
proof -
  let ?s = "with_job 2 (some_job JOB_BACKGROUND 2)"
  have two: "(2 :: nat) \<le> MAX_JOBS" by (simp add: MAX_JOBS_def)
  have ok: "table_ok {} {} ?s" by (rule with_job_ok) (simp_all add: two some_job_listed, simp add: some_job_def)
  have "stopped_at ?s i = False" for i
    using two by (simp add: stopped_at_def with_job_slot) (simp add: with_job_def some_job_def)
  then have "null_on_the_way ?s (sh_highest ?s)"
    unfolding null_on_the_way_def using two by (intro exI [of _ 1]) (simp add: with_job_slot, simp add: with_job_def)
  with pa2_bg_null_pointer [OF ok] show ?thesis by simp
qed

text \<open>
  C30: \<^verbatim>\<open>fg\<close> on a job one of whose processes has ended already, so that it is not reported again, never
  comes back unless a process of the job is stopped again: the shell sleeps, although the other processes
  of the job can end.
\<close>

theorem pa2_fg_sleeps:
  assumes "table_ok {} {} s" "length (cm_args c) = 1" "0 < sh_highest s" "slot s (sh_highest s) = Some a"
    and "sh_heap s a = Some j" "p \<in> set (jb_processes j)" "silent (pr_pid p) (map pr_pid (jb_processes j)) s"
  shows "\<exists>s'. run_fg c s = Asleep s'"
  by (rule run_fg_sleeps [OF assms])

theorem pa2_fg_sleeps_witness:
  "\<exists>s'. run_fg (default_command\<lparr>cm_args := [bytes_of ''fg'']\<rparr>)
    (with_job 1 (some_job JOB_STOPPED 1) \<lparr>sh_waits := [(Some (101, CLD_EXITED, 0), True)], sh_wakes := [True, True]\<rparr>) = Asleep s'"
proof (rule pa2_fg_sleeps)
  have one: "1 \<le> MAX_JOBS" by (simp add: MAX_JOBS_def)
  let ?s = "with_job 1 (some_job JOB_STOPPED 1)"
  let ?t = "?s\<lparr>sh_waits := [(Some (101, CLD_EXITED, 0), True)], sh_wakes := [True, True]\<rparr>"
  have "table_ok {} {} ?s" by (rule with_job_ok) (simp_all add: MAX_JOBS_def some_job_def listed_def)
  then show "table_ok {} {} ?t" using table_ok_cong [of ?t ?s "{}" "{}"] by simp
  show "slot ?t (sh_highest ?t) = Some 0" using one by (simp add: with_job_slot) (simp add: with_job_def)
  show "sh_heap ?t 0 = Some (some_job JOB_STOPPED 1)" by (simp add: with_job_def)
  show "ended_process \<in> set (jb_processes (some_job JOB_STOPPED 1))" by (simp add: some_job_def)
  show "silent (pr_pid ended_process) (map pr_pid (jb_processes (some_job JOB_STOPPED 1))) ?t"
    by (simp add: silent_def ended_process_def)
qed (simp_all add: with_job_def)

section \<open>Observations\<close>

text \<open>A line that is only a comment has no token, and the lexer looks at the token before the first.\<close>

lemma comment_only_line: "lex_cmd (35 # replicate n 120) = None"
proof -
  have "dropWhile (\<lambda>c. c \<noteq> NL \<and> c \<noteq> 59) (replicate n 120) = []" by (simp add: NL_def)
  then show ?thesis by (simp add: lex_cmd_def next_token_def lex_end_def white_def MAX_TOKENS_def)
qed

text \<open>A quote that is not closed makes the lexer leave the line.\<close>

lemma open_quote: "SQUOTE \<notin> set s \<Longrightarrow> lex_cmd (SQUOTE # s) = None"
  by (simp add: lex_cmd_def next_token_def white_def SQUOTE_def NL_def DQUOTE_def MAX_TOKENS_def)

text \<open>A word behind the background mark is an argument of the command before it.\<close>

lemma background_word:
  "parse getenv [mk_token TOKEN_COMMAND [120], mk_token TOKEN_BACKGROUND [38], mk_token TOKEN_ARGUMENT [121], END_TOKEN] code =
    Some (0, [\<lparr>pl_background = True, pl_commands = [default_command\<lparr>cm_args := [[120], [121]], cm_type := COMMAND_OTHER\<rparr>],
      pl_num_commands = 1\<rparr>])"
  by (simp add: parse_def parse_start_def token_kinds add_argument_def to_argument_def parsed_def current_pipeline_def
      default_command_def is_builtin_command_def is_implemented_command_def bytes_of_simps Let_def)

text \<open>A built-in command whose output file cannot be opened leaves its input file open in the shell.\<close>

lemma builtin_leaks_input:
  "builtin_fds (plain_system\<lparr>k_open_write := \<lambda>path append. False\<rparr>)
    (default_command\<lparr>cm_stdin := Some f, cm_stdout := Some g\<rparr>) (sh_fds start_shell) = (sh_fds start_shell)[5 := Some (Read_File f)]"
  by (simp add: builtin_fds_def backup_def dup_fd_def fd_entry_def open_fd_def redirected_def setup_redirection_def
      redirect_stdin_def redirect_stdout_def restore_stdio_def dup2_fd_def close_backup_def fd_close_def start_shell_def
      plain_system_def default_command_def default_process_def)

text \<open>When a pipe cannot be made the job is freed, but slot 0 still has its address.\<close>

lemma failed_pipe_dangles:
  "\<exists>s'. run_pipeline k (demo_pipeline\<lparr>pl_background := False\<rparr>) cmd (start_shell\<lparr>sh_fds := [Some Terminal, Some Terminal, None]\<rparr>) =
    Return 1 s' \<and> slot s' 0 = Some 0 \<and> sh_heap s' 0 = None"
  by (simp add: run_pipeline_def demo_pipeline_def new_job_def set_foreground_job_def default_job_def set_slot_def
      setup_pipe_def open_fd_def abandon_def free_job_def put_job_def set_job_process_state_def start_shell_def slot_def)

text \<open>The table has no room for the job after the last one.\<close>

lemma full_table: "sh_heap s a = Some j \<Longrightarrow> length (sh_table s) = MAX_JOBS + 1 \<Longrightarrow> sh_highest s = MAX_JOBS \<Longrightarrow>
    add_job_to_table a s = None"
  by (simp add: add_job_to_table_def set_slot_def put_job_def)

text \<open>The loop over a script does not get past a zero byte.\<close>

lemma script_zero_byte: "script_loop k signals (0 # rest) code s = Asleep s"
  by (simp add: script_loop.simps)

end
