(* ===== verification/Pa2_Disk.thy ===== *)
theory Pa2_Disk
  imports Posix "HOL-Library.AList"
begin

text \<open>
  A file system with directories for the stand-alone programs of \<^verbatim>\<open>PA2/executables_src\<close>, on top of the
  descriptors and contents of \<open>Posix\<close>. A directory is an inode with named entries, the entries
  \<^verbatim>\<open>.\<close> and \<^verbatim>\<open>..\<close> among them; there are no symbolic links. As in \<open>Posix\<close> every call takes one entry of the
  plan, and \<open>Fail\<close> stands for any failure that does not come from the names, such as missing permissions.
\<close>

type_synonym bytes = "byte list"
type_synonym directory = "(bytes \<times> nat) list"

definition SLASH :: byte where "SLASH = 47"
definition DOT :: byte where "DOT = 46"
definition DASH :: byte where "DASH = 45"

record site =
  s_world :: world
  s_dirs :: "nat \<Rightarrow> directory option"
  s_root :: nat
  s_cwd :: "bytes list"
  s_err :: bytes

definition is_dir :: "nat \<Rightarrow> site \<Rightarrow> bool" where
  "is_dir i s \<longleftrightarrow> s_dirs s i \<noteq> None"

definition fail :: "errno \<Rightarrow> site \<Rightarrow> site" where
  "fail e s = s\<lparr>s_world := set_errno e (s_world s)\<rparr>"

definition the_errno :: "site \<Rightarrow> errno" where
  "the_errno s = w_errno (s_world s)"

section \<open>Messages\<close>

text \<open>The texts of \<^verbatim>\<open>strerror\<close>.\<close>

fun strerror :: "errno \<Rightarrow> bytes" where
  "strerror ENONE = bytes_of ''Success''"
| "strerror EINTR = bytes_of ''Interrupted system call''"
| "strerror EIO = bytes_of ''Input/output error''"
| "strerror EBADF = bytes_of ''Bad file descriptor''"
| "strerror EINVAL = bytes_of ''Invalid argument''"
| "strerror ENOENT = bytes_of ''No such file or directory''"
| "strerror ENOMEM = bytes_of ''Cannot allocate memory''"
| "strerror ESPIPE = bytes_of ''Illegal seek''"
| "strerror ENAMETOOLONG = bytes_of ''File name too long''"
| "strerror EISDIR = bytes_of ''Is a directory''"
| "strerror ENOTDIR = bytes_of ''Not a directory''"
| "strerror ENOTEMPTY = bytes_of ''Directory not empty''"
| "strerror EBUSY = bytes_of ''Device or resource busy''"
| "strerror EPERM = bytes_of ''Operation not permitted''"
| "strerror EFAULT = bytes_of ''Bad address''"

text \<open>A line on the error stream.\<close>

definition complain :: "bytes list \<Rightarrow> site \<Rightarrow> site" where
  "complain parts s = s\<lparr>s_err := s_err s @ concat parts @ [10]\<rparr>"

definition because :: "site \<Rightarrow> bytes" where
  "because s = strerror (the_errno s)"

section \<open>Paths\<close>

text \<open>
  The components of a path. An empty component stands for the directory before it, so that a slash at
  the end asks for a directory.
\<close>

fun split_path :: "bytes \<Rightarrow> bytes list" where
  "split_path [] = [[]]"
| "split_path (c # cs) =
     (if c = SLASH then [] # split_path cs
      else case split_path cs of [] \<Rightarrow> [[c]] | x # xs \<Rightarrow> (c # x) # xs)"

definition comps :: "bytes \<Rightarrow> bytes list" where
  "comps p = map (\<lambda>c. if c = [] then [DOT] else c) (split_path p)"

fun walk :: "(nat \<Rightarrow> directory option) \<Rightarrow> nat \<Rightarrow> bytes list \<Rightarrow> errno + nat" where
  "walk ds i [] = Inr i"
| "walk ds i (c # cs) =
     (case ds i of
        None \<Rightarrow> Inl ENOTDIR
      | Some es \<Rightarrow> (case map_of es c of None \<Rightarrow> Inl ENOENT | Some j \<Rightarrow> walk ds j cs))"

definition absolute :: "bytes \<Rightarrow> bool" where
  "absolute p \<longleftrightarrow> p \<noteq> [] \<and> hd p = SLASH"

definition walk_from :: "site \<Rightarrow> bytes \<Rightarrow> bytes list \<Rightarrow> errno + nat" where
  "walk_from s p cs =
     (if absolute p then walk (s_dirs s) (s_root s) cs
      else walk (s_dirs s) (s_root s) (s_cwd s @ cs))"

definition resolve :: "site \<Rightarrow> bytes \<Rightarrow> errno + nat" where
  "resolve s p = (if p = [] then Inl ENOENT else walk_from s p (comps p))"

text \<open>The directory that holds the last component of a path.\<close>

definition resolve_parent :: "site \<Rightarrow> bytes \<Rightarrow> errno + nat" where
  "resolve_parent s p =
     (if p = [] then Inl ENOENT
      else case walk_from s p (butlast (comps p)) of
        Inl e \<Rightarrow> Inl e
      | Inr d \<Rightarrow> (if is_dir d s then Inr d else Inl ENOTDIR))"

definition entry :: "site \<Rightarrow> nat \<Rightarrow> bytes \<Rightarrow> nat option" where
  "entry s d c = (case s_dirs s d of None \<Rightarrow> None | Some es \<Rightarrow> map_of es c)"

definition set_entry :: "nat \<Rightarrow> bytes \<Rightarrow> nat option \<Rightarrow> site \<Rightarrow> site" where
  "set_entry d c i s = s\<lparr>s_dirs := (s_dirs s)(d := map_option (\<lambda>es. case i of None \<Rightarrow> AList.delete c es | Some j \<Rightarrow> AList.update c j es) (s_dirs s d))\<rparr>"

definition normal_name :: "bytes \<Rightarrow> bool" where
  "normal_name c \<longleftrightarrow> c \<noteq> [] \<and> c \<noteq> [DOT] \<and> c \<noteq> [DOT, DOT] \<and> SLASH \<notin> set c"

text \<open>The names from the root to a file, and the text of such a path.\<close>

fun normalize :: "bytes list \<Rightarrow> bytes list \<Rightarrow> bytes list" where
  "normalize ns [] = ns"
| "normalize ns (c # cs) =
     normalize (if c = [DOT] then ns else if c = [DOT, DOT] then butlast ns else ns @ [c]) cs"

definition path_text :: "bytes list \<Rightarrow> bytes" where
  "path_text ns = (if ns = [] then [SLASH] else concat (map (\<lambda>c. SLASH # c) ns))"

definition real_names :: "site \<Rightarrow> bytes \<Rightarrow> bytes list" where
  "real_names s p = normalize (if absolute p then [] else s_cwd s) (comps p)"

section \<open>System calls\<close>

definition next_call :: "site \<Rightarrow> outcome \<times> site" where
  "next_call s = (case next_outcome (s_world s) of (x, w) \<Rightarrow> (x, s\<lparr>s_world := w\<rparr>))"

record stat_buf =
  st_ino :: nat
  st_dir :: bool

definition sys_stat :: "bytes \<Rightarrow> site \<Rightarrow> stat_buf option \<times> site" where
  "sys_stat p s =
     (case next_call s of (x, s) \<Rightarrow>
      if x = Fail then (None, fail EIO s)
      else case resolve s p of
        Inl e \<Rightarrow> (None, fail e s)
      | Inr i \<Rightarrow> (Some \<lparr>st_ino = i, st_dir = is_dir i s\<rparr>, s))"

definition opened :: "nat \<Rightarrow> site \<Rightarrow> int \<times> site" where
  "opened i s = (case install_fd \<lparr>o_ino = i, o_off = 0, o_kind = Regular\<rparr> (s_world s) of
     (fd, w) \<Rightarrow> (fd, s\<lparr>s_world := w\<rparr>))"

definition open_read :: "bytes \<Rightarrow> site \<Rightarrow> int \<times> site" where
  "open_read p s =
     (case next_call s of (x, s) \<Rightarrow>
      if x = Fail then (-1, fail EIO s)
      else case resolve s p of Inl e \<Rightarrow> (-1, fail e s) | Inr i \<Rightarrow> opened i s)"

definition store_data :: "nat \<Rightarrow> bytes \<Rightarrow> site \<Rightarrow> site" where
  "store_data i bs s = s\<lparr>s_world := (s_world s)\<lparr>w_data := (w_data (s_world s))(i := bs)\<rparr>\<rparr>"

definition new_ino :: "site \<Rightarrow> nat \<times> site" where
  "new_ino s = (w_nino (s_world s), s\<lparr>s_world := (s_world s)\<lparr>w_nino := w_nino (s_world s) + 1\<rparr>\<rparr>)"

text \<open>\<^verbatim>\<open>open(path, O_WRONLY | O_CREAT | O_TRUNC, 0666)\<close>; a name that ends with a slash is never created.\<close>

definition open_write :: "bytes \<Rightarrow> site \<Rightarrow> int \<times> site" where
  "open_write p s =
     (case next_call s of (x, s) \<Rightarrow>
      if x = Fail then (-1, fail EIO s)
      else case resolve s p of
        Inr i \<Rightarrow> (if is_dir i s then (-1, fail EISDIR s) else opened i (store_data i [] s))
      | Inl e \<Rightarrow>
          (case resolve_parent s p of
             Inl e' \<Rightarrow> (-1, fail e' s)
           | Inr d \<Rightarrow>
               if \<not> normal_name (last (comps p)) then (-1, fail EISDIR s)
               else case new_ino s of (i, s) \<Rightarrow> opened i (store_data i [] (set_entry d (last (comps p)) (Some i) s))))"

definition lift_call :: "('a \<times> world) \<Rightarrow> site \<Rightarrow> 'a \<times> site" where
  "lift_call r s = (case r of (a, w) \<Rightarrow> (a, s\<lparr>s_world := w\<rparr>))"

definition site_read :: "int \<Rightarrow> nat \<Rightarrow> site \<Rightarrow> int \<times> bytes \<times> site" where
  "site_read fd n s =
     (case fd_of (s_world s) fd of
        Some f \<Rightarrow>
          if is_dir (o_ino f) s then (case next_call s of (_, s) \<Rightarrow> (-1, [], fail EISDIR s))
          else (case sys_read fd n (s_world s) of (r, bs, w) \<Rightarrow> (r, bs, s\<lparr>s_world := w\<rparr>))
      | None \<Rightarrow> (case sys_read fd n (s_world s) of (r, bs, w) \<Rightarrow> (r, bs, s\<lparr>s_world := w\<rparr>)))"

definition site_write :: "int \<Rightarrow> bytes \<Rightarrow> site \<Rightarrow> int \<times> site" where
  "site_write fd bs s = lift_call (sys_write fd bs (s_world s)) s"

definition site_close :: "int \<Rightarrow> site \<Rightarrow> int \<times> site" where
  "site_close fd s = lift_call (sys_close fd (s_world s)) s"

definition site_unlink :: "bytes \<Rightarrow> site \<Rightarrow> int \<times> site" where
  "site_unlink p s =
     (case next_call s of (x, s) \<Rightarrow>
      if x = Fail then (-1, fail EIO s)
      else case resolve_parent s p of
        Inl e \<Rightarrow> (-1, fail e s)
      | Inr d \<Rightarrow>
          if \<not> normal_name (last (comps p)) then (-1, fail EISDIR s)
          else case entry s d (last (comps p)) of
            None \<Rightarrow> (-1, fail ENOENT s)
          | Some i \<Rightarrow> (if is_dir i s then (-1, fail EISDIR s) else (0, set_entry d (last (comps p)) None s)))"

definition site_realpath :: "bytes \<Rightarrow> site \<Rightarrow> bytes option \<times> site" where
  "site_realpath p s =
     (case next_call s of (x, s) \<Rightarrow>
      if x = Fail then (None, fail EIO s)
      else case resolve s p of
        Inl e \<Rightarrow> (None, fail e s)
      | Inr i \<Rightarrow> (Some (path_text (real_names s p)), s))"

subsection \<open>Renaming\<close>

text \<open>
  Slashes at the end of a name of \<^verbatim>\<open>rename\<close> are dropped, but then the name must be that of a directory.
\<close>

definition drop_slashes :: "bytes \<Rightarrow> bytes" where
  "drop_slashes p = rev (dropWhile (\<lambda>c. c = SLASH) (rev p))"

text \<open>The directories on the way from the root to a directory, itself among them.\<close>

fun on_the_way :: "(nat \<Rightarrow> directory option) \<Rightarrow> nat \<Rightarrow> bytes list \<Rightarrow> nat list" where
  "on_the_way ds i [] = [i]"
| "on_the_way ds i (c # cs) =
     i # (case ds i of None \<Rightarrow> [] | Some es \<Rightarrow> (case map_of es c of None \<Rightarrow> [] | Some j \<Rightarrow> on_the_way ds j cs))"

definition way_to_parent :: "site \<Rightarrow> bytes \<Rightarrow> nat list" where
  "way_to_parent s p = on_the_way (s_dirs s) (s_root s)
     (normalize (if absolute p then [] else s_cwd s) (butlast (comps p)))"

definition empty_dir :: "nat \<Rightarrow> site \<Rightarrow> bool" where
  "empty_dir i s \<longleftrightarrow> (case s_dirs s i of None \<Rightarrow> False | Some es \<Rightarrow> list_all (\<lambda>(c, _). c = [DOT] \<or> c = [DOT, DOT]) es)"

text \<open>The entry moves; a directory that moves gets its new parent, a directory it replaces is gone.\<close>

definition move_entry :: "nat \<Rightarrow> bytes \<Rightarrow> nat \<Rightarrow> bytes \<Rightarrow> nat \<Rightarrow> site \<Rightarrow> site" where
  "move_entry d c d' c' i s =
     (let s1 = (case entry s d' c' of
                  Some j \<Rightarrow> (if is_dir j s then s\<lparr>s_dirs := (s_dirs s)(j := None)\<rparr> else s)
                | None \<Rightarrow> s);
          s2 = set_entry d' c' (Some i) (set_entry d c None s1)
      in if is_dir i s2 then set_entry i [DOT, DOT] (Some d') s2 else s2)"

definition rename_checks :: "bytes \<Rightarrow> bytes \<Rightarrow> nat \<Rightarrow> nat \<Rightarrow> nat \<Rightarrow> site \<Rightarrow> errno option" where
  "rename_checks old new d d' i s =
     (let p = drop_slashes old; q = drop_slashes new; target = entry s d' (last (comps q)) in
      if \<not> is_dir i s \<and> (p \<noteq> old \<or> q \<noteq> new) then Some ENOTDIR
      else if is_dir i s \<and> i \<in> set (way_to_parent s q) then Some EINVAL
      else case target of
        None \<Rightarrow> None
      | Some j \<Rightarrow>
          if is_dir j s \<and> j \<in> set (way_to_parent s p) then Some ENOTEMPTY
          else if i = j then None
          else if is_dir i s \<and> \<not> is_dir j s then Some ENOTDIR
          else if \<not> is_dir i s \<and> is_dir j s then Some EISDIR
          else if is_dir j s \<and> \<not> empty_dir j s then Some ENOTEMPTY
          else None)"

definition site_rename :: "bytes \<Rightarrow> bytes \<Rightarrow> site \<Rightarrow> int \<times> site" where
  "site_rename old new s =
     (case next_call s of (x, s) \<Rightarrow>
      if x = Fail then (-1, fail EIO s)
      else let p = drop_slashes old; q = drop_slashes new in
        if old = [] \<or> new = [] then (-1, fail ENOENT s)
        else if p = [] \<or> q = [] then (-1, fail EBUSY s)
        else case resolve_parent s p of
          Inl e \<Rightarrow> (-1, fail e s)
        | Inr d \<Rightarrow> (case resolve_parent s q of
            Inl e \<Rightarrow> (-1, fail e s)
          | Inr d' \<Rightarrow>
              if \<not> normal_name (last (comps p)) \<or> \<not> normal_name (last (comps q)) then (-1, fail EBUSY s)
              else case entry s d (last (comps p)) of
                None \<Rightarrow> (-1, fail ENOENT s)
              | Some i \<Rightarrow>
                  (case rename_checks old new d d' i s of
                     Some e \<Rightarrow> (-1, fail e s)
                   | None \<Rightarrow>
                       (0, if entry s d' (last (comps q)) = Some i then s
                           else move_entry d (last (comps p)) d' (last (comps q)) i s))))"

end
