(* ===== verification/Pa2_Files.thy ===== *)
theory Pa2_Files
  imports Pa2_Disk
begin

text \<open>
  \<^verbatim>\<open>pa2_cat.c\<close>, \<^verbatim>\<open>pa2_rm.c\<close>, \<^verbatim>\<open>pa2_cp.c\<close> and \<^verbatim>\<open>pa2_mv.c\<close>. The arguments of the main programs are those behind
  the name of the program. The loop that copies from one descriptor to another is the same in
  \<^verbatim>\<open>pa2_cat.c\<close> and \<^verbatim>\<open>pa2_cp.c\<close>; it does not end when it reads what it writes, and is \<open>None\<close> then.
\<close>

definition EXIT_SUCCESS :: int where "EXIT_SUCCESS = 0"
definition EXIT_FAILURE :: int where "EXIT_FAILURE = 1"

definition exit_status :: "int \<Rightarrow> int" where
  "exit_status status = (if status = 0 then EXIT_SUCCESS else EXIT_FAILURE)"

definition QUOTE :: bytes where "QUOTE = [39]"

definition BUFFER_SIZE :: nat where "BUFFER_SIZE = 8192"

section \<open>Copying\<close>

lemma site_write_progress:
  assumes "site_write fd bs s = (n, s')" and "bs \<noteq> []"
  shows "n < 0 \<or> 0 < n"
proof (cases "fd_of (s_world s) fd")
  case None
  obtain x w where x: "next_outcome (s_world s) = (x, w)" by force
  have "fd_of w fd = None" using next_outcome_cases(1) [OF x] None by (simp add: quiet_fd_of)
  then show ?thesis using assms None by (auto simp: site_write_def lift_call_def sys_write_def x)
next
  case (Some f)
  obtain r w where r: "sys_write fd bs (s_world s) = (r, w)" by force
  then have "n = r" using assms by (simp add: site_write_def lift_call_def)
  then show ?thesis using sys_write_spec [OF r Some] assms(2) by auto
qed

function write_rest :: "int \<Rightarrow> bytes \<Rightarrow> site \<Rightarrow> bool \<times> site" where
  "write_rest fd bs s =
     (if bs = [] then (True, s)
      else case site_write fd bs s of (n, s') \<Rightarrow>
        if n < 0 then (False, s') else write_rest fd (drop (nat n) bs) s')"
  by pat_completeness auto

termination
proof (relation "measure (\<lambda>(fd, bs, s). length bs)", goal_cases)
  case 1
  then show ?case by simp
next
  case (2 fd bs s n s')
  then have "0 < n" using site_write_progress [of fd bs s n s'] by auto
  then show ?case using 2(1) by simp
qed

declare write_rest.simps [simp del]

datatype transferred = Copied | Read_failed | Write_failed

partial_function (option) transfer :: "int \<Rightarrow> int \<Rightarrow> site \<Rightarrow> (transferred \<times> site) option" where
  "transfer input output s =
     (case site_read input BUFFER_SIZE s of (n, bs, s) \<Rightarrow>
      if n = 0 then Some (Copied, s)
      else if n < 0 then Some (Read_failed, s)
      else case write_rest output bs s of (written, s) \<Rightarrow>
        if written then transfer input output s else Some (Write_failed, s))"

section \<open>\<^verbatim>\<open>pa2_cat\<close>\<close>

definition copy_fd :: "int \<Rightarrow> bytes \<Rightarrow> site \<Rightarrow> (int \<times> site) option" where
  "copy_fd fd label s =
     Option.bind (transfer fd 1 s) (\<lambda>(r, s). case r of
       Copied \<Rightarrow> Some (0, s)
     | Read_failed \<Rightarrow> Some (1, complain [bytes_of ''pa2_cat: '', label, bytes_of '': '', because s] s)
     | Write_failed \<Rightarrow> Some (1, complain [bytes_of ''pa2_cat: write error: '', because s] s))"

definition cat_path :: "bytes \<Rightarrow> site \<Rightarrow> (int \<times> site) option" where
  "cat_path path s =
     (if path = [DASH] then copy_fd 0 [DASH] s
      else case sys_stat path s of (st, s) \<Rightarrow>
        if (case st of Some b \<Rightarrow> st_dir b | None \<Rightarrow> False)
        then Some (1, complain [bytes_of ''pa2_cat: '', path, bytes_of '': Is a directory''] s)
        else case open_read path s of (fd, s) \<Rightarrow>
          if fd = -1 then Some (1, complain [bytes_of ''pa2_cat: '', path, bytes_of '': '', because s] s)
          else Option.bind (copy_fd fd path s) (\<lambda>(status, s).
            case site_close fd s of (_, s) \<Rightarrow> Some (status, s)))"

fun cat_all :: "bytes list \<Rightarrow> int \<Rightarrow> site \<Rightarrow> (int \<times> site) option" where
  "cat_all [] status s = Some (status, s)"
| "cat_all (path # paths) status s =
     Option.bind (cat_path path s) (\<lambda>(r, s). cat_all paths (if r \<noteq> 0 then 1 else status) s)"

definition cat_main :: "bytes list \<Rightarrow> site \<Rightarrow> (int \<times> site) option" where
  "cat_main args s =
     map_option (\<lambda>(status, s). (exit_status status, s))
       (if args = [] then copy_fd 0 [DASH] s else cat_all args 0 s)"

section \<open>\<^verbatim>\<open>pa2_rm\<close>\<close>

definition remove_path :: "bytes \<Rightarrow> site \<Rightarrow> int \<times> site" where
  "remove_path path s =
     (case site_unlink path s of (r, s) \<Rightarrow>
      if r = 0 then (0, s)
      else
        let cannot = (\<lambda>s. (1, complain [bytes_of ''pa2_rm: cannot remove '', QUOTE, path, QUOTE, bytes_of '': '', because s] s)) in
        if the_errno s = EISDIR \<or> the_errno s = EPERM then
          (case sys_stat path s of (st, s) \<Rightarrow>
           if (case st of Some b \<Rightarrow> st_dir b | None \<Rightarrow> False)
           then (1, complain [bytes_of ''pa2_rm: cannot remove '', QUOTE, path, QUOTE, bytes_of '': Is a directory''] s)
           else cannot s)
        else cannot s)"

fun rm_all :: "bytes list \<Rightarrow> int \<Rightarrow> site \<Rightarrow> int \<times> site" where
  "rm_all [] status s = (status, s)"
| "rm_all (path # paths) status s =
     (case remove_path path s of (r, s) \<Rightarrow> rm_all paths (if r \<noteq> 0 then 1 else status) s)"

definition rm_main :: "bytes list \<Rightarrow> site \<Rightarrow> int \<times> site" where
  "rm_main args s =
     (if args = [] then (EXIT_FAILURE, complain [bytes_of ''pa2_rm: missing operand''] s)
      else case rm_all args 0 s of (status, s) \<Rightarrow> (exit_status status, s))"

section \<open>\<^verbatim>\<open>pa2_cp\<close>\<close>

definition ends_with_slash :: "bytes \<Rightarrow> bool" where
  "ends_with_slash path \<longleftrightarrow> length path > 0 \<and> path ! (length path - 1) = SLASH"

text \<open>The part of a path behind its last slash, and whether there is one.\<close>

definition behind_slash :: "bytes \<Rightarrow> bytes" where
  "behind_slash path = rev (takeWhile (\<lambda>c. c \<noteq> SLASH) (rev path))"

definition cp_basename :: "bytes \<Rightarrow> bytes" where
  "cp_basename path =
     (if SLASH \<notin> set path then path
      else if behind_slash path = [] then [SLASH] else behind_slash path)"

definition site_alloc :: "nat \<Rightarrow> site \<Rightarrow> bool \<times> site" where
  "site_alloc n s = lift_call (sys_alloc n (s_world s)) s"

definition join_path :: "bytes \<Rightarrow> bytes \<Rightarrow> bytes \<Rightarrow> site \<Rightarrow> bytes option \<times> site" where
  "join_path tool dir base s =
     (let need_slash = (length dir > 0 \<and> dir ! (length dir - 1) \<noteq> SLASH);
          joined = dir @ (if need_slash then [SLASH] else []) @ base
      in case site_alloc (length joined + 1) s of (allocated, s) \<Rightarrow>
        if \<not> allocated then (None, complain [tool, bytes_of '': '', because s] s) else (Some joined, s))"

definition site_strdup :: "bytes \<Rightarrow> site \<Rightarrow> bytes option \<times> site" where
  "site_strdup str s = (case site_alloc (length str + 1) s of (allocated, s) \<Rightarrow> (if allocated then Some str else None, s))"

definition cp_same_file :: "stat_buf \<Rightarrow> stat_buf \<Rightarrow> bool" where
  "cp_same_file a b \<longleftrightarrow> st_ino a = st_ino b"

definition copy_file_contents :: "bytes \<Rightarrow> bytes \<Rightarrow> site \<Rightarrow> (int \<times> site) option" where
  "copy_file_contents source target s =
     (case open_read source s of (input, s) \<Rightarrow>
      if input = -1 then
        Some (1, complain [bytes_of ''pa2_cp: cannot open '', QUOTE, source, QUOTE, bytes_of '' for reading: '', because s] s)
      else case open_write target s of (output, s) \<Rightarrow>
        if output = -1 then
          (let s = complain [bytes_of ''pa2_cp: cannot create regular file '', QUOTE, target, QUOTE, bytes_of '': '', because s] s
           in Some (1, snd (site_close input s)))
        else Option.bind (transfer input output s) (\<lambda>(r, s).
          let s = (case r of
                Copied \<Rightarrow> s
              | Read_failed \<Rightarrow> complain [bytes_of ''pa2_cp: error reading '', QUOTE, source, QUOTE, bytes_of '': '', because s] s
              | Write_failed \<Rightarrow> complain [bytes_of ''pa2_cp: error writing '', QUOTE, target, QUOTE, bytes_of '': '', because s] s);
              status = (if r = Copied then 0 else 1)
          in case site_close input s of (closed, s) \<Rightarrow>
             let status = (if closed = -1 then 1 else status) in
             case site_close output s of (closed, s) \<Rightarrow>
             if closed = -1
             then Some (1, complain [bytes_of ''pa2_cp: error writing '', QUOTE, target, QUOTE, bytes_of '': '', because s] s)
             else Some (status, s)))"

definition cp_resolve_target :: "bytes \<Rightarrow> bytes \<Rightarrow> bool \<Rightarrow> site \<Rightarrow> bytes option \<times> site" where
  "cp_resolve_target source dest multiple_sources s =
     (case sys_stat dest s of (st, s) \<Rightarrow>
      case st of
        None \<Rightarrow>
          if the_errno s = ENOTDIR then
            (None, complain [bytes_of ''pa2_cp: cannot stat '', QUOTE, dest, QUOTE, bytes_of '': Not a directory''] s)
          else if multiple_sources \<or> ends_with_slash dest then
            (None, complain [bytes_of ''pa2_cp: cannot create regular file '', QUOTE, dest, QUOTE, bytes_of '': Not a directory''] s)
          else site_strdup dest s
      | Some b \<Rightarrow>
          if st_dir b then join_path (bytes_of ''pa2_cp'') dest (cp_basename source) s
          else if multiple_sources \<or> ends_with_slash dest then
            (None, complain [bytes_of ''pa2_cp: cannot stat '', QUOTE, dest, QUOTE, bytes_of '': Not a directory''] s)
          else site_strdup dest s)"

definition copy_one :: "bytes \<Rightarrow> bytes \<Rightarrow> bool \<Rightarrow> site \<Rightarrow> (int \<times> site) option" where
  "copy_one source dest multiple_sources s =
     (case sys_stat source s of (st, s) \<Rightarrow>
      case st of
        None \<Rightarrow> Some (1, complain [bytes_of ''pa2_cp: cannot stat '', QUOTE, source, QUOTE, bytes_of '': '', because s] s)
      | Some source_st \<Rightarrow>
          (case cp_resolve_target source dest multiple_sources s of (resolved, s) \<Rightarrow>
           case resolved of
             None \<Rightarrow> Some (1, s)
           | Some target \<Rightarrow>
               (case sys_stat target s of (st, s) \<Rightarrow>
                if (case st of Some target_st \<Rightarrow> cp_same_file source_st target_st | None \<Rightarrow> False)
                then Some (1, complain [bytes_of ''pa2_cp: '', QUOTE, source, QUOTE, bytes_of '' and '', QUOTE, target,
                       QUOTE, bytes_of '' are the same file''] s)
                else copy_file_contents source target s)))"

fun cp_all :: "bytes list \<Rightarrow> bytes \<Rightarrow> bool \<Rightarrow> int \<Rightarrow> site \<Rightarrow> (int \<times> site) option" where
  "cp_all [] dest multiple_sources status s = Some (status, s)"
| "cp_all (source # sources) dest multiple_sources status s =
     Option.bind (copy_one source dest multiple_sources s) (\<lambda>(r, s).
       cp_all sources dest multiple_sources (if r \<noteq> 0 then 1 else status) s)"

definition cp_main :: "bytes list \<Rightarrow> site \<Rightarrow> (int \<times> site) option" where
  "cp_main args s =
     (case args of
        [] \<Rightarrow> Some (EXIT_FAILURE, complain [bytes_of ''pa2_cp: missing file operand''] s)
      | [a] \<Rightarrow> Some (EXIT_FAILURE, complain [bytes_of ''pa2_cp: missing destination file operand after '', QUOTE, a, QUOTE] s)
      | _ \<Rightarrow> map_option (\<lambda>(status, s). (exit_status status, s))
          (cp_all (butlast args) (last args) (length args > 2) 0 s))"

end
