(* ===== verification/Pa2_Options.thy ===== *)
theory Pa2_Options
  imports Pa2_Files
begin

text \<open>
  The options of the stand-alone programs, and \<^verbatim>\<open>pa2_echo.c\<close>. \<open>getopt\<close> is the function of the C library: the
  options of one cluster come one by one, an argument that is no option ends the options or, when the
  library may reorder the arguments, is kept for the end.
\<close>

section \<open>\<open>getopt\<close>\<close>

text \<open>
  The arguments that were passed over, those that are still to be read, and the rest of the
  cluster that is being read.
\<close>

record options =
  op_passed :: "bytes list"
  op_args :: "bytes list"
  op_cluster :: bytes

datatype found = Option byte "bytes option" | Unknown byte | Finished "bytes list"

definition start_options :: "bytes list \<Rightarrow> options" where
  "start_options args = \<lparr>op_passed = [], op_args = args, op_cluster = []\<rparr>"

definition is_option :: "bytes \<Rightarrow> bool" where
  "is_option a \<longleftrightarrow> length a \<ge> 2 \<and> hd a = DASH"

text \<open>\<open>known\<close> says whether a letter is an option and whether it has an argument.\<close>

definition next_letter :: "(byte \<Rightarrow> bool option) \<Rightarrow> options \<Rightarrow> found \<times> options" where
  "next_letter known st =
     (let c = hd (op_cluster st); rest = tl (op_cluster st) in
      case known c of
        None \<Rightarrow> (Unknown c, st\<lparr>op_cluster := rest\<rparr>)
      | Some False \<Rightarrow> (Option c None, st\<lparr>op_cluster := rest\<rparr>)
      | Some True \<Rightarrow>
          if rest \<noteq> [] then (Option c (Some rest), st\<lparr>op_cluster := []\<rparr>)
          else case op_args st of
            [] \<Rightarrow> (Unknown c, st\<lparr>op_cluster := []\<rparr>)
          | a # as \<Rightarrow> (Option c (Some a), st\<lparr>op_cluster := [], op_args := as\<rparr>))"

definition getopt :: "bool \<Rightarrow> (byte \<Rightarrow> bool option) \<Rightarrow> options \<Rightarrow> found \<times> options" where
  "getopt reorder known st =
     (if op_cluster st \<noteq> [] then next_letter known st
      else
        let skipped = (if reorder then takeWhile (\<lambda>a. \<not> is_option a) (op_args st) else []);
            args = drop (length skipped) (op_args st);
            passed = op_passed st @ skipped
        in case args of
             [] \<Rightarrow> (Finished passed, st\<lparr>op_passed := passed, op_args := []\<rparr>)
           | a # as \<Rightarrow>
               if a = [DASH, DASH] then (Finished (passed @ as), st\<lparr>op_passed := passed, op_args := as\<rparr>)
               else if \<not> is_option a then (Finished (passed @ args), st\<lparr>op_passed := passed, op_args := args\<rparr>)
               else next_letter known \<lparr>op_passed = passed, op_args = as, op_cluster = tl a\<rparr>)"

text \<open>Every option takes something from the arguments.\<close>

definition options_left :: "options \<Rightarrow> nat" where
  "options_left st = sum_list (map length (op_args st)) + length (op_cluster st)"

lemma next_letter_less:
  assumes "next_letter known st = (r, st')" and "op_cluster st \<noteq> []"
  shows "options_left st' < options_left st"
  using assms by (cases "op_cluster st")
    (auto simp: next_letter_def options_left_def Let_def split: option.splits bool.splits if_splits list.splits)

lemma getopt_less:
  assumes "getopt reorder known st = (r, st')" and "\<forall>as. r \<noteq> Finished as"
  shows "options_left st' < options_left st"
proof (cases "op_cluster st = []")
  case False
  then show ?thesis using assms next_letter_less by (auto simp: getopt_def)
next
  case True
  define k where "k = length (if reorder then takeWhile (\<lambda>a. \<not> is_option a) (op_args st) else [])"
  define passed where "passed = op_passed st @ (if reorder then takeWhile (\<lambda>a. \<not> is_option a) (op_args st) else [])"
  obtain a as where d: "drop k (op_args st) = a # as" and a: "is_option a"
    and n: "next_letter known \<lparr>op_passed = passed, op_args = as, op_cluster = tl a\<rparr> = (r, st')"
    using assms True unfolding getopt_def Let_def k_def [symmetric] passed_def [symmetric]
    by (auto split: list.splits if_splits)
  have "tl a \<noteq> []" using a by (cases a) (auto simp: is_option_def)
  then have 1: "options_left st' < sum_list (map length as) + length (tl a)"
    using next_letter_less [OF n] by (simp add: options_left_def)
  have "op_args st = take k (op_args st) @ a # as" using d by (metis append_take_drop_id)
  then have "sum_list (map length (op_args st)) = sum_list (map length (take k (op_args st))) + length a + sum_list (map length as)"
    by (metis add.assoc map_append sum_list.append list.simps(9) sum_list.Cons)
  then show ?thesis using 1 by (simp add: options_left_def)
qed

section \<open>\<^verbatim>\<open>pa2_echo\<close>\<close>

record echo_options =
  output_trailing_newline :: bool
  enable_backslash_escaping :: bool

definition echo_letters :: "byte \<Rightarrow> bool option" where
  "echo_letters c = (if c \<in> set (bytes_of ''neEh'') then Some False else None)"

text \<open>
  The index of the first argument to print, counted from the name of the program; \<open>None\<close> when the help
  text is asked for. The index of an option that is not known counts the arguments whose clusters
  have been read to the end.
\<close>

function handle_options :: "nat \<Rightarrow> options \<Rightarrow> echo_options \<Rightarrow> (nat \<times> echo_options) option" where
  "handle_options argc st eo =
     (case getopt False echo_letters st of (r, st') \<Rightarrow>
      case r of
        Finished args \<Rightarrow> Some (argc - length args, eo)
      | Unknown c \<Rightarrow> Some (argc - length (op_args st') - (if op_cluster st' = [] then 0 else 1) - 1, eo)
      | Option c arg \<Rightarrow>
          if c = of_char CHR ''n'' then handle_options argc st' (eo\<lparr>output_trailing_newline := False\<rparr>)
          else if c = of_char CHR ''e'' then handle_options argc st' (eo\<lparr>enable_backslash_escaping := True\<rparr>)
          else if c = of_char CHR ''E'' then handle_options argc st' (eo\<lparr>enable_backslash_escaping := False\<rparr>)
          else None)"
  by pat_completeness auto

termination
  by (relation "measure (\<lambda>(argc, st, eo). options_left st)") (auto dest!: getopt_less [OF sym])

declare handle_options.simps [simp del]

definition to_escape_char :: "byte \<Rightarrow> byte" where
  "to_escape_char c =
     (if c = of_char CHR ''n'' then 10
      else if c = of_char CHR ''t'' then 9
      else if c = 92 then 92 else c)"

text \<open>The part of the buffer that is filled; \<open>None\<close> is a write behind the buffer.\<close>

definition write_when_needed :: "bytes \<times> site \<Rightarrow> bytes \<times> site" where
  "write_when_needed bs =
     (case bs of (buffer, s) \<Rightarrow>
      if length buffer \<ge> BUFFER_SIZE - 1 then ([], snd (site_write 1 buffer s)) else (buffer, s))"

definition put_char :: "byte \<Rightarrow> bytes \<times> site \<Rightarrow> (bytes \<times> site) option" where
  "put_char c bs =
     (case write_when_needed bs of (buffer, s) \<Rightarrow>
      if length buffer < BUFFER_SIZE then Some (buffer @ [c], s) else None)"

fun echo_chars :: "bool \<Rightarrow> bytes \<Rightarrow> bytes \<times> site \<Rightarrow> (bytes \<times> site) option" where
  "echo_chars escaping [] bs = Some bs"
| "echo_chars escaping (c # cs) bs =
     (if escaping \<and> c = 92 then
        (case cs of
           [] \<Rightarrow> put_char c bs
         | c' # cs' \<Rightarrow> Option.bind (put_char (to_escape_char c') bs) (echo_chars escaping cs'))
      else Option.bind (put_char c bs) (echo_chars escaping cs))"

fun echo_args :: "bool \<Rightarrow> bytes list \<Rightarrow> bytes \<times> site \<Rightarrow> (bytes \<times> site) option" where
  "echo_args escaping [] bs = Some bs"
| "echo_args escaping (a # as) bs =
     Option.bind (echo_chars escaping a bs) (\<lambda>bs.
       if as = [] then Some bs else Option.bind (put_char 32 bs) (echo_args escaping as))"

definition usage_text :: "bytes \<Rightarrow> bytes" where
  "usage_text name = concat [
     bytes_of ''Usage: '', name, bytes_of '' [OPTION]... [STRING]...'', [10],
     bytes_of ''Echo the STRING(s) to standard output.'', [10],
     bytes_of '' -n   do not output the trailing newline'', [10],
     bytes_of '' -e   enable interpretation of backslash escapes'', [10],
     bytes_of '' -E   disable interpretation of backslash escapes (default)'', [10],
     bytes_of '' -h   display this help and exit'', [10]]"

definition echo_main :: "bytes \<Rightarrow> bytes list \<Rightarrow> site \<Rightarrow> (int \<times> site) option" where
  "echo_main name args s =
     (case handle_options (length args + 1) (start_options args)
        \<lparr>output_trailing_newline = True, enable_backslash_escaping = False\<rparr> of
        None \<Rightarrow> Some (0, snd (write_rest 1 (usage_text name) s))
      | Some (i, eo) \<Rightarrow>
          map_option (\<lambda>(buffer, s).
            let s = (if length buffer > 0 then snd (site_write 1 buffer s) else s);
                s = (if output_trailing_newline eo then snd (site_write 1 [10] s) else s)
            in (0, s))
            (echo_args (enable_backslash_escaping eo) (drop i (name # args)) ([], s)))"

end
