(* ===== verification/Pa2_Lines.thy ===== *)
theory Pa2_Lines
  imports Pa2_Options
begin

text \<open>
  \<^verbatim>\<open>pa2_head.c\<close> and \<^verbatim>\<open>pa2_tail.c\<close>. They use the streams of the C library: an input stream is the bytes it
  delivers, followed by the end of the file or by an error. An output stream has a buffer, and the file behind it
  accepts bytes until an error, if there is one. Where the errors are, is taken from the plan when the stream is
  opened.
\<close>

section \<open>Streams\<close>

record stream =
  in_rest :: bytes
  in_fails :: bool

text \<open>
  How many of the bytes that are given to an output stream stay in its buffer is left to the library: it depends on
  whether the stream is unbuffered, or buffered by lines or by blocks. The function gets the bytes that are
  written already and those that are not, and is an argument of the programs.
\<close>

type_synonym holding = "bytes \<Rightarrow> bytes \<Rightarrow> nat"

record sink =
  out_text :: bytes
  out_buffer :: bytes
  out_holds :: holding
  out_room :: "nat option"

text \<open>The bytes that the file behind a descriptor still has.\<close>

definition pending :: "int \<Rightarrow> site \<Rightarrow> bytes" where
  "pending fd s = (case fd_of (s_world s) fd of None \<Rightarrow> [] | Some f \<Rightarrow> drop (o_off f) (w_data (s_world s) (o_ino f)))"

definition stream_of :: "bytes \<Rightarrow> site \<Rightarrow> stream \<times> site" where
  "stream_of bs s =
     (case next_call s of (x, s) \<Rightarrow>
      (case x of
         Short k \<Rightarrow> \<lparr>in_rest = take k bs, in_fails = True\<rparr>
       | Fail \<Rightarrow> \<lparr>in_rest = [], in_fails = True\<rparr>
       | _ \<Rightarrow> \<lparr>in_rest = bs, in_fails = False\<rparr>, s))"

definition standard_output :: "holding \<Rightarrow> site \<Rightarrow> sink \<times> site" where
  "standard_output holds s =
     (case next_call s of (x, s) \<Rightarrow>
      (\<lparr>out_text = [], out_buffer = [], out_holds = holds,
        out_room = (case x of Short k \<Rightarrow> Some k | Fail \<Rightarrow> Some 0 | _ \<Rightarrow> None)\<rparr>, s))"

text \<open>
  \<^verbatim>\<open>fputc\<close> and \<^verbatim>\<open>fwrite\<close>: the bytes that do not stay in the buffer are written. A call succeeds when the file accepts
  these, whatever becomes of the rest; when it does not, what was in the buffer is lost.
\<close>

definition put_bytes :: "bytes \<Rightarrow> sink \<Rightarrow> bool \<times> sink" where
  "put_bytes bs out =
     (let given = out_buffer out @ bs;
          n = length given - out_holds out (out_text out) given;
          out' = out\<lparr>out_text := out_text out @ take n given, out_buffer := drop n given\<rparr>
      in case out_room out of
           None \<Rightarrow> (True, out')
         | Some k \<Rightarrow> if n \<le> k then (True, out'\<lparr>out_room := Some (k - n)\<rparr>)
             else (False, out\<lparr>out_text := out_text out @ take k given, out_buffer := [], out_room := Some 0\<rparr>))"

text \<open>
  The text behind the stream when the program has ended: \<^verbatim>\<open>exit\<close> writes the rest of the buffer, and nobody checks
  whether it was accepted.
\<close>

definition text_at_exit :: "sink \<Rightarrow> bytes" where
  "text_at_exit out = out_text out @ (case out_room out of None \<Rightarrow> out_buffer out | Some k \<Rightarrow> take k (out_buffer out))"

text \<open>A stream without a buffer, and one with a buffer that is written when it is full.\<close>

definition unbuffered :: holding where
  "unbuffered written given = 0"

definition block_buffer :: "nat \<Rightarrow> holding" where
  "block_buffer capacity written given
     = (if length given \<le> capacity then length given else (length given - capacity) mod max 1 capacity)"

section \<open>Arguments\<close>

definition parse_line_count :: "bytes \<Rightarrow> bytes \<Rightarrow> site \<Rightarrow> u64 option \<times> site" where
  "parse_line_count tool value s =
     (case strtoull value of (parsed, consumed, erange) \<Rightarrow>
      if erange \<or> value = [] \<or> consumed < length value
      then (None, complain [tool, bytes_of '': invalid number of lines: '', QUOTE, value, QUOTE] s)
      else (Some parsed, s))"

definition open_input :: "bytes \<Rightarrow> bytes option \<Rightarrow> site \<Rightarrow> stream option \<times> site" where
  "open_input tool path s =
     (case path of
        None \<Rightarrow> (case stream_of (pending 0 s) s of (fp, s) \<Rightarrow> (Some fp, s))
      | Some path \<Rightarrow>
          if path = [DASH] then (case stream_of (pending 0 s) s of (fp, s) \<Rightarrow> (Some fp, s))
          else case sys_stat path s of (st, s) \<Rightarrow>
            let cannot = (\<lambda>s. complain [tool, bytes_of '': cannot open '', QUOTE, path, QUOTE, bytes_of '' for reading: '',
                   because s] s) in
            case st of
              None \<Rightarrow> (None, cannot s)
            | Some b \<Rightarrow>
                if st_dir b
                then (None, complain [tool, bytes_of '': error reading '', QUOTE, path, QUOTE, bytes_of '': Is a directory''] s)
                else case open_read path s of (fd, s) \<Rightarrow>
                  if fd = -1 then (None, cannot s)
                  else case stream_of (pending fd s) s of (fp, s) \<Rightarrow> (Some fp, s))"

definition count_letters :: "byte \<Rightarrow> bool option" where
  "count_letters c = (if c = of_char CHR ''n'' then Some True else None)"

text \<open>The number of lines and the remaining arguments; \<open>None\<close> when the program gives up.\<close>

function line_options :: "bytes \<Rightarrow> options \<Rightarrow> u64 \<Rightarrow> site \<Rightarrow> (u64 \<times> bytes list) option \<times> site" where
  "line_options tool st line_count s =
     (case getopt True count_letters st of (r, st') \<Rightarrow>
      case r of
        Finished args \<Rightarrow> (Some (line_count, args), s)
      | Unknown c \<Rightarrow> (None, complain [tool, bytes_of '': invalid option -- '', QUOTE, [c], QUOTE] s)
      | Option c arg \<Rightarrow>
          (case parse_line_count tool (the arg) s of (n, s) \<Rightarrow>
           case n of
             None \<Rightarrow> (None, s)
           | Some n \<Rightarrow> line_options tool st' n s))"
  by pat_completeness auto

termination
  by (relation "measure (\<lambda>(tool, st, n, s). options_left st)") (auto dest!: getopt_less [OF sym])

declare line_options.simps [simp del]

section \<open>\<^verbatim>\<open>pa2_head\<close>\<close>

datatype head_end = At_end | Enough | Write_error

fun head_loop :: "nat \<Rightarrow> nat \<Rightarrow> bytes \<Rightarrow> sink \<Rightarrow> head_end \<times> sink" where
  "head_loop line_count printed_lines [] out = (At_end, out)"
| "head_loop line_count printed_lines (ch # rest) out =
     (case put_bytes [ch] out of (written, out) \<Rightarrow>
        if \<not> written then (Write_error, out)
        else if ch = 10 then
          (if printed_lines + 1 \<ge> line_count then (Enough, out)
           else head_loop line_count (printed_lines + 1) rest out)
        else head_loop line_count printed_lines rest out)"

definition print_head :: "stream \<Rightarrow> bytes \<Rightarrow> u64 \<Rightarrow> sink \<Rightarrow> site \<Rightarrow> int \<times> sink \<times> site" where
  "print_head fp label line_count out s =
     (if line_count = 0 then (0, out, s)
      else case head_loop (unat line_count) 0 (in_rest fp) out of (e, out) \<Rightarrow>
        if e = Write_error then
          (let s = fail EIO s in (1, out, complain [bytes_of ''pa2_head: write error: '', because s] s))
        else if e = At_end \<and> in_fails fp then
          (let s = fail EIO s in
           (1, out, complain [bytes_of ''pa2_head: error reading '', QUOTE, label, QUOTE, bytes_of '': '', because s] s))
        else (0, out, s))"

definition first_arg :: "bytes list \<Rightarrow> bytes option" where
  "first_arg args = (case args of [] \<Rightarrow> None | a # _ \<Rightarrow> Some a)"

definition label_of :: "bytes option \<Rightarrow> bytes" where
  "label_of path = (case path of None \<Rightarrow> [DASH] | Some p \<Rightarrow> p)"

definition head_main :: "holding \<Rightarrow> bytes list \<Rightarrow> site \<Rightarrow> int \<times> bytes \<times> site" where
  "head_main holds args s =
     (case line_options (bytes_of ''pa2_head'') (start_options args) 10 s of (r, s) \<Rightarrow>
      case r of
        None \<Rightarrow> (EXIT_FAILURE, [], s)
      | Some (line_count, args) \<Rightarrow>
          (case open_input (bytes_of ''pa2_head'') (first_arg args) s of (input, s) \<Rightarrow>
           case input of
             None \<Rightarrow> (EXIT_FAILURE, [], s)
           | Some fp \<Rightarrow>
               (case standard_output holds s of (out, s) \<Rightarrow>
                case print_head fp (label_of (first_arg args)) line_count out s of (status, out, s) \<Rightarrow>
                  (exit_status status, text_at_exit out, s))))"

section \<open>\<^verbatim>\<open>pa2_tail\<close>\<close>

text \<open>\<^verbatim>\<open>getline\<close>: a line with its newline, if it has one.\<close>

definition next_line :: "bytes \<Rightarrow> bytes \<times> bytes" where
  "next_line rest =
     (case dropWhile (\<lambda>c. c \<noteq> 10) rest of
        [] \<Rightarrow> (rest, [])
      | _ # behind \<Rightarrow> (takeWhile (\<lambda>c. c \<noteq> 10) rest @ [10], behind))"

lemma next_line_shorter: "rest \<noteq> [] \<Longrightarrow> next_line rest = (l, behind) \<Longrightarrow> length behind < length rest"
proof (cases "dropWhile (\<lambda>c. c \<noteq> (10 :: byte)) rest")
  case (Cons a list)
  then have "length (a # list) \<le> length rest" by (metis length_dropWhile_le)
  then show "next_line rest = (l, behind) \<Longrightarrow> ?thesis" using Cons by (simp add: next_line_def)
qed (simp add: next_line_def)

text \<open>The slots of the ring, each with its line; a slot that is never written is a null pointer.\<close>

function tail_loop :: "nat \<Rightarrow> bytes \<Rightarrow> bytes option list \<Rightarrow> nat \<Rightarrow> site \<Rightarrow> bytes option list \<times> nat \<times> site" where
  "tail_loop line_count rest lines total_lines s =
     (if rest = [] then (lines, total_lines, s)
      else case site_alloc (length (fst (next_line rest)) + 1) s of (allocated, s) \<Rightarrow>
        if \<not> allocated then (lines, total_lines, s)
        else tail_loop line_count (snd (next_line rest))
               (lines[total_lines mod line_count := Some (fst (next_line rest))]) (total_lines + 1) s)"
  by pat_completeness auto

termination
proof (relation "measure (\<lambda>(n, rest, lines, t, s). length rest)", goal_cases)
  case (2 n rest lines t s x y)
  then show ?case using next_line_shorter [of rest "fst (next_line rest)" "snd (next_line rest)"] by simp
qed simp

declare tail_loop.simps [simp del]

text \<open>The lines of \<open>used\<close> slots from \<open>start\<close> on; \<open>None\<close> is undefined behaviour, \<open>False\<close> a write error.\<close>

fun tail_print :: "nat \<Rightarrow> bytes option list \<Rightarrow> nat \<Rightarrow> nat list \<Rightarrow> sink \<Rightarrow> (bool \<times> sink) option" where
  "tail_print line_count lines start [] out = Some (True, out)"
| "tail_print line_count lines start (i # is) out =
     Option.bind (at lines ((start + i) mod line_count)) (\<lambda>slot.
     Option.bind slot (\<lambda>line.
       case put_bytes line out of (written, out) \<Rightarrow>
         if written then tail_print line_count lines start is out else Some (False, out)))"

definition PTRDIFF_LIMIT :: nat where "PTRDIFF_LIMIT = 2 ^ 63"

definition site_calloc :: "nat \<Rightarrow> nat \<Rightarrow> site \<Rightarrow> bool \<times> site" where
  "site_calloc count width s =
     (if count * width \<ge> PTRDIFF_LIMIT then (False, fail ENOMEM s) else site_alloc (count * width) s)"

definition print_tail :: "stream \<Rightarrow> bytes \<Rightarrow> u64 \<Rightarrow> sink \<Rightarrow> site \<Rightarrow> (int \<times> sink \<times> site) option" where
  "print_tail fp label line_count out s =
     (if line_count = 0 then Some (0, out, s)
      else case site_calloc (unat line_count) 8 s of (lines_ok, s) \<Rightarrow>
        case site_calloc (unat line_count) 8 s of (lengths_ok, s) \<Rightarrow>
        if \<not> lines_ok \<or> \<not> lengths_ok then Some (1, out, complain [bytes_of ''pa2_tail: '', because s] s)
        else case tail_loop (unat line_count) (in_rest fp) (replicate (unat line_count) None) 0 s of (lines, total_lines, s) \<Rightarrow>
          if in_fails fp then
            (let s = fail EIO s in
             Some (1, out, complain [bytes_of ''pa2_tail: error reading '', QUOTE, label, QUOTE, bytes_of '': '', because s] s))
          else
            let used = (if total_lines < unat line_count then total_lines else unat line_count);
                start = (if total_lines < unat line_count then 0 else total_lines mod unat line_count)
            in Option.bind (tail_print (unat line_count) lines start [0..<used] out) (\<lambda>(written, out).
                 if written then Some (0, out, s)
                 else let s = fail EIO s in Some (1, out, complain [bytes_of ''pa2_tail: write error: '', because s] s)))"

definition tail_options :: "options \<Rightarrow> u64 \<Rightarrow> site \<Rightarrow> (u64 \<times> bytes list) option \<times> site" where
  "tail_options = line_options (bytes_of ''pa2_tail'')"

definition tail_input :: "bytes option \<Rightarrow> site \<Rightarrow> stream option \<times> site" where
  "tail_input = open_input (bytes_of ''pa2_tail'')"

definition tail_main :: "holding \<Rightarrow> bytes list \<Rightarrow> site \<Rightarrow> (int \<times> bytes \<times> site) option" where
  "tail_main holds args s =
     (case tail_options (start_options args) 10 s of (r, s) \<Rightarrow>
      case r of
        None \<Rightarrow> Some (EXIT_FAILURE, [], s)
      | Some (line_count, args) \<Rightarrow>
          (case tail_input (first_arg args) s of (input, s) \<Rightarrow>
           case input of
             None \<Rightarrow> Some (EXIT_FAILURE, [], s)
           | Some fp \<Rightarrow>
               (case standard_output holds s of (out, s) \<Rightarrow>
                map_option (\<lambda>(status, out, s). (exit_status status, text_at_exit out, s))
                  (print_tail fp (label_of (first_arg args)) line_count out s))))"

end
