(* ===== verification/Pa2_Calls.thy ===== *)
theory Pa2_Calls
  imports Pa2_Files
begin

text \<open>
  What the system calls of the stand-alone programs leave alone, and what they give for a file that exists.
\<close>

text \<open>What the calls of a program without names leave alone.\<close>

definition calm_step :: "site \<Rightarrow> site \<Rightarrow> bool" where
  "calm_step s s' \<longleftrightarrow> s_dirs s' = s_dirs s \<and> s_root s' = s_root s \<and> s_cwd s' = s_cwd s
     \<and> w_data (s_world s') = w_data (s_world s) \<and> (\<exists>k. w_plan (s_world s') = drop k (w_plan (s_world s)))"

lemma calm_step_refl [simp]: "calm_step s s"
  by (auto simp: calm_step_def intro: exI [of _ 0])

lemma calm_step_trans: "calm_step s s' \<Longrightarrow> calm_step s' s'' \<Longrightarrow> calm_step s s''"
  by (auto simp: calm_step_def)

lemma calm_step_plan: "calm_step s s' \<Longrightarrow> x \<notin> set (w_plan (s_world s)) \<Longrightarrow> x \<notin> set (w_plan (s_world s'))"
  by (auto simp: calm_step_def dest: in_set_dropD)

lemma next_call_calm:
  assumes "next_call s = (x, s')"
  shows "calm_step s s'" and "s_err s' = s_err s" and "x = Normal \<or> x \<in> set (w_plan (s_world s))"
    and "fd_of (s_world s') = fd_of (s_world s)" and "w_nino (s_world s') = w_nino (s_world s)"
proof -
  have *: "x = Normal \<and> s' = s \<or> (\<exists>p. w_plan (s_world s) = x # p \<and> s' = s\<lparr>s_world := (s_world s)\<lparr>w_plan := p\<rparr>\<rparr>)"
    using assms by (cases "w_plan (s_world s)") (auto simp: next_call_def next_outcome_def)
  then show "x = Normal \<or> x \<in> set (w_plan (s_world s))" by auto
  show "calm_step s s'" using *
  proof
    assume "\<exists>p. w_plan (s_world s) = x # p \<and> s' = s\<lparr>s_world := (s_world s)\<lparr>w_plan := p\<rparr>\<rparr>"
    then show ?thesis by (auto simp: calm_step_def intro!: exI [of _ 1])
  qed simp
  show "s_err s' = s_err s" "fd_of (s_world s') = fd_of (s_world s)" "w_nino (s_world s') = w_nino (s_world s)"
    using * by (auto simp: fun_eq_iff)
qed

lemma fail_calm [simp]: "calm_step s (fail e s)"
  by (auto simp: calm_step_def fail_def intro: exI [of _ 0])

lemma complain_calm [simp]: "calm_step s (complain ps s)"
  by (auto simp: calm_step_def complain_def intro: exI [of _ 0])

lemma site_alloc_calm:
  assumes "site_alloc n s = (b, s')"
  shows "calm_step s s'" and "Fail \<notin> set (w_plan (s_world s)) \<Longrightarrow> b"
proof -
  obtain x s1 where x: "next_call s = (x, s1)" by force
  have r: "(b, s') = (if x = Fail then (False, fail ENOMEM s1) else (True, s1))"
    using assms x by (auto simp: site_alloc_def lift_call_def sys_alloc_def next_call_def fail_def split: prod.splits)
  show "calm_step s s'" using r next_call_calm(1) [OF x] by (auto split: if_splits intro: calm_step_trans)
  show "Fail \<notin> set (w_plan (s_world s)) \<Longrightarrow> b"
    using r next_call_calm(3) [OF x] by (cases "x = Fail") auto
qed

lemma calm_step_names:
  assumes "calm_step s s'"
  shows "resolve s' p = resolve s p" "resolve_parent s' p = resolve_parent s p" "is_dir i s' = is_dir i s"
    "entry s' d c = entry s d c" "real_names s' p = real_names s p" "way_to_parent s' p = way_to_parent s p"
    "empty_dir i s' = empty_dir i s" "w_data (s_world s') = w_data (s_world s)"
proof -
  have *: "s_dirs s' = s_dirs s" "s_root s' = s_root s" "s_cwd s' = s_cwd s" "w_data (s_world s') = w_data (s_world s)"
    using assms by (simp_all add: calm_step_def)
  show "resolve s' p = resolve s p" "is_dir i s' = is_dir i s"
    "entry s' d c = entry s d c" "real_names s' p = real_names s p" "way_to_parent s' p = way_to_parent s p"
    "empty_dir i s' = empty_dir i s" "w_data (s_world s') = w_data (s_world s)"
    by (simp_all add: * resolve_def walk_from_def is_dir_def entry_def real_names_def way_to_parent_def empty_dir_def)
  show "resolve_parent s' p = resolve_parent s p"
    unfolding resolve_parent_def walk_from_def is_dir_def * ..
qed

definition quiet_plan :: "site \<Rightarrow> bool" where
  "quiet_plan s \<longleftrightarrow> set (w_plan (s_world s)) \<subseteq> {Normal, Eintr}"

lemma quiet_plan_calm: "calm_step s s' \<Longrightarrow> quiet_plan s \<Longrightarrow> quiet_plan s'"
  unfolding calm_step_def quiet_plan_def by (metis set_drop_subset subset_trans)

lemma quiet_plan_Fail: "quiet_plan s \<Longrightarrow> Fail \<notin> set (w_plan (s_world s))"
  by (auto simp: quiet_plan_def)

lemma sys_stat_file:
  assumes "sys_stat path s = (st, s')" and "resolve s path = Inr i"
  shows "calm_step s s' \<and> fd_of (s_world s') = fd_of (s_world s) \<and> w_nino (s_world s') = w_nino (s_world s)
    \<and> (st = Some \<lparr>st_ino = i, st_dir = is_dir i s\<rparr> \<or> st = None \<and> Fail \<in> set (w_plan (s_world s)))"
proof -
  obtain x s1 where x: "next_call s = (x, s1)" by force
  note nx = next_call_calm [OF x]
  note names = calm_step_names [OF nx(1)]
  show ?thesis
  proof (cases "x = Fail")
    case True
    then have "st = None" "s' = fail EIO s1" using assms(1) x by (simp_all add: sys_stat_def)
    then show ?thesis using True nx calm_step_trans [OF nx(1) fail_calm] by (auto simp: fail_def fun_eq_iff)
  next
    case False
    then have "st = Some \<lparr>st_ino = i, st_dir = is_dir i s\<rparr>" "s' = s1"
      using assms x names by (simp_all add: sys_stat_def)
    then show ?thesis using nx by simp
  qed
qed

lemma opened_calm:
  assumes "opened i s = (fd, s')"
  shows "calm_step s s'" "0 \<le> fd" "fd_of (s_world s) fd = None"
    "fd_of (s_world s') x = (if x = fd then Some \<lparr>o_ino = i, o_off = 0, o_kind = Regular\<rparr> else fd_of (s_world s) x)"
    "w_nino (s_world s') = w_nino (s_world s)" "s_err s' = s_err s"
proof -
  obtain w where i: "install_fd \<lparr>o_ino = i, o_off = 0, o_kind = Regular\<rparr> (s_world s) = (fd, w)" and s': "s' = s\<lparr>s_world := w\<rparr>"
    using assms by (auto simp: opened_def split: prod.splits)
  note sp = install_fd_spec [OF i]
  show "calm_step s s'" using sp by (auto simp: calm_step_def s' intro: exI [of _ 0])
  show "0 \<le> fd" "fd_of (s_world s) fd = None"
    "fd_of (s_world s') x = (if x = fd then Some \<lparr>o_ino = i, o_off = 0, o_kind = Regular\<rparr> else fd_of (s_world s) x)"
    "w_nino (s_world s') = w_nino (s_world s)" "s_err s' = s_err s"
    using sp by (simp_all add: s')
qed

lemma open_read_file:
  assumes "open_read path s = (fd, s')" and "resolve s path = Inr i"
  shows "calm_step s s' \<and> w_nino (s_world s') = w_nino (s_world s) \<and>
    (fd = -1 \<and> Fail \<in> set (w_plan (s_world s)) \<and> fd_of (s_world s') = fd_of (s_world s)
     \<or> 0 \<le> fd \<and> fd_of (s_world s) fd = None \<and> fd_of (s_world s') = (fd_of (s_world s))(fd := Some \<lparr>o_ino = i, o_off = 0, o_kind = Regular\<rparr>))"
proof -
  obtain x s1 where x: "next_call s = (x, s1)" by force
  note nx = next_call_calm [OF x]
  have r1: "resolve s1 path = Inr i" using calm_step_names(1) [OF nx(1)] assms(2) by simp
  show ?thesis
  proof (cases "x = Fail")
    case True
    then show ?thesis using assms(1) x nx calm_step_trans [OF nx(1) fail_calm]
      by (auto simp: open_read_def fail_def fun_eq_iff)
  next
    case False
    then have o: "opened i s1 = (fd, s')" using assms(1) x r1 by (simp add: open_read_def)
    show ?thesis using opened_calm [OF o] nx calm_step_trans [OF nx(1)] by (auto simp: fun_eq_iff)
  qed
qed

end
