(* ===== verification/Pa2_Print.thy ===== *)
theory Pa2_Print
  imports Pa2_Lines Pa2_Calls "HOL-Library.Sublist"
begin

text \<open>
  The lines that \<open>head\<close> and \<open>tail\<close> print, against the list of the lines of the file.
\<close>

section \<open>Lines\<close>

function file_lines :: "bytes \<Rightarrow> bytes list" where
  "file_lines rest = (if rest = [] then [] else fst (next_line rest) # file_lines (snd (next_line rest)))"
  by pat_completeness auto

termination
proof (relation "measure length", goal_cases)
  case (2 rest)
  then show ?case using next_line_shorter [of rest "fst (next_line rest)" "snd (next_line rest)"] by simp
qed simp

declare file_lines.simps [simp del]

lemma file_lines_Nil [simp]: "file_lines [] = []"
  by (simp add: file_lines.simps)

lemma file_lines_step: "rest \<noteq> [] \<Longrightarrow> file_lines rest = fst (next_line rest) # file_lines (snd (next_line rest))"
  by (simp add: file_lines.simps)

lemma next_line_parts: "fst (next_line rest) @ snd (next_line rest) = rest"
proof (cases "dropWhile (\<lambda>c. c \<noteq> (10 :: byte)) rest")
  case (Cons a list)
  then have "a = 10" by (simp add: dropWhile_eq_Cons_conv)
  then show ?thesis using Cons takeWhile_dropWhile_id [of "\<lambda>c. c \<noteq> (10 :: byte)" rest] by (simp add: next_line_def)
next
  case Nil
  then show ?thesis unfolding next_line_def Nil by simp
qed

lemma concat_lines_of [simp]: "concat (file_lines rest) = rest"
proof (induction rest rule: file_lines.induct)
  case (1 rest)
  then show ?case by (cases "rest = []") (simp_all add: file_lines_step next_line_parts)
qed

lemma next_line_Cons:
  "next_line (c # cs) = (if c = 10 then ([10], cs) else (c # fst (next_line cs), snd (next_line cs)))"
proof (cases "dropWhile (\<lambda>c. c \<noteq> (10 :: byte)) cs")
  case Nil
  then have "dropWhile (\<lambda>x. x \<noteq> (10 :: byte)) (c # cs) = (if c = 10 then c # cs else [])" by simp
  then show ?thesis unfolding next_line_def Nil by simp
next
  case (Cons a list)
  then have "dropWhile (\<lambda>x. x \<noteq> (10 :: byte)) (c # cs) = (if c = 10 then c # cs else a # list)" by simp
  then show ?thesis unfolding next_line_def Cons by simp
qed

lemma file_lines_Cons:
  "file_lines (c # cs) = (if c = 10 then [10] # file_lines cs
     else if cs = [] then [[c]] else (c # hd (file_lines cs)) # tl (file_lines cs))"
  by (subst file_lines_step) (auto simp: next_line_Cons file_lines_step, simp_all add: next_line_def)

text \<open>The first lines of a text, byte by byte.\<close>

fun first_lines :: "nat \<Rightarrow> bytes \<Rightarrow> bytes" where
  "first_lines 0 cs = []"
| "first_lines (Suc n) [] = []"
| "first_lines (Suc n) (c # cs) = c # (if c = 10 then first_lines n cs else first_lines (Suc n) cs)"

lemma first_lines_Nil [simp]: "first_lines n [] = []"
  by (cases n) auto

lemma file_lines_nonempty: "cs \<noteq> [] \<Longrightarrow> file_lines cs \<noteq> []"
  by (simp add: file_lines_step)

lemma first_lines: "concat (take n (file_lines cs)) = first_lines n cs"
proof (induction n cs rule: first_lines.induct)
  case (3 n c cs)
  then show ?case
    by (cases "file_lines cs") (auto simp: file_lines_Cons file_lines_nonempty)
qed auto

lemma first_lines_append: "prefix (first_lines n xs) (first_lines n (xs @ ys))"
  by (induction n xs rule: first_lines.induct) auto

section \<open>Output\<close>

text \<open>What was given to a stream: its text and its buffer.\<close>

abbreviation given_to :: "sink \<Rightarrow> bytes" where
  "given_to out \<equiv> out_text out @ out_buffer out"

text \<open>The library holds back at most \<open>cap\<close> bytes.\<close>

definition holds_at_most :: "nat \<Rightarrow> holding \<Rightarrow> bool" where
  "holds_at_most cap holds \<longleftrightarrow> (\<forall>written given. holds written given \<le> cap)"

lemma unbuffered_holds: "holds_at_most 0 unbuffered"
  by (simp add: holds_at_most_def unbuffered_def)

lemma block_buffer_holds: "holds_at_most cap (block_buffer cap)"
proof -
  have "m mod max 1 cap \<le> cap" for m
    using mod_less_divisor [of "max 1 cap" m] by (cases "cap = 0") (auto simp: max_def)
  then show ?thesis by (auto simp: holds_at_most_def block_buffer_def)
qed

text \<open>\<open>xs\<close> is given to a stream, all of it when \<open>b\<close>; else only some of it came through.\<close>

definition prints :: "sink \<Rightarrow> bytes \<Rightarrow> bool \<Rightarrow> sink \<Rightarrow> bool" where
  "prints out xs b out' \<longleftrightarrow> out_holds out' = out_holds out
     \<and> (out_room out = None \<longrightarrow> b \<and> out_room out' = None)
     \<and> (\<forall>cap. holds_at_most cap (out_holds out) \<and> length (out_buffer out) \<le> cap \<longrightarrow> length (out_buffer out') \<le> cap)
     \<and> prefix (given_to out') (given_to out @ xs) \<and> (b \<longrightarrow> given_to out' = given_to out @ xs)"

lemma prints_nothing: "prints out [] True out"
  by (simp add: prints_def)

lemma prints_trans: "prints out xs True out1 \<Longrightarrow> prints out1 ys b out2 \<Longrightarrow> prints out (xs @ ys) b out2"
  by (simp add: prints_def)

lemma prints_stop: "prints out xs False out1 \<Longrightarrow> prints out (xs @ ys) False out1"
  unfolding prints_def append_assoc [symmetric] by (auto intro: prefix_order.trans)

lemma put_bytes_prints:
  assumes "put_bytes bs out = (b, out')"
  shows "prints out bs b out'"
proof -
  define g where "g = out_buffer out @ bs"
  define n where "n = length g - out_holds out (out_text out) g"
  define out1 where "out1 = out\<lparr>out_text := out_text out @ take n g, out_buffer := drop n g\<rparr>"
  have unf: "put_bytes bs out = (case out_room out of
           None \<Rightarrow> (True, out1)
         | Some k \<Rightarrow> if n \<le> k then (True, out1\<lparr>out_room := Some (k - n)\<rparr>)
             else (False, out\<lparr>out_text := out_text out @ take k g, out_buffer := [], out_room := Some 0\<rparr>))"
    unfolding put_bytes_def Let_def out1_def n_def g_def by (rule refl)
  have full: "given_to out @ bs = out_text out @ g" by (simp add: g_def)
  have "length (drop n g) \<le> cap" if "holds_at_most cap (out_holds out)" for cap
  proof -
    have "out_holds out (out_text out) g \<le> cap" using that by (simp add: holds_at_most_def)
    then show ?thesis unfolding n_def length_drop by linarith
  qed
  then show ?thesis using assms unfolding prints_def full unf
    by (auto simp: out1_def take_is_prefix split: option.splits if_splits)
qed

lemma text_at_exit_given: "prefix (text_at_exit out) (given_to out)"
  by (auto simp: text_at_exit_def take_is_prefix split: option.splits)

lemma text_at_exit_prints:
  assumes "prints out xs b out'" and "given_to out = []" and "holds_at_most cap (out_holds out)"
  shows "prefix (text_at_exit out') xs" and "b \<Longrightarrow> length xs \<le> length (text_at_exit out') + cap"
    and "out_room out = None \<Longrightarrow> text_at_exit out' = xs"
proof -
  have "prefix (given_to out') xs" using assms(1,2) by (simp add: prints_def)
  then show "prefix (text_at_exit out') xs" using text_at_exit_given prefix_order.trans by blast
  show "length xs \<le> length (text_at_exit out') + cap" if b
  proof -
    have "xs = given_to out'" "length (out_buffer out') \<le> cap" using assms that by (simp_all add: prints_def)
    then show ?thesis by (simp add: text_at_exit_def)
  qed
  show "text_at_exit out' = xs" if "out_room out = None"
    using assms(1,2) that by (simp add: prints_def text_at_exit_def)
qed

section \<open>\<open>head\<close>\<close>

lemma head_loop_prints:
  assumes "head_loop n k bs out = (e, out')" and "k < n"
  shows "prints out (first_lines (n - k) bs) (e \<noteq> Write_error) out'
    \<and> (e = Enough \<longrightarrow> (\<forall>ys. first_lines (n - k) (bs @ ys) = first_lines (n - k) bs))"
  using assms
proof (induction n k bs out rule: head_loop.induct)
  case (1 n k out)
  then show ?case by (auto simp: prints_nothing)
next
  case (2 n k ch rest out)
  obtain m where m: "n - k = Suc m" using 2(4) by (cases "n - k") auto
  obtain b out1 where p: "put_bytes [ch] out = (b, out1)" by force
  note pr = put_bytes_prints [OF p]
  consider (full) "\<not> b" | (enough) b "ch = 10" "n \<le> k + 1" | (line) b "ch = 10" "k + 1 < n" | (char) b "ch \<noteq> 10" by linarith
  then show ?case
  proof cases
    case full
    then have "e = Write_error" "out' = out1" using 2(3) p by auto
    then show ?thesis using prints_stop [of out "[ch]"] pr full m by auto
  next
    case enough
    then have "e = Enough" "out' = out1" "m = 0" using 2(3) m p by auto
    then show ?thesis using pr m enough(1,2) by simp
  next
    case line
    then have "head_loop n (k + 1) rest out1 = (e, out')" using 2(3) p by simp
    moreover have "n - (k + 1) = m" using m by simp
    ultimately show ?thesis using 2(1) [OF p [symmetric] _ line(2)] line m prints_trans [of out "[ch]" out1] pr by fastforce
  next
    case char
    then have "head_loop n k rest out1 = (e, out')" using 2(3) p by simp
    then show ?thesis using 2(2) [OF p [symmetric] _ char(2)] char m 2(4) prints_trans [of out "[ch]" out1] pr by fastforce
  qed
qed

section \<open>\<open>tail\<close>\<close>

text \<open>The last lines are in their slots, the newest at the total modulo the size of the ring.\<close>

definition ring_ok :: "nat \<Rightarrow> bytes list \<Rightarrow> bytes option list \<Rightarrow> bool" where
  "ring_ok n ls ring \<longleftrightarrow> length ring = n
     \<and> (\<forall>j<length ls. length ls \<le> j + n \<longrightarrow> ring ! (j mod n) = Some (ls ! j))"

lemma mod_neq:
  fixes j t n :: nat
  assumes "j < t" and "t < j + n"
  shows "j mod n \<noteq> t mod n"
proof
  assume "j mod n = t mod n"
  then have "n dvd t - j" using mod_eq_dvd_iff_nat [of j t n] assms(1) by simp
  moreover have "0 < t - j" "t - j < n" using assms by auto
  ultimately show False by (simp add: nat_dvd_not_less)
qed

lemma ring_ok_step:
  assumes "ring_ok n ls ring" and "0 < n"
  shows "ring_ok n (ls @ [l]) (ring[length ls mod n := Some l])"
proof -
  have len: "length ring = n" using assms(1) by (simp add: ring_ok_def)
  have "ring[length ls mod n := Some l] ! (j mod n) = Some ((ls @ [l]) ! j)"
    if j: "j < length ls + 1" "length ls + 1 \<le> j + n" for j
  proof (cases "j = length ls")
    case True
    then show ?thesis using len assms(2) by simp
  next
    case False
    then have "j < length ls" "length ls < j + n" using j by auto
    then show ?thesis using mod_neq [of j "length ls" n] assms(1) by (auto simp: ring_ok_def nth_append)
  qed
  then show ?thesis using len by (simp add: ring_ok_def)
qed

lemma tail_loop_ring:
  assumes "tail_loop n rest ring t s = (ring', t', s')" and "0 < n" and "ring_ok n ls ring" and "t = length ls"
    and "Fail \<notin> set (w_plan (s_world s))"
  shows "ring_ok n (ls @ file_lines rest) ring' \<and> t' = length (ls @ file_lines rest) \<and> calm_step s s'"
  using assms
proof (induction n rest ring t s arbitrary: ls rule: tail_loop.induct)
  case (1 n rest ring t s)
  show ?case
  proof (cases "rest = []")
    case True
    then show ?thesis using 1(2,4,5) by (simp add: tail_loop.simps)
  next
    case False
    obtain b s1 where a: "site_alloc (length (fst (next_line rest)) + 1) s = (b, s1)" by force
    note al = site_alloc_calm [OF a]
    have b using al(2) 1(6) by simp
    then have r: "tail_loop n (snd (next_line rest)) (ring[t mod n := Some (fst (next_line rest))]) (t + 1) s1 = (ring', t', s')"
      using 1(2) False a by (subst (asm) tail_loop.simps) simp
    have ok: "ring_ok n (ls @ [fst (next_line rest)]) (ring[t mod n := Some (fst (next_line rest))])"
      using ring_ok_step [OF 1(4,3)] 1(5) by simp
    have "Fail \<notin> set (w_plan (s_world s1))" using calm_step_plan [OF al(1) 1(6)] .
    then have "ring_ok n ((ls @ [fst (next_line rest)]) @ file_lines (snd (next_line rest))) ring'
        \<and> t' = length ((ls @ [fst (next_line rest)]) @ file_lines (snd (next_line rest))) \<and> calm_step s1 s'"
      using 1(1) [OF False a [symmetric] _ r 1(3) ok] \<open>b\<close> 1(5) by simp
    then show ?thesis using calm_step_trans [OF al(1)] by (simp add: file_lines_step [OF False])
  qed
qed

lemma tail_print_slots:
  assumes "\<forall>i\<in>set is. (start + i) mod n < length ring \<and> ring ! ((start + i) mod n) = Some (f i)"
  shows "\<exists>b out'. tail_print n ring start is out = Some (b, out') \<and> prints out (concat (map f is)) b out'"
  using assms
proof (induction "is" arbitrary: out)
  case Nil
  show ?case using prints_nothing by auto
next
  case (Cons i "is")
  obtain b out1 where p: "put_bytes (f i) out = (b, out1)" by force
  note pr = put_bytes_prints [OF p]
  have t: "tail_print n ring start (i # is) out = (if b then tail_print n ring start is out1 else Some (False, out1))"
    using Cons(2) p by simp
  show ?case
  proof (cases b)
    case True
    obtain b' out' where "tail_print n ring start is out1 = Some (b', out')" "prints out1 (concat (map f is)) b' out'"
      using Cons by (metis list.set_intros(2))
    then show ?thesis using True prints_trans [of out "f i" out1] pr unfolding t by simp
  next
    case False
    then show ?thesis using prints_stop [of out "f i"] pr unfolding t by auto
  qed
qed

lemma ring_slot:
  assumes "ring_ok n ls ring" and "0 < n" and "i < min (length ls) n"
  defines "start \<equiv> if length ls < n then 0 else length ls mod n"
  shows "(start + i) mod n < length ring" and "ring ! ((start + i) mod n) = Some (drop (length ls - n) ls ! i)"
proof -
  have len: "length ring = n" using assms(1) by (simp add: ring_ok_def)
  then show "(start + i) mod n < length ring" using assms(2) by simp
  have j: "length ls - n + i < length ls" "length ls \<le> length ls - n + i + n" using assms(3) by auto
  have "(start + i) mod n = (length ls - n + i) mod n"
  proof (cases "length ls < n")
    case False
    have "(length ls - n + i) mod n = (length ls - n + i + n) mod n" by simp
    also have "length ls - n + i + n = length ls + i" using False by simp
    also have "(length ls + i) mod n = (length ls mod n + i) mod n" by (simp add: mod_simps)
    finally show ?thesis using False by (simp add: start_def)
  qed (simp add: start_def)
  then show "ring ! ((start + i) mod n) = Some (drop (length ls - n) ls ! i)"
    using assms(1) j by (auto simp: ring_ok_def)
qed

lemma tail_print_lines:
  assumes "ring_ok n ls ring" and "0 < n"
  shows "\<exists>b out'. tail_print n ring (if length ls < n then 0 else length ls mod n)
      [0..<(if length ls < n then length ls else n)] out = Some (b, out')
    \<and> prints out (concat (drop (length ls - n) ls)) b out'"
proof -
  define start where "start = (if length ls < n then 0 else length ls mod n)"
  let ?is = "[0..<(if length ls < n then length ls else n)]"
  have "\<forall>i\<in>set ?is. (start + i) mod n < length ring \<and> ring ! ((start + i) mod n) = Some (drop (length ls - n) ls ! i)"
    using ring_slot [OF assms] by (auto simp: start_def)
  from tail_print_slots [OF this, of out] have 1: "\<exists>b out'. tail_print n ring start ?is out = Some (b, out')
    \<and> prints out (concat (map ((!) (drop (length ls - n) ls)) ?is)) b out'" .
  have "map ((!) (drop (length ls - n) ls)) ?is = drop (length ls - n) ls"
    by (rule nth_equalityI) auto
  then show ?thesis using 1 unfolding start_def by simp
qed

section \<open>The programs\<close>

text \<open>The two ways to ask for a number of lines of a file.\<close>

definition line_arguments :: "nat \<Rightarrow> bytes \<Rightarrow> bytes list set" where
  "line_arguments n path = {[bytes_of ''-n'', show_nat n, path], [path, bytes_of ''-n'', show_nat n]}"

definition plain_path :: "bytes \<Rightarrow> bool" where
  "plain_path path \<longleftrightarrow> path \<noteq> [DASH] \<and> \<not> is_option path"

lemma parse_line_count_show:
  assumes "n \<le> ULLONG_MAX"
  shows "parse_line_count tool (show_nat n) s = (Some (of_nat n), s)"
  using show_nat_digits [of n] by (simp add: parse_line_count_def strtoull_show_nat [OF assms])

lemma line_options_arguments:
  assumes "args \<in> line_arguments n path" and "plain_path path" and "n \<le> ULLONG_MAX"
  shows "line_options tool (start_options args) m s = (Some (of_nat n, [path]), s)"
proof -
  have opt: "is_option (bytes_of ''-n'')" and tl: "tl (bytes_of ''-n'') = [of_char CHR ''n'']"
    and dd: "bytes_of ''-n'' \<noteq> [DASH, DASH]"
    by (simp_all add: is_option_def bytes_of_simps DASH_def)
  have c: "count_letters 110 = Some True" by (simp add: count_letters_def)
  have 1: "line_options tool \<lparr>op_passed = [], op_args = [path], op_cluster = []\<rparr> (of_nat n) s = (Some (of_nat n, [path]), s)"
    using assms(2) by (subst line_options.simps) (simp add: getopt_def Let_def plain_path_def)
  have 2: "line_options tool \<lparr>op_passed = [path], op_args = [], op_cluster = []\<rparr> (of_nat n) s = (Some (of_nat n, [path]), s)"
    by (subst line_options.simps) (simp add: getopt_def Let_def)
  show ?thesis using assms(1) unfolding line_arguments_def
  proof (elim insertE emptyE)
    assume a: "args = [bytes_of ''-n'', show_nat n, path]"
    have "getopt True count_letters (start_options args)
        = (Option (of_char CHR ''n'') (Some (show_nat n)), \<lparr>op_passed = [], op_args = [path], op_cluster = []\<rparr>)"
      using opt dd by (simp add: a getopt_def start_options_def next_letter_def tl c)
    then show ?thesis using 1 parse_line_count_show [OF assms(3)] by (subst line_options.simps) simp
  next
    assume a: "args = [path, bytes_of ''-n'', show_nat n]"
    have "getopt True count_letters (start_options args)
        = (Option (of_char CHR ''n'') (Some (show_nat n)), \<lparr>op_passed = [path], op_args = [], op_cluster = []\<rparr>)"
      using opt dd assms(2) by (simp add: a getopt_def start_options_def next_letter_def tl c plain_path_def)
    then show ?thesis using 2 parse_line_count_show [OF assms(3)] by (subst line_options.simps) simp
  qed
qed

lemma stream_of_reads:
  assumes "stream_of bs s = (fp, s')"
  shows "calm_step s s' \<and> (\<exists>ys. in_rest fp @ ys = bs \<and> (\<not> in_fails fp \<longrightarrow> ys = [])) \<and> (quiet_plan s \<longrightarrow> \<not> in_fails fp)"
proof -
  obtain x s1 where x: "next_call s = (x, s1)" by force
  note nx = next_call_calm [OF x]
  have s': "s' = s1" using assms x by (simp add: stream_of_def)
  have "\<exists>ys. in_rest fp @ ys = bs \<and> (\<not> in_fails fp \<longrightarrow> ys = [])"
  proof (cases x)
    case (Short k)
    then show ?thesis using assms x by (auto simp: stream_of_def intro: exI [of _ "drop k bs"])
  qed (use assms x in \<open>auto simp: stream_of_def\<close>)
  moreover have "quiet_plan s \<longrightarrow> \<not> in_fails fp"
    using nx(3) assms x by (cases x) (auto simp: stream_of_def quiet_plan_def)
  ultimately show ?thesis using nx(1) s' by simp
qed

lemma open_input_reads:
  assumes "open_input tool (Some path) s = (input, s')" and "resolve s path = Inr i" and "\<not> is_dir i s" and "path \<noteq> [DASH]"
  shows "calm_step s s' \<and> (quiet_plan s \<longrightarrow> input \<noteq> None) \<and>
    (\<forall>fp. input = Some fp \<longrightarrow> (\<exists>ys. in_rest fp @ ys = w_data (s_world s) i \<and> (\<not> in_fails fp \<longrightarrow> ys = []))
      \<and> (quiet_plan s \<longrightarrow> \<not> in_fails fp))"
proof -
  obtain st s1 where st: "sys_stat path s = (st, s1)" by force
  note a = sys_stat_file [OF st assms(2)]
  obtain fd s2 where o: "open_read path s1 = (fd, s2)" by force
  have "resolve s1 path = Inr i" using calm_step_names(1) [of s s1] a assms(2) by simp
  note b = open_read_file [OF o this]
  have d: "w_data (s_world s2) = w_data (s_world s)" using a b by (simp add: calm_step_def)
  obtain fp s3 where f: "stream_of (pending fd s2) s2 = (fp, s3)" by force
  note c = stream_of_reads [OF f]
  have q: "quiet_plan s \<Longrightarrow> quiet_plan s1" "quiet_plan s \<Longrightarrow> quiet_plan s2" using a b quiet_plan_calm by blast+
  show ?thesis
  proof (cases st)
    case None
    then have "input = None" "calm_step s1 s'" using assms(1,4) st by (auto simp: open_input_def Let_def)
    then show ?thesis using a None quiet_plan_Fail [of s] calm_step_trans by auto
  next
    case (Some x)
    then have x: "\<not> st_dir x" using a assms(3) by auto
    show ?thesis
    proof (cases "fd = -1")
      case True
      then have "input = None" "calm_step s2 s'" using assms(1,4) st Some x o by (auto simp: open_input_def Let_def)
      moreover have "\<not> quiet_plan s" using True b q(1) quiet_plan_Fail [of s1] by auto
      ultimately show ?thesis using a b calm_step_trans by blast
    next
      case False
      then have "pending fd s2 = w_data (s_world s) i" using b d by (auto simp: pending_def)
      moreover have "input = Some fp" "s' = s3" using assms(1,4) st Some x o False f by (simp_all add: open_input_def Let_def)
      moreover have "calm_step s s3" using a b c calm_step_trans by blast
      ultimately show ?thesis using c q(2) by simp
    qed
  qed
qed

lemma standard_output_sink:
  assumes "standard_output holds s = (out, s')"
  shows "calm_step s s' \<and> given_to out = [] \<and> out_holds out = holds \<and> (quiet_plan s \<longrightarrow> out_room out = None)"
proof -
  obtain x s1 where x: "next_call s = (x, s1)" by force
  note nx = next_call_calm [OF x]
  show ?thesis using assms x nx by (cases x) (auto simp: standard_output_def quiet_plan_def)
qed

text \<open>
  What a program that should print \<open>full\<close> may come to: on success the text lacks at most what the library held
  back, and when no call fails it is complete.
\<close>

definition shows_text :: "nat \<Rightarrow> bool \<Rightarrow> bytes \<Rightarrow> int \<Rightarrow> bytes \<Rightarrow> bool" where
  "shows_text cap calls_ok full r shown \<longleftrightarrow> prefix shown full \<and> (r = EXIT_SUCCESS \<longrightarrow> length full \<le> length shown + cap)
     \<and> (calls_ok \<longrightarrow> r = EXIT_SUCCESS \<and> shown = full)"

lemma head_prints:
  assumes "args \<in> line_arguments n path" and "plain_path path" and "n \<le> ULLONG_MAX"
    and "resolve s path = Inr i" and "\<not> is_dir i s" and hs: "holds_at_most cap holds"
  defines "text \<equiv> concat (take n (file_lines (w_data (s_world s) i)))"
  shows "\<exists>r shown_text s'. head_main holds args s = (r, shown_text, s') \<and> shows_text cap (quiet_plan s) text r shown_text"
proof -
  have o: "line_options (bytes_of ''pa2_head'') (start_options args) 10 s = (Some (of_nat n, [path]), s)"
    by (rule line_options_arguments [OF assms(1-3)])
  obtain input s1 where i: "open_input (bytes_of ''pa2_head'') (Some path) s = (input, s1)" by force
  have "path \<noteq> [DASH]" using assms(2) by (simp add: plain_path_def)
  note a = open_input_reads [OF i assms(4,5) this]
  have fa: "first_arg [path] = Some path" by (simp add: first_arg_def)
  show ?thesis
  proof (cases input)
    case None
    then show ?thesis using a by (simp add: head_main_def o fa i EXIT_SUCCESS_def EXIT_FAILURE_def shows_text_def)
  next
    case (Some fp)
    obtain out s2 where so: "standard_output holds s1 = (out, s2)" by force
    note b = standard_output_sink [OF so]
    obtain r out' s3 where h: "print_head fp (label_of (Some path)) (of_nat n) out s2 = (r, out', s3)" using prod_cases3 by blast
    have m: "head_main holds args s = (exit_status r, text_at_exit out', s3)"
      by (simp add: head_main_def o fa i Some so h)
    have un: "unat (of_nat n :: u64) = n" using assms(3) by (intro unat_u64) (simp add: ULLONG_MAX_def)
    obtain ys where ys: "in_rest fp @ ys = w_data (s_world s) i" "\<not> in_fails fp \<longrightarrow> ys = []" using a Some by auto
    have ok: "prefix (text_at_exit out') text \<and> (r = 0 \<longrightarrow> length text \<le> length (text_at_exit out') + cap)
        \<and> (quiet_plan s \<longrightarrow> r = 0 \<and> text_at_exit out' = text)"
    proof (cases "n = 0")
      case True
      then have "out' = out" "r = 0" "text = []" using h by (simp_all add: print_head_def text_def)
      then show ?thesis using text_at_exit_prints [OF prints_nothing, of out] b hs by auto
    next
      case False
      then have n0: "of_nat n \<noteq> (0 :: u64)" using un by (metis unat_0)
      obtain e out1 where l: "head_loop n 0 (in_rest fp) out = (e, out1)" by force
      have out': "out' = out1" and r: "r = (if e = Write_error \<or> e = At_end \<and> in_fails fp then 1 else 0)"
        using h n0 l un by (auto simp: print_head_def Let_def split: if_splits)
      let ?xs = "first_lines n (in_rest fp)"
      have hp: "prints out ?xs (e \<noteq> Write_error) out1" "e = Enough \<longrightarrow> (\<forall>ys. first_lines n (in_rest fp @ ys) = ?xs)"
        using head_loop_prints [OF l] False by auto
      have sh: "prefix (text_at_exit out1) ?xs" "e \<noteq> Write_error \<Longrightarrow> length ?xs \<le> length (text_at_exit out1) + cap"
        "out_room out = None \<Longrightarrow> text_at_exit out1 = ?xs"
        using text_at_exit_prints [OF hp(1)] b hs by auto
      have "text = first_lines n (in_rest fp @ ys)" by (simp add: text_def first_lines ys(1))
      moreover from this have "prefix ?xs text" using first_lines_append [of n "in_rest fp" ys] by simp
      moreover have "r = 0 \<longrightarrow> e \<noteq> Write_error \<and> text = ?xs"
        using r hp(2) ys(2) calculation(1) by (cases e) (auto split: if_splits)
      moreover have "quiet_plan s \<longrightarrow> r = 0 \<and> out_room out = None"
        using r hp(1) b a Some quiet_plan_calm [of s s1] by (auto simp: prints_def)
      ultimately show ?thesis using sh out' prefix_order.trans by metis
    qed
    then show ?thesis unfolding m by (auto simp: shows_text_def exit_status_def EXIT_SUCCESS_def EXIT_FAILURE_def)
  qed
qed

lemma site_calloc_calm:
  assumes "site_calloc n k s = (b, s')"
  shows "calm_step s s'" and "Fail \<notin> set (w_plan (s_world s)) \<Longrightarrow> n * k < PTRDIFF_LIMIT \<Longrightarrow> b"
  using assms site_alloc_calm [of "n * k" s b s'] by (auto simp: site_calloc_def split: if_splits)

lemma print_tail_lines:
  assumes "Fail \<notin> set (w_plan (s_world s))" and "unat n * 8 < PTRDIFF_LIMIT"
  shows "\<exists>r out' s'. print_tail fp label n out s = Some (r, out', s')
    \<and> (if n \<noteq> 0 \<and> in_fails fp then r \<noteq> 0 \<and> out' = out
       else prints out (concat (drop (length (file_lines (in_rest fp)) - unat n) (file_lines (in_rest fp)))) (r = 0) out')"
proof (cases "n = 0")
  case True
  then show ?thesis by (simp add: print_tail_def prints_nothing)
next
  case False
  then have n0: "0 < unat n" by (simp add: unat_gt_0)
  obtain a s1 where a: "site_calloc (unat n) 8 s = (a, s1)" by force
  note al1 = site_calloc_calm [OF a]
  obtain b s2 where b: "site_calloc (unat n) 8 s1 = (b, s2)" by force
  note al2 = site_calloc_calm [OF b]
  have p1: "Fail \<notin> set (w_plan (s_world s1))" using calm_step_plan [OF al1(1) assms(1)] .
  have p2: "Fail \<notin> set (w_plan (s_world s2))" using calm_step_plan [OF al2(1) p1] .
  have ab: a b using al1(2) al2(2) assms p1 by auto
  obtain ring t s3 where l: "tail_loop (unat n) (in_rest fp) (replicate (unat n) None) 0 s2 = (ring, t, s3)"
    using prod_cases3 by blast
  have "ring_ok (unat n) [] (replicate (unat n) None)" by (simp add: ring_ok_def)
  from tail_loop_ring [OF l n0 this _ p2] have r: "ring_ok (unat n) (file_lines (in_rest fp)) ring" "t = length (file_lines (in_rest fp))"
    by auto
  obtain w out' where "tail_print (unat n) ring (if t < unat n then 0 else t mod unat n)
      [0..<(if t < unat n then t else unat n)] out = Some (w, out')"
    "prints out (concat (drop (t - unat n) (file_lines (in_rest fp)))) w out'"
    using tail_print_lines [OF r(1) n0, of out, folded r(2)] by (elim exE conjE) (rule that)
  then show ?thesis using False a b ab l r(2) by (cases w) (auto simp: print_tail_def Let_def)
qed

lemma tail_prints:
  assumes "args \<in> line_arguments n path" and "plain_path path" and "n * 8 < PTRDIFF_LIMIT"
    and "resolve s path = Inr i" and "\<not> is_dir i s" and "Fail \<notin> set (w_plan (s_world s))" and hs: "holds_at_most cap holds"
  defines "ls \<equiv> file_lines (w_data (s_world s) i)"
  shows "\<exists>r shown_text s'. tail_main holds args s = Some (r, shown_text, s')
    \<and> shows_text cap (quiet_plan s) (concat (drop (length ls - n) ls)) r shown_text"
proof -
  have n: "n \<le> ULLONG_MAX" using assms(3) by (simp add: ULLONG_MAX_def PTRDIFF_LIMIT_def)
  have un: "unat (of_nat n :: u64) = n" using n by (intro unat_u64) (simp add: ULLONG_MAX_def)
  have o: "tail_options (start_options args) 10 s = (Some (of_nat n, [path]), s)"
    unfolding tail_options_def by (rule line_options_arguments [OF assms(1,2) n])
  obtain input s1 where i: "tail_input (Some path) s = (input, s1)" by force
  have "path \<noteq> [DASH]" using assms(2) by (simp add: plain_path_def)
  note a = open_input_reads [OF i [unfolded tail_input_def] assms(4,5) this]
  have fa: "first_arg [path] = Some path" by (simp add: first_arg_def)
  show ?thesis
  proof (cases input)
    case None
    then show ?thesis using a by (simp add: tail_main_def o fa i EXIT_SUCCESS_def EXIT_FAILURE_def shows_text_def)
  next
    case (Some fp)
    obtain out s2 where so: "standard_output holds s1 = (out, s2)" by force
    note b = standard_output_sink [OF so]
    have "Fail \<notin> set (w_plan (s_world s2))" using a b assms(6) calm_step_plan by blast
    then obtain r out' s3 where h: "print_tail fp (label_of (Some path)) (of_nat n) out s2 = Some (r, out', s3)"
      and t: "if of_nat n \<noteq> (0 :: u64) \<and> in_fails fp then r \<noteq> 0 \<and> out' = out
        else prints out (concat (drop (length (file_lines (in_rest fp)) - n) (file_lines (in_rest fp)))) (r = 0) out'"
      using print_tail_lines [of s2 "of_nat n" fp "label_of (Some path)" out, unfolded un] assms(3) by blast
    have m: "tail_main holds args s = Some (exit_status r, text_at_exit out', s3)"
      by (simp add: tail_main_def o fa i Some so h)
    obtain ys where ys: "in_rest fp @ ys = w_data (s_world s) i" "\<not> in_fails fp \<longrightarrow> ys = []" using a Some by auto
    let ?full = "concat (drop (length ls - n) ls)"
    have q: "quiet_plan s \<longrightarrow> \<not> in_fails fp \<and> out_room out = None" using a b Some quiet_plan_calm [of s s1] by auto
    have ok: "prefix (text_at_exit out') ?full \<and> (r = 0 \<longrightarrow> length ?full \<le> length (text_at_exit out') + cap)
        \<and> (quiet_plan s \<longrightarrow> r = 0 \<and> text_at_exit out' = ?full)"
    proof (cases "of_nat n \<noteq> (0 :: u64) \<and> in_fails fp")
      case True
      then have "text_at_exit out' = []" "r \<noteq> 0"
        using t text_at_exit_prints(1) [OF prints_nothing, of out] b hs by auto
      then show ?thesis using True q by auto
    next
      case False
      have "prints out ?full (r = 0) out'"
      proof (cases "in_fails fp")
        case True
        then have "n = 0" using False un by auto
        then show ?thesis using t by simp
      next
        case f: False
        then show ?thesis using t ys by (simp add: ls_def)
      qed
      note pr = this
      have "quiet_plan s \<longrightarrow> r = 0" using pr q by (auto simp: prints_def)
      then show ?thesis using text_at_exit_prints [OF pr] b hs q by auto
    qed
    then show ?thesis unfolding m by (auto simp: shows_text_def exit_status_def EXIT_SUCCESS_def EXIT_FAILURE_def)
  qed
qed

end
