(* ===== verification/Pa2_Transfer.thy ===== *)
theory Pa2_Transfer
  imports Pa2_Calls
begin

text \<open>
  The copying loop: everything that is left of the input is appended to the output, over short transfers;
  an interruption or a failure ends it with a part copied.
\<close>

definition smooth :: "site \<Rightarrow> bool" where
  "smooth s \<longleftrightarrow> Fail \<notin> set (w_plan (s_world s)) \<and> Eintr \<notin> set (w_plan (s_world s))"

definition plan_rest :: "site \<Rightarrow> site \<Rightarrow> bool" where
  "plan_rest s s' \<longleftrightarrow> (\<exists>k. w_plan (s_world s') = drop k (w_plan (s_world s)))"

lemma plan_rest_refl [simp]: "plan_rest s s"
  by (auto simp: plan_rest_def intro: exI [of _ 0])

lemma plan_rest_trans: "plan_rest s s' \<Longrightarrow> plan_rest s' s'' \<Longrightarrow> plan_rest s s''"
  by (auto simp: plan_rest_def)

lemma smooth_rest: "plan_rest s s' \<Longrightarrow> smooth s \<Longrightarrow> smooth s'"
  by (auto simp: plan_rest_def smooth_def dest: in_set_dropD)

lemma calm_step_rest: "calm_step s s' \<Longrightarrow> plan_rest s s'"
  by (simp add: calm_step_def plan_rest_def)

text \<open>What no transfer changes.\<close>

definition same_names :: "site \<Rightarrow> site \<Rightarrow> bool" where
  "same_names s s' \<longleftrightarrow> s_dirs s' = s_dirs s \<and> s_root s' = s_root s \<and> s_cwd s' = s_cwd s \<and> s_err s' = s_err s
     \<and> w_nino (s_world s') = w_nino (s_world s)"

lemma same_names_refl [simp]: "same_names s s"
  by (simp add: same_names_def)

lemma same_names_trans: "same_names s s' \<Longrightarrow> same_names s' s'' \<Longrightarrow> same_names s s''"
  by (simp add: same_names_def)

text \<open>The bytes went to the end of the file behind a descriptor, and nothing else has changed.\<close>

definition appended :: "int \<Rightarrow> ofd \<Rightarrow> bytes \<Rightarrow> site \<Rightarrow> site \<Rightarrow> bool" where
  "appended fd g xs s s' \<longleftrightarrow> same_names s s' \<and> plan_rest s s'
     \<and> w_data (s_world s') = (w_data (s_world s))(o_ino g := w_data (s_world s) (o_ino g) @ xs)
     \<and> fd_of (s_world s') = (fd_of (s_world s))(fd := Some (g\<lparr>o_off := o_off g + length xs\<rparr>))"

definition at_end :: "ofd \<Rightarrow> site \<Rightarrow> bool" where
  "at_end g s \<longleftrightarrow> o_kind g = Stream \<or> o_off g = length (w_data (s_world s) (o_ino g))"

lemma put_at_end: "at_end g s \<Longrightarrow> put_at (o_kind g) (o_off g) bs (w_data (s_world s) (o_ino g)) = w_data (s_world s) (o_ino g) @ bs"
  by (auto simp: at_end_def put_at_def)

lemma next_outcome_rest:
  assumes "next_outcome w = (x, w')"
  shows "w' = w\<lparr>w_plan := w_plan w'\<rparr>" "\<exists>k. w_plan w' = drop k (w_plan w)" "x = Normal \<or> x \<in> set (w_plan w)"
  using assms by (cases "w_plan w"; auto simp: next_outcome_def intro: exI [of _ 0] exI [of _ 1])+

lemma site_write_appends:
  assumes "site_write fd bs s = (r, s')" and "fd_of (s_world s) fd = Some g" and "at_end g s" and "bs \<noteq> []"
  shows "r < 0 \<and> \<not> smooth s \<and> appended fd g [] s s'
    \<or> (\<exists>m. r = int m \<and> 0 < m \<and> m \<le> length bs \<and> appended fd g (take m bs) s s')"
proof -
  obtain x w1 where x: "next_outcome (s_world s) = (x, w1)" by force
  note nx = next_outcome_rest [OF x]
  have f1: "fd_of w1 fd' = fd_of (s_world s) fd'" for fd' by (subst nx(1)) simp
  have w1: "w_data w1 = w_data (s_world s)" "w_nino w1 = w_nino (s_world s)" by (subst nx(1), simp)+
  show ?thesis
  proof (cases "x = Eintr \<or> x = Fail")
    case True
    then have "r < 0" and s': "s' = s\<lparr>s_world := set_errno (w_errno (s_world s')) w1\<rparr>"
      using assms(1,2) f1 by (auto simp: site_write_def lift_call_def sys_write_def x set_errno_def)
    moreover have "\<not> smooth s" using True nx(3) by (auto simp: smooth_def)
    moreover have "appended fd g [] s s'"
      using nx(2) assms(2) f1 w1 by (subst s') (auto simp: appended_def same_names_def plan_rest_def fun_eq_iff)
    ultimately show ?thesis by simp
  next
    case False
    define m where "m = write_limit x (length bs)"
    have m: "0 < m" "m \<le> length bs" using assms(4) by (auto simp: m_def write_limit_def split: outcome.split)
    have w: "sys_write fd bs (s_world s) = (int m, set_fd fd (Some (g\<lparr>o_off := o_off g + m\<rparr>))
        (w1\<lparr>w_data := (w_data w1)(o_ino g := put_at (o_kind g) (o_off g) (take m bs) (w_data w1 (o_ino g)))\<rparr>))"
      using False m(2) f1 assms(2) by (simp add: sys_write_def x m_def [symmetric] Let_def min_absorb2)
    have "r = int m" "appended fd g (take m bs) s s'"
      using assms(1) nx(2) w1 m(2) put_at_end [OF assms(3)] assms(2) f1
      by (auto simp: site_write_def lift_call_def w appended_def same_names_def plan_rest_def fun_eq_iff fd_of_set_fd)
    then show ?thesis using m by blast
  qed
qed

lemma appended_trans:
  assumes "appended fd g xs s s'" and "appended fd (g\<lparr>o_off := o_off g + length xs\<rparr>) ys s' s''"
  shows "appended fd g (xs @ ys) s s''"
  using assms by (auto simp: appended_def intro: same_names_trans plan_rest_trans)

lemma appended_at_end: "appended fd g xs s s' \<Longrightarrow> at_end g s \<Longrightarrow> at_end (g\<lparr>o_off := o_off g + length xs\<rparr>) s'"
  by (auto simp: appended_def at_end_def)

lemma appended_fd: "appended fd g xs s s' \<Longrightarrow> fd_of (s_world s') fd = Some (g\<lparr>o_off := o_off g + length xs\<rparr>)"
  by (simp add: appended_def)

lemma appended_rest: "appended fd g xs s s' \<Longrightarrow> plan_rest s s'"
  by (simp add: appended_def)

lemma appended_Nil: "fd_of (s_world s) fd = Some g \<Longrightarrow> appended fd g [] s s"
  by (auto simp: appended_def)

lemma write_rest_appends:
  assumes "write_rest fd bs s = (written, s')" and "fd_of (s_world s) fd = Some g" and "at_end g s"
  shows "\<exists>k\<le>length bs. appended fd g (take k bs) s s' \<and> (written \<longrightarrow> k = length bs) \<and> (\<not> written \<longrightarrow> \<not> smooth s)"
  using assms
proof (induction fd bs s arbitrary: g rule: write_rest.induct)
  case (1 fd bs s)
  show ?case
  proof (cases "bs = []")
    case True
    then show ?thesis using 1(2,3) appended_Nil [OF 1(3)] by (simp add: write_rest.simps)
  next
    case False
    obtain r s1 where r: "site_write fd bs s = (r, s1)" by force
    from site_write_appends [OF r 1(3,4) False] show ?thesis
    proof (elim disjE exE conjE)
      assume "r < 0" "\<not> smooth s" "appended fd g [] s s1"
      then show ?thesis using 1(2) False r by (intro exI [of _ 0]) (simp add: write_rest.simps [of fd bs s])
    next
      fix m assume m: "r = int m" "0 < m" "m \<le> length bs" and a: "appended fd g (take m bs) s s1"
      have w: "write_rest fd (drop m bs) s1 = (written, s')"
        using 1(2) False r m by (simp add: write_rest.simps [of fd bs s])
      define g1 where "g1 = g\<lparr>o_off := o_off g + length (take m bs)\<rparr>"
      have "fd_of (s_world s1) fd = Some g1" "at_end g1 s1"
        using appended_fd [OF a] appended_at_end [OF a 1(4)] by (simp_all add: g1_def)
      then obtain k where k: "k \<le> length (drop m bs)" "appended fd g1 (take k (drop m bs)) s1 s'"
        "written \<longrightarrow> k = length (drop m bs)" "\<not> written \<longrightarrow> \<not> smooth s1"
        using 1(1) [OF False r [symmetric], of g1] m w by auto
      have "take m bs @ take k (drop m bs) = take (m + k) bs" by (simp add: take_add)
      then have "appended fd g (take (m + k) bs) s s'" using appended_trans [OF a k(2) [unfolded g1_def]] by simp
      moreover have "\<not> written \<longrightarrow> \<not> smooth s" using k(4) smooth_rest [OF appended_rest [OF a]] by blast
      ultimately show ?thesis using k m by (intro exI [of _ "m + k"]) auto
    qed
  qed
qed

lemma site_read_file:
  assumes "site_read fd n s = (r, bs, s')" and "fd_of (s_world s) fd = Some f" and "\<not> is_dir (o_ino f) s" and "0 < n"
  shows "same_names s s' \<and> plan_rest s s' \<and> w_data (s_world s') = w_data (s_world s)
    \<and> fd_of (s_world s') = (fd_of (s_world s))(fd := Some (f\<lparr>o_off := o_off f + length bs\<rparr>))
    \<and> (r < 0 \<and> bs = [] \<and> \<not> smooth s
       \<or> r = int (length bs) \<and> (\<exists>m>0. bs = take m (drop (o_off f) (w_data (s_world s) (o_ino f)))))"
proof -
  obtain x w1 where x: "next_outcome (s_world s) = (x, w1)" by force
  note nx = next_outcome_rest [OF x]
  have f1: "fd_of w1 fd' = fd_of (s_world s) fd'" for fd' by (subst nx(1)) simp
  have w1: "w_data w1 = w_data (s_world s)" "w_nino w1 = w_nino (s_world s)" by (subst nx(1), simp)+
  have rd: "site_read fd n s = (case sys_read fd n (s_world s) of (r, bs, w) \<Rightarrow> (r, bs, s\<lparr>s_world := w\<rparr>))"
    using assms(2,3) by (simp add: site_read_def)
  show ?thesis
  proof (cases "x = Eintr \<or> x = Fail")
    case True
    then have "r < 0" "bs = []" and s': "s' = s\<lparr>s_world := set_errno (w_errno (s_world s')) w1\<rparr>"
      using assms(1,2) f1 unfolding rd by (auto simp: sys_read_def x set_errno_def)
    moreover have "\<not> smooth s" using True nx(3) by (auto simp: smooth_def)
    moreover have "same_names s s' \<and> plan_rest s s' \<and> w_data (s_world s') = w_data (s_world s) \<and> fd_of (s_world s') = fd_of (s_world s)"
      using nx(2) f1 w1 by (subst (1 2 3 4) s') (auto simp: same_names_def plan_rest_def fun_eq_iff)
    ultimately show ?thesis using assms(2) by (auto simp: fun_eq_iff)
  next
    case False
    define m where "m = read_limit x (o_kind f) n"
    have m: "0 < m" using assms(4) by (auto simp: m_def read_limit_def split: outcome.split)
    have "r = int (length bs)" "bs = take m (drop (o_off f) (w_data (s_world s) (o_ino f)))"
      "s' = s\<lparr>s_world := set_fd fd (Some (f\<lparr>o_off := o_off f + length bs\<rparr>)) w1\<rparr>"
      using assms(1,2) f1 False w1 unfolding rd by (auto simp: sys_read_def x Let_def m_def)
    then show ?thesis using m nx(2) w1 f1 assms(2)
      by (auto simp: same_names_def plan_rest_def fun_eq_iff fd_of_set_fd)
  qed
qed

section \<open>The loop\<close>

definition copied :: "int \<Rightarrow> ofd \<Rightarrow> int \<Rightarrow> ofd \<Rightarrow> bytes \<Rightarrow> site \<Rightarrow> site \<Rightarrow> bool" where
  "copied input f output g xs s s' \<longleftrightarrow> same_names s s' \<and> plan_rest s s'
     \<and> w_data (s_world s') = (w_data (s_world s))(o_ino g := w_data (s_world s) (o_ino g) @ xs)
     \<and> (\<exists>n. fd_of (s_world s') = (fd_of (s_world s))(input := Some (f\<lparr>o_off := n\<rparr>),
           output := Some (g\<lparr>o_off := o_off g + length xs\<rparr>)))"

definition left_of :: "ofd \<Rightarrow> site \<Rightarrow> bytes" where
  "left_of f s = drop (o_off f) (w_data (s_world s) (o_ino f))"

lemma same_names_dir: "same_names s s' \<Longrightarrow> is_dir i s' = is_dir i s"
  by (simp add: same_names_def is_dir_def)

lemma copied_after_read:
  assumes "copied input (f\<lparr>o_off := n\<rparr>) output g xs s1 s'" and "same_names s s1" and "plan_rest s s1"
    and "w_data (s_world s1) = w_data (s_world s)" and "fd_of (s_world s1) = (fd_of (s_world s))(input := Some (f\<lparr>o_off := n\<rparr>))"
    and "input \<noteq> output"
  shows "copied input f output g xs s s'"
  using assms by (auto simp: copied_def intro: same_names_trans plan_rest_trans)

lemma copied_after_write:
  assumes "copied input f output (g\<lparr>o_off := o_off g + length xs\<rparr>) ys s1 s'" and "appended output g xs s s1" and "input \<noteq> output"
  shows "copied input f output g (xs @ ys) s s'"
proof -
  have "fd_of (s_world s1) = (fd_of (s_world s))(output := Some (g\<lparr>o_off := o_off g + length xs\<rparr>))"
    using assms(2) by (simp add: appended_def)
  then show ?thesis using assms
    by (auto simp: copied_def appended_def fun_upd_twist [OF assms(3)] add.assoc intro: same_names_trans plan_rest_trans)
qed

theorem transfer_copies:
  assumes "fd_of (s_world s) input = Some f" and "\<not> is_dir (o_ino f) s" and "fd_of (s_world s) output = Some g"
    and "input \<noteq> output" and "o_ino f \<noteq> o_ino g" and "at_end g s"
  shows "\<exists>r s' k. transfer input output s = Some (r, s') \<and> copied input f output g (take k (left_of f s)) s s'
    \<and> (r = Copied \<longrightarrow> length (left_of f s) \<le> k) \<and> (r \<noteq> Copied \<longrightarrow> \<not> smooth s)"
  using assms
proof (induction "length (left_of f s)" arbitrary: f g s rule: less_induct)
  case less
  obtain n bs s1 where rd: "site_read input BUFFER_SIZE s = (n, bs, s1)" using prod_cases3 by blast
  have buf: "0 < BUFFER_SIZE" by (simp add: BUFFER_SIZE_def)
  note a = site_read_file [OF rd less(2,3) buf]
  define f1 where "f1 = f\<lparr>o_off := o_off f + length bs\<rparr>"
  have fd1: "fd_of (s_world s1) = (fd_of (s_world s))(input := Some f1)" and d1: "w_data (s_world s1) = w_data (s_world s)"
    using a by (simp_all add: f1_def)
  have out1: "fd_of (s_world s1) output = Some g" using fd1 less(4,5) by simp
  have end1: "at_end g s1" using less(7) d1 by (simp add: at_end_def)
  have read1: "copied input f output g xs s s'" if "copied input f1 output g xs s1 s'" for xs s'
    using copied_after_read [where n = "o_off f + length bs"] that a less(5) by (simp add: f1_def)
  have idle: "copied input f output g (take 0 (left_of f s)) s s1"
    using a fd1 out1 less(4) by (auto simp: copied_def f1_def fun_eq_iff)
  show ?case
  proof (cases "bs = []")
    case True
    show ?thesis
    proof (cases "n < 0")
      case True
      then have "transfer input output s = Some (Read_failed, s1)" by (simp add: transfer.simps rd)
      moreover have "\<not> smooth s" using a True by auto
      ultimately show ?thesis using idle by blast
    next
      case False
      then have n: "n = 0" "left_of f s = []" using a \<open>bs = []\<close> by (auto simp: left_of_def)
      then have "transfer input output s = Some (Copied, s1)" by (simp add: transfer.simps rd)
      then show ?thesis using n idle by fastforce
    qed
  next
    case False
    obtain m where m: "0 < m" "bs = take m (left_of f s)" "n = int (length bs)"
      using a False by (auto simp: left_of_def)
    obtain written s2 where w: "write_rest output bs s1 = (written, s2)" by force
    obtain k where k: "k \<le> length bs" "appended output g (take k bs) s1 s2" "written \<longrightarrow> k = length bs"
      "\<not> written \<longrightarrow> \<not> smooth s1" using write_rest_appends [OF w out1 end1] by blast
    have tk: "take k bs = take k (left_of f s)" using k(1) m(2) by (metis length_take min.bounded_iff min.absorb1 take_take)
    define g1 where "g1 = g\<lparr>o_off := o_off g + length (take k bs)\<rparr>"
    have fd2: "fd_of (s_world s2) = (fd_of (s_world s1))(output := Some g1)" using k(2) by (simp add: appended_def g1_def)
    show ?thesis
    proof (cases written)
      case False
      have "transfer input output s = Some (Write_failed, s2)" using m(3) \<open>bs \<noteq> []\<close> False by (simp add: transfer.simps rd w)
      moreover have "copied input f1 output g (take k bs) s1 s2"
        using k(2) fd1 less(5) by (auto simp: copied_def appended_def f1_def fun_eq_iff)
      moreover have "\<not> smooth s" using k(4) False a smooth_rest by blast
      ultimately show ?thesis using read1 [of "take k bs" s2] tk
        by (intro exI [of _ Write_failed] exI [of _ s2] exI [of _ k]) simp
    next
      case True
      then have kb: "take k bs = bs" using k by simp
      have t: "transfer input output s = transfer input output s2"
        using m(3) \<open>bs \<noteq> []\<close> True by (subst transfer.simps) (simp add: rd w)
      have ino: "o_ino f1 = o_ino f" "o_ino g1 = o_ino g" by (simp_all add: f1_def g1_def)
      have d2: "w_data (s_world s2) (o_ino f) = w_data (s_world s) (o_ino f)"
        using k(2) less(6) d1 by (simp add: appended_def)
      have left: "left_of f1 s2 = drop (length bs) (left_of f s)"
        using d2 by (simp add: left_of_def f1_def add.commute)
      have lb: "length bs \<le> length (left_of f s)" "0 < length bs" using m(2) \<open>bs \<noteq> []\<close> by auto
      have dir: "\<not> is_dir (o_ino f1) s2"
        using less(3) ino a k(2) same_names_dir by (auto simp: appended_def)
      have "length (left_of f1 s2) < length (left_of f s)" unfolding left length_drop using lb by linarith
      moreover have "fd_of (s_world s2) input = Some f1" "fd_of (s_world s2) output = Some g1"
        using fd2 fd1 less(5) by simp_all
      moreover have "at_end g1 s2" using appended_at_end [OF k(2) end1] by (simp add: g1_def)
      ultimately obtain r s' k' where r: "transfer input output s2 = Some (r, s')"
        "copied input f1 output g1 (take k' (left_of f1 s2)) s2 s'" "r = Copied \<longrightarrow> length (left_of f1 s2) \<le> k'"
        "r \<noteq> Copied \<longrightarrow> \<not> smooth s2"
        using less(1) [of f1 s2 g1] dir less(5,6) ino by auto
      have bl: "bs = take (length bs) (left_of f s)" using m(2) by (simp add: min_def)
      have "bs @ take k' (left_of f1 s2) = take (length bs + k') (left_of f s)"
        unfolding left by (subst (1) bl) (simp only: take_add)
      moreover have "copied input f1 output g (bs @ take k' (left_of f1 s2)) s1 s'"
        using copied_after_write [where xs = bs] r(2) k(2) less(5) unfolding g1_def kb by simp
      moreover have "\<not> smooth s" if "r \<noteq> Copied"
        using r(4) that a smooth_rest appended_rest [OF k(2)] by blast
      ultimately show ?thesis using t r(1,3) read1 left lb
        by (intro exI [of _ r] exI [of _ s'] exI [of _ "length bs + k'"]) auto
    qed
  qed
qed

end
