(* ===== verification/Pa2_Copy.thy ===== *)
theory Pa2_Copy
  imports Pa2_Transfer
begin

text \<open>
  \<open>cp\<close>: the target has the contents of the source in the end, and no other file has changed. The source
  keeps its contents, whatever calls fail, because the program never opens it for writing when the target is
  another file.
\<close>

section \<open>Steps that only look\<close>

definition still_step :: "site \<Rightarrow> site \<Rightarrow> bool" where
  "still_step s s' \<longleftrightarrow> calm_step s s' \<and> fd_of (s_world s') = fd_of (s_world s) \<and> w_nino (s_world s') = w_nino (s_world s)"

definition unfailing :: "site \<Rightarrow> bool" where
  "unfailing s \<longleftrightarrow> Fail \<notin> set (w_plan (s_world s))"

lemma still_refl [simp]: "still_step s s"
  by (simp add: still_step_def)

lemma still_trans: "still_step s s' \<Longrightarrow> still_step s' s'' \<Longrightarrow> still_step s s''"
  unfolding still_step_def using calm_step_trans by metis

lemma still_complain [simp]: "still_step s (complain ps s)"
  by (simp add: still_step_def) (simp add: complain_def)

lemma still_fail [simp]: "still_step s (fail e s)"
  by (simp add: still_step_def) (simp add: fail_def fun_eq_iff)

lemma complain_same [simp]: "the_errno (complain ps s) = the_errno s" "unfailing (complain ps s) = unfailing s"
  by (simp_all add: complain_def the_errno_def unfailing_def)

lemma still_names:
  assumes "still_step s s'"
  shows "resolve s' p = resolve s p" "resolve_parent s' p = resolve_parent s p" "is_dir i s' = is_dir i s"
    "entry s' d c = entry s d c" "real_names s' p = real_names s p" "way_to_parent s' p = way_to_parent s p"
    "empty_dir i s' = empty_dir i s" "w_data (s_world s') = w_data (s_world s)"
    "fd_of (s_world s') = fd_of (s_world s)" "w_nino (s_world s') = w_nino (s_world s)"
  using calm_step_names [of s s'] assms by (simp_all add: still_step_def)

lemma unfailing_rest: "plan_rest s s' \<Longrightarrow> unfailing s \<Longrightarrow> unfailing s'"
  by (auto simp: plan_rest_def unfailing_def dest: in_set_dropD)

lemma still_rest: "still_step s s' \<Longrightarrow> plan_rest s s'"
  by (simp add: still_step_def calm_step_rest)

lemma still_unfailing: "still_step s s' \<Longrightarrow> unfailing s \<Longrightarrow> unfailing s'"
  using unfailing_rest still_rest by blast

lemma still_smooth: "still_step s s' \<Longrightarrow> smooth s \<Longrightarrow> smooth s'"
  using smooth_rest still_rest by blast

lemma smooth_unfailing: "smooth s \<Longrightarrow> unfailing s"
  by (simp add: smooth_def unfailing_def)

lemma next_call_still:
  assumes "next_call s = (x, s')"
  shows "still_step s s'" and "unfailing s \<Longrightarrow> x \<noteq> Fail"
  using next_call_calm [OF assms] by (auto simp: still_step_def unfailing_def)

lemma sys_stat_spec:
  assumes "sys_stat p s = (st, s')" and "unfailing s"
  shows "still_step s s'" and "st = (case resolve s p of Inl e \<Rightarrow> None | Inr i \<Rightarrow> Some \<lparr>st_ino = i, st_dir = is_dir i s\<rparr>)"
    and "resolve s p = Inl e \<Longrightarrow> the_errno s' = e"
proof -
  obtain x s1 where x: "next_call s = (x, s1)" by force
  note nx = next_call_still [OF x]
  note n = still_names [OF nx(1)]
  show "still_step s s'" "st = (case resolve s p of Inl e \<Rightarrow> None | Inr i \<Rightarrow> Some \<lparr>st_ino = i, st_dir = is_dir i s\<rparr>)"
    "resolve s p = Inl e \<Longrightarrow> the_errno s' = e"
    using assms x nx n still_trans [OF nx(1) still_fail]
    by (auto simp: sys_stat_def the_errno_def fail_def split: sum.splits)
qed

lemma site_alloc_spec:
  assumes "site_alloc n s = (b, s')" and "unfailing s"
  shows "still_step s s'" and "b" and "the_errno s' = the_errno s"
proof -
  obtain x s1 where x: "next_call s = (x, s1)" by force
  have r: "(b, s') = (if x = Fail then (False, fail ENOMEM s1) else (True, s1))"
    using assms x by (auto simp: site_alloc_def lift_call_def sys_alloc_def next_call_def fail_def split: prod.splits)
  have "the_errno s1 = the_errno s"
    using x by (cases "w_plan (s_world s)") (auto simp: next_call_def next_outcome_def the_errno_def)
  then show "still_step s s'" "b" "the_errno s' = the_errno s" using r next_call_still [OF x] assms(2) by auto
qed

lemma site_strdup_spec:
  assumes "site_strdup p s = (r, s')" and "unfailing s"
  shows "still_step s s' \<and> r = Some p"
  using assms site_alloc_spec by (auto simp: site_strdup_def split: prod.splits if_splits)

lemma join_path_spec:
  assumes "join_path tool dir base s = (r, s')" and "unfailing s"
  shows "still_step s s' \<and> r = Some (dir @ (if length dir > 0 \<and> dir ! (length dir - 1) \<noteq> SLASH then [SLASH] else []) @ base)"
  using assms site_alloc_spec by (auto simp: join_path_def Let_def split: prod.splits if_splits)

text \<open>The same calls under a plan with failures.\<close>

lemma sys_stat_any:
  assumes "sys_stat p s = (st, s')"
  shows "still_step s s'" and "st = (case resolve s p of Inl e \<Rightarrow> None | Inr i \<Rightarrow> Some \<lparr>st_ino = i, st_dir = is_dir i s\<rparr>)
    \<or> st = None \<and> \<not> unfailing s"
proof -
  obtain x s1 where x: "next_call s = (x, s1)" by force
  note nx = next_call_still [OF x]
  note n = still_names [OF nx(1)]
  show "still_step s s'" "st = (case resolve s p of Inl e \<Rightarrow> None | Inr i \<Rightarrow> Some \<lparr>st_ino = i, st_dir = is_dir i s\<rparr>)
      \<or> st = None \<and> \<not> unfailing s"
    using assms x nx n still_trans [OF nx(1) still_fail] by (auto simp: sys_stat_def split: sum.splits if_splits)
qed

lemma site_alloc_any:
  assumes "site_alloc n s = (b, s')"
  shows "still_step s s' \<and> (unfailing s \<longrightarrow> b)"
proof -
  obtain x s1 where x: "next_call s = (x, s1)" by force
  have r: "(b, s') = (if x = Fail then (False, fail ENOMEM s1) else (True, s1))"
    using assms x by (auto simp: site_alloc_def lift_call_def sys_alloc_def next_call_def fail_def split: prod.splits)
  note nx = next_call_still [OF x]
  show ?thesis using r nx still_trans [OF nx(1) still_fail] by (cases "x = Fail") auto
qed

lemma site_strdup_any: "site_strdup p s = (r, s') \<Longrightarrow> still_step s s' \<and> (r = Some p \<or> r = None \<and> \<not> unfailing s)"
  using site_alloc_any by (auto simp: site_strdup_def split: prod.splits if_splits)

lemma join_path_any:
  assumes "join_path tool dir base s = (r, s')"
  shows "still_step s s' \<and> (r = Some (dir @ (if length dir > 0 \<and> dir ! (length dir - 1) \<noteq> SLASH then [SLASH] else []) @ base)
    \<or> r = None \<and> \<not> unfailing s)"
proof -
  let ?j = "dir @ (if length dir > 0 \<and> dir ! (length dir - 1) \<noteq> SLASH then [SLASH] else []) @ base"
  obtain b s1 where b: "site_alloc (length ?j + 1) s = (b, s1)" by force
  note a = site_alloc_any [OF b]
  have "(r, s') = (if b then (Some ?j, s1) else (None, complain [tool, bytes_of '': '', because s1] s1))"
    using assms b by (auto simp: join_path_def Let_def split: if_splits)
  then show ?thesis using a still_trans [of s s1, OF _ still_complain] by (cases b) auto
qed

section \<open>The target\<close>

text \<open>The path that is written, and when there is one.\<close>

definition joined :: "bytes \<Rightarrow> bytes \<Rightarrow> bytes" where
  "joined dir base = dir @ (if length dir > 0 \<and> dir ! (length dir - 1) \<noteq> SLASH then [SLASH] else []) @ base"

definition into_dir :: "bytes \<Rightarrow> site \<Rightarrow> bool" where
  "into_dir dest s \<longleftrightarrow> (case resolve s dest of Inl e \<Rightarrow> False | Inr d \<Rightarrow> is_dir d s)"

definition target_path :: "bytes \<Rightarrow> bytes \<Rightarrow> site \<Rightarrow> bytes" where
  "target_path base dest s = (if into_dir dest s then joined dest base else dest)"

definition target_allowed :: "bytes \<Rightarrow> bool \<Rightarrow> site \<Rightarrow> bool" where
  "target_allowed dest multiple_sources s \<longleftrightarrow>
     into_dir dest s \<or> \<not> multiple_sources \<and> \<not> ends_with_slash dest \<and> resolve s dest \<noteq> Inl ENOTDIR"

text \<open>Only when the directory at \<open>dest\<close> cannot be looked at, another path than the target is tried: the directory.\<close>

lemma cp_resolve_target_spec:
  assumes "cp_resolve_target source dest multiple_sources s = (r, s')"
  shows "still_step s s'
    \<and> (case r of None \<Rightarrow> unfailing s \<longrightarrow> \<not> target_allowed dest multiple_sources s
       | Some p \<Rightarrow> p = target_path (cp_basename source) dest s \<and> (unfailing s \<longrightarrow> target_allowed dest multiple_sources s)
           \<or> p = dest \<and> into_dir dest s \<and> \<not> unfailing s)"
proof -
  obtain st s1 where st: "sys_stat dest s = (st, s1)" by force
  note a = sys_stat_any [OF st]
  have u: "unfailing s \<Longrightarrow> unfailing s1" using still_unfailing [OF a(1)] .
  note c = still_trans [OF a(1) still_complain]
  obtain r2 s2 where d: "site_strdup dest s1 = (r2, s2)" by force
  obtain r3 s3 where j: "join_path (bytes_of ''pa2_cp'') dest (cp_basename source) s1 = (r3, s3)" by force
  note any = site_strdup_any [OF d] join_path_any [OF j] still_trans [OF a(1), of s2] still_trans [OF a(1), of s3]
  show ?thesis
  proof (cases st)
    case None
    have "unfailing s \<Longrightarrow> resolve s dest = Inl (the_errno s1)"
      using a(2) None sys_stat_spec(3) [OF st] by (cases "resolve s dest") auto
    then show ?thesis using None assms(1) a(2) c any u
      by (cases "resolve s dest") (auto simp: cp_resolve_target_def st d target_allowed_def target_path_def into_dir_def split: if_splits)
  next
    case (Some b)
    then obtain i where i: "resolve s dest = Inr i" "b = \<lparr>st_ino = i, st_dir = is_dir i s\<rparr>"
      using a(2) by (cases "resolve s dest") auto
    show ?thesis using Some i assms(1) c any u
      by (auto simp: cp_resolve_target_def st d j target_allowed_def target_path_def into_dir_def joined_def split: if_splits)
  qed
qed

section \<open>Creating and opening\<close>

lemma walk_append: "walk ds i (cs @ cs') = (case walk ds i cs of Inl e \<Rightarrow> Inl e | Inr j \<Rightarrow> walk ds j cs')"
  by (induction ds i cs rule: walk.induct) (auto split: option.splits)

text \<open>A new entry does not disturb the paths that could be followed before.\<close>

lemma walk_new_entry:
  assumes "walk ds i cs = Inr j" and "ds d = Some es" and "map_of es c = None"
  shows "walk (ds(d := Some (AList.update c n es))) i cs = Inr j"
  using assms
proof (induction ds i cs rule: walk.induct)
  case (2 ds i c' cs)
  then show ?case
    by (cases "i = d"; cases "c' = c") (auto simp: update_conv' split: option.splits if_splits)
qed simp

lemma split_path_nonempty [simp]: "split_path p \<noteq> []"
  by (induction p) (auto split: list.splits)

lemma comps_nonempty [simp]: "comps p \<noteq> []"
  by (simp add: comps_def)

lemma walk_from_append: "walk_from s p (cs @ cs') = (case walk_from s p cs of Inl e \<Rightarrow> Inl e | Inr j \<Rightarrow> walk (s_dirs s) j cs')"
  by (simp add: walk_from_def walk_append split: sum.splits)

lemma resolve_last:
  assumes "resolve_parent s p = Inr d"
  shows "resolve s p = (case entry s d (last (comps p)) of None \<Rightarrow> Inl ENOENT | Some i \<Rightarrow> Inr i)"
proof -
  have p: "p \<noteq> []" and w: "walk_from s p (butlast (comps p)) = Inr d" and d: "is_dir d s"
    using assms by (auto simp: resolve_parent_def split: if_splits sum.splits)
  have "resolve s p = walk (s_dirs s) d [last (comps p)]"
    using walk_from_append [of s p "butlast (comps p)" "[last (comps p)]"] p w by (simp add: resolve_def)
  then show ?thesis using d by (auto simp: entry_def is_dir_def split: option.splits)
qed

lemma resolve_created:
  assumes "resolve_parent s p = Inr d" and "entry s d (last (comps p)) = None"
  shows "resolve (set_entry d (last (comps p)) (Some n) s) p = Inr n"
proof -
  have p: "p \<noteq> []" and w: "walk_from s p (butlast (comps p)) = Inr d" and d: "is_dir d s"
    using assms by (auto simp: resolve_parent_def split: if_splits sum.splits)
  obtain es where es: "s_dirs s d = Some es" using d by (auto simp: is_dir_def)
  let ?s = "set_entry d (last (comps p)) (Some n) s"
  have ds: "s_dirs ?s = (s_dirs s)(d := Some (AList.update (last (comps p)) n es))" by (simp add: set_entry_def es)
  have e: "map_of es (last (comps p)) = None" using assms(2) es by (simp add: entry_def)
  have "walk_from ?s p (butlast (comps p)) = Inr d"
    using w walk_new_entry [where ds = "s_dirs s", OF _ es e] unfolding walk_from_def ds
    by (simp add: set_entry_def split: if_splits)
  then have "walk_from ?s p (comps p) = Inr n"
    using walk_from_append [of ?s p "butlast (comps p)" "[last (comps p)]"] by (simp add: ds update_conv')
  then show ?thesis using p by (simp add: resolve_def)
qed

text \<open>Inodes that are in use have been handed out.\<close>

definition site_ok :: "site \<Rightarrow> bool" where
  "site_ok s \<longleftrightarrow> s_root s < w_nino (s_world s) \<and> (\<forall>d. is_dir d s \<longrightarrow> d < w_nino (s_world s))
     \<and> (\<forall>d c i. entry s d c = Some i \<longrightarrow> i < w_nino (s_world s))"

lemma walk_in_use:
  assumes "walk (s_dirs s) i cs = Inr j" and "site_ok s" and "i < w_nino (s_world s)"
  shows "j < w_nino (s_world s)"
  using assms(1,3)
proof (induction "s_dirs s" i cs rule: walk.induct)
  case (2 i c cs)
  obtain es k where es: "s_dirs s i = Some es" "map_of es c = Some k" "walk (s_dirs s) k cs = Inr j"
    using 2(2) by (auto split: option.splits)
  then have "entry s i c = Some k" by (simp add: entry_def)
  then have "k < w_nino (s_world s)" using assms(2) unfolding site_ok_def by blast
  then show ?case using 2(1) es by blast
qed simp

lemma resolve_in_use: "resolve s p = Inr i \<Longrightarrow> site_ok s \<Longrightarrow> i < w_nino (s_world s)"
  using walk_in_use by (auto simp: resolve_def walk_from_def site_ok_def split: if_splits)

lemma still_site_ok: "still_step s s' \<Longrightarrow> site_ok s \<Longrightarrow> site_ok s'"
  using still_names [of s s'] by (simp add: site_ok_def) (simp add: still_step_def calm_step_def)

lemma set_entry_dir [simp]: "is_dir i (set_entry d c n s) = is_dir i s"
  by (simp add: is_dir_def set_entry_def)

lemma set_entry_fields [simp]:
  "s_world (set_entry d c n s) = s_world s" "s_root (set_entry d c n s) = s_root s" "s_cwd (set_entry d c n s) = s_cwd s"
  "s_err (set_entry d c n s) = s_err s"
  by (simp_all add: set_entry_def)

text \<open>A file that can be opened for writing, new or not.\<close>

definition writable :: "bytes \<Rightarrow> site \<Rightarrow> bool" where
  "writable p s \<longleftrightarrow> (case resolve s p of
      Inr t \<Rightarrow> \<not> is_dir t s
    | Inl e \<Rightarrow> (\<exists>d. resolve_parent s p = Inr d) \<and> normal_name (last (comps p)))"

definition opened_empty :: "int \<Rightarrow> nat \<Rightarrow> bytes \<Rightarrow> site \<Rightarrow> site \<Rightarrow> bool" where
  "opened_empty fd t p s s' \<longleftrightarrow> 0 \<le> fd \<and> fd_of (s_world s) fd = None
     \<and> fd_of (s_world s') = (fd_of (s_world s))(fd := Some \<lparr>o_ino = t, o_off = 0, o_kind = Regular\<rparr>)
     \<and> w_data (s_world s') = (w_data (s_world s))(t := []) \<and> plan_rest s s' \<and> resolve s' p = Inr t
     \<and> (\<forall>j. is_dir j s' = is_dir j s) \<and> \<not> is_dir t s
     \<and> (resolve s p = Inr t \<or> (\<exists>e. resolve s p = Inl e) \<and> t = w_nino (s_world s))"

lemma opened_empty_after:
  assumes "opened t (store_data t [] s1) = (fd, s')" and "resolve s1 p = Inr t" and "\<not> is_dir t s"
    and "w_data (s_world s1) = w_data (s_world s)" and "fd_of (s_world s1) = fd_of (s_world s)"
    and "plan_rest s s1" and "\<forall>j. is_dir j s1 = is_dir j s"
    and "resolve s p = Inr t \<or> (\<exists>e. resolve s p = Inl e) \<and> t = w_nino (s_world s)"
  shows "opened_empty fd t p s s'"
proof -
  note o = opened_calm [OF assms(1)]
  have set: "fd_of (s_world (store_data t [] s1)) = fd_of (s_world s1)" "w_data (s_world (store_data t [] s1)) = (w_data (s_world s1))(t := [])"
    "plan_rest s1 (store_data t [] s1)" "is_dir j (store_data t [] s1) = is_dir j s1" "resolve (store_data t [] s1) p = resolve s1 p" for j
    by (simp_all add: store_data_def fun_eq_iff plan_rest_def is_dir_def resolve_def walk_from_def exI [of _ 0])
  note n = calm_step_names [OF o(1)]
  have "fd_of (s_world s') = (fd_of (s_world s))(fd := Some \<lparr>o_ino = t, o_off = 0, o_kind = Regular\<rparr>)"
    using o(4) set(1) assms(5) by (auto simp: fun_eq_iff)
  moreover have "plan_rest s s'"
    using plan_rest_trans [OF plan_rest_trans [OF assms(6) set(3)] calm_step_rest [OF o(1)]] .
  ultimately show ?thesis
    using o(2,3) set n assms by (simp add: opened_empty_def)
qed

lemma open_write_spec:
  assumes "open_write p s = (fd, s')" and "site_ok s"
  shows "fd = -1 \<and> still_step s s' \<and> (unfailing s \<longrightarrow> \<not> writable p s) \<or> writable p s \<and> (\<exists>t. opened_empty fd t p s s')"
proof -
  obtain x s1 where x: "next_call s = (x, s1)" by force
  note nx = next_call_still [OF x]
  note n = still_names [OF nx(1)]
  note bad = still_trans [OF nx(1) still_fail]
  consider (failing) "x = Fail" | (old) t where "x \<noteq> Fail" "resolve s p = Inr t" | (new) e where "x \<noteq> Fail" "resolve s p = Inl e"
    by (cases "resolve s p") auto
  then show ?thesis
  proof cases
    case failing
    then have "fd = -1" "s' = fail EIO s1" using assms(1) x by (simp_all add: open_write_def)
    then show ?thesis using failing nx(2) bad by auto
  next
    case (old t)
    note xf = old(1) and Inr = old(2)
    show ?thesis
    proof (cases "is_dir t s")
      case True
      then show ?thesis using Inr assms(1) xf x n bad by (auto simp: open_write_def writable_def)
    next
      case False
      then have "opened t (store_data t [] s1) = (fd, s')" using Inr assms(1) xf x n by (simp add: open_write_def)
      from opened_empty_after [OF this, of p s] show ?thesis
        using False Inr n still_rest [OF nx(1)] by (auto simp: writable_def)
    qed
  next
    case (new e)
    note xf = new(1) and Inl = new(2)
    show ?thesis
    proof (cases "writable p s")
      case False
      then show ?thesis using Inl assms(1) xf x n bad by (auto simp: open_write_def writable_def split: sum.splits if_splits)
    next
      case True
      then obtain d where d: "resolve_parent s p = Inr d" and nm: "normal_name (last (comps p))"
        using Inl by (auto simp: writable_def)
      define t where "t = w_nino (s_world s)"
      define s2 where "s2 = snd (new_ino s1)"
      have ni: "new_ino s1 = (t, s2)" using n by (simp add: s2_def new_ino_def t_def)
      have s2: "s2 = s1\<lparr>s_world := (s_world s1)\<lparr>w_nino := t + 1\<rparr>\<rparr>" using n by (simp add: s2_def new_ino_def t_def)
      define s3 where "s3 = set_entry d (last (comps p)) (Some t) s2"
      have "open_write p s = opened t (store_data t [] s3)"
        using xf x n Inl d nm ni by (simp add: open_write_def s3_def)
      then have o: "opened t (store_data t [] s3) = (fd, s')" using assms(1) by simp
      have c12: "calm_step s1 s2" by (auto simp: s2 calm_step_def intro: exI [of _ 0])
      have e2: "entry s2 d c = entry s d c" "resolve_parent s2 p = resolve_parent s p" "is_dir j s2 = is_dir j s" for c j
        using n calm_step_names [of s1 s2] c12 by simp_all
      have "entry s2 d (last (comps p)) = None" using resolve_last [OF d] Inl e2 by (simp split: option.splits)
      then have r3: "resolve s3 p = Inr t" using resolve_created [of s2 p d t] e2 d by (simp add: s3_def)
      have "\<not> is_dir t s" using assms(2) by (auto simp: site_ok_def t_def)
      moreover have "plan_rest s s3" using still_rest [OF nx(1)] by (simp add: s3_def s2 plan_rest_def)
      ultimately have "opened_empty fd t p s s'"
        using opened_empty_after [OF o r3, of s] n e2 Inl by (simp add: s3_def s2 t_def fun_eq_iff)
      then show ?thesis using True by blast
    qed
  qed
qed

lemma site_close_spec:
  assumes "site_close fd s = (r, s')" and "fd_of (s_world s) fd = Some f"
  shows "unfailing s \<Longrightarrow> r = 0" and "calm_step s s'" and "fd_of (s_world s') = (fd_of (s_world s))(fd := None)"
proof -
  obtain x s1 where x: "next_call s = (x, s1)" by force
  note nx = next_call_still [OF x]
  have w: "next_outcome (s_world s) = (x, s_world s1)" using x by (auto simp: next_call_def split: prod.splits)
  have f1: "fd_of (s_world s1) fd = Some f" using still_names(9) [OF nx(1)] assms(2) by simp
  have c: "site_close fd s = (if x = Fail then (-1, s\<lparr>s_world := set_errno EIO (set_fd fd None (s_world s1))\<rparr>)
      else (0, s\<lparr>s_world := set_fd fd None (s_world s1)\<rparr>))"
    using f1 by (simp add: site_close_def lift_call_def sys_close_def w)
  show "unfailing s \<Longrightarrow> r = 0" using assms(1) c nx(2) by auto
  show "calm_step s s'" "fd_of (s_world s') = (fd_of (s_world s))(fd := None)"
    using c assms(1) nx(1) still_names(9) [OF nx(1)] f1
    by (auto simp: still_step_def calm_step_def fun_eq_iff fd_of_set_fd set_errno_def split: if_splits)
qed

section \<open>One copy\<close>

lemma same_names_resolve: "same_names s s' \<Longrightarrow> resolve s' p = resolve s p"
  by (simp add: same_names_def resolve_def walk_from_def)

lemma close_both:
  assumes "site_close a s = (r, s1)" and "site_close b s1 = (r', s2)"
    and "fd_of (s_world s) = m(a := Some f, b := Some g)" and "a \<noteq> b" and "m a = None" and "m b = None"
  shows "(unfailing s \<longrightarrow> r = 0 \<and> r' = 0) \<and> calm_step s s2 \<and> fd_of (s_world s2) = m"
proof -
  have "fd_of (s_world s) a = Some f" using assms(3,4) by simp
  note c1 = site_close_spec [OF assms(1) this]
  have u: "unfailing s \<Longrightarrow> unfailing s1" using c1(2) unfailing_rest calm_step_rest by blast
  have "fd_of (s_world s1) b = Some g" using c1(3) assms(3,4) by simp
  note c2 = site_close_spec [OF assms(2) this]
  have "calm_step s s2" using c1(2) c2(2) calm_step_trans by blast
  moreover have "fd_of (s_world s2) = m" using c1(3) c2(3) assms(3-6) by (auto simp: fun_eq_iff)
  ultimately show ?thesis using c1(1) c2(1) u by blast
qed

text \<open>What a copy of inode \<open>i\<close> to a path may do.\<close>

definition copy_done :: "nat \<Rightarrow> bytes \<Rightarrow> int \<Rightarrow> site \<Rightarrow> site \<Rightarrow> bool" where
  "copy_done i target r s s' \<longleftrightarrow> fd_of (s_world s') = fd_of (s_world s)
     \<and> (\<exists>t. t \<noteq> i \<and> resolve s' target = Inr t \<and> (resolve s target = Inr t \<or> t = w_nino (s_world s))
        \<and> (\<forall>j. j \<noteq> t \<longrightarrow> w_data (s_world s') j = w_data (s_world s) j)
        \<and> (r = 0 \<longrightarrow> w_data (s_world s') t = w_data (s_world s) i))"

text \<open>The copy when both files are open.\<close>

lemma copy_opened:
  assumes o1: "open_read source s = (input, s1)" "input \<noteq> -1" and o2: "open_write target s1 = (out, s2)"
    and fd: "fd_of (s_world s) input = None"
      "fd_of (s_world s1) = (fd_of (s_world s))(input := Some \<lparr>o_ino = i, o_off = 0, o_kind = Regular\<rparr>)"
    and t: "opened_empty out t target s1 s2" and s1: "w_nino (s_world s1) = w_nino (s_world s)"
      "resolve s1 target = resolve s target" "w_data (s_world s1) = w_data (s_world s)" "\<not> is_dir i s1" "plan_rest s s1"
    and ti: "t \<noteq> i"
  shows "\<exists>r s'. copy_file_contents source target s = Some (r, s') \<and> copy_done i target r s s' \<and> (smooth s \<longrightarrow> r = 0)"
proof -
  define f where "f = \<lparr>o_ino = i, o_off = 0, o_kind = Regular\<rparr>"
  define g where "g = \<lparr>o_ino = t, o_off = 0, o_kind = Regular\<rparr>"
  note fd = fd(1) fd(2) [folded f_def]
  have oi: "out \<noteq> input" "out \<noteq> -1" "fd_of (s_world s) out = None" using t fd by (auto simp: opened_empty_def split: if_splits)
  have fd2: "fd_of (s_world s2) = (fd_of (s_world s))(input := Some f, out := Some g)" using t fd by (simp add: opened_empty_def g_def)
  have d2: "w_data (s_world s2) = (w_data (s_world s))(t := [])" using t s1 by (simp add: opened_empty_def)
  have fi: "fd_of (s_world s2) input = Some f" and fo: "fd_of (s_world s2) out = Some g" using oi(1) by (simp_all add: fd2)
  have "\<not> is_dir (o_ino f) s2" using t s1 by (simp add: f_def opened_empty_def)
  moreover have "o_ino f \<noteq> o_ino g" "at_end g s2" using ti d2 by (simp_all add: f_def g_def at_end_def)
  ultimately obtain r s3 k where tr: "transfer input out s2 = Some (r, s3)"
    "copied input f out g (take k (left_of f s2)) s2 s3" "r = Copied \<longrightarrow> length (left_of f s2) \<le> k" "r \<noteq> Copied \<longrightarrow> \<not> smooth s2"
    using transfer_copies [OF fi _ fo oi(1) [symmetric]] by blast
  have left: "left_of f s2 = w_data (s_world s) i" using d2 ti by (simp add: left_of_def f_def)
  have pr3: "plan_rest s s3" using s1(5) t tr(2) by (auto simp: opened_empty_def copied_def intro: plan_rest_trans)
  define s4 where "s4 = (case r of
              Copied \<Rightarrow> s3
            | Read_failed \<Rightarrow> complain [bytes_of ''pa2_cp: error reading '', QUOTE, source, QUOTE, bytes_of '': '', because s3] s3
            | Write_failed \<Rightarrow> complain [bytes_of ''pa2_cp: error writing '', QUOTE, target, QUOTE, bytes_of '': '', because s3] s3)"
  have i4: "still_step s3 s4" by (cases r) (simp_all add: s4_def)
  obtain p where fd4: "fd_of (s_world s4) = (fd_of (s_world s))(input := Some (f\<lparr>o_off := p\<rparr>),
      out := Some (g\<lparr>o_off := length (take k (left_of f s2))\<rparr>))"
    using tr(2) fd2 still_names(9) [OF i4] by (auto simp: copied_def g_def fun_upd_twist [OF oi(1)])
  obtain c1 s5 where cl1: "site_close input s4 = (c1, s5)" by force
  obtain c2 s6 where cl2: "site_close out s5 = (c2, s6)" by force
  note cl = close_both [OF cl1 cl2 fd4 oi(1) [symmetric] fd(1) oi(3)]
  define status :: int where "status = (if c2 = -1 \<or> c1 = -1 \<or> r \<noteq> Copied then 1 else 0)"
  define s7 where "s7 = (if c2 = -1
      then complain [bytes_of ''pa2_cp: error writing '', QUOTE, target, QUOTE, bytes_of '': '', because s6] s6 else s6)"
  have i7: "still_step s6 s7" by (simp add: s7_def)
  have c37: "calm_step s3 s7" using i4 cl i7 calm_step_trans unfolding still_step_def by blast
  have run: "copy_file_contents source target s = Some (status, s7)"
    using o1(2) oi(2) tr(1) cl1 cl2
    by (simp add: copy_file_contents_def o1 o2 Let_def s4_def [symmetric] status_def s7_def)
  have "w_data (s_world s7) = (w_data (s_world s))(t := take k (w_data (s_world s) i))"
    using calm_step_names(8) [OF c37] tr(2) d2 left by (simp add: copied_def g_def)
  moreover have "resolve s7 target = Inr t"
    using calm_step_names(1) [OF c37] tr(2) t same_names_resolve [of s2 s3] by (simp add: copied_def opened_empty_def)
  moreover have "resolve s target = Inr t \<or> t = w_nino (s_world s)" using t s1 by (auto simp: opened_empty_def)
  moreover have "fd_of (s_world s7) = fd_of (s_world s)" using cl still_names(9) [OF i7] by simp
  ultimately have done_7: "copy_done i target status s s7" using ti tr(3) left by (auto simp: copy_done_def status_def)
  have "status = 0" if "smooth s"
  proof -
    have "smooth s2" using smooth_rest [of s s2] plan_rest_trans [OF s1(5)] t that by (auto simp: opened_empty_def)
    moreover have "unfailing s4" using unfailing_rest [OF pr3] still_unfailing [OF i4] smooth_unfailing [OF that] by blast
    ultimately show ?thesis using tr(4) cl by (simp add: status_def)
  qed
  then show ?thesis using run done_7 by blast
qed

lemma copy_file_contents_spec:
  assumes "site_ok s" and "resolve s source = Inr i" and "\<not> is_dir i s" and "resolve s target \<noteq> Inr i"
  shows "\<exists>r s'. copy_file_contents source target s = Some (r, s') \<and>
    ((unfailing s \<longrightarrow> \<not> writable target s) \<and> r = 1 \<and> calm_step s s' \<and> fd_of (s_world s') = fd_of (s_world s)
     \<or> writable target s \<and> copy_done i target r s s' \<and> (smooth s \<longrightarrow> r = 0))"
proof -
  obtain input s1 where o1: "open_read source s = (input, s1)" by force
  define f where "f = \<lparr>o_ino = i, o_off = 0, o_kind = Regular\<rparr>"
  have a: "calm_step s s1" "w_nino (s_world s1) = w_nino (s_world s)"
    "input = -1 \<and> \<not> unfailing s \<and> fd_of (s_world s1) = fd_of (s_world s)
     \<or> 0 \<le> input \<and> fd_of (s_world s) input = None \<and> fd_of (s_world s1) = (fd_of (s_world s))(input := Some f)"
    using open_read_file [OF o1 assms(2)] by (auto simp: unfailing_def f_def)
  note n1 = calm_step_names [OF a(1)]
  have u1: "unfailing s \<Longrightarrow> unfailing s1" using unfailing_rest [OF calm_step_rest [OF a(1)]] .
  have ok1: "site_ok s1" using assms(1) n1 a(1,2) by (simp add: site_ok_def) (simp add: calm_step_def)
  show ?thesis
  proof (cases "input = -1")
    case True
    then show ?thesis using a calm_step_trans [OF a(1) complain_calm]
      by (simp add: copy_file_contents_def o1) (simp add: complain_def)
  next
    case False
    note a = a(1,2) a(3) [simplified False simp_thms]
    then have inp: "0 \<le> input" "fd_of (s_world s) input = None" "fd_of (s_world s1) = (fd_of (s_world s))(input := Some f)" by auto
    obtain out s2 where o2: "open_write target s1 = (out, s2)" by force
    have w: "writable target s1 = writable target s" using n1 by (auto simp: writable_def split: sum.splits)
    from open_write_spec [OF o2 ok1] show ?thesis
    proof (elim disjE exE conjE)
      assume b: "out = -1" "still_step s1 s2" "unfailing s1 \<longrightarrow> \<not> writable target s1"
      define s3 where "s3 = complain [bytes_of ''pa2_cp: cannot create regular file '', QUOTE, target, QUOTE, bytes_of '': '', because s2] s2"
      have i3: "still_step s1 s3" using still_trans [OF b(2) still_complain] by (simp add: s3_def)
      obtain c s4 where cl: "site_close input s3 = (c, s4)" by force
      have "fd_of (s_world s3) input = Some f" using still_names(9) [OF i3] inp by simp
      note cs = site_close_spec [OF cl this]
      have "copy_file_contents source target s = Some (1, s4)"
        using False b(1) cl by (simp add: copy_file_contents_def o1 o2 s3_def Let_def)
      moreover have "calm_step s s4" using a(1) i3 cs(2) calm_step_trans unfolding still_step_def by blast
      moreover have "fd_of (s_world s4) = fd_of (s_world s)"
        using cs(3) still_names(9) [OF i3] inp by (auto simp: fun_eq_iff)
      ultimately show ?thesis using b(3) w u1 by auto
    next
      fix t assume wr: "writable target s1" and t: "opened_empty out t target s1 s2"
      have ti: "t \<noteq> i" using t n1 a(2) assms(4) resolve_in_use [OF assms(2,1)] by (auto simp: opened_empty_def)
      have s2: "opened_empty out t target s1 s2" "w_nino (s_world s1) = w_nino (s_world s)" "resolve s1 target = resolve s target"
        "w_data (s_world s1) = w_data (s_world s)" "\<not> is_dir i s1" "plan_rest s s1"
        using t a(2) n1 assms(3) calm_step_rest [OF a(1)] by simp_all
      from copy_opened [OF o1 False o2 inp(2,3) [unfolded f_def] s2 ti] show ?thesis using wr w by blast
    qed
  qed
qed

lemma copy_one_spec:
  fixes dest :: bytes and multiple_sources :: bool
  assumes "site_ok s" and "resolve s source = Inr i" and "\<not> is_dir i s"
  defines "target \<equiv> target_path (cp_basename source) dest s"
  defines "allowed \<equiv> target_allowed dest multiple_sources s \<and> resolve s target \<noteq> Inr i \<and> writable target s"
  assumes safe: "resolve s target \<noteq> Inr i \<or> unfailing s"
  shows "\<exists>r s'. copy_one source dest multiple_sources s = Some (r, s')
    \<and> ((unfailing s \<longrightarrow> \<not> allowed) \<and> r = 1 \<and> calm_step s s' \<and> fd_of (s_world s') = fd_of (s_world s)
       \<or> (unfailing s \<longrightarrow> allowed) \<and> copy_done i target r s s' \<and> (smooth s \<longrightarrow> r = 0))"
proof -
  obtain st s1 where st: "sys_stat source s = (st, s1)" by force
  note a = sys_stat_any [OF st]
  obtain res s2 where res: "cp_resolve_target source dest multiple_sources s1 = (res, s2)" by force
  have t1: "target_allowed dest multiple_sources s1 = target_allowed dest multiple_sources s"
    "target_path (cp_basename source) dest s1 = target" "into_dir dest s1 = into_dir dest s"
    using still_names [OF a(1)] by (auto simp: target_allowed_def target_path_def into_dir_def target_def split: sum.splits)
  note b = cp_resolve_target_spec [OF res, unfolded t1]
  have i2: "still_step s s2" using still_trans [OF a(1)] b by blast
  have u: "unfailing s \<Longrightarrow> unfailing s1" "unfailing s \<Longrightarrow> unfailing s2" using still_unfailing a(1) i2 by blast+
  show ?thesis
  proof (cases "st = None \<or> res = None")
    case True
    then have "st = None \<Longrightarrow> \<not> unfailing s" "res = None \<Longrightarrow> unfailing s \<Longrightarrow> \<not> allowed"
      using a(2) assms(2) b u(1) by (auto simp: allowed_def)
    moreover obtain s' where "copy_one source dest multiple_sources s = Some (1, s')" "still_step s s'"
      using True i2 still_trans [OF a(1) still_complain] by (cases st) (auto simp: copy_one_def st res)
    ultimately show ?thesis using True by (auto simp: still_step_def)
  next
    case False
    then obtain path where path: "res = Some path" and st': "st = Some \<lparr>st_ino = i, st_dir = False\<rparr>"
      using a(2) assms(2,3) by auto
    obtain st2 s3 where st2: "sys_stat path s2 = (st2, s3)" by force
    note c = sys_stat_any [OF st2]
    have i3: "still_step s s3" using still_trans [OF i2 c(1)] .
    note n3 = still_names [OF i3]
    have c1: "copy_one source dest multiple_sources s
        = (if (case st2 of Some target_st \<Rightarrow> cp_same_file \<lparr>st_ino = i, st_dir = False\<rparr> target_st | None \<Rightarrow> False)
        then Some (1, complain [bytes_of ''pa2_cp: '', QUOTE, source, QUOTE, bytes_of '' and '', QUOTE, path,
                       QUOTE, bytes_of '' are the same file''] s3)
        else copy_file_contents source path s3)"
      using path by (simp add: copy_one_def st st' res st2)
    have p: "path = target \<and> (unfailing s \<longrightarrow> target_allowed dest multiple_sources s) \<or> path = dest \<and> into_dir dest s \<and> \<not> unfailing s"
      using b path u by auto
    have dir: "resolve s dest \<noteq> Inr i \<and> \<not> writable dest s" if "into_dir dest s"
      using that assms(3) by (auto simp: into_dir_def writable_def split: sum.splits)
    have same: "(case st2 of Some target_st \<Rightarrow> cp_same_file \<lparr>st_ino = i, st_dir = False\<rparr> target_st | None \<Rightarrow> False)
        \<longleftrightarrow> st2 \<noteq> None \<and> resolve s path = Inr i"
      using c(2) still_names [OF i2] by (auto simp: cp_same_file_def split: sum.splits)
    show ?thesis
    proof (cases "resolve s path = Inr i")
      case True
      then have "unfailing s" "path = target" using safe p dir by auto
      then have "st2 \<noteq> None" using c(2) u(2) True still_names(1) [OF i2] by auto
      then show ?thesis using c1 same True \<open>path = target\<close> still_trans [OF i3 still_complain] by (auto simp: allowed_def still_step_def)
    next
      case False
      have "site_ok s3" "resolve s3 source = Inr i" "\<not> is_dir i s3" "resolve s3 path \<noteq> Inr i"
        using still_site_ok [OF i3 assms(1)] n3 assms(2,3) False by auto
      from copy_file_contents_spec [OF this] obtain r s' where r: "copy_file_contents source path s3 = Some (r, s')"
        "(unfailing s3 \<longrightarrow> \<not> writable path s3) \<and> r = 1 \<and> calm_step s3 s' \<and> fd_of (s_world s') = fd_of (s_world s3)
         \<or> writable path s3 \<and> copy_done i path r s3 s' \<and> (smooth s3 \<longrightarrow> r = 0)" by blast
      have w3: "writable path s3 = writable path s" "copy_done i path r s3 s' = copy_done i path r s s'"
        using n3 by (auto simp: writable_def copy_done_def split: sum.splits)
      have q: "copy_one source dest multiple_sources s = Some (r, s')" using c1 same False r(1) by simp
      from r(2) show ?thesis
      proof (elim disjE conjE)
        assume bad: "unfailing s3 \<longrightarrow> \<not> writable path s3" "r = 1" "calm_step s3 s'" "fd_of (s_world s') = fd_of (s_world s3)"
        have "unfailing s \<longrightarrow> \<not> allowed" using bad(1) p still_unfailing [OF i3] w3(1) by (auto simp: allowed_def)
        moreover have "calm_step s s'" using i3 bad(3) calm_step_trans unfolding still_step_def by blast
        ultimately show ?thesis using q bad(2,4) n3(9) by auto
      next
        assume ok: "writable path s3" "copy_done i path r s3 s'" "smooth s3 \<longrightarrow> r = 0"
        then have t: "path = target" "unfailing s \<longrightarrow> target_allowed dest multiple_sources s" using p dir w3(1) by auto
        then show ?thesis using q ok w3 False still_smooth [OF i3] by (auto simp: allowed_def)
      qed
    qed
  qed
qed

end
