(* ===== verification/Pa2_Cat.thy ===== *)
theory Pa2_Cat
  imports Pa2_Copy
begin

text \<open>
  \<open>cat\<close>: the files come out one after the other, and a file that cannot be read does not keep the others
  from being came_out. The output must not be one of the files: then the program would read what it writes.
\<close>

text \<open>Bytes were printed on the standard output, and no file or name has changed otherwise.\<close>

definition came_out :: "ofd \<Rightarrow> bytes \<Rightarrow> site \<Rightarrow> site \<Rightarrow> bool" where
  "came_out g xs s s' \<longleftrightarrow> s_dirs s' = s_dirs s \<and> s_root s' = s_root s \<and> s_cwd s' = s_cwd s \<and> plan_rest s s'
     \<and> w_data (s_world s') = (w_data (s_world s))(o_ino g := w_data (s_world s) (o_ino g) @ xs)
     \<and> fd_of (s_world s') = (fd_of (s_world s))(1 := Some (g\<lparr>o_off := o_off g + length xs\<rparr>))"

lemma came_out_trans:
  assumes "came_out g xs s s'" and "came_out (g\<lparr>o_off := o_off g + length xs\<rparr>) ys s' s''"
  shows "came_out g (xs @ ys) s s''"
  using assms by (auto simp: came_out_def add.assoc intro: plan_rest_trans)

lemma came_out_names:
  assumes "came_out g xs s s'"
  shows "resolve s' p = resolve s p" "is_dir i s' = is_dir i s" "i \<noteq> o_ino g \<Longrightarrow> w_data (s_world s') i = w_data (s_world s) i"
    "fd_of (s_world s') 1 = Some (g\<lparr>o_off := o_off g + length xs\<rparr>)"
  using assms by (simp_all add: came_out_def resolve_def walk_from_def is_dir_def)

lemma came_out_at_end: "came_out g xs s s' \<Longrightarrow> at_end g s \<Longrightarrow> at_end (g\<lparr>o_off := o_off g + length xs\<rparr>) s'"
  by (auto simp: came_out_def at_end_def)

lemma calm_printed:
  assumes "calm_step s s'" and "fd_of (s_world s') = fd_of (s_world s)" and "fd_of (s_world s) 1 = Some g"
  shows "came_out g [] s s'"
  using assms calm_step_rest [OF assms(1)] by (auto simp: came_out_def calm_step_def fun_eq_iff)

lemma still_printed: "still_step s s' \<Longrightarrow> fd_of (s_world s) 1 = Some g \<Longrightarrow> came_out g [] s s'"
  by (rule calm_printed) (simp_all add: still_step_def)

text \<open>What a path has to show.\<close>

definition readable :: "site \<Rightarrow> bytes \<Rightarrow> bool" where
  "readable s p \<longleftrightarrow> (case resolve s p of Inl e \<Rightarrow> False | Inr i \<Rightarrow> \<not> is_dir i s)"

definition contents :: "site \<Rightarrow> bytes \<Rightarrow> bytes" where
  "contents s p = (case resolve s p of Inl e \<Rightarrow> [] | Inr i \<Rightarrow> if is_dir i s then [] else w_data (s_world s) i)"

lemma copy_fd_spec:
  assumes "fd_of (s_world s) input = Some f" and "\<not> is_dir (o_ino f) s" and "fd_of (s_world s) 1 = Some g"
    and "input \<noteq> 1" and "o_ino f \<noteq> o_ino g" and "at_end g s"
  shows "\<exists>r s' k n. copy_fd input label s = Some (r, s') \<and> r \<in> {0, 1}
    \<and> s_dirs s' = s_dirs s \<and> s_root s' = s_root s \<and> s_cwd s' = s_cwd s \<and> plan_rest s s'
    \<and> w_data (s_world s') = (w_data (s_world s))(o_ino g := w_data (s_world s) (o_ino g) @ take k (left_of f s))
    \<and> fd_of (s_world s') = (fd_of (s_world s))(input := Some (f\<lparr>o_off := n\<rparr>),
        1 := Some (g\<lparr>o_off := o_off g + length (take k (left_of f s))\<rparr>))
    \<and> (r = 0 \<longrightarrow> length (left_of f s) \<le> k) \<and> (smooth s \<longrightarrow> r = 0)"
proof -
  obtain t s1 k where t: "transfer input 1 s = Some (t, s1)" "copied input f 1 g (take k (left_of f s)) s s1"
    "t = Copied \<longrightarrow> length (left_of f s) \<le> k" "t \<noteq> Copied \<longrightarrow> \<not> smooth s"
    using transfer_copies [OF assms] by blast
  define s2 where "s2 = (case t of
       Copied \<Rightarrow> s1
     | Read_failed \<Rightarrow> complain [bytes_of ''pa2_cat: '', label, bytes_of '': '', because s1] s1
     | Write_failed \<Rightarrow> complain [bytes_of ''pa2_cat: write error: '', because s1] s1)"
  have "copy_fd input label s = Some (if t = Copied then 0 else 1, s2)"
    using t(1) by (cases t) (simp_all add: copy_fd_def s2_def)
  moreover have "s_world s2 = s_world s1 \<and> s_dirs s2 = s_dirs s1 \<and> s_root s2 = s_root s1 \<and> s_cwd s2 = s_cwd s1"
    by (cases t) (simp_all add: s2_def complain_def)
  moreover obtain n where "fd_of (s_world s1) = (fd_of (s_world s))(input := Some (f\<lparr>o_off := n\<rparr>),
      1 := Some (g\<lparr>o_off := o_off g + length (take k (left_of f s))\<rparr>))" using t(2) by (auto simp: copied_def)
  ultimately show ?thesis using t(2,3,4)
    by (intro exI [of _ "if t = Copied then 0 else 1"] exI [of _ s2] exI [of _ k] exI [of _ n])
       (auto simp: copied_def same_names_def plan_rest_def)
qed

lemma cat_path_spec:
  assumes "unfailing s" and "fd_of (s_world s) 1 = Some g" and "at_end g s" and "path \<noteq> [DASH]"
    and "resolve s path \<noteq> Inr (o_ino g)"
  shows "\<exists>r s' k. cat_path path s = Some (r, s') \<and> came_out g (take k (contents s path)) s s' \<and> r \<in> {0, 1}
    \<and> (r = 0 \<longrightarrow> readable s path \<and> length (contents s path) \<le> k)
    \<and> (smooth s \<and> readable s path \<longrightarrow> r = 0)"
proof -
  obtain st s1 where st: "sys_stat path s = (st, s1)" by force
  note a = sys_stat_spec [OF st assms(1)]
  note n1 = still_names [OF a(1)]
  have u1: "unfailing s1" using still_unfailing [OF a(1) assms(1)] .
  show ?thesis
  proof (cases "readable s path")
    case False
    obtain fd s2 where o: "open_read path s1 = (fd, s2)" by force
    obtain e where bad: "(\<exists>i. resolve s path = Inr i \<and> is_dir i s) \<or> resolve s path = Inl e"
      using False by (auto simp: readable_def split: sum.splits)
    have "\<exists>s'. cat_path path s = Some (1, s') \<and> still_step s s'"
    proof (cases "\<exists>i. resolve s path = Inr i \<and> is_dir i s")
      case True
      then show ?thesis using a(2) assms(4) still_trans [OF a(1) still_complain] by (auto simp: cat_path_def st)
    next
      case False
      then have e: "resolve s path = Inl e" using bad by blast
      obtain x s3 where x: "next_call s1 = (x, s3)" by force
      note nx = next_call_still [OF x]
      have "resolve s3 path = Inl e" using e n1 still_names [OF nx(1)] by simp
      then have "open_read path s1 = (-1, fail e s3)" using x nx(2) [OF u1] by (simp add: open_read_def)
      moreover have "still_step s (fail e s3)" using still_trans [OF still_trans [OF a(1) nx(1)] still_fail] .
      ultimately show ?thesis using a(2) e assms(4) still_trans [OF _ still_complain] by (simp add: cat_path_def st)
    qed
    then obtain s' where s': "cat_path path s = Some (1, s')" "still_step s s'" by blast
    then show ?thesis using False still_printed [OF s'(2) assms(2)]
      by (intro exI [of _ 1] exI [of _ s'] exI [of _ 0]) simp
  next
    case True
    then obtain i where i: "resolve s path = Inr i" "\<not> is_dir i s" by (auto simp: readable_def split: sum.splits)
    obtain fd s2 where o: "open_read path s1 = (fd, s2)" by force
    define f where "f = \<lparr>o_ino = i, o_off = 0, o_kind = Regular\<rparr>"
    have b: "calm_step s1 s2" "0 \<le> fd" "fd_of (s_world s) fd = None" "fd_of (s_world s2) = (fd_of (s_world s))(fd := Some f)"
      using open_read_file [OF o] i n1 u1 by (auto simp: unfailing_def f_def)
    have c02: "calm_step s s2" using a(1) b(1) calm_step_trans unfolding still_step_def by blast
    note n2 = calm_step_names [OF c02]
    have fd1: "fd \<noteq> 1" using b(3) assms(2) by auto
    have fi: "fd_of (s_world s2) fd = Some f" and fo: "fd_of (s_world s2) 1 = Some g" using b(4) fd1 assms(2) by simp_all
    have "\<not> is_dir (o_ino f) s2" "o_ino f \<noteq> o_ino g" "at_end g s2"
      using n2 i assms(3,5) by (simp_all add: f_def at_end_def)
    from copy_fd_spec [OF fi this(1) fo fd1 this(2,3), of path] obtain r s3 k n where
      c: "copy_fd fd path s2 = Some (r, s3)" "r \<in> {0, 1}" "s_dirs s3 = s_dirs s2" "s_root s3 = s_root s2" "s_cwd s3 = s_cwd s2"
        "plan_rest s2 s3" "w_data (s_world s3) = (w_data (s_world s2))(o_ino g := w_data (s_world s2) (o_ino g) @ take k (left_of f s2))"
        "fd_of (s_world s3) = (fd_of (s_world s2))(fd := Some (f\<lparr>o_off := n\<rparr>),
            1 := Some (g\<lparr>o_off := o_off g + length (take k (left_of f s2))\<rparr>))"
        "r = 0 \<longrightarrow> length (left_of f s2) \<le> k" "smooth s2 \<longrightarrow> r = 0"
      by blast
    have left: "left_of f s2 = contents s path" using n2 i by (simp add: left_of_def f_def contents_def)
    have pr: "plan_rest s s3" using plan_rest_trans [OF calm_step_rest [OF c02] c(6)] .
    obtain cl s4 where s4: "site_close fd s3 = (cl, s4)" by force
    have "fd_of (s_world s3) fd = Some (f\<lparr>o_off := n\<rparr>)" using c(8) fd1 by simp
    note close = site_close_spec [OF s4 this]
    have "cat_path path s = Some (r, s4)"
      using a(2) i assms(4) b(2) c(1) s4 by (simp add: cat_path_def st o)
    moreover have "came_out g (take k (contents s path)) s s4"
    proof -
      have "fd_of (s_world s4) = (fd_of (s_world s))(1 := Some (g\<lparr>o_off := o_off g + length (take k (contents s path))\<rparr>))"
        using close(3) c(8) b(3,4) fd1 by (auto simp: left fun_eq_iff)
      then show ?thesis using close(2) calm_step_rest [OF close(2)] c02 c(3-7) pr left n2
        by (auto simp: came_out_def calm_step_def intro: plan_rest_trans)
    qed
    moreover have "smooth s \<longrightarrow> r = 0" using c(10) smooth_rest [OF calm_step_rest [OF c02]] by blast
    ultimately show ?thesis using c(2,9) left True by auto
  qed
qed

lemma cat_all_spec:
  assumes "unfailing s" and "fd_of (s_world s) 1 = Some g" and "at_end g s" and "[DASH] \<notin> set paths"
    and "\<forall>p\<in>set paths. resolve s p \<noteq> Inr (o_ino g)" and "status \<in> {0, 1}"
  shows "\<exists>r s' xs. cat_all paths status s = Some (r, s') \<and> came_out g xs s s' \<and> r \<in> {0, 1}
    \<and> (r = 0 \<longrightarrow> status = 0 \<and> list_all (readable s) paths \<and> xs = concat (map (contents s) paths))
    \<and> (smooth s \<and> list_all (readable s) paths \<longrightarrow> r = status)"
  using assms
proof (induction paths arbitrary: g s status)
  case Nil
  then show ?case using still_printed [OF still_refl Nil(2)]
    by (intro exI [of _ status] exI [of _ s] exI [of _ "[]"]) simp
next
  case (Cons path paths)
  have nd: "path \<noteq> [DASH]" and np: "resolve s path \<noteq> Inr (o_ino g)" using Cons(5,6) by auto
  from cat_path_spec [OF Cons(2-4) nd np] obtain r s1 k where
    c: "cat_path path s = Some (r, s1)" "came_out g (take k (contents s path)) s s1" "r \<in> {0, 1}"
      "r = 0 \<longrightarrow> readable s path \<and> length (contents s path) \<le> k" "smooth s \<and> readable s path \<longrightarrow> r = 0" by blast
  note n = came_out_names [OF c(2)]
  define g1 where "g1 = g\<lparr>o_off := o_off g + length (take k (contents s path))\<rparr>"
  have g1: "o_ino g1 = o_ino g" by (simp add: g1_def)
  have pr: "plan_rest s s1" using c(2) by (simp add: came_out_def)
  have same: "readable s1 p = readable s p" "resolve s p \<noteq> Inr (o_ino g) \<Longrightarrow> contents s1 p = contents s p" for p
    using n by (auto simp: readable_def contents_def split: sum.splits)
  define status1 where "status1 = (if r \<noteq> 0 then 1 else status)"
  have st1: "status1 \<in> {0, 1}" using Cons(7) by (simp add: status1_def)
  have "unfailing s1" "fd_of (s_world s1) 1 = Some g1" "at_end g1 s1" "[DASH] \<notin> set paths"
    "\<forall>p\<in>set paths. resolve s1 p \<noteq> Inr (o_ino g1)"
    using unfailing_rest [OF pr Cons(2)] n came_out_at_end [OF c(2) Cons(4)] Cons(5,6) by (simp_all add: g1_def)
  from Cons(1) [OF this st1] obtain r' s' xs where
    i: "cat_all paths status1 s1 = Some (r', s')" "came_out g1 xs s1 s'" "r' \<in> {0, 1}"
      "r' = 0 \<longrightarrow> status1 = 0 \<and> list_all (readable s1) paths \<and> xs = concat (map (contents s1) paths)"
      "smooth s1 \<and> list_all (readable s1) paths \<longrightarrow> r' = status1" by blast
  have "cat_all (path # paths) status s = Some (r', s')" using c(1) i(1) by (simp add: status1_def)
  moreover have "came_out g (take k (contents s path) @ xs) s s'" using came_out_trans [OF c(2) i(2) [unfolded g1_def]] .
  moreover have "concat (map (contents s1) paths) = concat (map (contents s) paths)"
  proof -
    have "map (contents s1) paths = map (contents s) paths" using same(2) Cons(6) by simp
    then show ?thesis by (simp only:)
  qed
  moreover have "list_all (readable s1) paths = list_all (readable s) paths"
    using same(1) by (simp add: list_all_iff)
  moreover have "smooth s \<longrightarrow> smooth s1" using smooth_rest [OF pr] by blast
  ultimately show ?case using c(3-5) i(3-5)
    by (intro exI [of _ r'] exI [of _ s'] exI [of _ "take k (contents s path) @ xs"])
      (auto simp: status1_def split: if_splits)
qed

end
