(* ===== verification/Pa2_Echo.thy ===== *)
theory Pa2_Echo
  imports Pa2_Options Pa2_Transfer
begin

text \<open>
  \<open>echo\<close>: the options set the flags letter by letter, the buffer never overflows, and the text comes out as
  it is specified when the system writes everything it is given. The program does not look at the results
  of its writes.
\<close>

section \<open>Options\<close>

definition set_letter :: "byte \<Rightarrow> echo_options \<Rightarrow> echo_options" where
  "set_letter c eo =
     (if c = of_char CHR ''n'' then eo\<lparr>output_trailing_newline := False\<rparr>
      else eo\<lparr>enable_backslash_escaping := (c = of_char CHR ''e'')\<rparr>)"

definition letters_ok :: "bytes \<Rightarrow> bool" where
  "letters_ok cl \<longleftrightarrow> set cl \<subseteq> {of_char CHR ''n'', of_char CHR ''e'', of_char CHR ''E''}"

definition option_word :: "bytes \<Rightarrow> bool" where
  "option_word a \<longleftrightarrow> is_option a \<and> letters_ok (tl a)"

lemma handle_cluster:
  assumes "letters_ok cl"
  shows "handle_options argc \<lparr>op_passed = [], op_args = as, op_cluster = cl\<rparr> eo
    = handle_options argc \<lparr>op_passed = [], op_args = as, op_cluster = []\<rparr> (fold set_letter cl eo)"
  using assms
proof (induction cl arbitrary: eo)
  case (Cons c cl)
  let ?st = "\<lparr>op_passed = [], op_args = as, op_cluster = cl\<rparr>"
  have c: "c = of_char CHR ''n'' \<or> c = of_char CHR ''e'' \<or> c = of_char CHR ''E''" and cl: "letters_ok cl"
    using Cons(2) by (auto simp: letters_ok_def)
  have "echo_letters c = Some False" using c by (auto simp: echo_letters_def bytes_of_simps)
  then have "getopt False echo_letters \<lparr>op_passed = [], op_args = as, op_cluster = c # cl\<rparr> = (Option c None, ?st)"
    by (simp add: getopt_def next_letter_def)
  then have "handle_options argc \<lparr>op_passed = [], op_args = as, op_cluster = c # cl\<rparr> eo = handle_options argc ?st (set_letter c eo)"
    using c by (subst handle_options.simps) (auto simp: set_letter_def)
  then show ?case using Cons(1) [OF cl] by simp
qed simp

lemma handle_word:
  assumes "option_word a"
  shows "handle_options argc \<lparr>op_passed = [], op_args = a # as, op_cluster = []\<rparr> eo
    = handle_options argc \<lparr>op_passed = [], op_args = as, op_cluster = []\<rparr> (fold set_letter (tl a) eo)"
proof -
  have a: "is_option a" "letters_ok (tl a)" using assms by (simp_all add: option_word_def)
  have ne: "tl a \<noteq> []" using a(1) by (cases a) (auto simp: is_option_def)
  have "a \<noteq> [DASH, DASH]" using a(2) by (auto simp: letters_ok_def DASH_def)
  then have "getopt False echo_letters \<lparr>op_passed = [], op_args = a # as, op_cluster = []\<rparr>
      = getopt False echo_letters \<lparr>op_passed = [], op_args = as, op_cluster = tl a\<rparr>"
    using a(1) ne by (simp add: getopt_def)
  then have "handle_options argc \<lparr>op_passed = [], op_args = a # as, op_cluster = []\<rparr> eo
      = handle_options argc \<lparr>op_passed = [], op_args = as, op_cluster = tl a\<rparr> eo"
    by (subst (1 2) handle_options.simps) simp
  then show ?thesis using handle_cluster [OF a(2)] by simp
qed

lemma handle_words:
  assumes "list_all option_word opts" and "rest = [] \<or> \<not> is_option (hd rest)"
  shows "handle_options argc (start_options (opts @ rest)) eo = Some (argc - length rest, fold set_letter (concat (map tl opts)) eo)"
  using assms(1)
proof (induction opts arbitrary: eo)
  case Nil
  have "hd rest \<noteq> [DASH, DASH]" if "rest \<noteq> []" using assms(2) that by (auto simp: is_option_def)
  then have "getopt False echo_letters \<lparr>op_passed = [], op_args = rest, op_cluster = []\<rparr> = (Finished rest, \<lparr>op_passed = [], op_args = rest, op_cluster = []\<rparr>)"
    using assms(2) by (cases rest) (simp_all add: getopt_def Let_def)
  then show ?case by (subst handle_options.simps) (simp add: start_options_def)
next
  case (Cons a opts)
  then show ?case using handle_word [of a] by (simp add: start_options_def)
qed

section \<open>The text\<close>

fun escaped :: "bytes \<Rightarrow> bytes" where
  "escaped [] = []"
| "escaped [c] = [c]"
| "escaped (c # c' # cs) = (if c = 92 then to_escape_char c' # escaped cs else c # escaped (c' # cs))"

definition shown :: "bool \<Rightarrow> bytes \<Rightarrow> bytes" where
  "shown escaping a = (if escaping then escaped a else a)"

fun echo_text :: "bool \<Rightarrow> bytes list \<Rightarrow> bytes" where
  "echo_text escaping [] = []"
| "echo_text escaping [a] = shown escaping a"
| "echo_text escaping (a # b # as) = shown escaping a @ [32] @ echo_text escaping (b # as)"

text \<open>Every call of the system does all that it is asked for.\<close>

definition full_plan :: "site \<Rightarrow> bool" where
  "full_plan s \<longleftrightarrow> set (w_plan (s_world s)) \<subseteq> {Normal}"

lemma full_rest: "plan_rest s s' \<Longrightarrow> full_plan s \<Longrightarrow> full_plan s'"
  unfolding plan_rest_def full_plan_def by (metis set_drop_subset subset_trans)

lemma site_write_full:
  assumes "site_write fd bs s = (r, s')" and "fd_of (s_world s) fd = Some g" and "at_end g s" and "full_plan s" and "bs \<noteq> []"
  shows "appended fd g bs s s'"
proof -
  have sm: "smooth s" using assms(4) by (auto simp: full_plan_def smooth_def)
  obtain m where m: "r = int m" "0 < m" "m \<le> length bs" "appended fd g (take m bs) s s'"
    using site_write_appends [OF assms(1,2,3,5)] sm by blast
  obtain x w1 where x: "next_outcome (s_world s) = (x, w1)" by force
  have "x = Normal" using next_outcome_rest(3) [OF x] assms(4) by (auto simp: full_plan_def)
  moreover have "fd_of w1 fd = Some g" using assms(2) by (subst next_outcome_rest(1) [OF x]) simp
  ultimately have "r = int (length bs)"
    using assms(1) by (simp add: site_write_def lift_call_def sys_write_def x write_limit_def Let_def)
  then show ?thesis using m by simp
qed

text \<open>What was put so far is on the output or in the buffer.\<close>

definition echoed :: "ofd \<Rightarrow> site \<Rightarrow> bytes \<Rightarrow> bytes \<times> site \<Rightarrow> bool" where
  "echoed g s0 sofar bs \<longleftrightarrow> (\<exists>ys. sofar = ys @ fst bs \<and> appended 1 g ys s0 (snd bs)) \<and> length (fst bs) \<le> BUFFER_SIZE"

lemma appended_write:
  assumes "appended 1 g ys s0 s" and "at_end g s0" and "full_plan s0" and "bs \<noteq> []"
  shows "appended 1 g (ys @ bs) s0 (snd (site_write 1 bs s))"
proof -
  obtain r s' where w: "site_write 1 bs s = (r, s')" by force
  have "appended 1 (g\<lparr>o_off := o_off g + length ys\<rparr>) bs s s'"
    using site_write_full [OF w appended_fd [OF assms(1)] appended_at_end [OF assms(1,2)]
        full_rest [OF appended_rest [OF assms(1)] assms(3)] assms(4)] .
  then show ?thesis using appended_trans [OF assms(1)] w by simp
qed

lemma put_char_echoed:
  assumes "echoed g s0 sofar bs" and "at_end g s0" and "full_plan s0"
  shows "\<exists>bs'. put_char c bs = Some bs' \<and> echoed g s0 (sofar @ [c]) bs'"
proof -
  obtain ys where ys: "sofar = ys @ fst bs" "appended 1 g ys s0 (snd bs)" using assms(1) by (auto simp: echoed_def)
  obtain buffer s where bs: "bs = (buffer, s)" by force
  show ?thesis
  proof (cases "length buffer \<ge> BUFFER_SIZE - 1")
    case True
    then have ne: "buffer \<noteq> []" by (auto simp: BUFFER_SIZE_def)
    have "put_char c bs = Some ([c], snd (site_write 1 buffer s))"
      using True by (simp add: put_char_def write_when_needed_def bs BUFFER_SIZE_def)
    moreover have "appended 1 g (ys @ buffer) s0 (snd (site_write 1 buffer s))"
      using appended_write [OF _ assms(2,3) ne] ys(2) bs by simp
    ultimately show ?thesis using ys(1) bs by (auto simp: echoed_def BUFFER_SIZE_def)
  next
    case False
    then have "put_char c bs = Some (buffer @ [c], s)" by (simp add: put_char_def write_when_needed_def bs)
    then show ?thesis using False ys bs by (auto simp: echoed_def)
  qed
qed

lemma echo_chars_echoed:
  assumes "echoed g s0 sofar bs" and "at_end g s0" and "full_plan s0"
  shows "\<exists>bs'. echo_chars escaping a bs = Some bs' \<and> echoed g s0 (sofar @ shown escaping a) bs'"
  using assms(1)
proof (induction escaping a bs arbitrary: sofar rule: echo_chars.induct)
  case (1 escaping bs)
  then show ?case by (simp add: shown_def)
next
  case (2 escaping c cs bs)
  show ?case
  proof (cases "escaping \<and> c = 92")
    case True
    show ?thesis
    proof (cases cs)
      case Nil
      then show ?thesis using True put_char_echoed [OF 2(3) assms(2,3), of c] by (simp add: shown_def)
    next
      case (Cons c' cs')
      obtain bs1 where b: "put_char (to_escape_char c') bs = Some bs1" "echoed g s0 (sofar @ [to_escape_char c']) bs1"
        using put_char_echoed [OF 2(3) assms(2,3)] by blast
      have "\<exists>bs'. echo_chars escaping cs' bs1 = Some bs' \<and> echoed g s0 ((sofar @ [to_escape_char c']) @ shown escaping cs') bs'"
        using 2(1) [OF True Cons b] .
      then show ?thesis using b(1) Cons True by (auto simp: shown_def)
    qed
  next
    case False
    obtain bs1 where b: "put_char c bs = Some bs1" "echoed g s0 (sofar @ [c]) bs1"
      using put_char_echoed [OF 2(3) assms(2,3)] by blast
    have "\<exists>bs'. echo_chars escaping cs bs1 = Some bs' \<and> echoed g s0 ((sofar @ [c]) @ shown escaping cs) bs'"
      using 2(2) [OF False b] .
    moreover have "shown escaping (c # cs) = c # shown escaping cs"
      using False by (cases cs) (auto simp: shown_def)
    ultimately show ?thesis using b(1) False by auto
  qed
qed

lemma echo_args_echoed:
  assumes "echoed g s0 sofar bs" and "at_end g s0" and "full_plan s0"
  shows "\<exists>bs'. echo_args escaping as bs = Some bs' \<and> echoed g s0 (sofar @ echo_text escaping as) bs'"
  using assms(1)
proof (induction as arbitrary: sofar bs)
  case (Cons a as)
  obtain bs1 where b: "echo_chars escaping a bs = Some bs1" "echoed g s0 (sofar @ shown escaping a) bs1"
    using echo_chars_echoed [OF Cons(2) assms(2,3)] by blast
  show ?case
  proof (cases as)
    case Nil
    then show ?thesis using b by simp
  next
    case (Cons a' as')
    obtain bs2 where c: "put_char 32 bs1 = Some bs2" "echoed g s0 ((sofar @ shown escaping a) @ [32]) bs2"
      using put_char_echoed [OF b(2) assms(2,3)] by blast
    from Cons.IH [OF c(2)] show ?thesis using b(1) c(1) Cons by auto
  qed
qed simp

theorem echo_prints:
  assumes "list_all option_word opts" and "rest = [] \<or> \<not> is_option (hd rest)"
    and "fd_of (s_world s) 1 = Some g" and "at_end g s" and "full_plan s"
  defines "eo \<equiv> fold set_letter (concat (map tl opts)) \<lparr>output_trailing_newline = True, enable_backslash_escaping = False\<rparr>"
  shows "\<exists>s'. echo_main name (opts @ rest) s = Some (0, s')
    \<and> appended 1 g (echo_text (enable_backslash_escaping eo) rest @ (if output_trailing_newline eo then [10] else [])) s s'"
proof -
  have h: "handle_options (length (opts @ rest) + 1) (start_options (opts @ rest))
      \<lparr>output_trailing_newline = True, enable_backslash_escaping = False\<rparr> = Some (length opts + 1, eo)"
    using handle_words [OF assms(1,2), of "length (opts @ rest) + 1"] by (simp add: eo_def)
  have "echoed g s [] ([], s)" using appended_Nil [OF assms(3)] by (auto simp: echoed_def)
  from echo_args_echoed [OF this assms(4,5), of "enable_backslash_escaping eo" rest] obtain buffer s1 ys where
    a: "echo_args (enable_backslash_escaping eo) rest ([], s) = Some (buffer, s1)"
      "echo_text (enable_backslash_escaping eo) rest = ys @ buffer" "appended 1 g ys s s1"
    by (auto simp: echoed_def)
  define s2 where "s2 = (if length buffer > 0 then snd (site_write 1 buffer s1) else s1)"
  have 2: "appended 1 g (ys @ buffer) s s2" using appended_write [OF a(3) assms(4,5), of buffer] a(3) by (auto simp: s2_def)
  define s3 where "s3 = (if output_trailing_newline eo then snd (site_write 1 [10] s2) else s2)"
  have 3: "appended 1 g ((ys @ buffer) @ (if output_trailing_newline eo then [10] else [])) s s3"
    using appended_write [OF 2 assms(4,5), of "[10]"] 2 by (auto simp: s3_def)
  have "echo_main name (opts @ rest) s = Some (0, s3)"
    unfolding echo_main_def h by (simp add: a(1) s2_def s3_def Let_def)
  then show ?thesis using 3 a(2) by auto
qed

section \<open>Observations\<close>

text \<open>
  An unknown letter that is not the last of its word makes the program print its own name, because the
  index that \<open>getopt\<close> leaves is the one of the word itself.
\<close>

lemma unknown_letter: "handle_options 2 (start_options [bytes_of ''-xn'']) eo = Some (0, eo)"
  by (simp add: handle_options.simps start_options_def getopt_def next_letter_def is_option_def bytes_of_simps DASH_def echo_letters_def)

end
