(* ===== verification/Pa2_Move.thy ===== *)
theory Pa2_Move
  imports Pa2_Files
begin

text \<open>
  \<^verbatim>\<open>pa2_mv.c\<close>. The kernel moves a name with \<^verbatim>\<open>rename\<close>; the program chooses the target, and refuses to move
  a file onto itself or a directory below itself.
\<close>

section \<open>Names\<close>

definition mv_basename :: "bytes \<Rightarrow> bytes" where
  "mv_basename path = (if SLASH \<in> set path then behind_slash path else path)"

text \<open>\<^verbatim>\<open>dirname\<close> of the C library.\<close>

definition dirname :: "bytes \<Rightarrow> bytes" where
  "dirname path =
     (let front = rev (dropWhile (\<lambda>c. c \<noteq> SLASH) (rev (drop_slashes path))) in
      if path \<noteq> [] \<and> drop_slashes path = [] then [SLASH]
      else if front = [] then [DOT]
      else if drop_slashes front = [] then [SLASH] else drop_slashes front)"

definition parent_path :: "bytes \<Rightarrow> site \<Rightarrow> bytes option \<times> site" where
  "parent_path path s =
     (case site_strdup path s of (copied, s) \<Rightarrow>
      case copied of
        None \<Rightarrow> (None, complain [bytes_of ''pa2_mv: '', because s] s)
      | Some copied \<Rightarrow>
          (case site_strdup (dirname copied) s of (result, s) \<Rightarrow>
           case result of
             None \<Rightarrow> (None, complain [bytes_of ''pa2_mv: '', because s] s)
           | Some dir \<Rightarrow> (Some dir, s)))"

definition is_subdirectory_target :: "bytes \<Rightarrow> bytes \<Rightarrow> site \<Rightarrow> bool \<times> site" where
  "is_subdirectory_target source target s =
     (case parent_path target s of (target_parent, s) \<Rightarrow>
      case target_parent of
        None \<Rightarrow> (False, s)
      | Some target_parent \<Rightarrow>
          (case site_realpath source s of (real_source, s) \<Rightarrow>
           case site_realpath target_parent s of (real_parent, s) \<Rightarrow>
           case (real_source, real_parent) of
             (Some real_source, Some real_parent) \<Rightarrow>
               (real_source = real_parent
                  \<or> take (length real_source) real_parent = real_source
                    \<and> length real_source < length real_parent \<and> real_parent ! length real_source = SLASH, s)
           | _ \<Rightarrow> (False, s)))"

section \<open>Moving\<close>

definition mv_resolve_target :: "bytes \<Rightarrow> bytes \<Rightarrow> bool \<Rightarrow> site \<Rightarrow> bytes option \<times> site" where
  "mv_resolve_target source dest multiple_sources s =
     (case sys_stat dest s of (st, s) \<Rightarrow>
      case st of
        None \<Rightarrow>
          if the_errno s = ENOTDIR then
            (None, complain [bytes_of ''pa2_mv: cannot stat '', QUOTE, dest, QUOTE, bytes_of '': Not a directory''] s)
          else if multiple_sources \<or> ends_with_slash dest then
            (None, complain [bytes_of ''pa2_mv: cannot move '', QUOTE, mv_basename source, QUOTE, bytes_of '' to '', QUOTE,
               dest, QUOTE, bytes_of '': Not a directory''] s)
          else site_strdup dest s
      | Some b \<Rightarrow>
          if st_dir b then join_path (bytes_of ''pa2_mv'') dest (mv_basename source) s
          else if multiple_sources \<or> ends_with_slash dest then
            (None, complain [bytes_of ''pa2_mv: cannot stat '', QUOTE, dest, QUOTE, bytes_of '': Not a directory''] s)
          else site_strdup dest s)"

definition cannot_move_below :: "bytes \<Rightarrow> bytes \<Rightarrow> site \<Rightarrow> site" where
  "cannot_move_below source target = complain [bytes_of ''pa2_mv: cannot move '', QUOTE, mv_basename source, QUOTE,
     bytes_of '' to a subdirectory of itself, '', QUOTE, target, QUOTE]"

definition rename_failed :: "bytes \<Rightarrow> bytes \<Rightarrow> bytes \<Rightarrow> site \<Rightarrow> site" where
  "rename_failed source dest target s =
     (if the_errno s = EINVAL then cannot_move_below source target s
      else if the_errno s = ENOTDIR \<and> ends_with_slash dest then
        complain [bytes_of ''pa2_mv: cannot stat '', QUOTE, dest, QUOTE, bytes_of '': Not a directory''] s
      else complain [bytes_of ''pa2_mv: cannot move '', QUOTE, mv_basename source, QUOTE, bytes_of '' to '', QUOTE, target,
        QUOTE, bytes_of '': '', because s] s)"

definition move_one :: "bytes \<Rightarrow> bytes \<Rightarrow> bool \<Rightarrow> site \<Rightarrow> int \<times> site" where
  "move_one source dest multiple_sources s =
     (case sys_stat source s of (st, s) \<Rightarrow>
      case st of
        None \<Rightarrow> (1, complain [bytes_of ''pa2_mv: cannot stat '', QUOTE, mv_basename source, QUOTE, bytes_of '': '', because s] s)
      | Some source_st \<Rightarrow>
          (case mv_resolve_target source dest multiple_sources s of (resolved, s) \<Rightarrow>
           case resolved of
             None \<Rightarrow> (1, s)
           | Some target \<Rightarrow>
               (case sys_stat target s of (st, s) \<Rightarrow>
                if (case st of Some target_st \<Rightarrow> cp_same_file source_st target_st | None \<Rightarrow> False)
                then (1, complain [bytes_of ''pa2_mv: '', QUOTE, mv_basename source, QUOTE, bytes_of '' and '', QUOTE, target,
                       QUOTE, bytes_of '' are the same file''] s)
                else case (if st_dir source_st then is_subdirectory_target source target s else (False, s)) of (below, s) \<Rightarrow>
                  if below then (1, cannot_move_below source target s)
                  else case site_rename source target s of (r, s) \<Rightarrow>
                    if r = -1 then (1, rename_failed source dest target s) else (0, s))))"

fun mv_all :: "bytes list \<Rightarrow> bytes \<Rightarrow> bool \<Rightarrow> int \<Rightarrow> site \<Rightarrow> int \<times> site" where
  "mv_all [] dest multiple_sources status s = (status, s)"
| "mv_all (source # sources) dest multiple_sources status s =
     (case move_one source dest multiple_sources s of (r, s) \<Rightarrow>
      mv_all sources dest multiple_sources (if r \<noteq> 0 then 1 else status) s)"

definition mv_main :: "bytes list \<Rightarrow> site \<Rightarrow> int \<times> site" where
  "mv_main args s =
     (case args of
        [] \<Rightarrow> (EXIT_FAILURE, complain [bytes_of ''pa2_mv: missing file operand''] s)
      | [a] \<Rightarrow> (EXIT_FAILURE, complain [bytes_of ''pa2_mv: missing destination file operand after '', QUOTE,
                 mv_basename a, QUOTE] s)
      | _ \<Rightarrow> (case mv_all (butlast args) (last args) (length args > 2) 0 s of (status, s) \<Rightarrow> (exit_status status, s)))"

end
