(* ===== verification/Pa2_Rename.thy ===== *)
theory Pa2_Rename
  imports Pa2_Move Pa2_Copy
begin

text \<open>
  \<open>mv\<close>: either nothing changes and the status is 1, or exactly one name moves. A directory is never moved
  below itself, and only an empty directory is ever replaced.
\<close>

section \<open>Slashes at the end\<close>

lemma split_path_slash: "split_path (p @ [SLASH]) = split_path p @ [[]]"
  by (induction p) (auto split: list.splits)

lemma comps_slashes: "comps (p @ replicate k SLASH) = comps p @ replicate k [DOT]"
proof (induction k)
  case (Suc k)
  have "replicate (Suc k) SLASH = replicate k SLASH @ [SLASH]" by (simp add: replicate_append_same)
  then have "comps (p @ replicate (Suc k) SLASH) = comps ((p @ replicate k SLASH) @ [SLASH])" by simp
  also have "\<dots> = comps (p @ replicate k SLASH) @ [[DOT]]" by (simp only: comps_def split_path_slash map_append) simp
  finally show ?case using Suc by (simp add: replicate_append_same)
qed simp

lemma drop_slashes_append: "\<exists>k. p = drop_slashes p @ replicate k SLASH"
proof -
  let ?t = "takeWhile (\<lambda>c. c = SLASH) (rev p)"
  have "rev p = ?t @ dropWhile (\<lambda>c. c = SLASH) (rev p)" by simp
  then have "p = drop_slashes p @ rev ?t" unfolding drop_slashes_def by (metis rev_append rev_rev_ident)
  moreover have "\<forall>x\<in>set ?t. x = SLASH" by (auto dest: set_takeWhileD)
  then have "?t = replicate (length ?t) SLASH" by (metis replicate_length_same)
  then have "rev ?t = replicate (length ?t) SLASH" by (metis rev_replicate)
  ultimately show ?thesis by metis
qed

text \<open>Every directory names itself.\<close>

definition dots_ok :: "site \<Rightarrow> bool" where
  "dots_ok s \<longleftrightarrow> (\<forall>d. is_dir d s \<longrightarrow> entry s d [DOT] = Some d)"

lemma walk_dots: "dots_ok s \<Longrightarrow> is_dir i s \<Longrightarrow> walk (s_dirs s) i (replicate k [DOT]) = Inr i"
  by (induction k) (auto simp: dots_ok_def entry_def is_dir_def split: option.splits)

lemma resolve_slashes:
  assumes "dots_ok s" and "resolve s (drop_slashes p) = Inr i" and "is_dir i s \<or> drop_slashes p = p"
  shows "resolve s p = Inr i"
proof (cases "drop_slashes p = p")
  case False
  then have d: "is_dir i s" using assms(3) by simp
  obtain k where k: "p = drop_slashes p @ replicate k SLASH" using drop_slashes_append by blast
  have ne: "drop_slashes p \<noteq> []" and w: "walk_from s (drop_slashes p) (comps (drop_slashes p)) = Inr i"
    using assms(2) by (auto simp: resolve_def split: if_splits)
  have ab: "absolute p = absolute (drop_slashes p)" using ne k by (metis absolute_def append_is_Nil_conv hd_append2)
  have "walk_from s p (comps p) = walk_from s (drop_slashes p) (comps (drop_slashes p) @ replicate k [DOT])"
    using comps_slashes [of "drop_slashes p" k] k ab by (simp add: walk_from_def)
  also have "\<dots> = Inr i" using w walk_dots [OF assms(1) d] by (simp add: walk_from_append)
  finally show ?thesis using ne k by (auto simp: resolve_def)
qed (use assms(2) in simp)

section \<open>The entries after a move\<close>

lemma entry_set_entry:
  "entry (set_entry d c v s) e n = (if e = d \<and> n = c \<and> is_dir d s then v else entry s e n)"
  by (cases v; cases "s_dirs s d")
    (auto simp: entry_def set_entry_def is_dir_def update_conv' delete_conv')

definition dotdot :: bytes where "dotdot = [DOT, DOT]"

text \<open>
  The name \<open>c\<close> in directory \<open>d\<close> has become the name \<open>c'\<close> in \<open>d'\<close>; a file or an empty directory of that name is gone.
\<close>

definition moved :: "nat \<Rightarrow> bytes \<Rightarrow> nat \<Rightarrow> bytes \<Rightarrow> nat \<Rightarrow> site \<Rightarrow> site \<Rightarrow> bool" where
  "moved d c d' c' i s s' \<longleftrightarrow> entry s d c = Some i \<and> entry s' d' c' = Some i \<and> entry s' d c = None
     \<and> (is_dir i s \<longrightarrow> entry s' i dotdot = Some d')
     \<and> (\<forall>e n. (e, n) \<noteq> (d, c) \<longrightarrow> (e, n) \<noteq> (d', c') \<longrightarrow> \<not> (is_dir i s \<and> (e, n) = (i, dotdot))
          \<longrightarrow> entry s d' c' \<noteq> Some e \<longrightarrow> entry s' e n = entry s e n)
     \<and> (\<forall>j. entry s d' c' = Some j \<longrightarrow> is_dir j s = is_dir i s \<and> (is_dir j s \<longrightarrow> empty_dir j s))"

lemma empty_dir_entry: "empty_dir j s \<Longrightarrow> entry s j c = Some k \<Longrightarrow> \<not> normal_name c"
  by (auto simp: empty_dir_def entry_def normal_name_def list_all_iff dest!: map_of_SomeD split: option.splits)

lemma entry_is_dir: "entry s d c = Some i \<Longrightarrow> is_dir d s"
  by (auto simp: entry_def is_dir_def split: option.splits)

lemma move_entry_moved:
  assumes "entry s d c = Some i" and "is_dir d' s" and "normal_name c" and "normal_name c'"
    and "entry s d' c' \<noteq> Some i"
    and "\<forall>j. entry s d' c' = Some j \<longrightarrow> is_dir j s = is_dir i s \<and> (is_dir j s \<longrightarrow> empty_dir j s)"
  shows "moved d c d' c' i s (move_entry d c d' c' i s)"
proof -
  define gone where "gone j \<longleftrightarrow> entry s d' c' = Some j \<and> is_dir j s" for j
  define s1 where "s1 = (case entry s d' c' of
                  Some j \<Rightarrow> (if is_dir j s then s\<lparr>s_dirs := (s_dirs s)(j := None)\<rparr> else s)
                | None \<Rightarrow> s)"
  define s2 where "s2 = set_entry d' c' (Some i) (set_entry d c None s1)"
  have keep: "\<not> gone d" "\<not> gone d'" "\<not> gone i"
    using empty_dir_entry [of d s c i] empty_dir_entry [of d' s c'] assms by (auto simp: gone_def)
  have e1: "entry s1 e n = (if gone e then None else entry s e n)" for e n
    by (auto simp: s1_def gone_def entry_def split: option.split)
  have d1: "is_dir e s1 = (is_dir e s \<and> \<not> gone e)" for e
    by (auto simp: s1_def gone_def is_dir_def split: option.split)
  have dd: "is_dir d s1" "is_dir d' s1" "is_dir i s2 = is_dir i s"
    using d1 keep assms(2) entry_is_dir [OF assms(1)] by (simp_all add: s2_def)
  have e2: "entry s2 e n = (if (e, n) = (d', c') then Some i else if (e, n) = (d, c) then None else if gone e then None else entry s e n)" for e n
    using dd by (auto simp: s2_def entry_set_entry e1)
  have m: "move_entry d c d' c' i s = (if is_dir i s2 then set_entry i dotdot (Some d') s2 else s2)"
    unfolding move_entry_def s1_def [symmetric] Let_def s2_def [symmetric] dotdot_def ..
  have e3: "entry (move_entry d c d' c' i s) e n = (if is_dir i s \<and> (e, n) = (i, dotdot) then Some d' else entry s2 e n)" for e n
    using dd(3) by (auto simp: m entry_set_entry)
  have nd: "c \<noteq> dotdot" "c' \<noteq> dotdot" using assms(3,4) by (auto simp: normal_name_def dotdot_def)
  have ne: "(d, c) \<noteq> (d', c')" using assms(1,5) by auto
  show ?thesis unfolding moved_def e3 e2 using assms(1,6) nd ne by (auto simp: gone_def)
qed

section \<open>One move\<close>

lemma site_realpath_still: "site_realpath p s = (r, s') \<Longrightarrow> still_step s s'"
  using next_call_still(1) [of s] still_trans [OF _ still_fail]
  by (auto simp: site_realpath_def split: prod.splits if_splits sum.splits)

lemma is_subdirectory_target_still:
  assumes "is_subdirectory_target source target s = (b, s')" and "unfailing s"
  shows "still_step s s'"
proof -
  obtain a s1 where a: "site_strdup target s = (a, s1)" by force
  note i1 = site_strdup_spec [OF a assms(2)]
  obtain b' s2 where b': "site_strdup (dirname target) s1 = (b', s2)" by force
  note i2 = site_strdup_spec [OF b' still_unfailing [OF conjunct1 [OF i1] assms(2)]]
  have pp: "parent_path target s = (Some (dirname target), s2)" using i1 i2 by (simp add: parent_path_def a b')
  obtain x s3 where x: "site_realpath source s2 = (x, s3)" by force
  obtain y s4 where y: "site_realpath (dirname target) s3 = (y, s4)" by force
  have "s' = s4" using assms(1) by (auto simp: is_subdirectory_target_def pp x y split: option.splits)
  then show ?thesis using i1 i2 site_realpath_still [OF x] site_realpath_still [OF y] still_trans by blast
qed

lemma mv_resolve_target_spec:
  assumes "mv_resolve_target source dest multiple_sources s = (r, s')" and "unfailing s"
  shows "still_step s s' \<and> r = (if target_allowed dest multiple_sources s
    then Some (target_path (mv_basename source) dest s) else None)"
proof -
  obtain st s1 where st: "sys_stat dest s = (st, s1)" by force
  note a = sys_stat_spec [OF st assms(2)]
  have u: "unfailing s1" using still_unfailing [OF a(1) assms(2)] .
  note c = still_trans [OF a(1) still_complain]
  obtain r2 s2 where d: "site_strdup dest s1 = (r2, s2)" by force
  obtain r3 s3 where j: "join_path (bytes_of ''pa2_mv'') dest (mv_basename source) s1 = (r3, s3)" by force
  note f = site_strdup_spec [OF d u] join_path_spec [OF j u] still_trans [OF a(1), of s2] still_trans [OF a(1), of s3]
  show ?thesis
  proof (cases "resolve s dest")
    case (Inl e)
    then show ?thesis using assms(1) a(2,3) c f
      by (auto simp: mv_resolve_target_def st d target_allowed_def target_path_def into_dir_def split: if_splits)
  next
    case (Inr i)
    then show ?thesis using assms(1) a(2) c f
      by (auto simp: mv_resolve_target_def st d j target_allowed_def target_path_def into_dir_def joined_def split: if_splits)
  qed
qed

text \<open>The name that \<^verbatim>\<open>rename\<close> looks up: directory and last component.\<close>

definition final_name :: "bytes \<Rightarrow> bytes" where
  "final_name p = last (comps (drop_slashes p))"

lemma site_rename_spec:
  assumes "site_rename old new s = (r, s')" and "unfailing s"
  shows "r = -1 \<and> still_step s s' \<or> r = 0 \<and> (\<exists>d d' i s1. still_step s s1 \<and> resolve_parent s (drop_slashes old) = Inr d
    \<and> resolve_parent s (drop_slashes new) = Inr d' \<and> normal_name (final_name old) \<and> normal_name (final_name new)
    \<and> entry s d (final_name old) = Some i \<and> rename_checks old new d d' i s1 = None
    \<and> s' = (if entry s d' (final_name new) = Some i then s1 else move_entry d (final_name old) d' (final_name new) i s1))"
proof -
  obtain x s1 where x: "next_call s = (x, s1)" by force
  note nx = next_call_still [OF x]
  note n = still_names [OF nx(1)]
  note bad = still_trans [OF nx(1) still_fail]
  have xf: "x \<noteq> Fail" using nx(2) assms(2) .
  let ?p = "drop_slashes old" and ?q = "drop_slashes new"
  have R: "(r, s') = (if old = [] \<or> new = [] then (-1, fail ENOENT s1)
        else if ?p = [] \<or> ?q = [] then (-1, fail EBUSY s1)
        else case resolve_parent s1 ?p of
          Inl e \<Rightarrow> (-1, fail e s1)
        | Inr d \<Rightarrow> (case resolve_parent s1 ?q of
            Inl e \<Rightarrow> (-1, fail e s1)
          | Inr d' \<Rightarrow>
              if \<not> normal_name (final_name old) \<or> \<not> normal_name (final_name new) then (-1, fail EBUSY s1)
              else case entry s1 d (final_name old) of
                None \<Rightarrow> (-1, fail ENOENT s1)
              | Some i \<Rightarrow>
                  (case rename_checks old new d d' i s1 of
                     Some e \<Rightarrow> (-1, fail e s1)
                   | None \<Rightarrow>
                       (0, if entry s1 d' (final_name new) = Some i then s1
                           else move_entry d (final_name old) d' (final_name new) i s1))))"
    using assms(1) unfolding site_rename_def x final_name_def Let_def by (simp only: xf prod.case if_False refl)
  have failed: ?thesis if "(r, s') = (-1, fail e s1)" for e
    using that bad by simp
  show ?thesis
  proof (cases "old = [] \<or> new = [] \<or> ?p = [] \<or> ?q = []")
    case True
    then show ?thesis using R failed by (cases "old = [] \<or> new = []") auto
  next
    case names: False
    show ?thesis
    proof (cases "resolve_parent s1 ?p")
      case (Inl e)
      then show ?thesis using R names failed by simp
    next
      case d: (Inr d)
      show ?thesis
      proof (cases "resolve_parent s1 ?q")
        case (Inl e)
        then show ?thesis using R names d failed by simp
      next
        case d': (Inr d')
        show ?thesis
        proof (cases "normal_name (final_name old) \<and> normal_name (final_name new)")
          case False
          then show ?thesis using R names d d' failed by auto
        next
          case True
          show ?thesis
          proof (cases "entry s1 d (final_name old)")
            case None
            then show ?thesis using R names d d' True failed by simp
          next
            case (Some i)
            then show ?thesis using R names d d' True failed nx(1) n(2,4)
              by (cases "rename_checks old new d d' i s1") auto
          qed
        qed
      qed
    qed
  qed
qed

text \<open>A file that can be moved to a path without further conditions.\<close>

definition movable :: "bytes \<Rightarrow> bytes \<Rightarrow> nat \<Rightarrow> site \<Rightarrow> bool" where
  "movable source target i s \<longleftrightarrow> \<not> is_dir i s
     \<and> list_all (\<lambda>p. drop_slashes p = p \<and> normal_name (final_name p) \<and> \<not> isl (resolve_parent s p)) [source, target]
     \<and> (case resolve s target of Inl e \<Rightarrow> True | Inr j \<Rightarrow> \<not> is_dir j s \<and> j \<noteq> i)"

lemma site_rename_movable:
  assumes "movable source target i s" and "resolve s source = Inr i" and "unfailing s"
  shows "fst (site_rename source target s) = 0"
proof -
  obtain x s1 where x: "next_call s = (x, s1)" by force
  note nx = next_call_still [OF x]
  note n = still_names [OF nx(1)]
  obtain d d' where d: "resolve_parent s source = Inr d" and d': "resolve_parent s target = Inr d'"
    using assms(1) by (cases "resolve_parent s source"; cases "resolve_parent s target") (auto simp: movable_def)
  have p: "drop_slashes source = source" "drop_slashes target = target" "normal_name (final_name source)" "normal_name (final_name target)"
    "\<not> is_dir i s"
    using assms(1) by (auto simp: movable_def)
  have ne: "source \<noteq> []" "target \<noteq> []" using d d' by (auto simp: resolve_parent_def)
  have i: "entry s d (final_name source) = Some i"
    using resolve_last [OF d] assms(2) p(1) by (auto simp: final_name_def split: option.splits)
  have t: "entry s d' (final_name target) = Some j \<Longrightarrow> \<not> is_dir j s \<and> j \<noteq> i" for j
    using resolve_last [OF d'] assms(1) p(2) by (auto simp: movable_def final_name_def)
  have c: "rename_checks source target d d' i s1 = None"
    using p(5) n(3,4) t by (auto simp: rename_checks_def p(1,2) Let_def final_name_def split: option.split)
  show ?thesis
    using nx(2) assms(3) d d' p(3,4) i c n(2,4) ne by (simp add: site_rename_def x Let_def p(1,2) final_name_def)
qed

lemma move_entry_world: "s_world (move_entry d c d' c' i s) = s_world s"
  by (auto simp: move_entry_def Let_def split: option.splits)

lemma site_rename_moves:
  assumes "site_rename source target s = (r, s')" and "unfailing s" and "dots_ok s"
    and "resolve s source = Inr i" and "resolve s target \<noteq> Inr i"
  shows "r = -1 \<and> still_step s s' \<or> r = 0 \<and> (\<exists>d d'. resolve_parent s (drop_slashes source) = Inr d
    \<and> resolve_parent s (drop_slashes target) = Inr d' \<and> moved d (final_name source) d' (final_name target) i s s'
    \<and> (is_dir i s \<longrightarrow> i \<notin> set (way_to_parent s (drop_slashes target)))
    \<and> w_data (s_world s') = w_data (s_world s) \<and> fd_of (s_world s') = fd_of (s_world s))"
  using site_rename_spec [OF assms(1,2)]
proof (elim disjE exE conjE)
  fix d d' i' s1
  assume s1: "still_step s s1" and d: "resolve_parent s (drop_slashes source) = Inr d"
    and d': "resolve_parent s (drop_slashes target) = Inr d'"
    and nn: "normal_name (final_name source)" "normal_name (final_name target)"
    and e: "entry s d (final_name source) = Some i'" and ch: "rename_checks source target d d' i' s1 = None"
    and s': "s' = (if entry s d' (final_name target) = Some i' then s1 else move_entry d (final_name source) d' (final_name target) i' s1)"
    and r: "r = 0"
  note n = still_names [OF s1]
  have sl: "is_dir i' s \<or> drop_slashes source = source \<and> drop_slashes target = target"
    using ch n(3) by (auto simp: rename_checks_def Let_def split: if_splits)
  have "resolve s (drop_slashes source) = Inr i'" using resolve_last [OF d] e by (simp add: final_name_def)
  then have i: "i' = i" using resolve_slashes [OF assms(3), of source i'] sl assms(4) by auto
  have t: "entry s d' (final_name target) \<noteq> Some i"
  proof
    assume "entry s d' (final_name target) = Some i"
    then have "resolve s (drop_slashes target) = Inr i" using resolve_last [OF d'] by (simp add: final_name_def)
    then show False using resolve_slashes [OF assms(3), of target i] sl i assms(5) by auto
  qed
  have j: "\<forall>j. entry s1 d' (final_name target) = Some j \<longrightarrow> is_dir j s1 = is_dir i s1 \<and> (is_dir j s1 \<longrightarrow> empty_dir j s1)"
    using ch t n(4) i by (auto simp: rename_checks_def Let_def final_name_def split: if_splits)
  have dir: "is_dir d' s1" using d' n(3) by (auto simp: resolve_parent_def split: if_splits sum.splits)
  have "moved d (final_name source) d' (final_name target) i s1 (move_entry d (final_name source) d' (final_name target) i s1)"
    using move_entry_moved [OF _ dir nn _ j] e t n(4) i by simp
  then have m: "moved d (final_name source) d' (final_name target) i s s'"
    using t s' i n(3,4,7) by (simp add: moved_def)
  have "is_dir i s \<longrightarrow> i \<notin> set (way_to_parent s (drop_slashes target))"
    using ch i n(3,6) by (auto simp: rename_checks_def Let_def split: if_splits)
  moreover have "s_world s' = s_world s1" using s' t i by (simp add: move_entry_world)
  ultimately show ?thesis using r d d' m n(8,9) by auto
qed simp

lemma move_one_spec:
  fixes dest :: bytes and multiple_sources :: bool
  assumes "unfailing s" and "dots_ok s" and "resolve s source = Inr i"
  defines "target \<equiv> target_path (mv_basename source) dest s"
  shows "\<exists>r s'. move_one source dest multiple_sources s = (r, s')
    \<and> w_data (s_world s') = w_data (s_world s) \<and> fd_of (s_world s') = fd_of (s_world s)
    \<and> (r = 1 \<and> s_dirs s' = s_dirs s
       \<or> r = 0 \<and> target_allowed dest multiple_sources s \<and> (\<exists>d d'. resolve_parent s (drop_slashes source) = Inr d
          \<and> resolve_parent s (drop_slashes target) = Inr d' \<and> moved d (final_name source) d' (final_name target) i s s'
          \<and> (is_dir i s \<longrightarrow> i \<notin> set (way_to_parent s (drop_slashes target)))))
    \<and> (target_allowed dest multiple_sources s \<and> movable source target i s \<longrightarrow> r = 0)"
proof -
  have idle: ?thesis if "move_one source dest multiple_sources s = (1, s')" "still_step s s'"
    "\<not> (target_allowed dest multiple_sources s \<and> movable source target i s)" for s'
    using that still_names(8,9) [OF that(2)] by (auto simp: still_step_def calm_step_def)
  obtain st s1 where st: "sys_stat source s = (st, s1)" by force
  note a = sys_stat_spec [OF st assms(1)]
  have st': "st = Some \<lparr>st_ino = i, st_dir = is_dir i s\<rparr>" using a(2) assms(3) by simp
  obtain res s2 where res: "mv_resolve_target source dest multiple_sources s1 = (res, s2)" by force
  have t1: "target_allowed dest multiple_sources s1 = target_allowed dest multiple_sources s"
    "target_path (mv_basename source) dest s1 = target"
    using still_names [OF a(1)] by (auto simp: target_allowed_def target_path_def into_dir_def target_def split: sum.splits)
  note b = mv_resolve_target_spec [OF res still_unfailing [OF a(1) assms(1)], unfolded t1]
  have i2: "still_step s s2" using still_trans [OF a(1)] b by blast
  show ?thesis
  proof (cases "target_allowed dest multiple_sources s")
    case False
    then show ?thesis using b idle [OF _ i2] by (simp add: move_one_def st st' res)
  next
    case True
    obtain st2 s3 where st2: "sys_stat target s2 = (st2, s3)" by force
    note c = sys_stat_spec [OF st2 still_unfailing [OF i2 assms(1)]]
    have i3: "still_step s s3" using still_trans [OF i2 c(1)] .
    have same: "(case st2 of Some target_st \<Rightarrow> cp_same_file \<lparr>st_ino = i, st_dir = is_dir i s\<rparr> target_st | None \<Rightarrow> False)
        = (resolve s target = Inr i)"
      using c(2) still_names [OF i2] by (auto simp: cp_same_file_def split: sum.splits)
    obtain below s4 where below: "(if is_dir i s then is_subdirectory_target source target s3 else (False, s3)) = (below, s4)" by force
    have i4: "still_step s s4"
      using below is_subdirectory_target_still [OF _ still_unfailing [OF i3 assms(1)]] i3 still_trans by (auto split: if_splits)
    obtain r s5 where rn: "site_rename source target s4 = (r, s5)" by force
    have m: "move_one source dest multiple_sources s = (if resolve s target = Inr i
        then (1, complain [bytes_of ''pa2_mv: '', QUOTE, mv_basename source, QUOTE, bytes_of '' and '', QUOTE, target,
                       QUOTE, bytes_of '' are the same file''] s3)
        else if below then (1, cannot_move_below source target s4)
        else if r = -1 then (1, rename_failed source dest target s5) else (0, s5))"
      using b True same below rn by (simp add: move_one_def st st' res st2)
    note n4 = still_names [OF i4]
    have u4: "unfailing s4" "dots_ok s4" "resolve s4 source = Inr i"
      using still_unfailing [OF i4 assms(1)] n4(1,3,4) assms(2,3) by (simp_all add: dots_ok_def)
    show ?thesis
    proof (cases "resolve s target = Inr i \<or> below")
      case stopped: True
      have "still_step s (cannot_move_below source target s4)"
        using still_trans [OF i4 still_complain] by (simp add: cannot_move_below_def)
      moreover have "\<not> movable source target i s" using stopped below by (auto simp: movable_def split: if_splits)
      ultimately show ?thesis using m stopped idle still_trans [OF i3 still_complain] by (cases "resolve s target = Inr i") auto
    next
      case False
      have rm: "movable source target i s \<Longrightarrow> r = 0"
        using site_rename_movable [of source target i s4] u4 n4 rn by (auto simp: movable_def split: sum.splits)
      have t4: "resolve s4 target \<noteq> Inr i" using False n4(1) by simp
      from site_rename_moves [OF rn u4(1,2,3) t4] show ?thesis
      proof (elim disjE conjE exE)
        assume f: "r = -1" "still_step s4 s5"
        have "still_step s5 (rename_failed source dest target s5)" by (simp add: rename_failed_def cannot_move_below_def)
        then have "still_step s (rename_failed source dest target s5)" using i4 f(2) still_trans by blast
        then show ?thesis using idle m f False rm by auto
      next
        fix d d'
        assume g: "r = 0" "resolve_parent s4 (drop_slashes source) = Inr d" "resolve_parent s4 (drop_slashes target) = Inr d'"
          "moved d (final_name source) d' (final_name target) i s4 s5"
          "is_dir i s4 \<longrightarrow> i \<notin> set (way_to_parent s4 (drop_slashes target))"
          "w_data (s_world s5) = w_data (s_world s4)" "fd_of (s_world s5) = fd_of (s_world s4)"
        have "moved d (final_name source) d' (final_name target) i s s5" using g(4) n4 by (simp add: moved_def)
        then show ?thesis using m False True g n4 by auto
      qed
    qed
  qed
qed

end
