(* ===== verification/Pa2_Tools.thy ===== *)
theory Pa2_Tools
  imports Pa2_Print Pa2_Cat Pa2_Echo Pa2_Rename
begin

text \<open>
  The properties of the stand-alone programs, each with a witness on a small file system: the root has a
  file \<^verbatim>\<open>a\<close> of two lines and an empty directory \<^verbatim>\<open>d\<close>.
\<close>

definition small_site :: site where
  "small_site = \<lparr>
     s_world = \<lparr>
       w_fds = [Some \<lparr>o_ino = 10, o_off = 0, o_kind = Stream\<rparr>, Some \<lparr>o_ino = 11, o_off = 0, o_kind = Stream\<rparr>],
       w_data = (\<lambda>_. [])(1 := [97, 10, 98, 10]), w_names = (\<lambda>_. None), w_nino = 12, w_ntmp = 0, w_errno = ENONE, w_plan = []\<rparr>,
     s_dirs = (\<lambda>_. None)(0 := Some [([DOT], 0), ([DOT, DOT], 0), ([97], 1), ([100], 2)],
                         2 := Some [([DOT], 2), ([DOT, DOT], 0)]),
     s_root = 0, s_cwd = [], s_err = []\<rparr>"

abbreviation file_a :: bytes where "file_a \<equiv> [97]"
abbreviation file_b :: bytes where "file_b \<equiv> [98]"
abbreviation dir_d :: bytes where "dir_d \<equiv> [100]"

lemmas names = SLASH_def DOT_def DASH_def

lemma small_site_plan: "unfailing small_site" "smooth small_site" "quiet_plan small_site" "full_plan small_site"
  "Fail \<notin> set (w_plan (s_world small_site))"
  by (simp_all add: small_site_def unfailing_def smooth_def quiet_plan_def full_plan_def)

lemma small_site_dirs: "is_dir i small_site \<longleftrightarrow> i = 0 \<or> i = 2"
  by (simp add: small_site_def is_dir_def)

lemma small_site_entry:
  "entry small_site i c = (if i = 0 then map_of [([DOT], 0), ([DOT, DOT], 0), (file_a, 1), (dir_d, 2)] c
     else if i = 2 then map_of [([DOT], 2), ([DOT, DOT], 0)] c else None)"
  by (simp add: small_site_def entry_def)

lemma small_site_ok: "site_ok small_site" "dots_ok small_site"
proof -
  have "s_root small_site = 0" "w_nino (s_world small_site) = 12" by (simp_all add: small_site_def)
  then show "site_ok small_site"
    unfolding site_ok_def small_site_dirs small_site_entry by (auto split: if_splits)
  show "dots_ok small_site" by (auto simp: dots_ok_def small_site_dirs small_site_entry)
qed

lemma small_site_resolve:
  "resolve small_site file_a = Inr 1" "resolve small_site file_b = Inl ENOENT" "resolve small_site dir_d = Inr 2"
  "resolve_parent small_site file_a = Inr 0" "resolve_parent small_site file_b = Inr 0"
  "resolve small_site [100, 47, 97] = Inl ENOENT" "resolve_parent small_site [100, 47, 97] = Inr 2"
  by (simp_all add: resolve_def resolve_parent_def walk_from_def absolute_def comps_def small_site_def names is_dir_def)

lemma small_site_data:
  "w_data (s_world small_site) 1 = [97, 10, 98, 10]" "w_data (s_world small_site) (Suc 0) = [97, 10, 98, 10]"
  "fd_of (s_world small_site) 1 = Some \<lparr>o_ino = 11, o_off = 0, o_kind = Stream\<rparr>"
  "at_end \<lparr>o_ino = 11, o_off = 0, o_kind = Stream\<rparr> s"
  by (simp_all add: small_site_def fd_of_def at_end_def)

lemma small_lines: "file_lines [97, 10, 98, 10] = [[97, 10], [98, 10]]"
  by (simp add: file_lines_Cons)

section \<open>The programs\<close>

text \<open>
  C33: \<open>pa2_head -n k file\<close> and \<open>pa2_tail -n k file\<close>, with the arguments in either order, print the first and the
  last \<open>k\<close> lines of the file; the ring of \<open>pa2_tail\<close> is equivalent to dropping all but the last lines of the list
  of lines. However the C library buffers the output and wherever the streams end with an error: they print nothing
  but a prefix of these lines, and with status 0 at most the bytes that the library may hold back are missing,
  which are none for an unbuffered stream. When no call fails, all is printed and the status is 0. The other calls
  may fail as well for \<open>pa2_head\<close>, but not for \<open>pa2_tail\<close>, which takes a failing allocation for the end of the file.
\<close>

theorem pa2_head_tail_lines:
  assumes "args \<in> line_arguments k path" and "plain_path path" and "k * 8 < PTRDIFF_LIMIT"
    and "resolve s path = Inr i" and "\<not> is_dir i s" and "holds_at_most cap holds"
  defines "ls \<equiv> file_lines (w_data (s_world s) i)"
  defines "first \<equiv> concat (take k ls)" and "final \<equiv> concat (drop (length ls - k) ls)"
  shows "(\<exists>r out s'. head_main holds args s = (r, out, s') \<and> prefix out first
           \<and> (r = EXIT_SUCCESS \<longrightarrow> length first \<le> length out + cap) \<and> (quiet_plan s \<longrightarrow> r = EXIT_SUCCESS \<and> out = first))
       \<and> (Fail \<notin> set (w_plan (s_world s)) \<longrightarrow> (\<exists>r out s'. tail_main holds args s = Some (r, out, s') \<and> prefix out final
           \<and> (r = EXIT_SUCCESS \<longrightarrow> length final \<le> length out + cap) \<and> (quiet_plan s \<longrightarrow> r = EXIT_SUCCESS \<and> out = final)))"
proof -
  have "k \<le> ULLONG_MAX" using assms(3) by (simp add: ULLONG_MAX_def PTRDIFF_LIMIT_def)
  then show ?thesis unfolding first_def final_def ls_def
    using head_prints [OF assms(1,2) _ assms(4-6)] tail_prints [OF assms(1-5) _ assms(6)] unfolding shows_text_def by blast
qed

theorem pa2_head_tail_lines_witness:
  "(\<exists>s'. head_main (block_buffer 4096) [bytes_of ''-n'', show_nat 1, file_a] small_site = (0, [97, 10], s'))
   \<and> (\<exists>s'. tail_main (block_buffer 4096) [bytes_of ''-n'', show_nat 1, file_a] small_site = Some (0, [98, 10], s'))"
proof -
  have "[bytes_of ''-n'', show_nat 1, file_a] \<in> line_arguments 1 file_a" by (simp add: line_arguments_def)
  moreover have "plain_path file_a" by (simp add: plain_path_def is_option_def names)
  moreover have "1 * 8 < PTRDIFF_LIMIT" by (simp add: PTRDIFF_LIMIT_def)
  moreover have "\<not> is_dir 1 small_site" by (simp add: small_site_dirs)
  ultimately have "(\<exists>r out s'. head_main (block_buffer 4096) [bytes_of ''-n'', show_nat 1, file_a] small_site = (r, out, s')
      \<and> r = 0 \<and> out = [97, 10])
    \<and> (\<exists>r out s'. tail_main (block_buffer 4096) [bytes_of ''-n'', show_nat 1, file_a] small_site = Some (r, out, s')
      \<and> r = 0 \<and> out = [98, 10])"
    using pa2_head_tail_lines [OF _ _ _ small_site_resolve(1) _ block_buffer_holds,
        of "[bytes_of ''-n'', show_nat 1, file_a]" 1 4096]
    by (auto simp: small_site_data small_lines EXIT_SUCCESS_def small_site_plan)
  then show ?thesis by auto
qed

text \<open>
  C34: when its output is none of its files, no argument is \<^verbatim>\<open>-\<close> and no call fails for good, \<open>pa2_cat\<close> ends. With
  status 0 it has printed all files in order; without interruptions and failures it has status 0 exactly when all files can be read.
\<close>

theorem pa2_cat_concatenates:
  assumes "unfailing s" and "fd_of (s_world s) 1 = Some g" and "at_end g s" and "paths \<noteq> []" and "[DASH] \<notin> set paths"
    and "\<forall>p\<in>set paths. resolve s p \<noteq> Inr (o_ino g)"
  shows "\<exists>r s' out. cat_main paths s = Some (r, s') \<and> came_out g out s s'
    \<and> (r = EXIT_SUCCESS \<longrightarrow> list_all (readable s) paths \<and> out = concat (map (contents s) paths))
    \<and> (smooth s \<and> list_all (readable s) paths \<longrightarrow> r = EXIT_SUCCESS)"
proof -
  obtain r s' out where "cat_all paths 0 s = Some (r, s')" "came_out g out s s'" "r \<in> {0, 1}"
    "r = 0 \<longrightarrow> list_all (readable s) paths \<and> out = concat (map (contents s) paths)"
    "smooth s \<and> list_all (readable s) paths \<longrightarrow> r = 0"
    using cat_all_spec [OF assms(1,2,3,5,6), of 0] by auto
  then show ?thesis using assms(4) by (auto simp: cat_main_def exit_status_def EXIT_SUCCESS_def EXIT_FAILURE_def)
qed

theorem pa2_cat_concatenates_witness:
  "\<exists>s'. cat_main [file_a, file_a] small_site = Some (0, s') \<and> w_data (s_world s') 11 = [97, 10, 98, 10, 97, 10, 98, 10]"
proof -
  have r: "list_all (readable small_site) [file_a, file_a]"
    by (simp add: readable_def small_site_resolve small_site_dirs)
  have c: "concat (map (contents small_site) [file_a, file_a]) = [97, 10, 98, 10, 97, 10, 98, 10]"
    by (simp add: contents_def small_site_resolve small_site_dirs small_site_data)
  have "w_data (s_world small_site) 11 = []" by (simp add: small_site_def)
  then show ?thesis
    using pa2_cat_concatenates [OF small_site_plan(1) small_site_data(3,4), of "[file_a, file_a]"] r small_site_plan(2)
    by (auto simp: c [simplified] came_out_def EXIT_SUCCESS_def small_site_resolve names)
qed

text \<open>
  C31: \<open>pa2_cp source dest\<close>, when the target is not the source: whatever calls fail, the program ends, leaves no
  descriptor open and does not change the source. Either the target has been opened for writing, and then no
  other file has changed, and with status 0 the target has the contents of the source; or nothing has changed and
  the status is 1. When no call fails, the first is the case exactly for a target that can be written, a target
  that is the source is refused with status 1 and stays as it is, and without interruptions a copy has status 0.
  Short transfers do no harm.
\<close>

theorem pa2_cp_copies:
  fixes dest :: bytes
  assumes "site_ok s" and "resolve s source = Inr i" and "\<not> is_dir i s"
  defines "target \<equiv> target_path (cp_basename source) dest s"
  assumes "resolve s target \<noteq> Inr i \<or> unfailing s"
  shows "\<exists>r s'. cp_main [source, dest] s = Some (r, s') \<and> fd_of (s_world s') = fd_of (s_world s)
    \<and> w_data (s_world s') i = w_data (s_world s) i
    \<and> (copy_done i target r s s' \<or> r = EXIT_FAILURE \<and> w_data (s_world s') = w_data (s_world s) \<and> s_dirs s' = s_dirs s)
    \<and> (unfailing s \<longrightarrow>
         (if target_allowed dest False s \<and> resolve s target \<noteq> Inr i \<and> writable target s
          then copy_done i target r s s' \<and> (smooth s \<longrightarrow> r = EXIT_SUCCESS)
          else r = EXIT_FAILURE \<and> w_data (s_world s') = w_data (s_world s) \<and> s_dirs s' = s_dirs s))"
proof -
  let ?ok = "target_allowed dest False s \<and> resolve s target \<noteq> Inr i \<and> writable target s"
  obtain r s' where c: "copy_one source dest False s = Some (r, s')"
    and o: "(unfailing s \<longrightarrow> \<not> ?ok) \<and> r = 1 \<and> calm_step s s' \<and> fd_of (s_world s') = fd_of (s_world s)
      \<or> (unfailing s \<longrightarrow> ?ok) \<and> copy_done i target r s s' \<and> (smooth s \<longrightarrow> r = 0)"
    using copy_one_spec [OF assms(1-3), of dest False] assms(5) unfolding target_def by blast
  let ?r = "exit_status (if r \<noteq> 0 then 1 else 0)"
  have m: "cp_main [source, dest] s = Some (?r, s')" by (simp add: cp_main_def c)
  have e: "copy_done i target ?r s s' = copy_done i target r s s'"
    by (simp add: copy_done_def exit_status_def EXIT_SUCCESS_def EXIT_FAILURE_def)
  have "w_data (s_world s') i = w_data (s_world s) i \<and> fd_of (s_world s') = fd_of (s_world s)"
    using o calm_step_names(8) [of s s'] by (auto simp: copy_done_def)
  then show ?thesis using m e o calm_step_names(8) [of s s']
    by (auto simp: exit_status_def EXIT_SUCCESS_def EXIT_FAILURE_def calm_step_def)
qed

theorem pa2_cp_copies_witness:
  "\<exists>s' t. cp_main [file_a, file_b] small_site = Some (0, s') \<and> resolve s' file_b = Inr t
     \<and> w_data (s_world s') t = [97, 10, 98, 10] \<and> w_data (s_world s') 1 = [97, 10, 98, 10]"
proof -
  have nd: "\<not> is_dir 1 small_site" by (simp add: small_site_dirs)
  have t: "target_path (cp_basename file_a) file_b small_site = file_b" "target_allowed file_b False small_site"
    by (simp_all add: target_path_def target_allowed_def into_dir_def small_site_resolve ends_with_slash_def names)
  have w: "writable file_b small_site"
    by (simp add: writable_def small_site_resolve normal_name_def comps_def names)
  show ?thesis
    using pa2_cp_copies [OF small_site_ok(1) small_site_resolve(1) nd, of file_b] t w
    by (auto simp: small_site_resolve small_site_plan copy_done_def EXIT_SUCCESS_def small_site_data)
qed

text \<open>
  C32: \<open>pa2_mv source dest\<close> changes no contents and no descriptor. Either it has status 1 and no name has
  changed, or it has status 0 and exactly one name has moved: from where \<open>source\<close> was to where the target is. A
  directory never moves below itself, and what the new name stood for was a file or an empty directory. A
  plain file moves to every name that is free or that of another file.
\<close>

theorem pa2_mv_moves:
  assumes "unfailing s" and "dots_ok s" and "resolve s source = Inr i"
  shows "\<exists>r s'. mv_main [source, dest] s = (r, s')
    \<and> w_data (s_world s') = w_data (s_world s) \<and> fd_of (s_world s') = fd_of (s_world s)
    \<and> (let target = target_path (mv_basename source) dest s in
       (r = EXIT_FAILURE \<and> s_dirs s' = s_dirs s
        \<or> r = EXIT_SUCCESS \<and> target_allowed dest False s
          \<and> (\<exists>d d'. resolve_parent s (drop_slashes source) = Inr d \<and> resolve_parent s (drop_slashes target) = Inr d'
             \<and> moved d (final_name source) d' (final_name target) i s s'
             \<and> (is_dir i s \<longrightarrow> i \<notin> set (way_to_parent s (drop_slashes target)))))
       \<and> (target_allowed dest False s \<and> movable source target i s \<longrightarrow> r = EXIT_SUCCESS))"
proof -
  obtain r s' where m: "move_one source dest False s = (r, s')"
    and p: "w_data (s_world s') = w_data (s_world s)" "fd_of (s_world s') = fd_of (s_world s)"
      "r = 1 \<and> s_dirs s' = s_dirs s
       \<or> r = 0 \<and> target_allowed dest False s \<and> (\<exists>d d'. resolve_parent s (drop_slashes source) = Inr d
          \<and> resolve_parent s (drop_slashes (target_path (mv_basename source) dest s)) = Inr d'
          \<and> moved d (final_name source) d' (final_name (target_path (mv_basename source) dest s)) i s s'
          \<and> (is_dir i s \<longrightarrow> i \<notin> set (way_to_parent s (drop_slashes (target_path (mv_basename source) dest s)))))"
      "target_allowed dest False s \<and> movable source (target_path (mv_basename source) dest s) i s \<longrightarrow> r = 0"
    using move_one_spec [OF assms, of dest False] by blast
  have "mv_main [source, dest] s = (r, s')" using m p(3)
    by (auto simp: mv_main_def exit_status_def EXIT_SUCCESS_def EXIT_FAILURE_def)
  then show ?thesis using p by (simp add: Let_def EXIT_SUCCESS_def EXIT_FAILURE_def)
qed

theorem pa2_mv_moves_witness:
  "\<exists>s'. mv_main [file_a, dir_d] small_site = (0, s') \<and> entry s' 2 file_a = Some 1 \<and> entry s' 0 file_a = None"
proof -
  have t: "target_path (mv_basename file_a) dir_d small_site = [100, 47, 97]" "target_allowed dir_d False small_site"
    by (simp_all add: target_path_def target_allowed_def into_dir_def small_site_resolve small_site_dirs joined_def
        mv_basename_def names)
  have f: "drop_slashes file_a = file_a" "drop_slashes [100, 47, 97] = [100, 47, 97]" "final_name file_a = file_a"
    "final_name [100, 47, 97] = file_a"
    by (simp_all add: drop_slashes_def final_name_def comps_def names)
  have "normal_name file_a" by (simp add: normal_name_def names)
  then have "movable file_a [100, 47, 97] 1 small_site"
    by (simp add: movable_def small_site_dirs f small_site_resolve)
  then show ?thesis
    using pa2_mv_moves [OF small_site_plan(1) small_site_ok(2) small_site_resolve(1), of dir_d] t
    by (auto simp: Let_def f small_site_resolve moved_def EXIT_SUCCESS_def EXIT_FAILURE_def)
qed

text \<open>
  C35: \<open>pa2_echo\<close> sets its flags from the option words letter by letter, never writes behind its buffer, and
  prints its arguments with one space between them, with escapes and newline as the flags say, whatever their
  length, when the system writes all it is given.
\<close>

theorem pa2_echo_prints:
  assumes "list_all option_word opts" and "rest = [] \<or> \<not> is_option (hd rest)"
    and "fd_of (s_world s) 1 = Some g" and "at_end g s" and "full_plan s"
  defines "eo \<equiv> fold set_letter (concat (map tl opts)) \<lparr>output_trailing_newline = True, enable_backslash_escaping = False\<rparr>"
  shows "\<exists>s'. echo_main name (opts @ rest) s = Some (0, s')
    \<and> appended 1 g (echo_text (enable_backslash_escaping eo) rest @ (if output_trailing_newline eo then [10] else [])) s s'"
  unfolding eo_def by (rule echo_prints [OF assms(1-5)])

theorem pa2_echo_prints_witness:
  "\<exists>s'. echo_main (bytes_of ''pa2_echo'') [bytes_of ''-ne'', [97, 92, 116], [98]] small_site = Some (0, s')
     \<and> w_data (s_world s') 11 = [97, 9, 32, 98]"
proof -
  have o: "list_all option_word [bytes_of ''-ne'']"
    by (simp add: option_word_def is_option_def letters_ok_def bytes_of_simps names)
  have r: "[[97, 92, 116], [98]] = [] \<or> \<not> is_option (hd [[97, 92, 116 :: byte], [98]])"
    by (simp add: is_option_def names)
  have "w_data (s_world small_site) 11 = []" by (simp add: small_site_def)
  then show ?thesis
    using pa2_echo_prints [OF o r small_site_data(3,4) small_site_plan(4), of "bytes_of ''pa2_echo''"]
    by (auto simp: appended_def set_letter_def bytes_of_simps shown_def to_escape_char_def)
qed

section \<open>Removing\<close>

text \<open>\<open>pa2_rm\<close> removes exactly the name of a file, or nothing at all.\<close>

lemma remove_path_removes:
  assumes "remove_path path s = (r, s')" and "unfailing s"
  shows "r = 0 \<and> (\<exists>d i. resolve_parent s path = Inr d \<and> entry s d (last (comps path)) = Some i \<and> \<not> is_dir i s
           \<and> (\<forall>e n. entry s' e n = (if (e, n) = (d, last (comps path)) then None else entry s e n)))
       \<or> r = 1 \<and> s_dirs s' = s_dirs s"
proof -
  obtain x s1 where x: "next_call s = (x, s1)" by force
  note nx = next_call_still [OF x]
  note n = still_names [OF nx(1)]
  obtain u s2 where u: "site_unlink path s = (u, s2)" by force
  have sp: "u = 0 \<and> (\<exists>d i. resolve_parent s path = Inr d \<and> entry s d (last (comps path)) = Some i \<and> \<not> is_dir i s
      \<and> s2 = set_entry d (last (comps path)) None s1) \<or> u = -1 \<and> s_dirs s2 = s_dirs s1"
    using u nx(2) assms(2) n(2,3,4) unfolding site_unlink_def x
    by (auto simp: fail_def split: sum.splits option.splits if_splits)
  have d1: "s_dirs s1 = s_dirs s" using nx(1) by (simp add: still_step_def calm_step_def)
  show ?thesis
  proof (cases "u = 0")
    case True
    then have "r = 0" "s' = s2" using assms(1) u by (simp_all add: remove_path_def)
    then show ?thesis using sp True n(3,4) entry_is_dir by (auto simp: entry_set_entry)
  next
    case False
    obtain st s3 where st: "sys_stat path s2 = (st, s3)" by force
    have "s_dirs s3 = s_dirs s2"
      using st by (cases "next_call s2") (auto simp: sys_stat_def next_call_def fail_def split: prod.splits if_splits sum.splits)
    then have "r = 1" "s_dirs s' = s_dirs s2"
      using assms(1) False u st by (auto simp: remove_path_def complain_def Let_def split: if_splits)
    then show ?thesis using sp False d1 by simp
  qed
qed

section \<open>Observations\<close>

text \<open>
  A directory that is moved under a name with a slash at its end has the empty base name, so that an empty
  directory is not the place it moves to but is replaced.
\<close>

definition two_dirs :: site where
  "two_dirs = small_site\<lparr>s_dirs := (\<lambda>_. None)(0 := Some [([DOT], 0), ([DOT, DOT], 0), (dir_d, 2), ([101], 3)],
     2 := Some [([DOT], 2), ([DOT, DOT], 0)], 3 := Some [([DOT], 3), ([DOT, DOT], 0)])\<rparr>"

lemma slash_replaces: "mv_basename [101, 47] = []" "target_path (mv_basename [101, 47]) dir_d two_dirs = [100, 47]"
  by (simp_all add: mv_basename_def behind_slash_def target_path_def into_dir_def joined_def two_dirs_def small_site_def
      resolve_def walk_from_def absolute_def comps_def is_dir_def names)

text \<open>\<open>pa2_echo\<close> does not look at what \<^verbatim>\<open>write\<close> returns: a short write loses text, and the status is 0.\<close>

lemma short_write_lost:
  "\<exists>s'. echo_main name [[97, 98]] (small_site\<lparr>s_world := (s_world small_site)\<lparr>w_plan := [Short 1]\<rparr>\<rparr>) = Some (0, s')
     \<and> w_data (s_world s') 11 = [97, 10]"
proof -
  have "handle_options (Suc (Suc 0)) (start_options [[97, 98]]) eo = Some (Suc 0, eo)" for eo
    using handle_words [of "[]" "[[97, 98]]" "Suc (Suc 0)" eo] by (simp add: is_option_def names)
  then show ?thesis
    by (simp add: echo_main_def put_char_def write_when_needed_def BUFFER_SIZE_def small_site_def site_write_def lift_call_def
        sys_write_def next_outcome_def fd_of_def write_limit_def put_at_def set_fd_def Let_def)
qed

section \<open>A lost source\<close>

text \<open>
  The same file system with a plan under which \<^verbatim>\<open>stat\<close> of the target fails. \<open>pa2_cp a a\<close> then takes the target for
  another file, truncates it, copies its no bytes, and has status 0: so the target must not be the source in the
  first part of \<open>pa2_cp_copies\<close>.
\<close>

definition unlucky_site :: site where
  "unlucky_site = small_site\<lparr>s_world := (s_world small_site)\<lparr>w_plan := [Normal, Normal, Normal, Fail]\<rparr>\<rparr>"

lemma cp_source_lost: "\<exists>s'. cp_main [file_a, file_a] unlucky_site = Some (0, s') \<and> w_data (s_world s') 1 = []"
  by (simp add: cp_main_def copy_one_def cp_resolve_target_def unlucky_site_def small_site_def sys_stat_def next_call_def
      next_outcome_def resolve_def walk_from_def absolute_def comps_def names is_dir_def site_strdup_def site_alloc_def
      lift_call_def sys_alloc_def ends_with_slash_def copy_file_contents_def open_read_def open_write_def opened_def
      install_fd_def store_data_def fail_def set_errno_def Let_def transfer.simps site_read_def sys_read_def fd_of_def
      site_close_def sys_close_def set_fd_def read_limit_def exit_status_def EXIT_SUCCESS_def)

section \<open>Lost output\<close>

text \<open>
  The same file system with a standard output that accepts no byte. With a buffer the bytes are lost when the
  programs end, and their status is 0; without one the first byte is refused.
\<close>

definition full_site :: site where
  "full_site = small_site\<lparr>s_world := (s_world small_site)\<lparr>w_plan := [Normal, Normal, Normal, Short 0]\<rparr>\<rparr>"

lemma full_site_options: "line_options tool (start_options [bytes_of ''-n'', show_nat 1, file_a]) 10 s = (Some (1, [file_a]), s)"
  using line_options_arguments [of "[bytes_of ''-n'', show_nat 1, file_a]" 1 file_a]
  by (simp add: line_arguments_def plain_path_def is_option_def names ULLONG_MAX_def)

lemma full_site_streams:
  obtains s1 s2 where "\<And>tool. open_input tool (Some file_a) full_site = (Some \<lparr>in_rest = [97, 10, 98, 10], in_fails = False\<rparr>, s1)"
    and "\<And>holds. standard_output holds s1 = (\<lparr>out_text = [], out_buffer = [], out_holds = holds, out_room = Some 0\<rparr>, s2)"
    and "\<And>n. site_alloc n s2 = (True, s2)"
proof -
  obtain s1 where 1: "\<And>tool. open_input tool (Some file_a) full_site = (Some \<lparr>in_rest = [97, 10, 98, 10], in_fails = False\<rparr>, s1)"
    and p: "w_plan (s_world s1) = [Short 0]"
    by (simp add: open_input_def full_site_def small_site_def sys_stat_def open_read_def next_call_def next_outcome_def
      resolve_def walk_from_def absolute_def comps_def names is_dir_def opened_def install_fd_def stream_of_def pending_def fd_of_def Let_def)
  have "fst (standard_output holds s1) = \<lparr>out_text = [], out_buffer = [], out_holds = holds, out_room = Some 0\<rparr>
      \<and> snd (standard_output holds s1) = s1\<lparr>s_world := (s_world s1)\<lparr>w_plan := []\<rparr>\<rparr>" for holds
    using p by (simp add: standard_output_def next_call_def next_outcome_def)
  then show thesis using that [OF 1, of "s1\<lparr>s_world := (s_world s1)\<lparr>w_plan := []\<rparr>\<rparr>"]
    by (simp add: prod_eq_iff site_alloc_def sys_alloc_def lift_call_def next_call_def next_outcome_def split_beta)
qed

lemmas output_lost = first_arg_def put_bytes_def block_buffer_def unbuffered_def text_at_exit_def Let_def exit_status_def
  EXIT_SUCCESS_def EXIT_FAILURE_def full_site_options

lemma head_output_lost: "\<exists>s'. head_main (block_buffer 4096) [bytes_of ''-n'', show_nat 1, file_a] full_site = (0, [], s')"
  by (rule full_site_streams) (simp add: head_main_def print_head_def output_lost del: One_nat_def)

lemma head_output_refused: "\<exists>s'. head_main unbuffered [bytes_of ''-n'', show_nat 1, file_a] full_site = (1, [], s')"
  by (rule full_site_streams) (simp add: head_main_def print_head_def output_lost del: One_nat_def)

lemma one_slot: "replicate 1 x = [x]" "[0..<1] = [0]"
  by simp_all

lemma tail_output_lost: "\<exists>s'. tail_main (block_buffer 4096) [bytes_of ''-n'', show_nat 1, file_a] full_site = Some (0, [], s')"
  by (rule full_site_streams) (simp add: tail_main_def tail_options_def tail_input_def print_tail_def site_calloc_def
      PTRDIFF_LIMIT_def tail_loop.simps next_line_Cons one_slot output_lost del: One_nat_def)

end
