(* ===== verification/Pa3_Common.thy ===== *)
theory Pa3_Common
  imports Posix
begin

text \<open>
  \<^verbatim>\<open>PA3/include\<close> and \<^verbatim>\<open>PA3/common/helper.c\<close>: the wire format of the seat reservation system, its
  error codes, and the two transfer loops, over a host with sockets. As in the file world of
  \<open>Posix\<close>, a plan says what the kernel does to the next calls.
\<close>

section \<open>Programs that may exit\<close>

text \<open>
  A piece of the server or the client returns, ends the process with a status, or is undefined
  (an access outside an object).
\<close>

datatype 'a run = Ret 'a | Exit int | Undefined

fun bind_run :: "'a run \<Rightarrow> ('a \<Rightarrow> 'b run) \<Rightarrow> 'b run" where
  "bind_run (Ret x) f = f x"
| "bind_run (Exit n) f = Exit n"
| "bind_run Undefined f = Undefined"

lemma bind_run_Ret: "bind_run m f = Ret y \<longleftrightarrow> (\<exists>x. m = Ret x \<and> f x = Ret y)"
  by (cases m) auto

definition EXIT_FAILURE :: int where "EXIT_FAILURE = 1"

section \<open>Strings\<close>

text \<open>
  A buffer is the list of its bytes before the terminator that the allocation put behind them; the
  C string in it ends at the first NUL.
\<close>

type_synonym cstring = "byte list"

definition cstr :: "byte list \<Rightarrow> cstring" where
  "cstr bs = takeWhile (\<lambda>b. b \<noteq> 0) bs"

lemma cstr_idem [simp]: "cstr (cstr bs) = cstr bs"
  by (simp add: cstr_def takeWhile_idem)

lemma cstr_id: "0 \<notin> set bs \<Longrightarrow> cstr bs = bs"
  by (auto simp: cstr_def takeWhile_eq_all_conv)

lemma cstr_no_nul [simp]: "0 \<notin> set (cstr bs)"
  by (auto simp: cstr_def dest: set_takeWhileD)

lemma length_cstr_le: "length (cstr bs) \<le> length bs"
  by (simp add: cstr_def length_takeWhile_le)

section \<open>Error codes\<close>

text \<open>Each enumeration with the values that go over the wire.\<close>

datatype ParsingError = PARSING_SUCCESS | PARSING_NO_REQUEST | PARSING_NO_ACTION | PARSING_NO_DATA
  | PARSING_NOT_LOGGED_IN | PARSING_ALREADY_LOGGED_IN | PARSING_INVALID_ACTION

datatype LoginErrorCode = LOGIN_ERROR_SUCCESS | LOGIN_ERROR_ACTIVE_USER | LOGIN_ERROR_ACTIVE_CLIENT
  | LOGIN_ERROR_INCORRECT_PASSWORD | LOGIN_ERROR_NO_PASSWORD | LOGIN_ERROR_NO_USERNAME_AND_PASSWORD

primrec login_code :: "LoginErrorCode \<Rightarrow> int" where
  "login_code LOGIN_ERROR_SUCCESS = 0"
| "login_code LOGIN_ERROR_ACTIVE_USER = 1"
| "login_code LOGIN_ERROR_ACTIVE_CLIENT = 2"
| "login_code LOGIN_ERROR_INCORRECT_PASSWORD = 3"
| "login_code LOGIN_ERROR_NO_PASSWORD = 4"
| "login_code LOGIN_ERROR_NO_USERNAME_AND_PASSWORD = 5"

datatype BookErrorCode = BOOK_ERROR_SUCCESS | BOOK_ERROR_USER_NOT_LOGGED_IN | BOOK_ERROR_SEAT_UNAVAILABLE
  | BOOK_ERROR_SEAT_OUT_OF_RANGE | BOOK_ERROR_NO_DATA

primrec book_code :: "BookErrorCode \<Rightarrow> int" where
  "book_code BOOK_ERROR_SUCCESS = 0"
| "book_code BOOK_ERROR_USER_NOT_LOGGED_IN = 1"
| "book_code BOOK_ERROR_SEAT_UNAVAILABLE = 2"
| "book_code BOOK_ERROR_SEAT_OUT_OF_RANGE = 3"
| "book_code BOOK_ERROR_NO_DATA = 4"

datatype CancelBookingErrorCode = CANCEL_BOOKING_ERROR_SUCCESS | CANCEL_BOOKING_ERROR_USER_NOT_LOGGED_IN
  | CANCEL_BOOKING_ERROR_SEAT_NOT_BOOKED_BY_USER | CANCEL_BOOKING_ERROR_SEAT_OUT_OF_RANGE
  | CANCEL_BOOKING_ERROR_NO_DATA

primrec cancel_code :: "CancelBookingErrorCode \<Rightarrow> int" where
  "cancel_code CANCEL_BOOKING_ERROR_SUCCESS = 0"
| "cancel_code CANCEL_BOOKING_ERROR_USER_NOT_LOGGED_IN = 1"
| "cancel_code CANCEL_BOOKING_ERROR_SEAT_NOT_BOOKED_BY_USER = 2"
| "cancel_code CANCEL_BOOKING_ERROR_SEAT_OUT_OF_RANGE = 3"
| "cancel_code CANCEL_BOOKING_ERROR_NO_DATA = 4"

datatype ConfirmBookingErrorCode = CONFIRM_BOOKING_ERROR_SUCCESS | CONFIRM_BOOKING_ERROR_USER_NOT_LOGGED_IN
  | CONFIRM_BOOKING_ERROR_INVALID_DATA | CONFIRM_BOOKING_ERROR_NO_DATA

primrec confirm_code :: "ConfirmBookingErrorCode \<Rightarrow> int" where
  "confirm_code CONFIRM_BOOKING_ERROR_SUCCESS = 0"
| "confirm_code CONFIRM_BOOKING_ERROR_USER_NOT_LOGGED_IN = 1"
| "confirm_code CONFIRM_BOOKING_ERROR_INVALID_DATA = 2"
| "confirm_code CONFIRM_BOOKING_ERROR_NO_DATA = 3"

datatype LogoutErrorCode = LOGOUT_ERROR_SUCCESS | LOGOUT_ERROR_USER_NOT_FOUND | LOGOUT_ERROR_USER_NOT_LOGGED_IN

primrec logout_code :: "LogoutErrorCode \<Rightarrow> int" where
  "logout_code LOGOUT_ERROR_SUCCESS = 0"
| "logout_code LOGOUT_ERROR_USER_NOT_FOUND = 1"
| "logout_code LOGOUT_ERROR_USER_NOT_LOGGED_IN = 2"

datatype QueryErrorCode = QUERY_ERROR_SUCCESS | QUERY_ERROR_SEAT_OUT_OF_RANGE | QUERY_ERROR_NO_DATA

primrec query_code :: "QueryErrorCode \<Rightarrow> int" where
  "query_code QUERY_ERROR_SUCCESS = 0"
| "query_code QUERY_ERROR_SEAT_OUT_OF_RANGE = 1"
| "query_code QUERY_ERROR_NO_DATA = 2"

section \<open>Requests and responses\<close>

datatype Action = ACTION_INVALID | ACTION_TERMINATION | ACTION_LOGIN | ACTION_BOOK | ACTION_CONFIRM_BOOKING
  | ACTION_CANCEL_BOOKING | ACTION_LOGOUT | ACTION_QUERY | ACTION_EXIT | ACTION_CLEAR_SCREEN

primrec action_value :: "Action \<Rightarrow> u32" where
  "action_value ACTION_INVALID = -1"
| "action_value ACTION_TERMINATION = 0"
| "action_value ACTION_LOGIN = 1"
| "action_value ACTION_BOOK = 2"
| "action_value ACTION_CONFIRM_BOOKING = 3"
| "action_value ACTION_CANCEL_BOOKING = 4"
| "action_value ACTION_LOGOUT = 5"
| "action_value ACTION_QUERY = 6"
| "action_value ACTION_EXIT = 7"
| "action_value ACTION_CLEAR_SCREEN = 8"

lemma action_value_inject [simp]: "action_value a = action_value b \<longleftrightarrow> a = b"
  by (cases a; cases b) simp_all

text \<open>The action is what the wire carries: any 32-bit value.\<close>

record request =
  rq_username_length :: u64
  rq_data_size :: u64
  rq_action :: u32
  rq_username :: "byte list option"
  rq_data :: "byte list option"

definition default_request :: request where
  "default_request = \<lparr>rq_username_length = 0, rq_data_size = 0, rq_action = action_value ACTION_INVALID,
     rq_username = None, rq_data = None\<rparr>"

definition free_request :: "request \<Rightarrow> request" where
  "free_request request =
     (let request = (if rq_username request \<noteq> None then request\<lparr>rq_username := None\<rparr> else request) in
      if rq_data request \<noteq> None then request\<lparr>rq_data := None\<rparr> else request)"

record response =
  rs_data_size :: u64
  rs_code :: int
  rs_data :: "byte list option"

definition free_response :: "response \<Rightarrow> response" where
  "free_response response = (if rs_data response \<noteq> None then response\<lparr>rs_data := None\<rparr> else response)"

record seat_stats =
  ss_id :: u64
  ss_booked :: u64
  ss_canceled :: u64

text \<open>The memory image of the statistics.\<close>

definition enc_stats :: "seat_stats \<Rightarrow> byte list" where
  "enc_stats s = enc_u64 (ss_id s) @ enc_u64 (ss_booked s) @ enc_u64 (ss_canceled s)"

definition dec_stats :: "byte list \<Rightarrow> seat_stats" where
  "dec_stats bs = \<lparr>ss_id = dec_u64 (take 8 bs), ss_booked = dec_u64 (take 8 (drop 8 bs)),
     ss_canceled = dec_u64 (take 8 (drop 16 bs))\<rparr>"

lemma dec_enc_stats [simp]: "dec_stats (enc_stats s) = s"
  by (simp add: dec_stats_def enc_stats_def)

record seat =
  st_stats :: seat_stats
  st_user :: "cstring option"

section \<open>The host\<close>

text \<open>
  \<open>h_in\<close>: the bytes a descriptor has still to deliver before its end; \<open>h_out\<close>: the bytes written to it.
\<close>

record host =
  h_in :: "int \<Rightarrow> byte list"
  h_out :: "int \<Rightarrow> byte list"
  h_open :: "int set"
  h_plan :: "outcome list"
  h_errno :: errno

definition host_next :: "host \<Rightarrow> outcome \<times> host" where
  "host_next h = (case h_plan h of [] \<Rightarrow> (Normal, h) | x # xs \<Rightarrow> (x, h\<lparr>h_plan := xs\<rparr>))"

definition sound :: "host \<Rightarrow> bool" where
  "sound h \<longleftrightarrow> Fail \<notin> set (h_plan h)"

text \<open>
  POSIX leaves a count above \<open>SSIZE_MAX\<close> to the system; Linux refuses it with an error, for no buffer of that size
  fits into the address space.
\<close>

definition SSIZE_MAX :: nat where "SSIZE_MAX = 2 ^ 63 - 1"

definition host_read :: "int \<Rightarrow> nat \<Rightarrow> host \<Rightarrow> int \<times> byte list \<times> host" where
  "host_read fd n h =
     (case host_next h of (x, h) \<Rightarrow>
      if fd \<notin> h_open h then (-1, [], h\<lparr>h_errno := EBADF\<rparr>)
      else if SSIZE_MAX < n then (-1, [], h\<lparr>h_errno := EFAULT\<rparr>)
      else if x = Eintr then (-1, [], h\<lparr>h_errno := EINTR\<rparr>)
      else if x = Fail then (-1, [], h\<lparr>h_errno := EIO\<rparr>)
      else let bs = take (read_limit x Stream n) (h_in h fd)
           in (int (length bs), bs, h\<lparr>h_in := (h_in h)(fd := drop (length bs) (h_in h fd))\<rparr>))"

definition host_write :: "int \<Rightarrow> byte list \<Rightarrow> host \<Rightarrow> int \<times> host" where
  "host_write fd bs h =
     (case host_next h of (x, h) \<Rightarrow>
      if fd \<notin> h_open h then (-1, h\<lparr>h_errno := EBADF\<rparr>)
      else if x = Eintr then (-1, h\<lparr>h_errno := EINTR\<rparr>)
      else if x = Fail then (-1, h\<lparr>h_errno := EIO\<rparr>)
      else let c = take (write_limit x (length bs)) bs
           in (int (length c), h\<lparr>h_out := (h_out h)(fd := h_out h fd @ c)\<rparr>))"

definition host_close :: "int \<Rightarrow> host \<Rightarrow> int \<times> host" where
  "host_close fd h =
     (case host_next h of (x, h) \<Rightarrow>
      if fd \<notin> h_open h then (-1, h\<lparr>h_errno := EBADF\<rparr>)
      else let h = h\<lparr>h_open := h_open h - {fd}\<rparr> in
        if x = Fail then (-1, h\<lparr>h_errno := EIO\<rparr>) else (0, h))"

text \<open>No allocation is granted beyond \<open>PTRDIFF_MAX\<close>.\<close>

definition PTRDIFF_MAX :: nat where "PTRDIFF_MAX = 2 ^ 63 - 1"

definition host_alloc :: "nat \<Rightarrow> host \<Rightarrow> bool \<times> host" where
  "host_alloc n h =
     (case host_next h of (x, h) \<Rightarrow>
      if x = Fail \<or> n > PTRDIFF_MAX then (False, h\<lparr>h_errno := ENOMEM\<rparr>) else (True, h))"

section \<open>The transfer loops\<close>

lemma host_next_len: "host_next h = (x, h') \<Longrightarrow> length (h_plan h') \<le> length (h_plan h)"
  by (auto simp: host_next_def split: list.splits)

lemma host_write_progress:
  assumes "host_write fd bs h = (r, h')"
  shows "r \<le> 0 \<and> h_errno h' = EINTR \<and> r < 0 \<Longrightarrow> length (h_plan h') < length (h_plan h)"
    and "0 < r \<Longrightarrow> r \<le> int (length bs) \<and> length (h_plan h') \<le> length (h_plan h)"
  using assms by (auto simp: host_write_def host_next_def Let_def split: list.splits if_splits)

lemma host_read_progress:
  assumes "host_read fd n h = (r, bs, h')"
  shows "r < 0 \<and> h_errno h' = EINTR \<Longrightarrow> length (h_plan h') < length (h_plan h)"
    and "0 < r \<Longrightarrow> r = int (length bs) \<and> length bs \<le> n \<and> length (h_plan h') \<le> length (h_plan h)"
  using assms by (auto simp: host_read_def host_next_def read_limit_def Let_def split: list.splits if_splits outcome.splits)

text \<open>\<open>safe_write\<close> on what is left to write after \<open>current_size\<close> bytes.\<close>

function safe_write_from :: "int \<Rightarrow> byte list \<Rightarrow> nat \<Rightarrow> host \<Rightarrow> int \<times> host" where
  "safe_write_from fd buf current_size h =
     (if 0 < length buf then
        (case host_write fd buf h of (n_written, h') \<Rightarrow>
           if 0 < n_written then safe_write_from fd (drop (nat n_written) buf) (current_size + nat n_written) h'
           else if n_written = 0 \<or> h_errno h' \<noteq> EINTR then (-1, h')
           else safe_write_from fd buf current_size h')
      else (int current_size, h))"
  by pat_completeness auto
termination
proof (relation "measure (\<lambda>(fd, buf, n, h). length buf + length (h_plan h))", goal_cases)
  case (2 fd buf n h r h')
  then have "0 < nat r" "length (h_plan h') \<le> length (h_plan h)"
    using host_write_progress(2) [OF 2(2) [symmetric]] by auto
  moreover have "length buf - nat r < length buf" using 2 by (intro diff_less) auto
  ultimately show ?case by simp
next
  case (3 fd buf n h r h')
  then show ?case using host_write_progress(1) [OF 3(2) [symmetric]] by auto
qed simp

declare safe_write_from.simps [simp del]

definition safe_write :: "int \<Rightarrow> byte list \<Rightarrow> host \<Rightarrow> int \<times> host" where
  "safe_write fd buf h = safe_write_from fd buf 0 h"

text \<open>\<open>safe_read\<close> with the bytes that are in the buffer already.\<close>

function safe_read_from :: "int \<Rightarrow> nat \<Rightarrow> byte list \<Rightarrow> host \<Rightarrow> int \<times> byte list \<times> host" where
  "safe_read_from fd count buf h =
     (if length buf < count then
        (case host_read fd (count - length buf) h of (n_read, bs, h') \<Rightarrow>
           if 0 < n_read then safe_read_from fd count (buf @ bs) h'
           else if n_read = 0 then (int (length buf), buf, h')
           else if h_errno h' \<noteq> EINTR then (-1, buf, h')
           else safe_read_from fd count buf h')
      else (int (length buf), buf, h))"
  by pat_completeness auto
termination
proof (relation "measure (\<lambda>(fd, count, buf, h). (count - length buf) + length (h_plan h))", goal_cases)
  case (2 fd count buf h r y bs h')
  then have "0 < length bs" "length (h_plan h') \<le> length (h_plan h)"
    using host_read_progress(2) [of fd "count - length buf" h r bs h'] by auto
  then have "count - (length buf + length bs) < count - length buf" using 2(1) by linarith
  then show ?case using \<open>length (h_plan h') \<le> length (h_plan h)\<close> by simp
next
  case (3 fd count buf h r y bs h')
  then show ?case using host_read_progress(1) [of fd "count - length buf" h r bs h'] by auto
qed simp

declare safe_read_from.simps [simp del]

definition safe_read :: "int \<Rightarrow> nat \<Rightarrow> host \<Rightarrow> int \<times> byte list \<times> host" where
  "safe_read fd count h = safe_read_from fd count [] h"

end
