(* ===== verification/Pa3_Server.thy ===== *)
theory Pa3_Server
  imports Pa3_Common
begin

text \<open>
  \<^verbatim>\<open>PA3/server/helper.c\<close> and the records of \<^verbatim>\<open>PA3/server/helper.h\<close>: passwords, the user table, the
  seats and the poll sets. Argon2 and \<open>getrandom\<close> are not code of this repository: they are the fields
  of \<open>crypto\<close>, an argument of the definitions that use them.
\<close>

section \<open>Shared state\<close>

definition NUM_USERS :: nat where "NUM_USERS = 10000"
definition MAXLINE :: nat where "MAXLINE = 120"
definition CLIENTS_PER_THREAD :: nat where "CLIENTS_PER_THREAD = 1000"
definition NUM_SEATS :: nat where "NUM_SEATS = 100"
definition SALT_SIZE :: nat where "SALT_SIZE = 16"
definition HASHED_PASSWORD_SIZE :: nat where "HASHED_PASSWORD_SIZE = 128"

record user =
  us_username :: cstring
  us_hashed_password :: cstring
  us_logged_in :: bool

text \<open>The mutexes, and what a thread does to them.\<close>

datatype mutex = Poll_mutex nat | Array_mutex | User_mutex nat | Seat_mutex nat

datatype lock_op = Acquire mutex | Release mutex

text \<open>
  What the threads share: the used part of the user array, the seats, the host, and the log of the
  lock operations of the thread that is being run.
\<close>

record server =
  sv_users :: "user list"
  sv_seats :: "seat list"
  sv_host :: host
  sv_log :: "lock_op list"

definition pthread_mutex_lock :: "mutex \<Rightarrow> server \<Rightarrow> server" where
  "pthread_mutex_lock m s = s\<lparr>sv_log := sv_log s @ [Acquire m]\<rparr>"

definition pthread_mutex_unlock :: "mutex \<Rightarrow> server \<Rightarrow> server" where
  "pthread_mutex_unlock m s = s\<lparr>sv_log := sv_log s @ [Release m]\<rparr>"

text \<open>An allocation: \<open>None\<close> when it is refused.\<close>

definition allocate :: "nat \<Rightarrow> server \<Rightarrow> bool \<times> server" where
  "allocate n s = (case host_alloc n (sv_host s) of (granted, h) \<Rightarrow> (granted, s\<lparr>sv_host := h\<rparr>))"

definition strdup :: "cstring \<Rightarrow> server \<Rightarrow> cstring option \<times> server" where
  "strdup str s = (case allocate (length str + 1) s of (granted, s) \<Rightarrow> (if granted then Some str else None, s))"

section \<open>Passwords\<close>

text \<open>
  \<open>argon2_hash\<close> password salt: the encoded hash; \<open>argon2_verify\<close> encoded password; \<open>random_bytes\<close>: what
  \<open>getrandom\<close> delivers for a request of that many bytes.
\<close>

record crypto =
  argon2_hash :: "cstring \<Rightarrow> byte list \<Rightarrow> cstring"
  argon2_verify :: "cstring \<Rightarrow> cstring \<Rightarrow> bool"
  random_bytes :: "nat \<Rightarrow> server \<Rightarrow> byte list"

definition generate_salt :: "crypto \<Rightarrow> server \<Rightarrow> byte list run" where
  "generate_salt c s =
     (if length (random_bytes c SALT_SIZE s) \<noteq> SALT_SIZE then Exit EXIT_FAILURE
      else Ret (random_bytes c SALT_SIZE s))"

text \<open>\<open>strncpy\<close> copies at most 128 bytes, the last of which is then overwritten by the terminator.\<close>

definition hash_password :: "crypto \<Rightarrow> cstring \<Rightarrow> server \<Rightarrow> cstring run" where
  "hash_password c password s =
     bind_run (generate_salt c s) (\<lambda>salt. Ret (take (HASHED_PASSWORD_SIZE - 1) (argon2_hash c password salt)))"

definition validate_password :: "crypto \<Rightarrow> cstring \<Rightarrow> cstring \<Rightarrow> bool" where
  "validate_password c password_to_validate hashed_password = argon2_verify c hashed_password password_to_validate"

section \<open>Users\<close>

fun find_user_from :: "user list \<Rightarrow> cstring \<Rightarrow> nat \<Rightarrow> int" where
  "find_user_from [] username i = -1"
| "find_user_from (u # users) username i =
     (if us_username u = username then int i else find_user_from users username (i + 1))"

definition find_user :: "server \<Rightarrow> cstring \<Rightarrow> int" where
  "find_user s username = find_user_from (sv_users s) username 0"

definition setup_users :: "server \<Rightarrow> server run" where
  "setup_users s =
     (case allocate (24 * NUM_USERS) s of (array, s) \<Rightarrow>
      case allocate (40 * NUM_USERS) s of (user_mutex, s) \<Rightarrow>
      if \<not> array \<or> \<not> user_mutex then Exit EXIT_FAILURE else Ret (s\<lparr>sv_users := []\<rparr>))"

definition add_user :: "cstring \<Rightarrow> cstring \<Rightarrow> server \<Rightarrow> (nat \<times> server) run" where
  "add_user username hashed_password s =
     (if length (sv_users s) \<ge> NUM_USERS then Exit EXIT_FAILURE
      else case strdup username s of (username_copy, s) \<Rightarrow>
           case strdup hashed_password s of (hashed_password_copy, s) \<Rightarrow>
           (case (username_copy, hashed_password_copy) of
              (Some name, Some hash) \<Rightarrow>
                Ret (length (sv_users s), s\<lparr>sv_users := sv_users s @
                  [\<lparr>us_username = name, us_hashed_password = hash, us_logged_in = False\<rparr>]\<rparr>)
            | _ \<Rightarrow> Exit EXIT_FAILURE))"

definition free_users :: "server \<Rightarrow> server" where
  "free_users s = s\<lparr>sv_users := []\<rparr>"

definition set_logged_in :: "nat \<Rightarrow> bool \<Rightarrow> server \<Rightarrow> server" where
  "set_logged_in uid b s = s\<lparr>sv_users := (sv_users s)[uid := (sv_users s ! uid)\<lparr>us_logged_in := b\<rparr>]\<rparr>"

section \<open>Seats\<close>

definition default_seat :: "nat \<Rightarrow> seat" where
  "default_seat i = \<lparr>st_stats = \<lparr>ss_id = of_nat (i + 1), ss_booked = 0, ss_canceled = 0\<rparr>, st_user = None\<rparr>"

definition default_seats :: "server \<Rightarrow> server run" where
  "default_seats s =
     (case allocate (72 * NUM_SEATS) s of (granted, s) \<Rightarrow>
      if \<not> granted then Exit EXIT_FAILURE else Ret (s\<lparr>sv_seats := map default_seat [0..<NUM_SEATS]\<rparr>))"

section \<open>Poll sets\<close>

record pollfd =
  pf_fd :: int
  pf_events :: "16 word"
  pf_revents :: "16 word"

definition POLLIN :: "16 word" where "POLLIN = 1"
definition POLLERR :: "16 word" where "POLLERR = 8"
definition POLLHUP :: "16 word" where "POLLHUP = 16"
definition POLLNVAL :: "16 word" where "POLLNVAL = 32"

record poll_set =
  ps_set :: "pollfd list"
  ps_active_users :: "cstring option list"
  ps_size :: nat

record thread_data =
  td_thread_index :: nat
  td_poll_set :: poll_set
  td_pipe_out_fd :: int

definition create_poll_set :: "int \<Rightarrow> server \<Rightarrow> (poll_set \<times> server) run" where
  "create_poll_set self_pipe_fd s =
     (case allocate (16 * CLIENTS_PER_THREAD + 48) s of (granted, s) \<Rightarrow>
      if \<not> granted then Exit EXIT_FAILURE
      else Ret (\<lparr>ps_set = (replicate CLIENTS_PER_THREAD \<lparr>pf_fd = 0, pf_events = 0, pf_revents = 0\<rparr>)
                    [0 := \<lparr>pf_fd = self_pipe_fd, pf_events = POLLIN, pf_revents = 0\<rparr>],
                  ps_active_users = replicate CLIENTS_PER_THREAD None, ps_size = 1\<rparr>, s))"

text \<open>The scan for the smallest poll set that has room; the mutex of each is held while its size is read.\<close>

fun find_suitable_from :: "thread_data list \<Rightarrow> nat \<Rightarrow> int \<Rightarrow> nat \<Rightarrow> server \<Rightarrow> int \<times> server" where
  "find_suitable_from [] i min_i min_size s = (min_i, s)"
| "find_suitable_from (d # data_arr) i min_i min_size s =
     (let s = pthread_mutex_lock (Poll_mutex i) s;
          poll_set_size = ps_size (td_poll_set d);
          s = pthread_mutex_unlock (Poll_mutex i) s
      in if poll_set_size < CLIENTS_PER_THREAD \<and> (min_i = -1 \<or> poll_set_size < min_size)
         then find_suitable_from data_arr (i + 1) (int i) poll_set_size s
         else find_suitable_from data_arr (i + 1) min_i min_size s)"

definition find_suitable_pollset :: "thread_data list \<Rightarrow> server \<Rightarrow> int \<times> server" where
  "find_suitable_pollset data_arr s = find_suitable_from data_arr 0 (-1) 0 s"

definition notify_pollset :: "int \<Rightarrow> server \<Rightarrow> server" where
  "notify_pollset notification_fd s =
     (case host_write notification_fd [0] (sv_host s) of (_, h) \<Rightarrow> s\<lparr>sv_host := h\<rparr>)"

section \<open>Termination\<close>

definition close_fd :: "int \<Rightarrow> server \<Rightarrow> server" where
  "close_fd fd s = (case host_close fd (sv_host s) of (_, h) \<Rightarrow> s\<lparr>sv_host := h\<rparr>)"

fun close_clients :: "pollfd list \<Rightarrow> server \<Rightarrow> server" where
  "close_clients [] s = s"
| "close_clients (p # ps) s = close_clients ps (close_fd (pf_fd p) s)"

text \<open>
  For each thread: wake it, close its pipe and, once it has ended, the descriptors of its clients. Joining
  the thread is not visible in the state of the server.
\<close>

fun stop_threads :: "(int \<times> int) list \<Rightarrow> thread_data list \<Rightarrow> server \<Rightarrow> server" where
  "stop_threads ((rd, wr) # pipe_fds) (d # data_arr) s =
     (let s = notify_pollset wr s;
          s = close_fd wr s;
          s = close_fd rd s;
          s = close_clients (drop 1 (take (ps_size (td_poll_set d)) (ps_set (td_poll_set d)))) s
      in stop_threads pipe_fds data_arr s)"
| "stop_threads _ _ s = s"

definition terminate_after_cleanup :: "(int \<times> int) list \<Rightarrow> thread_data list \<Rightarrow> int \<Rightarrow> server \<Rightarrow> int \<times> server" where
  "terminate_after_cleanup pipe_fds data_arr listenfd s =
     (let s = stop_threads pipe_fds data_arr s;
          s = s\<lparr>sv_seats := []\<rparr>;
          s = close_fd listenfd s;
          s = free_users s
      in (0, s))"

text \<open>
  The buffer of the program starts with the bytes read, the last of which is replaced by NUL; what lies
  behind it does not matter, for the comparison stops there.
\<close>

definition strncmp_eq :: "byte list \<Rightarrow> byte list \<Rightarrow> nat \<Rightarrow> bool" where
  "strncmp_eq a b n \<longleftrightarrow> take n (cstr a @ [0]) = take n (cstr b @ [0])"

definition check_stdin_for_termination :: "server \<Rightarrow> bool \<times> server" where
  "check_stdin_for_termination s =
     (case host_read 0 MAXLINE (sv_host s) of (n_read, bs, h) \<Rightarrow>
      (if n_read < 0 then True
       else if n_read = 0 then True
       else let buffer = butlast bs @ [0] in
         strncmp_eq buffer (bytes_of ''exit'') 4 \<or> strncmp_eq buffer (bytes_of ''quit'') 4
           \<or> strncmp_eq buffer [0] 1,
       s\<lparr>sv_host := h\<rparr>))"

end
