(* ===== verification/Pa3_Handlers.thy ===== *)
theory Pa3_Handlers
  imports Pa3_Server
begin

text \<open>
  \<^verbatim>\<open>PA3/server/handle_request.c\<close>: one definition per handler, with every lock operation it performs.
  A slot is the pointer \<open>active_user\<close> that a handler gets: \<open>None\<close> is the null pointer, \<open>Some None\<close> points
  to a null pointer, \<open>Some (Some name)\<close> to the name of the user of the client.
\<close>

type_synonym slot = "cstring option option"

type_synonym reply = "int \<times> response \<times> slot \<times> server"

section \<open>Helpers\<close>

definition set_response :: "int \<Rightarrow> response" where
  "set_response code = \<lparr>rs_data_size = 0, rs_code = code, rs_data = None\<rparr>"

definition has_data :: "request \<Rightarrow> bool" where
  "has_data request \<longleftrightarrow> rq_data request \<noteq> None \<and> 0 < rq_data_size request"

definition has_username :: "request \<Rightarrow> bool" where
  "has_username request \<longleftrightarrow> rq_username request \<noteq> None \<and> 0 < rq_username_length request"

text \<open>The C strings of the request; they are used only where the pointers are not null.\<close>

definition request_data :: "request \<Rightarrow> cstring" where
  "request_data request = cstr (the (rq_data request))"

definition request_username :: "request \<Rightarrow> cstring" where
  "request_username request = cstr (the (rq_username request))"

definition parse_seat_number :: "request \<Rightarrow> u64 option" where
  "parse_seat_number request =
     (if \<not> has_data request then None
      else case strtoull (request_data request) of (v, consumed, erange) \<Rightarrow>
        if erange \<or> consumed = 0 \<or> consumed < length (request_data request) \<or> v < 1 \<or> v > of_nat NUM_SEATS
        then None else Some v)"

definition request_matches_active_client :: "request \<Rightarrow> slot \<Rightarrow> bool" where
  "request_matches_active_client request active_user =
     (case active_user of
        Some (Some name) \<Rightarrow> has_username request \<and> name = request_username request
      | _ \<Rightarrow> False)"

definition save_active_user :: "slot \<Rightarrow> cstring \<Rightarrow> server \<Rightarrow> (slot \<times> server) run" where
  "save_active_user active_user username s =
     (case active_user of
        None \<Rightarrow> Ret (None, s)
      | Some _ \<Rightarrow> (case strdup username s of
            (None, s) \<Rightarrow> Exit EXIT_FAILURE
          | (Some name, s) \<Rightarrow> Ret (Some (Some name), s)))"

definition lock_logged_in_user :: "request \<Rightarrow> slot \<Rightarrow> server \<Rightarrow> int \<times> server" where
  "lock_logged_in_user request active_user s =
     (if \<not> request_matches_active_client request active_user then (-1, s)
      else let s = pthread_mutex_lock Array_mutex s;
               uid = find_user s (request_username request)
           in if uid < 0 then (-1, pthread_mutex_unlock Array_mutex s)
              else let s = pthread_mutex_lock (User_mutex (nat uid)) s;
                       s = pthread_mutex_unlock Array_mutex s
                   in if \<not> us_logged_in (sv_users s ! nat uid) then (-1, pthread_mutex_unlock (User_mutex (nat uid)) s)
                      else (uid, s))"

section \<open>Login and logout\<close>

definition handle_login_request :: "crypto \<Rightarrow> request \<Rightarrow> slot \<Rightarrow> server \<Rightarrow> reply run" where
  "handle_login_request c request active_user s =
     (let answer = (\<lambda>code active_user s. Ret (login_code code, set_response (login_code code), active_user, s)) in
      if active_user \<noteq> None \<and> the active_user \<noteq> None then answer LOGIN_ERROR_ACTIVE_CLIENT active_user s
      else if \<not> has_username request then answer LOGIN_ERROR_NO_USERNAME_AND_PASSWORD active_user s
      else if \<not> has_data request then answer LOGIN_ERROR_NO_PASSWORD active_user s
      else let s = pthread_mutex_lock Array_mutex s;
               uid = find_user s (request_username request)
      in if 0 \<le> uid then
           (let m = User_mutex (nat uid);
                s = pthread_mutex_lock m s;
                s = pthread_mutex_unlock Array_mutex s
            in if us_logged_in (sv_users s ! nat uid) then
                 answer LOGIN_ERROR_ACTIVE_USER active_user (pthread_mutex_unlock m s)
               else if \<not> validate_password c (request_data request) (us_hashed_password (sv_users s ! nat uid)) then
                 answer LOGIN_ERROR_INCORRECT_PASSWORD active_user (pthread_mutex_unlock m s)
               else let s = set_logged_in (nat uid) True s;
                        s = pthread_mutex_unlock m s
                    in bind_run (save_active_user active_user (request_username request) s)
                         (\<lambda>(active_user, s). answer LOGIN_ERROR_SUCCESS active_user s))
         else bind_run (hash_password c (request_data request) s) (\<lambda>hashed_password.
           bind_run (add_user (request_username request) hashed_password s) (\<lambda>(uid, s).
             let m = User_mutex uid;
                 s = pthread_mutex_lock m s;
                 s = set_logged_in uid True s;
                 s = pthread_mutex_unlock m s;
                 s = pthread_mutex_unlock Array_mutex s
             in bind_run (save_active_user active_user (request_username request) s)
                  (\<lambda>(active_user, s). answer LOGIN_ERROR_SUCCESS active_user s))))"

definition handle_logout_request :: "request \<Rightarrow> slot \<Rightarrow> server \<Rightarrow> reply run" where
  "handle_logout_request request active_user s =
     (let answer = (\<lambda>code active_user s. Ret (logout_code code, set_response (logout_code code), active_user, s)) in
      if \<not> has_username request then answer LOGOUT_ERROR_USER_NOT_FOUND active_user s
      else let s = pthread_mutex_lock Array_mutex s;
               uid = find_user s (request_username request)
      in if uid < 0 then answer LOGOUT_ERROR_USER_NOT_FOUND active_user (pthread_mutex_unlock Array_mutex s)
         else let m = User_mutex (nat uid);
                  s = pthread_mutex_lock m s;
                  s = pthread_mutex_unlock Array_mutex s
         in if \<not> us_logged_in (sv_users s ! nat uid) \<or> \<not> request_matches_active_client request active_user
            then answer LOGOUT_ERROR_USER_NOT_LOGGED_IN active_user (pthread_mutex_unlock m s)
            else let s = set_logged_in (nat uid) False s;
                     s = pthread_mutex_unlock m s
                 in answer LOGOUT_ERROR_SUCCESS (Some None) s)"

section \<open>Seats\<close>

definition set_seat :: "nat \<Rightarrow> seat \<Rightarrow> server \<Rightarrow> server" where
  "set_seat i st s = s\<lparr>sv_seats := (sv_seats s)[i := st]\<rparr>"

definition handle_book_request :: "request \<Rightarrow> slot \<Rightarrow> server \<Rightarrow> reply run" where
  "handle_book_request request active_user s =
     (let answer = (\<lambda>code s. Ret (book_code code, set_response (book_code code), active_user, s)) in
      if \<not> has_data request then answer BOOK_ERROR_NO_DATA s
      else case parse_seat_number request of
        None \<Rightarrow> answer BOOK_ERROR_SEAT_OUT_OF_RANGE s
      | Some seat_number \<Rightarrow>
          (case lock_logged_in_user request active_user s of (uid, s) \<Rightarrow>
           if uid < 0 then answer BOOK_ERROR_USER_NOT_LOGGED_IN s
           else let i = unat (seat_number - 1);
                    s = pthread_mutex_lock (Seat_mutex i) s;
                    seat = sv_seats s ! i
                in if st_user seat \<noteq> None then
                     answer BOOK_ERROR_SEAT_UNAVAILABLE
                       (pthread_mutex_unlock (User_mutex (nat uid)) (pthread_mutex_unlock (Seat_mutex i) s))
                   else (case strdup (request_username request) s of
                       (None, s) \<Rightarrow> Exit EXIT_FAILURE
                     | (Some name, s) \<Rightarrow>
                         (let stats = st_stats seat;
                              s = set_seat i (seat\<lparr>st_user := Some name,
                                    st_stats := stats\<lparr>ss_booked := ss_booked stats + 1\<rparr>\<rparr>) s;
                              s = pthread_mutex_unlock (Seat_mutex i) s;
                              s = pthread_mutex_unlock (User_mutex (nat uid)) s
                          in answer BOOK_ERROR_SUCCESS s))))"

definition handle_cancel_booking_request :: "request \<Rightarrow> slot \<Rightarrow> server \<Rightarrow> reply run" where
  "handle_cancel_booking_request request active_user s =
     (let answer = (\<lambda>code s. Ret (cancel_code code, set_response (cancel_code code), active_user, s)) in
      if \<not> has_data request then answer CANCEL_BOOKING_ERROR_NO_DATA s
      else case parse_seat_number request of
        None \<Rightarrow> answer CANCEL_BOOKING_ERROR_SEAT_OUT_OF_RANGE s
      | Some seat_number \<Rightarrow>
          (case lock_logged_in_user request active_user s of (uid, s) \<Rightarrow>
           if uid < 0 then answer CANCEL_BOOKING_ERROR_USER_NOT_LOGGED_IN s
           else let i = unat (seat_number - 1);
                    s = pthread_mutex_lock (Seat_mutex i) s;
                    seat = sv_seats s ! i
                in if st_user seat = None \<or> the (st_user seat) \<noteq> request_username request then
                     answer CANCEL_BOOKING_ERROR_SEAT_NOT_BOOKED_BY_USER
                       (pthread_mutex_unlock (User_mutex (nat uid)) (pthread_mutex_unlock (Seat_mutex i) s))
                   else let stats = st_stats seat;
                            s = set_seat i (seat\<lparr>st_user := None,
                                  st_stats := stats\<lparr>ss_canceled := ss_canceled stats + 1\<rparr>\<rparr>) s;
                            s = pthread_mutex_unlock (Seat_mutex i) s;
                            s = pthread_mutex_unlock (User_mutex (nat uid)) s
                        in answer CANCEL_BOOKING_ERROR_SUCCESS s))"

text \<open>The loop over the seats; the mutex of each is held while it is looked at.\<close>

fun select_seats :: "(seat \<Rightarrow> bool) \<Rightarrow> nat list \<Rightarrow> server \<Rightarrow> u64 list \<times> server" where
  "select_seats incl [] s = ([], s)"
| "select_seats incl (i # is) s =
     (let s = pthread_mutex_lock (Seat_mutex i) s;
          seat = sv_seats s ! i;
          s = pthread_mutex_unlock (Seat_mutex i) s
      in case select_seats incl is s of (selected, s) \<Rightarrow>
           (if incl seat then ss_id (st_stats seat) # selected else selected, s))"

definition handle_confirm_booking_request :: "request \<Rightarrow> slot \<Rightarrow> server \<Rightarrow> reply run" where
  "handle_confirm_booking_request request active_user s =
     (let answer = (\<lambda>code s. Ret (confirm_code code, set_response (confirm_code code), active_user, s)) in
      if \<not> has_data request then answer CONFIRM_BOOKING_ERROR_NO_DATA s
      else let wants_available = (request_data request = bytes_of ''available'');
               wants_booked = (request_data request = bytes_of ''booked'')
      in if \<not> wants_available \<and> \<not> wants_booked then answer CONFIRM_BOOKING_ERROR_INVALID_DATA s
         else case lock_logged_in_user request active_user s of (uid, s) \<Rightarrow>
           if uid < 0 then answer CONFIRM_BOOKING_ERROR_USER_NOT_LOGGED_IN s
           else case select_seats (\<lambda>seat. if wants_available then st_user seat = None
                                  else st_user seat = Some (request_username request)) [0..<NUM_SEATS] s of
             (selected, s) \<Rightarrow>
              (let s = pthread_mutex_unlock (User_mutex (nat uid)) s;
                   response = set_response (confirm_code CONFIRM_BOOKING_ERROR_SUCCESS)
               in if selected = [] then Ret (confirm_code CONFIRM_BOOKING_ERROR_SUCCESS, response, active_user, s)
                  else case allocate (length selected * 8) s of (granted, s) \<Rightarrow>
                    if \<not> granted then Exit EXIT_FAILURE
                    else Ret (confirm_code CONFIRM_BOOKING_ERROR_SUCCESS,
                           response\<lparr>rs_data_size := of_nat (length selected * 8),
                                    rs_data := Some (concat (map enc_u64 selected))\<rparr>, active_user, s)))"

definition handle_query_request :: "request \<Rightarrow> slot \<Rightarrow> server \<Rightarrow> reply run" where
  "handle_query_request request active_user s =
     (if \<not> has_data request then
        Ret (query_code QUERY_ERROR_NO_DATA, set_response (query_code QUERY_ERROR_NO_DATA), active_user, s)
      else case parse_seat_number request of
        None \<Rightarrow> Ret (query_code QUERY_ERROR_SEAT_OUT_OF_RANGE,
                   set_response (query_code QUERY_ERROR_SEAT_OUT_OF_RANGE), active_user, s)
      | Some seat_number \<Rightarrow>
          (let i = unat (seat_number - 1);
               s = pthread_mutex_lock (Seat_mutex i) s;
               stats = st_stats (sv_seats s ! i);
               s = pthread_mutex_unlock (Seat_mutex i) s
           in case allocate 24 s of (granted, s) \<Rightarrow>
                if \<not> granted then Exit EXIT_FAILURE
                else Ret (query_code QUERY_ERROR_SUCCESS,
                       (set_response (query_code QUERY_ERROR_SUCCESS))
                         \<lparr>rs_data_size := 24, rs_data := Some (enc_stats stats)\<rparr>, active_user, s)))"

section \<open>Dispatch\<close>

text \<open>
  A declared length of \<open>2 ^ 64 - 1\<close> leaves a buffer without a byte, not even for a terminator. A handler that takes
  the string in such a buffer reads outside an object. \<open>reads_missing_byte\<close> says when a handler does: the name
  is compared with the names of all users (\<^verbatim>\<open>find_user\<close>) and that of the client, and it is copied for a new
  user; the data are a number, a word or a password. The test is made before the handler, also where it would end
  the process first for want of random bytes.
\<close>

definition no_byte :: "u64 \<Rightarrow> bool" where
  "no_byte len \<longleftrightarrow> len + 1 = 0"

definition reads_missing_byte :: "request \<Rightarrow> slot \<Rightarrow> server \<Rightarrow> bool" where
  "reads_missing_byte request active_user s \<longleftrightarrow>
     (let a = rq_action request;
          missing_name = (has_username request \<and> no_byte (rq_username_length request));
          missing_data = (has_data request \<and> no_byte (rq_data_size request));
          has_client = (active_user \<noteq> None \<and> the active_user \<noteq> None);
          uid = find_user s (request_username request)
      in if a = action_value ACTION_LOGIN then
           \<not> has_client \<and> has_username request \<and> has_data request
           \<and> (missing_name \<or> missing_data \<and> \<not> (0 \<le> uid \<and> us_logged_in (sv_users s ! nat uid)))
         else if a = action_value ACTION_BOOK \<or> a = action_value ACTION_CANCEL_BOOKING then
           missing_data \<or> parse_seat_number request \<noteq> None \<and> has_client \<and> missing_name
         else if a = action_value ACTION_CONFIRM_BOOKING then
           missing_data
           \<or> has_data request \<and> request_data request \<in> {bytes_of ''available'', bytes_of ''booked''} \<and> has_client \<and> missing_name
         else if a = action_value ACTION_LOGOUT then missing_name \<and> sv_users s \<noteq> []
         else a = action_value ACTION_QUERY \<and> missing_data)"

text \<open>Where both strings have their terminators, no handler reads outside an object.\<close>

lemma reads_present_bytes:
  assumes "\<not> no_byte (rq_username_length r)" and "\<not> no_byte (rq_data_size r)"
  shows "\<not> reads_missing_byte r a s"
  using assms by (simp add: reads_missing_byte_def Let_def)

definition handle_request :: "crypto \<Rightarrow> request \<Rightarrow> slot \<Rightarrow> server \<Rightarrow> reply run" where
  "handle_request c request active_user s =
     (let a = rq_action request in
      if reads_missing_byte request active_user s then Undefined
      else if a = action_value ACTION_LOGIN then handle_login_request c request active_user s
      else if a = action_value ACTION_BOOK then handle_book_request request active_user s
      else if a = action_value ACTION_CONFIRM_BOOKING then handle_confirm_booking_request request active_user s
      else if a = action_value ACTION_CANCEL_BOOKING then handle_cancel_booking_request request active_user s
      else if a = action_value ACTION_LOGOUT then handle_logout_request request active_user s
      else if a = action_value ACTION_QUERY then handle_query_request request active_user s
      else Ret (-1, set_response (-1), active_user, s))"

end
