(* ===== verification/Pa3_Booking.thy ===== *)
theory Pa3_Booking
  imports Pa3_Handlers
begin

text \<open>
  The abstract booking office that the request handlers implement: accounts, sessions, owners and
  counters of the seats as maps, one specification per kind of request, and the refinement of each
  by its handler. The well-formedness of the server state is kept on the way.
\<close>

section \<open>What the helpers leave alone\<close>

named_theorems server_simps

lemma lock_simps [simp]:
  "sv_users (pthread_mutex_lock m s) = sv_users s" "sv_seats (pthread_mutex_lock m s) = sv_seats s"
  "sv_host (pthread_mutex_lock m s) = sv_host s"
  "sv_users (pthread_mutex_unlock m s) = sv_users s" "sv_seats (pthread_mutex_unlock m s) = sv_seats s"
  "sv_host (pthread_mutex_unlock m s) = sv_host s"
  by (simp_all add: pthread_mutex_lock_def pthread_mutex_unlock_def)

lemma find_user_lock [simp]:
  "find_user (pthread_mutex_lock m s) n = find_user s n" "find_user (pthread_mutex_unlock m s) n = find_user s n"
  by (simp_all add: find_user_def)

lemma set_logged_in_simps [simp]:
  "sv_seats (set_logged_in i b s) = sv_seats s" "sv_host (set_logged_in i b s) = sv_host s"
  "sv_users (set_logged_in i b s) = (sv_users s)[i := (sv_users s ! i)\<lparr>us_logged_in := b\<rparr>]"
  by (simp_all add: set_logged_in_def)

lemma set_seat_simps [simp]:
  "sv_users (set_seat i st s) = sv_users s" "sv_host (set_seat i st s) = sv_host s"
  "sv_seats (set_seat i st s) = (sv_seats s)[i := st]"
  by (simp_all add: set_seat_def)

lemma allocate_same:
  assumes "allocate n s = (g, s')"
  shows "sv_users s' = sv_users s" "sv_seats s' = sv_seats s" "sv_log s' = sv_log s"
  using assms by (auto simp: allocate_def split: prod.splits)

lemma strdup_same:
  assumes "strdup x s = (r, s')"
  shows "sv_users s' = sv_users s" "sv_seats s' = sv_seats s" "sv_log s' = sv_log s" "r = None \<or> r = Some x"
proof -
  obtain g s1 where a: "allocate (length x + 1) s = (g, s1)" by force
  show "sv_users s' = sv_users s" "sv_seats s' = sv_seats s" "sv_log s' = sv_log s" "r = None \<or> r = Some x"
    using assms allocate_same [OF a] unfolding strdup_def a prod.case by auto
qed

section \<open>Users and seats\<close>

definition user_names :: "server \<Rightarrow> cstring set" where
  "user_names s = us_username ` set (sv_users s)"

definition online :: "server \<Rightarrow> cstring set" where
  "online s = us_username ` {u \<in> set (sv_users s). us_logged_in u}"

text \<open>The two counters of a seat differ by one exactly when it has an owner, also when they wrap.\<close>

definition seat_ok :: "cstring set \<Rightarrow> nat \<Rightarrow> seat \<Rightarrow> bool" where
  "seat_ok names i st \<longleftrightarrow> ss_id (st_stats st) = of_nat (i + 1)
     \<and> ss_booked (st_stats st) - ss_canceled (st_stats st) = (if st_user st = None then 0 else 1)
     \<and> (\<forall>n. st_user st = Some n \<longrightarrow> n \<in> names)"

definition server_ok :: "server \<Rightarrow> bool" where
  "server_ok s \<longleftrightarrow> distinct (map us_username (sv_users s)) \<and> length (sv_users s) \<le> NUM_USERS
     \<and> length (sv_seats s) = NUM_SEATS \<and> (\<forall>i<NUM_SEATS. seat_ok (user_names s) i (sv_seats s ! i))"

lemma server_ok_cong: "sv_users s' = sv_users s \<Longrightarrow> sv_seats s' = sv_seats s \<Longrightarrow> server_ok s' = server_ok s"
  by (simp add: server_ok_def user_names_def)

lemma online_cong: "sv_users s' = sv_users s \<Longrightarrow> online s' = online s"
  by (simp add: online_def)

lemma find_user_from_spec:
  "find_user_from us n k = -1 \<and> n \<notin> us_username ` set us
     \<or> (\<exists>i<length us. find_user_from us n k = int (k + i) \<and> us_username (us ! i) = n)"
proof (induction us arbitrary: k)
  case Nil
  then show ?case by simp
next
  case (Cons u us)
  show ?case
  proof (cases "us_username u = n")
    case True
    then show ?thesis by (intro disjI2 exI [of _ 0]) simp
  next
    case False
    then show ?thesis using Cons [of "k + 1"]
    proof (elim disjE exE conjE)
      fix i assume "i < length us" "find_user_from us n (k + 1) = int (k + 1 + i)" "us_username (us ! i) = n"
      then show ?thesis using False by (intro disjI2 exI [of _ "Suc i"]) simp
    qed auto
  qed
qed

lemma find_user_cases:
  obtains (none) "find_user s n = -1" and "n \<notin> user_names s"
  | (found) i where "find_user s n = int i" and "i < length (sv_users s)" and "us_username (sv_users s ! i) = n"
  using find_user_from_spec [of "sv_users s" n 0] that by (auto simp: find_user_def user_names_def)

lemma distinct_user:
  assumes "distinct (map us_username us)" and "i < length us" and "j < length us" and "us_username (us ! i) = us_username (us ! j)"
  shows "i = j"
proof -
  have "map us_username us ! i = map us_username us ! j" using assms by simp
  then show ?thesis using nth_eq_iff_index_eq [OF assms(1), of i j] assms(2,3) by simp
qed

lemma online_iff:
  assumes "distinct (map us_username (sv_users s))" and "i < length (sv_users s)"
  shows "us_username (sv_users s ! i) \<in> online s \<longleftrightarrow> us_logged_in (sv_users s ! i)"
proof
  assume "us_username (sv_users s ! i) \<in> online s"
  then obtain j where "j < length (sv_users s)" "us_logged_in (sv_users s ! j)" "us_username (sv_users s ! j) = us_username (sv_users s ! i)"
    by (auto simp: online_def in_set_conv_nth)
  then show "us_logged_in (sv_users s ! i)" using distinct_user [OF assms(1)] assms(2) by metis
next
  assume "us_logged_in (sv_users s ! i)"
  then show "us_username (sv_users s ! i) \<in> online s" using assms(2) by (auto simp: online_def)
qed

lemma names_set_logged_in:
  "i < length us \<Longrightarrow> map us_username (us[i := (us ! i)\<lparr>us_logged_in := b\<rparr>]) = map us_username us"
  by (intro nth_equalityI) (auto simp: nth_list_update)

lemma user_names_set [simp]:
  assumes "i < length (sv_users s)"
  shows "user_names (set_logged_in i b s) = user_names s"
  using arg_cong [OF names_set_logged_in [OF assms, of b], of set] by (simp add: user_names_def)

lemma online_set:
  assumes d: "distinct (map us_username (sv_users s))" and i: "i < length (sv_users s)" and n: "us_username (sv_users s ! i) = n"
  shows "online (set_logged_in i b s) = (if b then insert n (online s) else online s - {n})"
proof -
  let ?s = "set_logged_in i b s"
  have d': "distinct (map us_username (sv_users ?s))" using d names_set_logged_in [OF i, of b] by simp
  have nm: "us_username (sv_users ?s ! j) = us_username (sv_users s ! j)" if "j < length (sv_users s)" for j
    using that i by (cases "j = i") simp_all
  have "m \<in> online ?s \<longleftrightarrow> m \<in> (if b then insert n (online s) else online s - {n})" for m
  proof (cases "m \<in> user_names s")
    case True
    then obtain j where j: "j < length (sv_users s)" "us_username (sv_users s ! j) = m"
      by (auto simp: user_names_def in_set_conv_nth)
    have a: "m \<in> online ?s \<longleftrightarrow> us_logged_in (sv_users ?s ! j)" using online_iff [OF d', of j] j nm by simp
    have c: "m \<in> online s \<longleftrightarrow> us_logged_in (sv_users s ! j)" using online_iff [OF d, of j] j by simp
    have e: "m = n \<longleftrightarrow> j = i" using distinct_user [OF d j(1) i] j n by auto
    show ?thesis unfolding a using c e i j(1) by (auto simp: nth_list_update)
  next
    case False
    moreover have "online s \<subseteq> user_names s" "online ?s \<subseteq> user_names ?s" by (auto simp: online_def user_names_def)
    moreover have "n \<in> user_names s" using i n by (auto simp: user_names_def)
    ultimately show ?thesis using user_names_set [OF i, of b] by auto
  qed
  then show ?thesis by blast
qed

lemma server_ok_set_logged_in:
  assumes "server_ok s" and "i < length (sv_users s)"
  shows "server_ok (set_logged_in i b s)"
  using assms names_set_logged_in [OF assms(2), of b] by (simp add: server_ok_def)

lemma server_ok_set_seat:
  assumes "server_ok s" and "seat_ok (user_names s) i st"
  shows "server_ok (set_seat i st s)"
proof -
  have "seat_ok (user_names s) j ((sv_seats s)[i := st] ! j)" if "j < NUM_SEATS" for j
    using assms that by (cases "j = i") (simp_all add: server_ok_def)
  then show ?thesis using assms by (simp add: server_ok_def user_names_def)
qed

lemma parse_seat_range:
  assumes "parse_seat_number r = Some v"
  shows "1 \<le> unat v" "unat v \<le> NUM_SEATS" "unat (v - 1) = unat v - 1" "unat (v - 1) < NUM_SEATS"
proof -
  have "\<not> v < 1" "\<not> v > of_nat NUM_SEATS" using assms by (auto simp: parse_seat_number_def split: if_splits prod.splits)
  then have "0 < unat v" and le: "unat v \<le> NUM_SEATS"
    by (auto simp: word_less_nat_alt NUM_SEATS_def not_less)
  then show "1 \<le> unat v" "unat v \<le> NUM_SEATS" by simp_all
  show "unat (v - 1) = unat v - 1" using \<open>0 < unat v\<close> by (simp add: unat_minus_one unat_gt_0)
  then show "unat (v - 1) < NUM_SEATS" using \<open>0 < unat v\<close> le by simp
qed


section \<open>The booking office\<close>

record booking =
  bk_users :: "cstring \<rightharpoonup> cstring \<times> bool"
  bk_seat :: "u64 \<Rightarrow> seat"

definition abs_user :: "user \<Rightarrow> cstring \<times> cstring \<times> bool" where
  "abs_user u = (us_username u, us_hashed_password u, us_logged_in u)"

definition seat_at :: "server \<Rightarrow> u64 \<Rightarrow> seat" where
  "seat_at s v = (if 1 \<le> unat v \<and> unat v \<le> NUM_SEATS then sv_seats s ! (unat v - 1) else default_seat 0)"

definition abs :: "server \<Rightarrow> booking" where
  "abs s = \<lparr>bk_users = map_of (map abs_user (sv_users s)), bk_seat = seat_at s\<rparr>"

text \<open>A request acts for its user when it names the user of the client, who has a session.\<close>

definition acts :: "request \<Rightarrow> cstring option \<Rightarrow> booking \<Rightarrow> bool" where
  "acts r a b \<longleftrightarrow> has_username r \<and> a = Some (request_username r)
     \<and> (case bk_users b (request_username r) of None \<Rightarrow> False | Some (h, on) \<Rightarrow> on)"

definition spec_book :: "request \<Rightarrow> cstring option \<Rightarrow> booking \<Rightarrow> BookErrorCode \<times> booking" where
  "spec_book r a b =
     (if \<not> has_data r then (BOOK_ERROR_NO_DATA, b)
      else case parse_seat_number r of
        None \<Rightarrow> (BOOK_ERROR_SEAT_OUT_OF_RANGE, b)
      | Some v \<Rightarrow>
          if \<not> acts r a b then (BOOK_ERROR_USER_NOT_LOGGED_IN, b)
          else let st = bk_seat b v; stats = st_stats st in
            if st_user st \<noteq> None then (BOOK_ERROR_SEAT_UNAVAILABLE, b)
            else (BOOK_ERROR_SUCCESS, b\<lparr>bk_seat := (bk_seat b)
                (v := st\<lparr>st_user := Some (request_username r), st_stats := stats\<lparr>ss_booked := ss_booked stats + 1\<rparr>\<rparr>)\<rparr>))"

definition spec_cancel :: "request \<Rightarrow> cstring option \<Rightarrow> booking \<Rightarrow> CancelBookingErrorCode \<times> booking" where
  "spec_cancel r a b =
     (if \<not> has_data r then (CANCEL_BOOKING_ERROR_NO_DATA, b)
      else case parse_seat_number r of
        None \<Rightarrow> (CANCEL_BOOKING_ERROR_SEAT_OUT_OF_RANGE, b)
      | Some v \<Rightarrow>
          if \<not> acts r a b then (CANCEL_BOOKING_ERROR_USER_NOT_LOGGED_IN, b)
          else let st = bk_seat b v; stats = st_stats st in
            if st_user st \<noteq> Some (request_username r) then (CANCEL_BOOKING_ERROR_SEAT_NOT_BOOKED_BY_USER, b)
            else (CANCEL_BOOKING_ERROR_SUCCESS, b\<lparr>bk_seat := (bk_seat b)
                (v := st\<lparr>st_user := None, st_stats := stats\<lparr>ss_canceled := ss_canceled stats + 1\<rparr>\<rparr>)\<rparr>))"

text \<open>The seats to confirm, in ascending order.\<close>

definition seats_where :: "(seat \<Rightarrow> bool) \<Rightarrow> booking \<Rightarrow> u64 list" where
  "seats_where P b = filter (\<lambda>v. P (bk_seat b v)) (map of_nat [1..<Suc NUM_SEATS])"

definition spec_confirm :: "request \<Rightarrow> cstring option \<Rightarrow> booking \<Rightarrow> ConfirmBookingErrorCode \<times> u64 list" where
  "spec_confirm r a b =
     (if \<not> has_data r then (CONFIRM_BOOKING_ERROR_NO_DATA, [])
      else if request_data r \<noteq> bytes_of ''available'' \<and> request_data r \<noteq> bytes_of ''booked'' then
        (CONFIRM_BOOKING_ERROR_INVALID_DATA, [])
      else if \<not> acts r a b then (CONFIRM_BOOKING_ERROR_USER_NOT_LOGGED_IN, [])
      else (CONFIRM_BOOKING_ERROR_SUCCESS,
        seats_where (\<lambda>st. st_user st = (if request_data r = bytes_of ''available'' then None else Some (request_username r))) b))"

definition spec_query :: "request \<Rightarrow> booking \<Rightarrow> QueryErrorCode \<times> seat_stats option" where
  "spec_query r b =
     (if \<not> has_data r then (QUERY_ERROR_NO_DATA, None)
      else case parse_seat_number r of
        None \<Rightarrow> (QUERY_ERROR_SEAT_OUT_OF_RANGE, None)
      | Some v \<Rightarrow> (QUERY_ERROR_SUCCESS, Some (st_stats (bk_seat b v))))"

text \<open>\<open>hash\<close>: what is stored for a new account.\<close>

definition spec_login ::
  "crypto \<Rightarrow> cstring \<Rightarrow> request \<Rightarrow> cstring option \<Rightarrow> booking \<Rightarrow> LoginErrorCode \<times> cstring option \<times> booking" where
  "spec_login c hash r a b =
     (if a \<noteq> None then (LOGIN_ERROR_ACTIVE_CLIENT, a, b)
      else if \<not> has_username r then (LOGIN_ERROR_NO_USERNAME_AND_PASSWORD, a, b)
      else if \<not> has_data r then (LOGIN_ERROR_NO_PASSWORD, a, b)
      else let n = request_username r in case bk_users b n of
        None \<Rightarrow> (LOGIN_ERROR_SUCCESS, Some n, b\<lparr>bk_users := (bk_users b)(n \<mapsto> (hash, True))\<rparr>)
      | Some (h, on) \<Rightarrow>
          if on then (LOGIN_ERROR_ACTIVE_USER, a, b)
          else if \<not> argon2_verify c h (request_data r) then (LOGIN_ERROR_INCORRECT_PASSWORD, a, b)
          else (LOGIN_ERROR_SUCCESS, Some n, b\<lparr>bk_users := (bk_users b)(n \<mapsto> (h, True))\<rparr>))"

definition spec_logout :: "request \<Rightarrow> cstring option \<Rightarrow> booking \<Rightarrow> LogoutErrorCode \<times> cstring option \<times> booking" where
  "spec_logout r a b =
     (if \<not> has_username r then (LOGOUT_ERROR_USER_NOT_FOUND, a, b)
      else let n = request_username r in case bk_users b n of
        None \<Rightarrow> (LOGOUT_ERROR_USER_NOT_FOUND, a, b)
      | Some (h, on) \<Rightarrow>
          if \<not> on \<or> a \<noteq> Some n then (LOGOUT_ERROR_USER_NOT_LOGGED_IN, a, b)
          else (LOGOUT_ERROR_SUCCESS, None, b\<lparr>bk_users := (bk_users b)(n \<mapsto> (h, False))\<rparr>))"

section \<open>Looking up\<close>

lemma abs_cong: "sv_users s' = sv_users s \<Longrightarrow> sv_seats s' = sv_seats s \<Longrightarrow> abs s' = abs s"
  by (simp add: abs_def seat_at_def fun_eq_iff)

lemma abs_user_found:
  assumes "distinct (map us_username (sv_users s))" and "i < length (sv_users s)" and "us_username (sv_users s ! i) = n"
  shows "bk_users (abs s) n = Some (us_hashed_password (sv_users s ! i), us_logged_in (sv_users s ! i))"
proof -
  have "distinct (map fst (map abs_user (sv_users s)))" using assms(1) by (simp add: abs_user_def comp_def)
  moreover have "(n, us_hashed_password (sv_users s ! i), us_logged_in (sv_users s ! i)) \<in> set (map abs_user (sv_users s))"
    using assms(2,3) by (force simp: abs_user_def in_set_conv_nth)
  ultimately show ?thesis unfolding abs_def by (simp add: map_of_is_SomeI)
qed

lemma abs_user_none: "n \<notin> user_names s \<Longrightarrow> bk_users (abs s) n = None"
  by (force simp: abs_def user_names_def abs_user_def map_of_eq_None_iff)

lemma user_of_nth: "map_of (map abs_user us) n = Some x \<longleftrightarrow> (\<exists>u. map_of (map (\<lambda>u. (us_username u, u)) us) n = Some u
    \<and> x = (us_hashed_password u, us_logged_in u))"
  by (induction us) (auto simp: abs_user_def)

lemma abs_set_logged_in:
  assumes d: "distinct (map us_username (sv_users s))" and i: "i < length (sv_users s)" and n: "us_username (sv_users s ! i) = n"
  shows "abs (set_logged_in i b s) = (abs s)\<lparr>bk_users := (bk_users (abs s))(n \<mapsto> (us_hashed_password (sv_users s ! i), b))\<rparr>"
proof -
  let ?s = "set_logged_in i b s"
  have d': "distinct (map us_username (sv_users ?s))" using d names_set_logged_in [OF i, of b] by simp
  have "bk_users (abs ?s) m = ((bk_users (abs s))(n \<mapsto> (us_hashed_password (sv_users s ! i), b))) m" for m
  proof (cases "m \<in> user_names s")
    case True
    then obtain j where j: "j < length (sv_users s)" "us_username (sv_users s ! j) = m"
      by (auto simp: user_names_def in_set_conv_nth)
    then have "j < length (sv_users ?s)" "us_username (sv_users ?s ! j) = m" using i by (cases "j = i"; simp)+
    note a = abs_user_found [OF d' this]
    have e: "m = n \<longleftrightarrow> j = i" using distinct_user [OF d j(1) i] j n by auto
    show ?thesis unfolding a using abs_user_found [OF d j] e i j(1) by (cases "j = i") simp_all
  next
    case False
    moreover have "n \<in> user_names s" using i n by (auto simp: user_names_def)
    ultimately show ?thesis using abs_user_none [of m s] abs_user_none [of m ?s] user_names_set [OF i, of b] by auto
  qed
  then show ?thesis by (simp add: abs_def fun_eq_iff seat_at_def)
qed

lemma abs_add_user:
  assumes "us_username u \<notin> user_names s" and "sv_users s' = sv_users s @ [u]" and "sv_seats s' = sv_seats s"
  shows "abs s' = (abs s)\<lparr>bk_users := (bk_users (abs s))(us_username u \<mapsto> (us_hashed_password u, us_logged_in u))\<rparr>"
proof -
  have "map_of (map abs_user (sv_users s)) (us_username u) = None"
    using abs_user_none [OF assms(1)] by (simp add: abs_def)
  then have "map_of (map abs_user (sv_users s) @ [abs_user u]) m
      = ((map_of (map abs_user (sv_users s)))(us_username u \<mapsto> (us_hashed_password u, us_logged_in u))) m" for m
    by (auto simp: map_add_def abs_user_def split: option.split)
  then show ?thesis using assms(2,3) by (simp add: abs_def fun_eq_iff seat_at_def)
qed

lemma seat_at_eq:
  assumes "parse_seat_number r = Some v"
  shows "sv_seats s ! unat (v - 1) = seat_at s v"
  using parse_seat_range [OF assms] by (simp add: seat_at_def)

lemma abs_set_seat:
  assumes "parse_seat_number r = Some v" and "server_ok s"
  shows "abs (set_seat (unat (v - 1)) st s) = (abs s)\<lparr>bk_seat := (bk_seat (abs s))(v := st)\<rparr>"
proof -
  note v = parse_seat_range [OF assms(1)]
  have "seat_at (set_seat (unat (v - 1)) st s) u = (if u = v then st else seat_at s u)" for u
  proof (cases "u = v")
    case True
    then show ?thesis using v assms(2) by (simp add: seat_at_def server_ok_def)
  next
    case False
    then have "unat u \<noteq> unat v" using word_unat_eq_iff [of u v] by blast
    then show ?thesis using v False by (auto simp: seat_at_def)
  qed
  then show ?thesis by (simp add: abs_def fun_eq_iff)
qed

lemma lock_logged_in_user_spec:
  assumes ok: "server_ok s" and l: "lock_logged_in_user r (Some a) s = (uid, s1)"
  shows "sv_users s1 = sv_users s \<and> sv_seats s1 = sv_seats s \<and> sv_host s1 = sv_host s
    \<and> (uid < 0 \<and> \<not> acts r a (abs s) \<or> 0 \<le> uid \<and> acts r a (abs s) \<and> request_username r \<in> user_names s)"
proof (cases "request_matches_active_client r (Some a)")
  case False
  then have "\<not> acts r a (abs s)" by (auto simp: request_matches_active_client_def acts_def split: option.splits)
  then show ?thesis using l False by (auto simp: lock_logged_in_user_def)
next
  case True
  then have m: "has_username r" "a = Some (request_username r)"
    by (auto simp: request_matches_active_client_def split: option.splits)
  have d: "distinct (map us_username (sv_users s))" using ok by (simp add: server_ok_def)
  show ?thesis
  proof (cases rule: find_user_cases [of s "request_username r"])
    case none
    then show ?thesis using l True abs_user_none [OF none(2)] by (auto simp: lock_logged_in_user_def Let_def acts_def)
  next
    case (found i)
    have "us_username (sv_users s ! i) \<in> user_names s" using found(2) by (simp add: user_names_def)
    then have "request_username r \<in> user_names s" using found(3) by simp
    then show ?thesis using l True m abs_user_found [OF d found(2,3)] found(1)
      by (auto simp: lock_logged_in_user_def Let_def acts_def split: if_splits)
  qed
qed

end
