(* ===== verification/Pa3_Refine.thy ===== *)
theory Pa3_Refine
  imports Pa3_Booking
begin

text \<open>
  Each request handler refines its specification: if it returns, the server state is well-formed
  again, and code, response, slot and abstract state are what the specification says.
\<close>

section \<open>Seats\<close>

lemma handle_book_refines:
  assumes ok: "server_ok s" and h: "handle_book_request r (Some a) s = Ret (code, resp, sl, s')"
  shows "server_ok s' \<and> sl = Some a \<and> sv_users s' = sv_users s
    \<and> (\<exists>e. spec_book r a (abs s) = (e, abs s') \<and> code = book_code e \<and> resp = set_response code)"
proof (cases "has_data r")
  case False
  then show ?thesis using h ok by (simp add: handle_book_request_def spec_book_def)
next
  case hd: True
  show ?thesis
  proof (cases "parse_seat_number r")
    case None
    then show ?thesis using h ok hd by (simp add: handle_book_request_def spec_book_def)
  next
    case v: (Some v)
    obtain uid s1 where l: "lock_logged_in_user r (Some a) s = (uid, s1)" by force
    note ls = lock_logged_in_user_spec [OF ok l]
    have ok1: "server_ok s1" and a1: "abs s1 = abs s" using ls ok server_ok_cong abs_cong by metis+
    show ?thesis
    proof (cases "uid < 0")
      case True
      then show ?thesis using h hd v ls ok1 a1 by (simp add: handle_book_request_def spec_book_def l)
    next
      case uid: False
      then have ac: "acts r a (abs s)" and un: "request_username r \<in> user_names s" using ls by auto
      let ?i = "unat (v - 1)"
      let ?s2 = "pthread_mutex_lock (Seat_mutex ?i) s1"
      let ?st = "sv_seats s1 ! ?i"
      have same2: "sv_users s1 = sv_users s" "sv_seats s1 = sv_seats s" using ls by simp_all
      have st: "?st = bk_seat (abs s) v" using seat_at_eq [OF v, of s] same2 by (simp add: abs_def)
      show ?thesis
      proof (cases "st_user ?st = None")
        case False
        let ?s3 = "pthread_mutex_unlock (User_mutex (nat uid)) (pthread_mutex_unlock (Seat_mutex ?i) ?s2)"
        have res: "s' = ?s3" "code = book_code BOOK_ERROR_SEAT_UNAVAILABLE" "resp = set_response code" "sl = Some a"
          using h hd v uid False by (simp_all add: handle_book_request_def l Let_def)
        have "sv_users ?s3 = sv_users s" "sv_seats ?s3 = sv_seats s" using same2 by simp_all
        note k = server_ok_cong [OF this] abs_cong [OF this]
        show ?thesis using res k ok hd v ac False st same2 by (simp add: spec_book_def Let_def)
      next
        case free: True
        obtain nm s3 where sd: "strdup (request_username r) ?s2 = (nm, s3)" by force
        note sds = strdup_same [OF sd]
        have nm: "nm = Some (request_username r)"
          using h hd v uid free sds(4) by (auto simp: handle_book_request_def l Let_def sd)
        let ?new = "?st\<lparr>st_user := Some (request_username r), st_stats := (st_stats ?st)\<lparr>ss_booked := ss_booked (st_stats ?st) + 1\<rparr>\<rparr>"
        have s': "s' = pthread_mutex_unlock (User_mutex (nat uid)) (pthread_mutex_unlock (Seat_mutex ?i) (set_seat ?i ?new s3))"
          and res: "code = book_code BOOK_ERROR_SUCCESS" "resp = set_response code" "sl = Some a"
          using h hd v uid free nm by (simp_all add: handle_book_request_def l Let_def sd)
        have s3: "sv_users s3 = sv_users s" "sv_seats s3 = sv_seats s" using sds same2 by simp_all
        have ok3: "server_ok s3" and a3: "abs s3 = abs s" using s3 ok server_ok_cong abs_cong by metis+
        have "seat_ok (user_names s) ?i ?st" using ok parse_seat_range(4) [OF v] same2 by (simp add: server_ok_def)
        then have "seat_ok (user_names s3) ?i ?new" using free un s3 by (simp add: seat_ok_def user_names_def diff_add_eq)
        then have "server_ok s'" using server_ok_set_seat [OF ok3] by (simp add: s' server_ok_def user_names_def)
        moreover have "abs s' = (abs s)\<lparr>bk_seat := (bk_seat (abs s))(v := ?new)\<rparr>"
        proof -
          have "abs s' = abs (set_seat ?i ?new s3)" by (rule abs_cong) (simp_all add: s')
          then show ?thesis using abs_set_seat [OF v ok3, of ?new] a3 by simp
        qed
        ultimately show ?thesis using res hd v ac free st s3 by (simp add: spec_book_def Let_def s')
      qed
    qed
  qed
qed

lemma handle_cancel_refines:
  assumes ok: "server_ok s" and h: "handle_cancel_booking_request r (Some a) s = Ret (code, resp, sl, s')"
  shows "server_ok s' \<and> sl = Some a \<and> sv_users s' = sv_users s
    \<and> (\<exists>e. spec_cancel r a (abs s) = (e, abs s') \<and> code = cancel_code e \<and> resp = set_response code)"
proof (cases "has_data r")
  case False
  then show ?thesis using h ok by (simp add: handle_cancel_booking_request_def spec_cancel_def)
next
  case hd: True
  show ?thesis
  proof (cases "parse_seat_number r")
    case None
    then show ?thesis using h ok hd by (simp add: handle_cancel_booking_request_def spec_cancel_def)
  next
    case v: (Some v)
    obtain uid s1 where l: "lock_logged_in_user r (Some a) s = (uid, s1)" by force
    note ls = lock_logged_in_user_spec [OF ok l]
    have ok1: "server_ok s1" and a1: "abs s1 = abs s" using ls ok server_ok_cong abs_cong by metis+
    show ?thesis
    proof (cases "uid < 0")
      case True
      then show ?thesis using h hd v ls ok1 a1 by (simp add: handle_cancel_booking_request_def spec_cancel_def l)
    next
      case uid: False
      then have ac: "acts r a (abs s)" using ls by auto
      let ?i = "unat (v - 1)"
      let ?s2 = "pthread_mutex_lock (Seat_mutex ?i) s1"
      let ?st = "sv_seats s1 ! ?i"
      have same2: "sv_users s1 = sv_users s" "sv_seats s1 = sv_seats s" using ls by simp_all
      have st: "?st = bk_seat (abs s) v" using seat_at_eq [OF v, of s] same2 by (simp add: abs_def)
      show ?thesis
      proof (cases "st_user ?st = Some (request_username r)")
        case False
        then have nb: "st_user ?st = None \<or> the (st_user ?st) \<noteq> request_username r" by auto
        let ?s3 = "pthread_mutex_unlock (User_mutex (nat uid)) (pthread_mutex_unlock (Seat_mutex ?i) ?s2)"
        have res: "s' = ?s3" "code = cancel_code CANCEL_BOOKING_ERROR_SEAT_NOT_BOOKED_BY_USER" "resp = set_response code"
          "sl = Some a"
          using h hd v uid by (simp_all add: handle_cancel_booking_request_def l Let_def if_P [OF nb])
        have "sv_users ?s3 = sv_users s" "sv_seats ?s3 = sv_seats s" using same2 by simp_all
        note k = server_ok_cong [OF this] abs_cong [OF this]
        show ?thesis using res k ok hd v ac False st same2 by (simp add: spec_cancel_def Let_def)
      next
        case mine: True
        let ?new = "?st\<lparr>st_user := None, st_stats := (st_stats ?st)\<lparr>ss_canceled := ss_canceled (st_stats ?st) + 1\<rparr>\<rparr>"
        have s': "s' = pthread_mutex_unlock (User_mutex (nat uid)) (pthread_mutex_unlock (Seat_mutex ?i) (set_seat ?i ?new ?s2))"
          and res: "code = cancel_code CANCEL_BOOKING_ERROR_SUCCESS" "resp = set_response code" "sl = Some a"
          using h hd v uid mine by (simp_all add: handle_cancel_booking_request_def l Let_def)
        have "sv_users ?s2 = sv_users s" "sv_seats ?s2 = sv_seats s" using same2 by simp_all
        then have ok2: "server_ok ?s2" and a2: "abs ?s2 = abs s" using ok server_ok_cong abs_cong by metis+
        have "seat_ok (user_names s) ?i ?st" using ok parse_seat_range(4) [OF v] same2 by (simp add: server_ok_def)
        then have "seat_ok (user_names ?s2) ?i ?new" using mine same2 by (simp add: seat_ok_def user_names_def diff_diff_eq2 algebra_simps)
        then have "server_ok s'" using server_ok_set_seat [OF ok2] by (simp add: s' server_ok_def user_names_def)
        moreover have "abs s' = (abs s)\<lparr>bk_seat := (bk_seat (abs s))(v := ?new)\<rparr>"
        proof -
          have "abs s' = abs (set_seat ?i ?new ?s2)" by (rule abs_cong) (simp_all add: s')
          then show ?thesis using abs_set_seat [OF v ok2, of ?new] a2 by simp
        qed
        ultimately show ?thesis using res hd v ac mine st same2 by (simp add: spec_cancel_def Let_def s')
      qed
    qed
  qed
qed

lemma select_seats_spec:
  assumes "select_seats P is s = (vs, s')"
  shows "vs = map (\<lambda>i. ss_id (st_stats (sv_seats s ! i))) (filter (\<lambda>i. P (sv_seats s ! i)) is)
    \<and> sv_users s' = sv_users s \<and> sv_seats s' = sv_seats s \<and> sv_host s' = sv_host s"
  using assms by (induction "is" arbitrary: s vs s') (fastforce simp: Let_def split: prod.splits if_splits)+

lemma selected_seats:
  assumes ok: "server_ok s" and sel: "select_seats P [0..<NUM_SEATS] s1 = (vs, s2)" and same: "sv_seats s1 = sv_seats s"
  shows "vs = seats_where P (abs s)"
proof -
  have id: "ss_id (st_stats (sv_seats s ! i)) = of_nat (Suc i)" if "i < NUM_SEATS" for i
    using ok that by (simp add: server_ok_def seat_ok_def)
  have un: "unat (of_nat (Suc i) :: u64) = Suc i" if "i < NUM_SEATS" for i
    using that by (intro unat_u64) (simp add: NUM_SEATS_def)
  have "vs = map (\<lambda>i. ss_id (st_stats (sv_seats s ! i))) (filter (\<lambda>i. P (sv_seats s ! i)) [0..<NUM_SEATS])"
    using select_seats_spec [OF sel] same by simp
  also have "\<dots> = map (\<lambda>i. of_nat (Suc i)) (filter (\<lambda>i. P (sv_seats s ! i)) [0..<NUM_SEATS])"
    by (rule map_cong) (auto simp: id)
  also have "filter (\<lambda>i. P (sv_seats s ! i)) [0..<NUM_SEATS] = filter (\<lambda>i. P (seat_at s (of_nat (Suc i)))) [0..<NUM_SEATS]"
    by (rule filter_cong) (auto simp: seat_at_def un simp del: of_nat_Suc)
  finally show ?thesis
    by (simp add: seats_where_def abs_def filter_map comp_def map_Suc_upt [symmetric] del: upt_Suc map_Suc_upt of_nat_Suc)
qed

text \<open>The response that carries a list of seats.\<close>

definition seats_response :: "u64 list \<Rightarrow> response" where
  "seats_response vs = (if vs = [] then set_response 0
     else \<lparr>rs_data_size = of_nat (8 * length vs), rs_code = 0, rs_data = Some (concat (map enc_u64 vs))\<rparr>)"

lemma handle_confirm_refines:
  assumes ok: "server_ok s" and h: "handle_confirm_booking_request r (Some a) s = Ret (code, resp, sl, s')"
  shows "server_ok s' \<and> sl = Some a \<and> sv_users s' = sv_users s \<and> abs s' = abs s
    \<and> (\<exists>e vs. spec_confirm r a (abs s) = (e, vs) \<and> code = confirm_code e
         \<and> resp = (if e = CONFIRM_BOOKING_ERROR_SUCCESS then seats_response vs else set_response code))"
proof (cases "has_data r \<and> (request_data r = bytes_of ''available'' \<or> request_data r = bytes_of ''booked'')")
  case False
  then show ?thesis using h ok by (auto simp: handle_confirm_booking_request_def spec_confirm_def Let_def)
next
  case hd: True
  let ?av = "request_data r = bytes_of ''available''"
  obtain uid s1 where l: "lock_logged_in_user r (Some a) s = (uid, s1)" by force
  note ls = lock_logged_in_user_spec [OF ok l]
  have ok1: "server_ok s1" and a1: "abs s1 = abs s" using ls ok server_ok_cong abs_cong by metis+
  show ?thesis
  proof (cases "uid < 0")
    case True
    then have "code = confirm_code CONFIRM_BOOKING_ERROR_USER_NOT_LOGGED_IN" "resp = set_response code" "sl = Some a" "s' = s1"
      using h hd by (auto simp: handle_confirm_booking_request_def Let_def l)
    moreover have "spec_confirm r a (abs s) = (CONFIRM_BOOKING_ERROR_USER_NOT_LOGGED_IN, [])"
      using hd ls True by (auto simp: spec_confirm_def)
    ultimately show ?thesis using ls ok1 a1 by simp
  next
    case uid: False
    then have ac: "acts r a (abs s)" using ls by auto
    let ?P = "\<lambda>seat. if ?av then st_user seat = None else st_user seat = Some (request_username r)"
    let ?Q = "\<lambda>seat. st_user seat = (if ?av then None else Some (request_username r))"
    obtain vs s2 where se: "select_seats ?P [0..<NUM_SEATS] s1 = (vs, s2)" by force
    have P: "?P = ?Q" by auto
    have vs: "vs = seats_where ?Q (abs s)" using selected_seats [OF ok se] ls unfolding P by simp
    have sp: "spec_confirm r a (abs s) = (CONFIRM_BOOKING_ERROR_SUCCESS, vs)" using hd ac vs by (auto simp: spec_confirm_def)
    have s2: "sv_users s2 = sv_users s" "sv_seats s2 = sv_seats s" using select_seats_spec [OF se] ls by simp_all
    define s3 where "s3 = pthread_mutex_unlock (User_mutex (nat uid)) s2"
    have s3: "sv_users s3 = sv_users s" "sv_seats s3 = sv_seats s" using s2 by (simp_all add: s3_def)
    have nn: "\<not> (\<not> ?av \<and> request_data r \<noteq> bytes_of ''booked'')" using hd by blast
    have unf: "handle_confirm_booking_request r (Some a) s = (let response = set_response (confirm_code CONFIRM_BOOKING_ERROR_SUCCESS)
               in if vs = [] then Ret (confirm_code CONFIRM_BOOKING_ERROR_SUCCESS, response, Some a, s3)
                  else case allocate (length vs * 8) s3 of (granted, s) \<Rightarrow>
                    if \<not> granted then Exit EXIT_FAILURE
                    else Ret (confirm_code CONFIRM_BOOKING_ERROR_SUCCESS,
                           response\<lparr>rs_data_size := of_nat (length vs * 8),
                                    rs_data := Some (concat (map enc_u64 vs))\<rparr>, Some a, s))"
      using hd uid se by (simp add: handle_confirm_booking_request_def Let_def l s3_def if_not_P [OF nn])
    show ?thesis
    proof (cases "vs = []")
      case True
      then show ?thesis using h unf sp ok s3 server_ok_cong [OF s3] abs_cong [OF s3] by (auto simp: seats_response_def)
    next
      case False
      obtain g s4 where al: "allocate (length vs * 8) s3 = (g, s4)" by force
      note as = allocate_same [OF al]
      have s4: "sv_users s4 = sv_users s" "sv_seats s4 = sv_seats s" using as s3 by simp_all
      have "s' = s4" "code = 0" "sl = Some a" "resp = seats_response vs"
        using h False unfolding unf al by (auto simp: seats_response_def set_response_def mult.commute split: if_splits)
      then show ?thesis using sp ok server_ok_cong [OF s4] abs_cong [OF s4] s4 by simp
    qed
  qed
qed

definition stats_response :: "seat_stats \<Rightarrow> response" where
  "stats_response st = \<lparr>rs_data_size = 24, rs_code = 0, rs_data = Some (enc_stats st)\<rparr>"

lemma handle_query_refines:
  assumes ok: "server_ok s" and h: "handle_query_request r (Some a) s = Ret (code, resp, sl, s')"
  shows "server_ok s' \<and> sl = Some a \<and> sv_users s' = sv_users s \<and> abs s' = abs s
    \<and> (\<exists>e st. spec_query r (abs s) = (e, st) \<and> code = query_code e
         \<and> resp = (case st of None \<Rightarrow> set_response code | Some x \<Rightarrow> stats_response x))"
proof (cases "has_data r")
  case False
  then show ?thesis using h ok by (simp add: handle_query_request_def spec_query_def)
next
  case hd: True
  show ?thesis
  proof (cases "parse_seat_number r")
    case None
    then show ?thesis using h ok hd by (simp add: handle_query_request_def spec_query_def)
  next
    case v: (Some v)
    let ?i = "unat (v - 1)"
    define s2 where "s2 = pthread_mutex_unlock (Seat_mutex ?i) (pthread_mutex_lock (Seat_mutex ?i) s)"
    obtain g s3 where al: "allocate 24 s2 = (g, s3)" by force
    note as = allocate_same [OF al]
    have s3: "sv_users s3 = sv_users s" "sv_seats s3 = sv_seats s" using as by (simp_all add: s2_def)
    have "s' = s3" "code = 0" "sl = Some a" "resp = stats_response (st_stats (sv_seats s ! ?i))"
      using h hd v al by (auto simp: handle_query_request_def Let_def s2_def [symmetric] stats_response_def set_response_def split: if_splits)
    then show ?thesis using hd v ok server_ok_cong [OF s3] abs_cong [OF s3] s3 seat_at_eq [OF v, of s]
      by (simp add: spec_query_def abs_def)
  qed
qed

section \<open>Sessions\<close>

lemma save_active_user_spec:
  assumes "save_active_user (Some a) n s = Ret (sl, s')"
  shows "sl = Some (Some n)" "sv_users s' = sv_users s" "sv_seats s' = sv_seats s"
proof -
  obtain x s1 where d: "strdup n s = (x, s1)" by force
  show "sl = Some (Some n)" "sv_users s' = sv_users s" "sv_seats s' = sv_seats s"
    using assms strdup_same [OF d] by (auto simp: save_active_user_def d split: option.splits)
qed

lemma add_user_spec:
  assumes "add_user n h s = Ret (uid, s')"
  shows "uid = length (sv_users s) \<and> length (sv_users s) < NUM_USERS
    \<and> sv_users s' = sv_users s @ [\<lparr>us_username = n, us_hashed_password = h, us_logged_in = False\<rparr>]
    \<and> sv_seats s' = sv_seats s"
proof -
  obtain x s1 where d1: "strdup n s = (x, s1)" by force
  obtain y s2 where d2: "strdup h s1 = (y, s2)" by force
  show ?thesis
    using assms strdup_same [OF d1] strdup_same [OF d2] by (auto simp: add_user_def d1 d2 split: if_splits option.splits)
qed

lemma seat_ok_mono: "seat_ok names i st \<Longrightarrow> names \<subseteq> names' \<Longrightarrow> seat_ok names' i st"
  by (auto simp: seat_ok_def)

lemma server_ok_add_user:
  assumes "server_ok s" and "us_username u \<notin> user_names s" and "length (sv_users s) < NUM_USERS"
    and "sv_users s' = sv_users s @ [u]" and "sv_seats s' = sv_seats s"
  shows "server_ok s'"
proof -
  have "user_names s \<subseteq> user_names s'" using assms(4) by (auto simp: user_names_def)
  then show ?thesis using assms seat_ok_mono [of "user_names s" _ _ "user_names s'"]
    by (auto simp: server_ok_def user_names_def)
qed

lemma handle_login_refines:
  assumes ok: "server_ok s" and h: "handle_login_request c r (Some a) s = Ret (code, resp, sl, s')"
  shows "server_ok s' \<and> sv_seats s' = sv_seats s \<and> resp = set_response code
    \<and> (\<exists>salt e a'. spec_login c (take 127 (argon2_hash c (request_data r) salt)) r a (abs s) = (e, a', abs s')
         \<and> code = login_code e \<and> sl = Some a'
         \<and> online s' = (if e = LOGIN_ERROR_SUCCESS then insert (request_username r) (online s) else online s)
         \<and> (e = LOGIN_ERROR_SUCCESS \<longrightarrow> request_username r \<notin> online s))"
proof (cases "a = None \<and> has_username r \<and> has_data r")
  case False
  then show ?thesis using h ok by (auto simp: handle_login_request_def spec_login_def Let_def split: if_splits)
next
  case pre: True
  let ?n = "request_username r"
  let ?s1 = "pthread_mutex_lock Array_mutex s"
  have d: "distinct (map us_username (sv_users s))" using ok by (simp add: server_ok_def)
  show ?thesis
  proof (cases rule: find_user_cases [of s ?n])
    case (found i)
    let ?u = "sv_users s ! i"
    let ?s2 = "pthread_mutex_unlock Array_mutex (pthread_mutex_lock (User_mutex i) ?s1)"
    have bk: "bk_users (abs s) ?n = Some (us_hashed_password ?u, us_logged_in ?u)" by (rule abs_user_found [OF d found(2,3)])
    have on: "?n \<in> online s \<longleftrightarrow> us_logged_in ?u" using online_iff [OF d found(2)] found(3) by simp
    show ?thesis
    proof (cases "us_logged_in ?u \<or> \<not> argon2_verify c (us_hashed_password ?u) (request_data r)")
      case True
      let ?e = "if us_logged_in ?u then LOGIN_ERROR_ACTIVE_USER else LOGIN_ERROR_INCORRECT_PASSWORD"
      have res: "s' = pthread_mutex_unlock (User_mutex i) ?s2" "code = login_code ?e" "resp = set_response code" "sl = Some a"
        using h pre found(1) True by (auto simp: handle_login_request_def Let_def validate_password_def split: if_splits)
      have same: "sv_users s' = sv_users s" "sv_seats s' = sv_seats s" using res(1) by simp_all
      have sp: "spec_login c x r a (abs s) = (?e, a, abs s')" for x
        using pre bk True abs_cong [OF same] by (auto simp: spec_login_def Let_def)
      show ?thesis using res(2,3,4) ok server_ok_cong [OF same] online_cong [OF same(1)] same sp by auto
    next
      case False
      let ?s3 = "pthread_mutex_unlock (User_mutex i) (set_logged_in i True ?s2)"
      have sv: "save_active_user (Some a) ?n ?s3 = Ret (sl, s')" "code = login_code LOGIN_ERROR_SUCCESS" "resp = set_response code"
        using h pre found(1) False
        by (cases "save_active_user (Some a) ?n ?s3"; auto simp: handle_login_request_def Let_def validate_password_def)+
      note same = save_active_user_spec [OF sv(1)]
      have s': "sv_users s' = sv_users (set_logged_in i True s)" "sv_seats s' = sv_seats (set_logged_in i True s)"
        using same by simp_all
      have sp: "spec_login c x r a (abs s) = (LOGIN_ERROR_SUCCESS, Some ?n, abs s')" for x
        using pre bk False abs_cong [OF s'] abs_set_logged_in [OF d found(2,3), of True] by (simp add: spec_login_def Let_def)
      show ?thesis
        using sv(2,3) same(1) s'(2) sp server_ok_cong [OF s'] server_ok_set_logged_in [OF ok found(2)]
          online_cong [OF s'(1)] online_set [OF d found(2,3), of True] on False by auto
    qed
  next
    case none
    have n: "find_user ?s1 ?n = -1" using none(1) by simp
    obtain hp where hp: "hash_password c (request_data r) ?s1 = Ret hp"
      using h pre none(1) by (cases "hash_password c (request_data r) ?s1") (auto simp: handle_login_request_def Let_def)
    obtain uid s2 where au: "add_user ?n hp ?s1 = Ret (uid, s2)"
      using h pre none(1) hp by (cases "add_user ?n hp ?s1") (auto simp: handle_login_request_def Let_def)
    note aus = add_user_spec [OF au]
    let ?s3 = "pthread_mutex_unlock Array_mutex (pthread_mutex_unlock (User_mutex uid)
      (set_logged_in uid True (pthread_mutex_lock (User_mutex uid) s2)))"
    have sv: "save_active_user (Some a) ?n ?s3 = Ret (sl, s')" "code = login_code LOGIN_ERROR_SUCCESS" "resp = set_response code"
      using h pre none(1) hp au
      by (cases "save_active_user (Some a) ?n ?s3"; auto simp: handle_login_request_def Let_def)+
    note same = save_active_user_spec [OF sv(1)]
    let ?u = "\<lparr>us_username = ?n, us_hashed_password = hp, us_logged_in = True\<rparr>"
    have s': "sv_users s' = sv_users s @ [?u]" "sv_seats s' = sv_seats s" using same aus by simp_all
    have nn: "us_username ?u \<notin> user_names s" using none(2) by simp
    obtain salt where salt: "hp = take 127 (argon2_hash c (request_data r) salt)"
      using hp by (cases "generate_salt c ?s1") (auto simp: hash_password_def HASHED_PASSWORD_SIZE_def)
    have sp: "spec_login c hp r a (abs s) = (LOGIN_ERROR_SUCCESS, Some ?n, abs s')"
      using pre abs_user_none [OF none(2)] abs_add_user [OF nn s'] by (simp add: spec_login_def Let_def)
    have "{u \<in> set (sv_users s'). us_logged_in u} = insert ?u {u \<in> set (sv_users s). us_logged_in u}" using s'(1) by auto
    then have on: "online s' = insert ?n (online s)" "?n \<notin> online s" using none(2) by (auto simp: online_def user_names_def)
    have "server_ok s'" using server_ok_add_user [OF ok nn _ s'] aus by simp
    then show ?thesis using sv(2,3) same(1) s'(2) sp on unfolding salt by auto
  qed
qed

lemma handle_logout_refines:
  assumes ok: "server_ok s" and h: "handle_logout_request r (Some a) s = Ret (code, resp, sl, s')"
  shows "server_ok s' \<and> sv_seats s' = sv_seats s \<and> resp = set_response code
    \<and> (\<exists>e a'. spec_logout r a (abs s) = (e, a', abs s') \<and> code = logout_code e \<and> sl = Some a'
         \<and> online s' = (if e = LOGOUT_ERROR_SUCCESS then online s - {request_username r} else online s))"
proof (cases "has_username r")
  case False
  then show ?thesis using h ok by (auto simp: handle_logout_request_def spec_logout_def Let_def)
next
  case hu: True
  let ?n = "request_username r"
  let ?s1 = "pthread_mutex_lock Array_mutex s"
  have d: "distinct (map us_username (sv_users s))" using ok by (simp add: server_ok_def)
  show ?thesis
  proof (cases rule: find_user_cases [of s ?n])
    case none
    have res: "s' = pthread_mutex_unlock Array_mutex ?s1" "code = logout_code LOGOUT_ERROR_USER_NOT_FOUND"
      "resp = set_response code" "sl = Some a"
      using h hu none(1) by (auto simp: handle_logout_request_def Let_def)
    have same: "sv_users s' = sv_users s" "sv_seats s' = sv_seats s" using res(1) by simp_all
    have "spec_logout r a (abs s) = (LOGOUT_ERROR_USER_NOT_FOUND, a, abs s')"
      using hu abs_user_none [OF none(2)] abs_cong [OF same] by (simp add: spec_logout_def Let_def)
    then show ?thesis using res(2,3,4) ok server_ok_cong [OF same] online_cong [OF same(1)] same by auto
  next
    case (found i)
    let ?u = "sv_users s ! i"
    let ?s2 = "pthread_mutex_unlock Array_mutex (pthread_mutex_lock (User_mutex i) ?s1)"
    have bk: "bk_users (abs s) ?n = Some (us_hashed_password ?u, us_logged_in ?u)" by (rule abs_user_found [OF d found(2,3)])
    have ma: "request_matches_active_client r (Some a) \<longleftrightarrow> a = Some ?n"
      using hu by (auto simp: request_matches_active_client_def split: option.splits)
    show ?thesis
    proof (cases "us_logged_in ?u \<and> a = Some ?n")
      case False
      have res: "s' = pthread_mutex_unlock (User_mutex i) ?s2" "code = logout_code LOGOUT_ERROR_USER_NOT_LOGGED_IN"
        "resp = set_response code" "sl = Some a"
        using h hu found(1) False by (auto simp: handle_logout_request_def Let_def ma split: if_splits)
      have same: "sv_users s' = sv_users s" "sv_seats s' = sv_seats s" using res(1) by simp_all
      have "spec_logout r a (abs s) = (LOGOUT_ERROR_USER_NOT_LOGGED_IN, a, abs s')"
        using hu bk False abs_cong [OF same] by (auto simp: spec_logout_def Let_def)
      then show ?thesis using res(2,3,4) ok server_ok_cong [OF same] online_cong [OF same(1)] same by auto
    next
      case True
      have res: "s' = pthread_mutex_unlock (User_mutex i) (set_logged_in i False ?s2)" "code = logout_code LOGOUT_ERROR_SUCCESS"
        "resp = set_response code" "sl = Some None"
        using h hu found(1) conjunct1 [OF True] iffD2 [OF ma conjunct2 [OF True]]
        by (auto simp: handle_logout_request_def Let_def)
      have s': "sv_users s' = sv_users (set_logged_in i False s)" "sv_seats s' = sv_seats (set_logged_in i False s)"
        using res(1) by simp_all
      have "spec_logout r a (abs s) = (LOGOUT_ERROR_SUCCESS, None, abs s')"
        using hu bk True abs_cong [OF s'] abs_set_logged_in [OF d found(2,3), of False] by (simp add: spec_logout_def Let_def)
      then show ?thesis
        using res(2,3,4) s'(2) server_ok_cong [OF s'] server_ok_set_logged_in [OF ok found(2)]
          online_cong [OF s'(1)] online_set [OF d found(2,3), of False] by auto
    qed
  qed
qed

end
