(* ===== verification/Pa3_Worker.thy ===== *)
theory Pa3_Worker
  imports Pa3_Handlers
begin

unbundle bit_operations_syntax

text \<open>
  \<^verbatim>\<open>PA3/server/pa3_server.c\<close>: receiving requests and sending responses, the poll sets, the worker loop
  and the main loop. What \<open>poll\<close> and \<open>accept\<close> return are inputs of the definitions.
\<close>

section \<open>Users that go away\<close>

definition deactivate_user :: "cstring option \<Rightarrow> server \<Rightarrow> server" where
  "deactivate_user username s =
     (case username of
        None \<Rightarrow> s
      | Some name \<Rightarrow>
          (let s = pthread_mutex_lock Array_mutex s;
               uid = find_user s name
           in if uid < 0 then pthread_mutex_unlock Array_mutex s
              else let s = pthread_mutex_lock (User_mutex (nat uid)) s;
                       s = pthread_mutex_unlock Array_mutex s;
                       s = set_logged_in (nat uid) False s
                   in pthread_mutex_unlock (User_mutex (nat uid)) s))"

section \<open>Requests and responses\<close>

definition read_fd :: "int \<Rightarrow> nat \<Rightarrow> server \<Rightarrow> int \<times> byte list \<times> server" where
  "read_fd fd count s = (case safe_read fd count (sv_host s) of (n, bs, h) \<Rightarrow> (n, bs, s\<lparr>sv_host := h\<rparr>))"

text \<open>
  One of the two strings of a request: a buffer of \<open>len + 1\<close> zero bytes, where the sum wraps in
  \<open>uint64_t\<close>, filled by a read of \<open>len\<close> bytes; more bytes than the buffer has are undefined behaviour. For
  \<open>len = 2 ^ 64 - 1\<close> the buffer has no byte, but then the read refuses the count and nothing is written.
  The result is whether the count read is \<open>(ssize_t) len\<close>, and the buffer.
\<close>

definition read_string :: "int \<Rightarrow> u64 \<Rightarrow> server \<Rightarrow> (bool \<times> byte list \<times> server) run" where
  "read_string fd len s =
     (case allocate (unat (len + 1)) s of (granted, s) \<Rightarrow>
      if \<not> granted then Exit EXIT_FAILURE
      else case read_fd fd (unat len) s of (n, bs, s) \<Rightarrow>
        if length bs > unat (len + 1) then Undefined
        else Ret (n = sint len, bs, s))"

definition receive_request :: "int \<Rightarrow> server \<Rightarrow> (bool \<times> request \<times> server) run" where
  "receive_request fd s =
     (let request = default_request in
      case read_fd fd 4 s of (n, bs, s) \<Rightarrow>
      if n \<noteq> 4 then Ret (False, request, s)
      else let request = request\<lparr>rq_action := dec_u32 bs\<rparr> in
      case read_fd fd 8 s of (n, bs, s) \<Rightarrow>
      if n \<noteq> 8 then Ret (False, request, s)
      else let request = request\<lparr>rq_username_length := dec_u64 bs\<rparr> in
      case read_fd fd 8 s of (n, bs, s) \<Rightarrow>
      if n \<noteq> 8 then Ret (False, request, s)
      else let request = request\<lparr>rq_data_size := dec_u64 bs\<rparr> in
      bind_run (if 0 < rq_username_length request then
                  bind_run (read_string fd (rq_username_length request) s)
                    (\<lambda>(complete, bs, s). Ret (complete, request\<lparr>rq_username := Some bs\<rparr>, s))
                else Ret (True, request, s))
        (\<lambda>(complete, request, s).
           if \<not> complete then Ret (False, request, s)
           else if 0 < rq_data_size request then
             bind_run (read_string fd (rq_data_size request) s)
               (\<lambda>(complete, bs, s). Ret (complete, request\<lparr>rq_data := Some bs\<rparr>, s))
           else Ret (True, request, s)))"

definition write_fd :: "int \<Rightarrow> byte list \<Rightarrow> server \<Rightarrow> int \<times> server" where
  "write_fd fd bs s = (case safe_write fd bs (sv_host s) of (n, h) \<Rightarrow> (n, s\<lparr>sv_host := h\<rparr>))"

text \<open>The data of a response must have \<open>data_size\<close> bytes.\<close>

definition send_response :: "int \<Rightarrow> response \<Rightarrow> server \<Rightarrow> (bool \<times> server) run" where
  "send_response fd response s =
     (case write_fd fd (enc_u32 (word_of_int (rs_code response))) s of (n, s) \<Rightarrow>
      if n \<noteq> 4 then Ret (False, s)
      else case write_fd fd (enc_u64 (rs_data_size response)) s of (n, s) \<Rightarrow>
      if n \<noteq> 8 then Ret (False, s)
      else if 0 < rs_data_size response then
        (case rs_data response of
           None \<Rightarrow> Undefined
         | Some bs \<Rightarrow>
             if length bs < unat (rs_data_size response) then Undefined
             else case write_fd fd (take (unat (rs_data_size response)) bs) s of (n, s) \<Rightarrow>
               Ret (n = sint (rs_data_size response), s))
      else Ret (True, s))"

section \<open>Poll sets\<close>

fun find_fd_from :: "pollfd list \<Rightarrow> int \<Rightarrow> nat \<Rightarrow> int" where
  "find_fd_from [] fd i = -1"
| "find_fd_from (p # ps) fd i = (if pf_fd p = fd then int i else find_fd_from ps fd (i + 1))"

definition find_fd_in_pollset :: "poll_set \<Rightarrow> int \<Rightarrow> int" where
  "find_fd_in_pollset p fd = find_fd_from (take (ps_size p) (ps_set p)) fd 0"

text \<open>Adding a connection to the poll set of thread \<open>t\<close>.\<close>

definition add_to_pollset :: "nat \<Rightarrow> poll_set \<Rightarrow> int \<Rightarrow> int \<Rightarrow> server \<Rightarrow> poll_set \<times> server" where
  "add_to_pollset t p notification_fd connfd s =
     (let s = pthread_mutex_lock (Poll_mutex t) s in
      if ps_size p \<ge> CLIENTS_PER_THREAD then (p, close_fd connfd (pthread_mutex_unlock (Poll_mutex t) s))
      else let i = ps_size p;
               p = p\<lparr>ps_set := (ps_set p)[i := \<lparr>pf_fd = connfd, pf_events = POLLIN, pf_revents = 0\<rparr>],
                     ps_active_users := (ps_active_users p)[i := None], ps_size := i + 1\<rparr>;
               s = pthread_mutex_unlock (Poll_mutex t) s
           in (p, notify_pollset notification_fd s))"

text \<open>The last entry takes the place of the one that is removed.\<close>

definition drop_entry :: "nat \<Rightarrow> poll_set \<Rightarrow> poll_set" where
  "drop_entry i p =
     (let last_i = ps_size p - 1;
          p = (if i \<noteq> last_i then
                 p\<lparr>ps_set := (ps_set p)[i := ps_set p ! last_i],
                   ps_active_users := (ps_active_users p)[i := ps_active_users p ! last_i]\<rparr>
               else p)
      in p\<lparr>ps_set := (ps_set p)[last_i := \<lparr>pf_fd = -1, pf_events = 0, pf_revents = 0\<rparr>],
           ps_active_users := (ps_active_users p)[last_i := None], ps_size := last_i\<rparr>)"

definition remove_from_pollset :: "thread_data \<Rightarrow> nat \<Rightarrow> server \<Rightarrow> thread_data \<times> nat \<times> server" where
  "remove_from_pollset data i s =
     (let p = td_poll_set data in
      if i \<ge> ps_size p then (data, i, s)
      else let s = deactivate_user (ps_active_users p ! i) s;
               s = close_fd (pf_fd (ps_set p ! i)) s
           in (data\<lparr>td_poll_set := drop_entry i p\<rparr>, if 0 < i then i - 1 else i, s))"

definition remove_fd_from_pollset :: "thread_data \<Rightarrow> int \<Rightarrow> server \<Rightarrow> thread_data \<times> server" where
  "remove_fd_from_pollset data fd s =
     (let m = Poll_mutex (td_thread_index data);
          s = pthread_mutex_lock m s;
          i = find_fd_in_pollset (td_poll_set data) fd
      in if 0 \<le> i then
           (case remove_from_pollset data (nat i) s of (data, _, s) \<Rightarrow> (data, pthread_mutex_unlock m s))
         else (data, pthread_mutex_unlock m s))"

section \<open>The worker\<close>

definition set_active_user :: "nat \<Rightarrow> cstring option \<Rightarrow> thread_data \<Rightarrow> thread_data" where
  "set_active_user i name data =
     data\<lparr>td_poll_set := (td_poll_set data)
        \<lparr>ps_active_users := (ps_active_users (td_poll_set data))[i := name]\<rparr>\<rparr>"

text \<open>
  One client descriptor that is ready. The handler writes through the pointer into the poll set, so the
  slot it leaves is stored back.
\<close>

definition serve_client :: "crypto \<Rightarrow> int \<Rightarrow> thread_data \<Rightarrow> server \<Rightarrow> (thread_data \<times> server) run" where
  "serve_client c fd data s =
     bind_run (receive_request fd s) (\<lambda>(received, request, s).
       if \<not> received then Ret (remove_fd_from_pollset data fd s)
       else let m = Poll_mutex (td_thread_index data);
                s = pthread_mutex_lock m s;
                actual_i = find_fd_in_pollset (td_poll_set data) fd;
                s = pthread_mutex_unlock m s
       in if actual_i < 0 then Ret (data, s)
          else bind_run (handle_request c request (Some (ps_active_users (td_poll_set data) ! nat actual_i)) s)
            (\<lambda>(code, response, active_user, s).
               let data = set_active_user (nat actual_i) (the active_user) data
               in bind_run (send_response fd response s) (\<lambda>(sent, s).
                    if \<not> sent then Ret (remove_fd_from_pollset data fd s) else Ret (data, s))))"

definition serve_event :: "crypto \<Rightarrow> pollfd \<Rightarrow> thread_data \<Rightarrow> server \<Rightarrow> (thread_data \<times> server) run" where
  "serve_event c p data s =
     (if pf_revents p AND (POLLERR OR POLLHUP OR POLLNVAL) \<noteq> 0 then Ret (remove_fd_from_pollset data (pf_fd p) s)
      else serve_client c (pf_fd p) data s)"

text \<open>The loop over the polled copy of the set.\<close>

fun serve_events :: "crypto \<Rightarrow> bool \<Rightarrow> pollfd list \<Rightarrow> nat \<Rightarrow> thread_data \<Rightarrow> server \<Rightarrow> (thread_data \<times> server) run" where
  "serve_events c sigint_received [] poll_result data s = Ret (data, s)"
| "serve_events c sigint_received (p # ps) poll_result data s =
     (if poll_result = 0 then Ret (data, s)
      else if pf_revents p = 0 then serve_events c sigint_received ps poll_result data s
      else if pf_fd p = td_pipe_out_fd data then
        (case host_read (td_pipe_out_fd data) 64 (sv_host s) of (n_read, bs, h) \<Rightarrow>
         if n_read = 0 \<and> sigint_received then Ret (data, s\<lparr>sv_host := h\<rparr>)
         else serve_events c sigint_received ps (poll_result - 1) data (s\<lparr>sv_host := h\<rparr>))
      else bind_run (serve_event c p data s)
             (\<lambda>(data, s). serve_events c sigint_received ps (poll_result - 1) data s))"

text \<open>
  What one turn of the loop of a thread meets: whether the signal has come when the turn starts, what
  \<open>poll\<close> returns (interrupted, failed, or the events of the entries), and whether the signal has come
  when the events are served. The list of turns is as long as the thread is observed.
\<close>

datatype poll_outcome = Poll_interrupted | Poll_failed | Poll_ready "16 word list"

datatype turn = Turn (turn_stop: bool) (turn_poll: poll_outcome) (turn_signal: bool)

definition local_set :: "poll_set \<Rightarrow> 16 word list \<Rightarrow> pollfd list" where
  "local_set p revents = map2 (\<lambda>entry r. entry\<lparr>pf_revents := r\<rparr>) (take (ps_size p) (ps_set p)) revents"

fun thread_func :: "crypto \<Rightarrow> turn list \<Rightarrow> thread_data \<Rightarrow> server \<Rightarrow> (thread_data \<times> server) run" where
  "thread_func c [] data s = Ret (data, s)"
| "thread_func c (t # turns) data s =
     (if turn_stop t then Ret (data, s)
      else let m = Poll_mutex (td_thread_index data);
               s = pthread_mutex_lock m s;
               s = pthread_mutex_unlock m s
      in case turn_poll t of
           Poll_interrupted \<Rightarrow> thread_func c turns data s
         | Poll_failed \<Rightarrow> Ret (data, s)
         | Poll_ready revents \<Rightarrow>
             let entries = local_set (td_poll_set data) revents
             in bind_run (serve_events c (turn_signal t) entries (length (filter (\<lambda>p. pf_revents p \<noteq> 0) entries)) data s)
                  (\<lambda>(data, s). thread_func c turns data s))"

section \<open>The main thread\<close>

text \<open>The threads are created with the pipes that the kernel made for them.\<close>

fun start_threads :: "(int \<times> int) list \<Rightarrow> nat \<Rightarrow> server \<Rightarrow> (thread_data list \<times> server) run" where
  "start_threads [] i s = Ret ([], s)"
| "start_threads ((rd, wr) # pipe_fds) i s =
     bind_run (create_poll_set rd s) (\<lambda>(p, s).
       bind_run (start_threads pipe_fds (i + 1) s) (\<lambda>(data_arr, s).
         Ret (\<lparr>td_thread_index = i, td_poll_set = p, td_pipe_out_fd = rd\<rparr> # data_arr, s)))"

definition server_start :: "(int \<times> int) list \<Rightarrow> server \<Rightarrow> (thread_data list \<times> server) run" where
  "server_start pipe_fds s =
     bind_run (setup_users s) (\<lambda>s. bind_run (default_seats s) (\<lambda>s. start_threads pipe_fds 0 s))"

text \<open>
  One turn of the loop of the main thread, by what \<open>poll\<close> reports: standard input, or a connection that
  \<open>accept\<close> returned. The search for a poll set with room repeats until there is one; \<open>None\<close> says that
  there is none now.
\<close>

definition accept_client :: "(int \<times> int) list \<Rightarrow> int \<Rightarrow> thread_data list \<Rightarrow> server \<Rightarrow> (thread_data list \<times> server) option" where
  "accept_client pipe_fds connfd data_arr s =
     (case find_suitable_pollset data_arr s of (i, s) \<Rightarrow>
      if i = -1 then None
      else let d = data_arr ! nat i in
        case add_to_pollset (nat i) (td_poll_set d) (snd (pipe_fds ! nat i)) connfd s of (p, s) \<Rightarrow>
          Some (data_arr[nat i := d\<lparr>td_poll_set := p\<rparr>], s))"


text \<open>
  What \<open>poll\<close> reports to the main thread; \<open>accept\<close> returns a descriptor, or a negative value with an
  error. The result says whether the thread sends itself the signal.
\<close>

datatype main_event = Main_interrupted | Main_failed
  | Main_ready (me_stdin: bool) (me_listen: bool) (me_accepted: int) (me_errno: errno)

definition main_turn ::
  "(int \<times> int) list \<Rightarrow> main_event \<Rightarrow> thread_data list \<Rightarrow> server \<Rightarrow> (bool \<times> thread_data list \<times> server) run option" where
  "main_turn pipe_fds event data_arr s =
     (case event of
        Main_interrupted \<Rightarrow> Some (Ret (False, data_arr, s))
      | Main_failed \<Rightarrow> Some (Exit EXIT_FAILURE)
      | Main_ready stdin_ready listen_ready connfd err \<Rightarrow>
          if stdin_ready then
            (case check_stdin_for_termination s of (should_exit, s) \<Rightarrow> Some (Ret (should_exit, data_arr, s)))
          else if listen_ready then
            (if connfd < 0 then (if err = EINTR then Some (Ret (False, data_arr, s)) else Some (Exit EXIT_FAILURE))
             else map_option (\<lambda>(data_arr, s). Ret (False, data_arr, s)) (accept_client pipe_fds connfd data_arr s))
          else Some (Ret (False, data_arr, s)))"

end
