(* ===== verification/Pa3_Session.thy ===== *)
theory Pa3_Session
  imports Pa3_Refine Pa3_Worker
begin

text \<open>
  The dispatcher against its specification; the contract by which the worker uses a handler, as a locale
  that every handler interprets; and the whole server as a transition system, with the invariant that
  its poll sets and sessions agree with the users who are logged in.
\<close>

section \<open>The dispatcher\<close>

definition spec_handle ::
  "crypto \<Rightarrow> cstring \<Rightarrow> request \<Rightarrow> cstring option \<Rightarrow> booking \<Rightarrow> int \<times> response \<times> cstring option \<times> booking" where
  "spec_handle c hash r a b =
     (let act = rq_action r in
      if act = action_value ACTION_LOGIN then
        (case spec_login c hash r a b of (e, a', b') \<Rightarrow> (login_code e, set_response (login_code e), a', b'))
      else if act = action_value ACTION_BOOK then
        (case spec_book r a b of (e, b') \<Rightarrow> (book_code e, set_response (book_code e), a, b'))
      else if act = action_value ACTION_CONFIRM_BOOKING then
        (case spec_confirm r a b of (e, vs) \<Rightarrow> (confirm_code e,
           if e = CONFIRM_BOOKING_ERROR_SUCCESS then seats_response vs else set_response (confirm_code e), a, b))
      else if act = action_value ACTION_CANCEL_BOOKING then
        (case spec_cancel r a b of (e, b') \<Rightarrow> (cancel_code e, set_response (cancel_code e), a, b'))
      else if act = action_value ACTION_LOGOUT then
        (case spec_logout r a b of (e, a', b') \<Rightarrow> (logout_code e, set_response (logout_code e), a', b'))
      else if act = action_value ACTION_QUERY then
        (case spec_query r b of (e, st) \<Rightarrow> (query_code e,
           case st of None \<Rightarrow> set_response (query_code e) | Some x \<Rightarrow> stats_response x, a, b))
      else (-1, set_response (-1), a, b))"

text \<open>How a request may change the session of its client and the set of users who are logged in.\<close>

definition session_change :: "cstring option \<Rightarrow> cstring set \<Rightarrow> cstring option \<Rightarrow> cstring set \<Rightarrow> bool" where
  "session_change a on a' on' \<longleftrightarrow> a' = a \<and> on' = on
     \<or> (\<exists>n. a = None \<and> a' = Some n \<and> n \<notin> on \<and> on' = insert n on)
     \<or> (\<exists>n. a = Some n \<and> a' = None \<and> on' = on - {n})"

lemma session_change_same [simp]: "session_change a on a on"
  by (simp add: session_change_def)

locale session_handler =
  fixes handle :: "request \<Rightarrow> slot \<Rightarrow> server \<Rightarrow> reply run"
  assumes keeps: "server_ok s \<Longrightarrow> handle r (Some a) s = Ret (code, resp, sl, s') \<Longrightarrow>
    server_ok s' \<and> (\<exists>a'. sl = Some a' \<and> session_change a (online s) a' (online s'))"

text \<open>Sessions by position: no user has two, and those who have one are those who are logged in.\<close>

definition part_inj :: "('a \<rightharpoonup> 'b) \<Rightarrow> bool" where
  "part_inj m \<longleftrightarrow> inj_on m (dom m)"

lemma part_injI: "(\<And>k l x. m k = Some x \<Longrightarrow> m l = Some x \<Longrightarrow> k = l) \<Longrightarrow> part_inj m"
  by (auto simp: part_inj_def inj_on_def)

lemma part_injD: "part_inj m \<Longrightarrow> m k = Some x \<Longrightarrow> m l = Some x \<Longrightarrow> k = l"
  unfolding part_inj_def by (rule inj_onD [of m "dom m"]) auto

definition sessions_ok :: "('a \<rightharpoonup> cstring) \<Rightarrow> cstring set \<Rightarrow> bool" where
  "sessions_ok m on \<longleftrightarrow> part_inj m \<and> ran m = on"

lemma sessions_ok_change:
  assumes ok: "sessions_ok m on" and k: "m k = a" and ch: "session_change a on a' on'"
  shows "sessions_ok (m(k := a')) on'"
proof -
  have inj: "part_inj m" and ran: "ran m = on" using ok by (simp_all add: sessions_ok_def)
  consider "a' = a" "on' = on" | n where "a = None" "a' = Some n" "n \<notin> on" "on' = insert n on"
    | n where "a = Some n" "a' = None" "on' = on - {n}"
    using ch by (auto simp: session_change_def)
  then show ?thesis
  proof cases
    case 1
    then have "m(k := a') = m" using k by auto
    then show ?thesis using ok 1 by simp
  next
    case 2
    have "part_inj (m(k \<mapsto> n))"
      by (rule part_injI) (use 2 ran part_injD [OF inj] in \<open>auto split: if_splits simp: ranI\<close>)
    then show ?thesis using 2 k ran by (simp add: sessions_ok_def)
  next
    case 3
    have "part_inj (m(k := None))" by (rule part_injI) (use part_injD [OF inj] in \<open>auto split: if_splits\<close>)
    moreover have "x \<in> ran (m(k := None)) \<longleftrightarrow> x \<in> on - {n}" for x
    proof
      assume "x \<in> ran (m(k := None))"
      then obtain l where "l \<noteq> k" "m l = Some x" by (auto simp: ran_def split: if_splits)
      then show "x \<in> on - {n}" using 3 k ran part_injD [OF inj, of k n l] by (auto simp: ranI)
    next
      assume "x \<in> on - {n}"
      then obtain l where l: "m l = Some x" "x \<noteq> n" using ran by (auto simp: ran_def)
      then have "(m(k := None)) l = Some x" using 3 k by auto
      then show "x \<in> ran (m(k := None))" by (rule ranI)
    qed
    then have "ran (m(k := None)) = on - {n}" by blast
    ultimately show ?thesis using 3 by (simp add: sessions_ok_def)
  qed
qed

context session_handler
begin

lemma slot_given: "server_ok s \<Longrightarrow> handle r (Some a) s = Ret (code, resp, sl, s') \<Longrightarrow> sl = Some (the sl)"
  using keeps by fastforce

lemma server_kept: "server_ok s \<Longrightarrow> handle r (Some a) s = Ret (code, resp, sl, s') \<Longrightarrow> server_ok s'"
  using keeps by blast

lemma sessions_kept:
  assumes "server_ok s" and "handle r (Some (m k)) s = Ret (code, resp, sl, s')" and "sessions_ok m (online s)"
  shows "sessions_ok (m(k := the sl)) (online s')"
  using keeps [OF assms(1,2)] sessions_ok_change [OF assms(3) refl] by auto

end

interpretation booker: session_handler handle_book_request
proof
  fix s r a code resp sl s'
  assume "server_ok s" "handle_book_request r (Some a) s = Ret (code, resp, sl, s')"
  from handle_book_refines [OF this] show "server_ok s' \<and> (\<exists>a'. sl = Some a' \<and> session_change a (online s) a' (online s'))"
    using online_cong [of s' s] by auto
qed

interpretation canceller: session_handler handle_cancel_booking_request
proof
  fix s r a code resp sl s'
  assume "server_ok s" "handle_cancel_booking_request r (Some a) s = Ret (code, resp, sl, s')"
  from handle_cancel_refines [OF this] show "server_ok s' \<and> (\<exists>a'. sl = Some a' \<and> session_change a (online s) a' (online s'))"
    using online_cong [of s' s] by auto
qed

interpretation confirmer: session_handler handle_confirm_booking_request
proof
  fix s r a code resp sl s'
  assume "server_ok s" "handle_confirm_booking_request r (Some a) s = Ret (code, resp, sl, s')"
  from handle_confirm_refines [OF this] show "server_ok s' \<and> (\<exists>a'. sl = Some a' \<and> session_change a (online s) a' (online s'))"
    using online_cong [of s' s] by auto
qed

interpretation querier: session_handler handle_query_request
proof
  fix s r a code resp sl s'
  assume "server_ok s" "handle_query_request r (Some a) s = Ret (code, resp, sl, s')"
  from handle_query_refines [OF this] show "server_ok s' \<and> (\<exists>a'. sl = Some a' \<and> session_change a (online s) a' (online s'))"
    using online_cong [of s' s] by auto
qed

lemma spec_login_session:
  assumes "spec_login c hash r a b = (e, a', b')"
  shows "if e = LOGIN_ERROR_SUCCESS then a = None \<and> a' = Some (request_username r) else a' = a"
  using assms by (auto simp: spec_login_def Let_def split: if_splits option.splits prod.splits)

lemma spec_logout_session:
  assumes "spec_logout r a b = (e, a', b')"
  shows "if e = LOGOUT_ERROR_SUCCESS then a = Some (request_username r) \<and> a' = None else a' = a"
  using assms by (auto simp: spec_logout_def Let_def split: if_splits option.splits prod.splits)

lemma login_session:
  assumes "server_ok s" and "handle_login_request c r (Some a) s = Ret (code, resp, sl, s')"
  shows "server_ok s' \<and> (\<exists>a'. sl = Some a' \<and> session_change a (online s) a' (online s'))"
proof -
  note ref = handle_login_refines [OF assms]
  from ref obtain salt e a' where sp: "spec_login c (take 127 (argon2_hash c (request_data r) salt)) r a (abs s) = (e, a', abs s')"
    and sl: "sl = Some a'"
    and on: "online s' = (if e = LOGIN_ERROR_SUCCESS then insert (request_username r) (online s) else online s)"
    and new: "e = LOGIN_ERROR_SUCCESS \<longrightarrow> request_username r \<notin> online s" by blast
  have "session_change a (online s) a' (online s')"
    using spec_login_session [OF sp] on new by (auto simp: session_change_def split: if_splits)
  then show ?thesis using ref sl by simp
qed

lemma logout_session:
  assumes "server_ok s" and "handle_logout_request r (Some a) s = Ret (code, resp, sl, s')"
  shows "server_ok s' \<and> (\<exists>a'. sl = Some a' \<and> session_change a (online s) a' (online s'))"
proof -
  note ref = handle_logout_refines [OF assms]
  from ref obtain e a' where sp: "spec_logout r a (abs s) = (e, a', abs s')" and sl: "sl = Some a'"
    and on: "online s' = (if e = LOGOUT_ERROR_SUCCESS then online s - {request_username r} else online s)" by blast
  have "session_change a (online s) a' (online s')"
    using spec_logout_session [OF sp] on by (auto simp: session_change_def split: if_splits)
  then show ?thesis using ref sl by simp
qed

interpretation login: session_handler "handle_login_request c" for c
  by unfold_locales (rule login_session)

interpretation logout: session_handler handle_logout_request
  by unfold_locales (rule logout_session)

text \<open>The handler that a request reaches.\<close>

lemma handle_request_elim:
  assumes "handle_request c r a s = Ret (code, resp, sl, s')"
  obtains (login) "rq_action r = action_value ACTION_LOGIN" "handle_login_request c r a s = Ret (code, resp, sl, s')"
  | (book) "rq_action r = action_value ACTION_BOOK" "handle_book_request r a s = Ret (code, resp, sl, s')"
  | (confirm) "rq_action r = action_value ACTION_CONFIRM_BOOKING" "handle_confirm_booking_request r a s = Ret (code, resp, sl, s')"
  | (cancel) "rq_action r = action_value ACTION_CANCEL_BOOKING" "handle_cancel_booking_request r a s = Ret (code, resp, sl, s')"
  | (logout) "rq_action r = action_value ACTION_LOGOUT" "handle_logout_request r a s = Ret (code, resp, sl, s')"
  | (query) "rq_action r = action_value ACTION_QUERY" "handle_query_request r a s = Ret (code, resp, sl, s')"
  | (invalid) "rq_action r \<notin> action_value ` {ACTION_LOGIN, ACTION_BOOK, ACTION_CONFIRM_BOOKING, ACTION_CANCEL_BOOKING, ACTION_LOGOUT, ACTION_QUERY}"
      "code = -1" "resp = set_response (-1)" "sl = a" "s' = s"
  using assms unfolding handle_request_def Let_def by (auto simp del: action_value.simps split: if_splits)

lemma handle_request_session:
  assumes ok: "server_ok s" and h: "handle_request c r (Some a) s = Ret (code, resp, sl, s')"
  shows "server_ok s' \<and> (\<exists>a'. sl = Some a' \<and> session_change a (online s) a' (online s'))"
  using h
proof (cases rule: handle_request_elim)
  case login
  then show ?thesis by (intro login.keeps [OF ok])
next
  case book
  then show ?thesis by (intro booker.keeps [OF ok])
next
  case confirm
  then show ?thesis by (intro confirmer.keeps [OF ok])
next
  case cancel
  then show ?thesis by (intro canceller.keeps [OF ok])
next
  case logout
  then show ?thesis by (intro logout.keeps [OF ok])
next
  case query
  then show ?thesis by (intro querier.keeps [OF ok])
next
  case invalid
  then show ?thesis using ok by simp
qed

interpretation dispatcher: session_handler "handle_request c" for c
  by unfold_locales (rule handle_request_session)

lemma handle_request_refines:
  assumes ok: "server_ok s" and h: "handle_request c r (Some a) s = Ret (code, resp, sl, s')"
  shows "server_ok s' \<and> (\<exists>salt a'. sl = Some a'
    \<and> spec_handle c (take 127 (argon2_hash c (request_data r) salt)) r a (abs s) = (code, resp, a', abs s'))"
proof -
  note sv = dispatcher.server_kept [OF ok h]
  show ?thesis
    using h
  proof (cases rule: handle_request_elim)
    case login
    from handle_login_refines [OF ok login(2)] obtain salt e a' where
      "spec_login c (take 127 (argon2_hash c (request_data r) salt)) r a (abs s) = (e, a', abs s')"
      "code = login_code e" "resp = set_response code" "sl = Some a'" by blast
    then have "sl = Some a' \<and> spec_handle c (take 127 (argon2_hash c (request_data r) salt)) r a (abs s) = (code, resp, a', abs s')"
      using login(1) by (simp add: spec_handle_def Let_def)
    then show ?thesis using sv by blast
  next
    case book
    from handle_book_refines [OF ok book(2)] show ?thesis using book(1) sv by (auto simp: spec_handle_def Let_def)
  next
    case confirm
    from handle_confirm_refines [OF ok confirm(2)] show ?thesis using confirm(1) sv by (auto simp: spec_handle_def Let_def)
  next
    case cancel
    from handle_cancel_refines [OF ok cancel(2)] show ?thesis using cancel(1) sv by (auto simp: spec_handle_def Let_def)
  next
    case logout
    from handle_logout_refines [OF ok logout(2)] show ?thesis using logout(1) sv by (auto simp: spec_handle_def Let_def)
  next
    case query
    from handle_query_refines [OF ok query(2)] show ?thesis using query(1) sv by (auto simp: spec_handle_def Let_def)
  next
    case invalid
    then show ?thesis using sv by (auto simp: spec_handle_def Let_def)
  qed
qed

end
