(* ===== verification/Pa3_System.thy ===== *)
theory Pa3_System
  imports Pa3_Session
begin

text \<open>
  The server as a transition system: its steps are the turns of the main loop and the service of one
  ready descriptor by the worker that polls it. The invariant ties poll sets, sessions and accounts.
\<close>

section \<open>Positions in the poll sets\<close>

definition place :: "(poll_set \<Rightarrow> nat \<Rightarrow> 'a option) \<Rightarrow> thread_data list \<Rightarrow> nat \<times> nat \<rightharpoonup> 'a" where
  "place f D = (\<lambda>(t, i). if t < length D \<and> i < ps_size (td_poll_set (D ! t)) then f (td_poll_set (D ! t)) i else None)"

definition fd_at :: "poll_set \<Rightarrow> nat \<Rightarrow> int option" where
  "fd_at p i = Some (pf_fd (ps_set p ! i))"

definition user_at :: "poll_set \<Rightarrow> nat \<Rightarrow> cstring option" where
  "user_at p i = ps_active_users p ! i"

definition pollset_ok :: "thread_data \<Rightarrow> bool" where
  "pollset_ok d \<longleftrightarrow> (let p = td_poll_set d in 1 \<le> ps_size p \<and> ps_size p \<le> CLIENTS_PER_THREAD
     \<and> length (ps_set p) = CLIENTS_PER_THREAD \<and> length (ps_active_users p) = CLIENTS_PER_THREAD
     \<and> pf_fd (ps_set p ! 0) = td_pipe_out_fd d \<and> ps_active_users p ! 0 = None)"

definition system_ok :: "thread_data list \<Rightarrow> server \<Rightarrow> bool" where
  "system_ok D s \<longleftrightarrow> server_ok s \<and> (\<forall>d\<in>set D. pollset_ok d) \<and> part_inj (place fd_at D)
     \<and> sessions_ok (place user_at D) (online s)"

text \<open>Removing an entry moves the last one to its place.\<close>

lemma part_inj_move:
  assumes "part_inj m"
  shows "part_inj (m(k := m l, l := None))" "ran (m(k := m l, l := None)) = ran (m(k := None))"
proof -
  show "part_inj (m(k := m l, l := None))"
    by (rule part_injI) (use part_injD [OF assms] in \<open>auto split: if_splits\<close>)
  show "ran (m(k := m l, l := None)) = ran (m(k := None))"
  proof (rule set_eqI)
    fix x
    have "x \<in> ran (m(k := m l, l := None)) \<longleftrightarrow> (\<exists>j. j \<noteq> k \<and> m j = Some x)"
      by (auto simp: ran_def split: if_splits)
    also have "\<dots> \<longleftrightarrow> x \<in> ran (m(k := None))" by (auto simp: ran_def split: if_splits)
    finally show "x \<in> ran (m(k := m l, l := None)) \<longleftrightarrow> x \<in> ran (m(k := None))" .
  qed
qed

lemma sessions_ok_move:
  assumes "sessions_ok m on" and "on' = (case m k of None \<Rightarrow> on | Some n \<Rightarrow> on - {n})"
  shows "sessions_ok (m(k := m l, l := None)) on'"
proof -
  have "session_change (m k) on None on'" using assms(2) by (auto simp: session_change_def split: option.splits)
  then have "ran (m(k := None)) = on'" using sessions_ok_change [OF assms(1) refl, of k None on'] by (simp add: sessions_ok_def)
  then show ?thesis using part_inj_move [of m] assms(1) by (simp add: sessions_ok_def)
qed

lemma place_update:
  assumes "t < length D"
  shows "place f (D[t := d]) (u, i) = (if u = t then (if i < ps_size (td_poll_set d) then f (td_poll_set d) i else None) else place f D (u, i))"
  using assms by (auto simp: place_def)

definition entrywise :: "(poll_set \<Rightarrow> nat \<Rightarrow> 'a option) \<Rightarrow> bool" where
  "entrywise f \<longleftrightarrow> (\<forall>p i j. i < ps_size p \<longrightarrow> ps_size p \<le> length (ps_set p) \<longrightarrow> ps_size p \<le> length (ps_active_users p)
     \<longrightarrow> j < ps_size p - 1 \<longrightarrow> f (drop_entry i p) j = (if j = i then f p (ps_size p - 1) else f p j))"

lemma entrywise_fields: "entrywise fd_at" "entrywise user_at"
  by (auto simp: entrywise_def drop_entry_def Let_def fd_at_def user_at_def)

lemma place_drop:
  assumes t: "t < length D" and p: "pollset_ok (D ! t)" and i: "i < ps_size (td_poll_set (D ! t))"
    and d: "td_poll_set d = drop_entry i (td_poll_set (D ! t))" and f: "entrywise f"
  shows "place f (D[t := d]) = (place f D)((t, i) := place f D (t, ps_size (td_poll_set (D ! t)) - 1),
    (t, ps_size (td_poll_set (D ! t)) - 1) := None)"
proof (rule ext)
  fix k :: "nat \<times> nat"
  obtain u j where k: "k = (u, j)" by force
  let ?p = "td_poll_set (D ! t)"
  have len: "ps_size ?p \<le> length (ps_set ?p)" "ps_size ?p \<le> length (ps_active_users ?p)"
    using p by (simp_all add: pollset_ok_def Let_def)
  have sz: "ps_size (drop_entry i ?p) = ps_size ?p - 1" by (simp add: drop_entry_def Let_def)
  have dr: "j < ps_size ?p - 1 \<Longrightarrow> f (drop_entry i ?p) j = (if j = i then f ?p (ps_size ?p - 1) else f ?p j)" for j
    using f i len by (simp add: entrywise_def)
  show "place f (D[t := d]) k = ((place f D)((t, i) := place f D (t, ps_size ?p - 1), (t, ps_size ?p - 1) := None)) k"
    unfolding k place_update [OF t] d sz using i t dr by (auto simp: place_def)
qed

lemma place_point:
  assumes t: "t < length D" and "ps_size (td_poll_set d) = ps_size (td_poll_set (D ! t))"
    and "i < ps_size (td_poll_set (D ! t))" and "f (td_poll_set d) i = x"
    and "\<And>j. j < ps_size (td_poll_set (D ! t)) \<Longrightarrow> j \<noteq> i \<Longrightarrow> f (td_poll_set d) j = f (td_poll_set (D ! t)) j"
  shows "place f (D[t := d]) = (place f D)((t, i) := x)"
proof (rule ext)
  fix k :: "nat \<times> nat"
  obtain u j where k: "k = (u, j)" by force
  show "place f (D[t := d]) k = ((place f D)((t, i) := x)) k"
    unfolding k place_update [OF t] using assms by (auto simp: place_def)
qed

lemma place_grow:
  assumes t: "t < length D" and "ps_size (td_poll_set d) = Suc (ps_size (td_poll_set (D ! t)))"
    and "f (td_poll_set d) (ps_size (td_poll_set (D ! t))) = x"
    and "\<And>j. j < ps_size (td_poll_set (D ! t)) \<Longrightarrow> f (td_poll_set d) j = f (td_poll_set (D ! t)) j"
  shows "place f (D[t := d]) = (place f D)((t, ps_size (td_poll_set (D ! t))) := x)"
proof (rule ext)
  fix k :: "nat \<times> nat"
  obtain u j where k: "k = (u, j)" by force
  show "place f (D[t := d]) k = ((place f D)((t, ps_size (td_poll_set (D ! t))) := x)) k"
    unfolding k place_update [OF t] using assms by (auto simp: place_def)
qed

section \<open>What the pieces do to the server state\<close>

definition same_books :: "server \<Rightarrow> server \<Rightarrow> bool" where
  "same_books s s' \<longleftrightarrow> sv_users s' = sv_users s \<and> sv_seats s' = sv_seats s"

lemma same_books_refl [simp]: "same_books s s"
  by (simp add: same_books_def)

lemma same_books_host [simp]: "same_books s (s'\<lparr>sv_host := h\<rparr>) = same_books s s'"
  by (simp add: same_books_def)

lemma same_books_locks [simp]:
  "same_books s (pthread_mutex_lock m s') = same_books s s'" "same_books s (pthread_mutex_unlock m s') = same_books s s'"
  by (simp_all add: same_books_def)

lemma books_locks [simp]:
  "online (pthread_mutex_lock m s) = online s" "online (pthread_mutex_unlock m s) = online s"
  "server_ok (pthread_mutex_lock m s) = server_ok s" "server_ok (pthread_mutex_unlock m s) = server_ok s"
  by (simp_all add: online_def server_ok_def user_names_def)

lemma same_books_trans: "same_books s s1 \<Longrightarrow> same_books s1 s2 \<Longrightarrow> same_books s s2"
  by (simp add: same_books_def)

lemma same_books_close [simp]: "same_books s (close_fd fd s') = same_books s s'"
  by (simp add: close_fd_def split: prod.splits)

lemma same_books_notify [simp]: "same_books s (notify_pollset fd s') = same_books s s'"
  by (simp add: notify_pollset_def split: prod.splits)

text \<open>Pieces that change nothing but the host.\<close>

definition only_host :: "server \<Rightarrow> server \<Rightarrow> bool" where
  "only_host s s' \<longleftrightarrow> sv_users s' = sv_users s \<and> sv_seats s' = sv_seats s \<and> sv_log s' = sv_log s"

lemma only_host_refl [simp]: "only_host s s"
  by (simp add: only_host_def)

lemma only_host_host [simp]: "only_host s (s'\<lparr>sv_host := h\<rparr>) = only_host s s'"
  by (simp add: only_host_def)

lemma only_host_trans: "only_host s s1 \<Longrightarrow> only_host s1 s2 \<Longrightarrow> only_host s s2"
  by (simp add: only_host_def)

lemma only_host_books: "only_host s s' \<Longrightarrow> same_books s s'"
  by (simp add: only_host_def same_books_def)

lemma only_host_close: "only_host s (close_fd fd s)"
  by (simp add: close_fd_def split: prod.splits)

lemma only_host_notify: "only_host s (notify_pollset fd s)"
  by (simp add: notify_pollset_def split: prod.splits)

lemma only_host_read_fd: "read_fd fd n s = (k, bs, s') \<Longrightarrow> only_host s s'"
  by (auto simp: read_fd_def split: prod.splits)

lemma only_host_write_fd: "write_fd fd bs s = (k, s') \<Longrightarrow> only_host s s'"
  by (auto simp: write_fd_def split: prod.splits)

lemma only_host_allocate: "allocate n s = (g, s') \<Longrightarrow> only_host s s'"
  using allocate_same by (simp add: only_host_def)

lemma only_host_read_string: "read_string fd len s = Ret (b, bs, s') \<Longrightarrow> only_host s s'"
  by (auto simp: read_string_def split: prod.splits if_splits
      dest!: only_host_allocate only_host_read_fd elim: only_host_trans)

lemma only_host_receive:
  assumes "receive_request fd s = Ret (b, r, s')"
  shows "only_host s s'"
proof -
  obtain n1 b1 s1 where r1: "read_fd fd 4 s = (n1, b1, s1)" by (metis prod.exhaust)
  obtain n2 b2 s2 where r2: "read_fd fd 8 s1 = (n2, b2, s2)" by (metis prod.exhaust)
  obtain n3 b3 s3 where r3: "read_fd fd 8 s2 = (n3, b3, s3)" by (metis prod.exhaust)
  note same = r1 [THEN only_host_read_fd] r2 [THEN only_host_read_fd] r3 [THEN only_host_read_fd]
  have "only_host s1 s2" "only_host s s1" "only_host s s2" "only_host s s3" using same by (auto simp: only_host_def)
  moreover have "s' = s1 \<or> s' = s2 \<or> s' = s3 \<or> only_host s3 s'"
  proof (cases "n1 = 4 \<and> n2 = 8 \<and> n3 = 8")
    case False
    then show ?thesis using assms unfolding receive_request_def Let_def r1 r2 r3 prod.case by (auto simp: r2 r3 split: if_splits)
  next
    case True
    obtain c rq s4 where
      f: "(if 0 < dec_u64 b2 then bind_run (read_string fd (dec_u64 b2) s3)
             (\<lambda>(complete, bs, s). Ret (complete, default_request\<lparr>rq_action := dec_u32 b1, rq_username_length := dec_u64 b2,
                rq_data_size := dec_u64 b3, rq_username := Some bs\<rparr>, s))
           else Ret (True, default_request\<lparr>rq_action := dec_u32 b1, rq_username_length := dec_u64 b2,
                rq_data_size := dec_u64 b3\<rparr>, s3)) = Ret (c, rq, s4)"
      and g: "(if \<not> c then Ret (False, rq, s4)
           else if 0 < rq_data_size rq then
             bind_run (read_string fd (rq_data_size rq) s4) (\<lambda>(complete, bs, s). Ret (complete, rq\<lparr>rq_data := Some bs\<rparr>, s))
           else Ret (True, rq, s4)) = Ret (b, r, s')"
      using assms True unfolding receive_request_def Let_def r1 r2 r3 prod.case
      by (auto simp: r2 r3 bind_run_Ret split: if_splits)
    have "only_host s3 s4" using f by (auto simp: bind_run_Ret dest: only_host_read_string split: if_splits)
    moreover have "only_host s4 s'" using g by (auto simp: bind_run_Ret dest: only_host_read_string split: if_splits)
    ultimately show ?thesis by (auto simp: only_host_def)
  qed
  ultimately show ?thesis by (auto simp: only_host_def)
qed

lemma only_host_send:
  assumes "send_response fd r s = Ret (b, s')"
  shows "only_host s s'"
proof -
  obtain n1 s1 where w1: "write_fd fd (enc_u32 (word_of_int (rs_code r))) s = (n1, s1)" by force
  obtain n2 s2 where w2: "write_fd fd (enc_u64 (rs_data_size r)) s1 = (n2, s2)" by force
  obtain n3 s3 where w3: "write_fd fd (take (unat (rs_data_size r)) (the (rs_data r))) s2 = (n3, s3)" by force
  note same = w1 [THEN only_host_write_fd] w2 [THEN only_host_write_fd] w3 [THEN only_host_write_fd]
  note u = assms [unfolded send_response_def w1 prod.case w2]
  consider "n1 \<noteq> 4" | "n1 = 4" "n2 \<noteq> 8" | "n1 = 4" "n2 = 8" "rs_data_size r = 0" | bs where "n1 = 4" "n2 = 8" "0 < rs_data_size r" "rs_data r = Some bs"
    | "n1 = 4" "n2 = 8" "0 < rs_data_size r" "rs_data r = None" by (metis word_neq_0_conv not_None_eq)
  then have "s' = s1 \<or> s' = s2 \<or> s' = s3"
  proof cases
    case 1
    then show ?thesis using u by simp
  next
    case 2
    then show ?thesis using u by simp
  next
    case 3
    then show ?thesis using u by simp
  next
    case (4 bs)
    then have "write_fd fd (take (unat (rs_data_size r)) bs) s2 = (n3, s3)" using w3 by simp
    then show ?thesis using u 4 by (simp split: if_splits)
  next
    case 5
    then show ?thesis using u by simp
  qed
  then show ?thesis using same by (auto simp: only_host_def)
qed

lemma system_ok_same:
  assumes "same_books s s'"
  shows "system_ok D s' = system_ok D s"
proof -
  have e: "sv_users s' = sv_users s" "sv_seats s' = sv_seats s" using assms by (simp_all add: same_books_def)
  show ?thesis unfolding system_ok_def server_ok_cong [OF e] online_cong [OF e(1)] ..
qed

lemma deactivate_user_spec:
  assumes ok: "server_ok s"
  shows "server_ok (deactivate_user a s) \<and> sv_seats (deactivate_user a s) = sv_seats s
    \<and> online (deactivate_user a s) = (case a of None \<Rightarrow> online s | Some n \<Rightarrow> online s - {n})"
proof (cases a)
  case None
  then show ?thesis using ok by (simp add: deactivate_user_def)
next
  case (Some n)
  have d: "distinct (map us_username (sv_users s))" using ok by (simp add: server_ok_def)
  show ?thesis
  proof (cases rule: find_user_cases [of s n])
    case none
    have "sv_users (deactivate_user a s) = sv_users s" "sv_seats (deactivate_user a s) = sv_seats s"
      using none(1) Some by (simp_all add: deactivate_user_def Let_def)
    moreover have "n \<notin> online s" using none(2) by (auto simp: online_def user_names_def)
    ultimately show ?thesis
      using ok server_ok_cong [of "deactivate_user a s" s] online_cong [of "deactivate_user a s" s] Some by auto
  next
    case (found i)
    have "sv_users (deactivate_user a s) = sv_users (set_logged_in i False s)"
      "sv_seats (deactivate_user a s) = sv_seats (set_logged_in i False s)"
      using found(1) Some by (simp_all add: deactivate_user_def Let_def)
    then show ?thesis
      using server_ok_cong [of "deactivate_user a s" "set_logged_in i False s"]
        online_cong [of "deactivate_user a s" "set_logged_in i False s"] server_ok_set_logged_in [OF ok found(2), of False]
        online_set [OF d found(2,3), of False] Some by auto
  qed
qed

section \<open>The worker keeps the invariant\<close>

lemma find_fd_from_spec:
  "find_fd_from ps fd k = -1 \<and> (\<forall>i<length ps. pf_fd (ps ! i) \<noteq> fd)
     \<or> (\<exists>i<length ps. find_fd_from ps fd k = int (k + i) \<and> pf_fd (ps ! i) = fd)"
proof (induction ps arbitrary: k)
  case Nil
  then show ?case by simp
next
  case (Cons p ps)
  show ?case
  proof (cases "pf_fd p = fd")
    case True
    then show ?thesis by (intro disjI2 exI [of _ 0]) simp
  next
    case False
    from Cons [of "k + 1"] show ?thesis
    proof (elim disjE exE conjE)
      fix i assume "i < length ps" "find_fd_from ps fd (k + 1) = int (k + 1 + i)" "pf_fd (ps ! i) = fd"
      then show ?thesis using False by (intro disjI2 exI [of _ "Suc i"]) simp
    next
      assume "find_fd_from ps fd (k + 1) = -1" "\<forall>i<length ps. pf_fd (ps ! i) \<noteq> fd"
      then show ?thesis using False by (auto simp: nth_Cons split: nat.split)
    qed
  qed
qed

lemma find_fd_cases:
  assumes "pollset_ok d"
  obtains (none) "find_fd_in_pollset (td_poll_set d) fd = -1"
      and "\<And>i. i < ps_size (td_poll_set d) \<Longrightarrow> pf_fd (ps_set (td_poll_set d) ! i) \<noteq> fd"
  | (found) i where "find_fd_in_pollset (td_poll_set d) fd = int i" and "i < ps_size (td_poll_set d)"
      and "pf_fd (ps_set (td_poll_set d) ! i) = fd"
proof -
  have "ps_size (td_poll_set d) \<le> length (ps_set (td_poll_set d))" using assms by (simp add: pollset_ok_def Let_def)
  then show thesis
    using find_fd_from_spec [of "take (ps_size (td_poll_set d)) (ps_set (td_poll_set d))" fd 0] that
    by (auto simp: find_fd_in_pollset_def)
qed

lemma pollset_ok_drop:
  assumes "pollset_ok d" and "0 < i" and "i < ps_size (td_poll_set d)"
  shows "pollset_ok (d\<lparr>td_poll_set := drop_entry i (td_poll_set d)\<rparr>)"
  using assms by (auto simp: pollset_ok_def Let_def drop_entry_def nth_list_update)

lemma system_ok_update:
  assumes "system_ok D s" and "t < length D" and "pollset_ok d" and "server_ok s'"
    and "part_inj (place fd_at (D[t := d]))" and "sessions_ok (place user_at (D[t := d])) (online s')"
  shows "system_ok (D[t := d]) s'"
  using assms set_update_subset_insert [of D t d] by (auto simp: system_ok_def)

lemma remove_fd_keeps:
  assumes ok: "system_ok D s" and t: "t < length D" and fd: "fd \<noteq> td_pipe_out_fd (D ! t)"
    and r: "remove_fd_from_pollset (D ! t) fd s = (d, s')"
  shows "system_ok (D[t := d]) s' \<and> td_pipe_out_fd d = td_pipe_out_fd (D ! t)"
proof -
  have p: "pollset_ok (D ! t)" and so: "server_ok s" using ok t by (simp_all add: system_ok_def)
  let ?p = "td_poll_set (D ! t)"
  let ?m = "Poll_mutex (td_thread_index (D ! t))"
  show ?thesis
    using p
  proof (cases rule: find_fd_cases [of "D ! t" fd])
    case none
    then have "d = D ! t" "same_books s s'" using r by (auto simp: remove_fd_from_pollset_def Let_def)
    then show ?thesis using ok system_ok_same [of s s' D] by simp
  next
    case (found i)
    let ?s1 = "pthread_mutex_lock ?m s"
    let ?s2 = "deactivate_user (ps_active_users ?p ! i) ?s1"
    have so1: "server_ok ?s1" "online ?s1 = online s" using so by simp_all
    have d: "d = (D ! t)\<lparr>td_poll_set := drop_entry i ?p\<rparr>" and s': "same_books ?s2 s'"
      using r found by (auto simp: remove_fd_from_pollset_def remove_from_pollset_def Let_def)
    have i: "0 < i" using found(3) fd p by (cases i) (auto simp: pollset_ok_def Let_def)
    note da = deactivate_user_spec [OF so1(1), of "ps_active_users ?p ! i"]
    have s'ok: "server_ok s'" "online s' = online ?s2"
      using s' da server_ok_cong [of s' ?s2] online_cong [of s' ?s2] by (simp_all add: same_books_def)
    have dp: "td_poll_set d = drop_entry i ?p" using d by simp
    have "part_inj (place fd_at (D[t := d]))"
      unfolding place_drop [OF t p found(2) dp entrywise_fields(1)] using ok by (intro part_inj_move) (simp add: system_ok_def)
    moreover have "sessions_ok (place user_at (D[t := d])) (online s')"
      unfolding place_drop [OF t p found(2) dp entrywise_fields(2)]
    proof (rule sessions_ok_move)
      show "sessions_ok (place user_at D) (online s)" using ok by (simp add: system_ok_def)
      show "online s' = (case place user_at D (t, i) of None \<Rightarrow> online s | Some n \<Rightarrow> online s - {n})"
        using s'ok(2) da t found(2) by (simp add: place_def user_at_def split: option.split)
    qed
    ultimately show ?thesis
      using system_ok_update [OF ok t _ s'ok(1)] pollset_ok_drop [OF p i found(2)] d by simp
  qed
qed

lemma set_active_user_keeps:
  assumes ok: "system_ok D s" and t: "t < length D" and i: "0 < i" "i < ps_size (td_poll_set (D ! t))"
    and so: "server_ok s'" and ch: "session_change (ps_active_users (td_poll_set (D ! t)) ! i) (online s) a (online s')"
  shows "system_ok (D[t := set_active_user i a (D ! t)]) s'"
proof -
  let ?d = "set_active_user i a (D ! t)"
  have p: "pollset_ok (D ! t)" using ok t by (simp add: system_ok_def)
  have len: "ps_size (td_poll_set (D ! t)) \<le> length (ps_active_users (td_poll_set (D ! t)))"
    using p by (simp add: pollset_ok_def Let_def)
  have "place fd_at (D[t := ?d]) = (place fd_at D)((t, i) := place fd_at D (t, i))"
    by (rule place_point [OF t]) (use t i in \<open>simp_all add: place_def fd_at_def set_active_user_def\<close>)
  then have fd: "place fd_at (D[t := ?d]) = place fd_at D" by simp
  have us: "place user_at (D[t := ?d]) = (place user_at D)((t, i) := a)"
    by (rule place_point [OF t]) (use i len in \<open>simp_all add: user_at_def set_active_user_def\<close>)
  have at: "place user_at D (t, i) = ps_active_users (td_poll_set (D ! t)) ! i" using t i by (simp add: place_def user_at_def)
  have "sessions_ok (place user_at (D[t := ?d])) (online s')"
    unfolding us by (rule sessions_ok_change [where m = "place user_at D" and k = "(t, i)", OF _ at ch]) (use ok in \<open>simp add: system_ok_def\<close>)
  moreover have "pollset_ok ?d" using p i by (simp add: pollset_ok_def Let_def set_active_user_def)
  ultimately show ?thesis using system_ok_update [OF ok t _ so] ok by (simp add: fd system_ok_def)
qed

lemma serve_client_keeps:
  assumes ok: "system_ok D s" and t: "t < length D" and fd: "fd \<noteq> td_pipe_out_fd (D ! t)"
    and r: "serve_client c fd (D ! t) s = Ret (d, s')"
  shows "system_ok (D[t := d]) s' \<and> td_pipe_out_fd d = td_pipe_out_fd (D ! t)"
proof -
  have p: "pollset_ok (D ! t)" using ok t by (simp add: system_ok_def)
  obtain received rq s1 where rc: "receive_request fd s = Ret (received, rq, s1)"
    using r by (auto simp: serve_client_def bind_run_Ret)
  have ok1: "system_ok D s1" using system_ok_same [OF only_host_books [OF only_host_receive [OF rc]]] ok by simp
  show ?thesis
  proof (cases received)
    case False
    then have "remove_fd_from_pollset (D ! t) fd s1 = (d, s')" using r rc by (simp add: serve_client_def)
    then show ?thesis by (rule remove_fd_keeps [OF ok1 t fd])
  next
    case True
    let ?m = "Poll_mutex (td_thread_index (D ! t))"
    let ?s2 = "pthread_mutex_unlock ?m (pthread_mutex_lock ?m s1)"
    have ok2: "system_ok D ?s2" using ok1 system_ok_same [of s1 ?s2 D] by simp
    show ?thesis
      using p
    proof (cases rule: find_fd_cases [of "D ! t" fd])
      case none
      then have "d = D ! t \<and> same_books s1 s'" using r rc True by (auto simp: serve_client_def Let_def)
      then show ?thesis using ok1 system_ok_same [of s1 s' D] by simp
    next
      case (found i)
      let ?a = "ps_active_users (td_poll_set (D ! t)) ! i"
      have i: "0 < i" using found(3) fd p by (cases i) (auto simp: pollset_ok_def Let_def)
      obtain code resp sl s3 where h: "handle_request c rq (Some ?a) ?s2 = Ret (code, resp, sl, s3)"
        using r rc True found(1) by (auto simp: serve_client_def Let_def bind_run_Ret)
      let ?d = "set_active_user i (the sl) (D ! t)"
      obtain sent s4 where sn: "send_response fd resp s3 = Ret (sent, s4)"
        and fin: "(if \<not> sent then remove_fd_from_pollset ?d fd s4 else (?d, s4)) = (d, s')"
        using r rc True found(1) h by (auto simp: serve_client_def Let_def bind_run_Ret split: if_splits)
      have "server_ok ?s2" using ok2 by (simp add: system_ok_def)
      note hs = handle_request_session [OF this h]
      have "system_ok (D[t := ?d]) s3"
        by (rule set_active_user_keeps [OF ok2 t i found(2)]) (use hs in auto)
      then have ok4: "system_ok (D[t := ?d]) s4" using system_ok_same [OF only_host_books [OF only_host_send [OF sn]]] by simp
      have pipe: "td_pipe_out_fd ?d = td_pipe_out_fd (D ! t)" by (simp add: set_active_user_def)
      show ?thesis
      proof (cases sent)
        case True
        then show ?thesis using fin ok4 pipe by simp
      next
        case False
        then show ?thesis using remove_fd_keeps [OF ok4, of t fd d s'] fin t fd pipe by simp
      qed
    qed
  qed
qed

lemma serve_event_keeps:
  assumes "system_ok D s" and "t < length D" and "pf_fd p \<noteq> td_pipe_out_fd (D ! t)"
    and "serve_event c p (D ! t) s = Ret (d, s')"
  shows "system_ok (D[t := d]) s' \<and> td_pipe_out_fd d = td_pipe_out_fd (D ! t)"
  using assms remove_fd_keeps [of D s t "pf_fd p" d s'] serve_client_keeps [of D s t "pf_fd p" c d s']
  by (auto simp: serve_event_def split: if_splits)

section \<open>New connections\<close>

abbreviation size_of :: "thread_data \<Rightarrow> nat" where
  "size_of d \<equiv> ps_size (td_poll_set d)"

text \<open>\<open>m\<close> and \<open>n\<close> are the index and size of the smallest poll set with room in \<open>D\<close>, or \<open>m = -1\<close>.\<close>

definition smallest :: "thread_data list \<Rightarrow> int \<Rightarrow> nat \<Rightarrow> bool" where
  "smallest D m n \<longleftrightarrow> m = -1 \<and> (\<forall>d\<in>set D. CLIENTS_PER_THREAD \<le> size_of d)
     \<or> (\<exists>i<length D. m = int i \<and> n = size_of (D ! i) \<and> n < CLIENTS_PER_THREAD \<and> (\<forall>d\<in>set D. n \<le> size_of d))"

lemma find_suitable_from_spec:
  assumes "smallest pre m n" and "find_suitable_from D (length pre) m n s = (r, s')"
  shows "(\<exists>k. smallest (pre @ D) r k) \<and> same_books s s'"
  using assms
proof (induction D arbitrary: pre m n s)
  case Nil
  then show ?case by auto
next
  case (Cons d D)
  let ?s = "pthread_mutex_unlock (Poll_mutex (length pre)) (pthread_mutex_lock (Poll_mutex (length pre)) s)"
  let ?take = "size_of d < CLIENTS_PER_THREAD \<and> (m = -1 \<or> size_of d < n)"
  have "\<exists>m' n'. smallest (pre @ [d]) m' n' \<and> find_suitable_from D (length (pre @ [d])) m' n' ?s = (r, s')"
  proof (cases ?take)
    case True
    then have "\<forall>x\<in>set pre. size_of d \<le> size_of x" using Cons.prems(1) by (auto simp: smallest_def)
    then have "smallest (pre @ [d]) (int (length pre)) (size_of d)"
      using True by (auto simp: smallest_def intro!: exI [of _ "length pre"])
    moreover have "find_suitable_from D (length (pre @ [d])) (int (length pre)) (size_of d) ?s = (r, s')"
      using Cons.prems(2) True by (auto simp: Let_def)
    ultimately show ?thesis by blast
  next
    case False
    then have "smallest (pre @ [d]) m n" using Cons.prems(1) by (auto simp: smallest_def nth_append not_less intro: less_imp_le)
    moreover have "find_suitable_from D (length (pre @ [d])) m n ?s = (r, s')"
      using Cons.prems(2) False by (auto simp: Let_def)
    ultimately show ?thesis by blast
  qed
  then have "(\<exists>k. smallest ((pre @ [d]) @ D) r k) \<and> same_books ?s s'" using Cons.IH by blast
  then show ?case by (simp add: same_books_def)
qed

lemma find_suitable_pollset_spec:
  assumes "find_suitable_pollset D s = (r, s')"
  shows "(\<exists>n. smallest D r n) \<and> same_books s s'"
  using find_suitable_from_spec [of "[]" "-1" 0 D s r s'] assms by (simp add: find_suitable_pollset_def smallest_def)

lemma accept_client_keeps:
  assumes ok: "system_ok D s" and new: "connfd \<notin> ran (place fd_at D)" and a: "accept_client pipe_fds connfd D s = Some (D', s')"
  shows "system_ok D' s' \<and> map td_pipe_out_fd D' = map td_pipe_out_fd D"
proof -
  obtain r s1 where f: "find_suitable_pollset D s = (r, s1)" by force
  note fs = find_suitable_pollset_spec [OF f]
  have "r \<noteq> -1" using a f by (auto simp: accept_client_def)
  then obtain t where t: "t < length D" "r = int t" "size_of (D ! t) < CLIENTS_PER_THREAD"
    using fs by (auto simp: smallest_def)
  let ?p = "td_poll_set (D ! t)"
  let ?i = "ps_size ?p"
  let ?q = "?p\<lparr>ps_set := (ps_set ?p)[?i := \<lparr>pf_fd = connfd, pf_events = POLLIN, pf_revents = 0\<rparr>],
    ps_active_users := (ps_active_users ?p)[?i := None], ps_size := ?i + 1\<rparr>"
  let ?d = "(D ! t)\<lparr>td_poll_set := ?q\<rparr>"
  have D': "D' = D[t := ?d]" and s': "same_books s1 s'"
    using a f t \<open>r \<noteq> -1\<close> by (auto simp: accept_client_def add_to_pollset_def Let_def)
  have p: "pollset_ok (D ! t)" using ok t(1) by (simp add: system_ok_def)
  then have len: "?i < length (ps_set ?p)" "?i < length (ps_active_users ?p)" "0 < ?i"
    using t(3) by (simp_all add: pollset_ok_def Let_def)
  have pd: "pollset_ok ?d" using p t(3) len by (simp add: pollset_ok_def Let_def)
  have fd: "place fd_at (D[t := ?d]) = (place fd_at D)((t, ?i) := Some connfd)"
    by (rule place_grow [OF t(1)]) (use len in \<open>simp_all add: fd_at_def\<close>)
  have "place user_at (D[t := ?d]) = (place user_at D)((t, ?i) := None)"
    by (rule place_grow [OF t(1)]) (use len in \<open>simp_all add: user_at_def\<close>)
  moreover have "place user_at D (t, ?i) = None" by (simp add: place_def)
  ultimately have us: "place user_at (D[t := ?d]) = place user_at D" by (simp add: fun_upd_idem)
  have "part_inj ((place fd_at D)((t, ?i) \<mapsto> connfd))"
    by (rule part_injI) (use part_injD [of "place fd_at D"] new ok in \<open>auto simp: system_ok_def ranI split: if_splits\<close>)
  then have i1: "part_inj (place fd_at (D[t := ?d]))" using fd by simp
  have so: "server_ok s'" "online s' = online s"
    using ok fs s' server_ok_cong [of s' s] online_cong [of s' s] by (simp_all add: system_ok_def same_books_def)
  then have i2: "sessions_ok (place user_at (D[t := ?d])) (online s')" using us ok by (simp add: system_ok_def)
  have "map td_pipe_out_fd (D[t := ?d]) = map td_pipe_out_fd D" using t(1) by (simp add: map_update) (metis list_update_id nth_map)
  then show ?thesis using system_ok_update [OF ok t(1) pd so(1) i1 i2] D' by simp
qed

section \<open>The transition system\<close>

text \<open>\<open>accept\<close> returns a descriptor that is not in use.\<close>

definition fresh_event :: "main_event \<Rightarrow> thread_data list \<Rightarrow> bool" where
  "fresh_event event D = (case event of Main_ready i l connfd e \<Rightarrow> connfd \<notin> ran (place fd_at D) | _ \<Rightarrow> True)"

inductive server_step :: "crypto \<Rightarrow> (int \<times> int) list \<Rightarrow> thread_data list \<times> server \<Rightarrow> thread_data list \<times> server \<Rightarrow> bool"
  for c pipe_fds where
  main: "main_turn pipe_fds event D s = Some (Ret (stop, D', s')) \<Longrightarrow> fresh_event event D \<Longrightarrow>
    server_step c pipe_fds (D, s) (D', s')"
| copy_set: "t < length D \<Longrightarrow> m = Poll_mutex (td_thread_index (D ! t)) \<Longrightarrow>
    server_step c pipe_fds (D, s) (D, pthread_mutex_unlock m (pthread_mutex_lock m s))"
| wake: "t < length D \<Longrightarrow> host_read (td_pipe_out_fd (D ! t)) 64 (sv_host s) = (n, bs, h) \<Longrightarrow>
    server_step c pipe_fds (D, s) (D, s\<lparr>sv_host := h\<rparr>)"
| event: "t < length D \<Longrightarrow> pf_fd p \<noteq> td_pipe_out_fd (D ! t) \<Longrightarrow> serve_event c p (D ! t) s = Ret (d, s') \<Longrightarrow>
    server_step c pipe_fds (D, s) (D[t := d], s')"

lemma main_turn_keeps:
  assumes ok: "system_ok D s" and fr: "fresh_event event D" and m: "main_turn pipe_fds event D s = Some (Ret (stop, D', s'))"
  shows "system_ok D' s'"
proof (cases event)
  case (Main_ready i l connfd e)
  obtain b s1 where st: "check_stdin_for_termination s = (b, s1)" by force
  have st1: "same_books s s1" using st by (auto simp: check_stdin_for_termination_def split: prod.splits)
  consider "i" | "\<not> i" "l" "0 \<le> connfd" | "D' = D" "s' = s"
    using m Main_ready by (auto simp: main_turn_def split: if_splits)
  then show ?thesis
  proof cases
    case 1
    then show ?thesis using m Main_ready st system_ok_same [OF st1, of D] ok by (simp add: main_turn_def)
  next
    case 2
    then have "accept_client pipe_fds connfd D s = Some (D', s')" using m Main_ready by (auto simp: main_turn_def)
    then show ?thesis using accept_client_keeps [OF ok] fr Main_ready by (simp add: fresh_event_def)
  next
    case 3
    then show ?thesis using ok by simp
  qed
qed (use assms in \<open>auto simp: main_turn_def\<close>)

lemma server_step_keeps_pair:
  assumes "server_step c pipe_fds x y" and "case x of (D, s) \<Rightarrow> system_ok D s"
  shows "case y of (D, s) \<Rightarrow> system_ok D s"
  using assms
proof (induction rule: server_step.induct)
  case (main event D s stop D' s')
  then show ?case using main_turn_keeps by auto
next
  case (copy_set t D m s)
  then show ?case using system_ok_same [of s "pthread_mutex_unlock m (pthread_mutex_lock m s)" D] by simp
next
  case (wake t D s n bs h)
  then show ?case using system_ok_same [of s "s\<lparr>sv_host := h\<rparr>" D] by simp
next
  case (event t D p s d s')
  then show ?case using serve_event_keeps by auto
qed

lemma server_step_keeps: "server_step c pipe_fds (D, s) (D', s') \<Longrightarrow> system_ok D s \<Longrightarrow> system_ok D' s'"
  using server_step_keeps_pair by fastforce

lemma server_run_keeps:
  assumes "(server_step c pipe_fds)\<^sup>*\<^sup>* (D, s) (D', s')" and "system_ok D s"
  shows "system_ok D' s'"
  using assms
proof (induction "(D', s')" arbitrary: D' s' rule: rtranclp_induct)
  case base
  then show ?case by simp
next
  case (step y)
  then show ?case by (cases y) (auto intro: server_step_keeps)
qed

section \<open>The start\<close>

lemma start_threads_spec:
  assumes "start_threads pipe_fds k s = Ret (D, s')"
  shows "same_books s s' \<and> length D = length pipe_fds \<and> (\<forall>d\<in>set D. pollset_ok d \<and> size_of d = 1)
    \<and> map td_pipe_out_fd D = map fst pipe_fds"
  using assms
proof (induction pipe_fds arbitrary: k s D)
  case Nil
  then show ?case by simp
next
  case (Cons x pipe_fds)
  obtain rd wr where x: "x = (rd, wr)" by force
  obtain p s1 where c: "create_poll_set rd s = Ret (p, s1)" using Cons.prems by (auto simp: x bind_run_Ret)
  obtain D1 where st: "start_threads pipe_fds (k + 1) s1 = Ret (D1, s')"
    and D: "D = \<lparr>td_thread_index = k, td_poll_set = p, td_pipe_out_fd = rd\<rparr> # D1"
    using Cons.prems c by (auto simp: x bind_run_Ret)
  obtain g s2 where al: "allocate (16 * CLIENTS_PER_THREAD + 48) s = (g, s2)" by force
  have p: "p = \<lparr>ps_set = (replicate CLIENTS_PER_THREAD \<lparr>pf_fd = 0, pf_events = 0, pf_revents = 0\<rparr>)
      [0 := \<lparr>pf_fd = rd, pf_events = POLLIN, pf_revents = 0\<rparr>],
      ps_active_users = replicate CLIENTS_PER_THREAD None, ps_size = 1\<rparr>" and s1: "s1 = s2"
    using c unfolding create_poll_set_def al prod.case by (simp_all split: if_splits)
  have "same_books s s1" using s1 only_host_books [OF only_host_allocate [OF al]] by simp
  moreover have "pollset_ok \<lparr>td_thread_index = k, td_poll_set = p, td_pipe_out_fd = rd\<rparr> \<and> ps_size p = 1"
    by (simp add: p pollset_ok_def Let_def CLIENTS_PER_THREAD_def)
  ultimately show ?case using Cons.IH [OF st] D x by (auto simp: same_books_def)
qed

lemma server_ok_start: "sv_users s = [] \<Longrightarrow> sv_seats s = map default_seat [0..<NUM_SEATS] \<Longrightarrow> server_ok s \<and> online s = {}"
  by (simp add: server_ok_def seat_ok_def default_seat_def online_def)

lemma server_start_ok:
  assumes s: "server_start pipe_fds s = Ret (D, s')" and dis: "distinct (map fst pipe_fds)"
  shows "system_ok D s' \<and> length D = length pipe_fds"
proof -
  obtain s1 where u: "setup_users s = Ret s1" using s by (auto simp: server_start_def bind_run_Ret)
  obtain s2 where v: "default_seats s1 = Ret s2" using s u by (auto simp: server_start_def bind_run_Ret)
  have st: "start_threads pipe_fds 0 s2 = Ret (D, s')" using s u v by (simp add: server_start_def)
  have u1: "sv_users s1 = []" using u by (auto simp: setup_users_def split: prod.splits if_splits)
  obtain g s3 where al: "allocate (72 * NUM_SEATS) s1 = (g, s3)" by force
  have "sv_users s2 = [] \<and> sv_seats s2 = map default_seat [0..<NUM_SEATS]"
    using v u1 allocate_same [OF al] by (auto simp: default_seats_def al split: if_splits)
  then have so: "server_ok s'" "online s' = {}"
    using start_threads_spec [OF st] server_ok_start [of s'] by (auto simp: same_books_def)
  note sp = start_threads_spec [OF st]
  have sz: "t < length D \<Longrightarrow> size_of (D ! t) = 1 \<and> pollset_ok (D ! t)" for t using sp by simp
  have at: "place fd_at D (t, i) = (if t < length D \<and> i = 0 then Some (map fst pipe_fds ! t) else None)" for t i
  proof (cases "t < length D \<and> i = 0")
    case True
    have "map td_pipe_out_fd D ! t = map fst pipe_fds ! t" using sp by simp
    then show ?thesis using True sz [of t] by (simp add: place_def fd_at_def pollset_ok_def Let_def)
  next
    case False
    then show ?thesis using sz [of t] by (auto simp: place_def)
  qed
  have "part_inj (place fd_at D)"
    by (rule part_injI) (use sp nth_eq_iff_index_eq [OF dis] in \<open>auto simp: at split: if_splits\<close>)
  moreover have "place user_at D (t, i) = None" for t i
    using sz [of t] by (auto simp: place_def user_at_def pollset_ok_def Let_def)
  then have "place user_at D = Map.empty" by auto
  then have "sessions_ok (place user_at D) (online s')" using so(2) by (simp add: sessions_ok_def part_inj_def)
  ultimately show ?thesis using sp so(1) by (simp add: system_ok_def)
qed

section \<open>The loop of a thread takes steps of the system\<close>

lemma update_twice: "server_step c pipe_fds (D[t := d], s) (D[t := d, t := d'], s') \<Longrightarrow>
    server_step c pipe_fds (D[t := d], s) (D[t := d'], s')"
  by simp

lemma serve_events_steps:
  assumes "t < length D" and "serve_events c stop ps n d s = Ret (d', s')" and "system_ok (D[t := d]) s"
  shows "(server_step c pipe_fds)\<^sup>*\<^sup>* (D[t := d], s) (D[t := d'], s')"
  using assms(2,3)
proof (induction ps arbitrary: n d s)
  case Nil
  then show ?case by simp
next
  case (Cons p ps)
  show ?case
  proof (cases "n = 0 \<or> pf_revents p = 0")
    case True
    then show ?thesis using Cons by (cases "n = 0") auto
  next
    case served: False
    show ?thesis
    proof (cases "pf_fd p = td_pipe_out_fd d")
      case True
      obtain k bs h where r: "host_read (td_pipe_out_fd d) 64 (sv_host s) = (k, bs, h)" by (metis prod.exhaust)
      have st: "server_step c pipe_fds (D[t := d], s) (D[t := d], s\<lparr>sv_host := h\<rparr>)"
        using server_step.wake [of t "D[t := d]" s k bs h] r assms(1) by simp
      have ok: "system_ok (D[t := d]) (s\<lparr>sv_host := h\<rparr>)" using server_step_keeps [OF st Cons.prems(2)] .
      show ?thesis
      proof (cases "k = 0 \<and> stop")
        case True
        then show ?thesis using Cons.prems(1) served \<open>pf_fd p = td_pipe_out_fd d\<close> r st by auto
      next
        case False
        then have "serve_events c stop ps (n - 1) d (s\<lparr>sv_host := h\<rparr>) = Ret (d', s')"
          using Cons.prems(1) served \<open>pf_fd p = td_pipe_out_fd d\<close> r by auto
        from Cons.IH [OF this ok] show ?thesis using st by (rule converse_rtranclp_into_rtranclp [rotated])
      qed
    next
      case False
      obtain d1 s1 where e: "serve_event c p d s = Ret (d1, s1)"
        and rest: "serve_events c stop ps (n - 1) d1 s1 = Ret (d', s')"
        using Cons.prems(1) served False by (auto simp: bind_run_Ret)
      have "server_step c pipe_fds (D[t := d], s) (D[t := d, t := d1], s1)"
        by (rule server_step.event [where p = p]) (use e False assms(1) in simp_all)
      then have st: "server_step c pipe_fds (D[t := d], s) (D[t := d1], s1)" by (rule update_twice)
      from Cons.IH [OF rest server_step_keeps [OF st Cons.prems(2)]] show ?thesis
        using st by (rule converse_rtranclp_into_rtranclp [rotated])
    qed
  qed
qed

lemma thread_func_steps:
  assumes "t < length D" and "thread_func c turns d s = Ret (d', s')" and "system_ok (D[t := d]) s"
  shows "(server_step c pipe_fds)\<^sup>*\<^sup>* (D[t := d], s) (D[t := d'], s')"
  using assms(2,3)
proof (induction turns arbitrary: d s)
  case Nil
  then show ?case by simp
next
  case (Cons x turns)
  show ?case
  proof (cases "turn_stop x")
    case True
    then show ?thesis using Cons.prems by simp
  next
    case False
    let ?m = "Poll_mutex (td_thread_index d)"
    let ?s = "pthread_mutex_unlock ?m (pthread_mutex_lock ?m s)"
    have st: "server_step c pipe_fds (D[t := d], s) (D[t := d], ?s)"
      by (rule server_step.copy_set [of t]) (use assms(1) in simp_all)
    note ok = server_step_keeps [OF st Cons.prems(2)]
    have "(server_step c pipe_fds)\<^sup>*\<^sup>* (D[t := d], ?s) (D[t := d'], s')"
    proof (cases "turn_poll x")
      case Poll_interrupted
      then have "thread_func c turns d ?s = Ret (d', s')" using Cons.prems(1) False by (simp add: Let_def)
      then show ?thesis by (rule Cons.IH [OF _ ok])
    next
      case Poll_failed
      then have "d = d' \<and> ?s = s'" using Cons.prems(1) False by (auto simp: Let_def)
      then show ?thesis by (metis rtranclp.rtrancl_refl)
    next
      case (Poll_ready revents)
      obtain d1 s1 n ps where e: "serve_events c (turn_signal x) ps n d ?s = Ret (d1, s1)"
        and rest: "thread_func c turns d1 s1 = Ret (d', s')"
        using Cons.prems(1) False Poll_ready by (auto simp: Let_def bind_run_Ret)
      note st1 = serve_events_steps [OF assms(1) e ok, of pipe_fds]
      show ?thesis using st1 Cons.IH [OF rest server_run_keeps [OF st1 ok]] by (rule rtranclp_trans)
    qed
    then show ?thesis using st by (rule converse_rtranclp_into_rtranclp [rotated])
  qed
qed

end
