(* ===== verification/Pa3_Wire.thy ===== *)
theory Pa3_Wire
  imports Pa3_Worker
begin

text \<open>
  The two ends of the wire. The client's half (\<^verbatim>\<open>PA3/client/pa3_client.c\<close>) sends requests and receives
  responses over its own host; the server's half is in \<open>Pa3_Worker\<close>. What one half writes the other
  reads back.
\<close>

section \<open>The client's half\<close>

definition write_or_exit :: "int \<Rightarrow> byte list \<Rightarrow> host \<Rightarrow> host run" where
  "write_or_exit fd bs h =
     (case safe_write fd bs h of (n, h) \<Rightarrow> if n \<noteq> int (length bs) then Exit EXIT_FAILURE else Ret h)"

definition read_or_exit :: "int \<Rightarrow> nat \<Rightarrow> host \<Rightarrow> (byte list \<times> host) run" where
  "read_or_exit fd count h =
     (case safe_read fd count h of (n, bs, h) \<Rightarrow> if n \<noteq> int count then Exit EXIT_FAILURE else Ret (bs, h))"

text \<open>A string of the request is sent with its declared length, which must not exceed its buffer.\<close>

definition send_string :: "int \<Rightarrow> u64 \<Rightarrow> byte list option \<Rightarrow> host \<Rightarrow> host run" where
  "send_string fd len str h =
     (if 0 < len then
        (case str of
           None \<Rightarrow> Undefined
         | Some bs \<Rightarrow> if length bs < unat len then Undefined else write_or_exit fd (take (unat len) bs) h)
      else Ret h)"

definition send_request :: "int \<Rightarrow> request \<Rightarrow> host \<Rightarrow> host run" where
  "send_request sockfd request h =
     bind_run (write_or_exit sockfd (enc_u32 (rq_action request)) h) (\<lambda>h.
     bind_run (write_or_exit sockfd (enc_u64 (rq_username_length request)) h) (\<lambda>h.
     bind_run (write_or_exit sockfd (enc_u64 (rq_data_size request)) h) (\<lambda>h.
     bind_run (send_string sockfd (rq_username_length request) (rq_username request) h) (\<lambda>h.
     send_string sockfd (rq_data_size request) (rq_data request) h))))"

definition receive_response :: "int \<Rightarrow> host \<Rightarrow> (response \<times> host) run" where
  "receive_response sockfd h =
     bind_run (read_or_exit sockfd 4 h) (\<lambda>(code, h).
     bind_run (read_or_exit sockfd 8 h) (\<lambda>(size_bytes, h).
       let response = \<lparr>rs_data_size = dec_u64 size_bytes, rs_code = sint (dec_u32 code), rs_data = None\<rparr> in
       if 0 < rs_data_size response then
         (case host_alloc (unat (rs_data_size response)) h of (granted, h) \<Rightarrow>
          if \<not> granted then Exit EXIT_FAILURE
          else bind_run (read_or_exit sockfd (unat (rs_data_size response)) h) (\<lambda>(bs, h).
            Ret (response\<lparr>rs_data := Some bs\<rparr>, h)))
       else Ret (response, h)))"

section \<open>The loops\<close>

definition host_took :: "int \<Rightarrow> nat \<Rightarrow> host \<Rightarrow> host \<Rightarrow> bool" where
  "host_took fd k h h' \<longleftrightarrow> h_in h' = (h_in h)(fd := drop k (h_in h fd)) \<and> h_out h' = h_out h \<and> h_open h' = h_open h
     \<and> (sound h \<longrightarrow> sound h')"

definition host_gave :: "int \<Rightarrow> byte list \<Rightarrow> host \<Rightarrow> host \<Rightarrow> bool" where
  "host_gave fd bs h h' \<longleftrightarrow> h_out h' = (h_out h)(fd := h_out h fd @ bs) \<and> h_in h' = h_in h \<and> h_open h' = h_open h
     \<and> (sound h \<longrightarrow> sound h')"

lemma host_took_0: "host_took fd 0 h h' \<longleftrightarrow> h_in h' = h_in h \<and> h_out h' = h_out h \<and> h_open h' = h_open h
     \<and> (sound h \<longrightarrow> sound h')"
  by (auto simp: host_took_def)

lemma host_gave_Nil: "host_gave fd [] h h' \<longleftrightarrow> h_out h' = h_out h \<and> h_in h' = h_in h \<and> h_open h' = h_open h
     \<and> (sound h \<longrightarrow> sound h')"
  by (auto simp: host_gave_def)

lemma host_took_trans: "host_took fd k h h1 \<Longrightarrow> host_took fd k' h1 h2 \<Longrightarrow> host_took fd (k + k') h h2"
  by (auto simp: host_took_def add.commute)

lemma host_gave_trans: "host_gave fd a h h1 \<Longrightarrow> host_gave fd b h1 h2 \<Longrightarrow> host_gave fd (a @ b) h h2"
  by (auto simp: host_gave_def)

lemma host_next_sound: "host_next h = (x, h') \<Longrightarrow> h_in h' = h_in h \<and> h_out h' = h_out h \<and> h_open h' = h_open h
     \<and> (sound h \<longrightarrow> sound h' \<and> x \<noteq> Fail)"
  by (auto simp: host_next_def sound_def split: list.splits)

lemma host_fields [simp]:
  "sound (h\<lparr>h_in := a\<rparr>) = sound h" "sound (h\<lparr>h_out := b\<rparr>) = sound h" "sound (h\<lparr>h_open := c\<rparr>) = sound h"
  "sound (h\<lparr>h_errno := e\<rparr>) = sound h"
  by (simp_all add: sound_def)

lemma host_read_spec:
  assumes "host_read fd n h = (r, bs, h')" and "fd \<in> h_open h"
  shows "r = -1 \<and> bs = [] \<and> host_took fd 0 h h' \<and> (h_errno h' = EINTR \<or> \<not> sound h \<or> SSIZE_MAX < n)
    \<or> (\<exists>k. r = int k \<and> length bs = k \<and> bs = take k (h_in h fd) \<and> k \<le> n \<and> host_took fd k h h'
         \<and> (k = 0 \<longrightarrow> n = 0 \<or> h_in h fd = []))"
proof -
  obtain x h1 where x: "host_next h = (x, h1)" by force
  note nx = host_next_sound [OF x]
  define bs1 where "bs1 = take (read_limit x Stream n) (h_in h fd)"
  consider "x = Eintr" "n \<le> SSIZE_MAX" | "x = Fail" "n \<le> SSIZE_MAX" | "x \<noteq> Eintr" "x \<noteq> Fail" "n \<le> SSIZE_MAX" | "SSIZE_MAX < n" by linarith
  then show ?thesis
  proof cases
    case 4
    then have "h' = h1\<lparr>h_errno := EFAULT\<rparr>" "r = -1" "bs = []" using assms nx by (simp_all add: host_read_def x)
    then show ?thesis using nx 4 by (simp add: host_took_0)
  next
    case 3
    have lim: "read_limit x Stream n \<le> n" "0 < n \<Longrightarrow> 0 < read_limit x Stream n"
      by (cases x; simp add: read_limit_def)+
    have "r = int (length bs1)" "bs = bs1" "h' = h1\<lparr>h_in := (h_in h)(fd := drop (length bs1) (h_in h fd))\<rparr>"
      using assms 3 nx by (auto simp: host_read_def x Let_def bs1_def)
    moreover have "length bs1 \<le> n" using lim(1) by (simp add: bs1_def)
    moreover have "length bs1 = 0 \<Longrightarrow> n = 0 \<or> h_in h fd = []" using lim(2)
      by (cases "n = 0") (auto simp: bs1_def min_def split: if_splits)
    moreover have "bs1 = take (length bs1) (h_in h fd)" by (metis append_take_drop_id append_eq_conv_conj bs1_def)
    ultimately show ?thesis using nx by (auto simp: host_took_def)
  next
    case 1
    have "h' = h1\<lparr>h_errno := EINTR\<rparr>" "r = -1" "bs = []" using assms 1 nx by (simp_all add: host_read_def x)
    then show ?thesis using nx by (simp add: host_took_0)
  next
    case 2
    have "h' = h1\<lparr>h_errno := EIO\<rparr>" "r = -1" "bs = []" using assms 2 nx by (simp_all add: host_read_def x)
    then show ?thesis using nx 2 by (auto simp: host_took_0)
  qed
qed

lemma host_write_spec:
  assumes "host_write fd bs h = (r, h')" and "fd \<in> h_open h"
  shows "r = -1 \<and> host_gave fd [] h h' \<and> (h_errno h' = EINTR \<or> \<not> sound h)
    \<or> (\<exists>k. r = int k \<and> k \<le> length bs \<and> host_gave fd (take k bs) h h' \<and> (k = 0 \<longrightarrow> bs = []))"
proof -
  obtain x h1 where x: "host_next h = (x, h1)" by force
  note nx = host_next_sound [OF x]
  define k where "k = write_limit x (length bs)"
  consider "x = Eintr" | "x = Fail" | "x \<noteq> Eintr" "x \<noteq> Fail" by blast
  then show ?thesis
  proof cases
    case 3
    have lim: "k \<le> length bs" by (cases x; simp add: k_def write_limit_def)
    have pos: "0 < length bs \<Longrightarrow> 0 < k" by (cases x; simp add: k_def write_limit_def)
    have "r = int (length (take k bs))" "h' = h1\<lparr>h_out := (h_out h)(fd := h_out h fd @ take k bs)\<rparr>"
      using assms 3 nx by (auto simp: host_write_def x Let_def k_def)
    then have "r = int k" "host_gave fd (take k bs) h h'" using nx lim by (auto simp: host_gave_def)
    then show ?thesis using lim pos by auto
  next
    case 1
    have "h' = h1\<lparr>h_errno := EINTR\<rparr>" "r = -1" using assms 1 nx by (simp_all add: host_write_def x)
    then show ?thesis using nx by (simp add: host_gave_Nil)
  next
    case 2
    have "h' = h1\<lparr>h_errno := EIO\<rparr>" "r = -1" using assms 2 nx by (simp_all add: host_write_def x)
    then show ?thesis using nx 2 by (auto simp: host_gave_Nil)
  qed
qed

lemma safe_write_from_spec:
  assumes "safe_write_from fd buf n h = (r, h')" and "fd \<in> h_open h"
  shows "\<exists>k. k \<le> length buf \<and> host_gave fd (take k buf) h h' \<and> (r = int (n + length buf) \<and> k = length buf \<or> r = -1 \<and> \<not> sound h)"
  using assms
proof (induction fd buf n h arbitrary: r h' rule: safe_write_from.induct)
  case (1 fd buf n h)
  show ?case
  proof (cases "buf = []")
    case True
    then show ?thesis using 1(3) by (auto simp: safe_write_from.simps host_gave_Nil)
  next
    case False
    obtain r1 h1 where w: "host_write fd buf h = (r1, h1)" by force
    from host_write_spec [OF w 1(4)] consider
      (fail) "r1 = -1" "host_gave fd [] h h1" "h_errno h1 = EINTR \<or> \<not> sound h"
      | (ok) k where "r1 = int k" "k \<le> length buf" "host_gave fd (take k buf) h h1" "k = 0 \<longrightarrow> buf = []" by blast
    then show ?thesis
    proof cases
      case fail
      note r1 = fail(1) and g = fail(2) and e = fail(3)
      have o: "fd \<in> h_open h1" using g 1(4) by (simp add: host_gave_Nil)
      show ?thesis
      proof (cases "h_errno h1 = EINTR")
        case True
        have eq: "safe_write_from fd buf n h1 = (r, h')" using 1(3) False r1 True by (simp add: safe_write_from.simps [of fd buf n h] w)
        have "\<exists>k. k \<le> length buf \<and> host_gave fd (take k buf) h1 h' \<and> (r = int (n + length buf) \<and> k = length buf \<or> r = -1 \<and> \<not> sound h1)"
          using 1(2) [OF _ w [symmetric] _ _ eq o] False r1 True by simp
        then show ?thesis using host_gave_trans [OF g] g by (fastforce simp: host_gave_Nil)
      next
        case ne: False
        then have "r = -1" "h' = h1" using 1(3) False r1 by (simp_all add: safe_write_from.simps [of fd buf n h] w)
        then show ?thesis using g e ne by (intro exI [of _ 0]) simp
      qed
    next
      case k: (ok k)
      have o: "fd \<in> h_open h1" using k(3) 1(4) by (simp add: host_gave_def)
      have eq: "safe_write_from fd (drop k buf) (n + k) h1 = (r, h')"
        using 1(3) False k by (simp add: safe_write_from.simps [of fd buf n h] w)
      have "\<exists>j. j \<le> length (drop k buf) \<and> host_gave fd (take j (drop k buf)) h1 h'
          \<and> (r = int (n + k + length (drop k buf)) \<and> j = length (drop k buf) \<or> r = -1 \<and> \<not> sound h1)"
        using 1(1) [OF _ w [symmetric], of r h'] eq o False k by simp
      then obtain j where j0: "j \<le> length (drop k buf)" "host_gave fd (take j (drop k buf)) h1 h'"
        "r = int (n + k + length (drop k buf)) \<and> j = length (drop k buf) \<or> r = -1 \<and> \<not> sound h1" by blast
      then have j: "j \<le> length buf - k" "host_gave fd (take j (drop k buf)) h1 h'"
        "r = int (n + length buf) \<and> k + j = length buf \<or> r = -1 \<and> \<not> sound h1" using k(2) by auto
      have "host_gave fd (take (k + j) buf) h h'" using host_gave_trans [OF k(3) j(2)] by (simp add: take_add)
      moreover have "sound h \<Longrightarrow> sound h1" using k(3) by (simp add: host_gave_def)
      ultimately show ?thesis using j k(2) by (intro exI [of _ "k + j"]) auto
    qed
  qed
qed

lemma safe_write_spec:
  assumes "safe_write fd bs h = (r, h')" and "fd \<in> h_open h"
  shows "r = int (length bs) \<and> host_gave fd bs h h' \<or> r = -1 \<and> \<not> sound h \<and> (\<exists>k. host_gave fd (take k bs) h h')"
  using safe_write_from_spec [OF assms [unfolded safe_write_def]] by auto

lemma safe_read_from_spec:
  assumes "safe_read_from fd count buf h = (r, bs, h')" and "fd \<in> h_open h" and "length buf \<le> count"
  shows "\<exists>k. bs = buf @ take k (h_in h fd) \<and> length bs = length buf + k \<and> length bs \<le> count \<and> host_took fd k h h'
     \<and> (r = int (length bs) \<and> (length bs = count \<or> h_in h' fd = []) \<or> r = -1 \<and> (\<not> sound h \<or> SSIZE_MAX < count))"
  using assms
proof (induction fd count buf h arbitrary: r bs h' rule: safe_read_from.induct)
  case (1 fd count buf h)
  show ?case
  proof (cases "length buf < count")
    case False
    then show ?thesis using 1(3,5) by (intro exI [of _ 0]) (auto simp: safe_read_from.simps host_took_0)
  next
    case lt: True
    obtain r1 bs1 h1 where w: "host_read fd (count - length buf) h = (r1, bs1, h1)" using prod_cases3 by blast
    note unf = safe_read_from.simps [of fd count buf h]
    from host_read_spec [OF w 1(4)] consider
      (fail) "r1 = -1" "bs1 = []" "host_took fd 0 h h1" "h_errno h1 = EINTR \<or> \<not> sound h \<or> SSIZE_MAX < count - length buf"
      | (ok) k where "r1 = int k" "length bs1 = k" "bs1 = take k (h_in h fd)" "k \<le> count - length buf" "host_took fd k h h1"
        "k = 0 \<longrightarrow> count - length buf = 0 \<or> h_in h fd = []" by blast
    then show ?thesis
    proof cases
      case fail
      note r1 = fail(1) and g = fail(3) and e = fail(4)
      have o: "fd \<in> h_open h1" using g 1(4) by (simp add: host_took_0)
      show ?thesis
      proof (cases "h_errno h1 = EINTR")
        case True
        have eq: "safe_read_from fd count buf h1 = (r, bs, h')" using 1(3) lt r1 True by (simp add: unf w)
        have "\<exists>k. bs = buf @ take k (h_in h1 fd) \<and> length bs = length buf + k \<and> length bs \<le> count \<and> host_took fd k h1 h'
           \<and> (r = int (length bs) \<and> (length bs = count \<or> h_in h' fd = []) \<or> r = -1 \<and> (\<not> sound h1 \<or> SSIZE_MAX < count))"
          using 1(2) [OF lt w [symmetric] refl] r1 True eq o 1(5) by simp
        then show ?thesis using host_took_trans [OF g] g by (fastforce simp: host_took_0)
      next
        case ne: False
        then have "r = -1" "h' = h1" "bs = buf" using 1(3) lt r1 by (simp_all add: unf w)
        moreover have "\<not> sound h \<or> SSIZE_MAX < count" using e ne by auto
        ultimately show ?thesis using g 1(5) by (intro exI [of _ 0]) simp
      qed
    next
      case k: (ok k)
      have o: "fd \<in> h_open h1" and i1: "h_in h1 fd = drop k (h_in h fd)" using k(5) 1(4) by (simp_all add: host_took_def)
      show ?thesis
      proof (cases "k = 0")
        case True
        then have "r = int (length buf)" "bs = buf" "h' = h1" using 1(3) lt k(1) by (auto simp: unf w)
        then show ?thesis using True k lt 1(5) i1 by (intro exI [of _ 0]) auto
      next
        case k0: False
        have eq: "safe_read_from fd count (buf @ bs1) h1 = (r, bs, h')" using 1(3) lt k k0 by (simp add: unf w)
        have "\<exists>j. bs = (buf @ bs1) @ take j (h_in h1 fd) \<and> length bs = length (buf @ bs1) + j \<and> length bs \<le> count
           \<and> host_took fd j h1 h' \<and> (r = int (length bs) \<and> (length bs = count \<or> h_in h' fd = []) \<or> r = -1 \<and> (\<not> sound h1 \<or> SSIZE_MAX < count))"
          using 1(1) [OF lt w [symmetric] refl _ eq o] k k0 lt by simp
        then obtain j where j: "bs = (buf @ bs1) @ take j (h_in h1 fd)" "length bs = length (buf @ bs1) + j" "length bs \<le> count"
          "host_took fd j h1 h'"
          "r = int (length bs) \<and> (length bs = count \<or> h_in h' fd = []) \<or> r = -1 \<and> (\<not> sound h1 \<or> SSIZE_MAX < count)"
          by blast
        have "bs = buf @ take (k + j) (h_in h fd)" using j(1) k(3) i1 by (simp add: take_add)
        moreover have "sound h \<Longrightarrow> sound h1" using k(5) by (simp add: host_took_def)
        ultimately show ?thesis using j k(2) host_took_trans [OF k(5) j(4)] by (intro exI [of _ "k + j"]) auto
      qed
    qed
  qed
qed

lemma safe_read_spec:
  assumes "safe_read fd count h = (r, bs, h')" and "fd \<in> h_open h"
  shows "host_took fd (length bs) h h' \<and> bs = take (length bs) (h_in h fd) \<and> length bs \<le> count
     \<and> (r = int (length bs) \<and> (length bs = count \<or> h_in h' fd = []) \<or> r = -1 \<and> (\<not> sound h \<or> SSIZE_MAX < count))"
  using safe_read_from_spec [OF assms [unfolded safe_read_def]] by auto


section \<open>Messages\<close>

text \<open>The bytes of a message, and the messages whose buffers agree with their declared lengths.\<close>

definition enc_string :: "u64 \<Rightarrow> byte list option \<Rightarrow> byte list" where
  "enc_string len str = (if 0 < len then the str else [])"

definition enc_request :: "request \<Rightarrow> byte list" where
  "enc_request r = enc_u32 (rq_action r) @ enc_u64 (rq_username_length r) @ enc_u64 (rq_data_size r)
     @ enc_string (rq_username_length r) (rq_username r) @ enc_string (rq_data_size r) (rq_data r)"

definition string_ok :: "u64 \<Rightarrow> byte list option \<Rightarrow> bool" where
  "string_ok len str \<longleftrightarrow> unat len < PTRDIFF_MAX
     \<and> (case str of None \<Rightarrow> len = 0 | Some bs \<Rightarrow> 0 < len \<and> length bs = unat len)"

definition request_ok :: "request \<Rightarrow> bool" where
  "request_ok r \<longleftrightarrow> string_ok (rq_username_length r) (rq_username r) \<and> string_ok (rq_data_size r) (rq_data r)"

definition enc_response :: "response \<Rightarrow> byte list" where
  "enc_response r = enc_u32 (word_of_int (rs_code r)) @ enc_u64 (rs_data_size r) @ enc_string (rs_data_size r) (rs_data r)"

definition response_ok :: "response \<Rightarrow> bool" where
  "response_ok r \<longleftrightarrow> string_ok (rs_data_size r) (rs_data r) \<and> - (2 ^ 31) \<le> rs_code r \<and> rs_code r < 2 ^ 31"

definition delivers :: "int \<Rightarrow> byte list \<Rightarrow> host \<Rightarrow> bool" where
  "delivers fd bs h \<longleftrightarrow> fd \<in> h_open h \<and> sound h \<and> h_in h fd = bs"

lemma safe_read_exact:
  assumes "delivers fd (a @ b) h" and "length a \<le> SSIZE_MAX"
  obtains h' where "safe_read fd (length a) h = (int (length a), a, h')" and "host_took fd (length a) h h'" and "delivers fd b h'"
proof -
  have o: "fd \<in> h_open h" and s: "sound h" and i: "h_in h fd = a @ b" using assms by (simp_all add: delivers_def)
  obtain r bs h' where r: "safe_read fd (length a) h = (r, bs, h')" using prod_cases3 by blast
  have t: "host_took fd (length bs) h h'" and bs: "bs = take (length bs) (a @ b)" and le: "length bs \<le> length a"
    and rr: "r = int (length bs)" "length bs = length a \<or> h_in h' fd = []"
    using safe_read_spec [OF r o] s i assms(2) by auto
  have "length bs = length a"
  proof (cases "length bs = length a")
    case False
    then have "drop (length bs) (a @ b) = []" using rr(2) t i by (simp add: host_took_def)
    then show ?thesis using le by simp
  qed
  moreover from this have "bs = a" using bs by simp
  ultimately show thesis using that r rr t s i o by (auto simp: host_took_def delivers_def)
qed

lemma safe_write_all:
  assumes "fd \<in> h_open h" and "sound h"
  obtains h' where "safe_write fd bs h = (int (length bs), h')" and "host_gave fd bs h h'"
proof -
  obtain r h' where r: "safe_write fd bs h = (r, h')" by force
  show thesis using that safe_write_spec [OF r assms(1)] assms(2) r by auto
qed

lemma host_alloc_granted:
  assumes "sound h" and "n \<le> PTRDIFF_MAX"
  obtains h' where "host_alloc n h = (True, h')" and "host_took fd 0 h h'"
proof -
  obtain x h1 where x: "host_next h = (x, h1)" by force
  show thesis using that [of h1] host_next_sound [OF x] assms by (simp add: host_alloc_def x host_took_0)
qed

lemma took_delivers: "host_took fd 0 h h' \<Longrightarrow> delivers fd bs h \<Longrightarrow> delivers fd bs h'"
  by (simp add: host_took_0 delivers_def)

lemma sint_code: "- (2 ^ 31) \<le> v \<Longrightarrow> v < 2 ^ 31 \<Longrightarrow> sint (word_of_int v :: u32) = v"
  by (simp add: signed_of_int signed_take_bit_int_eq_self)

lemma sint_size:
  assumes "unat (len :: u64) < PTRDIFF_MAX"
  shows "sint len = int (unat len)"
proof -
  have "int (unat len) < int (2 ^ 63)" using assms unfolding of_nat_less_iff PTRDIFF_MAX_def by linarith
  then have "int (unat len) < 2 ^ 63" by (simp only: of_nat_power of_nat_numeral)
  then have "signed_take_bit 63 (int (unat len)) = int (unat len)"
    by (intro signed_take_bit_int_eq_self order_trans [OF _ of_nat_0_le_iff]) simp_all
  then show ?thesis by (simp add: sint_uint [of len])
qed

text \<open>Steps of the server that only read from a descriptor.\<close>

definition reads :: "int \<Rightarrow> server \<Rightarrow> server \<Rightarrow> bool" where
  "reads fd s s' \<longleftrightarrow> (\<exists>k h. s' = s\<lparr>sv_host := h\<rparr> \<and> host_took fd k (sv_host s) h)"

lemma reads_trans: "reads fd s s1 \<Longrightarrow> reads fd s1 s2 \<Longrightarrow> reads fd s s2"
  unfolding reads_def using host_took_trans by fastforce

lemma reads_I: "host_took fd k (sv_host s) h \<Longrightarrow> reads fd s (s\<lparr>sv_host := h\<rparr>)"
  by (auto simp: reads_def)

lemma read_fd_exact:
  assumes "delivers fd (a @ b) (sv_host s)" and "n = length a" and "n \<le> SSIZE_MAX"
  obtains s' where "read_fd fd n s = (int n, a, s')" and "reads fd s s'" and "delivers fd b (sv_host s')"
proof -
  obtain h' where "safe_read fd (length a) (sv_host s) = (int (length a), a, h')" "host_took fd (length a) (sv_host s) h'"
    "delivers fd b h'" by (rule safe_read_exact [OF assms(1)]) (use assms(2,3) in simp)
  then show thesis using that [of "s\<lparr>sv_host := h'\<rparr>"] reads_I assms(2) by (simp add: read_fd_def)
qed

lemma read_string_exact:
  assumes d: "delivers fd (a @ b) (sv_host s)" and len: "length a = unat len" "unat len < PTRDIFF_MAX"
  obtains s' where "read_string fd len s = Ret (True, a, s')" and "reads fd s s'" and "delivers fd b (sv_host s')"
proof -
  have un: "unat (len + 1) = unat len + 1" using len(2) by (simp add: unat_word_ariths(1) PTRDIFF_MAX_def)
  note si = sint_size [OF len(2)]
  have "sound (sv_host s)" "unat (len + 1) \<le> PTRDIFF_MAX" using d len(2) un by (simp_all add: delivers_def)
  then obtain h1 where h1: "host_alloc (unat (len + 1)) (sv_host s) = (True, h1)" "host_took fd 0 (sv_host s) h1"
    by (rule host_alloc_granted)
  let ?s1 = "s\<lparr>sv_host := h1\<rparr>"
  have "delivers fd (a @ b) (sv_host ?s1)" using took_delivers [OF h1(2) d] by simp
  then obtain s2 where s2: "read_fd fd (unat len) ?s1 = (int (unat len), a, s2)" "reads fd ?s1 s2" "delivers fd b (sv_host s2)"
    by (rule read_fd_exact [OF _ len(1) [symmetric]]) (use len(2) in \<open>simp_all add: PTRDIFF_MAX_def SSIZE_MAX_def\<close>)
  have "read_string fd len s = Ret (True, a, s2)"
    using h1(1) s2(1) len(1) un si by (simp add: read_string_def allocate_def)
  then show thesis using that reads_trans [OF reads_I [OF h1(2)] s2(2)] s2(3) by blast
qed

section \<open>Round trips\<close>

lemma receive_request_spec:
  assumes d: "delivers fd (enc_request r @ rest) (sv_host s)" and ok: "request_ok r"
  obtains s' where "receive_request fd s = Ret (True, r, s')" and "reads fd s s'" and "delivers fd rest (sv_host s')"
proof -
  let ?ul = "rq_username_length r" and ?dl = "rq_data_size r"
  let ?u = "enc_string ?ul (rq_username r)" and ?d = "enc_string ?dl (rq_data r)"
  have d0: "delivers fd (enc_u32 (rq_action r) @ enc_u64 ?ul @ enc_u64 ?dl @ ?u @ ?d @ rest) (sv_host s)"
    using d by (simp add: enc_request_def)
  obtain s1 where s1: "read_fd fd 4 s = (4, enc_u32 (rq_action r), s1)" "reads fd s s1"
    "delivers fd (enc_u64 ?ul @ enc_u64 ?dl @ ?u @ ?d @ rest) (sv_host s1)" by (rule read_fd_exact [OF d0, of 4]) (simp_all add: SSIZE_MAX_def)
  obtain s2 where s2: "read_fd fd 8 s1 = (8, enc_u64 ?ul, s2)" "reads fd s1 s2"
    "delivers fd (enc_u64 ?dl @ ?u @ ?d @ rest) (sv_host s2)" by (rule read_fd_exact [OF s1(3), of 8]) (simp_all add: SSIZE_MAX_def)
  obtain s3 where s3: "read_fd fd 8 s2 = (8, enc_u64 ?dl, s3)" "reads fd s2 s3" "delivers fd (?u @ ?d @ rest) (sv_host s3)"
    by (rule read_fd_exact [OF s2(3), of 8]) (simp_all add: SSIZE_MAX_def)
  have su: "string_ok ?ul (rq_username r)" and sd: "string_ok ?dl (rq_data r)" using ok by (simp_all add: request_ok_def)
  let ?r3 = "default_request\<lparr>rq_action := rq_action r, rq_username_length := ?ul, rq_data_size := ?dl\<rparr>"
  have u: "\<exists>s4. (if 0 < ?ul then bind_run (read_string fd ?ul s3) (\<lambda>(complete, bs, s). Ret (complete, ?r3\<lparr>rq_username := Some bs\<rparr>, s))
      else Ret (True, ?r3, s3)) = Ret (True, ?r3\<lparr>rq_username := rq_username r\<rparr>, s4) \<and> reads fd s3 s4
      \<and> delivers fd (?d @ rest) (sv_host s4)"
  proof (cases "0 < ?ul")
    case True
    then have "length ?u = unat ?ul" "unat ?ul < PTRDIFF_MAX" "rq_username r = Some ?u"
      using su by (auto simp: string_ok_def enc_string_def split: option.splits)
    then show ?thesis using read_string_exact [OF s3(3), of ?ul] True by fastforce
  next
    case False
    then have "rq_username r = None" "?u = []" using su by (auto simp: string_ok_def enc_string_def split: option.splits)
    moreover have "reads fd s3 s3" using reads_I [of fd 0 s3 "sv_host s3"] by (simp add: host_took_0)
    ultimately show ?thesis using False s3(3) by (auto simp: default_request_def)
  qed
  then obtain s4 where s4: "(if 0 < ?ul then bind_run (read_string fd ?ul s3) (\<lambda>(complete, bs, s). Ret (complete, ?r3\<lparr>rq_username := Some bs\<rparr>, s))
      else Ret (True, ?r3, s3)) = Ret (True, ?r3\<lparr>rq_username := rq_username r\<rparr>, s4)" "reads fd s3 s4"
      "delivers fd (?d @ rest) (sv_host s4)" by blast
  have unf: "receive_request fd s = (if 0 < ?dl then bind_run (read_string fd ?dl s4)
        (\<lambda>(complete, bs, s). Ret (complete, ?r3\<lparr>rq_username := rq_username r, rq_data := Some bs\<rparr>, s))
      else Ret (True, ?r3\<lparr>rq_username := rq_username r\<rparr>, s4))"
    unfolding receive_request_def using s4(1) by (simp add: s1(1) s2(1) s3(1) Let_def cong: if_cong)
  have r14: "reads fd s s4" using reads_trans s1(2) s2(2) s3(2) s4(2) by meson
  show thesis
  proof (cases "0 < ?dl")
    case True
    then have l: "length ?d = unat ?dl" "unat ?dl < PTRDIFF_MAX" "rq_data r = Some ?d"
      using sd by (auto simp: string_ok_def enc_string_def split: option.splits)
    obtain s5 where s5: "read_string fd ?dl s4 = Ret (True, ?d, s5)" "reads fd s4 s5" "delivers fd rest (sv_host s5)"
      by (rule read_string_exact [OF s4(3) l(1,2)])
    have "receive_request fd s = Ret (True, r, s5)" using True s5(1) l(3) by (simp add: unf default_request_def)
    then show thesis using that reads_trans [OF r14 s5(2)] s5(3) by blast
  next
    case False
    then have "rq_data r = None" "?d = []" using sd by (auto simp: string_ok_def enc_string_def split: option.splits)
    then have "receive_request fd s = Ret (True, r, s4)" using False by (simp add: unf default_request_def)
    then show thesis using that r14 s4(3) \<open>?d = []\<close> by simp
  qed
qed

lemma write_or_exit_all:
  assumes "fd \<in> h_open h" and "sound h"
  obtains h' where "write_or_exit fd bs h = Ret h'" and "host_gave fd bs h h'" and "fd \<in> h_open h'" and "sound h'"
proof -
  obtain h' where "safe_write fd bs h = (int (length bs), h')" "host_gave fd bs h h'" by (rule safe_write_all [OF assms])
  then show thesis using that [of h'] assms by (simp add: write_or_exit_def host_gave_def)
qed

lemma send_string_all:
  assumes "fd \<in> h_open h" and "sound h" and "string_ok len str"
  obtains h' where "send_string fd len str h = Ret h'" and "host_gave fd (enc_string len str) h h'" and "fd \<in> h_open h'" and "sound h'"
proof (cases "0 < len")
  case True
  then obtain bs where bs: "str = Some bs" "length bs = unat len" using assms(3) by (auto simp: string_ok_def split: option.splits)
  obtain h' where "write_or_exit fd bs h = Ret h'" "host_gave fd bs h h'" "fd \<in> h_open h'" "sound h'"
    by (rule write_or_exit_all [OF assms(1,2)])
  then show thesis using that [of h'] True bs by (simp add: send_string_def enc_string_def)
next
  case False
  then show thesis using that [of h] assms by (simp add: send_string_def enc_string_def host_gave_Nil)
qed

lemma send_request_spec:
  assumes o: "fd \<in> h_open h" and s: "sound h" and ok: "request_ok r"
  obtains h' where "send_request fd r h = Ret h'" and "host_gave fd (enc_request r) h h'" and "sound h'"
proof -
  have su: "string_ok (rq_username_length r) (rq_username r)" and sd: "string_ok (rq_data_size r) (rq_data r)"
    using ok by (simp_all add: request_ok_def)
  obtain h1 where h1: "write_or_exit fd (enc_u32 (rq_action r)) h = Ret h1" "host_gave fd (enc_u32 (rq_action r)) h h1"
    "fd \<in> h_open h1" "sound h1" by (rule write_or_exit_all [OF o s])
  obtain h2 where h2: "write_or_exit fd (enc_u64 (rq_username_length r)) h1 = Ret h2" "host_gave fd (enc_u64 (rq_username_length r)) h1 h2"
    "fd \<in> h_open h2" "sound h2" by (rule write_or_exit_all [OF h1(3,4)])
  obtain h3 where h3: "write_or_exit fd (enc_u64 (rq_data_size r)) h2 = Ret h3" "host_gave fd (enc_u64 (rq_data_size r)) h2 h3"
    "fd \<in> h_open h3" "sound h3" by (rule write_or_exit_all [OF h2(3,4)])
  obtain h4 where h4: "send_string fd (rq_username_length r) (rq_username r) h3 = Ret h4"
    "host_gave fd (enc_string (rq_username_length r) (rq_username r)) h3 h4" "fd \<in> h_open h4" "sound h4"
    by (rule send_string_all [OF h3(3,4) su])
  obtain h5 where h5: "send_string fd (rq_data_size r) (rq_data r) h4 = Ret h5"
    "host_gave fd (enc_string (rq_data_size r) (rq_data r)) h4 h5" "sound h5"
    by (rule send_string_all [OF h4(3,4) sd])
  have "host_gave fd (enc_request r) h h5"
    unfolding enc_request_def
    by (rule host_gave_trans [OF h1(2) host_gave_trans [OF h2(2) host_gave_trans [OF h3(2) host_gave_trans [OF h4(2) h5(2)]]]])
  then show thesis using that h5 by (simp add: send_request_def h1(1) h2(1) h3(1) h4(1))
qed

text \<open>Steps of the server that only write to a descriptor.\<close>

lemma write_fd_all:
  assumes "fd \<in> h_open (sv_host s)" and "sound (sv_host s)"
  obtains h' where "write_fd fd bs s = (int (length bs), s\<lparr>sv_host := h'\<rparr>)" and "host_gave fd bs (sv_host s) h'"
    and "fd \<in> h_open h'" and "sound h'"
proof -
  obtain h' where "safe_write fd bs (sv_host s) = (int (length bs), h')" "host_gave fd bs (sv_host s) h'"
    by (rule safe_write_all [OF assms])
  then show thesis using that [of h'] assms by (simp add: write_fd_def host_gave_def)
qed

lemma send_response_spec:
  assumes o: "fd \<in> h_open (sv_host s)" and s: "sound (sv_host s)" and ok: "response_ok r"
  obtains h' where "send_response fd r s = Ret (True, s\<lparr>sv_host := h'\<rparr>)" and "host_gave fd (enc_response r) (sv_host s) h'"
proof -
  obtain h1 where h1: "write_fd fd (enc_u32 (word_of_int (rs_code r))) s = (4, s\<lparr>sv_host := h1\<rparr>)"
    "host_gave fd (enc_u32 (word_of_int (rs_code r))) (sv_host s) h1" "fd \<in> h_open h1" "sound h1"
    by (rule write_fd_all [OF o s, of "enc_u32 (word_of_int (rs_code r))"]) simp
  obtain h2 where h2: "write_fd fd (enc_u64 (rs_data_size r)) (s\<lparr>sv_host := h1\<rparr>) = (8, s\<lparr>sv_host := h2\<rparr>)"
    "host_gave fd (enc_u64 (rs_data_size r)) h1 h2" "fd \<in> h_open h2" "sound h2"
    by (rule write_fd_all [of fd "s\<lparr>sv_host := h1\<rparr>" "enc_u64 (rs_data_size r)"]) (use h1(3,4) in simp_all)
  have sd: "string_ok (rs_data_size r) (rs_data r)" using ok by (simp add: response_ok_def)
  show thesis
  proof (cases "0 < rs_data_size r")
    case False
    then have "enc_response r = enc_u32 (word_of_int (rs_code r)) @ enc_u64 (rs_data_size r)"
      by (simp add: enc_response_def enc_string_def)
    moreover have "send_response fd r s = Ret (True, s\<lparr>sv_host := h2\<rparr>)"
      using False by (simp add: send_response_def h1(1) h2(1))
    ultimately show thesis using that [of h2] host_gave_trans [OF h1(2) h2(2)] by simp
  next
    case True
    then obtain bs where bs: "rs_data r = Some bs" "length bs = unat (rs_data_size r)" "unat (rs_data_size r) < PTRDIFF_MAX"
      using sd by (auto simp: string_ok_def split: option.splits)
    note si = sint_size [OF bs(3)]
    obtain h3 where h3: "write_fd fd bs (s\<lparr>sv_host := h2\<rparr>) = (int (length bs), s\<lparr>sv_host := h3\<rparr>)" "host_gave fd bs h2 h3"
      by (rule write_fd_all [of fd "s\<lparr>sv_host := h2\<rparr>" bs]) (use h2(3,4) in simp_all)
    have "enc_response r = enc_u32 (word_of_int (rs_code r)) @ enc_u64 (rs_data_size r) @ bs"
      using True bs by (simp add: enc_response_def enc_string_def)
    moreover have "send_response fd r s = Ret (True, s\<lparr>sv_host := h3\<rparr>)"
      using True bs si h3(1) by (simp add: send_response_def h1(1) h2(1))
    ultimately show thesis using that [of h3] host_gave_trans [OF h1(2) host_gave_trans [OF h2(2) h3(2)]] by simp
  qed
qed

lemma read_or_exit_exact:
  assumes "delivers fd (a @ b) h" and "n = length a" and "n \<le> SSIZE_MAX"
  obtains h' where "read_or_exit fd n h = Ret (a, h')" and "host_took fd n h h'" and "delivers fd b h'"
proof -
  obtain h' where "safe_read fd (length a) h = (int (length a), a, h')" "host_took fd (length a) h h'" "delivers fd b h'"
    by (rule safe_read_exact [OF assms(1)]) (use assms(2,3) in simp)
  then show thesis using that [of h'] assms(2) by (simp add: read_or_exit_def)
qed

lemma receive_response_spec:
  assumes d: "delivers fd (enc_response r @ rest) h" and ok: "response_ok r"
  obtains h' where "receive_response fd h = Ret (r, h')" and "delivers fd rest h'" and "h_out h' = h_out h"
proof -
  let ?d = "enc_string (rs_data_size r) (rs_data r)"
  have d0: "delivers fd (enc_u32 (word_of_int (rs_code r)) @ enc_u64 (rs_data_size r) @ ?d @ rest) h"
    using d by (simp add: enc_response_def)
  obtain h1 where h1: "read_or_exit fd 4 h = Ret (enc_u32 (word_of_int (rs_code r)), h1)" "host_took fd 4 h h1"
    "delivers fd (enc_u64 (rs_data_size r) @ ?d @ rest) h1" by (rule read_or_exit_exact [OF d0, of 4]) (simp_all add: SSIZE_MAX_def)
  obtain h2 where h2: "read_or_exit fd 8 h1 = Ret (enc_u64 (rs_data_size r), h2)" "host_took fd 8 h1 h2"
    "delivers fd (?d @ rest) h2" by (rule read_or_exit_exact [OF h1(3), of 8]) (simp_all add: SSIZE_MAX_def)
  have code: "sint (word_of_int (rs_code r) :: u32) = rs_code r" and sd: "string_ok (rs_data_size r) (rs_data r)"
    using ok sint_code by (simp_all add: response_ok_def)
  have out: "h_out h2 = h_out h" using h1(2) h2(2) by (simp add: host_took_def)
  show thesis
  proof (cases "0 < rs_data_size r")
    case False
    then have "rs_data r = None" "?d = []" using sd by (auto simp: string_ok_def enc_string_def split: option.splits)
    then have "receive_response fd h = Ret (r, h2)"
      using False code by (simp add: receive_response_def h1(1) h2(1) Let_def)
    then show thesis using that h2(3) out \<open>?d = []\<close> by simp
  next
    case True
    then obtain bs where l: "length bs = unat (rs_data_size r)" "unat (rs_data_size r) < PTRDIFF_MAX" "rs_data r = Some bs"
      using sd by (auto simp: string_ok_def split: option.splits)
    then have "?d = bs" using True by (simp add: enc_string_def)
    note h2 = h2(1,2) h2(3) [unfolded this]
    have "sound h2" "unat (rs_data_size r) \<le> PTRDIFF_MAX" using h2(3) l(2) by (simp_all add: delivers_def)
    then obtain h3 where h3: "host_alloc (unat (rs_data_size r)) h2 = (True, h3)" "host_took fd 0 h2 h3" by (rule host_alloc_granted)
    obtain h4 where h4: "read_or_exit fd (unat (rs_data_size r)) h3 = Ret (bs, h4)" "host_took fd (unat (rs_data_size r)) h3 h4"
      "delivers fd rest h4" by (rule read_or_exit_exact [OF took_delivers [OF h3(2) h2(3)], of "unat (rs_data_size r)"])
        (use l(1,2) in \<open>simp_all add: PTRDIFF_MAX_def SSIZE_MAX_def\<close>)
    have "receive_response fd h = Ret (r, h4)"
      using True code h3(1) h4(1) l(3) by (simp add: receive_response_def h1(1) h2(1) Let_def)
    then show thesis using that h4(3) h3(2) h4(2) out by (simp add: host_took_def)
  qed
qed

end
