(* ===== verification/Pa3_Exchange.thy ===== *)
theory Pa3_Exchange
  imports Pa3_System Pa3_Wire
begin

text \<open>
  Handlers always reply: with no permanent failure and room for a new account, every request that fits
  in memory is answered, and the response that is sent is complete. One exchange between a client and
  the server follows, from the request the client builds to the response it reads.
\<close>

section \<open>The responses are well-formed\<close>

lemma codes_bounds:
  "-1 \<le> login_code e1 \<and> login_code e1 < 6" "-1 \<le> book_code e2 \<and> book_code e2 < 6"
  "-1 \<le> cancel_code e3 \<and> cancel_code e3 < 6" "-1 \<le> confirm_code e4 \<and> confirm_code e4 < 6"
  "-1 \<le> logout_code e5 \<and> logout_code e5 < 6" "-1 \<le> query_code e6 \<and> query_code e6 < 6"
proof -
  show "-1 \<le> login_code e1 \<and> login_code e1 < 6" by (cases e1) simp_all
  show "-1 \<le> book_code e2 \<and> book_code e2 < 6" by (cases e2) simp_all
  show "-1 \<le> cancel_code e3 \<and> cancel_code e3 < 6" by (cases e3) simp_all
  show "-1 \<le> confirm_code e4 \<and> confirm_code e4 < 6" by (cases e4) simp_all
  show "-1 \<le> logout_code e5 \<and> logout_code e5 < 6" by (cases e5) simp_all
  show "-1 \<le> query_code e6 \<and> query_code e6 < 6" by (cases e6) simp_all
qed

lemma response_ok_set: "-1 \<le> n \<Longrightarrow> n < 6 \<Longrightarrow> response_ok (set_response n)"
  by (simp add: response_ok_def set_response_def string_ok_def PTRDIFF_MAX_def)

lemma length_enc_list: "length (concat (map enc_u64 vs)) = 8 * length vs"
  by (induction vs) simp_all

lemma response_ok_seats:
  assumes "length vs \<le> 100"
  shows "response_ok (seats_response vs)"
proof (cases "vs = []")
  case True
  then show ?thesis using response_ok_set [of 0] by (simp add: seats_response_def)
next
  case False
  have "unat (of_nat (8 * length vs) :: u64) = 8 * length vs" using assms by (intro unat_u64) simp
  moreover have "(0 :: u64) < of_nat (8 * length vs)" using False calculation unat_gt_0 [of "of_nat (8 * length vs) :: u64"] by (simp add: word_neq_0_conv)
  ultimately show ?thesis using False assms
    by (simp add: seats_response_def response_ok_def string_ok_def PTRDIFF_MAX_def length_enc_list del: of_nat_mult)
qed

lemma response_ok_stats: "response_ok (stats_response st)"
  by (simp add: stats_response_def response_ok_def string_ok_def PTRDIFF_MAX_def enc_stats_def)

lemma seats_where_length: "length (seats_where P b) \<le> 100"
  unfolding seats_where_def by (rule order_trans [OF length_filter_le]) (simp add: NUM_SEATS_def)

lemma spec_handle_response_ok:
  assumes "spec_handle c hash r a b = (code, resp, a', b')"
  shows "response_ok resp"
proof -
  have codes: "response_ok (set_response (login_code e1))" "response_ok (set_response (book_code e2))"
    "response_ok (set_response (cancel_code e3))" "response_ok (set_response (confirm_code e4))"
    "response_ok (set_response (logout_code e5))" "response_ok (set_response (query_code e6))" for e1 e2 e3 e4 e5 e6
    using codes_bounds by (auto intro!: response_ok_set)
  have "e = CONFIRM_BOOKING_ERROR_SUCCESS \<Longrightarrow> spec_confirm r a b = (e, vs) \<Longrightarrow> length vs \<le> 100" for e vs
    using seats_where_length by (auto simp: spec_confirm_def split: if_splits)
  then show ?thesis
    using assms codes response_ok_set [of "-1"]
    by (auto simp: spec_handle_def Let_def response_ok_stats split: if_splits prod.splits option.splits intro!: response_ok_seats)
qed

section \<open>Every request is answered\<close>

definition settled :: "server \<Rightarrow> server \<Rightarrow> bool" where
  "settled s s' \<longleftrightarrow> host_took 0 0 (sv_host s) (sv_host s')"

lemma settled_host: "sv_host s' = sv_host s \<Longrightarrow> settled s s'"
  by (simp add: settled_def host_took_0)

lemma settled_trans: "settled s s1 \<Longrightarrow> settled s1 s2 \<Longrightarrow> settled s s2"
  by (auto simp: settled_def host_took_0)

lemma settled_sound: "settled s s' \<Longrightarrow> sound (sv_host s) \<Longrightarrow> sound (sv_host s')"
  by (simp add: settled_def host_took_0)

lemma allocate_total:
  assumes "sound (sv_host s)" and "n \<le> PTRDIFF_MAX"
  obtains s' where "allocate n s = (True, s')" and "settled s s'"
proof -
  obtain h where "host_alloc n (sv_host s) = (True, h)" "host_took 0 0 (sv_host s) h"
    using host_alloc_granted [OF assms] by (metis host_took_0)
  then show thesis using that [of "s\<lparr>sv_host := h\<rparr>"] by (simp add: allocate_def settled_def)
qed

lemma strdup_total:
  assumes "sound (sv_host s)" and "length x < PTRDIFF_MAX"
  obtains s' where "strdup x s = (Some x, s')" and "settled s s'"
proof -
  obtain s' where "allocate (length x + 1) s = (True, s')" "settled s s'"
    using allocate_total [OF assms(1), of "length x + 1"] assms(2) by auto
  then show thesis using that by (simp add: strdup_def)
qed

lemma lock_logged_in_user_named: "lock_logged_in_user r a s = (uid, s1) \<Longrightarrow> \<not> uid < 0 \<Longrightarrow> has_username r"
  by (auto simp: lock_logged_in_user_def request_matches_active_client_def Let_def split: if_splits option.splits)

lemma lock_logged_in_user_host: "lock_logged_in_user r a s = (uid, s1) \<Longrightarrow> sv_host s1 = sv_host s"
  by (auto simp: lock_logged_in_user_def Let_def split: if_splits)

definition answers :: "(server \<Rightarrow> reply run) \<Rightarrow> server \<Rightarrow> bool" where
  "answers f s \<longleftrightarrow> (\<exists>code resp sl s'. f s = Ret (code, resp, sl, s') \<and> settled s s')"

lemma answersI: "f s = Ret (code, resp, sl, s') \<Longrightarrow> settled s s' \<Longrightarrow> answers f s"
  by (auto simp: answers_def)

lemma book_answers:
  assumes s: "sound (sv_host s)" and u: "has_username r \<Longrightarrow> length (request_username r) < PTRDIFF_MAX"
  shows "answers (handle_book_request r a) s"
proof -
  obtain uid s1 where l: "lock_logged_in_user r a s = (uid, s1)" by force
  have h1: "sv_host s1 = sv_host s" by (rule lock_logged_in_user_host [OF l])
  show ?thesis
  proof (cases "has_data r \<and> (\<exists>v. parse_seat_number r = Some v) \<and> \<not> uid < 0")
    case False
    then show ?thesis using settled_host h1
      by (auto simp: answers_def handle_book_request_def l split: option.splits)
  next
    case True
    then obtain v where v: "parse_seat_number r = Some v" "has_data r" "\<not> uid < 0" by blast
    let ?s2 = "pthread_mutex_lock (Seat_mutex (unat (v - 1))) s1"
    have q2: "settled s ?s2" using h1 by (intro settled_host) simp
    obtain s3 where d: "strdup (request_username r) ?s2 = (Some (request_username r), s3)" "settled ?s2 s3"
      by (rule strdup_total [OF settled_sound [OF q2 s] u [OF lock_logged_in_user_named [OF l v(3)]]])
    have "settled s3 s'" if "sv_host s' = sv_host s3" for s' using that by (rule settled_host)
    then show ?thesis using v q2 d settled_trans [OF q2 d(2)] h1
      by (auto simp: answers_def handle_book_request_def l Let_def settled_def)
  qed
qed

lemma cancel_answers: "answers (handle_cancel_booking_request r a) s"
proof -
  obtain uid s1 where l: "lock_logged_in_user r a s = (uid, s1)" by force
  have h1: "sv_host s1 = sv_host s" by (rule lock_logged_in_user_host [OF l])
  show ?thesis using h1
    by (auto simp: answers_def handle_cancel_booking_request_def l Let_def settled_def host_took_0 split: option.splits)
qed

lemma confirm_answers:
  assumes s: "sound (sv_host s)"
  shows "answers (handle_confirm_booking_request r a) s"
proof -
  obtain uid s1 where l: "lock_logged_in_user r a s = (uid, s1)" by force
  have h1: "sv_host s1 = sv_host s" by (rule lock_logged_in_user_host [OF l])
  let ?P = "\<lambda>seat. if request_data r = bytes_of ''available'' then st_user seat = None else st_user seat = Some (request_username r)"
  obtain vs s2 where se: "select_seats ?P [0..<NUM_SEATS] s1 = (vs, s2)" by force
  have vs: "length vs \<le> 100" and h2: "sv_host s2 = sv_host s1"
    using select_seats_spec [OF se] length_filter_le [of "\<lambda>i. ?P (sv_seats s1 ! i)" "[0..<NUM_SEATS]"]
    by (auto simp: NUM_SEATS_def)
  let ?s3 = "pthread_mutex_unlock (User_mutex (nat uid)) s2"
  have q3: "settled s ?s3" using h1 h2 by (intro settled_host) simp
  obtain s4 where al: "allocate (length vs * 8) ?s3 = (True, s4)" "settled ?s3 s4"
    using allocate_total [OF settled_sound [OF q3 s], of "length vs * 8"] vs by (auto simp: PTRDIFF_MAX_def)
  show ?thesis
  proof (cases "has_data r \<and> (request_data r = bytes_of ''available'' \<or> request_data r = bytes_of ''booked'') \<and> \<not> uid < 0")
    case False
    then show ?thesis using h1 by (auto simp: answers_def handle_confirm_booking_request_def l Let_def settled_host)
  next
    case True
    then have nn: "\<not> (request_data r \<noteq> bytes_of ''available'' \<and> request_data r \<noteq> bytes_of ''booked'')" by blast
    show ?thesis
      unfolding answers_def handle_confirm_booking_request_def Let_def l prod.case if_not_P [OF nn] se
      using True al(1) q3 settled_trans [OF q3 al(2)] by simp
  qed
qed

lemma query_answers:
  assumes s: "sound (sv_host s)"
  shows "answers (handle_query_request r a) s"
proof (cases "has_data r \<and> (\<exists>v. parse_seat_number r = Some v)")
  case False
  then show ?thesis by (auto simp: answers_def handle_query_request_def settled_host split: option.splits)
next
  case True
  then obtain v where v: "parse_seat_number r = Some v" "has_data r" by blast
  let ?s = "pthread_mutex_unlock (Seat_mutex (unat (v - 1))) (pthread_mutex_lock (Seat_mutex (unat (v - 1))) s)"
  obtain s2 where "allocate 24 ?s = (True, s2)" "settled ?s s2"
    using allocate_total [of ?s 24] s by (auto simp: PTRDIFF_MAX_def)
  then show ?thesis using v by (auto simp: answers_def handle_query_request_def Let_def settled_def)
qed

lemma logout_answers: "answers (handle_logout_request r a) s"
  by (auto simp: answers_def handle_logout_request_def Let_def settled_host)

text \<open>What the libraries must provide, and the room the server needs.\<close>

definition crypto_ok :: "crypto \<Rightarrow> bool" where
  "crypto_ok c \<longleftrightarrow> (\<forall>s. length (random_bytes c SALT_SIZE s) = SALT_SIZE)"

lemma login_answers:
  assumes s: "sound (sv_host s)" and u: "has_username r \<Longrightarrow> length (request_username r) < PTRDIFF_MAX" and c: "crypto_ok c"
    and room: "length (sv_users s) < NUM_USERS"
  shows "answers (handle_login_request c r a) s"
proof -
  let ?n = "request_username r"
  have save: "\<exists>sl s3. save_active_user a ?n s2 = Ret (sl, s3) \<and> settled s2 s3" if un: "has_username r" and so2: "sound (sv_host s2)" for s2
  proof -
    obtain s3 where "strdup ?n s2 = (Some ?n, s3)" "settled s2 s3" by (rule strdup_total [OF so2 u [OF un]])
    then show ?thesis by (cases "a = None") (auto simp: save_active_user_def settled_host split: option.split)
  qed
  show ?thesis
  proof (cases "(\<exists>n. a = Some (Some n)) \<or> \<not> has_username r \<or> \<not> has_data r")
    case True
    then show ?thesis by (auto simp: answers_def handle_login_request_def settled_host)
  next
    case False
    then have pre: "\<not> (a \<noteq> None \<and> the a \<noteq> None)" "has_username r" "has_data r" by (cases a; auto)+
    let ?s1 = "pthread_mutex_lock Array_mutex s"
    show ?thesis
    proof (cases "0 \<le> find_user s ?n")
      case True
      let ?m = "User_mutex (nat (find_user s ?n))"
      let ?s2 = "pthread_mutex_unlock Array_mutex (pthread_mutex_lock ?m ?s1)"
      let ?s3 = "pthread_mutex_unlock ?m (set_logged_in (nat (find_user s ?n)) True ?s2)"
      obtain sl s4 where sv: "save_active_user a ?n ?s3 = Ret (sl, s4)" "settled ?s3 s4" using save [OF pre(2), of ?s3] s by auto
      have q: "settled s s4" using sv(2) by (simp add: settled_def)
      show ?thesis using True pre sv(1) q
        by (auto simp: answers_def handle_login_request_def Let_def settled_host)
    next
      case none: False
      let ?salt = "random_bytes c SALT_SIZE ?s1"
      let ?hp = "take 127 (argon2_hash c (request_data r) ?salt)"
      have hp: "hash_password c (request_data r) ?s1 = Ret ?hp"
        using c by (simp add: hash_password_def generate_salt_def crypto_ok_def HASHED_PASSWORD_SIZE_def)
      have s1: "sound (sv_host ?s1)" using s by simp
      obtain s2 where d1: "strdup ?n ?s1 = (Some ?n, s2)" "settled ?s1 s2" by (rule strdup_total [OF s1 u [OF pre(2)]])
      have "length ?hp < PTRDIFF_MAX" by (simp add: PTRDIFF_MAX_def)
      then obtain s3 where d2: "strdup ?hp s2 = (Some ?hp, s3)" "settled s2 s3" by (rule strdup_total [OF settled_sound [OF d1(2) s1]])
      let ?s4 = "s3\<lparr>sv_users := sv_users s3 @ [\<lparr>us_username = ?n, us_hashed_password = ?hp, us_logged_in = False\<rparr>]\<rparr>"
      let ?u = "length (sv_users s3)"
      have au: "add_user ?n ?hp ?s1 = Ret (?u, ?s4)" using room d1(1) d2(1) by (simp add: add_user_def)
      let ?s5 = "pthread_mutex_unlock Array_mutex (pthread_mutex_unlock (User_mutex ?u)
        (set_logged_in ?u True (pthread_mutex_lock (User_mutex ?u) ?s4)))"
      have q5: "settled s ?s5" using settled_trans [OF d1(2) d2(2)] by (simp add: settled_def)
      obtain sl s6 where sv: "save_active_user a ?n ?s5 = Ret (sl, s6)" "settled ?s5 s6" using save [OF pre(2) settled_sound [OF q5 s]] by auto
      have "handle_login_request c r a s
        = Ret (login_code LOGIN_ERROR_SUCCESS, set_response (login_code LOGIN_ERROR_SUCCESS), sl, s6)"
        using none pre hp au sv(1) by (simp add: handle_login_request_def Let_def)
      then show ?thesis using settled_trans [OF q5 sv(2)] by (rule answersI)
    qed
  qed
qed

text \<open>The lengths of a request that a client can send leave both buffers their terminators.\<close>

lemma request_ok_bytes:
  assumes "request_ok r" shows "\<not> reads_missing_byte r a s"
proof -
  have "\<not> no_byte len" if "string_ok len p" for len p
  proof -
    have "unat len < PTRDIFF_MAX" using that by (simp add: string_ok_def)
    then have "len \<noteq> - 1" by (auto simp: PTRDIFF_MAX_def unsigned_minus_1_eq_mask mask_eq_exp_minus_1)
    then show ?thesis by (simp add: no_byte_def eq_neg_iff_add_eq_0)
  qed
  then show ?thesis using assms by (intro reads_present_bytes) (auto simp: request_ok_def)
qed

lemma handle_request_dispatch:
  assumes "\<And>s. \<not> reads_missing_byte r a s"
  shows
  "rq_action r = 1 \<Longrightarrow> handle_request c r a = handle_login_request c r a"
  "rq_action r = 2 \<Longrightarrow> handle_request c r a = handle_book_request r a"
  "rq_action r = 3 \<Longrightarrow> handle_request c r a = handle_confirm_booking_request r a"
  "rq_action r = 4 \<Longrightarrow> handle_request c r a = handle_cancel_booking_request r a"
  "rq_action r = 5 \<Longrightarrow> handle_request c r a = handle_logout_request r a"
  "rq_action r = 6 \<Longrightarrow> handle_request c r a = handle_query_request r a"
  using assms by (simp_all add: fun_eq_iff handle_request_def Let_def)

lemma request_answers:
  assumes "sound (sv_host s)" and "has_username r \<Longrightarrow> length (request_username r) < PTRDIFF_MAX" and "crypto_ok c"
    and "length (sv_users s) < NUM_USERS" and present: "\<And>s. \<not> reads_missing_byte r a s"
  shows "answers (handle_request c r a) s"
proof -
  consider "rq_action r = 1" | "rq_action r = 2" | "rq_action r = 3" | "rq_action r = 4" | "rq_action r = 5" | "rq_action r = 6"
    | "rq_action r \<notin> {1, 2, 3, 4, 5, 6}" by blast
  then show ?thesis
  proof cases
    case 7
    then show ?thesis using present by (auto simp: answers_def handle_request_def Let_def settled_host)
  qed (simp_all add: handle_request_dispatch [OF present] login_answers [OF assms(1-4)] book_answers [OF assms(1,2)] confirm_answers [OF assms(1)]
      cancel_answers logout_answers query_answers [OF assms(1)])
qed

section \<open>One exchange\<close>

text \<open>What a client descriptor of the server needs: it is open, and its request is in the pipe.\<close>

lemma reads_quiet_books: "reads fd s s' \<Longrightarrow> only_host s s'"
  by (auto simp: reads_def only_host_def)

lemma reads_out: "reads fd s s' \<Longrightarrow> h_out (sv_host s') = h_out (sv_host s)"
  by (auto simp: reads_def host_took_def)

lemma serve_client_answers:
  assumes ok: "system_ok D s" and t: "t < length D" and fd: "fd \<noteq> td_pipe_out_fd (D ! t)"
    and i: "place fd_at D (t, i) = Some fd"
    and d: "delivers fd (enc_request r @ rest) (sv_host s)" and r: "request_ok r"
    and c: "crypto_ok c" and room: "length (sv_users s) < NUM_USERS"
  obtains salt resp a' s' code where
    "serve_client c fd (D ! t) s = Ret (set_active_user i a' (D ! t), s')"
    and "spec_handle c (take 127 (argon2_hash c (request_data r) salt)) r (place user_at D (t, i)) (abs s) = (code, resp, a', abs s')"
    and "delivers fd rest (sv_host s')" and "h_out (sv_host s') = (h_out (sv_host s))(fd := h_out (sv_host s) fd @ enc_response resp)"
    and "response_ok resp"
proof -
  obtain s1 where rc: "receive_request fd s = Ret (True, r, s1)" "reads fd s s1" "delivers fd rest (sv_host s1)"
    by (rule receive_request_spec [OF d r])
  have p: "pollset_ok (D ! t)" using ok t by (simp add: system_ok_def)
  have ii: "i < size_of (D ! t)" "pf_fd (ps_set (td_poll_set (D ! t)) ! i) = fd"
    using i t by (auto simp: place_def fd_at_def split: if_splits)
  have inj: "part_inj (place fd_at D)" using ok by (simp add: system_ok_def)
  have fi: "find_fd_in_pollset (td_poll_set (D ! t)) fd = int i"
    using p
  proof (cases rule: find_fd_cases [of "D ! t" fd])
    case none
    then show ?thesis using ii by blast
  next
    case (found j)
    then have "place fd_at D (t, j) = Some fd" using t by (simp add: place_def fd_at_def)
    from part_injD [OF inj this i] show ?thesis using found by simp
  qed
  let ?m = "Poll_mutex (td_thread_index (D ! t))"
  let ?s2 = "pthread_mutex_unlock ?m (pthread_mutex_lock ?m s1)"
  let ?a = "ps_active_users (td_poll_set (D ! t)) ! i"
  have same: "sv_users s1 = sv_users s" "sv_seats s1 = sv_seats s" using reads_quiet_books [OF rc(2)] by (simp_all add: only_host_def)
  have a2: "abs ?s2 = abs s" by (rule abs_cong) (simp_all add: same)
  have ok2: "server_ok ?s2" using ok server_ok_cong [of ?s2 s] same by (simp add: system_ok_def)
  have so: "sound (sv_host ?s2)" "fd \<in> h_open (sv_host ?s2)" using rc(3) by (simp_all add: delivers_def)
  have len: "length (request_username r) < PTRDIFF_MAX" if un: "has_username r"
  proof -
    obtain bs where bs: "rq_username r = Some bs" using un by (auto simp: has_username_def)
    then have "length bs < PTRDIFF_MAX" using r by (simp add: request_ok_def string_ok_def)
    then show ?thesis using bs length_cstr_le [of bs] by (simp add: request_username_def)
  qed
  have room2: "length (sv_users ?s2) < NUM_USERS" using room same by simp
  obtain code resp sl s3 where h: "handle_request c r (Some ?a) ?s2 = Ret (code, resp, sl, s3)" "settled ?s2 s3"
    using request_answers [OF so(1) len c room2 request_ok_bytes [OF r], of "Some ?a"] by (auto simp: answers_def)
  obtain salt a' where sp: "sl = Some a'"
      "spec_handle c (take 127 (argon2_hash c (request_data r) salt)) r ?a (abs ?s2) = (code, resp, a', abs s3)"
    using handle_request_refines [OF ok2 h(1)] by blast
  have ro: "response_ok resp" by (rule spec_handle_response_ok [OF sp(2)])
  have so3: "sound (sv_host s3)" "fd \<in> h_open (sv_host s3)" "h_in (sv_host s3) = h_in (sv_host s1)"
    "h_out (sv_host s3) = h_out (sv_host s1)"
    using h(2) so by (simp_all add: settled_def host_took_0)
  obtain hh where sn: "send_response fd resp s3 = Ret (True, s3\<lparr>sv_host := hh\<rparr>)" "host_gave fd (enc_response resp) (sv_host s3) hh"
    by (rule send_response_spec [OF so3(2,1) ro])
  show thesis
  proof
    show "serve_client c fd (D ! t) s = Ret (set_active_user i a' (D ! t), s3\<lparr>sv_host := hh\<rparr>)"
      using rc(1) fi h(1) sp(1) sn(1) by (simp add: serve_client_def Let_def)
    show "spec_handle c (take 127 (argon2_hash c (request_data r) salt)) r (place user_at D (t, i)) (abs s)
        = (code, resp, a', abs (s3\<lparr>sv_host := hh\<rparr>))"
      using sp(2) a2 t ii(1) abs_cong [of "s3\<lparr>sv_host := hh\<rparr>" s3] by (simp add: place_def user_at_def)
    show "delivers fd rest (sv_host (s3\<lparr>sv_host := hh\<rparr>))"
      using sn(2) rc(3) so3 by (simp add: delivers_def host_gave_def)
    show "h_out (sv_host (s3\<lparr>sv_host := hh\<rparr>)) = (h_out (sv_host s))(fd := h_out (sv_host s) fd @ enc_response resp)"
      using sn(2) so3(4) reads_out [OF rc(2)] by (simp add: host_gave_def)
    show "response_ok resp" by (rule ro)
  qed
qed

end
