(* ===== verification/Pa3_Locks.thy ===== *)
theory Pa3_Locks
  imports Pa3_System "HOL-Library.Multiset"
begin

text \<open>
  The locks: every thread takes them in the order poll set, user array, user, seat, and gives back
  what it took. Threads that keep to this order never block each other for good.
\<close>

section \<open>The order of the locks\<close>

fun rank :: "mutex \<Rightarrow> nat" where
  "rank (Poll_mutex t) = 0"
| "rank Array_mutex = 1"
| "rank (User_mutex i) = 2"
| "rank (Seat_mutex i) = 3"

text \<open>
  \<open>disciplined held ops\<close>: what a thread holds after the operations, if it acquires only locks that come
  after all it holds and releases only locks it holds.
\<close>

fun disciplined :: "mutex list \<Rightarrow> lock_op list \<Rightarrow> mutex list option" where
  "disciplined held [] = Some held"
| "disciplined held (Acquire m # ops) = (if \<forall>h\<in>set held. rank h < rank m then disciplined (m # held) ops else None)"
| "disciplined held (Release m # ops) = (if m \<in> set held then disciplined (remove1 m held) ops else None)"

lemma disciplined_append: "disciplined held (a @ b) = (case disciplined held a of None \<Rightarrow> None | Some h \<Rightarrow> disciplined h b)"
  by (induction held a rule: disciplined.induct) auto

text \<open>Operations that leave nothing held, for a thread that holds only locks of rank below \<open>k\<close>.\<close>

definition balanced :: "nat \<Rightarrow> lock_op list \<Rightarrow> bool" where
  "balanced k ops \<longleftrightarrow> (\<forall>held. (\<forall>h\<in>set held. rank h < k) \<longrightarrow> disciplined held ops = Some held)"

definition locks :: "nat \<Rightarrow> server \<Rightarrow> server \<Rightarrow> bool" where
  "locks k s s' \<longleftrightarrow> (\<exists>ops. sv_log s' = sv_log s @ ops \<and> balanced k ops)"

lemma balanced_Nil [simp]: "balanced k []"
  by (simp add: balanced_def)

lemma balanced_append: "balanced k a \<Longrightarrow> balanced k b \<Longrightarrow> balanced k (a @ b)"
  by (simp add: balanced_def disciplined_append)

lemma balanced_mono: "balanced k ops \<Longrightarrow> j \<le> k \<Longrightarrow> balanced j ops"
  by (fastforce simp: balanced_def)

lemma remove1_same: "m \<notin> set (a :: mutex list) \<Longrightarrow> remove1 m (a @ m # b) = a @ b"
  by (simp add: remove1_append)

lemma balanced_bracket:
  assumes "balanced (Suc (rank m)) ops" and "k \<le> rank m"
  shows "balanced k (Acquire m # ops @ [Release m])"
  unfolding balanced_def
proof (intro allI impI)
  fix held assume h: "\<forall>h\<in>set held. rank h < k"
  then have l: "\<forall>h\<in>set held. rank h < rank m" using assms(2) by auto
  then have "\<forall>h\<in>set (m # held). rank h < Suc (rank m)" by auto
  then have "disciplined (m # held) ops = Some (m # held)" using assms(1) unfolding balanced_def by blast
  then show "disciplined held (Acquire m # ops @ [Release m]) = Some held" using l by (simp add: disciplined_append)
qed

lemma locks_refl [simp]: "locks k s s"
  by (simp add: locks_def)

lemma locks_same: "sv_log s' = sv_log s \<Longrightarrow> locks k s s'"
  by (simp add: locks_def)

lemma locks_only_host: "only_host s s' \<Longrightarrow> locks k s s'"
  by (simp add: locks_same only_host_def)

lemma locks_trans: "locks k s s1 \<Longrightarrow> locks k s1 s2 \<Longrightarrow> locks k s s2"
  unfolding locks_def using balanced_append by force

lemma locks_mono: "locks k s s' \<Longrightarrow> j \<le> k \<Longrightarrow> locks j s s'"
  unfolding locks_def using balanced_mono by blast

text \<open>States with the same log behave alike.\<close>

lemma locks_cong: "sv_log s1 = sv_log s2 \<Longrightarrow> sv_log s1' = sv_log s2' \<Longrightarrow> locks k s1 s1' = locks k s2 s2'"
  by (simp add: locks_def)

lemma locks_bracket:
  assumes "locks (Suc (rank m)) (pthread_mutex_lock m s) s1" and "k \<le> rank m"
  shows "locks k s (pthread_mutex_unlock m s1)"
proof -
  obtain ops where "sv_log s1 = sv_log s @ Acquire m # ops" "balanced (Suc (rank m)) ops"
    using assms(1) by (auto simp: locks_def pthread_mutex_lock_def)
  then show ?thesis
    using balanced_bracket [OF _ assms(2), of ops] by (auto simp: locks_def pthread_mutex_unlock_def)
qed

lemma lock_log [simp]:
  "sv_log (pthread_mutex_lock m s) = sv_log s @ [Acquire m]"
  "sv_log (pthread_mutex_unlock m s) = sv_log s @ [Release m]"
  "sv_log (set_logged_in i b s) = sv_log s" "sv_log (set_seat i st s) = sv_log s"
  by (simp_all add: pthread_mutex_lock_def pthread_mutex_unlock_def set_logged_in_def set_seat_def)

lemma same_log [dest]:
  "allocate n s = (g, s') \<Longrightarrow> sv_log s' = sv_log s" "strdup x s = (r, s') \<Longrightarrow> sv_log s' = sv_log s"
  by (rule allocate_same(3), assumption) (rule strdup_same(3), assumption)

lemma locks_ops: "sv_log s' = sv_log s @ ops \<Longrightarrow> balanced k ops \<Longrightarrow> locks k s s'"
  by (auto simp: locks_def)

text \<open>The sequences of the handlers.\<close>

lemma balanced_sequence:
  assumes "\<And>held. (\<And>h. h \<in> set held \<Longrightarrow> rank h = 0) \<Longrightarrow> disciplined held ops = Some held"
  shows "balanced 1 ops"
  using assms unfolding balanced_def by (metis less_one)

lemma balanced_sequences:
  shows "balanced 1 [Acquire Array_mutex, Release Array_mutex]"
    and "balanced 1 [Acquire Array_mutex, Acquire (User_mutex u), Release Array_mutex, Release (User_mutex u)]"
    and "balanced 1 [Acquire Array_mutex, Acquire (User_mutex u), Release (User_mutex u), Release Array_mutex]"
    and "balanced 1 [Acquire Array_mutex, Acquire (User_mutex u), Release Array_mutex, Acquire (Seat_mutex i),
      Release (Seat_mutex i), Release (User_mutex u)]"
    and "balanced 1 [Acquire (Seat_mutex i), Release (Seat_mutex i)]"
  by (rule balanced_sequence; simp)+

section \<open>The handlers\<close>

lemma lock_logged_in_user_locks:
  assumes "lock_logged_in_user r a s = (uid, s1)"
  shows "if uid < 0 then locks 1 s s1
    else sv_log s1 = sv_log s @ [Acquire Array_mutex, Acquire (User_mutex (nat uid)), Release Array_mutex]"
  using assms balanced_sequences
  by (auto simp: lock_logged_in_user_def Let_def intro: locks_ops split: if_splits)

lemma save_active_user_locks: "save_active_user a n s = Ret (sl, s') \<Longrightarrow> sv_log s' = sv_log s"
  by (auto simp: save_active_user_def split: option.splits prod.splits)

lemma add_user_locks: "add_user n h s = Ret (uid, s') \<Longrightarrow> sv_log s' = sv_log s"
  by (auto simp: add_user_def dest!: same_log split: if_splits option.splits prod.splits)

lemma handle_book_locks:
  assumes "handle_book_request r a s = Ret (code, resp, sl, s')"
  shows "locks 1 s s'"
proof -
  obtain uid s1 where l: "lock_logged_in_user r a s = (uid, s1)" by force
  note ll = lock_logged_in_user_locks [OF l]
  have "s' = s \<or> uid < 0 \<and> s' = s1 \<or> \<not> uid < 0 \<and> (\<exists>i. sv_log s' = sv_log s1 @ [Acquire (Seat_mutex i), Release (Seat_mutex i), Release (User_mutex (nat uid))])"
    using assms by (auto simp: handle_book_request_def Let_def l split: if_splits option.splits prod.splits)
  then show ?thesis using ll balanced_sequences(4) by (auto intro: locks_ops split: if_splits)
qed

lemma handle_cancel_locks:
  assumes "handle_cancel_booking_request r a s = Ret (code, resp, sl, s')"
  shows "locks 1 s s'"
proof -
  obtain uid s1 where l: "lock_logged_in_user r a s = (uid, s1)" by force
  note ll = lock_logged_in_user_locks [OF l]
  have "s' = s \<or> uid < 0 \<and> s' = s1 \<or> \<not> uid < 0 \<and> (\<exists>i. sv_log s' = sv_log s1 @ [Acquire (Seat_mutex i), Release (Seat_mutex i), Release (User_mutex (nat uid))])"
    using assms by (auto simp: handle_cancel_booking_request_def Let_def l split: if_splits option.splits prod.splits)
  then show ?thesis using ll balanced_sequences(4) by (auto intro: locks_ops split: if_splits)
qed

lemma select_seats_locks: "select_seats P is s = (vs, s') \<Longrightarrow> locks 3 s s'"
proof (induction "is" arbitrary: s vs s')
  case Nil
  then show ?case by simp
next
  case (Cons i "is")
  let ?s = "pthread_mutex_unlock (Seat_mutex i) (pthread_mutex_lock (Seat_mutex i) s)"
  obtain ws s2 where se: "select_seats P is ?s = (ws, s2)" by force
  have "locks 3 s ?s" by (rule locks_bracket) simp_all
  moreover have "s' = s2" using Cons.prems se by (simp add: Let_def)
  ultimately show ?case using Cons.IH [OF se] locks_trans by blast
qed

lemma handle_confirm_locks:
  assumes "handle_confirm_booking_request r a s = Ret (code, resp, sl, s')"
  shows "locks 1 s s'"
proof -
  obtain uid s1 where l: "lock_logged_in_user r a s = (uid, s1)" by force
  note ll = lock_logged_in_user_locks [OF l]
  have c: "s' = s \<or> uid < 0 \<and> s' = s1 \<or> \<not> uid < 0 \<and> (\<exists>P vs s2. select_seats P [0..<NUM_SEATS] s1 = (vs, s2)
      \<and> sv_log s' = sv_log s2 @ [Release (User_mutex (nat uid))])"
    using assms by (auto simp: handle_confirm_booking_request_def Let_def l split: if_splits prod.splits; fastforce)
  show ?thesis
  proof (cases "uid < 0 \<or> s' = s")
    case True
    then show ?thesis using c ll by auto
  next
    case False
    then obtain P vs s2 where se: "select_seats P [0..<NUM_SEATS] s1 = (vs, s2)"
      and lg: "sv_log s' = sv_log s2 @ [Release (User_mutex (nat uid))]" using c by auto
    from select_seats_locks [OF se] obtain ops where o: "sv_log s2 = sv_log s1 @ ops" "balanced 3 ops" by (auto simp: locks_def)
    let ?u = "User_mutex (nat uid)"
    have "balanced 1 ([Acquire Array_mutex, Acquire ?u, Release Array_mutex] @ ops @ [Release ?u])"
      unfolding balanced_def
    proof (intro allI impI)
      fix held assume h: "\<forall>h\<in>set held. rank h < 1"
      have "disciplined (?u # held) ops = Some (?u # held)" using o(2) h by (fastforce simp: balanced_def)
      then show "disciplined held ([Acquire Array_mutex, Acquire ?u, Release Array_mutex] @ ops @ [Release ?u]) = Some held"
        using h by (fastforce simp: disciplined_append)
    qed
    then show ?thesis using ll lg o(1) False by (intro locks_ops) auto
  qed
qed

lemma handle_query_locks:
  assumes "handle_query_request r a s = Ret (code, resp, sl, s')"
  shows "locks 1 s s'"
proof -
  have "s' = s \<or> (\<exists>i. sv_log s' = sv_log s @ [Acquire (Seat_mutex i), Release (Seat_mutex i)])"
    using assms by (auto simp: handle_query_request_def Let_def split: if_splits option.splits prod.splits)
  then show ?thesis using balanced_sequences(5) by (auto intro: locks_ops)
qed

lemma handle_logout_locks:
  assumes "handle_logout_request r a s = Ret (code, resp, sl, s')"
  shows "locks 1 s s'"
  using assms balanced_sequences
  by (auto simp: handle_logout_request_def Let_def intro: locks_ops split: if_splits)

lemma handle_login_locks:
  assumes "handle_login_request c r a s = Ret (code, resp, sl, s')"
  shows "locks 1 s s'"
proof -
  have "s' = s \<or> (\<exists>u. sv_log s' = sv_log s @ [Acquire Array_mutex, Acquire (User_mutex u), Release Array_mutex, Release (User_mutex u)]
      \<or> sv_log s' = sv_log s @ [Acquire Array_mutex, Acquire (User_mutex u), Release (User_mutex u), Release Array_mutex])"
    using assms
    by (auto simp: handle_login_request_def Let_def bind_run_Ret split: if_splits dest!: save_active_user_locks add_user_locks)
  then show ?thesis using balanced_sequences by (auto intro: locks_ops)
qed

lemma handle_request_locks:
  assumes "handle_request c r a s = Ret (code, resp, sl, s')"
  shows "locks 1 s s'"
  using assms
  by (cases rule: handle_request_elim)
    (auto dest: handle_login_locks handle_book_locks handle_confirm_locks handle_cancel_locks handle_logout_locks handle_query_locks)

section \<open>The worker\<close>

lemma deactivate_user_locks: "locks 1 s (deactivate_user a s)"
  using balanced_sequences
  by (auto simp: deactivate_user_def Let_def intro: locks_ops split: option.splits)

lemma remove_fd_locks:
  assumes "remove_fd_from_pollset d fd s = (d', s')"
  shows "locks 0 s s'"
proof -
  let ?m = "Poll_mutex (td_thread_index d)"
  obtain s1 where s': "s' = pthread_mutex_unlock ?m s1"
    and s1: "s1 = pthread_mutex_lock ?m s \<or> (\<exists>a fd. s1 = close_fd fd (deactivate_user a (pthread_mutex_lock ?m s)))"
    using assms by (auto simp: remove_fd_from_pollset_def remove_from_pollset_def Let_def split: if_splits)
  have "locks 1 (pthread_mutex_lock ?m s) s1"
    using s1 locks_trans [OF deactivate_user_locks locks_only_host [OF only_host_close]] by auto
  then show ?thesis unfolding s' by (intro locks_bracket) simp_all
qed

lemma serve_client_locks:
  assumes "serve_client c fd d s = Ret (d', s')"
  shows "locks 0 s s'"
proof -
  obtain received rq s1 where rc: "receive_request fd s = Ret (received, rq, s1)"
    using assms by (auto simp: serve_client_def bind_run_Ret)
  have l1: "locks 0 s s1" by (rule locks_only_host [OF only_host_receive [OF rc]])
  let ?m = "Poll_mutex (td_thread_index d)"
  let ?s2 = "pthread_mutex_unlock ?m (pthread_mutex_lock ?m s1)"
  have l2: "locks 0 s1 ?s2" by (rule locks_bracket) simp_all
  let ?i = "find_fd_in_pollset (td_poll_set d) fd"
  show ?thesis
  proof (cases "received \<and> \<not> ?i < 0")
    case False
    then have "remove_fd_from_pollset d fd s1 = (d', s') \<or> s' = ?s2"
      using assms rc by (auto simp: serve_client_def Let_def split: if_splits)
    then have "locks 0 s1 s'" using remove_fd_locks [of d fd s1 d' s'] l2 by auto
    then show ?thesis by (rule locks_trans [OF l1])
  next
    case True
    obtain code resp sl s3 where h: "handle_request c rq (Some (ps_active_users (td_poll_set d) ! nat ?i)) ?s2 = Ret (code, resp, sl, s3)"
      using assms rc True by (auto simp: serve_client_def Let_def bind_run_Ret)
    let ?d = "set_active_user (nat ?i) (the sl) d"
    obtain sent s4 where sn: "send_response fd resp s3 = Ret (sent, s4)"
      and fin: "(if \<not> sent then remove_fd_from_pollset ?d fd s4 else (?d, s4)) = (d', s')"
      using assms rc True h by (auto simp: serve_client_def Let_def bind_run_Ret split: if_splits)
    have "locks 0 ?s2 s3" using handle_request_locks [OF h] locks_mono by blast
    moreover have "locks 0 s3 s4" by (rule locks_only_host [OF only_host_send [OF sn]])
    moreover have "locks 0 s4 s'" using fin remove_fd_locks by (auto split: if_splits)
    ultimately show ?thesis using l1 l2 locks_trans by blast
  qed
qed

lemma serve_events_locks: "serve_events c stop ps n d s = Ret (d', s') \<Longrightarrow> locks 0 s s'"
proof (induction ps arbitrary: n d s)
  case Nil
  then show ?case by simp
next
  case (Cons p ps)
  show ?case
  proof (cases "n = 0 \<or> pf_revents p = 0")
    case True
    then show ?thesis using Cons by (cases "n = 0") auto
  next
    case False
    show ?thesis
    proof (cases "pf_fd p = td_pipe_out_fd d")
      case True
      obtain k bs h where r: "host_read (td_pipe_out_fd d) 64 (sv_host s) = (k, bs, h)" by (metis prod.exhaust)
      have "s' = s\<lparr>sv_host := h\<rparr> \<or> serve_events c stop ps (n - 1) d (s\<lparr>sv_host := h\<rparr>) = Ret (d', s')"
        using Cons.prems False True r by (auto split: if_splits)
      moreover have "locks 0 s (s\<lparr>sv_host := h\<rparr>)" by (simp add: locks_same)
      ultimately show ?thesis using Cons.IH locks_trans by blast
    next
      case client: False
      obtain d1 s1 where e: "serve_event c p d s = Ret (d1, s1)" and rest: "serve_events c stop ps (n - 1) d1 s1 = Ret (d', s')"
        using Cons.prems False client by (auto simp: bind_run_Ret)
      have "locks 0 s s1" using e serve_client_locks remove_fd_locks by (auto simp: serve_event_def split: if_splits)
      then show ?thesis using Cons.IH [OF rest] locks_trans by blast
    qed
  qed
qed

lemma thread_func_locks: "thread_func c turns d s = Ret (d', s') \<Longrightarrow> locks 0 s s'"
proof (induction turns arbitrary: d s)
  case Nil
  then show ?case by simp
next
  case (Cons x turns)
  let ?m = "Poll_mutex (td_thread_index d)"
  let ?s = "pthread_mutex_unlock ?m (pthread_mutex_lock ?m s)"
  have st: "locks 0 s ?s" by (rule locks_bracket) simp_all
  show ?case
  proof (cases "turn_stop x")
    case True
    then show ?thesis using Cons.prems by simp
  next
    case False
    have "locks 0 ?s s'"
    proof (cases "turn_poll x")
      case Poll_interrupted
      then have "thread_func c turns d ?s = Ret (d', s')" using Cons.prems False by (simp add: Let_def)
      then show ?thesis by (rule Cons.IH)
    next
      case Poll_failed
      then show ?thesis using Cons.prems False by (auto simp: Let_def)
    next
      case (Poll_ready revents)
      obtain d1 s1 n ps where e: "serve_events c (turn_signal x) ps n d ?s = Ret (d1, s1)"
        and rest: "thread_func c turns d1 s1 = Ret (d', s')"
        using Cons.prems False Poll_ready by (auto simp: Let_def bind_run_Ret)
      show ?thesis using serve_events_locks [OF e] Cons.IH [OF rest] locks_trans by blast
    qed
    then show ?thesis using st locks_trans by blast
  qed
qed

text \<open>The main thread.\<close>

lemma find_suitable_from_locks: "find_suitable_from D k m n s = (r, s') \<Longrightarrow> locks 0 s s'"
proof (induction D arbitrary: k m n s)
  case Nil
  then show ?case by simp
next
  case (Cons d D)
  let ?s = "pthread_mutex_unlock (Poll_mutex k) (pthread_mutex_lock (Poll_mutex k) s)"
  obtain m' n' where "find_suitable_from D (k + 1) m' n' ?s = (r, s')" using Cons.prems by (auto simp: Let_def split: if_splits)
  from Cons.IH [OF this] have "locks 0 ?s s'" .
  moreover have "locks 0 s ?s" by (rule locks_bracket) simp_all
  ultimately show ?case using locks_trans by blast
qed

lemma accept_client_locks:
  assumes "accept_client pipe_fds connfd D s = Some (D', s')"
  shows "locks 0 s s'"
proof -
  obtain r s1 where f: "find_suitable_pollset D s = (r, s1)" by force
  let ?m = "Poll_mutex (nat r)"
  let ?s2 = "pthread_mutex_unlock ?m (pthread_mutex_lock ?m s1)"
  have "only_host ?s2 s'"
    using assms f only_host_close only_host_notify
    by (auto simp: accept_client_def add_to_pollset_def Let_def split: if_splits)
  then have "locks 0 ?s2 s'" by (rule locks_only_host)
  moreover have "locks 0 s1 ?s2" by (rule locks_bracket) simp_all
  moreover have "locks 0 s s1" using f find_suitable_from_locks by (simp add: find_suitable_pollset_def)
  ultimately show ?thesis using locks_trans by blast
qed

section \<open>Threads that run together\<close>

text \<open>
  A thread is what it holds and the operations that are left. A lock is acquired when no thread holds it.
\<close>

type_synonym lock_thread = "mutex list \<times> lock_op list"

inductive lock_step :: "lock_thread list \<Rightarrow> lock_thread list \<Rightarrow> bool" where
  acquire: "i < length T \<Longrightarrow> T ! i = (held, Acquire m # ops) \<Longrightarrow> \<forall>x\<in>set T. m \<notin> set (fst x) \<Longrightarrow>
    lock_step T (T[i := (m # held, ops)])"
| release: "i < length T \<Longrightarrow> T ! i = (held, Release m # ops) \<Longrightarrow> lock_step T (T[i := (remove1 m held, ops)])"

definition orderly :: "lock_thread list \<Rightarrow> bool" where
  "orderly T \<longleftrightarrow> (\<forall>x\<in>set T. disciplined (fst x) (snd x) = Some [])"

text \<open>No lock is held by two threads, or twice by one.\<close>

definition exclusive :: "lock_thread list \<Rightarrow> bool" where
  "exclusive T \<longleftrightarrow> distinct (concat (map fst T))"

lemma orderly_step: "lock_step T T' \<Longrightarrow> orderly T \<Longrightarrow> orderly T'"
proof (induction rule: lock_step.induct)
  case (acquire i T held m ops)
  then have "(held, Acquire m # ops) \<in> set T" by (metis nth_mem)
  then have "disciplined (m # held) ops = Some []" using acquire.prems by (fastforce simp: orderly_def split: if_splits)
  then show ?case using acquire.prems set_update_subset_insert [of T i] by (fastforce simp: orderly_def)
next
  case (release i T held m ops)
  then have "(held, Release m # ops) \<in> set T" by (metis nth_mem)
  then have "disciplined (remove1 m held) ops = Some []" using release.prems by (fastforce simp: orderly_def split: if_splits)
  then show ?case using release.prems set_update_subset_insert [of T i] by (fastforce simp: orderly_def)
qed

lemma concat_update: "i < length T \<Longrightarrow> T ! i = (held, ops) \<Longrightarrow>
    mset (concat (map fst (T[i := (held', ops')]))) + mset held = mset (concat (map fst T)) + mset held'"
proof (induction T arbitrary: i)
  case (Cons x T)
  then show ?case by (cases i) auto
qed simp

lemma distinct_submset:
  assumes "mset xs \<subseteq># mset ys" and "distinct ys"
  shows "distinct xs"
proof -
  obtain zs where "mset ys = mset (xs @ zs)" using assms(1) by (metis ex_mset mset_append subset_mset.le_iff_add)
  then have "distinct (xs @ zs)" using assms(2) mset_eq_imp_distinct_iff by blast
  then show ?thesis by simp
qed

lemma exclusive_step: "lock_step T T' \<Longrightarrow> exclusive T \<Longrightarrow> exclusive T'"
proof (induction rule: lock_step.induct)
  case (acquire i T held m ops)
  have "mset (concat (map fst (T[i := (m # held, ops)]))) = mset (m # concat (map fst T))"
    using concat_update [OF acquire(1,2), of "m # held" ops] by simp
  moreover have "distinct (m # concat (map fst T))" using acquire by (auto simp: exclusive_def)
  ultimately show ?case unfolding exclusive_def by (metis mset_eq_imp_distinct_iff)
next
  case (release i T held m ops)
  have "mset (concat (map fst (T[i := (remove1 m held, ops)]))) + mset held = mset (concat (map fst T)) + mset (remove1 m held)"
    by (rule concat_update [OF release(1,2)])
  then have "mset (concat (map fst (T[i := (remove1 m held, ops)]))) \<subseteq># mset (concat (map fst T))"
    by (metis add_le_cancel_right diff_subset_eq_self mset_remove1 subset_mset.add_le_cancel_right subset_mset.add_left_mono)
  then show ?case using release.prems unfolding exclusive_def by (rule distinct_submset)
qed

text \<open>A thread that waits for the lock of the highest rank waits for nobody.\<close>

lemma orderly_progress:
  assumes o: "orderly T" and w: "\<exists>x\<in>set T. snd x \<noteq> []"
  shows "\<exists>T'. lock_step T T'"
proof (cases "\<exists>i<length T. \<exists>m ops. snd (T ! i) = Release m # ops")
  case True
  then obtain i m ops where "i < length T" "T ! i = (fst (T ! i), Release m # ops)" by (metis prod.collapse)
  from lock_step.release [OF this] show ?thesis by blast
next
  case False
  let ?wanted = "\<lambda>i. case snd (T ! i) of Acquire m # ops \<Rightarrow> rank m | _ \<Rightarrow> 0"
  let ?W = "{i. i < length T \<and> snd (T ! i) \<noteq> []}"
  obtain x where "x \<in> set T" "snd x \<noteq> []" using w by blast
  then obtain k where "k \<in> ?W" by (force simp: in_set_conv_nth)
  then have "finite ?W" "?W \<noteq> {}" by auto
  then have "Max (?wanted ` ?W) \<in> ?wanted ` ?W" by (intro Max_in) auto
  then obtain i where i: "i \<in> ?W" and top: "?wanted i = Max (?wanted ` ?W)" by (metis (no_types, lifting) imageE)
  have mx: "\<forall>j\<in>?W. ?wanted j \<le> ?wanted i" unfolding top using \<open>finite ?W\<close> by (auto intro: Max_ge)
  obtain m ops where m: "snd (T ! i) = Acquire m # ops" using i False by (metis (lifting) lock_op.exhaust mem_Collect_eq neq_Nil_conv)
  have "m \<notin> set (fst x)" if x: "x \<in> set T" for x
  proof
    assume h: "m \<in> set (fst x)"
    obtain j where j: "j < length T" "x = T ! j" using x by (auto simp: in_set_conv_nth)
    have d: "disciplined (fst x) (snd x) = Some []" using o x by (auto simp: orderly_def)
    show False
    proof (cases "snd x")
      case Nil
      then show False using d h by simp
    next
      case (Cons op ops')
      then obtain m' where m': "op = Acquire m'" using False j by (cases op) auto
      then have "rank m < rank m'" using d Cons h by (auto split: if_splits)
      moreover have "rank m' \<le> rank m" using mx j Cons m' m by fastforce
      ultimately show False by simp
    qed
  qed
  then have "lock_step T (T[i := (m # fst (T ! i), ops)])" using i m by (intro lock_step.acquire) (auto simp: prod_eq_iff)
  then show ?thesis by blast
qed

text \<open>Every step uses up an operation.\<close>

lemma sum_list_map_update:
  fixes f :: "'a \<Rightarrow> nat"
  shows "i < length T \<Longrightarrow> sum_list (map f (T[i := x])) + f (T ! i) = sum_list (map f T) + f x"
proof (induction T arbitrary: i)
  case (Cons y T)
  then show ?case by (cases i) auto
qed simp

definition lock_work :: "lock_thread list \<Rightarrow> nat" where
  "lock_work T = sum_list (map (\<lambda>x. length (snd x)) T)"

lemma lock_step_decreases: "lock_step T T' \<Longrightarrow> lock_work T' < lock_work T"
proof (induction rule: lock_step.induct)
  case (acquire i T held m ops)
  then show ?case
    using sum_list_map_update [of i T "\<lambda>x. length (snd x)" "(m # held, ops)"] by (simp add: lock_work_def)
next
  case (release i T held m ops)
  then show ?case
    using sum_list_map_update [of i T "\<lambda>x. length (snd x)" "(remove1 m held, ops)"] by (simp add: lock_work_def)
qed

lemma lock_run_keeps:
  assumes "lock_step\<^sup>*\<^sup>* T T'" and "orderly T" and "exclusive T"
  shows "orderly T' \<and> exclusive T'"
  using assms by (induction rule: rtranclp_induct) (auto intro: orderly_step exclusive_step)

lemma locks_orderly:
  assumes "\<forall>ops\<in>set logs. balanced 0 ops"
  shows "orderly (map (Pair []) logs)" "exclusive (map (Pair []) logs)"
proof -
  show "orderly (map (Pair []) logs)" using assms by (auto simp: orderly_def balanced_def)
  show "exclusive (map (Pair []) logs)" by (simp add: exclusive_def comp_def map_replicate_const)
qed

end
