(* ===== verification/Pa3_Seats.thy ===== *)
theory Pa3_Seats
  imports Pa3_Wire Pa3_Booking
begin

text \<open>
  The numbers in requests: which texts \<open>parse_seat_number\<close> accepts; and the lengths in requests: what
  \<open>receive_request\<close> and a login do when the buffer for a string has no byte.
\<close>

section \<open>Numbers of seats\<close>

definition decimal_request :: "nat \<Rightarrow> request \<Rightarrow> bool" where
  "decimal_request n r \<longleftrightarrow> rq_data r = Some (show_nat n) \<and> 0 < rq_data_size r"

lemma parse_decimal:
  assumes "decimal_request n r" and "n \<le> ULLONG_MAX"
  shows "parse_seat_number r = (if 1 \<le> n \<and> n \<le> NUM_SEATS then Some (of_nat n) else None)"
proof -
  have "0 \<notin> set (show_nat n)" using show_nat_digits [of n] digit_plain by blast
  then have data: "request_data r = show_nat n" using assms(1) by (simp add: request_data_def decimal_request_def cstr_id)
  have h: "has_data r" using assms(1) by (simp add: has_data_def decimal_request_def)
  have ne: "show_nat n \<noteq> []" using show_nat_digits [of n] by simp
  have u: "unat (of_nat n :: u64) = n" using assms(2) by (intro unat_u64) (simp add: ULLONG_MAX_def)
  have "(of_nat n :: u64) < 1 \<longleftrightarrow> n < 1" "(of_nat n :: u64) > of_nat NUM_SEATS \<longleftrightarrow> n > NUM_SEATS"
    using u by (simp_all add: word_less_nat_alt NUM_SEATS_def)
  then show ?thesis using h ne by (auto simp: parse_seat_number_def data strtoull_show_nat [OF assms(2)])
qed

text \<open>A minus sign is accepted: the value is taken modulo \<open>2 ^ 64\<close>.\<close>

lemma strtoull_negative: "strtoull (bytes_of ''-18446744073709551615'') = (1, 21, False)"
  by (simp add: strtoull_def bytes_of_def is_space_def is_digit_def Let_def ULLONG_MAX_def)

section \<open>Lengths that wrap\<close>

text \<open>
  A declared length of \<open>2 ^ 64 - 1\<close>: a buffer without a byte is granted, the count is refused, and the \<open>-1\<close> of the
  refused call is the length as \<open>ssize_t\<close>. So the string counts as received, and nothing was read.
\<close>

lemma safe_read_refused:
  assumes "SSIZE_MAX < count" and "fd \<in> h_open h"
  obtains h' where "safe_read fd count h = (-1, [], h')" and "host_took fd 0 h h'"
proof -
  obtain x h1 where x: "host_next h = (x, h1)" by force
  have h1: "host_took fd 0 h h1" using host_next_sound [OF x] by (simp add: host_took_0)
  have "safe_read fd count h = (-1, [], h1\<lparr>h_errno := EFAULT\<rparr>)"
    using assms h1 x by (simp add: safe_read_def safe_read_from.simps [of fd count "[]" h] host_read_def host_took_0)
  then show thesis using that h1 by (simp add: host_took_0)
qed

lemma read_string_wraps:
  assumes "delivers fd bs (sv_host s)"
  obtains s' where "read_string fd (-1) s = Ret (True, [], s')" and "reads fd s s'" and "delivers fd bs (sv_host s')"
proof -
  have so: "sound (sv_host s)" "fd \<in> h_open (sv_host s)" using assms by (simp_all add: delivers_def)
  have un: "unat ((-1 :: u64) + 1) = 0" by simp
  obtain h1 where h1: "host_alloc 0 (sv_host s) = (True, h1)" "host_took fd 0 (sv_host s) h1"
    using host_alloc_granted [OF so(1), of 0] by (metis host_took_0 le0)
  have big: "\<not> unat (-1 :: u64) \<le> SSIZE_MAX" "(0 :: nat) < unat (-1 :: u64)"
    by (simp_all add: unsigned_minus_1_eq_mask mask_eq_exp_minus_1 SSIZE_MAX_def)
  have "fd \<in> h_open h1" using h1(2) so(2) by (simp add: host_took_0)
  then obtain h2 where h2: "safe_read fd (unat (-1 :: u64)) h1 = (-1, [], h2)" "host_took fd 0 h1 h2"
    using safe_read_refused [of "unat (-1 :: u64)"] big(1) by (metis not_le)
  have t: "host_took fd 0 (sv_host s) h2" using host_took_trans [OF h1(2) h2(2)] by simp
  show thesis
  proof
    show "read_string fd (-1) s = Ret (True, [], s\<lparr>sv_host := h2\<rparr>)"
      using h1(1) h2(1) unfolding read_string_def allocate_def un read_fd_def by simp
    show "reads fd s (s\<lparr>sv_host := h2\<rparr>)" using reads_I [OF t] .
    show "delivers fd bs (sv_host (s\<lparr>sv_host := h2\<rparr>))" using t assms by (simp add: delivers_def host_took_0)
  qed
qed

text \<open>The request is accepted: its name is a buffer without a byte, and the data follow as they are.\<close>

definition nameless_request :: "u32 \<Rightarrow> byte list \<Rightarrow> request" where
  "nameless_request act bs = default_request\<lparr>rq_action := act, rq_username_length := -1, rq_username := Some [],
     rq_data_size := of_nat (length bs), rq_data := (if bs = [] then None else Some bs)\<rparr>"

lemma receive_request_wraps:
  assumes d: "delivers fd (enc_u32 act @ enc_u64 (-1) @ enc_u64 (of_nat (length bs)) @ bs @ rest) (sv_host s)"
    and len: "length bs < PTRDIFF_MAX"
  obtains s' where "receive_request fd s = Ret (True, nameless_request act bs, s')" and "delivers fd rest (sv_host s')"
proof -
  let ?dl = "of_nat (length bs) :: u64"
  obtain s1 where s1: "read_fd fd 4 s = (4, enc_u32 act, s1)" "delivers fd (enc_u64 (-1) @ enc_u64 ?dl @ bs @ rest) (sv_host s1)"
    by (rule read_fd_exact [OF d, of 4]) (simp_all add: SSIZE_MAX_def)
  obtain s2 where s2: "read_fd fd 8 s1 = (8, enc_u64 (-1), s2)" "delivers fd (enc_u64 ?dl @ bs @ rest) (sv_host s2)"
    by (rule read_fd_exact [OF s1(2), of 8]) (simp_all add: SSIZE_MAX_def)
  obtain s3 where s3: "read_fd fd 8 s2 = (8, enc_u64 ?dl, s3)" "delivers fd (bs @ rest) (sv_host s3)"
    by (rule read_fd_exact [OF s2(2), of 8]) (simp_all add: SSIZE_MAX_def)
  obtain s4 where s4: "read_string fd (-1) s3 = Ret (True, [], s4)" "delivers fd (bs @ rest) (sv_host s4)"
    by (rule read_string_wraps [OF s3(2)])
  have pos: "(0 :: u64) < -1" by (simp add: word_less_nat_alt unsigned_minus_1_eq_mask)
  have un: "unat ?dl = length bs" using len by (simp add: unat_of_nat PTRDIFF_MAX_def)
  note unf = receive_request_def s1(1) s2(1) s3(1) s4(1) pos nameless_request_def default_request_def
  show thesis
  proof (cases "bs = []")
    case True
    then show ?thesis using that s4(2) by (simp add: unf)
  next
    case False
    then have "0 < ?dl" using un by (simp add: word_less_nat_alt)
    obtain s5 where "read_string fd ?dl s4 = Ret (True, bs, s5)" "delivers fd rest (sv_host s5)"
      by (rule read_string_exact [OF s4(2), of ?dl]) (simp_all add: un len)
    then show ?thesis using that False \<open>0 < ?dl\<close> by (simp add: unf)
  qed
qed

text \<open>A login with such a request takes the name in the buffer.\<close>

lemma nameless_login:
  assumes "bs \<noteq> []" and "length bs < PTRDIFF_MAX"
  shows "handle_request c (nameless_request (action_value ACTION_LOGIN) bs) (Some None) s = Undefined"
proof -
  have "0 < (of_nat (length bs) :: u64)" using assms by (simp add: word_less_nat_alt unat_of_nat PTRDIFF_MAX_def)
  then show ?thesis using assms(1)
    by (simp add: handle_request_def reads_missing_byte_def nameless_request_def default_request_def has_username_def has_data_def
        no_byte_def word_less_nat_alt unsigned_minus_1_eq_mask)
qed

text \<open>A length that no allocation can serve ends the whole server.\<close>

lemma receive_request_exits:
  assumes d: "delivers fd (enc_u32 act @ enc_u64 n @ enc_u64 len @ rest) (sv_host s)"
    and big: "PTRDIFF_MAX \<le> unat n" "n \<noteq> -1"
  shows "receive_request fd s = Exit EXIT_FAILURE"
proof -
  obtain s1 where s1: "read_fd fd 4 s = (4, enc_u32 act, s1)" "delivers fd (enc_u64 n @ enc_u64 len @ rest) (sv_host s1)"
    by (rule read_fd_exact [OF d, of 4]) (simp_all add: SSIZE_MAX_def)
  obtain s2 where s2: "read_fd fd 8 s1 = (8, enc_u64 n, s2)" "delivers fd (enc_u64 len @ rest) (sv_host s2)"
    by (rule read_fd_exact [OF s1(2), of 8]) (simp_all add: SSIZE_MAX_def)
  obtain s3 where s3: "read_fd fd 8 s2 = (8, enc_u64 len, s3)" "delivers fd rest (sv_host s3)"
    by (rule read_fd_exact [OF s2(2), of 8]) (simp_all add: SSIZE_MAX_def)
  have "unat (n + 1) = unat n + 1" 
  proof -
    have "unat n \<noteq> unat (-1 :: u64)" using big(2) word_unat_eq_iff by blast
    then have "unat n < 2 ^ 64 - 1" using unsigned_less [where ?'a = nat, of n]
      by (simp add: unsigned_minus_1_eq_mask mask_eq_exp_minus_1)
    then show ?thesis by (simp add: unat_word_ariths(1))
  qed
  then have "\<not> unat (n + 1) \<le> PTRDIFF_MAX" using big(1) by simp
  then have rs: "read_string fd n s3 = Exit EXIT_FAILURE"
    by (simp add: read_string_def allocate_def host_alloc_def split: prod.splits)
  have "0 < n" using big(1) by (simp add: word_less_nat_alt PTRDIFF_MAX_def)
  then show ?thesis using rs by (simp add: receive_request_def s1(1) s2(1) s3(1))
qed

end
