(* ===== verification/Pa3_Client.thy ===== *)
theory Pa3_Client
  imports Pa3_Wire
begin

text \<open>
  The client: \<^verbatim>\<open>PA3/client/helper.c\<close> (parsing a line into a request and evaluating it),
  \<^verbatim>\<open>handle_response.c\<close> (what is printed for a response, and the user the client serves) and the
  main program of \<^verbatim>\<open>pa3_client.c\<close> after it has connected.
\<close>

section \<open>State\<close>

text \<open>What the client prints on its two streams, its user and its host.\<close>

datatype message = Out "byte list" | Err "byte list"

record client =
  cl_active :: "cstring option"
  cl_host :: host
  cl_log :: "message list"

definition print :: "message list \<Rightarrow> client \<Rightarrow> client" where
  "print ms cl = cl\<lparr>cl_log := cl_log cl @ ms\<rparr>"

definition client_strdup :: "cstring \<Rightarrow> client \<Rightarrow> cstring option \<times> client" where
  "client_strdup str cl =
     (case host_alloc (length str + 1) (cl_host cl) of (granted, h) \<Rightarrow>
      (if granted then Some str else None, cl\<lparr>cl_host := h\<rparr>))"

text \<open>\<open>%s\<close> of a pointer into the request; glibc prints a null pointer as \<open>(null)\<close>.\<close>

definition show_str :: "byte list option \<Rightarrow> byte list" where
  "show_str str = (case str of None \<Rightarrow> bytes_of ''(null)'' | Some bs \<Rightarrow> cstr bs)"

text \<open>\<open>%d\<close> and \<open>%lu\<close>.\<close>

definition show_int :: "int \<Rightarrow> byte list" where
  "show_int i = (if i < 0 then of_char CHR ''-'' # show_nat (nat (- i)) else show_nat (nat i))"

definition show_u64 :: "u64 \<Rightarrow> byte list" where
  "show_u64 v = show_nat (unat v)"

definition NEWLINE :: "byte list" where "NEWLINE = [10]"

section \<open>Lines\<close>

definition is_punct :: "byte \<Rightarrow> bool" where
  "is_punct b \<longleftrightarrow> (33 \<le> b \<and> b \<le> 47) \<or> (58 \<le> b \<and> b \<le> 64) \<or> (91 \<le> b \<and> b \<le> 96) \<or> (123 \<le> b \<and> b \<le> 126)"

text \<open>The copy is what the characters are compacted into; the caller does not look at the result of \<open>strdup\<close>.\<close>

definition to_action :: "cstring \<Rightarrow> client \<Rightarrow> (Action \<times> client) run" where
  "to_action action_str cl =
     (case client_strdup action_str cl of (copy, cl) \<Rightarrow>
      if copy = None then Undefined
      else let action_str_copy = filter (\<lambda>b. \<not> (is_space b \<or> is_punct b)) action_str in
        Ret (if action_str_copy = bytes_of ''login'' then ACTION_LOGIN
             else if action_str_copy = bytes_of ''book'' then ACTION_BOOK
             else if action_str_copy = bytes_of ''confirmbooking'' then ACTION_CONFIRM_BOOKING
             else if action_str_copy = bytes_of ''cancelbooking'' then ACTION_CANCEL_BOOKING
             else if action_str_copy = bytes_of ''logout'' then ACTION_LOGOUT
             else if action_str_copy = bytes_of ''query'' then ACTION_QUERY
             else if action_str_copy = bytes_of ''exit'' \<or> action_str_copy = bytes_of ''quit'' then ACTION_EXIT
             else if action_str_copy = bytes_of ''clear'' then ACTION_CLEAR_SCREEN
             else ACTION_INVALID, cl))"

text \<open>\<open>strtok_r\<close>: the next token, and where the search goes on.\<close>

definition is_delim :: "byte \<Rightarrow> bool" where
  "is_delim b \<longleftrightarrow> b \<in> {32, 9, 13, 10}"

definition strtok_r :: "cstring \<Rightarrow> cstring option \<times> cstring" where
  "strtok_r saveptr =
     (let s = dropWhile is_delim saveptr in
      if s = [] then (None, []) else (Some (takeWhile (\<lambda>b. \<not> is_delim b) s), drop 1 (dropWhile (\<lambda>b. \<not> is_delim b) s)))"

definition set_username :: "cstring \<Rightarrow> request \<Rightarrow> client \<Rightarrow> request \<times> client" where
  "set_username str request cl =
     (case client_strdup str cl of (copy, cl) \<Rightarrow>
      (request\<lparr>rq_username := copy, rq_username_length := of_nat (length str)\<rparr>, cl))"

definition set_data :: "cstring \<Rightarrow> request \<Rightarrow> client \<Rightarrow> request \<times> client" where
  "set_data str request cl =
     (case client_strdup str cl of (copy, cl) \<Rightarrow>
      (request\<lparr>rq_data := copy, rq_data_size := of_nat (length str)\<rparr>, cl))"

definition parse_error :: "ParsingError \<Rightarrow> byte list \<Rightarrow> request \<Rightarrow> client \<Rightarrow> (ParsingError \<times> request \<times> client) run" where
  "parse_error e text request cl = Ret (e, free_request request, print [Err (text @ NEWLINE)] cl)"

text \<open>The words behind the action.\<close>

definition parse_words :: "cstring \<Rightarrow> Action \<Rightarrow> request \<Rightarrow> client \<Rightarrow> request \<times> client" where
  "parse_words saveptr action request cl =
     (case strtok_r saveptr of
        (None, _) \<Rightarrow> (request, cl)
      | (Some token, saveptr) \<Rightarrow>
          if action = ACTION_LOGIN then
            (case set_username token request cl of (request, cl) \<Rightarrow>
             case strtok_r saveptr of
               (None, _) \<Rightarrow> (request, cl)
             | (Some token, _) \<Rightarrow> set_data token request cl)
          else set_data token request cl)"

text \<open>The callers pass a request, so the test for a null pointer is not part of the definition.\<close>

definition parse_request :: "cstring \<Rightarrow> client \<Rightarrow> (ParsingError \<times> request \<times> client) run" where
  "parse_request input cl =
     (let request = default_request in
      case client_strdup input cl of (input_copy, cl) \<Rightarrow>
      if input_copy = None then Undefined
      else case strtok_r input of
        (None, _) \<Rightarrow> parse_error PARSING_NO_ACTION (bytes_of ''Please enter the action!'') request cl
      | (Some token, saveptr) \<Rightarrow>
          bind_run (to_action token cl) (\<lambda>(action, cl).
            let request = request\<lparr>rq_action := action_value action\<rparr> in
            if action = ACTION_INVALID then
              parse_error PARSING_INVALID_ACTION (bytes_of ''Invalid action received!'') request cl
            else if action = ACTION_LOGIN then
              (if cl_active cl \<noteq> None then
                 parse_error PARSING_ALREADY_LOGGED_IN
                   (bytes_of ''Client is already serving user '' @ the (cl_active cl) @ bytes_of ''!'') request cl
               else case parse_words saveptr action request cl of (request, cl) \<Rightarrow> Ret (PARSING_SUCCESS, request, cl))
            else if action = ACTION_EXIT \<or> action = ACTION_CLEAR_SCREEN \<or> action = ACTION_QUERY then
              (case parse_words saveptr action request cl of (request, cl) \<Rightarrow> Ret (PARSING_SUCCESS, request, cl))
            else (case cl_active cl of
                None \<Rightarrow> parse_error PARSING_NOT_LOGGED_IN (bytes_of ''User is not logged in!'') request cl
              | Some name \<Rightarrow>
                  (case set_username name request cl of (request, cl) \<Rightarrow>
                   case parse_words saveptr action request cl of (request, cl) \<Rightarrow> Ret (PARSING_SUCCESS, request, cl)))))"

definition line_is_empty :: "cstring \<Rightarrow> bool" where
  "line_is_empty line = list_all is_space line"

section \<open>Responses\<close>

definition unknown_code :: "string \<Rightarrow> int \<Rightarrow> message" where
  "unknown_code what code =
     Err (bytes_of ''Unknown '' @ bytes_of what @ bytes_of '' error code: '' @ show_int code @ NEWLINE)"

definition handle_login_response :: "request \<Rightarrow> response \<Rightarrow> client \<Rightarrow> (int \<times> client) run" where
  "handle_login_response request response cl =
     (let code = rs_code response; name = show_str (rq_username request);
          err = (\<lambda>text. Ret (code, print [Err (text @ NEWLINE)] cl)) in
      if code = login_code LOGIN_ERROR_SUCCESS then
        (let cl = print [Out (bytes_of ''User '' @ name @ bytes_of '' logged in successfully!'' @ NEWLINE)] cl in
         case rq_username request of
           None \<Rightarrow> Undefined
         | Some bs \<Rightarrow> (case client_strdup (cstr bs) cl of (copy, cl) \<Rightarrow> Ret (code, cl\<lparr>cl_active := copy\<rparr>)))
      else if code = login_code LOGIN_ERROR_ACTIVE_USER then
        err (bytes_of ''User '' @ name @ bytes_of '' is already logged in!'')
      else if code = login_code LOGIN_ERROR_ACTIVE_CLIENT then
        err (bytes_of ''Client is already serving user '' @ show_str (cl_active cl) @ bytes_of ''!'')
      else if code = login_code LOGIN_ERROR_INCORRECT_PASSWORD then
        err (bytes_of ''User '' @ name @ bytes_of '' provided incorrect password!'')
      else if code = login_code LOGIN_ERROR_NO_PASSWORD then
        err (bytes_of ''User '' @ name @ bytes_of '' did not provide a password!'')
      else if code = login_code LOGIN_ERROR_NO_USERNAME_AND_PASSWORD then
        err (bytes_of ''No username and password provided for login!'')
      else Ret (code, print [unknown_code ''login'' code] cl))"

definition handle_book_response :: "request \<Rightarrow> response \<Rightarrow> client \<Rightarrow> (int \<times> client) run" where
  "handle_book_response request response cl =
     (let code = rs_code response; name = show_str (rq_username request); seat = show_str (rq_data request);
          err = (\<lambda>text. Ret (code, print [Err (text @ NEWLINE)] cl)) in
      if code = book_code BOOK_ERROR_SUCCESS then
        Ret (code, print [Out (bytes_of ''Seat '' @ seat @ bytes_of '' was booked successfully by user '' @ name
          @ bytes_of ''!'' @ NEWLINE)] cl)
      else if code = book_code BOOK_ERROR_USER_NOT_LOGGED_IN then
        err (bytes_of ''User '' @ name @ bytes_of '' is not logged in!'')
      else if code = book_code BOOK_ERROR_SEAT_UNAVAILABLE then
        err (bytes_of ''Seat '' @ seat @ bytes_of '' is unavailable for booking!'')
      else if code = book_code BOOK_ERROR_SEAT_OUT_OF_RANGE then
        err (bytes_of ''Seat '' @ seat @ bytes_of '' is out of range [1,100]!'')
      else if code = book_code BOOK_ERROR_NO_DATA then
        err (bytes_of ''Please enter a seat number to book!'')
      else Ret (code, print [unknown_code ''book'' code] cl))"

text \<open>The data of the response as an array of seat numbers, and its printed form.\<close>

fun dec_seats :: "nat \<Rightarrow> byte list \<Rightarrow> u64 list" where
  "dec_seats 0 bs = []"
| "dec_seats (Suc n) bs = dec_u64 (take 8 bs) # dec_seats n (drop 8 bs)"

fun show_seats :: "u64 list \<Rightarrow> byte list" where
  "show_seats [] = []"
| "show_seats [v] = show_u64 v"
| "show_seats (v # vs) = show_u64 v @ bytes_of '', '' @ show_seats vs"

definition handle_confirm_booking_response :: "request \<Rightarrow> response \<Rightarrow> client \<Rightarrow> (int \<times> client) run" where
  "handle_confirm_booking_response request response cl =
     (let code = rs_code response; name = show_str (rq_username request);
          err = (\<lambda>text. Ret (code, print [Err (text @ NEWLINE)] cl)) in
      if code = confirm_code CONFIRM_BOOKING_ERROR_SUCCESS then
        (if 0 < rs_data_size response then
           (case rq_data request of
              None \<Rightarrow> Undefined
            | Some bs \<Rightarrow>
                (let what = (if cstr bs = bytes_of ''available'' then bytes_of ''Available seats: ''
                             else if cstr bs = bytes_of ''booked'' then bytes_of ''Booked seats by user '' @ name @ bytes_of '': ''
                             else []);
                     seats = dec_seats (unat (rs_data_size response div 8)) (the (rs_data response))
                 in Ret (code, print [Out (what @ show_seats seats @ NEWLINE)] cl)))
         else Ret (code, print [Out (bytes_of ''Booking confirmed, but no seats available!'' @ NEWLINE)] cl))
      else if code = confirm_code CONFIRM_BOOKING_ERROR_USER_NOT_LOGGED_IN then
        err (bytes_of ''User '' @ name @ bytes_of '' is not logged in!'')
      else if code = confirm_code CONFIRM_BOOKING_ERROR_INVALID_DATA then
        err (bytes_of ''Invalid data provided for booking confirmation!'')
      else if code = confirm_code CONFIRM_BOOKING_ERROR_NO_DATA then
        err (bytes_of (''Please enter '' @ [CHR 0x27] @ ''available'' @ [CHR 0x27] @ '' or '' @ [CHR 0x27] @ ''booked'' @ [CHR 0x27]
          @ '' for booking confirmation!''))
      else Ret (code, print [unknown_code ''confirm booking'' code] cl))"

definition handle_cancel_booking_response :: "request \<Rightarrow> response \<Rightarrow> client \<Rightarrow> (int \<times> client) run" where
  "handle_cancel_booking_response request response cl =
     (let code = rs_code response; name = show_str (rq_username request); seat = show_str (rq_data request);
          err = (\<lambda>text. Ret (code, print [Err (text @ NEWLINE)] cl)) in
      if code = cancel_code CANCEL_BOOKING_ERROR_SUCCESS then
        Ret (code, print [Out (bytes_of ''Booking for seat '' @ seat @ bytes_of '' was canceled successfully by user '' @ name
          @ bytes_of ''!'' @ NEWLINE)] cl)
      else if code = cancel_code CANCEL_BOOKING_ERROR_USER_NOT_LOGGED_IN then
        err (bytes_of ''User '' @ name @ bytes_of '' is not logged in!'')
      else if code = cancel_code CANCEL_BOOKING_ERROR_SEAT_NOT_BOOKED_BY_USER then
        err (bytes_of ''Seat '' @ seat @ bytes_of '' was not booked by user '' @ name @ bytes_of ''!'')
      else if code = cancel_code CANCEL_BOOKING_ERROR_SEAT_OUT_OF_RANGE then
        err (bytes_of ''Seat '' @ seat @ bytes_of '' is out of range [1,100]!'')
      else if code = cancel_code CANCEL_BOOKING_ERROR_NO_DATA then
        err (bytes_of ''Please enter a seat number to cancel booking!'')
      else Ret (code, print [unknown_code ''cancel booking'' code] cl))"

definition handle_logout_response :: "request \<Rightarrow> response \<Rightarrow> client \<Rightarrow> (int \<times> client) run" where
  "handle_logout_response request response cl =
     (let code = rs_code response; name = show_str (rq_username request);
          err = (\<lambda>text. Ret (code, print [Err (text @ NEWLINE)] cl)) in
      if code = logout_code LOGOUT_ERROR_SUCCESS then
        (let cl = print [Out (bytes_of ''User '' @ name @ bytes_of '' logged out successfully!'' @ NEWLINE)] cl in
         case cl_active cl of
           None \<Rightarrow> Ret (code, cl)
         | Some user \<Rightarrow> (case rq_username request of
               None \<Rightarrow> Undefined
             | Some bs \<Rightarrow> Ret (code, if user = cstr bs then cl\<lparr>cl_active := None\<rparr> else cl)))
      else if code = logout_code LOGOUT_ERROR_USER_NOT_FOUND then
        err (bytes_of ''User '' @ name @ bytes_of '' not found!'')
      else if code = logout_code LOGOUT_ERROR_USER_NOT_LOGGED_IN then
        err (bytes_of ''User '' @ name @ bytes_of '' is not logged in!'')
      else Ret (code, print [unknown_code ''logout'' code] cl))"

definition plural :: "u64 \<Rightarrow> byte list" where
  "plural n = (if n = 1 then [] else bytes_of ''s'')"

text \<open>The record is read from a copy of \<open>data_size\<close> bytes.\<close>

definition handle_query_response :: "request \<Rightarrow> response \<Rightarrow> client \<Rightarrow> (int \<times> client) run" where
  "handle_query_response request response cl =
     (let code = rs_code response; seat = show_str (rq_data request);
          err = (\<lambda>text. Ret (code, print [Err (text @ NEWLINE)] cl)) in
      if code = query_code QUERY_ERROR_SUCCESS then
        (if 0 < rs_data_size response then
           (case host_alloc (unat (rs_data_size response)) (cl_host cl) of (granted, h) \<Rightarrow>
            let cl = cl\<lparr>cl_host := h\<rparr> in
            if \<not> granted then Ret (-1, print [Err (bytes_of ''malloc: Cannot allocate memory'' @ NEWLINE)] cl)
            else if rs_data_size response < 24 then Undefined
            else let stats = dec_stats (the (rs_data response)) in
              Ret (code, print [Out (bytes_of ''Seat '' @ show_u64 (ss_id stats) @ bytes_of '' was booked ''
                @ show_u64 (ss_booked stats) @ bytes_of '' time'' @ plural (ss_booked stats) @ bytes_of '' and canceled ''
                @ show_u64 (ss_canceled stats) @ bytes_of '' time'' @ plural (ss_canceled stats) @ bytes_of ''!'' @ NEWLINE)] cl))
         else Ret (code, cl))
      else if code = query_code QUERY_ERROR_SEAT_OUT_OF_RANGE then
        err (bytes_of ''Seat '' @ seat @ bytes_of '' is out of range [1,100]!'')
      else if code = query_code QUERY_ERROR_NO_DATA then
        err (bytes_of ''Please enter a seat number to query!'')
      else Ret (code, print [unknown_code ''query'' code] cl))"

definition handle_response :: "u32 \<Rightarrow> request \<Rightarrow> response \<Rightarrow> client \<Rightarrow> (int \<times> client) run" where
  "handle_response action request response cl =
     (if action = action_value ACTION_LOGIN then handle_login_response request response cl
      else if action = action_value ACTION_BOOK then handle_book_response request response cl
      else if action = action_value ACTION_CONFIRM_BOOKING then handle_confirm_booking_response request response cl
      else if action = action_value ACTION_CANCEL_BOOKING then handle_cancel_booking_response request response cl
      else if action = action_value ACTION_LOGOUT then handle_logout_response request response cl
      else if action = action_value ACTION_QUERY then handle_query_response request response cl
      else Ret (-1, print [Err (bytes_of ''Invalid action received!'' @ NEWLINE)] cl))"

section \<open>Evaluating lines\<close>

definition client_send :: "int \<Rightarrow> request \<Rightarrow> client \<Rightarrow> client run" where
  "client_send sockfd request cl = bind_run (send_request sockfd request (cl_host cl)) (\<lambda>h. Ret (cl\<lparr>cl_host := h\<rparr>))"

definition client_receive :: "int \<Rightarrow> client \<Rightarrow> (response \<times> client) run" where
  "client_receive sockfd cl =
     bind_run (receive_response sockfd (cl_host cl)) (\<lambda>(response, h). Ret (response, cl\<lparr>cl_host := h\<rparr>))"

definition evaluate :: "cstring \<Rightarrow> int \<Rightarrow> client \<Rightarrow> (bool \<times> client) run" where
  "evaluate input sockfd cl =
     bind_run (parse_request input cl) (\<lambda>(parsing_error, request, cl).
       if parsing_error \<noteq> PARSING_SUCCESS then Ret (True, cl)
       else if rq_action request = action_value ACTION_EXIT then Ret (False, cl)
       else if rq_action request = action_value ACTION_CLEAR_SCREEN then
         Ret (True, print [Out ([27] @ bytes_of ''[H'' @ [27] @ bytes_of ''[J'')] cl)
       else bind_run (client_send sockfd request cl) (\<lambda>cl.
         bind_run (client_receive sockfd cl) (\<lambda>(response, cl).
         bind_run (handle_response (rq_action request) request response cl) (\<lambda>(code, cl). Ret (True, cl)))))"

definition terminate :: "int \<Rightarrow> client \<Rightarrow> client run" where
  "terminate sockfd cl =
     (case cl_active cl of
        None \<Rightarrow> Ret cl
      | Some user \<Rightarrow>
          (case client_strdup user cl of
             (None, cl) \<Rightarrow> Exit EXIT_FAILURE
           | (Some copy, cl) \<Rightarrow>
               let request = default_request\<lparr>rq_action := action_value ACTION_LOGOUT, rq_username := Some copy,
                     rq_username_length := of_nat (length copy)\<rparr>
               in bind_run (client_send sockfd request cl) (\<lambda>cl.
                    bind_run (client_receive sockfd cl) (\<lambda>(response, cl).
                    bind_run (handle_response (rq_action request) request response cl) (\<lambda>(code, cl). Ret cl)))))"

text \<open>The lines of a file, each cut at the first end of line and skipped when it is blank.\<close>

definition cut_line :: "cstring \<Rightarrow> cstring" where
  "cut_line line = takeWhile (\<lambda>b. b \<notin> {13, 10}) line"

fun run_file :: "cstring list \<Rightarrow> int \<Rightarrow> client \<Rightarrow> client run" where
  "run_file [] sockfd cl = Ret cl"
| "run_file (line # rest) sockfd cl =
     (if line_is_empty (cut_line line) then run_file rest sockfd cl
      else bind_run (evaluate (cut_line line) sockfd cl) (\<lambda>(continue, cl).
        if continue then run_file rest sockfd cl else Ret cl))"

text \<open>Lines from the console: \<open>None\<close> is the end of the input, the flag says that the signal has come.\<close>

fun run_console :: "(cstring option \<times> bool) list \<Rightarrow> int \<Rightarrow> client \<Rightarrow> client run" where
  "run_console [] sockfd cl = Ret cl"
| "run_console ((input, sigint_received) # rest) sockfd cl =
     (if input = None \<or> sigint_received then Ret cl
      else bind_run (evaluate (the input) sockfd cl) (\<lambda>(continue, cl).
        if continue then run_console rest sockfd cl else Ret cl))"

text \<open>The session of a connected client, from a file or from the console.\<close>

definition client_session :: "cstring list + (cstring option \<times> bool) list \<Rightarrow> int \<Rightarrow> client \<Rightarrow> (int \<times> client) run" where
  "client_session input sockfd cl =
     bind_run (case input of Inl lines \<Rightarrow> run_file lines sockfd cl | Inr inputs \<Rightarrow> run_console inputs sockfd cl) (\<lambda>cl.
     bind_run (terminate sockfd cl) (\<lambda>cl.
       case host_close sockfd (cl_host cl) of (_, h) \<Rightarrow> Ret (0, cl\<lparr>cl_host := h\<rparr>)))"

end
