(* ===== verification/Pa3_Agree.thy ===== *)
theory Pa3_Agree
  imports Pa3_Client Pa3_Exchange
begin

text \<open>
  The client against the booking office: the requests it builds are well-formed, a line is always
  evaluated to its end, and after every response the user the client serves is the user of its session
  on the server.
\<close>

section \<open>Well-formed requests\<close>

text \<open>Names and data that fit in memory and have no NUL.\<close>

definition text_ok :: "cstring \<Rightarrow> bool" where
  "text_ok t \<longleftrightarrow> t \<noteq> [] \<and> length t < PTRDIFF_MAX \<and> 0 \<notin> set t"

definition client_ok :: "client \<Rightarrow> bool" where
  "client_ok cl \<longleftrightarrow> sound (cl_host cl) \<and> (\<forall>n. cl_active cl = Some n \<longrightarrow> text_ok n)"

definition named_ok :: "request \<Rightarrow> bool" where
  "named_ok r \<longleftrightarrow> request_ok r \<and> (\<forall>bs. rq_username r = Some bs \<longrightarrow> text_ok bs)"

text \<open>Steps that leave the user and the transferred bytes alone.\<close>

definition idle :: "client \<Rightarrow> client \<Rightarrow> bool" where
  "idle cl cl' \<longleftrightarrow> cl_active cl' = cl_active cl \<and> host_took 0 0 (cl_host cl) (cl_host cl')"

lemma idle_refl [simp]: "idle cl cl"
  by (simp add: idle_def host_took_0)

lemma idle_print [simp]: "idle cl (print ms cl') = idle cl cl'"
  by (simp add: idle_def print_def)

lemma idle_trans: "idle cl cl1 \<Longrightarrow> idle cl1 cl2 \<Longrightarrow> idle cl cl2"
  by (auto simp: idle_def host_took_0)

lemma idle_ok: "idle cl cl' \<Longrightarrow> client_ok cl \<Longrightarrow> client_ok cl'"
  by (simp add: idle_def client_ok_def host_took_0)

lemma idle_sound: "idle cl cl' \<Longrightarrow> sound (cl_host cl) \<Longrightarrow> sound (cl_host cl')"
  by (simp add: idle_def host_took_0)

lemma client_strdup_total:
  assumes "sound (cl_host cl)" and "length str < PTRDIFF_MAX"
  obtains cl' where "client_strdup str cl = (Some str, cl')" and "idle cl cl'"
proof -
  have "length str + 1 \<le> PTRDIFF_MAX" using assms(2) by simp
  then obtain h where "host_alloc (length str + 1) (cl_host cl) = (True, h)" "host_took 0 0 (cl_host cl) h"
    using host_alloc_granted [OF assms(1)] by (metis host_took_0)
  then show thesis using that [of "cl\<lparr>cl_host := h\<rparr>"] by (simp add: client_strdup_def idle_def)
qed

lemma string_ok_text: "text_ok t \<Longrightarrow> string_ok (of_nat (length t)) (Some t)"
proof -
  assume t: "text_ok t"
  then have u: "unat (of_nat (length t) :: u64) = length t" by (intro unat_u64) (simp add: text_ok_def PTRDIFF_MAX_def)
  then have "(0 :: u64) < of_nat (length t)" using t by (simp add: word_less_nat_alt text_ok_def)
  then show ?thesis using t u by (simp add: string_ok_def text_ok_def)
qed

lemma set_username_total:
  assumes "sound (cl_host cl)" and "text_ok t" and "named_ok r"
  obtains cl' where "set_username t r cl = (r\<lparr>rq_username := Some t, rq_username_length := of_nat (length t)\<rparr>, cl')"
    and "idle cl cl'" and "named_ok (r\<lparr>rq_username := Some t, rq_username_length := of_nat (length t)\<rparr>)"
proof -
  obtain cl' where "client_strdup t cl = (Some t, cl')" "idle cl cl'"
    using client_strdup_total [OF assms(1), of t] assms(2) by (auto simp: text_ok_def)
  then show thesis using that assms string_ok_text [OF assms(2)] by (simp add: set_username_def named_ok_def request_ok_def)
qed

lemma set_data_total:
  assumes "sound (cl_host cl)" and "text_ok t" and "named_ok r"
  obtains cl' where "set_data t r cl = (r\<lparr>rq_data := Some t, rq_data_size := of_nat (length t)\<rparr>, cl')"
    and "idle cl cl'" and "named_ok (r\<lparr>rq_data := Some t, rq_data_size := of_nat (length t)\<rparr>)"
proof -
  obtain cl' where "client_strdup t cl = (Some t, cl')" "idle cl cl'"
    using client_strdup_total [OF assms(1), of t] assms(2) by (auto simp: text_ok_def)
  then show thesis using that assms string_ok_text [OF assms(2)] by (simp add: set_data_def named_ok_def request_ok_def)
qed

definition line_ok :: "cstring \<Rightarrow> bool" where
  "line_ok s \<longleftrightarrow> length s < PTRDIFF_MAX \<and> 0 \<notin> set s"

lemma strtok_r_cases:
  assumes "line_ok s"
  obtains (none) s' where "strtok_r s = (None, s')"
  | (token) t s' where "strtok_r s = (Some t, s')" and "text_ok t" and "line_ok s'"
proof (cases "dropWhile is_delim s")
  case Nil
  then show thesis using none by (simp add: strtok_r_def)
next
  case (Cons b u)
  let ?d = "b # u"
  have b: "\<not> is_delim b" using Cons hd_dropWhile [of is_delim s] by simp
  have sub: "set ?d \<subseteq> set s" using Cons set_dropWhileD [of _ is_delim s] by (metis subsetI)
  have len: "length ?d \<le> length s" using Cons length_dropWhile_le [of is_delim s] by simp
  let ?t = "takeWhile (\<lambda>b. \<not> is_delim b) ?d" and ?r = "drop 1 (dropWhile (\<lambda>b. \<not> is_delim b) ?d)"
  have "?t \<noteq> []" using b by simp
  moreover have "set ?t \<subseteq> set ?d" "length ?t \<le> length ?d" using set_takeWhileD length_takeWhile_le by fast+
  moreover have "set ?r \<subseteq> set ?d" using set_dropWhileD set_drop_subset by fast
  moreover have "length ?r \<le> length ?d"
    using length_dropWhile_le [of "\<lambda>b. \<not> is_delim b" ?d] by (metis diff_le_self le_trans length_drop)
  ultimately have "text_ok ?t" "line_ok ?r" using assms sub len unfolding text_ok_def line_ok_def by (meson le_less_trans subsetD)+
  moreover have "strtok_r s = (Some ?t, ?r)" using Cons by (simp add: strtok_r_def Let_def del: takeWhile.simps dropWhile.simps)
  ultimately show thesis using token by blast
qed

lemma parse_words_total:
  assumes s: "line_ok s" and so: "sound (cl_host cl)" and r: "named_ok r"
  obtains r' cl' where "parse_words s act r cl = (r', cl')" and "idle cl cl'" and "named_ok r'" and "rq_action r' = rq_action r"
    and "act \<noteq> ACTION_LOGIN \<Longrightarrow> rq_username r' = rq_username r \<and> rq_username_length r' = rq_username_length r"
  using s
proof (cases rule: strtok_r_cases)
  case none
  then show thesis using that r by (simp add: parse_words_def)
next
  case (token t s')
  show thesis
  proof (cases "act = ACTION_LOGIN")
    case False
    obtain cl' where d: "set_data t r cl = (r\<lparr>rq_data := Some t, rq_data_size := of_nat (length t)\<rparr>, cl')" "idle cl cl'"
      "named_ok (r\<lparr>rq_data := Some t, rq_data_size := of_nat (length t)\<rparr>)" by (rule set_data_total [OF so token(2) r])
    then show thesis using that token(1) False by (simp add: parse_words_def)
  next
    case True
    let ?r1 = "r\<lparr>rq_username := Some t, rq_username_length := of_nat (length t)\<rparr>"
    obtain cl1 where u: "set_username t r cl = (?r1, cl1)" "idle cl cl1" "named_ok ?r1"
      by (rule set_username_total [OF so token(2) r])
    show thesis
      using token(3)
    proof (cases rule: strtok_r_cases)
      case none
      then show thesis using that token(1) True u by (simp add: parse_words_def)
    next
      case (token t2 s2)
      obtain cl2 where d: "set_data t2 ?r1 cl1 = (?r1\<lparr>rq_data := Some t2, rq_data_size := of_nat (length t2)\<rparr>, cl2)" "idle cl1 cl2"
        "named_ok (?r1\<lparr>rq_data := Some t2, rq_data_size := of_nat (length t2)\<rparr>)"
        by (rule set_data_total [OF idle_sound [OF u(2) so] token(2) u(3)])
      show thesis
      proof (rule that)
        show "parse_words s act r cl = (?r1\<lparr>rq_data := Some t2, rq_data_size := of_nat (length t2)\<rparr>, cl2)"
          using \<open>strtok_r s = (Some t, s')\<close> True u(1) token(1) d(1) by (simp add: parse_words_def)
        show "idle cl cl2" by (rule idle_trans [OF u(2) d(2)])
      qed (use d(3) True in simp_all)
    qed
  qed
qed

lemma default_named_ok: "named_ok (default_request\<lparr>rq_action := n\<rparr>)"
  by (simp add: named_ok_def request_ok_def string_ok_def default_request_def PTRDIFF_MAX_def)

lemma to_action_total:
  assumes "sound (cl_host cl)" and "text_ok t"
  obtains act cl' where "to_action t cl = Ret (act, cl')" and "idle cl cl'"
proof -
  obtain cl' where "client_strdup t cl = (Some t, cl')" "idle cl cl'"
    using client_strdup_total [OF assms(1), of t] assms(2) by (auto simp: text_ok_def)
  then show thesis using that by (simp add: to_action_def Let_def)
qed

lemma parse_request_total:
  assumes s: "line_ok input" and ok: "client_ok cl"
  obtains e r cl' where "parse_request input cl = Ret (e, r, cl')" and "idle cl cl'" and "e = PARSING_SUCCESS \<longrightarrow> named_ok r"
proof -
  have so: "sound (cl_host cl)" using ok by (simp add: client_ok_def)
  obtain cl1 where c1: "client_strdup input cl = (Some input, cl1)" "idle cl cl1"
    using client_strdup_total [OF so, of input] s by (auto simp: line_ok_def)
  note so1 = idle_sound [OF c1(2) so]
  have err: thesis if "parse_request input cl = parse_error e msg r cl'" "idle cl cl'" "e \<noteq> PARSING_SUCCESS" for e msg r cl'
    using that \<open>\<And>e r cl'. parse_request input cl = Ret (e, r, cl') \<Longrightarrow> idle cl cl' \<Longrightarrow> e = PARSING_SUCCESS \<longrightarrow> named_ok r \<Longrightarrow> thesis\<close>
    by (simp add: parse_error_def)
  show thesis
    using s
  proof (cases rule: strtok_r_cases)
    case none
    show thesis by (rule err [of PARSING_NO_ACTION]) (use none c1 in \<open>simp_all add: parse_request_def Let_def\<close>)
  next
    case (token t s')
    obtain act cl2 where c2: "to_action t cl1 = Ret (act, cl2)" "idle cl1 cl2" by (rule to_action_total [OF so1 token(2)])
    have i2: "idle cl cl2" by (rule idle_trans [OF c1(2) c2(2)])
    note so2 = idle_sound [OF i2 so]
    let ?r = "default_request\<lparr>rq_action := action_value act\<rparr>"
    obtain r3 cl3 where w: "parse_words s' act ?r cl2 = (r3, cl3)" "idle cl2 cl3" "named_ok r3"
      by (rule parse_words_total [OF token(3) so2 default_named_ok])
    have plain: thesis if "parse_request input cl = Ret (PARSING_SUCCESS, r3, cl3)"
      using that \<open>\<And>e r cl'. parse_request input cl = Ret (e, r, cl') \<Longrightarrow> idle cl cl' \<Longrightarrow> e = PARSING_SUCCESS \<longrightarrow> named_ok r \<Longrightarrow> thesis\<close>
        idle_trans [OF i2 w(2)] w(3) by blast
    have base: "parse_request input cl = (if act = ACTION_INVALID then
              parse_error PARSING_INVALID_ACTION (bytes_of ''Invalid action received!'') ?r cl2
            else if act = ACTION_LOGIN then
              (if cl_active cl2 \<noteq> None then
                 parse_error PARSING_ALREADY_LOGGED_IN
                   (bytes_of ''Client is already serving user '' @ the (cl_active cl2) @ bytes_of ''!'') ?r cl2
               else Ret (PARSING_SUCCESS, r3, cl3))
            else if act = ACTION_EXIT \<or> act = ACTION_CLEAR_SCREEN \<or> act = ACTION_QUERY then Ret (PARSING_SUCCESS, r3, cl3)
            else (case cl_active cl2 of
                None \<Rightarrow> parse_error PARSING_NOT_LOGGED_IN (bytes_of ''User is not logged in!'') ?r cl2
              | Some name \<Rightarrow>
                  (case set_username name ?r cl2 of (request, cl) \<Rightarrow>
                   case parse_words s' act request cl of (request, cl) \<Rightarrow> Ret (PARSING_SUCCESS, request, cl))))"
      using c1(1) token(1) c2(1) w(1) by (cases "act = ACTION_LOGIN") (auto simp: parse_request_def Let_def)
    consider "act = ACTION_INVALID" | "act = ACTION_LOGIN" "cl_active cl2 \<noteq> None"
      | "act = ACTION_LOGIN \<and> cl_active cl2 = None \<or> act = ACTION_EXIT \<or> act = ACTION_CLEAR_SCREEN \<or> act = ACTION_QUERY"
      | "act \<notin> {ACTION_INVALID, ACTION_LOGIN, ACTION_EXIT, ACTION_CLEAR_SCREEN, ACTION_QUERY}" "cl_active cl2 = None"
      | n where "act \<notin> {ACTION_INVALID, ACTION_LOGIN, ACTION_EXIT, ACTION_CLEAR_SCREEN, ACTION_QUERY}" "cl_active cl2 = Some n"
      by (cases "cl_active cl2"; auto)
    then show thesis
    proof cases
      case 1
      show thesis by (rule err [of PARSING_INVALID_ACTION]) (use base 1 i2 in auto)
    next
      case 2
      show thesis by (rule err [of PARSING_ALREADY_LOGGED_IN]) (use base 2 i2 in auto)
    next
      case 3
      show thesis by (rule plain) (use base 3 in auto)
    next
      case 4
      show thesis by (rule err [of PARSING_NOT_LOGGED_IN]) (use base 4 i2 in auto)
    next
      case (5 n)
      have "text_ok n" using ok i2 5(2) by (simp add: client_ok_def idle_def)
      then obtain cl4 where u: "set_username n ?r cl2 = (?r\<lparr>rq_username := Some n, rq_username_length := of_nat (length n)\<rparr>, cl4)"
        "idle cl2 cl4" "named_ok (?r\<lparr>rq_username := Some n, rq_username_length := of_nat (length n)\<rparr>)"
        by (rule set_username_total [OF so2 _ default_named_ok])
      obtain r5 cl5 where v: "parse_words s' act (?r\<lparr>rq_username := Some n, rq_username_length := of_nat (length n)\<rparr>) cl4 = (r5, cl5)"
        "idle cl4 cl5" "named_ok r5" by (rule parse_words_total [OF token(3) idle_sound [OF u(2) so2] u(3)])
      have "parse_request input cl = Ret (PARSING_SUCCESS, r5, cl5)" using base 5 u(1) v(1) by auto
      then show thesis using that idle_trans [OF i2 idle_trans [OF u(2) v(2)]] v(3) by blast
    qed
  qed
qed

section \<open>Responses\<close>

lemma client_strdup_name:
  assumes "sound (cl_host cl)" and "named_ok r" and "rq_username r = Some bs"
  obtains cl' where "client_strdup (cstr bs) cl = (Some (cstr bs), cl')" and "idle cl cl'"
  using client_strdup_total [OF assms(1), of "cstr bs"] assms(2,3) length_cstr_le [of bs]
  by (auto simp: named_ok_def text_ok_def)

text \<open>What a response does: the client returns, serves \<open>a'\<close> and has transferred nothing.\<close>

definition settles :: "(client \<Rightarrow> (int \<times> client) run) \<Rightarrow> client \<Rightarrow> cstring option \<Rightarrow> bool" where
  "settles f cl a' \<longleftrightarrow> (\<exists>code cl'. f cl = Ret (code, cl') \<and> cl_active cl' = a' \<and> host_took 0 0 (cl_host cl) (cl_host cl'))"

lemma settles_print: "f cl = Ret (code, print ms cl) \<Longrightarrow> settles f cl (cl_active cl)"
  by (simp add: settles_def print_def host_took_0)

lemma print_simps [simp]: "cl_active (print ms cl) = cl_active cl" "cl_host (print ms cl) = cl_host cl"
  by (simp_all add: print_def)

lemma login_settles:
  assumes so: "sound (cl_host cl)" and r: "named_ok r" and sp: "spec_login c hash r (cl_active cl) b = (e, a', b')"
  shows "settles (handle_login_response r (set_response (login_code e))) cl a'"
proof (cases "e = LOGIN_ERROR_SUCCESS")
  case True
  then have a': "a' = Some (request_username r)" "has_username r"
    using sp by (auto simp: spec_login_def Let_def split: if_splits option.splits prod.splits)
  then obtain bs where bs: "rq_username r = Some bs" by (auto simp: has_username_def)
  let ?cl = "print [Out (bytes_of ''User '' @ show_str (rq_username r) @ bytes_of '' logged in successfully!'' @ NEWLINE)] cl"
  have "sound (cl_host ?cl)" using so by simp
  then obtain cl' where "client_strdup (cstr bs) ?cl = (Some (cstr bs), cl')" "idle ?cl cl'" by (rule client_strdup_name [OF _ r bs])
  then show ?thesis using True a'(1) bs
    by (simp add: settles_def handle_login_response_def Let_def set_response_def idle_def request_username_def)
next
  case False
  then have "a' = cl_active cl"
    using sp by (auto simp: spec_login_def Let_def split: if_splits option.splits prod.splits)
  then show ?thesis using False
    by (cases e) (auto simp: handle_login_response_def Let_def set_response_def intro!: settles_print)
qed

lemma book_settles: "settles (handle_book_response r (set_response (book_code e))) cl (cl_active cl)"
  by (cases e) (auto simp: handle_book_response_def Let_def set_response_def intro!: settles_print)

lemma cancel_settles: "settles (handle_cancel_booking_response r (set_response (cancel_code e))) cl (cl_active cl)"
  by (cases e) (auto simp: handle_cancel_booking_response_def Let_def set_response_def intro!: settles_print)

lemma confirm_settles:
  assumes "spec_confirm r a b = (e, vs)"
  shows "settles (handle_confirm_booking_response r (if e = CONFIRM_BOOKING_ERROR_SUCCESS then seats_response vs
    else set_response (confirm_code e))) cl (cl_active cl)"
proof (cases "e = CONFIRM_BOOKING_ERROR_SUCCESS")
  case False
  then show ?thesis
    by (cases e) (auto simp: handle_confirm_booking_response_def Let_def set_response_def intro!: settles_print)
next
  case True
  then have "has_data r" using assms by (auto simp: spec_confirm_def split: if_splits)
  then obtain bs where "rq_data r = Some bs" by (auto simp: has_data_def)
  then have "\<exists>ms. handle_confirm_booking_response r (seats_response vs) cl = Ret (0, print ms cl)"
    by (simp add: handle_confirm_booking_response_def Let_def seats_response_def set_response_def) blast
  then show ?thesis using True settles_print by fastforce
qed

lemma logout_settles:
  assumes r: "named_ok r" and sp: "spec_logout r (cl_active cl) b = (e, a', b')"
  shows "settles (handle_logout_response r (set_response (logout_code e))) cl a'"
proof (cases "e = LOGOUT_ERROR_SUCCESS")
  case True
  then have a': "a' = None" "cl_active cl = Some (request_username r)" "has_username r"
    using sp by (auto simp: spec_logout_def Let_def split: if_splits option.splits prod.splits)
  then obtain bs where "rq_username r = Some bs" by (auto simp: has_username_def)
  then show ?thesis using True a'
    by (simp add: settles_def handle_logout_response_def Let_def set_response_def request_username_def host_took_0)
next
  case False
  then have "a' = cl_active cl" using sp by (auto simp: spec_logout_def Let_def split: if_splits option.splits prod.splits)
  then show ?thesis using False
    by (cases e) (auto simp: handle_logout_response_def Let_def set_response_def intro!: settles_print)
qed

lemma query_settles:
  assumes so: "sound (cl_host cl)" and sp: "spec_query r b = (e, st)"
  shows "settles (handle_query_response r (case st of None \<Rightarrow> set_response (query_code e) | Some x \<Rightarrow> stats_response x)) cl (cl_active cl)"
proof (cases st)
  case None
  then have "e \<noteq> QUERY_ERROR_SUCCESS" using sp by (auto simp: spec_query_def split: if_splits option.splits)
  then show ?thesis using None
    by (cases e) (auto simp: handle_query_response_def Let_def set_response_def intro!: settles_print)
next
  case (Some x)
  obtain h where h: "host_alloc 24 (cl_host cl) = (True, h)" "host_took 0 0 (cl_host cl) h"
    using host_alloc_granted [OF so, of 24] by (auto simp: PTRDIFF_MAX_def host_took_0)
  then show ?thesis using Some
    by (simp add: settles_def handle_query_response_def stats_response_def Let_def)
qed

lemma handle_response_dispatch:
  "rq_action r = 1 \<Longrightarrow> handle_response (rq_action r) r resp = handle_login_response r resp"
  "rq_action r = 2 \<Longrightarrow> handle_response (rq_action r) r resp = handle_book_response r resp"
  "rq_action r = 3 \<Longrightarrow> handle_response (rq_action r) r resp = handle_confirm_booking_response r resp"
  "rq_action r = 4 \<Longrightarrow> handle_response (rq_action r) r resp = handle_cancel_booking_response r resp"
  "rq_action r = 5 \<Longrightarrow> handle_response (rq_action r) r resp = handle_logout_response r resp"
  "rq_action r = 6 \<Longrightarrow> handle_response (rq_action r) r resp = handle_query_response r resp"
  by (simp_all add: fun_eq_iff handle_response_def)

lemma handle_response_settles:
  assumes so: "sound (cl_host cl)" and r: "named_ok r"
    and sp: "spec_handle c hash r (cl_active cl) b = (code, resp, a', b')"
  shows "settles (handle_response (rq_action r) r resp) cl a'"
proof -
  consider "rq_action r = 1" | "rq_action r = 2" | "rq_action r = 3" | "rq_action r = 4" | "rq_action r = 5" | "rq_action r = 6"
    | "rq_action r \<notin> {1, 2, 3, 4, 5, 6}" by blast
  then show ?thesis
  proof cases
    case 1
    then obtain e where *: "spec_login c hash r (cl_active cl) b = (e, a', b')" "resp = set_response (login_code e)"
      using sp by (auto simp: spec_handle_def split: prod.splits)
    show ?thesis unfolding handle_response_dispatch(1) [OF 1] *(2) by (rule login_settles [OF so r *(1)])
  next
    case 2
    then obtain e where *: "resp = set_response (book_code e)" "a' = cl_active cl" using sp by (auto simp: spec_handle_def split: prod.splits)
    show ?thesis unfolding handle_response_dispatch(2) [OF 2] * by (rule book_settles)
  next
    case 3
    then obtain e vs where *: "spec_confirm r (cl_active cl) b = (e, vs)" "a' = cl_active cl"
      "resp = (if e = CONFIRM_BOOKING_ERROR_SUCCESS then seats_response vs else set_response (confirm_code e))"
      using sp by (auto simp: spec_handle_def split: prod.splits)
    show ?thesis unfolding handle_response_dispatch(3) [OF 3] *(2,3) by (rule confirm_settles [OF *(1)])
  next
    case 4
    then obtain e where *: "resp = set_response (cancel_code e)" "a' = cl_active cl" using sp by (auto simp: spec_handle_def split: prod.splits)
    show ?thesis unfolding handle_response_dispatch(4) [OF 4] * by (rule cancel_settles)
  next
    case 5
    then obtain e where *: "spec_logout r (cl_active cl) b = (e, a', b')" "resp = set_response (logout_code e)"
      using sp by (auto simp: spec_handle_def split: prod.splits)
    show ?thesis unfolding handle_response_dispatch(5) [OF 5] *(2) by (rule logout_settles [OF r *(1)])
  next
    case 6
    then obtain e st where *: "spec_query r b = (e, st)" "a' = cl_active cl"
      "resp = (case st of None \<Rightarrow> set_response (query_code e) | Some x \<Rightarrow> stats_response x)"
      using sp by (auto simp: spec_handle_def split: prod.splits)
    show ?thesis unfolding handle_response_dispatch(6) [OF 6] *(2,3) by (rule query_settles [OF so *(1)])
  next
    case 7
    then have "a' = cl_active cl" using sp by (auto simp: spec_handle_def split: if_splits)
    then show ?thesis using 7 by (auto simp: handle_response_def intro!: settles_print)
  qed
qed

section \<open>A line and its response\<close>

text \<open>
  The client evaluates a line while the answer of the booking office to the request of the line lies in
  its socket.
\<close>

lemma evaluate_exchange:
  assumes s: "line_ok input" and ok: "client_ok cl"
    and p: "parse_request input cl = Ret (PARSING_SUCCESS, r, cl1)"
    and act: "rq_action r \<noteq> action_value ACTION_EXIT" "rq_action r \<noteq> action_value ACTION_CLEAR_SCREEN"
    and sp: "spec_handle c hash r (cl_active cl) b = (code, resp, a', b')"
    and d: "delivers fd (enc_response resp @ rest) (cl_host cl)"
  obtains cl' where "evaluate input fd cl = Ret (True, cl')" and "cl_active cl' = a'" and "delivers fd rest (cl_host cl')"
    and "h_out (cl_host cl') = (h_out (cl_host cl))(fd := h_out (cl_host cl) fd @ enc_request r)"
proof -
  obtain e' r' cl1' where pt: "parse_request input cl = Ret (e', r', cl1')" "idle cl cl1'" "e' = PARSING_SUCCESS \<longrightarrow> named_ok r'"
    by (rule parse_request_total [OF s ok])
  then have i1: "idle cl cl1" and r: "named_ok r" using p by auto
  have so: "sound (cl_host cl)" "fd \<in> h_open (cl_host cl)" using d by (simp_all add: delivers_def)
  have h1: "sound (cl_host cl1)" "fd \<in> h_open (cl_host cl1)" "h_in (cl_host cl1) = h_in (cl_host cl)"
    "h_out (cl_host cl1) = h_out (cl_host cl)" "cl_active cl1 = cl_active cl"
    using i1 so by (simp_all add: idle_def host_took_0)
  have rq: "request_ok r" using r by (simp add: named_ok_def)
  obtain h2 where h2: "send_request fd r (cl_host cl1) = Ret h2" "host_gave fd (enc_request r) (cl_host cl1) h2" "sound h2"
    by (rule send_request_spec [OF h1(2,1) rq])
  have ro: "response_ok resp" by (rule spec_handle_response_ok [OF sp])
  have "delivers fd (enc_response resp @ rest) h2" using h2 h1 d by (simp add: delivers_def host_gave_def)
  then obtain h3 where h3: "receive_response fd h2 = Ret (resp, h3)" "delivers fd rest h3" "h_out h3 = h_out h2"
    by (rule receive_response_spec [OF _ ro])
  let ?cl3 = "cl1\<lparr>cl_host := h3\<rparr>"
  have so3: "sound (cl_host ?cl3)" using h3(2) by (simp add: delivers_def)
  have "spec_handle c hash r (cl_active ?cl3) b = (code, resp, a', b')" using sp h1(5) by simp
  from handle_response_settles [OF so3 r this]
  obtain code4 cl4 where f: "handle_response (rq_action r) r resp ?cl3 = Ret (code4, cl4)" "cl_active cl4 = a'"
    "host_took 0 0 (cl_host ?cl3) (cl_host cl4)" unfolding settles_def by blast
  show thesis
  proof (rule that)
    show "evaluate input fd cl = Ret (True, cl4)"
      using p act h2(1) h3(1) f(1) by (simp add: evaluate_def client_send_def client_receive_def)
    show "cl_active cl4 = a'" by (rule f(2))
    show "delivers fd rest (cl_host cl4)" using f(3) h3(2) by (simp add: delivers_def host_took_0)
    show "h_out (cl_host cl4) = (h_out (cl_host cl))(fd := h_out (cl_host cl) fd @ enc_request r)"
      using f(3) h3(3) h2(2) h1(4) by (simp add: host_took_0 host_gave_def)
  qed
qed

end
