(* ===== verification/Pa3_Properties.thy ===== *)
theory Pa3_Properties
  imports Pa3_Exchange Pa3_Locks Pa3_Seats Pa3_Agree
begin

text \<open>
  The properties of the seat reservation system, each with a witness on a small server: one worker
  thread with the pipe \<open>(5, 6)\<close> and a client on descriptor 7.
\<close>

section \<open>A server to try the properties on\<close>

definition site_crypto :: crypto where
  "site_crypto = \<lparr>argon2_hash = (\<lambda>password salt. password @ salt),
     argon2_verify = (\<lambda>hash password. take (length password) hash = password), random_bytes = (\<lambda>n s. replicate n 65)\<rparr>"

definition login_request :: request where
  "login_request = \<lparr>rq_username_length = 5, rq_data_size = 6, rq_action = action_value ACTION_LOGIN,
     rq_username = Some (bytes_of ''alice''), rq_data = Some (bytes_of ''secret'')\<rparr>"

definition site_host :: "byte list \<Rightarrow> host" where
  "site_host input = \<lparr>h_in = (\<lambda>fd. if fd = 7 then input else []), h_out = (\<lambda>fd. []), h_open = {0, 5, 6, 7},
     h_plan = [], h_errno = EINTR\<rparr>"

definition site_server :: "byte list \<Rightarrow> server" where
  "site_server input = \<lparr>sv_users = [], sv_seats = [], sv_host = site_host input, sv_log = []\<rparr>"

lemma site_allocate: "n \<le> PTRDIFF_MAX \<Longrightarrow> h_plan (sv_host s) = [] \<Longrightarrow> allocate n s = (True, s)"
  by (simp add: allocate_def host_alloc_def host_next_def)

definition site_thread :: thread_data where
  "site_thread = \<lparr>td_thread_index = 0, td_poll_set = \<lparr>ps_set = (replicate CLIENTS_PER_THREAD \<lparr>pf_fd = 0, pf_events = 0, pf_revents = 0\<rparr>)
       [0 := \<lparr>pf_fd = 5, pf_events = POLLIN, pf_revents = 0\<rparr>],
     ps_active_users = replicate CLIENTS_PER_THREAD None, ps_size = 1\<rparr>, td_pipe_out_fd = 5\<rparr>"

definition site_started :: "byte list \<Rightarrow> server" where
  "site_started input = (site_server input)\<lparr>sv_seats := map default_seat [0..<NUM_SEATS]\<rparr>"

lemma site_plan [simp]: "h_plan (sv_host (site_server input)) = []" "h_plan (sv_host (site_started input)) = []"
  by (simp_all add: site_server_def site_started_def site_host_def)

lemma site_start: "server_start [(5, 6)] (site_server input) = Ret ([site_thread], site_started input)"
proof -
  have n: "24 * NUM_USERS \<le> PTRDIFF_MAX" "40 * NUM_USERS \<le> PTRDIFF_MAX" "72 * NUM_SEATS \<le> PTRDIFF_MAX"
    "16 * CLIENTS_PER_THREAD + 48 \<le> PTRDIFF_MAX"
    by (simp_all add: NUM_USERS_def NUM_SEATS_def CLIENTS_PER_THREAD_def PTRDIFF_MAX_def)
  have u: "setup_users (site_server input) = Ret (site_server input)"
    by (simp add: setup_users_def site_allocate n) (simp add: site_server_def)
  have v: "default_seats (site_server input) = Ret (site_started input)"
    by (simp add: default_seats_def site_allocate n site_started_def)
  have "create_poll_set 5 (site_started input) = Ret (td_poll_set site_thread, site_started input)"
    by (simp add: create_poll_set_def site_allocate n site_thread_def)
  then have "start_threads [(5, 6)] 0 (site_started input) = Ret ([site_thread], site_started input)"
    by (simp add: site_thread_def)
  then show ?thesis by (simp add: server_start_def u v)
qed

lemma site_ok: "system_ok [site_thread] (site_started input)"
  using server_start_ok [OF site_start] by simp

lemma site_places: "place fd_at [site_thread] (t, i) = (if t = 0 \<and> i = 0 then Some 5 else None)"
  by (auto simp: place_def fd_at_def site_thread_def CLIENTS_PER_THREAD_def)

lemma site_fds: "ran (place fd_at [site_thread]) = {5}"
proof -
  have "place fd_at [site_thread] = [(0, 0) \<mapsto> 5]" by (auto simp: fun_eq_iff site_places)
  then show ?thesis by simp
qed

text \<open>The client has connected.\<close>

definition site_poll_set :: poll_set where
  "site_poll_set = (let p = td_poll_set site_thread in p\<lparr>ps_set := (ps_set p)[1 := \<lparr>pf_fd = 7, pf_events = POLLIN, pf_revents = 0\<rparr>],
     ps_active_users := (ps_active_users p)[1 := None], ps_size := 2\<rparr>)"

definition site_connected :: "thread_data list" where
  "site_connected = [site_thread\<lparr>td_poll_set := site_poll_set\<rparr>]"

lemma site_accept:
  obtains s where "accept_client [(5, 6)] 7 [site_thread] (site_started input) = Some (site_connected, s)"
    and "h_in (sv_host s) 7 = input" and "h_open (sv_host s) = {0, 5, 6, 7}" and "h_plan (sv_host s) = []" and "sv_users s = []"
proof -
  have f: "find_suitable_pollset [site_thread] (site_started input)
      = (0, pthread_mutex_unlock (Poll_mutex 0) (pthread_mutex_lock (Poll_mutex 0) (site_started input)))"
    by (simp add: find_suitable_pollset_def site_thread_def CLIENTS_PER_THREAD_def)
  have sz: "ps_size (td_poll_set site_thread) = 1" by (simp add: site_thread_def)
  show thesis
  proof (rule that)
    let ?s = "pthread_mutex_unlock (Poll_mutex 0) (pthread_mutex_lock (Poll_mutex 0)
      (pthread_mutex_unlock (Poll_mutex 0) (pthread_mutex_lock (Poll_mutex 0) (site_started input))))"
    show "accept_client [(5, 6)] 7 [site_thread] (site_started input) = Some (site_connected, notify_pollset 6 ?s)"
      by (simp add: accept_client_def f add_to_pollset_def sz Let_def CLIENTS_PER_THREAD_def site_connected_def site_poll_set_def)
    show "h_in (sv_host (notify_pollset 6 ?s)) 7 = input" "h_open (sv_host (notify_pollset 6 ?s)) = {0, 5, 6, 7}"
      "h_plan (sv_host (notify_pollset 6 ?s)) = []" "sv_users (notify_pollset 6 ?s) = []"
      by (simp_all add: notify_pollset_def host_write_def host_next_def site_started_def site_server_def site_host_def)
  qed
qed

lemma site_connected_ok:
  assumes "accept_client [(5, 6)] 7 [site_thread] (site_started input) = Some (site_connected, s)"
  shows "system_ok site_connected s"
  using accept_client_keeps [OF site_ok _ assms] site_fds by simp

lemma site_client: "place fd_at site_connected (0, 1) = Some 7" "place user_at site_connected (0, 1) = None"
  "td_pipe_out_fd (site_connected ! 0) = 5" "length site_connected = 1"
  by (simp_all add: place_def fd_at_def user_at_def site_connected_def site_poll_set_def site_thread_def CLIENTS_PER_THREAD_def)

lemma site_crypto_ok: "crypto_ok site_crypto"
  by (simp add: crypto_ok_def site_crypto_def)

lemma login_request_ok: "request_ok login_request"
  by (simp add: request_ok_def string_ok_def login_request_def PTRDIFF_MAX_def bytes_of_def)

section \<open>Requests\<close>

text \<open>
  C14: When no call fails for good and there is room for one more account, a connected client that has sent a
  complete request is answered: however the kernel interrupts and splits the transfers, the worker returns, the
  bytes written to the client are the encoding of the response that the booking office specifies for the request, the session of the client and the state
  of the office are the specified ones, and exactly the request was consumed.
\<close>

theorem pa3_request_answered:
  assumes "system_ok D s" and "t < length D" and "fd \<noteq> td_pipe_out_fd (D ! t)" and "place fd_at D (t, i) = Some fd"
    and "delivers fd (enc_request r @ rest) (sv_host s)" and "request_ok r" and "crypto_ok c"
    and "length (sv_users s) < NUM_USERS"
  shows "\<exists>salt code resp a' s'. serve_client c fd (D ! t) s = Ret (set_active_user i a' (D ! t), s')
    \<and> spec_handle c (take 127 (argon2_hash c (request_data r) salt)) r (place user_at D (t, i)) (abs s) = (code, resp, a', abs s')
    \<and> delivers fd rest (sv_host s') \<and> h_out (sv_host s') = (h_out (sv_host s))(fd := h_out (sv_host s) fd @ enc_response resp)"
  using serve_client_answers [OF assms] by metis

lemma pa3_request_answered_witness:
  "\<exists>s a' s'. serve_client site_crypto 7 (site_connected ! 0) s = Ret (set_active_user 1 a' (site_connected ! 0), s')
    \<and> a' = Some (bytes_of ''alice'') \<and> bk_users (abs s') (bytes_of ''alice'') \<noteq> None"
proof -
  obtain s where s: "accept_client [(5, 6)] 7 [site_thread] (site_started (enc_request login_request)) = Some (site_connected, s)"
    "h_in (sv_host s) 7 = enc_request login_request" "h_open (sv_host s) = {0, 5, 6, 7}" "h_plan (sv_host s) = []" "sv_users s = []"
    by (rule site_accept)
  have d: "delivers 7 (enc_request login_request @ []) (sv_host s)" using s by (simp add: delivers_def sound_def)
  have n: "(0 :: nat) < length site_connected" "(7 :: int) \<noteq> td_pipe_out_fd (site_connected ! 0)" using site_client by simp_all
  have room: "length (sv_users s) < NUM_USERS" using s(5) by (simp add: NUM_USERS_def)
  have nb: "bytes_of ''alice'' = [97, 108, 105, 99, 101]" "bytes_of ''secret'' = [115, 101, 99, 114, 101, 116]"
    by (simp_all add: bytes_of_def)
  have sp: "spec_handle site_crypto x login_request None (abs s)
      = (0, set_response 0, Some (bytes_of ''alice''), (abs s)\<lparr>bk_users := [bytes_of ''alice'' \<mapsto> (x, True)]\<rparr>)" for x
    using s(5) by (simp add: spec_handle_def login_request_def spec_login_def has_username_def has_data_def
        request_username_def cstr_def abs_def Let_def nb)
  from pa3_request_answered [OF site_connected_ok [OF s(1)] n site_client(1) d login_request_ok site_crypto_ok room]
  obtain salt code resp a' s' where *: "serve_client site_crypto 7 (site_connected ! 0) s = Ret (set_active_user 1 a' (site_connected ! 0), s')"
    "spec_handle site_crypto (take 127 (argon2_hash site_crypto (request_data login_request) salt)) login_request None (abs s)
      = (code, resp, a', abs s')" unfolding site_client(2) by blast
  then have a': "a' = Some (bytes_of ''alice'')" and "abs s' = (abs s)\<lparr>bk_users := [bytes_of ''alice''
      \<mapsto> (take 127 (argon2_hash site_crypto (request_data login_request) salt), True)]\<rparr>"
    unfolding sp by simp_all
  then have "bk_users (abs s') (bytes_of ''alice'') \<noteq> None" by simp
  then show ?thesis using *(1) a' by blast
qed

text \<open>
  C15: Whenever a handler returns, for any request, also one with an invalid action or inconsistent fields,
  code, response, session and abstract state are those of the specification of the booking office for
  some salt, and the server state is well-formed again.
\<close>

theorem pa3_handle_request_refines:
  assumes "server_ok s" and "handle_request c r (Some a) s = Ret (code, resp, sl, s')"
  shows "server_ok s' \<and> (\<exists>salt a'. sl = Some a'
    \<and> spec_handle c (take 127 (argon2_hash c (request_data r) salt)) r a (abs s) = (code, resp, a', abs s'))"
  using handle_request_refines [OF assms] .

lemma site_started_ok: "server_ok (site_started input)"
  using site_ok by (simp add: system_ok_def)

lemma pa3_handle_request_refines_witness:
  "\<exists>s'. handle_request site_crypto (default_request\<lparr>rq_action := 6\<rparr>) (Some None) (site_started []) = Ret (2, set_response 2, Some None, s')
     \<and> server_ok s'"
proof -
  have h: "handle_request site_crypto (default_request\<lparr>rq_action := 6\<rparr>) (Some None) (site_started [])
      = Ret (2, set_response 2, Some None, site_started [])"
    by (simp add: handle_request_def reads_missing_byte_def Let_def handle_query_request_def has_data_def default_request_def)
  show ?thesis using pa3_handle_request_refines [OF site_started_ok h] h by blast
qed

text \<open>
  C16: Every response of a handler is complete: its data has exactly the declared size, and its code fits in
  32 bits, so that sending it never reads outside an object.
\<close>

theorem pa3_responses_complete:
  assumes "server_ok s" and "handle_request c r (Some a) s = Ret (code, resp, sl, s')"
  shows "response_ok resp \<and> send_response fd resp s' \<noteq> Undefined"
proof -
  obtain hash a' b' where "spec_handle c hash r a (abs s) = (code, resp, a', b')" using handle_request_refines [OF assms] by blast
  then have r: "response_ok resp" by (rule spec_handle_response_ok)
  then have "rs_data resp = None \<Longrightarrow> rs_data_size resp = 0" "\<And>bs. rs_data resp = Some bs \<Longrightarrow> length bs = unat (rs_data_size resp)"
    by (auto simp: response_ok_def string_ok_def)
  then show ?thesis using r by (auto simp: send_response_def split: prod.splits option.splits)
qed

lemma pa3_responses_complete_witness: "response_ok (set_response 2) \<and> send_response 7 (set_response 2) (site_started []) \<noteq> Undefined"
proof -
  have h: "handle_request site_crypto (default_request\<lparr>rq_action := 6\<rparr>) (Some None) (site_started [])
      = Ret (2, set_response 2, Some None, site_started [])"
    by (simp add: handle_request_def reads_missing_byte_def Let_def handle_query_request_def has_data_def default_request_def)
  show ?thesis using pa3_responses_complete [OF site_started_ok h] .
qed

section \<open>The server as a whole\<close>

text \<open>
  C17: In every state the server reaches, from its start through any interleaving of connections, service of
  ready descriptors by the workers, disconnections and input on the console, the tables are well-formed:
  seat numbers, owners and counters are consistent, no descriptor is polled twice, poll sets stay within
  their arrays, no user has sessions with two clients, and the users with a session are exactly those
  marked as logged in.
\<close>

theorem pa3_system_invariant:
  assumes "server_start pipe_fds s0 = Ret (D, s)" and "distinct (map fst pipe_fds)"
    and "(server_step c pipe_fds)\<^sup>*\<^sup>* (D, s) (D', s')"
  shows "system_ok D' s'"
  using server_run_keeps [OF assms(3)] server_start_ok [OF assms(1,2)] by blast

lemma pa3_system_invariant_witness: "\<exists>s. system_ok site_connected s"
proof -
  obtain s where s: "accept_client [(5, 6)] 7 [site_thread] (site_started []) = Some (site_connected, s)" by (rule site_accept)
  have "main_turn [(5, 6)] (Main_ready False True 7 EINTR) [site_thread] (site_started []) = Some (Ret (False, site_connected, s))"
    by (simp add: main_turn_def s)
  then have "server_step site_crypto [(5, 6)] ([site_thread], site_started []) (site_connected, s)"
    by (rule server_step.main) (simp add: fresh_event_def site_fds)
  then have "(server_step site_crypto [(5, 6)])\<^sup>*\<^sup>* ([site_thread], site_started []) (site_connected, s)" by blast
  from pa3_system_invariant [OF site_start _ this] show ?thesis by auto
qed

text \<open>
  C18: The loop of a worker thread, for any sequence of outcomes of \<open>poll\<close>, takes only steps of that
  transition system, and keeps its invariant.
\<close>

theorem pa3_worker_takes_steps:
  assumes "system_ok D s" and "t < length D" and "thread_func c turns (D ! t) s = Ret (d, s')"
  shows "(server_step c pipe_fds)\<^sup>*\<^sup>* (D, s) (D[t := d], s') \<and> system_ok (D[t := d]) s'"
proof -
  have "(server_step c pipe_fds)\<^sup>*\<^sup>* (D[t := D ! t], s) (D[t := d], s')"
    by (rule thread_func_steps [OF assms(2,3)]) (use assms(1) in simp)
  then have "(server_step c pipe_fds)\<^sup>*\<^sup>* (D, s) (D[t := d], s')" by simp
  then show ?thesis using server_run_keeps assms(1) by blast
qed

lemma pa3_worker_takes_steps_witness:
  "\<exists>s'. (server_step site_crypto [(5, 6)])\<^sup>*\<^sup>* ([site_thread], site_started []) ([site_thread], s') \<and> system_ok [site_thread] s'"
proof -
  let ?turns = "[Turn False Poll_interrupted False, Turn True Poll_interrupted True]"
  obtain s' where "thread_func site_crypto ?turns ([site_thread] ! 0) (site_started []) = Ret (site_thread, s')"
    by (simp add: Let_def)
  from pa3_worker_takes_steps [OF site_ok _ this, of "[(5, 6)]"] show ?thesis by auto
qed

text \<open>
  C19: The threads never deadlock. Take any number of threads, each performing the lock operations that the
  worker loop or the acceptance of a client performs in some run; in every reachable configuration of their
  concurrent execution no lock is held twice, and unless all have finished, one of them can go on.
\<close>

theorem pa3_never_deadlocks:
  assumes "\<And>ops. ops \<in> set logs \<Longrightarrow>
      (\<exists>c turns d s d' s'. thread_func c turns d s = Ret (d', s') \<and> sv_log s' = sv_log s @ ops)
    \<or> (\<exists>pipe_fds fd D s D' s'. accept_client pipe_fds fd D s = Some (D', s') \<and> sv_log s' = sv_log s @ ops)"
    and "lock_step\<^sup>*\<^sup>* (map (Pair []) logs) T"
  shows "exclusive T \<and> ((\<exists>x\<in>set T. snd x \<noteq> []) \<longrightarrow> (\<exists>T'. lock_step T T' \<and> lock_work T' < lock_work T))"
proof -
  have "\<forall>ops\<in>set logs. balanced 0 ops"
    using assms(1) thread_func_locks accept_client_locks by (fastforce simp: locks_def)
  from locks_orderly [OF this] lock_run_keeps [OF assms(2)] have "orderly T" "exclusive T" by blast+
  then show ?thesis using orderly_progress lock_step_decreases by blast
qed

lemma pa3_never_deadlocks_witness:
  "\<exists>T'. lock_step [([], [Acquire (Poll_mutex 0), Release (Poll_mutex 0)]), ([], [Acquire (Poll_mutex 0), Release (Poll_mutex 0)])] T'"
proof -
  let ?ops = "[Acquire (Poll_mutex 0), Release (Poll_mutex 0)]"
  have "thread_func site_crypto [Turn False Poll_interrupted False] site_thread (site_started [])
      = Ret (site_thread, pthread_mutex_unlock (Poll_mutex 0) (pthread_mutex_lock (Poll_mutex 0) (site_started [])))"
    by (simp add: Let_def site_thread_def)
  then have "\<exists>c turns d s d' s'. thread_func c turns d s = Ret (d', s') \<and> sv_log s' = sv_log s @ ?ops" by fastforce
  then have h: "(\<exists>c turns d s d' s'. thread_func c turns d s = Ret (d', s') \<and> sv_log s' = sv_log s @ ops)
      \<or> (\<exists>pipe_fds fd D s D' s'. accept_client pipe_fds fd D s = Some (D', s') \<and> sv_log s' = sv_log s @ ops)"
    if "ops \<in> set [?ops, ?ops]" for ops using that by auto
  show ?thesis using pa3_never_deadlocks [of "[?ops, ?ops]", OF h rtranclp.rtrancl_refl] by auto
qed

text \<open>
  A new client goes to the poll set with the fewest entries among those with room; the search fails only
  when all are full.
\<close>

theorem pa3_smallest_pollset:
  assumes "find_suitable_pollset D s = (r, s')"
  shows "r = -1 \<and> (\<forall>d\<in>set D. CLIENTS_PER_THREAD \<le> ps_size (td_poll_set d))
    \<or> (\<exists>t<length D. r = int t \<and> ps_size (td_poll_set (D ! t)) < CLIENTS_PER_THREAD
         \<and> (\<forall>d\<in>set D. ps_size (td_poll_set (D ! t)) \<le> ps_size (td_poll_set d)))"
  using find_suitable_pollset_spec [OF assms] by (auto simp: smallest_def)

lemma pa3_smallest_pollset_witness: "fst (find_suitable_pollset [site_thread] (site_started [])) = 0"
proof -
  obtain r s' where f: "find_suitable_pollset [site_thread] (site_started []) = (r, s')" by force
  show ?thesis using pa3_smallest_pollset [OF f] f by (auto simp: site_thread_def CLIENTS_PER_THREAD_def)
qed

section \<open>Messages\<close>

text \<open>
  C20: A request that a client sends is received by the server unchanged, and nothing beyond it is consumed,
  whatever interruptions and splits both sides meet.
\<close>

theorem pa3_request_roundtrip:
  assumes "fd \<in> h_open h" and "sound h" and "request_ok r" and "h_out h fd = []" and "send_request fd r h = Ret h'"
    and "delivers cfd (h_out h' fd @ rest) (sv_host s)"
  shows "\<exists>s'. receive_request cfd s = Ret (True, r, s') \<and> delivers cfd rest (sv_host s')"
proof -
  obtain h2 where "send_request fd r h = Ret h2" "host_gave fd (enc_request r) h h2" by (rule send_request_spec [OF assms(1-3)])
  then have "h_out h' fd = enc_request r" using assms(4,5) by (simp add: host_gave_def)
  then have "delivers cfd (enc_request r @ rest) (sv_host s)" using assms(6) by simp
  then show ?thesis by (rule receive_request_spec [OF _ assms(3)]) blast
qed

lemma pa3_request_roundtrip_witness:
  "\<exists>s'. receive_request 7 (site_server (enc_request login_request)) = Ret (True, login_request, s')"
proof -
  have o: "(7 :: int) \<in> h_open (site_host [])" "sound (site_host [])" "h_out (site_host []) 7 = []"
    by (simp_all add: site_host_def sound_def)
  obtain h' where h': "send_request 7 login_request (site_host []) = Ret h'" "host_gave 7 (enc_request login_request) (site_host []) h'"
    by (rule send_request_spec [OF o(1,2) login_request_ok])
  then have "h_out h' 7 = enc_request login_request" using o(3) by (simp add: host_gave_def)
  then have "delivers 7 (h_out h' 7 @ []) (sv_host (site_server (enc_request login_request)))"
    by (simp add: delivers_def site_server_def site_host_def sound_def)
  from pa3_request_roundtrip [OF o(1,2) login_request_ok o(3) h'(1) this] show ?thesis by blast
qed

text \<open>
  C21: A complete response that the server sends is received by the client unchanged.
\<close>

theorem pa3_response_roundtrip:
  assumes "fd \<in> h_open (sv_host s)" and "sound (sv_host s)" and "response_ok r" and "h_out (sv_host s) fd = []"
    and "send_response fd r s = Ret (sent, s')" and "delivers cfd (h_out (sv_host s') fd @ rest) h"
  shows "sent \<and> (\<exists>h'. receive_response cfd h = Ret (r, h') \<and> delivers cfd rest h')"
proof -
  obtain h2 where *: "send_response fd r s = Ret (True, s\<lparr>sv_host := h2\<rparr>)" "host_gave fd (enc_response r) (sv_host s) h2"
    by (rule send_response_spec [OF assms(1-3)])
  then have "h_out (sv_host s') fd = enc_response r" using assms(4,5) by (simp add: host_gave_def)
  then have "delivers cfd (enc_response r @ rest) h" using assms(6) by simp
  then have "\<exists>h'. receive_response cfd h = Ret (r, h') \<and> delivers cfd rest h'" by (rule receive_response_spec [OF _ assms(3)]) blast
  then show ?thesis using * assms(5) by simp
qed

lemma pa3_response_roundtrip_witness: "\<exists>h'. receive_response 7 (site_host (enc_response (stats_response \<lparr>ss_id = 3, ss_booked = 2, ss_canceled = 1\<rparr>)))
    = Ret (stats_response \<lparr>ss_id = 3, ss_booked = 2, ss_canceled = 1\<rparr>, h')"
proof -
  let ?r = "stats_response \<lparr>ss_id = 3, ss_booked = 2, ss_canceled = 1\<rparr>"
  have o: "(7 :: int) \<in> h_open (sv_host (site_server []))" "sound (sv_host (site_server []))" "h_out (sv_host (site_server [])) 7 = []"
    by (simp_all add: site_host_def site_server_def sound_def)
  obtain h2 where h2: "send_response 7 ?r (site_server []) = Ret (True, (site_server [])\<lparr>sv_host := h2\<rparr>)"
    "host_gave 7 (enc_response ?r) (sv_host (site_server [])) h2" by (rule send_response_spec [OF o(1,2) response_ok_stats])
  then have "h_out (sv_host ((site_server [])\<lparr>sv_host := h2\<rparr>)) 7 = enc_response ?r" using o(3) by (simp add: host_gave_def)
  then have "delivers 7 (h_out (sv_host ((site_server [])\<lparr>sv_host := h2\<rparr>)) 7 @ []) (site_host (enc_response ?r))"
    by (simp add: delivers_def site_host_def sound_def)
  from pa3_response_roundtrip [OF o(1,2) response_ok_stats o(3) h2(1) this] show ?thesis by blast
qed

text \<open>
  C22: The decimal text of a number of 64 bits is accepted as a seat number exactly when it is that of a seat.
\<close>

theorem pa3_parse_seat_number:
  assumes "decimal_request n r" and "n \<le> ULLONG_MAX"
  shows "parse_seat_number r = (if 1 \<le> n \<and> n \<le> NUM_SEATS then Some (of_nat n) else None)"
  by (rule parse_decimal [OF assms])

lemma pa3_parse_seat_number_witness:
  "parse_seat_number (default_request\<lparr>rq_data := Some (show_nat 42), rq_data_size := 2\<rparr>) = Some 42"
proof -
  have "decimal_request 42 (default_request\<lparr>rq_data := Some (show_nat 42), rq_data_size := 2\<rparr>)" by (simp add: decimal_request_def)
  from pa3_parse_seat_number [OF this] show ?thesis by (simp add: ULLONG_MAX_def NUM_SEATS_def)
qed



section \<open>The client\<close>

text \<open>
  C24: A line that parses as a request for the server is evaluated to its end when the answer of the
  booking office is delivered, whatever interruptions and splits there are: exactly the encoding of the
  request is sent, exactly the response is consumed, and if the client served the user of its session
  before, it does so afterwards.
\<close>

theorem pa3_client_line:
  assumes "line_ok input" and "client_ok cl" and "parse_request input cl = Ret (PARSING_SUCCESS, r, cl1)"
    and "rq_action r \<noteq> action_value ACTION_EXIT" and "rq_action r \<noteq> action_value ACTION_CLEAR_SCREEN"
    and "spec_handle c hash r (cl_active cl) b = (code, resp, a', b')"
    and "delivers fd (enc_response resp @ rest) (cl_host cl)"
  shows "\<exists>cl'. evaluate input fd cl = Ret (True, cl') \<and> cl_active cl' = a' \<and> delivers fd rest (cl_host cl')
    \<and> h_out (cl_host cl') = (h_out (cl_host cl))(fd := h_out (cl_host cl) fd @ enc_request r)"
  using evaluate_exchange [OF assms] by metis

definition site_client :: client where
  "site_client = \<lparr>cl_active = None, cl_host = site_host (enc_response (set_response 0)), cl_log = []\<rparr>"

lemma pa3_client_line_witness:
  "\<exists>cl'. evaluate (bytes_of ''login alice secret'') 7 site_client = Ret (True, cl') \<and> cl_active cl' = Some (bytes_of ''alice'')
    \<and> h_out (cl_host cl') 7 = enc_request login_request"
proof -
  let ?in = "bytes_of ''login alice secret''"
  have st: "strtok_r ?in = (Some (bytes_of ''login''), bytes_of ''alice secret'')"
    "strtok_r (bytes_of ''alice secret'') = (Some (bytes_of ''alice''), bytes_of ''secret'')"
    "strtok_r (bytes_of ''secret'') = (Some (bytes_of ''secret''), [])"
    by (simp_all add: strtok_r_def is_delim_def bytes_of_def)
  have dup: "length t < 100 \<Longrightarrow> client_strdup t site_client = (Some t, site_client)" for t
    by (simp add: client_strdup_def site_client_def host_alloc_def host_next_def site_host_def PTRDIFF_MAX_def)
  have act: "to_action (bytes_of ''login'') site_client = Ret (ACTION_LOGIN, site_client)"
    by (simp add: to_action_def dup is_space_def is_punct_def bytes_of_def Let_def)
  have p: "parse_request ?in site_client = Ret (PARSING_SUCCESS, login_request, site_client)"
    by (simp add: parse_request_def parse_words_def set_username_def set_data_def st dup act Let_def)
      (simp add: login_request_def default_request_def site_client_def)
  have nb: "bytes_of ''alice'' = [97, 108, 105, 99, 101]" by (simp add: bytes_of_def)
  have sp: "spec_handle site_crypto [] login_request (cl_active site_client) \<lparr>bk_users = Map.empty, bk_seat = \<lambda>v. default_seat 0\<rparr>
      = (0, set_response 0, Some (bytes_of ''alice''), \<lparr>bk_users = [bytes_of ''alice'' \<mapsto> ([], True)], bk_seat = \<lambda>v. default_seat 0\<rparr>)"
    by (simp add: spec_handle_def site_client_def login_request_def spec_login_def has_username_def has_data_def
        request_username_def cstr_def Let_def nb)
  have l: "line_ok ?in" by (simp add: line_ok_def bytes_of_def PTRDIFF_MAX_def)
  have ok: "client_ok site_client" by (simp add: client_ok_def site_client_def site_host_def sound_def)
  have d: "delivers 7 (enc_response (set_response 0) @ []) (cl_host site_client)"
    by (simp add: delivers_def site_client_def site_host_def sound_def)
  have n: "rq_action login_request \<noteq> action_value ACTION_EXIT" "rq_action login_request \<noteq> action_value ACTION_CLEAR_SCREEN"
    by (simp_all add: login_request_def)
  from pa3_client_line [OF l ok p n sp d] show ?thesis by (auto simp: site_client_def site_host_def)
qed

text \<open>
  A number with a minus sign is a seat number when its negation modulo \<open>2 ^ 64\<close> is one.
\<close>

lemma negative_seat_number:
  "parse_seat_number (default_request\<lparr>rq_data := Some (bytes_of ''-18446744073709551615''), rq_data_size := 21\<rparr>) = Some 1"
proof -
  have "cstr (bytes_of ''-18446744073709551615'') = bytes_of ''-18446744073709551615''"
    by (rule cstr_id) (simp add: bytes_of_def)
  moreover have "length (bytes_of ''-18446744073709551615'') = 21" by (simp add: bytes_of_def)
  ultimately show ?thesis
    by (simp add: parse_seat_number_def has_data_def request_data_def strtoull_negative NUM_SEATS_def)
qed

end
