(* ===== verification/Week7_Shell.thy ===== *)
theory Week7_Shell
  imports Pa2_Builtins
begin

text \<open>
  \<^verbatim>\<open>week7/w7.c\<close>: a small shell with one operator in a line. The tokenizer works in place: an argument is a literal
  or a pointer into the line, in which it ends every word with a NUL; \<open>None\<close> is a read outside the line.
\<close>

section \<open>Arguments\<close>

definition MAX_ARGUMENTS :: nat where "MAX_ARGUMENTS = 100"

datatype arg = Literal "byte list" | Pointer nat

abbreviation LESS :: byte where "LESS \<equiv> 60"
abbreviation GREATER :: byte where "GREATER \<equiv> 62"
abbreviation BAR :: byte where "BAR \<equiv> 124"
abbreviation SPACE :: byte where "SPACE \<equiv> 32"

definition word_byte :: "byte \<Rightarrow> bool" where
  "word_byte c \<longleftrightarrow> c \<noteq> 0 \<and> c \<noteq> SPACE \<and> c \<noteq> LESS \<and> c \<noteq> GREATER \<and> c \<noteq> BAR"

function skip_spaces :: "byte list \<Rightarrow> nat \<Rightarrow> byte list \<times> nat" where
  "skip_spaces buf cursor =
     (if cursor < length buf \<and> buf ! cursor = SPACE then skip_spaces (buf[cursor := 0]) (cursor + 1) else (buf, cursor))"
  by pat_completeness auto
termination by (relation "measure (\<lambda>(buf, cursor). length buf - cursor)") auto

function scan_word :: "byte list \<Rightarrow> nat \<Rightarrow> nat" where
  "scan_word buf cursor = (if cursor < length buf \<and> word_byte (buf ! cursor) then scan_word buf (cursor + 1) else cursor)"
  by pat_completeness auto
termination by (relation "measure (\<lambda>(buf, cursor). length buf - cursor)") auto

declare skip_spaces.simps [simp del] scan_word.simps [simp del]

lemma skip_spaces_bounds: "skip_spaces buf cursor = (buf', cursor') \<Longrightarrow> length buf' = length buf \<and> cursor \<le> cursor'"
proof (induction buf cursor rule: skip_spaces.induct)
  case (1 buf cursor)
  then show ?case by (cases "cursor < length buf \<and> buf ! cursor = SPACE") (auto simp: skip_spaces.simps [of buf cursor])
qed

lemma scan_word_bounds: "cursor \<le> scan_word buf cursor"
proof (induction buf cursor rule: scan_word.induct)
  case (1 buf cursor)
  then show ?case by (cases "cursor < length buf \<and> word_byte (buf ! cursor)") (auto simp: scan_word.simps [of buf cursor])
qed

lemma at_bound: "at xs i = Some x \<Longrightarrow> i < length xs"
  by (simp add: at_def split: if_splits)

lemma token_shortens:
  assumes "skip_spaces buf cursor = (buf1, start)"
  shows "at buf1 start = Some c \<Longrightarrow> 0 < k \<Longrightarrow> length buf1 - (start + k) < length buf - cursor"
    and "at buf1 (scan_word buf1 start) = Some c \<Longrightarrow> 0 < k \<Longrightarrow> length buf1 - (scan_word buf1 start + k) < length buf - cursor"
proof -
  have b: "length buf1 = length buf" "cursor \<le> start" "start \<le> scan_word buf1 start"
    using skip_spaces_bounds [OF assms] scan_word_bounds by auto
  show "at buf1 start = Some c \<Longrightarrow> 0 < k \<Longrightarrow> length buf1 - (start + k) < length buf - cursor"
    using b at_bound [of buf1 start c] by linarith
  show "at buf1 (scan_word buf1 start) = Some c \<Longrightarrow> 0 < k \<Longrightarrow> length buf1 - (scan_word buf1 start + k) < length buf - cursor"
    using b at_bound [of buf1 "scan_word buf1 start" c] by linarith
qed

text \<open>\<open>parse_args\<close> from a cursor with the arguments so far: whether it succeeded, the line and the arguments.\<close>

function parse_args_from :: "byte list \<Rightarrow> nat \<Rightarrow> arg list \<Rightarrow> (bool \<times> byte list \<times> arg list) option" where
  "parse_args_from buf cursor args =
     do { c \<leftarrow> at buf cursor;
       if c = 0 then Some (True, buf, args)
       else (case skip_spaces buf cursor of (buf1, start) \<Rightarrow>
         do { c \<leftarrow> at buf1 start;
           if c = 0 then Some (True, buf1, args)
           else if MAX_ARGUMENTS - 1 \<le> length args then Some (False, buf1, args)
           else if c = LESS then parse_args_from buf1 (start + 1) (args @ [Literal [LESS]])
           else if c = BAR then parse_args_from buf1 (start + 1) (args @ [Literal [BAR]])
           else if c = GREATER then
             do { d \<leftarrow> at buf1 (start + 1);
                  if d = GREATER then parse_args_from buf1 (start + 2) (args @ [Literal [GREATER, GREATER]])
                  else parse_args_from buf1 (start + 1) (args @ [Literal [GREATER]]) }
           else
             do { c \<leftarrow> at buf1 (scan_word buf1 start);
               if c = 0 then Some (True, buf1, args @ [Pointer start])
               else if c = SPACE then
                 parse_args_from (buf1[scan_word buf1 start := 0]) (scan_word buf1 start + 1) (args @ [Pointer start])
               else if MAX_ARGUMENTS - 1 \<le> length (args @ [Pointer start]) then Some (False, buf1, args @ [Pointer start])
               else if c = LESS then
                 parse_args_from (buf1[scan_word buf1 start := 0]) (scan_word buf1 start + 1) (args @ [Pointer start, Literal [LESS]])
               else if c = BAR then
                 parse_args_from (buf1[scan_word buf1 start := 0]) (scan_word buf1 start + 1) (args @ [Pointer start, Literal [BAR]])
               else
                 do { d \<leftarrow> at buf1 (scan_word buf1 start + 1);
                      if d = GREATER then
                        parse_args_from (buf1[scan_word buf1 start := 0]) (scan_word buf1 start + 2)
                          (args @ [Pointer start, Literal [GREATER, GREATER]])
                      else
                        parse_args_from (buf1[scan_word buf1 start := 0]) (scan_word buf1 start + 1)
                          (args @ [Pointer start, Literal [GREATER]]) } } }) }"
  by pat_completeness auto
termination
proof (relation "measure (\<lambda>(buf, cursor, args). length buf - cursor)", goal_cases)
  case 1
  then show ?case by simp
qed (simp_all only: in_measure case_prod_conv length_list_update, (erule (1) token_shortens [OF sym], simp)+)

declare parse_args_from.simps [simp del]

text \<open>The line as \<open>readline\<close> returns it, with its terminator.\<close>

definition parse_args :: "byte list \<Rightarrow> (bool \<times> byte list \<times> arg list) option" where
  "parse_args cmd = parse_args_from (cmd @ [0]) 0 []"

text \<open>The string an argument is.\<close>

fun arg_string :: "byte list \<Rightarrow> arg \<Rightarrow> byte list" where
  "arg_string buf (Literal s) = s"
| "arg_string buf (Pointer p) = takeWhile (\<lambda>b. b \<noteq> 0) (drop p buf)"

section \<open>The tokens of a line\<close>

text \<open>The reference: the words and operators of a line, without an array and without a limit.\<close>

function line_tokens :: "byte list \<Rightarrow> byte list list" where
  "line_tokens [] = []"
| "line_tokens (c # s) =
     (if c = SPACE then line_tokens s
      else if c = LESS then [LESS] # line_tokens s
      else if c = BAR then [BAR] # line_tokens s
      else if c = GREATER then
        (if s \<noteq> [] \<and> hd s = GREATER then [GREATER, GREATER] # line_tokens (tl s) else [GREATER] # line_tokens s)
      else (c # takeWhile word_byte s) # line_tokens (dropWhile word_byte s))"
  by pat_completeness auto
termination
  by (relation "measure length") (auto simp: le_imp_less_Suc length_dropWhile_le less_Suc_eq_le)

declare line_tokens.simps(2) [simp del]

lemma line_tokens_spaces: "line_tokens (replicate k SPACE @ s) = line_tokens s"
  by (induction k) (simp_all add: line_tokens.simps(2))

lemma line_tokens_some: "c \<noteq> SPACE \<Longrightarrow> line_tokens (c # s) \<noteq> []"
  by (simp add: line_tokens.simps(2))

lemma line_tokens_word:
  assumes "word_byte c"
  shows "line_tokens (c # s) = takeWhile word_byte (c # s) # line_tokens (dropWhile word_byte (c # s))"
  using assms by (simp add: line_tokens.simps(2) [of c s] word_byte_def)

lemma line_tokens_operator:
  "c = LESS \<or> c = BAR \<or> c = GREATER \<and> (s = [] \<or> hd s \<noteq> GREATER) \<Longrightarrow> line_tokens (c # s) = [c] # line_tokens s"
  by (auto simp: line_tokens.simps(2))

lemma spaces_split:
  obtains k t where "s = replicate k SPACE @ t" and "t = [] \<or> hd t \<noteq> SPACE"
proof -
  have "takeWhile (\<lambda>b. b = SPACE) s = replicate (length (takeWhile (\<lambda>b. b = SPACE) s)) SPACE"
    by (rule replicate_eqI [symmetric, THEN sym]) (auto dest: set_takeWhileD)
  then have "s = replicate (length (takeWhile (\<lambda>b. b = SPACE) s)) SPACE @ dropWhile (\<lambda>b. b = SPACE) s"
    by (metis takeWhile_dropWhile_id)
  then show thesis using that hd_dropWhile [of "\<lambda>b. b = SPACE" s] by blast
qed

lemma skip_spaces_run:
  assumes "t \<noteq> []" and "hd t \<noteq> SPACE"
  shows "skip_spaces (pre @ replicate k SPACE @ t) (length pre) = (pre @ replicate k 0 @ t, length pre + k)"
proof (induction k arbitrary: pre)
  case 0
  then show ?case using assms by (simp add: skip_spaces.simps [of "pre @ t"] nth_append hd_conv_nth)
next
  case (Suc k)
  have "skip_spaces (pre @ replicate (Suc k) SPACE @ t) (length pre) = skip_spaces ((pre @ [0]) @ replicate k SPACE @ t) (length (pre @ [0]))"
    by (subst skip_spaces.simps) (simp add: nth_append list_update_append)
  then show ?case using Suc.IH [of "pre @ [0]"] by simp
qed

lemma scan_word_run:
  assumes "\<forall>b\<in>set w. word_byte b" and "\<not> word_byte c"
  shows "scan_word (pre @ w @ c # t) (length pre) = length pre + length w"
  using assms(1)
proof (induction w arbitrary: pre)
  case Nil
  then show ?case using assms(2) by (simp add: scan_word.simps [of "pre @ c # t"] nth_append)
next
  case (Cons b w)
  have "scan_word (pre @ (b # w) @ c # t) (length pre) = scan_word ((pre @ [b]) @ w @ c # t) (length (pre @ [b]))"
    using Cons.prems by (subst scan_word.simps) (simp add: nth_append)
  then show ?case using Cons.IH [of "pre @ [b]"] Cons.prems by simp
qed

definition line_parsed :: "byte list \<Rightarrow> byte list \<Rightarrow> arg list \<Rightarrow> (bool \<times> byte list \<times> arg list) option \<Rightarrow> bool" where
  "line_parsed pre s args r \<longleftrightarrow> (\<exists>ok buf new. r = Some (ok, pre @ buf, args @ new)
     \<and> (ok \<longleftrightarrow> length args + length (line_tokens s) \<le> MAX_ARGUMENTS - 1)
     \<and> (ok \<longrightarrow> map (arg_string (pre @ buf)) new = line_tokens s))"

lemma parsed_later:
  assumes "line_parsed (pre @ mid) v (args @ extra) r" and "line_tokens s = ws @ line_tokens v" and "length ws = length extra"
    and "\<And>buf. map (arg_string (pre @ mid @ buf)) extra = ws"
  shows "line_parsed pre s args r"
proof -
  obtain ok buf new where "r = Some (ok, pre @ mid @ buf, args @ extra @ new)"
    "ok \<longleftrightarrow> length args + length extra + length (line_tokens v) \<le> MAX_ARGUMENTS - 1"
    "ok \<longrightarrow> map (arg_string (pre @ mid @ buf)) new = line_tokens v"
    using assms(1) by (auto simp: line_parsed_def)
  then show ?thesis unfolding line_parsed_def
    using assms(2-4) by (intro exI [of _ ok] exI [of _ "mid @ buf"] exI [of _ "extra @ new"]) (simp add: add.assoc)
qed

lemma parsed_stops: "MAX_ARGUMENTS - 1 < length args + length (line_tokens s) \<Longrightarrow> line_parsed pre s args (Some (False, pre @ buf, args @ new))"
  by (auto simp: line_parsed_def)

lemma arg_string_word: "0 \<notin> set w \<Longrightarrow> arg_string (pre @ w @ 0 # x) (Pointer (length pre)) = w"
  by (simp add: takeWhile_append2 takeWhile_tail) (metis takeWhile_append2 append_Nil2 takeWhile.simps(2))

lemma at_mid [simp]: "at (pre @ c # t) (length pre) = Some c"
  by (simp add: at_def nth_append)

lemma at_next: "at (pre @ w @ x) (length pre + length w) = at x 0"
  by (simp add: at_def nth_append)

text \<open>One round of the loop: spaces, an operator, a word with what ends it.\<close>

lemma parse_spaces:
  assumes "c \<noteq> 0" and "c \<noteq> SPACE"
  shows "parse_args_from (pre @ replicate k SPACE @ c # x) (length pre) args
    = parse_args_from ((pre @ replicate k 0) @ c # x) (length (pre @ replicate k 0)) args"
proof (cases k)
  case (Suc m)
  have skip: "skip_spaces (pre @ replicate k SPACE @ c # x) (length pre) = (pre @ replicate k 0 @ c # x, length pre + k)"
    using skip_spaces_run [of "c # x"] assms by simp
  have here: "skip_spaces ((pre @ replicate k 0) @ c # x) (length (pre @ replicate k 0)) = ((pre @ replicate k 0) @ c # x, length (pre @ replicate k 0))"
    using skip_spaces_run [of "c # x" "pre @ replicate k 0" 0] assms by simp
  have "at (pre @ replicate k SPACE @ c # x) (length pre) = Some SPACE" by (simp add: Suc)
  moreover have "at ((pre @ replicate k 0) @ c # x) (length (pre @ replicate k 0)) = Some c" by (rule at_mid)
  ultimately show ?thesis
    using parse_args_from.simps [of "pre @ replicate k SPACE @ c # x" "length pre" args]
      parse_args_from.simps [of "(pre @ replicate k 0) @ c # x" "length (pre @ replicate k 0)" args] here skip assms
    by (simp only: Option.bind.simps prod.case append_assoc length_append length_replicate if_False) simp
qed simp

lemma parse_round:
  assumes "c \<noteq> 0" and "c \<noteq> SPACE"
  shows "skip_spaces (p @ c # x) (length p) = (p @ c # x, length p)" "at (p @ c # x) (length p) = Some c"
  using skip_spaces_run [of "c # x" p 0] assms by simp_all

lemma parse_full:
  assumes "c \<noteq> 0" and "c \<noteq> SPACE" and "MAX_ARGUMENTS - 1 \<le> length args"
  shows "parse_args_from (p @ c # x) (length p) args = Some (False, p @ c # x, args)"
  unfolding parse_args_from.simps [of "p @ c # x" "length p" args] parse_round [OF assms(1,2)] using assms by simp

lemma parse_blank:
  "parse_args_from (pre @ replicate k SPACE @ [0]) (length pre) args = Some (True, pre @ replicate k 0 @ [0], args)"
proof (cases k)
  case 0
  then show ?thesis by (simp add: parse_args_from.simps [of "pre @ [0]"])
next
  case (Suc m)
  have "skip_spaces (pre @ replicate k SPACE @ [0]) (length pre) = (pre @ replicate k 0 @ [0], length pre + k)"
    using skip_spaces_run [of "[0]"] by simp
  moreover have "at (pre @ replicate k 0 @ [0]) (length pre + k) = Some 0"
    using at_next [of pre "replicate k 0" "[0]"] by (simp add: at_def)
  moreover have "at (pre @ replicate k SPACE @ [0]) (length pre) = Some SPACE" by (simp add: Suc)
  ultimately show ?thesis by (simp add: parse_args_from.simps [of "pre @ replicate k SPACE @ [0]" "length pre" args])
qed

lemma parse_operator:
  assumes "c = LESS \<or> c = BAR \<or> c = GREATER" and "\<not> MAX_ARGUMENTS - 1 \<le> length args" and "x \<noteq> []"
  shows "parse_args_from (p @ c # x) (length p) args =
    (if c = GREATER \<and> hd x = GREATER
     then parse_args_from (p @ c # x) (length p + 2) (args @ [Literal [GREATER, GREATER]])
     else parse_args_from (p @ c # x) (length p + 1) (args @ [Literal [c]]))"
proof -
  have c: "c \<noteq> 0" "c \<noteq> SPACE" using assms(1) by auto
  have "at (p @ c # x) (length p + 1) = Some (hd x)" using at_next [of p "[c]" x] assms(3) by (simp add: at_def hd_conv_nth)
  then show ?thesis
    unfolding parse_args_from.simps [of "p @ c # x" "length p" args] parse_round [OF c] using assms(1,2) by auto
qed

lemma parse_word:
  assumes "\<forall>b\<in>set w. word_byte b" and "w \<noteq> []" and "\<not> word_byte e" and "\<not> MAX_ARGUMENTS - 1 \<le> length args"
    and "e = GREATER \<longrightarrow> x \<noteq> []"
  shows "parse_args_from (p @ w @ e # x) (length p) args =
    (let word = args @ [Pointer (length p)]; stop = p @ w @ 0 # x in
     if e = 0 then Some (True, stop, word)
     else if e = SPACE then parse_args_from stop (length p + length w + 1) word
     else if MAX_ARGUMENTS - 1 \<le> length word then Some (False, p @ w @ e # x, word)
     else if e = GREATER \<and> hd x = GREATER then parse_args_from stop (length p + length w + 2) (word @ [Literal [GREATER, GREATER]])
     else parse_args_from stop (length p + length w + 1) (word @ [Literal [e]]))"
proof -
  obtain c u where w: "w = c # u" using assms(2) by (cases w) auto
  have c: "c \<noteq> 0" "c \<noteq> SPACE" "c \<noteq> LESS" "c \<noteq> GREATER" "c \<noteq> BAR" using assms(1) w by (auto simp: word_byte_def)
  have buf: "p @ w @ e # x = p @ c # (u @ e # x)" by (simp add: w)
  note round = parse_round [OF c(1,2), of p "u @ e # x", folded buf]
  note scan = scan_word_run [OF assms(1,3), of p x]
  have stop: "(p @ w @ y # x)[length p + length w := 0] = p @ w @ 0 # x" for y by (simp add: list_update_append)
  have ends: "at (p @ w @ e # x) (length p + length w) = Some e"
    "e = GREATER \<Longrightarrow> at (p @ w @ e # x) (length p + length w + 1) = Some (hd x)"
    using at_next [of p w "e # x"] at_next [of p "w @ [e]" x] assms(5) by (simp_all add: at_def hd_conv_nth)
  have "e = 0 \<or> e = SPACE \<or> e = LESS \<or> e = BAR \<or> e = GREATER" using assms(3) by (auto simp: word_byte_def)
  then show ?thesis
    unfolding parse_args_from.simps [of "p @ w @ e # x" "length p" args] round Let_def
    using assms(4) c ends round scan by (elim disjE) (simp_all add: stop del: at_simp at_mid)
qed

lemma parsed_call:
  assumes IH: "line_parsed (p @ mid) v (args @ extra) (parse_args_from ((p @ mid) @ v @ [0]) (length (p @ mid)) (args @ extra))"
    and "r = parse_args_from (p @ mid @ v @ [0]) (length p + length mid) (args @ extra)"
    and "line_tokens s = ws @ line_tokens v" and "length ws = length extra" and "\<And>buf. map (arg_string (p @ mid @ buf)) extra = ws"
  shows "line_parsed p s args r"
  by (rule parsed_later [OF IH assms(3-5), unfolded append_assoc length_append, folded assms(2)])

text \<open>What is left to parse: the tokens of a line that starts with a token.\<close>

definition parses :: "byte list \<Rightarrow> bool" where
  "parses s \<longleftrightarrow> (\<forall>pre args. length args \<le> MAX_ARGUMENTS - 1 \<longrightarrow>
     line_parsed pre s args (parse_args_from (pre @ s @ [0]) (length pre) args))"

lemma parses_call:
  assumes "parses v" and "length (args @ extra) \<le> MAX_ARGUMENTS - 1"
    and "parse_args_from (p @ s @ [0]) (length p) args = parse_args_from (p @ mid @ v @ [0]) (length p + length mid) (args @ extra)"
    and "line_tokens s = ws @ line_tokens v" and "length ws = length extra" and "\<And>buf. map (arg_string (p @ mid @ buf)) extra = ws"
  shows "line_parsed p s args (parse_args_from (p @ s @ [0]) (length p) args)"
proof -
  have "line_parsed (p @ mid) v (args @ extra) (parse_args_from ((p @ mid) @ v @ [0]) (length (p @ mid)) (args @ extra))"
    using assms(1,2) unfolding parses_def by blast
  then show ?thesis by (rule parsed_call [OF _ assms(3-6)])
qed

lemma parses_operator:
  assumes "c = LESS \<or> c = BAR \<or> c = GREATER" and "\<And>v. length v \<le> length u \<Longrightarrow> set v \<subseteq> set u \<Longrightarrow> parses v"
    and room: "\<not> MAX_ARGUMENTS - 1 \<le> length args"
  shows "line_parsed p (c # u) args (parse_args_from (p @ (c # u) @ [0]) (length p) args)"
proof (cases "c = GREATER \<and> u \<noteq> [] \<and> hd u = GREATER")
  case True
  then obtain v where v: "u = GREATER # v" by (cases u) auto
  show ?thesis
  proof (rule parses_call [of v args "[Literal [GREATER, GREATER]]" _ _ "[GREATER, GREATER]" "[[GREATER, GREATER]]"])
    show "parses v" using assms(2) [of v] v by auto
  qed (use True v room parse_operator [OF assms(1) room, of "u @ [0]" p] in \<open>auto simp: line_tokens.simps(2)\<close>)
next
  case False
  show ?thesis
  proof (rule parses_call [of u args "[Literal [c]]" _ _ "[c]" "[[c]]"])
    show "parses u" using assms(2) [of u] by simp
  qed (use False assms(1) room parse_operator [OF assms(1) room, of "u @ [0]" p] in \<open>auto simp: line_tokens.simps(2) hd_append\<close>)
qed

lemma parses_word:
  assumes w: "\<forall>b\<in>set w. word_byte b" "w \<noteq> []" and r: "r = [] \<or> \<not> word_byte (hd r)" "0 \<notin> set r"
    and IH: "\<And>v. length v < length r \<Longrightarrow> set v \<subseteq> set r \<Longrightarrow> parses v" and room: "\<not> MAX_ARGUMENTS - 1 \<le> length args"
    and toks: "line_tokens s = w # line_tokens r" "s = w @ r"
  shows "line_parsed p s args (parse_args_from (p @ s @ [0]) (length p) args)"
proof (cases r)
  case Nil
  have "arg_string (p @ (w @ [0])) (Pointer (length p)) = w" using arg_string_word [of w p "[]"] w(1) by (auto simp: word_byte_def)
  moreover have "parse_args_from (p @ s @ [0]) (length p) args = Some (True, p @ (w @ [0]), args @ [Pointer (length p)])"
    using parse_word [OF w(1,2) _ room, of 0 "[]" p] toks(2) Nil by (simp add: word_byte_def)
  ultimately show ?thesis using room toks(1) Nil unfolding line_parsed_def
    by (intro exI [of _ True] exI [of _ "w @ [0]"] exI [of _ "[Pointer (length p)]"]) simp
next
  case (Cons e u)
  have word: "arg_string (p @ w @ 0 # x) (Pointer (length p)) = w" for x
    using arg_string_word [of w p x] w(1) by (auto simp: word_byte_def)
  have e: "\<not> word_byte e" "e \<noteq> 0" using r Cons by auto
  have buf: "p @ s @ [0] = p @ w @ e # (u @ [0])" using toks(2) Cons by simp
  have step: "parse_args_from (p @ s @ [0]) (length p) args = (let word = args @ [Pointer (length p)]; stop = p @ w @ 0 # (u @ [0]) in
     if e = SPACE then parse_args_from stop (length p + length w + 1) word
     else if MAX_ARGUMENTS - 1 \<le> length word then Some (False, p @ w @ e # (u @ [0]), word)
     else if e = GREATER \<and> hd (u @ [0]) = GREATER
     then parse_args_from stop (length p + length w + 2) (word @ [Literal [GREATER, GREATER]])
     else parse_args_from stop (length p + length w + 1) (word @ [Literal [e]]))"
    unfolding buf using parse_word [OF w(1,2) e(1) room, of "u @ [0]" p] e(2) by (simp add: Let_def)
  consider "e = SPACE" | "e \<noteq> SPACE" "MAX_ARGUMENTS - 1 \<le> length args + 1"
    | v where "e \<noteq> SPACE" "\<not> MAX_ARGUMENTS - 1 \<le> length args + 1" "e = GREATER" "u = GREATER # v"
    | "e \<noteq> SPACE" "\<not> MAX_ARGUMENTS - 1 \<le> length args + 1" "\<not> (e = GREATER \<and> hd (u @ [0]) = GREATER)"
    by (cases u) auto
  then show ?thesis
  proof cases
    case 1
    show ?thesis
    proof (rule parses_call [of u args "[Pointer (length p)]" _ _ "w @ [0]" "[w]"])
      show "parses u" using IH [of u] Cons by auto
    qed (use 1 step room word toks(1) Cons in \<open>auto simp: line_tokens.simps(2) [of SPACE u] Let_def\<close>)
  next
    case 2
    then have "MAX_ARGUMENTS - 1 < length args + length (line_tokens s)"
      using line_tokens_some [of e u] toks(1) Cons by (cases "line_tokens r") auto
    then show ?thesis using parsed_stops [of args s p "w @ e # (u @ [0])" "[Pointer (length p)]"] step 2 by (simp add: Let_def)
  next
    case (3 v)
    show ?thesis
    proof (rule parses_call [of v args "[Pointer (length p), Literal [GREATER, GREATER]]" _ _ "w @ [0, GREATER]" "[w, [GREATER, GREATER]]"])
      show "parses v" using IH [of v] Cons 3 by auto
    qed (use 3 step room word toks(1) Cons in \<open>auto simp: line_tokens.simps(2) [of GREATER "GREATER # v"] Let_def\<close>)
  next
    case 4
    show ?thesis
    proof (rule parses_call [of u args "[Pointer (length p), Literal [e]]" _ _ "w @ [0]" "[w, [e]]"])
      show "parses u" using IH [of u] Cons by auto
      show "line_tokens s = [w, [e]] @ line_tokens u"
        using 4 e line_tokens_operator [of e u] toks(1) Cons by (cases u) (auto simp: word_byte_def)
    qed (use 4 step room word in \<open>auto simp: Let_def\<close>)
  qed
qed

lemma parse_args_tokens: "0 \<notin> set s \<Longrightarrow> parses s"
proof (induction "length s" arbitrary: s rule: less_induct)
  case less
  obtain k t where s: "s = replicate k SPACE @ t" and t: "t = [] \<or> hd t \<noteq> SPACE" by (rule spaces_split)
  have sub: "parses v" if "length v < length t" "set v \<subseteq> set t" for v
    using that less.prems s by (intro less.hyps) auto
  show ?case
    unfolding parses_def
  proof (intro allI impI)
    fix pre args
    assume room: "length (args :: arg list) \<le> MAX_ARGUMENTS - 1"
    show "line_parsed pre s args (parse_args_from (pre @ s @ [0]) (length pre) args)"
    proof (cases t)
      case Nil
      then show ?thesis using parse_blank [of pre k args] room s line_tokens_spaces [of k "[]"] unfolding line_parsed_def
        by (intro exI [of _ True] exI [of _ "replicate k 0 @ [0]"] exI [of _ "[]"]) simp
    next
      case (Cons c u)
      have c: "c \<noteq> 0" "c \<noteq> SPACE" using Cons t s less.prems by auto
      let ?p = "pre @ replicate k 0"
      have "line_parsed ?p t args (parse_args_from (?p @ t @ [0]) (length ?p) args)"
      proof (cases "MAX_ARGUMENTS - 1 \<le> length args")
        case True
        then have "MAX_ARGUMENTS - 1 < length args + length (line_tokens t)"
          using line_tokens_some [OF c(2), of u] Cons by (cases "line_tokens t") auto
        moreover have "parse_args_from (?p @ t @ [0]) (length ?p) args = Some (False, ?p @ (t @ [0]), args @ [])"
          using parse_full [OF c True, of ?p "u @ [0]"] Cons by simp
        ultimately show ?thesis using parsed_stops [of args t ?p "t @ [0]" "[]"] by simp
      next
        case False
        show ?thesis
        proof (cases "word_byte c")
          case True
          have "\<forall>b\<in>set (takeWhile word_byte t). word_byte b" by (auto dest: set_takeWhileD)
          moreover have "dropWhile word_byte t = [] \<or> \<not> word_byte (hd (dropWhile word_byte t))" using hd_dropWhile by blast
          moreover have "takeWhile word_byte t \<noteq> []" "0 \<notin> set (dropWhile word_byte t)" "line_tokens t = takeWhile word_byte t # line_tokens (dropWhile word_byte t)"
            using True Cons s less.prems line_tokens_word [OF True] by (auto dest: set_dropWhileD)
          moreover have "parses v" if "length v < length (dropWhile word_byte t)" "set v \<subseteq> set (dropWhile word_byte t)" for v
            using that sub [of v] length_dropWhile_le [of word_byte t] by (auto dest: set_dropWhileD)
          ultimately show ?thesis using parses_word [of "takeWhile word_byte t" "dropWhile word_byte t" args t ?p] False by simp
        next
          case no_word: False
          then have "c = LESS \<or> c = BAR \<or> c = GREATER" using c by (auto simp: word_byte_def)
          moreover have "parses v" if "length v \<le> length u" "set v \<subseteq> set u" for v using sub [of v] that Cons by auto
          ultimately show ?thesis unfolding Cons using False by (rule parses_operator)
        qed
      qed
      then show ?thesis
        using parsed_call [of pre "replicate k 0" t args "[]" _ s "[]"] parse_spaces [OF c, of pre k "u @ [0]" args]
          line_tokens_spaces [of k t] s Cons by simp
    qed
  qed
qed

section \<open>Commands\<close>

text \<open>
  What the shell asks of the system: whether a name can be executed through the path and directly, and which
  files can be opened; scripts for \<^verbatim>\<open>fork\<close>, \<^verbatim>\<open>pipe\<close> and \<^verbatim>\<open>waitpid\<close>, which succeed when they are used up. The
  log has the calls that matter, in order; a child is one entry, with its arguments, its standard input and output and its fate.
\<close>

datatype exec_error = Not_found | Other_error

datatype stdio = Inherited | File_in "byte list" | File_out "byte list" | File_append "byte list" | Pipe_end

record programs =
  pr_execvp :: "byte list \<Rightarrow> exec_error option"
  pr_execv :: "byte list \<Rightarrow> exec_error option"
  pr_open :: "stdio \<Rightarrow> bool"

datatype fate = Becomes "byte list" | Quits int

datatype log_entry = Forked "byte list list" stdio stdio fate | Piped | Closed_pipe | Waited nat | Waited_all | Complained

datatype wait_result = Reaped | Interrupted | Wait_fails

record mini_shell =
  mi_forks :: "bool list"
  mi_pipes :: "bool list"
  mi_waits :: "wait_result list"
  mi_exit_status :: int
  mi_log :: "log_entry list"

datatype mini_reply = SUCCESS | READLINE_EXIT | PARSE_ARGS_ERROR | EVALUATE_ERROR

definition note_entry :: "log_entry \<Rightarrow> mini_shell \<Rightarrow> mini_shell" where
  "note_entry e s = s\<lparr>mi_log := mi_log s @ [e]\<rparr>"

text \<open>\<^verbatim>\<open>fork\<close> with what the child does.\<close>

definition fork_child :: "log_entry \<Rightarrow> mini_shell \<Rightarrow> bool \<times> mini_shell" where
  "fork_child e s =
     (case mi_forks s of
        False # fs \<Rightarrow> (False, note_entry Complained (s\<lparr>mi_forks := fs\<rparr>))
      | fs \<Rightarrow> (True, note_entry e (s\<lparr>mi_forks := tl fs\<rparr>)))"

fun mini_wait_loop :: "wait_result list \<Rightarrow> bool \<times> wait_result list" where
  "mini_wait_loop [] = (True, [])"
| "mini_wait_loop (Reaped # ws) = (True, ws)"
| "mini_wait_loop (Interrupted # ws) = mini_wait_loop ws"
| "mini_wait_loop (Wait_fails # ws) = (False, ws)"

definition wait_for_pid :: "nat \<Rightarrow> mini_shell \<Rightarrow> mini_reply \<times> mini_shell" where
  "wait_for_pid pid s =
     (case mini_wait_loop (mi_waits s) of (ok, ws) \<Rightarrow>
      let s = s\<lparr>mi_waits := ws\<rparr> in
      if ok then (SUCCESS, note_entry (Waited pid) s) else (EVALUATE_ERROR, note_entry Complained s))"

text \<open>\<open>None\<close>: not a number.\<close>

definition parse_exit_status :: "byte list \<Rightarrow> int option" where
  "parse_exit_status str =
     (case strtoll str of (v, rest, converted, out_of_range) \<Rightarrow>
      if \<not> converted \<or> rest \<noteq> [] then None
      else if out_of_range \<or> v < 0 \<or> 255 < v then Some 255
      else Some v)"

definition handle_exit_command :: "byte list list \<Rightarrow> mini_shell \<Rightarrow> mini_reply \<times> mini_shell" where
  "handle_exit_command args s =
     (if length args = 1 then (READLINE_EXIT, note_entry Waited_all (s\<lparr>mi_exit_status := 0\<rparr>))
      else if 2 < length args then (EVALUATE_ERROR, note_entry Complained s)
      else (case parse_exit_status (args ! 1) of
          None \<Rightarrow> (EVALUATE_ERROR, note_entry Complained s)
        | Some status \<Rightarrow> (READLINE_EXIT, note_entry Waited_all (s\<lparr>mi_exit_status := status\<rparr>))))"

definition exec_failed :: "exec_error \<Rightarrow> fate" where
  "exec_failed e = (if e = Not_found then Quits 127 else Quits 1)"

definition exec_program :: "programs \<Rightarrow> byte list list \<Rightarrow> fate" where
  "exec_program ps args =
     (let name = hd args in
      case pr_execvp ps name of
        None \<Rightarrow> Becomes name
      | Some e \<Rightarrow>
          if 47 \<in> set name then exec_failed e
          else (case pr_execv ps ([46, 47] @ name) of None \<Rightarrow> Becomes ([46, 47] @ name) | Some e \<Rightarrow> exec_failed e))"

definition execute_external_command :: "programs \<Rightarrow> byte list list \<Rightarrow> mini_shell \<Rightarrow> mini_reply \<times> mini_shell" where
  "execute_external_command ps args s =
     (case fork_child (Forked args Inherited Inherited (exec_program ps args)) s of (ok, s) \<Rightarrow>
      if \<not> ok then (EVALUATE_ERROR, s) else wait_for_pid 0 s)"

definition execute_redirection_command :: "programs \<Rightarrow> byte list list \<Rightarrow> nat \<Rightarrow> mini_shell \<Rightarrow> mini_reply \<times> mini_shell" where
  "execute_redirection_command ps args operator_index s =
     (if operator_index = 0 \<or> length args \<le> operator_index + 1 \<or> operator_index + 2 < length args
      then (EVALUATE_ERROR, note_entry Complained s)
      else
        let name = args ! (operator_index + 1);
            target = (if args ! operator_index = [LESS] then File_in name
                      else if args ! operator_index = [GREATER] then File_out name else File_append name);
            argv = take operator_index args;
            fate = (if pr_open ps target then exec_program ps argv else Quits 1);
            child = (if args ! operator_index = [LESS] then Forked argv target Inherited fate else Forked argv Inherited target fate)
        in (case fork_child child s of (ok, s) \<Rightarrow> if \<not> ok then (EVALUATE_ERROR, s) else wait_for_pid 0 s))"

definition execute_pipe_command :: "programs \<Rightarrow> byte list list \<Rightarrow> nat \<Rightarrow> mini_shell \<Rightarrow> mini_reply \<times> mini_shell" where
  "execute_pipe_command ps args operator_index s =
     (if operator_index = 0 \<or> length args \<le> operator_index + 1 then (EVALUATE_ERROR, note_entry Complained s)
      else
        let rhs = drop (operator_index + 1) args; lhs = take operator_index args in
        if mi_pipes s \<noteq> [] \<and> \<not> hd (mi_pipes s) then (EVALUATE_ERROR, note_entry Complained (s\<lparr>mi_pipes := tl (mi_pipes s)\<rparr>))
        else
          let s = note_entry Piped (s\<lparr>mi_pipes := tl (mi_pipes s)\<rparr>) in
          (case fork_child (Forked lhs Inherited Pipe_end (exec_program ps lhs)) s of (ok, s) \<Rightarrow>
           if \<not> ok then (EVALUATE_ERROR, note_entry Closed_pipe s)
           else (case fork_child (Forked rhs Pipe_end Inherited (exec_program ps rhs)) s of (ok, s) \<Rightarrow>
             if \<not> ok then (EVALUATE_ERROR, snd (wait_for_pid 0 (note_entry Closed_pipe s)))
             else (case wait_for_pid 0 (note_entry Closed_pipe s) of (r, s) \<Rightarrow>
               if r \<noteq> SUCCESS then (EVALUATE_ERROR, snd (wait_for_pid 1 s)) else wait_for_pid 1 s))))"

definition operator_string :: "byte list \<Rightarrow> bool" where
  "operator_string a \<longleftrightarrow> a = [LESS] \<or> a = [GREATER] \<or> a = [GREATER, GREATER] \<or> a = [BAR]"

text \<open>The loop of \<open>find_operator_index\<close>: -1 without an operator, -2 for a second one.\<close>

fun find_operator_from :: "nat \<Rightarrow> int \<Rightarrow> byte list list \<Rightarrow> int" where
  "find_operator_from i operator_index [] = operator_index"
| "find_operator_from i operator_index (a # args) =
     (if operator_string a then
        (if 0 \<le> operator_index then -2 else find_operator_from (i + 1) (int i) args)
      else find_operator_from (i + 1) operator_index args)"

definition find_operator_index :: "byte list list \<Rightarrow> int" where
  "find_operator_index args = find_operator_from 0 (-1) args"

definition evaluate_args :: "programs \<Rightarrow> byte list list \<Rightarrow> mini_shell \<Rightarrow> mini_reply \<times> mini_shell" where
  "evaluate_args ps args s =
     (if args = [] then (SUCCESS, s)
      else
        let operator_index = find_operator_index args in
        if operator_index = -2 then (EVALUATE_ERROR, note_entry Complained s)
        else if operator_index < 0 \<and> hd args = bytes_of ''exit'' then handle_exit_command args s
        else if operator_index < 0 then execute_external_command ps args s
        else if args ! nat operator_index = [BAR] then execute_pipe_command ps args (nat operator_index) s
        else execute_redirection_command ps args (nat operator_index) s)"

text \<open>
  The main loop over the lines that \<^verbatim>\<open>readline\<close> returns, and the exit status at the end of the input or after \<^verbatim>\<open>exit\<close>;
  \<open>None\<close> is a read outside a line.
\<close>

fun mini_main_loop :: "programs \<Rightarrow> byte list list \<Rightarrow> mini_shell \<Rightarrow> (int \<times> mini_shell) option" where
  "mini_main_loop ps [] s = Some (mi_exit_status s, s)"
| "mini_main_loop ps (cmd # cmds) s =
     (if cmd = [] then mini_main_loop ps cmds s
      else do { (ok, buf, args) \<leftarrow> parse_args cmd;
        if \<not> ok then mini_main_loop ps cmds (note_entry Complained s)
        else (case evaluate_args ps (map (arg_string buf) args) s of (r, s) \<Rightarrow>
          if r = READLINE_EXIT then Some (mi_exit_status s, s) else mini_main_loop ps cmds s) })"

section \<open>What the shell does with a line\<close>

lemma parse_args_line:
  assumes "0 \<notin> set s"
  obtains ok buf args where "parse_args s = Some (ok, buf, args)"
    and "ok \<longleftrightarrow> length (line_tokens s) \<le> MAX_ARGUMENTS - 1" and "ok \<Longrightarrow> map (arg_string buf) args = line_tokens s"
proof -
  have "line_parsed [] s [] (parse_args s)"
    using parse_args_tokens [OF assms] unfolding parses_def parse_args_def by (metis append_Nil list.size(3) zero_le)
  then show thesis using that by (auto simp: line_parsed_def)
qed

text \<open>Nothing is stored behind the array, and the line keeps its length.\<close>

definition keeps_room :: "nat \<Rightarrow> (bool \<times> byte list \<times> arg list) option \<Rightarrow> bool" where
  "keeps_room n r \<longleftrightarrow> (\<forall>ok buf args. r = Some (ok, buf, args) \<longrightarrow> length args \<le> MAX_ARGUMENTS - 1 \<and> length buf = n)"

lemma keeps_room_intros:
  "(\<And>x. m = Some x \<Longrightarrow> keeps_room n (f x)) \<Longrightarrow> keeps_room n (m \<bind> f)"
  "(b \<Longrightarrow> keeps_room n r) \<Longrightarrow> (\<not> b \<Longrightarrow> keeps_room n q) \<Longrightarrow> keeps_room n (if b then r else q)"
  "length args \<le> MAX_ARGUMENTS - 1 \<Longrightarrow> length buf = n \<Longrightarrow> keeps_room n (Some (ok, buf, args))"
  by (auto simp: keeps_room_def split: bind_splits)

lemma parse_args_room:
  "length args \<le> MAX_ARGUMENTS - 1 \<Longrightarrow> keeps_room (length buf) (parse_args_from buf cursor args)"
proof (induction "length buf - cursor" arbitrary: buf cursor args rule: less_induct)
  case less
  obtain buf1 start where sk: "skip_spaces buf cursor = (buf1, start)" by force
  have len: "length buf1 = length buf" using skip_spaces_bounds [OF sk] by simp
  have go: "keeps_room (length buf) (parse_args_from buf1 (start + k) a)"
    if "at buf1 start = Some c" "0 < k" "length a \<le> MAX_ARGUMENTS - 1" for c k a
    using less.hyps [OF token_shortens(1) [OF sk that(1,2)] that(3)] len by simp
  have cut: "keeps_room (length buf) (parse_args_from (buf1[scan_word buf1 start := 0]) (scan_word buf1 start + k) a)"
    if "at buf1 (scan_word buf1 start) = Some c" "0 < k" "length a \<le> MAX_ARGUMENTS - 1" for c k a
    using less.hyps [of "buf1[scan_word buf1 start := 0]" "scan_word buf1 start + k" a]
      token_shortens(2) [OF sk that(1,2)] that(3) len by simp
  show ?case
    unfolding parse_args_from.simps [of buf cursor args] sk case_prod_conv
    by (intro keeps_room_intros go cut; (assumption | use less.prems len in simp))
qed

text \<open>The shell reads inside its lines and returns, whatever it is given.\<close>

lemma mini_main_loop_total: "\<forall>cmd\<in>set cmds. 0 \<notin> set cmd \<Longrightarrow> \<exists>status s'. mini_main_loop ps cmds s = Some (status, s')"
proof (induction cmds arbitrary: s)
  case (Cons cmd cmds)
  have "0 \<notin> set cmd" using Cons.prems by simp
  then obtain ok buf args where "parse_args cmd = Some (ok, buf, args)" by (rule parse_args_line)
  then show ?case using Cons by (auto split: prod.split)
qed simp

lemma find_operator_plain: "\<forall>a\<in>set args. \<not> operator_string a \<Longrightarrow> find_operator_from i k args = k"
  by (induction args arbitrary: i) auto

lemma find_operator_one:
  "\<forall>a\<in>set (left @ right). \<not> operator_string a \<Longrightarrow> operator_string op \<Longrightarrow>
   find_operator_from i (-1) (left @ [op] @ right) = int (i + length left)"
  by (induction left arbitrary: i) (simp_all add: find_operator_plain)

lemma pipe_line:
  assumes "\<forall>a\<in>set (left @ right). \<not> operator_string a" and "left \<noteq> []" and "right \<noteq> []"
    and "mi_forks s = []" and "mi_pipes s = []" and "mi_waits s = []"
  shows "evaluate_args ps (left @ [[BAR]] @ right) s =
    (SUCCESS, s\<lparr>mi_log := mi_log s @ [Piped, Forked left Inherited Pipe_end (exec_program ps left),
       Forked right Pipe_end Inherited (exec_program ps right), Closed_pipe, Waited 0, Waited 1]\<rparr>)"
proof -
  have "find_operator_index (left @ [[BAR]] @ right) = int (length left)"
    using find_operator_one [OF assms(1), of "[BAR]" 0] by (simp add: find_operator_index_def operator_string_def)
  then show ?thesis
    using assms(2-6) by (simp add: evaluate_args_def execute_pipe_command_def fork_child_def wait_for_pid_def note_entry_def Let_def)
qed

end
