(* ===== verification/Week10_Transfer.thy ===== *)
theory Week10_Transfer
  imports Pa3_Wire
begin

text \<open>
  \<^verbatim>\<open>week10\<close>: a client that sends files over a connection and a server that stores copies of them, over the hosts
  of \<open>Pa3_Common\<close>: a plan says which of the next calls are interrupted, shortened or fail. Both programs have
  the same two transfer loops and the same messages. The file that is open is a descriptor of the host like the connection; \<open>d_files\<close> and \<open>c_files\<close>
  are the files by their paths.
\<close>

section \<open>Messages\<close>

definition LINE_BYTES :: nat where "LINE_BYTES = 80"

definition SendFileName :: u32 where "SendFileName = 0"
definition Ack :: u32 where "Ack = 1"
definition SendFileData :: u32 where "SendFileData = 2"
definition EndOfFile :: u32 where "EndOfFile = 3"

record packet =
  p_operation :: u32
  p_data :: "byte list"
  p_size :: u32

text \<open>The memory image of a packed \<^verbatim>\<open>Data\<close>; \<open>htonl\<close> and \<open>ntohl\<close> reverse the bytes of a word.\<close>

definition PACKET_BYTES :: nat where "PACKET_BYTES = 88"

lemma packet_count: "\<not> SSIZE_MAX < PACKET_BYTES" "PACKET_BYTES \<le> SSIZE_MAX"
  and line_count: "\<not> SSIZE_MAX < LINE_BYTES"
  by (simp_all add: SSIZE_MAX_def PACKET_BYTES_def LINE_BYTES_def)

definition image :: "packet \<Rightarrow> byte list" where
  "image p = enc_u32 (p_operation p) @ p_data p @ enc_u32 (p_size p)"

definition of_image :: "byte list \<Rightarrow> packet" where
  "of_image bs = \<lparr>p_operation = dec_u32 (take 4 bs), p_data = take LINE_BYTES (drop 4 bs), p_size = dec_u32 (drop 84 bs)\<rparr>"

definition htonl :: "u32 \<Rightarrow> u32" where
  "htonl v = dec_u32 (rev (enc_u32 v))"

definition serialize_data :: "packet \<Rightarrow> packet" where
  "serialize_data p = \<lparr>p_operation = htonl (p_operation p), p_data = p_data p, p_size = htonl (p_size p)\<rparr>"

definition deserialize_data :: "packet \<Rightarrow> packet" where
  "deserialize_data p = \<lparr>p_operation = htonl (p_operation p), p_data = p_data p, p_size = htonl (p_size p)\<rparr>"

section \<open>Transfer loops\<close>

text \<open>\<open>read_full\<close> with the bytes that are in the buffer already: 1, 0 at the end of the input, or -1.\<close>

function read_full_from :: "int \<Rightarrow> nat \<Rightarrow> byte list \<Rightarrow> host \<Rightarrow> int \<times> byte list \<times> host" where
  "read_full_from fd count buf h =
     (if length buf < count then
        (case host_read fd (count - length buf) h of (n_read, bs, h') \<Rightarrow>
           if n_read = 0 then ((if buf = [] then 0 else -1), buf, h')
           else if n_read < 0 then (if h_errno h' = EINTR then read_full_from fd count buf h' else (-1, buf, h'))
           else read_full_from fd count (buf @ bs) h')
      else (1, buf, h))"
  by pat_completeness auto
termination
proof (relation "measure (\<lambda>(fd, count, buf, h). (count - length buf) + length (h_plan h))", goal_cases)
  case (2 fd count buf h r y bs h')
  then show ?case using host_read_progress(1) [of fd "count - length buf" h r bs h'] by auto
next
  case (3 fd count buf h r y bs h')
  then have "0 < length bs" "length (h_plan h') \<le> length (h_plan h)"
    using host_read_progress(2) [of fd "count - length buf" h r bs h'] by auto
  then have "count - (length buf + length bs) < count - length buf" using 3(1) by linarith
  then show ?case using \<open>length (h_plan h') \<le> length (h_plan h)\<close> by simp
qed simp

declare read_full_from.simps [simp del]

definition read_full :: "int \<Rightarrow> nat \<Rightarrow> host \<Rightarrow> int \<times> byte list \<times> host" where
  "read_full fd count h = read_full_from fd count [] h"

lemma host_write_zero:
  assumes "host_write fd bs h = (r, h')" and "r = 0"
  shows "bs = []"
  using assms by (cases "fst (host_next h)")
    (auto simp: host_write_def write_limit_def Let_def min_def max_def split: prod.splits if_splits)

text \<open>\<open>write_all\<close> on the bytes that are left.\<close>

function write_all :: "int \<Rightarrow> byte list \<Rightarrow> host \<Rightarrow> int \<times> host" where
  "write_all fd buf h =
     (if buf \<noteq> [] then
        (case host_write fd buf h of (n_written, h') \<Rightarrow>
           if n_written < 0 then (if h_errno h' = EINTR then write_all fd buf h' else (-1, h'))
           else write_all fd (drop (nat n_written) buf) h')
      else (0, h))"
  by pat_completeness auto
termination
proof (relation "measure (\<lambda>(fd, buf, h). length buf + length (h_plan h))", goal_cases)
  case (2 fd buf h r h')
  then show ?case using host_write_progress(1) [OF 2(2) [symmetric]] by auto
next
  case (3 fd buf h r h')
  then have "r \<noteq> 0" using host_write_zero [OF 3(2) [symmetric]] by auto
  then have "0 < nat r" "length (h_plan h') \<le> length (h_plan h)"
    using 3 host_write_progress(2) [OF 3(2) [symmetric]] by auto
  moreover have "length buf - nat r < length buf" using 3 \<open>0 < nat r\<close> by (intro diff_less) auto
  ultimately show ?case by simp
qed simp

declare write_all.simps [simp del]

text \<open>They agree with the transfer loops of the reservation system.\<close>

lemma read_full_from_safe:
  assumes "length buf \<le> count"
  shows "read_full_from fd count buf h = (case safe_read_from fd count buf h of (r, bs, h') \<Rightarrow>
     ((if r = int count then 1 else if r = 0 then 0 else -1), bs, h'))"
  using assms
proof (induction fd count buf h rule: read_full_from.induct)
  case (1 fd count buf h)
  obtain r bs h' where r: "host_read fd (count - length buf) h = (r, bs, h')" using prod_cases3 by blast
  show ?case
  proof (cases "length buf < count")
    case True
    have "length (buf @ bs) \<le> count" if "0 < r"
      using host_read_progress(2) [OF r that] True unfolding length_append by linarith
    then show ?thesis
      using True 1 r by (simp add: read_full_from.simps [of fd count buf h] safe_read_from.simps [of fd count buf h])
  next
    case False
    then show ?thesis using 1(3) by (simp add: read_full_from.simps safe_read_from.simps)
  qed
qed

lemma read_full_safe:
  "read_full fd count h = (case safe_read fd count h of (r, bs, h') \<Rightarrow>
     ((if r = int count then 1 else if r = 0 then 0 else -1), bs, h'))"
  by (simp add: read_full_def safe_read_def read_full_from_safe)

lemma write_all_safe:
  "write_all fd buf h = (case safe_write_from fd buf n h of (r, h') \<Rightarrow> ((if r < 0 then -1 else 0), h'))"
proof (induction fd buf h arbitrary: n rule: write_all.induct)
  case (1 fd buf h)
  obtain r h' where r: "host_write fd buf h = (r, h')" by force
  show ?case
  proof (cases "buf = []")
    case False
    have "r \<noteq> 0" using host_write_zero [OF r] False by auto
    then show ?thesis
      using False 1 r by (auto simp: write_all.simps [of fd buf h] safe_write_from.simps [of fd buf n h])
  qed (simp add: write_all.simps safe_write_from.simps)
qed

lemma write_all_gives:
  assumes "fd \<in> h_open h" and "sound h"
  obtains h' where "write_all fd bs h = (0, h')" and "host_gave fd bs h h'"
proof -
  obtain h' where h': "safe_write fd bs h = (int (length bs), h')" "host_gave fd bs h h'"
    using safe_write_all [OF assms] .
  then show thesis using that write_all_safe [of fd bs h 0] by (simp add: safe_write_def)
qed

lemma write_all_inputs: "write_all fd bs h = (r, h') \<Longrightarrow> h_in h' = h_in h"
proof (induction fd bs h rule: write_all.induct)
  case (1 fd bs h)
  obtain r1 h1 where w: "host_write fd bs h = (r1, h1)" by force
  have "h_in h1 = h_in h"
    using w by (auto simp: host_write_def host_next_def Let_def split: list.splits if_splits)
  then show ?case using 1 w by (auto simp: write_all.simps [of fd bs h] split: if_splits)
qed

lemma read_full_exact:
  assumes "delivers fd (a @ b) h" and "a \<noteq> []" and "length a \<le> SSIZE_MAX"
  obtains h' where "read_full fd (length a) h = (1, a, h')" and "host_took fd (length a) h h'" and "delivers fd b h'"
proof -
  obtain h' where "safe_read fd (length a) h = (int (length a), a, h')" "host_took fd (length a) h h'" "delivers fd b h'"
    using safe_read_exact [OF assms(1,3)] .
  then show thesis using that by (simp add: read_full_safe)
qed

lemma read_full_end:
  assumes "delivers fd [] h" and "0 < n" and "n \<le> SSIZE_MAX"
  obtains h' where "read_full fd n h = (0, [], h')" and "host_took fd 0 h h'"
proof -
  obtain r bs h' where r: "safe_read fd n h = (r, bs, h')" using prod_cases3 by blast
  then have "host_took fd (length bs) h h'" "bs = []" "r = 0"
    using safe_read_spec [OF r] assms by (auto simp: delivers_def)
  then show thesis using that r assms(2) by (simp add: read_full_safe)
qed

lemma read_full_shortens:
  assumes "read_full fd n h = (1, bs, h')" and "0 < n"
  shows "length (h_in h' fd) < length (h_in h fd)"
proof -
  obtain r where r: "safe_read fd n h = (r, bs, h')" "r = int n"
    using assms by (auto simp: read_full_safe split: prod.splits if_splits)
  have "fd \<in> h_open h"
  proof (rule ccontr)
    assume closed: "fd \<notin> h_open h"
    have stays: "safe_read_from fd n buf h = (r, bs, h') \<Longrightarrow> length buf < n \<Longrightarrow> fd \<notin> h_open h \<Longrightarrow> r = -1" for buf r bs h'
    proof (induction fd n buf h arbitrary: r bs h' rule: safe_read_from.induct)
      case (1 fd n buf h)
      obtain r1 bs1 h1 where w: "host_read fd (n - length buf) h = (r1, bs1, h1)" using prod_cases3 by blast
      have "r1 = -1" "h_errno h1 = EBADF"
        using w 1(5) by (auto simp: host_read_def host_next_def split: list.splits)
      then show ?case using 1(3,4) w by (simp add: safe_read_from.simps [of fd n buf h])
    qed
    from stays [of "[]" r bs h'] show False using r closed assms(2) by (simp add: safe_read_def)
  qed
  then have "host_took fd (length bs) h h'" "bs = take (length bs) (h_in h fd)" "length bs = n"
    using safe_read_spec [OF r(1)] r(2) by auto
  moreover from this have "n \<le> length (h_in h fd)" by (metis length_take min.cobounded1)
  ultimately show ?thesis using assms(2) by (simp add: host_took_def)
qed

section \<open>Server\<close>

text \<open>
  \<open>d_refused\<close>: the paths that \<open>open\<close> refuses to create. The file that is written is the descriptor \<open>out\<close>, and the
  connection the descriptor \<open>conn\<close>.
\<close>

record disk_host =
  d_host :: host
  d_files :: "byte list \<rightharpoonup> byte list"
  d_refused :: "byte list set"
  d_printed :: "byte list list"

definition open_copy :: "int \<Rightarrow> byte list \<Rightarrow> disk_host \<Rightarrow> bool \<times> disk_host" where
  "open_copy out path d =
     (if path \<in> d_refused d then (False, d)
      else (True, d\<lparr>d_host := (d_host d)\<lparr>h_open := insert out (h_open (d_host d)), h_out := (h_out (d_host d))(out := [])\<rparr>,
                    d_files := (d_files d)(path \<mapsto> [])\<rparr>))"

definition close_copy :: "int \<Rightarrow> byte list \<Rightarrow> disk_host \<Rightarrow> disk_host" where
  "close_copy out path d =
     d\<lparr>d_files := (d_files d)(path \<mapsto> h_out (d_host d) out), d_host := snd (host_close out (d_host d))\<rparr>"

definition COPY_SUFFIX :: "byte list" where "COPY_SUFFIX = bytes_of ''_copy''"

text \<open>\<open>snprintf\<close> into a buffer of 86 bytes.\<close>

definition copy_path :: "packet \<Rightarrow> byte list" where
  "copy_path p = take (LINE_BYTES + 6 - 1) (cstr ((p_data p)[LINE_BYTES - 1 := 0]) @ COPY_SUFFIX)"

definition ack_packet :: packet where
  "ack_packet = \<lparr>p_operation = Ack, p_data = replicate LINE_BYTES 0, p_size = 0\<rparr>"

definition MAX_FILE :: nat where "MAX_FILE = 200000"

text \<open>The loop that receives the contents: whether to quit, the bytes received, and the state.\<close>

function receive_data :: "int \<Rightarrow> int \<Rightarrow> nat \<Rightarrow> disk_host \<Rightarrow> bool \<times> nat \<times> disk_host" where
  "receive_data conn out received d =
     (case read_full conn PACKET_BYTES (d_host d) of (n_read, bs, h) \<Rightarrow>
      let d' = d\<lparr>d_host := h\<rparr> in
      if n_read \<noteq> 1 then (True, received, d')
      else
        let p = deserialize_data (of_image bs) in
        if p_operation p = EndOfFile then (False, received, d')
        else if p_operation p \<noteq> SendFileData \<or> LINE_BYTES < unat (p_size p) then (True, received, d')
        else if MAX_FILE \<le> received + unat (p_size p) then (True, received, d')
        else (case write_all out (take (unat (p_size p)) (p_data p)) h of (r, h') \<Rightarrow>
          if r < 0 then (True, received, d\<lparr>d_host := h'\<rparr>)
          else receive_data conn out (received + unat (p_size p)) (d\<lparr>d_host := h'\<rparr>)))"
  by pat_completeness auto
termination
proof (relation "measure (\<lambda>(conn, out, received, d). length (h_in (d_host d) conn))", goal_cases)
  case (2 conn out received d n_read y bs h d' p r h')
  then have "length (h_in h conn) < length (h_in (d_host d) conn)"
    using read_full_shortens [of conn PACKET_BYTES "d_host d" bs h] by (simp add: PACKET_BYTES_def)
  then show ?case using write_all_inputs [of out _ h r h'] 2 by simp
qed simp

declare receive_data.simps [simp del]

text \<open>One file, after its name has been read: whether the connection goes on.\<close>

definition receive_file :: "int \<Rightarrow> int \<Rightarrow> packet \<Rightarrow> disk_host \<Rightarrow> bool \<times> disk_host" where
  "receive_file conn out p d =
     (if p_operation p \<noteq> SendFileName then (False, d)
      else
        let path = copy_path p;
            d = d\<lparr>d_printed := d_printed d @ [bytes_of ''File Name: '' @ cstr ((p_data p)[LINE_BYTES - 1 := 0])]\<rparr>
        in case open_copy out path d of (opened, d) \<Rightarrow>
        if \<not> opened then (False, d)
        else (case write_all conn (image (serialize_data ack_packet)) (d_host d) of (r, h) \<Rightarrow>
          let d = d\<lparr>d_host := h\<rparr> in
          if r < 0 then (False, close_copy out path d)
          else (case receive_data conn out 0 d of (quit, received, d) \<Rightarrow>
            (\<not> quit, close_copy out path (d\<lparr>d_printed := d_printed d @ [bytes_of ''Received '' @ show_nat received @ bytes_of '' bytes.'']\<rparr>)))))"

text \<open>Reading and writing never add to the input.\<close>

lemma host_read_inputs: "host_read fd n h = (r, bs, h') \<Longrightarrow> \<exists>k. h_in h' = (h_in h)(fd := drop k (h_in h fd))"
  by (auto simp: host_read_def host_next_def Let_def split: list.splits if_splits intro: exI [of _ 0])

lemma read_full_inputs: "read_full fd n h = (r, bs, h') \<Longrightarrow> length (h_in h' fd) \<le> length (h_in h fd)"
proof -
  have "read_full_from fd n buf h = (r, bs, h') \<Longrightarrow> length (h_in h' fd) \<le> length (h_in h fd)" for buf
  proof (induction fd n buf h rule: read_full_from.induct)
    case (1 fd n buf h)
    obtain r1 bs1 h1 where w: "host_read fd (n - length buf) h = (r1, bs1, h1)" using prod_cases3 by blast
    have "length (h_in h1 fd) \<le> length (h_in h fd)" using host_read_inputs [OF w] by auto
    then show ?case using 1 w by (fastforce simp: read_full_from.simps [of fd n buf h] split: if_splits)
  qed
  then show "read_full fd n h = (r, bs, h') \<Longrightarrow> length (h_in h' fd) \<le> length (h_in h fd)" by (simp add: read_full_def)
qed

lemma receive_data_inputs:
  "receive_data conn out received d = (quit, n, d') \<Longrightarrow> length (h_in (d_host d') conn) \<le> length (h_in (d_host d) conn)"
proof (induction conn out received d rule: receive_data.induct)
  case (1 conn out received d)
  obtain k bs h where rd: "read_full conn PACKET_BYTES (d_host d) = (k, bs, h)" using prod_cases3 by blast
  define p where "p = deserialize_data (of_image bs)"
  obtain r h1 where wr: "write_all out (take (unat (p_size p)) (p_data p)) h = (r, h1)" by force
  have le: "length (h_in h conn) \<le> length (h_in (d_host d) conn)" using read_full_inputs [OF rd] .
  have le1: "h_in h1 = h_in h" using write_all_inputs [OF wr] .
  consider "k \<noteq> 1 \<or> p_operation p = EndOfFile \<or> p_operation p \<noteq> SendFileData \<or> LINE_BYTES < unat (p_size p)
      \<or> MAX_FILE \<le> received + unat (p_size p) \<or> r < 0"
    | "k = 1" "p_operation p = SendFileData" "\<not> LINE_BYTES < unat (p_size p)" "\<not> MAX_FILE \<le> received + unat (p_size p)" "\<not> r < 0"
    by blast
  then show ?case
  proof cases
    case 1
    then have "d' = d\<lparr>d_host := h\<rparr> \<or> d' = d\<lparr>d_host := h1\<rparr>"
      using "1.prems" wr by (simp add: receive_data.simps [of conn out received d] rd Let_def flip: p_def split: if_splits)
    then show ?thesis using le le1 by auto
  next
    case 2
    have ne: "SendFileData \<noteq> EndOfFile" by (simp add: SendFileData_def EndOfFile_def)
    have "receive_data conn out (received + unat (p_size p)) (d\<lparr>d_host := h1\<rparr>) = (quit, n, d')"
      using "1.prems" wr 2 ne by (simp add: receive_data.simps [of conn out received d] rd Let_def flip: p_def)
    then have "length (h_in (d_host d') conn) \<le> length (h_in h1 conn)"
      using "1.IH" [OF rd [symmetric] refl refl _ p_def] 2 ne wr by simp
    then show ?thesis using le le1 by simp
  qed
qed

lemma receive_file_inputs:
  "receive_file conn out p d = (go, d') \<Longrightarrow> length (h_in (d_host d') conn) \<le> length (h_in (d_host d) conn)"
proof -
  assume r: "receive_file conn out p d = (go, d')"
  have close: "h_in (snd (host_close fd h)) = h_in h" for fd h
    by (simp add: host_close_def host_next_def Let_def split: list.split)
  define e where "e = snd (open_copy out (copy_path p) (d\<lparr>d_printed := d_printed d @ [bytes_of ''File Name: '' @ cstr ((p_data p)[LINE_BYTES - 1 := 0])]\<rparr>))"
  have e: "h_in (d_host e) = h_in (d_host d)" by (simp add: e_def open_copy_def)
  obtain r1 h where w: "write_all conn (image (serialize_data ack_packet)) (d_host e) = (r1, h)" by force
  obtain quit received d1 where rd: "receive_data conn out 0 (e\<lparr>d_host := h\<rparr>) = (quit, received, d1)" using prod_cases3 by blast
  have "length (h_in (d_host d1) conn) \<le> length (h_in (d_host d) conn)"
    using receive_data_inputs [OF rd] write_all_inputs [OF w] e by simp
  then show ?thesis
    using r w rd e write_all_inputs [OF w]
    by (auto simp: receive_file_def close_copy_def close Let_def e_def split: if_splits prod.splits)
qed

text \<open>The loop over the files of a connection, and the loop over the connections that \<open>accept\<close> returns.\<close>

function serve_connection :: "int \<Rightarrow> int \<Rightarrow> disk_host \<Rightarrow> disk_host" where
  "serve_connection conn out d =
     (case read_full conn PACKET_BYTES (d_host d) of (n_read, bs, h) \<Rightarrow>
      let d' = d\<lparr>d_host := h\<rparr> in
      if n_read \<noteq> 1 then d'
      else (case receive_file conn out (deserialize_data (of_image bs)) d' of (go, d'') \<Rightarrow>
        if go then serve_connection conn out d'' else d''))"
  by pat_completeness auto
termination
proof (relation "measure (\<lambda>(conn, out, d). length (h_in (d_host d) conn))", goal_cases)
  case (2 conn out d n_read y bs h d' go d'')
  then have "length (h_in h conn) < length (h_in (d_host d) conn)"
    using read_full_shortens [of conn PACKET_BYTES "d_host d" bs h] by (simp add: PACKET_BYTES_def)
  then show ?case using receive_file_inputs [of conn out "deserialize_data (of_image bs)" d' go d''] 2 by auto
qed simp

declare serve_connection.simps [simp del]

text \<open>\<open>accept_loop\<close> handles what \<open>accept\<close> returns; a negative descriptor is a failed or interrupted call.\<close>

fun accept_loop :: "int \<Rightarrow> int list \<Rightarrow> disk_host \<Rightarrow> disk_host" where
  "accept_loop out [] d = d"
| "accept_loop out (conn # conns) d =
     (if conn < 0 then accept_loop out conns d
      else let d = serve_connection conn out d
           in accept_loop out conns (d\<lparr>d_host := snd (host_close conn (d_host d))\<rparr>))"

section \<open>Client\<close>

datatype node = Plain "byte list" | Other

record file_host =
  c_host :: host
  c_files :: "byte list \<rightharpoonup> node"
  c_printed :: "byte list list"

definition is_valid_file_name :: "byte list \<Rightarrow> bool" where
  "is_valid_file_name name \<longleftrightarrow>
     \<not> (length name = 0 \<or> 50 \<le> length name) \<and> of_char CHR ''.'' \<notin> set name \<and> of_char CHR ''/'' \<notin> set name"

definition file_name_packet :: "byte list \<Rightarrow> packet" where
  "file_name_packet name =
     \<lparr>p_operation = SendFileName, p_data = take (LINE_BYTES - 1) name @ replicate (LINE_BYTES - length (take (LINE_BYTES - 1) name)) 0,
      p_size = of_nat (length name)\<rparr>"

definition eof_packet :: packet where
  "eof_packet = \<lparr>p_operation = EndOfFile, p_data = replicate LINE_BYTES 0, p_size = 0\<rparr>"

text \<open>The end of one round of the loop: the next name, the end of the loop, or \<open>exit(1)\<close>.\<close>

datatype round = Onwards file_host | Leaves file_host | Dies file_host

text \<open>
  The loop that sends the contents, with the buffer that keeps the bytes of the last message after a shorter
  read; \<open>Inl\<close> is \<open>exit(1)\<close>.
\<close>

function send_contents :: "int \<Rightarrow> int \<Rightarrow> byte list \<Rightarrow> nat \<Rightarrow> host \<Rightarrow> host + nat \<times> host" where
  "send_contents conn inp buf sent h =
     (case host_read inp LINE_BYTES h of (n_read, bs, h') \<Rightarrow>
      if n_read = 0 then Inr (sent, h')
      else if n_read < 0 then (if h_errno h' = EINTR then send_contents conn inp buf sent h' else Inl h')
      else
        let buf' = bs @ drop (length bs) buf;
            p = \<lparr>p_operation = SendFileData, p_data = buf', p_size = of_int n_read\<rparr>
        in (case write_all conn (image (serialize_data p)) h' of (r, h'') \<Rightarrow>
          if r < 0 then Inl h'' else send_contents conn inp buf' (sent + unat (p_size p)) h''))"
  by pat_completeness auto
termination
proof (relation "measures [\<lambda>(conn, inp, buf, sent, h). length (h_in h inp), \<lambda>(conn, inp, buf, sent, h). length (h_plan h)]", goal_cases)
  case (2 conn inp buf sent h n_read y bs h')
  then show ?case
    using host_read_progress(1) [of inp LINE_BYTES h n_read bs h'] host_read_inputs [of inp LINE_BYTES h n_read bs h'] by auto
next
  case (3 conn inp buf sent h n_read y bs h' buf' p r h'')
  then have rd: "host_read inp LINE_BYTES h = (n_read, bs, h')" and pos: "0 < n_read" by auto
  then have "length (h_in h' inp) < length (h_in h inp)"
    by (auto simp: host_read_def host_next_def Let_def split: list.splits if_splits)
  then show ?case using write_all_inputs [of conn _ h' r h''] 3 by simp
qed simp

declare send_contents.simps [simp del]

definition send_file :: "int \<Rightarrow> int \<Rightarrow> byte list \<Rightarrow> file_host \<Rightarrow> round" where
  "send_file conn inp name c =
     (if \<not> is_valid_file_name name then Onwards c
      else (case c_files c name of
        None \<Rightarrow> Onwards c
      | Some Other \<Rightarrow> Onwards c
      | Some (Plain body) \<Rightarrow>
          if MAX_FILE \<le> length body then Onwards c
          else
            let h = (c_host c)\<lparr>h_open := insert inp (h_open (c_host c)), h_in := (h_in (c_host c))(inp := body)\<rparr>;
                shut = (\<lambda>h. c\<lparr>c_host := snd (host_close inp h)\<rparr>)
            in (case write_all conn (image (serialize_data (file_name_packet name))) h of (r, h) \<Rightarrow>
              if r < 0 then Leaves (shut h)
              else (case read_full conn PACKET_BYTES h of (r, bs, h) \<Rightarrow>
                if r \<le> 0 then Leaves (shut h)
                else if p_operation (deserialize_data (of_image bs)) \<noteq> Ack then Leaves (shut h)
                else (case send_contents conn inp (replicate LINE_BYTES 0) 0 h of
                    Inl h \<Rightarrow> Dies (shut h)
                  | Inr (sent, h) \<Rightarrow>
                      (case write_all conn (image (serialize_data eof_packet)) h of (r, h) \<Rightarrow>
                       if r < 0 then Leaves (shut h)
                       else let c = shut h
                            in Onwards (c\<lparr>c_printed := c_printed c @ [bytes_of ''Sent '' @ show_nat sent @ bytes_of '' bytes.'']\<rparr>)))))))"

text \<open>The loop over the lines that are typed: the exit code and the state. A NULL line is the end of the list.\<close>

fun client_loop :: "int \<Rightarrow> int \<Rightarrow> byte list list \<Rightarrow> file_host \<Rightarrow> int \<times> file_host" where
  "client_loop conn inp [] c = (0, c\<lparr>c_host := snd (host_close conn (c_host c))\<rparr>)"
| "client_loop conn inp (name # names) c =
     (if name = bytes_of ''quit'' then (0, c\<lparr>c_host := snd (host_close conn (c_host c))\<rparr>)
      else (case send_file conn inp name c of
          Onwards c \<Rightarrow> client_loop conn inp names c
        | Leaves c \<Rightarrow> (0, c\<lparr>c_host := snd (host_close conn (c_host c))\<rparr>)
        | Dies c \<Rightarrow> (1, c\<lparr>c_host := snd (host_close conn (c_host c))\<rparr>)))"

end
