(* ===== verification/Week10_Copies.thy ===== *)
theory Week10_Copies
  imports Week10_Transfer
begin

text \<open>
  The two programs of \<^verbatim>\<open>week10\<close> together: the messages of the client are read back by the server, and every
  file that the client sends is stored.
\<close>

section \<open>Messages\<close>

definition wire :: "packet \<Rightarrow> byte list" where
  "wire p = image (serialize_data p)"

definition packet_ok :: "packet \<Rightarrow> bool" where
  "packet_ok p \<longleftrightarrow> length (p_data p) = LINE_BYTES"

lemma enc_dec_u32: "length bs = 4 \<Longrightarrow> enc_u32 (dec_u32 bs) = bs"
  using le_val_bound [of bs] le_bytes_le_val [of bs] by (simp add: enc_u32_def dec_u32_def unat_of_nat)

lemma htonl_htonl: "htonl (htonl v) = v"
  by (simp add: htonl_def enc_dec_u32)

lemma length_wire [simp]: "packet_ok p \<Longrightarrow> length (wire p) = PACKET_BYTES"
  by (simp add: wire_def image_def serialize_data_def packet_ok_def PACKET_BYTES_def LINE_BYTES_def)

lemma wire_back:
  assumes "packet_ok p"
  shows "deserialize_data (of_image (wire p)) = p"
proof -
  have "of_image (image q) = q" if "length (p_data q) = LINE_BYTES" for q
    using that by (simp add: of_image_def image_def LINE_BYTES_def)
  moreover have "length (p_data (serialize_data p)) = LINE_BYTES" using assms by (simp add: packet_ok_def serialize_data_def)
  ultimately have "of_image (wire p) = serialize_data p" by (simp add: wire_def)
  then show ?thesis by (simp add: serialize_data_def deserialize_data_def htonl_htonl)
qed

lemma fixed_packets [simp]: "packet_ok ack_packet" "packet_ok eof_packet" "packet_ok (file_name_packet name)"
  by (auto simp: packet_ok_def ack_packet_def eof_packet_def file_name_packet_def LINE_BYTES_def min_def)

lemma wire_not_empty: "packet_ok p \<Longrightarrow> wire p \<noteq> []"
  by (metis PACKET_BYTES_def length_wire list.size(3) zero_neq_numeral)

lemma read_packet:
  assumes "delivers fd (wire p @ b) h" and "packet_ok p"
  obtains h' where "read_full fd PACKET_BYTES h = (1, wire p, h')" and "host_took fd PACKET_BYTES h h'" and "delivers fd b h'"
  using read_full_exact [OF assms(1) wire_not_empty [OF assms(2)]] assms(2) packet_count(2) by auto

text \<open>The messages that carry the contents of a file.\<close>

definition payload :: "packet \<Rightarrow> byte list" where
  "payload p = take (unat (p_size p)) (p_data p)"

definition data_packet :: "packet \<Rightarrow> bool" where
  "data_packet p \<longleftrightarrow> packet_ok p \<and> p_operation p = SendFileData \<and> unat (p_size p) \<le> LINE_BYTES"

definition data_stream :: "byte list \<Rightarrow> byte list \<Rightarrow> bool" where
  "data_stream body s \<longleftrightarrow> (\<exists>ps. s = concat (map wire ps) \<and> body = concat (map payload ps) \<and> (\<forall>p\<in>set ps. data_packet p))"

definition file_stream :: "byte list \<Rightarrow> byte list \<Rightarrow> byte list \<Rightarrow> bool" where
  "file_stream name body s \<longleftrightarrow> (\<exists>t. s = wire (file_name_packet name) @ t @ wire eof_packet \<and> data_stream body t)"

lemma length_payload: "data_packet p \<Longrightarrow> length (payload p) = unat (p_size p)"
  by (simp add: payload_def data_packet_def packet_ok_def)

section \<open>The client\<close>

lemma send_contents_streams:
  assumes "sound h" and "conn \<in> h_open h" and "inp \<in> h_open h" and "conn \<noteq> inp" and "length buf = LINE_BYTES"
  shows "\<exists>s h'. send_contents conn inp buf sent h = Inr (sent + length (h_in h inp), h') \<and> data_stream (h_in h inp) s
    \<and> h_out h' = (h_out h)(conn := h_out h conn @ s) \<and> h_in h' = (h_in h)(inp := []) \<and> h_open h' = h_open h \<and> sound h'"
  using assms
proof (induction conn inp buf sent h rule: send_contents.induct)
  case (1 conn inp buf sent h)
  obtain r bs h1 where rd: "host_read inp LINE_BYTES h = (r, bs, h1)" using prod_cases3 by blast
  note unf = send_contents.simps [of conn inp buf sent h]
  from host_read_spec [OF rd "1.prems"(3)] "1.prems"(1) line_count
  consider (again) "r = -1" "host_took inp 0 h h1" "h_errno h1 = EINTR"
    | (bytes) k where "r = int k" "length bs = k" "bs = take k (h_in h inp)" "k \<le> LINE_BYTES" "host_took inp k h h1"
        "k = 0 \<longrightarrow> LINE_BYTES = 0 \<or> h_in h inp = []" by blast
  then show ?case
  proof cases
    case again
    then have h1: "h_in h1 = h_in h" "h_out h1 = h_out h" "h_open h1 = h_open h" "sound h1"
      using "1.prems"(1) by (simp_all add: host_took_0)
    then show ?thesis using "1.IH"(1) [OF rd [symmetric] refl] again "1.prems" by (simp add: unf rd)
  next
    case bytes
    have h1: "h_in h1 = (h_in h)(inp := drop k (h_in h inp))" "h_out h1 = h_out h" "h_open h1 = h_open h" "sound h1"
      using bytes(5) "1.prems"(1) by (simp_all add: host_took_def)
    show ?thesis
    proof (cases "k = 0")
      case True
      then have "h_in h inp = []" using bytes(6) by (simp add: LINE_BYTES_def)
      then show ?thesis using True bytes(1) h1
        by (intro exI [of _ "[]"] exI [of _ h1]) (auto simp: unf rd data_stream_def intro: exI [of _ "[]"])
    next
      case False
      define buf1 where "buf1 = bs @ drop (length bs) buf"
      define p where "p = \<lparr>p_operation = SendFileData, p_data = buf1, p_size = of_int r\<rparr>"
      have size: "unat (p_size p) = k"
        using bytes(1,4) by (simp add: p_def LINE_BYTES_def unat_of_nat)
      have buf1: "length buf1 = LINE_BYTES" using bytes(2,4) "1.prems"(5) by (simp add: buf1_def)
      have p: "data_packet p" "payload p = bs"
        using size buf1 bytes(2,4) by (simp_all add: data_packet_def packet_ok_def payload_def p_def buf1_def SendFileData_def)
      obtain h2 where wr: "write_all conn (image (serialize_data p)) h1 = (0, h2)" and g: "host_gave conn (wire p) h1 h2"
        using write_all_gives [of conn h1 "wire p"] "1.prems"(2) h1 by (auto simp: wire_def)
      have h2: "h_in h2 = (h_in h)(inp := drop k (h_in h inp))" "h_out h2 = (h_out h)(conn := h_out h conn @ wire p)"
        "h_open h2 = h_open h" "sound h2" using g h1 by (simp_all add: host_gave_def)
      have "send_contents conn inp buf sent h = send_contents conn inp buf1 (sent + k) h2"
        using False bytes(1) wr size by (simp add: unf rd Let_def buf1_def p_def)
      moreover have "\<exists>s h'. send_contents conn inp buf1 (sent + k) h2 = Inr (sent + k + length (h_in h2 inp), h')
          \<and> data_stream (h_in h2 inp) s \<and> h_out h' = (h_out h2)(conn := h_out h2 conn @ s) \<and> h_in h' = (h_in h2)(inp := [])
          \<and> h_open h' = h_open h2 \<and> sound h'"
      proof -
        have pre: "r \<noteq> 0" "\<not> r < 0" "conn \<in> h_open h2" "inp \<in> h_open h2" using False bytes(1) h2(3) "1.prems"(2,3) by simp_all
        show ?thesis
          using "1.IH"(2) [OF rd [symmetric] refl pre(1,2) buf1_def p_def wr [symmetric] _ h2(4) pre(3,4) "1.prems"(4) buf1]
          unfolding size by (simp add: fun_upd_def)
      qed
      then obtain s h' where "send_contents conn inp buf1 (sent + k) h2 = Inr (sent + k + length (h_in h2 inp), h')"
        "data_stream (h_in h2 inp) s" "h_out h' = (h_out h2)(conn := h_out h2 conn @ s)" "h_in h' = (h_in h2)(inp := [])"
        "h_open h' = h_open h2" "sound h'" by blast
      moreover have "data_stream (h_in h inp) (wire p @ s)" if "data_stream (drop k (h_in h inp)) s" for s
      proof -
        obtain ps where "s = concat (map wire ps)" "drop k (h_in h inp) = concat (map payload ps)" "\<forall>p\<in>set ps. data_packet p"
          using \<open>data_stream (drop k (h_in h inp)) s\<close> by (auto simp: data_stream_def)
        then show ?thesis using p bytes(3) append_take_drop_id [of k "h_in h inp"]
          unfolding data_stream_def by (intro exI [of _ "p # ps"]) (auto simp del: append_take_drop_id)
      qed
      moreover have "k \<le> length (h_in h inp)" using bytes(2,3) by (metis length_take min.cobounded1)
      ultimately show ?thesis using h2 by (intro exI [of _ "wire p @ s"] exI [of _ h'] conjI) simp_all
    qed
  qed
qed

definition content_of :: "(byte list \<rightharpoonup> node) \<Rightarrow> byte list \<Rightarrow> byte list option" where
  "content_of files name =
     (if is_valid_file_name name
      then (case files name of Some (Plain body) \<Rightarrow> if length body < MAX_FILE then Some body else None | _ \<Rightarrow> None)
      else None)"

text \<open>The files that a session sends: those that can be sent, up to a line \<^verbatim>\<open>quit\<close>.\<close>

fun sent_files :: "(byte list \<rightharpoonup> node) \<Rightarrow> byte list list \<Rightarrow> (byte list \<times> byte list) list" where
  "sent_files files [] = []"
| "sent_files files (name # names) =
     (if name = bytes_of ''quit'' then []
      else (case content_of files name of
          None \<Rightarrow> sent_files files names
        | Some body \<Rightarrow> (name, body) # sent_files files names))"

lemma host_close_keeps:
  assumes "host_close fd h = (r, h')"
  shows "h_in h' = h_in h" "h_out h' = h_out h" "sound h \<Longrightarrow> sound h'" "x \<noteq> fd \<Longrightarrow> x \<in> h_open h' \<longleftrightarrow> x \<in> h_open h"
proof -
  obtain y h1 where x: "host_next h = (y, h1)" by force
  note nx = host_next_sound [OF x]
  have "h' = h1\<lparr>h_errno := EBADF\<rparr> \<or> h' = h1\<lparr>h_open := h_open h1 - {fd}\<rparr> \<or> h' = h1\<lparr>h_open := h_open h1 - {fd}, h_errno := EIO\<rparr>"
    using assms by (simp add: host_close_def x Let_def split: if_splits)
  then show "h_in h' = h_in h" "h_out h' = h_out h" "sound h \<Longrightarrow> sound h'" "x \<noteq> fd \<Longrightarrow> x \<in> h_open h' \<longleftrightarrow> x \<in> h_open h"
    using nx by (elim disjE; simp)+
qed

lemma send_file_streams:
  assumes c: "sound (c_host c)" "conn \<in> h_open (c_host c)" "conn \<noteq> inp"
    and body: "content_of (c_files c) name = Some body"
    and ack: "h_in (c_host c) conn = wire ack_packet @ rest"
  obtains s c' where "send_file conn inp name c = Onwards c'" and "file_stream name body s"
    and "h_out (c_host c') conn = h_out (c_host c) conn @ s" and "h_in (c_host c') conn = rest"
    and "conn \<in> h_open (c_host c')" and "sound (c_host c')" and "c_files c' = c_files c"
proof -
  have valid: "is_valid_file_name name" "c_files c name = Some (Plain body)" "\<not> MAX_FILE \<le> length body"
    using body by (auto simp: content_of_def split: if_splits option.splits node.splits)
  define h where "h = (c_host c)\<lparr>h_open := insert inp (h_open (c_host c)), h_in := (h_in (c_host c))(inp := body)\<rparr>"
  have h: "sound h" "conn \<in> h_open h" "inp \<in> h_open h" "h_in h inp = body" "h_in h conn = wire ack_packet @ rest"
    "h_out h = h_out (c_host c)" using c ack by (simp_all add: h_def)
  obtain h1 where w1: "write_all conn (wire (file_name_packet name)) h = (0, h1)" and g1: "host_gave conn (wire (file_name_packet name)) h h1"
    using write_all_gives [OF h(2,1)] .
  have "delivers conn (wire ack_packet @ rest) h1" using g1 h by (simp add: delivers_def host_gave_def)
  then obtain h2 where rd: "read_full conn PACKET_BYTES h1 = (1, wire ack_packet, h2)" and t2: "host_took conn PACKET_BYTES h1 h2"
    and d2: "delivers conn rest h2" using read_packet [OF _ fixed_packets(1)] by blast
  have h2: "sound h2" "conn \<in> h_open h2" "inp \<in> h_open h2" "h_in h2 inp = body" "h_in h2 conn = rest"
    "h_out h2 conn = h_out (c_host c) conn @ wire (file_name_packet name)"
    using t2 g1 d2 h c(3) by (auto simp: host_took_def host_gave_def delivers_def)
  obtain t h3 where sc: "send_contents conn inp (replicate LINE_BYTES 0) 0 h2 = Inr (0 + length body, h3)" "data_stream body t"
    "h_out h3 = (h_out h2)(conn := h_out h2 conn @ t)" "h_in h3 = (h_in h2)(inp := [])" "h_open h3 = h_open h2" "sound h3"
    using send_contents_streams [OF h2(1-3) c(3), of "replicate LINE_BYTES 0" 0] h2(4) by auto
  have "conn \<in> h_open h3" using sc(5) h2(2) by simp
  then obtain h4 where w4: "write_all conn (wire eof_packet) h3 = (0, h4)" and g4: "host_gave conn (wire eof_packet) h3 h4"
    using write_all_gives [OF _ sc(6)] by blast
  obtain r h5 where cl: "host_close inp h4 = (r, h5)" by force
  define s where "s = wire (file_name_packet name) @ t @ wire eof_packet"
  let ?c = "c\<lparr>c_host := h5, c_printed := c_printed c @ [bytes_of ''Sent '' @ show_nat (0 + length body) @ bytes_of '' bytes.'']\<rparr>"
  have "send_file conn inp name c = Onwards ?c"
    using valid w1 rd sc(1) w4 cl wire_back [OF fixed_packets(1)]
    by (simp add: send_file_def Let_def ack_packet_def flip: h_def wire_def)
  moreover have "file_stream name body s" using sc(2) by (auto simp: file_stream_def s_def)
  moreover have "h_out h5 conn = h_out (c_host c) conn @ s" "h_in h5 conn = rest" "conn \<in> h_open h5" "sound h5"
    using host_close_keeps [OF cl] g4 sc h2 c(3) by (auto simp: host_gave_def s_def)
  ultimately show thesis by (intro that [of ?c s]) simp_all
qed

definition ack_stream :: "nat \<Rightarrow> byte list" where
  "ack_stream k = concat (replicate k (wire ack_packet))"

lemma client_loop_streams:
  assumes "sound (c_host c)" and "conn \<in> h_open (c_host c)" and "conn \<noteq> inp"
    and "h_in (c_host c) conn = ack_stream (length (sent_files (c_files c) names)) @ rest"
  shows "\<exists>c' ss. client_loop conn inp names c = (0, c') \<and> h_out (c_host c') conn = h_out (c_host c) conn @ concat ss
    \<and> list_all2 (\<lambda>(name, body). file_stream name body) (sent_files (c_files c) names) ss"
  using assms
proof (induction names arbitrary: c)
  case Nil
  obtain r h where "host_close conn (c_host c) = (r, h)" by force
  then show ?case using host_close_keeps [of conn "c_host c" r h] by (intro exI [of _ "c\<lparr>c_host := h\<rparr>"] exI [of _ "[]"]) simp
next
  case (Cons name names)
  obtain r h where cl: "host_close conn (c_host c) = (r, h)" by force
  show ?case
  proof (cases "name = bytes_of ''quit''")
    case True
    then show ?thesis using host_close_keeps [OF cl] cl by (intro exI [of _ "c\<lparr>c_host := h\<rparr>"] exI [of _ "[]"]) simp
  next
    case line: False
    show ?thesis
    proof (cases "content_of (c_files c) name")
      case None
      then have "send_file conn inp name c = Onwards c"
        by (auto simp: send_file_def content_of_def split: option.split node.split if_splits)
      then show ?thesis using Cons line None by simp
    next
      case (Some body)
      have "h_in (c_host c) conn = wire ack_packet @ (ack_stream (length (sent_files (c_files c) names)) @ rest)"
        using Cons.prems(4) line Some by (simp add: ack_stream_def)
      from send_file_streams [OF Cons.prems(1-3) Some this] obtain s c1 where
        c1: "send_file conn inp name c = Onwards c1" "file_stream name body s"
          "h_out (c_host c1) conn = h_out (c_host c) conn @ s" "h_in (c_host c1) conn = ack_stream (length (sent_files (c_files c) names)) @ rest"
          "conn \<in> h_open (c_host c1)" "sound (c_host c1)" "c_files c1 = c_files c" .
      obtain c' ss where "client_loop conn inp names c1 = (0, c')" "h_out (c_host c') conn = h_out (c_host c1) conn @ concat ss"
        "list_all2 (\<lambda>(name, body). file_stream name body) (sent_files (c_files c) names) ss"
        using Cons.IH [OF c1(6,5) Cons.prems(3)] c1(4,7) by auto
      then show ?thesis using line Some c1 by (intro exI [of _ c'] exI [of _ "s # ss"]) simp
    qed
  qed
qed

section \<open>The server\<close>

lemma operations_differ: "SendFileData \<noteq> EndOfFile" "EndOfFile \<noteq> SendFileName"
  by (simp_all add: SendFileData_def EndOfFile_def SendFileName_def)

lemma receive_data_stream:
  assumes "delivers conn (concat (map wire ps) @ wire eof_packet @ rest) (d_host d)" and "\<forall>p\<in>set ps. data_packet p"
    and "out \<in> h_open (d_host d)" and "conn \<noteq> out" and "received + length (concat (map payload ps)) < MAX_FILE"
  shows "\<exists>h. receive_data conn out received d = (False, received + length (concat (map payload ps)), d\<lparr>d_host := h\<rparr>)
    \<and> delivers conn rest h \<and> h_open h = h_open (d_host d) \<and> h_out h conn = h_out (d_host d) conn
    \<and> h_out h out = h_out (d_host d) out @ concat (map payload ps)"
  using assms
proof (induction ps arbitrary: received d)
  case Nil
  then obtain h where rd: "read_full conn PACKET_BYTES (d_host d) = (1, wire eof_packet, h)" and t: "host_took conn PACKET_BYTES (d_host d) h"
    and dl: "delivers conn rest h" using read_packet [of conn eof_packet rest "d_host d"] by auto
  have "receive_data conn out received d = (False, received, d\<lparr>d_host := h\<rparr>)"
    by (simp add: receive_data.simps [of conn out received d] rd Let_def wire_back) (simp add: eof_packet_def)
  then show ?case using dl t by (intro exI [of _ h]) (simp add: host_took_def)
next
  case (Cons p ps)
  have p: "data_packet p" "packet_ok p" "p_operation p = SendFileData" "\<not> LINE_BYTES < unat (p_size p)"
    using Cons.prems(2) by (simp_all add: data_packet_def)
  obtain h where rd: "read_full conn PACKET_BYTES (d_host d) = (1, wire p, h)" and t: "host_took conn PACKET_BYTES (d_host d) h"
    and dl: "delivers conn (concat (map wire ps) @ wire eof_packet @ rest) h"
    using read_packet [OF _ p(2), of conn "concat (map wire ps) @ wire eof_packet @ rest" "d_host d"] Cons.prems(1) by auto
  have h: "out \<in> h_open h" "sound h" using t dl Cons.prems(3) by (auto simp: host_took_def delivers_def)
  obtain h1 where wr: "write_all out (payload p) h = (0, h1)" and g: "host_gave out (payload p) h h1" using write_all_gives [OF h] .
  have small: "\<not> MAX_FILE \<le> received + unat (p_size p)" using Cons.prems(5) length_payload [OF p(1)] by simp
  have step: "receive_data conn out received d = receive_data conn out (received + unat (p_size p)) (d\<lparr>d_host := h1\<rparr>)"
    using wr p small operations_differ
    by (simp add: receive_data.simps [of conn out received d] rd Let_def wire_back payload_def)
  have "delivers conn (concat (map wire ps) @ wire eof_packet @ rest) h1" using dl g by (auto simp: delivers_def host_gave_def)
  then obtain h' where h': "receive_data conn out (received + unat (p_size p)) (d\<lparr>d_host := h1\<rparr>)
      = (False, received + unat (p_size p) + length (concat (map payload ps)), d\<lparr>d_host := h'\<rparr>)"
    "delivers conn rest h'" "h_open h' = h_open h1" "h_out h' conn = h_out h1 conn"
    "h_out h' out = h_out h1 out @ concat (map payload ps)"
    using Cons.IH [of "d\<lparr>d_host := h1\<rparr>" "received + unat (p_size p)"] Cons.prems(2,4,5) h(1) g length_payload [OF p(1)]
    by (auto simp: host_gave_def)
  have "h_open h' = h_open (d_host d)" "h_out h' conn = h_out (d_host d) conn"
    "h_out h' out = h_out (d_host d) out @ payload p @ concat (map payload ps)"
    using h'(3-5) g t Cons.prems(4) by (auto simp: host_gave_def host_took_def)
  then show ?case using step h'(1,2) length_payload [OF p(1)] by (intro exI [of _ h']) (simp add: add.assoc)
qed

lemma copy_path_name:
  assumes "length name < 50" and "0 \<notin> set name"
  shows "copy_path (file_name_packet name) = name @ COPY_SUFFIX"
proof -
  obtain k where k: "80 - length name = Suc k" using assms(1) by (cases "80 - length name") auto
  have "p_data (file_name_packet name) = name @ replicate (80 - length name) 0"
    using assms(1) by (simp add: file_name_packet_def LINE_BYTES_def min_def)
  moreover have "(name @ replicate (80 - length name) 0)[79 := 0] = name @ replicate (80 - length name) (0 :: byte)"
    using assms(1) by (intro nth_equalityI) (auto simp: nth_list_update nth_append)
  moreover have "cstr (name @ replicate (80 - length name) 0) = name"
    using assms(2) by (simp add: cstr_def takeWhile_append2 k) (auto simp: takeWhile_append takeWhile_eq_all_conv)
  ultimately show ?thesis using assms(1) by (simp add: copy_path_def LINE_BYTES_def COPY_SUFFIX_def)
qed

lemma receive_file_stores:
  assumes d: "delivers conn (t @ wire eof_packet @ rest) (d_host d)" and t: "data_stream body t" and ne: "conn \<noteq> out"
    and name: "length name < 50" "0 \<notin> set name" and free: "name @ COPY_SUFFIX \<notin> d_refused d" and small: "length body < MAX_FILE"
  obtains d' where "receive_file conn out (file_name_packet name) d = (True, d')" and "delivers conn rest (d_host d')"
    and "h_out (d_host d') conn = h_out (d_host d) conn @ wire ack_packet"
    and "d_files d' = (d_files d)(name @ COPY_SUFFIX \<mapsto> body)" and "d_refused d' = d_refused d"
proof -
  obtain ps where ps: "t = concat (map wire ps)" "body = concat (map payload ps)" "\<forall>p\<in>set ps. data_packet p"
    using t by (auto simp: data_stream_def)
  let ?path = "name @ COPY_SUFFIX"
  note path = copy_path_name [OF name]
  define e where "e = d\<lparr>d_printed := d_printed d @ [bytes_of ''File Name: '' @ cstr ((p_data (file_name_packet name))[LINE_BYTES - 1 := 0])],
    d_host := (d_host d)\<lparr>h_open := insert out (h_open (d_host d)), h_out := (h_out (d_host d))(out := [])\<rparr>,
    d_files := (d_files d)(?path \<mapsto> [])\<rparr>"
  have e: "delivers conn (t @ wire eof_packet @ rest) (d_host e)" "conn \<in> h_open (d_host e)" "sound (d_host e)" "out \<in> h_open (d_host e)"
    using d by (simp_all add: e_def delivers_def)
  obtain h1 where w: "write_all conn (wire ack_packet) (d_host e) = (0, h1)" and g: "host_gave conn (wire ack_packet) (d_host e) h1"
    using write_all_gives [OF e(2,3)] .
  have d1: "delivers conn (concat (map wire ps) @ wire eof_packet @ rest) (d_host (e\<lparr>d_host := h1\<rparr>))"
    "out \<in> h_open (d_host (e\<lparr>d_host := h1\<rparr>))" using e g ps(1) by (auto simp: delivers_def host_gave_def)
  obtain h2 where h2: "receive_data conn out 0 (e\<lparr>d_host := h1\<rparr>) = (False, length body, e\<lparr>d_host := h2\<rparr>)"
    "delivers conn rest h2" "h_out h2 conn = h_out h1 conn" "h_out h2 out = h_out h1 out @ body"
    using receive_data_stream [OF d1(1) ps(3) d1(2) ne, of 0] small ps(2) by auto
  obtain r h3 where cl: "host_close out h2 = (r, h3)" by force
  let ?d = "close_copy out ?path (e\<lparr>d_host := h2, d_printed := d_printed e @ [bytes_of ''Received '' @ show_nat (length body) @ bytes_of '' bytes.'']\<rparr>)"
  have "receive_file conn out (file_name_packet name) d = (True, ?d)"
    using w h2(1) free
    by (simp add: receive_file_def open_copy_def path Let_def flip: wire_def e_def) (simp add: e_def file_name_packet_def)
  moreover have "delivers conn rest (d_host ?d)"
    using host_close_keeps [OF cl] h2(2) ne by (simp add: close_copy_def cl delivers_def)
  moreover have "h_out (d_host ?d) conn = h_out (d_host d) conn @ wire ack_packet"
    using host_close_keeps [OF cl] h2(3) g ne by (simp add: close_copy_def cl host_gave_def e_def)
  moreover have "d_files ?d = (d_files d)(?path \<mapsto> body)"
    using h2(4) g ne by (simp add: close_copy_def host_gave_def e_def)
  moreover have "d_refused ?d = d_refused d" by (simp add: close_copy_def e_def)
  ultimately show thesis by (rule that)
qed

definition add_copy :: "(byte list \<rightharpoonup> byte list) \<Rightarrow> byte list \<times> byte list \<Rightarrow> (byte list \<rightharpoonup> byte list)" where
  "add_copy files file = files(fst file @ COPY_SUFFIX \<mapsto> snd file)"

lemma serve_connection_stores:
  assumes "list_all2 (\<lambda>(name, body). file_stream name body) files ss" and "delivers conn (concat ss) (d_host d)" and "conn \<noteq> out"
    and "\<forall>(name, body)\<in>set files. length name < 50 \<and> 0 \<notin> set name \<and> length body < MAX_FILE \<and> name @ COPY_SUFFIX \<notin> d_refused d"
  shows "d_files (serve_connection conn out d) = foldl add_copy (d_files d) files
    \<and> h_out (d_host (serve_connection conn out d)) conn = h_out (d_host d) conn @ ack_stream (length files)"
  using assms
proof (induction files ss arbitrary: d rule: list_all2_induct)
  case Nil
  obtain h where "read_full conn PACKET_BYTES (d_host d) = (0, [], h)" "host_took conn 0 (d_host d) h"
    using read_full_end [of conn "d_host d" PACKET_BYTES] packet_count(2) Nil by (auto simp: PACKET_BYTES_def)
  then show ?case by (simp add: serve_connection.simps [of conn out d] host_took_0 ack_stream_def Let_def)
next
  case (Cons f files s ss)
  obtain name body where nb: "f = (name, body)" by force
  obtain t where t: "s = wire (file_name_packet name) @ t @ wire eof_packet" "data_stream body t"
    using Cons.hyps(1) nb by (auto simp: file_stream_def)
  have "delivers conn (wire (file_name_packet name) @ (t @ wire eof_packet @ concat ss)) (d_host d)" using Cons.prems(1) t(1) by simp
  then obtain h where rd: "read_full conn PACKET_BYTES (d_host d) = (1, wire (file_name_packet name), h)"
    and tk: "host_took conn PACKET_BYTES (d_host d) h" and dl: "delivers conn (t @ wire eof_packet @ concat ss) h"
    using read_packet [OF _ fixed_packets(3)] by blast
  have nm: "length name < 50" "0 \<notin> set name" "name @ COPY_SUFFIX \<notin> d_refused (d\<lparr>d_host := h\<rparr>)" "length body < MAX_FILE"
    using Cons.prems(3) nb by auto
  obtain d' where d': "receive_file conn out (file_name_packet name) (d\<lparr>d_host := h\<rparr>) = (True, d')" "delivers conn (concat ss) (d_host d')"
    "h_out (d_host d') conn = h_out h conn @ wire ack_packet" "d_files d' = (d_files d)(name @ COPY_SUFFIX \<mapsto> body)"
    "d_refused d' = d_refused d"
    using receive_file_stores [of conn t "concat ss" "d\<lparr>d_host := h\<rparr>" body out name, OF _ t(2) Cons.prems(2) nm] dl by auto
  have "serve_connection conn out d = serve_connection conn out d'"
    using d'(1) by (simp add: serve_connection.simps [of conn out d] rd Let_def wire_back)
  moreover have "d_files (serve_connection conn out d') = foldl add_copy (d_files d') files
      \<and> h_out (d_host (serve_connection conn out d')) conn = h_out (d_host d') conn @ ack_stream (length files)"
    using Cons.IH [OF d'(2) Cons.prems(2)] Cons.prems(3) d'(5) by auto
  moreover have "h_out h conn = h_out (d_host d) conn" using tk by (simp add: host_took_def)
  moreover have "d_files d' = add_copy (d_files d) f" using d'(4) nb by (simp add: add_copy_def)
  ultimately show ?case using d'(3) by (simp add: ack_stream_def)
qed

section \<open>A session\<close>

lemma sent_files_ok:
  "(name, body) \<in> set (sent_files files names) \<Longrightarrow> name \<in> set names \<and> length name < 50 \<and> length body < MAX_FILE"
proof (induction files names rule: sent_files.induct)
  case (2 files n names)
  have "length n < 50 \<and> length b < MAX_FILE" if "content_of files n = Some b" for b
    using that by (auto simp: content_of_def is_valid_file_name_def split: if_splits option.splits node.splits)
  then show ?case using 2 by (auto split: if_splits option.splits)
qed simp

lemma session_copies:
  assumes c: "sound (c_host c)" "conn \<in> h_open (c_host c)" "conn \<noteq> inp" "h_out (c_host c) conn = []"
      "h_in (c_host c) conn = ack_stream (length (sent_files (c_files c) names)) @ rest"
    and d: "sound (d_host d)" "conn' \<in> h_open (d_host d)" "conn' \<noteq> out" "h_out (d_host d) conn' = []"
      "h_in (d_host d) conn' = h_out (c_host (snd (client_loop conn inp names c))) conn"
    and names: "\<forall>name\<in>set names. 0 \<notin> set name \<and> name @ COPY_SUFFIX \<notin> d_refused d"
  shows "fst (client_loop conn inp names c) = 0
    \<and> d_files (serve_connection conn' out d) = foldl add_copy (d_files d) (sent_files (c_files c) names)
    \<and> h_out (d_host (serve_connection conn' out d)) conn' = ack_stream (length (sent_files (c_files c) names))"
proof -
  obtain c' ss where cl: "client_loop conn inp names c = (0, c')" "h_out (c_host c') conn = concat ss"
    and ss: "list_all2 (\<lambda>(name, body). file_stream name body) (sent_files (c_files c) names) ss"
    using client_loop_streams [OF c(1-3,5)] c(4) by auto
  have "delivers conn' (concat ss) (d_host d)" using d cl by (simp add: delivers_def)
  moreover have "\<forall>(name, body)\<in>set (sent_files (c_files c) names).
      length name < 50 \<and> 0 \<notin> set name \<and> length body < MAX_FILE \<and> name @ COPY_SUFFIX \<notin> d_refused d"
    using sent_files_ok names by auto
  ultimately show ?thesis using serve_connection_stores [OF ss _ d(3)] d(4) cl(1) by auto
qed

end
