(* ===== verification/Week11_Threads.thy ===== *)
theory Week11_Threads
  imports Pa3_Common
begin

text \<open>
  \<^verbatim>\<open>week11/w11.c\<close>: a matrix and a vector are reduced modulo 10 and multiplied by threads that are started in
  batches. The main thread is the list of the commands that its loops issue, a step is one command of the main
  thread or one iteration of the loop of a thread, and the threads take their steps in any order. The numbers of
  rows and columns are \<open>nat\<close>s, below the sizes that can be allocated; elements are machine words.
\<close>

section \<open>Arrays and threads\<close>

text \<open>\<open>m_results\<close>: the field \<open>result\<close> of each entry of \<open>t_mvm_data_arr\<close>; \<open>m_out\<close>: the array \<open>result\<close>.\<close>

record arrays =
  m_matrix :: "u64 list list"
  m_vector :: "u64 list"
  m_results :: "u64 list"
  m_out :: "u64 list"

datatype task = ReduceVector | ReduceRow nat | MultiplyRow nat

record worker =
  th_i :: nat
  th_sum :: u64
  th_done :: bool

definition new_worker :: worker where
  "new_worker = \<lparr>th_i = 0, th_sum = 0, th_done = False\<rparr>"

definition reduce_at :: "nat \<Rightarrow> u64 list \<Rightarrow> u64 list" where
  "reduce_at i xs = xs[i := xs ! i mod 10]"

text \<open>One iteration of the loop, or the return.\<close>

definition thread_modulo_reduction :: "nat \<Rightarrow> task \<Rightarrow> arrays \<Rightarrow> worker \<Rightarrow> arrays \<times> worker" where
  "thread_modulo_reduction cols j m t =
     (if th_i t < cols then
        ((case j of ReduceRow r \<Rightarrow> m\<lparr>m_matrix := (m_matrix m)[r := reduce_at (th_i t) (m_matrix m ! r)]\<rparr>
          | _ \<Rightarrow> m\<lparr>m_vector := reduce_at (th_i t) (m_vector m)\<rparr>), t\<lparr>th_i := th_i t + 1\<rparr>)
      else (m, t\<lparr>th_done := True\<rparr>))"

definition thread_matrix_vector_mult :: "nat \<Rightarrow> nat \<Rightarrow> arrays \<Rightarrow> worker \<Rightarrow> arrays \<times> worker" where
  "thread_matrix_vector_mult cols r m t =
     (if th_i t < cols then
        (m, t\<lparr>th_sum := th_sum t + m_matrix m ! r ! th_i t * m_vector m ! th_i t, th_i := th_i t + 1\<rparr>)
      else (m\<lparr>m_results := (m_results m)[r := th_sum t]\<rparr>, t\<lparr>th_done := True\<rparr>))"

definition run_worker :: "nat \<Rightarrow> task \<Rightarrow> arrays \<Rightarrow> worker \<Rightarrow> arrays \<times> worker" where
  "run_worker cols j m t =
     (case j of MultiplyRow r \<Rightarrow> thread_matrix_vector_mult cols r m t | _ \<Rightarrow> thread_modulo_reduction cols j m t)"

section \<open>The main thread\<close>

datatype main_command = Create task | Join task | Collect nat

text \<open>
  The batches from \<open>batch_i\<close> on. The loop does not end when there is a row and no core is reported: \<open>None\<close>.
\<close>

partial_function (option) batches_from :: "nat \<Rightarrow> nat \<Rightarrow> nat \<Rightarrow> (nat \<times> nat) list option" where
  "batches_from n_cores row_size batch_i =
     (if batch_i * n_cores < row_size then
        (let batch_start = batch_i * n_cores;
             batch_end = (if batch_start + n_cores < row_size then batch_start + n_cores else row_size)
         in do { rest \<leftarrow> batches_from n_cores row_size (batch_i + 1); Some ((batch_start, batch_end) # rest) })
      else Some [])"

definition reduction_commands :: "(nat \<times> nat) list \<Rightarrow> main_command list" where
  "reduction_commands batches =
     Create ReduceVector
       # concat (map (\<lambda>(s, e). map (\<lambda>i. Create (ReduceRow i)) [s..<e] @ map (\<lambda>i. Join (ReduceRow i)) [s..<e]) batches)
       @ [Join ReduceVector]"

definition multiplication_commands :: "(nat \<times> nat) list \<Rightarrow> main_command list" where
  "multiplication_commands batches =
     concat (map (\<lambda>(s, e). map (\<lambda>i. Create (MultiplyRow i)) [s..<e] @ map (\<lambda>i. Join (MultiplyRow i)) [s..<e]
       @ map Collect [s..<e]) batches)"

type_synonym config = "arrays \<times> (task \<rightharpoonup> worker) \<times> main_command list"

definition prepare :: "task \<Rightarrow> arrays \<Rightarrow> arrays" where
  "prepare j m = (case j of MultiplyRow r \<Rightarrow> m\<lparr>m_results := (m_results m)[r := 0]\<rparr> | _ \<Rightarrow> m)"

inductive threads_step :: "nat \<Rightarrow> config \<Rightarrow> config \<Rightarrow> bool" for cols where
  create: "threads_step cols (m, ts, Create j # cs) (prepare j m, ts(j \<mapsto> new_worker), cs)"
| join: "ts j = Some t \<Longrightarrow> th_done t \<Longrightarrow> threads_step cols (m, ts, Join j # cs) (m, ts, cs)"
| collect: "threads_step cols (m, ts, Collect i # cs) (m\<lparr>m_out := (m_out m)[i := m_results m ! i]\<rparr>, ts, cs)"
| work: "ts j = Some t \<Longrightarrow> \<not> th_done t \<Longrightarrow> run_worker cols j m t = (m', t') \<Longrightarrow>
    threads_step cols (m, ts, cs) (m', ts(j \<mapsto> t'), cs)"

inductive threads_run :: "nat \<Rightarrow> nat \<Rightarrow> config \<Rightarrow> config \<Rightarrow> bool" for cols where
  none: "threads_run cols 0 s s"
| more: "threads_step cols s s' \<Longrightarrow> threads_run cols k s' s'' \<Longrightarrow> threads_run cols (Suc k) s s''"

section \<open>The single-threaded version\<close>

definition row_sum :: "u64 list \<Rightarrow> u64 list \<Rightarrow> nat \<Rightarrow> u64" where
  "row_sum row vector k = foldl (\<lambda>sum i. sum + row ! i * vector ! i) 0 [0..<k]"

definition single_threaded_matrix_multiplication :: "u64 list list \<Rightarrow> u64 list \<Rightarrow> nat \<Rightarrow> nat \<Rightarrow> u64 list" where
  "single_threaded_matrix_multiplication matrix vector row_size column_size =
     map (\<lambda>i. row_sum (matrix ! i) vector column_size) [0..<row_size]"

section \<open>The files\<close>

text \<open>The text of a row, and the loop over the rows; a short \<^verbatim>\<open>write\<close> is not continued.\<close>

fun row_items :: "u64 list \<Rightarrow> byte list" where
  "row_items [] = []"
| "row_items [x] = show_nat (unat x)"
| "row_items (x # y # xs) = show_nat (unat x) @ [9] @ row_items (y # xs)"

definition row_text :: "u64 list \<Rightarrow> byte list" where
  "row_text row = bytes_of ''['' @ row_items row @ bytes_of '']'' @ [10]"

fun fputs_matrix :: "int \<Rightarrow> u64 list list \<Rightarrow> host \<Rightarrow> host run" where
  "fputs_matrix fd [] h = Ret (snd (host_close fd h))"
| "fputs_matrix fd (row # rows) h =
     (case host_write fd (row_text row) h of (n_bytes, h) \<Rightarrow>
      if n_bytes = -1 then Exit EXIT_FAILURE else fputs_matrix fd rows h)"

datatype vector_type = COLUMN | ROW

fun fputs_vector :: "int \<Rightarrow> u64 list \<Rightarrow> vector_type \<Rightarrow> host \<Rightarrow> host run" where
  "fputs_vector fd vector COLUMN h = fputs_matrix fd (map (\<lambda>x. [x]) vector) h"
| "fputs_vector fd vector ROW h = fputs_matrix fd [vector] h"

section \<open>Batches cover the rows\<close>

definition batch_rows :: "(nat \<times> nat) list \<Rightarrow> nat list" where
  "batch_rows batches = concat (map (\<lambda>(s, e). [s..<e]) batches)"

lemma batches_cover:
  assumes "0 < n"
  shows "\<exists>bs. batches_from n rows b = Some bs \<and> batch_rows bs = [b * n..<rows]"
proof (induction "rows - b * n" arbitrary: b rule: less_induct)
  case less
  show ?case
  proof (cases "b * n < rows")
    case True
    then obtain bs where bs: "batches_from n rows (b + 1) = Some bs" "batch_rows bs = [(b + 1) * n..<rows]"
      using less [of "b + 1"] diff_less_mono2 [of "b * n" "(b + 1) * n" rows] True assms by auto
    let ?e = "if b * n + n < rows then b * n + n else rows"
    have "batches_from n rows b = Some ((b * n, ?e) # bs)"
      using True bs(1) by (subst batches_from.simps) (simp add: Let_def)
    moreover have "[b * n..<?e] @ [(b + 1) * n..<rows] = [b * n..<rows]"
      using True upt_add_eq_append [of "b * n" "b * n + n" "rows - (b * n + n)"] by (auto simp: add.commute)
    ultimately show ?thesis using bs(2) by (simp add: batch_rows_def)
  next
    case False
    then show ?thesis by (subst batches_from.simps) (simp add: batch_rows_def)
  qed
qed

text \<open>Without a core the loop of the batches never ends.\<close>

lemma batches_diverge:
  assumes "0 < rows"
  shows "batches_from 0 rows b = None"
proof (rule ccontr)
  assume "batches_from 0 rows b \<noteq> None"
  then obtain bs where "batches_from 0 rows b = Some bs" by auto
  then show False
  proof (induction bs arbitrary: b)
    case Nil
    then show ?case using assms by (subst (asm) batches_from.simps) (simp add: Let_def split: bind_splits)
  next
    case (Cons x bs)
    then show ?case using assms Cons.IH by (subst (asm) batches_from.simps) (auto simp: Let_def split: bind_splits)
  qed
qed

section \<open>Order of the commands\<close>

text \<open>
  Every task is created once, joined after it was created, and its result collected after it was joined:
  \<open>C\<close>, \<open>D\<close> and \<open>E\<close> are what has been created, joined and collected before.
\<close>

fun ordered :: "task set \<Rightarrow> nat set \<Rightarrow> task set \<Rightarrow> task set \<Rightarrow> nat set \<Rightarrow> main_command list \<Rightarrow> bool" where
  "ordered J R C D E [] \<longleftrightarrow> C = J \<and> D = J \<and> E = R"
| "ordered J R C D E (Create j # cs) \<longleftrightarrow> j \<notin> C \<and> ordered J R (insert j C) D E cs"
| "ordered J R C D E (Join j # cs) \<longleftrightarrow> j \<in> C \<and> ordered J R C (insert j D) E cs"
| "ordered J R C D E (Collect i # cs) \<longleftrightarrow> MultiplyRow i \<in> D \<and> ordered J R C D (insert i E) cs"

lemma ordered_creates:
  "ordered J R C D E (map (\<lambda>i. Create (f i)) is @ cs) \<longleftrightarrow>
     distinct (map f is) \<and> f ` set is \<inter> C = {} \<and> ordered J R (f ` set is \<union> C) D E cs"
  by (induction "is" arbitrary: C) (auto simp: insert_commute)

lemma ordered_joins:
  "ordered J R C D E (map (\<lambda>i. Join (f i)) is @ cs) \<longleftrightarrow> f ` set is \<subseteq> C \<and> ordered J R C (f ` set is \<union> D) E cs"
  by (induction "is" arbitrary: D) auto

lemma ordered_collects:
  "ordered J R C D E (map Collect is @ cs) \<longleftrightarrow> MultiplyRow ` set is \<subseteq> D \<and> ordered J R C D (set is \<union> E) cs"
  by (induction "is" arbitrary: E) auto

lemma batch_rows_Cons: "batch_rows ((s, e) # bs) = [s..<e] @ batch_rows bs"
  by (simp add: batch_rows_def)

lemma ordered_reduction_batches:
  "distinct (batch_rows bs) \<Longrightarrow> ReduceRow ` set (batch_rows bs) \<inter> C = {} \<Longrightarrow>
   ordered J R (ReduceRow ` set (batch_rows bs) \<union> C) (ReduceRow ` set (batch_rows bs) \<union> D) E cs \<Longrightarrow>
   ordered J R C D E (concat (map (\<lambda>(s, e). map (\<lambda>i. Create (ReduceRow i)) [s..<e] @ map (\<lambda>i. Join (ReduceRow i)) [s..<e]) bs) @ cs)"
proof (induction bs arbitrary: C D)
  case (Cons b bs)
  obtain s e where b: "b = (s, e)" by force
  have "ordered J R (ReduceRow ` set [s..<e] \<union> C) (ReduceRow ` set [s..<e] \<union> D) E
     (concat (map (\<lambda>(s, e). map (\<lambda>i. Create (ReduceRow i)) [s..<e] @ map (\<lambda>i. Join (ReduceRow i)) [s..<e]) bs) @ cs)"
    using Cons.prems b by (intro Cons.IH) (auto simp: batch_rows_Cons image_Un Un_ac)
  then show ?case
    using Cons.prems b by (auto simp: ordered_creates ordered_joins batch_rows_Cons distinct_map inj_on_def)
qed (simp add: batch_rows_def)

lemma ordered_multiplication_batches:
  "distinct (batch_rows bs) \<Longrightarrow> MultiplyRow ` set (batch_rows bs) \<inter> C = {} \<Longrightarrow>
   ordered J R (MultiplyRow ` set (batch_rows bs) \<union> C) (MultiplyRow ` set (batch_rows bs) \<union> D) (set (batch_rows bs) \<union> E) [] \<Longrightarrow>
   ordered J R C D E (multiplication_commands bs)"
proof (induction bs arbitrary: C D E)
  case (Cons b bs)
  obtain s e where b: "b = (s, e)" by force
  have "ordered J R (MultiplyRow ` set [s..<e] \<union> C) (MultiplyRow ` set [s..<e] \<union> D) (set [s..<e] \<union> E) (multiplication_commands bs)"
    using Cons.prems b by (intro Cons.IH) (auto simp: batch_rows_Cons image_Un Un_ac)
  then show ?case
    using Cons.prems b
    by (auto simp: multiplication_commands_def ordered_creates ordered_joins ordered_collects batch_rows_Cons distinct_map inj_on_def)
qed (simp add: batch_rows_def multiplication_commands_def)

definition reduction_tasks :: "nat \<Rightarrow> task set" where
  "reduction_tasks rows = insert ReduceVector (ReduceRow ` {..<rows})"

definition multiplication_tasks :: "nat \<Rightarrow> task set" where
  "multiplication_tasks rows = MultiplyRow ` {..<rows}"

lemma reduction_ordered:
  assumes "batch_rows bs = [0..<rows]"
  shows "ordered (reduction_tasks rows) {} {} {} {} (reduction_commands bs)"
  using assms unfolding reduction_commands_def
  by (auto simp: reduction_tasks_def atLeast0LessThan intro!: ordered_reduction_batches)

lemma multiplication_ordered:
  assumes "batch_rows bs = [0..<rows]"
  shows "ordered (multiplication_tasks rows) {..<rows} {} {} {} (multiplication_commands bs)"
  using assms by (intro ordered_multiplication_batches) (simp_all add: multiplication_tasks_def atLeast0LessThan)

section \<open>Phases\<close>

text \<open>
  A phase: the tasks \<open>J\<close> and what is true of the arrays, the threads and the collected rows. Its laws are that a
  creation, a collection and an iteration of a thread keep that.
\<close>

lemma ordered_created: "ordered J R C D E cs \<Longrightarrow> C \<subseteq> J"
  by (induction J R C D E cs rule: ordered.induct) auto

text \<open>What is left to do: a step takes one from it.\<close>

definition work_left :: "nat \<Rightarrow> worker option \<Rightarrow> nat" where
  "work_left cols w = (case w of None \<Rightarrow> cols + 1 | Some t \<Rightarrow> if th_done t then 0 else cols + 1 - th_i t)"

definition phase_left :: "nat \<Rightarrow> task set \<Rightarrow> config \<Rightarrow> nat" where
  "phase_left cols J cfg = (case cfg of (m, ts, cs) \<Rightarrow> length cs + (\<Sum>j\<in>J. work_left cols (ts j)))"

lemma work_left_update:
  assumes "finite J" and "j \<in> J" and "work_left cols (Some t) < work_left cols (ts j)"
  shows "(\<Sum>x\<in>J. work_left cols ((ts(j \<mapsto> t)) x)) < (\<Sum>x\<in>J. work_left cols (ts x))"
  using assms by (intro sum_strict_mono_ex1) auto

lemma run_worker_counts:
  "run_worker cols j m t = (m', t') \<Longrightarrow> (th_i t < cols \<longrightarrow> th_i t' = th_i t + 1 \<and> th_done t' = th_done t)
     \<and> (cols \<le> th_i t \<longrightarrow> th_i t' = th_i t \<and> th_done t')"
  by (auto simp: run_worker_def thread_modulo_reduction_def thread_matrix_vector_mult_def split: task.splits if_splits)

locale thread_phase =
  fixes cols :: nat and J :: "task set" and R :: "nat set"
    and P :: "arrays \<Rightarrow> (task \<rightharpoonup> worker) \<Rightarrow> nat set \<Rightarrow> bool"
  assumes tasks: "finite J"
    and counter: "P m ts E \<Longrightarrow> ts j = Some t \<Longrightarrow> j \<in> J \<Longrightarrow> th_i t \<le> cols"
    and created: "P m ts E \<Longrightarrow> ts j = None \<Longrightarrow> j \<in> J \<Longrightarrow> P (prepare j m) (ts(j \<mapsto> new_worker)) E"
    and collected: "P m ts E \<Longrightarrow> ts (MultiplyRow i) = Some t \<Longrightarrow> th_done t \<Longrightarrow> MultiplyRow i \<in> J
        \<Longrightarrow> P (m\<lparr>m_out := (m_out m)[i := m_results m ! i]\<rparr>) ts (insert i E)"
    and worked: "P m ts E \<Longrightarrow> ts j = Some t \<Longrightarrow> \<not> th_done t \<Longrightarrow> j \<in> J \<Longrightarrow> run_worker cols j m t = (m', t')
        \<Longrightarrow> P m' (ts(j \<mapsto> t')) E"
begin

definition phase_ok :: "config \<Rightarrow> bool" where
  "phase_ok cfg \<longleftrightarrow> (case cfg of (m, ts, cs) \<Rightarrow>
     dom ts \<subseteq> J \<and> (\<exists>D E. ordered J R (dom ts) D E cs \<and> (\<forall>j\<in>D. \<exists>t. ts j = Some t \<and> th_done t) \<and> P m ts E))"

lemma phase_okI:
  "dom ts \<subseteq> J \<Longrightarrow> ordered J R (dom ts) D E cs \<Longrightarrow> \<forall>j\<in>D. \<exists>t. ts j = Some t \<and> th_done t \<Longrightarrow> P m ts E
   \<Longrightarrow> phase_ok (m, ts, cs)"
  unfolding phase_ok_def by blast

lemma phase_progress:
  assumes "phase_ok (m, ts, cs)" and "cs \<noteq> []"
  shows "\<exists>cfg. threads_step cols (m, ts, cs) cfg"
proof (cases cs)
  case (Cons c cs1)
  show ?thesis
  proof (cases c)
    case (Join j)
    then obtain t where t: "ts j = Some t" using assms(1) Cons by (auto simp: phase_ok_def)
    obtain m' t' where w: "run_worker cols j m t = (m', t')" by force
    show ?thesis
    proof (cases "th_done t")
      case True
      then show ?thesis using threads_step.join [where ts = ts and j = j, OF t] Cons Join by blast
    next
      case False
      then show ?thesis using threads_step.work [where ts = ts and j = j, OF t False w] by blast
    qed
  qed (use Cons threads_step.create threads_step.collect in blast)+
qed (use assms in simp)

lemma phase_step:
  assumes "threads_step cols cfg cfg'" and "phase_ok cfg"
  shows "phase_ok cfg' \<and> phase_left cols J cfg' < phase_left cols J cfg"
  using assms(1)
proof cases
  case (create m ts j cs)
  then obtain D E where D: "ts j = None" "ordered J R (insert j (dom ts)) D E cs" "\<forall>j\<in>D. \<exists>t. ts j = Some t \<and> th_done t" "P m ts E" "dom ts \<subseteq> J"
    using assms(2) by (auto simp: phase_ok_def domIff)
  then have j: "j \<in> J" using ordered_created by blast
  have "\<forall>x\<in>D. \<exists>t. (ts(j \<mapsto> new_worker)) x = Some t \<and> th_done t" using D(1,3) by (metis fun_upd_apply option.distinct(1))
  then have "phase_ok cfg'" unfolding create using D j created [OF D(4,1) j] by (intro phase_okI [where D = D and E = E]) simp_all
  moreover have "work_left cols ((ts(j \<mapsto> new_worker)) x) = work_left cols (ts x)" for x
    using D(1) by (simp add: work_left_def new_worker_def)
  ultimately show ?thesis by (simp add: phase_left_def create)
next
  case (join ts j t m cs)
  obtain D E where D: "dom ts \<subseteq> J" "ordered J R (dom ts) (insert j D) E cs" "\<forall>j\<in>D. \<exists>t. ts j = Some t \<and> th_done t" "P m ts E"
    using assms(2) join by (auto simp: phase_ok_def)
  moreover have "\<forall>x\<in>insert j D. \<exists>t. ts x = Some t \<and> th_done t" using D(3) join by blast
  ultimately have "phase_ok cfg'" unfolding join by (intro phase_okI [where D = "insert j D" and E = E])
  then show ?thesis by (simp add: phase_left_def join)
next
  case (collect m ts i cs)
  obtain D E where D: "dom ts \<subseteq> J" "MultiplyRow i \<in> D" "ordered J R (dom ts) D (insert i E) cs"
    "\<forall>j\<in>D. \<exists>t. ts j = Some t \<and> th_done t" "P m ts E"
    using assms(2) collect by (auto simp: phase_ok_def)
  then obtain t where t: "ts (MultiplyRow i) = Some t" "th_done t" by blast
  have "MultiplyRow i \<in> J" using t(1) D(1) by blast
  from collected [OF D(5) t this] have "phase_ok cfg'" unfolding collect using D by (intro phase_okI [where D = D and E = "insert i E"])
  then show ?thesis by (simp add: phase_left_def collect)
next
  case (work ts j t m m' t' cs)
  obtain D E where D: "dom ts \<subseteq> J" "ordered J R (dom ts) D E cs" "\<forall>j\<in>D. \<exists>t. ts j = Some t \<and> th_done t" "P m ts E"
    using assms(2) work by (auto simp: phase_ok_def)
  have j: "j \<in> J" using D(1) work by blast
  have dom: "dom (ts(j \<mapsto> t')) = dom ts" using work by auto
  have "\<forall>x\<in>D. \<exists>u. (ts(j \<mapsto> t')) x = Some u \<and> th_done u" using D(3) work(3,4) by (metis fun_upd_apply option.inject)
  then have "phase_ok cfg'"
    unfolding work using D dom worked [OF D(4) work(3,4) j work(5)] by (intro phase_okI [where D = D and E = E]) simp_all
  moreover have "work_left cols (Some t') < work_left cols (ts j)"
    using run_worker_counts [OF work(5)] counter [OF D(4) work(3) j] work(3,4) by (cases "th_i t < cols") (auto simp: work_left_def)
  then have "phase_left cols J cfg' < phase_left cols J cfg"
    using work_left_update [OF tasks j] by (simp add: phase_left_def work)
  ultimately show ?thesis by simp
qed

lemma phase_run:
  assumes "threads_run cols k cfg cfg'" and "phase_ok cfg"
  shows "phase_ok cfg' \<and> k + phase_left cols J cfg' \<le> phase_left cols J cfg"
  using assms
proof (induction rule: threads_run.induct)
  case (more s s' k s'')
  then show ?case using phase_step [OF more.hyps(1) more.prems] by auto
qed simp

lemma phase_complete:
  assumes start: "ordered J R {} {} {} cs" "P m0 Map.empty {}"
    and run: "threads_run cols k (m0, Map.empty, cs) (m, ts, cs')"
  shows "k \<le> length cs + card J * (cols + 1)" and "cs' \<noteq> [] \<Longrightarrow> \<exists>cfg. threads_step cols (m, ts, cs') cfg"
    and "cs' = [] \<Longrightarrow> P m ts R \<and> (\<forall>j\<in>J. \<exists>t. ts j = Some t \<and> th_done t)"
proof -
  have s: "phase_ok (m0, Map.empty, cs)" unfolding phase_ok_def using start by auto
  note r = phase_run [OF run s]
  show "k \<le> length cs + card J * (cols + 1)" using r by (simp add: phase_left_def work_left_def)
  show "cs' \<noteq> [] \<Longrightarrow> \<exists>cfg. threads_step cols (m, ts, cs') cfg" using r phase_progress by blast
  show "cs' = [] \<Longrightarrow> P m ts R \<and> (\<forall>j\<in>J. \<exists>t. ts j = Some t \<and> th_done t)" using r by (auto simp: phase_ok_def)
qed

end

section \<open>The two phases\<close>

definition reduced :: "nat \<Rightarrow> u64 list \<Rightarrow> u64 list" where
  "reduced k xs = map (\<lambda>x. x mod 10) (take k xs) @ drop k xs"

definition progress :: "worker option \<Rightarrow> nat" where
  "progress w = (case w of None \<Rightarrow> 0 | Some t \<Rightarrow> th_i t)"

lemma progress_simps [simp]: "progress None = 0" "progress (Some t) = th_i t"
  by (simp_all add: progress_def)

lemma reduced_0 [simp]: "reduced 0 xs = xs"
  by (simp add: reduced_def)

lemma reduced_all: "reduced (length xs) xs = map (\<lambda>x. x mod 10) xs"
  by (simp add: reduced_def)

lemma length_reduced [simp]: "length (reduced k xs) = length xs"
  by (simp add: reduced_def)

lemma reduce_at_reduced: "k < length xs \<Longrightarrow> reduce_at k (reduced k xs) = reduced (Suc k) xs"
  by (intro nth_equalityI) (auto simp: reduce_at_def reduced_def nth_list_update nth_append less_Suc_eq)

definition reduction_mem :: "nat \<Rightarrow> nat \<Rightarrow> arrays \<Rightarrow> arrays \<Rightarrow> (task \<rightharpoonup> worker) \<Rightarrow> nat set \<Rightarrow> bool" where
  "reduction_mem cols rows m0 m ts E \<longleftrightarrow>
     length (m_matrix m) = rows \<and> (\<forall>r<rows. length (m_matrix m0 ! r) = cols) \<and> length (m_vector m0) = cols
     \<and> (\<forall>r<rows. m_matrix m ! r = reduced (progress (ts (ReduceRow r))) (m_matrix m0 ! r))
     \<and> m_vector m = reduced (progress (ts ReduceVector)) (m_vector m0)
     \<and> m_results m = m_results m0 \<and> m_out m = m_out m0
     \<and> (\<forall>j t. ts j = Some t \<longrightarrow> th_i t \<le> cols \<and> (th_done t \<longrightarrow> th_i t = cols))"

interpretation reduction: thread_phase cols "reduction_tasks rows" "{}" "reduction_mem cols rows m0"
proof (unfold_locales, goal_cases)
  case 1
  show ?case by (simp add: reduction_tasks_def)
next
  case (2 m ts E j t)
  then show ?case by (simp add: reduction_mem_def)
next
  case (3 m ts E j)
  then have "prepare j m = m" by (auto simp: prepare_def reduction_tasks_def)
  moreover have "progress ((ts(j \<mapsto> new_worker)) x) = progress (ts x)" for x using 3 by (simp add: new_worker_def)
  ultimately show ?case using 3 by (auto simp: reduction_mem_def new_worker_def)
next
  case (4 m ts E i t)
  then show ?case by (auto simp: reduction_tasks_def)
next
  case (5 m ts E j t m' t')
  have mem: "length (m_matrix m) = rows" "\<And>r. r < rows \<Longrightarrow> length (m_matrix m0 ! r) = cols" "length (m_vector m0) = cols"
    "\<And>r. r < rows \<Longrightarrow> m_matrix m ! r = reduced (progress (ts (ReduceRow r))) (m_matrix m0 ! r)"
    "m_vector m = reduced (progress (ts ReduceVector)) (m_vector m0)"
    "\<And>j t. ts j = Some t \<Longrightarrow> th_i t \<le> cols \<and> (th_done t \<longrightarrow> th_i t = cols)"
    "m_results m = m_results m0" "m_out m = m_out m0"
    using 5(1) by (auto simp: reduction_mem_def)
  note cnt = run_worker_counts [OF 5(5)]
  have all: "th_i t = cols" if "\<not> th_i t < cols" using mem(6) [OF 5(2)] that by simp
  consider r where "j = ReduceRow r" "r < rows" | "j = ReduceVector" using 5(4) by (auto simp: reduction_tasks_def)
  then show ?case
  proof cases
    case (1 r)
    have "m' = (if th_i t < cols then m\<lparr>m_matrix := (m_matrix m)[r := reduced (Suc (th_i t)) (m_matrix m0 ! r)]\<rparr> else m)"
      using 5(5) 1 mem(4) [of r] mem(2) [of r] 5(2) reduce_at_reduced
      by (auto simp: run_worker_def thread_modulo_reduction_def split: if_splits)
    then show ?thesis using mem cnt all 1 5(2,3)
      by (cases "th_i t < cols") (auto simp: reduction_mem_def nth_list_update split: if_splits)
  next
    case 2
    have "m' = (if th_i t < cols then m\<lparr>m_vector := reduced (Suc (th_i t)) (m_vector m0)\<rparr> else m)"
      using 5(5) 2 mem(5) mem(3) 5(2) reduce_at_reduced
      by (auto simp: run_worker_def thread_modulo_reduction_def split: if_splits)
    then show ?thesis using mem cnt all 2 5(2,3)
      by (cases "th_i t < cols") (auto simp: reduction_mem_def split: if_splits)
  qed
qed

definition multiplication_mem :: "nat \<Rightarrow> nat \<Rightarrow> arrays \<Rightarrow> arrays \<Rightarrow> (task \<rightharpoonup> worker) \<Rightarrow> nat set \<Rightarrow> bool" where
  "multiplication_mem cols rows m0 m ts E \<longleftrightarrow>
     m_matrix m = m_matrix m0 \<and> m_vector m = m_vector m0 \<and> length (m_results m) = rows \<and> length (m_out m) = rows
     \<and> (\<forall>r<rows. \<forall>t. ts (MultiplyRow r) = Some t \<longrightarrow> th_i t \<le> cols
         \<and> (if th_done t then m_results m ! r = row_sum (m_matrix m0 ! r) (m_vector m0) cols
            else th_sum t = row_sum (m_matrix m0 ! r) (m_vector m0) (th_i t)))
     \<and> (\<forall>i\<in>E. i < rows \<and> m_out m ! i = row_sum (m_matrix m0 ! i) (m_vector m0) cols)"

lemma row_sum_simps: "row_sum row vector 0 = 0" "row_sum row vector (Suc k) = row_sum row vector k + row ! k * vector ! k"
  by (simp_all add: row_sum_def)

interpretation multiplication: thread_phase cols "multiplication_tasks rows" "{..<rows}" "multiplication_mem cols rows m0"
proof (unfold_locales, goal_cases)
  case 1
  show ?case by (simp add: multiplication_tasks_def)
next
  case (2 m ts E j t)
  then show ?case by (auto simp: multiplication_mem_def multiplication_tasks_def)
next
  case (3 m ts E j)
  then obtain r where "j = MultiplyRow r" "r < rows" by (auto simp: multiplication_tasks_def)
  then show ?case using 3 by (auto simp: multiplication_mem_def new_worker_def prepare_def row_sum_simps nth_list_update)
next
  case (4 m ts E i t)
  then show ?case by (auto simp: multiplication_mem_def multiplication_tasks_def nth_list_update)
next
  case (5 m ts E j t m' t')
  then obtain r where r: "j = MultiplyRow r" "r < rows" by (auto simp: multiplication_tasks_def)
  have "run_worker cols j m t = thread_matrix_vector_mult cols r m t" by (simp add: run_worker_def r)
  then show ?case using 5 r
    by (cases "th_i t < cols") (auto simp: multiplication_mem_def thread_matrix_vector_mult_def row_sum_simps nth_list_update)
qed

section \<open>The whole computation\<close>

definition fresh_arrays :: "nat \<Rightarrow> nat \<Rightarrow> u64 list list \<Rightarrow> u64 list \<Rightarrow> arrays \<Rightarrow> bool" where
  "fresh_arrays rows cols matrix vector m \<longleftrightarrow>
     m_matrix m = matrix \<and> m_vector m = vector \<and> length matrix = rows \<and> (\<forall>row\<in>set matrix. length row = cols)
     \<and> length vector = cols \<and> length (m_results m) = rows \<and> length (m_out m) = rows"

definition all_digits :: "u64 list \<Rightarrow> u64 list" where
  "all_digits xs = map (\<lambda>x. x mod 10) xs"

lemma card_reduction_tasks: "card (reduction_tasks rows) \<le> rows + 1"
proof -
  have "card (ReduceRow ` {..<rows}) \<le> rows" using card_image_le [of "{..<rows}" ReduceRow] by simp
  then show ?thesis unfolding reduction_tasks_def by (simp add: card_insert_if)
qed

lemma reduction_start:
  assumes "fresh_arrays rows cols matrix vector m0"
  shows "reduction_mem cols rows m0 m0 Map.empty {}"
  using assms by (auto simp: fresh_arrays_def reduction_mem_def)

lemma reduction_result:
  assumes m0: "fresh_arrays rows cols matrix vector m0" and bs: "batch_rows bs = [0..<rows]"
    and run: "threads_run cols k (m0, Map.empty, reduction_commands bs) (m, ts, [])"
  shows "fresh_arrays rows cols (map all_digits matrix) (all_digits vector) m"
proof -
  have mem: "reduction_mem cols rows m0 m ts {}" and fin: "\<forall>j\<in>reduction_tasks rows. \<exists>t. ts j = Some t \<and> th_done t"
    using reduction.phase_complete(3) [OF reduction_ordered [OF bs] reduction_start [OF m0] run] by auto
  have all: "progress (ts j) = cols" if "j \<in> reduction_tasks rows" for j
  proof -
    obtain t where "ts j = Some t" "th_done t" using fin \<open>j \<in> reduction_tasks rows\<close> by blast
    then show ?thesis using mem by (auto simp: reduction_mem_def)
  qed
  have "m_matrix m ! r = all_digits (matrix ! r)" if "r < rows" for r
    using mem m0 all [of "ReduceRow r"] that reduced_all [of "matrix ! r"]
    by (simp add: reduction_mem_def fresh_arrays_def reduction_tasks_def all_digits_def)
  then have "m_matrix m = map all_digits matrix"
    using mem m0 by (intro nth_equalityI) (auto simp: reduction_mem_def fresh_arrays_def)
  moreover have "m_vector m = all_digits vector"
    using mem m0 all [of ReduceVector] reduced_all [of vector]
    by (simp add: reduction_mem_def fresh_arrays_def reduction_tasks_def all_digits_def)
  ultimately show ?thesis using mem m0 by (auto simp: fresh_arrays_def reduction_mem_def all_digits_def)
qed

lemma multiplication_start:
  assumes "fresh_arrays rows cols matrix vector m0"
  shows "multiplication_mem cols rows m0 m0 Map.empty {}"
  using assms by (auto simp: fresh_arrays_def multiplication_mem_def)

lemma multiplication_result:
  assumes m0: "fresh_arrays rows cols matrix vector m0" and bs: "batch_rows bs = [0..<rows]"
    and run: "threads_run cols k (m0, Map.empty, multiplication_commands bs) (m, ts, [])"
  shows "m_out m = single_threaded_matrix_multiplication matrix vector rows cols"
proof -
  have mem: "multiplication_mem cols rows m0 m ts {..<rows}"
    using multiplication.phase_complete(3) [OF multiplication_ordered [OF bs] multiplication_start [OF m0] run] by auto
  then show ?thesis
    using m0 by (intro nth_equalityI) (auto simp: multiplication_mem_def single_threaded_matrix_multiplication_def fresh_arrays_def)
qed

text \<open>The files, when no call fails and no write is short.\<close>

lemma fputs_matrix_writes:
  assumes "h_plan h = []" and "fd \<in> h_open h"
  shows "\<exists>h'. fputs_matrix fd rows h = Ret h' \<and> h_out h' = (h_out h)(fd := h_out h fd @ concat (map row_text rows))"
  using assms
proof (induction rows arbitrary: h)
  case Nil
  then show ?case by (simp add: host_close_def host_next_def Let_def)
next
  case (Cons row rows)
  let ?h = "h\<lparr>h_out := (h_out h)(fd := h_out h fd @ row_text row)\<rparr>"
  have w: "host_write fd (row_text row) h = (int (length (row_text row)), ?h)"
    using Cons.prems by (simp add: host_write_def host_next_def write_limit_def Let_def)
  have "h_plan ?h = []" "fd \<in> h_open ?h" using Cons.prems by simp_all
  from Cons.IH [OF this] obtain h' where
    "fputs_matrix fd rows ?h = Ret h'" "h_out h' = (h_out ?h)(fd := h_out ?h fd @ concat (map row_text rows))" by blast
  then show ?case by (intro exI [of _ h'] conjI) (simp_all add: w)
qed

end
