(* ===== verification/Week12_Chat.thy ===== *)
theory Week12_Chat
  imports Pa3_Wire
begin

text \<open>
  \<^verbatim>\<open>week12/w12_server.c\<close>: a chat server around \<^verbatim>\<open>poll\<close>, over the hosts of \<open>Pa3_Common\<close>. The array of poll entries has
  a fixed length and \<open>ch_nfds\<close> of its entries are in use; a write behind its end is \<open>Undefined\<close>. Reads of the
  host never fail with \<^verbatim>\<open>ECONNRESET\<close>, so the test for it is not modelled.
\<close>

section \<open>The state\<close>

definition N_CONNECTIONS :: nat where "N_CONNECTIONS = 10000"

definition EXIT_CODE_WRITE_FAILURE :: int where "EXIT_CODE_WRITE_FAILURE = 3"
definition EXIT_CODE_READ_FAILURE :: int where "EXIT_CODE_READ_FAILURE = 4"
definition EXIT_CODE_ACCEPT_FAILURE :: int where "EXIT_CODE_ACCEPT_FAILURE = 7"

text \<open>A message is the enumeration in four bytes, a text of 512 bytes and a name of 20 bytes.\<close>

definition MESSAGE_BYTES :: nat where "MESSAGE_BYTES = 536"

definition NEW_USER :: u32 where "NEW_USER = 0"
definition USER_LEFT :: u32 where "USER_LEFT = 1"
definition USER_MESSAGE :: u32 where "USER_MESSAGE = 2"

record chat_pollfd =
  pf_fd :: int
  pf_in :: bool

record chat =
  ch_host :: host
  ch_listen :: int
  ch_fds :: "chat_pollfd list"
  ch_nfds :: nat
  ch_clients :: nat
  ch_printed :: "byte list list"

definition no_chat_pollfd :: chat_pollfd where
  "no_chat_pollfd = \<lparr>pf_fd = -1, pf_in = False\<rparr>"

definition active_users :: "nat \<Rightarrow> byte list" where
  "active_users n = show_nat n @ bytes_of '' active user'' @ (if n = 1 then [] else bytes_of ''s'') @ bytes_of ''.''"

text \<open>\<^verbatim>\<open>accept\<close> returns the lowest descriptor that is free.\<close>

definition host_lowest_free :: "int set \<Rightarrow> int" where
  "host_lowest_free fds = int (the (find (\<lambda>n. int n \<notin> fds) [0..<card fds + 1]))"

definition host_accept :: "host \<Rightarrow> int \<times> host" where
  "host_accept h =
     (case host_next h of (x, h) \<Rightarrow>
      if x = Eintr then (-1, h\<lparr>h_errno := EINTR\<rparr>)
      else if x = Fail then (-1, h\<lparr>h_errno := EIO\<rparr>)
      else let fd = host_lowest_free (h_open h) in (fd, h\<lparr>h_open := insert fd (h_open h)\<rparr>))"

section \<open>Handlers\<close>

definition handle_new_connection :: "chat \<Rightarrow> chat run" where
  "handle_new_connection s =
     (case host_accept (ch_host s) of (conn_fd, h) \<Rightarrow>
      if conn_fd < 0 then Exit EXIT_CODE_ACCEPT_FAILURE
      else if length (ch_fds s) \<le> ch_nfds s then Undefined
      else Ret (s\<lparr>ch_host := h, ch_fds := (ch_fds s)[ch_nfds s := \<lparr>pf_fd = conn_fd, pf_in = False\<rparr>], ch_nfds := ch_nfds s + 1\<rparr>))"

definition handle_disconnection :: "nat \<Rightarrow> byte list \<Rightarrow> chat \<Rightarrow> chat" where
  "handle_disconnection i username s =
     (let h = snd (host_close (pf_fd (ch_fds s ! i)) (ch_host s));
          n = ch_nfds s;
          fds = foldl (\<lambda>fds j. fds[j := fds ! (j + 1)]) (ch_fds s) [i..<n - 1];
          fds = (if n \<noteq> 0 then fds[n - 1 := no_chat_pollfd] else fds);
          clients = (if ch_clients s \<noteq> 0 then ch_clients s - 1 else 0)
      in s\<lparr>ch_host := h, ch_fds := fds, ch_nfds := n - 1, ch_clients := clients,
           ch_printed := ch_printed s @ [username @ bytes_of '' has left the chat. '' @ active_users clients]\<rparr>)"

text \<open>The loop over the poll entries \<open>i\<close>, ...; only a negative result of \<^verbatim>\<open>write\<close> is an error.\<close>

fun broadcast_from :: "byte list \<Rightarrow> nat \<Rightarrow> nat \<Rightarrow> chat_pollfd list \<Rightarrow> host \<Rightarrow> host run" where
  "broadcast_from msg sender_index i [] h = Ret h"
| "broadcast_from msg sender_index i (f # fs) h =
     (if i = sender_index then broadcast_from msg sender_index (i + 1) fs h
      else (case host_write (pf_fd f) msg h of (r, h) \<Rightarrow>
        if r < 0 then Exit EXIT_CODE_WRITE_FAILURE else broadcast_from msg sender_index (i + 1) fs h))"

definition broadcast_message :: "byte list \<Rightarrow> nat \<Rightarrow> chat \<Rightarrow> chat run" where
  "broadcast_message msg sender_index s =
     bind_run (broadcast_from msg sender_index 1 (take (ch_nfds s - 1) (drop 1 (ch_fds s))) (ch_host s))
       (\<lambda>h. Ret (s\<lparr>ch_host := h\<rparr>))"

definition msg_type :: "byte list \<Rightarrow> u32" where
  "msg_type msg = dec_u32 (take 4 msg)"

definition msg_text :: "byte list \<Rightarrow> byte list" where
  "msg_text msg = cstr (take 512 (drop 4 msg))"

text \<open>A name that fills its field has no terminator: printing it reads behind the message.\<close>

definition msg_username :: "byte list \<Rightarrow> byte list option" where
  "msg_username msg = (if 0 \<in> set (drop 516 msg) then Some (cstr (drop 516 msg)) else None)"

text \<open>The switch over the type of a message, after it has been sent on.\<close>

definition handle_message :: "nat \<Rightarrow> byte list \<Rightarrow> byte list \<Rightarrow> chat \<Rightarrow> chat" where
  "handle_message i msg username s =
     (if msg_type msg = NEW_USER then
        s\<lparr>ch_clients := ch_clients s + 1,
          ch_printed := ch_printed s @ [username @ bytes_of '' has joined the chat. '' @ active_users (ch_clients s + 1)]\<rparr>
      else if msg_type msg = USER_LEFT then handle_disconnection i username s
      else s\<lparr>ch_printed := ch_printed s @
             [bytes_of ''got '' @ show_nat (length (msg_text msg)) @ bytes_of '' bytes from '' @ username @ bytes_of ''.'']\<rparr>)"

definition handle_client_data :: "nat \<Rightarrow> chat \<Rightarrow> chat run" where
  "handle_client_data i s =
     (case host_read (pf_fd (ch_fds s ! i)) MESSAGE_BYTES (ch_host s) of (n, bs, h) \<Rightarrow>
      let s = s\<lparr>ch_host := h\<rparr>; msg = bs @ replicate (MESSAGE_BYTES - length bs) 0 in
      if 0 < n then
        (if msg_type msg \<noteq> NEW_USER \<and> msg_type msg \<noteq> USER_MESSAGE \<and> msg_type msg \<noteq> USER_LEFT then Ret s
         else bind_run (broadcast_message msg i s) (\<lambda>s.
           (case msg_username msg of None \<Rightarrow> Undefined | Some username \<Rightarrow> Ret (handle_message i msg username s))))
      else if n = 0 then Ret (handle_disconnection i (bytes_of ''An unknown user'') s)
      else Exit EXIT_CODE_READ_FAILURE)"

lemma foldl_shift_length [simp]: "length (foldl (\<lambda>fds j. fds[j := fds ! Suc j]) fds js) = length fds"
  by (induction js arbitrary: fds) simp_all

lemma handlers_keep_length:
  "handle_new_connection s = Ret s' \<Longrightarrow> length (ch_fds s') = length (ch_fds s)"
  "length (ch_fds (handle_disconnection i name s)) = length (ch_fds s)"
  "handle_client_data i s = Ret s' \<Longrightarrow> length (ch_fds s') = length (ch_fds s)"
proof -
  show disconnect: "length (ch_fds (handle_disconnection i name s)) = length (ch_fds s)" for i name s
    by (simp add: handle_disconnection_def Let_def)
  show "handle_new_connection s = Ret s' \<Longrightarrow> length (ch_fds s') = length (ch_fds s)"
    by (auto simp: handle_new_connection_def split: prod.splits if_splits)
  have switch: "length (ch_fds (handle_message i msg name t)) = length (ch_fds t)" for msg name t
    by (simp add: handle_message_def disconnect)
  have cast: "length (ch_fds t') = length (ch_fds t)" if "broadcast_message msg i t = Ret t'" for msg t t'
    using that by (auto simp: broadcast_message_def bind_run_Ret)
  assume r: "handle_client_data i s = Ret s'"
  obtain n bs h where "host_read (pf_fd (ch_fds s ! i)) MESSAGE_BYTES (ch_host s) = (n, bs, h)" using prod_cases3 by blast
  then show "length (ch_fds s') = length (ch_fds s)"
    using r disconnect [of i _ "s\<lparr>ch_host := h\<rparr>"] cast [of _ "s\<lparr>ch_host := h\<rparr>"]
    by (auto simp: handle_client_data_def bind_run_Ret Let_def switch split: if_splits option.splits)
qed

text \<open>The loop of \<open>main\<close> over the poll entries after \<^verbatim>\<open>poll\<close> has set the events.\<close>

function poll_entries :: "nat \<Rightarrow> chat \<Rightarrow> chat run" where
  "poll_entries i s =
     (if i < ch_nfds s then
        (if length (ch_fds s) \<le> i then Undefined
         else if pf_in (ch_fds s ! i) then
           (case (if pf_fd (ch_fds s ! i) = ch_listen s then handle_new_connection s else handle_client_data i s) of
              Ret s' \<Rightarrow> poll_entries (i + 1) s'
            | Exit code \<Rightarrow> Exit code
            | Undefined \<Rightarrow> Undefined)
         else poll_entries (i + 1) s)
      else Ret s)"
  by pat_completeness auto
termination
proof (relation "measure (\<lambda>(i, s). length (ch_fds s) - i)", goal_cases)
  case (2 i s s')
  then have "length (ch_fds s') = length (ch_fds s)"
    using handlers_keep_length by (auto split: if_splits)
  then show ?case using 2 by simp
qed auto

declare poll_entries.simps [simp del]

text \<open>What \<^verbatim>\<open>poll\<close> reports about the entries in use, and one round of the loop.\<close>

definition with_events :: "bool list \<Rightarrow> chat \<Rightarrow> chat" where
  "with_events evs s = s\<lparr>ch_fds := map2 (\<lambda>f e. f\<lparr>pf_in := e\<rparr>) (ch_fds s) (take (ch_nfds s) evs @ replicate (length (ch_fds s)) False)\<rparr>"

definition poll_round :: "bool list \<Rightarrow> chat \<Rightarrow> chat run" where
  "poll_round evs s = poll_entries 0 (with_events evs s)"

section \<open>The poll entries\<close>

text \<open>
  The entries in use are the listening socket and distinct open connections, and they are inside the array.
\<close>

definition polled :: "chat \<Rightarrow> int list" where
  "polled s = map pf_fd (take (ch_nfds s) (ch_fds s))"

definition chat_ok :: "chat \<Rightarrow> bool" where
  "chat_ok s \<longleftrightarrow> 1 \<le> ch_nfds s \<and> ch_nfds s \<le> length (ch_fds s) \<and> length (ch_fds s) = N_CONNECTIONS
     \<and> finite (h_open (ch_host s)) \<and> distinct (polled s) \<and> set (polled s) \<subseteq> h_open (ch_host s) \<and> hd (polled s) = ch_listen s"

lemma host_lowest_free: 
  assumes "finite fds"
  shows "host_lowest_free fds \<notin> fds" "0 \<le> host_lowest_free fds"
proof -
  have "\<exists>n\<in>{..<card fds + 1}. int n \<notin> fds"
  proof (rule ccontr)
    assume "\<not> ?thesis"
    then have "int ` {..<card fds + 1} \<subseteq> fds" by auto
    then have "card (int ` {..<card fds + 1}) \<le> card fds" using assms by (rule card_mono [rotated])
    then show False by (simp add: card_image)
  qed
  then have "find (\<lambda>n. int n \<notin> fds) [0..<card fds + 1] \<noteq> None" by (auto simp: find_None_iff simp del: upt_Suc)
  then obtain n where f: "find (\<lambda>n. int n \<notin> fds) [0..<card fds + 1] = Some n" by blast
  have "host_lowest_free fds = int n" unfolding host_lowest_free_def f by simp
  moreover have "int n \<notin> fds" using f by (auto simp: find_Some_iff simp del: upt_Suc)
  ultimately show "host_lowest_free fds \<notin> fds" "0 \<le> host_lowest_free fds" by simp_all
qed

lemma host_accept_fresh:
  assumes "host_accept h = (fd, h')" and "0 \<le> fd" and "finite (h_open h)"
  shows "fd \<notin> h_open h \<and> h_open h' = insert fd (h_open h)"
proof -
  obtain x h1 where x: "host_next h = (x, h1)" by force
  have "h_open h1 = h_open h" using host_next_sound [OF x] by simp
  moreover have "fd = host_lowest_free (h_open h1)" "h' = h1\<lparr>h_open := insert fd (h_open h1)\<rparr>"
    using assms(1,2) by (auto simp: host_accept_def x Let_def split: if_splits)
  ultimately show ?thesis using host_lowest_free [OF assms(3)] by simp
qed

lemma host_close_open: "host_close fd h = (r, h') \<Longrightarrow> h_open h' = h_open h - {fd}"
proof -
  assume c: "host_close fd h = (r, h')"
  obtain x h1 where x: "host_next h = (x, h1)" by force
  have "h_open h1 = h_open h" using host_next_sound [OF x] by simp
  moreover have "h' = h1\<lparr>h_errno := EBADF\<rparr> \<and> fd \<notin> h_open h1 \<or> h' = h1\<lparr>h_open := h_open h1 - {fd}\<rparr>
      \<or> h' = h1\<lparr>h_open := h_open h1 - {fd}, h_errno := EIO\<rparr>"
    using c by (auto simp: host_close_def x Let_def split: if_splits)
  ultimately show ?thesis by (elim disjE conjE) simp_all
qed

lemma new_connection_ok:
  assumes "chat_ok s" and "handle_new_connection s = Ret s'"
  shows "chat_ok s'"
proof -
  obtain fd h where a: "host_accept (ch_host s) = (fd, h)" by force
  have r: "0 \<le> fd" "ch_nfds s < length (ch_fds s)"
    "s' = s\<lparr>ch_host := h, ch_fds := (ch_fds s)[ch_nfds s := \<lparr>pf_fd = fd, pf_in = False\<rparr>], ch_nfds := ch_nfds s + 1\<rparr>"
    using assms(2) by (simp_all add: handle_new_connection_def a split: if_splits)
  have f: "fd \<notin> h_open (ch_host s)" "h_open h = insert fd (h_open (ch_host s))"
    using host_accept_fresh [OF a r(1)] assms(1) by (simp_all add: chat_ok_def)
  have "polled s' = polled s @ [fd]" using r(2) by (simp add: polled_def r(3) take_Suc_conv_app_nth)
  moreover have "polled s \<noteq> []" using assms(1) r(2) by (auto simp: polled_def chat_ok_def)
  ultimately show ?thesis using assms(1) f r(2) by (auto simp: chat_ok_def r(3))
qed

text \<open>The shifting loop removes one entry.\<close>

lemma foldl_shift:
  "i < n \<Longrightarrow> n \<le> length fds \<Longrightarrow>
   take (n - 1) (foldl (\<lambda>fds j. fds[j := fds ! (j + 1)]) fds [i..<n - 1]) = take i fds @ take (n - Suc i) (drop (Suc i) fds)"
proof (induction "n - 1 - i" arbitrary: i fds)
  case 0
  then have "i = n - 1" by simp
  then show ?case using 0 by simp
next
  case (Suc k)
  have "[i..<n - 1] = i # [Suc i..<n - 1]" using Suc.hyps(2) by (simp add: upt_conv_Cons)
  then have "take (n - 1) (foldl (\<lambda>fds j. fds[j := fds ! (j + 1)]) fds [i..<n - 1])
      = take (Suc i) (fds[i := fds ! (i + 1)]) @ take (n - Suc (Suc i)) (drop (Suc (Suc i)) (fds[i := fds ! (i + 1)]))"
    using Suc.hyps(1) [of "Suc i" "fds[i := fds ! (i + 1)]"] Suc.hyps(2) Suc.prems by simp
  also have "\<dots> = take i fds @ fds ! (i + 1) # take (n - Suc (Suc i)) (drop (Suc (Suc i)) fds)"
    using Suc.hyps(2) Suc.prems by (simp add: take_Suc_conv_app_nth)
  also have "fds ! (i + 1) # take (n - Suc (Suc i)) (drop (Suc (Suc i)) fds) = take (n - Suc i) (drop (Suc i) fds)"
    using Suc.hyps(2) Suc.prems by (simp add: take_Cons' flip: Cons_nth_drop_Suc)
  finally show ?case by simp
qed

lemma disconnection_ok:
  assumes "chat_ok s" and "0 < i" and "i < ch_nfds s"
  shows "chat_ok (handle_disconnection i name s)"
    and "polled (handle_disconnection i name s) = take i (polled s) @ drop (Suc i) (polled s)"
proof -
  let ?n = "ch_nfds s" and ?fd = "pf_fd (ch_fds s ! i)"
  obtain r h where cl: "host_close ?fd (ch_host s) = (r, h)" by force
  have n: "?n \<le> length (ch_fds s)" using assms(1) by (simp add: chat_ok_def)
  have at_i: "polled s ! i = ?fd" "length (polled s) = ?n" using assms(3) n by (simp_all add: polled_def)
  show removed: "polled (handle_disconnection i name s) = take i (polled s) @ drop (Suc i) (polled s)"
    using foldl_shift [OF assms(3) n] assms(3)
    by (simp add: handle_disconnection_def polled_def Let_def take_map drop_map drop_take flip: map_append)
  have split: "polled s = take i (polled s) @ ?fd # drop (Suc i) (polled s)" using at_i assms(3) by (metis id_take_nth_drop)
  have "distinct (take i (polled s) @ ?fd # drop (Suc i) (polled s))" using assms(1) split by (metis chat_ok_def)
  then have "distinct (take i (polled s) @ drop (Suc i) (polled s))" "?fd \<notin> set (take i (polled s) @ drop (Suc i) (polled s))" by auto
  moreover have "set (take i (polled s) @ drop (Suc i) (polled s)) \<subseteq> h_open h"
  proof
    fix x assume x: "x \<in> set (take i (polled s) @ drop (Suc i) (polled s))"
    then have "x \<in> h_open (ch_host s)" using assms(1) by (auto simp: chat_ok_def dest: in_set_takeD in_set_dropD)
    moreover have "x \<noteq> ?fd" using x calculation \<open>?fd \<notin> _\<close> by blast
    ultimately show "x \<in> h_open h" using host_close_open [OF cl] by simp
  qed
  moreover have "hd (take i (polled s) @ drop (Suc i) (polled s)) = ch_listen s"
    using assms(1,2) at_i(2) by (cases "polled s") (auto simp: chat_ok_def take_Cons')
  moreover have "finite (h_open h)" using host_close_open [OF cl] assms(1) by (simp add: chat_ok_def)
  moreover have "ch_nfds (handle_disconnection i name s) = ?n - 1" "ch_host (handle_disconnection i name s) = h"
    "ch_listen (handle_disconnection i name s) = ch_listen s"
    by (simp_all add: handle_disconnection_def Let_def cl)
  moreover have "1 \<le> ?n - 1" "?n - 1 \<le> length (ch_fds s)" using assms(2,3) n by linarith+
  ultimately show "chat_ok (handle_disconnection i name s)"
    using assms handlers_keep_length(2) [of i name s] unfolding chat_ok_def removed by simp
qed

lemma broadcast_keeps:
  "broadcast_from msg k i fs h = Ret h' \<Longrightarrow> h_open h' = h_open h"
proof (induction msg k i fs h rule: broadcast_from.induct)
  case (2 msg k i f fs h)
  obtain r h1 where w: "host_write (pf_fd f) msg h = (r, h1)" by force
  have "h_open h1 = h_open h"
    using w by (auto simp: host_write_def host_next_def Let_def split: list.splits if_splits)
  then show ?case using 2 w by (auto split: if_splits)
qed simp

lemma chat_ok_fields [simp]:
  "chat_ok (s\<lparr>ch_clients := c\<rparr>) = chat_ok s" "chat_ok (s\<lparr>ch_printed := p\<rparr>) = chat_ok s"
  "h_open h = h_open (ch_host s) \<Longrightarrow> chat_ok (s\<lparr>ch_host := h\<rparr>) = chat_ok s"
  by (simp_all add: chat_ok_def polled_def)

lemma client_data_ok:
  assumes "chat_ok s" and "0 < i" and "i < ch_nfds s" and "handle_client_data i s = Ret s'"
  shows "chat_ok s'"
proof -
  obtain n bs h where r: "host_read (pf_fd (ch_fds s ! i)) MESSAGE_BYTES (ch_host s) = (n, bs, h)" using prod_cases3 by blast
  have h: "h_open h = h_open (ch_host s)"
    using r by (auto simp: host_read_def host_next_def Let_def split: list.splits if_splits)
  have gone: "chat_ok (handle_disconnection i name (s\<lparr>ch_host := g\<rparr>))" if "h_open g = h_open (ch_host s)" for name g
    using disconnection_ok(1) [of "s\<lparr>ch_host := g\<rparr>"] assms(1-3) that by simp
  define msg where "msg = bs @ replicate (MESSAGE_BYTES - length bs) 0"
  have switch: "chat_ok (handle_message i msg name (s\<lparr>ch_host := g\<rparr>))" if "h_open g = h_open (ch_host s)" for name g
    using gone [OF that] assms(1) that by (simp add: handle_message_def)
  have cast: "\<exists>g. s1 = s\<lparr>ch_host := g\<rparr> \<and> h_open g = h_open (ch_host s)" if "broadcast_message msg i (s\<lparr>ch_host := h\<rparr>) = Ret s1" for s1
    using that h by (auto simp: broadcast_message_def bind_run_Ret dest: broadcast_keeps)
  consider "s' = s\<lparr>ch_host := h\<rparr>" | name where "s' = handle_disconnection i name (s\<lparr>ch_host := h\<rparr>)"
    | s1 name where "broadcast_message msg i (s\<lparr>ch_host := h\<rparr>) = Ret s1" "s' = handle_message i msg name s1"
    using assms(4) by (auto simp: handle_client_data_def r Let_def bind_run_Ret simp flip: msg_def split: if_splits option.splits)
  then show ?thesis using assms(1) h gone switch cast by cases auto
qed

lemma poll_entries_ok: "poll_entries i s = Ret s' \<Longrightarrow> chat_ok s \<Longrightarrow> chat_ok s'"
proof (induction i s rule: poll_entries.induct)
  case (1 i s)
  let ?step = "if pf_fd (ch_fds s ! i) = ch_listen s then handle_new_connection s else handle_client_data i s"
  have "chat_ok s1" if "i < ch_nfds s" "?step = Ret s1" for s1
  proof (cases "pf_fd (ch_fds s ! i) = ch_listen s")
    case True
    then show ?thesis using that new_connection_ok [OF "1.prems"(2)] by simp
  next
    case False
    have "hd (polled s) = pf_fd (ch_fds s ! 0)" using "1.prems"(2) by (cases "ch_fds s") (auto simp: polled_def chat_ok_def take_Cons')
    then have "0 < i" using False "1.prems"(2) by (cases i) (auto simp: chat_ok_def)
    then show ?thesis using that False client_data_ok [OF "1.prems"(2)] by simp
  qed
  then show ?case using 1 by (auto simp: poll_entries.simps [of i s] split: if_splits run.splits)
qed

lemma with_events_ok: "chat_ok s \<Longrightarrow> chat_ok (with_events evs s)"
proof -
  assume ok: "chat_ok s"
  let ?evs = "take (ch_nfds s) evs @ replicate (length (ch_fds s)) False"
  have len: "length (map2 (\<lambda>f e. f\<lparr>pf_in := e\<rparr>) (ch_fds s) ?evs) = length (ch_fds s)" by simp
  have "polled (with_events evs s) = polled s"
  proof (rule nth_equalityI)
    fix i assume "i < length (polled (with_events evs s))"
    then have "i < ch_nfds s" "i < length (ch_fds s)" by (simp_all add: polled_def with_events_def)
    then show "polled (with_events evs s) ! i = polled s ! i" by (simp add: polled_def with_events_def)
  qed (simp add: polled_def with_events_def)
  then show ?thesis using ok len by (simp add: chat_ok_def with_events_def)
qed

lemma poll_round_ok: "poll_round evs s = Ret s' \<Longrightarrow> chat_ok s \<Longrightarrow> chat_ok s'"
  unfolding poll_round_def using poll_entries_ok with_events_ok by blast

text \<open>When no call fails or is shortened, a message reaches every client but its sender.\<close>

lemma broadcast_delivers:
  assumes "h_plan h = []" and "set (map pf_fd fs) \<subseteq> h_open h" and "distinct (map pf_fd fs)"
  shows "\<exists>h'. broadcast_from msg k i fs h = Ret h' \<and> h_plan h' = [] \<and>
    (\<forall>j<length fs. h_out h' (pf_fd (fs ! j)) = h_out h (pf_fd (fs ! j)) @ (if i + j = k then [] else msg))
    \<and> (\<forall>fd. fd \<notin> pf_fd ` set fs \<longrightarrow> h_out h' fd = h_out h fd)"
  using assms
proof (induction fs arbitrary: i h)
  case (Cons f fs)
  let ?h = "if i = k then h else h\<lparr>h_out := (h_out h)(pf_fd f := h_out h (pf_fd f) @ msg)\<rparr>"
  have step: "broadcast_from msg k i (f # fs) h = broadcast_from msg k (i + 1) fs ?h"
    using Cons.prems by (auto simp: host_write_def host_next_def write_limit_def Let_def)
  have "h_plan ?h = []" "set (map pf_fd fs) \<subseteq> h_open ?h" "distinct (map pf_fd fs)" using Cons.prems by simp_all
  from Cons.IH [OF this, of "i + 1"] obtain h' where h': "broadcast_from msg k (i + 1) fs ?h = Ret h'" "h_plan h' = []"
    "\<And>j. j < length fs \<Longrightarrow> h_out h' (pf_fd (fs ! j)) = h_out ?h (pf_fd (fs ! j)) @ (if i + 1 + j = k then [] else msg)"
    "\<And>fd. fd \<notin> pf_fd ` set fs \<Longrightarrow> h_out h' fd = h_out ?h fd" by blast
  have other: "pf_fd (fs ! j) \<noteq> pf_fd f" if "j < length fs" for j using Cons.prems(3) that by (metis distinct.simps(2) length_map list.simps(9) nth_map nth_mem)
  have "h_out h' (pf_fd ((f # fs) ! j)) = h_out h (pf_fd ((f # fs) ! j)) @ (if i + j = k then [] else msg)"
    if "j < length (f # fs)" for j
  proof (cases j)
    case 0
    have "pf_fd f \<notin> pf_fd ` set fs" using Cons.prems(3) by auto
    then show ?thesis using h'(4) 0 by simp
  next
    case (Suc m)
    then show ?thesis using h'(3) [of m] other [of m] that by simp
  qed
  moreover have "h_out h' fd = h_out h fd" if "fd \<notin> pf_fd ` set (f # fs)" for fd using h'(4) [of fd] that by auto
  ultimately show ?case using h'(1,2) unfolding step by blast
qed simp

text \<open>
  Observations: one more connection than the array has entries is written behind it, and a connection that ends
  before it has joined takes a user from the count.
\<close>

lemma connections_overflow:
  assumes "chat_ok s" and "ch_nfds s = N_CONNECTIONS" and "h_plan (ch_host s) = []"
  shows "handle_new_connection s = Undefined"
  using assms host_lowest_free(2) [of "h_open (ch_host s)"]
  by (simp add: handle_new_connection_def host_accept_def host_next_def Let_def chat_ok_def)

lemma silent_client_counts:
  assumes "h_plan (ch_host s) = []" and "pf_fd (ch_fds s ! i) \<in> h_open (ch_host s)" and "h_in (ch_host s) (pf_fd (ch_fds s ! i)) = []"
  shows "\<exists>s'. handle_client_data i s = Ret s' \<and> ch_clients s' = ch_clients s - 1"
  using assms by (simp add: handle_client_data_def host_read_def host_next_def read_limit_def SSIZE_MAX_def MESSAGE_BYTES_def Let_def handle_disconnection_def)

end
