(* ===== verification/Week13_Queue.thy ===== *)
theory Week13_Queue
  imports Prelude
begin

text \<open>
  \<^verbatim>\<open>week13/w13.c\<close>: a producer and a consumer that share a bounded ring under a mutex and two condition
  variables. A \<^verbatim>\<open>size_t\<close> is a \<open>nat\<close>: the counters stay below the number of iterations and the capacity, which are
  machine words; only the size passed to \<^verbatim>\<open>malloc\<close> can wrap around, and it does so in the model. A cell of the
  ring is \<open>None\<close> until it is written.
\<close>

section \<open>The ring\<close>

datatype role = Producer | Consumer

record queue_t =
  put_index :: nat
  get_index :: nat
  q_length :: nat
  q_capacity :: nat
  total_n_iterations :: nat
  lock_holder :: "role option"
  q_data :: "nat option list"

text \<open>\<^verbatim>\<open>sizeof(queue_t)\<close>: five words, a mutex of 40 bytes and two condition variables of 48 bytes.\<close>

definition QUEUE_HEADER :: nat where "QUEUE_HEADER = 176"

definition queue_bytes :: "nat \<Rightarrow> nat" where
  "queue_bytes n = (QUEUE_HEADER + 8 * n) mod 2 ^ 64"

text \<open>\<open>None\<close> is an exit with a message; \<open>granted\<close> says whether \<^verbatim>\<open>malloc\<close> has memory.\<close>

definition qinit :: "nat \<Rightarrow> nat \<Rightarrow> bool \<Rightarrow> queue_t option" where
  "qinit n cap granted =
     (if cap = 0 \<or> n = 0 \<or> \<not> granted then None
      else Some \<lparr>put_index = 0, get_index = 0, q_length = 0, q_capacity = cap, total_n_iterations = n, lock_holder = None,
             q_data = replicate ((queue_bytes cap - QUEUE_HEADER) div 8) None\<rparr>)"

text \<open>The critical sections; \<open>None\<close> is an access outside the allocated ring, or to a cell that was not written.\<close>

definition put_cell :: "nat \<Rightarrow> queue_t \<Rightarrow> queue_t option" where
  "put_cell d q =
     (if put_index q < length (q_data q)
      then Some (q\<lparr>q_data := (q_data q)[put_index q := Some d], put_index := (put_index q + 1) mod q_capacity q,
                   q_length := q_length q + 1\<rparr>)
      else None)"

definition get_cell :: "queue_t \<Rightarrow> (nat \<times> queue_t) option" where
  "get_cell q =
     do { cell \<leftarrow> at (q_data q) (get_index q);
          d \<leftarrow> cell;
          let q = q\<lparr>get_index := (get_index q + 1) mod q_capacity q, q_length := q_length q - 1\<rparr>;
          Some (d, if q_length q = 0 then q\<lparr>get_index := 0, put_index := 0\<rparr> else q) }"

section \<open>The threads\<close>

text \<open>
  Where a thread is in \<^verbatim>\<open>put_data\<close> or \<^verbatim>\<open>get_data\<close>: before the lock, at the test of the loop, in
  \<^verbatim>\<open>pthread_cond_wait\<close> (asleep, or woken and waiting for the lock), in the critical section, before the signal,
  before the unlock, or after the last iteration.
\<close>

datatype pc = AtLock | AtTest | Sleeping | Woken | AtBody | AtSignal | AtUnlock | Ended

record thread =
  t_pc :: pc
  t_i :: nat

record pair =
  queue :: queue_t
  producer :: thread
  consumer :: thread
  put_log :: "nat list"
  get_log :: "nat list"

text \<open>A thread that is scheduled is blocked, has undefined behaviour, or makes a step.\<close>

datatype scheduled = Blocked | Faulty | Moves pair

definition wake :: "thread \<Rightarrow> thread" where
  "wake t = (if t_pc t = Sleeping then t\<lparr>t_pc := Woken\<rparr> else t)"

definition loop_next :: "nat \<Rightarrow> thread \<Rightarrow> thread" where
  "loop_next n t = t\<lparr>t_i := t_i t + 1, t_pc := if t_i t + 1 < n then AtLock else Ended\<rparr>"

definition put_data :: "pair \<Rightarrow> scheduled" where
  "put_data s =
     (let q = queue s; t = producer s in
      case t_pc t of
        AtLock \<Rightarrow> if lock_holder q = None
          then Moves (s\<lparr>queue := q\<lparr>lock_holder := Some Producer\<rparr>, producer := t\<lparr>t_pc := AtTest\<rparr>\<rparr>) else Blocked
      | AtTest \<Rightarrow> if q_length q = q_capacity q
          then Moves (s\<lparr>queue := q\<lparr>lock_holder := None\<rparr>, producer := t\<lparr>t_pc := Sleeping\<rparr>\<rparr>)
          else Moves (s\<lparr>producer := t\<lparr>t_pc := AtBody\<rparr>\<rparr>)
      | Sleeping \<Rightarrow> Blocked
      | Woken \<Rightarrow> if lock_holder q = None
          then Moves (s\<lparr>queue := q\<lparr>lock_holder := Some Producer\<rparr>, producer := t\<lparr>t_pc := AtTest\<rparr>\<rparr>) else Blocked
      | AtBody \<Rightarrow> (case put_cell (t_i t) q of None \<Rightarrow> Faulty
          | Some q \<Rightarrow> Moves (s\<lparr>queue := q, producer := t\<lparr>t_pc := AtSignal\<rparr>, put_log := put_log s @ [t_i t]\<rparr>))
      | AtSignal \<Rightarrow> Moves (s\<lparr>producer := t\<lparr>t_pc := AtUnlock\<rparr>, consumer := wake (consumer s)\<rparr>)
      | AtUnlock \<Rightarrow> Moves (s\<lparr>queue := q\<lparr>lock_holder := None\<rparr>, producer := loop_next (total_n_iterations q) t\<rparr>)
      | Ended \<Rightarrow> Blocked)"

definition get_data :: "pair \<Rightarrow> scheduled" where
  "get_data s =
     (let q = queue s; t = consumer s in
      case t_pc t of
        AtLock \<Rightarrow> if lock_holder q = None
          then Moves (s\<lparr>queue := q\<lparr>lock_holder := Some Consumer\<rparr>, consumer := t\<lparr>t_pc := AtTest\<rparr>\<rparr>) else Blocked
      | AtTest \<Rightarrow> if q_length q = 0
          then Moves (s\<lparr>queue := q\<lparr>lock_holder := None\<rparr>, consumer := t\<lparr>t_pc := Sleeping\<rparr>\<rparr>)
          else Moves (s\<lparr>consumer := t\<lparr>t_pc := AtBody\<rparr>\<rparr>)
      | Sleeping \<Rightarrow> Blocked
      | Woken \<Rightarrow> if lock_holder q = None
          then Moves (s\<lparr>queue := q\<lparr>lock_holder := Some Consumer\<rparr>, consumer := t\<lparr>t_pc := AtTest\<rparr>\<rparr>) else Blocked
      | AtBody \<Rightarrow> (case get_cell q of None \<Rightarrow> Faulty
          | Some (d, q) \<Rightarrow> Moves (s\<lparr>queue := q, consumer := t\<lparr>t_pc := AtSignal\<rparr>, get_log := get_log s @ [d]\<rparr>))
      | AtSignal \<Rightarrow> Moves (s\<lparr>consumer := t\<lparr>t_pc := AtUnlock\<rparr>, producer := wake (producer s)\<rparr>)
      | AtUnlock \<Rightarrow> Moves (s\<lparr>queue := q\<lparr>lock_holder := None\<rparr>, consumer := loop_next (total_n_iterations q) t\<rparr>)
      | Ended \<Rightarrow> Blocked)"

text \<open>\<^verbatim>\<open>main\<close> starts both threads on the new queue.\<close>

definition both_started :: "queue_t \<Rightarrow> pair" where
  "both_started q = \<lparr>queue = q, producer = \<lparr>t_pc = AtLock, t_i = 0\<rparr>, consumer = \<lparr>t_pc = AtLock, t_i = 0\<rparr>, put_log = [], get_log = []\<rparr>"

inductive pair_step :: "pair \<Rightarrow> pair \<Rightarrow> bool" where
  put: "put_data s = Moves s' \<Longrightarrow> pair_step s s'"
| get: "get_data s = Moves s' \<Longrightarrow> pair_step s s'"

text \<open>POSIX lets a wait on a condition variable end without a signal.\<close>

inductive spurious :: "pair \<Rightarrow> pair \<Rightarrow> bool" where
  put: "spurious s (s\<lparr>producer := wake (producer s)\<rparr>)"
| get: "spurious s (s\<lparr>consumer := wake (consumer s)\<rparr>)"

inductive pair_reachable :: "queue_t \<Rightarrow> pair \<Rightarrow> bool" for q where
  start: "pair_reachable q (both_started q)"
| step: "pair_reachable q s \<Longrightarrow> pair_step s s' \<Longrightarrow> pair_reachable q s'"
| spurious: "pair_reachable q s \<Longrightarrow> spurious s s' \<Longrightarrow> pair_reachable q s'"

inductive pair_run :: "nat \<Rightarrow> pair \<Rightarrow> pair \<Rightarrow> bool" where
  none: "pair_run 0 s s"
| more: "pair_step s s' \<Longrightarrow> pair_run k s' s'' \<Longrightarrow> pair_run (Suc k) s s''"

section \<open>The ring is a queue\<close>

definition queue_items :: "queue_t \<Rightarrow> nat option list" where
  "queue_items q = map (\<lambda>k. q_data q ! ((get_index q + k) mod q_capacity q)) [0..<q_length q]"

definition queue_ok :: "queue_t \<Rightarrow> bool" where
  "queue_ok q \<longleftrightarrow> 0 < q_capacity q \<and> length (q_data q) = q_capacity q \<and> get_index q < q_capacity q
     \<and> q_length q \<le> q_capacity q \<and> put_index q = (get_index q + q_length q) mod q_capacity q"

lemma length_queue_items [simp]: "length (queue_items q) = q_length q"
  by (simp add: queue_items_def)

lemma ring_slots_differ:
  assumes "g < c" and "k < l" and "l < (c::nat)"
  shows "(g + k) mod c \<noteq> (g + l) mod c"
proof
  assume "(g + k) mod c = (g + l) mod c"
  then have "(g + l) mod c = (g + k) mod c" by simp
  then have "c dvd (g + l) - (g + k)" by (rule mod_eq_dvd_iff_nat [THEN iffD1, rotated]) (use assms in simp)
  then show False using assms by (auto dest: dvd_imp_le)
qed

lemma put_cell_queue:
  assumes "queue_ok q" and "q_length q < q_capacity q"
  obtains q' where "put_cell d q = Some q'" and "queue_ok q'" and "queue_items q' = queue_items q @ [Some d]"
    and "q_length q' = q_length q + 1" and "q_capacity q' = q_capacity q"
    and "lock_holder q' = lock_holder q" and "total_n_iterations q' = total_n_iterations q"
proof -
  let ?c = "q_capacity q" and ?g = "get_index q" and ?l = "q_length q"
  let ?q = "q\<lparr>q_data := (q_data q)[put_index q := Some d], put_index := (put_index q + 1) mod ?c, q_length := ?l + 1\<rparr>"
  have p: "put_index q = (?g + ?l) mod ?c" "put_index q < length (q_data q)" using assms by (auto simp: queue_ok_def)
  have "queue_items ?q ! k = (queue_items q @ [Some d]) ! k" if "k < ?l + 1" for k
    using that assms p ring_slots_differ [of ?g ?c k ?l]
    by (cases "k = ?l") (auto simp: queue_items_def nth_append queue_ok_def simp del: upt_Suc)
  then have "queue_items ?q = queue_items q @ [Some d]" by (intro nth_equalityI) auto
  moreover have "queue_ok ?q" using assms p by (auto simp: queue_ok_def mod_simps)
  ultimately show thesis using p(2) by (intro that [of ?q]) (simp_all add: put_cell_def)
qed

lemma get_cell_queue:
  assumes "queue_ok q" and "queue_items q = Some d # rest"
  obtains q' where "get_cell q = Some (d, q')" and "queue_ok q'" and "queue_items q' = rest"
    and "q_length q' = q_length q - 1" and "q_capacity q' = q_capacity q"
    and "lock_holder q' = lock_holder q" and "total_n_iterations q' = total_n_iterations q"
proof -
  let ?c = "q_capacity q" and ?g = "get_index q" and ?l = "q_length q"
  let ?q = "q\<lparr>get_index := (?g + 1) mod ?c, q_length := ?l - 1\<rparr>"
  let ?r = "if q_length ?q = 0 then ?q\<lparr>get_index := 0, put_index := 0\<rparr> else ?q"
  have l: "?l = Suc (length rest)" using arg_cong [OF assms(2), of length] by simp
  have "queue_items q ! 0 = Some d" using assms(2) by simp
  then have d: "q_data q ! ?g = Some d" using assms(1) l by (simp add: queue_items_def queue_ok_def del: upt_Suc)
  have "queue_items ?q ! k = rest ! k" if "k < length rest" for k
  proof -
    have "queue_items q ! Suc k = rest ! k" using assms(2) by simp
    then show ?thesis using that l by (simp add: queue_items_def mod_simps del: upt_Suc)
  qed
  then have items: "queue_items ?q = rest" using l by (intro nth_equalityI) auto
  then have "queue_items ?r = rest" by (auto simp: queue_items_def)
  moreover have "queue_ok ?r" using assms(1) l by (auto simp: queue_ok_def mod_simps)
  moreover have "get_cell q = Some (d, ?r)" using assms(1) d by (simp add: get_cell_def queue_ok_def)
  ultimately show thesis by (intro that [of ?r]) (simp_all add: l)
qed

section \<open>The invariant\<close>

definition in_section :: "pc \<Rightarrow> bool" where
  "in_section p \<longleftrightarrow> p \<in> {AtTest, AtBody, AtSignal, AtUnlock}"

text \<open>The number of items a thread has put or taken: its iteration, and one more after the critical section.\<close>

definition done_by :: "thread \<Rightarrow> nat" where
  "done_by t = t_i t + (if t_pc t = AtSignal \<or> t_pc t = AtUnlock then 1 else 0)"

definition thread_ok :: "nat \<Rightarrow> thread \<Rightarrow> bool" where
  "thread_ok n t \<longleftrightarrow> (if t_pc t = Ended then t_i t = n else t_i t < n)"

text \<open>A thread sleeps only while its condition holds, or while the other is about to signal.\<close>

definition pair_ok :: "nat \<Rightarrow> pair \<Rightarrow> bool" where
  "pair_ok n s \<longleftrightarrow>
     (let q = queue s; p = producer s; c = consumer s in
      queue_ok q \<and> total_n_iterations q = n \<and> thread_ok n p \<and> thread_ok n c
      \<and> done_by c \<le> done_by p \<and> queue_items q = map Some [done_by c..<done_by p]
      \<and> put_log s = [0..<done_by p] \<and> get_log s = [0..<done_by c]
      \<and> (lock_holder q = Some Producer \<longleftrightarrow> in_section (t_pc p)) \<and> (lock_holder q = Some Consumer \<longleftrightarrow> in_section (t_pc c))
      \<and> (t_pc p = AtBody \<longrightarrow> q_length q < q_capacity q) \<and> (t_pc c = AtBody \<longrightarrow> 0 < q_length q)
      \<and> (t_pc p = Sleeping \<longrightarrow> q_length q = q_capacity q \<or> t_pc c = AtSignal)
      \<and> (t_pc c = Sleeping \<longrightarrow> q_length q = 0 \<or> t_pc p = AtSignal))"

lemma in_section_simps [simp]:
  "in_section AtTest" "in_section AtBody" "in_section AtSignal" "in_section AtUnlock"
  "\<not> in_section AtLock" "\<not> in_section Sleeping" "\<not> in_section Woken" "\<not> in_section Ended"
  by (simp_all add: in_section_def)

lemma done_by_simps [simp]:
  "done_by (t\<lparr>t_pc := p\<rparr>) = t_i t + (if p = AtSignal \<or> p = AtUnlock then 1 else 0)"
  "done_by (loop_next n t) = t_i t + 1" "done_by (wake t) = done_by t"
  by (simp_all add: done_by_def loop_next_def wake_def)

lemma thread_ok_simps [simp]:
  "p \<noteq> Ended \<Longrightarrow> thread_ok n (t\<lparr>t_pc := p\<rparr>) \<longleftrightarrow> t_i t < n" "t_i t < n \<Longrightarrow> thread_ok n (loop_next n t)"
  "thread_ok n (wake t) = thread_ok n t"
  by (auto simp: thread_ok_def loop_next_def wake_def)

lemma wake_simps [simp]:
  "t_pc (wake t) \<noteq> Sleeping" "t_i (wake t) = t_i t" "in_section (t_pc (wake t)) = in_section (t_pc t)"
  "t_pc (wake t) = AtBody \<longleftrightarrow> t_pc t = AtBody" "t_pc (wake t) = AtSignal \<longleftrightarrow> t_pc t = AtSignal"
  by (simp_all add: wake_def)

lemma loop_next_simps [simp]:
  "t_i (loop_next n t) = t_i t + 1" "\<not> in_section (t_pc (loop_next n t))"
  "t_pc (loop_next n t) \<noteq> AtBody" "t_pc (loop_next n t) \<noteq> AtSignal" "t_pc (loop_next n t) \<noteq> Sleeping"
  by (simp_all add: loop_next_def)

lemma thread_running: "thread_ok n t \<Longrightarrow> t_pc t \<noteq> Ended \<Longrightarrow> t_i t < n"
  by (simp add: thread_ok_def)

lemmas pair_parts = pair_ok_def Let_def done_by_def [of "producer _"] done_by_def [of "consumer _"]

lemma pair_ok_length:
  assumes "pair_ok n s"
  shows "q_length (queue s) = done_by (producer s) - done_by (consumer s)"
proof -
  have "queue_items (queue s) = map Some [done_by (consumer s)..<done_by (producer s)]"
    using assms by (simp add: pair_ok_def Let_def)
  from arg_cong [OF this, of length] show ?thesis by simp
qed

lemma queue_bytes_fits: "QUEUE_HEADER + 8 * cap < 2 ^ 64 \<Longrightarrow> (queue_bytes cap - QUEUE_HEADER) div 8 = cap"
  by (simp add: queue_bytes_def)

lemma ring_fields [simp]:
  "queue_ok (q\<lparr>lock_holder := h\<rparr>) = queue_ok q" "queue_items (q\<lparr>lock_holder := h\<rparr>) = queue_items q"
  by (simp_all add: queue_ok_def queue_items_def)

lemma pair_ok_start:
  assumes "qinit n cap True = Some q" and "QUEUE_HEADER + 8 * cap < 2 ^ 64"
  shows "pair_ok n (both_started q)"
proof -
  have "0 < cap" "0 < n" using assms(1) by (auto simp: qinit_def split: if_splits)
  moreover have "q = \<lparr>put_index = 0, get_index = 0, q_length = 0, q_capacity = cap, total_n_iterations = n,
      lock_holder = None, q_data = replicate cap None\<rparr>"
    using assms(1) queue_bytes_fits [OF assms(2)] by (simp add: qinit_def split: if_splits)
  ultimately show ?thesis by (simp add: both_started_def pair_parts queue_ok_def queue_items_def done_by_def thread_ok_def)
qed

lemma pair_ok_put:
  assumes "pair_ok n s" and "put_data s = Moves s'"
  shows "pair_ok n s'"
proof (cases "t_pc (producer s)")
  case AtBody
  let ?q = "queue s" and ?p = "producer s" and ?c = "consumer s"
  have "queue_ok ?q" "q_length ?q < q_capacity ?q" using assms(1) AtBody by (simp_all add: pair_ok_def Let_def)
  then obtain q' where q': "put_cell (t_i ?p) ?q = Some q'" "queue_ok q'"
    "queue_items q' = queue_items ?q @ [Some (t_i ?p)]" "q_length q' = q_length ?q + 1" "q_capacity q' = q_capacity ?q"
    "lock_holder q' = lock_holder ?q" "total_n_iterations q' = total_n_iterations ?q"
    by (rule put_cell_queue)
  have s': "s' = s\<lparr>queue := q', producer := ?p\<lparr>t_pc := AtSignal\<rparr>, put_log := put_log s @ [t_i ?p]\<rparr>"
    using assms(2) AtBody q'(1) by (simp add: put_data_def Let_def)
  have "t_pc ?c \<noteq> AtBody" "t_pc ?c \<noteq> AtSignal" "t_pc ?c \<noteq> AtUnlock" "t_pc ?c \<noteq> AtTest"
    using assms(1) AtBody by (auto simp: pair_ok_def in_section_def Let_def)
  then show ?thesis using assms(1) q' AtBody thread_running [of n ?p] unfolding s' by (auto simp: pair_parts)
next
  case AtLock
  then have "s' = (s\<lparr>queue := (queue s)\<lparr>lock_holder := Some Producer\<rparr>, producer := (producer s)\<lparr>t_pc := AtTest\<rparr>\<rparr>)" "lock_holder (queue s) = None"
    using assms(2) by (simp_all add: put_data_def Let_def split: if_splits)
  then show ?thesis using assms(1) AtLock thread_running [of n "producer s"] by (auto simp: pair_parts queue_ok_def)
next
  case Woken
  then have "s' = (s\<lparr>queue := (queue s)\<lparr>lock_holder := Some Producer\<rparr>, producer := (producer s)\<lparr>t_pc := AtTest\<rparr>\<rparr>)" "lock_holder (queue s) = None"
    using assms(2) by (simp_all add: put_data_def Let_def split: if_splits)
  then show ?thesis using assms(1) Woken thread_running [of n "producer s"] by (auto simp: pair_parts queue_ok_def)
next
  case AtTest
  then have "s' = (if q_length (queue s) = q_capacity (queue s) then s\<lparr>queue := (queue s)\<lparr>lock_holder := None\<rparr>, producer := (producer s)\<lparr>t_pc := Sleeping\<rparr>\<rparr>
      else s\<lparr>producer := (producer s)\<lparr>t_pc := AtBody\<rparr>\<rparr>)"
    using assms(2) by (simp add: put_data_def Let_def split: if_splits)
  then show ?thesis using assms(1) AtTest thread_running [of n "producer s"] by (auto simp: pair_parts queue_ok_def)
next
  case AtSignal
  then have "s' = (s\<lparr>producer := (producer s)\<lparr>t_pc := AtUnlock\<rparr>, consumer := wake (consumer s)\<rparr>)"
    using assms(2) by (simp add: put_data_def Let_def split: if_splits)
  then show ?thesis using assms(1) AtSignal thread_running [of n "producer s"] by (auto simp: pair_parts queue_ok_def)
next
  case AtUnlock
  then have "s' = (s\<lparr>queue := (queue s)\<lparr>lock_holder := None\<rparr>,
      producer := loop_next (total_n_iterations (queue s)) (producer s)\<rparr>)"
    using assms(2) by (simp add: put_data_def Let_def split: if_splits)
  then show ?thesis using assms(1) AtUnlock thread_running [of n "producer s"] by (auto simp: pair_parts queue_ok_def)
qed (use assms in \<open>simp_all add: put_data_def Let_def\<close>)

lemma pair_ok_get:
  assumes "pair_ok n s" and "get_data s = Moves s'"
  shows "pair_ok n s'"
proof (cases "t_pc (consumer s)")
  case AtBody
  let ?q = "queue s" and ?p = "producer s" and ?c = "consumer s"
  have l: "0 < q_length ?q" and items: "queue_items ?q = map Some [t_i ?c..<done_by ?p]" and ring: "queue_ok ?q"
    using assms(1) AtBody by (simp_all add: pair_ok_def Let_def done_by_def)
  have "t_i ?c < done_by ?p" using arg_cong [OF items, of length] l by simp
  then have "queue_items ?q = Some (t_i ?c) # map Some [Suc (t_i ?c)..<done_by ?p]" using items by (simp add: upt_conv_Cons)
  from get_cell_queue [OF ring this] obtain q' where q': "get_cell ?q = Some (t_i ?c, q')" "queue_ok q'"
    "queue_items q' = map Some [Suc (t_i ?c)..<done_by ?p]" "q_length q' = q_length ?q - 1" "q_capacity q' = q_capacity ?q"
    "lock_holder q' = lock_holder ?q" "total_n_iterations q' = total_n_iterations ?q" .
  have s': "s' = s\<lparr>queue := q', consumer := ?c\<lparr>t_pc := AtSignal\<rparr>, get_log := get_log s @ [t_i ?c]\<rparr>"
    using assms(2) AtBody q'(1) by (simp add: get_data_def Let_def)
  have "t_pc ?p \<noteq> AtBody" "t_pc ?p \<noteq> AtSignal" "t_pc ?p \<noteq> AtUnlock" "t_pc ?p \<noteq> AtTest"
    using assms(1) AtBody by (auto simp: pair_ok_def in_section_def Let_def)
  then show ?thesis using assms(1) q' AtBody thread_running [of n ?c] \<open>t_i ?c < done_by ?p\<close> unfolding s' by (auto simp: pair_parts)
next
  case AtLock
  then have "s' = (s\<lparr>queue := (queue s)\<lparr>lock_holder := Some Consumer\<rparr>, consumer := (consumer s)\<lparr>t_pc := AtTest\<rparr>\<rparr>)" "lock_holder (queue s) = None"
    using assms(2) by (simp_all add: get_data_def Let_def split: if_splits)
  then show ?thesis using assms(1) AtLock thread_running [of n "consumer s"] by (auto simp: pair_parts queue_ok_def)
next
  case Woken
  then have "s' = (s\<lparr>queue := (queue s)\<lparr>lock_holder := Some Consumer\<rparr>, consumer := (consumer s)\<lparr>t_pc := AtTest\<rparr>\<rparr>)" "lock_holder (queue s) = None"
    using assms(2) by (simp_all add: get_data_def Let_def split: if_splits)
  then show ?thesis using assms(1) Woken thread_running [of n "consumer s"] by (auto simp: pair_parts queue_ok_def)
next
  case AtTest
  then have "s' = (if q_length (queue s) = 0 then s\<lparr>queue := (queue s)\<lparr>lock_holder := None\<rparr>, consumer := (consumer s)\<lparr>t_pc := Sleeping\<rparr>\<rparr>
      else s\<lparr>consumer := (consumer s)\<lparr>t_pc := AtBody\<rparr>\<rparr>)"
    using assms(2) by (simp add: get_data_def Let_def split: if_splits)
  then show ?thesis using assms(1) AtTest thread_running [of n "consumer s"] by (auto simp: pair_parts queue_ok_def)
next
  case AtSignal
  then have "s' = (s\<lparr>consumer := (consumer s)\<lparr>t_pc := AtUnlock\<rparr>, producer := wake (producer s)\<rparr>)"
    using assms(2) by (simp add: get_data_def Let_def split: if_splits)
  then show ?thesis using assms(1) AtSignal thread_running [of n "consumer s"] by (auto simp: pair_parts queue_ok_def)
next
  case AtUnlock
  then have "s' = (s\<lparr>queue := (queue s)\<lparr>lock_holder := None\<rparr>,
      consumer := loop_next (total_n_iterations (queue s)) (consumer s)\<rparr>)"
    using assms(2) by (simp add: get_data_def Let_def split: if_splits)
  then show ?thesis using assms(1) AtUnlock thread_running [of n "consumer s"] by (auto simp: pair_parts queue_ok_def)
qed (use assms in \<open>simp_all add: get_data_def Let_def\<close>)

lemma pair_ok_spurious: "spurious s s' \<Longrightarrow> pair_ok n s \<Longrightarrow> pair_ok n s'"
  by (erule spurious.cases) (auto simp: pair_parts)

lemma pair_ok_step: "pair_step s s' \<Longrightarrow> pair_ok n s \<Longrightarrow> pair_ok n s'"
  by (erule pair_step.cases) (auto intro: pair_ok_put pair_ok_get)

lemma pair_reachable_ok:
  assumes "pair_reachable q s" and "qinit n cap True = Some q" and "QUEUE_HEADER + 8 * cap < 2 ^ 64"
  shows "pair_ok n s"
  using assms by (induction rule: pair_reachable.induct) (auto intro: pair_ok_start pair_ok_step pair_ok_spurious)

lemma capacity_kept:
  assumes "pair_reachable q s"
  shows "q_capacity (queue s) = q_capacity q"
  using assms
proof (induction rule: pair_reachable.induct)
  case (step s s')
  then show ?case
    by (auto simp: put_data_def get_data_def put_cell_def get_cell_def Let_def elim!: pair_step.cases
        split: pc.splits if_splits option.splits bind_splits)
qed (auto simp: both_started_def elim: spurious.cases)

section \<open>No deadlock, and an end\<close>

lemma put_data_not_faulty: "pair_ok n s \<Longrightarrow> put_data s \<noteq> Faulty"
proof
  assume ok: "pair_ok n s" and "put_data s = Faulty"
  then have "t_pc (producer s) = AtBody" "put_cell (t_i (producer s)) (queue s) = None"
    by (auto simp: put_data_def Let_def split: pc.splits if_splits option.splits)
  with ok show False using put_cell_queue [of "queue s" "t_i (producer s)"] by (auto simp: pair_ok_def Let_def)
qed

lemma get_data_not_faulty: "pair_ok n s \<Longrightarrow> get_data s \<noteq> Faulty"
proof
  assume ok: "pair_ok n s" and "get_data s = Faulty"
  then have pc: "t_pc (consumer s) = AtBody" "get_cell (queue s) = None"
    by (auto simp: get_data_def Let_def split: pc.splits if_splits option.splits)
  have "queue_items (queue s) \<noteq> []" using ok pc(1) by (auto simp: pair_ok_def Let_def simp flip: length_0_conv)
  moreover have "queue_ok (queue s)" "queue_items (queue s) = map Some [done_by (consumer s)..<done_by (producer s)]"
    using ok by (simp_all add: pair_ok_def Let_def)
  ultimately show False using get_cell_queue [of "queue s"] pc(2) by (auto simp: upt_conv_Cons map_eq_Cons_conv neq_Nil_conv)
qed

lemma put_data_blocked:
  assumes "pair_ok n s" and "put_data s = Blocked"
  shows "t_pc (producer s) = Sleeping \<or> t_pc (producer s) = Ended \<or> lock_holder (queue s) = Some Consumer"
proof -
  have "(lock_holder (queue s) = Some Producer) = in_section (t_pc (producer s))" using assms(1) by (simp add: pair_ok_def Let_def)
  moreover have "t_pc (producer s) = Sleeping \<or> t_pc (producer s) = Ended
      \<or> lock_holder (queue s) \<noteq> None \<and> \<not> in_section (t_pc (producer s))"
    using assms(2) by (auto simp: put_data_def Let_def in_section_def split: pc.splits if_splits option.splits)
  ultimately show ?thesis by (metis option.exhaust role.exhaust)
qed

lemma get_data_blocked:
  assumes "pair_ok n s" and "get_data s = Blocked"
  shows "t_pc (consumer s) = Sleeping \<or> t_pc (consumer s) = Ended \<or> lock_holder (queue s) = Some Producer"
proof -
  have "(lock_holder (queue s) = Some Consumer) = in_section (t_pc (consumer s))" using assms(1) by (simp add: pair_ok_def Let_def)
  moreover have "t_pc (consumer s) = Sleeping \<or> t_pc (consumer s) = Ended
      \<or> lock_holder (queue s) \<noteq> None \<and> \<not> in_section (t_pc (consumer s))"
    using assms(2) by (auto simp: get_data_def Let_def in_section_def split: pc.splits if_splits option.splits)
  ultimately show ?thesis by (metis option.exhaust role.exhaust)
qed

lemma both_blocked:
  assumes ok: "pair_ok n s" and "put_data s = Blocked" and "get_data s = Blocked"
  shows "t_pc (producer s) = Ended \<and> t_pc (consumer s) = Ended"
proof -
  let ?p = "t_pc (producer s)" and ?c = "t_pc (consumer s)" and ?q = "queue s"
  have "(lock_holder ?q = Some Producer) = in_section ?p" "(lock_holder ?q = Some Consumer) = in_section ?c"
    using ok by (simp_all add: pair_ok_def Let_def)
  then have waits: "?p = Sleeping \<or> ?p = Ended" "?c = Sleeping \<or> ?c = Ended"
    using put_data_blocked [OF assms(1,2)] get_data_blocked [OF assms(1,3)] by auto
  then have i: "done_by (producer s) = t_i (producer s)" "done_by (consumer s) = t_i (consumer s)"
    by (auto simp: done_by_def)
  have l: "q_length ?q = t_i (producer s) - t_i (consumer s)" using pair_ok_length [OF ok] i by simp
  have le: "t_i (consumer s) \<le> t_i (producer s)" "0 < q_capacity ?q" "thread_ok n (producer s)" "thread_ok n (consumer s)"
    "?p = Sleeping \<longrightarrow> q_length ?q = q_capacity ?q" "?c = Sleeping \<longrightarrow> q_length ?q = 0"
    using ok waits i by (auto simp: pair_ok_def Let_def queue_ok_def)
  have n: "t_i (producer s) = n" if "?p = Ended" using le(3) that by (simp add: thread_ok_def)
  have "?p \<noteq> Sleeping"
  proof
    assume "?p = Sleeping"
    then have "q_length ?q = q_capacity ?q" "t_i (producer s) < n" using le by (simp_all add: thread_ok_def)
    moreover from this le have "?c = Ended" using waits by auto
    then have "t_i (consumer s) = n" using le(4) by (simp add: thread_ok_def)
    ultimately show False using le l by simp
  qed
  then have "?p = Ended" using waits by simp
  moreover have "?c \<noteq> Sleeping" using le n l \<open>?p = Ended\<close> by (auto simp: thread_ok_def)
  ultimately show ?thesis using waits by simp
qed

lemma pair_progress:
  assumes "pair_ok n s" and "\<not> (t_pc (producer s) = Ended \<and> t_pc (consumer s) = Ended)"
  shows "\<exists>s'. pair_step s s'"
  using both_blocked [OF assms(1)] put_data_not_faulty [OF assms(1)] get_data_not_faulty [OF assms(1)] assms(2)
  by (metis pair_step.intros scheduled.exhaust)

text \<open>A wait that ends by a signal is paid for by the thread that signals.\<close>

fun pc_rank :: "pc \<Rightarrow> nat" where
  "pc_rank AtLock = 9" | "pc_rank Woken = 9" | "pc_rank AtTest = 8" | "pc_rank AtBody = 7" | "pc_rank AtSignal = 6"
| "pc_rank Sleeping = 5" | "pc_rank AtUnlock = 1" | "pc_rank Ended = 0"

definition steps_left :: "nat \<Rightarrow> pair \<Rightarrow> nat" where
  "steps_left n s = 10 * (n - t_i (producer s)) + pc_rank (t_pc (producer s))
                  + 10 * (n - t_i (consumer s)) + pc_rank (t_pc (consumer s))"

lemma pc_rank_wake: "pc_rank (t_pc (wake t)) \<le> pc_rank (t_pc t) + 4"
  by (simp add: wake_def)

lemma pc_rank_loop_next: "pc_rank (t_pc (loop_next n t)) \<le> 9"
  by (simp add: loop_next_def)

lemma steps_left_put:
  assumes "pair_ok n s" and "put_data s = Moves s'"
  shows "steps_left n s' < steps_left n s"
proof -
  have "t_i (producer s) < n" if "t_pc (producer s) \<noteq> Ended"
    using assms(1) that by (auto simp: pair_ok_def thread_ok_def Let_def)
  then show ?thesis
    using assms(2) pc_rank_wake [of "consumer s"] pc_rank_loop_next [of "total_n_iterations (queue s)" "producer s"]
    by (auto simp: put_data_def Let_def steps_left_def split: pc.splits if_splits option.splits)
qed

lemma steps_left_get:
  assumes "pair_ok n s" and "get_data s = Moves s'"
  shows "steps_left n s' < steps_left n s"
proof -
  have "t_i (consumer s) < n" if "t_pc (consumer s) \<noteq> Ended"
    using assms(1) that by (auto simp: pair_ok_def thread_ok_def Let_def)
  then show ?thesis
    using assms(2) pc_rank_wake [of "producer s"] pc_rank_loop_next [of "total_n_iterations (queue s)" "consumer s"]
    by (auto simp: get_data_def Let_def steps_left_def split: pc.splits if_splits option.splits)
qed

lemma pair_run_bounded:
  assumes "pair_run k s s'" and "pair_ok n s"
  shows "pair_ok n s' \<and> k + steps_left n s' \<le> steps_left n s"
  using assms
proof (induction rule: pair_run.induct)
  case (more s s' k s'')
  have "steps_left n s' < steps_left n s"
    using more.hyps(1) more.prems by cases (auto intro: steps_left_put steps_left_get)
  then show ?case using more.IH pair_ok_step [OF more.hyps(1) more.prems] by linarith
qed simp

end
