(* ===== verification/Week14_Echo.thy ===== *)
theory Week14_Echo
  imports Pa3_Wire
begin

text \<open>
  \<^verbatim>\<open>week14/2021312344-w14.c\<close>: the work of the echo daemon after it has detached itself, over the hosts of
  \<open>Pa3_Common\<close>: the port, the thread that serves a client, and the loop that accepts clients. The flag that
  the signal handler sets is a script of the values that the loops read; it is not set when the script is used up.
\<close>

section \<open>The port\<close>

text \<open>\<^verbatim>\<open>strtoul\<close> has the width of \<open>strtoull\<close>; \<open>None\<close> is an exit with a message.\<close>

definition parse_port :: "byte list list \<Rightarrow> nat option" where
  "parse_port argv =
     (if length argv \<noteq> 2 then None
      else (case strtoull (argv ! 1) of (port, consumed, overflow) \<Rightarrow>
        if overflow \<or> consumed = 0 \<or> consumed \<noteq> length (argv ! 1) \<or> port = 0 \<or> 65535 < unat port then None
        else Some (unat port)))"

section \<open>Serving a client\<close>

text \<open>\<open>write_all\<close> on the bytes from the cursor on; \<open>n\<close> is the size of the whole message.\<close>

function echo_write_rest :: "int \<Rightarrow> byte list \<Rightarrow> nat \<Rightarrow> host \<Rightarrow> int \<times> host" where
  "echo_write_rest fd cursor n h =
     (if cursor \<noteq> [] then
        (case host_write fd cursor h of (written, h') \<Rightarrow>
           if written = -1 then (if h_errno h' = EINTR then echo_write_rest fd cursor n h' else (-1, h'))
           else if written \<le> 0 then (-1, h')
           else echo_write_rest fd (drop (nat written) cursor) n h')
      else (int n, h))"
  by pat_completeness auto
termination
proof (relation "measure (\<lambda>(fd, cursor, n, h). length cursor + length (h_plan h))", goal_cases)
  case (2 fd cursor n h w h')
  then show ?case using host_write_progress(1) [OF 2(2) [symmetric]] by auto
next
  case (3 fd cursor n h w h')
  then have "0 < nat w" "length (h_plan h') \<le> length (h_plan h)"
    using host_write_progress(2) [OF 3(2) [symmetric]] by auto
  moreover have "length cursor - nat w < length cursor" using 3 \<open>0 < nat w\<close> by (intro diff_less) auto
  ultimately show ?case by simp
qed simp

declare echo_write_rest.simps [simp del]

definition echo_write_all :: "int \<Rightarrow> byte list \<Rightarrow> host \<Rightarrow> int \<times> host" where
  "echo_write_all fd bs h = echo_write_rest fd bs (length bs) h"

lemma echo_write_rest_inputs: "echo_write_rest fd bs n h = (r, h') \<Longrightarrow> h_in h' = h_in h \<and> length (h_plan h') \<le> length (h_plan h)"
proof (induction fd bs n h rule: echo_write_rest.induct)
  case (1 fd bs n h)
  obtain w h1 where w: "host_write fd bs h = (w, h1)" by force
  have "h_in h1 = h_in h" "length (h_plan h1) \<le> length (h_plan h)"
    using w by (auto simp: host_write_def host_next_def Let_def split: list.splits if_splits)
  then show ?case using 1 w by (fastforce simp: echo_write_rest.simps [of fd bs n h] split: if_splits)
qed

definition ECHO_BUFFER_SIZE :: nat where "ECHO_BUFFER_SIZE = 4096"

lemma echo_count: "\<not> SSIZE_MAX < ECHO_BUFFER_SIZE"
  by (simp add: SSIZE_MAX_def ECHO_BUFFER_SIZE_def)

text \<open>The loop of \<open>handle_client\<close>: the numbers of bytes that were logged, and the host.\<close>

function echo_client :: "int \<Rightarrow> bool list \<Rightarrow> nat list \<Rightarrow> host \<Rightarrow> nat list \<times> host" where
  "echo_client fd stops logged h =
     (if stops \<noteq> [] \<and> hd stops then (logged, h)
      else (case host_read fd ECHO_BUFFER_SIZE h of (nread, bs, h') \<Rightarrow>
        if 0 < nread then
          (case echo_write_all fd bs h' of (r, h'') \<Rightarrow>
             if r = -1 then (logged, h'') else echo_client fd (tl stops) (logged @ [nat nread]) h'')
        else if nread = 0 then (logged, h')
        else if h_errno h' \<noteq> EINTR then (logged, h')
        else echo_client fd (tl stops) logged h'))"
  by pat_completeness auto
termination
proof (relation "measures [\<lambda>(fd, stops, logged, h). length (h_in h fd), \<lambda>(fd, stops, logged, h). length (h_plan h)]", goal_cases)
  case (2 fd stops logged h nread y bs h' r h'')
  then have "length (h_in h' fd) < length (h_in h fd)"
    by (auto simp: host_read_def host_next_def Let_def split: list.splits if_splits)
  then show ?case using echo_write_rest_inputs [of fd bs "length bs" h' r h''] 2 by (simp add: echo_write_all_def)
next
  case (3 fd stops logged h nread y bs h')
  then have rd: "host_read fd ECHO_BUFFER_SIZE h = (nread, bs, h')" and lt: "nread < 0" "h_errno h' = EINTR" by auto
  have "h_in h' = h_in h" using rd lt by (auto simp: host_read_def host_next_def Let_def split: list.splits if_splits)
  then show ?case using host_read_progress(1) [OF rd] lt by simp
qed simp

declare echo_client.simps [simp del]

definition handle_client :: "int \<Rightarrow> bool list \<Rightarrow> host \<Rightarrow> nat list \<times> host" where
  "handle_client fd stops h = (case echo_client fd stops [] h of (logged, h) \<Rightarrow> (logged, snd (host_close fd h)))"

section \<open>Accepting clients\<close>

text \<open>
  One entry for every iteration: the flag before it, and what \<^verbatim>\<open>accept\<close>, \<^verbatim>\<open>malloc\<close> and \<^verbatim>\<open>pthread_create\<close>
  return. The clients that got a thread, the descriptors that were closed, and whether the loop ended.
\<close>

record accept_attempt =
  at_stop :: bool
  at_client :: int
  at_memory :: bool
  at_thread :: bool

fun accept_clients :: "accept_attempt list \<Rightarrow> int list \<Rightarrow> int list \<Rightarrow> int list \<times> int list \<times> bool" where
  "accept_clients [] served closed = (served, closed, False)"
| "accept_clients (a # as) served closed =
     (if at_stop a then (served, closed, True)
      else if at_client a = -1 then accept_clients as served closed
      else if \<not> at_memory a then accept_clients as served (closed @ [at_client a])
      else if \<not> at_thread a then accept_clients as served (closed @ [at_client a])
      else accept_clients as (served @ [at_client a]) closed)"

section \<open>What the daemon does\<close>

lemma parse_port_range: "parse_port argv = Some port \<Longrightarrow> 0 < port \<and> port \<le> 65535"
  by (auto simp: parse_port_def unat_gt_0 split: if_splits prod.splits)

lemma echo_write_rest_safe:
  "int n = int k + int (length bs) \<Longrightarrow> echo_write_rest fd bs n h = safe_write_from fd bs k h"
proof (induction fd bs n h arbitrary: k rule: echo_write_rest.induct)
  case (1 fd bs n h)
  obtain w h1 where w: "host_write fd bs h = (w, h1)" by force
  have cases: "w = -1 \<or> 0 \<le> w" using w by (auto simp: host_write_def host_next_def Let_def split: list.splits if_splits)
  note unf = echo_write_rest.simps [of fd bs n h] safe_write_from.simps [of fd bs k h]
  show ?case
  proof (cases "bs = []")
    case True
    have "echo_write_rest fd [] n h = (int n, h)" "safe_write_from fd [] k h = (int k, h)"
      by (simp_all add: echo_write_rest.simps [of fd "[]"] safe_write_from.simps [of fd "[]"])
    then show ?thesis using 1(3) True by simp
  next
    case False
    consider "w = -1" | "w = 0" | "0 < w" using cases by linarith
    then show ?thesis
    proof cases
      case 3
      have le: "nat w \<le> length bs" using host_write_progress(2) [OF w 3] by linarith
      have "int n = int (k + nat w) + int (length (drop (nat w) bs))" using 1(3) le by simp
      then show ?thesis using 1(2) [OF False w [symmetric]] 3 False w by (simp add: unf)
    qed (use 1(1) [OF False w [symmetric]] 1(3) False w in \<open>simp_all add: unf\<close>)
  qed
qed

lemma echo_write_all_safe: "echo_write_all fd bs h = safe_write fd bs h"
  by (simp add: echo_write_all_def safe_write_def echo_write_rest_safe)

text \<open>
  What the client gets back is a prefix of what it sent, whatever fails; it is everything when no call fails for
  good and the daemon is not stopped, and the logged numbers add up to it.
\<close>

definition echoed_back :: "int \<Rightarrow> bool list \<Rightarrow> nat list \<Rightarrow> host \<Rightarrow> nat list \<Rightarrow> host \<Rightarrow> bool" where
  "echoed_back fd stops logged h ns h' \<longleftrightarrow>
     (\<exists>k ns'. k \<le> length (h_in h fd) \<and> h_out h' fd = h_out h fd @ take k (h_in h fd) \<and> ns = logged @ ns' \<and> sum_list ns' \<le> k
       \<and> (sound h \<and> True \<notin> set stops \<longrightarrow> k = length (h_in h fd) \<and> sum_list ns' = k))"

lemma echoed_halt:
  "h_out g fd = h_out h fd @ take k (h_in h fd) \<Longrightarrow> sound h \<and> True \<notin> set stops \<longrightarrow> h_in h fd = [] \<Longrightarrow> echoed_back fd stops logged h logged g"
  unfolding echoed_back_def by (rule exI [of _ "min k (length (h_in h fd))"]) (auto simp: min_def)

lemma tl_stops: "True \<notin> set stops \<Longrightarrow> True \<notin> set (tl stops)"
  by (metis list.set_sel(2) tl_Nil)

lemma echoed_again:
  assumes "echoed_back fd (tl stops) logged h1 ns h'" and "host_took fd 0 h h1"
  shows "echoed_back fd stops logged h ns h'"
  using assms tl_stops [of stops] unfolding echoed_back_def host_took_0 by auto

lemma echoed_more:
  assumes e: "echoed_back fd (tl stops) (logged @ [k]) h2 ns h'" and t: "host_took fd k h h1"
    and g: "host_gave fd (take k (h_in h fd)) h1 h2" and k: "k \<le> length (h_in h fd)"
  shows "echoed_back fd stops logged h ns h'"
proof -
  have h2: "h_out h2 fd = h_out h fd @ take k (h_in h fd)" "h_in h2 fd = drop k (h_in h fd)" "sound h \<Longrightarrow> sound h2"
    using g t by (simp_all add: host_gave_def host_took_def)
  obtain j ns' where j: "j \<le> length (h_in h2 fd)" "h_out h' fd = h_out h2 fd @ take j (h_in h2 fd)"
    "ns = (logged @ [k]) @ ns'" "sum_list ns' \<le> j" "sound h2 \<and> True \<notin> set (tl stops) \<longrightarrow> j = length (h_in h2 fd) \<and> sum_list ns' = j"
    using e by (auto simp: echoed_back_def)
  have "h_out h' fd = h_out h fd @ take (k + j) (h_in h fd)" by (simp add: j(2) h2 take_add)
  moreover have "k + j \<le> length (h_in h fd)" using j(1) h2(2) k by simp
  ultimately show ?thesis unfolding echoed_back_def
    using j(3-5) h2(2,3) k tl_stops [of stops] by (intro exI [of _ "k + j"] exI [of _ "k # ns'"]) auto
qed

lemma echo_client_echoes:
  assumes "fd \<in> h_open h" and "echo_client fd stops logged h = (ns, h')"
  shows "echoed_back fd stops logged h ns h'"
  using assms
proof (induction fd stops logged h rule: echo_client.induct)
  case (1 fd stops logged h)
  note unf = echo_client.simps [of fd stops logged h]
  show ?case
  proof (cases "stops \<noteq> [] \<and> hd stops")
    case True
    then have "ns = logged" "h' = h" "True \<in> set stops" using "1.prems"(2) by (auto simp: unf) (metis hd_in_set)
    then show ?thesis using echoed_halt [of h fd h 0] by simp
  next
    case go: False
    obtain r bs h1 where rd: "host_read fd ECHO_BUFFER_SIZE h = (r, bs, h1)" using prod_cases3 by blast
    from host_read_spec [OF rd "1.prems"(1)] echo_count consider
      (fail) "r = -1" "host_took fd 0 h h1" "h_errno h1 = EINTR \<or> \<not> sound h"
      | (bytes) k where "r = int k" "length bs = k" "bs = take k (h_in h fd)" "host_took fd k h h1" "k = 0 \<longrightarrow> ECHO_BUFFER_SIZE = 0 \<or> h_in h fd = []"
      by blast
    then show ?thesis
    proof cases
      case fail
      have o: "fd \<in> h_open h1" using fail(2) "1.prems"(1) by (simp add: host_took_0)
      show ?thesis
      proof (cases "h_errno h1 = EINTR")
        case True
        have eq: "echo_client fd (tl stops) logged h1 = (ns, h')" using "1.prems"(2) go True fail(1) by (simp add: unf rd)
        have "echoed_back fd (tl stops) logged h1 ns h'" using "1.IH"(2) [OF go rd [symmetric] refl _ _ _ o eq] fail(1) True by simp
        then show ?thesis using echoed_again fail(2) by blast
      next
        case False
        then have "ns = logged" "h' = h1" "\<not> sound h" using "1.prems"(2) go fail by (simp_all add: unf rd)
        then show ?thesis using echoed_halt [of h1 fd h 0] fail(2) by (simp add: host_took_0)
      qed
    next
      case (bytes k)
      have o: "fd \<in> h_open h1" using bytes(4) "1.prems"(1) by (simp add: host_took_def)
      have kl: "k \<le> length (h_in h fd)" using bytes(2,3) by (metis length_take min.cobounded1)
      show ?thesis
      proof (cases "k = 0")
        case True
        have "h_in h fd = []" using True bytes(5) by (simp add: ECHO_BUFFER_SIZE_def)
        moreover have "ns = logged" "h' = h1" using True "1.prems"(2) go bytes(1) by (simp_all add: unf rd)
        moreover note True
        ultimately show ?thesis using echoed_halt [of h1 fd h 0] bytes(4) by (simp add: host_took_def)
      next
        case pos: False
        obtain w h2 where w: "echo_write_all fd bs h1 = (w, h2)" by force
        from safe_write_spec [OF w [unfolded echo_write_all_safe] o] consider
          (all) "w = int (length bs)" "host_gave fd bs h1 h2" | (part) j where "w = -1" "\<not> sound h1" "host_gave fd (take j bs) h1 h2"
          by blast
        then show ?thesis
        proof cases
          case all
          have "fd \<in> h_open h2" using all(2) o by (simp add: host_gave_def)
          moreover have "echo_client fd (tl stops) (logged @ [k]) h2 = (ns, h')"
            using "1.prems"(2) go bytes(1,2) pos w all(1) by (simp add: unf rd)
          ultimately have "echoed_back fd (tl stops) (logged @ [k]) h2 ns h'"
            using "1.IH"(1) [OF go rd [symmetric] refl _ w [symmetric]] bytes(1) pos all(1) by simp
          then show ?thesis using echoed_more bytes(3,4) all(2) kl by blast
        next
          case (part j)
          have "ns = logged" "h' = h2" using "1.prems"(2) go bytes(1,2) pos w part(1) by (simp_all add: unf rd)
          then show ?thesis using echoed_halt [of h2 fd h "min j k"] part bytes(3,4) by (auto simp: host_gave_def host_took_def)
        qed
      qed
    qed
  qed
qed

lemma handle_client_echoes:
  assumes "fd \<in> h_open h" and "sound h" and "True \<notin> set stops"
  shows "h_out (snd (handle_client fd stops h)) fd = h_out h fd @ h_in h fd
    \<and> sum_list (fst (handle_client fd stops h)) = length (h_in h fd)"
proof -
  obtain ns h1 where s: "echo_client fd stops [] h = (ns, h1)" by force
  have "h_out h1 fd = h_out h fd @ h_in h fd \<and> sum_list ns = length (h_in h fd)"
    using echo_client_echoes [OF assms(1) s] assms(2,3) by (auto simp: echoed_back_def)
  moreover have "h_out (snd (host_close fd h1)) = h_out h1"
    by (simp add: host_close_def host_next_def Let_def split: list.split)
  ultimately show ?thesis by (simp add: handle_client_def s)
qed

text \<open>Every client that was accepted is served or closed.\<close>

lemma accept_clients_keep_all:
  "accept_clients as served closed = (s, c, ended) \<Longrightarrow>
   set s \<union> set c = set served \<union> set closed \<union> set (filter (\<lambda>c. c \<noteq> -1) (map at_client (takeWhile (\<lambda>a. \<not> at_stop a) as)))"
proof (induction as served closed rule: accept_clients.induct)
  case (2 a as served closed)
  note ih = 2
  consider "at_stop a" | "\<not> at_stop a" "at_client a = -1" | "\<not> at_stop a" "at_client a \<noteq> -1" "\<not> at_memory a"
    | "\<not> at_stop a" "at_client a \<noteq> -1" "at_memory a" "\<not> at_thread a" | "\<not> at_stop a" "at_client a \<noteq> -1" "at_memory a" "at_thread a"
    by blast
  then show ?case by cases (use ih(1) [OF _ _] ih in \<open>auto\<close>)
qed simp

end

