(* ===== verification/Week6_Signals.thy ===== *)
theory Week6_Signals
  imports Prelude
begin

text \<open>
  \<^verbatim>\<open>week6/w6.c\<close>: a sender and a receiver that count signals. Signals that are pending are merged by the kernel,
  and a process sees them only while it waits in \<^verbatim>\<open>sigsuspend\<close>, so the two processes are a transition system:
  a step is a delivery of some pending signals to one process, with the handlers and the code after
  \<^verbatim>\<open>sigsuspend\<close>, or the expiry of the alarm.
\<close>

section \<open>The processes\<close>

text \<open>The variables of the parent (the sender) and of the child (the receiver).\<close>

record sender =
  parent_pending_acks :: nat
  parent_pending_sigalrm :: bool
  num_acks_received :: nat
  sender_done :: bool

record receiver =
  child_pending_signals :: nat
  child_pending_termination :: bool
  num_signal_received :: nat
  receiver_done :: bool

text \<open>
  What the kernel holds: the pending signals of each process, and whether the alarm is set. The number of
  signals that the sender has sent is kept beside it for the statements.
\<close>

record signals =
  to_sender_usr1 :: bool
  to_sender_alrm :: bool
  to_receiver_usr1 :: bool
  to_receiver_int :: bool
  alarm_set :: bool
  sent :: nat

type_synonym system = "sender \<times> receiver \<times> signals"

section \<open>Handlers\<close>

definition parent_ack_handler :: "sender \<Rightarrow> sender" where
  "parent_ack_handler p = p\<lparr>parent_pending_acks := parent_pending_acks p + 1\<rparr>"

definition parent_alarm_handler :: "sender \<Rightarrow> sender" where
  "parent_alarm_handler p = p\<lparr>parent_pending_sigalrm := True\<rparr>"

definition child_signal_handler :: "receiver \<Rightarrow> receiver" where
  "child_signal_handler c = c\<lparr>child_pending_signals := child_pending_signals c + 1\<rparr>"

definition child_sigint_handler :: "receiver \<Rightarrow> receiver" where
  "child_sigint_handler c = c\<lparr>child_pending_termination := True\<rparr>"

section \<open>After a wait\<close>

definition count_acks :: "nat \<Rightarrow> sender \<Rightarrow> sender" where
  "count_acks n p =
     (if parent_pending_acks p > 0 then
        p\<lparr>num_acks_received := min n (num_acks_received p + parent_pending_acks p), parent_pending_acks := 0\<rparr>
      else p)"

definition parent_handle_pending_signals :: "nat \<Rightarrow> sender \<Rightarrow> signals \<Rightarrow> sender \<times> signals" where
  "parent_handle_pending_signals n p k =
     (let p = count_acks n p in
      if num_acks_received p = n then (p\<lparr>sender_done := True\<rparr>, k\<lparr>to_receiver_int := True\<rparr>)
      else if parent_pending_sigalrm p then
        (p\<lparr>parent_pending_sigalrm := False\<rparr>,
         (if n - num_acks_received p > 0 then k\<lparr>to_receiver_usr1 := True, sent := sent k + 1\<rparr> else k)\<lparr>alarm_set := True\<rparr>)
      else (p, k))"

fun receive_loop :: "nat \<Rightarrow> receiver \<Rightarrow> signals \<Rightarrow> receiver \<times> signals" where
  "receive_loop 0 c k = (c, k)"
| "receive_loop (Suc m) c k =
     receive_loop m (c\<lparr>child_pending_signals := m, num_signal_received := num_signal_received c + 1\<rparr>)
       (k\<lparr>to_sender_usr1 := True\<rparr>)"

definition child_handle_pending_signals :: "receiver \<Rightarrow> signals \<Rightarrow> receiver \<times> signals" where
  "child_handle_pending_signals c k =
     (case receive_loop (child_pending_signals c) c k of (c, k) \<Rightarrow>
      (if child_pending_termination c then c\<lparr>receiver_done := True\<rparr> else c, k))"

section \<open>The system\<close>

text \<open>The main program refuses numbers that are not positive; the first alarm is set before the first wait.\<close>

definition signals_start :: system where
  "signals_start =
     (\<lparr>parent_pending_acks = 0, parent_pending_sigalrm = False, num_acks_received = 0, sender_done = False\<rparr>,
      \<lparr>child_pending_signals = 0, child_pending_termination = False, num_signal_received = 0, receiver_done = False\<rparr>,
      \<lparr>to_sender_usr1 = False, to_sender_alrm = False, to_receiver_usr1 = False, to_receiver_int = False,
       alarm_set = True, sent = 0\<rparr>)"

text \<open>\<open>usr1\<close> and \<open>other\<close> say which of the pending signals end the wait.\<close>

definition sender_wakes :: "nat \<Rightarrow> bool \<Rightarrow> bool \<Rightarrow> system \<Rightarrow> system" where
  "sender_wakes n usr1 alrm sys =
     (case sys of (p, c, k) \<Rightarrow>
      let p = (if usr1 then parent_ack_handler p else p);
          p = (if alrm then parent_alarm_handler p else p);
          k = k\<lparr>to_sender_usr1 := to_sender_usr1 k \<and> \<not> usr1, to_sender_alrm := to_sender_alrm k \<and> \<not> alrm\<rparr>
      in case parent_handle_pending_signals n p k of (p, k) \<Rightarrow> (p, c, k))"

definition receiver_wakes :: "bool \<Rightarrow> bool \<Rightarrow> system \<Rightarrow> system" where
  "receiver_wakes usr1 sigint sys =
     (case sys of (p, c, k) \<Rightarrow>
      let c = (if usr1 then child_signal_handler c else c);
          c = (if sigint then child_sigint_handler c else c);
          k = k\<lparr>to_receiver_usr1 := to_receiver_usr1 k \<and> \<not> usr1, to_receiver_int := to_receiver_int k \<and> \<not> sigint\<rparr>
      in case child_handle_pending_signals c k of (c, k) \<Rightarrow> (p, c, k))"

definition alarm_expires :: "system \<Rightarrow> system" where
  "alarm_expires sys = (case sys of (p, c, k) \<Rightarrow> (p, c, k\<lparr>alarm_set := False, to_sender_alrm := True\<rparr>))"

inductive signal_step :: "nat \<Rightarrow> system \<Rightarrow> system \<Rightarrow> bool" for n where
  sender: "\<not> sender_done p \<Longrightarrow> usr1 \<or> alrm \<Longrightarrow> usr1 \<longrightarrow> to_sender_usr1 k \<Longrightarrow> alrm \<longrightarrow> to_sender_alrm k
    \<Longrightarrow> signal_step n (p, c, k) (sender_wakes n usr1 alrm (p, c, k))"
| receiver: "\<not> receiver_done c \<Longrightarrow> usr1 \<or> sigint \<Longrightarrow> usr1 \<longrightarrow> to_receiver_usr1 k \<Longrightarrow> sigint \<longrightarrow> to_receiver_int k
    \<Longrightarrow> signal_step n (p, c, k) (receiver_wakes usr1 sigint (p, c, k))"
| alarm: "\<not> sender_done p \<Longrightarrow> alarm_set k \<Longrightarrow> signal_step n (p, c, k) (alarm_expires (p, c, k))"

inductive signals_reachable :: "nat \<Rightarrow> system \<Rightarrow> bool" for n where
  init: "signals_reachable n signals_start"
| step: "signals_reachable n s \<Longrightarrow> signal_step n s s' \<Longrightarrow> signals_reachable n s'"

inductive_cases signal_stepE: "signal_step n (p, c, k) s'"

section \<open>The invariant\<close>

text \<open>
  Every acknowledgement that was counted answers a signal that was received, every signal that was received
  had been sent; the sender always has something to wait for; nobody stops too early.
\<close>

definition counts_ok :: "nat \<Rightarrow> system \<Rightarrow> bool" where
  "counts_ok n sys \<longleftrightarrow> (case sys of (p, c, k) \<Rightarrow>
     num_acks_received p + of_bool (to_sender_usr1 k) \<le> num_signal_received c
     \<and> num_signal_received c + of_bool (to_receiver_usr1 k) \<le> sent k
     \<and> num_acks_received p \<le> n \<and> parent_pending_acks p = 0 \<and> child_pending_signals c = 0
     \<and> (\<not> sender_done p \<longrightarrow> \<not> parent_pending_sigalrm p \<and> (alarm_set k \<or> to_sender_alrm k)
          \<and> num_acks_received p < n \<and> \<not> to_receiver_int k \<and> \<not> receiver_done c)
     \<and> (sender_done p \<longrightarrow> num_acks_received p = n \<and> (to_receiver_int k \<or> receiver_done c))
     \<and> (child_pending_termination c \<longrightarrow> receiver_done c) \<and> (receiver_done c \<longrightarrow> sender_done p))"

lemma receive_loop_eq:
  "receive_loop m c k = (c\<lparr>child_pending_signals := if m = 0 then child_pending_signals c else 0,
      num_signal_received := num_signal_received c + m\<rparr>, k\<lparr>to_sender_usr1 := to_sender_usr1 k \<or> m > 0\<rparr>)"
  by (induction m arbitrary: c k) auto

lemma counts_initial: "0 < n \<Longrightarrow> counts_ok n signals_start"
  by (simp add: counts_ok_def signals_start_def)

lemma counts_sender:
  assumes "counts_ok n (p, c, k)" and "\<not> sender_done p" and "usr1 \<or> alrm"
    and "usr1 \<longrightarrow> to_sender_usr1 k" and "alrm \<longrightarrow> to_sender_alrm k"
  shows "counts_ok n (sender_wakes n usr1 alrm (p, c, k))"
  using assms
  by (cases usr1; cases alrm; cases "num_acks_received p + 1 = n")
    (auto simp: counts_ok_def sender_wakes_def parent_handle_pending_signals_def count_acks_def
      parent_ack_handler_def parent_alarm_handler_def Let_def)

lemma counts_receiver:
  assumes "counts_ok n (p, c, k)" and "\<not> receiver_done c" and "usr1 \<or> sigint"
    and "usr1 \<longrightarrow> to_receiver_usr1 k" and "sigint \<longrightarrow> to_receiver_int k"
  shows "counts_ok n (receiver_wakes usr1 sigint (p, c, k))"
  using assms
  by (cases usr1; cases sigint)
    (auto simp: counts_ok_def receiver_wakes_def child_handle_pending_signals_def receive_loop_eq
      child_signal_handler_def child_sigint_handler_def Let_def)

lemma counts_step:
  assumes "signal_step n s s'" and "counts_ok n s"
  shows "counts_ok n s'"
  using assms
proof cases
  case (alarm p k c)
  then show ?thesis using assms(2) by (auto simp: counts_ok_def alarm_expires_def)
qed (use assms(2) counts_sender counts_receiver in blast)+

lemma counts_reachable: "signals_reachable n s \<Longrightarrow> 0 < n \<Longrightarrow> counts_ok n s"
  by (induction rule: signals_reachable.induct) (auto intro: counts_initial counts_step)

text \<open>
  When the sender stops, the receiver has received at least as many signals as it was asked to send, and as
  long as a process runs the system can go on: no signal that is lost by merging makes it hang.
\<close>

lemma signals_counted:
  assumes "signals_reachable n (p, c, k)" and "0 < n"
  shows "num_acks_received p \<le> num_signal_received c \<and> num_signal_received c \<le> sent k
    \<and> (sender_done p \<longrightarrow> n \<le> num_signal_received c)
    \<and> (\<not> sender_done p \<or> \<not> receiver_done c \<longrightarrow> (\<exists>s'. signal_step n (p, c, k) s'))"
proof -
  have ok: "counts_ok n (p, c, k)" using counts_reachable [OF assms] .
  have counted: "num_acks_received p \<le> num_signal_received c" "num_signal_received c \<le> sent k"
    "sender_done p \<longrightarrow> num_acks_received p = n"
    using ok by (simp_all add: counts_ok_def)
  have "\<exists>s'. signal_step n (p, c, k) s'" if running: "\<not> sender_done p \<or> \<not> receiver_done c"
  proof (cases "sender_done p")
    case False
    then have "alarm_set k \<or> to_sender_alrm k" using ok by (simp add: counts_ok_def)
    then show ?thesis
    proof
      assume "alarm_set k"
      with False have "signal_step n (p, c, k) (alarm_expires (p, c, k))" by (rule signal_step.alarm)
      then show ?thesis by (rule exI)
    next
      assume "to_sender_alrm k"
      with False have "signal_step n (p, c, k) (sender_wakes n False True (p, c, k))" by (intro signal_step.sender) simp_all
      then show ?thesis by (rule exI)
    qed
  next
    case True
    then have stopped: "\<not> receiver_done c" using running by simp
    have "to_receiver_int k" using True stopped ok by (simp add: counts_ok_def)
    with stopped have "signal_step n (p, c, k) (receiver_wakes False True (p, c, k))" by (intro signal_step.receiver) simp_all
    then show ?thesis by (rule exI)
  qed
  then show ?thesis using counted by auto
qed

text \<open>A run with one signal, from the first alarm to the end of both processes.\<close>

definition waiting_sender :: "nat \<Rightarrow> bool \<Rightarrow> sender" where
  "waiting_sender acks stopped =
     \<lparr>parent_pending_acks = 0, parent_pending_sigalrm = False, num_acks_received = acks, sender_done = stopped\<rparr>"

definition waiting_receiver :: "nat \<Rightarrow> bool \<Rightarrow> receiver" where
  "waiting_receiver received stopped =
     \<lparr>child_pending_signals = 0, child_pending_termination = stopped, num_signal_received = received, receiver_done = stopped\<rparr>"

definition signals_pending :: "bool \<Rightarrow> bool \<Rightarrow> bool \<Rightarrow> bool \<Rightarrow> bool \<Rightarrow> nat \<Rightarrow> signals" where
  "signals_pending ack alrm usr1 sigint timer m =
     \<lparr>to_sender_usr1 = ack, to_sender_alrm = alrm, to_receiver_usr1 = usr1, to_receiver_int = sigint, alarm_set = timer, sent = m\<rparr>"

lemmas signal_run_defs = waiting_sender_def waiting_receiver_def signals_pending_def sender_wakes_def receiver_wakes_def
  parent_handle_pending_signals_def child_handle_pending_signals_def count_acks_def receive_loop_eq
  parent_ack_handler_def parent_alarm_handler_def child_signal_handler_def child_sigint_handler_def Let_def

lemma one_signal_run: "signals_reachable 1 (waiting_sender 1 True, waiting_receiver 1 True, signals_pending False False False False True 1)"
proof -
  let ?p = "waiting_sender 0 False" and ?c = "waiting_receiver 0 False"
  have "signals_start = (?p, ?c, signals_pending False False False False True 0)" by (simp add: signals_start_def signal_run_defs)
  then have "signals_reachable 1 (?p, ?c, signals_pending False False False False True 0)" using signals_reachable.init by metis
  moreover have "signal_step 1 (?p, ?c, signals_pending False False False False True 0) (?p, ?c, signals_pending False True False False False 0)"
    using signal_step.alarm [of ?p "signals_pending False False False False True 0" 1 ?c] by (simp add: alarm_expires_def signal_run_defs)
  moreover have "signal_step 1 (?p, ?c, signals_pending False True False False False 0) (?p, ?c, signals_pending False False True False True 1)"
    using signal_step.sender [of ?p False True "signals_pending False True False False False 0" 1 ?c] by (simp add: signal_run_defs)
  moreover have "signal_step 1 (?p, ?c, signals_pending False False True False True 1) (?p, waiting_receiver 1 False, signals_pending True False False False True 1)"
    using signal_step.receiver [of ?c True False "signals_pending False False True False True 1" 1 ?p] by (simp add: signal_run_defs)
  moreover have "signal_step 1 (?p, waiting_receiver 1 False, signals_pending True False False False True 1)
      (waiting_sender 1 True, waiting_receiver 1 False, signals_pending False False False True True 1)"
    using signal_step.sender [of ?p True False "signals_pending True False False False True 1" 1 "waiting_receiver 1 False"] by (simp add: signal_run_defs)
  moreover have "signal_step 1 (waiting_sender 1 True, waiting_receiver 1 False, signals_pending False False False True True 1)
      (waiting_sender 1 True, waiting_receiver 1 True, signals_pending False False False False True 1)"
    using signal_step.receiver [of "waiting_receiver 1 False" False True "signals_pending False False False True True 1" 1 "waiting_sender 1 True"]
    by (simp add: signal_run_defs)
  ultimately show ?thesis by (metis signals_reachable.step)
qed

end
