(* ===== verification/Week_Properties.thy ===== *)
theory Week_Properties
  imports Week7_Shell Week10_Copies Week11_Threads Week12_Chat Week13_Queue Week14_Echo Week6_Signals
begin

text \<open>
  The properties of the exercises of \<^verbatim>\<open>week6\<close>, \<^verbatim>\<open>week7\<close>, \<^verbatim>\<open>week10\<close>, \<^verbatim>\<open>week11\<close>, \<^verbatim>\<open>week12\<close>, \<^verbatim>\<open>week13\<close> and
  \<^verbatim>\<open>week14\<close>, each with a concrete instance.
\<close>

section \<open>The queue of a producer and a consumer\<close>

text \<open>
  C36: However the two threads of \<open>w13.c\<close> are scheduled, and whatever waits end without a signal, no access leaves
  the ring or reads a cell that was not written; the consumer takes the numbers 0, 1, 2 and so on in order, never
  more than were put and never lagging by more than the capacity; as long as a thread has not ended one of the
  two can move, so there is no deadlock and no lost wakeup; every run without such waits ends after at most 20 steps
  for every iteration and 18 more, and then the consumer has taken every number.
\<close>

theorem week13_queue_delivers:
  assumes "qinit n cap True = Some q" and "QUEUE_HEADER + 8 * cap < 2 ^ 64" and "pair_reachable q s"
  shows "put_data s \<noteq> Faulty \<and> get_data s \<noteq> Faulty
    \<and> (\<exists>j k. j \<le> k \<and> k \<le> n \<and> k - j \<le> cap \<and> put_log s = [0..<k] \<and> get_log s = [0..<j])
    \<and> (if t_pc (producer s) = Ended \<and> t_pc (consumer s) = Ended then get_log s = [0..<n] else \<exists>s'. pair_step s s')
    \<and> (\<forall>k s'. pair_run k s s' \<longrightarrow> k \<le> 20 * n + 18)"
proof (intro conjI)
  have ok: "pair_ok n s" using pair_reachable_ok assms by blast
  let ?p = "producer s" and ?c = "consumer s"
  show "put_data s \<noteq> Faulty" "get_data s \<noteq> Faulty"
    using put_data_not_faulty get_data_not_faulty ok by blast+
  have th: "thread_ok n ?p" "thread_ok n ?c" using ok by (simp_all add: pair_ok_def Let_def)
  have logs: "put_log s = [0..<done_by ?p]" "get_log s = [0..<done_by ?c]" "done_by ?c \<le> done_by ?p"
    using ok by (simp_all add: pair_ok_def Let_def)
  have "q_capacity (queue s) = cap" using capacity_kept [OF assms(3)] assms(1) by (auto simp: qinit_def split: if_splits)
  then have "done_by ?p - done_by ?c \<le> cap"
    using ok pair_ok_length [OF ok] by (simp add: pair_ok_def queue_ok_def Let_def)
  moreover have "done_by ?p \<le> n" using th by (auto simp: done_by_def thread_ok_def split: if_splits)
  ultimately show "\<exists>j k. j \<le> k \<and> k \<le> n \<and> k - j \<le> cap \<and> put_log s = [0..<k] \<and> get_log s = [0..<j]"
    using logs by blast
  show "if t_pc ?p = Ended \<and> t_pc ?c = Ended then get_log s = [0..<n] else \<exists>s'. pair_step s s'"
    using th logs pair_progress [OF ok] by (auto simp: thread_ok_def done_by_def)
  have rank: "pc_rank p \<le> 9" for p by (cases p) simp_all
  show "\<forall>k s'. pair_run k s s' \<longrightarrow> k \<le> 20 * n + 18"
  proof (intro allI impI)
    fix k s' assume "pair_run k s s'"
    then have "k \<le> steps_left n s" using pair_run_bounded ok by (metis le_add1 order_trans)
    moreover have "steps_left n s \<le> 20 * n + 18"
      using rank [of "t_pc ?p"] rank [of "t_pc ?c"] by (simp add: steps_left_def)
    ultimately show "k \<le> 20 * n + 18" by simp
  qed
qed

text \<open>Two numbers and a ring of one cell, after the producer has put the first.\<close>

definition small_queue :: "nat option list \<Rightarrow> nat \<Rightarrow> role option \<Rightarrow> queue_t" where
  "small_queue cells len holder =
     \<lparr>put_index = 0, get_index = 0, q_length = len, q_capacity = 1, total_n_iterations = 2, lock_holder = holder, q_data = cells\<rparr>"

definition small_pair :: "nat option list \<Rightarrow> nat \<Rightarrow> role option \<Rightarrow> pc \<Rightarrow> nat list \<Rightarrow> pair" where
  "small_pair cells len holder p puts =
     \<lparr>queue = small_queue cells len holder, producer = \<lparr>t_pc = p, t_i = 0\<rparr>, consumer = \<lparr>t_pc = AtLock, t_i = 0\<rparr>,
      put_log = puts, get_log = []\<rparr>"

lemma small_pair_reached: "pair_reachable (small_queue [None] 0 None) (small_pair [Some 0] 1 (Some Producer) AtSignal [0])"
proof -
  have start: "both_started (small_queue [None] 0 None) = small_pair [None] 0 None AtLock []"
    by (simp add: both_started_def small_pair_def)
  have "pair_step (small_pair [None] 0 None AtLock []) (small_pair [None] 0 (Some Producer) AtTest [])"
    "pair_step (small_pair [None] 0 (Some Producer) AtTest []) (small_pair [None] 0 (Some Producer) AtBody [])"
    "pair_step (small_pair [None] 0 (Some Producer) AtBody []) (small_pair [Some 0] 1 (Some Producer) AtSignal [0])"
    by (rule pair_step.put, simp add: put_data_def put_cell_def small_pair_def small_queue_def Let_def)+
  then show ?thesis using pair_reachable.start [of "small_queue [None] 0 None"] unfolding start by (meson pair_reachable.step)
qed

lemma week13_queue_delivers_witness:
  "get_data (small_pair [Some 0] 1 (Some Producer) AtSignal [0]) \<noteq> Faulty
   \<and> (\<exists>s'. pair_step (small_pair [Some 0] 1 (Some Producer) AtSignal [0]) s')"
proof -
  have "qinit 2 1 True = Some (small_queue [None] 0 None)"
    by (simp add: qinit_def small_queue_def queue_bytes_def QUEUE_HEADER_def)
  moreover have "QUEUE_HEADER + 8 * 1 < 2 ^ 64" by (simp add: QUEUE_HEADER_def)
  ultimately show ?thesis
    using week13_queue_delivers [OF _ _ small_pair_reached, of 2 1] by (simp add: small_pair_def)
qed

section \<open>Threads that multiply a matrix\<close>

text \<open>
  \<open>every_run cols m cs b Q\<close>: every run of the main thread over \<open>cs\<close> with its workers, from the arrays \<open>m\<close>, takes at
  most \<open>b\<close> steps, is never stuck, and ends with arrays that satisfy \<open>Q\<close>.
\<close>

definition every_run :: "nat \<Rightarrow> arrays \<Rightarrow> main_command list \<Rightarrow> nat \<Rightarrow> (arrays \<Rightarrow> bool) \<Rightarrow> bool" where
  "every_run cols m0 cs b Q \<longleftrightarrow>
     (\<forall>k m ts rest. threads_run cols k (m0, Map.empty, cs) (m, ts, rest) \<longrightarrow>
       k \<le> b \<and> (if rest = [] then Q m else \<exists>cfg. threads_step cols (m, ts, rest) cfg))"

lemma every_run_weaken: "every_run cols m cs b Q \<Longrightarrow> (\<And>m. Q m \<Longrightarrow> R m) \<Longrightarrow> every_run cols m cs b R"
  unfolding every_run_def by meson

text \<open>Such runs exist: a run that is not over goes on, and the bound is reached at some time.\<close>

lemma threads_run_snoc: "threads_run cols k s s' \<Longrightarrow> threads_step cols s' s'' \<Longrightarrow> threads_run cols (Suc k) s s''"
  by (induction rule: threads_run.induct) (auto intro: threads_run.intros)

lemma every_run_ends:
  assumes "every_run cols m0 cs b Q"
  shows "\<exists>k m ts. threads_run cols k (m0, Map.empty, cs) (m, ts, []) \<and> Q m"
proof (rule ccontr)
  assume none: "\<not> ?thesis"
  have "\<exists>cfg. threads_run cols k (m0, Map.empty, cs) cfg" for k
  proof (induction k)
    case 0
    show ?case using threads_run.none by blast
  next
    case (Suc k)
    then obtain m ts rest where run: "threads_run cols k (m0, Map.empty, cs) (m, ts, rest)" by (metis prod_cases3)
    then have "if rest = [] then Q m else \<exists>cfg. threads_step cols (m, ts, rest) cfg" using assms unfolding every_run_def by blast
    then show ?case using run none threads_run_snoc by (metis (full_types))
  qed
  then obtain m ts rest where "threads_run cols (Suc b) (m0, Map.empty, cs) (m, ts, rest)" by (metis prod_cases3)
  then show False using assms unfolding every_run_def by fastforce
qed

text \<open>
  C38: With at least one core, in whatever order the threads of \<open>w11.c\<close> run, both parts of the program end and never
  block for ever: after the first every element is reduced modulo 10, and after the second \<open>result\<close> is what
  the single-threaded function computes from the reduced matrix and vector, modulo 2 to the 64.
\<close>

theorem week11_threads_multiply:
  assumes "0 < cores" and "fresh_arrays rows cols matrix vector m0"
  shows "\<exists>bs. batches_from cores rows 0 = Some bs
    \<and> every_run cols m0 (reduction_commands bs) (length (reduction_commands bs) + (rows + 1) * (cols + 1))
        (\<lambda>m. fresh_arrays rows cols (map all_digits matrix) (all_digits vector) m
          \<and> every_run cols m (multiplication_commands bs) (length (multiplication_commands bs) + rows * (cols + 1))
              (\<lambda>m. m_out m = single_threaded_matrix_multiplication (map all_digits matrix) (all_digits vector) rows cols))"
proof -
  obtain bs where bs: "batches_from cores rows 0 = Some bs" "batch_rows bs = [0..<rows]"
    using batches_cover [OF assms(1), of rows 0] by auto
  have second: "every_run cols m (multiplication_commands bs) (length (multiplication_commands bs) + rows * (cols + 1))
      (\<lambda>m. m_out m = single_threaded_matrix_multiplication ma ve rows cols)" if m: "fresh_arrays rows cols ma ve m" for m ma ve
    unfolding every_run_def
  proof (intro allI impI)
    fix k m' ts rest assume run: "threads_run cols k (m, Map.empty, multiplication_commands bs) (m', ts, rest)"
    note ph = multiplication.phase_complete [OF multiplication_ordered [OF bs(2)] multiplication_start [OF m] run]
    have "card (multiplication_tasks rows) \<le> rows" using card_image_le [of "{..<rows}" MultiplyRow] by (simp add: multiplication_tasks_def)
    then have "card (multiplication_tasks rows) * (cols + 1) \<le> rows * (cols + 1)" by (rule mult_le_mono1)
    then show "k \<le> length (multiplication_commands bs) + rows * (cols + 1)
        \<and> (if rest = [] then m_out m' = single_threaded_matrix_multiplication ma ve rows cols else \<exists>cfg. threads_step cols (m', ts, rest) cfg)"
      using ph(1,2) multiplication_result [OF m bs(2)] run by auto
  qed
  have first: "every_run cols m0 (reduction_commands bs) (length (reduction_commands bs) + (rows + 1) * (cols + 1))
      (fresh_arrays rows cols (map all_digits matrix) (all_digits vector))"
    unfolding every_run_def
  proof (intro allI impI)
    fix k m' ts rest assume run: "threads_run cols k (m0, Map.empty, reduction_commands bs) (m', ts, rest)"
    note ph = reduction.phase_complete [OF reduction_ordered [OF bs(2)] reduction_start [OF assms(2)] run]
    have "card (reduction_tasks rows) * (cols + 1) \<le> (rows + 1) * (cols + 1)" by (rule mult_le_mono1 [OF card_reduction_tasks])
    then show "k \<le> length (reduction_commands bs) + (rows + 1) * (cols + 1)
        \<and> (if rest = [] then fresh_arrays rows cols (map all_digits matrix) (all_digits vector) m'
           else \<exists>cfg. threads_step cols (m', ts, rest) cfg)"
      using ph(1,2) reduction_result [OF assms(2) bs(2)] run by auto
  qed
  show ?thesis
  proof (rule exI [of _ bs], rule conjI [OF bs(1)], rule every_run_weaken [OF first], rule conjI)
    fix m assume m: "fresh_arrays rows cols (map all_digits matrix) (all_digits vector) m"
    show "fresh_arrays rows cols (map all_digits matrix) (all_digits vector) m" by (rule m)
    show "every_run cols m (multiplication_commands bs) (length (multiplication_commands bs) + rows * (cols + 1))
        (\<lambda>m. m_out m = single_threaded_matrix_multiplication (map all_digits matrix) (all_digits vector) rows cols)"
      by (rule second [OF m])
  qed
qed

lemma week11_threads_multiply_witness:
  "\<exists>bs k m ts k' m' ts'. batches_from 2 1 0 = Some bs
    \<and> threads_run 2 k (\<lparr>m_matrix = [[13, 40]], m_vector = [25, 7], m_results = [0], m_out = [0]\<rparr>, Map.empty, reduction_commands bs) (m, ts, [])
    \<and> threads_run 2 k' (m, Map.empty, multiplication_commands bs) (m', ts', []) \<and> m_out m' = [15]"
proof -
  let ?m0 = "\<lparr>m_matrix = [[13, 40]], m_vector = [25, 7], m_results = [0], m_out = [0]\<rparr>"
  have "fresh_arrays 1 2 [[13, 40]] [25, 7] ?m0" by (simp add: fresh_arrays_def)
  moreover have "single_threaded_matrix_multiplication (map all_digits [[13, 40]]) (all_digits [25, 7]) 1 2 = [15]"
    by (simp add: single_threaded_matrix_multiplication_def row_sum_def all_digits_def upt_rec)
  ultimately obtain bs where bs: "batches_from 2 1 0 = Some bs"
    and runs: "every_run 2 ?m0 (reduction_commands bs) (length (reduction_commands bs) + (1 + 1) * (2 + 1))
      (\<lambda>m. fresh_arrays 1 2 (map all_digits [[13, 40]]) (all_digits [25, 7]) m
        \<and> every_run 2 m (multiplication_commands bs) (length (multiplication_commands bs) + 1 * (2 + 1)) (\<lambda>m. m_out m = [15]))"
    using week11_threads_multiply [of 2 1 2 "[[13, 40]]" "[25, 7]" ?m0] by auto
  obtain k m ts where first: "threads_run 2 k (?m0, Map.empty, reduction_commands bs) (m, ts, [])"
    and second: "every_run 2 m (multiplication_commands bs) (length (multiplication_commands bs) + 1 * (2 + 1)) (\<lambda>m. m_out m = [15])"
    using every_run_ends [OF runs] by blast
  show ?thesis using bs first every_run_ends [OF second] by blast
qed

section \<open>Files sent to a server\<close>

text \<open>
  C37: A session of the two programs of \<^verbatim>\<open>week10\<close>, when no call fails for good and however the transfers are
  interrupted and split: the client ends with code 0; the server stores, under its name with \<open>_copy\<close>, exactly every
  file of the session that can be sent, with the contents it has at the client, and changes no other file; and
  what it sends back are the acknowledgements that the client reads.
\<close>

theorem week10_session_copies:
  assumes "sound (c_host c)" and "conn \<in> h_open (c_host c)" and "conn \<noteq> inp" and "h_out (c_host c) conn = []"
    and "h_in (c_host c) conn = ack_stream (length (sent_files (c_files c) names)) @ rest"
    and "sound (d_host d)" and "conn' \<in> h_open (d_host d)" and "conn' \<noteq> out" and "h_out (d_host d) conn' = []"
    and "h_in (d_host d) conn' = h_out (c_host (snd (client_loop conn inp names c))) conn"
    and "\<forall>name\<in>set names. 0 \<notin> set name \<and> name @ COPY_SUFFIX \<notin> d_refused d"
  shows "fst (client_loop conn inp names c) = 0
    \<and> d_files (serve_connection conn' out d) = foldl add_copy (d_files d) (sent_files (c_files c) names)
    \<and> h_out (d_host (serve_connection conn' out d)) conn' = ack_stream (length (sent_files (c_files c) names))"
  using session_copies assms by blast

text \<open>One file, with a name that is refused before it, and calls that are interrupted and shortened.\<close>

definition copying_client :: file_host where
  "copying_client =
     \<lparr>c_host = \<lparr>h_in = (\<lambda>fd. if fd = 3 then ack_stream 1 else []), h_out = (\<lambda>_. []), h_open = {3}, h_plan = [Eintr, Short 3, Normal, Short 50], h_errno = ENONE\<rparr>,
      c_files = [bytes_of ''a'' \<mapsto> Plain (bytes_of ''hello'')], c_printed = []\<rparr>"

definition copying_names :: "byte list list" where
  "copying_names = [bytes_of ''../a'', bytes_of ''a'', bytes_of ''quit'', bytes_of ''a'']"

definition copying_server :: disk_host where
  "copying_server =
     \<lparr>d_host = \<lparr>h_in = (\<lambda>fd. if fd = 4 then h_out (c_host (snd (client_loop 3 5 copying_names copying_client))) 3 else []),
        h_out = (\<lambda>_. []), h_open = {4}, h_plan = [Eintr, Short 3, Normal, Short 50], h_errno = ENONE\<rparr>,
      d_files = Map.empty, d_refused = {}, d_printed = []\<rparr>"

lemma week10_session_copies_witness:
  "d_files (serve_connection 4 6 copying_server) = [bytes_of ''a_copy'' \<mapsto> bytes_of ''hello'']"
proof -
  have sent: "sent_files (c_files copying_client) copying_names = [(bytes_of ''a'', bytes_of ''hello'')]"
    by (simp add: copying_names_def copying_client_def content_of_def is_valid_file_name_def MAX_FILE_def bytes_of_def)
  have "bytes_of ''a'' @ COPY_SUFFIX = bytes_of ''a_copy''" by (simp add: COPY_SUFFIX_def bytes_of_def)
  moreover have "\<forall>name\<in>set copying_names. 0 \<notin> set name" by (simp add: copying_names_def bytes_of_def)
  ultimately show ?thesis
    using week10_session_copies [of copying_client 3 5 copying_names "[]" copying_server 4 6] sent
    by (simp add: copying_server_def copying_client_def sound_def add_copy_def)
qed

section \<open>The lines of a shell\<close>

text \<open>
  C39: \<open>parse_args\<close> of \<open>w7.c\<close>, which cuts a line into words in place and stores pointers to them in an array of
  fixed size, computes the same as the tokenizer \<open>line_tokens\<close> over lists: on every line without a zero byte
  it never reads outside the line, stores at most 99 arguments, accepts exactly the lines with at most 99 tokens,
  and then the strings its pointers lead to are the tokens of the line in their order.
\<close>

theorem week7_parse_args_tokens:
  assumes "0 \<notin> set line"
  shows "\<exists>ok buf args. parse_args line = Some (ok, buf, args)
    \<and> length buf = length line + 1 \<and> length args \<le> MAX_ARGUMENTS - 1
    \<and> (if length (line_tokens line) \<le> MAX_ARGUMENTS - 1 then ok \<and> map (arg_string buf) args = line_tokens line else \<not> ok)"
proof -
  obtain ok buf args where p: "parse_args line = Some (ok, buf, args)"
    and t: "ok \<longleftrightarrow> length (line_tokens line) \<le> MAX_ARGUMENTS - 1" "ok \<Longrightarrow> map (arg_string buf) args = line_tokens line"
    using parse_args_line [OF assms] by metis
  moreover have "length args \<le> MAX_ARGUMENTS - 1 \<and> length buf = length line + 1"
    using parse_args_room [of "[]" "line @ [0]" 0] p by (simp add: keeps_room_def parse_args_def)
  ultimately show ?thesis by auto
qed

text \<open>The line \<^verbatim>\<open>a>>b |c\<close>.\<close>

lemma week7_parse_args_tokens_witness:
  "line_tokens [97, 62, 62, 98, 32, 124, 99] = [[97], [62, 62], [98], [124], [99]]
   \<and> (\<exists>buf args. parse_args [97, 62, 62, 98, 32, 124, 99] = Some (True, buf, args)
        \<and> map (arg_string buf) args = [[97], [62, 62], [98], [124], [99]])"
proof -
  have t: "line_tokens [97, 62, 62, 98, 32, 124, 99] = [[97], [62, 62], [98], [124], [99]]"
    by (simp add: line_tokens.simps word_byte_def)
  moreover have "0 \<notin> set [97, 62, 62, 98, 32, 124, 99 :: byte]" by simp
  from week7_parse_args_tokens [OF this] have "\<exists>buf args. parse_args [97, 62, 62, 98, 32, 124, 99] = Some (True, buf, args)
      \<and> map (arg_string buf) args = [[97], [62, 62], [98], [124], [99]]"
    by (auto simp: t MAX_ARGUMENTS_def)
  ultimately show ?thesis by simp
qed

section \<open>Signals that are counted\<close>

text \<open>
  C40: In every state that the sender and the receiver of \<open>w6.c\<close> reach, although the kernel merges pending signals: no
  acknowledgement is counted that does not answer a received signal, no signal is received that was not
  sent, the sender stops only when the receiver has received at least \<open>n\<close> signals, and as long as one of the
  two has not stopped the system is not stuck.
\<close>

theorem week6_signals_counted:
  assumes "signals_reachable n (p, c, k)" and "0 < n"
  shows "num_acks_received p \<le> num_signal_received c \<and> num_signal_received c \<le> sent k
    \<and> (if sender_done p then n \<le> num_signal_received c else True)
    \<and> (if sender_done p \<and> receiver_done c then True else \<exists>s'. signal_step n (p, c, k) s')"
  using signals_counted [OF assms] by auto

lemma week6_signals_counted_witness: "1 \<le> num_signal_received (waiting_receiver 1 True)"
  using week6_signals_counted [OF one_signal_run] by (simp add: waiting_sender_def)

section \<open>Chat and echo\<close>

text \<open>
  The poll set of the chat server of \<^verbatim>\<open>week12\<close> stays in order through every round that does not end the server: its
  descriptors are open and different, and the listening socket is the first.
\<close>

theorem week12_poll_set_kept:
  assumes "chat_ok s" and "poll_round evs s = Ret s'"
  shows "distinct (polled s') \<and> set (polled s') \<subseteq> h_open (ch_host s') \<and> hd (polled s') = ch_listen s' \<and> ch_nfds s' \<le> N_CONNECTIONS"
  using poll_round_ok [OF assms(2,1)] by (simp add: chat_ok_def)

text \<open>
  A client of the echo daemon of \<^verbatim>\<open>week14\<close> gets back what it sends, over interrupted and short transfers, and the
  numbers in the log add up to it.
\<close>

theorem week14_client_echoed:
  assumes "fd \<in> h_open h" and "sound h" and "True \<notin> set stops"
  shows "h_out (snd (handle_client fd stops h)) fd = h_out h fd @ h_in h fd
    \<and> sum_list (fst (handle_client fd stops h)) = length (h_in h fd)"
  using handle_client_echoes [OF assms] .

end
