(* ===== verification/Spec2Isabelle.thy ===== *)
theory Spec2Isabelle
  imports Pa1_Properties Pa2_Properties Pa2_Tools Pa3_Properties Week_Properties
begin

text \<open>
  A verification library for the three C programs of this repository: the word search of
  \<^verbatim>\<open>src/PA1\<close>, the shell of \<^verbatim>\<open>src/PA2\<close> and the seat reservation system of \<^verbatim>\<open>src/PA3\<close>, and for seven exercises
  of the practice sessions. They share no code, but the models share the theory \<open>Prelude\<close> (bytes and words, memory images of integers, the
  calculus \<open>wp\<close> for computations that may be undefined, decimal numbers and \<^verbatim>\<open>strtoull\<close>). Names follow the C
  functions; a name with a suffix like \<open>_from\<close> or \<open>_loop\<close> is a loop of the function before the suffix.

  \<^bold>\<open>Word search\<close> (\<^verbatim>\<open>PA1\<close>). \<^verbatim>\<open>main.c\<close> opens a text, lets \<^verbatim>\<open>index.c\<close> build an index in unnamed temporary
  files and answers the queries on standard input with \<^verbatim>\<open>query.c\<close>; \<^verbatim>\<open>util.c\<close> has the byte and array
  helpers, \<^verbatim>\<open>io.c\<close> the buffered transfers.
    \<^item> \<open>Posix\<close>: the file system calls over an explicit \<open>world\<close>. A finite plan says which of the next
      calls are interrupted, shortened or fail; a theorem without a hypothesis on the plan holds for all
      of them, \<open>clean\<close> excludes permanent failures only.
    \<^item> \<open>Pa1_Util\<close>, \<open>Pa1_Io\<close>, \<open>Pa1_Lexicon\<close>, \<open>Pa1_Index\<close>: \<^verbatim>\<open>util.c\<close>, \<^verbatim>\<open>io.c\<close> and \<^verbatim>\<open>index.c\<close>; the invariant of the
      hash table and what a built index holds.
    \<^item> \<open>Pa1_Readers\<close>, \<open>Pa1_Query\<close>: the two halves of \<^verbatim>\<open>query.c\<close>. The locales \<open>codec\<close> (a memory image that can be
      read back), \<open>record_consumer\<close> (the callback of a scan) and \<open>line_emitter\<close> (where a merge writes) are
      interpreted on the records, the consumers and the emitters of the code.
    \<^item> \<open>Pa1_Store\<close>, \<open>Pa1_Serve\<close>, \<open>Pa1_Cache\<close>, \<open>Pa1_Sources\<close>, \<open>Pa1_Merge\<close>, \<open>Pa1_Select\<close>, \<open>Pa1_Multi\<close>, \<open>Pa1_Pattern\<close>,
      \<open>Pa1_Modes\<close>: the invariant of the index while queries are served and each kind of query against
      the abstract specification \<open>answer\<close> of \<open>Pa1_Answer\<close>, a function of the text and the query alone.
    \<^item> \<open>Pa1_Main\<close>, \<open>Pa1_Properties\<close>: the whole program and its properties.
  Loops of this part are structural, or \<open>function\<close>s with a measure; a loop around an interruptible call is
  measured by the plan. \<open>None\<close> is undefined behaviour or divergence, so a theorem that gives \<open>Some\<close> shows
  that the code is defined and ends.

  \<^bold>\<open>Shell\<close> (\<^verbatim>\<open>PA2/shell_src\<close>). A line goes through the lexer and the parser of \<^verbatim>\<open>parser.c\<close>; \<^verbatim>\<open>pa2.c\<close> starts the
  processes of each pipeline with their pipes and redirections, \<^verbatim>\<open>builtin_commands.c\<close> runs the built-in
  commands, \<^verbatim>\<open>job.c\<close> and \<^verbatim>\<open>jobs.c\<close> keep the table of jobs, and \<^verbatim>\<open>helper.c\<close> has the loop over the pipelines
  of a line.
    \<^item> \<open>Pa2_Parser\<close>: \<^verbatim>\<open>parser.c\<close>. \<open>Pa2_Grammar\<close>: the lexer and the parser stay inside their arrays, what they
      accept is well-formed, and every plain list of pipelines is the meaning of a line.
    \<^item> \<open>Pa2_Jobs\<close>: \<^verbatim>\<open>job.c\<close> and \<^verbatim>\<open>jobs.c\<close>. The jobs are in a heap, the table holds addresses, so that a freed job
      and two slots with one job can be stated. The kernel is three scripts: \<open>sh_waits\<close> (the reports
      of \<^verbatim>\<open>waitid\<close>), \<open>sh_wakes\<close> (what ends \<^verbatim>\<open>sigsuspend\<close>) and \<open>sh_forks\<close> (the results of \<^verbatim>\<open>fork\<close>). A step
      \<open>Return\<close>s, \<open>Exits\<close>, is \<open>Asleep\<close> (it waits and the script is used up, or it loops for ever) or is a \<open>Fault\<close>
      (undefined behaviour).
    \<^item> \<open>Pa2_Builtins\<close>, \<open>Pa2_Shell\<close>: the built-in commands, descriptors, pipelines, lines and main loops.
    \<^item> \<open>Pa2_Table\<close>, \<open>Pa2_Events\<close>, \<open>Pa2_Run\<close>: the invariant \<open>table_ok\<close> of the table and the heap, kept by the
      handler of \<^verbatim>\<open>SIGCHLD\<close>, the wait for a job and the built-in commands. \<open>Pa2_Stuck\<close>: why \<open>fg\<close> can wait for ever.
    \<^item> \<open>Pa2_Pipes\<close>, \<open>Pa2_Evaluate\<close>: what every child of a pipeline has on its descriptors; a line leaves the
      table and the descriptors of the shell in order.
    \<^item> \<open>Pa2_Properties\<close>: its properties, and small runs that show the defects listed with the development.

  \<^bold>\<open>Stand-alone programs\<close> (\<^verbatim>\<open>PA2/executables_src\<close>). The programs the shell starts by name.
    \<^item> \<open>Pa2_Disk\<close>: directories, paths, \<^verbatim>\<open>stat\<close>, \<^verbatim>\<open>unlink\<close>, \<^verbatim>\<open>rename\<close> and \<^verbatim>\<open>realpath\<close> on top of \<open>Posix\<close>, with its plan.
    \<^item> \<open>Pa2_Files\<close>: \<^verbatim>\<open>pa2_cat.c\<close>, \<^verbatim>\<open>pa2_rm.c\<close>, \<^verbatim>\<open>pa2_cp.c\<close>. \<open>Pa2_Move\<close>: \<^verbatim>\<open>pa2_mv.c\<close>. \<open>Pa2_Options\<close>: \<^verbatim>\<open>getopt\<close> and
      \<^verbatim>\<open>pa2_echo.c\<close>. \<open>Pa2_Lines\<close>: \<^verbatim>\<open>pa2_head.c\<close> and \<^verbatim>\<open>pa2_tail.c\<close> over the streams of the C library;
      an output stream has a buffer, and what the end of the program writes from it is not checked.
    \<^item> \<open>Pa2_Calls\<close>, \<open>Pa2_Transfer\<close>, \<open>Pa2_Copy\<close>, \<open>Pa2_Cat\<close>: what calls leave alone, the copying loop (\<open>None\<close> when it
      reads what it writes and never ends), \<open>cp\<close> and \<open>cat\<close>. \<open>Pa2_Rename\<close>: which entries a move changes.
      \<open>Pa2_Echo\<close>: options and buffer of \<open>echo\<close>. \<open>Pa2_Print\<close>: \<open>head\<close> and the ring of \<open>tail\<close> against the list of lines.
    \<^item> \<open>Pa2_Tools\<close>: the properties, on a small file system, and observations on the programs.

  \<^bold>\<open>Seat reservation\<close> (\<^verbatim>\<open>PA3\<close>). Clients send requests over sockets; the main thread of the server accepts
  them and gives each to the worker with the smallest poll set; the workers serve the requests on the
  shared tables of users and seats under locks.
    \<^item> \<open>Pa3_Common\<close>: \<^verbatim>\<open>include/\<close> and \<^verbatim>\<open>common/helper.c\<close>. \<open>Pa3_Server\<close>: \<^verbatim>\<open>server/helper.c\<close>. \<open>Pa3_Handlers\<close>:
      \<^verbatim>\<open>server/handle_request.c\<close>. \<open>Pa3_Worker\<close>: \<^verbatim>\<open>server/pa3_server.c\<close>. \<open>Pa3_Client\<close>: \<^verbatim>\<open>client/\<close>.
    \<^item> \<open>Pa3_Booking\<close>, \<open>Pa3_Refine\<close>: an abstract booking office, which each handler refines. \<open>Pa3_Session\<close>: the
      contract \<open>session_handler\<close> by which the worker uses a handler, a locale that every handler interprets.
    \<^item> \<open>Pa3_System\<close>: the server as a transition system and its invariant; the worker takes only its steps.
      \<open>Pa3_Locks\<close>: every handler takes its locks in one order, so that no interleaving of workers blocks.
    \<^item> \<open>Pa3_Wire\<close>, \<open>Pa3_Exchange\<close>, \<open>Pa3_Seats\<close>, \<open>Pa3_Agree\<close>: both ends of the wire, one exchange from request to
      response, the numbers in requests, and the agreement of client and server on who is logged in.
    \<^item> \<open>Pa3_Properties\<close>: the properties of the system.
  One request is served as one step of the transition system; the theorem on deadlocks is about the
  sequences of lock operations that these steps record, interleaved in every way. A handler that would read a
  string from a buffer without a byte (a declared length of \<open>2 ^ 64 - 1\<close>) is \<open>Undefined\<close>.

  \<^bold>\<open>Exercises\<close> (\<^verbatim>\<open>week*\<close>). Each is a program of its own; no program uses another.
    \<^item> \<open>Week6_Signals\<close> (\<^verbatim>\<open>w6.c\<close>): two processes that count signals, a transition system over the pending signals.
    \<^item> \<open>Week7_Shell\<close> (\<^verbatim>\<open>w7.c\<close>): a small shell; its parser of lines in place against a tokenizer over lists.
    \<^item> \<open>Week10_Transfer\<close> (\<^verbatim>\<open>week10/client.c\<close>, \<^verbatim>\<open>week10/server.c\<close>): copying files over a connection, on the hosts of
      \<open>Pa3_Common\<close>. \<open>Week10_Copies\<close>: the messages, and a session of both ends.
    \<^item> \<open>Week11_Threads\<close> (\<^verbatim>\<open>w11.c\<close>): threads in batches. The main thread is a list of commands; the locale
      \<open>thread_phase\<close> is what a phase of creating and joining relies on, interpreted on both phases of the program.
    \<^item> \<open>Week12_Chat\<close> (\<^verbatim>\<open>w12_server.c\<close>): the array of poll entries of a chat server and its invariant.
    \<^item> \<open>Week13_Queue\<close> (\<^verbatim>\<open>w13.c\<close>): a bounded queue between two threads, with a step for every operation on the mutex and
      the conditions; a run has at most 20 steps for every iteration and 18 more.
    \<^item> \<open>Week14_Echo\<close> (\<^verbatim>\<open>2021312344-w14.c\<close>): the serving part of an echo daemon. \<open>Week_Properties\<close>: the properties.

  \<^bold>\<open>Inputs of the models.\<close> The shell: the environment, the working and home directory, which files can be
  opened, what children do. The server: what \<^verbatim>\<open>poll\<close> and \<^verbatim>\<open>accept\<close> return, random bytes, and Argon2 as the field
  of \<open>crypto\<close>, used only through the agreement of hashing and verifying. The client: the lines typed and
  the flag of its signal handler. \<open>head\<close> and \<open>tail\<close>: how much of its output the C library holds back.

  \<^bold>\<open>Not modelled.\<close> Creating and connecting sockets, starting threads, the line editor, the installation of
  signal handlers and the terminal's process group; text on the error stream; functions of the shell that
  only print for debugging; failing allocations in the shell, whose source does not test most of them;
  reading a script file into memory before its lines are taken; symbolic links in \<open>Pa2_Disk\<close>; printing by threads; shortened
  reads of regular files, and an interrupted \<^verbatim>\<open>close\<close>, which counts as done, for its descriptor is released. Of the
  exercises: detaching the echo daemon from its terminal and its file with the process number, allocation and random
  contents in \<^verbatim>\<open>w11.c\<close>, and all of \<^verbatim>\<open>week1\<close> to \<^verbatim>\<open>week5\<close>, \<^verbatim>\<open>week9\<close> and \<^verbatim>\<open>w12_client.c\<close>, which are first programs, input
  and output, and a terminal client.
\<close>

end
